(* ===== verification/Prelude.thy ===== *)
theory Prelude
  imports Main
begin

text \<open>
  Shared vocabulary of the development: the result type of fallible code, the range of
  the C++ \<open>int\<close>, executable transition systems with their reachable states, and the
  generic invariant rule that the concurrent components instantiate.
\<close>

section \<open>Automation collections\<close>

named_theorems op_defs \<open>definitions of the operations of a component\<close>
named_theorems inv_defs \<open>definitions of component invariants\<close>

section \<open>Lists\<close>

text \<open>Counting the elements with a property after one element is replaced.\<close>

lemma count_update:
  "i < length xs \<Longrightarrow> length (filter P (xs[i := y])) + (if P (xs ! i) then 1 else 0) =
     length (filter P xs) + (if P y then 1 else 0)"
proof (induction xs arbitrary: i)
  case (Cons x xs)
  show ?case
  proof (cases i)
    case (Suc j)
    with Cons.IH [of j] Cons.prems show ?thesis by simp
  qed simp
qed simp

lemma list_ex_update:
  "list_ex P (xs[i := y]) \<Longrightarrow> list_ex P xs \<or> P y"
  by (auto simp: list_ex_iff dest: set_update_subset_insert [THEN subsetD])

section \<open>Fallible results\<close>

text \<open>
  A C++ function that may throw, or that runs into undefined behaviour, returns a sum:
  \<open>Inl\<close> carries the reason, \<open>Inr\<close> the result. \<open>bindr\<close> is sequencing: the rest
  of the function runs only when the first part returned.
\<close>

fun bindr :: "'e + 'a \<Rightarrow> ('a \<Rightarrow> 'e + 'b) \<Rightarrow> 'e + 'b" where
  "bindr (Inl e) f = Inl e"
| "bindr (Inr x) f = f x"

lemma bindr_Inr_iff: "bindr m f = Inr y \<longleftrightarrow> (\<exists>x. m = Inr x \<and> f x = Inr y)"
  by (cases m) auto

lemma bindr_Inl_iff: "bindr m f = Inl e \<longleftrightarrow> m = Inl e \<or> (\<exists>x. m = Inr x \<and> f x = Inl e)"
  by (cases m) auto

lemma bindr_assoc: "bindr (bindr m f) g = bindr m (\<lambda>x. bindr (f x) g)"
  by (cases m) auto

lemma bindr_cong [fundef_cong]:
  "m = m' \<Longrightarrow> (\<And>x. m' = Inr x \<Longrightarrow> f x = g x) \<Longrightarrow> bindr m f = bindr m' g"
  by (cases m') auto

section \<open>The C++ \<open>int\<close>\<close>

text \<open>
  \<open>int\<close> has 32 bits on every platform the repository builds for. Signed overflow is
  undefined behaviour, so an operation that leaves the range has no value.
\<close>

definition int_min :: int where
  "int_min = - 2147483648"

definition int_max :: int where
  "int_max = 2147483647"

definition in_int :: "int \<Rightarrow> bool" where
  "in_int x \<longleftrightarrow> int_min \<le> x \<and> x \<le> int_max"

definition cint :: "int \<Rightarrow> int option" where
  "cint x = (if in_int x then Some x else None)"

lemma cint_Some_iff: "cint x = Some y \<longleftrightarrow> in_int x \<and> y = x"
  by (auto simp: cint_def)

lemma cint_None_iff: "cint x = None \<longleftrightarrow> \<not> in_int x"
  by (auto simp: cint_def)

lemmas int_range_defs = in_int_def int_min_def int_max_def

section \<open>Transition systems\<close>

text \<open>
  A concurrent component is a function \<open>step\<close> from a state and an action (which
  thread moves, and how the environment answers it) to the next state, \<open>None\<close> when
  the action is not enabled. \<open>run\<close> executes a schedule; \<open>reachable\<close> are the
  states some schedule leads to.
\<close>

inductive reachable :: "('s \<Rightarrow> 'a \<Rightarrow> 's option) \<Rightarrow> 's \<Rightarrow> 's \<Rightarrow> bool" for step start where
  reachable_start: "reachable step start start"
| reachable_step: "reachable step start s \<Longrightarrow> step s a = Some t \<Longrightarrow> reachable step start t"

fun run :: "('s \<Rightarrow> 'a \<Rightarrow> 's option) \<Rightarrow> 's \<Rightarrow> 'a list \<Rightarrow> 's option" where
  "run step s [] = Some s"
| "run step s (a # as) = (case step s a of None \<Rightarrow> None | Some t \<Rightarrow> run step t as)"

lemma run_append:
  "run step s (as @ bs) = (case run step s as of None \<Rightarrow> None | Some t \<Rightarrow> run step t bs)"
  by (induction as arbitrary: s) (auto split: option.splits)

lemma reachable_run_from:
  "reachable step start s \<Longrightarrow> run step s as = Some t \<Longrightarrow> reachable step start t"
  by (induction as arbitrary: s) (auto split: option.splits intro: reachable_step)

lemma run_reachable: "run step start as = Some t \<Longrightarrow> reachable step start t"
  by (rule reachable_run_from [OF reachable_start])

lemma reachable_iff_run: "reachable step start t \<longleftrightarrow> (\<exists>as. run step start as = Some t)"
proof
  assume "reachable step start t"
  then show "\<exists>as. run step start as = Some t"
  proof (induction rule: reachable.induct)
    case reachable_start
    show ?case by (rule exI [of _ "[]"]) simp
  next
    case (reachable_step s a t)
    then obtain as where "run step start as = Some s" by blast
    with reachable_step.hyps(2) have "run step start (as @ [a]) = Some t"
      by (simp add: run_append)
    then show ?case by blast
  qed
qed (auto intro: run_reachable)

definition enabled :: "('s \<Rightarrow> 'a \<Rightarrow> 's option) \<Rightarrow> 's \<Rightarrow> bool" where
  "enabled step s \<longleftrightarrow> (\<exists>a. step s a \<noteq> None)"

locale invariant_system =
  fixes step :: "'s \<Rightarrow> 'a \<Rightarrow> 's option" and start :: 's and inv :: "'s \<Rightarrow> bool"
  assumes inv_start: "inv start"
    and inv_step: "inv s \<Longrightarrow> step s a = Some t \<Longrightarrow> inv t"
begin

lemma reachable_inv: "reachable step start s \<Longrightarrow> inv s"
  by (induction rule: reachable.induct) (auto intro: inv_start inv_step)

lemma run_inv: "inv s \<Longrightarrow> run step s as = Some t \<Longrightarrow> inv t"
  by (induction as arbitrary: s) (auto split: option.splits intro: inv_step)

end

end
