(* ===== verification/MyOptional.thy ===== *)
theory MyOptional
  imports Prelude
begin

text \<open>
  \<open>myOptional\<close> of \<open>container/myoptional.h\<close>: a flag and a union that holds a \<open>T\<close>
  only while the flag is set. Objects live in a store indexed by their address, so that
  the assignments can be studied with \<open>this\<close> and \<open>that\<close> being the same object. The
  union's storage is \<open>NoObject\<close> or a living \<open>Object\<close>; the ghost counters record how
  many \<open>T\<close> were constructed and destroyed in it. Destroying storage without an object,
  constructing over a living object and reading a dead one are errors of the model.
  The header spells the other operand's value \<open>__that.m_value\<close> and the self test
  \<open>this == __that\<close>; they are read as \<open>__that.__m_value\<close> and \<open>this == &__that\<close>.
\<close>

section \<open>Storage and lifetime\<close>

datatype 'a slot = NoObject | Object 'a

datatype opt_error =
    BadOptionalAccess   \<comment> \<open>\<open>__my_bad_optional_access\<close> is thrown\<close>
  | DestroyDead         \<comment> \<open>a destructor runs where no object lives\<close>
  | OverwriteLive       \<comment> \<open>placement new over a living object, which is leaked\<close>
  | ReadDead            \<comment> \<open>the value is read where no object lives\<close>

record 'a myOptional =
  m_has_value :: bool
  m_value :: "'a slot"
  n_ctor :: nat
  n_dtor :: nat

type_synonym addr = nat
type_synonym 'a store = "addr \<Rightarrow> 'a myOptional"
type_synonym 'a effect = "opt_error + 'a store"

definition opt_what :: "string" where
  "opt_what = ''bad myoptional access!''"

definition raw_storage :: "'a myOptional" where
  "raw_storage = \<lparr>m_has_value = False, m_value = NoObject, n_ctor = 0, n_dtor = 0\<rparr>"

fun destroy_value :: "'a myOptional \<Rightarrow> opt_error + 'a myOptional" where
  "destroy_value x = (case m_value x of
     NoObject \<Rightarrow> Inl DestroyDead
   | Object v \<Rightarrow> Inr (x\<lparr>m_value := NoObject, n_dtor := Suc (n_dtor x)\<rparr>))"

fun construct_value :: "'a \<Rightarrow> 'a myOptional \<Rightarrow> opt_error + 'a myOptional" where
  "construct_value v x = (case m_value x of
     Object _ \<Rightarrow> Inl OverwriteLive
   | NoObject \<Rightarrow> Inr (x\<lparr>m_value := Object v, n_ctor := Suc (n_ctor x)\<rparr>))"

fun read_value :: "'a myOptional \<Rightarrow> opt_error + 'a" where
  "read_value x = (case m_value x of NoObject \<Rightarrow> Inl ReadDead | Object v \<Rightarrow> Inr v)"

section \<open>Constructors and destructor\<close>

definition opt_of_value :: "'a \<Rightarrow> 'a myOptional" where
  "opt_of_value v = raw_storage\<lparr>m_has_value := True, m_value := Object v, n_ctor := 1\<rparr>"

definition opt_default :: "'a myOptional" where
  "opt_default = raw_storage"

definition opt_nullopt :: "'a myOptional" where
  "opt_nullopt = raw_storage"

definition copy_construct :: "'a myOptional \<Rightarrow> opt_error + 'a myOptional" where
  "copy_construct that =
     (let x = raw_storage\<lparr>m_has_value := m_has_value that\<rparr> in
      if m_has_value x then bindr (read_value that) (\<lambda>v. construct_value v x) else Inr x)"

text \<open>
  Moving from a \<open>T\<close> leaves the source alive in a state its move constructor chooses;
  \<open>mf\<close> is that choice. The new object and the moved-from optional are returned.
\<close>

definition move_construct ::
  "('a \<Rightarrow> 'a) \<Rightarrow> 'a myOptional \<Rightarrow> opt_error + ('a myOptional \<times> 'a myOptional)" where
  "move_construct mf that =
     (let x = raw_storage\<lparr>m_has_value := m_has_value that\<rparr> in
      if m_has_value x
      then bindr (read_value that) (\<lambda>v. bindr (construct_value v x) (\<lambda>x'.
             Inr (x', that\<lparr>m_value := Object (mf v)\<rparr>)))
      else Inr (x, that))"

definition destruct :: "'a myOptional \<Rightarrow> opt_error + 'a myOptional" where
  "destruct x = (if m_has_value x then destroy_value x else Inr x)"

section \<open>Modifiers\<close>

text \<open>The block that \<open>operator=\<close>, \<open>emplace\<close> and \<open>reset\<close> start with.\<close>

definition opt_reset :: "addr \<Rightarrow> 'a store \<Rightarrow> 'a effect" where
  "opt_reset this st =
     (if m_has_value (st this)
      then bindr (destroy_value (st this)) (\<lambda>x. Inr (st(this := x\<lparr>m_has_value := False\<rparr>)))
      else Inr st)"

definition assign_nullopt :: "addr \<Rightarrow> 'a store \<Rightarrow> 'a effect" where
  "assign_nullopt this st =
     (if m_has_value (st this)
      then bindr (destroy_value (st this)) (\<lambda>x. Inr (st(this := x\<lparr>m_has_value := False\<rparr>)))
      else Inr st)"

definition assign_value :: "addr \<Rightarrow> 'a \<Rightarrow> 'a store \<Rightarrow> 'a effect" where
  "assign_value this v st =
     bindr (opt_reset this st) (\<lambda>st.
     bindr (construct_value v (st this)) (\<lambda>x.
     Inr (st(this := x\<lparr>m_has_value := True\<rparr>))))"

definition copy_assign :: "addr \<Rightarrow> addr \<Rightarrow> 'a store \<Rightarrow> 'a effect" where
  "copy_assign this that st =
     (if this = that then Inr st
      else bindr (opt_reset this st) (\<lambda>st.
           bindr (if m_has_value (st that)
                  then bindr (read_value (st that)) (\<lambda>v.
                       bindr (construct_value v (st this)) (\<lambda>x. Inr (st(this := x))))
                  else Inr st) (\<lambda>st.
           Inr (st(this := (st this)\<lparr>m_has_value := m_has_value (st that)\<rparr>)))))"

text \<open>The move assignment has no self test and destroys the source's value itself.\<close>

definition move_assign :: "addr \<Rightarrow> addr \<Rightarrow> 'a store \<Rightarrow> 'a effect" where
  "move_assign this that st =
     bindr (opt_reset this st) (\<lambda>st.
     bindr (if m_has_value (st that)
            then bindr (read_value (st that)) (\<lambda>v.
                 bindr (construct_value v (st this)) (\<lambda>x.
                 let st' = st(this := x) in
                 bindr (destroy_value (st' that)) (\<lambda>y. Inr (st'(that := y)))))
            else Inr st) (\<lambda>st.
     let st' = st(this := (st this)\<lparr>m_has_value := m_has_value (st that)\<rparr>) in
     Inr (st'(that := (st' that)\<lparr>m_has_value := False\<rparr>))))"

text \<open>
  The arguments of \<open>emplace\<close> are forwarded references: the constructor of the new value
  reads them after the old value was destroyed. \<open>mk\<close> is that constructor call.
\<close>

definition emplace :: "addr \<Rightarrow> ('a store \<Rightarrow> opt_error + 'a) \<Rightarrow> 'a store \<Rightarrow> 'a effect" where
  "emplace this mk st =
     bindr (opt_reset this st) (\<lambda>st.
     bindr (mk st) (\<lambda>v.
     bindr (construct_value v (st this)) (\<lambda>x.
     Inr (st(this := x\<lparr>m_has_value := True\<rparr>)))))"

section \<open>Observers and monadic operations\<close>

definition has_value :: "'a myOptional \<Rightarrow> bool" where
  "has_value x = m_has_value x"

definition operator_bool :: "'a myOptional \<Rightarrow> bool" where
  "operator_bool x = m_has_value x"

definition opt_value :: "'a myOptional \<Rightarrow> opt_error + 'a" where
  "opt_value x = (if m_has_value x then read_value x else Inl BadOptionalAccess)"

definition deref :: "'a myOptional \<Rightarrow> opt_error + 'a" where
  "deref x = read_value x"

definition arrow :: "('a \<Rightarrow> 'b) \<Rightarrow> 'a myOptional \<Rightarrow> opt_error + 'b" where
  "arrow field x = bindr (read_value x) (\<lambda>v. Inr (field v))"

definition value_or :: "'a myOptional \<Rightarrow> 'a \<Rightarrow> opt_error + 'a" where
  "value_or x default_value = (if m_has_value x then read_value x else Inr default_value)"

text \<open>\<open>and_then\<close> returns \<open>_RetType{}\<close>, here \<open>ret0\<close>, when there is no value.\<close>

definition and_then :: "'r \<Rightarrow> ('a \<Rightarrow> 'r) \<Rightarrow> 'a myOptional \<Rightarrow> opt_error + 'r" where
  "and_then ret0 f x = (if m_has_value x then bindr (read_value x) (\<lambda>v. Inr (f v)) else Inr ret0)"

definition transform :: "('a \<Rightarrow> 'b) \<Rightarrow> 'a myOptional \<Rightarrow> opt_error + 'b myOptional" where
  "transform f x =
     (if m_has_value x then bindr (read_value x) (\<lambda>v. Inr (opt_of_value (f v)))
      else Inr opt_nullopt)"

definition or_else :: "(unit \<Rightarrow> 'a myOptional) \<Rightarrow> 'a myOptional \<Rightarrow> opt_error + 'a myOptional" where
  "or_else f x = (if m_has_value x then copy_construct x else Inr (f ()))"

section \<open>Invariant and abstraction\<close>

text \<open>
  The flag says whether an object lives in the union, and every constructed object but a
  living one has been destroyed exactly once. \<open>opt_abs\<close> is the optional value.
\<close>

definition opt_inv :: "'a myOptional \<Rightarrow> bool" where
  "opt_inv x \<longleftrightarrow> (case m_value x of
     NoObject \<Rightarrow> \<not> m_has_value x \<and> n_ctor x = n_dtor x
   | Object v \<Rightarrow> m_has_value x \<and> n_ctor x = Suc (n_dtor x))"

definition opt_abs :: "'a myOptional \<Rightarrow> 'a option" where
  "opt_abs x = (case m_value x of NoObject \<Rightarrow> None | Object v \<Rightarrow> Some v)"

definition store_inv :: "'a store \<Rightarrow> bool" where
  "store_inv st \<longleftrightarrow> (\<forall>a. opt_inv (st a))"

definition store_abs :: "'a store \<Rightarrow> addr \<Rightarrow> 'a option" where
  "store_abs st = (\<lambda>a. opt_abs (st a))"

lemmas opt_obs_defs = has_value_def operator_bool_def opt_value_def deref_def value_or_def
  and_then_def transform_def or_else_def copy_construct_def opt_of_value_def opt_nullopt_def
  opt_default_def raw_storage_def

lemma opt_inv_cases:
  assumes "opt_inv x"
  obtains (empty) "m_value x = NoObject" "\<not> m_has_value x" "n_ctor x = n_dtor x" "opt_abs x = None"
  | (full) v where "m_value x = Object v" "m_has_value x" "n_ctor x = Suc (n_dtor x)" "opt_abs x = Some v"
  using assms by (auto simp: opt_inv_def opt_abs_def split: slot.splits)

lemma has_value_iff_abs: "opt_inv x \<Longrightarrow> m_has_value x \<longleftrightarrow> opt_abs x \<noteq> None"
  by (erule opt_inv_cases) auto

lemma read_value_abs: "opt_inv x \<Longrightarrow> opt_abs x = Some v \<Longrightarrow> read_value x = Inr v"
  by (erule opt_inv_cases) auto

section \<open>Programs of optional operations\<close>

text \<open>
  A program is any sequence of the mutating operations on objects of the store;
  \<open>spec_cmd\<close> is what each does to optional values.
\<close>

datatype 'a opt_cmd =
    AssignNullopt addr
  | AssignValue addr 'a
  | CopyAssign addr addr
  | MoveAssign addr addr
  | Emplace addr 'a
  | Reset addr

fun exec_cmd :: "'a opt_cmd \<Rightarrow> 'a store \<Rightarrow> 'a effect" where
  "exec_cmd (AssignNullopt a) st = assign_nullopt a st"
| "exec_cmd (AssignValue a v) st = assign_value a v st"
| "exec_cmd (CopyAssign a b) st = copy_assign a b st"
| "exec_cmd (MoveAssign a b) st = move_assign a b st"
| "exec_cmd (Emplace a v) st = emplace a (\<lambda>_. Inr v) st"
| "exec_cmd (Reset a) st = opt_reset a st"

fun exec_cmds :: "'a opt_cmd list \<Rightarrow> 'a store \<Rightarrow> 'a effect" where
  "exec_cmds [] st = Inr st"
| "exec_cmds (c # cs) st = bindr (exec_cmd c st) (exec_cmds cs)"

fun spec_cmd :: "'a opt_cmd \<Rightarrow> (addr \<Rightarrow> 'a option) \<Rightarrow> addr \<Rightarrow> 'a option" where
  "spec_cmd (AssignNullopt a) m = m(a := None)"
| "spec_cmd (AssignValue a v) m = m(a := Some v)"
| "spec_cmd (CopyAssign a b) m = m(a := m b)"
| "spec_cmd (MoveAssign a b) m = m(a := m b, b := None)"
| "spec_cmd (Emplace a v) m = m(a := Some v)"
| "spec_cmd (Reset a) m = m(a := None)"

definition opt_ok :: "'a effect \<Rightarrow> (addr \<Rightarrow> 'a option) \<Rightarrow> bool" where
  "opt_ok r m \<longleftrightarrow> (\<exists>st. r = Inr st \<and> store_inv st \<and> store_abs st = m)"

lemma opt_okI: "store_inv st \<Longrightarrow> store_abs st = m \<Longrightarrow> opt_ok (Inr st) m"
  by (auto simp: opt_ok_def)

lemma store_inv_upd: "store_inv st \<Longrightarrow> opt_inv x \<Longrightarrow> store_inv (st(a := x))"
  by (simp add: store_inv_def)

lemma store_abs_upd: "store_abs (st(a := x)) = (store_abs st)(a := opt_abs x)"
  by (simp add: store_abs_def fun_eq_iff)

lemma store_abs_apply: "store_abs st a = opt_abs (st a)"
  by (simp add: store_abs_def)

lemma store_invD: "store_inv st \<Longrightarrow> opt_inv (st a)"
  by (simp add: store_inv_def)

lemma upd_same_abs: "opt_abs (st a) = x \<Longrightarrow> (store_abs st)(a := x) = store_abs st"
  by (auto simp: store_abs_def)

lemma opt_reset_cases:
  assumes "store_inv st"
  obtains st' where "opt_reset a st = Inr st'" "store_inv st'" "store_abs st' = (store_abs st)(a := None)"
    "m_value (st' a) = NoObject" "\<And>b. b \<noteq> a \<Longrightarrow> st' b = st b"
proof (cases rule: opt_inv_cases [OF store_invD [OF assms, of a]])
  case 1
  then show ?thesis
    using assms that [of st] by (auto simp: opt_reset_def upd_same_abs)
next
  case (2 v)
  let ?x = "st a\<lparr>m_value := NoObject, n_dtor := Suc (n_dtor (st a)), m_has_value := False\<rparr>"
  have "opt_inv ?x" "opt_abs ?x = None" using 2 by (auto simp: opt_inv_def opt_abs_def)
  with 2 show ?thesis
    using assms that [of "st(a := ?x)"] by (auto simp: opt_reset_def store_inv_upd store_abs_upd)
qed

lemma construct_inv:
  assumes "opt_inv x" "m_value x = NoObject"
  obtains y where "construct_value v x = Inr y" "opt_inv (y\<lparr>m_has_value := True\<rparr>)"
    "opt_abs (y\<lparr>m_has_value := True\<rparr>) = Some v" "m_value y = Object v"
  using assms that by (auto simp: opt_inv_def opt_abs_def)

lemma reset_ok: "store_inv st \<Longrightarrow> opt_ok (opt_reset a st) ((store_abs st)(a := None))"
  by (rule opt_reset_cases [of st a]) (auto intro: opt_okI)

lemma assign_nullopt_is_reset: "assign_nullopt a st = opt_reset a st"
  by (simp add: assign_nullopt_def opt_reset_def)

lemma emplace_ok:
  assumes "store_inv st"
  shows "opt_ok (emplace a (\<lambda>_. Inr v) st) ((store_abs st)(a := Some v))"
proof -
  from opt_reset_cases [OF assms, of a] obtain st' where
    r: "opt_reset a st = Inr st'" "store_inv st'" "store_abs st' = (store_abs st)(a := None)"
       "m_value (st' a) = NoObject" by blast
  from construct_inv [OF store_invD [OF r(2)] r(4), of v] obtain y where
    "construct_value v (st' a) = Inr y" "opt_inv (y\<lparr>m_has_value := True\<rparr>)"
    "opt_abs (y\<lparr>m_has_value := True\<rparr>) = Some v" by blast
  with r show ?thesis
    by (simp add: emplace_def del: construct_value.simps)
      (auto intro!: opt_okI simp: store_inv_upd store_abs_upd)
qed

lemma assign_value_is_emplace: "assign_value a v st = emplace a (\<lambda>_. Inr v) st"
  by (simp add: assign_value_def emplace_def)

lemma copy_assign_ok:
  assumes inv: "store_inv st"
  shows "opt_ok (copy_assign a b st) ((store_abs st)(a := store_abs st b))"
proof (cases "a = b")
  case True
  with inv show ?thesis by (auto simp: copy_assign_def intro: opt_okI)
next
  case False
  from opt_reset_cases [OF inv, of a] obtain st' where
    r: "opt_reset a st = Inr st'" "store_inv st'" "store_abs st' = (store_abs st)(a := None)"
       "m_value (st' a) = NoObject" and o: "\<And>c. c \<noteq> a \<Longrightarrow> st' c = st c" by blast
  have b: "st' b = st b" using False o [of b] by simp
  show ?thesis
  proof (cases rule: opt_inv_cases [OF store_invD [OF inv, of b]])
    case 1
    with r b have "copy_assign a b st = Inr (st'(a := (st' a)\<lparr>m_has_value := False\<rparr>))"
      using False by (simp add: copy_assign_def)
    moreover have "opt_inv ((st' a)\<lparr>m_has_value := False\<rparr>)" "opt_abs ((st' a)\<lparr>m_has_value := False\<rparr>) = None"
      using store_invD [OF r(2), of a] r(4) by (auto simp: opt_inv_def opt_abs_def)
    ultimately show ?thesis
      using 1 r by (auto intro!: opt_okI simp: store_inv_upd store_abs_upd store_abs_apply)
  next
    case (2 v)
    from construct_inv [OF store_invD [OF r(2)] r(4), of v] obtain y where
      "construct_value v (st' a) = Inr y" "opt_inv (y\<lparr>m_has_value := True\<rparr>)"
      "opt_abs (y\<lparr>m_has_value := True\<rparr>) = Some v" by blast
    moreover from 2 b have "read_value (st' b) = Inr v" by simp
    ultimately show ?thesis
      using 2 r b False by (auto simp: copy_assign_def store_inv_upd store_abs_upd store_abs_apply
        simp del: construct_value.simps read_value.simps intro!: opt_okI)
  qed
qed

lemma move_assign_ok:
  assumes inv: "store_inv st"
  shows "opt_ok (move_assign a b st) ((store_abs st)(a := store_abs st b, b := None))"
proof -
  from opt_reset_cases [OF inv, of a] obtain st' where
    r: "opt_reset a st = Inr st'" "store_inv st'" "store_abs st' = (store_abs st)(a := None)"
       "m_value (st' a) = NoObject" and o: "\<And>c. c \<noteq> a \<Longrightarrow> st' c = st c" by blast
  have a: "opt_inv (st' a)" "\<not> m_has_value (st' a)" "opt_abs (st' a) = None"
    using store_invD [OF r(2), of a] r(4) by (auto simp: opt_inv_def opt_abs_def)
  have af: "(st' a)\<lparr>m_has_value := False\<rparr> = st' a" using a(2) by simp
  show ?thesis
  proof (cases rule: opt_inv_cases [OF store_invD [OF r(2), of b]])
    case 1
    then have bf: "(st' b)\<lparr>m_has_value := False\<rparr> = st' b" by simp
    have "move_assign a b st = Inr st'"
      using 1 r(1) af bf by (auto simp: move_assign_def fun_eq_iff)
    moreover have "a \<noteq> b \<Longrightarrow> store_abs st b = None" using 1 o [of b] by (auto simp: store_abs_apply)
    ultimately show ?thesis
      using r 1 by (auto intro!: opt_okI simp: fun_eq_iff)
  next
    case (2 v)
    then have ab: "a \<noteq> b" using a(2) by auto
    with 2 o [of b] have v: "store_abs st b = Some v" by (simp add: store_abs_apply)
    from construct_inv [OF a(1) r(4), of v] obtain y where
      y: "construct_value v (st' a) = Inr y" "opt_inv (y\<lparr>m_has_value := True\<rparr>)"
      "opt_abs (y\<lparr>m_has_value := True\<rparr>) = Some v" by blast
    let ?z = "(st' b)\<lparr>m_value := NoObject, n_dtor := Suc (n_dtor (st' b)), m_has_value := False\<rparr>"
    have z: "opt_inv ?z" "opt_abs ?z = None" using 2 by (auto simp: opt_inv_def opt_abs_def)
    have "move_assign a b st = Inr (st'(a := y\<lparr>m_has_value := True\<rparr>, b := ?z))"
      using 2 r(1) y(1) ab by (simp add: move_assign_def Let_def fun_upd_twist)
    then show ?thesis
      using y z r v ab by (auto intro!: opt_okI simp: store_inv_upd store_abs_upd)
  qed
qed

lemma exec_cmd_ok: "store_inv st \<Longrightarrow> opt_ok (exec_cmd c st) (spec_cmd c (store_abs st))"
  by (cases c) (auto simp: assign_nullopt_is_reset assign_value_is_emplace
      intro: reset_ok emplace_ok copy_assign_ok move_assign_ok)

lemma exec_cmds_ok:
  "store_inv st \<Longrightarrow> opt_ok (exec_cmds cs st) (fold spec_cmd cs (store_abs st))"
proof (induction cs arbitrary: st)
  case Nil
  then show ?case by (auto intro: opt_okI)
next
  case (Cons c cs)
  from exec_cmd_ok [OF Cons.prems, of c] obtain st' where
    "exec_cmd c st = Inr st'" "store_inv st'" "store_abs st' = spec_cmd c (store_abs st)"
    by (auto simp: opt_ok_def)
  with Cons.IH [of st'] show ?case by simp
qed

lemma default_store_inv: "store_inv (\<lambda>_. opt_default)"
  by (simp add: store_inv_def opt_inv_def opt_default_def raw_storage_def)

lemma destruct_balanced: "opt_inv x \<Longrightarrow> \<exists>y. destruct x = Inr y \<and> n_ctor y = n_dtor y"
  by (erule opt_inv_cases) (auto simp: destruct_def)

section \<open>Properties\<close>

text \<open>every program of assignments, emplacements and resets on optionals that satisfy
  the lifetime invariant runs without a lifetime error, keeps the invariant and has the
  effect of the abstract operations on optional values, whichever operands coincide. In
  particular a copy self-assignment changes nothing and a move self-assignment empties.\<close>

theorem optional_refinement:
  "store_inv st \<Longrightarrow>
     \<exists>st'. exec_cmds cs st = Inr st' \<and> store_inv st' \<and>
           store_abs st' = fold spec_cmd cs (store_abs st)"
  using exec_cmds_ok [of st cs] by (auto simp: opt_ok_def)

theorem optional_refinement_witness:
  "\<exists>st'. exec_cmds [AssignValue 0 (7::int), CopyAssign 1 0, MoveAssign 2 1, MoveAssign 0 0]
           (\<lambda>_. opt_default) = Inr st' \<and> store_inv st' \<and>
         store_abs st' = fold spec_cmd [AssignValue 0 7, CopyAssign 1 0, MoveAssign 2 1, MoveAssign 0 0]
           (store_abs (\<lambda>_. opt_default))"
  by (rule optional_refinement [OF default_store_inv])

text \<open>no optional leaks or destroys twice: after any program on default constructed
  optionals, running the destructor of any of them succeeds and leaves as many objects
  destroyed as were constructed in its storage.\<close>

theorem optional_no_leak:
  "\<exists>st y. exec_cmds cs (\<lambda>_. opt_default) = Inr st \<and> destruct (st a) = Inr y \<and>
          n_ctor y = n_dtor y"
  using exec_cmds_ok [OF default_store_inv, of cs] destruct_balanced
  by (fastforce simp: opt_ok_def store_inv_def)

text \<open>the observers and monadic operations of a well-formed optional are those of the
  optional value it stands for: \<open>value\<close> throws exactly when it is empty, \<open>value_or\<close>,
  \<open>and_then\<close> and \<open>or_else\<close> take their default branch exactly then, and \<open>transform\<close> maps
  the value into a well-formed optional.\<close>

theorem optional_observers:
  "opt_inv x \<Longrightarrow>
     opt_value x = (case opt_abs x of None \<Rightarrow> Inl BadOptionalAccess | Some v \<Rightarrow> Inr v) \<and>
     value_or x d = Inr (case opt_abs x of None \<Rightarrow> d | Some v \<Rightarrow> v) \<and>
     and_then r f x = Inr (case opt_abs x of None \<Rightarrow> r | Some v \<Rightarrow> f v) \<and>
     (\<exists>y. transform g x = Inr y \<and> opt_inv y \<and> opt_abs y = map_option g (opt_abs x)) \<and>
     (\<exists>y. or_else h x = Inr y \<and>
          (case opt_abs x of None \<Rightarrow> y = h () | Some v \<Rightarrow> opt_inv y \<and> opt_abs y = Some v))"
  by (erule opt_inv_cases) (auto simp: opt_obs_defs Let_def opt_inv_def opt_abs_def)

theorem optional_observers_witness:
  "opt_value (opt_of_value (3::int)) = Inr 3 \<and> value_or (opt_of_value 3) 9 = Inr (3::int)"
proof -
  have "opt_inv (opt_of_value (3::int))" by (simp add: opt_inv_def opt_of_value_def raw_storage_def)
  from optional_observers [OF this, of 9 0 id id "\<lambda>_. opt_default"] show ?thesis
    by (simp add: opt_abs_def opt_of_value_def raw_storage_def)
qed

text \<open>\<open>emplace\<close> destroys the old value before it reads its forwarded arguments, so
  emplacing from a reference to the optional's own value reads a dead object.\<close>

theorem optional_emplace_self_is_dangling:
  "store_inv st \<Longrightarrow> emplace a (\<lambda>s. read_value (s a)) st = Inl ReadDead"
  by (rule opt_reset_cases [of st a]) (auto simp: emplace_def)

theorem optional_emplace_self_is_dangling_witness:
  "emplace 0 (\<lambda>s. read_value (s 0)) ((\<lambda>_. opt_default)(0 := opt_of_value (5::int))) = Inl ReadDead"
  by (rule optional_emplace_self_is_dangling, rule store_inv_upd [OF default_store_inv])
    (simp add: opt_inv_def opt_of_value_def raw_storage_def)

end
