(* ===== verification/CxxText.thy ===== *)
theory CxxText
  imports Prelude "HOL-Library.Sublist"
begin

text \<open>
  The text conversions of the C and C++ library that the programs use: \<open>std::to_string\<close>,
  \<open>sprintf("%4d")\<close>, \<open>std::atoi\<close> and unsigned extraction from a stream. Characters are
  bytes. The lemmas say that reading a printed number gives the number back.
\<close>

section \<open>Digits\<close>

definition digit_char :: "nat \<Rightarrow> char" where
  "digit_char d = char_of (48 + d)"

definition is_digit :: "char \<Rightarrow> bool" where
  "is_digit c \<longleftrightarrow> 48 \<le> (of_char c :: nat) \<and> (of_char c :: nat) \<le> 57"

definition digit_val :: "char \<Rightarrow> nat" where
  "digit_val c = of_char c - 48"

definition is_space :: "char \<Rightarrow> bool" where
  "is_space c \<longleftrightarrow> (of_char c :: nat) = 32 \<or> (9 \<le> (of_char c :: nat) \<and> (of_char c :: nat) \<le> 13)"

lemma of_digit_char: "d < 10 \<Longrightarrow> (of_char (digit_char d) :: nat) = 48 + d"
  by (simp add: digit_char_def of_char_of)

lemma is_digit_digit_char [simp]: "d < 10 \<Longrightarrow> is_digit (digit_char d)"
  by (simp add: is_digit_def of_digit_char)

lemma digit_val_digit_char [simp]: "d < 10 \<Longrightarrow> digit_val (digit_char d) = d"
  by (simp add: digit_val_def of_digit_char)

lemma digit_not_space: "is_digit c \<Longrightarrow> \<not> is_space c"
  by (auto simp: is_digit_def is_space_def)

lemma is_space_blank [simp]: "is_space CHR '' ''"
  by (simp add: is_space_def)

lemma not_digit_blank [simp]: "\<not> is_digit CHR '' ''"
  by (simp add: is_digit_def)

section \<open>Printing\<close>

text \<open>\<open>std::to_string\<close> of an unsigned number.\<close>

fun show_nat :: "nat \<Rightarrow> string" where
  "show_nat n = (if n < 10 then [digit_char n] else show_nat (n div 10) @ [digit_char (n mod 10)])"

declare show_nat.simps [simp del]

definition show_int :: "int \<Rightarrow> string" where
  "show_int i = (if i < 0 then ''-'' @ show_nat (nat (- i)) else show_nat (nat i))"

text \<open>\<open>sprintf("%4d")\<close>: right-justified in a field of at least \<open>w\<close> characters.\<close>

definition pad_left :: "nat \<Rightarrow> string \<Rightarrow> string" where
  "pad_left w s = replicate (w - length s) CHR '' '' @ s"

lemma show_nat_nonempty [simp]: "show_nat n \<noteq> []"
  by (subst show_nat.simps) simp

lemma show_nat_digits: "list_all is_digit (show_nat n)"
proof (induction n rule: show_nat.induct)
  case (1 n)
  then show ?case by (subst show_nat.simps) simp
qed

lemma length_show_nat: "n < 10 ^ Suc k \<Longrightarrow> length (show_nat n) \<le> Suc k"
proof (induction k arbitrary: n)
  case 0
  then show ?case by (subst show_nat.simps) simp
next
  case (Suc k)
  from Suc.prems have "n div 10 < 10 ^ Suc k" by auto
  from Suc.IH [OF this] show ?case by (subst show_nat.simps) simp
qed

section \<open>Reading\<close>

fun read_digits :: "nat \<Rightarrow> string \<Rightarrow> nat \<times> string" where
  "read_digits a [] = (a, [])"
| "read_digits a (c # cs) = (if is_digit c then read_digits (10 * a + digit_val c) cs else (a, c # cs))"

text \<open>\<open>std::atoi\<close>: blanks, an optional sign, digits; whatever follows is ignored.\<close>

definition atoi :: "string \<Rightarrow> int" where
  "atoi s = (case dropWhile is_space s of
     [] \<Rightarrow> 0
   | c # cs \<Rightarrow>
       if c = CHR ''-'' then - int (fst (read_digits 0 cs))
       else if c = CHR ''+'' then int (fst (read_digits 0 cs))
       else int (fst (read_digits 0 (c # cs))))"

lemma read_digits_append:
  "list_all is_digit xs \<Longrightarrow> read_digits a (xs @ ys) = read_digits (fst (read_digits a xs)) ys"
  by (induction xs arbitrary: a) auto

lemma digit_val_le: "is_digit c \<Longrightarrow> digit_val c \<le> 9"
  unfolding is_digit_def digit_val_def by linarith

lemma read_digits_less: "fst (read_digits a s) < (a + 1) * 10 ^ length s"
proof (induction s arbitrary: a)
  case (Cons c cs)
  show ?case
  proof (cases "is_digit c")
    case True
    have "fst (read_digits (10 * a + digit_val c) cs) < (10 * a + digit_val c + 1) * 10 ^ length cs" by (rule Cons.IH)
    also have "\<dots> \<le> (10 * a + 10) * 10 ^ length cs" using digit_val_le [OF True] by (intro mult_right_mono) auto
    finally show ?thesis using True by (simp add: algebra_simps)
  next
    case False
    have "(a + 1) * 1 \<le> (a + 1) * 10 ^ length (c # cs)" by (intro mult_left_mono) auto
    with False show ?thesis by (simp del: power_Suc length_Cons)
  qed
qed simp

lemma atoi_less:
  assumes "length s \<le> k"
  shows "\<bar>atoi s\<bar> < 10 ^ k"
proof -
  have *: "int (fst (read_digits 0 t)) < 10 ^ k" if "length t \<le> k" for t
  proof -
    have "fst (read_digits 0 t) < 10 ^ length t" using read_digits_less [of 0 t] by simp
    also have "(10 :: nat) ^ length t \<le> 10 ^ k" using that by (intro power_increasing) auto
    finally have "int (fst (read_digits 0 t)) < int (10 ^ k)" by (simp only: of_nat_less_iff)
    then show ?thesis by simp
  qed
  have "length (dropWhile is_space s) \<le> k" using assms le_trans length_dropWhile_le by blast
  with * [of "dropWhile is_space s"] * [of "tl (dropWhile is_space s)"] show ?thesis
    by (cases "dropWhile is_space s") (simp_all add: atoi_def del: dropWhile_eq_Nil_conv)
qed

lemma read_digits_all: "list_all is_digit xs \<Longrightarrow> snd (read_digits a xs) = []"
  by (induction xs arbitrary: a) auto

lemma read_show_nat: "fst (read_digits 0 (show_nat n)) = n"
proof (induction n rule: show_nat.induct)
  case (1 n)
  show ?case
  proof (cases "n < 10")
    case True
    then show ?thesis by (subst show_nat.simps) simp
  next
    case False
    then show ?thesis
      using 1 by (subst show_nat.simps) (simp add: read_digits_append show_nat_digits)
  qed
qed

lemma read_show_nat_rest:
  assumes "r = [] \<or> \<not> is_digit (hd r)"
  shows "read_digits 0 (show_nat n @ r) = (n, r)"
proof -
  have "read_digits n r = (n, r)" using assms by (cases r) auto
  then show ?thesis by (simp add: read_digits_append show_nat_digits read_show_nat)
qed

lemma dropWhile_blanks:
  "list_all is_digit s \<Longrightarrow> s \<noteq> [] \<Longrightarrow> dropWhile is_space (replicate k CHR '' '' @ s) = s"
  by (induction k) (auto simp: neq_Nil_conv digit_not_space)

lemma hd_digit_sign: "is_digit c \<Longrightarrow> c \<noteq> CHR ''-'' \<and> c \<noteq> CHR ''+''"
  by (auto simp: is_digit_def)

lemma atoi_pad_show: "atoi (pad_left w (show_nat n)) = int n"
proof -
  obtain c cs where s: "show_nat n = c # cs" using show_nat_nonempty by (meson neq_Nil_conv)
  then have "is_digit c" using show_nat_digits [of n] by simp
  moreover have "dropWhile is_space (pad_left w (show_nat n)) = c # cs"
    unfolding pad_left_def s [symmetric] by (rule dropWhile_blanks [OF show_nat_digits show_nat_nonempty])
  ultimately show ?thesis
    using s read_show_nat [of n] hd_digit_sign [of c] by (simp add: atoi_def)
qed

end
