(* ===== verification/MyArray.thy ===== *)
theory MyArray
  imports CxxText "HOL-Library.Word"
begin

text \<open>
  \<open>myArray\<close> of \<open>container/myarray.h\<close>. The elements are a list whose length is the
  template argument \<open>_N\<close>; an index is a 64-bit \<open>size_t\<close>. Pointers and iterators are
  offsets from \<open>_M_element\<close>; reading through one outside the array is undefined
  behaviour. The reverse iterators are modelled by the value the functions construct,
  which does not convert to their declared type \<open>_Tp*\<close>.
\<close>

section \<open>State and errors\<close>

datatype array_error =
    RuntimeError string      \<comment> \<open>thrown by \<open>at\<close>\<close>
  | OutOfBounds              \<comment> \<open>access outside \<open>_M_element\<close>\<close>
  | AssertFailed             \<comment> \<open>\<open>assert(0)\<close> of the empty specialisation\<close>
  | MissingReturn            \<comment> \<open>flowing off the end of \<open>toArray\<close>\<close>

record 'a myArray =
  M_element :: "'a list"

type_synonym size_t = "64 word"

section \<open>Element access\<close>

definition read_at :: "'a list \<Rightarrow> int \<Rightarrow> array_error + 'a" where
  "read_at xs i = (if 0 \<le> i \<and> i < int (length xs) then Inr (xs ! nat i) else Inl OutOfBounds)"

definition array_index :: "'a myArray \<Rightarrow> size_t \<Rightarrow> array_error + 'a" where
  "array_index arr n = read_at (M_element arr) (uint n)"

definition array_at :: "'a myArray \<Rightarrow> size_t \<Rightarrow> array_error + 'a" where
  "array_at arr n =
     (if unat n \<ge> length (M_element arr)
      then Inl (RuntimeError (''out of range: index = '' @ show_nat (unat n)))
      else array_index arr n)"

definition array_front :: "'a myArray \<Rightarrow> array_error + 'a" where
  "array_front arr = read_at (M_element arr) 0"

definition array_back :: "'a myArray \<Rightarrow> array_error + 'a" where
  "array_back arr = read_at (M_element arr) (int (length (M_element arr)) - 1)"

text \<open>The \<open>const\<close> overload named \<open>end\<close> returns the last element, not an iterator.\<close>

definition end_const :: "'a myArray \<Rightarrow> array_error + 'a" where
  "end_const arr = read_at (M_element arr) (int (length (M_element arr)) - 1)"

definition array_size :: "'a myArray \<Rightarrow> nat" where
  "array_size arr = length (M_element arr)"

definition array_max_size :: "'a myArray \<Rightarrow> nat" where
  "array_max_size arr = length (M_element arr)"

section \<open>fill and swap\<close>

function fill_loop :: "'a \<Rightarrow> nat \<Rightarrow> 'a list \<Rightarrow> 'a list" where
  "fill_loop v i xs = (if i < length xs then fill_loop v (Suc i) (xs[i := v]) else xs)"
  by pat_completeness auto
termination
  by (relation "measure (\<lambda>(v, i, xs). length xs - i)") auto

declare fill_loop.simps [simp del]

definition array_fill :: "'a \<Rightarrow> 'a myArray \<Rightarrow> 'a myArray" where
  "array_fill v arr = arr\<lparr>M_element := fill_loop v 0 (M_element arr)\<rparr>"

function swap_loop :: "nat \<Rightarrow> nat \<Rightarrow> 'a list \<times> 'a list \<Rightarrow> 'a list \<times> 'a list" where
  "swap_loop n i (xs, ys) =
     (if i < n then swap_loop n (Suc i) (xs[i := ys ! i], ys[i := xs ! i]) else (xs, ys))"
  by pat_completeness auto
termination
  by (relation "measure (\<lambda>(n, i, _). n - i)") auto

declare swap_loop.simps [simp del]

text \<open>Both operands have the same type, hence the same \<open>_N\<close>.\<close>

definition array_swap :: "'a myArray \<Rightarrow> 'a myArray \<Rightarrow> 'a myArray \<times> 'a myArray" where
  "array_swap this other =
     (let (xs, ys) = swap_loop (length (M_element this)) 0 (M_element this, M_element other)
      in (this\<lparr>M_element := xs\<rparr>, other\<lparr>M_element := ys\<rparr>))"

section \<open>Pointers and iterators\<close>

type_synonym offset = int

definition array_data :: "'a myArray \<Rightarrow> offset" where
  "array_data arr = 0"

definition array_begin :: "'a myArray \<Rightarrow> offset" where
  "array_begin arr = 0"

definition array_end :: "'a myArray \<Rightarrow> offset" where
  "array_end arr = int (length (M_element arr))"

definition array_cbegin :: "'a myArray \<Rightarrow> offset" where
  "array_cbegin arr = array_begin arr"

definition array_cend :: "'a myArray \<Rightarrow> offset" where
  "array_cend arr = array_end arr"

text \<open>\<open>std::make_reverse_iterator(p)\<close> designates the element before \<open>p\<close>.\<close>

datatype reverse_iterator = Rev offset

definition array_rbegin :: "'a myArray \<Rightarrow> reverse_iterator" where
  "array_rbegin arr = Rev (array_begin arr)"

definition array_rend :: "'a myArray \<Rightarrow> reverse_iterator" where
  "array_rend arr = Rev (array_end arr)"

definition array_crbegin :: "'a myArray \<Rightarrow> reverse_iterator" where
  "array_crbegin arr = Rev (array_cbegin arr)"

definition array_crend :: "'a myArray \<Rightarrow> reverse_iterator" where
  "array_crend arr = Rev (array_cend arr)"

fun rev_deref :: "'a myArray \<Rightarrow> reverse_iterator \<Rightarrow> array_error + 'a" where
  "rev_deref arr (Rev p) = read_at (M_element arr) (p - 1)"

fun rev_next :: "reverse_iterator \<Rightarrow> reverse_iterator" where
  "rev_next (Rev p) = Rev (p - 1)"

text \<open>A range-based loop from \<open>begin\<close> to \<open>end\<close>, and the reverse loop.\<close>

function iterate :: "'a myArray \<Rightarrow> offset \<Rightarrow> offset \<Rightarrow> array_error + 'a list" where
  "iterate arr p q =
     (if p < q then bindr (read_at (M_element arr) p) (\<lambda>x.
        bindr (iterate arr (p + 1) q) (\<lambda>xs. Inr (x # xs)))
      else Inr [])"
  by pat_completeness auto
termination
  by (relation "measure (\<lambda>(arr, p, q). nat (q - p))") auto

declare iterate.simps [simp del]

section \<open>The specialisation for \<open>_N = 0\<close>\<close>

definition empty_index :: "size_t \<Rightarrow> array_error + 'a" where
  "empty_index n = Inl AssertFailed"

definition empty_at :: "size_t \<Rightarrow> array_error + 'a" where
  "empty_at n = Inl (RuntimeError (''out of range: __n = '' @ show_nat (unat n)))"

definition empty_size :: nat where
  "empty_size = 0"

datatype null_pointer = Nullptr

definition empty_begin :: null_pointer where
  "empty_begin = Nullptr"

definition empty_end :: null_pointer where
  "empty_end = Nullptr"

definition to_array :: "'a list \<Rightarrow> array_error + 'a myArray" where
  "to_array xs = Inl MissingReturn"

section \<open>Lemmas\<close>

lemma fill_loop_eq: "i \<le> length xs \<Longrightarrow> fill_loop v i xs = take i xs @ replicate (length xs - i) v"
proof (induction v i xs rule: fill_loop.induct)
  case (1 v i xs)
  show ?case
  proof (cases "i < length xs")
    case True
    then have "fill_loop v i xs = take (Suc i) (xs[i := v]) @ replicate (length xs - Suc i) v"
      using 1 by (simp add: fill_loop.simps [of v i xs])
    also have "take (Suc i) (xs[i := v]) = take i xs @ [v]"
      using True by (simp add: take_Suc_conv_app_nth)
    finally show ?thesis
      using True by (simp add: Suc_diff_Suc flip: replicate_Suc)
  next
    case False
    with 1 show ?thesis by (simp add: fill_loop.simps)
  qed
qed

lemma swap_loop_eq:
  "n = length xs \<Longrightarrow> length ys = length xs \<Longrightarrow> i \<le> n \<Longrightarrow>
     swap_loop n i (xs, ys) = (take i xs @ drop i ys, take i ys @ drop i xs)"
proof (induction "n - i" arbitrary: i xs ys)
  case 0
  then show ?case by (simp add: swap_loop.simps)
next
  case (Suc k)
  let ?xs = "xs[i := ys ! i]" and ?ys = "ys[i := xs ! i]"
  from Suc.hyps(2) have i: "i < n" by simp
  have "swap_loop n i (xs, ys) = swap_loop n (Suc i) (?xs, ?ys)"
    using i by (simp add: swap_loop.simps)
  also have "\<dots> = (take (Suc i) ?xs @ drop (Suc i) ?ys, take (Suc i) ?ys @ drop (Suc i) ?xs)"
    using Suc.hyps(2) Suc.prems i by (intro Suc.hyps(1)) auto
  also have "\<dots> = (take i xs @ drop i ys, take i ys @ drop i xs)"
    using Suc.prems i by (simp add: take_Suc_conv_app_nth flip: Cons_nth_drop_Suc)
  finally show ?case .
qed

lemma iterate_eq:
  "0 \<le> p \<Longrightarrow> p \<le> array_end arr \<Longrightarrow> iterate arr p (array_end arr) = Inr (drop (nat p) (M_element arr))"
proof (induction "nat (array_end arr - p)" arbitrary: p)
  case 0
  then show ?case by (simp add: iterate.simps array_end_def)
next
  case (Suc k)
  then have p: "p < array_end arr" by simp
  then have n: "nat p < length (M_element arr)" "nat (p + 1) = Suc (nat p)"
    using Suc.prems by (auto simp: array_end_def)
  have "iterate arr (p + 1) (array_end arr) = Inr (drop (nat (p + 1)) (M_element arr))"
    using Suc.hyps(2) Suc.prems p by (intro Suc.hyps(1)) auto
  moreover have "read_at (M_element arr) p = Inr (M_element arr ! nat p)"
    using Suc.prems p by (simp add: read_at_def array_end_def)
  ultimately show ?case
    using p n by (simp add: iterate.simps [of arr p] Cons_nth_drop_Suc)
qed

section \<open>Properties\<close>

text \<open>a negative index, converted to \<open>size_t\<close> as the comment in the header says, is
  rejected by \<open>at\<close> for every array of at most \<open>2^63\<close> elements, with its wrapped value in
  the message.\<close>

theorem array_at_negative:
  "- (2 ^ 63) \<le> i \<Longrightarrow> i < 0 \<Longrightarrow> length (M_element arr) \<le> 2 ^ 63 \<Longrightarrow>
     array_at arr (word_of_int i) =
       Inl (RuntimeError (''out of range: index = '' @ show_nat (nat (2 ^ 64 + i))))"
proof -
  assume i: "- (2 ^ 63) \<le> i" "i < 0" and len: "length (M_element arr) \<le> 2 ^ 63"
  have "uint (word_of_int i :: size_t) = (2 ^ 64 + i) mod 2 ^ 64"
    by (simp add: uint_word_of_int)
  also have "\<dots> = 2 ^ 64 + i" by (rule mod_pos_pos_trivial) (use i in simp_all)
  finally have u: "unat (word_of_int i :: size_t) = nat (2 ^ 64 + i)"
    by (simp add: unat_eq_nat_uint)
  then have "length (M_element arr) \<le> unat (word_of_int i :: size_t)"
    using i len by simp
  then show ?thesis by (simp add: array_at_def u)
qed

theorem array_at_negative_witness:
  "array_at \<lparr>M_element = [1, 2, 3 :: int]\<rparr> (word_of_int (- 1)) =
     Inl (RuntimeError (''out of range: index = '' @ show_nat (nat (2 ^ 64 + - 1))))"
  by (rule array_at_negative) simp_all

text \<open>\<open>fill\<close> sets every element, \<open>swap\<close> exchanges two arrays of the same length
  element by element, and swapping back restores both.\<close>

theorem array_fill_swap:
  "length (M_element x) = length (M_element y) \<Longrightarrow>
     M_element (array_fill v x) = replicate (array_size x) v \<and>
     array_swap x y = (x\<lparr>M_element := M_element y\<rparr>, y\<lparr>M_element := M_element x\<rparr>) \<and>
     (case array_swap x y of (x', y') \<Rightarrow> array_swap x' y') = (x, y)"
  by (simp add: array_fill_def fill_loop_eq array_swap_def swap_loop_eq array_size_def)

theorem array_fill_swap_witness:
  "M_element (array_fill 0 \<lparr>M_element = [1, 2 :: int]\<rparr>) = [0, 0] \<and>
   array_swap \<lparr>M_element = [1, 2 :: int]\<rparr> \<lparr>M_element = [3, 4]\<rparr> = (\<lparr>M_element = [3, 4]\<rparr>, \<lparr>M_element = [1, 2]\<rparr>)"
  using array_fill_swap [of "\<lparr>M_element = [1, 2 :: int]\<rparr>" "\<lparr>M_element = [3, 4]\<rparr>" 0]
  by (simp add: array_size_def numeral_eq_Suc)

text \<open>the loop from \<open>begin\<close> to \<open>end\<close> reads exactly the elements in order, but the
  reverse iteration does not work: \<open>rbegin\<close> is built from \<open>begin\<close>, so reading through it
  is out of bounds, and no number of increments of it reaches \<open>rend\<close> of a non-empty
  array.\<close>

theorem array_iteration:
  "iterate arr (array_begin arr) (array_end arr) = Inr (M_element arr) \<and>
   rev_deref arr (array_rbegin arr) = Inl OutOfBounds \<and>
   ((rev_next ^^ k) (array_rbegin arr) = array_rend arr \<longleftrightarrow> k = 0 \<and> M_element arr = [])"
proof -
  have "(rev_next ^^ k) (Rev 0) = Rev (- int k)"
    by (induction k) auto
  then show ?thesis
    using iterate_eq [of 0 arr]
    by (auto simp: array_begin_def array_end_def array_rbegin_def array_rend_def read_at_def)
qed

end
