(* ===== verification/Generators.thy ===== *)
theory Generators
  imports Prelude
begin

text \<open>
  The generators of \<open>coroutine/tsequencegenerator\<close> and \<open>coroutine/sequencegenerator\<close>.
  A coroutine body is its function from the local state at a suspension point to what
  happens until the next one. Both \<open>initial_suspend\<close> and \<open>final_suspend\<close> return
  \<open>suspend_never\<close>: the body runs to its first yield when the generator is created, and
  the frame, with the promise in it, is destroyed as soon as the body returns. Any later
  use of the handle is a use of freed memory, the error \<open>FrameDestroyed\<close>.
\<close>

section \<open>Coroutine frame, promise and handle\<close>

datatype gen_error =
    ExhaustedException   \<comment> \<open>thrown by \<open>next\<close>\<close>
  | FrameDestroyed       \<comment> \<open>use of a handle whose frame is gone\<close>
  | NullHandle           \<comment> \<open>\<open>done\<close> or \<open>resume\<close> on a null handle\<close>
  | SignedOverflow       \<comment> \<open>undefined behaviour in a body\<close>
  | DanglingRead         \<comment> \<open>the body reads an array that no longer exists\<close>
  | OutOfFuel            \<comment> \<open>the bound on silent steps of a body is used up\<close>
  | Uninitialised        \<comment> \<open>the promise's value is read before a yield\<close>

datatype ('s, 'v) resumed = Yielded 'v 's | Returned | Thrown

datatype 's frame = Suspended 's | Destroyed

type_synonym ('s, 'v) body = "'s \<Rightarrow> gen_error + ('s, 'v) resumed"

record ('s, 'v) generator =
  handle :: "'s frame option"
  promise_value :: "'v option"
  is_ready :: bool

definition await_transform :: "'v \<Rightarrow> ('s, 'v) generator \<Rightarrow> ('s, 'v) generator" where
  "await_transform v g = g\<lparr>promise_value := Some v, is_ready := True\<rparr>"

definition yield_value :: "'v \<Rightarrow> ('s, 'v) generator \<Rightarrow> ('s, 'v) generator" where
  "yield_value v g = g\<lparr>promise_value := Some v, is_ready := True\<rparr>"

text \<open>\<open>unhandled_exception\<close> is empty, so a throwing body ends like a returning one.\<close>

definition gen_resume :: "('s, 'v) body \<Rightarrow> ('s, 'v) generator \<Rightarrow> gen_error + ('s, 'v) generator" where
  "gen_resume body g = (case handle g of
     None \<Rightarrow> Inl NullHandle
   | Some Destroyed \<Rightarrow> Inl FrameDestroyed
   | Some (Suspended s) \<Rightarrow> bindr (body s) (\<lambda>r. case r of
       Yielded v s' \<Rightarrow> Inr (yield_value v (g\<lparr>handle := Some (Suspended s')\<rparr>))
     | Returned \<Rightarrow> Inr (g\<lparr>handle := Some Destroyed\<rparr>)
     | Thrown \<Rightarrow> Inr (g\<lparr>handle := Some Destroyed\<rparr>)))"

text \<open>A frame is never suspended at its final suspension point, so \<open>done\<close> is never true.\<close>

definition gen_done :: "('s, 'v) generator \<Rightarrow> gen_error + bool" where
  "gen_done g = (case handle g of
     None \<Rightarrow> Inl NullHandle
   | Some Destroyed \<Rightarrow> Inl FrameDestroyed
   | Some (Suspended s) \<Rightarrow> Inr False)"

text \<open>Calling the coroutine: \<open>get_return_object\<close> and the run to the first suspension.\<close>

definition gen_start :: "('s, 'v) body \<Rightarrow> 's \<Rightarrow> gen_error + ('s, 'v) generator" where
  "gen_start body s =
     gen_resume body \<lparr>handle = Some (Suspended s), promise_value = None, is_ready = False\<rparr>"

definition gen_move :: "('s, 'v) generator \<Rightarrow> ('s, 'v) generator \<times> ('s, 'v) generator" where
  "gen_move g = (g, g\<lparr>handle := None\<rparr>)"

definition gen_destroy :: "('s, 'v) generator \<Rightarrow> gen_error + ('s, 'v) generator" where
  "gen_destroy g = (case handle g of
     None \<Rightarrow> Inr g
   | Some Destroyed \<Rightarrow> Inl FrameDestroyed
   | Some (Suspended s) \<Rightarrow> Inr (g\<lparr>handle := Some Destroyed\<rparr>))"

definition hasNext :: "('s, 'v) body \<Rightarrow> ('s, 'v) generator \<Rightarrow> gen_error + (bool \<times> ('s, 'v) generator)" where
  "hasNext body g =
     (if handle g = None then Inr (False, g)
      else bindr (gen_done g) (\<lambda>d. if d then Inr (False, g)
      else bindr (if \<not> is_ready g then gen_resume body g else Inr g) (\<lambda>g.
           bindr (gen_done g) (\<lambda>d. if d then Inr (False, g) else Inr (True, g)))))"

definition gen_next :: "('s, 'v) body \<Rightarrow> ('s, 'v) generator \<Rightarrow> gen_error + ('v \<times> ('s, 'v) generator)" where
  "gen_next body g = bindr (hasNext body g) (\<lambda>(h, g).
     if h then (case promise_value g of
         None \<Rightarrow> Inl Uninitialised
       | Some v \<Rightarrow> Inr (v, g\<lparr>is_ready := False\<rparr>))
     else Inl ExhaustedException)"

section \<open>Generator factories\<close>

fun from_list :: "('v list, 'v) body" where
  "from_list [] = Inr Returned"
| "from_list (t # ts) = Inr (Yielded t ts)"

fun from_pack :: "('v list, 'v) body" where
  "from_pack [] = Inr Returned"
| "from_pack (a # as) = Inr (Yielded a as)"

text \<open>
  The parameter of type \<open>initializer_list\<close> only points to an array of the caller's full
  expression. The state is the position of the loop and the list; an element read after
  the first suspension is read from an array that is gone.
\<close>

fun from_init :: "(nat \<times> 'v list, 'v) body" where
  "from_init (i, ts) =
     (if i \<ge> length ts then Inr Returned
      else if i = 0 then Inr (Yielded (ts ! 0) (1, ts))
      else Inl DanglingRead)"

text \<open>
  \<open>map\<close> moves the generator it is called on into its own frame, which becomes the local
  state; \<open>has_next\<close> and \<open>nxt\<close> are that generator's member functions.
\<close>

definition map_body ::
  "('g \<Rightarrow> gen_error + (bool \<times> 'g)) \<Rightarrow> ('g \<Rightarrow> gen_error + ('v \<times> 'g)) \<Rightarrow> ('v \<Rightarrow> 'r) \<Rightarrow> ('g, 'r) body" where
  "map_body has_next nxt f g = bindr (has_next g) (\<lambda>(h, g).
     if h then bindr (nxt g) (\<lambda>(v, g). Inr (Yielded (f v) g)) else Inr Returned)"

text \<open>
  \<open>flat_map\<close> keeps the outer generator and the inner one it is draining. The fuel bounds
  the number of inner generators that end without yielding in one resumption.
\<close>

fun flat_map_body ::
  "nat \<Rightarrow> ('g \<Rightarrow> gen_error + (bool \<times> 'g)) \<Rightarrow> ('g \<Rightarrow> gen_error + ('v \<times> 'g)) \<Rightarrow>
   ('h \<Rightarrow> gen_error + (bool \<times> 'h)) \<Rightarrow> ('h \<Rightarrow> gen_error + ('r \<times> 'h)) \<Rightarrow>
   ('v \<Rightarrow> gen_error + 'h) \<Rightarrow> 'g \<times> 'h option \<Rightarrow> (gen_error + ('g \<times> 'h option, 'r) resumed) option" where
  "flat_map_body 0 has_next nxt has_next' nxt' f (g, k) = None"
| "flat_map_body (Suc n) has_next nxt has_next' nxt' f (g, None) =
     (case has_next g of
        Inl e \<Rightarrow> Some (Inl e)
      | Inr (h, g) \<Rightarrow>
          if h then (case bindr (nxt g) (\<lambda>(v, g). bindr (f v) (\<lambda>k. Inr (g, k))) of
              Inl e \<Rightarrow> Some (Inl e)
            | Inr (g, k) \<Rightarrow> flat_map_body n has_next nxt has_next' nxt' f (g, Some k))
          else Some (Inr Returned))"
| "flat_map_body (Suc n) has_next nxt has_next' nxt' f (g, Some k) =
     (case has_next' k of
        Inl e \<Rightarrow> Some (Inl e)
      | Inr (h, k) \<Rightarrow>
          if h then Some (bindr (nxt' k) (\<lambda>(r, k). Inr (Yielded r (g, Some k))))
          else flat_map_body n has_next nxt has_next' nxt' f (g, None))"

definition flat_map ::
  "nat \<Rightarrow> ('g \<Rightarrow> gen_error + (bool \<times> 'g)) \<Rightarrow> ('g \<Rightarrow> gen_error + ('v \<times> 'g)) \<Rightarrow>
   ('h \<Rightarrow> gen_error + (bool \<times> 'h)) \<Rightarrow> ('h \<Rightarrow> gen_error + ('r \<times> 'h)) \<Rightarrow>
   ('v \<Rightarrow> gen_error + 'h) \<Rightarrow> ('g \<times> 'h option, 'r) body" where
  "flat_map n has_next nxt has_next' nxt' f st =
     (case flat_map_body n has_next nxt has_next' nxt' f st of None \<Rightarrow> Inl OutOfFuel | Some r \<Rightarrow> r)"

section \<open>The demo coroutines and \<open>main\<close>\<close>

definition seq_body :: "(int, int) body" where
  "seq_body value = (case cint (value + 1) of
     None \<Rightarrow> Inl SignedOverflow
   | Some value' \<Rightarrow> Inr (Yielded value value'))"

text \<open>The suspension points of \<open>fibonacci\<close>; \<open>FLoop a b c\<close> is the one in the loop.\<close>

datatype fib_state = FStart | FSecond | FInit | FLoop int int int

definition fib_sum :: "int \<Rightarrow> int \<Rightarrow> gen_error + (fib_state, int) resumed" where
  "fib_sum a b = (case cint (a + b) of
     None \<Rightarrow> Inl SignedOverflow
   | Some c \<Rightarrow> Inr (Yielded c (FLoop a b c)))"

fun fib_body :: "(fib_state, int) body" where
  "fib_body FStart = Inr (Yielded 0 FSecond)"
| "fib_body FSecond = Inr (Yielded 1 FInit)"
| "fib_body FInit = fib_sum 0 1"
| "fib_body (FLoop a b c) = fib_sum b c"

text \<open>The loop of \<open>main\<close>: at most \<open>n\<close> rounds of \<open>hasNext\<close> and \<open>next\<close>; the printed values.\<close>

fun print_loop :: "('s, 'v) body \<Rightarrow> nat \<Rightarrow> ('s, 'v) generator \<Rightarrow> gen_error + ('v list \<times> ('s, 'v) generator)" where
  "print_loop body 0 g = Inr ([], g)"
| "print_loop body (Suc n) g = bindr (hasNext body g) (\<lambda>(h, g).
     if h then bindr (gen_next body g) (\<lambda>(v, g).
            bindr (print_loop body n g) (\<lambda>(vs, g). Inr (v # vs, g)))
     else Inr ([], g))"

definition gen_main :: "gen_error + (int list \<times> int list)" where
  "gen_main =
     bindr (gen_start seq_body 0) (\<lambda>gen.
     bindr (print_loop seq_body 15 gen) (\<lambda>(out, gen).
     bindr (gen_start fib_body FStart) (\<lambda>gen1.
     bindr (print_loop fib_body 15 gen1) (\<lambda>(out1, gen1).
     bindr (gen_destroy gen1) (\<lambda>_. bindr (gen_destroy gen) (\<lambda>_. Inr (out, out1)))))))"

section \<open>The class without template\<close>

text \<open>
  \<open>coroutine/sequencegenerator\<close> holds the same class written for \<open>int\<close> only, and the
  same \<open>main\<close>; its member functions are the template's at \<open>T = int\<close>.
\<close>

definition int_yield_value :: "int \<Rightarrow> ('s, int) generator \<Rightarrow> ('s, int) generator" where
  "int_yield_value = yield_value"

definition int_hasNext :: "('s, int) body \<Rightarrow> ('s, int) generator \<Rightarrow> gen_error + (bool \<times> ('s, int) generator)" where
  "int_hasNext = hasNext"

definition int_next :: "('s, int) body \<Rightarrow> ('s, int) generator \<Rightarrow> gen_error + (int \<times> ('s, int) generator)" where
  "int_next = gen_next"

definition int_destroy :: "('s, int) generator \<Rightarrow> gen_error + ('s, int) generator" where
  "int_destroy = gen_destroy"

definition int_main :: "gen_error + (int list \<times> int list)" where
  "int_main = gen_main"

section \<open>What a generator delivers\<close>

text \<open>
  \<open>yields body s n\<close> are the first \<open>n\<close> values the body yields from state \<open>s\<close>, if it
  yields that many without a fault; \<open>delivers body g n\<close> are the next \<open>n\<close> values a
  generator object has to offer, the one waiting in the promise included.
\<close>

fun yields :: "('s, 'v) body \<Rightarrow> 's \<Rightarrow> nat \<Rightarrow> 'v list option" where
  "yields body s 0 = Some []"
| "yields body s (Suc n) = (case body s of
     Inr (Yielded v s') \<Rightarrow> map_option ((#) v) (yields body s' n)
   | _ \<Rightarrow> None)"

fun yields_to :: "('s, 'v) body \<Rightarrow> 's \<Rightarrow> nat \<Rightarrow> ('v list \<times> 's) option" where
  "yields_to body s 0 = Some ([], s)"
| "yields_to body s (Suc n) = (case body s of
     Inr (Yielded v s') \<Rightarrow> map_option (apfst ((#) v)) (yields_to body s' n)
   | _ \<Rightarrow> None)"

definition delivers :: "('s, 'v) body \<Rightarrow> ('s, 'v) generator \<Rightarrow> nat \<Rightarrow> 'v list option" where
  "delivers body g n = (case handle g of
     Some (Suspended s) \<Rightarrow>
       if is_ready g then
         (case promise_value g of
            None \<Rightarrow> None
          | Some v \<Rightarrow> (case n of 0 \<Rightarrow> Some [] | Suc m \<Rightarrow> map_option ((#) v) (yields body s m)))
       else yields body s n
   | _ \<Rightarrow> None)"

text \<open>The contract of the \<open>hasNext\<close>/\<open>next\<close> protocol, and its client \<open>map\<close>.\<close>

locale value_source =
  fixes has_next :: "'g \<Rightarrow> gen_error + (bool \<times> 'g)"
    and nxt :: "'g \<Rightarrow> gen_error + ('v \<times> 'g)"
    and delivery :: "'g \<Rightarrow> nat \<Rightarrow> 'v list option"
  assumes delivery_length: "delivery g n = Some vs \<Longrightarrow> length vs = n"
    and has_next_delivery: "delivery g (Suc n) = Some vs \<Longrightarrow>
      \<exists>g'. has_next g = Inr (True, g') \<and> delivery g' (Suc n) = Some vs"
    and next_delivery: "delivery g (Suc n) = Some vs \<Longrightarrow>
      \<exists>g' v ws. vs = v # ws \<and> nxt g = Inr (v, g') \<and> delivery g' n = Some ws"
begin

lemma map_body_yields:
  "delivery g n = Some vs \<Longrightarrow> yields (map_body has_next nxt f) g n = Some (List.map f vs)"
proof (induction n arbitrary: g vs)
  case 0
  then show ?case by (auto dest: delivery_length)
next
  case (Suc n)
  from has_next_delivery [OF Suc.prems] obtain g1 where
    1: "has_next g = Inr (True, g1)" "delivery g1 (Suc n) = Some vs" by blast
  from next_delivery [OF 1(2)] obtain g2 v ws where
    2: "vs = v # ws" "nxt g1 = Inr (v, g2)" "delivery g2 n = Some ws" by blast
  with 1 Suc.IH [OF 2(3)] show ?case by (simp add: map_body_def)
qed

text \<open>\<open>n\<close> rounds of asking and taking, as the loops of \<open>main\<close> do.\<close>

fun take_loop :: "nat \<Rightarrow> 'g \<Rightarrow> gen_error + ('v list \<times> 'g)" where
  "take_loop 0 g = Inr ([], g)"
| "take_loop (Suc n) g = bindr (has_next g) (\<lambda>(h, g).
     if h then bindr (nxt g) (\<lambda>(v, g). bindr (take_loop n g) (\<lambda>(vs, g). Inr (v # vs, g)))
     else Inr ([], g))"

lemma take_loop_delivery:
  "delivery g n = Some vs \<Longrightarrow> \<exists>g'. take_loop n g = Inr (vs, g') \<and> delivery g' 0 = Some []"
proof (induction n arbitrary: g vs)
  case 0
  then show ?case using delivery_length [OF 0] by simp
next
  case (Suc n)
  from has_next_delivery [OF Suc.prems] obtain g1 where
    1: "has_next g = Inr (True, g1)" "delivery g1 (Suc n) = Some vs" by blast
  from next_delivery [OF 1(2)] obtain g2 v ws where
    2: "vs = v # ws" "nxt g1 = Inr (v, g2)" "delivery g2 n = Some ws" by blast
  from Suc.IH [OF 2(3)] 1 2 show ?case by auto
qed

end

section \<open>The generator object is a value source\<close>

lemma yields_length: "yields body s n = Some vs \<Longrightarrow> length vs = n"
  by (induction n arbitrary: s vs) (auto split: sum.splits resumed.splits)

lemma yields_Suc_cases:
  assumes "yields body s (Suc n) = Some vs"
  obtains v s' ws where "body s = Inr (Yielded v s')" "vs = v # ws" "yields body s' n = Some ws"
  using assms by (auto split: sum.splits resumed.splits)

lemma delivers_length: "delivers body g n = Some vs \<Longrightarrow> length vs = n"
  by (auto simp: delivers_def dest: yields_length
      split: option.splits frame.splits if_splits nat.splits)

lemma hasNext_delivers:
  assumes "delivers body g (Suc n) = Some vs"
  shows "\<exists>g'. hasNext body g = Inr (True, g') \<and> is_ready g' \<and> delivers body g' (Suc n) = Some vs"
proof -
  from assms obtain s where h: "handle g = Some (Suspended s)"
    by (auto simp: delivers_def split: option.splits frame.splits)
  show ?thesis
  proof (cases "is_ready g")
    case True
    with h assms show ?thesis by (simp add: hasNext_def gen_done_def)
  next
    case False
    with h assms have "yields body s (Suc n) = Some vs" by (simp add: delivers_def)
    then obtain v s' ws where "body s = Inr (Yielded v s')" "vs = v # ws" "yields body s' n = Some ws"
      by (rule yields_Suc_cases)
    with h False show ?thesis
      by (simp add: hasNext_def gen_done_def gen_resume_def yield_value_def delivers_def)
  qed
qed

lemma next_delivers:
  assumes "delivers body g (Suc n) = Some vs"
  shows "\<exists>g' v ws. vs = v # ws \<and> gen_next body g = Inr (v, g') \<and> delivers body g' n = Some ws"
proof -
  from hasNext_delivers [OF assms] obtain g1 where
    1: "hasNext body g = Inr (True, g1)" "is_ready g1" "delivers body g1 (Suc n) = Some vs" by blast
  then obtain s v ws where "handle g1 = Some (Suspended s)" "promise_value g1 = Some v"
    "vs = v # ws" "yields body s n = Some ws"
    by (auto simp: delivers_def split: option.splits frame.splits)
  with 1 show ?thesis by (simp add: gen_next_def delivers_def)
qed

interpretation gen: value_source "hasNext body" "gen_next body" "delivers body" for body
proof unfold_locales
  show "\<And>g n vs. delivers body g n = Some vs \<Longrightarrow> length vs = n" by (rule delivers_length)
  show "\<And>g n vs. delivers body g (Suc n) = Some vs \<Longrightarrow>
      \<exists>g'. hasNext body g = Inr (True, g') \<and> delivers body g' (Suc n) = Some vs"
    using hasNext_delivers by blast
qed (rule next_delivers)

lemma start_delivers:
  assumes "yields body s (Suc n) = Some vs"
  shows "\<exists>g. gen_start body s = Inr g \<and> is_ready g \<and> delivers body g (Suc n) = Some vs"
  using assms by (rule yields_Suc_cases)
    (simp add: gen_start_def gen_resume_def yield_value_def delivers_def)

lemma print_loop_take: "print_loop body n g = gen.take_loop body n g"
  by (induction n arbitrary: g) (simp_all cong: if_cong)


section \<open>The demo bodies\<close>

lemma seq_yields: "in_int (a + int n) \<Longrightarrow> in_int a \<Longrightarrow>
    yields seq_body a n = Some (List.map (\<lambda>k. a + int k) [0..<n])"
proof (induction n arbitrary: a)
  case 0
  then show ?case by simp
next
  case (Suc n)
  from Suc.prems have "in_int (a + 1)" by (auto simp: int_range_defs)
  moreover have "yields seq_body (a + 1) n = Some (List.map (\<lambda>k. a + 1 + int k) [0..<n])"
    using Suc.prems calculation by (intro Suc.IH) (auto simp: algebra_simps)
  ultimately have "yields seq_body a (Suc n) = Some (a # List.map (\<lambda>k. a + 1 + int k) [0..<n])"
    by (simp add: seq_body_def cint_def)
  also have "a # List.map (\<lambda>k. a + 1 + int k) [0..<n] = List.map (\<lambda>k. a + int k) [0..<Suc n]"
    by (simp only: upt_conv_Cons zero_less_Suc list.map map_Suc_upt [symmetric])
      (simp add: comp_def algebra_simps)
  finally show ?case .
qed

fun fib :: "nat \<Rightarrow> int" where
  "fib 0 = 0"
| "fib (Suc 0) = 1"
| "fib (Suc (Suc n)) = fib n + fib (Suc n)"

lemma fib_nonneg: "0 \<le> fib n"
  by (induction n rule: fib.induct) auto

lemma fib_mono_Suc: "fib n \<le> fib (Suc n)"
  by (cases n rule: fib.cases) (auto simp: fib_nonneg)

lemma fib_mono: "m \<le> n \<Longrightarrow> fib m \<le> fib n"
  by (rule lift_Suc_mono_le [of fib]) (rule fib_mono_Suc)

fun fib_pair :: "nat \<Rightarrow> int \<times> int" where
  "fib_pair 0 = (0, 1)"
| "fib_pair (Suc n) = (case fib_pair n of (a, b) \<Rightarrow> (b, a + b))"

lemma fib_pair_eq: "fib_pair n = (fib n, fib (Suc n))"
  by (induction n) auto

lemma fib_46: "fib 46 = 1836311903" and fib_47: "fib 47 = 2971215073"
proof -
  have "fib_pair 46 = (1836311903, 2971215073)" by code_simp
  then show "fib 46 = 1836311903" "fib 47 = 2971215073" by (simp_all add: fib_pair_eq)
qed

lemma fib_in_int: "in_int (fib n) \<longleftrightarrow> n \<le> 46"
proof
  assume "in_int (fib n)"
  then have "fib n < fib 47" by (simp add: int_range_defs fib_47 del: fib.simps)
  then show "n \<le> 46" using fib_mono [of 47 n] by linarith
next
  assume "n \<le> 46"
  then show "in_int (fib n)"
    using fib_mono [of n 46] fib_46 fib_nonneg [of n] by (simp add: int_range_defs)
qed

lemma fib_loop_yields:
  "k + n \<le> 44 \<Longrightarrow> yields fib_body (FLoop (fib k) (fib (Suc k)) (fib (Suc (Suc k)))) n =
     Some (List.map fib [k + 3..<k + 3 + n])"
proof (induction n arbitrary: k)
  case 0
  then show ?case by simp
next
  case (Suc n)
  then have "in_int (fib (k + 3))" by (simp add: fib_in_int)
  then have "fib_body (FLoop (fib k) (fib (Suc k)) (fib (Suc (Suc k)))) =
      Inr (Yielded (fib (k + 3)) (FLoop (fib (Suc k)) (fib (Suc (Suc k))) (fib (Suc (Suc (Suc k))))))"
    by (simp add: fib_sum_def cint_def numeral_3_eq_3)
  moreover have "yields fib_body (FLoop (fib (Suc k)) (fib (Suc (Suc k))) (fib (Suc (Suc (Suc k))))) n =
      Some (List.map fib [Suc k + 3..<Suc k + 3 + n])"
    using Suc.prems by (intro Suc.IH) simp
  moreover have "[k + 3..<k + 3 + Suc n] = (k + 3) # [Suc k + 3..<Suc k + 3 + n]"
    by (simp add: upt_conv_Cons add_ac del: upt_Suc)
  ultimately show ?case by (simp del: fib.simps fib_body.simps upt_Suc)
qed

lemma fib_yields_head:
  "yields fib_body FStart (Suc (Suc (Suc n))) =
     map_option (\<lambda>vs. 0 # 1 # 1 # vs) (yields fib_body (FLoop 0 1 1) n)"
  by (simp add: fib_sum_def cint_def int_range_defs option.map_comp comp_def)

lemma fib_yields: "3 \<le> n \<Longrightarrow> n \<le> 47 \<Longrightarrow> yields fib_body FStart n = Some (List.map fib [0..<n])"
proof -
  assume n: "3 \<le> n" "n \<le> 47"
  define m where "m = n - 3"
  then have m: "n = Suc (Suc (Suc m))" "m \<le> 44" using n by auto
  have l: "yields fib_body (FLoop 0 1 1) m = Some (List.map fib [3..<3 + m])"
    using fib_loop_yields [of 0 m] m by simp
  have "[0..<n] = 0 # 1 # 2 # [3..<3 + m]"
    using m by (simp add: upt_conv_Cons eval_nat_numeral del: upt_Suc)
  then have "List.map fib [0..<n] = 0 # 1 # 1 # List.map fib [3..<3 + m]"
    by (simp add: numeral_2_eq_2 del: upt_Suc)
  then show ?thesis unfolding m(1) fib_yields_head l by simp
qed

section \<open>Exhaustion\<close>

definition drained :: "('v list, 'v) generator \<Rightarrow> bool" where
  "drained g \<longleftrightarrow> handle g = Some (Suspended []) \<and> \<not> is_ready g"

lemma hasNext_ready:
  "handle g = Some (Suspended s) \<Longrightarrow> is_ready g \<Longrightarrow> hasNext body g = Inr (True, g)"
  by (simp add: hasNext_def gen_done_def)

lemma next_ready:
  "handle g = Some (Suspended s) \<Longrightarrow> is_ready g \<Longrightarrow> promise_value g = Some v \<Longrightarrow>
     gen_next body g = Inr (v, g\<lparr>is_ready := False\<rparr>)"
  by (simp add: gen_next_def hasNext_ready)

lemma hasNext_list_refill:
  "handle g = Some (Suspended (t # ts)) \<Longrightarrow> \<not> is_ready g \<Longrightarrow>
     hasNext from_list g = Inr (True, g\<lparr>handle := Some (Suspended ts), promise_value := Some t, is_ready := True\<rparr>)"
  by (simp add: hasNext_def gen_done_def gen_resume_def yield_value_def)

lemma drained_hasNext: "drained g \<Longrightarrow> hasNext from_list g = Inl FrameDestroyed"
  by (simp add: drained_def hasNext_def gen_done_def gen_resume_def)

lemma drained_next: "drained g \<Longrightarrow> gen_next from_list g = Inl FrameDestroyed"
  by (simp add: gen_next_def drained_hasNext)

lemma list_loop_refill:
  "handle g = Some (Suspended ts) \<Longrightarrow> \<not> is_ready g \<Longrightarrow>
     \<exists>g'. print_loop from_list (length ts) g = Inr (ts, g') \<and> drained g'"
proof (induction ts arbitrary: g)
  case Nil
  then show ?case by (simp add: drained_def)
next
  case (Cons t ts)
  let ?g = "g\<lparr>handle := Some (Suspended ts), promise_value := Some t, is_ready := True\<rparr>"
  from Cons.IH [of "?g\<lparr>is_ready := False\<rparr>"] obtain g' where
    "print_loop from_list (length ts) (?g\<lparr>is_ready := False\<rparr>) = Inr (ts, g')" "drained g'" by auto
  then show ?case
    using hasNext_list_refill [OF Cons.prems] next_ready [of ?g ts t from_list] by simp
qed

lemma list_start:
  "gen_start from_list (v # ts) =
     Inr \<lparr>handle = Some (Suspended ts), promise_value = Some v, is_ready = True\<rparr>"
  by (simp add: gen_start_def gen_resume_def yield_value_def)

lemma list_loop_start:
  "\<exists>g'. print_loop from_list (Suc (length ts))
          \<lparr>handle = Some (Suspended ts), promise_value = Some v, is_ready = True\<rparr> = Inr (v # ts, g') \<and> drained g'"
proof -
  let ?g = "\<lparr>handle = Some (Suspended ts), promise_value = Some v, is_ready = True\<rparr>"
  from list_loop_refill [of "?g\<lparr>is_ready := False\<rparr>" ts] obtain g' where
    "print_loop from_list (length ts) (?g\<lparr>is_ready := False\<rparr>) = Inr (ts, g')" "drained g'" by auto
  then show ?thesis
    using hasNext_ready [of ?g ts from_list] next_ready [of ?g ts v from_list] by simp
qed

text \<open>The inner loop of \<open>flat_map\<close> over a list generator that was just refilled.\<close>

lemma flat_map_inner:
  assumes "handle k = Some (Suspended ts)" "\<not> is_ready k"
  shows "\<exists>k'. yields_to (flat_map (Suc n) hn nx (hasNext from_list) (gen_next from_list) f) (g, Some k)
              (length ts) = Some (ts, (g, Some k')) \<and> drained k'"
  using assms
proof (induction ts arbitrary: k)
  case Nil
  then show ?case by (simp add: drained_def)
next
  case (Cons t ts)
  let ?k = "k\<lparr>handle := Some (Suspended ts), promise_value := Some t, is_ready := True\<rparr>"
  from Cons.IH [of "?k\<lparr>is_ready := False\<rparr>"] obtain k' where
    "yields_to (flat_map (Suc n) hn nx (hasNext from_list) (gen_next from_list) f)
       (g, Some (?k\<lparr>is_ready := False\<rparr>)) (length ts) = Some (ts, (g, Some k'))" "drained k'" by auto
  moreover have "flat_map (Suc n) hn nx (hasNext from_list) (gen_next from_list) f (g, Some k) =
      Inr (Yielded t (g, Some (?k\<lparr>is_ready := False\<rparr>)))"
    using hasNext_list_refill [OF Cons.prems] next_ready [of ?k ts t from_list]
    by (simp add: flat_map_def)
  ultimately show ?case by auto
qed

section \<open>Properties\<close>

text \<open>as long as a coroutine body keeps yielding, the loop of \<open>main\<close> over its generator
  prints exactly the values the body yields, in order, however the promise, the eager first
  run and the \<open>is_ready\<close> flag interleave.\<close>

theorem generator_collects:
  "yields body s (Suc n) = Some vs \<Longrightarrow>
     \<exists>g g'. gen_start body s = Inr g \<and> print_loop body (Suc n) g = Inr (vs, g')"
  using start_delivers [of body s n vs] gen.take_loop_delivery [of body _ "Suc n" vs]
  unfolding print_loop_take by metis

theorem generator_collects_witness:
  "\<exists>g g'. gen_start seq_body 0 = Inr g \<and> print_loop seq_body (Suc 1) g = Inr ([0, 1], g')"
  by (rule generator_collects) (simp add: seq_body_def cint_def int_range_defs)

text \<open>a generator over a finite list delivers the whole list, but the call of \<open>hasNext\<close>
  or \<open>next\<close> that should report its end uses the frame that \<open>final_suspend\<close> already let be
  destroyed, so \<open>ExhaustedException\<close> is never reached that way.\<close>

theorem generator_end_is_use_after_free:
  "\<exists>g g'. gen_start from_list (v # ts) = Inr g \<and>
          print_loop from_list (Suc (length ts)) g = Inr (v # ts, g') \<and>
          hasNext from_list g' = Inl FrameDestroyed \<and>
          gen_next from_list g' = Inl FrameDestroyed"
  using list_start [of v ts] list_loop_start [of ts v] drained_hasNext drained_next by blast

text \<open>mapping a function over a generator that delivers the values \<open>vs\<close> is a generator
  whose first values are the images of \<open>vs\<close>.\<close>

theorem generator_map:
  "delivers body g (Suc n) = Some vs \<Longrightarrow>
     \<exists>m m'. gen_start (map_body (hasNext body) (gen_next body) f) g = Inr m \<and>
            print_loop (map_body (hasNext body) (gen_next body) f) (Suc n) m = Inr (List.map f vs, m')"
  using start_delivers [OF gen.map_body_yields] gen.take_loop_delivery
  unfolding print_loop_take by metis

theorem generator_map_witness:
  "\<exists>m m'. gen_start (map_body (hasNext seq_body) (gen_next seq_body) (\<lambda>x. 10 * x))
            \<lparr>handle = Some (Suspended 1), promise_value = Some 0, is_ready = True\<rparr> = Inr m \<and>
          print_loop (map_body (hasNext seq_body) (gen_next seq_body) (\<lambda>x. 10 * x)) (Suc 1) m =
            Inr (List.map (\<lambda>x. 10 * x) [0, 1], m')"
  by (rule generator_map) (simp add: delivers_def seq_body_def cint_def int_range_defs)

text \<open>\<open>flat_map\<close> drains the first inner generator and then faults: it never gets to a
  second one, because it asks the finished inner generator for its end.\<close>

theorem flat_map_stops_at_first:
  "hn g = Inr (True, g1) \<Longrightarrow> nx g1 = Inr (v, g2) \<Longrightarrow> f v = gen_start from_list (x # xs) \<Longrightarrow>
     \<exists>k. yields_to (flat_map (Suc (Suc n)) hn nx (hasNext from_list) (gen_next from_list) f) (g, None)
           (Suc (length xs)) = Some (x # xs, (g2, Some k)) \<and>
         flat_map (Suc (Suc n)) hn nx (hasNext from_list) (gen_next from_list) f (g2, Some k) =
           Inl FrameDestroyed"
proof -
  assume a: "hn g = Inr (True, g1)" "nx g1 = Inr (v, g2)" "f v = gen_start from_list (x # xs)"
  let ?k = "\<lparr>handle = Some (Suspended xs), promise_value = Some x, is_ready = True\<rparr>"
  let ?body = "flat_map (Suc (Suc n)) hn nx (hasNext from_list) (gen_next from_list) f"
  have first: "?body (g, None) = Inr (Yielded x (g2, Some (?k\<lparr>is_ready := False\<rparr>)))"
    using a hasNext_ready [of ?k xs from_list] next_ready [of ?k xs x from_list]
    by (simp add: flat_map_def list_start)
  from flat_map_inner [of "?k\<lparr>is_ready := False\<rparr>" xs "Suc n" hn nx f g2] obtain k where
    "yields_to ?body (g2, Some (?k\<lparr>is_ready := False\<rparr>)) (length xs) = Some (xs, (g2, Some k))"
    "drained k" by auto
  with first show ?thesis by (auto simp: flat_map_def drained_hasNext)
qed

theorem flat_map_stops_at_first_witness:
  "\<exists>k. yields_to (flat_map (Suc (Suc 0)) (hasNext seq_body) (gen_next seq_body) (hasNext from_list)
         (gen_next from_list) (\<lambda>v. gen_start from_list (v # [v + 1])))
         (\<lparr>handle = Some (Suspended 1), promise_value = Some 0, is_ready = True\<rparr>, None)
         (Suc (length [0 + 1 :: int])) = Some (0 # [0 + 1],
           (\<lparr>handle = Some (Suspended 1), promise_value = Some 0, is_ready = False\<rparr>, Some k)) \<and>
       flat_map (Suc (Suc 0)) (hasNext seq_body) (gen_next seq_body) (hasNext from_list)
         (gen_next from_list) (\<lambda>v. gen_start from_list (v # [v + 1]))
         (\<lparr>handle = Some (Suspended 1), promise_value = Some 0, is_ready = False\<rparr>, Some k) = Inl FrameDestroyed"
  using flat_map_stops_at_first
    [of "hasNext seq_body" "\<lparr>handle = Some (Suspended 1), promise_value = Some 0, is_ready = True\<rparr>"
      "\<lparr>handle = Some (Suspended 1), promise_value = Some 0, is_ready = True\<rparr>" "gen_next seq_body" 0
      "\<lparr>handle = Some (Suspended 1), promise_value = Some 0, is_ready = False\<rparr>"
      "\<lambda>v. gen_start from_list (v # [v + 1])" 0 "[0 + 1]" 0]
  by (simp add: hasNext_ready next_ready del: yields_to.simps)

text \<open>\<open>fibonacci\<close> yields the Fibonacci numbers for exactly 47 resumptions; the next
  one computes a sum outside the range of \<open>int\<close>.\<close>

theorem fibonacci_range:
  "yields fib_body FStart 47 = Some (List.map fib [0..<47]) \<and> yields fib_body FStart 48 = None"
proof -
  have "fib_body (FLoop (fib 44) (fib (Suc 44)) (fib (Suc (Suc 44)))) = Inl SignedOverflow"
  proof -
    have "fib (Suc 44) + fib (Suc (Suc 44)) = fib 47" using fib.simps(3) [of 45] by (simp del: fib.simps)
    then show ?thesis
      using fib_in_int [of 47] by (simp add: fib_sum_def cint_def del: fib.simps)
  qed
  then have stuck: "yields fib_body (FLoop (fib 44) (fib (Suc 44)) (fib (Suc (Suc 44)))) (Suc 0) = None"
    by simp
  have ext: "yields fib_body (FLoop (fib k) (fib (Suc k)) (fib (Suc (Suc k)))) (Suc n) = None"
    if "k + n = 44" for k n
    using that
  proof (induction n arbitrary: k)
    case 0
    then show ?case using stuck by simp
  next
    case (Suc n)
    then have "in_int (fib (k + 3))" by (simp add: fib_in_int)
    then have "fib_body (FLoop (fib k) (fib (Suc k)) (fib (Suc (Suc k)))) =
        Inr (Yielded (fib (k + 3)) (FLoop (fib (Suc k)) (fib (Suc (Suc k))) (fib (Suc (Suc (Suc k))))))"
      by (simp add: fib_sum_def cint_def numeral_3_eq_3)
    moreover have "yields fib_body (FLoop (fib (Suc k)) (fib (Suc (Suc k))) (fib (Suc (Suc (Suc k))))) (Suc n) = None"
      using Suc.prems by (intro Suc.IH) simp
    ultimately show ?case by (simp del: fib.simps fib_body.simps)
  qed
  have "yields fib_body (FLoop 0 1 1) 45 = None" using ext [of 0 44] by simp
  then have "yields fib_body FStart (Suc (Suc (Suc 45))) = None" unfolding fib_yields_head by simp
  then show ?thesis using fib_yields [of 47] by simp
qed

text \<open>the demo program prints 0 to 14 and then the first fifteen Fibonacci numbers, and
  both destructors then destroy a suspended frame.\<close>

theorem generator_main_output:
  "gen_main = Inr ([0, 1, 2, 3, 4, 5, 6, 7, 8, 9, 10, 11, 12, 13, 14],
                   [0, 1, 1, 2, 3, 5, 8, 13, 21, 34, 55, 89, 144, 233, 377])"
  by code_simp

end
