(* ===== verification/CoroRet.thy ===== *)
theory CoroRet
  imports CxxText
begin

text \<open>
  \<open>Coro_Ret<int>\<close> of \<open>coroutine/7in7out/7in7out.h\<close> and the coroutine and \<open>main\<close> of
  \<open>coroutine/7in7out/main.cpp\<close>. A coroutine body is the list of its statements; a suspended
  coroutine is the list of the statements that are left. Every function appends the
  lines it prints.
\<close>

section \<open>Coroutines\<close>

datatype coro_stmt = CoPrint string | AwaitNever | AwaitAlways | CoYield int | CoReturn int

record coro =
  rest :: "coro_stmt list"
  coro_value :: int            \<comment> \<open>\<open>value_\<close> of the promise\<close>
  coro_done :: bool            \<comment> \<open>suspended at its final suspension point\<close>
  coro_alive :: bool           \<comment> \<open>the frame is allocated\<close>

text \<open>The handle is null after a move; \<open>Inl\<close> is undefined behaviour.\<close>

datatype coro_fault = NullHandle | DeadFrame | ResumeDone | FlowsOff

type_synonym 'a coro_result = "coro_fault + 'a"

text \<open>Creation: the promise's \<open>get_return_object\<close> and \<open>initial_suspend\<close>, which suspends.\<close>

definition coro_create :: "coro_stmt list \<Rightarrow> coro \<times> string list" where
  "coro_create body = (\<lparr>rest = body, coro_value = 0, coro_done = False, coro_alive = True\<rparr>,
     [''get_return_object'', ''initial_suspend''])"

text \<open>Running the body up to its next suspension point.\<close>

fun run_body :: "coro_stmt list \<Rightarrow> int \<Rightarrow> (coro \<times> string list) coro_result" where
  "run_body [] v = Inl FlowsOff"
| "run_body (CoPrint l # st) v = bindr (run_body st v) (\<lambda>(c, out). Inr (c, l # out))"
| "run_body (AwaitNever # st) v = run_body st v"
| "run_body (AwaitAlways # st) v = Inr (\<lparr>rest = st, coro_value = v, coro_done = False, coro_alive = True\<rparr>, [])"
| "run_body (CoYield w # st) v =
     Inr (\<lparr>rest = st, coro_value = w, coro_done = False, coro_alive = True\<rparr>, [''yield_value''])"
| "run_body (CoReturn w # st) v =
     Inr (\<lparr>rest = [], coro_value = w, coro_done = True, coro_alive = True\<rparr>, [''return_value'', ''final_suspend''])"

definition coro_resume :: "coro \<Rightarrow> (coro \<times> string list) coro_result" where
  "coro_resume c = (if \<not> coro_alive c then Inl DeadFrame else if coro_done c then Inl ResumeDone
     else run_body (rest c) (coro_value c))"

section \<open>\<open>Coro_Ret\<close>\<close>

definition handle_done :: "coro option \<Rightarrow> bool coro_result" where
  "handle_done h = (case h of None \<Rightarrow> Inl NullHandle
     | Some c \<Rightarrow> if coro_alive c then Inr (coro_done c) else Inl DeadFrame)"

definition coro_hasNext :: "coro option \<Rightarrow> bool coro_result" where
  "coro_hasNext h = bindr (handle_done h) (\<lambda>b. Inr (\<not> b))"

definition moveNext :: "coro option \<Rightarrow> (coro option \<times> string list) coro_result" where
  "moveNext h = bindr (coro_hasNext h) (\<lambda>b.
     if b then bindr (coro_resume (the h)) (\<lambda>(c, out). Inr (Some c, out)) else Inr (h, []))"

definition coro_get :: "coro option \<Rightarrow> int coro_result" where
  "coro_get h = (case h of None \<Rightarrow> Inl NullHandle | Some c \<Rightarrow> if coro_alive c then Inr (coro_value c) else Inl DeadFrame)"

text \<open>The move constructor: the new object and the source.\<close>

definition coro_move :: "coro option \<Rightarrow> coro option \<times> coro option" where
  "coro_move h = (h, None)"

text \<open>Move assignment drops the handle of the target without destroying its frame: the last
  component is the frame that is leaked.\<close>

definition coro_move_assign :: "coro option \<Rightarrow> coro option \<Rightarrow> (coro option \<times> coro option) \<times> coro option" where
  "coro_move_assign self other = ((other, None), self)"

definition coro_destruct :: "coro option \<Rightarrow> (coro option) coro_result" where
  "coro_destruct h = bindr (handle_done h) (\<lambda>b.
     Inr (if b then map_option (\<lambda>c. c\<lparr>coro_alive := False\<rparr>) h else h))"

section \<open>The demo\<close>

definition coro7i7oFunc :: "coro_stmt list" where
  "coro7i7oFunc = [CoPrint ''Coroutine co_await std::suspend_never'', AwaitNever,
     CoPrint ''Coroutine co_await std::suspend_always'', AwaitAlways,
     CoPrint ''Coroutine stage 1, co_yield'', CoYield 101,
     CoPrint ''Coroutine stage 2, co_yield'', CoYield 202,
     CoPrint ''Coroutine stage 3, co_yield'', CoYield 303,
     CoPrint ''Coroutine stage end, co_return'', CoReturn 808]"

text \<open>One of the repeated blocks of \<open>main\<close>.\<close>

definition coro_block :: "coro option \<Rightarrow> (coro option \<times> string list) coro_result" where
  "coro_block h = bindr (coro_hasNext h) (\<lambda>b.
     bindr (if b then moveNext h else Inr (h, [])) (\<lambda>(h1, out).
     bindr (coro_get h1) (\<lambda>v.
     Inr (h1, out @ [''Coroutine '' @ (if b then ''isn't done, '' else ''is done '') @ ''ret = '' @ show_int v]))))"

fun coro_blocks :: "nat \<Rightarrow> coro option \<Rightarrow> (coro option \<times> string list) coro_result" where
  "coro_blocks 0 h = Inr (h, [])"
| "coro_blocks (Suc n) h = bindr (coro_block h) (\<lambda>(h1, out).
     bindr (coro_blocks n h1) (\<lambda>(h2, out2). Inr (h2, out @ out2)))"

definition coro_main :: "(coro option \<times> string list) coro_result" where
  "coro_main = (case coro_create coro7i7oFunc of (c, out) \<Rightarrow>
     bindr (coro_blocks 6 (Some c)) (\<lambda>(h, out2).
     bindr (coro_destruct h) (\<lambda>h2. Inr (h2, ''Start coroutine_7in7out ()'' # out @ out2))))"

section \<open>Properties\<close>

text \<open>What \<open>get\<close> shows after each \<open>moveNext\<close>: the value at every suspension point.\<close>

fun suspension_values :: "coro_stmt list \<Rightarrow> int \<Rightarrow> int list" where
  "suspension_values [] v = []"
| "suspension_values (CoPrint l # st) v = suspension_values st v"
| "suspension_values (AwaitNever # st) v = suspension_values st v"
| "suspension_values (AwaitAlways # st) v = v # suspension_values st v"
| "suspension_values (CoYield w # st) v = w # suspension_values st w"
| "suspension_values (CoReturn w # st) v = [w]"

fun returns :: "coro_stmt list \<Rightarrow> bool" where
  "returns [] = False"
| "returns (CoReturn w # st) = True"
| "returns (x # st) = returns st"

text \<open>The loop \<open>while (c.hasNext()) { c.moveNext(); use(c.get()); }\<close>, \<open>n\<close> rounds at most.\<close>

fun coro_walk :: "nat \<Rightarrow> coro option \<Rightarrow> (int list \<times> coro option) coro_result" where
  "coro_walk 0 h = Inr ([], h)"
| "coro_walk (Suc n) h = bindr (coro_hasNext h) (\<lambda>b.
     if b then bindr (moveNext h) (\<lambda>(h1, out). bindr (coro_get h1) (\<lambda>v.
       bindr (coro_walk n h1) (\<lambda>(vs, h2). Inr (v # vs, h2))))
     else Inr ([], h))"

lemma run_body_suspends:
  "returns st \<Longrightarrow> \<exists>c out. run_body st v = Inr (c, out) \<and> coro_alive c \<and>
     suspension_values st v = coro_value c # (if coro_done c then [] else suspension_values (rest c) (coro_value c)) \<and>
     (coro_done c \<or> returns (rest c)) \<and> length (rest c) < length st"
  by (induction st v rule: run_body.induct) auto

lemma walk_done: "coro_alive c \<Longrightarrow> coro_done c \<Longrightarrow> coro_walk n (Some c) = Inr ([], Some c)"
  by (cases n) (simp_all add: coro_hasNext_def handle_done_def)

lemma walk_values:
  "coro_alive c \<Longrightarrow> \<not> coro_done c \<Longrightarrow> returns (rest c) \<Longrightarrow> length (rest c) \<le> n \<Longrightarrow>
     \<exists>c'. coro_walk n (Some c) = Inr (suspension_values (rest c) (coro_value c), Some c') \<and>
       coro_alive c' \<and> coro_done c'"
proof (induction n arbitrary: c)
  case 0
  then show ?case by simp
next
  case (Suc n)
  from run_body_suspends [OF Suc.prems(3), of "coro_value c"] obtain c1 out where
    c1: "run_body (rest c) (coro_value c) = Inr (c1, out)" "coro_alive c1"
      "suspension_values (rest c) (coro_value c) =
         coro_value c1 # (if coro_done c1 then [] else suspension_values (rest c1) (coro_value c1))"
      "coro_done c1 \<or> returns (rest c1)" "length (rest c1) < length (rest c)" by blast
  have "\<exists>c'. coro_walk n (Some c1) = Inr (if coro_done c1 then [] else suspension_values (rest c1) (coro_value c1), Some c') \<and>
      coro_alive c' \<and> coro_done c'"
  proof (cases "coro_done c1")
    case True
    with walk_done [OF c1(2)] c1(2) show ?thesis by auto
  next
    case False
    with Suc.IH [of c1] c1 Suc.prems(4) show ?thesis by simp
  qed
  then show ?case
    using Suc.prems(1,2) c1
    by (auto simp: coro_hasNext_def handle_done_def moveNext_def coro_resume_def coro_get_def)
qed

text \<open>for any body that ends by returning, the loop over \<open>hasNext\<close>, \<open>moveNext\<close> and \<open>get\<close>
  ends, meets no undefined behaviour, and shows exactly the values of the suspension points
  in order: the value kept at a plain suspension, each yielded value, the returned one.\<close>

theorem coro_loop_values:
  "returns body \<Longrightarrow>
     \<exists>c. coro_walk (length body) (Some (fst (coro_create body))) = Inr (suspension_values body 0, Some c) \<and>
       coro_done c \<and> coro_destruct (Some c) = Inr (Some (c\<lparr>coro_alive := False\<rparr>))"
proof -
  assume "returns body"
  with walk_values [of "fst (coro_create body)" "length body"] obtain c where
    "coro_walk (length body) (Some (fst (coro_create body))) = Inr (suspension_values body 0, Some c)"
    "coro_alive c" "coro_done c" by (auto simp: coro_create_def)
  then show ?thesis by (intro exI [of _ c]) (simp add: coro_destruct_def handle_done_def)
qed

theorem coro_loop_values_witness:
  "\<exists>c. coro_walk (length coro7i7oFunc) (Some (fst (coro_create coro7i7oFunc))) = Inr ([0, 101, 202, 303, 808], Some c) \<and>
     coro_done c"
  using coro_loop_values [of coro7i7oFunc] by (auto simp: coro7i7oFunc_def)

text \<open>\<open>main\<close> prints exactly the following lines and destroys the finished coroutine: five
  blocks report a coroutine that isn't done, with 0, the three yielded values and the
  returned one, and the sixth reports it done with the returned value again.\<close>

theorem coro_main_output:
  "\<exists>h. coro_main = Inr (h, [''Start coroutine_7in7out ()'', ''get_return_object'', ''initial_suspend'',
     ''Coroutine co_await std::suspend_never'', ''Coroutine co_await std::suspend_always'',
     ''Coroutine isn't done, ret = 0'',
     ''Coroutine stage 1, co_yield'', ''yield_value'', ''Coroutine isn't done, ret = 101'',
     ''Coroutine stage 2, co_yield'', ''yield_value'', ''Coroutine isn't done, ret = 202'',
     ''Coroutine stage 3, co_yield'', ''yield_value'', ''Coroutine isn't done, ret = 303'',
     ''Coroutine stage end, co_return'', ''return_value'', ''final_suspend'', ''Coroutine isn't done, ret = 808'',
     ''Coroutine is done ret = 808'']) \<and> map_option coro_alive h = Some False"
proof -
  have "case coro_main of Inl e \<Rightarrow> False | Inr (h, out) \<Rightarrow> out = [''Start coroutine_7in7out ()'', ''get_return_object'', ''initial_suspend'',
     ''Coroutine co_await std::suspend_never'', ''Coroutine co_await std::suspend_always'',
     ''Coroutine isn't done, ret = 0'',
     ''Coroutine stage 1, co_yield'', ''yield_value'', ''Coroutine isn't done, ret = 101'',
     ''Coroutine stage 2, co_yield'', ''yield_value'', ''Coroutine isn't done, ret = 202'',
     ''Coroutine stage 3, co_yield'', ''yield_value'', ''Coroutine isn't done, ret = 303'',
     ''Coroutine stage end, co_return'', ''return_value'', ''final_suspend'', ''Coroutine isn't done, ret = 808'',
     ''Coroutine is done ret = 808''] \<and> map_option coro_alive h = Some False"
    by code_simp
  then show ?thesis by (auto split: sum.splits)
qed

text \<open>The destructor of a moved-from object asks the null handle whether it is done.\<close>

theorem coro_moved_from_destructor: "coro_destruct (snd (coro_move h)) = Inl NullHandle"
  by (simp add: coro_move_def coro_destruct_def handle_done_def)

end
