(* ===== verification/TaskCoro.thy ===== *)
theory TaskCoro
  imports Prelude
begin

text \<open>
  \<open>Result\<close>, \<open>Task\<close>, \<open>TaskAwaiter\<close> and \<open>TaskPromise\<close> of \<open>coroutine/task/task.h\<close>. Every
  operation of the promise runs under its mutex, except that a callback registered after
  completion runs once the mutex is released; so the operations of several threads are a
  sequence. The mutex is not recursive: an operation called while the same thread holds
  it never returns, which is the value \<open>None\<close>. A value is \<open>'a\<close>, an exception \<open>'e\<close>.
\<close>

section \<open>Results\<close>

record ('a, 'e) result =
  value_ptr :: "'a option"          \<comment> \<open>\<open>None\<close>: the default value \<open>T{}\<close>\<close>
  exception_ptr :: "'e option"

definition value_result :: "'a \<Rightarrow> ('a, 'e) result" where
  "value_result v = \<lparr>value_ptr = Some v, exception_ptr = None\<rparr>"

definition exception_result :: "'e \<Rightarrow> ('a, 'e) result" where
  "exception_result e = \<lparr>value_ptr = None, exception_ptr = Some e\<rparr>"

definition valueOrException :: "('a, 'e) result \<Rightarrow> 'e + 'a option" where
  "valueOrException r = (case exception_ptr r of Some e \<Rightarrow> Inl e | None \<Rightarrow> Inr (value_ptr r))"

section \<open>Callbacks and the promise\<close>

text \<open>The callbacks of the file: \<open>then\<close>, \<open>catching\<close> and \<open>finally\<close> with a user function that is
  identified by a number, the resumption of an awaiting coroutine, which reads the result
  first, and a user function that registers a further callback on the same task.\<close>

datatype callback = Then nat | Catching nat | Finally nat | ResumeAwaiting nat | Registers callback

record ('a, 'e) promise =
  res :: "('a, 'e) result option"
  locked :: bool
  completion_callbacks :: "callback list"
  called :: "(nat \<times> ('e + 'a option)) list"     \<comment> \<open>user functions called, with what they saw\<close>

definition new_promise :: "('a, 'e) promise" where
  "new_promise = \<lparr>res = None, locked = False, completion_callbacks = [], called = []\<rparr>"

definition acquire :: "('a, 'e) promise \<Rightarrow> ('a, 'e) promise option" where
  "acquire p = (if locked p then None else Some (p\<lparr>locked := True\<rparr>))"

definition release :: "('a, 'e) promise \<Rightarrow> ('a, 'e) promise" where
  "release p = p\<lparr>locked := False\<rparr>"

text \<open>\<open>getResult\<close>: without a result it waits, in this thread for ever.\<close>

definition getResult :: "('a, 'e) promise \<Rightarrow> (('e + 'a option) \<times> ('a, 'e) promise) option" where
  "getResult p = (case acquire p of
       None \<Rightarrow> None
     | Some p1 \<Rightarrow> (case res p1 of None \<Rightarrow> None | Some r \<Rightarrow> Some (valueOrException r, release p1)))"

definition record_call :: "nat \<Rightarrow> ('e + 'a option) \<Rightarrow> ('a, 'e) promise \<Rightarrow> ('a, 'e) promise" where
  "record_call i x p = p\<lparr>called := called p @ [(i, x)]\<rparr>"

text \<open>Calling a callback with a result; \<open>Registers\<close> is \<open>onCompleted\<close> of its callback.\<close>

fun run_callback :: "callback \<Rightarrow> ('a, 'e) result \<Rightarrow> ('a, 'e) promise \<Rightarrow> ('a, 'e) promise option" where
  "run_callback (Then i) r p = Some (case valueOrException r of Inl e \<Rightarrow> p | Inr v \<Rightarrow> record_call i (Inr v) p)"
| "run_callback (Catching i) r p = Some (case valueOrException r of Inl e \<Rightarrow> record_call i (Inl e) p | Inr v \<Rightarrow> p)"
| "run_callback (Finally i) r p = Some (record_call i (valueOrException r) p)"
| "run_callback (ResumeAwaiting i) r p = (case getResult p of None \<Rightarrow> None | Some (x, p1) \<Rightarrow> Some (record_call i x p1))"
| "run_callback (Registers cb) r p = (case acquire p of
       None \<Rightarrow> None
     | Some p1 \<Rightarrow> (case res p1 of
           Some r1 \<Rightarrow> run_callback cb r1 (release p1)
         | None \<Rightarrow> Some (release (p1\<lparr>completion_callbacks := completion_callbacks p1 @ [cb]\<rparr>))))"

definition onCompleted :: "callback \<Rightarrow> ('a, 'e) promise \<Rightarrow> ('a, 'e) promise option" where
  "onCompleted cb p = (case acquire p of
       None \<Rightarrow> None
     | Some p1 \<Rightarrow> (case res p1 of
           Some r \<Rightarrow> run_callback cb r (release p1)
         | None \<Rightarrow> Some (release (p1\<lparr>completion_callbacks := completion_callbacks p1 @ [cb]\<rparr>))))"

fun run_callbacks :: "callback list \<Rightarrow> ('a, 'e) result \<Rightarrow> ('a, 'e) promise \<Rightarrow> ('a, 'e) promise option" where
  "run_callbacks [] r p = Some p"
| "run_callbacks (cb # cbs) r p = (case run_callback cb r p of None \<Rightarrow> None | Some p1 \<Rightarrow> run_callbacks cbs r p1)"

definition notifyCallbacks :: "('a, 'e) promise \<Rightarrow> ('a, 'e) promise option" where
  "notifyCallbacks p = (case run_callbacks (completion_callbacks p) (the (res p)) p of
       None \<Rightarrow> None
     | Some p1 \<Rightarrow> Some (p1\<lparr>completion_callbacks := []\<rparr>))"

text \<open>\<open>return_value\<close> and \<open>unhandled_exception\<close> differ in the result they store.\<close>

definition complete :: "('a, 'e) result \<Rightarrow> ('a, 'e) promise \<Rightarrow> ('a, 'e) promise option" where
  "complete r p = (case acquire p of
       None \<Rightarrow> None
     | Some p1 \<Rightarrow> (case notifyCallbacks (p1\<lparr>res := Some r\<rparr>) of None \<Rightarrow> None | Some p2 \<Rightarrow> Some (release p2)))"

definition return_value :: "'a \<Rightarrow> ('a, 'e) promise \<Rightarrow> ('a, 'e) promise option" where
  "return_value v = complete (value_result v)"

definition unhandled_exception :: "'e \<Rightarrow> ('a, 'e) promise \<Rightarrow> ('a, 'e) promise option" where
  "unhandled_exception e = complete (exception_result e)"

section \<open>\<open>Task\<close> and \<open>TaskAwaiter\<close>\<close>

definition task_then :: "nat \<Rightarrow> ('a, 'e) promise \<Rightarrow> ('a, 'e) promise option" where
  "task_then i = onCompleted (Then i)"

definition task_catching :: "nat \<Rightarrow> ('a, 'e) promise \<Rightarrow> ('a, 'e) promise option" where
  "task_catching i = onCompleted (Catching i)"

definition task_finally :: "nat \<Rightarrow> ('a, 'e) promise \<Rightarrow> ('a, 'e) promise option" where
  "task_finally i = onCompleted (Finally i)"

text \<open>\<open>co_await task\<close>: never ready, \<open>await_suspend\<close> registers the resumption of coroutine \<open>i\<close>,
  and \<open>await_resume\<close> calls \<open>getResult\<close>.\<close>

definition await_ready :: bool where "await_ready = False"

definition co_await_task :: "nat \<Rightarrow> ('a, 'e) promise \<Rightarrow> ('a, 'e) promise option" where
  "co_await_task i p = (if await_ready then (case getResult p of None \<Rightarrow> None | Some (x, p1) \<Rightarrow> Some (record_call i x p1))
     else onCompleted (ResumeAwaiting i) p)"

section \<open>Lemmas\<close>

text \<open>Callbacks that leave the promise alone.\<close>

fun plain :: "callback \<Rightarrow> bool" where
  "plain (Then i) = True"
| "plain (Catching i) = True"
| "plain (Finally i) = True"
| "plain _ = False"

text \<open>What a plain callback lets its user function see.\<close>

fun seen :: "('a, 'e) result \<Rightarrow> callback \<Rightarrow> (nat \<times> ('e + 'a option)) list" where
  "seen r (Then i) = (case valueOrException r of Inl e \<Rightarrow> [] | Inr v \<Rightarrow> [(i, Inr v)])"
| "seen r (Catching i) = (case valueOrException r of Inl e \<Rightarrow> [(i, Inl e)] | Inr v \<Rightarrow> [])"
| "seen r (Finally i) = [(i, valueOrException r)]"
| "seen r _ = []"

lemma run_plain: "plain cb \<Longrightarrow> run_callback cb r p = Some (p\<lparr>called := called p @ seen r cb\<rparr>)"
  by (cases cb) (auto simp: record_call_def split: sum.split)

lemma run_plain_list:
  "list_all plain cbs \<Longrightarrow> run_callbacks cbs r p = Some (p\<lparr>called := called p @ concat (List.map (seen r) cbs)\<rparr>)"
  by (induction cbs arbitrary: p) (simp_all add: run_plain)

fun register_all :: "callback list \<Rightarrow> ('a, 'e) promise \<Rightarrow> ('a, 'e) promise option" where
  "register_all [] p = Some p"
| "register_all (cb # cbs) p = (case onCompleted cb p of None \<Rightarrow> None | Some p1 \<Rightarrow> register_all cbs p1)"

lemma register_before:
  "\<not> locked p \<Longrightarrow> res p = None \<Longrightarrow>
     register_all cbs p = Some (p\<lparr>completion_callbacks := completion_callbacks p @ cbs\<rparr>)"
  by (induction cbs arbitrary: p) (auto simp: onCompleted_def acquire_def release_def)

lemma register_after:
  "\<not> locked p \<Longrightarrow> res p = Some r \<Longrightarrow> list_all plain cbs \<Longrightarrow>
     register_all cbs p = Some (p\<lparr>called := called p @ concat (List.map (seen r) cbs)\<rparr>)"
  by (induction cbs arbitrary: p) (auto simp: onCompleted_def acquire_def release_def run_plain)

lemma complete_plain:
  assumes "\<not> locked p" "list_all plain (completion_callbacks p)"
  shows "complete r p = Some (p\<lparr>res := Some r, completion_callbacks := [],
     called := called p @ concat (List.map (seen r) (completion_callbacks p))\<rparr>)"
  using assms by (simp add: complete_def acquire_def notifyCallbacks_def run_plain_list release_def)

text \<open>A task: callbacks registered, completion, more callbacks registered.\<close>

definition task_history :: "callback list \<Rightarrow> ('a, 'e) result \<Rightarrow> callback list \<Rightarrow> ('a, 'e) promise option" where
  "task_history before r after = (case register_all before new_promise of
       None \<Rightarrow> None
     | Some p \<Rightarrow> (case complete r p of None \<Rightarrow> None | Some p1 \<Rightarrow> register_all after p1))"

section \<open>Properties\<close>

text \<open>the user functions of \<open>then\<close>, \<open>catching\<close> and \<open>finally\<close>, registered before or after
  the task completes, are each called exactly once, in the order of registration, with the
  result: \<open>then\<close> only for a value, \<open>catching\<close> only for an exception, \<open>finally\<close> always.\<close>

theorem task_callbacks_once:
  "list_all plain (before @ after) \<Longrightarrow>
     task_history before r after = Some \<lparr>res = Some r, locked = False, completion_callbacks = [],
       called = concat (List.map (seen r) (before @ after))\<rparr>"
proof -
  assume p: "list_all plain (before @ after)"
  have 1: "register_all before new_promise = Some (new_promise\<lparr>completion_callbacks := before\<rparr>)"
    by (subst register_before) (simp_all add: new_promise_def)
  have 2: "complete r (new_promise\<lparr>completion_callbacks := before\<rparr>) =
      Some (new_promise\<lparr>res := Some r, called := concat (List.map (seen r) before)\<rparr>)"
    by (subst complete_plain) (use p in \<open>simp_all add: new_promise_def\<close>)
  show ?thesis
    unfolding task_history_def 1 option.case 2
    using p by (subst register_after [of _ r]) (simp_all add: new_promise_def)
qed

theorem task_callbacks_once_witness:
  "task_history [Then 1, Catching 2] (value_result (7 :: int)) [Finally 3] =
     Some \<lparr>res = Some (value_result 7), locked = False, completion_callbacks = [],
       called = [(1, Inr (Some 7)), (3, Inr (Some 7) :: string + int option)]\<rparr>"
  using task_callbacks_once [of "[Then 1, Catching 2]" "[Finally 3]" "value_result 7"]
  by (simp add: valueOrException_def value_result_def)

text \<open>\<open>co_await\<close> works only on a task that is already complete. If the task completes
  later, its completion runs the awaiting coroutine while it still holds its mutex, and the
  coroutine's first action, \<open>getResult\<close>, locks that mutex again: the completion never
  returns, whatever the result and whatever else was registered before.\<close>

theorem co_await_self_deadlock:
  "(\<exists>p. co_await_task i (new_promise\<lparr>res := Some r\<rparr>) = Some p \<and> called p = [(i, valueOrException r)] \<and> \<not> locked p) \<and>
   (\<exists>p. co_await_task i (new_promise :: ('a, 'e) promise) = Some p \<and> complete r p = None)"
proof
  show "\<exists>p. co_await_task i (new_promise\<lparr>res := Some r\<rparr>) = Some p \<and> called p = [(i, valueOrException r)] \<and> \<not> locked p"
    by (simp add: co_await_task_def await_ready_def onCompleted_def acquire_def release_def getResult_def record_call_def
        new_promise_def)
  show "\<exists>p. co_await_task i (new_promise :: ('a, 'e) promise) = Some p \<and> complete r p = None"
    by (simp add: co_await_task_def await_ready_def onCompleted_def acquire_def release_def getResult_def
        new_promise_def complete_def notifyCallbacks_def)
qed

text \<open>A callback that registers another one on the same task deadlocks in the same way.\<close>

lemma registering_callback_deadlocks:
  "\<not> locked p \<Longrightarrow> Registers cb \<in> set (completion_callbacks p) \<Longrightarrow>
     list_all (\<lambda>c. plain c \<or> c = Registers cb) (completion_callbacks p) \<Longrightarrow> complete r p = None"
proof -
  have "run_callbacks cbs r q = None"
    if "locked q" "Registers cb \<in> set cbs" "list_all (\<lambda>c. plain c \<or> c = Registers cb) cbs" for cbs q
    using that by (induction cbs arbitrary: q) (auto simp: run_plain acquire_def)
  then show "\<not> locked p \<Longrightarrow> Registers cb \<in> set (completion_callbacks p) \<Longrightarrow>
     list_all (\<lambda>c. plain c \<or> c = Registers cb) (completion_callbacks p) \<Longrightarrow> complete r p = None"
    by (simp add: complete_def acquire_def notifyCallbacks_def)
qed

end
