(* ===== verification/Monitor.thy ===== *)
theory Monitor
  imports Prelude
begin

text \<open>
  Objects that keep their data under one \<open>std::mutex\<close> and wait on condition variables:
  \<open>thread_safe_stack\<close>, \<open>CSPChannel\<close> and the alternating printers are instances. A call
  locks the mutex; if it waits with a predicate that is false it releases the mutex and
  sleeps on its condition variable; when it is notified, or wakes spuriously, it has to
  lock the mutex again and tests the predicate anew. The body runs, notifies and
  releases the mutex in one step, because no other thread can look at the data before
  the release. Threads are numbered; any number of them is allowed.
\<close>

section \<open>The object and its threads\<close>

datatype 'c notification = One 'c | All 'c

record ('d, 'o, 'r, 'c) monitor_spec =
  guard :: "'o \<Rightarrow> 'd \<Rightarrow> bool"                 \<comment> \<open>the predicate of \<open>wait\<close>\<close>
  waits_on :: "'o \<Rightarrow> 'c option"             \<comment> \<open>its condition variable\<close>
  body :: "'o \<Rightarrow> 'd \<Rightarrow> 'd \<times> 'r"
  notifies :: "'o \<Rightarrow> 'd \<Rightarrow> 'c notification list"

datatype 'o thread_status = Idle | Locking 'o | Holding 'o | Waiting 'o

type_synonym tid = nat

record ('d, 'o, 'r) monitor =
  data :: 'd
  owner :: "tid option"
  status :: "'o thread_status list"
  history :: "(tid \<times> 'o \<times> 'r) list"

text \<open>\<open>Exec t w\<close>: thread \<open>t\<close> goes on under the mutex; \<open>w\<close> is whom \<open>notify_one\<close> wakes.\<close>

datatype 'o mon_action = Call tid 'o | Lock tid | Exec tid "tid option" | Spurious tid

definition mon_init :: "'d \<Rightarrow> nat \<Rightarrow> ('d, 'o, 'r) monitor" where
  "mon_init d n = \<lparr>data = d, owner = None, status = replicate n Idle, history = []\<rparr>"

fun waiting_on :: "('o \<Rightarrow> 'c option) \<Rightarrow> 'c \<Rightarrow> 'o thread_status \<Rightarrow> bool" where
  "waiting_on w c (Waiting x) = (w x = Some c)"
| "waiting_on w c _ = False"

fun wake :: "'o thread_status \<Rightarrow> 'o thread_status" where
  "wake (Waiting x) = Locking x"
| "wake s = s"

fun notify :: "('o \<Rightarrow> 'c option) \<Rightarrow> tid option \<Rightarrow> 'c notification \<Rightarrow>
    'o thread_status list \<Rightarrow> 'o thread_status list option" where
  "notify w u (All c) sts = Some (List.map (\<lambda>s. if waiting_on w c s then wake s else s) sts)"
| "notify w u (One c) sts =
     (if list_ex (waiting_on w c) sts
      then (case u of
          None \<Rightarrow> None
        | Some v \<Rightarrow> if v < length sts \<and> waiting_on w c (sts ! v) then Some (sts[v := wake (sts ! v)]) else None)
      else Some sts)"

fun notify_list :: "('o \<Rightarrow> 'c option) \<Rightarrow> tid option \<Rightarrow> 'c notification list \<Rightarrow>
    'o thread_status list \<Rightarrow> 'o thread_status list option" where
  "notify_list w u [] sts = Some sts"
| "notify_list w u (n # ns) sts =
     (case notify w u n sts of None \<Rightarrow> None | Some sts' \<Rightarrow> notify_list w u ns sts')"

fun mon_step :: "('d, 'o, 'r, 'c) monitor_spec \<Rightarrow> ('d, 'o, 'r) monitor \<Rightarrow> 'o mon_action \<Rightarrow>
    ('d, 'o, 'r) monitor option" where
  "mon_step sp s (Call t x) =
     (if t < length (status s) then (case status s ! t of
          Idle \<Rightarrow> Some (s\<lparr>status := (status s)[t := Locking x]\<rparr>)
        | _ \<Rightarrow> None)
      else None)"
| "mon_step sp s (Lock t) =
     (if t < length (status s) \<and> owner s = None then (case status s ! t of
          Locking x \<Rightarrow> Some (s\<lparr>owner := Some t, status := (status s)[t := Holding x]\<rparr>)
        | _ \<Rightarrow> None)
      else None)"
| "mon_step sp s (Exec t u) =
     (if t < length (status s) then (case status s ! t of
          Holding x \<Rightarrow>
            if guard sp x (data s) then
              (case notify_list (waits_on sp) u (notifies sp x (data s)) ((status s)[t := Idle]) of
                 None \<Rightarrow> None
               | Some sts \<Rightarrow> Some (s\<lparr>data := fst (body sp x (data s)), owner := None, status := sts,
                   history := history s @ [(t, x, snd (body sp x (data s)))]\<rparr>))
            else Some (s\<lparr>owner := None, status := (status s)[t := Waiting x]\<rparr>)
        | _ \<Rightarrow> None)
      else None)"
| "mon_step sp s (Spurious t) =
     (if t < length (status s) then (case status s ! t of
          Waiting x \<Rightarrow> Some (s\<lparr>status := (status s)[t := Locking x]\<rparr>)
        | _ \<Rightarrow> None)
      else None)"

section \<open>Effects of notifications\<close>

fun holding :: "'o thread_status \<Rightarrow> bool" where
  "holding (Holding x) = True"
| "holding _ = False"

lemma wake_not_waiting [simp]: "\<not> waiting_on w c (wake s)"
  by (cases s) auto

lemma wake_holding [simp]: "holding (wake s) = holding s"
  by (cases s) auto

lemma waiting_not_holding: "waiting_on w c s \<Longrightarrow> \<not> holding s"
  by (cases s) auto

lemma notify_length: "notify w u n sts = Some sts' \<Longrightarrow> length sts' = length sts"
  by (cases n) (auto split: if_splits option.splits)

lemma notify_holding:
  "notify w u n sts = Some sts' \<Longrightarrow> t < length sts \<Longrightarrow> holding (sts' ! t) = holding (sts ! t)"
  by (cases n) (auto split: if_splits option.splits simp: nth_list_update)

lemma notify_list_length: "notify_list w u ns sts = Some sts' \<Longrightarrow> length sts' = length sts"
  by (induction ns arbitrary: sts) (auto split: option.splits dest: notify_length)

lemma notify_list_holding:
  "notify_list w u ns sts = Some sts' \<Longrightarrow> t < length sts \<Longrightarrow> holding (sts' ! t) = holding (sts ! t)"
proof (induction ns arbitrary: sts)
  case (Cons n ns)
  then obtain sts1 where "notify w u n sts = Some sts1" "notify_list w u ns sts1 = Some sts'"
    by (auto split: option.splits)
  with Cons.IH [of sts1] Cons.prems(2) notify_length [of w u n sts sts1] notify_holding [of w u n sts sts1 t]
  show ?case by simp
qed simp

section \<open>Mutual exclusion\<close>

definition mon_mutex :: "('d, 'o, 'r) monitor \<Rightarrow> bool" where
  "mon_mutex s \<longleftrightarrow> (\<forall>t < length (status s). holding (status s ! t) \<longleftrightarrow> owner s = Some t)"

lemma mon_step_mutex: "mon_mutex s \<Longrightarrow> mon_step sp s a = Some s' \<Longrightarrow> mon_mutex s'"
proof (cases a)
  case (Exec t u)
  assume inv: "mon_mutex s" and st: "mon_step sp s a = Some s'"
  from st Exec obtain x where t: "t < length (status s)" "status s ! t = Holding x"
    by (auto split: if_splits thread_status.splits)
  with inv have o: "owner s = Some t" by (auto simp: mon_mutex_def)
  show ?thesis
  proof (cases "guard sp x (data s)")
    case True
    with st Exec t obtain sts where
      n: "notify_list (waits_on sp) u (notifies sp x (data s)) ((status s)[t := Idle]) = Some sts"
      and s': "status s' = sts" "owner s' = None"
      by (auto split: option.splits)
    show ?thesis
      using inv o n notify_list_length [OF n] notify_list_holding [OF n]
      by (auto simp: mon_mutex_def s' nth_list_update)
  next
    case False
    with st Exec t inv o show ?thesis by (auto simp: mon_mutex_def nth_list_update)
  qed
next
  case (Call t x)
  assume "mon_mutex s" "mon_step sp s a = Some s'"
  with Call show ?thesis
    by (auto simp: mon_mutex_def nth_list_update split: if_splits thread_status.splits)
      (metis holding.simps(2))+
next
  case (Lock t)
  assume "mon_mutex s" "mon_step sp s a = Some s'"
  with Lock show ?thesis
    by (auto simp: mon_mutex_def nth_list_update split: if_splits thread_status.splits)
next
  case (Spurious t)
  assume "mon_mutex s" "mon_step sp s a = Some s'"
  with Spurious show ?thesis
    by (auto simp: mon_mutex_def nth_list_update split: if_splits thread_status.splits)
      (metis holding.simps(4))+
qed

lemma mon_init_mutex: "mon_mutex (mon_init d n)"
  by (simp add: mon_mutex_def mon_init_def)

interpretation mon_mx: invariant_system "mon_step sp" "mon_init d n" mon_mutex for sp d n
  by unfold_locales (auto intro: mon_init_mutex mon_step_mutex)

text \<open>The owner of the mutex is one of the threads.\<close>

definition owner_valid :: "('d, 'o, 'r) monitor \<Rightarrow> bool" where
  "owner_valid s \<longleftrightarrow> owner s = None \<or> the (owner s) < length (status s)"

lemma mon_step_owner_valid: "owner_valid s \<Longrightarrow> mon_step sp s a = Some s' \<Longrightarrow> owner_valid s'"
  by (cases a) (auto simp: owner_valid_def split: if_splits thread_status.splits option.splits
      dest: notify_list_length)

interpretation mon_own: invariant_system "mon_step sp" "mon_init d n" owner_valid for sp d n
proof unfold_locales
  show "owner_valid (mon_init d n)" by (simp add: owner_valid_def mon_init_def)
qed (rule mon_step_owner_valid)

lemma owner_holds:
  assumes "reachable (mon_step sp) (mon_init d n) s" "owner s = Some t"
  obtains x where "t < length (status s)" "status s ! t = Holding x"
proof -
  from mon_own.reachable_inv [OF assms(1)] assms(2) have t: "t < length (status s)"
    by (simp add: owner_valid_def)
  with mon_mx.reachable_inv [OF assms(1)] assms(2) have "holding (status s ! t)" by (simp add: mon_mutex_def)
  with t that show thesis by (cases "status s ! t") auto
qed

section \<open>Linearisation\<close>

text \<open>
  The history lists the bodies in the order they ran. It is a legal sequential use of
  the object: each body ran where its predicate held, on the data its predecessors left,
  and returned what it returns there.
\<close>

fun legal :: "('d, 'o, 'r, 'c) monitor_spec \<Rightarrow> 'd \<Rightarrow> (tid \<times> 'o \<times> 'r) list \<Rightarrow> 'd option" where
  "legal sp d [] = Some d"
| "legal sp d ((t, x, r) # h) =
     (if guard sp x d \<and> snd (body sp x d) = r then legal sp (fst (body sp x d)) h else None)"

lemma legal_append:
  "legal sp d (h @ h') = (case legal sp d h of None \<Rightarrow> None | Some d' \<Rightarrow> legal sp d' h')"
  by (induction sp d h rule: legal.induct) auto

definition linearised :: "('d, 'o, 'r, 'c) monitor_spec \<Rightarrow> 'd \<Rightarrow> ('d, 'o, 'r) monitor \<Rightarrow> bool" where
  "linearised sp d s \<longleftrightarrow> legal sp d (history s) = Some (data s)"

lemma mon_step_linearised:
  "linearised sp d s \<Longrightarrow> mon_step sp s a = Some s' \<Longrightarrow> linearised sp d s'"
  by (cases a) (auto simp: linearised_def legal_append split: if_splits thread_status.splits option.splits)

interpretation mon_lin: invariant_system "mon_step sp" "mon_init d n" "linearised sp d" for sp d n
proof unfold_locales
  show "linearised sp d (mon_init d n)" by (simp add: linearised_def mon_init_def)
qed (rule mon_step_linearised)

text \<open>Only threads of the object appear in the history.\<close>

definition history_tids :: "nat \<Rightarrow> ('d, 'o, 'r) monitor \<Rightarrow> bool" where
  "history_tids n s \<longleftrightarrow> length (status s) = n \<and> (\<forall>e \<in> set (history s). fst e < n)"

lemma mon_step_history_tids: "history_tids n s \<Longrightarrow> mon_step sp s a = Some s' \<Longrightarrow> history_tids n s'"
  by (cases a) (auto simp: history_tids_def split: if_splits thread_status.splits option.splits
      dest: notify_list_length)

interpretation mon_tids: invariant_system "mon_step sp" "mon_init d n" "history_tids n" for sp d n
proof unfold_locales
  show "history_tids n (mon_init d n)" by (simp add: history_tids_def mon_init_def)
qed (rule mon_step_history_tids)

text \<open>The contract of the bodies: each keeps a predicate of the data where it may run.\<close>

locale monitor_contract =
  fixes sp :: "('d, 'o, 'r, 'c) monitor_spec" and d0 :: 'd and P :: "'d \<Rightarrow> bool"
  assumes P_start: "P d0"
    and P_body: "P d \<Longrightarrow> guard sp x d \<Longrightarrow> P (fst (body sp x d))"
begin

lemma legal_P: "P d \<Longrightarrow> legal sp d h = Some d' \<Longrightarrow> P d'"
proof (induction h arbitrary: d)
  case (Cons e h)
  obtain t x r where e: "e = (t, x, r)" by (cases e) auto
  with Cons.prems have "guard sp x d" "legal sp (fst (body sp x d)) h = Some d'"
    by (auto split: if_splits)
  with Cons.IH P_body [OF Cons.prems(1)] show ?case by blast
qed simp

lemma data_inv: "reachable (mon_step sp) (mon_init d0 n) s \<Longrightarrow> P (data s)"
  using mon_lin.reachable_inv legal_P [OF P_start] by (fastforce simp: linearised_def)

end

section \<open>No lost wake-ups\<close>

text \<open>
  The contract of a condition variable \<open>c\<close> that guards a resource: the waiting calls are
  the ones that take a unit of the resource, \<open>level\<close> says how many units there are, and
  who adds a unit notifies \<open>c\<close>. Once \<open>off\<close> holds nobody waits any more.
\<close>

fun active :: "('o \<Rightarrow> bool) \<Rightarrow> 'o thread_status \<Rightarrow> bool" where
  "active tk (Locking x) = tk x"
| "active tk (Holding x) = tk x"
| "active tk _ = False"

definition n_active :: "('o \<Rightarrow> bool) \<Rightarrow> 'o thread_status list \<Rightarrow> nat" where
  "n_active tk sts = length (filter (active tk) sts)"

lemma n_active_update:
  "t < length sts \<Longrightarrow> n_active tk (sts[t := y]) + (if active tk (sts ! t) then 1 else 0) =
     n_active tk sts + (if active tk y then 1 else 0)"
  unfolding n_active_def by (rule count_update)

lemma waiting_not_active: "waiting_on w c x \<Longrightarrow> \<not> active tk x"
  by (cases x) auto

lemma active_wake_mono: "active tk x \<Longrightarrow> active tk (wake x)"
  by (cases x) auto

lemma n_active_map_mono:
  "(\<And>x. active tk x \<Longrightarrow> active tk (f x)) \<Longrightarrow> n_active tk sts \<le> n_active tk (List.map f sts)"
  unfolding n_active_def by (induction sts) (auto simp: le_SucI)

lemma list_ex_waiting_map:
  "list_ex (waiting_on w c) (List.map (\<lambda>s. if Q s then wake s else s) sts) \<Longrightarrow>
     list_ex (\<lambda>s. waiting_on w c s \<and> \<not> Q s) sts"
proof -
  assume "list_ex (waiting_on w c) (List.map (\<lambda>s. if Q s then wake s else s) sts)"
  then obtain x where x: "x \<in> set sts" "waiting_on w c (if Q x then wake x else x)"
    by (auto simp: list_ex_iff)
  then have "\<not> Q x \<and> waiting_on w c x" by (cases x) (auto split: if_splits)
  with x(1) show ?thesis by (auto simp: list_ex_iff)
qed

text \<open>A notification wakes nobody else's waiters and never loses an active thread.\<close>

lemma notify_waiting:
  "notify w u n sts = Some sts' \<Longrightarrow> list_ex (waiting_on w c) sts' \<Longrightarrow> list_ex (waiting_on w c) sts"
proof (cases n)
  case (One c')
  assume n: "notify w u n sts = Some sts'" and ex: "list_ex (waiting_on w c) sts'"
  show ?thesis
  proof (cases "list_ex (waiting_on w c') sts")
    case True
    with n One obtain v where v: "v < length sts" "waiting_on w c' (sts ! v)"
        "sts' = sts[v := wake (sts ! v)]" by (auto split: option.splits if_splits)
    then have "\<not> waiting_on w c (wake (sts ! v))" by (cases "sts ! v") auto
    with ex v list_ex_update [of "waiting_on w c" sts v] show ?thesis by blast
  next
    case False
    with n One ex show ?thesis by simp
  qed
next
  case (All c')
  assume "notify w u n sts = Some sts'" "list_ex (waiting_on w c) sts'"
  then show ?thesis
    using All list_ex_waiting_map [of w c "waiting_on w c'" sts] by (auto simp: list_ex_iff)
qed

lemma notify_active:
  "notify w u n sts = Some sts' \<Longrightarrow> n_active tk sts \<le> n_active tk sts'"
proof (cases n)
  case (One c')
  assume n: "notify w u n sts = Some sts'"
  show ?thesis
  proof (cases "list_ex (waiting_on w c') sts")
    case True
    with n One obtain v where v: "v < length sts" "waiting_on w c' (sts ! v)"
        "sts' = sts[v := wake (sts ! v)]" by (auto split: option.splits if_splits)
    with n_active_update [of v sts tk "wake (sts ! v)"] waiting_not_active [of w c' "sts ! v" tk]
    show ?thesis by (simp split: if_splits)
  next
    case False
    with n One show ?thesis by simp
  qed
next
  case (All c')
  assume "notify w u n sts = Some sts'"
  with All show ?thesis by (auto intro!: n_active_map_mono active_wake_mono)
qed

lemma notify_list_waiting:
  "notify_list w u ns sts = Some sts' \<Longrightarrow> list_ex (waiting_on w c) sts' \<Longrightarrow> list_ex (waiting_on w c) sts"
  by (induction ns arbitrary: sts) (auto split: option.splits dest: notify_waiting)

lemma notify_list_active: "notify_list w u ns sts = Some sts' \<Longrightarrow> n_active tk sts \<le> n_active tk sts'"
proof (induction ns arbitrary: sts)
  case (Cons n ns)
  then obtain sts1 where "notify w u n sts = Some sts1" "notify_list w u ns sts1 = Some sts'"
    by (auto split: option.splits)
  with Cons.IH [of sts1] notify_active [of w u n sts sts1 tk] show ?case by simp
qed simp

text \<open>A notification of \<open>c\<close> while somebody waits on \<open>c\<close> adds an active taker.\<close>

lemma notify_one_adds:
  assumes "notify w u (One c) sts = Some sts'" "list_ex (waiting_on w c) sts"
    and takers: "\<And>x. w x = Some c \<longleftrightarrow> tk x"
  shows "n_active tk sts' = Suc (n_active tk sts)"
proof -
  from assms obtain v where v: "v < length sts" "waiting_on w c (sts ! v)" "sts' = sts[v := wake (sts ! v)]"
    by (auto split: option.splits if_splits)
  then obtain x where "sts ! v = Waiting x" "tk x" using takers by (cases "sts ! v") auto
  with v n_active_update [of v sts tk "wake (sts ! v)"] show ?thesis by simp
qed

lemma notify_all_clears:
  "notify w u (All c) sts = Some sts' \<Longrightarrow> \<not> list_ex (waiting_on w c) sts'"
  using list_ex_waiting_map [of w c "waiting_on w c" sts] by (auto simp: list_ex_iff)

lemma notify_list_one_adds:
  assumes takers: "\<And>x. w x = Some c \<longleftrightarrow> tk x"
  shows "notify_list w u ns sts = Some sts' \<Longrightarrow> One c \<in> set ns \<Longrightarrow> list_ex (waiting_on w c) sts' \<Longrightarrow>
     Suc (n_active tk sts) \<le> n_active tk sts'"
proof (induction ns arbitrary: sts)
  case (Cons n ns)
  then obtain sts1 where 1: "notify w u n sts = Some sts1" "notify_list w u ns sts1 = Some sts'"
    by (auto split: option.splits)
  have w1: "list_ex (waiting_on w c) sts1" by (rule notify_list_waiting [OF 1(2) Cons.prems(3)])
  show ?case
  proof (cases "n = One c")
    case True
    have "n_active tk sts1 = Suc (n_active tk sts)"
      using 1(1) notify_waiting [OF 1(1) w1] takers unfolding True by (rule notify_one_adds)
    with notify_list_active [OF 1(2), of tk] show ?thesis by simp
  next
    case False
    with Cons 1 have "Suc (n_active tk sts1) \<le> n_active tk sts'" by auto
    with notify_active [OF 1(1), of tk] show ?thesis by simp
  qed
qed simp

lemma notify_list_all_clears:
  "notify_list w u ns sts = Some sts' \<Longrightarrow> All c \<in> set ns \<Longrightarrow> \<not> list_ex (waiting_on w c) sts'"
proof (induction ns arbitrary: sts)
  case (Cons n ns)
  then obtain sts1 where 1: "notify w u n sts = Some sts1" "notify_list w u ns sts1 = Some sts'"
    by (auto split: option.splits)
  with Cons show ?case using notify_all_clears [of w u c sts sts1] notify_list_waiting by fastforce
qed simp

locale wakeup_contract =
  fixes sp :: "('d, 'o, 'r, 'c) monitor_spec" and c :: 'c and takes :: "'o \<Rightarrow> bool"
    and level :: "'d \<Rightarrow> nat" and off :: "'d \<Rightarrow> bool"
  assumes takers: "waits_on sp x = Some c \<longleftrightarrow> takes x"
    and blocked: "takes x \<Longrightarrow> \<not> guard sp x d \<Longrightarrow> level d = 0 \<and> \<not> off d"
    and take_unit: "takes x \<Longrightarrow> guard sp x d \<Longrightarrow> \<not> off d \<Longrightarrow>
      level (fst (body sp x d)) < level d \<and> \<not> off (fst (body sp x d))"
    and give_unit: "\<not> takes x \<Longrightarrow> guard sp x d \<Longrightarrow> \<not> off d \<Longrightarrow>
      level (fst (body sp x d)) \<le> level d \<and> \<not> off (fst (body sp x d)) \<or>
      level (fst (body sp x d)) \<le> Suc (level d) \<and> \<not> off (fst (body sp x d)) \<and> One c \<in> set (notifies sp x d) \<or>
      All c \<in> set (notifies sp x d)"
begin

definition wakeup_inv :: "('d, 'o, 'r) monitor \<Rightarrow> bool" where
  "wakeup_inv s \<longleftrightarrow> (list_ex (waiting_on (waits_on sp) c) (status s) \<longrightarrow>
     \<not> off (data s) \<and> level (data s) \<le> n_active takes (status s))"

lemma waiting_idle: "\<not> waiting_on w k Idle" "\<not> waiting_on w k (Locking x)" "\<not> waiting_on w k (Holding x)"
  by auto

lemma exec_wakeup:
  assumes inv: "wakeup_inv s" and t: "t < length (status s)" "status s ! t = Holding x"
    and g: "guard sp x (data s)"
    and n: "notify_list (waits_on sp) u (notifies sp x (data s)) ((status s)[t := Idle]) = Some sts"
    and s': "data s' = fst (body sp x (data s))" "status s' = sts"
  shows "wakeup_inv s'"
  unfolding wakeup_inv_def s'
proof (intro impI)
  let ?w = "waits_on sp" and ?st = "(status s)[t := Idle]"
  assume ex: "list_ex (waiting_on ?w c) sts"
  have exi: "list_ex (waiting_on ?w c) ?st" by (rule notify_list_waiting [OF n ex])
  then have "list_ex (waiting_on ?w c) (status s)" using list_ex_update waiting_idle(1) by metis
  with inv have lv: "level (data s) \<le> n_active takes (status s)" and off: "\<not> off (data s)"
    by (auto simp: wakeup_inv_def)
  have cnt: "n_active takes ?st + (if takes x then 1 else 0) = n_active takes (status s)"
    using n_active_update [OF t(1), of takes Idle] t(2) by simp
  have mono: "n_active takes ?st \<le> n_active takes sts" by (rule notify_list_active [OF n])
  show "\<not> off (fst (body sp x (data s))) \<and> level (fst (body sp x (data s))) \<le> n_active takes sts"
  proof (cases "takes x")
    case True
    from take_unit [OF True g off] lv cnt mono True show ?thesis by auto
  next
    case False
    from give_unit [OF False g off]
    consider "level (fst (body sp x (data s))) \<le> level (data s)" "\<not> off (fst (body sp x (data s)))"
      | "level (fst (body sp x (data s))) \<le> Suc (level (data s))" "\<not> off (fst (body sp x (data s)))"
          "One c \<in> set (notifies sp x (data s))"
      | "All c \<in> set (notifies sp x (data s))" by blast
    then show ?thesis
    proof cases
      case 1
      with lv cnt mono False show ?thesis by auto
    next
      case 2
      from notify_list_one_adds [OF takers n 2(3) ex] 2 lv cnt False show ?thesis by auto
    next
      case 3
      with notify_list_all_clears [OF n] ex show ?thesis by blast
    qed
  qed
qed

lemma step_wakeup:
  assumes inv: "wakeup_inv s" and st: "mon_step sp s a = Some s'"
  shows "wakeup_inv s'"
proof (cases a)
  case (Exec t u)
  from st Exec obtain x where t: "t < length (status s)" "status s ! t = Holding x"
    by (auto split: if_splits thread_status.splits)
  show ?thesis
  proof (cases "guard sp x (data s)")
    case True
    with st Exec t inv show ?thesis by (auto split: option.splits intro: exec_wakeup)
  next
    case False
    with st Exec t have s': "data s' = data s" "status s' = (status s)[t := Waiting x]" by auto
    show ?thesis
    proof (cases "takes x")
      case True
      with blocked [OF True False] show ?thesis by (simp add: wakeup_inv_def s')
    next
      case nt: False
      then have "\<not> waiting_on (waits_on sp) c (Waiting x)" using takers by simp
      then have "list_ex (waiting_on (waits_on sp) c) (status s')
          \<Longrightarrow> list_ex (waiting_on (waits_on sp) c) (status s)"
        unfolding s' using list_ex_update by metis
      moreover have "n_active takes (status s') = n_active takes (status s)"
        using n_active_update [OF t(1), of takes "Waiting x"] t nt s' by simp
      ultimately show ?thesis using inv by (simp add: wakeup_inv_def s'(1))
    qed
  qed
next
  case (Call t x)
  with st have t: "t < length (status s)" "status s ! t = Idle"
    and s': "data s' = data s" "status s' = (status s)[t := Locking x]"
    by (auto split: if_splits thread_status.splits)
  have "n_active takes (status s) \<le> n_active takes (status s')"
    using n_active_update [OF t(1), of takes "Locking x"] t(2) by (simp add: s')
  moreover have "list_ex (waiting_on (waits_on sp) c) (status s') \<Longrightarrow> list_ex (waiting_on (waits_on sp) c) (status s)"
    unfolding s' using list_ex_update waiting_idle(2) by metis
  ultimately show ?thesis using inv by (auto simp: wakeup_inv_def s'(1))
next
  case (Lock t)
  with st obtain x where t: "t < length (status s)" "status s ! t = Locking x"
    and s': "data s' = data s" "status s' = (status s)[t := Holding x]"
    by (auto split: if_splits thread_status.splits)
  have "n_active takes (status s) = n_active takes (status s')"
    using n_active_update [OF t(1), of takes "Holding x"] t(2) by (simp add: s')
  moreover have "list_ex (waiting_on (waits_on sp) c) (status s') \<Longrightarrow> list_ex (waiting_on (waits_on sp) c) (status s)"
    unfolding s' using list_ex_update waiting_idle(3) by metis
  ultimately show ?thesis using inv by (auto simp: wakeup_inv_def s'(1))
next
  case (Spurious t)
  with st obtain x where t: "t < length (status s)" "status s ! t = Waiting x"
    and s': "data s' = data s" "status s' = (status s)[t := Locking x]"
    by (auto split: if_splits thread_status.splits)
  have "n_active takes (status s) \<le> n_active takes (status s')"
    using n_active_update [OF t(1), of takes "Locking x"] t(2) by (simp add: s')
  moreover have "list_ex (waiting_on (waits_on sp) c) (status s') \<Longrightarrow> list_ex (waiting_on (waits_on sp) c) (status s)"
    unfolding s' using list_ex_update waiting_idle(2) by metis
  ultimately show ?thesis using inv by (auto simp: wakeup_inv_def s'(1))
qed

lemma reachable_wakeup: "reachable (mon_step sp) (mon_init d n) s \<Longrightarrow> wakeup_inv s"
proof (induction rule: reachable.induct)
  case reachable_start
  show ?case by (simp add: wakeup_inv_def mon_init_def list_ex_iff)
next
  case (reachable_step s a t)
  from reachable_step.IH reachable_step.hyps(2) show ?case by (rule step_wakeup)
qed

lemma no_lost_wakeup:
  assumes "reachable (mon_step sp) (mon_init d n) s"
    and "t < length (status s)" "status s ! t = Waiting x" "takes x" "0 < level (data s)"
  shows "\<exists>t' < length (status s). \<exists>y. takes y \<and> (status s ! t' = Locking y \<or> status s ! t' = Holding y)"
proof -
  have "Waiting x \<in> set (status s)" using assms(2,3) nth_mem by metis
  moreover have "waiting_on (waits_on sp) c (Waiting x)" using assms(4) takers by simp
  ultimately have "list_ex (waiting_on (waits_on sp) c) (status s)" unfolding list_ex_iff by blast
  with reachable_wakeup [OF assms(1)] assms(5) have "0 < n_active takes (status s)"
    by (auto simp: wakeup_inv_def)
  then have "filter (active takes) (status s) \<noteq> []" by (simp add: n_active_def)
  then obtain z where "z \<in> set (status s)" "active takes z" by (auto simp: filter_empty_conv)
  then obtain t' where "t' < length (status s)" "active takes (status s ! t')"
    by (metis in_set_conv_nth)
  then show ?thesis by (intro exI [of _ t']) (cases "status s ! t'"; auto)
qed

end

end
