(* ===== verification/Threads.thy ===== *)
theory Threads
  imports Monitor CxxText
begin

text \<open>
  Programs of several threads over one monitor object, for the \<open>main\<close> functions of the
  demos. A thread alternates between calling the object and printing what it got; the
  output is the list of printed lines. Which thread moves is up to the scheduler.
\<close>

record ('p, 'o, 'r) program =
  next_call :: "tid \<Rightarrow> 'p \<Rightarrow> 'o option"              \<comment> \<open>\<open>None\<close>: the thread function returns\<close>
  on_return :: "tid \<Rightarrow> 'p \<Rightarrow> 'r \<Rightarrow> string \<times> 'p"        \<comment> \<open>the line to print (\<open>[]\<close> for none)\<close>

datatype 'p thread_pc = AtCall 'p | InCall 'p | ToPrint string 'p

record ('d, 'o, 'r, 'p) threads =
  mon :: "('d, 'o, 'r) monitor"
  pcs :: "'p thread_pc list"
  printed :: "string list"

datatype 'o thread_action = Begin tid | Inner "'o mon_action" | Print tid

definition threads_init :: "'d \<Rightarrow> 'p thread_pc list \<Rightarrow> ('d, 'o, 'r, 'p) threads" where
  "threads_init d ps = \<lparr>mon = mon_init d (length ps), pcs = ps, printed = []\<rparr>"

definition after_return :: "string \<times> 'p \<Rightarrow> 'p thread_pc" where
  "after_return mp = (if fst mp = [] then AtCall (snd mp) else ToPrint (fst mp) (snd mp))"

fun returned :: "('p, 'o, 'r) program \<Rightarrow> (tid \<times> 'o \<times> 'r) list \<Rightarrow> 'p thread_pc list \<Rightarrow> 'p thread_pc list" where
  "returned pr [] ps = ps"
| "returned pr ((t, x, r) # h) ps = returned pr h
     (if t < length ps then (case ps ! t of
          InCall p \<Rightarrow> ps[t := after_return (on_return pr t p r)]
        | _ \<Rightarrow> ps)
      else ps)"

fun threads_step :: "('d, 'o, 'r, 'c) monitor_spec \<Rightarrow> ('p, 'o, 'r) program \<Rightarrow> ('d, 'o, 'r, 'p) threads \<Rightarrow>
    'o thread_action \<Rightarrow> ('d, 'o, 'r, 'p) threads option" where
  "threads_step sp pr s (Begin t) =
     (if t < length (pcs s) then (case pcs s ! t of
          AtCall p \<Rightarrow> (case next_call pr t p of
              None \<Rightarrow> None
            | Some x \<Rightarrow> (case mon_step sp (mon s) (Call t x) of
                None \<Rightarrow> None
              | Some m \<Rightarrow> Some (s\<lparr>mon := m, pcs := (pcs s)[t := InCall p]\<rparr>)))
        | _ \<Rightarrow> None)
      else None)"
| "threads_step sp pr s (Inner a) = (case a of
     Call t x \<Rightarrow> None
   | _ \<Rightarrow> (case mon_step sp (mon s) a of
       None \<Rightarrow> None
     | Some m \<Rightarrow> Some (s\<lparr>mon := m,
         pcs := returned pr (drop (length (history (mon s))) (history m)) (pcs s)\<rparr>)))"
| "threads_step sp pr s (Print t) =
     (if t < length (pcs s) then (case pcs s ! t of
          ToPrint l p \<Rightarrow> Some (s\<lparr>pcs := (pcs s)[t := AtCall p], printed := printed s @ [l]\<rparr>)
        | _ \<Rightarrow> None)
      else None)"

definition finished :: "('p, 'o, 'r) program \<Rightarrow> ('d, 'o, 'r, 'p) threads \<Rightarrow> tid \<Rightarrow> bool" where
  "finished pr s t \<longleftrightarrow> (case pcs s ! t of AtCall p \<Rightarrow> next_call pr t p = None | _ \<Rightarrow> False)"

text \<open>A schedule in which one thread completes a call that need not wait, and prints.\<close>

definition call_turn :: "tid \<Rightarrow> 'o thread_action list" where
  "call_turn t = [Begin t, Inner (Lock t), Inner (Exec t None)]"

definition print_turn :: "tid \<Rightarrow> 'o thread_action list" where
  "print_turn t = call_turn t @ [Print t]"

lemma threads_mon_step:
  "threads_step sp pr s a = Some s' \<Longrightarrow> mon s' = mon s \<or> (\<exists>b. mon_step sp (mon s) b = Some (mon s'))"
  by (cases a) (auto split: if_splits thread_pc.splits option.splits mon_action.splits simp del: mon_step.simps)

text \<open>Every state the threads reach is reachable for the object, so its theorems apply.\<close>

lemma threads_reach_mon:
  "reachable (threads_step sp pr) (threads_init d ps) s \<Longrightarrow>
     reachable (mon_step sp) (mon_init d (length ps)) (mon s)"
proof (induction rule: reachable.induct)
  case reachable_start
  show ?case by (simp add: threads_init_def reachable.reachable_start)
next
  case (reachable_step s a t)
  with threads_mon_step [OF reachable_step.hyps(2)] show ?case
    by (auto intro: reachable.reachable_step)
qed

section \<open>Program order\<close>

text \<open>
  \<open>follows\<close> replays the calls of one thread against its program. In every reachable
  state the completed calls of each thread are what its program makes it call, one after
  the other, and the thread stands where they lead.
\<close>

fun follows :: "('p, 'o, 'r) program \<Rightarrow> tid \<Rightarrow> 'p \<Rightarrow> ('o \<times> 'r) list \<Rightarrow> 'p option" where
  "follows pr t p [] = Some p"
| "follows pr t p ((x, r) # h) =
     (if next_call pr t p = Some x then follows pr t (snd (on_return pr t p r)) h else None)"

definition calls_of :: "tid \<Rightarrow> (tid \<times> 'o \<times> 'r) list \<Rightarrow> ('o \<times> 'r) list" where
  "calls_of t h = List.map snd (filter (\<lambda>e. fst e = t) h)"

fun pc_state :: "'p thread_pc \<Rightarrow> 'p" where
  "pc_state (AtCall p) = p"
| "pc_state (InCall p) = p"
| "pc_state (ToPrint l p) = p"

fun in_call :: "'p thread_pc \<Rightarrow> bool" where
  "in_call (InCall p) = True"
| "in_call _ = False"

fun op_of :: "'o thread_status \<Rightarrow> 'o option" where
  "op_of Idle = None"
| "op_of (Locking x) = Some x"
| "op_of (Holding x) = Some x"
| "op_of (Waiting x) = Some x"

definition thread_ok :: "('p, 'o, 'r) program \<Rightarrow> 'p \<Rightarrow> ('d, 'o, 'r, 'p) threads \<Rightarrow> tid \<Rightarrow> bool" where
  "thread_ok pr p0 s t \<longleftrightarrow>
     op_of (status (mon s) ! t) = (if in_call (pcs s ! t) then next_call pr t (pc_state (pcs s ! t)) else None) \<and>
     (in_call (pcs s ! t) \<longrightarrow> next_call pr t (pc_state (pcs s ! t)) \<noteq> None) \<and>
     follows pr t p0 (calls_of t (history (mon s))) = Some (pc_state (pcs s ! t))"

definition threads_ok :: "('p, 'o, 'r) program \<Rightarrow> 'p thread_pc list \<Rightarrow> ('d, 'o, 'r, 'p) threads \<Rightarrow> bool" where
  "threads_ok pr ps s \<longleftrightarrow> length (pcs s) = length ps \<and> length (status (mon s)) = length ps \<and>
     (\<forall>t < length ps. thread_ok pr (pc_state (ps ! t)) s t)"

lemma follows_append:
  "follows pr t p (h @ h') = (case follows pr t p h of None \<Rightarrow> None | Some q \<Rightarrow> follows pr t q h')"
  by (induction pr t p h rule: follows.induct) auto

lemma op_of_wake [simp]: "op_of (wake x) = op_of x"
  by (cases x) auto

lemma notify_op_of:
  "notify w u n sts = Some sts' \<Longrightarrow> t < length sts \<Longrightarrow> op_of (sts' ! t) = op_of (sts ! t)"
  by (cases n) (auto split: if_splits option.splits simp: nth_list_update)

lemma notify_list_op_of:
  "notify_list w u ns sts = Some sts' \<Longrightarrow> t < length sts \<Longrightarrow> op_of (sts' ! t) = op_of (sts ! t)"
proof (induction ns arbitrary: sts)
  case (Cons n ns)
  then obtain sts1 where "notify w u n sts = Some sts1" "notify_list w u ns sts1 = Some sts'"
    by (auto split: option.splits)
  with Cons.IH [of sts1] Cons.prems(2) notify_length [of w u n sts sts1] notify_op_of [of w u n sts sts1 t]
  show ?case by simp
qed simp

lemma pc_state_after_return [simp]: "pc_state (after_return mp) = snd mp"
  by (simp add: after_return_def)

lemma in_call_after_return [simp]: "\<not> in_call (after_return mp)"
  by (simp add: after_return_def)

text \<open>A step under the mutex either changes no operation and no history, or completes one call.\<close>

lemma mon_step_inner_cases:
  assumes "mon_step sp m a = Some m'" "\<forall>t x. a \<noteq> Call t x"
  obtains (quiet) "length (status m') = length (status m)" "history m' = history m"
      "\<And>t. t < length (status m) \<Longrightarrow> op_of (status m' ! t) = op_of (status m ! t)"
  | (completes) t x r where "length (status m') = length (status m)" "t < length (status m)"
      "op_of (status m ! t) = Some x" "history m' = history m @ [(t, x, r)]" "op_of (status m' ! t) = None"
      "\<And>t'. t' < length (status m) \<Longrightarrow> t' \<noteq> t \<Longrightarrow> op_of (status m' ! t') = op_of (status m ! t')"
proof (cases a)
  case (Exec t u)
  with assms(1) obtain x where t: "t < length (status m)" "status m ! t = Holding x"
    by (auto split: if_splits thread_status.splits)
  show ?thesis
  proof (cases "guard sp x (data m)")
    case True
    with assms(1) Exec t obtain sts where
      n: "notify_list (waits_on sp) u (notifies sp x (data m)) ((status m)[t := Idle]) = Some sts"
      and m': "status m' = sts" "history m' = history m @ [(t, x, snd (body sp x (data m)))]"
      by (auto split: option.splits)
    show ?thesis
    proof (rule completes [of t x "snd (body sp x (data m))"])
      show "length (status m') = length (status m)" using notify_list_length [OF n] m' by simp
      show "op_of (status m' ! t) = None" using notify_list_op_of [OF n, of t] t m' by simp
      show "op_of (status m' ! t') = op_of (status m ! t')" if "t' < length (status m)" "t' \<noteq> t" for t'
        using notify_list_op_of [OF n, of t'] that m' by simp
    qed (use t m' in simp_all)
  next
    case False
    with assms(1) Exec t show ?thesis by (intro quiet) (auto simp: nth_list_update)
  qed
next
  case (Lock t)
  with assms(1) show ?thesis
    by (intro quiet) (auto simp: nth_list_update split: if_splits thread_status.splits)
next
  case (Spurious t)
  with assms(1) show ?thesis
    by (intro quiet) (auto simp: nth_list_update split: if_splits thread_status.splits)
qed (use assms in auto)

lemma calls_of_append: "calls_of t (h @ h') = calls_of t h @ calls_of t h'"
  by (simp add: calls_of_def)

lemma calls_of_single: "calls_of t [(t', x, r)] = (if t' = t then [(x, r)] else [])"
  by (simp add: calls_of_def)

lemma threads_step_ok:
  assumes ok: "threads_ok pr ps s" and st: "threads_step sp pr s a = Some s'"
  shows "threads_ok pr ps s'"
proof (cases a)
  case (Begin t)
  with st obtain p x m where t: "t < length (pcs s)" "pcs s ! t = AtCall p" "next_call pr t p = Some x"
    and m: "mon_step sp (mon s) (Call t x) = Some m" and s': "s' = s\<lparr>mon := m, pcs := (pcs s)[t := InCall p]\<rparr>"
    by (auto split: if_splits thread_pc.splits option.splits simp del: mon_step.simps)
  from m have "status m = (status (mon s))[t := Locking x]" "history m = history (mon s)"
    "t < length (status (mon s))" by (auto split: if_splits thread_status.splits)
  with ok t s' show ?thesis by (auto simp: threads_ok_def thread_ok_def nth_list_update)
next
  case (Print t)
  with st ok show ?thesis
    by (auto simp: threads_ok_def thread_ok_def nth_list_update split: if_splits thread_pc.splits)
next
  case (Inner b)
  with st obtain m where nc: "\<forall>t x. b \<noteq> Call t x" and m: "mon_step sp (mon s) b = Some m"
    and s': "s' = s\<lparr>mon := m, pcs := returned pr (drop (length (history (mon s))) (history m)) (pcs s)\<rparr>"
    by (auto split: mon_action.splits option.splits simp del: mon_step.simps)
  from m nc show ?thesis
  proof (cases rule: mon_step_inner_cases)
    case quiet
    with ok s' show ?thesis by (simp add: threads_ok_def thread_ok_def)
  next
    case (completes t x r)
    from ok have tk: "t < length (pcs s)" "thread_ok pr (pc_state (ps ! t)) s t"
      using completes(2) by (auto simp: threads_ok_def)
    with completes(3) obtain p where p: "pcs s ! t = InCall p" "next_call pr t p = Some x"
      by (cases "pcs s ! t") (auto simp: thread_ok_def)
    have pcs': "pcs s' = (pcs s)[t := after_return (on_return pr t p r)]"
      using s' completes(4) tk(1) p(1) by simp
    show ?thesis
      unfolding threads_ok_def
    proof (intro conjI allI impI)
      show "length (pcs s') = length ps" "length (status (mon s')) = length ps"
        using ok s' completes(1) pcs' by (auto simp: threads_ok_def)
      fix t' assume t': "t' < length ps"
      then have old: "thread_ok pr (pc_state (ps ! t')) s t'" using ok by (simp add: threads_ok_def)
      show "thread_ok pr (pc_state (ps ! t')) s' t'"
      proof (cases "t' = t")
        case True
        with tk p completes s' pcs' show ?thesis
          by (simp add: thread_ok_def calls_of_append calls_of_single follows_append)
      next
        case False
        with old completes s' pcs' t' ok show ?thesis
          by (simp add: thread_ok_def calls_of_append calls_of_single threads_ok_def)
      qed
    qed
  qed
qed

lemma threads_init_ok:
  "(\<And>t. t < length ps \<Longrightarrow> \<not> in_call (ps ! t)) \<Longrightarrow> threads_ok pr ps (threads_init d ps)"
  by (simp add: threads_ok_def thread_ok_def threads_init_def mon_init_def calls_of_def)

lemma threads_program_order:
  assumes "reachable (threads_step sp pr) (threads_init d ps) s" "\<forall>pc \<in> set ps. \<not> in_call pc"
  shows "threads_ok pr ps s"
  using assms(1)
proof (induction rule: reachable.induct)
  case reachable_start
  show ?case by (rule threads_init_ok) (use assms(2) in auto)
next
  case (reachable_step s a t)
  from reachable_step.IH reachable_step.hyps(2) show ?case by (rule threads_step_ok)
qed

end
