(* ===== verification/SafeStack.thy ===== *)
theory SafeStack
  imports Threads "HOL-Library.Multiset"
begin

text \<open>
  \<open>thread_safe_stack\<close> of \<open>multithread/thread_safe_stack.h\<close>: a \<open>std::stack\<close> (a list with
  its top first) behind one mutex, with \<open>wait_and_pop\<close> waiting on \<open>cv_\<close>, and the
  producer/consumer of \<open>main\<close>. The concurrency is that of \<open>Monitor\<close>.
\<close>

section \<open>Operations\<close>

datatype 'a stack_op = Push 'a | Pop | TryPop | WaitAndPop | Empty

datatype 'a stack_result =
    Done
  | Popped 'a
  | Nullopt
  | Flag bool
  | EmptyStackError    \<comment> \<open>\<open>empty_stack_error\<close> is thrown\<close>

definition empty_stack_what :: string where
  "empty_stack_what = ''Error: Stack is Empty!!!''"

datatype cv = Cv

fun stack_guard :: "'a stack_op \<Rightarrow> 'a list \<Rightarrow> bool" where
  "stack_guard WaitAndPop d = (d \<noteq> [])"
| "stack_guard _ d = True"

fun stack_waits_on :: "'a stack_op \<Rightarrow> cv option" where
  "stack_waits_on WaitAndPop = Some Cv"
| "stack_waits_on _ = None"

fun stack_body :: "'a stack_op \<Rightarrow> 'a list \<Rightarrow> 'a list \<times> 'a stack_result" where
  "stack_body (Push v) d = (v # d, Done)"
| "stack_body Pop [] = ([], EmptyStackError)"
| "stack_body Pop (v # d) = (d, Popped v)"
| "stack_body TryPop [] = ([], Nullopt)"
| "stack_body TryPop (v # d) = (d, Popped v)"
| "stack_body WaitAndPop d = (tl d, Popped (hd d))"
| "stack_body Empty d = (d, Flag (d = []))"

fun stack_notifies :: "'a stack_op \<Rightarrow> 'a list \<Rightarrow> cv notification list" where
  "stack_notifies (Push v) d = [One Cv]"
| "stack_notifies _ d = []"

definition stack_spec :: "('a list, 'a stack_op, 'a stack_result, cv) monitor_spec" where
  "stack_spec = \<lparr>guard = stack_guard, waits_on = stack_waits_on, body = stack_body,
                 notifies = stack_notifies\<rparr>"

text \<open>The copy constructor; the \<open>std::move\<close> from a \<open>const\<close> stack copies it.\<close>

definition stack_copy :: "'a list \<Rightarrow> 'a list \<times> 'a list" where
  "stack_copy other = (other, other)"

lemma stack_spec_simps [simp]:
  "guard stack_spec = stack_guard" "waits_on stack_spec = stack_waits_on"
  "body stack_spec = stack_body" "notifies stack_spec = stack_notifies"
  by (simp_all add: stack_spec_def)

section \<open>\<open>main\<close>\<close>

datatype stack_prog = Pushing nat | Popping | Checking | Stopped

fun stack_next_call :: "tid \<Rightarrow> stack_prog \<Rightarrow> nat stack_op option" where
  "stack_next_call t (Pushing k) = (if k < 30 then Some (Push (k + 1)) else None)"
| "stack_next_call t Popping = Some WaitAndPop"
| "stack_next_call t Checking = Some Empty"
| "stack_next_call t Stopped = None"

fun stack_on_return :: "tid \<Rightarrow> stack_prog \<Rightarrow> nat stack_result \<Rightarrow> string \<times> stack_prog" where
  "stack_on_return t (Pushing k) r = (''Pushed '' @ show_nat (k + 1), Pushing (k + 1))"
| "stack_on_return t Popping (Popped v) = (''Poped '' @ show_nat v, Checking)"
| "stack_on_return t Checking (Flag b) = ([], if b then Stopped else Popping)"
| "stack_on_return t p r = ([], p)"

definition stack_program :: "(stack_prog, nat stack_op, nat stack_result) program" where
  "stack_program = \<lparr>next_call = stack_next_call, on_return = stack_on_return\<rparr>"

definition stack_main :: "(nat list, nat stack_op, nat stack_result, stack_prog) threads" where
  "stack_main = threads_init [] [AtCall (Pushing 0), AtCall Popping]"

section \<open>Conservation\<close>

fun pushed_values :: "(tid \<times> 'a stack_op \<times> 'a stack_result) list \<Rightarrow> 'a list" where
  "pushed_values [] = []"
| "pushed_values ((t, Push v, r) # h) = v # pushed_values h"
| "pushed_values (_ # h) = pushed_values h"

fun popped_values :: "(tid \<times> 'a stack_op \<times> 'a stack_result) list \<Rightarrow> 'a list" where
  "popped_values [] = []"
| "popped_values ((t, x, Popped v) # h) = v # popped_values h"
| "popped_values (_ # h) = popped_values h"

lemma stack_body_conserves:
  assumes "stack_guard x d"
  shows "mset d + mset (pushed_values [(t, x, snd (stack_body x d))]) =
    mset (popped_values [(t, x, snd (stack_body x d))]) + mset (fst (stack_body x d))"
  using assms by (cases "(x, d)" rule: stack_body.cases) (auto simp: neq_Nil_conv)

lemma pushed_values_Cons: "pushed_values (e # h) = pushed_values [e] @ pushed_values h"
  by (cases "[e]" rule: pushed_values.cases) auto

lemma popped_values_Cons: "popped_values (e # h) = popped_values [e] @ popped_values h"
  by (cases "[e]" rule: popped_values.cases) auto

lemma legal_stack_conserves:
  "legal stack_spec d h = Some d' \<Longrightarrow>
     mset d + mset (pushed_values h) = mset (popped_values h) + mset d'"
proof (induction h arbitrary: d)
  case (Cons e h)
  obtain t x r where e: "e = (t, x, r)" by (cases e) auto
  let ?d = "fst (stack_body x d)"
  from Cons.prems e have g: "stack_guard x d" "snd (stack_body x d) = r" "legal stack_spec ?d h = Some d'"
    by (auto split: if_splits)
  from Cons.IH [OF g(3)] have ih: "mset ?d + mset (pushed_values h) = mset (popped_values h) + mset d'" .
  from stack_body_conserves [OF g(1), of t] g(2) e
  have "mset d + mset (pushed_values [e]) = mset (popped_values [e]) + mset ?d" by simp
  with ih show ?case
    by (simp add: pushed_values_Cons [of e h] popped_values_Cons [of e h])
      (metis (no_types, opaque_lifting) add.assoc add.commute)
qed simp

interpretation stack_cv: wakeup_contract stack_spec Cv "\<lambda>x. x = WaitAndPop" length "\<lambda>_. False"
proof unfold_locales
  fix x :: "'a stack_op" and d :: "'a list"
  show "(waits_on stack_spec x = Some Cv) = (x = WaitAndPop)" by (cases x) auto
  show "x = WaitAndPop \<Longrightarrow> \<not> guard stack_spec x d \<Longrightarrow> length d = 0 \<and> \<not> False" by auto
  show "x = WaitAndPop \<Longrightarrow> guard stack_spec x d \<Longrightarrow> \<not> False \<Longrightarrow>
      length (fst (body stack_spec x d)) < length d \<and> \<not> False" by auto
  show "x \<noteq> WaitAndPop \<Longrightarrow> guard stack_spec x d \<Longrightarrow> \<not> False \<Longrightarrow>
      length (fst (body stack_spec x d)) \<le> length d \<and> \<not> False \<or>
      length (fst (body stack_spec x d)) \<le> Suc (length d) \<and> \<not> False \<and> One Cv \<in> set (notifies stack_spec x d) \<or>
      All Cv \<in> set (notifies stack_spec x d)"
    by (cases "(x, d)" rule: stack_body.cases) auto
qed

section \<open>Properties\<close>

text \<open>C34: whatever the interleaving of any number of threads, the completed calls are a
  legal sequential history of the stack, and the values pushed are exactly the values
  popped plus the values still in the stack: nothing is lost, duplicated or invented.\<close>

theorem stack_linearisable:
  "reachable (mon_step stack_spec) (mon_init [] n) s \<Longrightarrow>
     legal stack_spec [] (history s) = Some (data s) \<and>
     mset (pushed_values (history s)) = mset (popped_values (history s)) + mset (data s)"
  using mon_lin.reachable_inv [of stack_spec "[]" n s] legal_stack_conserves [of "[]" "history s" "data s"]
  by (auto simp: linearised_def)

definition stack_example :: "(nat list, nat stack_op, nat stack_result) monitor" where
  "stack_example = \<lparr>data = [5], owner = None, status = [Idle, Idle],
     history = [(0, Push 5, Done), (1, Push 7, Done), (0, WaitAndPop, Popped 7)]\<rparr>"

lemma stack_example_run:
  "run (mon_step stack_spec) (mon_init [] 2)
     [Call 0 (Push 5), Call 1 (Push 7), Lock 0, Exec 0 None, Lock 1, Exec 1 None,
      Call 0 WaitAndPop, Lock 0, Exec 0 None] = Some stack_example"
  by (simp add: mon_init_def stack_example_def numeral_2_eq_2)

theorem stack_linearisable_witness:
  "legal stack_spec [] (history stack_example) = Some (data stack_example) \<and>
   mset (pushed_values (history stack_example)) =
     mset (popped_values (history stack_example)) + mset (data stack_example)"
  by (rule stack_linearisable [OF run_reachable [OF stack_example_run]])

text \<open>no wake-up of \<open>wait_and_pop\<close> is lost: while a thread sleeps in it and the stack
  is not empty, some thread is on its way through \<open>wait_and_pop\<close>, woken or newly called,
  and will test the predicate again.\<close>

theorem stack_no_lost_wakeup:
  "reachable (mon_step stack_spec) (mon_init d n) s \<Longrightarrow> t < length (status s) \<Longrightarrow>
     status s ! t = Waiting WaitAndPop \<Longrightarrow> data s \<noteq> [] \<Longrightarrow>
     \<exists>t' < length (status s). status s ! t' = Locking WaitAndPop \<or> status s ! t' = Holding WaitAndPop"
  using stack_cv.no_lost_wakeup [of d n s t WaitAndPop] by auto

definition stack_waiters :: "(nat list, nat stack_op, nat stack_result) monitor" where
  "stack_waiters = \<lparr>data = [4], owner = None, status = [Waiting WaitAndPop, Locking WaitAndPop, Idle],
     history = [(2, Push 4, Done)]\<rparr>"

lemma stack_waiters_run:
  "run (mon_step stack_spec) (mon_init [] 3)
     [Call 0 WaitAndPop, Lock 0, Exec 0 None, Call 1 WaitAndPop, Lock 1, Exec 1 None,
      Call 2 (Push 4), Lock 2, Exec 2 (Some 1)] = Some stack_waiters"
  by (simp add: mon_init_def stack_waiters_def numeral_3_eq_3 numeral_2_eq_2)

theorem stack_no_lost_wakeup_witness:
  "\<exists>t' < length (status stack_waiters).
     status stack_waiters ! t' = Locking WaitAndPop \<or> status stack_waiters ! t' = Holding WaitAndPop"
  by (rule stack_no_lost_wakeup [OF run_reachable [OF stack_waiters_run], of 0])
    (simp_all add: stack_waiters_def)

text \<open>the consumer of \<open>main\<close> returns as soon as it finds the stack empty, so there is a
  schedule in which it stops after the first value and both threads end with the other 29
  values still in the stack.\<close>

theorem stack_main_can_stop_early:
  "\<exists>s. reachable (threads_step stack_spec stack_program) stack_main s \<and>
       finished stack_program s 0 \<and> finished stack_program s 1 \<and>
       popped_values (history (mon s)) = [1] \<and> length (data (mon s)) = 29"
proof -
  let ?as = "print_turn 0 @ print_turn 1 @ call_turn 1 @ concat (replicate 29 (print_turn 0))"
  have "case run (threads_step stack_spec stack_program) stack_main ?as of None \<Rightarrow> False
     | Some s \<Rightarrow> finished stack_program s 0 \<and> finished stack_program s 1 \<and>
         popped_values (history (mon s)) = [1] \<and> length (data (mon s)) = 29"
    by code_simp
  then obtain s where "run (threads_step stack_spec stack_program) stack_main ?as = Some s"
    "finished stack_program s 0" "finished stack_program s 1"
    "popped_values (history (mon s)) = [1]" "length (data (mon s)) = 29"
    by (auto split: option.splits)
  then show ?thesis by (blast intro: run_reachable)
qed

end
