(* ===== verification/CSPChannel.thy ===== *)
theory CSPChannel
  imports Threads
begin

text \<open>
  \<open>CSPChannel\<close> of \<open>multithread/csp_customer_productor.h\<close>: a bounded FIFO with two
  condition variables, and the producer and customer threads of \<open>main\<close>. The predicate
  of \<open>receive\<close> is the one in force: its \<open>|| closed_\<close> is commented out in the source.
\<close>

section \<open>The channel\<close>

record 'a channel =
  queue :: "'a list"
  closed :: bool

datatype 'a channel_op = Send 'a | Receive | ReceivedAllMessage | Close

datatype 'a channel_result = Sent bool | Received 'a | NoMoreMessages | AllReceived bool | Closed

datatype channel_cv = CvProductor | CvCustomer

definition new_channel :: "'a channel" where
  "new_channel = \<lparr>queue = [], closed = False\<rparr>"

fun channel_guard :: "nat \<Rightarrow> 'a channel_op \<Rightarrow> 'a channel \<Rightarrow> bool" where
  "channel_guard capacity (Send v) ch = (capacity > length (queue ch) \<or> closed ch)"
| "channel_guard capacity Receive ch = (queue ch \<noteq> [])"
| "channel_guard capacity ReceivedAllMessage ch = True"
| "channel_guard capacity Close ch = True"

fun channel_waits_on :: "'a channel_op \<Rightarrow> channel_cv option" where
  "channel_waits_on (Send v) = Some CvProductor"
| "channel_waits_on Receive = Some CvCustomer"
| "channel_waits_on _ = None"

fun channel_body :: "'a channel_op \<Rightarrow> 'a channel \<Rightarrow> 'a channel \<times> 'a channel_result" where
  "channel_body (Send v) ch =
     (if closed ch then (ch, Sent False) else (ch\<lparr>queue := queue ch @ [v]\<rparr>, Sent True))"
| "channel_body Receive ch =
     (if queue ch = [] \<and> closed ch then (ch, NoMoreMessages)
      else (ch\<lparr>queue := tl (queue ch)\<rparr>, Received (hd (queue ch))))"
| "channel_body ReceivedAllMessage ch = (ch, AllReceived (queue ch = [] \<and> closed ch))"
| "channel_body Close ch = (ch\<lparr>closed := True\<rparr>, Closed)"

fun channel_notifies :: "'a channel_op \<Rightarrow> 'a channel \<Rightarrow> channel_cv notification list" where
  "channel_notifies (Send v) ch = (if closed ch then [] else [One CvCustomer])"
| "channel_notifies Receive ch = (if queue ch = [] \<and> closed ch then [] else [One CvProductor])"
| "channel_notifies ReceivedAllMessage ch = []"
| "channel_notifies Close ch = [All CvProductor, All CvCustomer]"

definition channel_spec :: "nat \<Rightarrow> ('a channel, 'a channel_op, 'a channel_result, channel_cv) monitor_spec" where
  "channel_spec capacity = \<lparr>guard = channel_guard capacity, waits_on = channel_waits_on,
     body = channel_body, notifies = channel_notifies\<rparr>"

lemma channel_spec_simps [simp]:
  "guard (channel_spec k) = channel_guard k" "waits_on (channel_spec k) = channel_waits_on"
  "body (channel_spec k) = channel_body" "notifies (channel_spec k) = channel_notifies"
  by (simp_all add: channel_spec_def)

section \<open>\<open>main\<close>\<close>

datatype channel_prog = Sending nat | Closing | ProductorDone | Receiving | CheckingAll | CustomerDone

definition message :: "nat \<Rightarrow> string" where
  "message index = ''the '' @ show_nat index @ '' message''"

definition send_line :: "nat \<Rightarrow> string" where
  "send_line index = ''send message: '' @ show_nat index"

fun channel_next_call :: "tid \<Rightarrow> channel_prog \<Rightarrow> string channel_op option" where
  "channel_next_call t (Sending index) = Some (Send (message index))"
| "channel_next_call t Closing = Some Close"
| "channel_next_call t ProductorDone = None"
| "channel_next_call t Receiving = Some Receive"
| "channel_next_call t CheckingAll = Some ReceivedAllMessage"
| "channel_next_call t CustomerDone = None"

fun channel_on_return :: "tid \<Rightarrow> channel_prog \<Rightarrow> string channel_result \<Rightarrow> string \<times> channel_prog" where
  "channel_on_return t (Sending index) r =
     (if index + 1 \<le> 10 then (send_line (index + 1), Sending (index + 1)) else ([], Closing))"
| "channel_on_return t Closing r = ([], ProductorDone)"
| "channel_on_return t Receiving (Received v) = (''receive message: '' @ v, CheckingAll)"
| "channel_on_return t Receiving r = ([], CustomerDone)"
| "channel_on_return t CheckingAll (AllReceived b) = ([], if b then CustomerDone else Receiving)"
| "channel_on_return t p r = ([], p)"

definition channel_program :: "(channel_prog, string channel_op, string channel_result) program" where
  "channel_program = \<lparr>next_call = channel_next_call, on_return = channel_on_return\<rparr>"

definition channel_main :: "(string channel, string channel_op, string channel_result, channel_prog) threads" where
  "channel_main = threads_init new_channel [ToPrint (send_line 1) (Sending 1), AtCall Receiving]"

lemma channel_program_simps [simp]:
  "next_call channel_program = channel_next_call" "on_return channel_program = channel_on_return"
  by (simp_all add: channel_program_def)

section \<open>Order and capacity\<close>

fun sent_values :: "(tid \<times> 'a channel_op \<times> 'a channel_result) list \<Rightarrow> 'a list" where
  "sent_values [] = []"
| "sent_values ((t, Send v, Sent True) # h) = v # sent_values h"
| "sent_values (_ # h) = sent_values h"

fun received_values :: "(tid \<times> 'a channel_op \<times> 'a channel_result) list \<Rightarrow> 'a list" where
  "received_values [] = []"
| "received_values ((t, x, Received v) # h) = v # received_values h"
| "received_values (_ # h) = received_values h"

lemma sent_values_Cons: "sent_values (e # h) = sent_values [e] @ sent_values h"
  by (cases "[e]" rule: sent_values.cases) auto

lemma received_values_Cons: "received_values (e # h) = received_values [e] @ received_values h"
  by (cases "[e]" rule: received_values.cases) auto

lemma channel_body_fifo:
  assumes "channel_guard k x ch"
  shows "queue ch @ sent_values [(t, x, snd (channel_body x ch))] =
    received_values [(t, x, snd (channel_body x ch))] @ queue (fst (channel_body x ch))"
  using assms by (cases x) auto

lemma legal_channel_fifo:
  "legal (channel_spec k) ch h = Some ch' \<Longrightarrow> queue ch @ sent_values h = received_values h @ queue ch'"
proof (induction h arbitrary: ch)
  case (Cons e h)
  obtain t x r where e: "e = (t, x, r)" by (cases e) auto
  let ?ch = "fst (channel_body x ch)"
  from Cons.prems e have g: "channel_guard k x ch" "snd (channel_body x ch) = r"
    "legal (channel_spec k) ?ch h = Some ch'" by (auto split: if_splits)
  have "queue ch @ sent_values (e # h) = (queue ch @ sent_values [e]) @ sent_values h"
    by (simp add: sent_values_Cons [of e h])
  also have "\<dots> = received_values [e] @ queue ?ch @ sent_values h"
    using channel_body_fifo [OF g(1), of t] g(2) e by simp
  also have "\<dots> = received_values (e # h) @ queue ch'"
    using Cons.IH [OF g(3)] by (simp add: received_values_Cons [of e h])
  finally show ?case .
qed simp

interpretation channel_data: monitor_contract "channel_spec k" new_channel "\<lambda>ch. length (queue ch) \<le> k" for k
proof unfold_locales
  show "length (queue new_channel) \<le> k" by (simp add: new_channel_def)
  fix ch :: "'a channel" and x
  assume "length (queue ch) \<le> k" "guard (channel_spec k) x ch"
  then show "length (queue (fst (body (channel_spec k) x ch))) \<le> k" by (cases x) auto
qed

section \<open>Wake-ups\<close>

interpretation customer_cv: wakeup_contract "channel_spec k" CvCustomer "\<lambda>x. x = Receive"
  "\<lambda>ch. length (queue ch)" "\<lambda>_. False" for k
proof unfold_locales
  fix x :: "'a channel_op" and d :: "'a channel"
  show "(waits_on (channel_spec k) x = Some CvCustomer) = (x = Receive)" by (cases x) auto
  show "x \<noteq> Receive \<Longrightarrow> guard (channel_spec k) x d \<Longrightarrow> \<not> False \<Longrightarrow>
     length (queue (fst (body (channel_spec k) x d))) \<le> length (queue d) \<and> \<not> False \<or>
     length (queue (fst (body (channel_spec k) x d))) \<le> Suc (length (queue d)) \<and> \<not> False \<and>
       One CvCustomer \<in> set (notifies (channel_spec k) x d) \<or>
     All CvCustomer \<in> set (notifies (channel_spec k) x d)"
    by (cases x) auto
qed auto

text \<open>A producer waits for free slots; once the channel is closed no producer waits.\<close>

interpretation productor_cv: wakeup_contract "channel_spec k" CvProductor "\<lambda>x. \<exists>v. x = Send v"
  "\<lambda>ch. k - length (queue ch)" closed for k
proof unfold_locales
  fix x :: "'a channel_op" and d :: "'a channel"
  show "(waits_on (channel_spec k) x = Some CvProductor) = (\<exists>v. x = Send v)" by (cases x) auto
  show "\<nexists>v. x = Send v \<Longrightarrow> guard (channel_spec k) x d \<Longrightarrow> \<not> closed d \<Longrightarrow>
     k - length (queue (fst (body (channel_spec k) x d))) \<le> k - length (queue d) \<and>
       \<not> closed (fst (body (channel_spec k) x d)) \<or>
     k - length (queue (fst (body (channel_spec k) x d))) \<le> Suc (k - length (queue d)) \<and>
       \<not> closed (fst (body (channel_spec k) x d)) \<and> One CvProductor \<in> set (notifies (channel_spec k) x d) \<or>
     All CvProductor \<in> set (notifies (channel_spec k) x d)"
    by (cases x) auto
qed auto

section \<open>The demo's messages\<close>

lemma follows_productor:
  "follows channel_program 0 (Sending i) h = Some p \<Longrightarrow> 1 \<le> i \<Longrightarrow> i \<le> 10 \<Longrightarrow>
     \<exists>n \<le> 11 - i. List.map fst h = List.map (\<lambda>j. Send (message j)) [i..<i + n] \<or>
        List.map fst h = List.map (\<lambda>j. Send (message j)) [i..<11] @ [Close]"
proof (induction h arbitrary: i)
  case Nil
  then show ?case by (auto intro!: exI [of _ 0])
next
  case (Cons e h)
  obtain x r where e: "e = (x, r)" by (cases e) auto
  with Cons.prems(1) have x: "x = Send (message i)"
    and f: "follows channel_program 0 (snd (channel_on_return 0 (Sending i) r)) h = Some p"
    by (auto split: if_splits)
  show ?case
  proof (cases "i + 1 \<le> 10")
    case True
    with f Cons.IH [of "i + 1"] obtain n where n: "n \<le> 11 - (i + 1)"
      "List.map fst h = List.map (\<lambda>j. Send (message j)) [i + 1..<i + 1 + n] \<or>
       List.map fst h = List.map (\<lambda>j. Send (message j)) [i + 1..<11] @ [Close]" by auto
    have "[i..<i + Suc n] = i # [i + 1..<i + 1 + n]" "[i..<11] = i # [i + 1..<11]"
      using True by (simp_all add: upt_conv_Cons del: upt_Suc)
    with n x e True show ?thesis
      by (intro exI [of _ "Suc n"]) (auto simp del: upt_Suc)
  next
    case False
    with Cons.prems(3) have i: "i = 10" by simp
    with f have "follows channel_program 0 Closing h = Some p" by simp
    then have "h = [] \<or> (\<exists>r. h = [(Close, r)])"
      by (cases "(channel_program, 0::nat, Closing, h)" rule: follows.cases)
        (auto split: if_splits elim: follows.elims)
    with x e i show ?thesis by (intro exI [of _ 1]) (auto simp: upt_conv_Cons)
  qed
qed

lemma productor_calls:
  assumes "follows channel_program 0 (Sending 1) h = Some p"
  shows "\<exists>n cs. n \<le> 10 \<and> (cs = [] \<or> cs = [Close]) \<and>
     List.map fst h = List.map Send (List.map message [1..<n + 1]) @ cs"
proof -
  from follows_productor [OF assms] obtain n where n: "n \<le> 10" and
    "List.map fst h = List.map (\<lambda>j. Send (message j)) [1..<1 + n] \<or>
     List.map fst h = List.map (\<lambda>j. Send (message j)) [1..<11] @ [Close]" by auto
  then consider "List.map fst h = List.map Send (List.map message [1..<n + 1]) @ []"
    | "List.map fst h = List.map Send (List.map message [1..<10 + 1]) @ [Close]"
    by (auto simp: comp_def add.commute del: upt_Suc)
  then show ?thesis using n by cases blast+
qed

lemma follows_customer:
  "follows channel_program 1 p h = Some q \<Longrightarrow> p \<in> {Receiving, CheckingAll, CustomerDone} \<Longrightarrow>
     set (List.map fst h) \<subseteq> {Receive, ReceivedAllMessage}"
proof (induction h arbitrary: p)
  case (Cons e h)
  obtain x r where e: "e = (x, r)" by (cases e) auto
  with Cons.prems have x: "x \<in> {Receive, ReceivedAllMessage}"
    and f: "follows channel_program 1 (snd (channel_on_return 1 p r)) h = Some q"
    by (auto split: if_splits)
  have "snd (channel_on_return 1 p r) \<in> {Receiving, CheckingAll, CustomerDone}"
    using Cons.prems(2) by (cases r) (auto split: if_splits)
  with Cons.IH [OF f] x e show ?case by auto
qed simp

text \<open>With one sender, which closes last, every send is accepted.\<close>

lemma calls_of_empty: "calls_of t h = [] \<longleftrightarrow> (\<forall>e \<in> set h. fst e \<noteq> t)"
  by (simp add: calls_of_def filter_empty_conv)

lemma no_send_no_values: "(\<forall>e \<in> set h. \<forall>v. fst (snd e) \<noteq> Send v) \<Longrightarrow> sent_values h = []"
proof (induction h)
  case (Cons e h)
  then show ?case by (cases "[e]" rule: sent_values.cases) (auto simp: sent_values_Cons [of e h])
qed simp

lemma single_sender_values:
  assumes "legal (channel_spec k) ch h = Some ch'" "\<not> closed ch"
    and "List.map fst (calls_of 0 h) = List.map Send vs @ cs" "cs = [] \<or> cs = [Close]"
    and "\<forall>e \<in> set h. fst e \<noteq> 0 \<longrightarrow> fst (snd e) \<in> {Receive, ReceivedAllMessage}"
  shows "sent_values h = vs"
  using assms
proof (induction h arbitrary: ch vs)
  case Nil
  then show ?case by (auto simp: calls_of_def)
next
  case (Cons e h)
  obtain t x r where e: "e = (t, x, r)" by (cases e) auto
  let ?ch = "fst (channel_body x ch)"
  from Cons.prems(1) e have g: "snd (channel_body x ch) = r" "legal (channel_spec k) ?ch h = Some ch'"
    by (auto split: if_splits)
  show ?case
  proof (cases "t = 0")
    case False
    with Cons.prems(5) e have x: "x \<in> {Receive, ReceivedAllMessage}" by auto
    then have "\<not> closed ?ch" using Cons.prems(2) by auto
    with Cons False x e g show ?thesis by (auto simp: calls_of_def)
  next
    case True
    with Cons.prems(3) e have calls: "x # List.map fst (calls_of 0 h) = List.map Send vs @ cs"
      by (simp add: calls_of_def)
    show ?thesis
    proof (cases vs)
      case Nil
      with calls Cons.prems(4) have "x = Close" "calls_of 0 h = []" by auto
      with Cons.prems(5) Nil e show ?thesis
        by (auto simp: calls_of_empty intro!: no_send_no_values)
    next
      case (Cons v ws)
      with calls have x: "x = Send v" "List.map fst (calls_of 0 h) = List.map Send ws @ cs" by auto
      with Cons.prems(2) g have "\<not> closed ?ch" "r = Sent True" by auto
      with Cons.IH [OF g(2) _ x(2)] Cons.prems(4,5) e x Cons show ?thesis by auto
    qed
  qed
qed

lemma legal_new_channel:
  "legal (channel_spec k) new_channel h = Some ch \<Longrightarrow> sent_values h = received_values h @ queue ch"
  using legal_channel_fifo [of k new_channel h ch] by (simp add: new_channel_def)

section \<open>The stuck customer\<close>

definition customer_stuck :: "(string channel, string channel_op, string channel_result, channel_prog) threads \<Rightarrow> bool" where
  "customer_stuck s \<longleftrightarrow> queue (data (mon s)) = [] \<and> pcs s = [AtCall ProductorDone, InCall Receiving] \<and>
     length (status (mon s)) = 2 \<and> status (mon s) ! 0 = Idle \<and> op_of (status (mon s) ! 1) = Some Receive"

lemma op_of_Some_iff: "op_of z = Some x \<longleftrightarrow> z = Locking x \<or> z = Holding x \<or> z = Waiting x"
  by (cases z) auto

lemma less_2_cases: "t < (2 :: nat) \<Longrightarrow> (t = 0 \<Longrightarrow> P) \<Longrightarrow> (t = 1 \<Longrightarrow> P) \<Longrightarrow> P"
  by linarith

lemma customer_stuck_step:
  assumes "customer_stuck s" "threads_step (channel_spec k) channel_program s a = Some s'"
  shows "customer_stuck s'"
proof (cases a)
  case (Begin t)
  with assms show ?thesis
    by (auto simp: customer_stuck_def numeral_2_eq_2 less_Suc_eq split: if_splits)
next
  case (Print t)
  with assms show ?thesis
    by (auto simp: customer_stuck_def numeral_2_eq_2 less_Suc_eq split: if_splits)
next
  case (Inner b)
  with assms obtain m where m: "mon_step (channel_spec k) (mon s) b = Some m" "\<forall>t x. b \<noteq> Call t x"
    and s': "s' = s\<lparr>mon := m, pcs := returned channel_program (drop (length (history (mon s))) (history m)) (pcs s)\<rparr>"
    by (auto split: mon_action.splits option.splits simp del: mon_step.simps)
  from assms(1) have st: "length (status (mon s)) = 2" "status (mon s) ! 0 = Idle"
    "op_of (status (mon s) ! Suc 0) = Some Receive" "queue (data (mon s)) = []"
    by (auto simp: customer_stuck_def)
  have "history m = history (mon s) \<and> queue (data m) = [] \<and> length (status m) = 2 \<and>
      status m ! 0 = Idle \<and> op_of (status m ! Suc 0) = Some Receive"
  proof (cases b)
    case (Lock t)
    with m st show ?thesis
      by (auto simp: op_of_Some_iff nth_list_update numeral_2_eq_2 less_Suc_eq split: if_splits)
  next
    case (Exec t u)
    with m st show ?thesis
      by (auto simp: op_of_Some_iff nth_list_update numeral_2_eq_2 less_Suc_eq split: if_splits)
  next
    case (Spurious t)
    with m st show ?thesis
      by (auto simp: op_of_Some_iff nth_list_update numeral_2_eq_2 less_Suc_eq split: if_splits)
  qed (use m in auto)
  with s' assms(1) show ?thesis by (simp add: customer_stuck_def)
qed

lemma customer_stuck_reachable:
  "reachable (threads_step (channel_spec k) channel_program) s s' \<Longrightarrow> customer_stuck s \<Longrightarrow> customer_stuck s'"
  by (induction rule: reachable.induct) (blast intro: customer_stuck_step)+

definition stuck_schedule :: "string channel_op thread_action list" where
  "stuck_schedule = [Print 0] @
     concat (replicate 9 (print_turn 0 @ print_turn 1 @ call_turn 1)) @
     call_turn 0 @ print_turn 1 @ call_turn 1 @ call_turn 1 @ call_turn 0 @ [Inner (Lock 1), Inner (Exec 1 None)]"

section \<open>Properties\<close>

text \<open>C29: in every interleaving of any number of senders and receivers the channel is a
  FIFO of bounded size: what was accepted is what was received, in the same order,
  followed by what is queued, and never more than the capacity is queued.\<close>

theorem channel_fifo_bounded:
  "reachable (mon_step (channel_spec k)) (mon_init new_channel n) s \<Longrightarrow>
     sent_values (history s) = received_values (history s) @ queue (data s) \<and>
     length (queue (data s)) \<le> k"
  using mon_lin.reachable_inv [of "channel_spec k" new_channel n s] channel_data.data_inv [of k n s]
    legal_new_channel by (auto simp: linearised_def)

definition channel_example :: "(nat channel, nat channel_op, nat channel_result) monitor" where
  "channel_example = \<lparr>data = \<lparr>queue = [8], closed = False\<rparr>, owner = None, status = [Waiting (Send 9), Idle],
     history = [(0, Send 7, Sent True), (1, Receive, Received 7), (1, Send 8, Sent True)]\<rparr>"

lemma channel_example_run:
  "run (mon_step (channel_spec 1)) (mon_init new_channel 2)
     [Call 1 Receive, Lock 1, Exec 1 None, Call 0 (Send 7), Lock 0, Exec 0 (Some 1), Lock 1, Exec 1 None,
      Call 1 (Send 8), Lock 1, Exec 1 None, Call 0 (Send 9), Lock 0, Exec 0 None] = Some channel_example"
  by (simp add: mon_init_def channel_example_def new_channel_def numeral_2_eq_2)

theorem channel_fifo_bounded_witness:
  "sent_values (history channel_example) = received_values (history channel_example) @ queue (data channel_example) \<and>
   length (queue (data channel_example)) \<le> 1"
  by (rule channel_fifo_bounded [OF run_reachable [OF channel_example_run]])

text \<open>no wake-up is lost on either condition variable: while a thread sleeps although
  its predicate holds (a message is queued; a slot is free or the channel is closed), another
  thread waiting on the same condition variable is on its way and tests it again.\<close>

theorem channel_no_lost_wakeup:
  "reachable (mon_step (channel_spec k)) (mon_init ch n) s \<Longrightarrow> t < length (status s) \<Longrightarrow>
     status s ! t = Waiting x \<Longrightarrow> channel_waits_on x \<noteq> None \<Longrightarrow> channel_guard k x (data s) \<Longrightarrow>
     \<exists>t' < length (status s). \<exists>y. channel_waits_on y = channel_waits_on x \<and>
       (status s ! t' = Locking y \<or> status s ! t' = Holding y)"
proof -
  assume r: "reachable (mon_step (channel_spec k)) (mon_init ch n) s" and t: "t < length (status s)"
    and w: "status s ! t = Waiting x" and c: "channel_waits_on x \<noteq> None" and g: "channel_guard k x (data s)"
  show ?thesis
  proof (cases x)
    case (Send v)
    have "Waiting (Send v) \<in> set (status s)" using w Send nth_mem [OF t] by simp
    then have "list_ex (waiting_on channel_waits_on CvProductor) (status s)"
      unfolding list_ex_iff by (intro bexI [of _ "Waiting (Send v)"]) simp_all
    then have "\<not> closed (data s)"
      using productor_cv.reachable_wakeup [OF r] by (simp add: productor_cv.wakeup_inv_def)
    with productor_cv.no_lost_wakeup [OF r t w] g Send show ?thesis by fastforce
  next
    case Receive
    with customer_cv.no_lost_wakeup [OF r t w] g show ?thesis by fastforce
  qed (use c in simp_all)
qed

definition channel_waiters :: "(nat channel, nat channel_op, nat channel_result) monitor" where
  "channel_waiters = \<lparr>data = \<lparr>queue = [4], closed = False\<rparr>, owner = None,
     status = [Waiting Receive, Locking Receive, Idle], history = [(2, Send 4, Sent True)]\<rparr>"

lemma channel_waiters_run:
  "run (mon_step (channel_spec 1)) (mon_init new_channel 3)
     [Call 0 Receive, Lock 0, Exec 0 None, Call 1 Receive, Lock 1, Exec 1 None,
      Call 2 (Send 4), Lock 2, Exec 2 (Some 1)] = Some channel_waiters"
  by (simp add: mon_init_def channel_waiters_def new_channel_def numeral_3_eq_3 numeral_2_eq_2)

theorem channel_no_lost_wakeup_witness:
  "\<exists>t' < length (status channel_waiters). \<exists>y. channel_waits_on y = channel_waits_on (Receive :: nat channel_op) \<and>
     (status channel_waiters ! t' = Locking y \<or> status channel_waiters ! t' = Holding y)"
  by (rule channel_no_lost_wakeup [OF run_reachable [OF channel_waiters_run], of 0])
    (simp_all add: channel_waiters_def)

text \<open>in the demo program the customer receives a prefix of the ten messages, in order,
  and is at most the capacity of five behind the producer.\<close>

theorem channel_main_prefix:
  "reachable (threads_step (channel_spec 5) channel_program) channel_main s \<Longrightarrow>
     \<exists>m n. m \<le> n \<and> n \<le> 10 \<and> n - m \<le> 5 \<and>
       received_values (history (mon s)) = List.map message [1..<m + 1] \<and>
       sent_values (history (mon s)) = List.map message [1..<n + 1]"
proof -
  assume r: "reachable (threads_step (channel_spec 5) channel_program) channel_main s"
  let ?h = "history (mon s)"
  from r have ok: "threads_ok channel_program [ToPrint (send_line 1) (Sending 1), AtCall Receiving] s"
    unfolding channel_main_def by (rule threads_program_order) simp
  from r have m: "reachable (mon_step (channel_spec 5)) (mon_init new_channel 2) (mon s)"
    using threads_reach_mon [of "channel_spec 5" channel_program new_channel
        "[ToPrint (send_line 1) (Sending 1), AtCall Receiving]" s]
    by (simp add: channel_main_def numeral_2_eq_2)
  have l: "legal (channel_spec 5) new_channel ?h = Some (data (mon s))"
    using mon_lin.reachable_inv [OF m] by (simp add: linearised_def)
  have tids: "\<forall>e \<in> set ?h. fst e < 2" using mon_tids.reachable_inv [OF m] by (simp add: history_tids_def)
  from ok have f0: "follows channel_program 0 (Sending 1) (calls_of 0 ?h) = Some (pc_state (pcs s ! 0))"
    and f1: "follows channel_program 1 Receiving (calls_of 1 ?h) = Some (pc_state (pcs s ! 1))"
    by (auto simp: threads_ok_def thread_ok_def less_Suc_eq)
  have others: "\<forall>e \<in> set ?h. fst e \<noteq> 0 \<longrightarrow> fst (snd e) \<in> {Receive, ReceivedAllMessage}"
  proof (intro ballI impI)
    fix e assume e: "e \<in> set ?h" "fst e \<noteq> 0"
    with tids have "fst e = 1" by fastforce
    with e have "snd e \<in> set (calls_of 1 ?h)" by (auto simp: calls_of_def)
    with follows_customer [OF f1] show "fst (snd e) \<in> {Receive, ReceivedAllMessage}" by auto
  qed
  from productor_calls [OF f0] obtain n cs where n: "n \<le> 10" "cs = [] \<or> cs = [Close]"
    "List.map fst (calls_of 0 ?h) = List.map Send (List.map message [1..<n + 1]) @ cs"
    by blast
  have sent: "sent_values ?h = List.map message [1..<n + 1]"
    by (rule single_sender_values [OF l _ n(3) n(2) others]) (simp add: new_channel_def)
  have split: "sent_values ?h = received_values ?h @ queue (data (mon s))" and cap: "length (queue (data (mon s))) \<le> 5"
    using legal_new_channel [OF l] channel_data.data_inv [OF m] by auto
  define k where "k = length (received_values ?h)"
  have kn: "k + length (queue (data (mon s))) = n"
    using arg_cong [OF split, of length] sent by (simp add: k_def del: upt_Suc)
  have "received_values ?h = take k (List.map message [1..<n + 1])"
    using split sent by (simp add: k_def del: upt_Suc)
  also have "\<dots> = List.map message [1..<k + 1]" using kn by (simp add: take_map del: upt_Suc)
  finally show ?thesis using n(1) sent kn cap by (intro exI [of _ k] exI [of _ n]) (auto simp del: upt_Suc)
qed

theorem channel_main_prefix_witness:
  "\<exists>m n. m \<le> n \<and> n \<le> 10 \<and> n - m \<le> 5 \<and>
     received_values (history (mon channel_main)) = List.map message [1..<m + 1] \<and>
     sent_values (history (mon channel_main)) = List.map message [1..<n + 1]"
  by (rule channel_main_prefix [OF reachable.reachable_start])

text \<open>the program can hang. There is a schedule after which all ten messages are
  received and the producer has closed the channel and returned, and from which no
  schedule ever lets the customer return: it waits for a message, because the predicate
  of \<open>receive\<close> ignores \<open>closed_\<close>.\<close>

theorem channel_main_can_hang:
  "\<exists>s. reachable (threads_step (channel_spec 5) channel_program) channel_main s \<and>
       finished channel_program s 0 \<and> closed (data (mon s)) \<and>
       length (received_values (history (mon s))) = 10 \<and>
       \<not> (\<exists>s'. reachable (threads_step (channel_spec 5) channel_program) s s' \<and>
               finished channel_program s' 1)"
proof -
  have "case run (threads_step (channel_spec 5) channel_program) channel_main stuck_schedule of
      None \<Rightarrow> False
    | Some s \<Rightarrow> closed (data (mon s)) \<and> queue (data (mon s)) = [] \<and>
        pcs s = [AtCall ProductorDone, InCall Receiving] \<and>
        status (mon s) = [Idle, Waiting Receive] \<and> length (received_values (history (mon s))) = 10"
    by code_simp
  then obtain s where r: "run (threads_step (channel_spec 5) channel_program) channel_main stuck_schedule = Some s"
    and s: "closed (data (mon s))" "queue (data (mon s)) = []" "pcs s = [AtCall ProductorDone, InCall Receiving]"
      "status (mon s) = [Idle, Waiting Receive]" "length (received_values (history (mon s))) = 10"
    by (auto split: option.splits)
  have "customer_stuck s" using s by (simp add: customer_stuck_def)
  then have "\<not> finished channel_program s' 1"
    if "reachable (threads_step (channel_spec 5) channel_program) s s'" for s'
    using customer_stuck_reachable [OF that] by (simp add: customer_stuck_def finished_def)
  moreover have "finished channel_program s 0" using s(3) by (simp add: finished_def)
  ultimately show ?thesis using run_reachable [OF r] s by blast
qed

end
