(* ===== verification/Alternation.thy ===== *)
theory Alternation
  imports Threads
begin

text \<open>
  The two printers of \<open>multithread/test_condition_variable.h\<close>: they share
  \<open>current_printed_num\<close> under one mutex and hand the turn over with two condition
  variables. The printing is part of the body, since \<open>std::cout\<close> is used under the mutex.
\<close>

section \<open>The printers\<close>

datatype alt_op = Print1 | Print2

datatype alt_cv = CanPrint1 | CanPrint2

record alt_state =
  current_printed_num :: nat
  lines_printed :: "string list"

fun alt_guard :: "alt_op \<Rightarrow> alt_state \<Rightarrow> bool" where
  "alt_guard Print1 d = (current_printed_num d = 2)"
| "alt_guard Print2 d = (current_printed_num d = 1)"

fun alt_waits_on :: "alt_op \<Rightarrow> alt_cv option" where
  "alt_waits_on Print1 = Some CanPrint1"
| "alt_waits_on Print2 = Some CanPrint2"

definition line1 :: string where "line1 = ''Thread 1 Print 1''"
definition line2 :: string where "line2 = ''Thread 2 Print 2''"

fun alt_body :: "alt_op \<Rightarrow> alt_state \<Rightarrow> alt_state \<times> unit" where
  "alt_body Print1 d = (d\<lparr>current_printed_num := 1, lines_printed := lines_printed d @ [line1]\<rparr>, ())"
| "alt_body Print2 d = (d\<lparr>current_printed_num := 2, lines_printed := lines_printed d @ [line2]\<rparr>, ())"

fun alt_notifies :: "alt_op \<Rightarrow> alt_state \<Rightarrow> alt_cv notification list" where
  "alt_notifies Print1 d = [One CanPrint2]"
| "alt_notifies Print2 d = [One CanPrint1]"

definition alt_spec :: "(alt_state, alt_op, unit, alt_cv) monitor_spec" where
  "alt_spec = \<lparr>guard = alt_guard, waits_on = alt_waits_on, body = alt_body, notifies = alt_notifies\<rparr>"

lemma alt_spec_simps [simp]:
  "guard alt_spec = alt_guard" "waits_on alt_spec = alt_waits_on"
  "body alt_spec = alt_body" "notifies alt_spec = alt_notifies"
  by (simp_all add: alt_spec_def)

text \<open>Thread 0 is \<open>print_1_thread\<close>, thread 1 \<open>print_2_thread\<close>; both loop for ever.\<close>

definition alt_op_of :: "tid \<Rightarrow> alt_op" where
  "alt_op_of t = (if t = 0 then Print1 else Print2)"

definition alt_program :: "(unit, alt_op, unit) program" where
  "alt_program = \<lparr>next_call = \<lambda>t p. Some (alt_op_of t), on_return = \<lambda>t p r. ([], ())\<rparr>"

definition alt_main :: "(alt_state, alt_op, unit, unit) threads" where
  "alt_main = threads_init \<lparr>current_printed_num = 1, lines_printed = []\<rparr> [AtCall (), AtCall ()]"

lemma alt_program_simps [simp]: "next_call alt_program t p = Some (alt_op_of t)"
  by (simp add: alt_program_def)

definition alternating :: "nat \<Rightarrow> string list" where
  "alternating n = List.map (\<lambda>i. if even i then line2 else line1) [0..<n]"

section \<open>Invariants\<close>

definition alt_inv :: "alt_state \<Rightarrow> bool" where
  "alt_inv d \<longleftrightarrow> alternating (length (lines_printed d)) = lines_printed d \<and>
     current_printed_num d = (if even (length (lines_printed d)) then 1 else 2)"

lemma alternating_Suc: "alternating (Suc n) = alternating n @ [if even n then line2 else line1]"
  by (simp add: alternating_def)

interpretation alt_data: monitor_contract alt_spec "\<lparr>current_printed_num = 1, lines_printed = []\<rparr>" alt_inv
proof unfold_locales
  show "alt_inv \<lparr>current_printed_num = 1, lines_printed = []\<rparr>" by (simp add: alt_inv_def alternating_def)
  fix d x
  assume P: "alt_inv d" and g: "guard alt_spec x d"
  have "odd (length (lines_printed d)) = (x = Print1)"
  proof -
    have "current_printed_num d = (if even (length (lines_printed d)) then 1 else 2)"
      using P by (simp only: alt_inv_def)
    with g show ?thesis by (cases x; cases "even (length (lines_printed d))") simp_all
  qed
  with P show "alt_inv (fst (body alt_spec x d))"
    unfolding alt_inv_def by (cases x) (simp_all add: alternating_Suc)
qed

interpretation cv1: wakeup_contract alt_spec CanPrint1 "\<lambda>x. x = Print1"
  "\<lambda>d. if current_printed_num d = 2 then 1 else 0" "\<lambda>_. False"
proof (unfold_locales, unfold alt_spec_simps)
  fix x :: alt_op and d :: alt_state
  show "(alt_waits_on x = Some CanPrint1) = (x = Print1)" by (cases x) simp_all
  show "(if current_printed_num d = 2 then 1 else 0) = (0 :: nat) \<and> \<not> False"
    if "x = Print1" "\<not> alt_guard x d" using that by simp
  show "(if current_printed_num (fst (alt_body x d)) = 2 then 1 else 0) <
      (if current_printed_num d = 2 then 1 else (0 :: nat)) \<and> \<not> False"
    if "x = Print1" "alt_guard x d" using that by simp
  have "x = Print2" if "x \<noteq> Print1" using that by (cases x) simp_all
  then show "(if current_printed_num (fst (alt_body x d)) = 2 then 1 else 0) \<le>
        (if current_printed_num d = 2 then 1 else (0 :: nat)) \<and> \<not> False \<or>
      (if current_printed_num (fst (alt_body x d)) = 2 then 1 else 0) \<le>
        Suc (if current_printed_num d = 2 then 1 else 0) \<and> \<not> False \<and> One CanPrint1 \<in> set (alt_notifies x d) \<or>
      All CanPrint1 \<in> set (alt_notifies x d)"
    if "x \<noteq> Print1" using that by simp
qed

interpretation cv2: wakeup_contract alt_spec CanPrint2 "\<lambda>x. x = Print2"
  "\<lambda>d. if current_printed_num d = 1 then 1 else 0" "\<lambda>_. False"
proof (unfold_locales, unfold alt_spec_simps)
  fix x :: alt_op and d :: alt_state
  show "(alt_waits_on x = Some CanPrint2) = (x = Print2)" by (cases x) simp_all
  show "(if current_printed_num d = 1 then 1 else 0) = (0 :: nat) \<and> \<not> False"
    if "x = Print2" "\<not> alt_guard x d" using that by simp
  show "(if current_printed_num (fst (alt_body x d)) = 1 then 1 else 0) <
      (if current_printed_num d = 1 then 1 else (0 :: nat)) \<and> \<not> False"
    if "x = Print2" "alt_guard x d" using that by simp
  have "x = Print1" if "x \<noteq> Print2" using that by (cases x) simp_all
  then show "(if current_printed_num (fst (alt_body x d)) = 1 then 1 else 0) \<le>
        (if current_printed_num d = 1 then 1 else (0 :: nat)) \<and> \<not> False \<or>
      (if current_printed_num (fst (alt_body x d)) = 1 then 1 else 0) \<le>
        Suc (if current_printed_num d = 1 then 1 else 0) \<and> \<not> False \<and> One CanPrint2 \<in> set (alt_notifies x d) \<or>
      All CanPrint2 \<in> set (alt_notifies x d)"
    if "x \<noteq> Print2" using that by simp
qed

section \<open>Progress\<close>

lemma notify_one_possible: "\<exists>u sts'. notify_list w u [One c] sts = Some sts'"
proof (cases "list_ex (waiting_on w c) sts")
  case True
  then obtain v where "v < length sts" "waiting_on w c (sts ! v)"
    by (auto simp: list_ex_length)
  with True show ?thesis by (intro exI [of _ "Some v"]) simp
qed simp

lemma alt_exec:
  assumes "t < length (status (mon s))" "status (mon s) ! t = Holding x" "alt_guard x (data (mon s))"
  shows "\<exists>a s'. threads_step alt_spec alt_program s a = Some s' \<and>
    length (lines_printed (data (mon s'))) = Suc (length (lines_printed (data (mon s))))"
proof -
  obtain c where c: "alt_notifies x (data (mon s)) = [One c]" by (cases x) auto
  from notify_one_possible [of alt_waits_on c "(status (mon s))[t := Idle]"] obtain u sts' where
    n: "notify_list alt_waits_on u [One c] ((status (mon s))[t := Idle]) = Some sts'" by blast
  show ?thesis
    by (rule exI [of _ "Inner (Exec t u)"]) (cases x; use assms c n in simp)
qed

text \<open>From a reachable state the thread whose turn it is can take the next step that brings
  it to its \<open>Exec\<close>, once the other thread has left the mutex.\<close>

definition alt_reach :: "(alt_state, alt_op, unit, unit) threads \<Rightarrow> bool" where
  "alt_reach s \<longleftrightarrow> reachable (threads_step alt_spec alt_program) alt_main s"

definition alt_turn :: "alt_state \<Rightarrow> tid" where
  "alt_turn d = (if current_printed_num d = 1 then 1 else 0)"

lemma alt_reach_step: "alt_reach s \<Longrightarrow> threads_step alt_spec alt_program s a = Some s' \<Longrightarrow> alt_reach s'"
  unfolding alt_reach_def by (rule reachable.reachable_step)

lemma alt_reach_mon:
  "alt_reach s \<Longrightarrow> reachable (mon_step alt_spec)
     (mon_init \<lparr>current_printed_num = 1, lines_printed = []\<rparr> 2) (mon s)"
  using threads_reach_mon [of alt_spec alt_program _ "[AtCall (), AtCall ()]" s]
  by (simp add: alt_reach_def alt_main_def numeral_2_eq_2)

lemma alt_reach_ok: "alt_reach s \<Longrightarrow> threads_ok alt_program [AtCall (), AtCall ()] s"
  unfolding alt_reach_def alt_main_def by (rule threads_program_order) simp_all

lemma alt_reach_data: "alt_reach s \<Longrightarrow> alt_inv (data (mon s))"
  by (rule alt_data.data_inv [OF alt_reach_mon])

lemma alt_lengths: "alt_reach s \<Longrightarrow> length (pcs s) = 2 \<and> length (status (mon s)) = 2"
  using alt_reach_ok [of s] by (simp add: threads_ok_def)

text \<open>A busy thread is busy with its own operation.\<close>

lemma alt_own_op:
  assumes "alt_reach s" "t < 2"
  shows "op_of (status (mon s) ! t) = (if in_call (pcs s ! t) then Some (alt_op_of t) else None)"
  using alt_reach_ok [OF assms(1)] assms(2) by (simp add: threads_ok_def thread_ok_def)

lemma alt_turn_less: "alt_turn d < 2"
  by (simp add: alt_turn_def)

lemma alt_turn_guard:
  "alt_inv d \<Longrightarrow> t < 2 \<Longrightarrow> alt_guard (alt_op_of t) d \<longleftrightarrow> t = alt_turn d"
  unfolding alt_inv_def alt_turn_def alt_op_of_def
  by (cases "even (length (lines_printed d))"; cases "t = 0") simp_all

text \<open>The thread whose turn it is never sleeps: its wake-up cannot be lost.\<close>

lemma alt_turn_awake:
  assumes r: "alt_reach s"
  shows "status (mon s) ! alt_turn (data (mon s)) \<noteq> Waiting x"
proof
  let ?t = "alt_turn (data (mon s))"
  assume w: "status (mon s) ! ?t = Waiting x"
  have x: "x = alt_op_of ?t"
    using alt_own_op [OF r alt_turn_less, of "data (mon s)"] w by (simp split: if_splits)
  have l: "length (status (mon s)) = 2" using alt_lengths [OF r] by simp
  have "\<exists>t' < 2. \<exists>y. y = x \<and> (status (mon s) ! t' = Locking y \<or> status (mon s) ! t' = Holding y)"
  proof (cases "current_printed_num (data (mon s)) = 1")
    case True
    then have "x = Print2" using x by (simp add: alt_turn_def alt_op_of_def)
    with cv2.no_lost_wakeup [OF alt_reach_mon [OF r], of ?t x] True w l alt_turn_less show ?thesis by simp
  next
    case False
    then have "x = Print1" "current_printed_num (data (mon s)) = 2"
      using x alt_reach_data [OF r] by (auto simp: alt_turn_def alt_op_of_def alt_inv_def split: if_splits)
    with cv1.no_lost_wakeup [OF alt_reach_mon [OF r], of ?t x] w l alt_turn_less show ?thesis by simp
  qed
  then obtain t' where t': "t' < 2" "status (mon s) ! t' = Locking x \<or> status (mon s) ! t' = Holding x" by blast
  then have "alt_op_of t' = alt_op_of ?t"
    using alt_own_op [OF r t'(1)] x by (auto split: if_splits)
  then have "t' = ?t" using t'(1) alt_turn_less [of "data (mon s)"]
    by (auto simp: alt_op_of_def less_2_cases_iff split: if_splits)
  with w t'(2) show False by simp
qed

definition can_print :: "(alt_state, alt_op, unit, unit) threads \<Rightarrow> bool" where
  "can_print s \<longleftrightarrow> (\<exists>s'. reachable (threads_step alt_spec alt_program) s s' \<and>
     length (lines_printed (data (mon s'))) = Suc (length (lines_printed (data (mon s)))))"

lemma reachable_from_step:
  "step s a = Some s1 \<Longrightarrow> reachable step s1 s2 \<Longrightarrow> reachable step s s2"
  unfolding reachable_iff_run by (metis option.simps(5) run.simps(2))

lemma can_print_step:
  "threads_step alt_spec alt_program s a = Some s1 \<Longrightarrow> data (mon s1) = data (mon s) \<Longrightarrow>
     can_print s1 \<Longrightarrow> can_print s"
  unfolding can_print_def by (metis reachable_from_step)

lemma can_print_holding:
  assumes r: "alt_reach s" and h: "status (mon s) ! alt_turn (data (mon s)) = Holding x"
  shows "can_print s"
proof -
  let ?t = "alt_turn (data (mon s))"
  have "x = alt_op_of ?t" using alt_own_op [OF r alt_turn_less, of "data (mon s)"] h by (simp split: if_splits)
  then have "alt_guard x (data (mon s))" using alt_turn_guard [OF alt_reach_data [OF r] alt_turn_less] by simp
  moreover have "?t < length (status (mon s))" using alt_lengths [OF r] alt_turn_less by simp
  ultimately obtain a s' where "threads_step alt_spec alt_program s a = Some s'"
    "length (lines_printed (data (mon s'))) = Suc (length (lines_printed (data (mon s))))"
    using alt_exec h by blast
  then show ?thesis unfolding can_print_def
    by (blast intro: reachable.reachable_step [OF reachable.reachable_start])
qed

lemma can_print_locking:
  assumes r: "alt_reach s" and o: "owner (mon s) = None"
    and h: "status (mon s) ! alt_turn (data (mon s)) = Locking x"
  shows "can_print s"
proof -
  let ?t = "alt_turn (data (mon s))"
  have l: "?t < length (status (mon s))" using alt_lengths [OF r] alt_turn_less by simp
  let ?m = "(mon s)\<lparr>owner := Some ?t, status := (status (mon s))[?t := Holding x]\<rparr>"
  have st: "threads_step alt_spec alt_program s (Inner (Lock ?t)) = Some (s\<lparr>mon := ?m\<rparr>)"
    using l h o by simp
  show ?thesis
    by (rule can_print_step [OF st]) (use can_print_holding [OF alt_reach_step [OF r st]] l in simp_all)
qed

lemma can_print_at_call:
  assumes r: "alt_reach s" and o: "owner (mon s) = None"
    and h: "pcs s ! alt_turn (data (mon s)) = AtCall p"
  shows "can_print s"
proof -
  let ?t = "alt_turn (data (mon s))"
  have l: "?t < length (status (mon s))" "?t < length (pcs s)" using alt_lengths [OF r] alt_turn_less by simp_all
  have "op_of (status (mon s) ! ?t) = None" using alt_own_op [OF r alt_turn_less, of "data (mon s)"] h by simp
  then have i: "status (mon s) ! ?t = Idle" by (cases "status (mon s) ! ?t") simp_all
  let ?m = "(mon s)\<lparr>status := (status (mon s))[?t := Locking (alt_op_of ?t)]\<rparr>"
  have st: "threads_step alt_spec alt_program s (Begin ?t) = Some (s\<lparr>mon := ?m, pcs := (pcs s)[?t := InCall p]\<rparr>)"
    using l h i by simp
  show ?thesis
    by (rule can_print_step [OF st]) (use can_print_locking [OF alt_reach_step [OF r st]] l o in simp_all)
qed

lemma can_print_free:
  assumes r: "alt_reach s" and o: "owner (mon s) = None"
  shows "can_print s"
proof -
  let ?t = "alt_turn (data (mon s))"
  have l: "?t < length (status (mon s))" "?t < length (pcs s)" using alt_lengths [OF r] alt_turn_less by simp_all
  show ?thesis
  proof (cases "pcs s ! ?t")
    case (InCall p)
    then have "op_of (status (mon s) ! ?t) \<noteq> None" using alt_own_op [OF r alt_turn_less, of "data (mon s)"] by simp
    with alt_turn_awake [OF r] can_print_holding [OF r] can_print_locking [OF r o] show ?thesis
      by (cases "status (mon s) ! ?t") auto
  next
    case (ToPrint w p)
    then have st: "threads_step alt_spec alt_program s (Print ?t) =
        Some (s\<lparr>pcs := (pcs s)[?t := AtCall p], printed := printed s @ [w]\<rparr>)" using l by simp
    show ?thesis
      by (rule can_print_step [OF st]) (use can_print_at_call [OF alt_reach_step [OF r st]] l o in simp_all)
  qed (rule can_print_at_call [OF r o])
qed

lemma alt_can_print:
  assumes r: "alt_reach s"
  shows "can_print s"
proof (cases "owner (mon s)")
  case (Some t)
  obtain x where t: "t < length (status (mon s))" "status (mon s) ! t = Holding x"
    using owner_holds [OF alt_reach_mon [OF r] Some] by metis
  show ?thesis
  proof (cases "t = alt_turn (data (mon s))")
    case True
    with t can_print_holding [OF r] show ?thesis by simp
  next
    case False
    have t2: "t < 2" using t alt_lengths [OF r] by simp
    then have "x = alt_op_of t" using alt_own_op [OF r t2] t by (simp split: if_splits)
    then have g: "\<not> alt_guard x (data (mon s))" using False alt_turn_guard [OF alt_reach_data [OF r] t2] by simp
    let ?m = "(mon s)\<lparr>owner := None, status := (status (mon s))[t := Waiting x]\<rparr>"
    have st: "threads_step alt_spec alt_program s (Inner (Exec t None)) = Some (s\<lparr>mon := ?m\<rparr>)"
      using t g by simp
    show ?thesis
      by (rule can_print_step [OF st]) (use can_print_free [OF alt_reach_step [OF r st]] in simp_all)
  qed
qed (rule can_print_free [OF r])

section \<open>Property\<close>

text \<open>in every schedule of the program the lines come out strictly in turn, starting with
  the line of thread 2, and the program never gets stuck: from every state it can reach, the
  line that is due can still be printed.\<close>

theorem alternation_main:
  "reachable (threads_step alt_spec alt_program) alt_main s \<Longrightarrow>
     lines_printed (data (mon s)) = alternating (length (lines_printed (data (mon s)))) \<and>
     (\<exists>s'. reachable (threads_step alt_spec alt_program) s s' \<and>
        lines_printed (data (mon s')) = alternating (Suc (length (lines_printed (data (mon s))))))"
proof -
  assume "reachable (threads_step alt_spec alt_program) alt_main s"
  then have r: "alt_reach s" by (simp add: alt_reach_def)
  from alt_can_print [OF r] obtain s' where s': "reachable (threads_step alt_spec alt_program) s s'"
    "length (lines_printed (data (mon s'))) = Suc (length (lines_printed (data (mon s))))"
    by (auto simp: can_print_def)
  from s'(1) have "alt_reach s'" by (induction rule: reachable.induct) (auto intro: r alt_reach_step)
  with alt_reach_data [OF r] alt_reach_data [of s'] s' show ?thesis
    unfolding alt_inv_def by metis
qed

theorem alternation_main_witness:
  "lines_printed (data (mon alt_main)) = alternating 0 \<and>
   (\<exists>s'. reachable (threads_step alt_spec alt_program) alt_main s' \<and>
      lines_printed (data (mon s')) = alternating 1)"
  using alternation_main [OF reachable.reachable_start]
  by (simp add: alt_main_def threads_init_def mon_init_def)

end
