(* ===== verification/SafeQueue.thy ===== *)
theory SafeQueue
  imports Prelude
begin

text \<open>
  \<open>thread_safe_queue\<close> of \<open>multithread/thread_safe_queue.h\<close>: a linked list with a head mutex,
  a tail mutex and one condition variable. Nodes are indices into a list of allocated nodes
  (the class never deletes one); a node of \<open>new Node\<close> has indeterminate members, written
  \<open>None\<close>. The first part gives the operations as sequential functions with the list they
  implement, the second the interleavings of threads, one step per critical section.
\<close>

section \<open>The list of nodes\<close>

record 'a qnode =
  qdata :: "'a option"          \<comment> \<open>\<open>None\<close>: not initialised\<close>
  next_node :: "nat option"

record 'a queue_state =
  nodes :: "'a qnode list"
  head_node :: nat
  tail_node :: nat

definition empty_queue_what :: string where
  "empty_queue_what = ''Error: Queue is Empty!!!''"

definition new_node :: "'a qnode" where
  "new_node = \<lparr>qdata = None, next_node = None\<rparr>"

definition new_queue :: "'a queue_state" where
  "new_queue = \<lparr>nodes = [new_node], head_node = 0, tail_node = 0\<rparr>"

text \<open>The statements of \<open>push\<close> under \<open>tail_mtx_\<close>, one after the other.\<close>

definition queue_push :: "'a \<Rightarrow> 'a queue_state \<Rightarrow> 'a queue_state" where
  "queue_push v q =
     (let n = length (nodes q);
          ns1 = nodes q @ [new_node];
          ns2 = ns1[tail_node q := (ns1 ! tail_node q)\<lparr>next_node := Some n\<rparr>];
          ns3 = ns2[n := (ns2 ! n)\<lparr>qdata := Some v\<rparr>]
      in q\<lparr>nodes := ns3, tail_node := n\<rparr>)"

definition queue_empty :: "'a queue_state \<Rightarrow> bool" where
  "queue_empty q \<longleftrightarrow> head_node q = tail_node q"

text \<open>Removing the head: \<open>Inl\<close> is the use of an indeterminate \<open>next_node\<close>.\<close>

definition take_head :: "'a queue_state \<Rightarrow> unit + 'a option \<times> 'a queue_state" where
  "take_head q = (case next_node (nodes q ! head_node q) of
       None \<Rightarrow> Inl ()
     | Some n \<Rightarrow> Inr (qdata (nodes q ! head_node q), q\<lparr>head_node := n\<rparr>))"

datatype 'a pop_result = PopOk "'a option" | EmptyQueueError | PopNullopt | PopFault

datatype pop_kind = Pop | TryPop | WaitAndPop

text \<open>What the three ways of popping do once \<open>tail\<close> has been read; \<open>None\<close> means wait.\<close>

fun pop_with_tail :: "pop_kind \<Rightarrow> nat \<Rightarrow> 'a queue_state \<Rightarrow> ('a pop_result \<times> 'a queue_state) option" where
  "pop_with_tail k tail q =
     (if head_node q = tail then (case k of
          Pop \<Rightarrow> Some (EmptyQueueError, q)
        | TryPop \<Rightarrow> Some (PopNullopt, q)
        | WaitAndPop \<Rightarrow> None)
      else (case take_head q of
          Inl _ \<Rightarrow> Some (PopFault, q)
        | Inr (v, q') \<Rightarrow> Some (PopOk v, q')))"

section \<open>The contents\<close>

text \<open>The nodes form one chain in the order of their allocation, ending in the tail.\<close>

definition queue_wf :: "'a queue_state \<Rightarrow> bool" where
  "queue_wf q \<longleftrightarrow> Suc (tail_node q) = length (nodes q) \<and> head_node q \<le> tail_node q \<and>
     List.map next_node (nodes q) = List.map Some [1..<length (nodes q)] @ [None]"

definition contents :: "'a queue_state \<Rightarrow> 'a option list" where
  "contents q = List.map qdata (drop (head_node q) (nodes q))"

lemma new_queue_wf: "queue_wf new_queue" "contents new_queue = [None]"
  by (simp_all add: queue_wf_def contents_def new_queue_def new_node_def)

lemma wf_next:
  assumes "queue_wf q" "i < length (nodes q)"
  shows "next_node (nodes q ! i) = (if i < tail_node q then Some (Suc i) else None)"
proof -
  have "next_node (nodes q ! i) = List.map next_node (nodes q) ! i" using assms(2) by simp
  also have "\<dots> = (if i < tail_node q then Some (Suc i) else None)"
    using assms by (auto simp: queue_wf_def nth_append simp del: upt_Suc)
  finally show ?thesis .
qed

lemma push_nodes:
  assumes "queue_wf q"
  shows "nodes (queue_push v q) = (nodes q)[tail_node q := (nodes q ! tail_node q)\<lparr>next_node := Some (length (nodes q))\<rparr>] @
      [\<lparr>qdata = Some v, next_node = None\<rparr>]"
    and "tail_node (queue_push v q) = length (nodes q)" "head_node (queue_push v q) = head_node q"
proof -
  have "tail_node q < length (nodes q)" using assms by (simp add: queue_wf_def)
  then show "nodes (queue_push v q) = (nodes q)[tail_node q := (nodes q ! tail_node q)\<lparr>next_node := Some (length (nodes q))\<rparr>] @
      [\<lparr>qdata = Some v, next_node = None\<rparr>]"
    by (simp add: queue_push_def Let_def new_node_def list_update_append nth_append)
qed (simp_all add: queue_push_def Let_def)

lemma push_wf:
  assumes "queue_wf q"
  shows "queue_wf (queue_push v q)"
proof -
  let ?n = "length (nodes q)"
  have n: "Suc (tail_node q) = ?n" using assms by (simp add: queue_wf_def)
  have "List.map next_node (nodes (queue_push v q)) = List.map Some [1..<Suc ?n] @ [None]"
  proof (rule nth_equalityI)
    show "length (List.map next_node (nodes (queue_push v q))) = length (List.map Some [1..<Suc ?n] @ [None])"
      using push_nodes [OF assms] n by simp
    fix i assume "i < length (List.map next_node (nodes (queue_push v q)))"
    then have i: "i < Suc ?n" using push_nodes [OF assms] by simp
    show "List.map next_node (nodes (queue_push v q)) ! i = (List.map Some [1..<Suc ?n] @ [None]) ! i"
      using i n wf_next [OF assms, of i]
      by (auto simp: push_nodes [OF assms] nth_append nth_list_update less_Suc_eq simp del: upt_Suc)
  qed
  moreover have "head_node q \<le> ?n" using assms by (simp add: queue_wf_def)
  ultimately show ?thesis by (simp add: queue_wf_def push_nodes [OF assms] del: upt_Suc)
qed

lemma push_contents:
  assumes "queue_wf q"
  shows "contents (queue_push v q) = contents q @ [Some v]"
proof -
  have "List.map qdata ((nodes q)[tail_node q := (nodes q ! tail_node q)\<lparr>next_node := x\<rparr>]) = List.map qdata (nodes q)" for x
  proof (rule nth_equalityI)
    fix i assume "i < length (List.map qdata ((nodes q)[tail_node q := (nodes q ! tail_node q)\<lparr>next_node := x\<rparr>]))"
    then show "List.map qdata ((nodes q)[tail_node q := (nodes q ! tail_node q)\<lparr>next_node := x\<rparr>]) ! i =
        List.map qdata (nodes q) ! i"
      by (cases "i = tail_node q") simp_all
  qed simp
  moreover have "head_node q \<le> length (nodes q)" using assms by (simp add: queue_wf_def)
  ultimately show ?thesis
    by (simp add: contents_def push_nodes [OF assms] flip: drop_map)
qed

lemma wf_empty: "queue_wf q \<Longrightarrow> queue_empty q \<longleftrightarrow> length (contents q) = 1"
  by (auto simp: queue_wf_def queue_empty_def contents_def)

lemma take_head_wf:
  assumes "queue_wf q" "\<not> queue_empty q"
  shows "\<exists>q'. take_head q = Inr (hd (contents q), q') \<and> queue_wf q' \<and> contents q' = tl (contents q) \<and>
    nodes q' = nodes q \<and> tail_node q' = tail_node q \<and> head_node q' = Suc (head_node q)"
proof -
  have h: "head_node q < tail_node q" "head_node q < length (nodes q)"
    using assms by (auto simp: queue_wf_def queue_empty_def)
  let ?q = "q\<lparr>head_node := Suc (head_node q)\<rparr>"
  have "take_head q = Inr (hd (contents q), ?q)"
    using wf_next [OF assms(1) h(2)] h by (simp add: take_head_def contents_def hd_map hd_drop_conv_nth)
  moreover have "queue_wf ?q" using assms(1) h by (simp add: queue_wf_def)
  moreover have "contents ?q = tl (contents q)" by (simp add: contents_def drop_Suc drop_tl map_tl)
  ultimately show ?thesis by (intro exI [of _ ?q]) simp
qed

section \<open>Interleavings\<close>

datatype 'a queue_call = QPush 'a | QPop pop_kind | QEmpty

datatype 'a queue_result = QPushed | QTook "'a pop_result" | QFlag bool

text \<open>Where a thread stands: the constructors name the mutexes it wants or holds.\<close>

datatype 'a queue_pc =
    QIdle
  | PushWantsTail 'a
  | PushHasTail 'a
  | PopWantsHead pop_kind
  | PopHasHead pop_kind            \<comment> \<open>about to call \<open>get_tail\<close>\<close>
  | PopHasBoth pop_kind            \<comment> \<open>inside \<open>get_tail\<close>\<close>
  | PopCompares pop_kind nat       \<comment> \<open>holds the head mutex and the value of \<open>get_tail\<close>\<close>
  | Asleep                         \<comment> \<open>in \<open>cv_.wait\<close>\<close>
  | EmptyWantsHead
  | EmptyHasHead
  | EmptyHasBoth

record 'a queue_system =
  queue :: "'a queue_state"
  head_mtx :: "nat option"
  tail_mtx :: "nat option"
  qpcs :: "'a queue_pc list"
  qhistory :: "(nat \<times> 'a queue_call \<times> 'a queue_result) list"

datatype 'a queue_action = QCall nat "'a queue_call" | QGo nat "nat option" | QSpurious nat

definition queue_init :: "nat \<Rightarrow> 'a queue_system" where
  "queue_init n = \<lparr>queue = new_queue, head_mtx = None, tail_mtx = None, qpcs = replicate n QIdle, qhistory = []\<rparr>"

fun queue_entry :: "'a queue_call \<Rightarrow> 'a queue_pc" where
  "queue_entry (QPush v) = PushWantsTail v"
| "queue_entry (QPop k) = PopWantsHead k"
| "queue_entry QEmpty = EmptyWantsHead"

text \<open>\<open>notify_one\<close>: \<open>w\<close> is the sleeping thread that is woken, if there is one.\<close>

definition queue_notify :: "nat option \<Rightarrow> 'a queue_pc list \<Rightarrow> 'a queue_pc list option" where
  "queue_notify w ps =
     (if list_ex (\<lambda>p. p = Asleep) ps
      then (case w of
          None \<Rightarrow> None
        | Some v \<Rightarrow> if v < length ps \<and> ps ! v = Asleep then Some (ps[v := PopWantsHead WaitAndPop]) else None)
      else Some ps)"

fun queue_go :: "nat \<Rightarrow> nat option \<Rightarrow> 'a queue_pc \<Rightarrow> 'a queue_system \<Rightarrow> 'a queue_system option" where
  "queue_go t w QIdle s = None"
| "queue_go t w (PushWantsTail v) s =
     (if tail_mtx s = None then Some (s\<lparr>tail_mtx := Some t, qpcs := (qpcs s)[t := PushHasTail v]\<rparr>) else None)"
| "queue_go t w (PushHasTail v) s =
     (case queue_notify w ((qpcs s)[t := QIdle]) of
        None \<Rightarrow> None
      | Some ps \<Rightarrow> Some (s\<lparr>queue := queue_push v (queue s), tail_mtx := None, qpcs := ps,
          qhistory := qhistory s @ [(t, QPush v, QPushed)]\<rparr>))"
| "queue_go t w (PopWantsHead k) s =
     (if head_mtx s = None then Some (s\<lparr>head_mtx := Some t, qpcs := (qpcs s)[t := PopHasHead k]\<rparr>) else None)"
| "queue_go t w (PopHasHead k) s =
     (if tail_mtx s = None then Some (s\<lparr>tail_mtx := Some t, qpcs := (qpcs s)[t := PopHasBoth k]\<rparr>) else None)"
| "queue_go t w (PopHasBoth k) s =
     Some (s\<lparr>tail_mtx := None, qpcs := (qpcs s)[t := PopCompares k (tail_node (queue s))]\<rparr>)"
| "queue_go t w (PopCompares k n) s =
     (case pop_with_tail k n (queue s) of
        None \<Rightarrow> Some (s\<lparr>head_mtx := None, qpcs := (qpcs s)[t := Asleep]\<rparr>)
      | Some (r, q) \<Rightarrow> Some (s\<lparr>queue := q, head_mtx := None, qpcs := (qpcs s)[t := QIdle],
          qhistory := qhistory s @ [(t, QPop k, QTook r)]\<rparr>))"
| "queue_go t w Asleep s = None"
| "queue_go t w EmptyWantsHead s =
     (if head_mtx s = None then Some (s\<lparr>head_mtx := Some t, qpcs := (qpcs s)[t := EmptyHasHead]\<rparr>) else None)"
| "queue_go t w EmptyHasHead s =
     (if tail_mtx s = None then Some (s\<lparr>tail_mtx := Some t, qpcs := (qpcs s)[t := EmptyHasBoth]\<rparr>) else None)"
| "queue_go t w EmptyHasBoth s =
     Some (s\<lparr>head_mtx := None, tail_mtx := None, qpcs := (qpcs s)[t := QIdle],
       qhistory := qhistory s @ [(t, QEmpty, QFlag (queue_empty (queue s)))]\<rparr>)"

fun queue_step :: "'a queue_system \<Rightarrow> 'a queue_action \<Rightarrow> 'a queue_system option" where
  "queue_step s (QCall t c) =
     (if t < length (qpcs s) \<and> qpcs s ! t = QIdle
      then Some (s\<lparr>qpcs := (qpcs s)[t := queue_entry c]\<rparr>) else None)"
| "queue_step s (QGo t w) = (if t < length (qpcs s) then queue_go t w (qpcs s ! t) s else None)"
| "queue_step s (QSpurious t) =
     (if t < length (qpcs s) \<and> qpcs s ! t = Asleep
      then Some (s\<lparr>qpcs := (qpcs s)[t := PopWantsHead WaitAndPop]\<rparr>) else None)"

section \<open>The demo program\<close>

text \<open>Thread 0 pushes 1 to 30; thread 1 pops and returns once it finds the queue empty.\<close>

definition queue_returns :: "nat \<Rightarrow> 'a queue_system \<Rightarrow> 'a queue_result list" where
  "queue_returns t s = List.map (snd \<circ> snd) (filter (\<lambda>e. fst e = t) (qhistory s))"

definition queue_next :: "nat \<Rightarrow> nat queue_system \<Rightarrow> nat queue_call option" where
  "queue_next t s =
     (let rs = queue_returns t s in
      if t = 0 then (if length rs < 30 then Some (QPush (length rs + 1)) else None)
      else if rs = [] then Some (QPop WaitAndPop)
      else (case last rs of
          QFlag b \<Rightarrow> if b then None else Some (QPop WaitAndPop)
        | _ \<Rightarrow> Some QEmpty))"

fun queue_main_step :: "nat queue_system \<Rightarrow> nat queue_action \<Rightarrow> nat queue_system option" where
  "queue_main_step s (QCall t c) = (if queue_next t s = Some c then queue_step s (QCall t c) else None)"
| "queue_main_step s a = queue_step s a"

definition queue_main :: "nat queue_system" where
  "queue_main = queue_init 2"

section \<open>Invariant\<close>

fun has_head :: "'a queue_pc \<Rightarrow> bool" where
  "has_head (PopHasHead k) = True"
| "has_head (PopHasBoth k) = True"
| "has_head (PopCompares k n) = True"
| "has_head EmptyHasHead = True"
| "has_head EmptyHasBoth = True"
| "has_head _ = False"

fun sees :: "'a queue_state \<Rightarrow> 'a queue_pc \<Rightarrow> bool" where
  "sees q (PopCompares k n) = (head_node q \<le> n \<and> n \<le> tail_node q)"
| "sees q _ = True"

fun queue_pushed :: "(nat \<times> 'a queue_call \<times> 'a queue_result) list \<Rightarrow> 'a list" where
  "queue_pushed [] = []"
| "queue_pushed ((t, QPush v, r) # h) = v # queue_pushed h"
| "queue_pushed (_ # h) = queue_pushed h"

fun queue_popped :: "(nat \<times> 'a queue_call \<times> 'a queue_result) list \<Rightarrow> 'a option list" where
  "queue_popped [] = []"
| "queue_popped ((t, c, QTook (PopOk v)) # h) = v # queue_popped h"
| "queue_popped (_ # h) = queue_popped h"

fun faulty :: "nat \<times> 'a queue_call \<times> 'a queue_result \<Rightarrow> bool" where
  "faulty (t, c, QTook PopFault) = True"
| "faulty _ = False"

definition queue_inv :: "'a queue_system \<Rightarrow> bool" where
  "queue_inv s \<longleftrightarrow> queue_wf (queue s) \<and>
     (\<forall>t < length (qpcs s). has_head (qpcs s ! t) \<longleftrightarrow> head_mtx s = Some t) \<and>
     (\<forall>p \<in> set (qpcs s). sees (queue s) p) \<and>
     queue_popped (qhistory s) @ contents (queue s) = None # List.map Some (queue_pushed (qhistory s)) \<and>
     \<not> list_ex faulty (qhistory s)"

lemma queue_pushed_append [simp]: "queue_pushed (h @ h') = queue_pushed h @ queue_pushed h'"
  by (induction h rule: queue_pushed.induct) auto

lemma queue_popped_append [simp]: "queue_popped (h @ h') = queue_popped h @ queue_popped h'"
  by (induction h rule: queue_popped.induct) auto

lemma queue_init_inv: "queue_inv (queue_init n)"
  by (simp add: queue_inv_def queue_init_def new_queue_wf)

text \<open>Steps that leave the list alone: the head mutex is kept, taken or released.\<close>

lemma inv_move:
  assumes inv: "queue_inv s" and t: "t < length (qpcs s)"
    and same: "queue s' = queue s" "queue_popped (qhistory s') = queue_popped (qhistory s)"
      "queue_pushed (qhistory s') = queue_pushed (qhistory s)"
      "list_ex faulty (qhistory s') = list_ex faulty (qhistory s)"
    and p: "qpcs s' = (qpcs s)[t := p]" "sees (queue s) p"
    and m: "head_mtx s' = head_mtx s \<and> has_head p = has_head (qpcs s ! t) \<or>
      head_mtx s = None \<and> head_mtx s' = Some t \<and> has_head p \<or>
      has_head (qpcs s ! t) \<and> head_mtx s' = None \<and> \<not> has_head p"
  shows "queue_inv s'"
proof -
  have "sees (queue s) q" if "q \<in> set ((qpcs s)[t := p])" for q
    using that set_update_subset_insert [of "qpcs s" t p] inv p(2) by (auto simp: queue_inv_def)
  moreover have "has_head (qpcs s' ! t') \<longleftrightarrow> head_mtx s' = Some t'" if "t' < length (qpcs s')" for t'
    using that inv t m p(1) by (cases "t' = t") (auto simp: queue_inv_def)
  ultimately show ?thesis using inv same p(1) by (simp add: queue_inv_def)
qed

lemma queue_notify_pcs:
  assumes "queue_notify w ps = Some ps'" "t < length ps"
  shows "length ps' = length ps" "has_head (ps' ! t) = has_head (ps ! t)" "sees q (ps' ! t) = sees q (ps ! t)"
  using assms by (auto simp: queue_notify_def nth_list_update split: if_splits option.splits)

lemma sees_push: "queue_wf q \<Longrightarrow> sees q p \<Longrightarrow> sees (queue_push v q) p"
  by (cases p) (auto simp: push_nodes queue_wf_def)

lemma push_step_inv:
  assumes inv: "queue_inv s" and t: "t < length (qpcs s)" "qpcs s ! t = PushHasTail v"
    and n: "queue_notify w ((qpcs s)[t := QIdle]) = Some ps"
    and s': "s' = s\<lparr>queue := queue_push v (queue s), tail_mtx := None, qpcs := ps,
      qhistory := qhistory s @ [(t, QPush v, QPushed)]\<rparr>"
  shows "queue_inv s'"
proof -
  let ?ps = "(qpcs s)[t := QIdle]"
  have wf: "queue_wf (queue s)" using inv by (simp add: queue_inv_def)
  have len: "length ps = length (qpcs s)" using queue_notify_pcs(1) [OF n, of t] t by simp
  have head: "has_head (ps ! t') \<longleftrightarrow> head_mtx s = Some t'" if "t' < length ps" for t'
    using queue_notify_pcs(2) [OF n, of t'] that len inv t by (cases "t' = t") (auto simp: queue_inv_def)
  have sees: "sees (queue_push v (queue s)) (ps ! t')" if "t' < length ps" for t'
  proof -
    have "sees (queue s) (?ps ! t')"
      using that len inv t by (cases "t' = t") (auto simp: queue_inv_def)
    then show ?thesis using queue_notify_pcs(3) [OF n, of t' "queue s"] that len sees_push [OF wf] by simp
  qed
  show ?thesis
    using inv head sees push_wf [OF wf] push_contents [OF wf]
    by (auto simp: queue_inv_def s' all_set_conv_all_nth list_ex_iff)
qed

lemma pop_step_inv:
  assumes inv: "queue_inv s" and t: "t < length (qpcs s)" "qpcs s ! t = PopCompares k n"
    and s': "queue_go t w (PopCompares k n) s = Some s'"
  shows "queue_inv s'"
proof -
  have "sees (queue s) (PopCompares k n)" using inv t nth_mem by (fastforce simp: queue_inv_def)
  then have n: "head_node (queue s) \<le> n" "n \<le> tail_node (queue s)" by simp_all
  have wf: "queue_wf (queue s)" using inv by (simp add: queue_inv_def)
  have hh: "has_head (qpcs s ! t)" using t by simp
  show ?thesis
  proof (cases "head_node (queue s) = n")
    case True
    with s' consider "k = Pop" | "k = TryPop" | "k = WaitAndPop" by (cases k) auto
    then show ?thesis
    proof cases
      case 3
      with True s' show ?thesis by (intro inv_move [OF inv t(1), of _ Asleep]) (auto simp: hh)
    qed (use True s' in \<open>intro inv_move [OF inv t(1), of _ QIdle]; auto simp: hh\<close>)+
  next
    case False
    with n have "\<not> queue_empty (queue s)" by (simp add: queue_empty_def)
    from take_head_wf [OF wf this] obtain q' where q': "take_head (queue s) = Inr (hd (contents (queue s)), q')"
      "queue_wf q'" "contents q' = tl (contents (queue s))" "tail_node q' = tail_node (queue s)" by blast
    have s'': "s' = s\<lparr>queue := q', head_mtx := None, qpcs := (qpcs s)[t := QIdle],
        qhistory := qhistory s @ [(t, QPop k, QTook (PopOk (hd (contents (queue s)))))]\<rparr>"
      using s' False q'(1) by simp
    have ne: "contents (queue s) \<noteq> []"
    proof -
      have "head_node (queue s) < length (nodes (queue s))" using wf by (simp add: queue_wf_def)
      then show ?thesis by (simp add: contents_def)
    qed
    have others: "\<not> has_head (qpcs s ! t')" if "t' < length (qpcs s)" "t' \<noteq> t" for t'
      using inv hh t that by (auto simp: queue_inv_def)
    have nohead: "\<not> has_head (((qpcs s)[t := QIdle]) ! t')" if "t' < length (qpcs s)" for t'
      using others that by (cases "t' = t") auto
    have "sees q' (((qpcs s)[t := QIdle]) ! t')" if "t' < length (qpcs s)" for t'
      using nohead [OF that] by (cases "((qpcs s)[t := QIdle]) ! t'") auto
    then show ?thesis
      using inv nohead q' ne by (auto simp: queue_inv_def s'' all_set_conv_all_nth)
  qed
qed

lemma go_inv:
  assumes inv: "queue_inv s" and t: "t < length (qpcs s)" and s': "queue_go t w (qpcs s ! t) s = Some s'"
  shows "queue_inv s'"
proof (cases "qpcs s ! t")
  case (PushWantsTail v)
  with s' show ?thesis by (intro inv_move [OF inv t, of _ "PushHasTail v"]) (auto split: if_splits)
next
  case (PushHasTail v)
  with s' obtain ps where "queue_notify w ((qpcs s)[t := QIdle]) = Some ps"
    "s' = s\<lparr>queue := queue_push v (queue s), tail_mtx := None, qpcs := ps,
      qhistory := qhistory s @ [(t, QPush v, QPushed)]\<rparr>" by (auto split: option.splits)
  with push_step_inv [OF inv t PushHasTail] show ?thesis by blast
next
  case (PopWantsHead k)
  with s' show ?thesis by (intro inv_move [OF inv t, of _ "PopHasHead k"]) (auto split: if_splits)
next
  case (PopHasHead k)
  with s' show ?thesis by (intro inv_move [OF inv t, of _ "PopHasBoth k"]) (auto split: if_splits)
next
  case (PopHasBoth k)
  with s' inv show ?thesis
    by (intro inv_move [OF inv t, of _ "PopCompares k (tail_node (queue s))"])
      (auto simp: queue_inv_def queue_wf_def)
next
  case (PopCompares k n)
  with pop_step_inv [OF inv t] s' show ?thesis by simp
next
  case EmptyWantsHead
  with s' show ?thesis by (intro inv_move [OF inv t, of _ EmptyHasHead]) (auto split: if_splits)
next
  case EmptyHasHead
  with s' show ?thesis by (intro inv_move [OF inv t, of _ EmptyHasBoth]) (auto split: if_splits)
next
  case EmptyHasBoth
  with s' show ?thesis by (intro inv_move [OF inv t, of _ QIdle]) auto
qed (use s' in simp_all)

lemma queue_step_inv: "queue_inv s \<Longrightarrow> queue_step s a = Some s' \<Longrightarrow> queue_inv s'"
proof (cases a)
  case (QCall t c)
  assume inv: "queue_inv s" and st: "queue_step s a = Some s'"
  from st QCall have t: "t < length (qpcs s)" "qpcs s ! t = QIdle" by (auto split: if_splits)
  have e: "\<not> has_head (queue_entry c)" "sees (queue s) (queue_entry c)" by (cases c; simp)+
  have s': "s' = s\<lparr>qpcs := (qpcs s)[t := queue_entry c]\<rparr>" using st QCall t by simp
  show ?thesis by (rule inv_move [OF inv t(1), of _ "queue_entry c"]) (simp_all add: s' e t)
next
  case (QSpurious t)
  assume inv: "queue_inv s" and st: "queue_step s a = Some s'"
  from st QSpurious have t: "t < length (qpcs s)" "qpcs s ! t = Asleep" by (auto split: if_splits)
  with st QSpurious show ?thesis
    by (intro inv_move [OF inv t(1), of _ "PopWantsHead WaitAndPop"]) auto
next
  case (QGo t w)
  assume "queue_inv s" "queue_step s a = Some s'"
  with QGo go_inv show ?thesis by (auto split: if_splits)
qed

interpretation queue_sys: invariant_system queue_step "queue_init n" queue_inv for n
  by unfold_locales (rule queue_init_inv, rule queue_step_inv)

section \<open>Properties\<close>

text \<open>C9: the operations are correct for a queue that starts with one indeterminate value: in
  every interleaving of any number of threads what was popped, followed by what is in the
  list, is that value followed by the pushed values in order, and no pop follows an
  uninitialised link. So the first pop returns an indeterminate value, every later one the
  value pushed before the one it should return.\<close>

theorem queue_shifted_fifo:
  "reachable queue_step (queue_init n) s \<Longrightarrow>
     queue_popped (qhistory s) @ contents (queue s) = None # List.map Some (queue_pushed (qhistory s)) \<and>
     \<not> list_ex faulty (qhistory s) \<and>
     queue_empty (queue s) = (length (queue_popped (qhistory s)) = length (queue_pushed (qhistory s)))"
proof -
  assume "reachable queue_step (queue_init n) s"
  then have inv: "queue_inv s" by (rule queue_sys.reachable_inv)
  then have "length (queue_popped (qhistory s)) + length (contents (queue s)) = Suc (length (queue_pushed (qhistory s)))"
    by (auto simp: queue_inv_def dest!: arg_cong [where f = length])
  with inv wf_empty [of "queue s"] show ?thesis by (auto simp: queue_inv_def)
qed

definition queue_example :: "nat queue_system" where
  "queue_example = \<lparr>queue = \<lparr>nodes = [\<lparr>qdata = None, next_node = Some 1\<rparr>, \<lparr>qdata = Some 7, next_node = None\<rparr>],
       head_node = 1, tail_node = 1\<rparr>, head_mtx = None, tail_mtx = None, qpcs = [QIdle, QIdle],
     qhistory = [(0, QPush 7, QPushed), (1, QPop Pop, QTook (PopOk None)),
       (1, QPop TryPop, QTook PopNullopt)]\<rparr>"

lemma queue_example_run:
  "run queue_step (queue_init 2)
     [QCall 0 (QPush 7), QGo 0 None, QGo 0 None, QCall 1 (QPop Pop), QGo 1 None, QGo 1 None, QGo 1 None,
      QGo 1 None, QCall 1 (QPop TryPop), QGo 1 None, QGo 1 None, QGo 1 None, QGo 1 None] = Some queue_example"
  by (simp add: queue_init_def queue_example_def new_queue_def new_node_def queue_push_def queue_notify_def
      take_head_def Let_def numeral_2_eq_2)

theorem queue_shifted_fifo_witness:
  "queue_popped (qhistory queue_example) @ contents (queue queue_example) =
     None # List.map Some (queue_pushed (qhistory queue_example)) \<and>
   \<not> list_ex faulty (qhistory queue_example) \<and>
   queue_empty (queue queue_example) =
     (length (queue_popped (qhistory queue_example)) = length (queue_pushed (qhistory queue_example)))"
  by (rule queue_shifted_fifo [OF run_reachable [OF queue_example_run]])

definition push_turn :: "nat \<Rightarrow> nat queue_action list" where
  "push_turn v = [QCall 0 (QPush v), QGo 0 None, QGo 0 None]"

definition sleep_schedule :: "nat queue_action list" where
  "sleep_schedule = [QCall 1 (QPop WaitAndPop), QGo 1 None, QGo 1 None, QGo 1 None] @
     concat (List.map push_turn [1..<31]) @ [QGo 1 None]"

lemma sleep_schedule_runs:
  "case run queue_main_step queue_main sleep_schedule of
     None \<Rightarrow> False
   | Some s \<Rightarrow> qpcs s = [QIdle, Asleep] \<and> queue_next 0 s = None \<and>
       queue_pushed (qhistory s) = [1..<31] \<and> queue_popped (qhistory s) = []"
  by code_simp

text \<open>a wake-up can be lost. \<open>push\<close> notifies under \<open>tail_mtx_\<close>, but \<open>wait_and_pop\<close> tests
  its predicate under \<open>head_mtx_\<close>, so all 30 pushes can fall between the test and the sleep.
  Then nothing but a spurious wake-up is possible: the popping thread sleeps while 30 values
  are in the queue.\<close>

theorem queue_lost_wakeup:
  "\<exists>s. reachable queue_main_step queue_main s \<and> queue_pushed (qhistory s) = [1..<31] \<and>
       queue_popped (qhistory s) = [] \<and> {a. queue_main_step s a \<noteq> None} = {QSpurious 1}"
proof -
  from sleep_schedule_runs obtain s where s: "run queue_main_step queue_main sleep_schedule = Some s"
    "qpcs s = [QIdle, Asleep]" "queue_next 0 s = None" "queue_pushed (qhistory s) = [1..<31]"
    "queue_popped (qhistory s) = []"
    by (auto split: option.splits simp del: upt_Suc)
  have "queue_main_step s a \<noteq> None \<longleftrightarrow> a = QSpurious 1" for a
    using s(2,3) by (cases a) (auto simp: less_Suc_eq split: if_splits)
  with s run_reachable [OF s(1)] show ?thesis by (intro exI [of _ s]) simp
qed

end
