(* ===== verification/LockFreeStack.thy ===== *)
theory LockFreeStack
  imports Prelude
begin

text \<open>
  \<open>lock_free_stack<int>\<close> of \<open>multithread/lock_free_stack.h\<close>: a Treiber stack with a list of
  nodes whose deletion is delayed. Every atomic access is one step (the atomics are
  sequentially consistent); so is every dereference of a node, which faults when the node
  is not allocated. A freed address may be allocated again, and \<open>compare_exchange_weak\<close> may
  fail spuriously: both are choices of the action.
\<close>

section \<open>Nodes and threads\<close>

record lf_node =
  ldata :: int
  lnext :: "nat option"

datatype lf_call = LPush int | LPop

datatype lf_result = LDone | LNullopt | LSome int

text \<open>The program points of \<open>push\<close>, \<open>pop\<close> and the helpers \<open>pop\<close> calls.\<close>

datatype lf_pc =
    LIdle
  | PushAlloc int                        \<comment> \<open>\<open>new Node()\<close>\<close>
  | PushLoad int nat                     \<comment> \<open>\<open>new_node->next_node = head_node_.load()\<close>\<close>
  | PushCas int nat
  | PopInc                               \<comment> \<open>\<open>++threads_which_poping_\<close>\<close>
  | PopLoad                              \<comment> \<open>\<open>old_head = head_node_.load()\<close>\<close>
  | PopNull                              \<comment> \<open>\<open>--threads_which_poping_\<close>, empty stack\<close>
  | PopNext nat                          \<comment> \<open>\<open>old_head->next_node\<close>\<close>
  | PopCas nat "nat option"
  | PopData nat                          \<comment> \<open>\<open>old_head->data\<close>\<close>
  | RecycleTest nat int                  \<comment> \<open>\<open>threads_which_poping_.load() == 1\<close>\<close>
  | RecycleDelete nat int
  | RecycleDelay nat int                 \<comment> \<open>\<open>delay_delete_node_list_.load()\<close>\<close>
  | RecycleDec nat "nat option" int      \<comment> \<open>\<open>--threads_which_poping_ == 0\<close>\<close>
  | DeleteDelayed "nat option" int       \<comment> \<open>\<open>delete_delay_nodes\<close>\<close>
  | AppendLoad nat bool int              \<comment> \<open>\<open>append_to_delay_node_list\<close>\<close>
  | AppendNext "nat option" bool int
  | AppendStore "nat option" bool int
  | RecycleEnd int                       \<comment> \<open>the last \<open>--threads_which_poping_\<close>\<close>
  | LFault                               \<comment> \<open>undefined behaviour: null or freed node\<close>

record lf_state =
  heap :: "nat \<Rightarrow> lf_node option"
  head_node :: "nat option"
  delay_list :: "nat option"
  popping :: int
  lpcs :: "lf_pc list"
  lhistory :: "(nat \<times> lf_call \<times> lf_result) list"

datatype lf_action = LCall nat lf_call | LGo nat nat bool

definition lf_init :: "nat \<Rightarrow> lf_state" where
  "lf_init n = \<lparr>heap = (\<lambda>_. None), head_node = None, delay_list = None, popping = 0,
     lpcs = replicate n LIdle, lhistory = []\<rparr>"

definition new_lf_node :: lf_node where
  "new_lf_node = \<lparr>ldata = 0, lnext = None\<rparr>"

definition goto :: "nat \<Rightarrow> lf_pc \<Rightarrow> lf_state \<Rightarrow> lf_state" where
  "goto t p s = s\<lparr>lpcs := (lpcs s)[t := p]\<rparr>"

definition lf_return :: "nat \<Rightarrow> lf_call \<Rightarrow> lf_result \<Rightarrow> lf_state \<Rightarrow> lf_state" where
  "lf_return t c r s = s\<lparr>lpcs := (lpcs s)[t := LIdle], lhistory := lhistory s @ [(t, c, r)]\<rparr>"

text \<open>\<open>LGo t a ok\<close>: thread \<open>t\<close> goes on; \<open>a\<close> is the address \<open>new\<close> returns, \<open>ok\<close> is false when
  the weak exchange fails spuriously. The node of a push never receives the value.\<close>

fun lf_go :: "nat \<Rightarrow> nat \<Rightarrow> bool \<Rightarrow> lf_pc \<Rightarrow> lf_state \<Rightarrow> lf_state option" where
  "lf_go t a ok LIdle s = None"
| "lf_go t a ok (PushAlloc v) s =
     (if heap s a = None then Some (goto t (PushLoad v a) (s\<lparr>heap := (heap s)(a \<mapsto> new_lf_node)\<rparr>)) else None)"
| "lf_go t a ok (PushLoad v b) s = (case heap s b of
       None \<Rightarrow> Some (goto t LFault s)
     | Some nd \<Rightarrow> Some (goto t (PushCas v b) (s\<lparr>heap := (heap s)(b \<mapsto> nd\<lparr>lnext := head_node s\<rparr>)\<rparr>)))"
| "lf_go t a ok (PushCas v b) s = (case heap s b of
       None \<Rightarrow> Some (goto t LFault s)
     | Some nd \<Rightarrow>
         if ok \<and> head_node s = lnext nd then Some (lf_return t (LPush v) LDone (s\<lparr>head_node := Some b\<rparr>))
         else Some (goto t (PushLoad v b) (s\<lparr>heap := (heap s)(b \<mapsto> nd\<lparr>lnext := head_node s\<rparr>)\<rparr>)))"
| "lf_go t a ok PopInc s = Some (goto t PopLoad (s\<lparr>popping := popping s + 1\<rparr>))"
| "lf_go t a ok PopLoad s = Some (goto t (case head_node s of None \<Rightarrow> PopNull | Some b \<Rightarrow> PopNext b) s)"
| "lf_go t a ok PopNull s = Some (lf_return t LPop LNullopt (s\<lparr>popping := popping s - 1\<rparr>))"
| "lf_go t a ok (PopNext b) s = Some (goto t (case heap s b of
       None \<Rightarrow> LFault
     | Some nd \<Rightarrow> PopCas b (lnext nd)) s)"
| "lf_go t a ok (PopCas b n) s =
     (if ok \<and> head_node s = Some b then Some (goto t (PopData b) (s\<lparr>head_node := n\<rparr>))
      else Some (goto t PopLoad s))"
| "lf_go t a ok (PopData b) s = Some (goto t (case heap s b of
       None \<Rightarrow> LFault
     | Some nd \<Rightarrow> RecycleTest b (ldata nd)) s)"
| "lf_go t a ok (RecycleTest b r) s =
     Some (goto t (if popping s = 1 then RecycleDelete b r else AppendLoad b True r) s)"
| "lf_go t a ok (RecycleDelete b r) s =
     (if heap s b = None then Some (goto t LFault s)
      else Some (goto t (RecycleDelay b r) (s\<lparr>heap := (heap s)(b := None)\<rparr>)))"
| "lf_go t a ok (RecycleDelay b r) s = Some (goto t (RecycleDec b (delay_list s) r) s)"
| "lf_go t a ok (RecycleDec b d r) s =
     Some (goto t (if popping s - 1 = 0 then DeleteDelayed d r else AppendLoad b False r)
       (s\<lparr>popping := popping s - 1\<rparr>))"
| "lf_go t a ok (DeleteDelayed d r) s = (case d of
       None \<Rightarrow> Some (lf_return t LPop (LSome r) s)
     | Some b \<Rightarrow> (case heap s b of
           None \<Rightarrow> Some (goto t LFault s)
         | Some nd \<Rightarrow> Some (goto t (DeleteDelayed (lnext nd) r) (s\<lparr>heap := (heap s)(b := None)\<rparr>))))"
| "lf_go t a ok (AppendLoad b dec r) s = Some (goto t (AppendNext (delay_list s) dec r) s)"
| "lf_go t a ok (AppendNext d dec r) s = Some (goto t (case d of
       None \<Rightarrow> LFault
     | Some b \<Rightarrow> (case heap s b of None \<Rightarrow> LFault | Some nd \<Rightarrow> AppendStore (lnext nd) dec r)) s)"
| "lf_go t a ok (AppendStore d dec r) s =
     (if dec then Some (goto t (RecycleEnd r) (s\<lparr>delay_list := d\<rparr>))
      else Some (lf_return t LPop (LSome r) (s\<lparr>delay_list := d\<rparr>)))"
| "lf_go t a ok (RecycleEnd r) s = Some (lf_return t LPop (LSome r) (s\<lparr>popping := popping s - 1\<rparr>))"
| "lf_go t a ok LFault s = None"

fun lf_entry :: "lf_call \<Rightarrow> lf_pc" where
  "lf_entry (LPush v) = PushAlloc v"
| "lf_entry LPop = PopInc"

fun lf_step :: "lf_state \<Rightarrow> lf_action \<Rightarrow> lf_state option" where
  "lf_step s (LCall t c) =
     (if t < length (lpcs s) \<and> lpcs s ! t = LIdle then Some (goto t (lf_entry c) s) else None)"
| "lf_step s (LGo t a ok) = (if t < length (lpcs s) then lf_go t a ok (lpcs s ! t) s else None)"

section \<open>Values\<close>

text \<open>No node and no program point ever holds a value other than \<open>T{}\<close>.\<close>

fun pc_value :: "lf_pc \<Rightarrow> int" where
  "pc_value (RecycleTest b r) = r"
| "pc_value (RecycleDelete b r) = r"
| "pc_value (RecycleDelay b r) = r"
| "pc_value (RecycleDec b d r) = r"
| "pc_value (DeleteDelayed d r) = r"
| "pc_value (AppendLoad b dec r) = r"
| "pc_value (AppendNext d dec r) = r"
| "pc_value (AppendStore d dec r) = r"
| "pc_value (RecycleEnd r) = r"
| "pc_value _ = 0"

definition popped_ints :: "(nat \<times> lf_call \<times> lf_result) list \<Rightarrow> int set" where
  "popped_ints h = {v. \<exists>t c. (t, c, LSome v) \<in> set h}"

lemma popped_ints_append:
  "popped_ints (h @ [(t, c, r)]) = popped_ints h \<union> (case r of LSome v \<Rightarrow> {v} | _ \<Rightarrow> {})"
  by (auto simp: popped_ints_def split: lf_result.splits)

definition lf_default_inv :: "lf_state \<Rightarrow> bool" where
  "lf_default_inv s \<longleftrightarrow> (\<forall>a nd. heap s a = Some nd \<longrightarrow> ldata nd = 0) \<and>
     (\<forall>p \<in> set (lpcs s). pc_value p = 0) \<and> popped_ints (lhistory s) \<subseteq> {0}"

lemma lf_default_goto:
  "lf_default_inv s \<Longrightarrow> pc_value p = 0 \<Longrightarrow> lf_default_inv (goto t p s)"
  unfolding lf_default_inv_def goto_def by (auto dest: set_update_subset_insert [THEN subsetD])

lemma lf_default_return:
  "lf_default_inv s \<Longrightarrow> (case r of LSome v \<Rightarrow> v = 0 | _ \<Rightarrow> True) \<Longrightarrow> lf_default_inv (lf_return t c r s)"
  unfolding lf_default_inv_def lf_return_def
  by (cases r) (auto simp: popped_ints_append dest: set_update_subset_insert [THEN subsetD])

lemma lf_default_heap:
  "lf_default_inv s \<Longrightarrow> (case n of None \<Rightarrow> True | Some nd \<Rightarrow> ldata nd = 0) \<Longrightarrow>
     lf_default_inv (s\<lparr>heap := (heap s)(a := n)\<rparr>)"
  by (auto simp: lf_default_inv_def split: option.splits)

lemma lf_default_other [simp]:
  "lf_default_inv (s\<lparr>head_node := x\<rparr>) = lf_default_inv s"
  "lf_default_inv (s\<lparr>delay_list := x\<rparr>) = lf_default_inv s"
  "lf_default_inv (s\<lparr>popping := i\<rparr>) = lf_default_inv s"
  by (simp_all add: lf_default_inv_def)

lemma lf_default_data: "lf_default_inv s \<Longrightarrow> heap s a = Some nd \<Longrightarrow> ldata nd = 0"
  by (simp add: lf_default_inv_def)

lemma lf_go_default:
  assumes "lf_default_inv s" "pc_value p = 0" "lf_go t a ok p s = Some s'"
  shows "lf_default_inv s'"
  using assms
  by (cases p)
    (auto intro!: lf_default_goto lf_default_return lf_default_heap simp: new_lf_node_def
      dest: lf_default_data split: if_splits option.splits)

lemma lf_step_default: "lf_default_inv s \<Longrightarrow> lf_step s a = Some s' \<Longrightarrow> lf_default_inv s'"
proof (cases a)
  case (LCall t c)
  assume "lf_default_inv s" "lf_step s a = Some s'"
  with LCall show ?thesis by (cases c) (auto intro!: lf_default_goto split: if_splits)
next
  case (LGo t b ok)
  assume inv: "lf_default_inv s" and st: "lf_step s a = Some s'"
  from st LGo have t: "t < length (lpcs s)" "lf_go t b ok (lpcs s ! t) s = Some s'" by (auto split: if_splits)
  moreover have "pc_value (lpcs s ! t) = 0" using inv t(1) by (simp add: lf_default_inv_def)
  ultimately show ?thesis using lf_go_default [OF inv] by blast
qed

interpretation lf_values: invariant_system lf_step "lf_init n" lf_default_inv for n
proof unfold_locales
  show "lf_default_inv (lf_init n)" by (auto simp: lf_default_inv_def lf_init_def popped_ints_def)
qed (rule lf_step_default)

section \<open>One popping thread\<close>

text \<open>The stack as the list of its addresses.\<close>

fun is_stack :: "(nat \<Rightarrow> lf_node option) \<Rightarrow> nat option \<Rightarrow> nat list \<Rightarrow> bool" where
  "is_stack h p [] = (p = None)"
| "is_stack h p (a # as) = (p = Some a \<and> h a \<noteq> None \<and> is_stack h (lnext (the (h a))) as)"

lemma is_stack_cong: "(\<And>a. a \<in> set as \<Longrightarrow> h a = h' a) \<Longrightarrow> is_stack h p as = is_stack h' p as"
  by (induction as arbitrary: p) auto

lemma is_stack_update: "a \<notin> set as \<Longrightarrow> is_stack (h(a := n)) p as = is_stack h p as"
  by (rule is_stack_cong) auto

lemma is_stack_allocated: "is_stack h p as \<Longrightarrow> a \<in> set as \<Longrightarrow> h a \<noteq> None"
  by (induction as arbitrary: p) auto

fun owns :: "lf_pc \<Rightarrow> nat option" where
  "owns (PushLoad v a) = Some a"
| "owns (PushCas v a) = Some a"
| "owns (PopData a) = Some a"
| "owns (RecycleTest a r) = Some a"
| "owns (RecycleDelete a r) = Some a"
| "owns _ = None"

fun pusher_pc :: "lf_pc \<Rightarrow> bool" where
  "pusher_pc LIdle = True"
| "pusher_pc (PushAlloc v) = True"
| "pusher_pc (PushLoad v a) = True"
| "pusher_pc (PushCas v a) = True"
| "pusher_pc _ = False"

fun popper_ok :: "(nat \<Rightarrow> lf_node option) \<Rightarrow> nat list \<Rightarrow> int \<Rightarrow> lf_pc \<Rightarrow> bool" where
  "popper_ok h as k PopInc = (k = 0)"
| "popper_ok h as k PopLoad = (k = 1)"
| "popper_ok h as k PopNull = (k = 1)"
| "popper_ok h as k (PopNext a) = (k = 1 \<and> a \<in> set as)"
| "popper_ok h as k (PopCas a n) = (k = 1 \<and> a \<in> set as \<and> lnext (the (h a)) = n)"
| "popper_ok h as k (PopData a) = (k = 1)"
| "popper_ok h as k (RecycleTest a r) = (k = 1)"
| "popper_ok h as k (RecycleDelete a r) = (k = 1)"
| "popper_ok h as k (RecycleDelay a r) = (k = 1)"
| "popper_ok h as k (RecycleDec a d r) = (k = 1 \<and> d = None)"
| "popper_ok h as k (DeleteDelayed d r) = (k = 0 \<and> d = None)"
| "popper_ok h as k p = (k = 0 \<and> pusher_pc p)"

fun in_flight :: "lf_pc \<Rightarrow> nat" where
  "in_flight (PopData a) = 1"
| "in_flight (RecycleTest a r) = 1"
| "in_flight (RecycleDelete a r) = 1"
| "in_flight (RecycleDelay a r) = 1"
| "in_flight (RecycleDec a d r) = 1"
| "in_flight (DeleteDelayed d r) = 1"
| "in_flight _ = 0"

fun is_push :: "nat \<times> lf_call \<times> lf_result \<Rightarrow> bool" where
  "is_push (t, LPush v, r) = True"
| "is_push _ = False"

fun is_popped :: "nat \<times> lf_call \<times> lf_result \<Rightarrow> bool" where
  "is_popped (t, c, LSome v) = True"
| "is_popped _ = False"

definition pushes :: "lf_state \<Rightarrow> nat" where
  "pushes s = length (filter is_push (lhistory s))"

definition pops :: "lf_state \<Rightarrow> nat" where
  "pops s = length (filter is_popped (lhistory s))"

text \<open>The invariant when only thread 0 pops, with the addresses \<open>as\<close> on the stack.\<close>

definition lf_inv_at :: "lf_state \<Rightarrow> nat list \<Rightarrow> bool" where
  "lf_inv_at s as \<longleftrightarrow> is_stack (heap s) (head_node s) as \<and> distinct as \<and> delay_list s = None \<and>
     0 < length (lpcs s) \<and> popper_ok (heap s) as (popping s) (lpcs s ! 0) \<and>
     (\<forall>t < length (lpcs s). (t = 0 \<or> pusher_pc (lpcs s ! t)) \<and>
        (\<forall>a. owns (lpcs s ! t) = Some a \<longrightarrow> heap s a \<noteq> None \<and> a \<notin> set as \<and>
           (\<forall>t' < length (lpcs s). owns (lpcs s ! t') = Some a \<longrightarrow> t' = t))) \<and>
     pushes s = pops s + in_flight (lpcs s ! 0) + length as"

definition one_popper_step :: "lf_state \<Rightarrow> lf_action \<Rightarrow> lf_state option" where
  "one_popper_step s a = (case a of
       LCall t LPop \<Rightarrow> if t = 0 then lf_step s a else None
     | _ \<Rightarrow> lf_step s a)"

text \<open>A move of thread \<open>t\<close> keeps the invariant if the new stack is well formed, the nodes of
  the other threads are untouched, and the popping thread stands where it may.\<close>

definition others_keep :: "lf_state \<Rightarrow> nat \<Rightarrow> (nat \<Rightarrow> lf_node option) \<Rightarrow> nat list \<Rightarrow> bool" where
  "others_keep s t h as \<longleftrightarrow> (\<forall>t' < length (lpcs s). \<forall>a. t' \<noteq> t \<longrightarrow> owns (lpcs s ! t') = Some a \<longrightarrow>
     h a \<noteq> None \<and> a \<notin> set as)"

definition takes_node :: "lf_state \<Rightarrow> nat \<Rightarrow> (nat \<Rightarrow> lf_node option) \<Rightarrow> nat list \<Rightarrow> lf_pc \<Rightarrow> bool" where
  "takes_node s t h as p \<longleftrightarrow> (\<forall>a. owns p = Some a \<longrightarrow> h a \<noteq> None \<and> a \<notin> set as \<and>
     (\<forall>t' < length (lpcs s). t' \<noteq> t \<longrightarrow> owns (lpcs s ! t') \<noteq> Some a))"

lemma lf_inv_move:
  assumes inv: "lf_inv_at s as" and t: "t < length (lpcs s)"
    and st: "is_stack (heap s') (head_node s') as'" "distinct as'" "delay_list s' = None"
    and pcs: "lpcs s' = (lpcs s)[t := p]" "t = 0 \<or> pusher_pc p"
    and ok: "popper_ok (heap s') as' (popping s') (lpcs s' ! 0)"
    and others: "others_keep s t (heap s') as'"
    and own: "takes_node s t (heap s') as' p"
    and cnt: "pushes s' = pops s' + in_flight (lpcs s' ! 0) + length as'"
  shows "lf_inv_at s' as'"
proof -
  have "t' = 0 \<or> pusher_pc (lpcs s' ! t')" if "t' < length (lpcs s)" for t'
    using inv pcs t that by (cases "t' = t") (auto simp: lf_inv_at_def)
  moreover have "heap s' a \<noteq> None \<and> a \<notin> set as'"
    if "t' < length (lpcs s)" "owns (lpcs s' ! t') = Some a" for t' a
    using that others own pcs t unfolding others_keep_def takes_node_def
    by (cases "t' = t") auto
  moreover have "t2 = t1"
    if o: "t1 < length (lpcs s)" "t2 < length (lpcs s)" "owns (lpcs s' ! t1) = Some a" "owns (lpcs s' ! t2) = Some a" for t1 t2 a
  proof -
    have u: "t1 \<noteq> t \<Longrightarrow> t2 \<noteq> t \<Longrightarrow> ?thesis"
    proof -
      assume "t1 \<noteq> t" "t2 \<noteq> t"
      with o pcs have "owns (lpcs s ! t1) = Some a" "owns (lpcs s ! t2) = Some a" by simp_all
      with inv o show ?thesis unfolding lf_inv_at_def by blast
    qed
    have v: "False" if "t3 \<noteq> t" "t3 < length (lpcs s)" "owns (lpcs s' ! t3) = Some a" "owns (lpcs s' ! t) = Some a" for t3
      using that own pcs t by (simp add: takes_node_def)
    show ?thesis using u v o by metis
  qed
  moreover have "0 < length (lpcs s)" using inv by (simp add: lf_inv_at_def)
  ultimately show ?thesis
    using st ok cnt pcs unfolding lf_inv_at_def by simp
qed

lemma others_keep_same: "lf_inv_at s as \<Longrightarrow> others_keep s t (heap s) as"
  by (auto simp: lf_inv_at_def others_keep_def)

lemma takes_none: "owns p = None \<Longrightarrow> takes_node s t h as p"
  by (simp add: takes_node_def)

lemma takes_same:
  "lf_inv_at s as \<Longrightarrow> t < length (lpcs s) \<Longrightarrow> owns p = owns (lpcs s ! t) \<Longrightarrow> takes_node s t (heap s) as p"
  by (auto simp: lf_inv_at_def takes_node_def)

lemma counts_goto [simp]: "pushes (goto t p s) = pushes s" "pops (goto t p s) = pops s"
  by (simp_all add: pushes_def pops_def goto_def)

lemma counts_other [simp]:
  "pushes (s\<lparr>heap := h\<rparr>) = pushes s" "pops (s\<lparr>heap := h\<rparr>) = pops s"
  "pushes (s\<lparr>head_node := x\<rparr>) = pushes s" "pops (s\<lparr>head_node := x\<rparr>) = pops s"
  "pushes (s\<lparr>popping := i\<rparr>) = pushes s" "pops (s\<lparr>popping := i\<rparr>) = pops s"
  by (simp_all add: pushes_def pops_def)

lemma goto_simps [simp]:
  "heap (goto t p s) = heap s" "head_node (goto t p s) = head_node s" "delay_list (goto t p s) = delay_list s"
  "popping (goto t p s) = popping s" "lpcs (goto t p s) = (lpcs s)[t := p]"
  by (simp_all add: goto_def)

lemma return_simps [simp]:
  "heap (lf_return t c r s) = heap s" "head_node (lf_return t c r s) = head_node s"
  "delay_list (lf_return t c r s) = delay_list s" "popping (lf_return t c r s) = popping s"
  "lpcs (lf_return t c r s) = (lpcs s)[t := LIdle]"
  "pushes (lf_return t c r s) = pushes s + (if is_push (t, c, r) then 1 else 0)"
  "pops (lf_return t c r s) = pops s + (if is_popped (t, c, r) then 1 else 0)"
  by (simp_all add: lf_return_def pushes_def pops_def)

text \<open>Moves that only change the program counter and the counter of popping threads.\<close>

lemma lf_inv_goto:
  assumes inv: "lf_inv_at s as" and t: "t < length (lpcs s)"
    and same: "heap s' = heap s" "head_node s' = head_node s" "delay_list s' = delay_list s"
      "lpcs s' = (lpcs s)[t := p]"
    and p: "owns p = owns (lpcs s ! t) \<or> owns p = None" "t = 0 \<or> pusher_pc p"
    and ok: "popper_ok (heap s) as (popping s') (lpcs s' ! 0)"
    and cnt: "pushes s' = pops s' + in_flight (lpcs s' ! 0) + length as"
  shows "lf_inv_at s' as"
proof (rule lf_inv_move [OF inv t _ _ _ same(4) p(2)])
  show "is_stack (heap s') (head_node s') as" "distinct as" "delay_list s' = None"
    using inv same by (simp_all add: lf_inv_at_def)
  show "popper_ok (heap s') as (popping s') (lpcs s' ! 0)" using ok same by simp
  show "others_keep s t (heap s') as" using others_keep_same [OF inv] same by simp
  show "takes_node s t (heap s') as p" using takes_same [OF inv t] takes_none p(1) same by metis
qed (rule cnt)

lemma popper_ok_update [simp]: "a \<notin> set as \<Longrightarrow> popper_ok (h(a := n)) as k p = popper_ok h as k p"
  by (cases p) auto

lemma popper_ok_push: "popper_ok h as k p \<Longrightarrow> popper_ok h (b # as) k p"
  by (cases p) auto

lemma inv_facts:
  assumes "lf_inv_at s as"
  shows "is_stack (heap s) (head_node s) as" "distinct as" "delay_list s = None"
    "popper_ok (heap s) as (popping s) (lpcs s ! 0)" "0 < length (lpcs s)"
    "pushes s = pops s + in_flight (lpcs s ! 0) + length as"
  using assms by (simp_all add: lf_inv_at_def)

lemma inv_thread:
  assumes "lf_inv_at s as" "t < length (lpcs s)"
  shows "t = 0 \<or> pusher_pc (lpcs s ! t)"
    "owns (lpcs s ! t) = Some a \<Longrightarrow> heap s a \<noteq> None" "owns (lpcs s ! t) = Some a \<Longrightarrow> a \<notin> set as"
    "owns (lpcs s ! t) = Some a \<Longrightarrow> t' < length (lpcs s) \<Longrightarrow> t' \<noteq> t \<Longrightarrow> owns (lpcs s ! t') \<noteq> Some a"
  using assms by (auto simp: lf_inv_at_def)

text \<open>Changing a node that only thread \<open>t\<close> may touch.\<close>

lemma lf_inv_touch:
  assumes inv: "lf_inv_at s as" and t: "t < length (lpcs s)"
    and b: "b \<notin> set as" "\<And>t'. t' < length (lpcs s) \<Longrightarrow> t' \<noteq> t \<Longrightarrow> owns (lpcs s ! t') \<noteq> Some b"
    and same: "heap s' = (heap s)(b := x)" "head_node s' = head_node s" "delay_list s' = delay_list s"
      "lpcs s' = (lpcs s)[t := p]"
    and p: "owns p = Some b \<and> x \<noteq> None \<or> owns p = None" "t = 0 \<or> pusher_pc p"
    and ok: "popper_ok (heap s) as (popping s') (lpcs s' ! 0)"
    and cnt: "pushes s' = pops s' + in_flight (lpcs s' ! 0) + length as"
  shows "lf_inv_at s' as"
proof (rule lf_inv_move [OF inv t _ _ _ same(4) p(2)])
  show "is_stack (heap s') (head_node s') as" "distinct as" "delay_list s' = None"
    using inv_facts [OF inv] same b(1) by (simp_all add: is_stack_update)
  show "popper_ok (heap s') as (popping s') (lpcs s' ! 0)" using ok same b(1) by simp
  show "others_keep s t (heap s') as"
    using others_keep_same [OF inv, of t] same(1) b(2) by (auto simp: others_keep_def)
  show "takes_node s t (heap s') as p"
    using p(1) b same(1) by (auto simp: takes_node_def)
qed (rule cnt)

lemma pusher_pc_zero: "popper_ok h as k p \<Longrightarrow> pusher_pc p \<Longrightarrow> k = 0"
  by (cases p) auto

lemma push_alloc_inv:
  assumes inv: "lf_inv_at s as" and t: "t < length (lpcs s)" "lpcs s ! t = PushAlloc v" and a: "heap s a = None"
  shows "lf_inv_at (goto t (PushLoad v a) (s\<lparr>heap := (heap s)(a \<mapsto> new_lf_node)\<rparr>)) as"
proof (rule lf_inv_touch [OF inv t(1), of a])
  show "a \<notin> set as" using is_stack_allocated [OF inv_facts(1) [OF inv], of a] a by blast
  show "owns (lpcs s ! t') \<noteq> Some a" if "t' < length (lpcs s)" "t' \<noteq> t" for t'
    using inv_thread(2) [OF inv that(1)] a by auto
qed (use inv_facts [OF inv] t in \<open>auto simp: nth_list_update pusher_pc_zero\<close>)

lemma push_load_inv:
  assumes inv: "lf_inv_at s as" and t: "t < length (lpcs s)" "lpcs s ! t = PushLoad v b \<or> lpcs s ! t = PushCas v b"
    and p: "p = PushLoad v b \<or> p = PushCas v b"
  shows "lf_inv_at (goto t p (s\<lparr>heap := (heap s)(b \<mapsto> nd)\<rparr>)) as"
proof -
  have o: "owns (lpcs s ! t) = Some b" "owns p = Some b" using t(2) p by auto
  show ?thesis
  proof (rule lf_inv_touch [OF inv t(1), of b])
    show "b \<notin> set as" by (rule inv_thread(3) [OF inv t(1) o(1)])
    show "owns (lpcs s ! t') \<noteq> Some b" if "t' < length (lpcs s)" "t' \<noteq> t" for t'
      by (rule inv_thread(4) [OF inv t(1) o(1) that])
    show "t = 0 \<or> pusher_pc p" using p by auto
  qed (use inv_facts [OF inv] t p o in \<open>auto simp: nth_list_update pusher_pc_zero\<close>)
qed

lemma push_cas_inv:
  assumes inv: "lf_inv_at s as" and t: "t < length (lpcs s)" "lpcs s ! t = PushCas v b"
    and nd: "heap s b = Some nd" "head_node s = lnext nd"
  shows "lf_inv_at (lf_return t (LPush v) LDone (s\<lparr>head_node := Some b\<rparr>)) (b # as)"
proof -
  have o: "owns (lpcs s ! t) = Some b" using t(2) by simp
  note b = inv_thread(3) [OF inv t(1) o]
  show ?thesis
  proof (rule lf_inv_move [OF inv t(1), where p = LIdle])
    show "others_keep s t (heap (lf_return t (LPush v) LDone (s\<lparr>head_node := Some b\<rparr>))) (b # as)"
      using others_keep_same [OF inv, of t] inv_thread(4) [OF inv t(1) o] by (auto simp: others_keep_def)
  qed (use inv_facts [OF inv] t b nd in \<open>auto simp: nth_list_update takes_none pusher_pc_zero popper_ok_push\<close>)
qed

lemma pop_cas_inv:
  assumes inv: "lf_inv_at s as" and t: "t < length (lpcs s)" "lpcs s ! t = PopCas b n" and h: "head_node s = Some b"
  shows "lf_inv_at (goto t (PopData b) (s\<lparr>head_node := n\<rparr>)) (tl as)"
proof -
  have t0: "t = 0" using inv_thread(1) [OF inv t(1)] t(2) by simp
  with t inv_facts(4) [OF inv] have p: "popping s = 1" "b \<in> set as" "lnext (the (heap s b)) = n" by simp_all
  with inv_facts(1) [OF inv] h obtain as1 where as: "as = b # as1" by (cases as) auto
  show ?thesis
  proof (rule lf_inv_move [OF inv t(1), where p = "PopData b"])
    show "others_keep s t (heap (goto t (PopData b) (s\<lparr>head_node := n\<rparr>))) (tl as)"
      using others_keep_same [OF inv, of t] as by (auto simp: others_keep_def)
    show "takes_node s t (heap (goto t (PopData b) (s\<lparr>head_node := n\<rparr>))) (tl as) (PopData b)"
      using inv_facts(1,2) [OF inv] as inv_thread(3) [OF inv, of _ b] by (auto simp: takes_node_def)
  qed (use inv_facts [OF inv] t t0 p as in \<open>auto simp: nth_list_update\<close>)
qed

lemma delete_inv:
  assumes inv: "lf_inv_at s as" and t: "t < length (lpcs s)" "lpcs s ! t = RecycleDelete b r"
  shows "lf_inv_at (goto t (RecycleDelay b r) (s\<lparr>heap := (heap s)(b := None)\<rparr>)) as"
proof -
  have o: "owns (lpcs s ! t) = Some b" using t(2) by simp
  have t0: "t = 0" using inv_thread(1) [OF inv t(1)] t(2) by simp
  show ?thesis
  proof (rule lf_inv_touch [OF inv t(1), of b])
    show "b \<notin> set as" by (rule inv_thread(3) [OF inv t(1) o])
    show "owns (lpcs s ! t') \<noteq> Some b" if "t' < length (lpcs s)" "t' \<noteq> t" for t'
      by (rule inv_thread(4) [OF inv t(1) o that])
  qed (use inv_facts [OF inv] t t0 in auto)
qed

lemma lf_go_inv:
  assumes inv: "lf_inv_at s as" and t: "t < length (lpcs s)" and go: "lf_go t a ok (lpcs s ! t) s = Some s'"
  shows "\<exists>as'. lf_inv_at s' as'"
proof (cases "pusher_pc (lpcs s ! t)")
  case True
  then show ?thesis
  proof (cases "lpcs s ! t")
    case (PushAlloc v)
    with go push_alloc_inv [OF inv t PushAlloc] show ?thesis by (auto split: if_splits)
  next
    case (PushLoad v b)
    obtain nd where nd: "heap s b = Some nd" using inv_thread(2) [OF inv t, of b] PushLoad by auto
    with go PushLoad push_load_inv [OF inv t, of v b "PushCas v b"] show ?thesis by auto
  next
    case (PushCas v b)
    obtain nd where nd: "heap s b = Some nd" using inv_thread(2) [OF inv t, of b] PushCas by auto
    show ?thesis
    proof (cases "ok \<and> head_node s = lnext nd")
      case True
      with nd go PushCas push_cas_inv [OF inv t PushCas nd] show ?thesis by auto
    next
      case False
      with nd go PushCas push_load_inv [OF inv t, of v b "PushLoad v b"] show ?thesis by auto
    qed
  qed (use go in auto)
next
  case False
  with inv_thread(1) [OF inv t] have t0: "t = 0" by simp
  note pok = inv_facts(4) [OF inv]
  have al: "heap s b \<noteq> None" if "b \<in> set as" for b
    using is_stack_allocated [OF inv_facts(1) [OF inv] that] .
  show ?thesis
  proof (cases "lpcs s ! t")
    case (PopCas b n)
    show ?thesis
    proof (cases "ok \<and> head_node s = Some b")
      case True
      with go PopCas pop_cas_inv [OF inv t PopCas] show ?thesis by auto
    next
      case False
      with go PopCas pok t t0 inv_facts [OF inv] show ?thesis
        by (intro exI [of _ as] lf_inv_goto [OF inv t, of _ PopLoad]) auto
    qed
  next
    case (RecycleDelete b r)
    with inv_thread(2) [OF inv t, of b] go delete_inv [OF inv t RecycleDelete] show ?thesis by auto
  next
    case PopLoad
    show ?thesis
    proof (cases "head_node s")
      case None
      with go PopLoad pok t t0 inv_facts [OF inv] show ?thesis
        by (intro exI [of _ as] lf_inv_goto [OF inv t, of _ PopNull]) auto
    next
      case (Some b)
      with inv_facts(1) [OF inv] have "b \<in> set as" by (cases as) auto
      with Some go PopLoad pok t t0 inv_facts [OF inv] show ?thesis
        by (intro exI [of _ as] lf_inv_goto [OF inv t, of _ "PopNext b"]) auto
    qed
  next
    case (PopNext b)
    with pok t0 al obtain nd where nd: "heap s b = Some nd" "b \<in> set as" by fastforce
    with go PopNext pok t t0 inv_facts [OF inv] show ?thesis
      by (intro exI [of _ as] lf_inv_goto [OF inv t, of _ "PopCas b (lnext nd)"]) auto
  next
    case (PopData b)
    then obtain nd where nd: "heap s b = Some nd" using inv_thread(2) [OF inv t, of b] by auto
    with go PopData pok t t0 inv_facts [OF inv] show ?thesis
      by (intro exI [of _ as] lf_inv_goto [OF inv t, of _ "RecycleTest b (ldata nd)"]) auto
  next
    case PopInc
    with go pok t t0 inv_facts [OF inv] show ?thesis
      by (intro exI [of _ as] lf_inv_goto [OF inv t, of _ PopLoad]) auto
  next
    case PopNull
    with go pok t t0 inv_facts [OF inv] show ?thesis
      by (intro exI [of _ as] lf_inv_goto [OF inv t, of _ LIdle]) auto
  next
    case (RecycleTest b r)
    with go pok t t0 inv_facts [OF inv] show ?thesis
      by (intro exI [of _ as] lf_inv_goto [OF inv t, of _ "RecycleDelete b r"]) auto
  next
    case (RecycleDelay b r)
    with go pok t t0 inv_facts [OF inv] show ?thesis
      by (intro exI [of _ as] lf_inv_goto [OF inv t, of _ "RecycleDec b None r"]) auto
  next
    case (RecycleDec b d r)
    with go pok t t0 inv_facts [OF inv] show ?thesis
      by (intro exI [of _ as] lf_inv_goto [OF inv t, of _ "DeleteDelayed None r"]) auto
  next
    case (DeleteDelayed d r)
    with go pok t t0 inv_facts [OF inv] show ?thesis
      by (intro exI [of _ as] lf_inv_goto [OF inv t, of _ LIdle]) auto
  qed (use pok t0 False in simp_all)
qed

lemma one_popper_inv:
  assumes inv: "lf_inv_at s as" and st: "one_popper_step s a = Some s'"
  shows "\<exists>as'. lf_inv_at s' as'"
proof (cases a)
  case (LCall t c)
  with st have t: "t < length (lpcs s)" "lpcs s ! t = LIdle" "s' = goto t (lf_entry c) s"
    and c: "t = 0 \<or> pusher_pc (lf_entry c)"
    by (auto simp: one_popper_step_def split: if_splits lf_call.splits)
  have k: "lpcs s ! 0 = LIdle \<Longrightarrow> popping s = 0" using inv_facts(4) [OF inv] by simp
  have "popper_ok (heap s) as (popping s) (lpcs s' ! 0)"
  proof (cases "t = 0")
    case True
    with t k inv_facts(5) [OF inv] show ?thesis by (cases c) auto
  qed (use t inv_facts(4) [OF inv] in simp)
  moreover have "in_flight (lpcs s' ! 0) = in_flight (lpcs s ! 0)"
    using t by (cases "t = 0"; cases c) auto
  moreover have "owns (lf_entry c) = None" by (cases c) auto
  ultimately show ?thesis
    using t c inv_facts [OF inv] by (intro exI [of _ as] lf_inv_goto [OF inv t(1), of _ "lf_entry c"]) auto
next
  case (LGo t b ok)
  with st have "t < length (lpcs s)" "lf_go t b ok (lpcs s ! t) s = Some s'"
    by (auto simp: one_popper_step_def split: if_splits)
  with lf_go_inv [OF inv] show ?thesis by blast
qed

definition lf_inv :: "lf_state \<Rightarrow> bool" where
  "lf_inv s \<longleftrightarrow> (\<exists>as. lf_inv_at s as)"

lemma lf_init_inv: "lf_inv (lf_init (Suc n))"
  unfolding lf_inv_def
  by (rule exI [of _ "[]"]) (auto simp: lf_inv_at_def lf_init_def pushes_def pops_def nth_Cons split: nat.splits)

interpretation lf_one: invariant_system one_popper_step "lf_init (Suc n)" lf_inv for n
  by unfold_locales (rule lf_init_inv, auto simp: lf_inv_def dest: one_popper_inv)

section \<open>\<open>TestLockFreeStack\<close>\<close>

text \<open>Thread 0 is \<open>t1\<close>, which pushes; threads 1 and 2 are \<open>t2\<close> and \<open>t3\<close>, which pop. An empty
  optional makes \<open>head.value()\<close> of \<open>t3\<close> throw, which ends the program.\<close>

definition lf_count :: "nat \<Rightarrow> lf_state \<Rightarrow> nat" where
  "lf_count t s = length (filter (\<lambda>e. fst e = t) (lhistory s))"

definition lf_test_next :: "nat \<Rightarrow> lf_state \<Rightarrow> lf_call option" where
  "lf_test_next t s =
     (if t = 0 then (if lf_count 0 s < 200 then Some (LPush (int (lf_count 0 s))) else None)
      else (if lf_count t s < 100 then Some LPop else None))"

definition lf_terminated :: "lf_state \<Rightarrow> bool" where
  "lf_terminated s \<longleftrightarrow> list_ex (\<lambda>e. fst e = 2 \<and> snd (snd e) = LNullopt) (lhistory s)"

fun lf_test_step :: "lf_state \<Rightarrow> lf_action \<Rightarrow> lf_state option" where
  "lf_test_step s (LCall t c) =
     (if lf_test_next t s = Some c \<and> \<not> lf_terminated s then lf_step s (LCall t c) else None)"
| "lf_test_step s (LGo t a ok) = (if lf_terminated s then None else lf_step s (LGo t a ok))"

definition rmv_set :: "(nat \<times> lf_call \<times> lf_result) list \<Rightarrow> int set" where
  "rmv_set h = (\<Union>e \<in> set h. case e of
       (t, c, LSome v) \<Rightarrow> if t = 1 \<or> t = 2 \<and> v = 0 then {v} else {}
     | _ \<Rightarrow> {})"

lemma lf_test_reach: "reachable lf_test_step start s \<Longrightarrow> reachable lf_step start s"
proof (induction rule: reachable.induct)
  case (reachable_step s a t)
  then have "lf_step s a = Some t" by (cases a) (auto split: if_splits)
  with reachable_step.IH show ?case by (rule reachable.reachable_step)
qed (rule reachable.reachable_start)

section \<open>Properties\<close>

text \<open>C1: with one popping thread and any number of pushing threads nothing goes wrong: in no
  interleaving is a null or freed node used (no thread faults), and the stack holds as many
  nodes as were pushed and not yet popped, all of them allocated and distinct.\<close>

theorem lf_single_popper_safe:
  "reachable one_popper_step (lf_init (Suc n)) s \<Longrightarrow>
     LFault \<notin> set (lpcs s) \<and>
     (\<exists>as. is_stack (heap s) (head_node s) as \<and> distinct as \<and>
        pushes s = pops s + in_flight (lpcs s ! 0) + length as)"
proof -
  assume "reachable one_popper_step (lf_init (Suc n)) s"
  then obtain as where inv: "lf_inv_at s as" using lf_one.reachable_inv by (auto simp: lf_inv_def)
  have "lpcs s ! t \<noteq> LFault" if "t < length (lpcs s)" for t
    using inv_thread(1) [OF inv that] inv_facts(4) [OF inv] by (cases "t = 0") auto
  then have "LFault \<notin> set (lpcs s)" by (metis in_set_conv_nth)
  with inv_facts [OF inv] show ?thesis by blast
qed

definition lf_push_turn :: "nat \<Rightarrow> int \<Rightarrow> nat \<Rightarrow> lf_action list" where
  "lf_push_turn t v a = LCall t (LPush v) # replicate 3 (LGo t a True)"

definition lf_pop_turn :: "nat \<Rightarrow> lf_action list" where
  "lf_pop_turn t = LCall t LPop # replicate 10 (LGo t 0 True)"

definition lf_example :: lf_state where
  "lf_example = the (run one_popper_step (lf_init 2) (lf_push_turn 1 7 4 @ lf_push_turn 1 8 5 @ lf_pop_turn 0))"

lemma lf_example_run:
  "run one_popper_step (lf_init (Suc 1)) (lf_push_turn 1 7 4 @ lf_push_turn 1 8 5 @ lf_pop_turn 0) = Some lf_example"
proof -
  have "case run one_popper_step (lf_init 2) (lf_push_turn 1 7 4 @ lf_push_turn 1 8 5 @ lf_pop_turn 0) of
      None \<Rightarrow> False | Some s \<Rightarrow> True" by code_simp
  then show ?thesis by (auto simp: lf_example_def numeral_2_eq_2 split: option.splits)
qed

theorem lf_single_popper_safe_witness:
  "LFault \<notin> set (lpcs lf_example) \<and>
   (\<exists>as. is_stack (heap lf_example) (head_node lf_example) as \<and> distinct as \<and>
      pushes lf_example = pops lf_example + in_flight (lpcs lf_example ! 0) + length as)"
  by (rule lf_single_popper_safe [OF run_reachable [OF lf_example_run]])

text \<open>\<open>push\<close> never stores its value, so the removed set of the test contains at most the
  number 0 and the final assertion on 20000 elements cannot hold in any execution.\<close>

theorem lf_test_assertion_fails:
  "reachable lf_test_step (lf_init 3) s \<Longrightarrow>
     rmv_set (lhistory s) \<subseteq> {0} \<and> card (rmv_set (lhistory s)) \<noteq> 20000"
proof -
  assume "reachable lf_test_step (lf_init 3) s"
  then have "popped_ints (lhistory s) \<subseteq> {0}"
    using lf_values.reachable_inv [OF lf_test_reach] by (auto simp: lf_default_inv_def)
  moreover have "rmv_set (lhistory s) \<subseteq> popped_ints (lhistory s)"
    by (fastforce simp: rmv_set_def popped_ints_def split: lf_result.splits if_splits)
  ultimately have r: "rmv_set (lhistory s) \<subseteq> {0}" by blast
  then have "card (rmv_set (lhistory s)) \<le> card {0 :: int}" by (intro card_mono) auto
  with r show ?thesis by simp
qed

definition lf_test_example :: lf_state where
  "lf_test_example = the (run lf_test_step (lf_init 3) (lf_push_turn 0 0 1 @ lf_push_turn 0 1 2 @ lf_pop_turn 1))"

theorem lf_test_assertion_fails_witness:
  "popped_ints (lhistory lf_test_example) \<noteq> {} \<and>
   rmv_set (lhistory lf_test_example) \<subseteq> {0} \<and> card (rmv_set (lhistory lf_test_example)) \<noteq> 20000"
proof -
  have "case run lf_test_step (lf_init 3) (lf_push_turn 0 0 1 @ lf_push_turn 0 1 2 @ lf_pop_turn 1) of
      None \<Rightarrow> False | Some s \<Rightarrow> last (lhistory s) = (1, LPop, LSome 0) \<and> lhistory s \<noteq> []" by code_simp
  then have r: "run lf_test_step (lf_init 3) (lf_push_turn 0 0 1 @ lf_push_turn 0 1 2 @ lf_pop_turn 1) = Some lf_test_example"
    and "last (lhistory lf_test_example) = (1, LPop, LSome 0)" "lhistory lf_test_example \<noteq> []"
    by (auto simp: lf_test_example_def split: option.splits)
  then have "(1, LPop, LSome 0) \<in> set (lhistory lf_test_example)" using last_in_set by metis
  then have "popped_ints (lhistory lf_test_example) \<noteq> {}" by (auto simp: popped_ints_def)
  with lf_test_assertion_fails [OF run_reachable [OF r]] show ?thesis by blast
qed

text \<open>Nothing is ever put on the list of delayed nodes.\<close>

fun undelayed :: "lf_pc \<Rightarrow> bool" where
  "undelayed (RecycleDec b d r) \<longleftrightarrow> d = None"
| "undelayed (DeleteDelayed d r) \<longleftrightarrow> d = None"
| "undelayed (AppendNext d dec r) \<longleftrightarrow> d = None"
| "undelayed (AppendStore d dec r) \<longleftrightarrow> False"
| "undelayed (RecycleEnd r) \<longleftrightarrow> False"
| "undelayed _ \<longleftrightarrow> True"

definition delay_inv :: "lf_state \<Rightarrow> bool" where
  "delay_inv s \<longleftrightarrow> delay_list s = None \<and> (\<forall>p \<in> set (lpcs s). undelayed p)"

lemma lf_go_undelayed:
  "lf_go t a ok p s = Some s1 \<Longrightarrow> undelayed p \<Longrightarrow> delay_list s = None \<Longrightarrow>
     delay_list s1 = None \<and> (\<exists>q. lpcs s1 = (lpcs s)[t := q] \<and> undelayed q)"
  by (cases p) (auto simp: goto_def lf_return_def split: option.splits if_splits)

lemma lf_step_undelayed: "delay_inv s \<Longrightarrow> lf_step s x = Some s1 \<Longrightarrow> delay_inv s1"
proof (cases x)
  case (LCall t c)
  assume "delay_inv s" "lf_step s x = Some s1"
  then show ?thesis using LCall by (cases c) (auto simp: delay_inv_def goto_def split: if_splits dest!: subsetD [OF set_update_subset_insert])
next
  case (LGo t a ok)
  assume "delay_inv s" "lf_step s x = Some s1"
  then show ?thesis using LGo lf_go_undelayed [of t a ok "lpcs s ! t" s s1]
    by (auto simp: delay_inv_def split: if_splits dest!: subsetD [OF set_update_subset_insert])
qed

interpretation delay: invariant_system lf_step "lf_init n" delay_inv for n
proof unfold_locales
  show "delay_inv (lf_init n)" by (simp add: delay_inv_def lf_init_def)
qed (rule lf_step_undelayed)

text \<open>The test's first pushing turn; then both popping threads enter \<open>pop\<close>, and one of them goes on until it has loaded the head of the
  list of delayed nodes.\<close>

definition about_to_append :: lf_state where
  "about_to_append = the (run lf_test_step (lf_init 3) (lf_push_turn 0 0 1 @ [LCall 1 LPop, LCall 2 LPop, LGo 2 0 True] @ replicate 7 (LGo 1 0 True)))"

lemma about_to_append_reached:
  "reachable lf_test_step (lf_init 3) about_to_append \<and> popping about_to_append = 2 \<and> lpcs about_to_append = [LIdle, AppendNext None True 0, PopLoad]"
proof -
  have "case run lf_test_step (lf_init 3) (lf_push_turn 0 0 1 @ [LCall 1 LPop, LCall 2 LPop, LGo 2 0 True] @ replicate 7 (LGo 1 0 True)) of
      None \<Rightarrow> False | Some s \<Rightarrow> popping s = 2 \<and> lpcs s = [LIdle, AppendNext None True 0, PopLoad]" by code_simp
  then show ?thesis by (auto simp: about_to_append_def split: option.splits dest: run_reachable)
qed

text \<open>C3: Delaying the deletion of a node never works. In every reachable state, of any number of threads that push and pop, the list of delayed nodes
  is empty; a thread that enters \<open>append_to_delay_node_list\<close> loads the null pointer, its next step there dereferences it, and no thread gets
  behind that dereference. The test reaches it: when both popping threads are in \<open>pop\<close>, the one that has removed a node stands at
  the dereference.\<close>

theorem lf_two_poppers_fault:
  assumes "reachable lf_step (lf_init n) s" "t < length (lpcs s)"
  shows "delay_list s = None \<and>
    (\<forall>b dec r. lpcs s ! t = AppendLoad b dec r \<longrightarrow> lf_step s (LGo t a ok) = Some (goto t (AppendNext None dec r) s)) \<and>
    (\<forall>d dec r. lpcs s ! t = AppendNext d dec r \<longrightarrow> d = None \<and> lf_step s (LGo t a ok) = Some (goto t LFault s)) \<and>
    (\<forall>d dec r. lpcs s ! t \<noteq> AppendStore d dec r) \<and>
    (\<exists>u. reachable lf_test_step (lf_init 3) u \<and> popping u = 2 \<and> lpcs u = [LIdle, AppendNext None True 0, PopLoad])"
proof -
  have inv: "delay_list s = None" "undelayed (lpcs s ! t)"
    using delay.reachable_inv [OF assms(1)] assms(2) by (simp_all add: delay_inv_def)
  then show ?thesis using about_to_append_reached assms(2) by auto
qed

theorem lf_two_poppers_fault_witness: "lf_step about_to_append (LGo 1 0 True) = Some (goto 1 LFault about_to_append)"
  using lf_two_poppers_fault [OF lf_test_reach [OF conjunct1 [OF about_to_append_reached]], of 1 0 True] about_to_append_reached by simp

end
