(* ===== verification/SpinLock.thy ===== *)
theory SpinLock
  imports Prelude "HOL-Library.Sublist"
begin

text \<open>
  \<open>SpinLock\<close> of \<open>multithread/spin_lock.h\<close> and the threads of its \<open>main\<close>. The lock is one
  atomic flag, and only that flag and the output are shared, so the interleavings of
  the read-modify-write operations are all its executions. Thread \<open>t\<close> prints its symbol
  three times under the lock; a line of the output is written as its character.
\<close>

section \<open>The lock and its users\<close>

datatype spin_pc = SpinLocking | SpinPrinting nat | SpinUnlocking | SpinReturned

record spin_state =
  flag :: bool
  spcs :: "spin_pc list"
  shown :: string

definition spin_init :: "bool \<Rightarrow> nat \<Rightarrow> spin_state" where
  "spin_init b n = \<lparr>flag = b, spcs = replicate n SpinLocking, shown = []\<rparr>"

text \<open>\<open>test_and_set\<close> returns the old value; \<open>lock\<close> spins while it is true.\<close>

definition test_and_set :: "spin_state \<Rightarrow> bool \<times> spin_state" where
  "test_and_set s = (flag s, s\<lparr>flag := True\<rparr>)"

definition clear_flag :: "spin_state \<Rightarrow> spin_state" where
  "clear_flag s = s\<lparr>flag := False\<rparr>"

definition spin_symbol :: "nat \<Rightarrow> char" where
  "spin_symbol t = (if t = 0 then CHR ''<'' else CHR ''>'')"

fun spin_go :: "nat \<Rightarrow> spin_pc \<Rightarrow> spin_state \<Rightarrow> spin_state option" where
  "spin_go t SpinLocking s = (case test_and_set s of (old, s') \<Rightarrow>
     Some (if old then s' else s'\<lparr>spcs := (spcs s')[t := SpinPrinting 0]\<rparr>))"
| "spin_go t (SpinPrinting k) s =
     Some (if k < 3 then s\<lparr>shown := shown s @ [spin_symbol t], spcs := (spcs s)[t := SpinPrinting (k + 1)]\<rparr>
           else s\<lparr>spcs := (spcs s)[t := SpinUnlocking]\<rparr>)"
| "spin_go t SpinUnlocking s = Some ((clear_flag s)\<lparr>spcs := (spcs s)[t := SpinReturned]\<rparr>)"
| "spin_go t SpinReturned s = None"

definition spin_step :: "spin_state \<Rightarrow> nat \<Rightarrow> spin_state option" where
  "spin_step s t = (if t < length (spcs s) then spin_go t (spcs s ! t) s else None)"

section \<open>Mutual exclusion\<close>

fun in_section :: "spin_pc \<Rightarrow> bool" where
  "in_section (SpinPrinting k) = True"
| "in_section SpinUnlocking = True"
| "in_section _ = False"

fun own_output :: "nat \<Rightarrow> spin_pc \<Rightarrow> string" where
  "own_output t (SpinPrinting k) = replicate k (spin_symbol t)"
| "own_output t SpinUnlocking = replicate 3 (spin_symbol t)"
| "own_output t _ = []"

definition blocks :: "nat list \<Rightarrow> string" where
  "blocks ts = concat (List.map (\<lambda>t. replicate 3 (spin_symbol t)) ts)"

text \<open>\<open>done\<close> lists the threads that left the section, in their order; \<open>cur\<close> is the one in it.\<close>

definition spin_inv_at :: "spin_state \<Rightarrow> nat list \<Rightarrow> nat option \<Rightarrow> bool" where
  "spin_inv_at s ts cur \<longleftrightarrow>
     (\<forall>t < length (spcs s). (in_section (spcs s ! t) \<longleftrightarrow> cur = Some t) \<and>
        (spcs s ! t = SpinReturned \<longleftrightarrow> t \<in> set ts) \<and>
        (case spcs s ! t of SpinPrinting k \<Rightarrow> k \<le> 3 | _ \<Rightarrow> True)) \<and>
     flag s = (cur \<noteq> None) \<and> distinct ts \<and> set ts \<subseteq> {..<length (spcs s)} \<and>
     (case cur of None \<Rightarrow> shown s = blocks ts
      | Some t \<Rightarrow> t < length (spcs s) \<and> t \<notin> set ts \<and> shown s = blocks ts @ own_output t (spcs s ! t))"

definition spin_inv :: "spin_state \<Rightarrow> bool" where
  "spin_inv s \<longleftrightarrow> (\<exists>ts cur. spin_inv_at s ts cur)"

lemma spin_step_inv: "spin_inv s \<Longrightarrow> spin_step s t = Some s' \<Longrightarrow> spin_inv s'"
proof -
  assume "spin_inv s" and st: "spin_step s t = Some s'"
  then obtain ts cur where inv: "spin_inv_at s ts cur" by (auto simp: spin_inv_def)
  from st have t: "t < length (spcs s)" and go: "spin_go t (spcs s ! t) s = Some s'"
    by (auto simp: spin_step_def split: if_splits)
  show ?thesis
  proof (cases "spcs s ! t")
    case SpinLocking
    show ?thesis
    proof (cases "flag s")
      case True
      with go SpinLocking have "s' = s" by (cases s) (auto simp: test_and_set_def)
      with inv show ?thesis by (auto simp: spin_inv_def)
    next
      case False
      with inv have cur: "cur = None" by (simp add: spin_inv_at_def)
      from go SpinLocking False have s': "s' = s\<lparr>flag := True, spcs := (spcs s)[t := SpinPrinting 0]\<rparr>"
        by (simp add: test_and_set_def)
      have "t \<notin> set ts" using inv t SpinLocking by (auto simp: spin_inv_at_def)
      then have "spin_inv_at s' ts (Some t)"
        using inv t cur unfolding spin_inv_at_def s' by (simp add: nth_list_update)
      then show ?thesis by (auto simp: spin_inv_def)
    qed
  next
    case (SpinPrinting k)
    with inv t have cur: "cur = Some t" "k \<le> 3" by (auto simp: spin_inv_at_def split: spin_pc.splits)
    show ?thesis
    proof (cases "k < 3")
      case True
      with go SpinPrinting have s': "s' = s\<lparr>shown := shown s @ [spin_symbol t], spcs := (spcs s)[t := SpinPrinting (k + 1)]\<rparr>"
        by simp
      have "spin_inv_at s' ts (Some t)"
        using inv t cur SpinPrinting True unfolding spin_inv_at_def s'
        by (auto simp: nth_list_update replicate_append_same)
      then show ?thesis by (auto simp: spin_inv_def)
    next
      case False
      with go SpinPrinting have s': "s' = s\<lparr>spcs := (spcs s)[t := SpinUnlocking]\<rparr>" by simp
      from False cur(2) have "k = 3" by simp
      with inv t cur SpinPrinting have "spin_inv_at s' ts (Some t)"
        unfolding spin_inv_at_def s' by (auto simp: nth_list_update)
      then show ?thesis by (auto simp: spin_inv_def)
    qed
  next
    case SpinUnlocking
    with inv t have cur: "cur = Some t" by (auto simp: spin_inv_at_def)
    from go SpinUnlocking have s': "s' = s\<lparr>flag := False, spcs := (spcs s)[t := SpinReturned]\<rparr>"
      by (simp add: clear_flag_def)
    have "spin_inv_at s' (ts @ [t]) None"
      using inv t cur SpinUnlocking unfolding spin_inv_at_def s'
      by (auto simp: nth_list_update blocks_def)
    then show ?thesis by (auto simp: spin_inv_def)
  qed (use go in simp)
qed

lemma spin_init_inv: "spin_inv (spin_init False n)"
  unfolding spin_inv_def
  by (intro exI [of _ "[]"] exI [of _ None]) (simp add: spin_inv_at_def spin_init_def blocks_def)

interpretation spin: invariant_system spin_step "spin_init False n" spin_inv for n
  by unfold_locales (rule spin_init_inv, rule spin_step_inv)

interpretation spin_stuck: invariant_system spin_step "spin_init True n"
  "\<lambda>s. flag s \<and> set (spcs s) \<subseteq> {SpinLocking} \<and> shown s = []" for n
proof unfold_locales
  fix s t s'
  assume inv: "flag s \<and> set (spcs s) \<subseteq> {SpinLocking} \<and> shown s = []" and st: "spin_step s t = Some s'"
  then have "t < length (spcs s)" "spcs s ! t = SpinLocking" "spin_go t (spcs s ! t) s = Some s'"
    using nth_mem by (fastforce simp: spin_step_def split: if_splits)+
  then have "s' = s\<lparr>flag := True\<rparr>" using inv by (simp add: test_and_set_def)
  with inv show "flag s' \<and> set (spcs s') \<subseteq> {SpinLocking} \<and> shown s' = []" by simp
qed (auto simp: spin_init_def)

section \<open>Properties\<close>

lemma two_threads:
  assumes "distinct ts" "set ts \<subseteq> {..<2 :: nat}"
  shows "ts \<in> {[], [0], [1], [0, 1], [1, 0]}"
proof -
  have "length ts = card (set ts)" using assms(1) distinct_card by metis
  also have "\<dots> \<le> card {..<2 :: nat}" using assms(2) by (intro card_mono) auto
  finally have "length ts \<le> 2" by simp
  then consider (0) "ts = []" | (1) a where "ts = [a]" | (2) a b where "ts = [a, b]"
    by (metis One_nat_def Suc_1 bot_nat_0.extremum_uniqueI le_Suc_eq length_0_conv length_Suc_conv)
  then show ?thesis
  proof cases
    case 1
    with assms(2) have "a = 0 \<or> a = 1" by auto
    with 1 show ?thesis by auto
  next
    case 2
    with assms have "a = 0 \<or> a = 1" "b = 0 \<or> b = 1" "a \<noteq> b" by auto
    with 2 show ?thesis by auto
  qed simp
qed

lemma block_eq: "blocks [0] = ''<<<''" "blocks [1] = ''>>>''" "blocks [] = []"
  "blocks [0, 1] = ''<<<>>>''" "blocks [1, 0] = ''>>><<<''"
  by (simp_all add: blocks_def spin_symbol_def numeral_3_eq_3)

lemma own_output_prefix:
  "(case pc of SpinPrinting k \<Rightarrow> k \<le> 3 | _ \<Rightarrow> True) \<Longrightarrow> prefix (own_output t pc) (blocks [t])"
proof (cases pc)
  case (SpinPrinting k)
  assume "case pc of SpinPrinting k \<Rightarrow> k \<le> 3 | _ \<Rightarrow> True"
  with SpinPrinting have k: "k \<le> 3" by simp
  then have "replicate 3 (spin_symbol t) = replicate k (spin_symbol t) @ replicate (3 - k) (spin_symbol t)"
    by (simp flip: replicate_add)
  with SpinPrinting show ?thesis by (simp add: blocks_def prefix_def)
qed (simp_all add: blocks_def)

text \<open>in every schedule the two blocks of output are never mixed, whichever thread comes
  first, at most one thread is between \<open>lock\<close> and \<open>unlock\<close>, and both threads have returned
  exactly when the lock is free and all six symbols are out.\<close>

theorem spin_main_output:
  "reachable spin_step (spin_init False 2) s \<Longrightarrow>
     (prefix (shown s) ''<<<>>>'' \<or> prefix (shown s) ''>>><<<'') \<and>
     card {t. t < 2 \<and> in_section (spcs s ! t)} \<le> 1 \<and>
     (spcs s = [SpinReturned, SpinReturned]) = (flag s = False \<and> length (shown s) = 6)"
proof -
  assume r: "reachable spin_step (spin_init False 2) s"
  then obtain ts cur where inv: "spin_inv_at s ts cur"
    using spin.reachable_inv [of 2 s] unfolding spin_inv_def by blast
  have len: "length (spcs s) = 2"
    using r by (induction rule: reachable.induct)
      (auto simp: spin_init_def spin_step_def test_and_set_def clear_flag_def split: if_splits elim!: spin_go.elims)
  have ts: "ts \<in> {[], [0], [1], [0, 1], [1, 0]}"
    using inv len by (intro two_threads) (auto simp: spin_inv_at_def)
  have "{t. t < 2 \<and> in_section (spcs s ! t)} \<subseteq> set_option cur"
    using inv len by (auto simp: spin_inv_at_def)
  then have "card {t. t < 2 \<and> in_section (spcs s ! t)} \<le> card (set_option cur)"
    by (intro card_mono) auto
  moreover have "card (set_option cur) \<le> 1" by (cases cur) auto
  moreover have ret: "(spcs s = [SpinReturned, SpinReturned]) = (\<forall>t < 2. t \<in> set ts)"
  proof -
    have "(spcs s = [SpinReturned, SpinReturned]) = (\<forall>t < 2. spcs s ! t = SpinReturned)"
      using len by (cases "spcs s"; cases "tl (spcs s)") (auto simp: less_2_cases_iff)
    then show ?thesis using inv len by (simp add: spin_inv_at_def)
  qed
  moreover have "(prefix (shown s) ''<<<>>>'' \<or> prefix (shown s) ''>>><<<'') \<and>
    (\<forall>t < 2. t \<in> set ts) = (flag s = False \<and> length (shown s) = 6)"
  proof (cases cur)
    case None
    with inv have "shown s = blocks ts" "flag s = False" by (simp_all add: spin_inv_at_def)
    with ts block_eq show ?thesis by (auto simp: less_2_cases_iff)
  next
    case (Some t)
    with inv len have t: "t < 2" "t \<notin> set ts" "flag s" "shown s = blocks ts @ own_output t (spcs s ! t)"
      and k: "case spcs s ! t of SpinPrinting k \<Rightarrow> k \<le> 3 | _ \<Rightarrow> True"
      by (auto simp: spin_inv_at_def)
    from own_output_prefix [OF k, of t] have p: "prefix (shown s) (blocks (ts @ [t]))"
      using t(4) by (simp add: blocks_def)
    have "ts @ [t] \<in> {[0], [1], [0, 1], [1, 0]}" using ts t(1,2) by (auto simp: less_2_cases_iff)
    then have "prefix (blocks (ts @ [t])) ''<<<>>>'' \<or> prefix (blocks (ts @ [t])) ''>>><<<''"
      by (elim insertE) (simp_all add: block_eq [unfolded One_nat_def])
    with p t show ?thesis by (auto simp: less_2_cases_iff dest: prefix_order.trans)
  qed
  ultimately show ?thesis by simp
qed

definition spin_example :: spin_state where
  "spin_example = \<lparr>flag = True, spcs = [SpinLocking, SpinPrinting 2], shown = ''>>''\<rparr>"

theorem spin_main_output_witness:
  "(prefix (shown spin_example) ''<<<>>>'' \<or> prefix (shown spin_example) ''>>><<<'') \<and>
   card {t. t < 2 \<and> in_section (spcs spin_example ! t)} \<le> 1 \<and>
   (spcs spin_example = [SpinReturned, SpinReturned]) =
     (flag spin_example = False \<and> length (shown spin_example) = 6)"
proof -
  have "run spin_step (spin_init False 2) [1, 0, 1, 0, 1, 0] = Some spin_example"
    by (simp add: spin_step_def spin_init_def spin_example_def test_and_set_def spin_symbol_def numeral_2_eq_2)
  then show ?thesis by (rule spin_main_output [OF run_reachable])
qed

text \<open>Starting with the flag set does not swap the outputs: nothing is ever printed.\<close>

theorem spin_initially_set: "reachable spin_step (spin_init True n) s \<Longrightarrow> shown s = []"
  using spin_stuck.reachable_inv by blast

end
