(* ===== verification/Singleton.thy ===== *)
theory Singleton
  imports Prelude
begin

text \<open>
  \<open>Singleton::getInstance\<close> of \<open>multithread/thread_safe_singleton.h\<close>: double-checked locking
  with an atomic flag, a mutex and a plain pointer. Objects are numbered in the order of
  their allocation. The flag is stored with release and first read with acquire; the
  theorem also shows that the plain pointer is never read while another thread is about
  to write it, so the interleavings below are all the executions there are.
\<close>

section \<open>\<open>getInstance\<close>\<close>

datatype sg_pc =
    SgLoad                       \<comment> \<open>\<open>atm_.load(acquire)\<close>\<close>
  | SgLock
  | SgCheck                      \<comment> \<open>\<open>atm_.load(relaxed)\<close>\<close>
  | SgNew                        \<comment> \<open>\<open>instance_ = new Singleton()\<close>\<close>
  | SgStore                      \<comment> \<open>\<open>atm_.store(true, release)\<close>\<close>
  | SgUnlock
  | SgReturn                     \<comment> \<open>\<open>return instance_\<close>\<close>
  | SgDone "nat option"

record sg_state =
  instance_ptr :: "nat option"
  atm :: bool
  sg_mtx :: "nat option"
  allocated :: nat
  sg_pcs :: "sg_pc list"

definition sg_init :: "nat \<Rightarrow> sg_state" where
  "sg_init n = \<lparr>instance_ptr = None, atm = False, sg_mtx = None, allocated = 0, sg_pcs = replicate n SgLoad\<rparr>"

definition sg_goto :: "nat \<Rightarrow> sg_pc \<Rightarrow> sg_state \<Rightarrow> sg_state" where
  "sg_goto t p s = s\<lparr>sg_pcs := (sg_pcs s)[t := p]\<rparr>"

fun getInstance :: "nat \<Rightarrow> sg_pc \<Rightarrow> sg_state \<Rightarrow> sg_state option" where
  "getInstance t SgLoad s = Some (sg_goto t (if atm s then SgReturn else SgLock) s)"
| "getInstance t SgLock s =
     (if sg_mtx s = None then Some (sg_goto t SgCheck (s\<lparr>sg_mtx := Some t\<rparr>)) else None)"
| "getInstance t SgCheck s = Some (sg_goto t (if atm s then SgUnlock else SgNew) s)"
| "getInstance t SgNew s =
     Some (sg_goto t SgStore (s\<lparr>instance_ptr := Some (allocated s), allocated := allocated s + 1\<rparr>))"
| "getInstance t SgStore s = Some (sg_goto t SgUnlock (s\<lparr>atm := True\<rparr>))"
| "getInstance t SgUnlock s = Some (sg_goto t SgReturn (s\<lparr>sg_mtx := None\<rparr>))"
| "getInstance t SgReturn s = Some (sg_goto t (SgDone (instance_ptr s)) s)"
| "getInstance t (SgDone p) s = None"

definition sg_step :: "sg_state \<Rightarrow> nat \<Rightarrow> sg_state option" where
  "sg_step s t = (if t < length (sg_pcs s) then getInstance t (sg_pcs s ! t) s else None)"

text \<open>\<open>main\<close> calls it from two threads.\<close>

definition sg_main :: sg_state where
  "sg_main = sg_init 2"

section \<open>Invariant\<close>

fun holds_mtx :: "sg_pc \<Rightarrow> bool" where
  "holds_mtx SgCheck = True"
| "holds_mtx SgNew = True"
| "holds_mtx SgStore = True"
| "holds_mtx SgUnlock = True"
| "holds_mtx _ = False"

text \<open>What a program point needs: after the flag is set, the one object is published.\<close>

fun sg_ok :: "sg_state \<Rightarrow> sg_pc \<Rightarrow> bool" where
  "sg_ok s SgNew = (\<not> atm s \<and> allocated s = 0)"
| "sg_ok s SgStore = (\<not> atm s \<and> allocated s = 1 \<and> instance_ptr s = Some 0)"
| "sg_ok s SgUnlock = atm s"
| "sg_ok s SgReturn = atm s"
| "sg_ok s (SgDone p) = (atm s \<and> p = Some 0)"
| "sg_ok s SgCheck = (atm s \<or> allocated s = 0)"
| "sg_ok s _ = True"

definition sg_inv :: "sg_state \<Rightarrow> bool" where
  "sg_inv s \<longleftrightarrow> (\<forall>t < length (sg_pcs s). (holds_mtx (sg_pcs s ! t) \<longleftrightarrow> sg_mtx s = Some t) \<and> sg_ok s (sg_pcs s ! t)) \<and>
     (atm s \<longrightarrow> allocated s = 1 \<and> instance_ptr s = Some 0) \<and> allocated s \<le> 1 \<and>
     (sg_mtx s = None \<longrightarrow> atm s \<or> allocated s = 0)"

lemma sg_ok_same:
  "atm s' = atm s \<Longrightarrow> allocated s' = allocated s \<Longrightarrow> instance_ptr s' = instance_ptr s \<Longrightarrow> sg_ok s' p = sg_ok s p"
  by (cases p) auto

lemma sg_ok_others: "sg_ok s p \<Longrightarrow> \<not> holds_mtx p \<Longrightarrow> atm s' = atm s \<or> atm s' \<Longrightarrow> sg_ok s' p"
  by (cases p) auto

lemma sg_inv_move:
  assumes inv: "sg_inv s" and t: "t < length (sg_pcs s)" and pcs: "sg_pcs s' = (sg_pcs s)[t := p]"
    and m: "sg_mtx s' = sg_mtx s \<and> holds_mtx p = holds_mtx (sg_pcs s ! t) \<or>
      sg_mtx s = None \<and> sg_mtx s' = Some t \<and> holds_mtx p \<or>
      holds_mtx (sg_pcs s ! t) \<and> sg_mtx s' = None \<and> \<not> holds_mtx p"
    and same: "atm s' = atm s \<and> allocated s' = allocated s \<and> instance_ptr s' = instance_ptr s \<or>
      holds_mtx (sg_pcs s ! t) \<and> (atm s' = atm s \<or> atm s')"
    and ok: "sg_ok s' p" and glob: "atm s' \<longrightarrow> allocated s' = 1 \<and> instance_ptr s' = Some 0" "allocated s' \<le> 1"
      "sg_mtx s' = None \<longrightarrow> atm s' \<or> allocated s' = 0"
  shows "sg_inv s'"
proof -
  have "(holds_mtx (sg_pcs s' ! t') \<longleftrightarrow> sg_mtx s' = Some t') \<and> sg_ok s' (sg_pcs s' ! t')"
    if t': "t' < length (sg_pcs s)" for t'
  proof (cases "t' = t")
    case True
    with inv t m ok pcs show ?thesis by (auto simp: sg_inv_def)
  next
    case False
    have i: "holds_mtx (sg_pcs s ! t') \<longleftrightarrow> sg_mtx s = Some t'" "holds_mtx (sg_pcs s ! t) \<longleftrightarrow> sg_mtx s = Some t"
      "sg_ok s (sg_pcs s ! t')" using inv t t' by (simp_all add: sg_inv_def)
    have "sg_ok s' (sg_pcs s ! t')"
      using same
    proof
      assume "holds_mtx (sg_pcs s ! t) \<and> (atm s' = atm s \<or> atm s')"
      with i False show ?thesis by (intro sg_ok_others [OF i(3)]) auto
    qed (use i sg_ok_same in blast)
    moreover have "holds_mtx (sg_pcs s ! t') \<longleftrightarrow> sg_mtx s' = Some t'" using i m False by auto
    ultimately show ?thesis using pcs False by simp
  qed
  with glob pcs show ?thesis by (simp add: sg_inv_def)
qed

lemma sg_step_inv: "sg_inv s \<Longrightarrow> sg_step s t = Some s' \<Longrightarrow> sg_inv s'"
proof -
  assume inv: "sg_inv s" and st: "sg_step s t = Some s'"
  from st have t: "t < length (sg_pcs s)" and go: "getInstance t (sg_pcs s ! t) s = Some s'"
    by (auto simp: sg_step_def split: if_splits)
  have ok: "sg_ok s (sg_pcs s ! t)" and h: "holds_mtx (sg_pcs s ! t) \<longleftrightarrow> sg_mtx s = Some t"
    and g: "atm s \<longrightarrow> allocated s = 1 \<and> instance_ptr s = Some 0" "allocated s \<le> 1"
      "sg_mtx s = None \<longrightarrow> atm s \<or> allocated s = 0"
    using inv t by (simp_all add: sg_inv_def)
  obtain p where p: "sg_pcs s' = (sg_pcs s)[t := p]" "p = sg_pcs s' ! t"
    using go t by (cases "sg_pcs s ! t") (auto simp: sg_goto_def split: if_splits)
  show ?thesis
    by (rule sg_inv_move [OF inv t p(1)]; cases "sg_pcs s ! t")
      (use go ok h g p(2) t in \<open>auto simp: sg_goto_def split: if_splits\<close>)
qed

interpretation sg: invariant_system sg_step "sg_init n" sg_inv for n
proof unfold_locales
  show "sg_inv (sg_init n)" by (simp add: sg_inv_def sg_init_def)
qed (rule sg_step_inv)

section \<open>Property\<close>

text \<open>for any number of threads and every interleaving at most one \<open>Singleton\<close> is ever
  allocated, every call that has returned returned that object, and the plain pointer is
  never read while another thread is about to write it.\<close>

theorem singleton_once:
  "reachable sg_step (sg_init n) s \<Longrightarrow>
     allocated s \<le> 1 \<and>
     {p. SgDone p \<in> set (sg_pcs s)} \<subseteq> {Some 0} \<and>
     \<not> (SgReturn \<in> set (sg_pcs s) \<and> SgNew \<in> set (sg_pcs s))"
proof -
  assume "reachable sg_step (sg_init n) s"
  then have inv: "sg_inv s" by (rule sg.reachable_inv)
  then have ok: "sg_ok s p" if "p \<in> set (sg_pcs s)" for p
    using that by (auto simp: sg_inv_def in_set_conv_nth)
  show ?thesis using inv ok [of "SgDone _"] ok [of SgReturn] ok [of SgNew] by (auto simp: sg_inv_def)
qed

definition sg_example :: sg_state where
  "sg_example = \<lparr>instance_ptr = Some 0, atm = True, sg_mtx = None, allocated = 1, sg_pcs = [SgDone (Some 0), SgDone (Some 0)]\<rparr>"

theorem singleton_once_witness:
  "allocated sg_example = 1 \<and> {p. SgDone p \<in> set (sg_pcs sg_example)} \<subseteq> {Some 0}"
proof -
  have "run sg_step (sg_init 2) [0, 1, 0, 0, 0, 0, 0, 1, 1, 1, 0, 1] = Some sg_example"
    by (simp add: sg_step_def sg_init_def sg_example_def sg_goto_def numeral_2_eq_2)
  from singleton_once [OF run_reachable [OF this]] show ?thesis by (simp add: sg_example_def)
qed

end
