(* ===== verification/Semaphore.thy ===== *)
theory Semaphore
  imports CxxText
begin

text \<open>
  \<open>multithread/test_semaphore.h\<close>: workers that share a counting semaphore and time
  themselves. \<open>main\<close> joins each thread before it creates the next one, so the program is
  sequential; the workers are functions of the clock, in milliseconds since
  \<open>initStartTime\<close>. The random delays are the members of the guides, and \<open>late\<close> says how much
  longer than asked each sleep of a worker takes. Text is a list of UTF-8 bytes.
\<close>

section \<open>Guides\<close>

record guide =
  delay :: nat
  occupy :: nat
  wait_on_sema :: nat

definition k_time_tick :: nat where "k_time_tick = 100"
definition k_max_threads_count :: nat where "k_max_threads_count = 10"
definition k_max_sema_count :: nat where "k_max_sema_count = 3"

text \<open>A guide as the member initialisers make it, from two values of \<open>random\<close>.\<close>

definition new_guide :: "nat \<Rightarrow> nat \<Rightarrow> guide" where
  "new_guide d q = \<lparr>delay = d, occupy = q, wait_on_sema = 0\<rparr>"

definition random_range :: "nat \<Rightarrow> bool" where
  "random_range n \<longleftrightarrow> 2 \<le> n \<and> n \<le> 9"

definition initDelay :: "guide \<Rightarrow> nat \<Rightarrow> nat \<Rightarrow> nat" where
  "initDelay g late now = now + delay g * k_time_tick + late"

text \<open>The cast to \<open>unsigned int\<close> keeps the low 32 bits.\<close>

definition occupySema :: "guide \<Rightarrow> nat \<Rightarrow> nat \<Rightarrow> guide \<times> nat" where
  "occupySema g late now =
     (g\<lparr>wait_on_sema := nat (((int now - 0 - int (delay g * k_time_tick)) div int k_time_tick) mod 2 ^ 32)\<rparr>,
      now + occupy g * k_time_tick + late)"

definition light_shade :: string where "light_shade = [CHR 0xE2, CHR 0x96, CHR 0x91]"
definition medium_shade :: string where "medium_shade = [CHR 0xE2, CHR 0x96, CHR 0x92]"
definition full_block :: string where "full_block = [CHR 0xE2, CHR 0x96, CHR 0x88]"

fun print_n_str :: "string \<Rightarrow> nat \<Rightarrow> string" where
  "print_n_str str 0 = []"
| "print_n_str str (Suc n) = str @ print_n_str str n"

definition visualize :: "guide \<Rightarrow> nat \<Rightarrow> string" where
  "visualize g i = ''#'' @ pad_left 2 (show_nat i) @ '' '' @ print_n_str light_shade (delay g) @
     print_n_str medium_shade (wait_on_sema g) @ print_n_str full_block (occupy g) @ [CHR 0x0A]"

section \<open>Workers\<close>

text \<open>\<open>acquire\<close> blocks, which for the only running thread is for ever, at zero.\<close>

definition sema_acquire :: "nat \<Rightarrow> nat option" where
  "sema_acquire n = (if n = 0 then None else Some (n - 1))"

definition sema_release :: "nat \<Rightarrow> nat" where
  "sema_release n = n + 1"

record world =
  guides :: "guide list"
  semaphore :: nat
  clock :: nat
  cout :: string

definition workerThread :: "nat \<Rightarrow> nat \<times> nat \<Rightarrow> world \<Rightarrow> world option" where
  "workerThread i late w =
     (let t1 = initDelay (guides w ! i) (fst late) (clock w) in
      case sema_acquire (semaphore w) of
        None \<Rightarrow> None
      | Some n \<Rightarrow> (case occupySema (guides w ! i) (snd late) t1 of (g, t2) \<Rightarrow>
          Some \<lparr>guides = (guides w)[i := g], semaphore = sema_release n, clock = t2,
            cout = cout w @ visualize g i\<rparr>))"

definition banner :: string where
  "banner = [CHR 0x0A] @ ''Threads: '' @ show_nat k_max_threads_count @ '', Throughput: '' @
     show_nat k_max_sema_count @ [CHR 0x0A] @ ''labels:'' @ [CHR 0x0A] @
     ''initial delay '' @ light_shade @ [CHR 0x0A] @ ''wait state '' @ medium_shade @ [CHR 0x0A] @
     ''sema occupation '' @ full_block @ [CHR 0x0A] @ [CHR 0x0A]"

text \<open>The loop of \<open>main\<close>: each thread is joined in the iteration that creates it.\<close>

fun workers :: "nat list \<Rightarrow> (nat \<Rightarrow> nat \<times> nat) \<Rightarrow> world \<Rightarrow> world option" where
  "workers [] late w = Some w"
| "workers (i # is) late w = (case workerThread i (late i) w of None \<Rightarrow> None | Some w' \<Rightarrow> workers is late w')"

definition sema_main :: "guide list \<Rightarrow> (nat \<Rightarrow> nat \<times> nat) \<Rightarrow> world option" where
  "sema_main gs late = workers [0..<k_max_threads_count] late
     \<lparr>guides = gs, semaphore = k_max_sema_count, clock = 0, cout = banner\<rparr>"

section \<open>Property\<close>

text \<open>What worker \<open>i\<close> finds: the time everything before it took.\<close>

definition busy_until :: "guide list \<Rightarrow> (nat \<Rightarrow> nat \<times> nat) \<Rightarrow> nat \<Rightarrow> nat" where
  "busy_until gs late i = sum_list (List.map (\<lambda>j. (delay (gs ! j) + occupy (gs ! j)) * k_time_tick +
     fst (late j) + snd (late j)) [0..<i])"

definition guide_after :: "guide list \<Rightarrow> (nat \<Rightarrow> nat \<times> nat) \<Rightarrow> nat \<Rightarrow> guide" where
  "guide_after gs late i = (gs ! i)\<lparr>wait_on_sema := ((busy_until gs late i + fst (late i)) div k_time_tick) mod 2 ^ 32\<rparr>"

lemma busy_until_Suc:
  "busy_until gs late (Suc i) = busy_until gs late i +
     ((delay (gs ! i) + occupy (gs ! i)) * k_time_tick + fst (late i) + snd (late i))"
  by (simp add: busy_until_def)

lemma occupy_wait:
  "nat (((int (t + d * k_time_tick + l) - 0 - int (d * k_time_tick)) div int k_time_tick) mod 2 ^ 32) =
     ((t + l) div k_time_tick) mod 2 ^ 32"
proof -
  have "int (t + d * k_time_tick + l) - 0 - int (d * k_time_tick) = int (t + l)" by simp
  moreover have "int ((t + l) div k_time_tick mod 2 ^ 32) = int (t + l) div int k_time_tick mod 2 ^ 32"
    by (simp only: zdiv_int zmod_int of_nat_power of_nat_numeral)
  ultimately show ?thesis by (metis nat_int)
qed

definition world_after :: "guide list \<Rightarrow> (nat \<Rightarrow> nat \<times> nat) \<Rightarrow> nat \<Rightarrow> world" where
  "world_after gs late i = \<lparr>guides = List.map (guide_after gs late) [0..<i] @ drop i gs, semaphore = k_max_sema_count,
     clock = busy_until gs late i, cout = banner @ concat (List.map (\<lambda>j. visualize (guide_after gs late j) j) [0..<i])\<rparr>"

lemma occupy_after:
  "occupySema (gs ! i) (snd (late i)) (initDelay (gs ! i) (fst (late i)) (busy_until gs late i)) =
     (guide_after gs late i, busy_until gs late (Suc i))"
proof -
  have t: "initDelay (gs ! i) (fst (late i)) (busy_until gs late i) =
      busy_until gs late i + delay (gs ! i) * k_time_tick + fst (late i)" by (simp add: initDelay_def)
  show ?thesis
    unfolding occupySema_def t occupy_wait guide_after_def busy_until_Suc
    by (simp add: occupy_wait [simplified] algebra_simps)
qed

lemma worker_step:
  assumes "i < length gs"
  shows "workerThread i (late i) (world_after gs late i) = Some (world_after gs late (Suc i))"
proof -
  have g: "guides (world_after gs late i) ! i = gs ! i" "clock (world_after gs late i) = busy_until gs late i"
    using assms by (simp_all add: world_after_def nth_append)
  have u: "(guides (world_after gs late i))[i := guide_after gs late i] = guides (world_after gs late (Suc i))"
    using assms by (simp add: world_after_def list_update_append Cons_nth_drop_Suc [symmetric])
  show ?thesis
    using u unfolding workerThread_def g Let_def occupy_after
    by (simp add: world_after_def sema_acquire_def sema_release_def k_max_sema_count_def)
qed

lemma workers_run:
  "i + n \<le> length gs \<Longrightarrow> workers [i..<i + n] late (world_after gs late i) = Some (world_after gs late (i + n))"
proof (induction n arbitrary: i)
  case (Suc n)
  have "[i..<i + Suc n] = i # [Suc i..<Suc i + n]" by (simp add: upt_conv_Cons del: upt_Suc)
  with worker_step [of i gs late] Suc.IH [of "Suc i"] Suc.prems show ?case by (simp del: upt_Suc)
qed simp

text \<open>the program ends without ever waiting on the semaphore, prints one line per guide
  in the order of their numbers, and records as "wait state" not a wait but the whole time
  that the earlier workers took: the threads are joined one by one, so the throughput of
  three is never used.\<close>

theorem semaphore_main:
  "length gs = 10 \<Longrightarrow>
     \<exists>w. sema_main gs late = Some w \<and> semaphore w = 3 \<and>
       guides w = List.map (guide_after gs late) [0..<10] \<and>
       cout w = banner @ concat (List.map (\<lambda>i. visualize (guide_after gs late i) i) [0..<10])"
proof -
  assume len: "length gs = 10"
  have "sema_main gs late = workers [0..<10] late (world_after gs late 0)"
    unfolding sema_main_def by (simp add: world_after_def k_max_threads_count_def busy_until_def del: upt_Suc)
  also have "\<dots> = Some (world_after gs late 10)"
    using workers_run [of 0 10 gs late] len by (simp del: upt_Suc)
  finally show ?thesis using len by (simp add: world_after_def k_max_sema_count_def del: upt_Suc)
qed

theorem semaphore_main_witness:
  "\<exists>w. sema_main (replicate 10 (new_guide 2 3)) (\<lambda>_. (0, 0)) = Some w \<and> semaphore w = 3 \<and>
     List.map wait_on_sema (guides w) = [0, 5, 10, 15, 20, 25, 30, 35, 40, 45]"
proof -
  let ?gs = "replicate 10 (new_guide 2 3)" and ?l = "\<lambda>_ :: nat. (0 :: nat, 0 :: nat)"
  have idx: "[0..<10] = [0, 1, 2, 3, 4, 5, 6, 7, 8, 9 :: nat]" by code_simp
  have "List.map wait_on_sema (List.map (guide_after ?gs ?l) [0..<10]) = [0, 5, 10, 15, 20, 25, 30, 35, 40, 45]"
    by (simp add: idx guide_after_def busy_until_def new_guide_def k_time_tick_def upt_rec del: upt_Suc)
  note waits = this
  have "length ?gs = 10" by (rule length_replicate)
  from semaphore_main [OF this, of ?l] obtain w where w: "sema_main ?gs ?l = Some w" "semaphore w = 3"
    "guides w = List.map (guide_after ?gs ?l) [0..<10]" by (elim exE conjE)
  have "List.map wait_on_sema (guides w) = [0, 5, 10, 15, 20, 25, 30, 35, 40, 45]"
    unfolding w(3) by (rule waits)
  with w(1,2) show ?thesis by (intro exI [of _ w] conjI)
qed

end
