(* ===== verification/Interruptible.thy ===== *)
theory Interruptible
  imports Prelude
begin

text \<open>
  \<open>multithread/interruptible_thread.h\<close>: the interrupt flag of a thread, the interruption
  points, the four interruptible waits, and the constructor that hands the flag out.
  A wait for at most a millisecond is a point where the environment may act: the \<open>n\<close>th
  reading of the flag gives \<open>fl n\<close>, and the \<open>i\<close>th test of the predicate or future \<open>pr i\<close>.
\<close>

section \<open>The flag\<close>

record interrupt_flag =
  iflag :: bool
  icv :: "nat option"            \<comment> \<open>the registered \<open>condition_variable\<close>\<close>
  icv_any :: "nat option"

definition new_flag :: interrupt_flag where
  "new_flag = \<lparr>iflag = False, icv = None, icv_any = None\<rparr>"

definition interrupted_what :: string where
  "interrupted_what = ''thread interrupted.''"

datatype notified = Nobody | NotifyCv nat | NotifyAny nat

definition flag_set :: "interrupt_flag \<Rightarrow> interrupt_flag \<times> notified" where
  "flag_set f = (f\<lparr>iflag := True\<rparr>, case icv f of
       Some c \<Rightarrow> NotifyCv c
     | None \<Rightarrow> (case icv_any f of Some c \<Rightarrow> NotifyAny c | None \<Rightarrow> Nobody))"

definition set_condition_variable :: "nat \<Rightarrow> interrupt_flag \<Rightarrow> interrupt_flag" where
  "set_condition_variable c f = f\<lparr>icv := Some c\<rparr>"

definition clear_condition_variable :: "interrupt_flag \<Rightarrow> interrupt_flag" where
  "clear_condition_variable f = f\<lparr>icv := None\<rparr>"

text \<open>An interruption point throws when the flag reads as set.\<close>

definition interruption_point :: "bool \<Rightarrow> string + unit" where
  "interruption_point b = (if b then Inl interrupted_what else Inr ())"

section \<open>Interruptible waits\<close>

text \<open>The result of a wait: what it throws or that it returns, and the registration it leaves.
  The guard clears the registration on every path on which it was constructed.\<close>

definition guarded :: "(string + unit) \<Rightarrow> interrupt_flag \<Rightarrow> (string + unit) \<times> interrupt_flag" where
  "guarded r f = (r, clear_condition_variable f)"

definition wait_cv :: "nat \<Rightarrow> (nat \<Rightarrow> bool) \<Rightarrow> interrupt_flag \<Rightarrow> (string + unit) \<times> interrupt_flag" where
  "wait_cv c fl f = (case interruption_point (fl 0) of
       Inl e \<Rightarrow> (Inl e, f)
     | Inr _ \<Rightarrow> guarded (bindr (interruption_point (fl 1)) (\<lambda>_. interruption_point (fl 2)))
         (set_condition_variable c f))"

partial_function (option) wait_loop :: "(nat \<Rightarrow> bool) \<Rightarrow> (nat \<Rightarrow> bool) \<Rightarrow> nat \<Rightarrow> nat option" where
  "wait_loop fl pr i = (if \<not> fl i \<and> \<not> pr i then wait_loop fl pr (i + 1) else Some i)"

text \<open>The wait with a predicate: reading 0 is the first interruption point, the loop reads
  from 1 on, and the last interruption point reads once more.\<close>

definition wait_pred :: "nat \<Rightarrow> (nat \<Rightarrow> bool) \<Rightarrow> (nat \<Rightarrow> bool) \<Rightarrow> interrupt_flag \<Rightarrow>
    ((string + unit) \<times> interrupt_flag) option" where
  "wait_pred c fl pr f = (case interruption_point (fl 0) of
       Inl e \<Rightarrow> Some (Inl e, f)
     | Inr _ \<Rightarrow> (case wait_loop (\<lambda>i. fl (i + 1)) pr 0 of
           None \<Rightarrow> None
         | Some i \<Rightarrow> Some (guarded (interruption_point (fl (i + 2))) (set_condition_variable c f))))"

definition wait_future :: "(nat \<Rightarrow> bool) \<Rightarrow> (nat \<Rightarrow> bool) \<Rightarrow> (string + unit) option" where
  "wait_future fl ready = (case wait_loop fl ready 0 of
       None \<Rightarrow> None
     | Some i \<Rightarrow> Some (interruption_point (fl (i + 1))))"

lemma wait_loop_stops:
  "fl n \<or> pr n \<Longrightarrow> i \<le> n \<Longrightarrow>
     wait_loop fl pr i = Some (LEAST j. i \<le> j \<and> (fl j \<or> pr j))"
proof (induction "n - i" arbitrary: i)
  case 0
  then have "i = n" by simp
  with 0 have "(LEAST j. i \<le> j \<and> (fl j \<or> pr j)) = i" by (intro Least_equality) auto
  with 0 \<open>i = n\<close> show ?case by (subst wait_loop.simps) auto
next
  case (Suc d)
  show ?case
  proof (cases "fl i \<or> pr i")
    case True
    then have "(LEAST j. i \<le> j \<and> (fl j \<or> pr j)) = i" by (intro Least_equality) auto
    with True show ?thesis by (subst wait_loop.simps) auto
  next
    case False
    have le: "Suc i \<le> j" if "i \<le> j" "fl j \<or> pr j" for j
    proof -
      have "j \<noteq> i" using that False by auto
      with that show ?thesis by simp
    qed
    have "(\<lambda>j. i \<le> j \<and> (fl j \<or> pr j)) = (\<lambda>j. Suc i \<le> j \<and> (fl j \<or> pr j))"
      by (rule ext) (use le in auto)
    moreover have "wait_loop fl pr (i + 1) = Some (LEAST j. Suc i \<le> j \<and> (fl j \<or> pr j))"
      using Suc.hyps(1) [of "Suc i"] Suc.hyps(2) Suc.prems by simp
    ultimately show ?thesis using False by (subst wait_loop.simps) simp
  qed
qed

section \<open>\<open>interrupt_flag::wait\<close> against \<open>set\<close>\<close>

text \<open>The wait on a \<open>condition_variable_any\<close>: \<open>custom_lock\<close> holds \<open>cv_mtx_\<close> from its constructor
  to its destructor except while it sleeps. A waiting and an interrupting thread interleave.\<close>

datatype waiter_pc =
    WStart | WRegister | WPoint1 | WSleep | WAsleep | WRelock | WPoint2
  | WDestruct bool          \<comment> \<open>true: \<open>thread_interrupted\<close> is propagating\<close>
  | WUnlock bool
  | WReturned bool

datatype setter_pc = SStore | SLock | SNotify | SDone

record wait_sys =
  wflag :: bool
  wcv_any :: bool            \<comment> \<open>\<open>cv_any_\<close> is registered\<close>
  cv_mtx :: "bool option"    \<comment> \<open>holder of \<open>cv_mtx_\<close>: true the waiter, false the setter\<close>
  lk_held :: bool            \<comment> \<open>the waiter holds its own lock\<close>
  waiter :: waiter_pc
  setter :: setter_pc

datatype wait_action = WaiterGo | SetterGo | WaiterSpurious

definition wait_start :: wait_sys where
  "wait_start = \<lparr>wflag = False, wcv_any = False, cv_mtx = None, lk_held = True, waiter = WStart, setter = SStore\<rparr>"

fun waiter_go :: "waiter_pc \<Rightarrow> wait_sys \<Rightarrow> wait_sys option" where
  "waiter_go WStart s = (if cv_mtx s = None then Some (s\<lparr>cv_mtx := Some True, waiter := WRegister\<rparr>) else None)"
| "waiter_go WRegister s = Some (s\<lparr>wcv_any := True, waiter := WPoint1\<rparr>)"
| "waiter_go WPoint1 s = Some (s\<lparr>waiter := if wflag s then WDestruct True else WSleep\<rparr>)"
| "waiter_go WSleep s = Some (s\<lparr>lk_held := False, cv_mtx := None, waiter := WAsleep\<rparr>)"
| "waiter_go WAsleep s = None"
| "waiter_go WRelock s =
     (if cv_mtx s = None then Some (s\<lparr>cv_mtx := Some True, lk_held := True, waiter := WPoint2\<rparr>) else None)"
| "waiter_go WPoint2 s = Some (s\<lparr>waiter := WDestruct (wflag s)\<rparr>)"
| "waiter_go (WDestruct e) s = Some (s\<lparr>wcv_any := False, waiter := WUnlock e\<rparr>)"
| "waiter_go (WUnlock e) s = Some (s\<lparr>cv_mtx := None, waiter := WReturned e\<rparr>)"
| "waiter_go (WReturned e) s = None"

fun setter_go :: "setter_pc \<Rightarrow> wait_sys \<Rightarrow> wait_sys option" where
  "setter_go SStore s = Some (s\<lparr>wflag := True, setter := SLock\<rparr>)"
| "setter_go SLock s = (if cv_mtx s = None then Some (s\<lparr>cv_mtx := Some False, setter := SNotify\<rparr>) else None)"
| "setter_go SNotify s = Some (s\<lparr>cv_mtx := None, setter := SDone,
     waiter := if wcv_any s \<and> waiter s = WAsleep then WRelock else waiter s\<rparr>)"
| "setter_go SDone s = None"

fun wait_step :: "wait_sys \<Rightarrow> wait_action \<Rightarrow> wait_sys option" where
  "wait_step s WaiterGo = waiter_go (waiter s) s"
| "wait_step s SetterGo = setter_go (setter s) s"
| "wait_step s WaiterSpurious = (if waiter s = WAsleep then Some (s\<lparr>waiter := WRelock\<rparr>) else None)"

fun waiter_holds :: "waiter_pc \<Rightarrow> bool" where
  "waiter_holds WRegister = True"
| "waiter_holds WPoint1 = True"
| "waiter_holds WSleep = True"
| "waiter_holds WPoint2 = True"
| "waiter_holds (WDestruct e) = True"
| "waiter_holds (WUnlock e) = True"
| "waiter_holds _ = False"

fun registered :: "waiter_pc \<Rightarrow> bool" where
  "registered WPoint1 = True"
| "registered WSleep = True"
| "registered WAsleep = True"
| "registered WRelock = True"
| "registered WPoint2 = True"
| "registered (WDestruct e) = True"
| "registered _ = False"

definition wait_inv :: "wait_sys \<Rightarrow> bool" where
  "wait_inv s \<longleftrightarrow> cv_mtx s = (if waiter_holds (waiter s) then Some True else if setter s = SNotify then Some False else None) \<and>
     (waiter_holds (waiter s) \<longrightarrow> setter s \<noteq> SNotify) \<and>
     wcv_any s = registered (waiter s) \<and>
     lk_held s = (waiter s \<noteq> WAsleep \<and> waiter s \<noteq> WRelock) \<and>
     wflag s = (setter s \<noteq> SStore) \<and>
     (setter s = SDone \<longrightarrow> waiter s \<noteq> WSleep \<and> waiter s \<noteq> WAsleep) \<and>
     (case waiter s of WDestruct e \<Rightarrow> e \<longrightarrow> wflag s | WUnlock e \<Rightarrow> e \<longrightarrow> wflag s | WReturned e \<Rightarrow> e \<longrightarrow> wflag s | _ \<Rightarrow> True)"

lemma wait_step_inv: "wait_inv s \<Longrightarrow> wait_step s a = Some s' \<Longrightarrow> wait_inv s'"
proof (cases a)
  case WaiterGo
  assume "wait_inv s" "wait_step s a = Some s'"
  with WaiterGo show ?thesis
    by (cases "waiter s") (auto simp: wait_inv_def split: if_splits)
next
  case SetterGo
  assume inv: "wait_inv s" and "wait_step s a = Some s'"
  with SetterGo have st: "setter_go (setter s) s = Some s'" by simp
  show ?thesis
  proof (cases "setter s")
    case SStore
    with st have s': "s' = s\<lparr>wflag := True, setter := SLock\<rparr>" by simp
    from inv SStore show ?thesis
      unfolding wait_inv_def s' by (simp split: waiter_pc.split)
  next
    case SLock
    with st have s': "s' = s\<lparr>cv_mtx := Some False, setter := SNotify\<rparr>" and m: "cv_mtx s = None"
      by (simp_all split: if_splits)
    from inv m have "\<not> waiter_holds (waiter s)" by (auto simp: wait_inv_def)
    with inv SLock show ?thesis unfolding wait_inv_def s' by (cases "waiter s") simp_all
  next
    case SNotify
    with inv have h: "\<not> waiter_holds (waiter s)" by (auto simp: wait_inv_def)
    from SNotify st have s': "s' = s\<lparr>cv_mtx := None, setter := SDone,
        waiter := if wcv_any s \<and> waiter s = WAsleep then WRelock else waiter s\<rparr>" by simp
    from inv SNotify h show ?thesis
      unfolding wait_inv_def s' by (cases "waiter s") simp_all
  qed (use st in simp)
next
  case WaiterSpurious
  assume "wait_inv s" "wait_step s a = Some s'"
  with WaiterSpurious show ?thesis by (auto simp: wait_inv_def split: if_splits)
qed

interpretation any_wait: invariant_system wait_step wait_start wait_inv
proof unfold_locales
  show "wait_inv wait_start" by (simp add: wait_inv_def wait_start_def)
qed (rule wait_step_inv)

section \<open>The constructor and the demo\<close>

text \<open>The constructor asks the future for the flag before it creates the thread that sets
  the promise. \<open>MainGo\<close> is a step of the demo's \<open>main\<close>, \<open>ThreadGo i\<close> one of thread \<open>i\<close>.\<close>

datatype ctor_pc = CtorPromise | CtorGet | CtorSpawn

datatype demo_pc = Building nat ctor_pc | Interrupting nat | Joining nat | DemoDone

record demo =
  demo_pc :: demo_pc
  promises :: "nat \<Rightarrow> bool"        \<comment> \<open>the promise of thread \<open>i\<close> has its value\<close>
  spawned :: "nat set"
  demo_out :: "string list"

datatype demo_action = MainGo | ThreadGo nat

definition demo_start :: demo where
  "demo_start = \<lparr>demo_pc = Building 0 CtorPromise, promises = \<lambda>_. False, spawned = {}, demo_out = []\<rparr>"

fun main_go :: "demo_pc \<Rightarrow> demo \<Rightarrow> demo option" where
  "main_go (Building i CtorPromise) d = Some (d\<lparr>demo_pc := Building i CtorGet\<rparr>)"
| "main_go (Building i CtorGet) d = (if promises d i then Some (d\<lparr>demo_pc := Building i CtorSpawn\<rparr>) else None)"
| "main_go (Building i CtorSpawn) d = Some (d\<lparr>spawned := insert i (spawned d),
     demo_pc := if i = 0 then Building 1 CtorPromise else Interrupting 0\<rparr>)"
| "main_go (Interrupting i) d = Some (d\<lparr>demo_out := demo_out d @ [''ss''],
     demo_pc := if i = 0 then Interrupting 1 else Joining 0\<rparr>)"
| "main_go (Joining i) d = Some (d\<lparr>demo_pc := if i = 0 then Joining 1 else DemoDone\<rparr>)"
| "main_go DemoDone d = None"

fun demo_step :: "demo \<Rightarrow> demo_action \<Rightarrow> demo option" where
  "demo_step d MainGo = main_go (demo_pc d) d"
| "demo_step d (ThreadGo i) =
     (if i \<in> spawned d \<and> \<not> promises d i then Some (d\<lparr>promises := (promises d)(i := True)\<rparr>) else None)"

definition demo_inv :: "demo \<Rightarrow> bool" where
  "demo_inv d \<longleftrightarrow> d = demo_start \<or> d = demo_start\<lparr>demo_pc := Building 0 CtorGet\<rparr>"

lemma demo_step_inv: "demo_inv d \<Longrightarrow> demo_step d a = Some d' \<Longrightarrow> demo_inv d'"
  by (cases a) (auto simp: demo_inv_def demo_start_def)

interpretation ctor: invariant_system demo_step demo_start demo_inv
proof unfold_locales
  show "demo_inv demo_start" by (simp add: demo_inv_def)
qed (rule demo_step_inv)

section \<open>Properties\<close>

text \<open>C36: an interruption cannot get lost in the wait on a \<open>condition_variable_any\<close>: once \<open>set\<close>
  has returned the waiting thread is neither asleep nor about to fall asleep, whatever the
  interleaving; and when the wait is left, normally or by the exception, the caller's lock is
  held, nothing is registered, and the exception comes only with the flag.\<close>

theorem interrupt_not_lost:
  "reachable wait_step wait_start s \<Longrightarrow>
     \<not> (setter s = SDone \<and> waiter s \<in> {WSleep, WAsleep}) \<and>
     \<not> (\<exists>e. waiter s = WReturned e \<and> (\<not> lk_held s \<or> wcv_any s \<or> cv_mtx s = Some True \<or> e \<and> \<not> wflag s))"
  using any_wait.reachable_inv [of s] by (auto simp: wait_inv_def)

definition wait_example :: wait_sys where
  "wait_example = \<lparr>wflag = True, wcv_any = False, cv_mtx = None, lk_held = True, waiter = WReturned True, setter = SDone\<rparr>"

theorem interrupt_not_lost_witness:
  "\<not> (setter wait_example = SDone \<and> waiter wait_example \<in> {WSleep, WAsleep}) \<and>
   \<not> (\<exists>e. waiter wait_example = WReturned e \<and> (\<not> lk_held wait_example \<or> wcv_any wait_example \<or>
        cv_mtx wait_example = Some True \<or> e \<and> \<not> wflag wait_example))"
proof -
  have "run wait_step wait_start [WaiterGo, WaiterGo, WaiterGo, SetterGo, WaiterGo, SetterGo, SetterGo,
      WaiterGo, WaiterGo, WaiterGo, WaiterGo] = Some wait_example"
    by (simp add: wait_start_def wait_example_def)
  then show ?thesis by (rule interrupt_not_lost [OF run_reachable])
qed

text \<open>the wait with a predicate ends as soon as a test finds the flag or the predicate
  true; it throws exactly when the flag is read as set at its last interruption point, and
  leaves no condition variable registered.\<close>

theorem wait_pred_result:
  "\<not> fl 0 \<Longrightarrow>
     (fl (n + 1) \<or> pr n \<Longrightarrow>
        wait_pred c fl pr f =
          Some (if fl ((LEAST i. fl (i + 1) \<or> pr i) + 2) then Inl interrupted_what else Inr (), f\<lparr>icv := None\<rparr>))"
proof -
  assume f0: "\<not> fl 0" and n: "fl (n + 1) \<or> pr n"
  have "wait_loop (\<lambda>i. fl (i + 1)) pr 0 = Some (LEAST i. fl (i + 1) \<or> pr i)"
    using wait_loop_stops [of "\<lambda>i. fl (i + 1)" n pr 0] n by simp
  with f0 show ?thesis
    by (simp add: wait_pred_def interruption_point_def guarded_def clear_condition_variable_def set_condition_variable_def)
qed

theorem wait_pred_result_witness:
  "wait_pred 4 (\<lambda>n. 7 \<le> n) (\<lambda>i. i = 3) new_flag = Some (Inr (), new_flag)"
proof -
  have "(LEAST i. 7 \<le> i + 1 \<or> i = (3 :: nat)) = 3" by (intro Least_equality) auto
  then show ?thesis
    using wait_pred_result [of "\<lambda>n. 7 \<le> n" 3 "\<lambda>i. i = 3" 4 new_flag] by (simp add: new_flag_def)
qed

text \<open>the program hangs in the constructor of its first thread: the future is asked for
  the flag that only the thread created afterwards provides, so no thread is ever created,
  nothing is printed, and after one step no step is possible.\<close>

theorem interruptible_constructor_hangs:
  "reachable demo_step demo_start d \<Longrightarrow>
     spawned d = {} \<and> demo_out d = [] \<and>
     (demo_pc d = Building 0 CtorPromise \<or> demo_pc d = Building 0 CtorGet \<and> {a. demo_step d a \<noteq> None} = {})"
proof -
  assume "reachable demo_step demo_start d"
  then have "demo_inv d" by (rule ctor.reachable_inv)
  moreover have "demo_step (demo_start\<lparr>demo_pc := Building 0 CtorGet\<rparr>) a = None" for a
    by (cases a) (simp_all add: demo_start_def)
  ultimately show ?thesis by (auto simp: demo_inv_def demo_start_def)
qed

definition demo_stuck :: demo where
  "demo_stuck = demo_start\<lparr>demo_pc := Building 0 CtorGet\<rparr>"

theorem interruptible_constructor_hangs_witness:
  "demo_pc demo_stuck = Building 0 CtorGet \<and> {a. demo_step demo_stuck a \<noteq> None} = {}"
proof -
  have "run demo_step demo_start [MainGo] = Some demo_stuck" by (simp add: demo_start_def demo_stuck_def)
  from interruptible_constructor_hangs [OF run_reachable [OF this]] show ?thesis
    by (simp add: demo_stuck_def demo_start_def)
qed

end
