(* ===== verification/Traversal.thy ===== *)
theory Traversal
  imports CxxText "HOL-Library.Multiset"
begin

text \<open>
  The traversals of \<open>multithread/parallel_traversal.h\<close>, \<open>dichotomy_traversal.h\<close> and
  \<open>paraller_find.h\<close>. A range is a list, an iterator a position in it, and the function that is
  applied an effect on a shared state \<open>'s\<close>. \<open>std::async\<close> followed at once by \<open>get\<close> runs the
  task before going on; two halves that are really concurrent give every interleaving.
\<close>

section \<open>Distributing the elements\<close>

definition kMinPerThreadCount :: nat where "kMinPerThreadCount = 25"

datatype traversal_error = DivisionByZero

text \<open>The numbers of threads and of elements per thread; \<open>hw\<close> is \<open>hardware_concurrency()\<close>,
  which may be 0 when it is not known.\<close>

definition need_thread_num :: "nat \<Rightarrow> nat" where
  "need_thread_num n = (n - 1) div kMinPerThreadCount + 1"

definition real_thread_num :: "nat \<Rightarrow> nat \<Rightarrow> nat" where
  "real_thread_num hw n = min hw (need_thread_num n)"

definition each_thread_task_num :: "nat \<Rightarrow> nat \<Rightarrow> traversal_error + nat" where
  "each_thread_task_num hw n =
     (if real_thread_num hw n = 0 then Inl DivisionByZero else Inr (n div real_thread_num hw n))"

definition for_each :: "('a \<Rightarrow> 's \<Rightarrow> 's) \<Rightarrow> 'a list \<Rightarrow> 's \<Rightarrow> 's" where
  "for_each f xs s = fold f xs s"

text \<open>The loop over the other threads: \<open>k\<close> chunks of \<open>each\<close> elements; then the main thread.\<close>

fun traverse_chunks :: "('a \<Rightarrow> 's \<Rightarrow> 's) \<Rightarrow> nat \<Rightarrow> nat \<Rightarrow> 'a list \<Rightarrow> 's \<Rightarrow> 'a list \<times> 's" where
  "traverse_chunks f each 0 xs s = (xs, s)"
| "traverse_chunks f each (Suc k) xs s = traverse_chunks f each k (drop each xs) (for_each f (take each xs) s)"

definition paraller_traversal :: "nat \<Rightarrow> ('a \<Rightarrow> 's \<Rightarrow> 's) \<Rightarrow> 'a list \<Rightarrow> 's \<Rightarrow> traversal_error + 's" where
  "paraller_traversal hw f xs s =
     (if length xs = 0 then Inr s
      else bindr (each_thread_task_num hw (length xs)) (\<lambda>each.
        case traverse_chunks f each (real_thread_num hw (length xs) - 1) xs s of (ys, s1) \<Rightarrow> Inr (for_each f ys s1)))"

section \<open>Finding\<close>

text \<open>The search of one thread, as in the code: it stops when \<open>has_found\<close> is set, and
  otherwise sets the promise to the first position it finds; \<open>i\<close> is the position of the list.\<close>

fun findMatchType :: "'a \<Rightarrow> nat \<Rightarrow> 'a list \<Rightarrow> nat option \<Rightarrow> nat option" where
  "findMatchType t i [] found = found"
| "findMatchType t i (x # xs) found =
     (if found \<noteq> None then found else if x = t then Some i else findMatchType t (i + 1) xs found)"

fun find_chunks :: "'a \<Rightarrow> nat \<Rightarrow> nat \<Rightarrow> nat \<Rightarrow> 'a list \<Rightarrow> nat option \<Rightarrow> nat \<times> 'a list \<times> nat option" where
  "find_chunks t each 0 i xs found = (i, xs, found)"
| "find_chunks t each (Suc k) i xs found =
     find_chunks t each k (i + each) (drop each xs) (findMatchType t i (take each xs) found)"

definition paraller_find :: "nat \<Rightarrow> 'a list \<Rightarrow> 'a \<Rightarrow> traversal_error + nat" where
  "paraller_find hw xs t =
     (if length xs = 0 then Inr 0
      else bindr (each_thread_task_num hw (length xs)) (\<lambda>each.
        case find_chunks t each (real_thread_num hw (length xs) - 1) 0 xs None of (i, ys, found) \<Rightarrow>
          (case findMatchType t i ys found of None \<Rightarrow> Inr (length xs) | Some p \<Rightarrow> Inr p)))"

text \<open>\<open>std::find\<close>: the first position with the value, or the end.\<close>

fun std_find :: "'a list \<Rightarrow> 'a \<Rightarrow> nat" where
  "std_find [] t = 0"
| "std_find (x # xs) t = (if x = t then 0 else std_find xs t + 1)"

section \<open>Halving\<close>

text \<open>The orders in which \<open>dichotomy_traversal\<close> may apply its function: the first half runs
  asynchronously to the second.\<close>

function dichotomy_orders :: "'a list \<Rightarrow> 'a list set" where
  "dichotomy_orders xs =
     (if length xs = 0 then {[]}
      else if length xs \<le> kMinPerThreadCount then {xs}
      else (\<Union>ys \<in> dichotomy_orders (take (length xs div 2) xs).
              \<Union>zs \<in> dichotomy_orders (drop (length xs div 2) xs). shuffles ys zs))"
  by auto
termination by (relation "measure length") (auto simp: kMinPerThreadCount_def)

declare dichotomy_orders.simps [simp del]

section \<open>The programs\<close>

definition sumValue :: "int \<Rightarrow> int \<Rightarrow> int" where
  "sumValue each_value value = value + each_value"

definition total_line :: "int \<Rightarrow> string" where
  "total_line v = ''total value is '' @ show_int v"

definition elapsed_line :: "string \<Rightarrow> int \<Rightarrow> string" where
  "elapsed_line what us = what @ show_int us @ '' us''"

text \<open>The elapsed times are arguments; the number of elements is the constant of the code.\<close>

definition traversal_main :: "nat \<Rightarrow> nat \<Rightarrow> int \<Rightarrow> int \<Rightarrow> traversal_error + string list" where
  "traversal_main task_num hw us1 us2 =
     bindr (paraller_traversal hw sumValue (replicate task_num 1) 0) (\<lambda>v.
       Inr [total_line v, elapsed_line ''DIY Parallel Elapsed Time: '' us1,
            total_line (for_each sumValue (replicate task_num 1) 0), elapsed_line ''Std::for_each Elapsed Time: '' us2])"

definition dichotomy_main :: "nat \<Rightarrow> int \<Rightarrow> int \<Rightarrow> string list set" where
  "dichotomy_main task_num us1 us2 =
     (\<lambda>order. [total_line (for_each sumValue order 0), elapsed_line ''DIY Parallel Elapsed Time: '' us1,
        total_line (for_each sumValue (replicate task_num 1) 0), elapsed_line ''Std::for_each Elapsed Time: '' us2]) `
     dichotomy_orders (replicate task_num (1 :: int))"

definition position_line :: "nat \<Rightarrow> string" where
  "position_line p = ''Found position is '' @ show_nat p"

definition find_main :: "nat \<Rightarrow> nat \<Rightarrow> nat \<Rightarrow> int \<Rightarrow> int \<Rightarrow> traversal_error + string list" where
  "find_main task_num correct_index hw us1 us2 =
     (let funcs = (replicate task_num (0 :: int))[correct_index := 1] in
      bindr (paraller_find hw funcs 1) (\<lambda>p.
        Inr [position_line p, elapsed_line ''DIY Parallel Find Elapsed Time: '' us1,
             position_line (std_find funcs 1), elapsed_line ''Std::for_each Elapsed Time: '' us2]))"

section \<open>Lemmas\<close>

lemma traverse_chunks_fold:
  "(case traverse_chunks f each k xs s of (ys, s1) \<Rightarrow> for_each f ys s1) = for_each f xs s"
proof (induction f each k xs s rule: traverse_chunks.induct)
  case (2 f each k xs s)
  have "for_each f (drop each xs) (for_each f (take each xs) s) = for_each f xs s"
    unfolding for_each_def by (subst (3) append_take_drop_id [of each xs, symmetric]) (simp only: fold_append comp_apply)
  with 2 show ?case by simp
qed simp

lemma real_thread_num_pos: "0 < hw \<Longrightarrow> real_thread_num hw n \<noteq> 0"
  by (simp add: real_thread_num_def need_thread_num_def)

lemma findMatchType_found: "findMatchType t i xs (Some p) = Some p"
  by (cases xs) auto

lemma findMatchType_first:
  "findMatchType t i xs None = (if t \<in> set xs then Some (i + std_find xs t) else None)"
  by (induction xs arbitrary: i) auto

lemma std_find_append: "std_find (xs @ ys) t = (if t \<in> set xs then std_find xs t else length xs + std_find ys t)"
  by (induction xs) auto

lemma std_find_absent: "t \<notin> set xs \<Longrightarrow> std_find xs t = length xs"
  by (induction xs) auto

lemma find_chunks_found: "find_chunks t each k i xs (Some p) = (i + k * each, drop (k * each) xs, Some p)"
  by (induction k arbitrary: i xs) (simp_all add: findMatchType_found algebra_simps)

lemma find_chunks_find:
  assumes "k * each \<le> length xs"
  shows "(case find_chunks t each k i xs None of (j, ys, found) \<Rightarrow> findMatchType t j ys found) =
    (if t \<in> set xs then Some (i + std_find xs t) else None)"
  using assms
proof (induction k arbitrary: i xs)
  case 0
  then show ?case by (simp add: findMatchType_first)
next
  case (Suc k)
  then have len: "length (take each xs) = each" by simp
  have split: "set xs = set (take each xs) \<union> set (drop each xs)"
    by (metis append_take_drop_id set_append)
  have sf: "std_find xs t = (if t \<in> set (take each xs) then std_find (take each xs) t else each + std_find (drop each xs) t)"
    using std_find_append [of "take each xs" "drop each xs" t] len by (simp del: length_take)
  show ?case
  proof (cases "t \<in> set (take each xs)")
    case True
    with split sf show ?thesis by (simp add: findMatchType_first find_chunks_found findMatchType_found)
  next
    case False
    from Suc.prems have "k * each \<le> length (drop each xs)" by simp
    from Suc.IH [OF this, of "i + each"] False split sf show ?thesis
      by (simp add: findMatchType_first add.assoc)
  qed
qed

lemma chunks_fit: "r \<noteq> 0 \<Longrightarrow> (r - 1) * (n div r) \<le> n" for n :: nat
proof -
  assume "r \<noteq> 0"
  have "(r - 1) * (n div r) \<le> r * (n div r)" by (intro mult_right_mono) auto
  also have "\<dots> \<le> n" by (simp add: mult.commute div_times_less_eq_dividend)
  finally show ?thesis .
qed

lemma dichotomy_mset: "ys \<in> dichotomy_orders xs \<Longrightarrow> mset ys = mset xs"
proof (induction xs arbitrary: ys rule: dichotomy_orders.induct)
  case (1 xs)
  consider "length xs = 0" | "length xs \<noteq> 0" "length xs \<le> kMinPerThreadCount"
    | "length xs \<noteq> 0" "\<not> length xs \<le> kMinPerThreadCount" by blast
  then show ?case
  proof cases
    case 3
    with 1(3) obtain as bs where ab: "as \<in> dichotomy_orders (take (length xs div 2) xs)"
      "bs \<in> dichotomy_orders (drop (length xs div 2) xs)" "ys \<in> shuffles as bs"
      by (subst (asm) dichotomy_orders.simps) auto
    have "mset ys = mset as + mset bs" using ab(3) by (rule mset_shuffles)
    also have "\<dots> = mset (take (length xs div 2) xs @ drop (length xs div 2) xs)"
      using 1(1) [OF 3 ab(1)] 1(2) [OF 3 ab(1,2)] by (simp only: mset_append)
    finally show ?thesis by simp
  qed (use 1(3) in \<open>subst (asm) dichotomy_orders.simps; simp\<close>)+
qed

lemma dichotomy_orders_nonempty: "dichotomy_orders xs \<noteq> {}"
proof (induction xs rule: dichotomy_orders.induct)
  case (1 xs)
  show ?case
  proof (cases "length xs = 0 \<or> length xs \<le> kMinPerThreadCount")
    case True
    then show ?thesis by (subst dichotomy_orders.simps) auto
  next
    case False
    with 1(1) obtain as where as: "as \<in> dichotomy_orders (take (length xs div 2) xs)" by auto
    with 1(2) [OF _ _ as] False obtain bs where "bs \<in> dichotomy_orders (drop (length xs div 2) xs)" by auto
    with as False show ?thesis by (subst dichotomy_orders.simps) (auto intro: exI [of _ as] exI [of _ bs])
  qed
qed

section \<open>Properties\<close>

text \<open>for any function with side effects the parallel traversal has the effect of
  \<open>std::for_each\<close> on the whole range, whatever the number of hardware threads, unless that
  number is not known: then it divides by zero on every range that is not empty.\<close>

theorem paraller_traversal_is_for_each:
  "paraller_traversal hw f xs s =
     (if xs = [] \<or> 0 < hw then Inr (for_each f xs s) else Inl DivisionByZero)"
proof (cases "xs = []")
  case True
  then show ?thesis by (simp add: paraller_traversal_def for_each_def)
next
  case False
  show ?thesis
  proof (cases "0 < hw")
    case True
    with False real_thread_num_pos [OF True] show ?thesis
      using traverse_chunks_fold [of f "length xs div real_thread_num hw (length xs)" "real_thread_num hw (length xs) - 1" xs s]
      by (simp add: paraller_traversal_def each_thread_task_num_def split: prod.splits)
  next
    case hw: False
    then have "hw = 0" by simp
    with False show ?thesis
      by (simp add: paraller_traversal_def each_thread_task_num_def real_thread_num_def)
  qed
qed

text \<open>the parallel search returns the position that \<open>std::find\<close> returns, the first match
  or the end, for every number of hardware threads that is known.\<close>

theorem paraller_find_is_find:
  "paraller_find hw xs t = (if xs = [] \<or> 0 < hw then Inr (std_find xs t) else Inl DivisionByZero)"
proof (cases "xs = []")
  case True
  then show ?thesis by (simp add: paraller_find_def)
next
  case False
  show ?thesis
  proof (cases "0 < hw")
    case True
    let ?r = "real_thread_num hw (length xs)"
    have "(?r - 1) * (length xs div ?r) \<le> length xs" by (rule chunks_fit [OF real_thread_num_pos [OF True]])
    from find_chunks_find [OF this, of t 0] False True
      real_thread_num_pos [OF True, of "length xs"] std_find_absent [of t xs]
    show ?thesis
      by (auto simp: paraller_find_def each_thread_task_num_def split: prod.splits option.splits if_splits)
  next
    case hw: False
    then have "hw = 0" by simp
    with False show ?thesis
      by (simp add: paraller_find_def each_thread_task_num_def real_thread_num_def)
  qed
qed

text \<open>in every interleaving of its concurrent halves the halving traversal applies its
  function to each element exactly once; so for effects that commute, like the atomic
  addition of the demo, the result is that of \<open>std::for_each\<close>.\<close>

theorem dichotomy_is_for_each:
  assumes "order \<in> dichotomy_orders xs" and "\<And>x y. x \<in> set xs \<Longrightarrow> y \<in> set xs \<Longrightarrow> f x \<circ> f y = f y \<circ> f x"
  shows "mset order = mset xs \<and> for_each f order s = for_each f xs s"
proof
  show m: "mset order = mset xs" by (rule dichotomy_mset [OF assms(1)])
  have "fold f xs = fold f order"
    by (rule fold_multiset_equiv [OF assms(2) m [symmetric]])
  then show "for_each f order s = for_each f xs s" by (simp add: for_each_def)
qed

theorem dichotomy_is_for_each_witness:
  "\<exists>order \<in> dichotomy_orders (replicate 30 (1 :: int)). mset order = mset (replicate 30 1) \<and>
     for_each sumValue order 0 = for_each sumValue (replicate 30 1) 0"
proof -
  obtain order where "order \<in> dichotomy_orders (replicate 30 (1 :: int))" using dichotomy_orders_nonempty by blast
  with dichotomy_is_for_each [OF this, of sumValue 0] show ?thesis
    by (intro bexI [of _ order]) (simp_all add: sumValue_def comp_def)
qed

lemma sum_ones: "for_each sumValue (replicate n 1) v = v + int n"
  unfolding for_each_def by (induction n arbitrary: v) (simp_all add: sumValue_def)

text \<open>Both demo programs print the number of elements twice.\<close>

lemma dichotomy_main_total:
  "out \<in> dichotomy_main n us1 us2 \<Longrightarrow> out = [total_line (int n), elapsed_line ''DIY Parallel Elapsed Time: '' us1,
     total_line (int n), elapsed_line ''Std::for_each Elapsed Time: '' us2]"
proof -
  assume "out \<in> dichotomy_main n us1 us2"
  then obtain order where o: "order \<in> dichotomy_orders (replicate n (1 :: int))"
    and out: "out = [total_line (for_each sumValue order 0), elapsed_line ''DIY Parallel Elapsed Time: '' us1,
      total_line (for_each sumValue (replicate n 1) 0), elapsed_line ''Std::for_each Elapsed Time: '' us2]"
    by (auto simp: dichotomy_main_def)
  from dichotomy_mset [OF o] have "set order \<subseteq> {1}" "length order = n"
    by (metis set_mset_mset set_replicate_conv_if empty_subsetI subset_refl) (metis dichotomy_mset [OF o] size_mset length_replicate)
  then have "order = replicate n 1" by (metis replicate_eqI singletonD subsetD)
  with out show ?thesis by (simp add: sum_ones)
qed

end
