(* ===== verification/Futures.thy ===== *)
theory Futures
  imports CxxText "HOL-Library.Multiset"
begin

text \<open>
  Three demos of futures and threads. \<open>multithread/3way_async.h\<close>: a promise, a packaged task
  and \<open>std::async\<close> hand a value from one thread to another. \<open>multithread/shared_future.h\<close>: three
  threads read one shared state; every insertion into \<open>std::cout\<close> is a step of its own.
  \<open>multithread/join_threads.h\<close>: a container of threads that joins them on destruction.
\<close>

section \<open>The shared state of a promise\<close>

datatype future_error = PromiseAlreadySatisfied | NotReady | NoState

record 'a shared_state =
  ready_value :: "'a option"
  retrieved :: bool

definition new_state :: "'a shared_state" where
  "new_state = \<lparr>ready_value = None, retrieved = False\<rparr>"

definition get_future :: "'a shared_state \<Rightarrow> future_error + 'a shared_state" where
  "get_future st = (if retrieved st then Inl NoState else Inr (st\<lparr>retrieved := True\<rparr>))"

definition set_value :: "'a \<Rightarrow> 'a shared_state \<Rightarrow> future_error + 'a shared_state" where
  "set_value v st = (if ready_value st \<noteq> None then Inl PromiseAlreadySatisfied else Inr (st\<lparr>ready_value := Some v\<rparr>))"

text \<open>\<open>get\<close> after the setting thread was joined: \<open>NotReady\<close> would be waiting for ever.\<close>

definition future_get :: "'a shared_state \<Rightarrow> future_error + 'a" where
  "future_get st = (case ready_value st of None \<Rightarrow> Inl NotReady | Some v \<Rightarrow> Inr v)"

section \<open>\<open>3way_async\<close>\<close>

text \<open>The thread body is run between the creation of the thread and its \<open>join\<close>; the returned
  value of a packaged or asynchronous task is what its shared state is set to.\<close>

definition run_task :: "('b \<Rightarrow> 'a) \<Rightarrow> 'b \<Rightarrow> 'a shared_state \<Rightarrow> future_error + 'a shared_state" where
  "run_task f x st = set_value (f x) st"

definition test_promise_and_future :: "int \<Rightarrow> future_error + string list" where
  "test_promise_and_future v =
     bindr (get_future new_state) (\<lambda>st.
     bindr (set_value v st) (\<lambda>st1.
     bindr (future_get st1) (\<lambda>r.
     Inr [''begin test_promise_and_future'', ''get test_promise_and_future: '' @ show_int r])))"

definition setValue_task :: "int \<Rightarrow> int" where
  "setValue_task v = v"

definition test_package_task_and_future :: "int \<Rightarrow> future_error + string list" where
  "test_package_task_and_future v =
     bindr (get_future new_state) (\<lambda>st.
     bindr (run_task setValue_task v st) (\<lambda>st1.
     bindr (future_get st1) (\<lambda>r.
     Inr [''begin test_package_task_and_future'', ''get test_package_task_and_future: '' @ show_int r])))"

definition test_async_and_future :: "int \<Rightarrow> future_error + string list" where
  "test_async_and_future v =
     bindr (run_task setValue_task v new_state) (\<lambda>st1.
     bindr (future_get st1) (\<lambda>r.
     Inr [''begin test_async_and_future'', ''get test_async_and_future: '' @ show_int r]))"

definition three_way_main :: "future_error + string list" where
  "three_way_main =
     bindr (test_promise_and_future 1) (\<lambda>a.
     bindr (test_package_task_and_future 2) (\<lambda>b.
     bindr (test_async_and_future 3) (\<lambda>c. Inr (a @ [[]] @ b @ [[]] @ c))))"

section \<open>\<open>shared_future\<close>\<close>

text \<open>The setting thread prints, then sets. A waiting thread inserts its text before it asks
  the future, which blocks until the value is there.\<close>

datatype setter_at = PrintSetting | SetPromise | SetterDone

datatype waiter_at = PrintResultIs | GetValue | PrintNumber int | PrintEndl | WaiterDone

datatype piece = SettingLine | ResultIs | Number int | Endl

record shared_sys =
  setter_at :: setter_at
  waiters :: "waiter_at list"
  state :: "int shared_state"
  pieces :: "(nat \<times> piece) list"       \<comment> \<open>the thread and what it inserted\<close>

definition shared_main :: shared_sys where
  "shared_main = \<lparr>setter_at = PrintSetting, waiters = replicate 3 PrintResultIs, state = new_state, pieces = []\<rparr>"

fun setValue_step :: "setter_at \<Rightarrow> shared_sys \<Rightarrow> shared_sys option" where
  "setValue_step PrintSetting s = Some (s\<lparr>setter_at := SetPromise, pieces := pieces s @ [(0, SettingLine)]\<rparr>)"
| "setValue_step SetPromise s = (case set_value 1024 (state s) of
       Inl e \<Rightarrow> None
     | Inr st \<Rightarrow> Some (s\<lparr>setter_at := SetterDone, state := st\<rparr>))"
| "setValue_step SetterDone s = None"

fun waitValue_step :: "nat \<Rightarrow> waiter_at \<Rightarrow> shared_sys \<Rightarrow> shared_sys option" where
  "waitValue_step t PrintResultIs s =
     Some (s\<lparr>waiters := (waiters s)[t := GetValue], pieces := pieces s @ [(t + 1, ResultIs)]\<rparr>)"
| "waitValue_step t GetValue s = (case future_get (state s) of
       Inl e \<Rightarrow> None
     | Inr v \<Rightarrow> Some (s\<lparr>waiters := (waiters s)[t := PrintNumber v]\<rparr>))"
| "waitValue_step t (PrintNumber v) s =
     Some (s\<lparr>waiters := (waiters s)[t := PrintEndl], pieces := pieces s @ [(t + 1, Number v)]\<rparr>)"
| "waitValue_step t PrintEndl s =
     Some (s\<lparr>waiters := (waiters s)[t := WaiterDone], pieces := pieces s @ [(t + 1, Endl)]\<rparr>)"
| "waitValue_step t WaiterDone s = None"

text \<open>Action 0 is the setting thread, action \<open>t + 1\<close> waiting thread \<open>t\<close>.\<close>

definition shared_step :: "shared_sys \<Rightarrow> nat \<Rightarrow> shared_sys option" where
  "shared_step s a = (case a of
       0 \<Rightarrow> setValue_step (setter_at s) s
     | Suc t \<Rightarrow> if t < length (waiters s) then waitValue_step t (waiters s ! t) s else None)"

text \<open>What thread \<open>t\<close> has inserted when it stands at a point.\<close>

fun inserted :: "waiter_at \<Rightarrow> piece list" where
  "inserted PrintResultIs = []"
| "inserted GetValue = [ResultIs]"
| "inserted (PrintNumber v) = [ResultIs]"
| "inserted PrintEndl = [ResultIs, Number 1024]"
| "inserted WaiterDone = [ResultIs, Number 1024, Endl]"

definition pieces_of :: "nat \<Rightarrow> (nat \<times> piece) list \<Rightarrow> piece list" where
  "pieces_of t ps = List.map snd (filter (\<lambda>p. fst p = t) ps)"

definition shared_inv :: "shared_sys \<Rightarrow> bool" where
  "shared_inv s \<longleftrightarrow> ready_value (state s) = (if setter_at s = SetterDone then Some 1024 else None) \<and>
     pieces_of 0 (pieces s) = (if setter_at s = PrintSetting then [] else [SettingLine]) \<and> length (waiters s) = 3 \<and>
     (\<forall>t < length (waiters s). pieces_of (t + 1) (pieces s) = inserted (waiters s ! t) \<and>
        (case waiters s ! t of PrintNumber v \<Rightarrow> v = 1024 | _ \<Rightarrow> True))"

lemma pieces_of_append [simp]:
  "pieces_of t (ps @ [(u, x)]) = pieces_of t ps @ (if u = t then [x] else [])"
  by (simp add: pieces_of_def)

lemma shared_inv_wait:
  assumes inv: "shared_inv s" and t: "t < length (waiters s)"
    and s': "s' = s\<lparr>waiters := (waiters s)[t := w], pieces := pieces s @ List.map (Pair (t + 1)) ps\<rparr>"
    and ps: "ps = [] \<or> (\<exists>x. ps = [x])" "inserted w = inserted (waiters s ! t) @ ps"
    and w: "case w of PrintNumber v \<Rightarrow> v = 1024 | _ \<Rightarrow> True"
  shows "shared_inv s'"
proof -
  have "pieces_of (u + 1) (pieces s') = inserted (waiters s' ! u) \<and> (case waiters s' ! u of PrintNumber v \<Rightarrow> v = 1024 | _ \<Rightarrow> True)"
    if "u < length (waiters s)" for u
    using inv t ps w that unfolding s' by (cases "u = t") (auto simp: shared_inv_def)
  moreover have "pieces_of 0 (pieces s') = pieces_of 0 (pieces s)" using ps unfolding s' by auto
  ultimately show ?thesis using inv by (simp add: shared_inv_def s')
qed

lemma shared_step_inv: "shared_inv s \<Longrightarrow> shared_step s a = Some s' \<Longrightarrow> shared_inv s'"
proof (cases a)
  case 0
  assume inv: "shared_inv s" and st: "shared_step s a = Some s'"
  with 0 show ?thesis
    by (cases "setter_at s") (auto simp: shared_step_def shared_inv_def set_value_def)
next
  case (Suc t)
  assume inv: "shared_inv s" and st: "shared_step s a = Some s'"
  with Suc have t: "t < length (waiters s)" and go: "waitValue_step t (waiters s ! t) s = Some s'"
    by (auto simp: shared_step_def split: if_splits)
  have num: "\<And>v. waiters s ! t = PrintNumber v \<Longrightarrow> v = 1024" using inv t by (auto simp: shared_inv_def)
  show ?thesis
  proof (cases "waiters s ! t")
    case PrintResultIs
    with go show ?thesis by (intro shared_inv_wait [OF inv t, where w = GetValue and ps = "[ResultIs]"]) auto
  next
    case GetValue
    with go inv have "s' = s\<lparr>waiters := (waiters s)[t := PrintNumber 1024]\<rparr>"
      by (auto simp: future_get_def shared_inv_def split: if_splits option.splits)
    with GetValue show ?thesis by (intro shared_inv_wait [OF inv t, where w = "PrintNumber 1024" and ps = "[]"]) auto
  next
    case (PrintNumber v)
    with go num [OF PrintNumber] show ?thesis
      by (intro shared_inv_wait [OF inv t, where w = PrintEndl and ps = "[Number 1024]"]) auto
  next
    case PrintEndl
    with go show ?thesis by (intro shared_inv_wait [OF inv t, where w = WaiterDone and ps = "[Endl]"]) auto
  qed (use go in simp)
qed

interpretation shared: invariant_system shared_step shared_main shared_inv
proof unfold_locales
  show "shared_inv shared_main"
    by (simp add: shared_inv_def shared_main_def new_state_def pieces_of_def)
qed (rule shared_step_inv)

section \<open>\<open>join_threads\<close>\<close>

record join_threads =
  join_list :: "bool list"      \<comment> \<open>the threads of the list: still running?\<close>
  lines_out :: "string list"

definition push_back :: "join_threads \<Rightarrow> join_threads" where
  "push_back j = j\<lparr>join_list := join_list j @ [True]\<rparr>"

definition at_thread :: "join_threads \<Rightarrow> nat \<Rightarrow> bool option" where
  "at_thread j i = (if i < length (join_list j) then Some (join_list j ! i) else None)"

text \<open>A thread prints its line, built beforehand, with one insertion; \<open>ident\<close> shows its id.\<close>

definition value_line :: "(nat \<Rightarrow> string) \<Rightarrow> nat \<Rightarrow> string" where
  "value_line ident v = ''Thread '' @ ident v @ '' value is: '' @ show_nat v"

definition print_value :: "(nat \<Rightarrow> string) \<Rightarrow> nat \<Rightarrow> join_threads \<Rightarrow> join_threads" where
  "print_value ident t j = j\<lparr>join_list := (join_list j)[t := False], lines_out := lines_out j @ [value_line ident t]\<rparr>"

datatype join_pc = Spawning | Announcing | Destructing nat | Exited

datatype join_action = JoinMain | JoinThread nat

record join_sys =
  jthreads :: join_threads
  join_pc :: join_pc

definition join_start :: join_sys where
  "join_start = \<lparr>jthreads = \<lparr>join_list = [], lines_out = []\<rparr>, join_pc = Spawning\<rparr>"

text \<open>\<open>~join_threads\<close> waits for the threads in turn.\<close>

fun join_step :: "(nat \<Rightarrow> string) \<Rightarrow> join_sys \<Rightarrow> join_action \<Rightarrow> join_sys option" where
  "join_step ident s JoinMain = (case join_pc s of
       Spawning \<Rightarrow> Some (if length (join_list (jthreads s)) < 20 then s\<lparr>jthreads := push_back (jthreads s)\<rparr>
         else s\<lparr>join_pc := Announcing\<rparr>)
     | Announcing \<Rightarrow> Some (s\<lparr>join_pc := Destructing 0,
         jthreads := (jthreads s)\<lparr>lines_out := lines_out (jthreads s) @ [''Exec Successful'']\<rparr>\<rparr>)
     | Destructing i \<Rightarrow> (case at_thread (jthreads s) i of
           None \<Rightarrow> Some (s\<lparr>join_pc := Exited\<rparr>)
         | Some running \<Rightarrow> if running then None else Some (s\<lparr>join_pc := Destructing (i + 1)\<rparr>))
     | Exited \<Rightarrow> None)"
| "join_step ident s (JoinThread t) =
     (if at_thread (jthreads s) t = Some True then Some (s\<lparr>jthreads := print_value ident t (jthreads s)\<rparr>) else None)"

definition finished_threads :: "join_threads \<Rightarrow> nat list" where
  "finished_threads j = filter (\<lambda>t. \<not> join_list j ! t) [0..<length (join_list j)]"

definition join_inv :: "(nat \<Rightarrow> string) \<Rightarrow> join_sys \<Rightarrow> bool" where
  "join_inv ident s \<longleftrightarrow> length (join_list (jthreads s)) \<le> 20 \<and>
     (join_pc s \<noteq> Spawning \<longrightarrow> length (join_list (jthreads s)) = 20) \<and>
     mset (lines_out (jthreads s)) = mset (List.map (value_line ident) (finished_threads (jthreads s))) +
       (case join_pc s of Destructing i \<Rightarrow> {#''Exec Successful''#} | Exited \<Rightarrow> {#''Exec Successful''#} | _ \<Rightarrow> {#}) \<and>
     (case join_pc s of
        Destructing i \<Rightarrow> i \<le> 20 \<and> (\<forall>t < i. \<not> join_list (jthreads s) ! t)
      | Exited \<Rightarrow> \<forall>t < 20. \<not> join_list (jthreads s) ! t
      | _ \<Rightarrow> True)"

lemma finished_mset: "mset (finished_threads j) = mset_set {t. t < length (join_list j) \<and> \<not> join_list j ! t}"
proof -
  have "set (finished_threads j) = {t. t < length (join_list j) \<and> \<not> join_list j ! t}"
    by (auto simp: finished_threads_def)
  then show ?thesis by (metis distinct_filter distinct_upt finished_threads_def mset_set_set)
qed

lemma finished_push: "finished_threads (push_back j) = finished_threads j"
  by (auto simp: finished_threads_def push_back_def nth_append intro!: filter_cong)

lemma finished_print:
  assumes "t < length (join_list j)" "join_list j ! t"
  shows "mset (finished_threads (print_value ident t j)) = add_mset t (mset (finished_threads j))"
proof -
  have "{u. u < length (join_list j) \<and> \<not> (join_list j)[t := False] ! u} =
      insert t {u. u < length (join_list j) \<and> \<not> join_list j ! u}"
    using assms by (auto simp: nth_list_update)
  with assms show ?thesis by (simp add: finished_mset print_value_def)
qed

lemma join_step_inv: "join_inv ident s \<Longrightarrow> join_step ident s a = Some s' \<Longrightarrow> join_inv ident s'"
proof (cases a)
  case (JoinThread t)
  assume inv: "join_inv ident s" and st: "join_step ident s a = Some s'"
  with JoinThread have t: "t < length (join_list (jthreads s))" "join_list (jthreads s) ! t"
    and s': "s' = s\<lparr>jthreads := print_value ident t (jthreads s)\<rparr>"
    by (auto simp: at_thread_def split: if_splits)
  have "mset (lines_out (print_value ident t (jthreads s))) = add_mset (value_line ident t) (mset (lines_out (jthreads s)))"
    by (simp add: print_value_def)
  moreover have "mset (List.map (value_line ident) (finished_threads (print_value ident t (jthreads s)))) =
      add_mset (value_line ident t) (mset (List.map (value_line ident) (finished_threads (jthreads s))))"
    using finished_print [OF t] by simp
  moreover have "\<not> (join_list (jthreads s))[t := False] ! u" if "\<not> join_list (jthreads s) ! u" for u
    using that t by (cases "u = t") simp_all
  ultimately show ?thesis
    using inv by (auto simp: join_inv_def s' print_value_def split: join_pc.splits)
next
  case JoinMain
  assume inv: "join_inv ident s" and st: "join_step ident s a = Some s'"
  show ?thesis
  proof (cases "join_pc s")
    case Spawning
    with inv st JoinMain show ?thesis
      by (auto simp: join_inv_def finished_push split: if_splits) (auto simp: push_back_def)
  next
    case Announcing
    have f: "finished_threads (j\<lparr>lines_out := x\<rparr>) = finished_threads j" for j x by (simp add: finished_threads_def)
    from Announcing inv st JoinMain show ?thesis by (auto simp: join_inv_def f)
  next
    case (Destructing i)
    show ?thesis
    proof (cases "i < 20")
      case True
      with Destructing inv st JoinMain show ?thesis
        by (auto simp: join_inv_def at_thread_def less_Suc_eq split: if_splits)
    next
      case False
      with Destructing inv st JoinMain show ?thesis
        by (auto simp: join_inv_def at_thread_def split: if_splits)
    qed
  qed (use st JoinMain in simp)
qed

interpretation join: invariant_system "join_step ident" join_start "join_inv ident" for ident
proof unfold_locales
  show "join_inv ident join_start" by (simp add: join_inv_def join_start_def finished_threads_def)
qed (rule join_step_inv)

section \<open>Properties\<close>

text \<open>each of the three ways hands its value over, and the program prints the three values
  in the order of the calls.\<close>

theorem three_way_output:
  "three_way_main = Inr [''begin test_promise_and_future'', ''get test_promise_and_future: 1'', [],
     ''begin test_package_task_and_future'', ''get test_package_task_and_future: 2'', [],
     ''begin test_async_and_future'', ''get test_async_and_future: 3'']"
  by code_simp

text \<open>in every interleaving each waiting thread inserts, in this order, its text, the one
  value 1024 that was set, and the end of the line, and never a value that was not set; and
  as long as a thread has not finished, some step is possible.\<close>

theorem shared_future_values:
  "reachable shared_step shared_main s \<Longrightarrow> t < 3 \<Longrightarrow>
     pieces_of (t + 1) (pieces s) = inserted (waiters s ! t) \<and>
     (ready_value (state s) = None \<or> ready_value (state s) = Some 1024) \<and>
     (enabled shared_step s \<or> waiters s = replicate 3 WaiterDone \<and> setter_at s = SetterDone)"
proof -
  assume r: "reachable shared_step shared_main s" and t: "t < 3"
  have inv: "shared_inv s" by (rule shared.reachable_inv [OF r])
  have "enabled shared_step s \<or> waiters s = replicate 3 WaiterDone \<and> setter_at s = SetterDone"
  proof (cases "setter_at s = SetterDone")
    case False
    then have "shared_step s 0 \<noteq> None"
      using inv by (cases "setter_at s") (auto simp: shared_step_def shared_inv_def set_value_def)
    then show ?thesis by (auto simp: enabled_def)
  next
    case fin: True
    show ?thesis
    proof (cases "\<exists>u < 3. waiters s ! u \<noteq> WaiterDone")
      case True
      then obtain u where u: "u < 3" "waiters s ! u \<noteq> WaiterDone" by blast
      have "shared_step s (Suc u) \<noteq> None"
        using inv fin u by (cases "waiters s ! u") (auto simp: shared_step_def shared_inv_def future_get_def)
      then show ?thesis by (auto simp: enabled_def)
    next
      case False
      with inv have "waiters s = replicate 3 WaiterDone" by (intro nth_equalityI) (auto simp: shared_inv_def)
      with fin show ?thesis by simp
    qed
  qed
  with inv t show ?thesis by (auto simp: shared_inv_def)
qed

definition shared_example :: shared_sys where
  "shared_example = the (run shared_step shared_main [2, 0, 0, 2, 2, 1])"

theorem shared_future_values_witness:
  "pieces_of 2 (pieces shared_example) = [ResultIs, Number 1024] \<and> enabled shared_step shared_example"
proof -
  have r: "run shared_step shared_main [2, 0, 0, 2, 2, 1] = Some shared_example"
    "waiters shared_example = [GetValue, PrintEndl, PrintResultIs]"
    by (simp_all add: shared_example_def shared_step_def shared_main_def set_value_def new_state_def future_get_def
        numeral_2_eq_2 numeral_3_eq_3)
  from shared_future_values [OF run_reachable [OF r(1)], of 1] r(2) show ?thesis by (auto simp: numeral_2_eq_2 numeral_3_eq_3)
qed

text \<open>the destructor of \<open>join_threads\<close> lets the program end only after every thread has
  printed: when \<open>main\<close> has returned, the output is a permutation of the twenty lines and the
  line of \<open>main\<close>.\<close>

theorem join_threads_all_printed:
  "reachable (join_step ident) join_start s \<Longrightarrow> join_pc s = Exited \<Longrightarrow>
     mset (lines_out (jthreads s)) = mset (''Exec Successful'' # List.map (value_line ident) [0..<20])"
proof -
  assume "reachable (join_step ident) join_start s" and e: "join_pc s = Exited"
  then have inv: "join_inv ident s" using join.reachable_inv by blast
  with e have l: "length (join_list (jthreads s)) = 20" "\<forall>t < 20. \<not> join_list (jthreads s) ! t"
    by (auto simp: join_inv_def)
  then have "finished_threads (jthreads s) = [0..<20]" by (simp add: finished_threads_def)
  with inv e show ?thesis by (simp add: join_inv_def)
qed

definition join_schedule :: "join_action list" where
  "join_schedule = replicate 22 JoinMain @ List.map JoinThread [0..<20] @ replicate 21 JoinMain"

theorem join_threads_all_printed_witness:
  "\<exists>s. run (join_step show_nat) join_start join_schedule = Some s \<and>
     mset (lines_out (jthreads s)) = mset (''Exec Successful'' # List.map (value_line show_nat) [0..<20])"
proof -
  have "case run (join_step show_nat) join_start join_schedule of None \<Rightarrow> False | Some s \<Rightarrow> join_pc s = Exited" by code_simp
  then obtain s where s: "run (join_step show_nat) join_start join_schedule = Some s" "join_pc s = Exited"
    by (auto split: option.splits)
  with join_threads_all_printed [OF run_reachable [OF s(1)] s(2)] show ?thesis by blast
qed

end
