(* ===== verification/Litmus.thy ===== *)
theory Litmus
  imports Prelude
begin

text \<open>
  The memory order experiments of \<open>multithread/acquire_release.h\<close>, \<open>6_memory_orders.h\<close>,
  \<open>memory_fence.h\<close> and \<open>sequential_consistent.h\<close>, on a machine with views: a store adds a
  message with a timestamp to its location, a thread may read any message that is not
  older than the last one it knows there, an acquire load learns what the thread of a
  release store knew. \<open>seq_cst\<close> accesses use the newest message. A plain access that does
  not know the newest message of its location is a data race. Which thread moves and which
  message or timestamp it uses is the action.
\<close>

section \<open>Programs\<close>

datatype order = Plain | Relaxed | Acquire | Release | SeqCst

datatype code =
    Stop
  | Store nat int order code
  | Load nat order "int \<Rightarrow> code"
  | SpinWhile nat order int "string list" code   \<comment> \<open>while the value is read, print and repeat\<close>
  | SpinUntil nat order int code                 \<comment> \<open>until the value is read\<close>
  | Fence order code
  | Check bool code                              \<comment> \<open>\<open>assert\<close>\<close>
  | Incr code                                    \<comment> \<open>\<open>++result\<close>\<close>
  | Say string code

type_synonym view = "nat \<Rightarrow> nat"

record message =
  mloc :: nat
  mts :: nat
  mval :: int
  mview :: view

record machine =
  msgs :: "message list"
  thr :: "(code \<times> view) list"
  failed :: bool               \<comment> \<open>an assertion failed\<close>
  raced :: bool
  incs :: nat
  said :: "string list"

type_synonym mem_action = "nat \<times> nat"     \<comment> \<open>the thread and a timestamp\<close>

definition no_view :: view where
  "no_view = (\<lambda>_. 0)"

definition join_view :: "view \<Rightarrow> view \<Rightarrow> view" where
  "join_view v w = (\<lambda>l. max (v l) (w l))"

definition boot :: "(nat \<times> int) list \<Rightarrow> code list \<Rightarrow> machine" where
  "boot ini cs = \<lparr>msgs = List.map (\<lambda>(l, v). \<lparr>mloc = l, mts = 0, mval = v, mview = no_view\<rparr>) ini,
     thr = List.map (\<lambda>c. (c, no_view)) cs, failed = False, raced = False, incs = 0, said = []\<rparr>"

definition newest :: "nat \<Rightarrow> machine \<Rightarrow> nat" where
  "newest l s = foldr (\<lambda>m n. if mloc m = l then max (mts m) n else n) (msgs s) 0"

definition find_msg :: "nat \<Rightarrow> nat \<Rightarrow> machine \<Rightarrow> message option" where
  "find_msg l ts s = find (\<lambda>m. mloc m = l \<and> mts m = ts) (msgs s)"

definition set_thr :: "nat \<Rightarrow> code \<Rightarrow> view \<Rightarrow> machine \<Rightarrow> machine" where
  "set_thr t c v s = s\<lparr>thr := (thr s)[t := (c, v)]\<rparr>"

definition race :: "nat \<Rightarrow> view \<Rightarrow> machine \<Rightarrow> machine" where
  "race t v s = (set_thr t Stop v s)\<lparr>raced := True\<rparr>"

text \<open>The message a load takes, and the view it leaves.\<close>

definition pick :: "nat \<Rightarrow> order \<Rightarrow> nat \<Rightarrow> view \<Rightarrow> machine \<Rightarrow> message option" where
  "pick l ord ts v s =
     (if ord = SeqCst \<or> ord = Plain then find_msg l (newest l s) s
      else if v l \<le> ts then find_msg l ts s else None)"

definition read_view :: "order \<Rightarrow> message \<Rightarrow> view \<Rightarrow> view" where
  "read_view ord m v =
     (let v1 = v(mloc m := max (v (mloc m)) (mts m)) in
      if ord = SeqCst \<or> ord = Acquire then join_view v1 (mview m) else v1)"

definition do_store :: "nat \<Rightarrow> nat \<Rightarrow> int \<Rightarrow> order \<Rightarrow> nat \<Rightarrow> view \<Rightarrow> code \<Rightarrow> machine \<Rightarrow> machine option" where
  "do_store t l x ord ts v k s =
     (let n = (if ord = SeqCst \<or> ord = Plain then Suc (newest l s) else ts); w = v(l := n) in
      if v l < n \<and> find_msg l n s = None
      then Some (set_thr t k w (s\<lparr>msgs := msgs s @ [\<lparr>mloc = l, mts = n, mval = x,
        mview = if ord = SeqCst \<or> ord = Release then w else no_view(l := n)\<rparr>]\<rparr>))
      else None)"

fun code_step :: "nat \<Rightarrow> nat \<Rightarrow> code \<Rightarrow> view \<Rightarrow> machine \<Rightarrow> machine option" where
  "code_step t ts Stop v s = None"
| "code_step t ts (Store l x ord k) v s =
     (if ord = Plain \<and> v l < newest l s then Some (race t v s) else do_store t l x ord ts v k s)"
| "code_step t ts (Load l ord k) v s =
     (if ord = Plain \<and> v l < newest l s then Some (race t v s) else (case pick l ord ts v s of
        None \<Rightarrow> None
      | Some m \<Rightarrow> Some (set_thr t (k (mval m)) (read_view ord m v) s)))"
| "code_step t ts (SpinWhile l ord x out k) v s = (case pick l ord ts v s of
       None \<Rightarrow> None
     | Some m \<Rightarrow> Some (if mval m = x
         then set_thr t (SpinWhile l ord x out k) (read_view ord m v) (s\<lparr>said := said s @ out\<rparr>)
         else set_thr t k (read_view ord m v) s))"
| "code_step t ts (SpinUntil l ord x k) v s =
     (if ord = Plain \<and> v l < newest l s then Some (race t v s) else (case pick l ord ts v s of
        None \<Rightarrow> None
      | Some m \<Rightarrow> Some (set_thr t (if mval m = x then k else SpinUntil l ord x k) (read_view ord m v) s)))"
| "code_step t ts (Fence ord k) v s = Some (set_thr t k v s)"
| "code_step t ts (Check b k) v s = Some (set_thr t k v (s\<lparr>failed := failed s \<or> \<not> b\<rparr>))"
| "code_step t ts (Incr k) v s = Some (set_thr t k v (s\<lparr>incs := incs s + 1\<rparr>))"
| "code_step t ts (Say w k) v s = Some (set_thr t k v (s\<lparr>said := said s @ [w]\<rparr>))"

definition mem_step :: "machine \<Rightarrow> mem_action \<Rightarrow> machine option" where
  "mem_step s a = (case a of (t, ts) \<Rightarrow>
     if t < length (thr s) then (case thr s ! t of (c, v) \<Rightarrow> code_step t ts c v s) else None)"

definition all_stopped :: "machine \<Rightarrow> bool" where
  "all_stopped s \<longleftrightarrow> list_all (\<lambda>(c, v). case c of Stop \<Rightarrow> True | _ \<Rightarrow> False) (thr s)"

section \<open>The programs\<close>

text \<open>Locations: \<open>x\<close> is 0 and \<open>y\<close> is 1; \<open>true\<close> is 1.\<close>

definition read_then :: "nat \<Rightarrow> nat \<Rightarrow> order \<Rightarrow> code" where
  "read_then l l' ord = SpinUntil l ord 1 (Load l' ord (\<lambda>b. if b = 1 then Incr Stop else Stop))"

definition implyRiskMethod1 :: machine where
  "implyRiskMethod1 = boot [(0, 0), (1, 0)]
     [Store 0 1 Release Stop, Store 1 1 Release Stop, read_then 0 1 Acquire, read_then 1 0 Acquire]"

definition implyRiskMethod2 :: "order \<Rightarrow> machine" where
  "implyRiskMethod2 ord = boot [(0, 0), (1, 0)]
     [Store 1 20 ord (Store 0 10 ord Stop),
      Load 0 ord (\<lambda>a. if a = 10 then Load 1 ord (\<lambda>b. Check (b = 20) (Store 1 10 ord Stop)) else Stop),
      Load 1 ord (\<lambda>a. if a = 10 then Load 0 ord (\<lambda>b. Check (b = 10) Stop) else Stop)]"

definition lookLikeDangerButSafe :: machine where
  "lookLikeDangerButSafe = boot [(0, 0)]
     [Store 0 1 Relaxed (Store 0 2 Relaxed Stop),
      Load 0 Relaxed (\<lambda>x1. Load 0 Relaxed (\<lambda>x2. Check (x1 \<le> x2) Stop))]"

text \<open>Here \<open>blocker\<close> is 0, \<open>str\<close> is 1 with 1 for "hello", \<open>value\<close> is 2.\<close>

definition ProductorCustomer :: machine where
  "ProductorCustomer = boot [(0, 0), (1, 0), (2, 0)]
     [Store 1 1 Plain (Store 2 10 Plain (Store 0 1 Release Stop)),
      Load 0 Acquire (\<lambda>_. Load 1 Plain (\<lambda>a. Check (a = 1) (Load 2 Plain (\<lambda>b. Check (b = 10) Stop))))]"

definition threadFence :: machine where
  "threadFence = boot [(1, 0), (2, 0)]
     [Store 1 1 Plain (Store 2 10 Plain (Fence Release Stop)),
      Fence Acquire (Load 1 Plain (\<lambda>a. Check (a = 1) (Load 2 Plain (\<lambda>b. Check (b = 10) Stop))))]"

text \<open>The four flags are 1 to 4, the words of the speakers are their numbers.\<close>

definition ikun_write :: "nat \<Rightarrow> order \<Rightarrow> code" where
  "ikun_write l ord = Store l 1 ord (Store (l + 1) 1 ord Stop)"

definition iKunSpeaker :: "nat \<Rightarrow> string \<Rightarrow> order \<Rightarrow> code" where
  "iKunSpeaker l w ord = Load l ord (\<lambda>b. if b = 1 then Say w Stop else Stop)"

definition ji :: string where "ji = [CHR 0xE9, CHR 0xB8, CHR 0xA1]"
definition ni :: string where "ni = [CHR 0xE4, CHR 0xBD, CHR 0xA0]"
definition tai :: string where "tai = [CHR 0xE5, CHR 0xA4, CHR 0xAA]"
definition mei :: string where "mei = [CHR 0xE7, CHR 0xBE, CHR 0x8E]"

definition ikun_test :: "order \<Rightarrow> order \<Rightarrow> machine" where
  "ikun_test so lo = boot [(1, 0), (2, 0), (3, 0), (4, 0)]
     [ikun_write 1 so, ikun_write 3 so, iKunSpeaker 1 ji lo, iKunSpeaker 2 ni lo, iKunSpeaker 3 tai lo, iKunSpeaker 4 mei lo]"

definition testSeqCst :: machine where "testSeqCst = ikun_test SeqCst SeqCst"
definition testRelax :: machine where "testRelax = ikun_test Relaxed Relaxed"
definition testAcuqireRelease :: machine where "testAcuqireRelease = ikun_test SeqCst Acquire"

definition demo1 :: machine where
  "demo1 = boot [(0, 0), (1, 0)]
     [read_then 1 0 Acquire, read_then 0 1 Acquire, Store 0 1 Release Stop, Store 1 1 Release Stop]"

definition demo2 :: machine where
  "demo2 = boot [(0, 0), (1, 0)]
     [read_then 1 0 Plain, read_then 0 1 Plain, Store 0 1 Plain Stop, Store 1 1 Plain Stop]"

text \<open>The initial values of \<open>x\<close> and \<open>y\<close> are those of a default constructed atomic.\<close>

definition noAssertForever :: "int \<Rightarrow> int \<Rightarrow> machine" where
  "noAssertForever x0 y0 = boot [(0, x0), (1, y0)]
     [Store 0 1 SeqCst (Store 1 2 SeqCst Stop),
      Load 1 SeqCst (\<lambda>b. if b = 2 then Load 0 SeqCst (\<lambda>a. Check (a = 1) Stop) else Stop)]"

definition infinityLoop :: machine where
  "infinityLoop = boot [(0, 1), (1, 2)]
     [Store 1 (- 2) SeqCst (SpinWhile 0 SeqCst 1 [''loop t1''] Stop),
      SpinWhile 1 SeqCst 2 [''loop t2''] (Store 0 (- 1) SeqCst Stop)]"

section \<open>Exhaustive exploration\<close>

text \<open>When only finitely many actions matter, exploring all of them to a depth at which
  nothing moves any more covers every reachable state.\<close>

fun explore :: "('s \<Rightarrow> 'a \<Rightarrow> 's option) \<Rightarrow> 'a list \<Rightarrow> ('s \<Rightarrow> bool) \<Rightarrow> nat \<Rightarrow> 's \<Rightarrow> bool" where
  "explore step as ok 0 s = (ok s \<and> list_all (\<lambda>a. step s a = None) as)"
| "explore step as ok (Suc n) s =
     (ok s \<and> list_all (\<lambda>a. case step s a of None \<Rightarrow> True | Some t \<Rightarrow> explore step as ok n t) as)"

lemma explore_step:
  "explore step as ok n s \<Longrightarrow> a \<in> set as \<Longrightarrow> step s a = Some t \<Longrightarrow> \<exists>m. explore step as ok m t"
  by (cases n) (fastforce simp: list_all_iff)+

lemma explore_sound:
  assumes "explore step as ok n s" "I s"
    and "\<And>s a t. I s \<Longrightarrow> step s a = Some t \<Longrightarrow> I t \<and> (\<exists>b \<in> set as. step s b = Some t)"
    and "reachable step s t"
  shows "ok t"
proof -
  from assms(4) have "I t \<and> (\<exists>m. explore step as ok m t)"
  proof (induction rule: reachable.induct)
    case reachable_start
    then show ?case using assms(1,2) by blast
  next
    case (reachable_step s' a t')
    from reachable_step.IH obtain m where I: "I s'" and m: "explore step as ok m s'" by blast
    from assms(3) [OF I reachable_step.hyps(2)] obtain b where "I t'" and b: "b \<in> set as" "step s' b = Some t'"
      by blast
    moreover from explore_step [OF m b] have "\<exists>m. explore step as ok m t'" .
    ultimately show ?case by blast
  qed
  then obtain m where "explore step as ok m t" by blast
  then show ?thesis by (cases m) auto
qed

text \<open>Programs whose accesses are all \<open>seq_cst\<close>: the timestamp of the action does not matter.\<close>

primrec seq_cst_code :: "code \<Rightarrow> bool" where
  "seq_cst_code Stop = True"
| "seq_cst_code (Store l x ord k) = (ord = SeqCst \<and> seq_cst_code k)"
| "seq_cst_code (Load l ord k) = (ord = SeqCst \<and> (\<forall>x. seq_cst_code (k x)))"
| "seq_cst_code (SpinWhile l ord x out k) = (ord = SeqCst \<and> seq_cst_code k)"
| "seq_cst_code (SpinUntil l ord x k) = (ord = SeqCst \<and> seq_cst_code k)"
| "seq_cst_code (Fence ord k) = seq_cst_code k"
| "seq_cst_code (Check b k) = seq_cst_code k"
| "seq_cst_code (Incr k) = seq_cst_code k"
| "seq_cst_code (Say w k) = seq_cst_code k"

definition seq_cst_machine :: "nat \<Rightarrow> machine \<Rightarrow> bool" where
  "seq_cst_machine n s \<longleftrightarrow> length (thr s) = n \<and> (\<forall>p \<in> set (thr s). seq_cst_code (fst p))"

lemma seq_cst_ts: "seq_cst_code c \<Longrightarrow> code_step t ts c v s = code_step t 0 c v s"
  by (cases c) (auto simp: do_store_def pick_def)

lemma seq_cst_set_thr:
  "seq_cst_machine n s \<Longrightarrow> seq_cst_code k \<Longrightarrow> seq_cst_machine n (set_thr t k v s)"
  by (auto simp: seq_cst_machine_def set_thr_def dest!: set_update_subset_insert [THEN subsetD])

lemma seq_cst_other [simp]:
  "seq_cst_machine n (s\<lparr>msgs := m\<rparr>) = seq_cst_machine n s"
  "seq_cst_machine n (s\<lparr>failed := b\<rparr>) = seq_cst_machine n s"
  "seq_cst_machine n (s\<lparr>incs := i\<rparr>) = seq_cst_machine n s"
  "seq_cst_machine n (s\<lparr>said := w\<rparr>) = seq_cst_machine n s"
  by (simp_all add: seq_cst_machine_def)

lemma seq_cst_keep:
  assumes "seq_cst_code c" "code_step t ts c v s = Some s'" "seq_cst_machine n s"
  shows "seq_cst_machine n s'"
  using assms
  by (cases c) (auto simp: do_store_def Let_def intro!: seq_cst_set_thr split: if_splits option.splits)

lemma seq_cst_explore:
  assumes "explore mem_step (List.map (\<lambda>t. (t, 0)) [0..<n]) ok d s" "seq_cst_machine n s"
    and "reachable mem_step s t"
  shows "ok t"
proof (rule explore_sound [where I = "seq_cst_machine n", OF assms(1) assms(2) _ assms(3)])
  fix s1 a s2
  assume m: "seq_cst_machine n s1" and st: "mem_step s1 a = Some s2"
  obtain t ts where a: "a = (t, ts)" by (cases a)
  obtain c v where cv: "t < length (thr s1)" "thr s1 ! t = (c, v)" "code_step t ts c v s1 = Some s2"
    using st by (auto simp: mem_step_def a split: if_splits prod.splits)
  have c: "seq_cst_code c" using m cv(1,2) nth_mem by (fastforce simp: seq_cst_machine_def)
  have "mem_step s1 (t, 0) = Some s2" using cv seq_cst_ts [OF c, of t ts v s1] by (simp add: mem_step_def)
  moreover have "(t, 0) \<in> set (List.map (\<lambda>t. (t, 0)) [0..<n])"
    using cv(1) m by (auto simp: seq_cst_machine_def)
  ultimately show "seq_cst_machine n s2 \<and> (\<exists>b \<in> set (List.map (\<lambda>t. (t, 0)) [0..<n]). mem_step s1 b = Some s2)"
    using seq_cst_keep [OF c cv(3) m] by blast
qed

section \<open>Coherence of one location\<close>

definition reader_second :: "int \<Rightarrow> code" where
  "reader_second x1 = Load 0 Relaxed (\<lambda>x2. Check (x1 \<le> x2) Stop)"

definition coherent_at :: "nat \<Rightarrow> machine \<Rightarrow> code \<Rightarrow> view \<Rightarrow> code \<Rightarrow> view \<Rightarrow> bool" where
  "coherent_at k s cw vw cr vr \<longleftrightarrow> thr s = [(cw, vw), (cr, vr)] \<and> \<not> failed s \<and>
     (k = 0 \<and> cw = Store 0 1 Relaxed (Store 0 2 Relaxed Stop) \<or> k = 1 \<and> cw = Store 0 2 Relaxed Stop \<or> k = 2 \<and> cw = Stop) \<and>
     (\<forall>m \<in> set (msgs s). mloc m = 0 \<and> mts m \<le> vw 0 \<and> mval m \<le> int k) \<and>
     (\<forall>m \<in> set (msgs s). \<forall>m' \<in> set (msgs s). mts m \<le> mts m' \<longrightarrow> mval m \<le> mval m') \<and>
     (cr = Load 0 Relaxed reader_second \<or> cr = Check True Stop \<or> cr = Stop \<or>
      (\<exists>x. cr = reader_second x \<and> (\<exists>m \<in> set (msgs s). mts m \<le> vr 0 \<and> mval m = x)))"

definition coherent :: "machine \<Rightarrow> bool" where
  "coherent s \<longleftrightarrow> (\<exists>k cw vw cr vr. coherent_at k s cw vw cr vr)"

lemma find_msg_in: "find_msg l ts s = Some m \<Longrightarrow> m \<in> set (msgs s) \<and> mloc m = l \<and> mts m = ts"
  by (auto simp: find_msg_def find_Some_iff)

lemma writer_coherent:
  assumes c: "coherent_at k s cw vw cr vr" and st: "code_step 0 ts cw vw s = Some s'"
  shows "coherent s'"
proof -
  from c st consider (0) "k = 0" "cw = Store 0 1 Relaxed (Store 0 2 Relaxed Stop)"
    | (1) "k = 1" "cw = Store 0 2 Relaxed Stop" by (auto simp: coherent_at_def)
  then obtain x k' where k': "cw = Store 0 x Relaxed k'" "x = int (Suc k)"
    "Suc k = 1 \<and> k' = Store 0 2 Relaxed Stop \<or> Suc k = 2 \<and> k' = Stop"
    by cases auto
  from st k'(1) have ts: "vw 0 < ts" and s': "s' = set_thr 0 k' (vw(0 := ts)) (s\<lparr>msgs := msgs s @
      [\<lparr>mloc = 0, mts = ts, mval = x, mview = no_view(0 := ts)\<rparr>]\<rparr>)"
    by (auto simp: do_store_def Let_def split: if_splits)
  have "coherent_at (Suc k) s' k' (vw(0 := ts)) cr vr"
    unfolding coherent_at_def
  proof (intro conjI)
    show "thr s' = [(k', vw(0 := ts)), (cr, vr)]" "\<not> failed s'"
      using c s' by (simp_all add: coherent_at_def set_thr_def)
    show "Suc k = 0 \<and> k' = Store 0 1 Relaxed (Store 0 2 Relaxed Stop) \<or> Suc k = 1 \<and> k' = Store 0 2 Relaxed Stop \<or>
        Suc k = 2 \<and> k' = Stop" using k'(3) by auto
    show "\<forall>m \<in> set (msgs s'). mloc m = 0 \<and> mts m \<le> (vw(0 := ts)) 0 \<and> mval m \<le> int (Suc k)"
      using c s' ts k'(2) by (fastforce simp: coherent_at_def set_thr_def)
    show "\<forall>m \<in> set (msgs s'). \<forall>m' \<in> set (msgs s'). mts m \<le> mts m' \<longrightarrow> mval m \<le> mval m'"
      using c s' ts k'(2) by (fastforce simp: coherent_at_def set_thr_def)
    show "cr = Load 0 Relaxed reader_second \<or> cr = Check True Stop \<or> cr = Stop \<or>
        (\<exists>x. cr = reader_second x \<and> (\<exists>m \<in> set (msgs s'). mts m \<le> vr 0 \<and> mval m = x))"
      using c s' by (auto simp: coherent_at_def set_thr_def)
  qed
  then show ?thesis unfolding coherent_def by blast
qed

lemma reader_coherent:
  assumes c: "coherent_at k s cw vw cr vr" and st: "code_step 1 ts cr vr s = Some s'"
  shows "coherent s'"
proof -
  have move: "coherent s2"
    if "s2 = set_thr 1 cr2 vr2 s" and "cr2 = Check True Stop \<or> cr2 = Stop \<or>
      (\<exists>x. cr2 = reader_second x \<and> (\<exists>m \<in> set (msgs s). mts m \<le> vr2 0 \<and> mval m = x))" for s2 cr2 vr2
    unfolding coherent_def
    by (rule exI [of _ k], rule exI [of _ cw], rule exI [of _ vw], rule exI [of _ cr2], rule exI [of _ vr2])
      (use c that in \<open>simp add: coherent_at_def set_thr_def\<close>)
  from c consider (first) "cr = Load 0 Relaxed reader_second" | (check) "cr = Check True Stop" | (stop) "cr = Stop"
    | (second) x m where "cr = reader_second x" "m \<in> set (msgs s)" "mts m \<le> vr 0" "mval m = x"
    by (auto simp: coherent_at_def)
  then show ?thesis
  proof cases
    case first
    with st obtain m where m: "find_msg 0 ts s = Some m" "s' = set_thr 1 (reader_second (mval m)) (read_view Relaxed m vr) s"
      by (auto simp: pick_def split: if_splits option.splits)
    have "mts m \<le> read_view Relaxed m vr 0" using find_msg_in [OF m(1)] by (simp add: read_view_def)
    with m find_msg_in [OF m(1)] show ?thesis by (intro move) auto
  next
    case check
    with st have "s' = set_thr 1 Stop vr (s\<lparr>failed := failed s\<rparr>)" by simp
    moreover have "s\<lparr>failed := failed s\<rparr> = s" by simp
    ultimately show ?thesis by (intro move) auto
  next
    case second
    with st obtain m' where m': "find_msg 0 ts s = Some m'" "vr 0 \<le> ts"
      "s' = set_thr 1 (Check (x \<le> mval m') Stop) (read_view Relaxed m' vr) s"
      by (auto simp: reader_second_def pick_def split: if_splits option.splits)
    have "mts m \<le> mts m'" using second(3) m'(2) find_msg_in [OF m'(1)] by simp
    then have "x \<le> mval m'" using c second(2,4) find_msg_in [OF m'(1)] by (auto simp: coherent_at_def)
    with m' show ?thesis by (intro move) auto
  qed (use st in simp)
qed

lemma coherent_step: "coherent s \<Longrightarrow> mem_step s a = Some s' \<Longrightarrow> coherent s'"
proof -
  assume "coherent s" and st: "mem_step s a = Some s'"
  then obtain k cw vw cr vr where c: "coherent_at k s cw vw cr vr" by (auto simp: coherent_def)
  obtain t ts where a: "a = (t, ts)" by (cases a)
  have thr: "thr s = [(cw, vw), (cr, vr)]" using c by (simp add: coherent_at_def)
  with st a have "t = 0 \<and> code_step 0 ts cw vw s = Some s' \<or> t = 1 \<and> code_step 1 ts cr vr s = Some s'"
    by (auto simp: mem_step_def less_Suc_eq numeral_2_eq_2 split: if_splits)
  with writer_coherent [OF c] reader_coherent [OF c] show ?thesis by blast
qed

interpretation danger: invariant_system mem_step lookLikeDangerButSafe coherent
proof unfold_locales
  show "coherent lookLikeDangerButSafe"
    unfolding coherent_def
    by (rule exI [of _ 0], rule exI [of _ "Store 0 1 Relaxed (Store 0 2 Relaxed Stop)"], rule exI [of _ no_view],
        rule exI [of _ "Load 0 Relaxed reader_second"], rule exI [of _ no_view])
      (simp add: coherent_at_def lookLikeDangerButSafe_def boot_def reader_second_def [abs_def])
qed (rule coherent_step)

section \<open>Properties\<close>

text \<open>two relaxed reads of one location never go backwards: the assertion of
  \<open>lookLikeDangerButSafe\<close> holds in every execution, for every choice of messages read and
  of the places of the stores in the order of the location.\<close>

theorem relaxed_reads_coherent:
  "reachable mem_step lookLikeDangerButSafe s \<Longrightarrow> \<not> failed s"
  using danger.reachable_inv by (auto simp: coherent_def coherent_at_def)

theorem relaxed_reads_coherent_witness:
  "\<exists>s. run mem_step lookLikeDangerButSafe [(0, 3), (1, 3), (0, 5), (1, 5), (1, 0)] = Some s \<and> \<not> failed s \<and> all_stopped s"
proof -
  have "case run mem_step lookLikeDangerButSafe [(0, 3), (1, 3), (0, 5), (1, 5), (1, 0)] of
      None \<Rightarrow> False | Some s \<Rightarrow> all_stopped s" by code_simp
  then obtain s where s: "run mem_step lookLikeDangerButSafe [(0, 3), (1, 3), (0, 5), (1, 5), (1, 0)] = Some s" "all_stopped s"
    by (auto split: option.splits)
  with relaxed_reads_coherent [OF run_reachable [OF s(1)]] show ?thesis by blast
qed

lemma method2_explored:
  "explore mem_step (List.map (\<lambda>t. (t, 0)) [0..<3]) (\<lambda>s. \<not> failed s \<and> \<not> raced s) 9 (implyRiskMethod2 SeqCst)"
  by code_simp

lemma no_assert_explored:
  "explore mem_step (List.map (\<lambda>t. (t, 0)) [0..<2]) (\<lambda>s. \<not> failed s \<and> \<not> raced s) 5 (noAssertForever 0 0)"
  by code_simp

lemma method2_seq_cst: "seq_cst_machine 3 (implyRiskMethod2 SeqCst)"
  by (simp add: seq_cst_machine_def implyRiskMethod2_def boot_def)

lemma no_assert_seq_cst: "seq_cst_machine 2 (noAssertForever x0 y0)"
  by (simp add: seq_cst_machine_def noAssertForever_def boot_def)

text \<open>with sequentially consistent accesses the assertions of \<open>implyRiskMethod2\<close> and of
  \<open>noAssertForever\<close> never fail, in any execution.\<close>

theorem seq_cst_asserts_hold:
  "reachable mem_step (implyRiskMethod2 SeqCst) s \<or> reachable mem_step (noAssertForever 0 0) s \<Longrightarrow> \<not> failed s \<and> \<not> raced s"
  using seq_cst_explore [OF method2_explored method2_seq_cst] seq_cst_explore [OF no_assert_explored no_assert_seq_cst]
  by blast

theorem seq_cst_asserts_hold_witness:
  "\<not> failed (noAssertForever 0 0) \<and> \<not> raced (noAssertForever 0 0)"
  by (rule seq_cst_asserts_hold) (simp add: reachable.reachable_start)

lemma run_witness:
  "(case run step s as of None \<Rightarrow> False | Some t \<Rightarrow> P t) \<Longrightarrow> \<exists>t. reachable step s t \<and> P t"
  by (auto split: option.splits dest: run_reachable)

lemma method1_fails: "\<exists>s. reachable mem_step implyRiskMethod1 s \<and> all_stopped s \<and> incs s = 0"
  by (rule run_witness [where as = "[(0, 1), (1, 1), (2, 1), (2, 0), (3, 1), (3, 0)]"]) code_simp

lemma demo1_fails: "\<exists>s. reachable mem_step demo1 s \<and> all_stopped s \<and> incs s = 0"
  by (rule run_witness [where as = "[(2, 1), (3, 1), (0, 1), (0, 0), (1, 1), (1, 0)]"]) code_simp

lemma method2_fails_4:
  "\<exists>s. reachable mem_step (implyRiskMethod2 Relaxed) s \<and> failed s \<and> length (msgs s) = 4"
  by (rule run_witness [where as = "[(0, 1), (0, 1), (1, 1), (1, 0), (1, 0)]"]) code_simp

lemma method2_fails_7:
  "\<exists>s. reachable mem_step (implyRiskMethod2 Relaxed) s \<and> \<not> failed s \<and>
     (case mem_step s (2, 0) of None \<Rightarrow> False | Some s' \<Rightarrow> failed s' \<and> length (msgs s') = 5)"
  by (rule run_witness [where as = "[(0, 1), (0, 1), (1, 1), (1, 1), (1, 0), (1, 2), (2, 2), (2, 0)]"]) code_simp

lemma customer_fails: "\<exists>s. reachable mem_step ProductorCustomer s \<and> failed s"
  by (rule run_witness [where as = "[(1, 0), (1, 0), (1, 0)]"]) code_simp

lemma fence_races: "\<exists>s. reachable mem_step threadFence s \<and> raced s"
  by (rule run_witness [where as = "[(0, 0), (1, 0), (1, 0)]"]) code_simp

lemma demo2_races: "\<exists>s. reachable mem_step demo2 s \<and> raced s"
  by (rule run_witness [where as = "[(2, 0), (1, 0)]"]) code_simp

text \<open>the weaker orders allow what the comments doubt. The assertion of
  \<open>implyRiskMethod1\<close> (and of \<open>demo1\<close>) can fail: all threads end and nobody counted. With
  relaxed accesses \<open>implyRiskMethod2\<close> fails in its second thread, before \<open>y\<close> is set to 10, and
  also in its third one after that. The customer of \<open>ProductorCustomer\<close> ignores the flag it
  loads and fails; \<open>threadFence\<close> and \<open>demo2\<close> are data races.\<close>

theorem weak_orders_fail:
  "(\<exists>s. reachable mem_step implyRiskMethod1 s \<and> all_stopped s \<and> incs s = 0) \<and>
   (\<exists>s. reachable mem_step demo1 s \<and> all_stopped s \<and> incs s = 0) \<and>
   (\<exists>s. reachable mem_step (implyRiskMethod2 Relaxed) s \<and> failed s \<and> length (msgs s) = 4) \<and>
   (\<exists>s. reachable mem_step (implyRiskMethod2 Relaxed) s \<and> \<not> failed s \<and>
      (case mem_step s (2, 0) of None \<Rightarrow> False | Some s' \<Rightarrow> failed s' \<and> length (msgs s') = 5)) \<and>
   (\<exists>s. reachable mem_step ProductorCustomer s \<and> failed s) \<and>
   (\<exists>s. reachable mem_step threadFence s \<and> raced s) \<and>
   (\<exists>s. reachable mem_step demo2 s \<and> raced s)"
  by (intro conjI method1_fails demo1_fails method2_fails_4 method2_fails_7 customer_fails fence_races demo2_races)

text \<open>the four speakers are not ordered by any memory order: the acquire and release test,
  which the comment says must print the four words in order, can print them backwards or
  print nothing, and the sequentially consistent one can print the second word first.\<close>

theorem ikun_any_order:
  "(\<exists>s. reachable mem_step testAcuqireRelease s \<and> all_stopped s \<and> said s = [mei, tai, ni, ji]) \<and>
   (\<exists>s. reachable mem_step testAcuqireRelease s \<and> all_stopped s \<and> said s = []) \<and>
   (\<exists>s. reachable mem_step testSeqCst s \<and> all_stopped s \<and> said s = [ni, ji]) \<and>
   (\<exists>s. reachable mem_step testRelax s \<and> all_stopped s \<and> said s = [mei, tai, ni, ji])"
proof (intro conjI)
  let ?w = "[(0, 1), (0, 1), (1, 1), (1, 1)]"
  show "\<exists>s. reachable mem_step testAcuqireRelease s \<and> all_stopped s \<and> said s = [mei, tai, ni, ji]"
    by (rule run_witness [where as = "?w @ [(5, 1), (5, 0), (4, 1), (4, 0), (3, 1), (3, 0), (2, 1), (2, 0)]"]) code_simp
  show "\<exists>s. reachable mem_step testAcuqireRelease s \<and> all_stopped s \<and> said s = []"
    by (rule run_witness [where as = "[(2, 0), (3, 0), (4, 0), (5, 0)] @ ?w"]) code_simp
  show "\<exists>s. reachable mem_step testSeqCst s \<and> all_stopped s \<and> said s = [ni, ji]"
    by (rule run_witness [where as = "[(4, 0), (5, 0)] @ ?w @ [(3, 0), (3, 0), (2, 0), (2, 0)]"]) code_simp
  show "\<exists>s. reachable mem_step testRelax s \<and> all_stopped s \<and> said s = [mei, tai, ni, ji]"
    by (rule run_witness [where as = "?w @ [(5, 1), (5, 0), (4, 1), (4, 0), (3, 1), (3, 0), (2, 1), (2, 0)]"]) code_simp
qed

end
