(* ===== verification/ChatMessage.thy ===== *)
theory ChatMessage
  imports CxxText "HOL-Library.Word"
begin

text \<open>
  \<open>ChatMessage\<close> of \<open>asio_test/chat/chat_message.hpp\<close>: a fixed buffer of a four byte decimal
  header and up to 256 bytes of body, and the length of the body as an \<open>unsigned int\<close>.
\<close>

section \<open>The message\<close>

definition kHeaderLength :: nat where "kHeaderLength = 4"
definition kMaxBodyLength :: nat where "kMaxBodyLength = 256"

record chat_message =
  msg_data :: string             \<comment> \<open>\<open>data_\<close>, always \<open>kHeaderLength + kMaxBodyLength\<close> bytes\<close>
  body_length :: "32 word"

text \<open>The constructor leaves \<open>data_\<close> as it finds the memory.\<close>

definition new_message :: "string \<Rightarrow> chat_message" where
  "new_message mem = \<lparr>msg_data = mem, body_length = 0\<rparr>"

definition dataLength :: "chat_message \<Rightarrow> 32 word" where
  "dataLength m = of_nat kHeaderLength + body_length m"

definition headerLength :: nat where "headerLength = kHeaderLength"
definition bodyMaxLength :: nat where "bodyMaxLength = kMaxBodyLength"

definition bodyLength :: "chat_message \<Rightarrow> 32 word" where
  "bodyLength m = body_length m"

text \<open>\<open>data()\<close> and \<open>body()\<close> point into the buffer; these are the bytes from there on.\<close>

definition data_bytes :: "chat_message \<Rightarrow> string" where
  "data_bytes m = msg_data m"

definition body_bytes :: "chat_message \<Rightarrow> string" where
  "body_bytes m = drop kHeaderLength (msg_data m)"

definition updateBodyLength :: "32 word \<Rightarrow> chat_message \<Rightarrow> chat_message" where
  "updateBodyLength len m = m\<lparr>body_length := if len \<le> of_nat kMaxBodyLength then len else of_nat kMaxBodyLength\<rparr>"

text \<open>\<open>strncat\<close> into an empty buffer: at most \<open>n\<close> bytes, up to a NUL.\<close>

definition strncat_empty :: "string \<Rightarrow> nat \<Rightarrow> string" where
  "strncat_empty s n = takeWhile (\<lambda>c. c \<noteq> CHR 0x00) (take n s)"

definition decodeHeader :: "chat_message \<Rightarrow> bool \<times> chat_message" where
  "decodeHeader m =
     (let m1 = m\<lparr>body_length := word_of_int (atoi (strncat_empty (msg_data m) kHeaderLength))\<rparr> in
      if body_length m1 > of_nat kMaxBodyLength then (False, m1\<lparr>body_length := 0\<rparr>) else (True, m1))"

text \<open>\<open>sprintf("%4d")\<close> of an \<open>unsigned\<close> below \<open>2\<^sup>3\<^sup>1\<close>, then \<open>memcpy\<close> of four bytes.\<close>

definition encodeHeader :: "chat_message \<Rightarrow> chat_message" where
  "encodeHeader m = m\<lparr>msg_data := take kHeaderLength (pad_left 4 (show_nat (unat (body_length m)))) @
     drop kHeaderLength (msg_data m)\<rparr>"

text \<open>Reading \<open>bs\<close> from the network into the header, or into the body.\<close>

definition fill_header :: "string \<Rightarrow> chat_message \<Rightarrow> chat_message" where
  "fill_header bs m = m\<lparr>msg_data := bs @ drop (length bs) (msg_data m)\<rparr>"

definition fill_body :: "string \<Rightarrow> chat_message \<Rightarrow> chat_message" where
  "fill_body bs m = m\<lparr>msg_data := take kHeaderLength (msg_data m) @ bs @ drop (kHeaderLength + length bs) (msg_data m)\<rparr>"

text \<open>What is sent: \<open>dataLength()\<close> bytes from \<open>data()\<close>; and the text of the body.\<close>

definition wire :: "chat_message \<Rightarrow> string" where
  "wire m = take (unat (dataLength m)) (msg_data m)"

definition body_text :: "chat_message \<Rightarrow> string" where
  "body_text m = take (unat (body_length m)) (body_bytes m)"

definition msg_wf :: "chat_message \<Rightarrow> bool" where
  "msg_wf m \<longleftrightarrow> length (msg_data m) = kHeaderLength + kMaxBodyLength \<and> unat (body_length m) \<le> kMaxBodyLength"

section \<open>Lemmas\<close>

lemma le_256_iff: "(w :: 32 word) \<le> 256 \<longleftrightarrow> unat w \<le> 256"
  by (simp add: word_le_nat_alt)

lemma unat_max: "unat (of_nat kMaxBodyLength :: 32 word) = 256"
  by (simp add: kMaxBodyLength_def)

lemma body_le_iff: "(w :: 32 word) \<le> of_nat kMaxBodyLength \<longleftrightarrow> unat w \<le> 256"
  by (simp add: word_le_nat_alt unat_max)

lemma updateBodyLength_wf:
  "length (msg_data m) = kHeaderLength + kMaxBodyLength \<Longrightarrow> msg_wf (updateBodyLength len m)"
  by (simp add: msg_wf_def updateBodyLength_def kMaxBodyLength_def le_256_iff)

lemma encodeHeader_data:
  assumes "unat (body_length m) \<le> 256"
  shows "msg_data (encodeHeader m) = pad_left 4 (show_nat (unat (body_length m))) @ drop 4 (msg_data m)"
    and "length (pad_left 4 (show_nat (unat (body_length m)))) = 4"
proof -
  have "length (show_nat (unat (body_length m))) \<le> Suc 2"
    by (rule length_show_nat) (use assms in simp)
  then show l: "length (pad_left 4 (show_nat (unat (body_length m)))) = 4" by (simp add: pad_left_def)
  then show "msg_data (encodeHeader m) = pad_left 4 (show_nat (unat (body_length m))) @ drop 4 (msg_data m)"
    by (simp add: encodeHeader_def kHeaderLength_def)
qed

lemma encodeHeader_wf: "msg_wf m \<Longrightarrow> msg_wf (encodeHeader m)"
  using encodeHeader_data [of m] by (simp add: msg_wf_def kHeaderLength_def kMaxBodyLength_def encodeHeader_def)

lemma digits_no_nul: "list_all is_digit s \<Longrightarrow> list_all (\<lambda>c. c \<noteq> CHR 0x00) s"
  by (induction s) (auto simp: is_digit_def)

lemma strncat_header:
  assumes "length h = 4" "list_all (\<lambda>c. c \<noteq> CHR 0x00) h"
  shows "strncat_empty (h @ rest) kHeaderLength = h"
  using assms by (simp add: strncat_empty_def kHeaderLength_def list_all_iff takeWhile_eq_all_conv)

lemma decode_encode:
  assumes "unat (body_length m) \<le> 256"
  shows "decodeHeader (encodeHeader m) = (True, encodeHeader m)"
proof -
  let ?h = "pad_left 4 (show_nat (unat (body_length m)))"
  have "list_all (\<lambda>c. c \<noteq> CHR 0x00) ?h"
    using digits_no_nul [OF show_nat_digits] by (auto simp: pad_left_def list_all_iff)
  then have s: "strncat_empty (msg_data (encodeHeader m)) kHeaderLength = ?h"
    using encodeHeader_data [OF assms] strncat_header by simp
  have b: "body_length (encodeHeader m) = body_length m" by (simp add: encodeHeader_def)
  have w: "word_of_int (atoi ?h) = body_length m" by (simp add: atoi_pad_show)
  have "\<not> body_length m > of_nat kMaxBodyLength" using assms body_le_iff by (simp add: not_less)
  then show ?thesis unfolding decodeHeader_def s w Let_def by (simp add: b [symmetric])
qed

lemma decodeHeader_wf:
  "length (msg_data m) = kHeaderLength + kMaxBodyLength \<Longrightarrow> msg_wf (snd (decodeHeader m))"
  by (auto simp: decodeHeader_def Let_def msg_wf_def not_less le_256_iff kMaxBodyLength_def)

lemma wire_length: "msg_wf m \<Longrightarrow> length (wire m) = 4 + unat (body_length m)"
proof -
  assume wf: "msg_wf m"
  then have "unat (dataLength m) = 4 + unat (body_length m)"
    by (simp add: dataLength_def kHeaderLength_def msg_wf_def kMaxBodyLength_def unat_word_ariths)
  with wf show ?thesis by (simp add: wire_def msg_wf_def kHeaderLength_def kMaxBodyLength_def)
qed

lemma wire_split:
  assumes "msg_wf m"
  shows "wire m = take 4 (msg_data m) @ body_text m"
proof -
  have "unat (dataLength m) = 4 + unat (body_length m)"
    using assms by (simp add: dataLength_def kHeaderLength_def msg_wf_def kMaxBodyLength_def unat_word_ariths)
  then show ?thesis by (simp add: wire_def body_text_def body_bytes_def kHeaderLength_def take_add)
qed

lemma fill_header_simps [simp]:
  "length bs \<le> length (msg_data m) \<Longrightarrow> length (msg_data (fill_header bs m)) = length (msg_data m)"
  "body_length (fill_header bs m) = body_length m"
  by (simp_all add: fill_header_def)

lemma fill_body_wf:
  "msg_wf m \<Longrightarrow> length bs = unat (body_length m) \<Longrightarrow> msg_wf (fill_body bs m) \<and> body_text (fill_body bs m) = bs \<and>
     take 4 (msg_data (fill_body bs m)) = take 4 (msg_data m)"
  by (simp add: msg_wf_def fill_body_def body_text_def body_bytes_def kHeaderLength_def kMaxBodyLength_def)

section \<open>Properties\<close>

text \<open>Sending a text, and receiving from the network into a buffer.\<close>

definition send_text :: "string \<Rightarrow> chat_message \<Rightarrow> chat_message" where
  "send_text txt m =
     (let m1 = updateBodyLength (of_nat (length txt)) m;
          m2 = fill_body (take (unat (body_length m1)) txt) m1
      in encodeHeader m2)"

definition receive_wire :: "string \<Rightarrow> chat_message \<Rightarrow> (chat_message \<times> string) option" where
  "receive_wire bs m =
     (case decodeHeader (fill_header (take headerLength bs) m) of
        (True, m1) \<Rightarrow> (let n = headerLength + unat (body_length m1) in
           Some (fill_body (take (unat (body_length m1)) (drop headerLength bs)) m1, drop n bs))
      | (False, m1) \<Rightarrow> None)"

text \<open>C37: sending and receiving a message gives it back: for any text (cut at 256 bytes) the
  encoded message is a four byte header and the text, and a receiver that fills its own
  buffer with the header, decodes it, and then fills the body with as many bytes as the header
  says, ends with the same text, whatever its buffer held before.\<close>

theorem chat_message_roundtrip:
  assumes "length txt < 2 ^ 32" "length (msg_data m) = 260" "length (msg_data m') = 260"
  shows "\<exists>r. receive_wire (wire (send_text txt m) @ rest) m' = Some (r, rest) \<and>
    body_text r = take 256 txt \<and> wire r = wire (send_text txt m) \<and> length (wire r) = 4 + min 256 (length txt)"
proof -
  define m1 where "m1 = updateBodyLength (of_nat (length txt)) m"
  have u: "unat (of_nat (length txt) :: 32 word) = length txt"
    using assms(1) by (simp add: unsigned_of_nat take_bit_nat_eq_self)
  have wf1: "msg_wf m1" unfolding m1_def by (rule updateBodyLength_wf) (use assms in \<open>simp add: kHeaderLength_def kMaxBodyLength_def\<close>)
  have len1: "unat (body_length m1) = min 256 (length txt)"
    using u unfolding m1_def updateBodyLength_def by (simp add: body_le_iff unat_max)
  define t where "t = take (unat (body_length m1)) txt"
  have t: "t = take 256 txt" "length t = unat (body_length m1)" using len1 by (auto simp: t_def min_def)
  define m2 where "m2 = fill_body t m1"
  from fill_body_wf [OF wf1 t(2)] have wf2: "msg_wf m2" "body_text m2 = t" "body_length m2 = body_length m1"
    by (simp_all add: m2_def) (simp add: fill_body_def)
  define s where "s = encodeHeader m2"
  have b2: "unat (body_length m2) \<le> 256" using len1 wf2(3) by simp
  have sdat: "msg_data s = pad_left 4 (show_nat (unat (body_length m2))) @ drop 4 (msg_data m2)"
    "length (pad_left 4 (show_nat (unat (body_length m2)))) = 4" "body_length s = body_length m2"
    using encodeHeader_data [OF b2] by (simp_all add: s_def) (simp add: encodeHeader_def)
  have wfs: "msg_wf s" using encodeHeader_wf [OF wf2(1)] by (simp add: s_def)
  have st: "send_text txt m = s" by (simp add: send_text_def m1_def m2_def s_def t_def Let_def)
  have bts: "body_text s = t" using wf2(2) sdat by (simp add: body_text_def body_bytes_def kHeaderLength_def)
  let ?h = "pad_left 4 (show_nat (unat (body_length m2)))"
  have w: "wire s = ?h @ t" using wire_split [OF wfs] sdat bts by simp
  define f where "f = fill_header ?h m'"
  have "encodeHeader (m'\<lparr>body_length := body_length m2\<rparr>) = f\<lparr>body_length := body_length m2\<rparr>"
    using encodeHeader_data(2) [OF b2] by (simp add: encodeHeader_def f_def fill_header_def kHeaderLength_def)
  moreover have "decodeHeader (f\<lparr>body_length := x\<rparr>) = decodeHeader f" for x by (simp add: decodeHeader_def Let_def)
  ultimately have dec: "decodeHeader f = (True, f\<lparr>body_length := body_length m2\<rparr>)"
    using decode_encode [of "m'\<lparr>body_length := body_length m2\<rparr>"] b2 by simp
  define f1 where "f1 = f\<lparr>body_length := body_length m2\<rparr>"
  have wff1: "msg_wf f1"
    using b2 sdat(2) assms(3) by (simp add: f1_def f_def msg_wf_def kHeaderLength_def kMaxBodyLength_def fill_header_def)
  have tl: "length t = unat (body_length f1)" using t(2) wf2(3) by (simp add: f1_def)
  define r where "r = fill_body t f1"
  from fill_body_wf [OF wff1 tl] have r: "msg_wf r" "body_text r = t" "take 4 (msg_data r) = take 4 (msg_data f1)"
    by (simp_all add: r_def)
  have h1: "take 4 (msg_data f1) = ?h" using sdat(2) by (simp add: f1_def f_def fill_header_def)
  have wr: "wire r = ?h @ t" using wire_split [OF r(1)] r(2,3) h1 by simp
  have "receive_wire (wire s @ rest) m' = Some (r, rest)"
    unfolding receive_wire_def w
    using sdat(2) dec tl by (simp add: headerLength_def kHeaderLength_def f_def [symmetric] f1_def [symmetric] r_def)
  with r(2) wr w t(1) len1 t(2) sdat(2) show ?thesis unfolding st by (intro exI [of _ r]) simp
qed

definition chat_buffer :: chat_message where
  "chat_buffer = new_message (replicate 260 CHR ''?'')"

theorem chat_message_roundtrip_witness:
  "\<exists>r. receive_wire (wire (send_text ''hello'' chat_buffer) @ ''  12more'') chat_buffer = Some (r, ''  12more'') \<and>
     body_text r = ''hello'' \<and> wire r = wire (send_text ''hello'' chat_buffer) \<and> length (wire r) = 9"
  using chat_message_roundtrip [of "''hello''" chat_buffer chat_buffer "''  12more''"]
  by (simp add: chat_buffer_def new_message_def)

text \<open>C38: whatever four bytes arrive as a header, the decoded length never exceeds the body
  part of the buffer; the header is accepted exactly when it reads as a number from 0 to 256,
  and a rejected one (negative numbers included, which wrap to huge unsigned ones) leaves 0.\<close>

theorem chat_decode_bounds:
  "decodeHeader m =
     (let n = atoi (strncat_empty (msg_data m) kHeaderLength); ok = (0 \<le> n \<and> n \<le> 256)
      in (ok, m\<lparr>body_length := if ok then word_of_int n else 0\<rparr>)) \<and>
   unat (body_length (snd (decodeHeader m))) \<le> kMaxBodyLength"
proof -
  define n where "n = atoi (strncat_empty (msg_data m) kHeaderLength)"
  have n: "\<bar>n\<bar> < 10 ^ 4"
  proof -
    have "length (strncat_empty (msg_data m) kHeaderLength) \<le> 4"
      using length_takeWhile_le by (simp add: strncat_empty_def kHeaderLength_def min.coboundedI2 le_trans [OF length_takeWhile_le])
    then show ?thesis unfolding n_def by (rule atoi_less)
  qed
  have u: "uint (word_of_int n :: 32 word) = n mod 2 ^ 32" by (simp add: unsigned_of_int take_bit_eq_mod)
  have "(word_of_int n :: 32 word) > of_nat kMaxBodyLength \<longleftrightarrow> 256 < n mod 2 ^ 32"
    using u by (simp add: word_less_def kMaxBodyLength_def)
  also have "\<dots> \<longleftrightarrow> \<not> (0 \<le> n \<and> n \<le> 256)"
  proof (cases "0 \<le> n")
    case True
    with n have "n mod 2 ^ 32 = n" by simp
    then show ?thesis using True by (metis not_le)
  next
    case False
    then have "n mod 2 ^ 32 = (n + 2 ^ 32) mod 2 ^ 32" by simp
    also have "\<dots> = n + 2 ^ 32" using False n by (intro mod_pos_pos_trivial) auto
    finally show ?thesis using False n by simp
  qed
  finally have d: "decodeHeader m = (0 \<le> n \<and> n \<le> 256, m\<lparr>body_length := if 0 \<le> n \<and> n \<le> 256 then word_of_int n else 0\<rparr>)"
    by (auto simp: decodeHeader_def n_def Let_def)
  moreover have "unat (body_length (snd (decodeHeader m))) \<le> kMaxBodyLength"
    by (auto simp: decodeHeader_def Let_def not_less le_256_iff kMaxBodyLength_def)
  ultimately show ?thesis unfolding n_def Let_def by blast
qed

end
