(* ===== verification/ChatServer.thy ===== *)
theory ChatServer
  imports ChatMessage
begin

text \<open>
  The chat server of \<open>asio_test/chat/chat_server.cpp\<close>: a room with its participants and the
  last hundred messages, and one session per accepted connection. All handlers run on the
  one thread of \<open>io_context::run\<close>, so the server is a state machine whose actions are the
  completions the network delivers, in any order; each action runs one handler to its end.
  A completion is possible only for an operation that was started and is outstanding.
  \<open>sent\<close> and \<open>joined_at\<close> and the \<open>log\<close> of delivered messages are kept for the proofs.
\<close>

section \<open>State\<close>

datatype read_op = NoRead | ReadingHeader | ReadingBody

record session =
  read_message :: chat_message
  write_messages :: "chat_message list"
  reading :: read_op                  \<comment> \<open>the outstanding \<open>async_read\<close>\<close>
  writing :: "chat_message list"      \<comment> \<open>the outstanding \<open>async_write\<close>s: what each was given\<close>
  sent :: "chat_message list"         \<comment> \<open>messages whose write completed\<close>
  joined_at :: nat                    \<comment> \<open>length of the log when the session joined\<close>

record chat_room =
  participants :: "nat set"
  recent_msgs :: "chat_message list"
  log :: "chat_message list"

record chat_server =
  room :: chat_room
  sessions :: "session list"

definition kMaxRecentMsgs :: nat where "kMaxRecentMsgs = 100"

datatype chat_event =
    Accepted string              \<comment> \<open>a connection; the memory of the session's buffer\<close>
  | AcceptFailed
  | ReadDone nat string
  | ReadFailed nat
  | WriteDone nat
  | WriteFailed nat

section \<open>Handlers\<close>

text \<open>\<open>ChatSession::write\<close>: starts writing the front of the queue, whatever is being written already.\<close>

definition session_write :: "session \<Rightarrow> session" where
  "session_write x = x\<lparr>writing := writing x @ [hd (write_messages x)]\<rparr>"

definition session_deliver :: "chat_message \<Rightarrow> session \<Rightarrow> session" where
  "session_deliver m x =
     (let busy = (write_messages x \<noteq> []); x1 = x\<lparr>write_messages := write_messages x @ [m]\<rparr>
      in if busy then x1 else session_write x1)"

definition readHeader :: "session \<Rightarrow> session" where
  "readHeader x = x\<lparr>reading := ReadingHeader\<rparr>"

definition readBody :: "session \<Rightarrow> session" where
  "readBody x = x\<lparr>reading := ReadingBody\<rparr>"

definition room_join :: "nat \<Rightarrow> chat_server \<Rightarrow> chat_server" where
  "room_join i s = s\<lparr>room := (room s)\<lparr>participants := insert i (participants (room s))\<rparr>,
     sessions := (sessions s)[i := foldl (\<lambda>x m. session_deliver m x) (sessions s ! i) (recent_msgs (room s))]\<rparr>"

definition room_leave :: "nat \<Rightarrow> chat_server \<Rightarrow> chat_server" where
  "room_leave i s = s\<lparr>room := (room s)\<lparr>participants := participants (room s) - {i}\<rparr>\<rparr>"

fun drop_old :: "chat_message list \<Rightarrow> chat_message list" where
  "drop_old ms = (if length ms > kMaxRecentMsgs then drop_old (tl ms) else ms)"

declare drop_old.simps [simp del]

definition room_deliver :: "chat_message \<Rightarrow> chat_server \<Rightarrow> chat_server" where
  "room_deliver m s = s\<lparr>room := (room s)\<lparr>recent_msgs := drop_old (recent_msgs (room s) @ [m]), log := log (room s) @ [m]\<rparr>,
     sessions := List.map (\<lambda>(i, x). if i \<in> participants (room s) then session_deliver m x else x)
       (zip [0..<length (sessions s)] (sessions s))\<rparr>"

definition new_session :: "string \<Rightarrow> nat \<Rightarrow> session" where
  "new_session mem k = \<lparr>read_message = new_message mem, write_messages = [], reading = NoRead,
     writing = [], sent = [], joined_at = k\<rparr>"

lemma new_session_fields [simp]:
  "read_message (new_session mem k) = new_message mem" "write_messages (new_session mem k) = []"
  "reading (new_session mem k) = NoRead" "writing (new_session mem k) = []" "sent (new_session mem k) = []"
  "joined_at (new_session mem k) = k"
  by (simp_all add: new_session_def)

text \<open>\<open>start\<close> of the session numbered \<open>i\<close>.\<close>

definition session_start :: "nat \<Rightarrow> chat_server \<Rightarrow> chat_server" where
  "session_start i s = (let s1 = room_join i s in s1\<lparr>sessions := (sessions s1)[i := readHeader (sessions s1 ! i)]\<rparr>)"

definition on_header :: "nat \<Rightarrow> string \<Rightarrow> chat_server \<Rightarrow> chat_server" where
  "on_header i bs s =
     (let x = sessions s ! i; d = decodeHeader (fill_header bs (read_message x));
          x1 = x\<lparr>read_message := snd d, reading := NoRead\<rparr>
      in if fst d then s\<lparr>sessions := (sessions s)[i := readBody x1]\<rparr>
         else room_leave i (s\<lparr>sessions := (sessions s)[i := x1]\<rparr>))"

definition on_body :: "nat \<Rightarrow> string \<Rightarrow> chat_server \<Rightarrow> chat_server" where
  "on_body i bs s =
     (let x = sessions s ! i; x1 = x\<lparr>read_message := fill_body bs (read_message x), reading := NoRead\<rparr>;
          s1 = room_deliver (read_message x1) (s\<lparr>sessions := (sessions s)[i := x1]\<rparr>)
      in s1\<lparr>sessions := (sessions s1)[i := readHeader (sessions s1 ! i)]\<rparr>)"

text \<open>The first outstanding write completes: what it was given has been sent, and the front of the queue is dropped.\<close>

definition on_write :: "session \<Rightarrow> session" where
  "on_write x =
     (let x1 = x\<lparr>write_messages := tl (write_messages x), writing := tl (writing x), sent := sent x @ [hd (writing x)]\<rparr>
      in if write_messages x1 \<noteq> [] then session_write x1 else x1)"

text \<open>An \<open>async_read\<close> completes with exactly as many bytes as were asked for, or fails.\<close>

fun server_step :: "chat_server \<Rightarrow> chat_event \<Rightarrow> chat_server option" where
  "server_step s (Accepted mem) =
     (if length mem = kHeaderLength + kMaxBodyLength
      then Some (session_start (length (sessions s))
        (s\<lparr>sessions := sessions s @ [new_session mem (length (log (room s)))]\<rparr>))
      else None)"
| "server_step s AcceptFailed = Some s"
| "server_step s (ReadDone i bs) =
     (if i < length (sessions s) then (case reading (sessions s ! i) of
          NoRead \<Rightarrow> None
        | ReadingHeader \<Rightarrow> if length bs = headerLength then Some (on_header i bs s) else None
        | ReadingBody \<Rightarrow>
            if length bs = unat (body_length (read_message (sessions s ! i))) then Some (on_body i bs s) else None)
      else None)"
| "server_step s (ReadFailed i) =
     (if i < length (sessions s) \<and> reading (sessions s ! i) \<noteq> NoRead
      then Some (room_leave i (s\<lparr>sessions := (sessions s)[i := (sessions s ! i)\<lparr>reading := NoRead\<rparr>]\<rparr>)) else None)"
| "server_step s (WriteDone i) =
     (if i < length (sessions s) \<and> writing (sessions s ! i) \<noteq> []
      then Some (s\<lparr>sessions := (sessions s)[i := on_write (sessions s ! i)]\<rparr>) else None)"
| "server_step s (WriteFailed i) =
     (if i < length (sessions s) \<and> writing (sessions s ! i) \<noteq> []
      then Some (room_leave i (s\<lparr>sessions := (sessions s)[i := (sessions s ! i)\<lparr>writing := tl (writing (sessions s ! i))\<rparr>]\<rparr>)) else None)"

definition new_server :: chat_server where
  "new_server = \<lparr>room = \<lparr>participants = {}, recent_msgs = [], log = []\<rparr>, sessions = []\<rparr>"

text \<open>\<open>main\<close>: usage, or one server per port; a port is the low 16 bits of the number.\<close>

definition server_main :: "string list \<Rightarrow> (string \<times> int) + 16 word list" where
  "server_main args =
     (if length args < 2 then Inl (''Usage: chat_server <port> [<port> ...]'' @ [CHR 0x0A], 1)
      else Inr (List.map (\<lambda>a. word_of_int (atoi a)) (tl args)))"

section \<open>Invariant\<close>

text \<open>What session \<open>i\<close> was given so far: written, being written, or queued.\<close>

definition received :: "session \<Rightarrow> chat_message list" where
  "received x = sent x @ write_messages x"

lemma received_new [simp]: "received (new_session mem k) = []"
  by (simp add: received_def)

text \<open>Where the messages a session gets start in the log: a hundred before it joined.\<close>

definition first_index :: "session \<Rightarrow> nat" where
  "first_index x = joined_at x - kMaxRecentMsgs"

definition session_ok :: "chat_room \<Rightarrow> nat \<Rightarrow> session \<Rightarrow> bool" where
  "session_ok r i x \<longleftrightarrow> length (msg_data (read_message x)) = kHeaderLength + kMaxBodyLength \<and>
     (reading x = ReadingBody \<longrightarrow> unat (body_length (read_message x)) \<le> kMaxBodyLength) \<and>
     (writing x \<noteq> [] \<longrightarrow> writing x = take 1 (write_messages x)) \<and> joined_at x \<le> length (log r) \<and>
     (i \<in> participants r \<longrightarrow> writing x = take 1 (write_messages x) \<and> received x = drop (first_index x) (log r)) \<and>
     (\<exists>n. received x = drop (first_index x) (take n (log r)))"

definition server_inv :: "chat_server \<Rightarrow> bool" where
  "server_inv s \<longleftrightarrow>
     recent_msgs (room s) = drop (length (log (room s)) - kMaxRecentMsgs) (log (room s)) \<and>
     (\<forall>m \<in> set (log (room s)). msg_wf m) \<and>
     (\<forall>i < length (sessions s). session_ok (room s) i (sessions s ! i))"

lemma drop_old_eq: "drop_old ms = drop (length ms - kMaxRecentMsgs) ms"
proof (induction ms rule: drop_old.induct)
  case (1 ms)
  show ?case
  proof (cases "length ms > kMaxRecentMsgs")
    case True
    then have "length ms - kMaxRecentMsgs = Suc (length (tl ms) - kMaxRecentMsgs)" "ms \<noteq> []"
      by (auto simp: kMaxRecentMsgs_def)
    with 1 True show ?thesis by (subst drop_old.simps) (simp add: drop_Suc)
  qed (subst drop_old.simps, simp)
qed

lemma deliver_fields [simp]:
  "read_message (session_deliver m x) = read_message x" "reading (session_deliver m x) = reading x"
  "sent (session_deliver m x) = sent x" "joined_at (session_deliver m x) = joined_at x"
  "write_messages (session_deliver m x) = write_messages x @ [m]"
  "writing (session_deliver m x) = (if write_messages x = [] then writing x @ [m] else writing x)"
  by (simp_all add: session_deliver_def session_write_def Let_def)

lemma deliver_received [simp]: "received (session_deliver m x) = received x @ [m]"
  by (simp add: received_def)

lemma deliver_all:
  "let y = foldl (\<lambda>x m. session_deliver m x) x ms in
     read_message y = read_message x \<and> reading y = reading x \<and> joined_at y = joined_at x \<and>
     received y = received x @ ms \<and> write_messages y = write_messages x @ ms \<and>
     writing y = (if write_messages x = [] then writing x @ take 1 ms else writing x)"
  by (induction ms arbitrary: x) (auto simp: Let_def)

lemma session_ok_leave: "session_ok r i x \<Longrightarrow> session_ok (r\<lparr>participants := participants r - {j}\<rparr>) i x"
  by (auto simp: session_ok_def)

lemma server_inv_leave: "server_inv s \<Longrightarrow> server_inv (room_leave j s)"
  by (simp add: server_inv_def room_leave_def session_ok_leave)

lemma server_inv_update:
  "server_inv s \<Longrightarrow> session_ok (room s) i x \<Longrightarrow> server_inv (s\<lparr>sessions := (sessions s)[i := x]\<rparr>)"
proof -
  assume inv: "server_inv s" and x: "session_ok (room s) i x"
  have "session_ok (room s) j ((sessions s)[i := x] ! j)" if "j < length (sessions s)" for j
    using inv x that by (cases "i = j") (simp_all add: server_inv_def)
  with inv show ?thesis by (simp add: server_inv_def)
qed

lemma inv_session: "server_inv s \<Longrightarrow> i < length (sessions s) \<Longrightarrow> session_ok (room s) i (sessions s ! i)"
  by (simp add: server_inv_def)

lemma session_ok_keep:
  "session_ok r i x \<Longrightarrow> write_messages y = write_messages x \<Longrightarrow> sent y = sent x \<Longrightarrow> joined_at y = joined_at x \<Longrightarrow>
     writing y = writing x \<Longrightarrow> length (msg_data (read_message y)) = kHeaderLength + kMaxBodyLength \<Longrightarrow>
     (reading y = ReadingBody \<longrightarrow> unat (body_length (read_message y)) \<le> kMaxBodyLength) \<Longrightarrow> session_ok r i y"
  by (simp add: session_ok_def received_def first_index_def)

lemma session_ok_log:
  assumes ok: "session_ok r i x"
  shows "session_ok (r\<lparr>recent_msgs := q, log := log r @ [m]\<rparr>) i (if i \<in> participants r then session_deliver m x else x)"
proof -
  have f: "first_index x \<le> length (log r)" using ok by (auto simp: session_ok_def first_index_def)
  obtain n where n: "received x = drop (first_index x) (take n (log r))" using ok by (auto simp: session_ok_def)
  show ?thesis
  proof (cases "i \<in> participants r")
    case True
    with ok have w: "writing x = take 1 (write_messages x)" "received x = drop (first_index x) (log r)"
      by (auto simp: session_ok_def)
    then have "received (session_deliver m x) = drop (first_index x) (log r @ [m])" using f by simp
    moreover have "\<exists>k. received (session_deliver m x) = drop (first_index x) (take k (log r @ [m]))"
      using calculation by (intro exI [of _ "length (log r @ [m])"]) simp
    ultimately show ?thesis using True ok w by (simp add: session_ok_def first_index_def Suc_le_eq)
  next
    case False
    have "received x = drop (first_index x) (take (min n (length (log r))) (log r @ [m]))"
      using n by (simp add: min_def)
    then have "\<exists>k. received x = drop (first_index x) (take k (log r @ [m]))" by blast
    with False ok show ?thesis by (simp add: session_ok_def first_index_def)
  qed
qed

lemma nth_delivered:
  "i < length xs \<Longrightarrow> List.map (\<lambda>(i, x). if i \<in> P then f x else x) (zip [0..<length xs] xs) ! i =
     (if i \<in> P then f (xs ! i) else xs ! i)"
  by simp

lemma server_inv_deliver:
  assumes inv: "server_inv s" and m: "msg_wf m"
  shows "server_inv (room_deliver m s)"
proof -
  let ?l = "log (room s)"
  have "drop_old (recent_msgs (room s) @ [m]) = drop (length (?l @ [m]) - kMaxRecentMsgs) (?l @ [m])"
  proof (cases "kMaxRecentMsgs < Suc (length ?l)")
    case True
    with inv show ?thesis by (auto simp: drop_old_eq server_inv_def Suc_diff_le)
  next
    case False
    with inv show ?thesis by (auto simp: drop_old_eq server_inv_def)
  qed
  moreover have "session_ok (room (room_deliver m s)) i (sessions (room_deliver m s) ! i)"
    if "i < length (sessions s)" for i
    using session_ok_log [OF inv_session [OF inv that]] that by (simp add: room_deliver_def nth_delivered)
  ultimately show ?thesis
    using inv m by (auto simp: server_inv_def room_deliver_def)
qed

lemma header_inv:
  assumes inv: "server_inv s" and i: "i < length (sessions s)" and bs: "length bs = headerLength"
  shows "server_inv (on_header i bs s)"
proof -
  let ?x = "sessions s ! i" and ?d = "decodeHeader (fill_header bs (read_message (sessions s ! i)))"
  note ok = inv_session [OF inv i]
  have len: "length (msg_data (fill_header bs (read_message ?x))) = kHeaderLength + kMaxBodyLength"
    using ok bs by (simp add: session_ok_def headerLength_def)
  have wf: "msg_wf (snd ?d)" by (rule decodeHeader_wf [OF len])
  have "session_ok (room s) i (readBody (?x\<lparr>read_message := snd ?d, reading := NoRead\<rparr>))"
    by (rule session_ok_keep [OF ok]) (use wf in \<open>simp_all add: readBody_def msg_wf_def\<close>)
  moreover have "session_ok (room s) i (?x\<lparr>read_message := snd ?d, reading := NoRead\<rparr>)"
    by (rule session_ok_keep [OF ok]) (use wf in \<open>simp_all add: msg_wf_def\<close>)
  ultimately show ?thesis
    unfolding on_header_def Let_def using inv by (auto intro: server_inv_leave server_inv_update)
qed

lemma body_inv:
  assumes inv: "server_inv s" and i: "i < length (sessions s)" and r: "reading (sessions s ! i) = ReadingBody"
    and bs: "length bs = unat (body_length (read_message (sessions s ! i)))"
  shows "server_inv (on_body i bs s)"
proof -
  let ?x = "sessions s ! i"
  note ok = inv_session [OF inv i]
  have "msg_wf (read_message ?x)" using ok r by (simp add: session_ok_def msg_wf_def)
  then have wf: "msg_wf (fill_body bs (read_message ?x))" using fill_body_wf [OF _ bs] by simp
  let ?x1 = "?x\<lparr>read_message := fill_body bs (read_message ?x), reading := NoRead\<rparr>"
  have "session_ok (room s) i ?x1"
    by (rule session_ok_keep [OF ok]) (use wf in \<open>simp_all add: msg_wf_def\<close>)
  then have "server_inv (s\<lparr>sessions := (sessions s)[i := ?x1]\<rparr>)" by (rule server_inv_update [OF inv])
  from server_inv_deliver [OF this wf] have
    inv2: "server_inv (room_deliver (fill_body bs (read_message ?x)) (s\<lparr>sessions := (sessions s)[i := ?x1]\<rparr>))"
    (is "server_inv ?s2") .
  have "i < length (sessions ?s2)" using i by (simp add: room_deliver_def)
  from inv_session [OF inv2 this] have "session_ok (room ?s2) i (readHeader (sessions ?s2 ! i))"
    by (rule session_ok_keep) (use inv_session [OF inv2 \<open>i < length (sessions ?s2)\<close>] in \<open>simp_all add: readHeader_def session_ok_def\<close>)
  from server_inv_update [OF inv2 this] show ?thesis unfolding on_body_def Let_def by simp
qed

lemma accept_inv:
  assumes inv: "server_inv s" and mem: "length mem = kHeaderLength + kMaxBodyLength"
  shows "server_inv (session_start (length (sessions s)) (s\<lparr>sessions := sessions s @ [new_session mem (length (log (room s)))]\<rparr>))"
proof -
  let ?n = "length (sessions s)" and ?x = "new_session mem (length (log (room s)))"
  let ?y = "foldl (\<lambda>x m. session_deliver m x) ?x (recent_msgs (room s))"
  have rec: "recent_msgs (room s) = drop (length (log (room s)) - kMaxRecentMsgs) (log (room s))"
    using inv by (simp add: server_inv_def)
  have y: "read_message ?y = new_message mem" "joined_at ?y = length (log (room s))"
    "received ?y = recent_msgs (room s)" "write_messages ?y = recent_msgs (room s)" "writing ?y = take 1 (recent_msgs (room s))"
    using deliver_all [of ?x "recent_msgs (room s)"] by (simp_all add: Let_def)
  let ?r = "(room s)\<lparr>participants := insert ?n (participants (room s))\<rparr>"
  have "received ?y = drop (length (log (room s)) - kMaxRecentMsgs) (take (length (log (room s))) (log (room s)))"
    using y rec by simp
  then have "\<exists>k. received ?y = drop (length (log (room s)) - kMaxRecentMsgs) (take k (log (room s)))" by blast
  then have ok: "session_ok ?r ?n (readHeader ?y)"
    using y rec mem by (simp add: session_ok_def readHeader_def first_index_def new_message_def received_def)
  have others: "session_ok ?r i (sessions s ! i)" if "i < ?n" for i
    using inv_session [OF inv that] that by (auto simp: session_ok_def)
  have eq: "session_start ?n (s\<lparr>sessions := sessions s @ [?x]\<rparr>) = s\<lparr>room := ?r, sessions := sessions s @ [readHeader ?y]\<rparr>"
    by (simp add: session_start_def room_join_def Let_def list_update_append)
  show ?thesis
    unfolding eq using inv ok others by (auto simp: server_inv_def nth_append less_Suc_eq)
qed

lemma write_inv:
  assumes inv: "server_inv s" and i: "i < length (sessions s)" and w: "writing (sessions s ! i) \<noteq> []"
  shows "server_inv (s\<lparr>sessions := (sessions s)[i := on_write (sessions s ! i)]\<rparr>)"
proof (rule server_inv_update [OF inv])
  let ?x = "sessions s ! i"
  note ok = inv_session [OF inv i]
  have wr: "writing ?x = take 1 (write_messages ?x)" using ok w by (simp add: session_ok_def)
  then obtain m ms where ne: "write_messages ?x = m # ms" using w by (cases "write_messages ?x") auto
  with wr have "received (on_write ?x) = received ?x"
    by (simp add: on_write_def Let_def received_def session_write_def)
  moreover have "writing (on_write ?x) = take 1 (write_messages (on_write ?x))" "joined_at (on_write ?x) = joined_at ?x"
    "read_message (on_write ?x) = read_message ?x" "reading (on_write ?x) = reading ?x"
    using wr ne by (simp_all add: on_write_def Let_def session_write_def take_Suc)
  ultimately show "session_ok (room s) i (on_write ?x)"
    using ok by (simp add: session_ok_def first_index_def)
qed

lemma server_step_inv: "server_inv s \<Longrightarrow> server_step s e = Some s' \<Longrightarrow> server_inv s'"
proof (cases e)
  case (Accepted mem)
  assume "server_inv s" "server_step s e = Some s'"
  with Accepted accept_inv show ?thesis by (auto split: if_splits)
next
  case (ReadDone i bs)
  assume inv: "server_inv s" and st: "server_step s e = Some s'"
  with ReadDone header_inv [OF inv, of i bs] body_inv [OF inv, of i bs] show ?thesis
    by (auto split: if_splits read_op.splits)
next
  case (ReadFailed i)
  assume inv: "server_inv s" and st: "server_step s e = Some s'"
  with ReadFailed have i: "i < length (sessions s)"
    "s' = room_leave i (s\<lparr>sessions := (sessions s)[i := (sessions s ! i)\<lparr>reading := NoRead\<rparr>]\<rparr>)"
    by (auto split: if_splits)
  have "session_ok (room s) i ((sessions s ! i)\<lparr>reading := NoRead\<rparr>)"
    using inv_session [OF inv i(1)] by (rule session_ok_keep) (use inv_session [OF inv i(1)] in \<open>simp_all add: session_ok_def\<close>)
  then show ?thesis unfolding i(2) by (intro server_inv_leave server_inv_update [OF inv])
next
  case (WriteDone i)
  assume "server_inv s" "server_step s e = Some s'"
  with WriteDone write_inv show ?thesis by (auto split: if_splits)
next
  case (WriteFailed i)
  assume inv: "server_inv s" and st: "server_step s e = Some s'"
  with WriteFailed have i: "i < length (sessions s)"
    "s' = room_leave i (s\<lparr>sessions := (sessions s)[i := (sessions s ! i)\<lparr>writing := tl (writing (sessions s ! i))\<rparr>]\<rparr>)"
    by (auto split: if_splits)
  have "server_inv (room_leave i s)" by (rule server_inv_leave [OF inv])
  moreover have "session_ok (room (room_leave i s)) i ((sessions s ! i)\<lparr>writing := tl (writing (sessions s ! i))\<rparr>)"
    using inv_session [OF inv i(1)] by (auto simp: session_ok_def room_leave_def received_def first_index_def tl_take)
  ultimately have "server_inv ((room_leave i s)\<lparr>sessions := (sessions (room_leave i s))[i := (sessions s ! i)\<lparr>writing := tl (writing (sessions s ! i))\<rparr>]\<rparr>)"
    by (rule server_inv_update)
  then show ?thesis unfolding i(2) by (cases s) (simp add: room_leave_def)
qed auto

interpretation server: invariant_system server_step new_server server_inv
proof unfold_locales
  show "server_inv new_server" by (simp add: server_inv_def new_server_def)
qed (rule server_step_inv)

section \<open>Properties\<close>

text \<open>C39: in every order of completions, a participant has been sent, is being sent or has
  queued exactly the messages of the room in the order the room delivered them, from a
  hundred before it joined on; the one write that is outstanding is that of the front of its
  queue, and there is none when the queue is empty; no session ever has two writes
  outstanding; and the room keeps the last hundred messages.\<close>

theorem chat_server_delivery:
  "reachable server_step new_server s \<Longrightarrow> i < length (sessions s) \<Longrightarrow>
     length (writing (sessions s ! i)) \<le> 1 \<and> recent_msgs (room s) = drop (length (log (room s)) - 100) (log (room s)) \<and>
     (i \<in> participants (room s) \<longrightarrow> writing (sessions s ! i) = take 1 (write_messages (sessions s ! i)) \<and>
       sent (sessions s ! i) @ write_messages (sessions s ! i) = drop (joined_at (sessions s ! i) - 100) (log (room s)))"
proof -
  assume r: "reachable server_step new_server s" and i: "i < length (sessions s)"
  have inv: "server_inv s" by (rule server.reachable_inv [OF r])
  have "length (writing (sessions s ! i)) \<le> 1"
    using inv_session [OF inv i] by (cases "writing (sessions s ! i)") (auto simp: session_ok_def)
  with inv inv_session [OF inv i] show ?thesis
    by (simp add: session_ok_def received_def first_index_def kMaxRecentMsgs_def server_inv_def)
qed

definition chat_trace :: "chat_event list" where
  "chat_trace = [Accepted (replicate 260 CHR ''?''), ReadDone 0 ''   2'', ReadDone 0 ''hi'',
     Accepted (replicate 260 CHR ''!''), ReadDone 1 ''+1  '', ReadDone 1 ''x'', WriteDone 0]"

definition chat_example :: chat_server where
  "chat_example = the (run server_step new_server chat_trace)"

lemma chat_trace_runs:
  "run server_step new_server chat_trace = Some chat_example"
  "length (sessions chat_example) = 2" "participants (room chat_example) = {0, 1}"
  "List.map wire (log (room chat_example)) = [''   2hi'', ''+1  x'']"
  "joined_at (sessions chat_example ! 1) = 1"
proof -
  have "case run server_step new_server chat_trace of None \<Rightarrow> False
    | Some s \<Rightarrow> length (sessions s) = 2 \<and> participants (room s) = {0, 1} \<and>
        List.map wire (log (room s)) = [''   2hi'', ''+1  x''] \<and> joined_at (sessions s ! 1) = 1"
    by code_simp
  then show "run server_step new_server chat_trace = Some chat_example"
    "length (sessions chat_example) = 2" "participants (room chat_example) = {0, 1}"
    "List.map wire (log (room chat_example)) = [''   2hi'', ''+1  x'']"
    "joined_at (sessions chat_example ! 1) = 1"
    by (auto simp: chat_example_def split: option.splits)
qed

theorem chat_server_delivery_witness:
  "List.map wire (sent (sessions chat_example ! 1) @ write_messages (sessions chat_example ! 1)) = [''   2hi'', ''+1  x'']"
  using chat_server_delivery [OF run_reachable [OF chat_trace_runs(1)], of 1] chat_trace_runs by simp

text \<open>a message is passed on as it came: when a header and then a body have been read, the
  room delivers one message whose bytes on the wire are the bytes that were read, whatever
  spelling of the number the header used, and the session waits for the next header.\<close>

theorem chat_server_forwards:
  assumes "reachable server_step new_server s" "i < length (sessions s)" "reading (sessions s ! i) = ReadingHeader"
    and "server_step s (ReadDone i hdr) = Some s1" "reading (sessions s1 ! i) = ReadingBody"
    and "server_step s1 (ReadDone i bod) = Some s2"
  shows "\<exists>m. log (room s2) = log (room s) @ [m] \<and> wire m = hdr @ bod \<and> body_text m = bod \<and>
    reading (sessions s2 ! i) = ReadingHeader"
proof -
  let ?x = "sessions s ! i"
  have inv: "server_inv s" by (rule server.reachable_inv [OF assms(1)])
  from assms(2,3,4) have hdr: "length hdr = 4" and s1: "s1 = on_header i hdr s"
    by (auto simp: headerLength_def kHeaderLength_def split: if_splits)
  define d where "d = decodeHeader (fill_header hdr (read_message ?x))"
  have fst: "fst d"
    using assms(2,5) s1 by (auto simp: on_header_def Let_def d_def room_leave_def split: if_splits)
  then have s1': "s1 = s\<lparr>sessions := (sessions s)[i := readBody (?x\<lparr>read_message := snd d, reading := NoRead\<rparr>)]\<rparr>"
    using s1 by (simp add: on_header_def Let_def d_def)
  have len: "length (msg_data (read_message ?x)) = kHeaderLength + kMaxBodyLength"
    using inv_session [OF inv assms(2)] by (simp add: session_ok_def)
  then have wf: "msg_wf (snd d)"
    unfolding d_def by (intro decodeHeader_wf) (simp add: hdr kHeaderLength_def)
  have dat: "take 4 (msg_data (snd d)) = hdr"
    using hdr by (simp add: d_def decodeHeader_def Let_def fill_header_def)
  have rm: "read_message (sessions s1 ! i) = snd d" "log (room s1) = log (room s)" "length (sessions s1) = length (sessions s)"
    using s1' assms(2) by (simp_all add: readBody_def)
  from assms(2,5,6) rm have bod: "length bod = unat (body_length (snd d))" and s2: "s2 = on_body i bod s1"
    by (auto split: if_splits)
  let ?m = "fill_body bod (snd d)"
  have m: "msg_wf ?m" "body_text ?m = bod" "take 4 (msg_data ?m) = hdr" using fill_body_wf [OF wf bod] dat by simp_all
  have "wire ?m = hdr @ bod" using wire_split [OF m(1)] m by simp
  moreover have "log (room s2) = log (room s) @ [?m]" "reading (sessions s2 ! i) = ReadingHeader"
    using s2 rm assms(2) by (simp_all add: on_body_def Let_def room_deliver_def readHeader_def)
  ultimately show ?thesis using m by blast
qed

theorem chat_server_forwards_witness:
  "\<exists>s2 m. run server_step new_server [Accepted (replicate 260 CHR ''?''), ReadDone 0 ''+1  '', ReadDone 0 ''x''] = Some s2 \<and>
     log (room s2) = [m] \<and> wire m = ''+1  x'' \<and> body_text m = ''x''"
proof -
  let ?a = "[Accepted (replicate 260 CHR ''?'')]"
  have "case run server_step new_server ?a of None \<Rightarrow> False
    | Some s \<Rightarrow> length (sessions s) = 1 \<and> log (room s) = [] \<and> reading (sessions s ! 0) = ReadingHeader \<and>
        (case server_step s (ReadDone 0 ''+1  '') of None \<Rightarrow> False
         | Some s1 \<Rightarrow> reading (sessions s1 ! 0) = ReadingBody \<and> server_step s1 (ReadDone 0 ''x'') \<noteq> None)" by code_simp
  then obtain s s1 s2 where r: "run server_step new_server ?a = Some s" "length (sessions s) = 1" "log (room s) = []"
    "reading (sessions s ! 0) = ReadingHeader" "server_step s (ReadDone 0 ''+1  '') = Some s1"
    "reading (sessions s1 ! 0) = ReadingBody" "server_step s1 (ReadDone 0 ''x'') = Some s2"
    by (auto simp del: server_step.simps split: option.splits)
  then have run: "run server_step new_server (?a @ [ReadDone 0 ''+1  '', ReadDone 0 ''x'']) = Some s2"
    unfolding run_append by (simp del: server_step.simps)
  from chat_server_forwards [OF run_reachable [OF r(1)] _ r(4,5,6,7)] r(2,3) obtain m where
    "log (room s2) = [m]" "wire m = ''+1  x''" "body_text m = ''x''" by auto
  with run show ?thesis by auto
qed

end
