(* ===== verification/ChatClient.thy ===== *)
theory ChatClient
  imports ChatMessage
begin

text \<open>
  The chat client of \<open>asio_test/chat/chat_client.cpp\<close>: the main thread reads lines and posts
  closures; the other thread runs \<open>io_context::run\<close>, which executes the posted closures in
  order and the completion handlers, one at a time. The actions are the steps of the two
  threads and the completions of the network; an operation can only complete well if it
  was started on a connected socket.
\<close>

section \<open>Reading the lines\<close>

text \<open>\<open>std::cin.getline(line, n)\<close>: the line and the rest of the input, or \<open>None\<close> when the
  stream fails: at the end of the input, or when the line has \<open>n\<close> characters or more.\<close>

definition getline :: "nat \<Rightarrow> string \<Rightarrow> (string \<times> string) option" where
  "getline n inp =
     (let l = takeWhile (\<lambda>c. c \<noteq> CHR 0x0A) inp; r = dropWhile (\<lambda>c. c \<noteq> CHR 0x0A) inp in
      if length l \<ge> n then None
      else if r = [] then (if l = [] then None else Some (l, []))
      else Some (l, tl r))"

lemma getline_shorter: "getline n inp = Some (l, r) \<Longrightarrow> length r < length inp"
proof -
  assume g: "getline n inp = Some (l, r)"
  show ?thesis
  proof (cases "dropWhile (\<lambda>c. c \<noteq> CHR 0x0A) inp = []")
    case True
    with g have "r = []" by (simp add: getline_def Let_def del: dropWhile_eq_Nil_conv split: if_splits)
    moreover have "inp \<noteq> []" using g by (cases inp) (simp_all add: getline_def Let_def split: if_splits)
    ultimately have "r = []" "inp \<noteq> []" by blast+
    then show ?thesis by simp
  next
    case False
    with g have "r = tl (dropWhile (\<lambda>c. c \<noteq> CHR 0x0A) inp)"
      by (simp add: getline_def Let_def split: if_splits del: dropWhile_eq_Nil_conv)
    with False have "length r < length (dropWhile (\<lambda>c. c \<noteq> CHR 0x0A) inp)" by (simp del: dropWhile_eq_Nil_conv)
    also have "\<dots> \<le> length inp" by (rule length_dropWhile_le)
    finally show ?thesis .
  qed
qed

function client_lines :: "string \<Rightarrow> string list" where
  "client_lines inp = (case getline (bodyMaxLength + 1) inp of
       None \<Rightarrow> []
     | Some (l, r) \<Rightarrow> l # client_lines r)"
  by auto
termination by (relation "measure length") (auto dest: getline_shorter)

declare client_lines.simps [simp del]

text \<open>The message of a line, in memory that held \<open>mem\<close>: \<open>strlen\<close> stops at a NUL.\<close>

definition line_message :: "string \<Rightarrow> string \<Rightarrow> chat_message" where
  "line_message mem l = send_text (takeWhile (\<lambda>c. c \<noteq> CHR 0x00) l) (new_message mem)"

section \<open>State and steps\<close>

datatype post = PostWrite chat_message | PostClose

datatype client_read = CNoRead | CHeader bool | CBody bool      \<comment> \<open>started on a connected socket?\<close>

datatype socket_state = Connecting | Connected | SocketClosed

record client =
  lines_left :: "string list"
  main_closed :: bool                \<comment> \<open>\<open>client.close()\<close> was called\<close>
  main_joined :: bool
  io_returned :: bool                \<comment> \<open>\<open>io_context.run()\<close> has returned\<close>
  posts :: "post list"
  connect_pending :: bool
  socket :: socket_state
  cread :: client_read
  cread_message :: chat_message
  cwrite_messages :: "chat_message list"
  cwriting :: "bool option"          \<comment> \<open>an outstanding write, and whether its socket was connected\<close>
  csent :: "chat_message list"
  cout :: string

datatype client_event =
    MainLine | MainClose | MainJoin
  | RunPost | IoReturns
  | ConnectOk | ConnectFails
  | HeaderOk string | BodyOk string | ReadFails
  | WriteOk | WriteFails

definition client_start :: "string \<Rightarrow> string \<Rightarrow> client" where
  "client_start inp mem = \<lparr>lines_left = client_lines inp, main_closed = False, main_joined = False, io_returned = False,
     posts = [], connect_pending = True, socket = Connecting, cread = CNoRead, cread_message = new_message mem,
     cwrite_messages = [], cwriting = None, csent = [], cout = []\<rparr>"

definition client_write :: "client \<Rightarrow> client" where
  "client_write c = c\<lparr>cwriting := Some (socket c = Connected)\<rparr>"

definition client_readHeader :: "client \<Rightarrow> client" where
  "client_readHeader c = c\<lparr>cread := CHeader (socket c = Connected)\<rparr>"

definition client_readBody :: "client \<Rightarrow> client" where
  "client_readBody c = c\<lparr>cread := CBody (socket c = Connected)\<rparr>"

definition socket_close :: "client \<Rightarrow> client" where
  "socket_close c = c\<lparr>socket := SocketClosed\<rparr>"

fun run_post :: "post \<Rightarrow> client \<Rightarrow> client" where
  "run_post (PostWrite m) c =
     (let busy = (cwrite_messages c \<noteq> []); c1 = c\<lparr>cwrite_messages := cwrite_messages c @ [m]\<rparr>
      in if busy then c1 else client_write c1)"
| "run_post PostClose c = socket_close c"

definition has_work :: "client \<Rightarrow> bool" where
  "has_work c \<longleftrightarrow> posts c \<noteq> [] \<or> connect_pending c \<or> cread c \<noteq> CNoRead \<or> cwriting c \<noteq> None"

definition client_header :: "string \<Rightarrow> client \<Rightarrow> client" where
  "client_header bs c =
     (let d = decodeHeader (fill_header bs (cread_message c)); c1 = c\<lparr>cread_message := snd d, cread := CNoRead\<rparr>
      in if fst d then client_readBody c1 else socket_close c1)"

definition client_body :: "string \<Rightarrow> client \<Rightarrow> client" where
  "client_body bs c =
     (let m = fill_body bs (cread_message c)
      in client_readHeader (c\<lparr>cread_message := m, cread := CNoRead, cout := cout c @ body_text m @ [CHR 0x0A]\<rparr>))"

definition client_written :: "client \<Rightarrow> client" where
  "client_written c =
     (let c1 = c\<lparr>csent := csent c @ [hd (cwrite_messages c)], cwrite_messages := tl (cwrite_messages c), cwriting := None\<rparr>
      in if cwrite_messages c1 \<noteq> [] then client_write c1 else c1)"

fun client_go :: "string \<Rightarrow> client \<Rightarrow> client_event \<Rightarrow> client option" where
  "client_go mem c MainLine = (case lines_left c of
       [] \<Rightarrow> None
     | l # ls \<Rightarrow> Some (c\<lparr>lines_left := ls, posts := posts c @ [PostWrite (line_message mem l)]\<rparr>))"
| "client_go mem c MainClose =
     (if lines_left c = [] \<and> \<not> main_closed c then Some (c\<lparr>main_closed := True, posts := posts c @ [PostClose]\<rparr>) else None)"
| "client_go mem c MainJoin =
     (if main_closed c \<and> io_returned c \<and> \<not> main_joined c then Some (c\<lparr>main_joined := True\<rparr>) else None)"
| "client_go mem c RunPost = (case posts c of
       [] \<Rightarrow> None
     | p # ps \<Rightarrow> if io_returned c then None else Some (run_post p (c\<lparr>posts := ps\<rparr>)))"
| "client_go mem c IoReturns = (if \<not> has_work c \<and> \<not> io_returned c then Some (c\<lparr>io_returned := True\<rparr>) else None)"
| "client_go mem c ConnectOk =
     (if connect_pending c \<and> socket c = Connecting
      then Some (client_readHeader (c\<lparr>connect_pending := False, socket := Connected\<rparr>)) else None)"
| "client_go mem c ConnectFails = (if connect_pending c then Some (c\<lparr>connect_pending := False\<rparr>) else None)"
| "client_go mem c (HeaderOk bs) =
     (if cread c = CHeader True \<and> length bs = headerLength then Some (client_header bs c) else None)"
| "client_go mem c (BodyOk bs) =
     (if cread c = CBody True \<and> length bs = unat (body_length (cread_message c)) then Some (client_body bs c) else None)"
| "client_go mem c ReadFails =
     (if cread c \<noteq> CNoRead then Some (socket_close (c\<lparr>cread := CNoRead\<rparr>)) else None)"
| "client_go mem c WriteOk = (if cwriting c = Some True then Some (client_written c) else None)"
| "client_go mem c WriteFails =
     (if cwriting c \<noteq> None then Some (socket_close (c\<lparr>cwriting := None\<rparr>)) else None)"

text \<open>\<open>main\<close> checks its arguments before anything else.\<close>

definition client_usage :: "string list \<Rightarrow> (string \<times> int) option" where
  "client_usage args = (if length args \<noteq> 3
     then Some (''Usage: chat_client <host> <port>'' @ [CHR 0x0A], 1) else None)"

section \<open>Invariant\<close>

fun posted_messages :: "post list \<Rightarrow> chat_message list" where
  "posted_messages [] = []"
| "posted_messages (PostWrite m # ps) = m # posted_messages ps"
| "posted_messages (PostClose # ps) = posted_messages ps"

lemma posted_append [simp]: "posted_messages (ps @ qs) = posted_messages ps @ posted_messages qs"
  by (induction ps rule: posted_messages.induct) auto

definition client_inv :: "string \<Rightarrow> string \<Rightarrow> client \<Rightarrow> bool" where
  "client_inv inp mem c \<longleftrightarrow>
     csent c @ cwrite_messages c @ posted_messages (posts c) @ List.map (line_message mem) (lines_left c) =
       List.map (line_message mem) (client_lines inp) \<and>
     (cwriting c \<noteq> None \<longrightarrow> cwrite_messages c \<noteq> [])"

lemmas client_ops = client_write_def client_readHeader_def client_readBody_def socket_close_def
  client_header_def client_body_def client_written_def Let_def

lemma client_step_inv: "client_inv inp mem c \<Longrightarrow> client_go mem c e = Some c' \<Longrightarrow> client_inv inp mem c'"
proof (cases e)
  case RunPost
  assume inv: "client_inv inp mem c" and st: "client_go mem c e = Some c'"
  from st RunPost obtain p ps where p: "posts c = p # ps" "c' = run_post p (c\<lparr>posts := ps\<rparr>)"
    by (auto split: list.splits if_splits)
  with inv show ?thesis by (cases p) (auto simp: client_inv_def client_ops)
next
  case WriteOk
  assume inv: "client_inv inp mem c" and st: "client_go mem c e = Some c'"
  from st WriteOk have w: "cwriting c = Some True" "c' = client_written c" by (auto split: if_splits)
  with inv obtain m ms where "cwrite_messages c = m # ms" by (cases "cwrite_messages c") (auto simp: client_inv_def)
  with inv w show ?thesis by (auto simp: client_inv_def client_ops)
qed (auto simp: client_inv_def client_ops split: if_splits list.splits)

interpretation client: invariant_system "client_go mem" "client_start inp mem" "client_inv inp mem" for mem inp
proof unfold_locales
  show "client_inv inp mem (client_start inp mem)" by (simp add: client_inv_def client_start_def)
qed (rule client_step_inv)

section \<open>Properties\<close>

text \<open>whatever the scheduling and the network do, the messages written to the socket are an
  initial part of the encoded lines of the input, in order: none is duplicated, reordered or
  changed on the way through the two threads.\<close>

theorem client_sends_prefix:
  "reachable (client_go mem) (client_start inp mem) c \<Longrightarrow>
     \<exists>rest. csent c @ rest = List.map (line_message mem) (client_lines inp) \<and> prefix (cwrite_messages c) rest"
proof -
  assume "reachable (client_go mem) (client_start inp mem) c"
  then have "client_inv inp mem c" by (rule client.reachable_inv)
  then show ?thesis unfolding client_inv_def by (metis prefixI)
qed

definition chat_mem :: string where
  "chat_mem = replicate 260 CHR ''?''"

definition two_lines :: string where
  "two_lines = ''one'' @ [CHR 0x0A] @ ''two'' @ [CHR 0x0A]"

definition client_example :: client where
  "client_example = the (run (client_go chat_mem) (client_start two_lines chat_mem)
     [MainLine, ConnectOk, RunPost, MainLine, WriteOk, RunPost])"

lemma two_lines_lines: "client_lines two_lines = [''one'', ''two'']"
  by (simp add: client_lines.simps two_lines_def getline_def bodyMaxLength_def kMaxBodyLength_def)

lemma client_example_run:
  "run (client_go chat_mem) (client_start two_lines chat_mem) [MainLine, ConnectOk, RunPost, MainLine, WriteOk, RunPost] =
     Some client_example"
  "csent client_example = [line_message chat_mem ''one'']"
  by (simp_all add: client_example_def client_start_def two_lines_lines client_ops)

theorem client_sends_prefix_witness:
  "csent client_example = [line_message chat_mem ''one''] \<and>
   (\<exists>rest. csent client_example @ rest = List.map (line_message chat_mem) (client_lines two_lines) \<and>
      prefix (cwrite_messages client_example) rest)"
  using client_sends_prefix [OF run_reachable [OF client_example_run(1)]] client_example_run(2) by blast

text \<open>lines can be lost at the end of the input. The close is posted right behind the
  messages and does not wait for their writes: there is a run in which the connection
  succeeds, both lines are read and posted, and the program ends with nothing sent.\<close>

theorem client_close_loses_lines:
  "\<exists>c. reachable (client_go chat_mem) (client_start two_lines chat_mem) c \<and>
       main_joined c \<and> lines_left c = [] \<and> posts c = [] \<and> csent c = [] \<and> length (cwrite_messages c) = 2"
proof -
  let ?es = "[ConnectOk, MainLine, MainLine, MainClose, RunPost, RunPost, RunPost, WriteFails, ReadFails, IoReturns, MainJoin]"
  have "\<exists>c. run (client_go chat_mem) (client_start two_lines chat_mem) ?es = Some c \<and>
      main_joined c \<and> lines_left c = [] \<and> posts c = [] \<and> csent c = [] \<and> length (cwrite_messages c) = 2"
    by (simp add: client_start_def two_lines_lines client_ops has_work_def)
  then show ?thesis by (blast intro: run_reachable)
qed

end
