(* ===== verification/HttpClient.thy ===== *)
theory HttpClient
  imports CxxText "HOL-Library.Sublist"
begin

text \<open>
  The HTTP clients \<open>asio_test/http/http_sync_client.cpp\<close> and \<open>http_async_client.cpp\<close>. The
  network answers the three preparing operations and then delivers the response in
  chunks, followed by the end of the stream or an error. The synchronous client is one
  function in which an error is raised, the asynchronous one a chain of handlers, each
  run when the operation started before completes.
\<close>

section \<open>Streams\<close>

definition CR :: char where "CR = CHR 0x0D"
definition LF :: char where "LF = CHR 0x0A"
definition crlf :: string where "crlf = [CR, LF]"

datatype net_error = Eof | NetError nat

record net =
  resolve_err :: "net_error option"
  connect_err :: "net_error option"
  write_err :: "net_error option"
  chunks :: "string list"
  ending :: net_error

text \<open>\<open>read_until\<close>: reads until the buffer holds the delimiter, usually more.\<close>

fun read_until :: "string \<Rightarrow> string \<Rightarrow> string list \<Rightarrow> (string \<times> string list) option" where
  "read_until d buf [] = (if sublist d buf then Some (buf, []) else None)"
| "read_until d buf (c # cs) = (if sublist d buf then Some (buf, c # cs) else read_until d (buf @ c) cs)"

text \<open>Extraction from the buffer: a word, an unsigned number, a line; \<open>None\<close> sets the failbit.\<close>

definition get_word :: "string \<Rightarrow> (string \<times> string) option" where
  "get_word s = (let r = dropWhile is_space s; w = takeWhile (\<lambda>c. \<not> is_space c) r in
     if w = [] then None else Some (w, dropWhile (\<lambda>c. \<not> is_space c) r))"

text \<open>A sign is accepted, and a negative number wraps around as in the code's \<open>unsigned int\<close>.\<close>

definition get_digits :: "string \<Rightarrow> (nat \<times> string) option" where
  "get_digits r = (let n = read_digits 0 r in
     if r = [] \<or> \<not> is_digit (hd r) \<or> fst n \<ge> 2 ^ 32 then None else Some n)"

definition get_unsigned :: "string \<Rightarrow> (nat \<times> string) option" where
  "get_unsigned s = (case dropWhile is_space s of
       [] \<Rightarrow> None
     | c # cs \<Rightarrow>
         if c = CHR ''-'' then map_option (\<lambda>(n, r). ((2 ^ 32 - n) mod 2 ^ 32, r)) (get_digits cs)
         else if c = CHR ''+'' then get_digits cs
         else get_digits (c # cs))"

definition get_line :: "string \<Rightarrow> (string \<times> string) option" where
  "get_line s = (if s = [] then None
     else Some (takeWhile (\<lambda>c. c \<noteq> LF) s, tl (dropWhile (\<lambda>c. c \<noteq> LF) s)))"

lemma get_line_shorter: "get_line s = Some (l, r) \<Longrightarrow> length r < length s"
proof -
  assume "get_line s = Some (l, r)"
  then have s: "s \<noteq> []" and r: "r = tl (dropWhile (\<lambda>c. c \<noteq> LF) s)" by (auto simp: get_line_def split: if_splits)
  have "length (dropWhile (\<lambda>c. c \<noteq> LF) s) \<le> length s" by (rule length_dropWhile_le)
  with s r show ?thesis by (cases "dropWhile (\<lambda>c. c \<noteq> LF) s") auto
qed

section \<open>What both clients do with a response\<close>

definition http_request :: "string \<Rightarrow> string \<Rightarrow> string" where
  "http_request server path = ''GET '' @ path @ '' HTTP/1.0'' @ crlf @ ''Host: '' @ server @ crlf @
     ''Accept: */*'' @ crlf @ ''Connection: close'' @ crlf @ crlf"

datatype status_line = StatusOk string | InvalidResponse | BadStatus nat

text \<open>The three extractions; all of them have to succeed.\<close>

definition parse_status :: "string \<Rightarrow> status_line" where
  "parse_status buf = (case get_word buf of
       None \<Rightarrow> InvalidResponse
     | Some (http_version, r1) \<Rightarrow> (case get_unsigned r1 of
           None \<Rightarrow> InvalidResponse
         | Some (status_code, r2) \<Rightarrow> (case get_line r2 of
               None \<Rightarrow> InvalidResponse
             | Some (status_message, r3) \<Rightarrow>
                 if take 5 http_version \<noteq> ''HTTP/'' then InvalidResponse
                 else if status_code \<noteq> 200 then BadStatus status_code else StatusOk r3)))"

text \<open>The loop over the header lines: what it prints, and the rest of the buffer.\<close>

function print_headers :: "string \<Rightarrow> string \<times> string" where
  "print_headers buf = (case get_line buf of
       None \<Rightarrow> ([], [])
     | Some (header, r) \<Rightarrow> if header = [CR] then ([], r)
         else (case print_headers r of (out, r') \<Rightarrow> (header @ [LF] @ out, r')))"
  by auto
termination by (relation "measure length") (auto dest: get_line_shorter)

declare print_headers.simps [simp del]

datatype http_end =
    Finished
  | ReturnsOne string              \<comment> \<open>\<open>main\<close> returns 1, or the handler returns, after this message\<close>
  | Raised string net_error        \<comment> \<open>the operation that failed\<close>

definition invalid_text :: string where
  "invalid_text = ''Invalid response'' @ [LF]"

definition bad_status_text :: "nat \<Rightarrow> string" where
  "bad_status_text n = ''Response returned with status code '' @ show_nat n @ [LF]"

section \<open>The synchronous client\<close>

text \<open>The result is the output, how it ended, and the text written to the socket.\<close>

fun sync_content :: "string list \<Rightarrow> net_error \<Rightarrow> string \<times> http_end" where
  "sync_content [] e = ([], if e = Eof then Finished else Raised ''read'' e)"
| "sync_content (c # cs) e = (case sync_content cs e of (out, r) \<Rightarrow> (c @ out, r))"

definition sync_headers :: "string \<Rightarrow> string list \<Rightarrow> net_error \<Rightarrow> string \<times> http_end" where
  "sync_headers buf cs e = (case read_until (crlf @ crlf) buf cs of
       None \<Rightarrow> ([], Raised ''read_until'' e)
     | Some (buf1, cs1) \<Rightarrow> (case print_headers buf1 of (out, rest) \<Rightarrow>
         (case sync_content cs1 e of (out2, r) \<Rightarrow>
           (out @ [LF] @ (if length rest > 0 then rest else []) @ out2, r))))"

definition sync_client :: "string \<Rightarrow> string \<Rightarrow> net \<Rightarrow> (string \<times> http_end) \<times> string" where
  "sync_client server path n =
     (case resolve_err n of Some e \<Rightarrow> (([], Raised ''resolve'' e), []) | None \<Rightarrow>
     (case connect_err n of Some e \<Rightarrow> (([], Raised ''connect'' e), []) | None \<Rightarrow>
     (case write_err n of Some e \<Rightarrow> (([], Raised ''write'' e), []) | None \<Rightarrow>
       ((case read_until crlf [] (chunks n) of
           None \<Rightarrow> ([], Raised ''read_until'' (ending n))
         | Some (buf, cs) \<Rightarrow> (case parse_status buf of
               InvalidResponse \<Rightarrow> (invalid_text, ReturnsOne invalid_text)
             | BadStatus k \<Rightarrow> (bad_status_text k, ReturnsOne (bad_status_text k))
             | StatusOk rest \<Rightarrow> sync_headers rest cs (ending n))),
        http_request server path))))"

section \<open>The asynchronous client\<close>

datatype http_op = Resolving | Connecting | Writing | ReadingStatus | ReadingHeaders | ReadingContent | NoOp

record http_state =
  op :: http_op              \<comment> \<open>the outstanding operation\<close>
  response :: string
  incoming :: "string list"
  printed :: string
  ended :: "http_end option"
  wire_out :: string

definition async_start :: "net \<Rightarrow> http_state" where
  "async_start n = \<lparr>op = Resolving, response = [], incoming = chunks n, printed = [], ended = None, wire_out = []\<rparr>"

definition stop_with :: "string \<Rightarrow> http_end \<Rightarrow> http_state \<Rightarrow> http_state" where
  "stop_with out r s = s\<lparr>op := NoOp, printed := printed s @ out, ended := Some r\<rparr>"

definition handle_resolve :: "net_error option \<Rightarrow> http_state \<Rightarrow> http_state" where
  "handle_resolve err s = (case err of None \<Rightarrow> s\<lparr>op := Connecting\<rparr> | Some e \<Rightarrow> stop_with [] (Raised ''resolve'' e) s)"

definition handle_connect :: "net_error option \<Rightarrow> http_state \<Rightarrow> http_state" where
  "handle_connect err s = (case err of None \<Rightarrow> s\<lparr>op := Writing\<rparr> | Some e \<Rightarrow> stop_with [] (Raised ''connect'' e) s)"

definition handle_write_request :: "string \<Rightarrow> net_error option \<Rightarrow> http_state \<Rightarrow> http_state" where
  "handle_write_request req err s = (case err of
       None \<Rightarrow> s\<lparr>op := ReadingStatus, wire_out := req\<rparr>
     | Some e \<Rightarrow> stop_with [] (Raised ''write'' e) s)"

definition handle_read_status_line :: "net_error option \<Rightarrow> http_state \<Rightarrow> http_state" where
  "handle_read_status_line err s = (case err of
       Some e \<Rightarrow> stop_with [] (Raised ''read_until'' e) s
     | None \<Rightarrow> (case parse_status (response s) of
           InvalidResponse \<Rightarrow> stop_with invalid_text (ReturnsOne invalid_text) s
         | BadStatus k \<Rightarrow> stop_with (bad_status_text k) (ReturnsOne (bad_status_text k)) s
         | StatusOk rest \<Rightarrow> s\<lparr>op := ReadingHeaders, response := rest\<rparr>))"

definition handle_read_headers :: "net_error option \<Rightarrow> http_state \<Rightarrow> http_state" where
  "handle_read_headers err s = (case err of
       Some e \<Rightarrow> stop_with [] (Raised ''read_until'' e) s
     | None \<Rightarrow> (case print_headers (response s) of (out, rest) \<Rightarrow>
         s\<lparr>op := ReadingContent, response := [],
           printed := printed s @ out @ [LF] @ (if length rest > 0 then rest else [])\<rparr>))"

definition handle_read_content :: "net_error option \<Rightarrow> http_state \<Rightarrow> http_state" where
  "handle_read_content err s = (case err of
       None \<Rightarrow> s\<lparr>printed := printed s @ response s, response := []\<rparr>
     | Some e \<Rightarrow> stop_with [] (if e \<noteq> Eof then Raised ''read'' e else Finished) s)"

text \<open>One completion: the operation is performed on the stream and its handler runs.\<close>

fun async_step :: "string \<Rightarrow> net \<Rightarrow> http_state \<Rightarrow> http_state" where
  "async_step req n s = (case op s of
       Resolving \<Rightarrow> handle_resolve (resolve_err n) s
     | Connecting \<Rightarrow> handle_connect (connect_err n) s
     | Writing \<Rightarrow> handle_write_request req (write_err n) s
     | ReadingStatus \<Rightarrow> (case read_until crlf (response s) (incoming s) of
           None \<Rightarrow> handle_read_status_line (Some (ending n)) s
         | Some (buf, cs) \<Rightarrow> handle_read_status_line None (s\<lparr>response := buf, incoming := cs\<rparr>))
     | ReadingHeaders \<Rightarrow> (case read_until (crlf @ crlf) (response s) (incoming s) of
           None \<Rightarrow> handle_read_headers (Some (ending n)) s
         | Some (buf, cs) \<Rightarrow> handle_read_headers None (s\<lparr>response := buf, incoming := cs\<rparr>))
     | ReadingContent \<Rightarrow> (case incoming s of
           [] \<Rightarrow> handle_read_content (Some (ending n)) s
         | c # cs \<Rightarrow> handle_read_content None (s\<lparr>response := response s @ c, incoming := cs\<rparr>))
     | NoOp \<Rightarrow> s)"

text \<open>\<open>io_context.run\<close>: \<open>k\<close> completions at most; it ends when nothing is outstanding.\<close>

fun async_run :: "nat \<Rightarrow> string \<Rightarrow> net \<Rightarrow> http_state \<Rightarrow> http_state" where
  "async_run 0 req n s = s"
| "async_run (Suc k) req n s = (if op s = NoOp then s else async_run k req n (async_step req n s))"

definition async_client :: "string \<Rightarrow> string \<Rightarrow> net \<Rightarrow> nat \<Rightarrow> http_state" where
  "async_client server path n k = async_run k (http_request server path) n (async_start n)"

text \<open>\<open>main\<close>: the usage texts, and how the two programs report a failed operation; \<open>what\<close>,
  \<open>message\<close> and \<open>code\<close> are the library's texts of an error.\<close>

definition sync_usage :: "nat \<Rightarrow> string option" where
  "sync_usage argc = (if argc \<noteq> 3 then Some (''Usage: sync_client <server> <path>'' @ [LF] @
     ''Example: http_sync_client www.boost.org /LICENSE_1_0.txt'' @ [LF]) else None)"

definition async_usage :: "nat \<Rightarrow> string option" where
  "async_usage argc = (if argc \<noteq> 3 then Some (''Usage: async_client <server> <path>'' @ [LF] @ ''Example:'' @ [LF] @
     ''  async_client www.boost.org /LICENSE_1_0.txt'' @ [LF]) else None)"

definition sync_report :: "(string \<Rightarrow> net_error \<Rightarrow> string) \<Rightarrow> http_end \<Rightarrow> string" where
  "sync_report what r = (case r of Raised loc e \<Rightarrow> ''Exception: '' @ what loc e @ [LF] | _ \<Rightarrow> [])"

definition async_report :: "(net_error \<Rightarrow> string) \<Rightarrow> (net_error \<Rightarrow> string) \<Rightarrow> http_end \<Rightarrow> string" where
  "async_report message code r = (case r of
       Raised loc e \<Rightarrow> ''Error: '' @ (if loc \<in> set [''resolve'', ''connect'', ''write''] then message e else code e) @ [LF]
     | _ \<Rightarrow> [])"

section \<open>The two clients agree\<close>

lemma run_stopped: "op s = NoOp \<Longrightarrow> async_run k req n s = s"
  by (cases k) simp_all

lemma run_content:
  "length cs < k \<Longrightarrow>
     async_run k req n \<lparr>op = ReadingContent, response = [], incoming = cs, printed = out, ended = None, wire_out = w\<rparr> =
       \<lparr>op = NoOp, response = [], incoming = [], printed = out @ fst (sync_content cs (ending n)),
         ended = Some (snd (sync_content cs (ending n))), wire_out = w\<rparr>"
proof (induction cs arbitrary: k out)
  case Nil
  then obtain k' where "k = Suc k'" by (cases k) auto
  then show ?case by (simp add: handle_read_content_def stop_with_def run_stopped)
next
  case (Cons c cs)
  then obtain k' where k': "k = Suc k'" by (cases k) auto
  with Cons.prems have "length cs < k'" by simp
  from Cons.IH [OF this] k' show ?case by (simp add: handle_read_content_def split: prod.split)
qed


lemma read_until_length: "read_until d b cs = Some (b', cs') \<Longrightarrow> length cs' \<le> length cs"
  by (induction d b cs rule: read_until.induct) (auto split: if_splits)

lemma run_headers:
  assumes "Suc (length cs) < k"
  shows "let s = async_run k req n \<lparr>op = ReadingHeaders, response = rest, incoming = cs, printed = [], ended = None,
      wire_out = w\<rparr> in op s = NoOp \<and> ended s = Some (snd (sync_headers rest cs (ending n))) \<and>
      printed s = fst (sync_headers rest cs (ending n)) \<and> wire_out s = w"
proof -
  obtain k' where k: "k = Suc k'" using assms by (cases k) auto
  show ?thesis
  proof (cases "read_until (crlf @ crlf) rest cs")
    case None
    then show ?thesis
      by (simp add: k handle_read_headers_def stop_with_def run_stopped sync_headers_def)
  next
    case (Some p)
    obtain b cs' where p: "p = (b, cs')" by (cases p)
    have "length cs' < k'" using read_until_length Some p k assms by fastforce
    note rc = run_content [OF this]
    show ?thesis
      using Some p by (simp add: k handle_read_headers_def rc sync_headers_def split: prod.split)
  qed
qed

lemma run_status:
  assumes "length (chunks n) + 3 \<le> k"
  shows "let s = async_run k req n \<lparr>op = ReadingStatus, response = [], incoming = chunks n, printed = [], ended = None,
      wire_out = req\<rparr>; r = (case read_until crlf [] (chunks n) of
           None \<Rightarrow> ([], Raised ''read_until'' (ending n))
         | Some (buf, cs) \<Rightarrow> (case parse_status buf of
               InvalidResponse \<Rightarrow> (invalid_text, ReturnsOne invalid_text)
             | BadStatus k \<Rightarrow> (bad_status_text k, ReturnsOne (bad_status_text k))
             | StatusOk rest \<Rightarrow> sync_headers rest cs (ending n)))
    in op s = NoOp \<and> ended s = Some (snd r) \<and> printed s = fst r \<and> wire_out s = req"
proof -
  obtain k' where k: "k = Suc k'" using assms by (cases k) auto
  show ?thesis
  proof (cases "read_until crlf [] (chunks n)")
    case None
    then show ?thesis
      by (simp add: k handle_read_status_line_def stop_with_def run_stopped)
  next
    case (Some p)
    obtain b cs where p: "p = (b, cs)" by (cases p)
    have len: "Suc (length cs) < k'" using read_until_length Some p k assms by fastforce
    show ?thesis
    proof (cases "parse_status b")
      case (StatusOk rest)
      with Some p run_headers [OF len, of req n rest req] show ?thesis
        by (simp add: k handle_read_status_line_def Let_def)
    qed (use Some p in \<open>simp_all add: k handle_read_status_line_def stop_with_def run_stopped\<close>)
  qed
qed

text \<open>For every network behaviour the asynchronous client, given one completion per chunk and
  six more, ends with nothing outstanding, and it has printed the same text, ended the
  same way and sent the same request as the synchronous client.\<close>
theorem http_clients_agree:
  assumes "length (chunks n) + 6 \<le> k"
  shows "let s = async_client server path n k in op s = NoOp \<and>
    (\<exists>r. ended s = Some r \<and> ((printed s, r), wire_out s) = sync_client server path n)"
proof -
  obtain k' where k: "k = Suc (Suc (Suc k'))" and more: "length (chunks n) + 3 \<le> k'"
    using assms that [of "k - 3"] by auto
  define req where "req = http_request server path"
  note start = k async_client_def async_start_def sync_client_def req_def [symmetric]
  consider e where "resolve_err n = Some e"
    | e where "resolve_err n = None" "connect_err n = Some e"
    | e where "resolve_err n = None" "connect_err n = None" "write_err n = Some e"
    | "resolve_err n = None" "connect_err n = None" "write_err n = None" by (meson not_None_eq)
  then show ?thesis
  proof cases
    case 4
    with run_status [OF more, of req] show ?thesis
      by (simp add: start handle_resolve_def handle_connect_def handle_write_request_def Let_def)
  qed (simp_all add: start handle_resolve_def handle_connect_def handle_write_request_def stop_with_def run_stopped)
qed

section \<open>A well-formed response\<close>

lemma read_until_first:
  assumes "\<not> sublist d (butlast (p @ d))" "d \<noteq> []"
  shows "b @ concat cs = p @ d @ q \<Longrightarrow>
    \<exists>b' cs'. read_until d b cs = Some (b', cs') \<and> (\<exists>q'. b' = p @ d @ q' \<and> q' @ concat cs' = q)"
proof (induction cs arbitrary: b)
  case Nil
  then show ?case by (auto intro: sublist_appendI)
next
  case (Cons c cs)
  show ?case
  proof (cases "sublist d b")
    case True
    have "prefix b (p @ d @ q)" using Cons.prems by (metis prefixI)
    then have "prefix b (butlast (p @ d)) \<or> prefix (p @ d) b"
      by (metis append_assoc prefixI prefix_same_cases prefix_order.dual_order.trans append_butlast_last_id assms(2)
          append_is_Nil_conv prefix_snoc)
    moreover have "\<not> prefix b (butlast (p @ d))"
      using True assms(1) by (meson prefix_imp_sublist sublist_order.order_trans)
    ultimately obtain q' where "b = p @ d @ q'" by (auto simp: prefix_def)
    with Cons.prems True show ?thesis by simp
  next
    case False
    with Cons.prems Cons.IH [of "b @ c"] show ?thesis by simp
  qed
qed

definition header_block :: "string list \<Rightarrow> string" where
  "header_block hs = concat (List.map (\<lambda>h. h @ crlf) hs)"

definition plain :: "string \<Rightarrow> bool" where
  "plain h \<longleftrightarrow> h \<noteq> [] \<and> CR \<notin> set h \<and> LF \<notin> set h"

lemma CR_LF [simp]: "CR \<noteq> LF" "LF \<noteq> CR"
  by (simp_all add: CR_def LF_def)

lemma get_line_crlf: "LF \<notin> set h \<Longrightarrow> get_line (h @ crlf @ z) = Some (h @ [CR], z)"
proof -
  assume h: "LF \<notin> set h"
  then have "takeWhile (\<lambda>c. c \<noteq> LF) (h @ crlf @ z) = h @ [CR]" "dropWhile (\<lambda>c. c \<noteq> LF) (h @ crlf @ z) = LF # z"
    by (induction h) (auto simp: crlf_def)
  then show ?thesis by (simp add: get_line_def crlf_def)
qed

lemma print_header_block:
  "list_all plain hs \<Longrightarrow> print_headers (header_block hs @ crlf @ z) = (header_block hs, z)"
proof (induction hs)
  case Nil
  show ?case using get_line_crlf [of "[]" z] by (subst print_headers.simps) (simp add: header_block_def)
next
  case (Cons h hs)
  then have "get_line (header_block (h # hs) @ crlf @ z) = Some (h @ [CR], header_block hs @ crlf @ z)"
    using get_line_crlf [of h "header_block hs @ crlf @ z"] by (simp add: header_block_def plain_def)
  with Cons show ?case by (subst print_headers.simps) (simp add: header_block_def plain_def crlf_def)
qed

lemma sublist_skip: "CR \<notin> set h \<Longrightarrow> sublist (CR # d) (h @ z) \<longleftrightarrow> sublist (CR # d) z"
  by (induction h) (auto simp: sublist_Cons_right)

lemma no_blank_line:
  "list_all plain hs \<Longrightarrow> \<not> sublist (crlf @ crlf) (header_block hs @ [CR])"
proof (induction hs)
  case Nil
  show ?case by (simp add: header_block_def crlf_def sublist_Cons_right)
next
  case (Cons h hs)
  obtain c cs where n: "header_block hs @ [CR] = c # cs" by (cases "header_block hs @ [CR]") auto
  have "c = CR \<Longrightarrow> cs = []"
    using n Cons.prems by (cases hs) (auto simp: header_block_def plain_def append_eq_Cons_conv)
  moreover have "sublist (crlf @ crlf) (header_block (h # hs) @ [CR]) \<longleftrightarrow> sublist (crlf @ crlf) (CR # LF # c # cs)"
    using Cons.prems sublist_skip [of h "LF # crlf" "CR # LF # c # cs"] n
    by (simp add: header_block_def plain_def crlf_def)
  moreover have "\<not> sublist (crlf @ crlf) (c # cs)" using Cons n by simp
  ultimately show ?case by (auto simp: crlf_def sublist_Cons_right)
qed

lemma plain_crlf: "CR \<notin> set h \<Longrightarrow> \<not> sublist crlf (butlast (h @ crlf))"
  by (simp add: crlf_def butlast_append sublist_skip sublist_Cons_right)

text \<open>The first line and the header lines of a response with status 200.\<close>

definition ok_response :: "string \<Rightarrow> string list \<Rightarrow> string \<Rightarrow> string" where
  "ok_response v hs body = v @ '' 200 OK'' @ crlf @ header_block hs @ crlf @ body"

lemma parse_ok_status:
  assumes "list_all (\<lambda>c. \<not> is_space c) v"
  shows "parse_status ((''HTTP/'' @ v @ '' 200 OK'') @ crlf @ rest) = StatusOk rest"
proof -
  let ?w = "''HTTP/'' @ v"
  have ns: "list_all (\<lambda>c. \<not> is_space c) ?w" using assms by (simp add: is_space_def)
  have w: "takeWhile (\<lambda>c. \<not> is_space c) (?w @ '' '' @ z) = ?w" "dropWhile (\<lambda>c. \<not> is_space c) (?w @ '' '' @ z) = '' '' @ z" for z
    using ns by (simp_all add: list_all_iff takeWhile_append2 dropWhile_append2 is_space_def)
  have "dropWhile is_space (?w @ z) = ?w @ z" for z by (simp add: is_space_def)
  then have "get_word ((?w @ '' 200 OK'') @ crlf @ rest) = Some (?w, '' 200 OK'' @ crlf @ rest)"
    using w [of "''200 OK'' @ crlf @ rest"] by (simp add: get_word_def Let_def)
  moreover have "get_unsigned ('' 200 OK'' @ crlf @ rest) = Some (200, '' OK'' @ crlf @ rest)"
    by (simp add: get_unsigned_def get_digits_def is_space_def is_digit_def digit_val_def)
  moreover have "get_line ('' OK'' @ crlf @ rest) = Some ('' OK'' @ [CR], rest)"
    by (rule get_line_crlf) (simp add: LF_def)
  ultimately show ?thesis by (simp add: parse_status_def)
qed

lemma sync_content_eof: "sync_content cs Eof = (concat cs, Finished)"
  by (induction cs) auto

text \<open>A response with status 200, at least one header line and any body, cut into chunks in any
  way, is printed as its header lines, an empty line and the body unchanged.\<close>
theorem http_prints_response:
  assumes "resolve_err n = None" "connect_err n = None" "write_err n = None" "ending n = Eof"
    and "list_all (\<lambda>c. \<not> is_space c) v" "hs \<noteq> []" "list_all plain hs"
    and "concat (chunks n) = ok_response (''HTTP/'' @ v) hs body"
  shows "sync_client server path n = ((header_block hs @ [LF] @ body, Finished), http_request server path)"
proof -
  let ?st = "''HTTP/'' @ v @ '' 200 OK''"
  have "CR \<notin> set ?st" using assms(5) by (auto simp: CR_def list_all_iff is_space_def)
  from plain_crlf [OF this] have "\<not> sublist crlf (butlast (?st @ crlf))" .
  from read_until_first [OF this, of "[]" "chunks n" "header_block hs @ crlf @ body"] assms(8)
  obtain b cs q where 1: "read_until crlf [] (chunks n) = Some (b, cs)" "b = ?st @ crlf @ q"
    "q @ concat cs = header_block hs @ crlf @ body"
    by (auto simp: ok_response_def crlf_def)
  obtain p where p: "header_block hs = p @ crlf"
    using assms(6) by (cases hs rule: rev_cases) (auto simp: header_block_def)
  have "butlast (p @ crlf @ crlf) = header_block hs @ [CR]" by (simp add: p butlast_append crlf_def)
  with no_blank_line [OF assms(7)] have "\<not> sublist (crlf @ crlf) (butlast (p @ crlf @ crlf))" by simp
  from read_until_first [OF this, of q cs body] 1(3)
  obtain b' cs' q' where 2: "read_until (crlf @ crlf) q cs = Some (b', cs')" "b' = header_block hs @ crlf @ q'"
    "q' @ concat cs' = body"
    by (auto simp: p crlf_def)
  have st: "parse_status b = StatusOk q" using parse_ok_status [OF assms(5), of q] 1(2) by simp
  show ?thesis
    using 1(1) 2 st assms(1-4)
    by (auto simp: sync_client_def sync_headers_def print_header_block [OF assms(7)] sync_content_eof)
qed

lemma http_prints_response_witness:
  "sync_client ''h'' ''/'' \<lparr>resolve_err = None, connect_err = None, write_err = None,
      chunks = [''HTTP/1.1 20'', ''0 OK'' @ [CR], [LF] @ ''A: b'' @ crlf @ [CR], [LF] @ ''x'', ''y''], ending = Eof\<rparr> =
     ((''A: b'' @ crlf @ [LF] @ ''xy'', Finished), http_request ''h'' ''/'')"
  using http_prints_response [of "\<lparr>resolve_err = None, connect_err = None, write_err = None,
      chunks = [''HTTP/1.1 20'', ''0 OK'' @ [CR], [LF] @ ''A: b'' @ crlf @ [CR], [LF] @ ''x'', ''y''], ending = Eof\<rparr>"
      "''1.1''" "[''A: b'']" "''xy''" "''h''" "''/''"]
  by (simp add: ok_response_def header_block_def crlf_def plain_def is_space_def CR_def LF_def)

lemma http_clients_agree_witness:
  "let s = async_client ''h'' ''/'' \<lparr>resolve_err = None, connect_err = None, write_err = None,
      chunks = [''HTTP/1.1 404 No'' @ crlf], ending = Eof\<rparr> 7 in op s = NoOp \<and>
    (\<exists>r. ended s = Some r \<and> ((printed s, r), wire_out s) = sync_client ''h'' ''/'' \<lparr>resolve_err = None, connect_err = None, write_err = None,
      chunks = [''HTTP/1.1 404 No'' @ crlf], ending = Eof\<rparr>)"
  by (rule http_clients_agree) simp

text \<open>A response without header lines: after the status line the buffer starts with the empty
  line, which has only half of the delimiter, so the body is never printed.\<close>

lemma http_no_headers_no_body:
  "sync_client ''h'' ''/'' \<lparr>resolve_err = None, connect_err = None, write_err = None,
      chunks = [''HTTP/1.0 200 OK'' @ crlf @ crlf @ ''body''], ending = Eof\<rparr> =
     (([], Raised ''read_until'' Eof), http_request ''h'' ''/'')"
proof -
  have "parse_status (''HTTP/1.0 200 OK'' @ crlf @ crlf @ ''body'') = StatusOk (crlf @ ''body'')"
    using parse_ok_status [of "''1.0''" "crlf @ ''body''"] by (simp add: is_space_def)
  moreover have "sublist crlf (''HTTP/1.0 200 OK'' @ crlf @ crlf @ ''body'')" by (rule sublist_appendI)
  moreover have "\<not> sublist (crlf @ crlf) (crlf @ ''body'')" "\<not> sublist crlf []"
    by (simp_all add: crlf_def sublist_Cons_right CR_def LF_def)
  ultimately show ?thesis by (simp add: sync_client_def sync_headers_def)
qed

end
