(* ===== verification/EchoServers.thy ===== *)
theory EchoServers
  imports HttpClient "HOL-Library.Word"
begin

text \<open>
  The echo programs of \<open>asio_test/echo\<close>: a TCP server with one thread per connection and
  its client, a UDP server and its client. A TCP direction is a list of segments as they
  arrive, closed by the end of the stream or an error; a UDP socket receives datagrams.
\<close>

section \<open>Sockets and the standard input\<close>

text \<open>\<open>read_some\<close> with a buffer of \<open>n\<close> bytes: some of what has arrived, never nothing;
  \<open>None\<close> at the end of the segments.\<close>

fun read_some :: "nat \<Rightarrow> string list \<Rightarrow> (string \<times> string list) option" where
  "read_some n [] = None"
| "read_some n (c # cs) = (if c = [] then read_some n cs
     else Some (take n c, if drop n c = [] then cs else drop n c # cs))"

lemma read_some_concat: "read_some n cs = Some (m, cs') \<Longrightarrow> concat cs = m @ concat cs'"
  by (induction n cs rule: read_some.induct) (auto split: if_splits simp: append_take_drop_id [symmetric] simp del: append_take_drop_id)

lemma read_some_bounds: "read_some n cs = Some (m, cs') \<Longrightarrow> 0 < n \<Longrightarrow> m \<noteq> [] \<and> length m \<le> n"
  by (induction n cs rule: read_some.induct) (auto split: if_splits)

lemma read_some_None: "read_some n cs = None \<Longrightarrow> concat cs = []"
  by (induction n cs rule: read_some.induct) (auto split: if_splits)

lemma read_some_decreases:
  assumes "read_some n cs = Some (m, cs')" "0 < n"
  shows "length (concat cs') < length (concat cs)"
  using read_some_concat [OF assms(1)] read_some_bounds [OF assms] by simp

text \<open>\<open>asio::read\<close> into a buffer of \<open>n\<close> bytes: exactly \<open>n\<close> bytes or an error.\<close>

definition read_exact :: "nat \<Rightarrow> string list \<Rightarrow> net_error \<Rightarrow> net_error + string" where
  "read_exact n cs e = (if n \<le> length (concat cs) then Inr (take n (concat cs)) else Inl e)"

text \<open>\<open>cin.getline(buf, n)\<close> followed by \<open>strlen\<close>: what the buffer holds, also when the stream fails.\<close>

definition cin_buffer :: "nat \<Rightarrow> string \<Rightarrow> string" where
  "cin_buffer n inp = takeWhile (\<lambda>c. c \<noteq> CHR 0x00) (take (n - 1) (takeWhile (\<lambda>c. c \<noteq> LF) inp))"

lemma cin_buffer_length: "0 < n \<Longrightarrow> length (cin_buffer n inp) < n"
  unfolding cin_buffer_def by (rule le_less_trans [OF length_takeWhile_le]) simp

definition max_length :: nat where "max_length = 1024"

lemma max_length_pos [simp]: "0 < max_length"
  by (simp add: max_length_def)

section \<open>The TCP echo server\<close>

text \<open>A write that fails: after how many complete writes, how many bytes of it are sent, the error.\<close>

type_synonym write_failure = "(nat \<times> nat \<times> net_error) option"

text \<open>The bytes a session writes, and the error it reports, if any.\<close>

function echo_session :: "write_failure \<Rightarrow> string list \<Rightarrow> net_error \<Rightarrow> string \<times> net_error option" where
  "echo_session fl cs e = (case read_some max_length cs of
       None \<Rightarrow> ([], if e = Eof then None else Some e)
     | Some (message, cs') \<Rightarrow> (case fl of
           Some (0, j, we) \<Rightarrow> (take j message, Some we)
         | Some (Suc k, j, we) \<Rightarrow> (case echo_session (Some (k, j, we)) cs' e of (out, r) \<Rightarrow> (message @ out, r))
         | None \<Rightarrow> (case echo_session None cs' e of (out, r) \<Rightarrow> (message @ out, r))))"
  by auto
termination
  by (relation "measure (\<lambda>(fl, cs, e). length (concat cs))") (auto dest: read_some_decreases simp del: length_concat)

declare echo_session.simps [simp del]

text \<open>The accept loop: every connection gets a thread of its own; the loop ends only by an exception.\<close>

fun tcp_server :: "(write_failure \<times> string list \<times> net_error) list \<Rightarrow> net_error \<Rightarrow> (string \<times> net_error option) list \<times> net_error" where
  "tcp_server [] accept_error = ([], accept_error)"
| "tcp_server ((fl, cs, e) # conns) accept_error =
     (case tcp_server conns accept_error of (rs, r) \<Rightarrow> (echo_session fl cs e # rs, r))"

text \<open>\<open>main\<close>: the port is \<open>std::atoi\<close> converted to \<open>unsigned short\<close>.\<close>

definition echo_port :: "string list \<Rightarrow> string + 16 word" where
  "echo_port argv = (if length argv \<noteq> 2 then Inl (''Usage: blocking_tcp_echo_server <port>'' @ [LF])
     else Inr (word_of_int (atoi (argv ! 1))))"

lemma session_echoes: "fst (echo_session None cs e) = concat cs \<and> snd (echo_session None cs e) = (if e = Eof then None else Some e)"
proof (induction "length (concat cs)" arbitrary: cs rule: less_induct)
  case less
  show ?case
  proof (cases "read_some max_length cs")
    case None
    then show ?thesis using read_some_None [OF None] by (subst (1 2) echo_session.simps) simp
  next
    case (Some p)
    obtain m cs' where p: "p = (m, cs')" by (cases p)
    with less.hyps [of cs'] read_some_decreases [of max_length cs m cs'] Some
    have IH: "echo_session None cs' e = (concat cs', if e = Eof then None else Some e)"
      by (simp add: prod_eq_iff del: length_concat)
    show ?thesis using Some p IH read_some_concat [of max_length cs m cs']
      by (subst (1 2) echo_session.simps) simp
  qed
qed

text \<open>Whatever fails and however the input is cut, a session has written an initial part of what it
  has read.\<close>
theorem session_writes_prefix:
  "prefix (fst (echo_session fl cs e)) (concat cs)"
proof (induction fl cs e rule: echo_session.induct)
  case (1 fl cs e)
  show ?case
  proof (cases "read_some max_length cs")
    case None
    then show ?thesis by (subst echo_session.simps) simp
  next
    case (Some p)
    obtain m cs' where p: "p = (m, cs')" by (cases p)
    note IH = 1 [OF Some p [symmetric]]
    have cs: "concat cs = m @ concat cs'" using read_some_concat Some p by simp
    show ?thesis
    proof (cases fl)
      case None
      then show ?thesis using IH Some p cs by (subst echo_session.simps) (auto split: prod.split)
    next
      case (Some q)
      obtain k j we where q: "q = (k, j, we)" by (cases q)
      show ?thesis
      proof (cases k)
        case 0
        then show ?thesis using \<open>read_some max_length cs = Some p\<close> p cs Some q
          by (subst echo_session.simps) (simp add: take_is_prefix prefix_prefix)
      next
        case (Suc k')
        have "prefix (fst (echo_session (Some (k', j, we)) cs' e)) (concat cs')" using IH Some q Suc by fastforce
        then show ?thesis using \<open>read_some max_length cs = Some p\<close> p cs Some q Suc
          by (subst echo_session.simps) (auto split: prod.split)
      qed
    qed
  qed
qed

section \<open>The TCP echo client\<close>

datatype echo_end = EchoFinished | EchoUsage | EchoRaised net_error | EchoUndefined

text \<open>The program does not return after the usage text: with no host or port it goes on and reads
  the null pointer after the arguments. \<open>connected\<close> and \<open>written\<close> say how the connection and the
  write end, \<open>reply\<close> gives the segments that come back.\<close>

definition tcp_echo_client ::
  "nat \<Rightarrow> string \<Rightarrow> net_error option \<Rightarrow> net_error option \<Rightarrow> string list \<Rightarrow> net_error \<Rightarrow> string \<times> string \<times> echo_end" where
  "tcp_echo_client argc inp connected written reply e =
     (let err = (if argc \<noteq> 3 then ''Error: client.exe <host> <port>'' @ [LF] else []) in
      if argc < 3 then ([], err, EchoUndefined)
      else (case connected of Some ce \<Rightarrow> ([], err, EchoRaised ce) | None \<Rightarrow>
        (let send_message = cin_buffer max_length inp in
         case written of Some we \<Rightarrow> (''Enter Message:'' @ [LF], err, EchoRaised we) | None \<Rightarrow>
           (case read_exact (length send_message) reply e of
              Inl re \<Rightarrow> (''Enter Message:'' @ [LF], err, EchoRaised re)
            | Inr receive_message \<Rightarrow>
                (''Enter Message:'' @ [LF] @ ''Reply is: '' @ receive_message @ [LF], err, EchoFinished)))))"

text \<open>The client prints back the line it sent, however the network cuts the request and the
  server's answer into segments.\<close>
theorem tcp_echo_roundtrip:
  assumes "concat request = cin_buffer max_length inp" "concat reply = fst (echo_session None request e)"
  shows "tcp_echo_client 3 inp None None reply e' =
    (''Enter Message:'' @ [LF] @ ''Reply is: '' @ cin_buffer max_length inp @ [LF], [], EchoFinished)"
  using assms session_echoes [of request e] by (simp add: tcp_echo_client_def read_exact_def Let_def)

lemma tcp_echo_roundtrip_witness:
  "tcp_echo_client 3 (''hello'' @ [LF]) None None [''h'', ''ello''] Eof =
    (''Enter Message:'' @ [LF] @ ''Reply is: '' @ cin_buffer max_length (''hello'' @ [LF]) @ [LF], [], EchoFinished)"
proof (rule tcp_echo_roundtrip [where request = "[''hel'', ''lo'']" and e = Eof])
  show "concat [''hel'', ''lo''] = cin_buffer max_length (''hello'' @ [LF])"
    by (simp add: cin_buffer_def max_length_def LF_def)
  show "concat [''h'', ''ello''] = fst (echo_session None [''hel'', ''lo''] Eof)"
    using session_echoes [of "[''hel'', ''lo'']" Eof] by simp
qed

lemma tcp_echo_client_without_arguments:
  "tcp_echo_client 1 inp None None reply e = ([], ''Error: client.exe <host> <port>'' @ [LF], EchoUndefined)"
  by (simp add: tcp_echo_client_def)

section \<open>The UDP echo server and client\<close>

text \<open>Each datagram comes with its sender and with how sending the answer ends; a receive that
  fails, or a send that fails, ends the loop with an exception.\<close>

fun udp_server :: "('ep \<times> string \<times> net_error option) list \<Rightarrow> net_error \<Rightarrow> ('ep \<times> string) list \<times> net_error" where
  "udp_server [] e = ([], e)"
| "udp_server ((sender_endpoint, datagram, send_error) # inbox) e =
     (let data = take max_length datagram in
      case send_error of
        Some se \<Rightarrow> ([], se)
      | None \<Rightarrow> (case udp_server inbox e of (out, r) \<Rightarrow> ((sender_endpoint, data) # out, r)))"

definition udp_echo_client ::
  "nat \<Rightarrow> string \<Rightarrow> net_error option \<Rightarrow> net_error option \<Rightarrow> ('ep \<times> string) list \<Rightarrow> net_error \<Rightarrow> string \<times> string \<times> echo_end" where
  "udp_echo_client argc inp resolved sent inbox e =
     (if argc \<noteq> 3 then ([], ''Error: client <host> <port>'' @ [LF], EchoUsage)
      else (case resolved of Some re \<Rightarrow> ([], [], EchoRaised re) | None \<Rightarrow>
        (case sent of Some se \<Rightarrow> (''Enter Message: '' @ [LF], [], EchoRaised se) | None \<Rightarrow>
          (case inbox of
             [] \<Rightarrow> (''Enter Message: '' @ [LF], [], EchoRaised e)
           | (sender_endpoint, datagram) # rest \<Rightarrow>
               (''Enter Message: '' @ [LF] @ ''Reply is: '' @ take max_length datagram @ [LF], [], EchoFinished)))))"

text \<open>The datagram the client sends.\<close>

definition udp_echo_request :: "string \<Rightarrow> string" where
  "udp_echo_request inp = cin_buffer max_length inp"

text \<open>The UDP server answers every datagram up to the first failed send, in order, each to its
  own sender and with its own first 1024 bytes.\<close>
theorem udp_server_echoes:
  "fst (udp_server inbox e) =
     List.map (\<lambda>(ep, d, _). (ep, take max_length d)) (takeWhile (\<lambda>(_, _, se). se = None) inbox)"
  by (induction inbox e rule: udp_server.induct) (auto split: prod.split option.split)

text \<open>A client's own request comes back whole, and it is what the client prints.\<close>

lemma udp_echo_roundtrip:
  "udp_echo_client 3 inp None None (fst (udp_server [(ep, udp_echo_request inp, None)] e)) e' =
     (''Enter Message: '' @ [LF] @ ''Reply is: '' @ udp_echo_request inp @ [LF], [], EchoFinished)"
  using cin_buffer_length [of max_length inp]
  by (simp add: udp_echo_client_def udp_echo_request_def max_length_def)

end
