(* ===== verification/Timers.thy ===== *)
theory Timers
  imports HttpClient
begin

text \<open>
  The steady timers of \<open>asio_test/timer\<close> and the scope timer of \<open>utils_func/raii_timer.h\<close>. One
  thread runs an \<open>io_context\<close> with one timer: while a handler is waiting, the clock moves to
  the expiry (never back), the handler runs and may wait again. Time is in seconds.
\<close>

section \<open>One timer in an io_context\<close>

text \<open>\<open>steady_timer\<close> and the bound handler: \<open>'h\<close> is what the handler carries, its copies of the
  arguments; \<open>waiting = None\<close> is an \<open>io_context\<close> without work.\<close>

record 'h timer =
  now :: nat
  expiry :: nat
  waiting :: "'h option"
  out :: "(nat \<times> string) list"       \<comment> \<open>the lines printed, with their times\<close>

definition new_timer :: "nat \<Rightarrow> nat \<Rightarrow> 'h timer" where
  "new_timer t d = \<lparr>now = t, expiry = t + d, waiting = None, out = []\<rparr>"

definition async_wait :: "'h \<Rightarrow> 'h timer \<Rightarrow> 'h timer" where
  "async_wait h t = t\<lparr>waiting := Some h\<rparr>"

definition put_line :: "string \<Rightarrow> 'h timer \<Rightarrow> 'h timer" where
  "put_line l t = t\<lparr>out := out t @ [(now t, l)]\<rparr>"

text \<open>\<open>run\<close>: at most \<open>k\<close> handlers; it returns when nothing is waiting.\<close>

fun run_timer :: "nat \<Rightarrow> ('h \<Rightarrow> 'h timer \<Rightarrow> 'h timer) \<Rightarrow> 'h timer \<Rightarrow> 'h timer option" where
  "run_timer k handler t = (case waiting t of
     None \<Rightarrow> Some t
   | Some h \<Rightarrow> (case k of 0 \<Rightarrow> None
       | Suc k' \<Rightarrow> run_timer k' handler (handler h (t\<lparr>now := max (now t) (expiry t), waiting := None\<rparr>))))"

declare run_timer.simps [simp del]

section \<open>Methods 2 and 3\<close>

text \<open>\<open>printWithParams\<close> gets a reference to the counter that \<open>bind\<close> copied; the next \<open>bind\<close> copies
  the incremented one. The counter of \<open>main\<close> is never touched.\<close>

definition count_line :: "int \<Rightarrow> string" where
  "count_line c = ''Count is '' @ show_int c"

definition printWithParams :: "int \<Rightarrow> int timer \<Rightarrow> int timer" where
  "printWithParams count t =
     (if count < 5 then
        (let t1 = put_line (count_line count) t; t2 = t1\<lparr>expiry := expiry t1 + 1\<rparr>
         in async_wait (count + 1) t2)
      else put_line [] (put_line ''Method 2 Finished'' t))"

text \<open>\<open>Printer\<close>: the handler carries \<open>this\<close> only, the counter is a member.\<close>

record printer =
  timer_of :: "unit timer"
  count_member :: int

definition printer_ctor :: "nat \<Rightarrow> printer" where
  "printer_ctor t = \<lparr>timer_of = async_wait () (new_timer t 1), count_member = 0\<rparr>"

definition printer_print :: "printer \<Rightarrow> printer" where
  "printer_print p =
     (if count_member p < 5 then
        (let t1 = put_line (count_line (count_member p)) (timer_of p); t2 = t1\<lparr>expiry := expiry t1 + 1\<rparr>
         in \<lparr>timer_of = async_wait () t2, count_member = count_member p + 1\<rparr>)
      else p)"

fun run_printer :: "nat \<Rightarrow> printer \<Rightarrow> printer option" where
  "run_printer k p = (case waiting (timer_of p) of
     None \<Rightarrow> Some p
   | Some h \<Rightarrow> (case k of 0 \<Rightarrow> None
       | Suc k' \<Rightarrow> run_printer k' (printer_print (p\<lparr>timer_of := (timer_of p)
           \<lparr>now := max (now (timer_of p)) (expiry (timer_of p)), waiting := None\<rparr>\<rparr>))))"

declare run_printer.simps [simp del]

definition printer_dtor :: "printer \<Rightarrow> string list" where
  "printer_dtor p = [''Method 3 Finished'', []]"

section \<open>main\<close>

definition method1 :: "unit timer \<Rightarrow> unit timer" where
  "method1 t = put_line [] (put_line ''Method 1 Finished'' t)"

definition lines_of :: "'h timer \<Rightarrow> string list" where
  "lines_of t = List.map snd (out t)"

text \<open>The lines of the program and the time it ends; \<open>k\<close> bounds the handlers of each \<open>run\<close>.\<close>

definition timer_main :: "nat \<Rightarrow> nat \<Rightarrow> (string list \<times> nat) option" where
  "timer_main k t0 =
     (case run_timer k (\<lambda>_. method1) (async_wait () (new_timer t0 5)) of None \<Rightarrow> None | Some t1 \<Rightarrow>
     (case run_timer k printWithParams (async_wait 0 (new_timer (now t1) 1)) of None \<Rightarrow> None | Some t2 \<Rightarrow>
     (case run_printer k (printer_ctor (now t2)) of None \<Rightarrow> None | Some p \<Rightarrow>
       Some ([''Start method 1...'', ''Wait for method 1...''] @ lines_of t1 @
             [''Start method 2...'', ''Wait for method 2...''] @ lines_of t2 @
             [''Start method 3...'', ''Wait for method 3...''] @ lines_of (timer_of p) @ printer_dtor p,
             now (timer_of p)))))"

text \<open>\<open>timer_sync\<close>: \<open>wait\<close> blocks until the expiry.\<close>

definition timer_sync_main :: "nat \<Rightarrow> string \<times> nat" where
  "timer_sync_main t0 = (''Timeout'', now ((new_timer t0 5 :: unit timer)\<lparr>now := max t0 (t0 + 5)\<rparr>))"

section \<open>What they print\<close>

text \<open>The \<open>i\<close>-th of \<open>n\<close> ticks after a start at \<open>t\<close> prints the counter \<open>c + i\<close>.\<close>

fun ticks :: "nat \<Rightarrow> nat \<Rightarrow> int \<Rightarrow> (nat \<times> string) list" where
  "ticks 0 t c = []"
| "ticks (Suc n) t c = (t + 1, count_line c) # ticks n (t + 1) (c + 1)"

lemma six: "6 - int (Suc n) = 5 - int n"
  by simp

lemma printWithParams_more:
  "printWithParams (5 - int (Suc n)) t =
     t\<lparr>out := out t @ [(now t, count_line (5 - int (Suc n)))], expiry := expiry t + 1, waiting := Some (5 - int n)\<rparr>"
  by (simp add: printWithParams_def put_line_def async_wait_def Let_def)

lemma printer_print_more:
  "printer_print \<lparr>timer_of = t, count_member = 5 - int (Suc n)\<rparr> =
     \<lparr>timer_of = t\<lparr>out := out t @ [(now t, count_line (5 - int (Suc n)))], expiry := expiry t + 1, waiting := Some ()\<rparr>,
       count_member = 5 - int n\<rparr>"
  by (simp add: printer_print_def put_line_def async_wait_def Let_def)

lemma run_printWithParams:
  "n < k \<Longrightarrow> run_timer k printWithParams \<lparr>now = t, expiry = Suc t, waiting = Some (5 - int n), out = pre\<rparr> =
     Some \<lparr>now = t + n + 1, expiry = t + n + 1, waiting = None,
       out = pre @ ticks n t (5 - int n) @ [(t + n + 1, ''Method 2 Finished''), (t + n + 1, [])]\<rparr>"
proof (induction n arbitrary: k t pre)
  case 0
  then obtain k' where "k = Suc k'" by (cases k) auto
  then show ?case by (simp add: run_timer.simps printWithParams_def put_line_def)
next
  case (Suc n)
  then obtain k' where k': "k = Suc k'" "n < k'" by (cases k) auto
  show ?case
    using Suc.IH [OF k'(2), of "Suc t" "pre @ [(Suc t, count_line (5 - int (Suc n)))]"] k'(1)
    by (subst run_timer.simps)
       (simp add: printWithParams_more six del: of_nat_Suc)
qed

lemma run_Printer:
  "n < k \<Longrightarrow> run_printer k \<lparr>timer_of = \<lparr>now = t, expiry = Suc t, waiting = Some (), out = pre\<rparr>, count_member = 5 - int n\<rparr> =
     Some \<lparr>timer_of = \<lparr>now = t + n + 1, expiry = t + n + 1, waiting = None, out = pre @ ticks n t (5 - int n)\<rparr>,
       count_member = 5\<rparr>"
proof (induction n arbitrary: k t pre)
  case 0
  then obtain k' where "k = Suc k'" by (cases k) auto
  then show ?case by (simp add: run_printer.simps printer_print_def)
next
  case (Suc n)
  then obtain k' where k': "k = Suc k'" "n < k'" by (cases k) auto
  show ?case
    using Suc.IH [OF k'(2), of "Suc t" "pre @ [(Suc t, count_line (5 - int (Suc n)))]"] k'(1)
    by (subst run_printer.simps)
       (simp add: printer_print_more six del: of_nat_Suc)
qed

text \<open>With at least six handlers allowed per \<open>run\<close>, \<open>printWithParams\<close> and \<open>Printer\<close>, started at the
  same time, print the same counts at the same times, one a second from 0 to 4, and both
  \<open>run\<close>s return six seconds after the start.\<close>
theorem printers_agree:
  assumes "5 < k"
  shows "\<exists>t2 p. run_timer k printWithParams (async_wait 0 (new_timer t 1)) = Some t2 \<and>
    run_printer k (printer_ctor t) = Some p \<and>
    out t2 = ticks 5 t 0 @ [(t + 6, ''Method 2 Finished''), (t + 6, [])] \<and>
    out (timer_of p) = ticks 5 t 0 \<and> now t2 = t + 6 \<and> now (timer_of p) = t + 6"
  using run_printWithParams [OF assms, of t "[]"] run_Printer [OF assms, of t "[]"]
  by (simp add: async_wait_def new_timer_def printer_ctor_def)

lemma printers_agree_witness:
  "\<exists>t2 p. run_timer 6 printWithParams (async_wait 0 (new_timer 0 1)) = Some t2 \<and>
    run_printer 6 (printer_ctor 0) = Some p \<and>
    out t2 = ticks 5 0 0 @ [(0 + 6, ''Method 2 Finished''), (0 + 6, [])] \<and>
    out (timer_of p) = ticks 5 0 0 \<and> now t2 = 0 + 6 \<and> now (timer_of p) = 0 + 6"
  by (rule printers_agree) simp

definition count_lines :: "string list" where
  "count_lines = [''Count is 0'', ''Count is 1'', ''Count is 2'', ''Count is 3'', ''Count is 4'']"

lemma ticks_lines: "List.map snd (ticks 5 t 0) = count_lines"
proof -
  have "ticks 5 t 0 = [(t + 1, count_line 0), (t + 2, count_line 1), (t + 3, count_line 2), (t + 4, count_line 3),
      (t + 5, count_line 4)]"
    by (simp add: eval_nat_numeral)
  moreover have "[count_line 0, count_line 1, count_line 2, count_line 3, count_line 4] = count_lines"
    by code_simp
  ultimately show ?thesis by simp
qed

lemma timer_main_lines:
  "timer_main 6 t0 = Some
    ([''Start method 1...'', ''Wait for method 1...'', ''Method 1 Finished'', []] @
     [''Start method 2...'', ''Wait for method 2...''] @ count_lines @ [''Method 2 Finished'', []] @
     [''Start method 3...'', ''Wait for method 3...''] @ count_lines @ [''Method 3 Finished'', []], t0 + 17)"
proof -
  have 1: "run_timer 6 (\<lambda>_. method1) (async_wait () (new_timer t0 5)) =
    Some \<lparr>now = t0 + 5, expiry = t0 + 5, waiting = None, out = [(t0 + 5, ''Method 1 Finished''), (t0 + 5, [])]\<rparr>"
    by (simp add: run_timer.simps async_wait_def new_timer_def method1_def put_line_def eval_nat_numeral)
  have 2: "run_timer 6 printWithParams (async_wait 0 (new_timer (t0 + 5) 1)) =
    Some \<lparr>now = t0 + 11, expiry = t0 + 11, waiting = None,
      out = ticks 5 (t0 + 5) 0 @ [(t0 + 11, ''Method 2 Finished''), (t0 + 11, [])]\<rparr>"
    using run_printWithParams [of 5 6 "t0 + 5" "[]"] by (simp add: async_wait_def new_timer_def add.commute)
  have 3: "run_printer 6 (printer_ctor (t0 + 11)) =
    Some \<lparr>timer_of = \<lparr>now = t0 + 17, expiry = t0 + 17, waiting = None, out = ticks 5 (t0 + 11) 0\<rparr>, count_member = 5\<rparr>"
    using run_Printer [of 5 6 "t0 + 11" "[]"]
    by (simp add: async_wait_def new_timer_def printer_ctor_def add.commute)
  show ?thesis by (simp add: timer_main_def 1 2 3 lines_of_def printer_dtor_def ticks_lines del: One_nat_def)
qed

section \<open>The scope timer\<close>

text \<open>Constructor and destructor around the scope; the clock is read at both ends, in
  nanoseconds. (In the source both are private, as the class has no \<open>public:\<close>, so no
  function can declare a timer.)\<close>

record raii_timer =
  func_name :: string
  start_time :: int

definition RAIITimer :: "string \<Rightarrow> int \<Rightarrow> raii_timer \<times> string" where
  "RAIITimer name t = (\<lparr>func_name = name, start_time = t\<rparr>, ''Timer Start...'' @ [LF])"

definition RAIITimer_dtor :: "raii_timer \<Rightarrow> int \<Rightarrow> string" where
  "RAIITimer_dtor tm t = ''Timer End, function: '' @ func_name tm @ '' cost: '' @ show_int (t - start_time tm) @ [LF]"

lemma scope_timer_output:
  "snd (RAIITimer f t) @ RAIITimer_dtor (fst (RAIITimer f t)) (t + d) =
    ''Timer Start...'' @ [LF] @ ''Timer End, function: '' @ f @ '' cost: '' @ show_int d @ [LF]"
  by (simp add: RAIITimer_def RAIITimer_dtor_def)

end
