(* ===== verification/Daytime.thy ===== *)
theory Daytime
  imports EchoServers
begin

text \<open>
  The daytime programs of \<open>asio_test/tcp\<close>, \<open>asio_test/udp\<close> and \<open>tcp_udp_server_async.cpp\<close>. The
  text of \<open>std::ctime\<close> is the environment's: it comes with the event at which the code asks
  for it. The asynchronous servers are state machines over completions; the ownership of
  what an outstanding operation points to (\<open>shared_ptr\<close> copies in the bound handlers) is
  part of the state, because a handler that forgets one leaves a dangling buffer.
\<close>

section \<open>The synchronous programs\<close>

text \<open>The TCP client prints what it reads, at most 128 bytes at a time, until the stream ends.\<close>

function daytime_client :: "string list \<Rightarrow> net_error \<Rightarrow> string \<times> net_error option" where
  "daytime_client cs e = (case read_some 128 cs of
       None \<Rightarrow> ([], if e = Eof then None else Some e)
     | Some (buf, cs') \<Rightarrow> (case daytime_client cs' e of (out, r) \<Rightarrow> (buf @ out, r)))"
  by auto
termination
  by (relation "measure (\<lambda>(cs, e). length (concat cs))") (auto dest: read_some_decreases simp del: length_concat)

declare daytime_client.simps [simp del]

lemma daytime_client_prints: "daytime_client cs e = (concat cs, if e = Eof then None else Some e)"
proof (induction "length (concat cs)" arbitrary: cs rule: less_induct)
  case less
  show ?case
  proof (cases "read_some 128 cs")
    case None
    then show ?thesis using read_some_None [OF None] by (subst daytime_client.simps) simp
  next
    case (Some p)
    obtain m cs' where p: "p = (m, cs')" by (cases p)
    with less.hyps [of cs'] read_some_decreases [of 128 cs m cs'] Some
    have IH: "daytime_client cs' e = (concat cs', if e = Eof then None else Some e)" by simp
    show ?thesis using Some p IH read_some_concat [of 128 cs m cs']
      by (subst daytime_client.simps) simp
  qed
qed

text \<open>The synchronous TCP server: the times, in milliseconds, at which its one client is written
  the first \<open>k\<close> texts; writing the \<open>i\<close>-th takes \<open>delay i\<close>. Errors of the writes are ignored.\<close>

fun daytime_ticks :: "nat \<Rightarrow> nat \<Rightarrow> (nat \<Rightarrow> nat) \<Rightarrow> nat \<Rightarrow> nat \<Rightarrow> nat list" where
  "daytime_ticks 0 i delay t expires = []"
| "daytime_ticks (Suc k) i delay t expires =
     t # daytime_ticks k (Suc i) delay (max (t + delay i) expires) (expires + 1000)"

definition tcp_server_sync :: "nat \<Rightarrow> (nat \<Rightarrow> nat) \<Rightarrow> nat \<Rightarrow> nat list" where
  "tcp_server_sync k delay t = daytime_ticks k 0 delay t (t + 1000)"

lemma daytime_ticks_on_time:
  assumes "\<And>i. delay i \<le> 1000"
  shows "daytime_ticks k i delay t (t + 1000) = List.map (\<lambda>j. t + 1000 * j) [0..<k]"
proof (induction k arbitrary: i t)
  case (Suc k)
  have "max (t + delay i) (t + 1000) = t + 1000" using assms [of i] by simp
  with Suc [of "Suc i" "t + 1000"] show ?case
    by (simp add: upt_conv_Cons map_Suc_upt [symmetric] o_def del: upt_Suc)
qed simp

text \<open>As long as no write takes more than a second the server writes exactly once a second,
  without drift, because each expiry is computed from the one before.\<close>
theorem tcp_server_sync_on_time:
  assumes "\<And>i. delay i \<le> 1000"
  shows "tcp_server_sync k delay t = List.map (\<lambda>j. t + 1000 * j) [0..<k]"
  unfolding tcp_server_sync_def by (rule daytime_ticks_on_time) (rule assms)

lemma tcp_server_sync_on_time_witness:
  "tcp_server_sync 4 (\<lambda>i. 10 * (i mod 7)) 0 = List.map (\<lambda>j. 0 + 1000 * j) [0..<4]"
  by (rule tcp_server_sync_on_time) (simp add: order.trans [OF mult_left_mono [OF less_imp_le [OF mod_less_divisor]]])

text \<open>The synchronous UDP server: every received datagram (its sender and the text at that time)
  is answered; failed sends are ignored; a failed receive ends the program.\<close>

fun udp_server_sync :: "('ep \<times> string \<times> bool) list \<Rightarrow> net_error \<Rightarrow> ('ep \<times> string) list \<times> net_error" where
  "udp_server_sync [] e = ([], e)"
| "udp_server_sync ((remote_endpoint, daytime, sent) # inbox) e =
     (case udp_server_sync inbox e of (out, r) \<Rightarrow> ((if sent then [(remote_endpoint, daytime)] else []) @ out, r))"

definition udp_client_sync :: "nat \<Rightarrow> net_error option \<Rightarrow> net_error option \<Rightarrow> ('ep \<times> string) list \<Rightarrow> net_error \<Rightarrow> string \<times> echo_end" where
  "udp_client_sync argc resolved sent inbox e =
     (if argc \<noteq> 2 then ([], EchoUsage)
      else (case resolved of Some re \<Rightarrow> ([], EchoRaised re) | None \<Rightarrow>
        (case sent of Some se \<Rightarrow> ([], EchoRaised se) | None \<Rightarrow>
          (case inbox of [] \<Rightarrow> ([], EchoRaised e) | (sender_endpoint, d) # rest \<Rightarrow> (take 128 d, EchoFinished)))))"

section \<open>The asynchronous TCP server\<close>

datatype conn_write = NotStarted | Outstanding | Completed

text \<open>\<open>owners\<close> counts the \<open>shared_ptr\<close> copies alive; at 0 the object is gone and its socket closed.\<close>

record tcp_connection =
  message :: string
  owners :: nat
  conn_write :: conn_write

record tcp_async =
  accepting :: "nat option"            \<comment> \<open>the outstanding accept, on this connection's socket\<close>
  connections :: "tcp_connection list"

datatype tcp_event =
    Accept "net_error option" string   \<comment> \<open>how it ended, the time text\<close>
  | WriteDone nat "net_error option"

definition upd_conn :: "nat \<Rightarrow> (tcp_connection \<Rightarrow> tcp_connection) \<Rightarrow> tcp_async \<Rightarrow> tcp_async" where
  "upd_conn i f s = s\<lparr>connections := (connections s)[i := f (connections s ! i)]\<rparr>"

text \<open>The connection is created; at the return only the bound handler owns it.\<close>

definition startAccept :: "tcp_async \<Rightarrow> tcp_async" where
  "startAccept s = s\<lparr>accepting := Some (length (connections s)),
     connections := connections s @ [\<lparr>message = [], owners = 1, conn_write = NotStarted\<rparr>]\<rparr>"

definition new_tcp_server :: tcp_async where
  "new_tcp_server = startAccept \<lparr>accepting = None, connections = []\<rparr>"

text \<open>\<open>start\<close> binds one more owner into the write handler.\<close>

definition connection_start :: "string \<Rightarrow> tcp_connection \<Rightarrow> tcp_connection" where
  "connection_start daytime c = c\<lparr>message := daytime, owners := owners c + 1, conn_write := Outstanding\<rparr>"

definition release_owner :: "tcp_connection \<Rightarrow> tcp_connection" where
  "release_owner c = c\<lparr>owners := owners c - 1\<rparr>"

definition handleAccept :: "nat \<Rightarrow> net_error option \<Rightarrow> string \<Rightarrow> tcp_async \<Rightarrow> tcp_async" where
  "handleAccept i err daytime s =
     (let s1 = (if err = None then upd_conn i (connection_start daytime) s else s)
      in upd_conn i release_owner (startAccept s1))"

text \<open>\<open>handleWrite\<close> does nothing; with the handler its owner goes.\<close>

definition handleWrite :: "nat \<Rightarrow> net_error option \<Rightarrow> tcp_async \<Rightarrow> tcp_async" where
  "handleWrite i err s = upd_conn i (\<lambda>c. release_owner (c\<lparr>conn_write := Completed\<rparr>)) s"

fun tcp_step :: "tcp_async \<Rightarrow> tcp_event \<Rightarrow> tcp_async option" where
  "tcp_step s (Accept err daytime) = (case accepting s of None \<Rightarrow> None
     | Some i \<Rightarrow> Some (handleAccept i err daytime (s\<lparr>accepting := None\<rparr>)))"
| "tcp_step s (WriteDone i err) =
     (if i < length (connections s) \<and> conn_write (connections s ! i) = Outstanding then Some (handleWrite i err s) else None)"

text \<open>One accept is always outstanding, on the newest connection; every other connection is owned
  exactly while its write is outstanding.\<close>

definition served :: "tcp_connection \<Rightarrow> bool" where
  "served c \<longleftrightarrow> owners c = (if conn_write c = Outstanding then 1 else 0)"

definition tcp_inv :: "tcp_async \<Rightarrow> bool" where
  "tcp_inv s \<longleftrightarrow> connections s \<noteq> [] \<and> accepting s = Some (length (connections s) - 1) \<and>
     last (connections s) = \<lparr>message = [], owners = 1, conn_write = NotStarted\<rparr> \<and>
     list_all served (butlast (connections s))"

lemma tcp_inv_shape:
  "tcp_inv s \<longleftrightarrow> (\<exists>cs. s = \<lparr>accepting = Some (length cs),
     connections = cs @ [\<lparr>message = [], owners = 1, conn_write = NotStarted\<rparr>]\<rparr> \<and> list_all served cs)"
proof
  assume i: "tcp_inv s"
  then have "connections s = butlast (connections s) @ [\<lparr>message = [], owners = 1, conn_write = NotStarted\<rparr>]"
    unfolding tcp_inv_def by (metis append_butlast_last_id)
  with i show "\<exists>cs. s = \<lparr>accepting = Some (length cs),
     connections = cs @ [\<lparr>message = [], owners = 1, conn_write = NotStarted\<rparr>]\<rparr> \<and> list_all served cs"
    unfolding tcp_inv_def by (cases s) (auto intro!: exI [of _ "butlast (connections s)"])
qed (auto simp: tcp_inv_def)

lemma tcp_step_inv:
  assumes "tcp_inv s" "tcp_step s a = Some t"
  shows "tcp_inv t"
proof -
  obtain cs where s: "s = \<lparr>accepting = Some (length cs),
     connections = cs @ [\<lparr>message = [], owners = 1, conn_write = NotStarted\<rparr>]\<rparr>" and cs: "list_all served cs"
    using assms(1) tcp_inv_shape by blast
  show ?thesis
  proof (cases a)
    case (Accept err daytime)
    with assms(2) s have t: "t = handleAccept (length cs) err daytime (s\<lparr>accepting := None\<rparr>)" by simp
    have "tcp_inv t" if "err = None"
      unfolding t s that
      using cs by (simp add: Let_def handleAccept_def startAccept_def upd_conn_def connection_start_def release_owner_def
          served_def tcp_inv_def butlast_append nth_append list_update_append)
    moreover have "tcp_inv t" if "err \<noteq> None"
      unfolding t s using that
      cs by (simp add: Let_def handleAccept_def startAccept_def upd_conn_def connection_start_def release_owner_def
          served_def tcp_inv_def butlast_append nth_append list_update_append)
    ultimately show ?thesis by blast
  next
    case (WriteDone i err)
    with assms(2) s have i: "i < length cs" "conn_write (cs ! i) = Outstanding"
      and t: "t = handleWrite i err s" by (auto split: if_splits simp: nth_append less_Suc_eq)
    have "list_all served (cs[i := release_owner ((cs ! i)\<lparr>conn_write := Completed\<rparr>)])"
      using cs i by (auto simp: list_all_length nth_list_update served_def release_owner_def)
    with s t i show ?thesis
      by (auto simp: handleWrite_def upd_conn_def tcp_inv_def list_update_append nth_append)
  qed
qed

interpretation tcp: invariant_system tcp_step new_tcp_server tcp_inv
proof unfold_locales
  show "tcp_inv new_tcp_server" by (simp add: tcp_inv_def new_tcp_server_def startAccept_def)
qed (rule tcp_step_inv)

text \<open>The asynchronous TCP server always has an accept outstanding, and the object whose text an
  outstanding write reads is alive; it is destroyed, closing the connection, exactly when
  its write has ended.\<close>
theorem tcp_server_owns_connections:
  assumes "reachable tcp_step new_tcp_server s"
  shows "accepting s = Some (length (connections s) - 1) \<and> list_all served (butlast (connections s))"
  using tcp.reachable_inv [OF assms] by (simp add: tcp_inv_def)

lemma tcp_server_owns_connections_witness:
  "let s = the (run tcp_step new_tcp_server [Accept None ''t'', Accept (Some Eof) ''u'', WriteDone 0 None])
    in accepting s = Some (length (connections s) - 1) \<and> list_all served (butlast (connections s))"
proof -
  obtain s where s: "run tcp_step new_tcp_server [Accept None ''t'', Accept (Some Eof) ''u'', WriteDone 0 None] = Some s"
    by (simp add: new_tcp_server_def startAccept_def handleAccept_def upd_conn_def connection_start_def release_owner_def)
  from tcp_server_owns_connections [OF run_reachable [OF s]] s show ?thesis by (simp add: Let_def)
qed

section \<open>The asynchronous UDP servers\<close>

text \<open>\<open>text_owners\<close> counts the \<open>shared_ptr\<close> copies of the text; \<open>sent_text\<close> is what the kernel took.\<close>

record udp_send =
  dest :: nat
  daytime :: string
  text_owners :: nat
  sent_text :: "string option"
  handled :: bool

record udp_async =
  receiving :: bool
  endpoint :: nat
  sends :: "udp_send list"

text \<open>A datagram comes with the time text and whether the socket takes the answer at once; a send
  that had to wait reads its buffer when it completes, and \<open>SendDone\<close> says what freed memory
  would hold then.\<close>

datatype udp_event = Datagram nat string bool | ReceiveFailed net_error | SendDone nat string

definition new_udp_server :: udp_async where
  "new_udp_server = \<lparr>receiving = True, endpoint = 0, sends = []\<rparr>"

definition async_send_to :: "string \<Rightarrow> bool \<Rightarrow> nat \<Rightarrow> udp_async \<Rightarrow> udp_async" where
  "async_send_to t at_once copies s = s\<lparr>sends := sends s @ [\<lparr>dest = endpoint s, daytime = t, text_owners = copies,
     sent_text = (if at_once then Some t else None), handled = False\<rparr>]\<rparr>"

text \<open>\<open>UDPServer\<close> of \<open>udp_server_async.cpp\<close>: the bound handler keeps a copy of the pointer.\<close>

definition handleReceive :: "net_error option \<Rightarrow> nat \<Rightarrow> string \<Rightarrow> bool \<Rightarrow> udp_async \<Rightarrow> udp_async" where
  "handleReceive err ep t at_once s = (case err of
       None \<Rightarrow> (async_send_to t at_once 1 (s\<lparr>endpoint := ep\<rparr>))\<lparr>receiving := True\<rparr>
     | Some e \<Rightarrow> s)"

text \<open>\<open>UDPServer\<close> of \<open>tcp_udp_server_async.cpp\<close>: the handler of the send captures nothing, so
  the only copy goes when the handler returns.\<close>

definition combined_receive :: "net_error option \<Rightarrow> nat \<Rightarrow> string \<Rightarrow> bool \<Rightarrow> udp_async \<Rightarrow> udp_async" where
  "combined_receive err ep t at_once s = (case err of
       Some e \<Rightarrow> s
     | None \<Rightarrow> (async_send_to t at_once 0 (s\<lparr>endpoint := ep\<rparr>))\<lparr>receiving := True\<rparr>)"

definition handleSend :: "string \<Rightarrow> udp_send \<Rightarrow> udp_send" where
  "handleSend freed d = d\<lparr>sent_text := (case sent_text d of Some t \<Rightarrow> Some t
       | None \<Rightarrow> Some (if 0 < text_owners d then daytime d else freed)),
     text_owners := text_owners d - 1, handled := True\<rparr>"

fun udp_step ::
  "(net_error option \<Rightarrow> nat \<Rightarrow> string \<Rightarrow> bool \<Rightarrow> udp_async \<Rightarrow> udp_async) \<Rightarrow> udp_async \<Rightarrow> udp_event \<Rightarrow> udp_async option" where
  "udp_step receive s (Datagram ep t at_once) =
     (if receiving s then Some (receive None ep t at_once (s\<lparr>receiving := False\<rparr>)) else None)"
| "udp_step receive s (ReceiveFailed e) =
     (if receiving s then Some (receive (Some e) 0 [] False (s\<lparr>receiving := False\<rparr>)) else None)"
| "udp_step receive s (SendDone i freed) =
     (if i < length (sends s) \<and> \<not> handled (sends s ! i)
      then Some (s\<lparr>sends := (sends s)[i := handleSend freed (sends s ! i)]\<rparr>) else None)"

text \<open>The requests of a schedule, and a send that is in order.\<close>

fun requests :: "udp_event list \<Rightarrow> (nat \<times> string) list" where
  "requests [] = []"
| "requests (Datagram ep t b # as) = (ep, t) # requests as"
| "requests (_ # as) = requests as"

definition send_ok :: "udp_send \<Rightarrow> bool" where
  "send_ok d \<longleftrightarrow> (if handled d then sent_text d = Some (daytime d) else text_owners d = 1 \<and> sent_text d \<in> {None, Some (daytime d)})"

definition udp_requests :: "udp_async \<Rightarrow> (nat \<times> string) list" where
  "udp_requests s = List.map (\<lambda>d. (dest d, daytime d)) (sends s)"

lemma udp_step_ok:
  assumes "list_all send_ok (sends s)" "udp_step handleReceive s a = Some t"
  shows "list_all send_ok (sends t) \<and> udp_requests t = udp_requests s @ requests [a]"
proof (cases a)
  case (SendDone i freed)
  with assms(2) have i: "i < length (sends s)" "\<not> handled (sends s ! i)"
    and t: "t = s\<lparr>sends := (sends s)[i := handleSend freed (sends s ! i)]\<rparr>" by (simp_all split: if_splits)
  have ok: "send_ok (sends s ! i)" using assms(1) i by (simp add: list_all_length)
  with i have h: "send_ok (handleSend freed (sends s ! i))" by (auto simp: send_ok_def handleSend_def)
  have "List.map (\<lambda>d. (dest d, daytime d)) ((sends s)[i := handleSend freed (sends s ! i)]) =
      List.map (\<lambda>d. (dest d, daytime d)) (sends s)"
    using i by (simp add: map_update handleSend_def list_update_same_conv)
  moreover have "list_all send_ok ((sends s)[i := handleSend freed (sends s ! i)])"
    using assms(1) h i by (auto simp: list_all_length nth_list_update)
  ultimately show ?thesis using t SendDone by (simp add: udp_requests_def)
qed (use assms in \<open>auto simp: handleReceive_def async_send_to_def send_ok_def udp_requests_def split: if_splits\<close>)

lemma udp_run_ok:
  "list_all send_ok (sends s) \<Longrightarrow> run (udp_step handleReceive) s as = Some t \<Longrightarrow>
     list_all send_ok (sends t) \<and> udp_requests t = udp_requests s @ requests as"
proof (induction as arbitrary: s)
  case (Cons a as)
  from Cons.prems(2) obtain s' where st: "udp_step handleReceive s a = Some s'" "run (udp_step handleReceive) s' as = Some t"
    by (auto split: option.splits)
  have "requests (a # as) = requests [a] @ requests as" by (cases a) simp_all
  with udp_step_ok [OF Cons.prems(1) st(1)] Cons.IH [of s'] st(2) show ?case by simp
qed simp

text \<open>In every run of the asynchronous UDP server each request so far has one answer, in order, to
  its sender and with the text of its time, and every answer that was sent carried
  that text: its buffer was alive.\<close>
theorem udp_server_answers:
  assumes "run (udp_step handleReceive) new_udp_server as = Some s"
  shows "udp_requests s = requests as \<and> list_all send_ok (sends s)"
  using udp_run_ok [OF _ assms] by (simp add: new_udp_server_def udp_requests_def)

definition two_requests :: "udp_event list" where
  "two_requests = [Datagram 7 ''t1'' False, Datagram 8 ''t2'' True, SendDone 0 ''??'']"

lemma udp_server_answers_witness:
  "let s = the (run (udp_step handleReceive) new_udp_server two_requests)
    in udp_requests s = requests two_requests \<and> list_all send_ok (sends s)"
proof -
  obtain s where s: "run (udp_step handleReceive) new_udp_server two_requests = Some s"
    by (simp add: two_requests_def new_udp_server_def handleReceive_def async_send_to_def)
  from udp_server_answers [OF s] s show ?thesis by (simp add: Let_def)
qed

text \<open>The UDP server of the combined program can send freed memory: an answer that the socket
  does not take at once is read after its text was destroyed.\<close>
theorem combined_udp_sends_freed_memory:
  "\<exists>s. run (udp_step combined_receive) new_udp_server [Datagram 7 ''t1'' False, SendDone 0 ''??''] = Some s \<and>
     sends s = [\<lparr>dest = 7, daytime = ''t1'', text_owners = 0, sent_text = Some ''??'', handled = True\<rparr>]"
  by (simp add: new_udp_server_def combined_receive_def async_send_to_def handleSend_def)

text \<open>After a failed receive neither server receives again.\<close>

lemma udp_server_stops:
  "receive \<in> {handleReceive, combined_receive} \<Longrightarrow> udp_step receive s (ReceiveFailed e) = Some t \<Longrightarrow> \<not> receiving t"
  by (auto simp: handleReceive_def combined_receive_def split: if_splits)

section \<open>The combined program\<close>

text \<open>Its TCP server is constructed without starting an accept, and its \<open>startAccept\<close> would bind
  a reference to a local pointer into the handler, which is gone when the handler runs.\<close>

record combined =
  tcp_part :: tcp_async
  udp_part :: udp_async

datatype combined_event = TcpEvent tcp_event | UdpEvent udp_event

definition new_combined :: combined where
  "new_combined = \<lparr>tcp_part = \<lparr>accepting = None, connections = []\<rparr>, udp_part = new_udp_server\<rparr>"

definition combined_startAccept :: "tcp_async \<Rightarrow> tcp_async" where
  "combined_startAccept s = s\<lparr>accepting := Some (length (connections s)),
     connections := connections s @ [\<lparr>message = [], owners = 0, conn_write = NotStarted\<rparr>]\<rparr>"

text \<open>\<open>None\<close>: the handler uses the connection through a dangling reference.\<close>

definition combined_accept :: "net_error option \<Rightarrow> tcp_async \<Rightarrow> tcp_async option" where
  "combined_accept err s = (if err = None then None else Some (combined_startAccept s))"

fun combined_step :: "combined \<Rightarrow> combined_event \<Rightarrow> combined option" where
  "combined_step s (TcpEvent (Accept err t)) = (if accepting (tcp_part s) = None then None
     else map_option (\<lambda>p. s\<lparr>tcp_part := p\<rparr>) (combined_accept err ((tcp_part s)\<lparr>accepting := None\<rparr>)))"
| "combined_step s (TcpEvent (WriteDone i err)) =
     map_option (\<lambda>p. s\<lparr>tcp_part := p\<rparr>) (tcp_step (tcp_part s) (WriteDone i err))"
| "combined_step s (UdpEvent a) = map_option (\<lambda>p. s\<lparr>udp_part := p\<rparr>) (udp_step combined_receive (udp_part s) a)"

definition no_tcp :: "combined \<Rightarrow> bool" where
  "no_tcp s \<longleftrightarrow> tcp_part s = \<lparr>accepting = None, connections = []\<rparr>"

interpretation combined: invariant_system combined_step new_combined no_tcp
proof unfold_locales
  show "no_tcp s \<Longrightarrow> combined_step s a = Some t \<Longrightarrow> no_tcp t" for s a t
    by (induction s a rule: combined_step.induct) (auto simp: no_tcp_def)
qed (simp add: no_tcp_def new_combined_def)

text \<open>The combined program never accepts a TCP connection: no accept is ever outstanding.\<close>
theorem combined_never_accepts:
  assumes "reachable combined_step new_combined s"
  shows "accepting (tcp_part s) = None \<and> connections (tcp_part s) = []"
  using combined.reachable_inv [OF assms] by (simp add: no_tcp_def)

lemma combined_never_accepts_witness:
  "let s = the (run combined_step new_combined [UdpEvent (Datagram 7 ''t'' True)])
    in accepting (tcp_part s) = None \<and> connections (tcp_part s) = []"
proof -
  obtain s where s: "run combined_step new_combined [UdpEvent (Datagram 7 ''t'' True)] = Some s"
    by (simp add: new_combined_def new_udp_server_def combined_receive_def async_send_to_def)
  from combined_never_accepts [OF run_reachable [OF s]] s show ?thesis by (simp add: Let_def)
qed

end
