(* ===== verification/Constructors.thy ===== *)
theory Constructors
  imports Prelude
begin

text \<open>
  The copying classes of \<open>cpp_syntax/about_constructor.cpp\<close>. The store holds the objects of
  class \<open>A\<close> by address; an address is on the stack or on the heap, since only the second kind
  may be deleted. The objects of class \<open>BDeepCopy\<close> are numbered in the order of their
  construction; the operations of the class are the steps. \<open>Inl\<close> is undefined behaviour.
\<close>

section \<open>The store\<close>

datatype addr = Heap nat | Stack nat

datatype undefined_behaviour = DeleteStack | DeleteFreed | DanglingRead | DeadObject

text \<open>In \<open>bs\<close> a destroyed object is \<open>None\<close>, one with a null pointer \<open>Some None\<close>.\<close>

record cstore =
  objects :: "addr \<Rightarrow> string option"
  fresh :: nat
  bs :: "addr option option list"

definition empty_store :: cstore where
  "empty_store = \<lparr>objects = (\<lambda>_. None), fresh = 0, bs = []\<rparr>"

definition new_A :: "string \<Rightarrow> cstore \<Rightarrow> addr \<times> cstore" where
  "new_A d s = (Heap (fresh s), s\<lparr>objects := (objects s)(Heap (fresh s) \<mapsto> d), fresh := fresh s + 1\<rparr>)"

fun delete_ptr :: "addr option \<Rightarrow> cstore \<Rightarrow> undefined_behaviour + cstore" where
  "delete_ptr None s = Inr s"
| "delete_ptr (Some (Stack k)) s = Inl DeleteStack"
| "delete_ptr (Some (Heap n)) s = (if objects s (Heap n) = None then Inl DeleteFreed
     else Inr (s\<lparr>objects := (objects s)(Heap n := None)\<rparr>))"

definition read_data :: "addr \<Rightarrow> cstore \<Rightarrow> undefined_behaviour + string" where
  "read_data p s = (case objects s p of None \<Rightarrow> Inl DanglingRead | Some d \<Rightarrow> Inr d)"

definition a_ptr :: "nat \<Rightarrow> cstore \<Rightarrow> undefined_behaviour + addr option" where
  "a_ptr i s = (if i < length (bs s) then (case bs s ! i of None \<Rightarrow> Inl DeadObject | Some p \<Rightarrow> Inr p) else Inl DeadObject)"

definition set_ptr :: "nat \<Rightarrow> addr option \<Rightarrow> cstore \<Rightarrow> cstore" where
  "set_ptr i p s = s\<lparr>bs := (bs s)[i := Some p]\<rparr>"

definition add_object :: "addr option \<Rightarrow> cstore \<Rightarrow> cstore" where
  "add_object p s = s\<lparr>bs := bs s @ [Some p]\<rparr>"

section \<open>BDeepCopy\<close>

text \<open>The part the copy constructor and the copy assignment share: a new \<open>A\<close> with the data of the
  other object's, or a null pointer.\<close>

definition clone :: "addr option \<Rightarrow> cstore \<Rightarrow> undefined_behaviour + (addr option \<times> cstore)" where
  "clone other s = (case other of None \<Rightarrow> Inr (None, s)
     | Some q \<Rightarrow> bindr (read_data q s) (\<lambda>d. case new_A d s of (p, s1) \<Rightarrow> Inr (Some p, s1)))"

definition deep_copy_ctor :: "nat \<Rightarrow> cstore \<Rightarrow> undefined_behaviour + cstore" where
  "deep_copy_ctor other s = bindr (a_ptr other s) (\<lambda>q. bindr (clone q s) (\<lambda>(p, s1). Inr (add_object p s1)))"

definition deep_copy_assign :: "nat \<Rightarrow> nat \<Rightarrow> cstore \<Rightarrow> undefined_behaviour + cstore" where
  "deep_copy_assign this other s = bindr (a_ptr this s) (\<lambda>p. bindr (a_ptr other s) (\<lambda>q.
     if this \<noteq> other then
       bindr (delete_ptr p s) (\<lambda>s1. bindr (clone q (set_ptr this None s1)) (\<lambda>(p', s2). Inr (set_ptr this p' s2)))
     else Inr s))"

definition deep_move_ctor :: "nat \<Rightarrow> cstore \<Rightarrow> undefined_behaviour + cstore" where
  "deep_move_ctor other s = bindr (a_ptr other s) (\<lambda>q. Inr (set_ptr other None (add_object q s)))"

definition deep_move_assign :: "nat \<Rightarrow> nat \<Rightarrow> cstore \<Rightarrow> undefined_behaviour + cstore" where
  "deep_move_assign this other s = bindr (a_ptr this s) (\<lambda>p. bindr (a_ptr other s) (\<lambda>q.
     if this \<noteq> other then bindr (delete_ptr p s) (\<lambda>s1. Inr (set_ptr other None (set_ptr this q s1))) else Inr s))"

definition deep_dtor :: "nat \<Rightarrow> cstore \<Rightarrow> undefined_behaviour + cstore" where
  "deep_dtor this s = bindr (a_ptr this s) (\<lambda>p. bindr (delete_ptr p s) (\<lambda>s1. Inr (s1\<lparr>bs := (bs s1)[this := None]\<rparr>)))"

text \<open>A client of the class: \<open>Construct\<close> hands a new \<open>A\<close> over.\<close>

datatype deep_op =
    Construct "string option"
  | CopyCtor nat
  | MoveCtor nat
  | CopyAssign nat nat
  | MoveAssign nat nat
  | Destroy nat

fun deep_step :: "deep_op \<Rightarrow> cstore \<Rightarrow> undefined_behaviour + cstore" where
  "deep_step (Construct None) s = Inr (add_object None s)"
| "deep_step (Construct (Some d)) s = (case new_A d s of (p, s1) \<Rightarrow> Inr (add_object (Some p) s1))"
| "deep_step (CopyCtor i) s = deep_copy_ctor i s"
| "deep_step (MoveCtor i) s = deep_move_ctor i s"
| "deep_step (CopyAssign i j) s = deep_copy_assign i j s"
| "deep_step (MoveAssign i j) s = deep_move_assign i j s"
| "deep_step (Destroy i) s = deep_dtor i s"

fun deep_run :: "deep_op list \<Rightarrow> cstore \<Rightarrow> undefined_behaviour + cstore" where
  "deep_run [] s = Inr s"
| "deep_run (a # as) s = bindr (deep_step a s) (deep_run as)"

section \<open>Value semantics\<close>

text \<open>The specification: each object holds a value of its own, an optional string; there are no
  pointers. \<open>None\<close> when the client uses an object it has destroyed.\<close>

type_synonym vals = "string option option list"

definition alive :: "nat \<Rightarrow> vals \<Rightarrow> bool" where
  "alive i v \<longleftrightarrow> i < length v \<and> v ! i \<noteq> None"

fun value_step :: "deep_op \<Rightarrow> vals \<Rightarrow> vals option" where
  "value_step (Construct d) v = Some (v @ [Some d])"
| "value_step (CopyCtor i) v = (if alive i v then Some (v @ [v ! i]) else None)"
| "value_step (MoveCtor i) v = (if alive i v then Some ((v @ [v ! i])[i := Some None]) else None)"
| "value_step (CopyAssign i j) v = (if alive i v \<and> alive j v then Some (v[i := v ! j]) else None)"
| "value_step (MoveAssign i j) v = (if alive i v \<and> alive j v
     then Some (if i = j then v else v[i := v ! j, j := Some None]) else None)"
| "value_step (Destroy i) v = (if alive i v then Some (v[i := None]) else None)"

fun value_run :: "deep_op list \<Rightarrow> vals \<Rightarrow> vals option" where
  "value_run [] v = Some v"
| "value_run (a # as) v = (case value_step a v of None \<Rightarrow> None | Some v' \<Rightarrow> value_run as v')"

fun value_of :: "(addr \<Rightarrow> string option) \<Rightarrow> addr option option \<Rightarrow> string option option" where
  "value_of m None = None"
| "value_of m (Some None) = Some None"
| "value_of m (Some (Some p)) = Some (m p)"

definition values_of :: "cstore \<Rightarrow> vals" where
  "values_of s = List.map (value_of (objects s)) (bs s)"

text \<open>Every object of class \<open>A\<close> has exactly one owner, and every owned address is on the heap.\<close>

definition owns :: "cstore \<Rightarrow> nat \<Rightarrow> addr \<Rightarrow> bool" where
  "owns s i p \<longleftrightarrow> i < length (bs s) \<and> bs s ! i = Some (Some p)"

definition deep_inv :: "cstore \<Rightarrow> bool" where
  "deep_inv s \<longleftrightarrow> (\<forall>i j p. owns s i p \<longrightarrow> owns s j p \<longrightarrow> i = j) \<and>
     (\<forall>p. objects s p \<noteq> None \<longleftrightarrow> (\<exists>i. owns s i p)) \<and>
     (\<forall>i p. owns s i p \<longrightarrow> (\<exists>n < fresh s. p = Heap n))"

lemma deep_invD:
  assumes "deep_inv s"
  shows "owns s i p \<Longrightarrow> owns s j p \<Longrightarrow> i = j"
    and "owns s i p \<Longrightarrow> \<exists>d. objects s p = Some d"
    and "owns s i p \<Longrightarrow> \<exists>n < fresh s. p = Heap n"
    and "objects s p = Some d \<Longrightarrow> \<exists>i. owns s i p"
  using assms unfolding deep_inv_def by blast+

lemma fresh_unowned: "deep_inv s \<Longrightarrow> \<not> owns s i (Heap (fresh s))"
  using deep_invD(3) by blast

lemma values_of_nth: "i < length (bs s) \<Longrightarrow> values_of s ! i = value_of (objects s) (bs s ! i)"
  by (simp add: values_of_def)

lemma alive_a_ptr: "alive i (values_of s) \<longleftrightarrow> (\<exists>p. a_ptr i s = Inr p)"
proof (cases "i < length (bs s)")
  case True
  then show ?thesis by (cases "bs s ! i" rule: option.exhaust; cases "the (bs s ! i)")
      (auto simp: alive_def a_ptr_def values_of_def)
qed (simp add: alive_def a_ptr_def values_of_def)

lemma a_ptr_iff: "a_ptr i s = Inr p \<longleftrightarrow> i < length (bs s) \<and> bs s ! i = Some p"
  by (auto simp: a_ptr_def split: option.splits)

text \<open>Three primitive moves: a new owned object, a pointer that changes its owner, a deletion.\<close>

definition simulates :: "cstore \<Rightarrow> vals \<Rightarrow> bool" where
  "simulates s v \<longleftrightarrow> deep_inv s \<and> values_of s = v"

lemma value_of_upd: "b \<noteq> Some (Some p) \<Longrightarrow> value_of (m(p := x)) b = value_of m b"
  by (cases b rule: option.exhaust; cases "the b") auto

lemma values_of_upd:
  "(\<And>i. \<not> owns s i p) \<Longrightarrow> List.map (value_of ((objects s)(p := x))) (bs s) = values_of s"
  by (auto simp: values_of_def owns_def list_eq_iff_nth_eq value_of_upd)

lemma add_new_simulates:
  assumes "simulates s v"
  shows "simulates (add_object (Some (fst (new_A d s))) (snd (new_A d s))) (v @ [Some (Some d)])"
proof -
  let ?p = "Heap (fresh s)" let ?t = "add_object (Some (fst (new_A d s))) (snd (new_A d s))"
  have inv: "deep_inv s" and v: "values_of s = v" using assms by (simp_all add: simulates_def)
  have o: "owns ?t i p \<longleftrightarrow> owns s i p \<or> i = length (bs s) \<and> p = ?p" for i p
    by (auto simp: owns_def add_object_def new_A_def nth_append)
  have "deep_inv ?t"
    unfolding deep_inv_def o
  proof (intro conjI allI impI)
    show "(objects ?t p \<noteq> None) = (\<exists>i. owns s i p \<or> i = length (bs s) \<and> p = ?p)" for p
      using inv by (auto simp: add_object_def new_A_def deep_inv_def)
  next
    fix i j p
    assume "owns s i p \<or> i = length (bs s) \<and> p = ?p" "owns s j p \<or> j = length (bs s) \<and> p = ?p"
    then show "i = j" using deep_invD(1) [OF inv] fresh_unowned [OF inv] by blast
  next
    fix i p
    assume "owns s i p \<or> i = length (bs s) \<and> p = ?p"
    then show "\<exists>n<fresh ?t. p = Heap n"
      using deep_invD(3) [OF inv] by (auto simp: add_object_def new_A_def less_Suc_eq)
  qed
  moreover have "values_of ?t = v @ [Some (Some d)]"
    by (simp add: values_of_def add_object_def new_A_def trans [OF values_of_upd [OF fresh_unowned [OF inv]] v])
  ultimately show ?thesis by (simp add: simulates_def)
qed

lemma add_null_simulates: "simulates s v \<Longrightarrow> simulates (add_object None s) (v @ [Some None])"
proof -
  have o: "owns (add_object None s) i p \<longleftrightarrow> owns s i p" for i p
    by (auto simp: owns_def add_object_def nth_append)
  assume sim: "simulates s v"
  then have "deep_inv (add_object None s)"
    unfolding simulates_def deep_inv_def o by (simp add: add_object_def)
  with sim show ?thesis by (simp add: simulates_def values_of_def add_object_def)
qed

text \<open>Deleting what object \<open>i\<close> points to, its pointer becoming \<open>b\<close>: null, or that of a destroyed object.\<close>

lemma delete_simulates:
  assumes "simulates s v" "i < length (bs s)" "bs s ! i = Some p" "b = None \<or> b = Some None"
  shows "\<exists>s1. delete_ptr p s = Inr s1 \<and> bs s1 = bs s \<and> simulates (s1\<lparr>bs := (bs s1)[i := b]\<rparr>) (v[i := map_option (\<lambda>_. None) b])"
proof -
  have inv: "deep_inv s" and v: "values_of s = v" using assms(1) by (simp_all add: simulates_def)
  have b: "value_of m b = map_option (\<lambda>_. None) b" for m using assms(4) by auto
  show ?thesis
  proof (cases p)
    case None
    have o: "owns (s\<lparr>bs := (bs s)[i := b]\<rparr>) j q \<longleftrightarrow> owns s j q" for j q
      using assms None by (auto simp: owns_def nth_list_update)
    have "deep_inv (s\<lparr>bs := (bs s)[i := b]\<rparr>)" using inv by (simp add: deep_inv_def o)
    with None v b show ?thesis by (auto simp: simulates_def values_of_def map_update)
  next
    case (Some q)
    have own: "owns s i q" using assms Some by (simp add: owns_def)
    then obtain n d where q: "q = Heap n" "objects s q = Some d" using deep_invD [OF inv] by blast
    let ?s1 = "s\<lparr>objects := (objects s)(q := None)\<rparr>" let ?t = "?s1\<lparr>bs := (bs s)[i := b]\<rparr>"
    have o: "owns ?t j r \<longleftrightarrow> owns s j r \<and> j \<noteq> i" for j r
      using assms(2,4) by (auto simp: owns_def nth_list_update)
    have qi: "owns s j q \<longleftrightarrow> j = i" for j using own deep_invD(1) [OF inv] by blast
    have "deep_inv ?t"
      unfolding deep_inv_def o
    proof (intro conjI allI impI)
      show "(objects ?t r \<noteq> None) = (\<exists>j. owns s j r \<and> j \<noteq> i)" for r
      proof (cases "r = q")
        case False
        then have "\<not> owns s i r" using own by (auto simp: owns_def)
        with False inv show ?thesis by (auto simp: deep_inv_def)
      qed (simp add: qi)
    qed (use deep_invD(1,3) [OF inv] in auto)
    moreover have "values_of ?t = v[i := map_option (\<lambda>_. None) b]"
    proof (rule nth_equalityI)
      fix j assume "j < length (values_of ?t)"
      then have j: "j < length (bs s)" by (simp add: values_of_def)
      have "j \<noteq> i \<Longrightarrow> bs s ! j \<noteq> Some (Some q)" using qi j by (auto simp: owns_def)
      then show "values_of ?t ! j = v[i := map_option (\<lambda>_. None) b] ! j"
        using j b v assms(2) by (cases "j = i") (auto simp: values_of_def nth_list_update value_of_upd)
    qed (use v in \<open>auto simp: values_of_def\<close>)
    ultimately show ?thesis using q Some by (simp add: simulates_def)
  qed
qed

lemma set_new_simulates:
  assumes "simulates s v" "i < length (bs s)" "bs s ! i = Some None"
  shows "simulates (set_ptr i (Some (fst (new_A d s))) (snd (new_A d s))) (v[i := Some (Some d)])"
proof -
  let ?p = "Heap (fresh s)" let ?t = "set_ptr i (Some (fst (new_A d s))) (snd (new_A d s))"
  have inv: "deep_inv s" and v: "values_of s = v" using assms by (simp_all add: simulates_def)
  have o: "owns ?t j p \<longleftrightarrow> owns s j p \<or> j = i \<and> p = ?p" for j p
    using assms(2,3) by (auto simp: owns_def set_ptr_def new_A_def nth_list_update)
  have "deep_inv ?t"
    unfolding deep_inv_def o
  proof (intro conjI allI impI)
    show "(objects ?t p \<noteq> None) = (\<exists>j. owns s j p \<or> j = i \<and> p = ?p)" for p
      using inv by (auto simp: set_ptr_def new_A_def deep_inv_def)
  next
    fix j k p
    assume "owns s j p \<or> j = i \<and> p = ?p" "owns s k p \<or> k = i \<and> p = ?p"
    then show "j = k" using deep_invD(1) [OF inv] fresh_unowned [OF inv] by blast
  next
    fix j p
    assume "owns s j p \<or> j = i \<and> p = ?p"
    then show "\<exists>n<fresh ?t. p = Heap n"
      using deep_invD(3) [OF inv] by (auto simp: set_ptr_def new_A_def less_Suc_eq)
  qed
  moreover have "values_of ?t = v[i := Some (Some d)]"
    by (simp add: values_of_def set_ptr_def new_A_def map_update trans [OF values_of_upd [OF fresh_unowned [OF inv]] v])
  ultimately show ?thesis by (simp add: simulates_def)
qed

text \<open>A pointer moves from object \<open>j\<close> to object \<open>i\<close>, which holds a null pointer.\<close>

lemma move_simulates:
  assumes "simulates s v" "i < length (bs s)" "bs s ! i = Some None" "j < length (bs s)" "bs s ! j = Some q" "i \<noteq> j"
  shows "simulates (set_ptr j None (set_ptr i q s)) (v[i := v ! j, j := Some None])"
proof -
  let ?t = "set_ptr j None (set_ptr i q s)"
  have inv: "deep_inv s" and v: "values_of s = v" using assms(1) by (simp_all add: simulates_def)
  define f where "f k = (if k = i then j else if k = j then i else k)" for k
  have o: "owns ?t k p \<longleftrightarrow> owns s (f k) p" for k p
    using assms(2-6) by (auto simp: owns_def set_ptr_def nth_list_update f_def)
  have ff: "f (f k) = k" for k by (simp add: f_def)
  have "deep_inv ?t"
    unfolding deep_inv_def o
  proof (intro conjI allI impI)
    fix k l p
    assume "owns s (f k) p" "owns s (f l) p"
    then show "k = l" using deep_invD(1) [OF inv] ff by metis
  next
    show "(objects ?t p \<noteq> None) = (\<exists>k. owns s (f k) p)" for p
      using inv ff unfolding deep_inv_def set_ptr_def by simp metis
  next
    fix k p
    assume "owns s (f k) p"
    then show "\<exists>n<fresh ?t. p = Heap n" using deep_invD(3) [OF inv] by (simp add: set_ptr_def)
  qed
  moreover have "values_of ?t = v[i := v ! j, j := Some None]"
    using v assms(2-6) by (auto simp: values_of_def set_ptr_def map_update)
  ultimately show ?thesis by (simp add: simulates_def)
qed

lemma clone_simulates:
  assumes "simulates s v" "j < length (bs s)" "bs s ! j = Some q"
  shows "clone q s = (case v ! j of Some (Some d) \<Rightarrow> Inr (Some (fst (new_A d s)), snd (new_A d s)) | _ \<Rightarrow> Inr (None, s))"
proof (cases q)
  case None
  with assms show ?thesis by (auto simp: clone_def simulates_def values_of_def)
next
  case (Some p)
  have "owns s j p" using assms Some by (simp add: owns_def)
  then obtain d where d: "objects s p = Some d" using assms(1) deep_invD(2) [of s j p] by (auto simp: simulates_def)
  then have "v ! j = Some (Some d)" using assms Some by (auto simp: simulates_def values_of_def)
  with d Some show ?thesis by (simp add: clone_def read_data_def split: prod.split)
qed

text \<open>Each operation of the class implements its step of the specification.\<close>

lemma alive_ptr: "simulates s v \<Longrightarrow> alive i v \<longleftrightarrow> (\<exists>p. i < length (bs s) \<and> bs s ! i = Some p)"
  using alive_a_ptr [of i s] by (auto simp: simulates_def a_ptr_iff)

lemma sim_length: "simulates s v \<Longrightarrow> length (bs s) = length v"
  by (auto simp: simulates_def values_of_def)

lemma sim_null: "simulates s v \<Longrightarrow> j < length (bs s) \<Longrightarrow> bs s ! j = Some q \<Longrightarrow> v ! j = Some None \<longleftrightarrow> q = None"
proof -
  assume s: "simulates s v" "j < length (bs s)" "bs s ! j = Some q"
  have "owns s j p \<Longrightarrow> objects s p \<noteq> None" for p
    using s(1) deep_invD(2) [of s j p] by (auto simp: simulates_def)
  with s show ?thesis by (cases q) (auto simp: simulates_def values_of_def owns_def)
qed

lemma copy_ctor_simulates:
  assumes "simulates s v" "alive i v"
  shows "\<exists>t. deep_copy_ctor i s = Inr t \<and> simulates t (v @ [v ! i])"
proof -
  obtain q where q: "i < length (bs s)" "bs s ! i = Some q" using alive_ptr assms by blast
  have cl: "clone q s = (case v ! i of Some (Some d) \<Rightarrow> Inr (Some (fst (new_A d s)), snd (new_A d s)) | _ \<Rightarrow> Inr (None, s))"
    by (rule clone_simulates [OF assms(1) q])
  have a: "a_ptr i s = Inr q" using q by (simp add: a_ptr_iff)
  obtain x where x: "v ! i = Some x" using assms(2) by (auto simp: alive_def)
  show ?thesis
  proof (cases x)
    case None
    with x cl a add_null_simulates [OF assms(1)] show ?thesis by (simp add: deep_copy_ctor_def)
  next
    case (Some d)
    with x cl a add_new_simulates [OF assms(1), of d] show ?thesis by (simp add: deep_copy_ctor_def)
  qed
qed

lemma copy_assign_simulates:
  assumes "simulates s v" "alive i v" "alive j v"
  shows "\<exists>t. deep_copy_assign i j s = Inr t \<and> simulates t (v[i := v ! j])"
proof (cases "i = j")
  case True
  obtain p where "a_ptr i s = Inr p" using alive_ptr [OF assms(1)] assms(2) a_ptr_iff by metis
  with True assms(1) show ?thesis by (simp add: deep_copy_assign_def list_update_id)
next
  case False
  obtain p where p: "i < length (bs s)" "bs s ! i = Some p" using alive_ptr assms by blast
  obtain q where q: "j < length (bs s)" "bs s ! j = Some q" using alive_ptr assms by blast
  obtain s1 where s1: "delete_ptr p s = Inr s1" "bs s1 = bs s" "simulates (set_ptr i None s1) (v[i := Some None])"
    using delete_simulates [OF assms(1) p, of "Some None"] by (auto simp: set_ptr_def)
  let ?s2 = "set_ptr i None s1"
  have b2: "i < length (bs ?s2)" "bs ?s2 ! i = Some None" "j < length (bs ?s2)" "bs ?s2 ! j = Some q"
    using p q s1(2) False by (auto simp: set_ptr_def)
  have cl: "clone q ?s2 = (case v ! j of Some (Some d) \<Rightarrow> Inr (Some (fst (new_A d ?s2)), snd (new_A d ?s2)) | _ \<Rightarrow> Inr (None, ?s2))"
    using clone_simulates [OF s1(3) b2(3,4)] False by simp
  have run: "deep_copy_assign i j s = bindr (clone q ?s2) (\<lambda>(p', s2). Inr (set_ptr i p' s2))"
    using False p q s1(1) by (simp add: deep_copy_assign_def a_ptr_iff [THEN iffD2])
  obtain x where x: "v ! j = Some x" using assms(3) by (auto simp: alive_def)
  show ?thesis
  proof (cases x)
    case None
    have "set_ptr i None ?s2 = ?s2" by (simp add: set_ptr_def)
    with None x run cl s1(3) show ?thesis by simp
  next
    case (Some d)
    from set_new_simulates [OF s1(3) b2(1,2), of d] Some x run cl show ?thesis by simp
  qed
qed

lemma move_ctor_simulates:
  assumes "simulates s v" "alive i v"
  shows "\<exists>t. deep_move_ctor i s = Inr t \<and> simulates t ((v @ [v ! i])[i := Some None])"
proof -
  obtain q where q: "i < length (bs s)" "bs s ! i = Some q" using alive_ptr assms by blast
  let ?s1 = "add_object None s" let ?n = "length (bs s)"
  have n: "?n = length v" by (rule sim_length [OF assms(1)])
  have "simulates (set_ptr i None (set_ptr ?n q ?s1)) ((v @ [Some None])[?n := (v @ [Some None]) ! i, i := Some None])"
    by (rule move_simulates [OF add_null_simulates [OF assms(1)]]) (use q in \<open>auto simp: add_object_def nth_append\<close>)
  moreover have "set_ptr ?n q ?s1 = add_object q s" by (simp add: set_ptr_def add_object_def)
  moreover have "(v @ [Some None])[?n := (v @ [Some None]) ! i, i := Some None] = (v @ [v ! i])[i := Some None]"
    using q n by (simp add: nth_append)
  ultimately show ?thesis using q by (simp add: deep_move_ctor_def a_ptr_iff [THEN iffD2])
qed

lemma move_assign_simulates:
  assumes "simulates s v" "alive i v" "alive j v"
  shows "\<exists>t. deep_move_assign i j s = Inr t \<and> simulates t (if i = j then v else v[i := v ! j, j := Some None])"
proof (cases "i = j")
  case True
  obtain p where "a_ptr i s = Inr p" using alive_ptr [OF assms(1)] assms(2) a_ptr_iff by metis
  with True assms(1) show ?thesis by (simp add: deep_move_assign_def)
next
  case False
  obtain p where p: "i < length (bs s)" "bs s ! i = Some p" using alive_ptr assms by blast
  obtain q where q: "j < length (bs s)" "bs s ! j = Some q" using alive_ptr assms by blast
  obtain s1 where s1: "delete_ptr p s = Inr s1" "bs s1 = bs s" "simulates (set_ptr i None s1) (v[i := Some None])"
    using delete_simulates [OF assms(1) p, of "Some None"] by (auto simp: set_ptr_def)
  have "simulates (set_ptr j None (set_ptr i q (set_ptr i None s1))) (v[i := Some None, i := v[i := Some None] ! j, j := Some None])"
    by (rule move_simulates [OF s1(3)]) (use p q s1(2) False in \<open>auto simp: set_ptr_def\<close>)
  moreover have "set_ptr i q (set_ptr i None s1) = set_ptr i q s1" by (simp add: set_ptr_def)
  ultimately show ?thesis
    using False p q s1(1) by (simp add: deep_move_assign_def a_ptr_iff [THEN iffD2])
qed

lemma dtor_simulates:
  assumes "simulates s v" "alive i v"
  shows "\<exists>t. deep_dtor i s = Inr t \<and> simulates t (v[i := None])"
proof -
  obtain p where p: "i < length (bs s)" "bs s ! i = Some p" using alive_ptr assms by blast
  with delete_simulates [OF assms(1) p, of None] show ?thesis
    by (auto simp: deep_dtor_def a_ptr_iff [THEN iffD2])
qed

lemma deep_step_simulates:
  assumes "simulates s v" "value_step a v = Some v'"
  shows "\<exists>t. deep_step a s = Inr t \<and> simulates t v'"
proof (cases a)
  case (Construct d)
  with assms add_null_simulates [OF assms(1)] add_new_simulates [OF assms(1)] show ?thesis
    by (cases d) (auto simp: case_prod_beta)
next
  case (MoveAssign i j)
  with assms move_assign_simulates [OF assms(1), of i j] show ?thesis by (auto split: if_splits)
qed (use assms copy_ctor_simulates copy_assign_simulates move_ctor_simulates dtor_simulates
     in \<open>auto split: if_splits\<close>)

lemma empty_simulates: "simulates empty_store []"
  by (simp add: simulates_def deep_inv_def owns_def empty_store_def values_of_def)

lemma deep_run_simulates:
  "simulates s v \<Longrightarrow> value_run as v = Some v' \<Longrightarrow> \<exists>t. deep_run as s = Inr t \<and> simulates t v'"
proof (induction as arbitrary: s v)
  case (Cons a as)
  from Cons.prems(2) obtain w where w: "value_step a v = Some w" "value_run as w = Some v'" by (auto split: option.splits)
  from deep_step_simulates [OF Cons.prems(1) w(1)] obtain t where t: "deep_step a s = Inr t" "simulates t w" by blast
  from Cons.IH [OF t(2) w(2)] t(1) show ?case by simp
qed simp

text \<open>Any sequence of constructions, copies, moves, assignments and destructions of \<open>BDeepCopy\<close>
  objects runs without undefined behaviour, the objects hold the values of the
  specification without pointers, and exactly the strings that some object holds are
  still allocated.\<close>
theorem deep_copy_refines_values:
  assumes "value_run as [] = Some v"
  shows "\<exists>s. deep_run as empty_store = Inr s \<and> values_of s = v \<and> (\<forall>p. objects s p \<noteq> None \<longleftrightarrow> (\<exists>i. owns s i p))"
  using deep_run_simulates [OF empty_simulates assms] by (auto simp: simulates_def deep_inv_def)

definition deep_example :: "deep_op list" where
  "deep_example = [Construct (Some ''x''), CopyCtor 0, MoveCtor 0, CopyAssign 0 1, CopyAssign 1 1, MoveAssign 1 2, Destroy 0]"

lemma deep_copy_refines_values_witness:
  "\<exists>s. deep_run deep_example empty_store = Inr s \<and> values_of s = [None, Some (Some ''x''), Some None] \<and>
     (\<forall>p. objects s p \<noteq> None \<longleftrightarrow> (\<exists>i. owns s i p))"
  by (rule deep_copy_refines_values) (simp add: deep_example_def alive_def)

section \<open>The other classes and main\<close>

text \<open>\<open>BShallowCopy\<close> copies the pointer.\<close>

definition shallow_copy_ctor :: "addr option \<Rightarrow> addr option" where
  "shallow_copy_ctor other = other"

text \<open>\<open>NoRefCopyConstructor\<close>: both constructors print; the copy has a string of its own.\<close>

definition ctor_line :: "string \<Rightarrow> string" where
  "ctor_line name = name @ '' NoRefCopyConstructor construct success!''"

definition testNoRefCopyConstructor :: "string list" where
  "testNoRefCopyConstructor =
     (let a = ''hello''; l1 = ctor_line a; a_copy = a; l2 = ctor_line a_copy; a_copy = ''world'' in [l1, l2, a_copy])"

text \<open>\<open>main\<close>: \<open>a\<close> is a local variable, and \<open>b_d\<close> is constructed with its address. At the return the
  objects are destroyed in reverse order.\<close>

definition ctor_main :: "undefined_behaviour + cstore" where
  "ctor_main = (let s = add_object (Some (Stack 0)) (empty_store\<lparr>objects := [Stack 0 \<mapsto> ''Proto A'']\<rparr>) in
     bindr (deep_copy_ctor 0 s) (\<lambda>s1. bindr (deep_dtor 1 s1) (deep_dtor 0)))"

text \<open>The program's own use of \<open>BDeepCopy\<close> ends in undefined behaviour: the destructor of \<open>b_d\<close>
  deletes the local variable \<open>a\<close>.\<close>
theorem ctor_main_deletes_stack_object:
  "ctor_main = Inl DeleteStack"
  by (simp add: ctor_main_def add_object_def empty_store_def deep_copy_ctor_def a_ptr_def clone_def read_data_def
      new_A_def deep_dtor_def)

end
