(* ===== verification/Folds.thy ===== *)
theory Folds
  imports CxxText
begin

text \<open>
  The reductions of \<open>modern_cpp/functional_programming.h\<close>, written three times in the source
  (two loops, one loop with a switch, one loop with an operation passed in), and the
  binders of \<open>modern_cpp/std_bind.h\<close>. \<open>None\<close> is signed overflow, which is undefined.
\<close>

section \<open>The loops\<close>

text \<open>\<open>for (int i = 1; i < vec.size(); ++i) result = op(result, vec[i])\<close>, by index as in the code.\<close>

function fold_loop :: "(int \<Rightarrow> int \<Rightarrow> int option) \<Rightarrow> int list \<Rightarrow> nat \<Rightarrow> int \<Rightarrow> int option" where
  "fold_loop f vec i result = (if i < length vec then
     (case f result (vec ! i) of None \<Rightarrow> None | Some r \<Rightarrow> fold_loop f vec (i + 1) r) else Some result)"
  by auto
termination by (relation "measure (\<lambda>(f, vec, i, result). length vec - i)") auto

declare fold_loop.simps [simp del]

definition sum_op :: "int \<Rightarrow> int \<Rightarrow> int option" where "sum_op a b = cint (a + b)"
definition mul_op :: "int \<Rightarrow> int \<Rightarrow> int option" where "mul_op a b = cint (a * b)"

definition calculator :: "int list \<Rightarrow> (int \<Rightarrow> int \<Rightarrow> int option) \<Rightarrow> int option" where
  "calculator vec f = (if vec = [] then Some 0 else fold_loop f vec 1 (vec ! 0))"

text \<open>Method 1: \<open>sum\<close> and \<open>multi\<close> with loops of their own.\<close>

function sum_loop :: "int list \<Rightarrow> nat \<Rightarrow> int \<Rightarrow> int option" where
  "sum_loop vec i result = (if i < length vec then
     (case cint (result + vec ! i) of None \<Rightarrow> None | Some r \<Rightarrow> sum_loop vec (i + 1) r) else Some result)"
  by auto
termination by (relation "measure (\<lambda>(vec, i, result). length vec - i)") auto

function multi_loop :: "int list \<Rightarrow> nat \<Rightarrow> int \<Rightarrow> int option" where
  "multi_loop vec i result = (if i < length vec then
     (case cint (result * vec ! i) of None \<Rightarrow> None | Some r \<Rightarrow> multi_loop vec (i + 1) r) else Some result)"
  by auto
termination by (relation "measure (\<lambda>(vec, i, result). length vec - i)") auto

declare sum_loop.simps [simp del] multi_loop.simps [simp del]

definition sum_vec :: "int list \<Rightarrow> int option" where
  "sum_vec vec = (if vec = [] then Some 0 else sum_loop vec 1 (vec ! 0))"

definition multi :: "int list \<Rightarrow> int option" where
  "multi vec = (if vec = [] then Some 0 else multi_loop vec 1 (vec ! 0))"

text \<open>Method 2: the loop is chosen by an enumerator.\<close>

datatype algorithm = Sum | Multi

definition generate :: "int list \<Rightarrow> algorithm \<Rightarrow> int option" where
  "generate vec alg = (if vec = [] then Some 0
     else (let result = vec ! 0 in
       (case alg of Sum \<Rightarrow> sum_loop vec 1 result | Multi \<Rightarrow> multi_loop vec 1 result)))"

text \<open>\<open>main\<close>: the exit code and the output for the arguments.\<close>

datatype fold_method = Normal | EnumMethod | Func | Lambda

definition fold_method :: "string \<Rightarrow> fold_method option" where
  "fold_method s = (if s = ''Normal'' then Some Normal else if s = ''Enum'' then Some EnumMethod
     else if s = ''Func'' then Some Func else if s = ''lambda'' then Some Lambda else None)"

definition both_results :: "fold_method \<Rightarrow> int list \<Rightarrow> int option \<times> int option" where
  "both_results m vec = (case m of
       Normal \<Rightarrow> (sum_vec vec, multi vec)
     | EnumMethod \<Rightarrow> (generate vec Sum, generate vec Multi)
     | Func \<Rightarrow> (calculator vec sum_op, calculator vec mul_op)
     | Lambda \<Rightarrow> (calculator vec (\<lambda>a b. cint (a + b)), calculator vec (\<lambda>a b. cint (a * b))))"

definition fold_main :: "string list \<Rightarrow> (int \<times> string list) option" where
  "fold_main argv =
     (if length argv \<noteq> 2 then Some (- 1, [''Error: Please input your method!'', ''Normal'', ''Enum'', ''Func'', ''lambda''])
      else (case fold_method (argv ! 1) of
          None \<Rightarrow> Some (- 1, [''Error: Please input valid method!''])
        | Some m \<Rightarrow> (case both_results m [1, 2, 3, 4, 5] of
              (Some sum_res, Some mul_res) \<Rightarrow>
                Some (0, [''Sum result is '' @ show_int sum_res, ''Mul result is '' @ show_int mul_res])
            | _ \<Rightarrow> None)))"

section \<open>The four ways agree\<close>

lemma sum_loop_fold: "sum_loop vec i r = fold_loop sum_op vec i r"
proof (induction vec i r rule: sum_loop.induct)
  case (1 vec i r)
  then show ?case
    by (subst sum_loop.simps, subst fold_loop.simps) (auto simp: sum_op_def [of r "vec ! i"] split: option.split)
qed

lemma multi_loop_fold: "multi_loop vec i r = fold_loop mul_op vec i r"
proof (induction vec i r rule: multi_loop.induct)
  case (1 vec i r)
  then show ?case
    by (subst multi_loop.simps, subst fold_loop.simps) (auto simp: mul_op_def [of r "vec ! i"] split: option.split)
qed

lemma calculator_sum: "calculator vec sum_op = sum_vec vec"
  by (simp add: calculator_def sum_vec_def sum_loop_fold)

lemma calculator_mul: "calculator vec mul_op = multi vec"
  by (simp add: calculator_def multi_def multi_loop_fold)

text \<open>For every vector the four methods of the program compute the same two results, overflow
  included.\<close>
theorem fold_methods_agree:
  "both_results m vec = both_results Normal vec"
proof (cases m)
  case Lambda
  have "(\<lambda>a b. cint (a + b)) = sum_op" "(\<lambda>a b. cint (a * b)) = mul_op" by (simp_all add: fun_eq_iff sum_op_def mul_op_def)
  with Lambda show ?thesis by (simp add: both_results_def calculator_sum calculator_mul)
qed (simp_all add: both_results_def calculator_sum calculator_mul generate_def sum_vec_def multi_def Let_def)

text \<open>The index loop is the fold over the remaining elements.\<close>

fun foldM :: "(int \<Rightarrow> int \<Rightarrow> int option) \<Rightarrow> int \<Rightarrow> int list \<Rightarrow> int option" where
  "foldM f r [] = Some r"
| "foldM f r (x # xs) = (case f r x of None \<Rightarrow> None | Some r' \<Rightarrow> foldM f r' xs)"

lemma fold_loop_foldM: "fold_loop f vec i r = foldM f r (drop i vec)"
proof (induction f vec i r rule: fold_loop.induct)
  case (1 f vec i r)
  show ?case
  proof (cases "i < length vec")
    case True
    then have "drop i vec = vec ! i # drop (Suc i) vec" by (rule Cons_nth_drop_Suc [symmetric])
    with True 1 show ?thesis by (subst fold_loop.simps) (simp split: option.split)
  qed (subst fold_loop.simps, simp)
qed

text \<open>The values of \<open>result\<close> after each iteration.\<close>

fun partial_sums :: "int \<Rightarrow> int list \<Rightarrow> int list" where
  "partial_sums r [] = []"
| "partial_sums r (x # xs) = (r + x) # partial_sums (r + x) xs"

lemma partial_sums_nth: "k < length xs \<Longrightarrow> partial_sums r xs ! k = r + sum_list (take (Suc k) xs)"
proof (induction xs arbitrary: r k)
  case (Cons x xs)
  then show ?case by (cases k) simp_all
qed simp

lemma foldM_sum:
  "foldM sum_op r xs = (if list_all in_int (partial_sums r xs) then Some (r + sum_list xs) else None)"
  by (induction xs arbitrary: r) (simp_all add: sum_op_def cint_def add.assoc)

text \<open>\<open>sum\<close> returns the sum of the elements exactly when no partial sum leaves the range of
  \<open>int\<close>, whatever the total is.\<close>
theorem sum_vec_correct:
  "sum_vec (x # xs) = (if list_all in_int (partial_sums x xs) then Some (sum_list (x # xs)) else None)"
  by (simp add: sum_vec_def sum_loop_fold fold_loop_foldM foldM_sum)

lemma fold_main_prints:
  "list_all (\<lambda>m. fold_main [''prog'', m] = Some (0, [''Sum result is 15'', ''Mul result is 120'']))
     [''Normal'', ''Enum'', ''Func'', ''lambda'']"
  by code_simp

section \<open>Binders\<close>

text \<open>\<open>bind\<close> with placeholders, \<open>bind_front\<close> and \<open>bind_back\<close> over an argument list.\<close>

datatype bound_arg = Value int | Placeholder nat

fun bind_arg :: "int list \<Rightarrow> bound_arg \<Rightarrow> int" where
  "bind_arg args (Value v) = v"
| "bind_arg args (Placeholder n) = args ! (n - 1)"

definition std_bind :: "(int list \<Rightarrow> 'r) \<Rightarrow> bound_arg list \<Rightarrow> int list \<Rightarrow> 'r" where
  "std_bind f bound args = f (List.map (bind_arg args) bound)"

definition bind_front :: "(int list \<Rightarrow> 'r) \<Rightarrow> int list \<Rightarrow> int list \<Rightarrow> 'r" where
  "bind_front f front args = f (front @ args)"

definition bind_back :: "(int list \<Rightarrow> 'r) \<Rightarrow> int list \<Rightarrow> int list \<Rightarrow> 'r" where
  "bind_back f back args = f (args @ back)"

fun sum3 :: "int list \<Rightarrow> int option" where
  "sum3 [x, y, z] = (case cint (x + y) of None \<Rightarrow> None | Some r \<Rightarrow> cint (r + z))"
| "sum3 _ = None"

definition bind_main :: "int option list" where
  "bind_main = [std_bind sum3 [Value 1, Placeholder 1, Placeholder 2] [2, 3], bind_front sum3 [1] [2, 3],
     bind_back sum3 [3] [1, 2]]"

lemma bind_front_is_bind:
  "length args = 2 \<Longrightarrow> bind_front f [v] args = std_bind f [Value v, Placeholder 1, Placeholder 2] args"
  by (auto simp: bind_front_def std_bind_def length_Suc_conv numeral_2_eq_2)

lemma bind_main_value: "bind_main = [Some 6, Some 6, Some 6]"
  by code_simp

end
