(* ===== verification/HasFoo.thy ===== *)
theory HasFoo
  imports Prelude
begin

text \<open>
  The member detectors of \<open>modern_cpp/if_have_func_foo.h\<close>. A complete, copyable class type is
  described by what the lookup of the name \<open>foo\<close> in it finds: what kind of member, whether it
  is accessible from outside the class, how many arguments it needs, which values it can be
  called on and whether its address can be taken. A detector asks whether an expression is
  well-formed for the type. Deleted, consteval and constrained functions are not described.
\<close>

section \<open>Types and expressions\<close>

text \<open>
  A function by itself, by its ref-qualifier when it is not static; a data member, by whether it
  can be called without arguments when it is found in an lvalue and in an rvalue, and whether
  \<open>&T::foo\<close> is well-formed for it: it is not for a non-static member of a reference type and for a
  bit-field. Several functions, or a function template: whether overload resolution for a call
  without arguments finds one function, an accessible one. A nested type or an enumerator.
\<close>

datatype foo_kind =
    StaticFunction
  | MemberFunction (on_lvalue: bool) (on_rvalue: bool)
  | DataMember (call_lvalue: bool) (call_rvalue: bool) (addressable: bool)
  | OverloadSet (picks_lvalue: bool) (picks_rvalue: bool)
  | TypeOrEnumerator

record foo_decl =
  kind :: foo_kind
  accessible :: bool         \<comment> \<open>not for an \<open>OverloadSet\<close>, whose functions may differ in it\<close>
  required_args :: nat       \<comment> \<open>of a function by itself\<close>

type_synonym cxx_type = "foo_decl option"

text \<open>\<open>t.foo()\<close> on an lvalue, \<open>std::declval<T>().foo()\<close> on an rvalue, \<open>&T::foo\<close>.\<close>

definition call_ok :: "bool \<Rightarrow> cxx_type \<Rightarrow> bool" where
  "call_ok lvalue t = (case t of None \<Rightarrow> False | Some d \<Rightarrow>
     (case kind d of
        StaticFunction \<Rightarrow> accessible d \<and> required_args d = 0
      | MemberFunction l r \<Rightarrow> accessible d \<and> required_args d = 0 \<and> (if lvalue then l else r)
      | DataMember l r a \<Rightarrow> accessible d \<and> (if lvalue then l else r)
      | OverloadSet l r \<Rightarrow> if lvalue then l else r
      | TypeOrEnumerator \<Rightarrow> False))"

text \<open>Without a target type the address of several functions names none of them.\<close>

definition address_ok :: "cxx_type \<Rightarrow> bool" where
  "address_ok t = (case t of None \<Rightarrow> False | Some d \<Rightarrow>
     (case kind d of
        StaticFunction \<Rightarrow> accessible d
      | MemberFunction l r \<Rightarrow> accessible d
      | DataMember l r a \<Rightarrow> accessible d \<and> a
      | OverloadSet l r \<Rightarrow> False
      | TypeOrEnumerator \<Rightarrow> False))"

section \<open>The detectors\<close>

definition has_func_foo_20_value :: "cxx_type \<Rightarrow> bool" where
  "has_func_foo_20_value t = (if call_ok True t then True else False)"

definition has_func_foo_20 :: "cxx_type \<Rightarrow> bool" where
  "has_func_foo_20 t = (if address_ok t then True else False)"

text \<open>The specialisation is chosen when its argument is well-formed, else the primary template.\<close>

definition has_foo :: "cxx_type \<Rightarrow> bool" where
  "has_foo t = (if call_ok False t then True else False)"

definition has_func_foo_17 :: "cxx_type \<Rightarrow> bool" where
  "has_func_foo_17 t = has_foo t"

text \<open>Two overloads with opposite conditions: the list of those that are enabled has to have one
  element, whose value is returned; \<open>None\<close> is an ill-formed call.\<close>

definition overloads :: "(bool \<times> bool) list \<Rightarrow> bool option" where
  "overloads os = (case filter fst os of [(_, r)] \<Rightarrow> Some r | _ \<Rightarrow> None)"

definition has_func_foo_14 :: "cxx_type \<Rightarrow> bool option" where
  "has_func_foo_14 t = overloads [(has_foo t, True), (\<not> has_foo t, False)]"

definition has_func_foo_11 :: "cxx_type \<Rightarrow> bool option" where
  "has_func_foo_11 t = overloads [(has_foo t, True), (\<not> has_foo t, False)]"

section \<open>main\<close>

definition struct_A :: cxx_type where
  "struct_A = Some \<lparr>kind = StaticFunction, accessible = True, required_args = 0\<rparr>"

definition struct_B :: cxx_type where
  "struct_B = Some \<lparr>kind = MemberFunction True True, accessible = True, required_args = 0\<rparr>"

definition struct_C :: cxx_type where
  "struct_C = Some \<lparr>kind = MemberFunction True True, accessible = False, required_args = 0\<rparr>"

definition foo_line :: "string \<Rightarrow> bool \<Rightarrow> string" where
  "foo_line l b = l @ (if b then ''true'' else ''false'')"

definition foo_main :: "string list option" where
  "foo_main = (case (has_func_foo_14 struct_A, has_func_foo_14 struct_B, has_func_foo_14 struct_C,
       has_func_foo_11 struct_A, has_func_foo_11 struct_B, has_func_foo_11 struct_C) of
     (Some a14, Some b14, Some c14, Some a11, Some b11, Some c11) \<Rightarrow> Some
       [foo_line ''C++20 test A '' (has_func_foo_20_value struct_A), foo_line ''C++20 test B '' (has_func_foo_20_value struct_B),
        foo_line ''C++20 test C '' (has_func_foo_20_value struct_C),
        foo_line ''C++20 test A '' (has_func_foo_20 struct_A), foo_line ''C++20 test B '' (has_func_foo_20 struct_B),
        foo_line ''C++20 test C '' (has_func_foo_20 struct_C),
        foo_line ''C++17 test A '' (has_func_foo_17 struct_A), foo_line ''C++17 test B '' (has_func_foo_17 struct_B),
        foo_line ''C++17 test C '' (has_func_foo_17 struct_C),
        foo_line ''C++14 test A '' a14, foo_line ''C++14 test B '' b14, foo_line ''C++14 test C '' c14,
        foo_line ''C++11 test A '' a11, foo_line ''C++11 test B '' b11, foo_line ''C++11 test C '' c11]
   | _ \<Rightarrow> None)"

section \<open>When they agree\<close>




text \<open>A type with two accessible functions \<open>foo\<close>: only the detector with \<open>&T::foo\<close> does not see them.\<close>

lemma overloads_not_seen:
  "kind d = OverloadSet True True \<Longrightarrow> has_func_foo_20_value (Some d) \<and> \<not> has_func_foo_20 (Some d) \<and> has_func_foo_17 (Some d)"
  by (simp add: has_func_foo_20_value_def has_func_foo_20_def has_func_foo_17_def has_foo_def call_ok_def address_ok_def)

lemma foo_main_lines:
  "foo_main = Some (concat (List.map (\<lambda>v. [''C++'' @ v @ '' test A true'', ''C++'' @ v @ '' test B true'', ''C++'' @ v @ '' test C false''])
     [''20'', ''20'', ''17'', ''14'', ''11'']))"
  by code_simp

end
