(* ===== verification/ArrayHeap.thy ===== *)
theory ArrayHeap
  imports Prelude "HOL-Library.Multiset"
begin

text \<open>
  Lists as binary heaps: the parent of index \<open>i\<close> is \<open>(i - 1) div 2\<close>. What one exchange on the way up
  or down does to the order, and what replacing an element does. The timer queue's loops
  rest on these lemmas.
\<close>

definition parent :: "nat \<Rightarrow> nat" where
  "parent i = (i - 1) div 2"

lemma parent_less [simp]: "0 < i \<Longrightarrow> parent i < i"
  by (simp add: parent_def)

lemma parent_eq_iff: "0 < c \<Longrightarrow> parent c = k \<longleftrightarrow> c = 2 * k + 1 \<or> c = 2 * k + 2"
  unfolding parent_def by presburger

lemma parent_children [simp]:
  "parent (Suc (2 * k)) = k" "parent (Suc (Suc (2 * k))) = k" "parent (Suc (k * 2)) = k" "parent (Suc (Suc (k * 2))) = k"
  unfolding parent_def by presburger+

definition exchange :: "'a list \<Rightarrow> nat \<Rightarrow> nat \<Rightarrow> 'a list" where
  "exchange xs i j = xs[i := xs ! j, j := xs ! i]"

lemma length_exchange [simp]: "length (exchange xs i j) = length xs"
  by (simp add: exchange_def)

lemma exchange_nth: "i < length xs \<Longrightarrow> j < length xs \<Longrightarrow> k < length xs \<Longrightarrow>
    exchange xs i j ! k = (if k = j then xs ! i else if k = i then xs ! j else xs ! k)"
  by (simp add: exchange_def nth_list_update)

lemma mset_exchange [simp]: "i < length xs \<Longrightarrow> j < length xs \<Longrightarrow> mset (exchange xs i j) = mset xs"
  by (simp add: exchange_def mset_swap)

lemma map_exchange: "i < length xs \<Longrightarrow> j < length xs \<Longrightarrow> List.map f (exchange xs i j) = exchange (List.map f xs) i j"
  by (simp add: exchange_def map_update)

section \<open>The order\<close>

definition heap_order :: "'k::linorder list \<Rightarrow> bool" where
  "heap_order ks \<longleftrightarrow> (\<forall>i < length ks. 0 < i \<longrightarrow> ks ! parent i \<le> ks ! i)"

text \<open>The order holds but between index \<open>k\<close> and its parent, or between \<open>k\<close> and its children; in both
  cases the parent of \<open>k\<close> is not above the children of \<open>k\<close>.\<close>

definition skips :: "'k::linorder list \<Rightarrow> nat \<Rightarrow> bool" where
  "skips ks k \<longleftrightarrow> (\<forall>c < length ks. 0 < c \<longrightarrow> 0 < k \<longrightarrow> parent c = k \<longrightarrow> ks ! parent k \<le> ks ! c)"

definition order_but_up :: "'k::linorder list \<Rightarrow> nat \<Rightarrow> bool" where
  "order_but_up ks k \<longleftrightarrow> (\<forall>i < length ks. 0 < i \<longrightarrow> i \<noteq> k \<longrightarrow> ks ! parent i \<le> ks ! i) \<and> skips ks k"

definition order_but_down :: "'k::linorder list \<Rightarrow> nat \<Rightarrow> bool" where
  "order_but_down ks k \<longleftrightarrow> (\<forall>i < length ks. 0 < i \<longrightarrow> parent i \<noteq> k \<longrightarrow> ks ! parent i \<le> ks ! i) \<and> skips ks k"

definition order_but :: "'k::linorder list \<Rightarrow> nat \<Rightarrow> bool" where
  "order_but ks k \<longleftrightarrow> (\<forall>i < length ks. 0 < i \<longrightarrow> i \<noteq> k \<longrightarrow> parent i \<noteq> k \<longrightarrow> ks ! parent i \<le> ks ! i) \<and> skips ks k"

lemma heap_orderD: "heap_order ks \<Longrightarrow> i < length ks \<Longrightarrow> 0 < i \<Longrightarrow> ks ! parent i \<le> ks ! i"
  by (simp add: heap_order_def)

lemma heap_order_min: "heap_order ks \<Longrightarrow> i < length ks \<Longrightarrow> ks ! 0 \<le> ks ! i"
proof (induction i rule: less_induct)
  case (less i)
  show ?case
  proof (cases "i = 0")
    case False
    then have "parent i < i" by simp
    with less.IH [of "parent i"] less.prems have "ks ! 0 \<le> ks ! parent i" by simp
    also have "\<dots> \<le> ks ! i" using heap_orderD less.prems False by blast
    finally show ?thesis .
  qed simp
qed

lemma up_done: "order_but_up ks k \<Longrightarrow> k = 0 \<or> ks ! parent k \<le> ks ! k \<Longrightarrow> heap_order ks"
  unfolding order_but_up_def heap_order_def by (metis less_irrefl)

lemma up_exchange:
  assumes "order_but_up ks k" "k < length ks" "0 < k" "ks ! k < ks ! parent k"
  shows "order_but_up (exchange ks k (parent k)) (parent k)"
proof -
  let ?p = "parent k" let ?ks = "exchange ks k ?p"
  have p: "?p < k" "?p < length ks" using assms(2,3) by (simp_all add: less_trans [OF parent_less])
  note nth = exchange_nth [OF assms(2) p(2)]
  have ord: "i < length ks \<Longrightarrow> 0 < i \<Longrightarrow> i \<noteq> k \<Longrightarrow> ks ! parent i \<le> ks ! i" for i
    using assms(1) by (simp add: order_but_up_def)
  have skip: "c < length ks \<Longrightarrow> 0 < c \<Longrightarrow> parent c = k \<Longrightarrow> ks ! ?p \<le> ks ! c" for c
    using assms(1,3) by (simp add: order_but_up_def skips_def)
  have "?ks ! parent i \<le> ?ks ! i" if i: "i < length ks" "0 < i" "i \<noteq> ?p" for i
  proof -
    have pi: "parent i < length ks" using i by (simp add: less_trans [OF parent_less])
    consider "i = k" | "i \<noteq> k" "parent i = k" | "i \<noteq> k" "parent i = ?p" | "i \<noteq> k" "parent i \<noteq> k" "parent i \<noteq> ?p" by blast
    then show ?thesis
    proof cases
      case 1 then show ?thesis using assms(4) p by (simp add: nth assms(2))
    next
      case 2 then show ?thesis using skip [of i] i p by (simp add: nth pi assms(2))
    next
      case 3 then show ?thesis using ord [of i] i assms(4) p by (simp add: nth pi)
    next
      case 4 then show ?thesis using ord [of i] i by (simp add: nth pi)
    qed
  qed
  moreover have "?ks ! parent ?p \<le> ?ks ! c" if c: "c < length ks" "0 < c" "0 < ?p" "parent c = ?p" for c
  proof -
    have pp: "parent ?p < ?p" using c by simp
    have pp2: "parent ?p < length ks" "parent ?p \<noteq> k" "parent ?p \<noteq> ?p" using pp p by auto
    have up: "ks ! parent ?p \<le> ks ! ?p" using ord [of ?p] p c(3) by simp
    show ?thesis
    proof (cases "c = k")
      case True then show ?thesis using up p pp2 by (simp add: nth assms(2))
    next
      case False
      then have "ks ! ?p \<le> ks ! c" using ord [of c] c by simp
      with False up c pp2 show ?thesis using parent_less [OF c(2)] by (simp add: nth)
    qed
  qed
  ultimately show ?thesis by (simp add: order_but_up_def skips_def)
qed

lemma down_done: "order_but_down ks k \<Longrightarrow> (\<And>c. c < length ks \<Longrightarrow> 0 < c \<Longrightarrow> parent c = k \<Longrightarrow> ks ! k \<le> ks ! c) \<Longrightarrow> heap_order ks"
  unfolding order_but_down_def heap_order_def by metis

lemma down_exchange:
  assumes "order_but_down ks k" "m < length ks" "0 < m" "parent m = k" "ks ! m \<le> ks ! k"
    and least: "\<And>c. c < length ks \<Longrightarrow> 0 < c \<Longrightarrow> parent c = k \<Longrightarrow> ks ! m \<le> ks ! c"
  shows "order_but_down (exchange ks k m) m"
proof -
  let ?ks = "exchange ks k m"
  have k: "k < m" "k < length ks" using assms(2-4) parent_less [of m] by simp_all
  note nth = exchange_nth [OF k(2) assms(2)]
  have ord: "i < length ks \<Longrightarrow> 0 < i \<Longrightarrow> parent i \<noteq> k \<Longrightarrow> ks ! parent i \<le> ks ! i" for i
    using assms(1) by (simp add: order_but_down_def)
  have "?ks ! parent i \<le> ?ks ! i" if i: "i < length ks" "0 < i" "parent i \<noteq> m" for i
  proof -
    have pi: "parent i < length ks" using i by (simp add: less_trans [OF parent_less])
    consider "i = m" | "i \<noteq> m" "parent i = k" | "i = k" "i \<noteq> m" | "i \<noteq> m" "i \<noteq> k" "parent i \<noteq> k" by blast
    then show ?thesis
    proof cases
      case 1 then show ?thesis using assms(4,5) k by (simp add: nth assms(2))
    next
      case 2
      then have "i \<noteq> k" using parent_less [OF i(2)] by auto
      with 2 show ?thesis using least [of i] i k by (simp add: nth)
    next
      case 3
      then have "parent i < k" using parent_less [OF i(2)] by simp
      moreover have "ks ! parent k \<le> ks ! m"
        using assms(1-4) i 3 by (simp add: order_but_down_def skips_def)
      ultimately show ?thesis using 3 k by (simp add: nth pi)
    next
      case 4 then show ?thesis using ord [of i] i by (simp add: nth pi)
    qed
  qed
  moreover have "?ks ! parent m \<le> ?ks ! c" if c: "c < length ks" "0 < c" "parent c = m" for c
  proof -
    have "m < c" using parent_less [OF c(2)] c(3) by simp
    moreover have "ks ! m \<le> ks ! c" using ord [of c] c k by simp
    ultimately show ?thesis using assms(2,4) c k by (simp add: nth)
  qed
  ultimately show ?thesis by (simp add: order_but_down_def skips_def)
qed

lemma heap_order_snoc: "heap_order ks \<Longrightarrow> order_but_up (ks @ [x]) (length ks)"
proof -
  assume h: "heap_order ks"
  have nc: "0 < c \<Longrightarrow> c < Suc (length ks) \<Longrightarrow> parent c \<noteq> length ks" for c
    using parent_less [of c] by linarith
  have "(ks @ [x]) ! parent i \<le> (ks @ [x]) ! i" if "i < length ks" "0 < i" for i
    using heap_orderD [OF h that] that less_trans [OF parent_less [OF that(2)] that(1)] by (simp add: nth_append)
  then show ?thesis using nc by (auto simp: order_but_up_def skips_def less_Suc_eq)
qed

lemma heap_order_butlast: "heap_order ks \<Longrightarrow> heap_order (butlast ks)"
proof -
  assume h: "heap_order ks"
  have "butlast ks ! parent i \<le> butlast ks ! i" if i: "i < length ks - 1" "0 < i" for i
  proof -
    have "parent i < length ks - 1" using parent_less [OF i(2)] i(1) by simp
    with heap_orderD [OF h, of i] i show ?thesis by (simp add: nth_butlast)
  qed
  then show ?thesis by (simp add: heap_order_def)
qed

text \<open>The last element put in the place of the \<open>k\<close>-th.\<close>

lemma heap_order_replace:
  assumes "heap_order ks" "k < length ks - 1"
  shows "order_but (butlast (exchange ks k (length ks - 1))) k"
proof -
  let ?n = "length ks - 1" let ?ks = "butlast (exchange ks k ?n)"
  have n: "?n < length ks" "k < length ks" using assms(2) by simp_all
  have nth: "i < ?n \<Longrightarrow> ?ks ! i = (if i = k then ks ! ?n else ks ! i)" for i
    using n by (simp add: nth_butlast exchange_nth)
  have len: "length ?ks = ?n" by simp
  have pl: "0 < i \<Longrightarrow> i < ?n \<Longrightarrow> parent i < ?n" for i using parent_less [of i] by linarith
  have "?ks ! parent i \<le> ?ks ! i" if "i < ?n" "0 < i" "i \<noteq> k" "parent i \<noteq> k" for i
    using heap_orderD [OF assms(1), of i] that pl [of i] by (simp add: nth del: One_nat_def)
  moreover have "?ks ! parent k \<le> ?ks ! c" if c: "c < ?n" "0 < c" "0 < k" "parent c = k" for c
  proof -
    have "ks ! parent k \<le> ks ! k" using heap_orderD [OF assms(1), of k] n c by simp
    also have "\<dots> \<le> ks ! c" using heap_orderD [OF assms(1), of c] c by simp
    finally have "ks ! parent k \<le> ks ! c" .
    moreover have "parent k \<noteq> k" "c \<noteq> k" using less_imp_neq [OF parent_less [OF c(3)]] c parent_less [of c] by auto
    ultimately show ?thesis using c assms(2) pl [of k] by (simp add: nth del: One_nat_def)
  qed
  ultimately show ?thesis unfolding order_but_def skips_def len by blast
qed

lemma order_but_up: "order_but ks k \<Longrightarrow> k < length ks \<Longrightarrow> 0 < k \<Longrightarrow> ks ! k < ks ! parent k \<Longrightarrow> order_but_up ks k"
  unfolding order_but_def order_but_up_def skips_def by (metis dual_order.strict_implies_order order.trans)

lemma order_but_down: "order_but ks k \<Longrightarrow> k = 0 \<or> ks ! parent k \<le> ks ! k \<Longrightarrow> order_but_down ks k"
  unfolding order_but_def order_but_down_def by (metis less_irrefl)

end
