(* ===== verification/AsioTimerQueue.thy ===== *)
theory AsioTimerQueue
  imports ArrayHeap
begin

text \<open>
  \<open>detail/timer_queue.hpp\<close> of the Asio library that the repository contains and its timer
  programs run on: a heap of the active timers ordered by expiry, in which every timer
  knows its index, and a doubly linked list of the same timers. Times are of any linear
  order (\<open>Time_Traits::less_than\<close> is its \<open><\<close>); timers are identified by their addresses.
\<close>

section \<open>State\<close>

text \<open>\<open>heap_index = None\<close> is the largest \<open>size_t\<close>, which no index reaches.\<close>

datatype wait_result = Pending | Success | OperationAborted

record wait_op =
  op_id :: nat
  cancellation_key :: nat
  op_ec :: wait_result

record per_timer_data =
  op_queue :: "wait_op list"
  heap_index :: "nat option"
  next_timer :: "nat option"
  prev_timer :: "nat option"

record 't timer_queue =
  timer_heap :: "('t \<times> nat) list"
  per_timer :: "nat \<Rightarrow> per_timer_data"
  timers :: "nat option"

definition new_timer_queue :: "'t timer_queue" where
  "new_timer_queue = \<lparr>timer_heap = [], per_timer = (\<lambda>_. \<lparr>op_queue = [], heap_index = None, next_timer = None,
     prev_timer = None\<rparr>), timers = None\<rparr>"

definition upd_timer :: "nat \<Rightarrow> (per_timer_data \<Rightarrow> per_timer_data) \<Rightarrow> 't timer_queue \<Rightarrow> 't timer_queue" where
  "upd_timer t f q = q\<lparr>per_timer := (per_timer q)(t := f (per_timer q t))\<rparr>"

abbreviation key_at :: "'t timer_queue \<Rightarrow> nat \<Rightarrow> 't" where
  "key_at q i \<equiv> fst (timer_heap q ! i)"

section \<open>The heap\<close>

definition swap_heap :: "nat \<Rightarrow> nat \<Rightarrow> 't timer_queue \<Rightarrow> 't timer_queue" where
  "swap_heap index1 index2 q =
     (let h = exchange (timer_heap q) index1 index2;
          q1 = upd_timer (snd (h ! index1)) (\<lambda>d. d\<lparr>heap_index := Some index1\<rparr>) (q\<lparr>timer_heap := h\<rparr>)
      in upd_timer (snd (h ! index2)) (\<lambda>d. d\<lparr>heap_index := Some index2\<rparr>) q1)"

lemma swap_heap_heap [simp]: "timer_heap (swap_heap i j q) = exchange (timer_heap q) i j"
  by (simp add: swap_heap_def upd_timer_def Let_def)

function up_heap :: "nat \<Rightarrow> ('t::linorder) timer_queue \<Rightarrow> 't timer_queue" where
  "up_heap index q = (if index > 0 then
       (if \<not> key_at q index < key_at q ((index - 1) div 2) then q
        else up_heap ((index - 1) div 2) (swap_heap index ((index - 1) div 2) q))
     else q)"
  by auto
termination by (relation "measure fst") auto

function down_heap :: "nat \<Rightarrow> ('t::linorder) timer_queue \<Rightarrow> 't timer_queue" where
  "down_heap index q = (let child = index * 2 + 1; n = length (timer_heap q) in
     if child < n then
       (let min_child = (if child + 1 = n \<or> key_at q child < key_at q (child + 1) then child else child + 1) in
        if key_at q index < key_at q min_child then q else down_heap min_child (swap_heap index min_child q))
     else q)"
  by auto
termination by (relation "measure (\<lambda>(index, q). length (timer_heap q) - index)") auto

declare up_heap.simps [simp del] down_heap.simps [simp del]

definition remove_from_heap :: "nat \<Rightarrow> ('t::linorder) timer_queue \<Rightarrow> 't timer_queue" where
  "remove_from_heap t q = (case heap_index (per_timer q t) of
       None \<Rightarrow> q
     | Some index \<Rightarrow>
         (let n = length (timer_heap q) in
          if n \<noteq> 0 \<and> index < n then
            (if index = n - 1 then
               (upd_timer t (\<lambda>d. d\<lparr>heap_index := None\<rparr>) q)\<lparr>timer_heap := butlast (timer_heap q)\<rparr>
             else
               (let q1 = upd_timer t (\<lambda>d. d\<lparr>heap_index := None\<rparr>) (swap_heap index (n - 1) q);
                    q2 = q1\<lparr>timer_heap := butlast (timer_heap q1)\<rparr>
                in if index > 0 \<and> key_at q2 index < key_at q2 ((index - 1) div 2) then up_heap index q2
                   else down_heap index q2))
          else q))"

section \<open>The list of active timers\<close>

definition link_front :: "nat \<Rightarrow> 't timer_queue \<Rightarrow> 't timer_queue" where
  "link_front t q =
     (let q1 = upd_timer t (\<lambda>d. d\<lparr>next_timer := timers q, prev_timer := None\<rparr>) q;
          q2 = (case timers q of None \<Rightarrow> q1 | Some h \<Rightarrow> upd_timer h (\<lambda>d. d\<lparr>prev_timer := Some t\<rparr>) q1)
      in q2\<lparr>timers := Some t\<rparr>)"

definition unlink :: "nat \<Rightarrow> 't timer_queue \<Rightarrow> 't timer_queue" where
  "unlink t q =
     (let q1 = (if timers q = Some t then q\<lparr>timers := next_timer (per_timer q t)\<rparr> else q);
          q2 = (case prev_timer (per_timer q1 t) of None \<Rightarrow> q1
                | Some p \<Rightarrow> upd_timer p (\<lambda>d. d\<lparr>next_timer := next_timer (per_timer q1 t)\<rparr>) q1);
          q3 = (case next_timer (per_timer q2 t) of None \<Rightarrow> q2
                | Some n \<Rightarrow> upd_timer n (\<lambda>d. d\<lparr>prev_timer := prev_timer (per_timer q2 t)\<rparr>) q2)
      in upd_timer t (\<lambda>d. d\<lparr>next_timer := None, prev_timer := None\<rparr>) q3)"

definition remove_timer :: "nat \<Rightarrow> ('t::linorder) timer_queue \<Rightarrow> 't timer_queue" where
  "remove_timer t q = unlink t (remove_from_heap t q)"

text \<open>The test for an active timer.\<close>

definition is_linked :: "nat \<Rightarrow> 't timer_queue \<Rightarrow> bool" where
  "is_linked t q \<longleftrightarrow> prev_timer (per_timer q t) \<noteq> None \<or> timers q = Some t"

section \<open>The operations\<close>

definition enqueue_timer :: "'t::linorder \<Rightarrow> nat \<Rightarrow> wait_op \<Rightarrow> 't timer_queue \<Rightarrow> bool \<times> 't timer_queue" where
  "enqueue_timer time t wop q =
     (let q1 = (if \<not> is_linked t q then
                  (let n = length (timer_heap q);
                       q0 = (upd_timer t (\<lambda>d. d\<lparr>heap_index := Some n\<rparr>) q)\<lparr>timer_heap := timer_heap q @ [(time, t)]\<rparr>
                   in link_front t (up_heap n q0))
                else q);
          q2 = upd_timer t (\<lambda>d. d\<lparr>op_queue := op_queue d @ [wop]\<rparr>) q1
      in (heap_index (per_timer q2 t) = Some 0 \<and> hd (op_queue (per_timer q2 t)) = wop, q2))"

definition queue_is_empty :: "'t timer_queue \<Rightarrow> bool" where
  "queue_is_empty q \<longleftrightarrow> timers q = None"

text \<open>The inner loop of \<open>get_ready_timers\<close> and the whole: operations are appended to \<open>ops\<close>. The outer
  loop ends only if \<open>remove_timer\<close> shrinks the heap, so it is a partial function.\<close>

fun take_ops :: "wait_result \<Rightarrow> wait_op list \<Rightarrow> wait_op list" where
  "take_ops r [] = []"
| "take_ops r (w # ws) = w\<lparr>op_ec := r\<rparr> # take_ops r ws"

partial_function (option) get_ready_timers ::
    "'t::linorder \<Rightarrow> wait_op list \<Rightarrow> 't timer_queue \<Rightarrow> (wait_op list \<times> 't timer_queue) option" where
  "get_ready_timers now ops q =
     (if timer_heap q \<noteq> [] \<and> \<not> now < key_at q 0 then
        (let t = snd (timer_heap q ! 0); q1 = upd_timer t (\<lambda>d. d\<lparr>op_queue := []\<rparr>) q
         in get_ready_timers now (ops @ take_ops Success (op_queue (per_timer q t))) (remove_timer t q1))
      else Some (ops, q))"

text \<open>Shutdown: the operations are moved as they are.\<close>

partial_function (option) get_all_loop :: "wait_op list \<Rightarrow> 't timer_queue \<Rightarrow> (wait_op list \<times> 't timer_queue) option" where
  "get_all_loop ops q = (case timers q of
       None \<Rightarrow> Some (ops, q)
     | Some t \<Rightarrow> get_all_loop (ops @ op_queue (per_timer q t))
         (upd_timer t (\<lambda>d. d\<lparr>op_queue := [], next_timer := None, prev_timer := None\<rparr>)
           (q\<lparr>timers := next_timer (per_timer q t)\<rparr>)))"

definition get_all_timers :: "'t timer_queue \<Rightarrow> (wait_op list \<times> 't timer_queue) option" where
  "get_all_timers q = map_option (\<lambda>(ops, q1). (ops, q1\<lparr>timer_heap := []\<rparr>)) (get_all_loop [] q)"

text \<open>At most \<open>max_cancelled\<close> operations: those cancelled, and the rest of the queue.\<close>

fun cancel_ops :: "nat \<Rightarrow> wait_op list \<Rightarrow> wait_op list \<times> wait_op list" where
  "cancel_ops k [] = ([], [])"
| "cancel_ops 0 ws = ([], ws)"
| "cancel_ops (Suc k) (w # ws) = (case cancel_ops k ws of (out, rest) \<Rightarrow> (w\<lparr>op_ec := OperationAborted\<rparr> # out, rest))"

definition cancel_timer :: "nat \<Rightarrow> nat \<Rightarrow> ('t::linorder) timer_queue \<Rightarrow> nat \<times> wait_op list \<times> 't timer_queue" where
  "cancel_timer t max_cancelled q =
     (if is_linked t q then
        (case cancel_ops max_cancelled (op_queue (per_timer q t)) of (out, rest) \<Rightarrow>
          (let q1 = upd_timer t (\<lambda>d. d\<lparr>op_queue := rest\<rparr>) q
           in (length out, out, if rest = [] then remove_timer t q1 else q1)))
      else (0, [], q))"

fun split_by_key :: "nat \<Rightarrow> wait_op list \<Rightarrow> wait_op list \<times> wait_op list" where
  "split_by_key key [] = ([], [])"
| "split_by_key key (w # ws) = (case split_by_key key ws of (out, others) \<Rightarrow>
     if cancellation_key w = key then (w\<lparr>op_ec := OperationAborted\<rparr> # out, others) else (out, w # others))"

definition cancel_timer_by_key :: "nat \<Rightarrow> nat \<Rightarrow> ('t::linorder) timer_queue \<Rightarrow> wait_op list \<times> 't timer_queue" where
  "cancel_timer_by_key t key q =
     (if is_linked t q then
        (case split_by_key key (op_queue (per_timer q t)) of (out, others) \<Rightarrow>
          (let q1 = upd_timer t (\<lambda>d. d\<lparr>op_queue := others\<rparr>) q
           in (out, if others = [] then remove_timer t q1 else q1)))
      else ([], q))"

definition move_timer :: "nat \<Rightarrow> nat \<Rightarrow> 't timer_queue \<Rightarrow> 't timer_queue" where
  "move_timer target source q =
     (let s = per_timer q source;
          q1 = upd_timer target (\<lambda>d. d\<lparr>op_queue := op_queue d @ op_queue s, heap_index := heap_index s\<rparr>) q;
          q2 = upd_timer source (\<lambda>d. d\<lparr>op_queue := [], heap_index := None\<rparr>) q1;
          q3 = (case heap_index s of None \<Rightarrow> q2
                | Some i \<Rightarrow> if i < length (timer_heap q2)
                    then q2\<lparr>timer_heap := (timer_heap q2)[i := (key_at q2 i, target)]\<rparr> else q2);
          q4 = (if timers q3 = Some source then q3\<lparr>timers := Some target\<rparr> else q3);
          q5 = (case prev_timer s of None \<Rightarrow> q4 | Some p \<Rightarrow> upd_timer p (\<lambda>d. d\<lparr>next_timer := Some target\<rparr>) q4);
          q6 = (case next_timer s of None \<Rightarrow> q5 | Some n \<Rightarrow> upd_timer n (\<lambda>d. d\<lparr>prev_timer := Some target\<rparr>) q5);
          q7 = upd_timer target (\<lambda>d. d\<lparr>next_timer := next_timer s, prev_timer := prev_timer s\<rparr>) q6
      in upd_timer source (\<lambda>d. d\<lparr>next_timer := None, prev_timer := None\<rparr>) q7)"

text \<open>\<open>to_msec\<close> and \<open>wait_duration_msec\<close>; durations in ticks, \<open>per_msec\<close> of them in a millisecond.\<close>

definition to_msec :: "int \<Rightarrow> int \<Rightarrow> int \<Rightarrow> int" where
  "to_msec per_msec d max_duration =
     (if d \<le> 0 then 0
      else (let msec = d div per_msec in if msec = 0 then 1 else if msec > max_duration then max_duration else msec))"

definition wait_duration_msec :: "int \<Rightarrow> int \<Rightarrow> int \<Rightarrow> int timer_queue \<Rightarrow> int" where
  "wait_duration_msec per_msec now max_duration q =
     (if timer_heap q = [] then max_duration else to_msec per_msec (key_at q 0 - now) max_duration)"

section \<open>What the heap loops keep\<close>

lemma upd_timer_simps [simp]:
  "per_timer (upd_timer t f q) u = (if u = t then f (per_timer q t) else per_timer q u)"
  "timer_heap (upd_timer t f q) = timer_heap q" "timers (upd_timer t f q) = timers q"
  by (simp_all add: upd_timer_def)

definition heap_timers :: "'t timer_queue \<Rightarrow> nat set" where
  "heap_timers q = snd ` set (timer_heap q)"

definition keys :: "'t timer_queue \<Rightarrow> 't list" where
  "keys q = List.map fst (timer_heap q)"

definition index_ok :: "'t timer_queue \<Rightarrow> bool" where
  "index_ok q \<longleftrightarrow> (\<forall>i < length (timer_heap q). heap_index (per_timer q (snd (timer_heap q ! i))) = Some i)"

text \<open>Everything but the heap and the indices of the timers in it is the same.\<close>

definition same_but_heap :: "'t timer_queue \<Rightarrow> 't timer_queue \<Rightarrow> bool" where
  "same_but_heap q q' \<longleftrightarrow> timers q' = timers q \<and>
     (\<forall>u. op_queue (per_timer q' u) = op_queue (per_timer q u) \<and> next_timer (per_timer q' u) = next_timer (per_timer q u) \<and>
        prev_timer (per_timer q' u) = prev_timer (per_timer q u) \<and>
        (u \<notin> heap_timers q \<longrightarrow> heap_index (per_timer q' u) = heap_index (per_timer q u)))"

lemma same_but_heap_refl [simp]: "same_but_heap q q"
  by (simp add: same_but_heap_def)

lemma same_but_heap_trans:
  "same_but_heap q1 q2 \<Longrightarrow> heap_timers q2 = heap_timers q1 \<Longrightarrow> same_but_heap q2 q3 \<Longrightarrow> same_but_heap q1 q3"
  by (simp add: same_but_heap_def)

lemma heap_timers_nth: "i < length (timer_heap q) \<Longrightarrow> snd (timer_heap q ! i) \<in> heap_timers q"
  by (simp add: heap_timers_def)

lemma index_ok_inj:
  "index_ok q \<Longrightarrow> i < length (timer_heap q) \<Longrightarrow> j < length (timer_heap q) \<Longrightarrow>
     snd (timer_heap q ! i) = snd (timer_heap q ! j) \<Longrightarrow> i = j"
  unfolding index_ok_def by (metis option.inject)

lemma index_ok_distinct: "index_ok q \<Longrightarrow> distinct (List.map snd (timer_heap q))"
  by (auto simp: distinct_conv_nth dest: index_ok_inj)

lemma keys_nth: "i < length (timer_heap q) \<Longrightarrow> keys q ! i = key_at q i"
  by (simp add: keys_def)

lemma length_keys [simp]: "length (keys q) = length (timer_heap q)"
  by (simp add: keys_def)

lemma heap_timers_mset: "mset (timer_heap q') = mset (timer_heap q) \<Longrightarrow> heap_timers q' = heap_timers q"
  unfolding heap_timers_def by (metis set_mset_mset)

lemma swap_heap_ok:
  assumes "index_ok q" "i < length (timer_heap q)" "j < length (timer_heap q)"
  shows "index_ok (swap_heap i j q)" and "same_but_heap q (swap_heap i j q)"
proof -
  let ?h = "exchange (timer_heap q) i j"
  have nth: "k < length ?h \<Longrightarrow> ?h ! k = (if k = j then timer_heap q ! i else if k = i then timer_heap q ! j else timer_heap q ! k)" for k
    using assms by (simp add: exchange_nth)
  have idx: "heap_index (per_timer (swap_heap i j q) u) =
      (if u = snd (timer_heap q ! i) then Some j else if u = snd (timer_heap q ! j) then Some i else heap_index (per_timer q u))" for u
    using assms by (simp add: swap_heap_def Let_def exchange_nth)
  show "index_ok (swap_heap i j q)"
    unfolding index_ok_def
  proof (intro allI impI)
    fix k assume "k < length (timer_heap (swap_heap i j q))"
    then have k: "k < length (timer_heap q)" by simp
    have inj: "snd (timer_heap q ! k) = snd (timer_heap q ! l) \<longleftrightarrow> k = l" if "l < length (timer_heap q)" for l
      using index_ok_inj [OF assms(1) k that] by auto
    have inj2: "snd (timer_heap q ! i) = snd (timer_heap q ! j) \<longleftrightarrow> i = j"
      using index_ok_inj [OF assms(1) assms(2,3)] by auto
    show "heap_index (per_timer (swap_heap i j q) (snd (timer_heap (swap_heap i j q) ! k))) = Some k"
      using assms(1) k inj [OF assms(2)] inj [OF assms(3)] inj2 by (auto simp: nth idx index_ok_def)
  qed
  have "u \<noteq> snd (timer_heap q ! i) \<and> u \<noteq> snd (timer_heap q ! j)" if "u \<notin> heap_timers q" for u
    using that heap_timers_nth [OF assms(2)] heap_timers_nth [OF assms(3)] by blast
  then show "same_but_heap q (swap_heap i j q)"
    by (auto simp: same_but_heap_def idx) (simp_all add: swap_heap_def Let_def)
qed

lemma keys_swap: "i < length (timer_heap q) \<Longrightarrow> j < length (timer_heap q) \<Longrightarrow> keys (swap_heap i j q) = exchange (keys q) i j"
  by (simp add: keys_def map_exchange)

text \<open>The outcome of either loop.\<close>

definition heaped :: "('t::linorder) timer_queue \<Rightarrow> 't timer_queue \<Rightarrow> bool" where
  "heaped q q' \<longleftrightarrow> index_ok q' \<and> heap_order (keys q') \<and> mset (timer_heap q') = mset (timer_heap q) \<and> same_but_heap q q'"

lemma heaped_step:
  assumes "index_ok q" "i < length (timer_heap q)" "j < length (timer_heap q)" "heaped (swap_heap i j q) q'"
  shows "heaped q q'"
proof -
  have m: "mset (timer_heap (swap_heap i j q)) = mset (timer_heap q)" using assms by simp
  have "same_but_heap q q'"
    using same_but_heap_trans [OF swap_heap_ok(2) [OF assms(1-3)] heap_timers_mset [OF m]] assms(4)
    by (simp add: heaped_def)
  with assms(4) m show ?thesis by (simp add: heaped_def)
qed

lemma up_heap_heaped:
  "index_ok q \<Longrightarrow> k < length (timer_heap q) \<Longrightarrow> order_but_up (keys q) k \<Longrightarrow> heaped q (up_heap k q)"
proof (induction k q rule: up_heap.induct)
  case (1 k q)
  let ?p = "(k - 1) div 2"
  show ?case
  proof (cases "0 < k \<and> key_at q k < key_at q ?p")
    case False
    have "up_heap k q = q" using False by (subst up_heap.simps) auto
    moreover have "?p < length (timer_heap q)" using "1.prems"(2) by linarith
    then have "k = 0 \<or> keys q ! parent k \<le> keys q ! k"
      using False "1.prems"(2) by (auto simp: parent_def keys_nth)
    then have "heap_order (keys q)" using up_done [OF "1.prems"(3)] by blast
    ultimately show ?thesis using "1.prems"(1) by (simp add: heaped_def)
  next
    case True
    have p: "?p < length (timer_heap q)" using "1.prems"(2) by linarith
    have run: "up_heap k q = up_heap ?p (swap_heap k ?p q)" using True by (subst up_heap.simps) simp
    have "order_but_up (keys (swap_heap k ?p q)) ?p"
      unfolding keys_swap [OF "1.prems"(2) p]
      by (rule up_exchange [OF "1.prems"(3), unfolded parent_def]) (use True "1.prems"(2) p in \<open>simp_all only: keys_nth length_keys\<close>)
    moreover have "?p < length (timer_heap (swap_heap k ?p q))" using p by (simp only: swap_heap_heap length_exchange)
    ultimately have "heaped (swap_heap k ?p q) (up_heap ?p (swap_heap k ?p q))"
      using "1.IH" swap_heap_ok(1) [OF "1.prems"(1,2) p] True by blast
    then show ?thesis unfolding run by (rule heaped_step [OF "1.prems"(1,2) p])
  qed
qed

lemma down_heap_heaped:
  "index_ok q \<Longrightarrow> k < length (timer_heap q) \<Longrightarrow> order_but_down (keys q) k \<Longrightarrow> heaped q (down_heap k q)"
proof (induction k q rule: down_heap.induct)
  case (1 k q)
  let ?n = "length (timer_heap q)" let ?c = "k * 2 + 1"
  let ?m = "if ?c + 1 = ?n \<or> key_at q ?c < key_at q (?c + 1) then ?c else ?c + 1"
  have child: "c = ?c \<or> c = ?c + 1" if "0 < c" "parent c = k" for c
    using that parent_eq_iff [of c k] by auto
  show ?case
  proof (cases "?c < ?n")
    case False
    then have "down_heap k q = q" by (subst down_heap.simps) (simp add: Let_def)
    moreover have "heap_order (keys q)"
    proof (rule down_done [OF "1.prems"(3)])
      fix c assume "c < length (keys q)" "0 < c" "parent c = k"
      with child [of c] False have False by (auto simp: keys_def)
      then show "keys q ! k \<le> keys q ! c" ..
    qed
    ultimately show ?thesis using "1.prems"(1) by (simp add: heaped_def)
  next
    case True
    have m: "?m < ?n" "0 < ?m" "parent ?m = k" using True by auto
    have least: "keys q ! ?m \<le> keys q ! c" if "c < length (keys q)" "0 < c" "parent c = k" for c
      using child [OF that(2,3)] that(1) True by (auto simp: keys_nth not_less)
    show ?thesis
    proof (cases "key_at q k < key_at q ?m")
      case True
      then have "down_heap k q = q" using \<open>?c < ?n\<close> by (subst down_heap.simps) (simp only: Let_def if_True)
      moreover have "heap_order (keys q)"
      proof (rule down_done [OF "1.prems"(3)])
        fix c assume c: "c < length (keys q)" "0 < c" "parent c = k"
        have "keys q ! k < keys q ! ?m" using True m(1) "1.prems"(2) by (simp only: keys_nth)
        with least [OF c] show "keys q ! k \<le> keys q ! c" by simp
      qed
      ultimately show ?thesis using "1.prems"(1) by (simp add: heaped_def)
    next
      case False
      have run: "down_heap k q = down_heap ?m (swap_heap k ?m q)"
        using \<open>?c < ?n\<close> False by (subst down_heap.simps) (simp only: Let_def if_True if_False)
      have "keys q ! ?m \<le> keys q ! k" using False m(1) "1.prems"(2) by (simp only: keys_nth not_less)
      then have "order_but_down (exchange (keys q) k ?m) ?m"
        using m least by (intro down_exchange [OF "1.prems"(3)]) (simp_all only: length_keys)
      then have "order_but_down (keys (swap_heap k ?m q)) ?m" by (simp only: keys_swap [OF "1.prems"(2) m(1)])
      moreover have "?m < length (timer_heap (swap_heap k ?m q))" using m(1) by (simp only: swap_heap_heap length_exchange)
      ultimately have "heaped (swap_heap k ?m q) (down_heap ?m (swap_heap k ?m q))"
        using "1.IH" [OF refl refl \<open>?c < ?n\<close> refl False] swap_heap_ok [OF "1.prems"(1,2) m(1)] by blast
      then show ?thesis unfolding run by (rule heaped_step [OF "1.prems"(1,2) m(1)])
    qed
  qed
qed

end
