(* ===== verification/AsioTimerRefine.thy ===== *)
theory AsioTimerRefine
  imports AsioTimerQueue
begin

text \<open>
  The timer queue of \<open>AsioTimerQueue\<close> keeps its invariant and implements a map from active
  timers to their expiry and waiting operations.
\<close>

section \<open>Removal from the heap\<close>

lemma index_ok_nth: "index_ok q \<Longrightarrow> i < length (timer_heap q) \<Longrightarrow> heap_index (per_timer q (snd (timer_heap q ! i))) = Some i"
  by (simp add: index_ok_def)

lemma heap_timers_index:
  "index_ok q \<Longrightarrow> u \<in> heap_timers q \<Longrightarrow> \<exists>i < length (timer_heap q). snd (timer_heap q ! i) = u \<and> heap_index (per_timer q u) = Some i"
  by (auto simp: heap_timers_def in_set_conv_nth) (metis index_ok_nth snd_conv)

text \<open>Popping the last entry after its timer's index is reset.\<close>

lemma pop_back_ok:
  assumes "index_ok q" "timer_heap q \<noteq> []" "t = snd (last (timer_heap q))"
  shows "index_ok ((upd_timer t (\<lambda>d. d\<lparr>heap_index := None\<rparr>) q)\<lparr>timer_heap := butlast (timer_heap q)\<rparr>)"
proof -
  let ?n = "length (timer_heap q) - 1"
  have "snd (timer_heap q ! i) \<noteq> t" if "i < ?n" for i
  proof
    assume "snd (timer_heap q ! i) = t"
    moreover have "i < length (timer_heap q)" using that by linarith
    ultimately have "i = ?n" using assms(2,3) index_ok_inj [OF assms(1), of i ?n] by (simp add: last_conv_nth)
    with that show False by simp
  qed
  then show ?thesis
    using assms(1) by (auto simp: index_ok_def nth_butlast)
qed

lemma remove_from_heap_correct:
  assumes "index_ok q" "heap_order (keys q)" "heap_index (per_timer q t) = Some k" "k < length (timer_heap q)"
    "snd (timer_heap q ! k) = t"
  shows "let q' = remove_from_heap t q in index_ok q' \<and> heap_order (keys q') \<and>
    mset (timer_heap q') = mset (timer_heap q) - {# timer_heap q ! k #} \<and> timers q' = timers q \<and>
    heap_index (per_timer q' t) = None \<and>
    (\<forall>u. op_queue (per_timer q' u) = op_queue (per_timer q u) \<and> next_timer (per_timer q' u) = next_timer (per_timer q u) \<and>
       prev_timer (per_timer q' u) = prev_timer (per_timer q u) \<and>
       (u \<notin> heap_timers q \<longrightarrow> heap_index (per_timer q' u) = heap_index (per_timer q u)))"
proof -
  let ?h = "timer_heap q" let ?n = "length ?h - 1"
  have ne: "?h \<noteq> []" using assms(4) by auto
  have t: "t \<in> heap_timers q" using heap_timers_nth [OF assms(4)] assms(5) by simp
  show ?thesis
  proof (cases "k = ?n")
    case True
    let ?q = "(upd_timer t (\<lambda>d. d\<lparr>heap_index := None\<rparr>) q)\<lparr>timer_heap := butlast ?h\<rparr>"
    have r: "remove_from_heap t q = ?q" using True assms(3) ne by (simp add: remove_from_heap_def Let_def)
    have last: "last ?h = ?h ! k" using ne True by (simp add: last_conv_nth)
    have "index_ok ?q" using pop_back_ok [OF assms(1) ne] last assms(5) by simp
    moreover have "heap_order (keys ?q)" using heap_order_butlast [OF assms(2)] by (simp add: keys_def map_butlast)
    moreover have "mset (butlast ?h) = mset ?h - {# ?h ! k #}"
      using append_butlast_last_id [OF ne] last by (metis add_diff_cancel_right' mset.simps(1,2) mset_append)
    ultimately show ?thesis using t by (auto simp: r Let_def)
  next
    case False
    then have kn: "k < ?n" "?n < length ?h" using assms(4) by simp_all
    define q0 where "q0 = swap_heap k ?n q"
    define q2 where "q2 = (upd_timer t (\<lambda>d. d\<lparr>heap_index := None\<rparr>) q0)\<lparr>timer_heap := butlast (timer_heap q0)\<rparr>"
    have h0: "timer_heap q0 = exchange ?h k ?n" by (simp add: q0_def)
    have last0: "last (timer_heap q0) = ?h ! k"
      using ne kn by (simp add: h0 last_conv_nth exchange_nth flip: length_greater_0_conv)
    have ne0: "timer_heap q0 \<noteq> []" using ne h0 by (metis length_0_conv length_exchange)
    have ok0: "index_ok q0" "same_but_heap q q0"
      unfolding q0_def using swap_heap_ok [OF assms(1,4) kn(2)] by simp_all
    have ok2: "index_ok q2" unfolding q2_def using pop_back_ok [OF ok0(1) ne0] last0 assms(5) by simp
    have m2: "mset (timer_heap q2) = mset ?h - {# ?h ! k #}"
      using append_butlast_last_id [OF ne0] last0 mset_exchange [OF assms(4) kn(2)] h0
      by (simp add: q2_def) (metis add_diff_cancel_right' mset.simps(1,2) mset_append)
    have k2: "k < length (timer_heap q2)" using kn by (simp add: q2_def h0)
    have "keys q2 = butlast (exchange (keys q) k (length (keys q) - 1))"
      using map_exchange [OF assms(4) kn(2), of fst] by (simp add: q2_def h0 keys_def map_butlast)
    with heap_order_replace [OF assms(2)] kn have ob: "order_but (keys q2) k" by simp
    have t2: "t \<notin> heap_timers q2"
    proof
      assume "t \<in> heap_timers q2"
      with heap_timers_index [OF ok2] have "heap_index (per_timer q2 t) \<noteq> None" by fastforce
      then show False by (simp add: q2_def)
    qed
    have up: "key_at q2 k < key_at q2 ((k - 1) div 2) \<longleftrightarrow> keys q2 ! k < keys q2 ! parent k"
      using k2 by (simp add: keys_nth parent_def le_less_trans [of "(k - 1) div 2" k])
    have "heaped q2 (remove_from_heap t q)"
    proof (cases "k > 0 \<and> key_at q2 k < key_at q2 ((k - 1) div 2)")
      case True
      have "remove_from_heap t q = up_heap k q2"
        using True False assms(3,4) ne by (simp add: remove_from_heap_def Let_def q2_def q0_def)
      moreover have "order_but_up (keys q2) k" using True up order_but_up [OF ob] k2 by simp
      ultimately show ?thesis using up_heap_heaped [OF ok2 k2] by simp
    next
      case notup: False
      have "remove_from_heap t q = down_heap k q2"
        using notup False assms(3,4) ne by (auto simp: remove_from_heap_def Let_def q2_def q0_def)
      moreover have "order_but_down (keys q2) k" using notup up order_but_down [OF ob] by (auto simp: not_less)
      ultimately show ?thesis using down_heap_heaped [OF ok2 k2] by simp
    qed
    then have r: "index_ok (remove_from_heap t q)" "heap_order (keys (remove_from_heap t q))"
      "mset (timer_heap (remove_from_heap t q)) = mset (timer_heap q2)" "same_but_heap q2 (remove_from_heap t q)"
      by (simp_all add: heaped_def)
    have sub: "heap_timers q2 \<subseteq> heap_timers q"
      using m2 unfolding heap_timers_def by (metis image_mono set_mset_mono diff_subset_eq_self set_mset_mset)
    have same: "timers q2 = timers q"
      "op_queue (per_timer q2 u) = op_queue (per_timer q u)" "next_timer (per_timer q2 u) = next_timer (per_timer q u)"
      "prev_timer (per_timer q2 u) = prev_timer (per_timer q u)"
      "u \<notin> heap_timers q \<Longrightarrow> heap_index (per_timer q2 u) = heap_index (per_timer q u)" for u
      using ok0(2) t by (auto simp: q2_def same_but_heap_def)
    have "heap_index (per_timer q2 t) = None" by (simp add: q2_def)
    with r m2 same sub t2 show ?thesis by (auto simp: Let_def same_but_heap_def)
  qed
qed

section \<open>The doubly linked list\<close>

fun first_or :: "nat list \<Rightarrow> nat option \<Rightarrow> nat option" where
  "first_or [] e = e"
| "first_or (x # xs) e = Some x"

definition last_or :: "nat option \<Rightarrow> nat list \<Rightarrow> nat option" where
  "last_or p xs = (if xs = [] then p else Some (last xs))"

lemma last_or_simps [simp]: "last_or p [] = p" "last_or p (xs @ [x]) = Some x"
  by (simp_all add: last_or_def)

text \<open>A segment of the list: the node before it is \<open>p\<close>, the node after it \<open>e\<close>.\<close>

fun dseg :: "(nat \<Rightarrow> per_timer_data) \<Rightarrow> nat option \<Rightarrow> nat list \<Rightarrow> nat option \<Rightarrow> bool" where
  "dseg d p [] e = True"
| "dseg d p (x # xs) e = (prev_timer (d x) = p \<and> next_timer (d x) = first_or xs e \<and> dseg d (Some x) xs e)"

definition dlist :: "'t timer_queue \<Rightarrow> nat list \<Rightarrow> bool" where
  "dlist q xs \<longleftrightarrow> timers q = first_or xs None \<and> dseg (per_timer q) None xs None \<and> distinct xs"

lemma dseg_cong:
  "(\<And>x. x \<in> set xs \<Longrightarrow> next_timer (d' x) = next_timer (d x) \<and> prev_timer (d' x) = prev_timer (d x)) \<Longrightarrow>
     dseg d' p xs e = dseg d p xs e"
  by (induction xs arbitrary: p) auto

lemma dseg_append: "dseg d p (xs @ ys) e \<longleftrightarrow> dseg d p xs (first_or ys e) \<and> dseg d (last_or p xs) ys e"
proof (induction xs arbitrary: p)
  case (Cons x xs)
  have "first_or (xs @ ys) e = first_or xs (first_or ys e)" by (cases xs) simp_all
  moreover have "last_or (Some x) xs = last_or p (x # xs)" by (simp add: last_or_def)
  ultimately show ?case using Cons [of "Some x"] by simp
qed simp

lemma dseg_middle: "dseg d p (ys @ t # zs) e \<Longrightarrow> prev_timer (d t) = last_or p ys \<and> next_timer (d t) = first_or zs e"
  by (simp add: dseg_append)

lemma dseg_new_end:
  "dseg d p (xs @ [x]) e \<Longrightarrow> x \<notin> set xs \<Longrightarrow> next_timer (d' x) = e' \<Longrightarrow> prev_timer (d' x) = prev_timer (d x) \<Longrightarrow>
     (\<And>y. y \<in> set xs \<Longrightarrow> next_timer (d' y) = next_timer (d y) \<and> prev_timer (d' y) = prev_timer (d y)) \<Longrightarrow>
     dseg d' p (xs @ [x]) e'"
  using dseg_cong [of xs d' d p "Some x"] by (auto simp: dseg_append)

lemma dseg_new_start:
  "dseg d p (x # xs) e \<Longrightarrow> x \<notin> set xs \<Longrightarrow> prev_timer (d' x) = p' \<Longrightarrow> next_timer (d' x) = next_timer (d x) \<Longrightarrow>
     (\<And>y. y \<in> set xs \<Longrightarrow> next_timer (d' y) = next_timer (d y) \<and> prev_timer (d' y) = prev_timer (d y)) \<Longrightarrow>
     dseg d' p' (x # xs) e"
  using dseg_cong [of xs d' d "Some x" e] by auto

text \<open>What the list operations leave alone.\<close>

definition same_but_links :: "nat set \<Rightarrow> 't timer_queue \<Rightarrow> 't timer_queue \<Rightarrow> bool" where
  "same_but_links T q q' \<longleftrightarrow> timer_heap q' = timer_heap q \<and>
     (\<forall>u. op_queue (per_timer q' u) = op_queue (per_timer q u) \<and> heap_index (per_timer q' u) = heap_index (per_timer q u) \<and>
        (u \<notin> T \<longrightarrow> next_timer (per_timer q' u) = next_timer (per_timer q u) \<and> prev_timer (per_timer q' u) = prev_timer (per_timer q u)))"

lemma link_front_ok:
  assumes "dlist q xs" "t \<notin> set xs"
  shows "dlist (link_front t q) (t # xs)" and "same_but_links (set (t # xs)) q (link_front t q)"
proof -
  show "dlist (link_front t q) (t # xs)"
  proof (cases xs)
    case Nil
    with assms show ?thesis by (simp add: dlist_def link_front_def Let_def)
  next
    case (Cons x xs')
    let ?q = "link_front t q"
    have "dseg (per_timer ?q) (Some t) (x # xs') None"
      by (rule dseg_new_start [of "per_timer q" None]) (use assms Cons in \<open>auto simp: dlist_def link_front_def Let_def\<close>)
    with assms Cons show ?thesis by (auto simp: dlist_def link_front_def Let_def)
  qed
  show "same_but_links (set (t # xs)) q (link_front t q)"
    using assms by (cases xs) (auto simp: same_but_links_def link_front_def Let_def dlist_def)
qed

lemma unlink_per_timer:
  assumes "dlist q (ys @ t # zs)"
  shows "per_timer (unlink t q) u =
    (if u = t then (per_timer q t)\<lparr>next_timer := None, prev_timer := None\<rparr>
     else if last_or None ys = Some u then (per_timer q u)\<lparr>next_timer := first_or zs None\<rparr>
     else if first_or zs None = Some u then (per_timer q u)\<lparr>prev_timer := last_or None ys\<rparr>
     else per_timer q u)"
    and "timers (unlink t q) = first_or (ys @ zs) None" and "timer_heap (unlink t q) = timer_heap q"
proof -
  have seg: "prev_timer (per_timer q t) = last_or None ys" "next_timer (per_timer q t) = first_or zs None"
    using assms dseg_middle [of "per_timer q" None ys t zs None] by (simp_all add: dlist_def)
  have d: "t \<notin> set ys" "t \<notin> set zs" "set ys \<inter> set zs = {}" using assms by (simp_all add: dlist_def)
  have hd: "timers q = first_or (ys @ t # zs) None" using assms by (simp add: dlist_def)
  have L: "a \<in> set ys" if "last_or None ys = Some a" for a using that by (auto simp: last_or_def split: if_splits)
  have F: "b \<in> set zs" if "first_or zs None = Some b" for b using that by (cases zs) auto
  show "per_timer (unlink t q) u =
    (if u = t then (per_timer q t)\<lparr>next_timer := None, prev_timer := None\<rparr>
     else if last_or None ys = Some u then (per_timer q u)\<lparr>next_timer := first_or zs None\<rparr>
     else if first_or zs None = Some u then (per_timer q u)\<lparr>prev_timer := last_or None ys\<rparr>
     else per_timer q u)"
    using d by (cases "last_or None ys"; cases "first_or zs None") (auto simp: unlink_def Let_def seg dest!: L F)
  show "timer_heap (unlink t q) = timer_heap q"
    by (simp add: unlink_def Let_def split: option.split)
  show "timers (unlink t q) = first_or (ys @ zs) None"
  proof (cases ys)
    case Nil
    with hd seg show ?thesis by (simp add: unlink_def Let_def split: option.split)
  next
    case (Cons y ys')
    with hd d have "timers q = Some y" "y \<noteq> t" by auto
    with Cons show ?thesis by (simp add: unlink_def Let_def split: option.split)
  qed
qed

lemma unlink_ok:
  assumes "dlist q (ys @ t # zs)"
  shows "dlist (unlink t q) (ys @ zs)" and "same_but_links (set (ys @ t # zs)) q (unlink t q)"
    and "next_timer (per_timer (unlink t q) t) = None" and "prev_timer (per_timer (unlink t q) t) = None"
proof -
  note pt = unlink_per_timer [OF assms]
  have d: "t \<notin> set ys" "t \<notin> set zs" "set ys \<inter> set zs = {}" "distinct ys" "distinct zs" using assms by (simp_all add: dlist_def)
  have s1: "dseg (per_timer q) None ys (Some t)" and s2: "dseg (per_timer q) (Some t) zs None"
    using assms by (simp_all add: dlist_def dseg_append)
  have "dseg (per_timer (unlink t q)) None ys (first_or zs None)"
  proof (cases ys rule: rev_cases)
    case (snoc ys' p)
    have "dseg (per_timer (unlink t q)) None (ys' @ [p]) (first_or zs None)"
      by (rule dseg_new_end [OF s1 [unfolded snoc]]) (use d snoc in \<open>cases zs; auto simp: pt(1)\<close>)+
    with snoc show ?thesis by simp
  qed simp
  moreover have "dseg (per_timer (unlink t q)) (last_or None ys) zs None"
  proof (cases zs)
    case (Cons n zs')
    have "dseg (per_timer (unlink t q)) (last_or None ys) (n # zs') None"
      by (rule dseg_new_start [OF s2 [unfolded Cons]])
         (use d Cons in \<open>cases ys rule: rev_cases; auto simp: pt(1)\<close>)+
    with Cons show ?thesis by simp
  qed simp
  ultimately show "dlist (unlink t q) (ys @ zs)"
    using pt(2) d by (simp add: dlist_def dseg_append)
  show "same_but_links (set (ys @ t # zs)) q (unlink t q)"
    using pt(3) by (cases ys rule: rev_cases; cases zs) (auto simp: same_but_links_def pt(1))
qed (simp_all add: unlink_per_timer [OF assms])

lemma dlist_linked:
  assumes "dlist q xs" "\<And>u. u \<notin> set xs \<Longrightarrow> prev_timer (per_timer q u) = None"
  shows "is_linked t q \<longleftrightarrow> t \<in> set xs"
proof
  assume "t \<in> set xs"
  then obtain ys zs where xs: "xs = ys @ t # zs" by (meson split_list)
  with assms(1) have "prev_timer (per_timer q t) = last_or None ys"
    using dseg_middle [of "per_timer q" None ys t zs None] by (simp add: dlist_def)
  with assms(1) xs show "is_linked t q" by (cases ys) (auto simp: is_linked_def dlist_def last_or_def)
next
  assume l: "is_linked t q"
  show "t \<in> set xs"
  proof (rule ccontr)
    assume n: "t \<notin> set xs"
    with l assms(2) have "timers q = Some t" by (simp add: is_linked_def)
    with assms(1) n show False by (cases xs) (auto simp: dlist_def)
  qed
qed

section \<open>The invariant and the abstraction\<close>

definition idle :: "per_timer_data \<Rightarrow> bool" where
  "idle d \<longleftrightarrow> d = \<lparr>op_queue = [], heap_index = None, next_timer = None, prev_timer = None\<rparr>"

definition tq_inv :: "('t::linorder) timer_queue \<Rightarrow> bool" where
  "tq_inv q \<longleftrightarrow> index_ok q \<and> heap_order (keys q) \<and> (\<exists>xs. dlist q xs \<and> set xs = heap_timers q) \<and>
     (\<forall>u. u \<notin> heap_timers q \<longrightarrow> idle (per_timer q u)) \<and> (\<forall>u \<in> heap_timers q. op_queue (per_timer q u) \<noteq> [])"

text \<open>The expiry and the operations of a timer; the third component of the invariant with operations
  possibly exhausted is what the loops pass to \<open>remove_timer\<close>.\<close>

definition tq_abs :: "'t timer_queue \<Rightarrow> nat \<Rightarrow> ('t \<times> wait_op list) option" where
  "tq_abs q t = (case heap_index (per_timer q t) of None \<Rightarrow> None
     | Some i \<Rightarrow> Some (key_at q i, op_queue (per_timer q t)))"

definition tq_ok :: "('t::linorder) timer_queue \<Rightarrow> bool" where
  "tq_ok q \<longleftrightarrow> index_ok q \<and> heap_order (keys q) \<and> (\<exists>xs. dlist q xs \<and> set xs = heap_timers q) \<and>
     (\<forall>u. u \<notin> heap_timers q \<longrightarrow> idle (per_timer q u))"

lemma tq_inv_ok: "tq_inv q \<longleftrightarrow> tq_ok q \<and> (\<forall>u \<in> heap_timers q. op_queue (per_timer q u) \<noteq> [])"
  by (auto simp: tq_inv_def tq_ok_def)

lemma tq_okD:
  assumes "tq_ok q"
  shows "index_ok q" "heap_order (keys q)" "u \<notin> heap_timers q \<Longrightarrow> idle (per_timer q u)"
    "\<exists>xs. dlist q xs \<and> set xs = heap_timers q"
  using assms by (simp_all add: tq_ok_def)

lemma tq_abs_iff:
  assumes "tq_ok q"
  shows "tq_abs q t = Some (tm, os) \<longleftrightarrow> (tm, t) \<in> set (timer_heap q) \<and> os = op_queue (per_timer q t)"
proof
  assume a: "tq_abs q t = Some (tm, os)"
  then obtain i where i: "heap_index (per_timer q t) = Some i" "tm = key_at q i" "os = op_queue (per_timer q t)"
    by (auto simp: tq_abs_def split: option.splits)
  have "t \<in> heap_timers q"
  proof (rule ccontr)
    assume "t \<notin> heap_timers q"
    from tq_okD(3) [OF assms this] i show False by (simp add: idle_def)
  qed
  with heap_timers_index [OF tq_okD(1) [OF assms]] i obtain j where "j < length (timer_heap q)" "snd (timer_heap q ! j) = t" "i = j"
    by fastforce
  with i show "(tm, t) \<in> set (timer_heap q) \<and> os = op_queue (per_timer q t)" by (metis nth_mem prod.collapse)
next
  assume a: "(tm, t) \<in> set (timer_heap q) \<and> os = op_queue (per_timer q t)"
  then obtain i where "i < length (timer_heap q)" "timer_heap q ! i = (tm, t)" by (auto simp: in_set_conv_nth)
  with index_ok_nth [OF tq_okD(1) [OF assms], of i] a show "tq_abs q t = Some (tm, os)" by (simp add: tq_abs_def)
qed

lemma tq_abs_None: "tq_ok q \<Longrightarrow> tq_abs q t = None \<longleftrightarrow> t \<notin> heap_timers q"
proof -
  assume ok: "tq_ok q"
  have mem: "t \<in> heap_timers q \<longleftrightarrow> (\<exists>tm. (tm, t) \<in> set (timer_heap q))" by (force simp: heap_timers_def)
  show ?thesis
  proof (cases "tq_abs q t")
    case None
    with tq_abs_iff [OF ok, of t] have "(tm, t) \<notin> set (timer_heap q)" for tm by (metis option.distinct(1))
    with None mem show ?thesis by simp
  next
    case (Some p)
    with tq_abs_iff [OF ok, of t "fst p" "snd p"] mem show ?thesis by auto
  qed
qed

lemma tq_abs_eqI:
  assumes "tq_ok q" "\<And>tm os. f = Some (tm, os) \<longleftrightarrow> (tm, t) \<in> set (timer_heap q) \<and> os = op_queue (per_timer q t)"
  shows "tq_abs q t = f"
proof (cases f)
  case None
  have "tq_abs q t \<noteq> Some (tm, os)" for tm os using assms None tq_abs_iff [OF assms(1)] by simp
  with None show ?thesis by (cases "tq_abs q t") auto
next
  case (Some p)
  with assms tq_abs_iff [OF assms(1)] show ?thesis by (cases p) auto
qed

lemma tq_linked:
  assumes "tq_ok q"
  shows "is_linked t q \<longleftrightarrow> tq_abs q t \<noteq> None"
proof -
  obtain xs where xs: "dlist q xs" "set xs = heap_timers q" using tq_okD(4) [OF assms] by blast
  have "u \<notin> set xs \<Longrightarrow> prev_timer (per_timer q u) = None" for u using tq_okD(3) [OF assms, of u] xs(2) by (simp add: idle_def)
  from dlist_linked [OF xs(1) this, of t] xs(2) tq_abs_None [OF assms, of t] show ?thesis by simp
qed

text \<open>Changing only the operations of an active timer.\<close>

lemma tq_ok_ops:
  assumes "tq_ok q" "t \<in> heap_timers q"
  shows "tq_ok (upd_timer t (\<lambda>d. d\<lparr>op_queue := f d\<rparr>) q)"
proof -
  let ?q = "upd_timer t (\<lambda>d. d\<lparr>op_queue := f d\<rparr>) q"
  have h: "heap_timers ?q = heap_timers q" "keys ?q = keys q" by (simp_all add: heap_timers_def keys_def)
  have "dlist ?q xs = dlist q xs" for xs
    unfolding dlist_def using dseg_cong [of xs "per_timer ?q" "per_timer q"] by simp
  with assms show ?thesis unfolding tq_ok_def h by (auto simp: index_ok_def)
qed

lemma tq_abs_ops:
  "tq_abs (upd_timer t (\<lambda>d. d\<lparr>op_queue := f d\<rparr>) q) = (tq_abs q)(t := map_option (\<lambda>(tm, os). (tm, f (per_timer q t))) (tq_abs q t))"
  by (auto simp: tq_abs_def fun_eq_iff split: option.split)

text \<open>\<open>remove_timer\<close> of an active timer whose operations are exhausted.\<close>

lemma remove_timer_ok:
  assumes "tq_ok q" "t \<in> heap_timers q" "op_queue (per_timer q t) = []"
  shows "tq_ok (remove_timer t q)" and "tq_abs (remove_timer t q) = (tq_abs q)(t := None)"
    and "heap_timers (remove_timer t q) = heap_timers q - {t}"
    and "length (timer_heap (remove_timer t q)) < length (timer_heap q)"
    and "u \<noteq> t \<Longrightarrow> op_queue (per_timer (remove_timer t q) u) = op_queue (per_timer q u)"
proof -
  obtain k where k: "k < length (timer_heap q)" "snd (timer_heap q ! k) = t" "heap_index (per_timer q t) = Some k"
    using heap_timers_index [OF tq_okD(1) [OF assms(1)] assms(2)] by blast
  define q1 where "q1 = remove_from_heap t q"
  have q1: "index_ok q1" "heap_order (keys q1)" "mset (timer_heap q1) = mset (timer_heap q) - {# timer_heap q ! k #}"
    "timers q1 = timers q" "heap_index (per_timer q1 t) = None"
    "\<And>u. op_queue (per_timer q1 u) = op_queue (per_timer q u)"
    "\<And>u. next_timer (per_timer q1 u) = next_timer (per_timer q u)"
    "\<And>u. prev_timer (per_timer q1 u) = prev_timer (per_timer q u)"
    "\<And>u. u \<notin> heap_timers q \<Longrightarrow> heap_index (per_timer q1 u) = heap_index (per_timer q u)"
    using remove_from_heap_correct [OF tq_okD(1,2) [OF assms(1)] k(3,1,2)] assms(1) by (simp_all add: q1_def Let_def)
  obtain xs where xs: "dlist q xs" "set xs = heap_timers q" using tq_okD(4) [OF assms(1)] by blast
  have "t \<in> set xs" using assms(2) xs(2) by simp
  then obtain ys zs where sp: "xs = ys @ t # zs" by (meson split_list)
  have "dlist q1 (ys @ t # zs)"
    using xs(1) sp q1(4,7,8) dseg_cong [of xs "per_timer q1" "per_timer q" None None] by (simp add: dlist_def)
  note un = unlink_ok [OF this]
  let ?q = "remove_timer t q"
  have eq: "?q = unlink t q1" by (simp add: remove_timer_def q1_def)
  have same: "timer_heap ?q = timer_heap q1" "op_queue (per_timer ?q u) = op_queue (per_timer q u)"
    "heap_index (per_timer ?q u) = heap_index (per_timer q1 u)"
    "u \<notin> set xs \<Longrightarrow> next_timer (per_timer ?q u) = next_timer (per_timer q u) \<and> prev_timer (per_timer ?q u) = prev_timer (per_timer q u)" for u
    using un(2) q1 sp by (simp_all add: eq same_but_links_def)
  have dist: "distinct (List.map snd (timer_heap q))" by (rule index_ok_distinct [OF tq_okD(1) [OF assms(1)]])
  then have setq1: "set (timer_heap q1) = set (timer_heap q) - {timer_heap q ! k}"
    using q1(3) by (metis distinct_map mset_eq_setD mset_remove1 set_remove1_eq)
  have only: "p \<in> set (timer_heap q) \<Longrightarrow> snd p = t \<longleftrightarrow> p = timer_heap q ! k" for p
    using dist k by (metis distinct_map inj_onD nth_mem)
  have ht: "heap_timers q1 = heap_timers q - {t}" unfolding heap_timers_def setq1 using only k by auto
  then show "heap_timers ?q = heap_timers q - {t}" using same(1) by (simp add: heap_timers_def)
  show "length (timer_heap ?q) < length (timer_heap q)"
  proof -
    have "size (mset (timer_heap q1)) < size (mset (timer_heap q))"
      using k(1) by (simp add: q1(3) size_Diff_singleton)
    with same(1) show ?thesis by simp
  qed
  show "u \<noteq> t \<Longrightarrow> op_queue (per_timer ?q u) = op_queue (per_timer q u)" by (simp add: same)
  have ok: "tq_ok ?q"
    unfolding tq_ok_def
  proof (intro conjI allI impI)
    show "index_ok ?q" using q1(1) same by (simp add: index_ok_def)
    show "heap_order (keys ?q)" using q1(2) same by (simp add: keys_def)
    show "\<exists>xs. dlist ?q xs \<and> set xs = heap_timers ?q"
      using un(1) eq ht same(1) xs sp by (intro exI [of _ "ys @ zs"]) (auto simp: heap_timers_def dlist_def)
  next
    fix u assume u: "u \<notin> heap_timers ?q"
    show "idle (per_timer ?q u)"
    proof (cases "u = t")
      case True
      with un(3,4) assms(3) same q1(5) eq show ?thesis by (simp add: idle_def)
    next
      case False
      with u ht same(1) have "u \<notin> heap_timers q" by (simp add: heap_timers_def)
      with tq_okD(3) [OF assms(1)] same q1(9) xs(2) show ?thesis by (simp add: idle_def)
    qed
  qed
  then show "tq_ok ?q" .
  show "tq_abs ?q = (tq_abs q)(t := None)"
  proof
    fix u
    show "tq_abs ?q u = ((tq_abs q)(t := None)) u"
    proof (rule tq_abs_eqI [OF ok])
      fix tm os
      have "(tm, u) \<in> set (timer_heap ?q) \<longleftrightarrow> (tm, u) \<in> set (timer_heap q) \<and> u \<noteq> t"
        using setq1 same(1) only [of "(tm, u)"] by auto
      then show "(((tq_abs q)(t := None)) u = Some (tm, os)) = ((tm, u) \<in> set (timer_heap ?q) \<and> os = op_queue (per_timer ?q u))"
        using tq_abs_iff [OF assms(1)] same(2) by auto
    qed
  qed
qed

section \<open>The operations\<close>

lemma new_timer_queue_inv: "tq_inv new_timer_queue" and new_timer_queue_abs: "tq_abs new_timer_queue = Map.empty"
  by (auto simp: tq_inv_def new_timer_queue_def index_ok_def heap_order_def keys_def dlist_def heap_timers_def idle_def
      tq_abs_def intro: exI [of _ "[]"])

lemma tq_abs_heap:
  "tq_ok q \<Longrightarrow> i < length (timer_heap q) \<Longrightarrow>
     tq_abs q (snd (timer_heap q ! i)) = Some (key_at q i, op_queue (per_timer q (snd (timer_heap q ! i))))"
  by (simp add: tq_abs_def index_ok_nth [OF tq_okD(1)])

lemma tq_abs_at:
  assumes "tq_ok q" "tq_abs q t = Some (tm, os)"
  obtains i where "i < length (timer_heap q)" "timer_heap q ! i = (tm, t)" "heap_index (per_timer q t) = Some i"
  using assms tq_abs_iff [OF assms(1), of t tm os] index_ok_nth [OF tq_okD(1) [OF assms(1)]]
  by (metis in_set_conv_nth snd_conv)

lemma tq_earliest:
  assumes "tq_ok q" "heap_index (per_timer q t) = Some 0" "tq_abs q u = Some (tm, os)"
  shows "fst (the (tq_abs q t)) \<le> tm"
proof -
  obtain i where i: "i < length (timer_heap q)" "timer_heap q ! i = (tm, u)" using tq_abs_at [OF assms(1,3)] by blast
  then have "0 < length (timer_heap q)" by linarith
  with heap_order_min [OF tq_okD(2) [OF assms(1)], of i] i have "key_at q 0 \<le> tm" by (simp add: keys_nth)
  with assms(2) show ?thesis by (simp add: tq_abs_def)
qed

text \<open>A timer that was not active gets its place in the heap and in the list.\<close>

definition enter_heap :: "'t \<Rightarrow> nat \<Rightarrow> 't timer_queue \<Rightarrow> 't timer_queue" where
  "enter_heap time t q = (upd_timer t (\<lambda>d. d\<lparr>heap_index := Some (length (timer_heap q))\<rparr>) q)\<lparr>timer_heap := timer_heap q @ [(time, t)]\<rparr>"

lemma activate_ok:
  assumes "tq_ok q" "tq_abs q t = None"
  shows "tq_ok (link_front t (up_heap (length (timer_heap q)) (enter_heap time t q)))"
    and "tq_abs (link_front t (up_heap (length (timer_heap q)) (enter_heap time t q))) = (tq_abs q)(t \<mapsto> (time, []))"
    and "heap_timers (link_front t (up_heap (length (timer_heap q)) (enter_heap time t q))) = insert t (heap_timers q)"
    and "op_queue (per_timer (link_front t (up_heap (length (timer_heap q)) (enter_heap time t q))) u) = op_queue (per_timer q u)"
proof -
  let ?n = "length (timer_heap q)" let ?a = "enter_heap time t q" let ?b = "up_heap ?n ?a" let ?r = "link_front t ?b"
  have t: "t \<notin> heap_timers q" using tq_abs_None [OF assms(1)] assms(2) by blast
  have idle: "idle (per_timer q t)" using tq_okD(3) [OF assms(1) t] .
  have "snd (timer_heap q ! i) \<noteq> t" if "i < ?n" for i using heap_timers_nth [OF that] t by auto
  then have i0: "index_ok ?a"
    using tq_okD(1) [OF assms(1)] by (auto simp: index_ok_def enter_heap_def nth_append less_Suc_eq)
  have "keys ?a = keys q @ [time]" by (simp add: keys_def enter_heap_def)
  with heap_order_snoc [OF tq_okD(2) [OF assms(1)], of time] have "order_but_up (keys ?a) ?n" by simp
  then have "heaped ?a ?b" by (intro up_heap_heaped [OF i0]) (simp_all add: enter_heap_def)
  then have h: "index_ok ?b" "heap_order (keys ?b)" "mset (timer_heap ?b) = mset (timer_heap ?a)" "same_but_heap ?a ?b"
    by (simp_all add: heaped_def)
  obtain xs where xs: "dlist q xs" "set xs = heap_timers q" using tq_okD(4) [OF assms(1)] by blast
  have same1: "timers ?b = timers q" "op_queue (per_timer ?b u) = op_queue (per_timer q u)"
    "next_timer (per_timer ?b u) = next_timer (per_timer q u)" "prev_timer (per_timer ?b u) = prev_timer (per_timer q u)" for u
    using h(4) by (simp_all add: same_but_heap_def enter_heap_def)
  have "dlist ?b xs"
    using xs(1) same1 dseg_cong [of xs "per_timer ?b" "per_timer q" None None] by (simp add: dlist_def)
  note lf = link_front_ok [OF this, of t]
  have tx: "t \<notin> set xs" using t xs(2) by simp
  have same: "timer_heap ?r = timer_heap ?b" "heap_index (per_timer ?r u) = heap_index (per_timer ?b u)"
    "op_queue (per_timer ?r u) = op_queue (per_timer q u)"
    "u \<notin> set (t # xs) \<Longrightarrow> next_timer (per_timer ?r u) = next_timer (per_timer q u) \<and> prev_timer (per_timer ?r u) = prev_timer (per_timer q u)" for u
    using lf(2) tx same1 by (simp_all add: same_but_links_def)
  then show "op_queue (per_timer ?r u) = op_queue (per_timer q u)" by simp
  have set1: "set (timer_heap ?r) = insert (time, t) (set (timer_heap q))"
    using mset_eq_setD [OF h(3)] same(1) by (simp add: enter_heap_def)
  then show ht: "heap_timers ?r = insert t (heap_timers q)" by (simp add: heap_timers_def)
  have ok: "tq_ok ?r"
    unfolding tq_ok_def
  proof (intro conjI allI impI)
    show "index_ok ?r" using h(1) same by (simp add: index_ok_def)
    show "heap_order (keys ?r)" using h(2) same by (simp add: keys_def)
    show "\<exists>xs. dlist ?r xs \<and> set xs = heap_timers ?r" using lf(1) tx xs(2) ht by (intro exI [of _ "t # xs"]) simp
  next
    fix u assume u: "u \<notin> heap_timers ?r"
    have "heap_timers ?a = insert t (heap_timers q)" by (simp add: heap_timers_def enter_heap_def)
    with u ht h(4) have "heap_index (per_timer ?b u) = heap_index (per_timer ?a u)" by (simp add: same_but_heap_def)
    with u ht same xs(2) tq_okD(3) [OF assms(1), of u] show "idle (per_timer ?r u)"
      by (simp add: idle_def enter_heap_def)
  qed
  then show "tq_ok ?r" .
  show "tq_abs ?r = (tq_abs q)(t \<mapsto> (time, []))"
  proof
    fix u
    show "tq_abs ?r u = ((tq_abs q)(t \<mapsto> (time, []))) u"
    proof (rule tq_abs_eqI [OF ok])
      fix tm os
      have "(tm, t) \<notin> set (timer_heap q)" using t by (force simp: heap_timers_def)
      then show "(((tq_abs q)(t \<mapsto> (time, []))) u = Some (tm, os)) = ((tm, u) \<in> set (timer_heap ?r) \<and> os = op_queue (per_timer ?r u))"
        using tq_abs_iff [OF assms(1)] set1 same(3) idle by (auto simp: idle_def)
    qed
  qed
qed

lemma enqueue_timer_keeps:
  assumes "tq_inv q" "enqueue_timer time t w q = (first, q')"
  shows "tq_inv q' \<and> tq_abs q' = (tq_abs q)(t \<mapsto> (case tq_abs q t of None \<Rightarrow> (time, [w]) | Some (tm, os) \<Rightarrow> (tm, os @ [w]))) \<and>
    (first \<longrightarrow> (\<forall>u tm os. tq_abs q' u = Some (tm, os) \<longrightarrow> fst (the (tq_abs q' t)) \<le> tm)) \<and>
    (tq_abs q t = None \<and> (\<forall>u tm os. tq_abs q u = Some (tm, os) \<longrightarrow> time < tm) \<longrightarrow> first)"
proof -
  have ok: "tq_ok q" and ne: "\<forall>u \<in> heap_timers q. op_queue (per_timer q u) \<noteq> []" using assms(1) by (simp_all add: tq_inv_ok)
  define q1 where "q1 = (if \<not> is_linked t q then
      link_front t (up_heap (length (timer_heap q))
        (enter_heap time t q)) else q)"
  have q': "q' = upd_timer t (\<lambda>d. d\<lparr>op_queue := op_queue d @ [w]\<rparr>) q1"
    and first: "first \<longleftrightarrow> heap_index (per_timer q' t) = Some 0 \<and> hd (op_queue (per_timer q' t)) = w"
    using assms(2) by (auto simp: enqueue_timer_def q1_def Let_def enter_heap_def simp del: upd_timer_simps)
  have q1: "tq_ok q1 \<and> t \<in> heap_timers q1 \<and> heap_timers q1 \<subseteq> insert t (heap_timers q) \<and>
      op_queue (per_timer q1 u) = op_queue (per_timer q u) \<and>
      tq_abs q1 = (tq_abs q)(t \<mapsto> (case tq_abs q t of None \<Rightarrow> (time, []) | Some p \<Rightarrow> p))" for u
  proof (cases "tq_abs q t")
    case None
    then have "\<not> is_linked t q" using tq_linked [OF ok] by simp
    with None activate_ok [OF ok None, of time] show ?thesis by (simp add: q1_def)
  next
    case (Some p)
    then have "is_linked t q" using tq_linked [OF ok] by simp
    with Some ok tq_abs_None [OF ok, of t] show ?thesis by (auto simp: q1_def)
  qed
  have ok': "tq_ok q'" unfolding q' by (rule tq_ok_ops) (use q1 in simp_all)
  have ht: "heap_timers q' = heap_timers q1" by (simp add: q' heap_timers_def)
  have ops: "op_queue (per_timer q' u) = op_queue (per_timer q u) @ (if u = t then [w] else [])" for u
    using q1 [of u] q1 [of t] by (simp add: q')
  have abs: "tq_abs q' = (tq_abs q)(t \<mapsto> (case tq_abs q t of None \<Rightarrow> (time, [w]) | Some (tm, os) \<Rightarrow> (tm, os @ [w])))"
  proof (cases "tq_abs q t")
    case None
    then have "op_queue (per_timer q t) = []" using tq_abs_None [OF ok] tq_okD(3) [OF ok, of t] by (simp add: idle_def)
    with None q1 [of t] show ?thesis by (simp add: q' tq_abs_ops)
  next
    case (Some p)
    obtain tm os where p: "p = (tm, os)" by (cases p)
    with Some have "os = op_queue (per_timer q t)" using tq_abs_iff [OF ok, of t tm os] by simp
    with Some p q1 [of t] show ?thesis by (simp add: q' tq_abs_ops)
  qed
  have inv: "tq_inv q'" using ok' ht q1 ne ops by (auto simp: tq_inv_ok)
  have early: "fst (the (tq_abs q' t)) \<le> tm" if "first" "tq_abs q' u = Some (tm, os)" for u tm os
    using tq_earliest [OF ok' _ that(2)] that(1) first by blast
  moreover have first if n: "tq_abs q t = None" and less: "\<And>u tm os. tq_abs q u = Some (tm, os) \<Longrightarrow> time < tm"
  proof -
    have at: "tq_abs q' t = Some (time, [w])" using abs n by simp
    then obtain i where i: "i < length (timer_heap q')" "timer_heap q' ! i = (time, t)" "heap_index (per_timer q' t) = Some i"
      using tq_abs_at [OF ok'] by blast
    then have l0: "0 < length (timer_heap q')" by linarith
    have le: "key_at q' 0 \<le> time" using heap_order_min [OF tq_okD(2) [OF ok'], of i] i l0 by (simp add: keys_nth)
    have "snd (timer_heap q' ! 0) = t"
    proof (rule ccontr)
      assume "snd (timer_heap q' ! 0) \<noteq> t"
      with tq_abs_heap [OF ok' l0] abs have "\<exists>os. tq_abs q (snd (timer_heap q' ! 0)) = Some (key_at q' 0, os)" by auto
      with less le show False using not_less by blast
    qed
    then have "i = 0" using index_ok_nth [OF tq_okD(1) [OF ok'] l0] i(3) by simp
    moreover have "op_queue (per_timer q' t) = [w]" using at tq_abs_iff [OF ok', of t time "[w]"] by simp
    ultimately show first using first i(3) by simp
  qed
  ultimately show ?thesis using inv abs by blast
qed

text \<open>The result: whether the timer has just become active and is at the root of the heap.\<close>

lemma enqueue_timer_first:
  assumes "tq_inv q" "enqueue_timer time t w q = (first, q')"
  shows "(tq_abs q t = None \<longrightarrow> first = (timer_heap q' ! 0 = (time, t))) \<and> (tq_abs q t = Some (tm, os) \<and> w \<notin> set os \<longrightarrow> \<not> first)"
proof -
  have ok: "tq_ok q" and ne: "\<forall>u \<in> heap_timers q. op_queue (per_timer q u) \<noteq> []" using assms(1) by (simp_all add: tq_inv_ok)
  have inv: "tq_inv q'" and abs: "tq_abs q' = (tq_abs q)(t \<mapsto> (case tq_abs q t of None \<Rightarrow> (time, [w]) | Some (tm, os) \<Rightarrow> (tm, os @ [w])))"
    using enqueue_timer_keeps [OF assms] by simp_all
  then have ok': "tq_ok q'" by (simp add: tq_inv_ok)
  have first: "first \<longleftrightarrow> heap_index (per_timer q' t) = Some 0 \<and> hd (op_queue (per_timer q' t)) = w"
    using assms(2) by (auto simp: enqueue_timer_def Let_def simp del: upd_timer_simps)
  show ?thesis
  proof (cases "tq_abs q t")
    case None
    then have at: "tq_abs q' t = Some (time, [w])" using abs by simp
    then obtain i where i: "i < length (timer_heap q')" "timer_heap q' ! i = (time, t)" "heap_index (per_timer q' t) = Some i"
      using tq_abs_at [OF ok'] by blast
    then have l0: "0 < length (timer_heap q')" by linarith
    have "op_queue (per_timer q' t) = [w]" using at tq_abs_iff [OF ok', of t time "[w]"] by simp
    then have "first \<longleftrightarrow> i = 0" using first i(3) by simp
    moreover have "i = 0" if "timer_heap q' ! 0 = (time, t)" using index_ok_nth [OF tq_okD(1) [OF ok'] l0] that i(3) by simp
    ultimately show ?thesis using None i(2) by auto
  next
    case (Some p)
    obtain tm1 os1 where p: "p = (tm1, os1)" by (cases p)
    have q: "t \<in> heap_timers q" "os1 = op_queue (per_timer q t)" using tq_abs_None [OF ok, of t] tq_abs_iff [OF ok, of t tm1 os1] Some p by auto
    then have "os1 \<noteq> []" using ne by simp
    moreover have "op_queue (per_timer q' t) = os1 @ [w]" using abs Some p tq_abs_iff [OF ok', of t tm1 "os1 @ [w]"] by simp
    ultimately have "first \<Longrightarrow> w \<in> set os1" using first by (metis hd_append hd_in_set)
    then show ?thesis using Some p by auto
  qed
qed

text \<open>C2: \<open>enqueue_timer\<close> keeps the invariant and adds the operation behind those of its timer, which
  becomes active with the given expiry if it was not. For a timer that becomes active the result is true exactly when it is at the
  root of the heap: then it has the earliest expiry of all, and it is there whenever it is strictly earlier than the
  rest. For a timer that was active, and did not have the operation yet, the result is false, even when it is the earliest.\<close>
theorem enqueue_timer_correct:
  assumes "tq_inv q" "enqueue_timer time t w q = (first, q')"
  shows "tq_inv q' \<and> tq_abs q' = (tq_abs q)(t \<mapsto> (case tq_abs q t of None \<Rightarrow> (time, [w]) | Some (tm, os) \<Rightarrow> (tm, os @ [w]))) \<and>
    (first \<longrightarrow> (\<forall>u tm os. tq_abs q' u = Some (tm, os) \<longrightarrow> fst (the (tq_abs q' t)) \<le> tm)) \<and>
    (tq_abs q t = None \<and> (\<forall>u tm os. tq_abs q u = Some (tm, os) \<longrightarrow> time < tm) \<longrightarrow> first) \<and>
    (tq_abs q t = None \<longrightarrow> first = (timer_heap q' ! 0 = (time, t))) \<and>
    (\<forall>tm os. tq_abs q t = Some (tm, os) \<and> w \<notin> set os \<longrightarrow> \<not> first)"
  using enqueue_timer_keeps [OF assms] enqueue_timer_first [OF assms] by blast

text \<open>The operations of a timer, as the specification sees them.\<close>

definition ops_of :: "(nat \<Rightarrow> ('t \<times> wait_op list) option) \<Rightarrow> nat \<Rightarrow> wait_op list" where
  "ops_of m t = (case m t of None \<Rightarrow> [] | Some (tm, os) \<Rightarrow> os)"

definition time_of :: "(nat \<Rightarrow> ('t \<times> wait_op list) option) \<Rightarrow> nat \<Rightarrow> 't" where
  "time_of m t = fst (the (m t))"

lemma take_ops_map: "take_ops r ws = List.map (\<lambda>w. w\<lparr>op_ec := r\<rparr>) ws"
  by (induction ws) auto

lemma cancel_ops_eq: "cancel_ops k ws = (List.map (\<lambda>w. w\<lparr>op_ec := OperationAborted\<rparr>) (take k ws), drop k ws)"
  by (induction k ws rule: cancel_ops.induct) auto

lemma split_by_key_eq:
  "split_by_key key ws = (List.map (\<lambda>w. w\<lparr>op_ec := OperationAborted\<rparr>) (filter (\<lambda>w. cancellation_key w = key) ws),
     filter (\<lambda>w. cancellation_key w \<noteq> key) ws)"
  by (induction ws) (auto split: prod.split)

lemma active_timer: "tq_ok q \<Longrightarrow> tq_abs q t = Some (tm, os) \<Longrightarrow> t \<in> heap_timers q \<and> os = op_queue (per_timer q t)"
  using tq_abs_None [of q t] tq_abs_iff [of q t tm os] by auto

text \<open>Setting the operations of an active timer and removing it when none are left.\<close>

lemma set_ops_correct:
  assumes "tq_inv q" "tq_abs q t = Some (tm, os)"
  shows "let q1 = upd_timer t (\<lambda>d. d\<lparr>op_queue := rest\<rparr>) q; q' = (if rest = [] then remove_timer t q1 else q1)
    in tq_inv q' \<and> tq_abs q' = (tq_abs q)(t := if rest = [] then None else Some (tm, rest)) \<and>
       (rest = [] \<longrightarrow> length (timer_heap q') < length (timer_heap q))"
proof -
  have ok: "tq_ok q" and ne: "\<forall>u \<in> heap_timers q. op_queue (per_timer q u) \<noteq> []" using assms(1) by (simp_all add: tq_inv_ok)
  have t: "t \<in> heap_timers q" using active_timer [OF ok assms(2)] by simp
  define q1 where "q1 = upd_timer t (\<lambda>d. d\<lparr>op_queue := rest\<rparr>) q"
  have ok1: "tq_ok q1" unfolding q1_def by (rule tq_ok_ops [OF ok t])
  have ht: "heap_timers q1 = heap_timers q" by (simp add: q1_def heap_timers_def)
  have abs1: "tq_abs q1 = (tq_abs q)(t \<mapsto> (tm, rest))" using assms(2) by (simp add: q1_def tq_abs_ops)
  show ?thesis
  proof (cases "rest = []")
    case True
    have t1: "t \<in> heap_timers q1" "op_queue (per_timer q1 t) = []" using t ht True by (simp_all add: q1_def)
    note rm = remove_timer_ok [OF ok1 t1]
    have "op_queue (per_timer (remove_timer t q1) u) \<noteq> []" if "u \<in> heap_timers q" "u \<noteq> t" for u
      using rm(5) [OF that(2)] ne that by (simp add: q1_def)
    with rm(1,3) ht have "tq_inv (remove_timer t q1)" by (simp add: tq_inv_ok)
    moreover have "length (timer_heap (remove_timer t q1)) < length (timer_heap q)" using rm(4) by (simp add: q1_def)
    ultimately show ?thesis unfolding Let_def q1_def [symmetric] using True rm(2) abs1 by simp
  next
    case False
    have "tq_inv q1" using ok1 ht ne False by (auto simp: tq_inv_ok q1_def)
    with False abs1 show ?thesis by (simp add: Let_def q1_def [symmetric])
  qed
qed

text \<open>\<open>cancel_timer\<close> aborts the first \<open>max_cancelled\<close> operations of the timer, in order, and leaves
  the others; the timer stays active exactly when some are left.\<close>
theorem cancel_timer_correct:
  assumes "tq_inv q" "cancel_timer t n q = (k, out, q')"
  shows "tq_inv q' \<and> k = min n (length (ops_of (tq_abs q) t)) \<and>
    out = List.map (\<lambda>w. w\<lparr>op_ec := OperationAborted\<rparr>) (take n (ops_of (tq_abs q) t)) \<and>
    tq_abs q' = (if tq_abs q t = None then tq_abs q
      else (tq_abs q)(t := if length (ops_of (tq_abs q) t) \<le> n then None else Some (time_of (tq_abs q) t, drop n (ops_of (tq_abs q) t))))"
proof (cases "tq_abs q t")
  case None
  with assms tq_linked [of q t] show ?thesis by (auto simp: cancel_timer_def ops_of_def tq_inv_ok)
next
  case (Some p)
  obtain tm os where p: "p = (tm, os)" by (cases p)
  have ok: "tq_ok q" using assms(1) by (simp add: tq_inv_ok)
  have os: "op_queue (per_timer q t) = os" using active_timer [OF ok] Some p by simp
  have "is_linked t q" using tq_linked [OF ok] Some by simp
  with assms(2) os have c: "k = length (take n os)" "out = List.map (\<lambda>w. w\<lparr>op_ec := OperationAborted\<rparr>) (take n os)"
    "q' = (let q1 = upd_timer t (\<lambda>d. d\<lparr>op_queue := drop n os\<rparr>) q in if drop n os = [] then remove_timer t q1 else q1)"
    by (auto simp: cancel_timer_def cancel_ops_eq Let_def)
  from set_ops_correct [OF assms(1) Some [unfolded p], of "drop n os"] c Some p show ?thesis
    by (simp add: Let_def ops_of_def time_of_def min.commute)
qed

text \<open>Cancelling by key.\<close>

lemma cancel_timer_by_key_correct:
  assumes "tq_inv q" "cancel_timer_by_key t key q = (out, q')"
  shows "tq_inv q' \<and> out = List.map (\<lambda>w. w\<lparr>op_ec := OperationAborted\<rparr>) (filter (\<lambda>w. cancellation_key w = key) (ops_of (tq_abs q) t)) \<and>
    tq_abs q' = (if tq_abs q t = None then tq_abs q else (tq_abs q)(t :=
      (let rest = filter (\<lambda>w. cancellation_key w \<noteq> key) (ops_of (tq_abs q) t) in
       if rest = [] then None else Some (time_of (tq_abs q) t, rest))))"
proof (cases "tq_abs q t")
  case None
  with assms tq_linked [of q t] show ?thesis by (auto simp: cancel_timer_by_key_def ops_of_def tq_inv_ok)
next
  case (Some p)
  obtain tm os where p: "p = (tm, os)" by (cases p)
  let ?rest = "filter (\<lambda>w. cancellation_key w \<noteq> key) os"
  have ok: "tq_ok q" using assms(1) by (simp add: tq_inv_ok)
  have os: "op_queue (per_timer q t) = os" using active_timer [OF ok] Some p by simp
  have "is_linked t q" using tq_linked [OF ok] Some by simp
  with assms(2) os have c: "out = List.map (\<lambda>w. w\<lparr>op_ec := OperationAborted\<rparr>) (filter (\<lambda>w. cancellation_key w = key) os)"
    "q' = (let q1 = upd_timer t (\<lambda>d. d\<lparr>op_queue := ?rest\<rparr>) q in if ?rest = [] then remove_timer t q1 else q1)"
    by (auto simp: cancel_timer_by_key_def split_by_key_eq Let_def)
  from set_ops_correct [OF assms(1) Some [unfolded p], of ?rest] show ?thesis
    unfolding c Let_def by (simp only: Some p ops_of_def time_of_def option.case prod.case fst_conv option.sel option.distinct if_False simp_thms)
qed

text \<open>One turn of \<open>get_ready_timers\<close>: a timer with the earliest expiry leaves the queue.\<close>

lemma ready_turn:
  assumes "tq_inv q" "timer_heap q \<noteq> []"
  defines "t \<equiv> snd (timer_heap q ! 0)"
  shows "tq_abs q t = Some (key_at q 0, op_queue (per_timer q t))"
    and "tq_inv (remove_timer t (upd_timer t (\<lambda>d. d\<lparr>op_queue := []\<rparr>) q))"
    and "tq_abs (remove_timer t (upd_timer t (\<lambda>d. d\<lparr>op_queue := []\<rparr>) q)) = (tq_abs q)(t := None)"
    and "length (timer_heap (remove_timer t (upd_timer t (\<lambda>d. d\<lparr>op_queue := []\<rparr>) q))) < length (timer_heap q)"
    and "tq_abs q u = Some (tm, os) \<Longrightarrow> key_at q 0 \<le> tm"
proof -
  have ok: "tq_ok q" using assms(1) by (simp add: tq_inv_ok)
  have l0: "0 < length (timer_heap q)" using assms(2) by simp
  show at: "tq_abs q t = Some (key_at q 0, op_queue (per_timer q t))" using tq_abs_heap [OF ok l0] by (simp add: t_def)
  from set_ops_correct [OF assms(1) at, of "[]"]
  show "tq_inv (remove_timer t (upd_timer t (\<lambda>d. d\<lparr>op_queue := []\<rparr>) q))"
    "tq_abs (remove_timer t (upd_timer t (\<lambda>d. d\<lparr>op_queue := []\<rparr>) q)) = (tq_abs q)(t := None)"
    "length (timer_heap (remove_timer t (upd_timer t (\<lambda>d. d\<lparr>op_queue := []\<rparr>) q))) < length (timer_heap q)"
    by (simp_all add: Let_def)
  have "heap_index (per_timer q t) = Some 0" using index_ok_nth [OF tq_okD(1) [OF ok] l0] by (simp add: t_def)
  from tq_earliest [OF ok this] at show "tq_abs q u = Some (tm, os) \<Longrightarrow> key_at q 0 \<le> tm" by simp
qed

definition due :: "'t::linorder \<Rightarrow> (nat \<Rightarrow> ('t \<times> wait_op list) option) \<Rightarrow> nat set" where
  "due now m = {t. \<exists>tm os. m t = Some (tm, os) \<and> tm \<le> now}"

lemma get_ready_from:
  "tq_inv q \<Longrightarrow> \<exists>ts q'. get_ready_timers now ops q =
       Some (ops @ concat (List.map (\<lambda>t. take_ops Success (ops_of (tq_abs q) t)) ts), q') \<and>
     distinct ts \<and> set ts = due now (tq_abs q) \<and> sorted (List.map (time_of (tq_abs q)) ts) \<and>
     tq_inv q' \<and> tq_abs q' = (\<lambda>t. if t \<in> due now (tq_abs q) then None else tq_abs q t)"
proof (induction "length (timer_heap q)" arbitrary: q ops rule: less_induct)
  case less
  have ok: "tq_ok q" using less.prems by (simp add: tq_inv_ok)
  show ?case
  proof (cases "timer_heap q \<noteq> [] \<and> \<not> now < key_at q 0")
    case False
    have "due now (tq_abs q) = {}"
    proof (cases "timer_heap q = []")
      case True
      then have "tq_abs q u = None" for u using tq_abs_None [OF ok, of u] by (simp add: heap_timers_def)
      then show ?thesis by (simp add: due_def)
    next
      case ne: False
      then have "now < key_at q 0" using False by simp
      with ready_turn(5) [OF less.prems ne] show ?thesis unfolding due_def by fastforce
    qed
    moreover have "get_ready_timers now ops q = Some (ops, q)"
      using False by (subst get_ready_timers.simps) auto
    ultimately show ?thesis using less.prems by (intro exI [of _ "[]"] exI [of _ q]) simp
  next
    case True
    define t where "t = snd (timer_heap q ! 0)"
    define q1 where "q1 = remove_timer t (upd_timer t (\<lambda>d. d\<lparr>op_queue := []\<rparr>) q)"
    note turn = ready_turn [OF less.prems, folded t_def, folded q1_def]
    have ne: "timer_heap q \<noteq> []" using True by simp
    let ?os = "ops @ take_ops Success (op_queue (per_timer q t))"
    from less.hyps [OF turn(4) [OF ne] turn(2) [OF ne], of ?os] obtain ts q' where r:
      "get_ready_timers now ?os q1 = Some (?os @ concat (List.map (\<lambda>t. take_ops Success (ops_of (tq_abs q1) t)) ts), q')"
      "distinct ts" "set ts = due now (tq_abs q1)" "sorted (List.map (time_of (tq_abs q1)) ts)" "tq_inv q'"
      "tq_abs q' = (\<lambda>u. if u \<in> due now (tq_abs q1) then None else tq_abs q1 u)" by blast
    have abs1: "tq_abs q1 = (tq_abs q)(t := None)" by (rule turn(3) [OF ne])
    have at: "tq_abs q t = Some (key_at q 0, op_queue (per_timer q t))" by (rule turn(1) [OF ne])
    have le: "key_at q 0 \<le> now" using True leI by blast
    have due1: "due now (tq_abs q1) = due now (tq_abs q) - {t}" by (auto simp: due_def abs1)
    have tdue: "t \<in> due now (tq_abs q)" using at le by (simp add: due_def)
    have notin: "u \<in> set ts \<Longrightarrow> u \<noteq> t" for u using r(3) due1 by auto
    have step: "get_ready_timers now ops q = get_ready_timers now ?os q1"
      using True by (subst get_ready_timers.simps) (simp add: Let_def t_def q1_def)
    have same: "List.map (\<lambda>u. take_ops Success (ops_of (tq_abs q1) u)) ts = List.map (\<lambda>u. take_ops Success (ops_of (tq_abs q) u)) ts"
      using notin by (simp add: ops_of_def abs1)
    have ot: "op_queue (per_timer q t) = ops_of (tq_abs q) t" using at by (simp add: ops_of_def)
    have g: "get_ready_timers now ops q =
        Some (ops @ concat (List.map (\<lambda>u. take_ops Success (ops_of (tq_abs q) u)) (t # ts)), q')"
      unfolding step unfolding r(1) same unfolding ot by simp
    have times: "List.map (time_of (tq_abs q1)) ts = List.map (time_of (tq_abs q)) ts" using notin by (simp add: time_of_def abs1)
    have "time_of (tq_abs q) t \<le> time_of (tq_abs q) u" if "u \<in> set ts" for u
    proof -
      have "u \<in> due now (tq_abs q)" using that r(3) due1 by simp
      then obtain tm os where "tq_abs q u = Some (tm, os)" unfolding due_def by blast
      with turn(5) [OF ne this] at show ?thesis by (simp add: time_of_def)
    qed
    then have "sorted (List.map (time_of (tq_abs q)) (t # ts))" using r(4) [unfolded times] by simp
    moreover have "distinct (t # ts)" "set (t # ts) = due now (tq_abs q)" using r(2,3) due1 tdue notin by auto
    moreover have "tq_abs q' = (\<lambda>u. if u \<in> due now (tq_abs q) then None else tq_abs q u)"
      unfolding r(6) due1 unfolding abs1 using tdue by auto
    ultimately show ?thesis using g r(5) by (intro exI [of _ "t # ts"] exI [of _ q']) blast
  qed
qed

text \<open>C4: \<open>get_ready_timers\<close> returns for every well-formed queue; it takes out exactly the timers whose
  expiry is not later than now, in the order of their expiries, and hands over all their
  operations, each successful and in the order it was enqueued.\<close>
theorem get_ready_timers_correct:
  assumes "tq_inv q"
  shows "\<exists>ts q'. get_ready_timers now [] q =
       Some (concat (List.map (\<lambda>t. List.map (\<lambda>w. w\<lparr>op_ec := Success\<rparr>) (ops_of (tq_abs q) t)) ts), q') \<and>
     distinct ts \<and> set ts = due now (tq_abs q) \<and> sorted (List.map (time_of (tq_abs q)) ts) \<and>
     tq_inv q' \<and> tq_abs q' = (\<lambda>t. if t \<in> due now (tq_abs q) then None else tq_abs q t)"
  using get_ready_from [OF assms, of now "[]"] by (simp add: take_ops_map)

text \<open>The waiting time given to the reactor is between 0 and the maximum, is 0 exactly when a timer is
  due, and, above one millisecond, ends before the earliest expiry.\<close>
theorem wait_duration_bounds:
  assumes "tq_inv q" "0 < per_msec" "0 < max_duration"
  shows "let r = wait_duration_msec per_msec now max_duration q in 0 \<le> r \<and> r \<le> max_duration \<and>
    (r = 0) = (due now (tq_abs q) \<noteq> {}) \<and>
    (1 < r \<longrightarrow> (\<forall>t tm os. tq_abs q t = Some (tm, os) \<longrightarrow> now + r * per_msec \<le> tm))"
proof -
  have ok: "tq_ok q" using assms(1) by (simp add: tq_inv_ok)
  show ?thesis
  proof (cases "timer_heap q = []")
    case True
    then have "tq_abs q u = None" for u using tq_abs_None [OF ok, of u] by (simp add: heap_timers_def)
    with True assms show ?thesis by (simp add: wait_duration_msec_def Let_def due_def)
  next
    case False
    let ?d = "key_at q 0 - now" let ?m = "?d div per_msec"
    note first = ready_turn(1,5) [OF assms(1) False]
    have due: "due now (tq_abs q) \<noteq> {} \<longleftrightarrow> ?d \<le> 0"
      using first by (fastforce simp: due_def)
    have m: "0 < ?d \<Longrightarrow> 0 \<le> ?m" using assms(2) by (simp add: pos_imp_zdiv_nonneg_iff)
    have md: "?m * per_msec \<le> ?d" using mult_div_mod_eq [of per_msec ?d] pos_mod_sign [OF assms(2), of ?d]
      by (simp only: mult.commute)
    have early: "now + r * per_msec \<le> key_at q 0" if "r \<le> ?m" for r
    proof -
      have "r * per_msec \<le> ?m * per_msec" by (rule mult_right_mono [OF that]) (use assms(2) in simp)
      with md show ?thesis by linarith
    qed
    have "now + r * per_msec \<le> tm" if "tq_abs q t = Some (tm, os)" "r \<le> ?m" for t tm os r
      using early [OF that(2)] first(2) [OF that(1)] by simp
    then show ?thesis
      using False assms(3) m due by (auto simp: wait_duration_msec_def to_msec_def Let_def)
  qed
qed

section \<open>Moving a timer\<close>

lemma move_per_timer:
  fixes q :: "'t timer_queue"
  assumes "dlist q (ys @ s # zs)" "t \<notin> set (ys @ s # zs)" "idle (per_timer q t)"
    "heap_index (per_timer q s) = Some i" "i < length (timer_heap q)"
  defines "q' \<equiv> move_timer t s q"
  shows "per_timer q' u =
    (if u = s then \<lparr>op_queue = [], heap_index = None, next_timer = None, prev_timer = None\<rparr>
     else if u = t then per_timer q s
     else if last_or None ys = Some u then (per_timer q u)\<lparr>next_timer := Some t\<rparr>
     else if first_or zs None = Some u then (per_timer q u)\<lparr>prev_timer := Some t\<rparr>
     else per_timer q u)"
    and "timers q' = first_or (ys @ t # zs) None" and "timer_heap q' = (timer_heap q)[i := (key_at q i, t)]"
proof -
  have seg: "prev_timer (per_timer q s) = last_or None ys" "next_timer (per_timer q s) = first_or zs None"
    using assms(1) dseg_middle [of "per_timer q" None ys s zs None] by (simp_all add: dlist_def)
  have d: "s \<notin> set ys" "s \<notin> set zs" "set ys \<inter> set zs = {}" using assms(1) by (simp_all add: dlist_def)
  have tn: "t \<noteq> s" "t \<notin> set ys" "t \<notin> set zs" using assms(2) by auto
  have hd: "timers q = first_or (ys @ s # zs) None" using assms(1) by (simp add: dlist_def)
  have L: "a \<in> set ys" if "last_or None ys = Some a" for a using that by (auto simp: last_or_def split: if_splits)
  have F: "b \<in> set zs" if "first_or zs None = Some b" for b using that by (cases zs) auto
  have opq: "op_queue (per_timer q t) = []" using assms(3) by (simp add: idle_def)
  show "per_timer q' u =
    (if u = s then \<lparr>op_queue = [], heap_index = None, next_timer = None, prev_timer = None\<rparr>
     else if u = t then per_timer q s
     else if last_or None ys = Some u then (per_timer q u)\<lparr>next_timer := Some t\<rparr>
     else if first_or zs None = Some u then (per_timer q u)\<lparr>prev_timer := Some t\<rparr>
     else per_timer q u)"
    using d tn assms(4,5) opq
    by (cases "last_or None ys"; cases "first_or zs None"; cases "timers q = Some s")
       (auto simp: q'_def move_timer_def Let_def seg dest!: L F)
  show "timer_heap q' = (timer_heap q)[i := (key_at q i, t)]"
    using assms(4,5) by (simp add: q'_def move_timer_def Let_def split: option.split)
  show "timers q' = first_or (ys @ t # zs) None"
  proof (cases ys)
    case Nil
    with hd seg assms(4,5) show ?thesis by (simp add: q'_def move_timer_def Let_def split: option.split)
  next
    case (Cons y ys')
    with hd d have "timers q = Some y" "y \<noteq> s" by auto
    with Cons assms(4,5) show ?thesis by (simp add: q'_def move_timer_def Let_def split: option.split)
  qed
qed

text \<open>Moving an active timer to an idle one keeps the invariant and gives the target the source's
  expiry and operations.\<close>
theorem move_timer_correct:
  assumes "tq_inv q" "tq_abs q s = Some (tm, os)" "tq_abs q t = None"
  shows "tq_inv (move_timer t s q) \<and> tq_abs (move_timer t s q) = (tq_abs q)(s := None, t \<mapsto> (tm, os))"
proof -
  have ok: "tq_ok q" and ne: "\<forall>u \<in> heap_timers q. op_queue (per_timer q u) \<noteq> []" using assms(1) by (simp_all add: tq_inv_ok)
  obtain i where i: "i < length (timer_heap q)" "timer_heap q ! i = (tm, s)" "heap_index (per_timer q s) = Some i"
    using tq_abs_at [OF ok assms(2)] by blast
  have s: "s \<in> heap_timers q" and os: "os = op_queue (per_timer q s)" using active_timer [OF ok assms(2)] by simp_all
  have t: "t \<notin> heap_timers q" using tq_abs_None [OF ok, of t] assms(3) by simp
  have idle: "idle (per_timer q t)" by (rule tq_okD(3) [OF ok t])
  obtain xs where xs: "dlist q xs" "set xs = heap_timers q" using tq_okD(4) [OF ok] by blast
  have "s \<in> set xs" using s xs(2) by simp
  then obtain ys zs where sp: "xs = ys @ s # zs" by (meson split_list)
  have tx: "t \<notin> set (ys @ s # zs)" using t xs(2) sp by auto
  let ?r = "move_timer t s q"
  note mv = move_per_timer [OF xs(1) [unfolded sp] tx idle i(3,1)]
  have st: "s \<noteq> t" using tx by auto
  have d: "s \<notin> set ys" "s \<notin> set zs" "set ys \<inter> set zs = {}" "distinct ys" "distinct zs" "t \<notin> set ys" "t \<notin> set zs"
    using xs(1) sp tx by (auto simp: dlist_def)
  have segs: "dseg (per_timer q) None ys (Some s)" "dseg (per_timer q) (Some s) zs None"
    "prev_timer (per_timer q s) = last_or None ys" "next_timer (per_timer q s) = first_or zs None"
    using xs(1) sp by (simp_all add: dlist_def dseg_append)
  have s1: "dseg (per_timer ?r) None ys (Some t)"
  proof (cases ys rule: rev_cases)
    case (snoc ys' p)
    have "dseg (per_timer ?r) None (ys' @ [p]) (Some t)"
      by (rule dseg_new_end [OF segs(1) [unfolded snoc]]) (use d snoc in \<open>cases zs; auto simp: mv(1)\<close>)+
    with snoc show ?thesis by simp
  qed simp
  have s2: "dseg (per_timer ?r) (Some t) zs None"
  proof (cases zs)
    case (Cons n zs')
    have "dseg (per_timer ?r) (Some t) (n # zs') None"
      by (rule dseg_new_start [OF segs(2) [unfolded Cons]]) (use d Cons in \<open>cases ys rule: rev_cases; auto simp: mv(1)\<close>)+
    with Cons show ?thesis by simp
  qed simp
  have dl: "dlist ?r (ys @ t # zs)"
    using s1 s2 segs(3,4) mv(2) d st by (simp add: dlist_def dseg_append mv(1))
  have idx: "heap_index (per_timer ?r u) = (if u = s then None else if u = t then Some i else heap_index (per_timer q u))"
    and ops: "op_queue (per_timer ?r u) = (if u = s then [] else if u = t then os else op_queue (per_timer q u))" for u
    using i(3) os by (simp_all add: mv(1))
  have dist: "k < length (timer_heap q) \<Longrightarrow> snd (timer_heap q ! k) = s \<longleftrightarrow> k = i" for k
    using index_ok_inj [OF tq_okD(1) [OF ok] _ i(1), of k] i(2) by auto
  have notk: "k < length (timer_heap q) \<Longrightarrow> snd (timer_heap q ! k) \<noteq> t" for k
    using heap_timers_nth [of k q] t by auto
  have hp: "timer_heap ?r = (timer_heap q)[i := (tm, t)]" using mv(3) i(2) by simp
  have "index_ok ?r"
    using index_ok_nth [OF tq_okD(1) [OF ok]] dist notk st i(1) by (auto simp: index_ok_def hp nth_list_update idx)
  moreover have keys: "keys ?r = keys q" using i(1,2) by (simp add: keys_def hp map_update) (metis fst_conv list_update_id nth_map)
  moreover have ht: "heap_timers ?r = insert t (heap_timers q - {s})"
  proof -
    have "set ((timer_heap q)[i := (tm, t)]) = insert (tm, t) (set (timer_heap q) - {(tm, s)})"
    proof -
      have "distinct (timer_heap q)" using index_ok_distinct [OF tq_okD(1) [OF ok]] by (simp add: distinct_map)
      from set_update_distinct [OF this i(1)] i(2) show ?thesis by simp
    qed
    moreover have "snd p = s \<longleftrightarrow> p = (tm, s)" if "p \<in> set (timer_heap q)" for p
      using that dist i(2) by (metis in_set_conv_nth snd_conv)
    ultimately show ?thesis unfolding heap_timers_def hp by force
  qed
  moreover have "set (ys @ t # zs) = heap_timers ?r" using xs(2) sp ht d by auto
  moreover have "idle (per_timer ?r u)" if "u \<notin> heap_timers ?r" for u
  proof (cases "u = s")
    case True then show ?thesis by (simp add: mv(1) idle_def)
  next
    case False
    with that ht have u: "u \<notin> heap_timers q" "u \<noteq> t" by auto
    then have "u \<notin> set ys" "u \<notin> set zs" using xs(2) sp by auto
    then have "last_or None ys \<noteq> Some u" "first_or zs None \<noteq> Some u"
      by (auto simp: last_or_def) (cases zs, auto)
    with u False tq_okD(3) [OF ok, of u] show ?thesis by (simp add: mv(1))
  qed
  ultimately have ok': "tq_ok ?r" unfolding tq_ok_def using dl tq_okD(2) [OF ok] by (metis (no_types, lifting))
  have "tq_inv ?r" using ok' ht ops ne s os st by (auto simp: tq_inv_ok)
  moreover have "tq_abs ?r u = ((tq_abs q)(s := None, t \<mapsto> (tm, os))) u" for u
    using i(1,2) st
    by (cases "heap_index (per_timer q u)") (auto simp: tq_abs_def idx ops hp nth_list_update dist)
  ultimately show ?thesis by auto
qed

section \<open>Shutting down\<close>

lemma get_all_loop_run:
  "timers q = first_or xs None \<Longrightarrow> dseg (per_timer q) p xs None \<Longrightarrow> distinct xs \<Longrightarrow>
     \<exists>q'. get_all_loop ops q = Some (ops @ concat (List.map (\<lambda>t. op_queue (per_timer q t)) xs), q') \<and> timers q' = None"
proof (induction xs arbitrary: p ops q)
  case Nil
  then show ?case by (subst get_all_loop.simps) simp
next
  case (Cons t xs)
  let ?r = "upd_timer t (\<lambda>d. d\<lparr>op_queue := [], next_timer := None, prev_timer := None\<rparr>) (q\<lparr>timers := next_timer (per_timer q t)\<rparr>)"
  have same: "u \<in> set xs \<Longrightarrow> per_timer ?r u = per_timer q u" for u using Cons.prems(3) by auto
  have tr: "timers ?r = first_or xs None" using Cons.prems(2) by simp
  have seg: "dseg (per_timer ?r) (Some t) xs None"
    using Cons.prems(2) dseg_cong [of xs "per_timer ?r" "per_timer q" "Some t" None] same by simp
  have dist: "distinct xs" using Cons.prems(3) by simp
  obtain q' where r:
    "get_all_loop (ops @ op_queue (per_timer q t)) ?r =
       Some ((ops @ op_queue (per_timer q t)) @ concat (List.map (\<lambda>u. op_queue (per_timer ?r u)) xs), q')" "timers q' = None"
    using Cons.IH [OF tr seg dist, of "ops @ op_queue (per_timer q t)"] by blast
  have "get_all_loop ops q = get_all_loop (ops @ op_queue (per_timer q t)) ?r"
    using Cons.prems(1) by (subst get_all_loop.simps) simp
  moreover have "List.map (\<lambda>u. op_queue (per_timer ?r u)) xs = List.map (\<lambda>u. op_queue (per_timer q u)) xs"
    using same by (intro map_cong refl) simp
  ultimately show ?case using r by (simp del: upd_timer_simps)
qed

text \<open>\<open>get_all_timers\<close> returns for every well-formed queue, with the operations of every active timer
  exactly once, and leaves an empty queue.\<close>
theorem get_all_timers_correct:
  assumes "tq_inv q"
  shows "\<exists>ts q'. get_all_timers q = Some (concat (List.map (ops_of (tq_abs q)) ts), q') \<and>
    distinct ts \<and> set ts = dom (tq_abs q) \<and> queue_is_empty q' \<and> timer_heap q' = []"
proof -
  have ok: "tq_ok q" using assms by (simp add: tq_inv_ok)
  obtain xs where xs: "dlist q xs" "set xs = heap_timers q" using tq_okD(4) [OF ok] by blast
  then obtain q' where r: "get_all_loop [] q = Some (concat (List.map (\<lambda>t. op_queue (per_timer q t)) xs), q')" "timers q' = None"
    using get_all_loop_run [of q xs None "[]"] by (auto simp: dlist_def)
  have "op_queue (per_timer q t) = ops_of (tq_abs q) t" if "t \<in> set xs" for t
  proof -
    have "tq_abs q t \<noteq> None" using that tq_abs_None [OF ok, of t] unfolding xs(2) by blast
    then obtain tm os where "tq_abs q t = Some (tm, os)" by auto
    with active_timer [OF ok this] show ?thesis by (simp add: ops_of_def)
  qed
  then have m: "List.map (\<lambda>t. op_queue (per_timer q t)) xs = List.map (ops_of (tq_abs q)) xs" by simp
  have "get_all_timers q = Some (concat (List.map (ops_of (tq_abs q)) xs), q'\<lparr>timer_heap := []\<rparr>)"
    unfolding get_all_timers_def r(1) m by simp
  moreover have "set xs = dom (tq_abs q)" using xs(2) tq_abs_None [OF ok] by (auto simp: dom_def)
  moreover have "distinct xs" using xs(1) by (simp add: dlist_def)
  moreover have "queue_is_empty (q'\<lparr>timer_heap := []\<rparr>)" "timer_heap (q'\<lparr>timer_heap := []\<rparr>) = []"
    using r(2) by (simp_all add: queue_is_empty_def)
  ultimately show ?thesis by blast
qed

section \<open>Example\<close>

definition op_named :: "nat \<Rightarrow> wait_op" where
  "op_named n = \<lparr>op_id = n, cancellation_key = n, op_ec = Pending\<rparr>"

text \<open>Three timers: 10 expiring at 50, 11 at 20 with two operations, 12 at 30.\<close>

definition tq_example :: "int timer_queue" where
  "tq_example = snd (enqueue_timer 99 11 (op_named 4) (snd (enqueue_timer 30 12 (op_named 3)
     (snd (enqueue_timer 20 11 (op_named 2) (snd (enqueue_timer 50 10 (op_named 1) new_timer_queue)))))))"

definition tq_example_map :: "nat \<Rightarrow> (int \<times> wait_op list) option" where
  "tq_example_map = [10 \<mapsto> (50, [op_named 1]), 11 \<mapsto> (20, [op_named 2, op_named 4]), 12 \<mapsto> (30, [op_named 3])]"

lemma tq_example_ok: "tq_inv tq_example" "tq_abs tq_example = tq_example_map"
proof -
  have step: "tq_inv (snd (enqueue_timer time t w q)) \<and> tq_abs (snd (enqueue_timer time t w q)) =
      (tq_abs q)(t \<mapsto> (case tq_abs q t of None \<Rightarrow> (time, [w]) | Some (tm, os) \<Rightarrow> (tm, os @ [w])))"
    if "tq_inv q" for time :: int and t w q
    using enqueue_timer_keeps [OF that prod.collapse [symmetric]] by blast
  note s1 = step [OF new_timer_queue_inv, of 50 10 "op_named 1"]
  note s2 = step [OF conjunct1 [OF s1], of 20 11 "op_named 2"]
  note s3 = step [OF conjunct1 [OF s2], of 30 12 "op_named 3"]
  note s4 = step [OF conjunct1 [OF s3], of 99 11 "op_named 4"]
  show "tq_inv tq_example" unfolding tq_example_def using s4 by blast
  show "tq_abs tq_example = tq_example_map"
    unfolding tq_example_def using s1 s2 s3 s4 by (auto simp: new_timer_queue_abs tq_example_map_def)
qed

lemma enqueue_timer_correct_witness:
  "tq_inv (snd (enqueue_timer 10 13 (op_named 5) tq_example)) \<and>
     tq_abs (snd (enqueue_timer 10 13 (op_named 5) tq_example)) = tq_example_map(13 \<mapsto> (10, [op_named 5]))"
  using enqueue_timer_correct [OF tq_example_ok(1) prod.collapse [symmetric], of 10 13 "op_named 5"]
  by (auto simp: tq_example_ok(2) tq_example_map_def)

lemma cancel_timer_correct_witness:
  "cancel_timer 11 1 tq_example = (1, [(op_named 2)\<lparr>op_ec := OperationAborted\<rparr>], snd (snd (cancel_timer 11 1 tq_example))) \<and>
     tq_abs (snd (snd (cancel_timer 11 1 tq_example))) = tq_example_map(11 \<mapsto> (20, [op_named 4]))"
proof -
  have "cancel_timer 11 1 tq_example = (fst (cancel_timer 11 1 tq_example), fst (snd (cancel_timer 11 1 tq_example)),
      snd (snd (cancel_timer 11 1 tq_example)))" by simp
  from cancel_timer_correct [OF tq_example_ok(1) this] show ?thesis
    by (auto simp: tq_example_ok(2) tq_example_map_def ops_of_def time_of_def prod_eq_iff)
qed

lemma get_ready_timers_correct_witness:
  "\<exists>ts q'. get_ready_timers 30 [] tq_example =
       Some (concat (List.map (\<lambda>t. List.map (\<lambda>w. w\<lparr>op_ec := Success\<rparr>) (ops_of tq_example_map t)) ts), q') \<and>
     distinct ts \<and> set ts = due 30 tq_example_map \<and> sorted (List.map (time_of tq_example_map) ts) \<and>
     tq_inv q' \<and> tq_abs q' = (\<lambda>t. if t \<in> due 30 tq_example_map then None else tq_example_map t)"
  using get_ready_timers_correct [OF tq_example_ok(1), of 30] by (simp only: tq_example_ok(2))

lemma wait_duration_bounds_witness:
  "0 \<le> wait_duration_msec 10 15 100 tq_example \<and> wait_duration_msec 10 15 100 tq_example \<le> 100"
  using wait_duration_bounds [OF tq_example_ok(1), of 10 100 15] by (simp add: Let_def)

lemma move_timer_correct_witness:
  "tq_inv (move_timer 14 11 tq_example) \<and>
     tq_abs (move_timer 14 11 tq_example) = tq_example_map(11 := None, 14 \<mapsto> (20, [op_named 2, op_named 4]))"
  using move_timer_correct [OF tq_example_ok(1), of 11 20 "[op_named 2, op_named 4]" 14]
  by (simp add: tq_example_ok(2) tq_example_map_def)

lemma get_all_timers_correct_witness:
  "\<exists>ts q'. get_all_timers tq_example = Some (concat (List.map (ops_of tq_example_map) ts), q') \<and>
    distinct ts \<and> set ts = dom tq_example_map \<and> queue_is_empty q' \<and> timer_heap q' = []"
  using get_all_timers_correct [OF tq_example_ok(1)] by (simp only: tq_example_ok(2))

end
