(* ===== verification/AsioTransfer.thy ===== *)
theory AsioTransfer
  imports EchoServers
begin

text \<open>
  The composed transfers of the Asio library that the network programs call: a loop of
  short reads or writes (\<open>impl/read.hpp\<close>, \<open>write.hpp\<close>, \<open>read_at.hpp\<close>, \<open>write_at.hpp\<close>) over a
  buffer sequence (\<open>detail/consuming_buffers.hpp\<close>) until a condition
  (\<open>completion_condition.hpp\<close>) or an error ends it, and the asynchronous forms.
\<close>

section \<open>Completion conditions\<close>

text \<open>The largest size of the next transfer; 0 ends the operation.\<close>

type_synonym completion_condition = "net_error option \<Rightarrow> nat \<Rightarrow> nat"

definition default_max_transfer_size :: nat where "default_max_transfer_size = 65536"

definition adapt_bool_condition :: "bool \<Rightarrow> nat" where
  "adapt_bool_condition complete = (if complete then 0 else default_max_transfer_size)"

definition transfer_all :: completion_condition where
  "transfer_all ec n = (if ec \<noteq> None then 0 else default_max_transfer_size)"

definition transfer_at_least :: "nat \<Rightarrow> completion_condition" where
  "transfer_at_least minimum ec n = (if ec \<noteq> None \<or> n \<ge> minimum then 0 else default_max_transfer_size)"

definition transfer_exactly :: "nat \<Rightarrow> completion_condition" where
  "transfer_exactly amount ec n = (if ec \<noteq> None \<or> n \<ge> amount then 0
     else if amount - n < default_max_transfer_size then amount - n else default_max_transfer_size)"

section \<open>The buffers still to be transferred\<close>

record consuming_buffers =
  cb_buffers :: "nat list"           \<comment> \<open>the sizes of the buffers\<close>
  cb_total_size :: nat
  cb_total_consumed :: nat
  cb_next_elem :: nat
  cb_next_offset :: nat

definition new_consuming :: "nat list \<Rightarrow> consuming_buffers" where
  "new_consuming bs = \<lparr>cb_buffers = bs, cb_total_size = sum_list bs, cb_total_consumed = 0, cb_next_elem = 0, cb_next_offset = 0\<rparr>"

definition cb_empty :: "consuming_buffers \<Rightarrow> bool" where
  "cb_empty cb \<longleftrightarrow> cb_total_consumed cb \<ge> cb_total_size cb"

text \<open>A prepared buffer: which one, from where, how many bytes. \<open>k\<close> is the number of buffers the
  result can hold (\<open>prepared_buffers::max_buffers\<close>).\<close>

type_synonym slice = "nat \<times> nat \<times> nat"

definition prepared_max :: "nat \<Rightarrow> nat" where
  "prepared_max n = (if n < 16 then n else 16)"

fun prepare_loop :: "nat \<Rightarrow> nat \<Rightarrow> nat \<Rightarrow> nat \<Rightarrow> nat list \<Rightarrow> slice list" where
  "prepare_loop k i off m [] = []"
| "prepare_loop k i off m (s # ss) = (if m > 0 \<and> k > 0 then
       (let offset = min off s; n = min (s - offset) m
        in if n > 0 then (i, offset, n) # prepare_loop (k - 1) (Suc i) 0 (m - n) ss
           else prepare_loop k (Suc i) 0 (m - n) ss)
     else [])"

definition cb_prepare :: "nat \<Rightarrow> nat \<Rightarrow> consuming_buffers \<Rightarrow> slice list" where
  "cb_prepare k max_size cb =
     prepare_loop k (cb_next_elem cb) (cb_next_offset cb) max_size (drop (cb_next_elem cb) (cb_buffers cb))"

fun consume_loop :: "nat \<Rightarrow> nat \<Rightarrow> nat \<Rightarrow> nat list \<Rightarrow> nat \<times> nat" where
  "consume_loop sz i off [] = (i, off)"
| "consume_loop sz i off (s # ss) = (if sz > 0 then
       (let n = s - min off s
        in if sz < n then (i, off + sz) else consume_loop (sz - n) (Suc i) 0 ss)
     else (i, off))"

definition cb_consume :: "nat \<Rightarrow> consuming_buffers \<Rightarrow> consuming_buffers" where
  "cb_consume sz cb =
     (case consume_loop sz (cb_next_elem cb) (cb_next_offset cb) (drop (cb_next_elem cb) (cb_buffers cb)) of
        (i, off) \<Rightarrow> cb\<lparr>cb_total_consumed := cb_total_consumed cb + sz, cb_next_elem := i, cb_next_offset := off\<rparr>)"

text \<open>The memory the buffers are in, one string for each; reading a prepared sequence and filling it.\<close>

definition slices_size :: "slice list \<Rightarrow> nat" where
  "slices_size sl = sum_list (List.map (\<lambda>(i, off, n). n) sl)"

definition gather :: "string list \<Rightarrow> slice list \<Rightarrow> string" where
  "gather mem sl = concat (List.map (\<lambda>(i, off, n). take n (drop off (mem ! i))) sl)"

fun scatter :: "string list \<Rightarrow> slice list \<Rightarrow> string \<Rightarrow> string list" where
  "scatter mem [] d = mem"
| "scatter mem ((i, off, n) # sl) d =
     scatter (mem[i := take off (mem ! i) @ take n d @ drop (off + min n (length d)) (mem ! i)]) sl (drop n d)"

section \<open>The loop\<close>

text \<open>The four functions are one loop around the transfer of the stream or device, which takes the
  prepared buffers and the number of bytes transferred so far.\<close>

type_synonym 's transfer = "slice list \<Rightarrow> nat \<Rightarrow> 's \<Rightarrow> nat \<times> net_error option \<times> 's"

partial_function (option) transfer_loop ::
    "'s transfer \<Rightarrow> completion_condition \<Rightarrow> nat \<Rightarrow> net_error option \<Rightarrow> consuming_buffers \<Rightarrow> 's
       \<Rightarrow> (nat \<times> net_error option \<times> 's) option" where
  "transfer_loop xfer cond k ec cb s =
     (if cb_empty cb then Some (cb_total_consumed cb, ec, s)
      else (let max_size = cond ec (cb_total_consumed cb) in
        if max_size \<noteq> 0 then
          (case xfer (cb_prepare k max_size cb) (cb_total_consumed cb) s of
             (n, ec', s') \<Rightarrow> transfer_loop xfer cond k ec' (cb_consume n cb) s')
        else Some (cb_total_consumed cb, ec, s)))"

text \<open>The operations of the stream or device are arguments: they take the prepared buffers, a
  device also the offset, and change the state of the outside world.\<close>

definition asio_write :: "nat \<Rightarrow> completion_condition \<Rightarrow> (slice list \<Rightarrow> 's \<Rightarrow> nat \<times> net_error option \<times> 's) \<Rightarrow> nat list \<Rightarrow> 's
    \<Rightarrow> (nat \<times> net_error option \<times> 's) option" where
  "asio_write k cond stream_write bs = transfer_loop (\<lambda>sl total. stream_write sl) cond k None (new_consuming bs)"

definition read_buffer_seq :: "nat \<Rightarrow> completion_condition \<Rightarrow> (slice list \<Rightarrow> 's \<Rightarrow> nat \<times> net_error option \<times> 's) \<Rightarrow> nat list \<Rightarrow> 's
    \<Rightarrow> (nat \<times> net_error option \<times> 's) option" where
  "read_buffer_seq k cond stream_read bs = transfer_loop (\<lambda>sl total. stream_read sl) cond k None (new_consuming bs)"

definition read_at_buffer_sequence :: "nat \<Rightarrow> completion_condition \<Rightarrow> (64 word \<Rightarrow> slice list \<Rightarrow> 's \<Rightarrow> nat \<times> net_error option \<times> 's)
    \<Rightarrow> 64 word \<Rightarrow> nat list \<Rightarrow> 's \<Rightarrow> (nat \<times> net_error option \<times> 's) option" where
  "read_at_buffer_sequence k cond device_read offset bs =
     transfer_loop (\<lambda>sl total. device_read (offset + of_nat total) sl) cond k None (new_consuming bs)"

definition write_at_buffer_sequence :: "nat \<Rightarrow> completion_condition \<Rightarrow> (64 word \<Rightarrow> slice list \<Rightarrow> 's \<Rightarrow> nat \<times> net_error option \<times> 's)
    \<Rightarrow> 64 word \<Rightarrow> nat list \<Rightarrow> 's \<Rightarrow> (nat \<times> net_error option \<times> 's) option" where
  "write_at_buffer_sequence k cond device_write offset bs =
     transfer_loop (\<lambda>sl total. device_write (offset + of_nat total) sl) cond k None (new_consuming bs)"

text \<open>The overload without a condition and an error code transfers everything or throws.\<close>

definition asio_write_throwing :: "nat \<Rightarrow> (slice list \<Rightarrow> 's \<Rightarrow> nat \<times> net_error option \<times> 's) \<Rightarrow> nat list \<Rightarrow> 's
    \<Rightarrow> (net_error + nat) option" where
  "asio_write_throwing k stream_write bs s = (case asio_write k transfer_all stream_write bs s of
       None \<Rightarrow> None
     | Some (n, None, s') \<Rightarrow> Some (Inr n)
     | Some (n, Some e, s') \<Rightarrow> Some (Inl e))"

definition asio_read_throwing :: "nat \<Rightarrow> (slice list \<Rightarrow> 's \<Rightarrow> nat \<times> net_error option \<times> 's) \<Rightarrow> nat list \<Rightarrow> 's
    \<Rightarrow> (net_error + nat \<times> 's) option" where
  "asio_read_throwing k stream_read bs s = (case read_buffer_seq k transfer_all stream_read bs s of
       None \<Rightarrow> None
     | Some (n, None, s') \<Rightarrow> Some (Inr (n, s'))
     | Some (n, Some e, s') \<Rightarrow> Some (Inl e))"

section \<open>The asynchronous operations\<close>

text \<open>A \<open>write_op\<close> or \<open>read_op\<close> is called once to start it and then with the result of every transfer;
  it starts another transfer or calls the handler. \<open>cancelled\<close> tells whether a cancellation
  has been signalled by the time of the call.\<close>

datatype op_step =
    StartTransfer "slice list" consuming_buffers
  | CallHandler "net_error option" nat

definition operation_aborted :: net_error where "operation_aborted = NetError 125"

definition composed_start :: "nat \<Rightarrow> completion_condition \<Rightarrow> consuming_buffers \<Rightarrow> op_step" where
  "composed_start k cond cb = StartTransfer (cb_prepare k (cond None (cb_total_consumed cb)) cb) cb"

definition composed_call :: "nat \<Rightarrow> completion_condition \<Rightarrow> bool \<Rightarrow> net_error option \<Rightarrow> nat \<Rightarrow> consuming_buffers \<Rightarrow> op_step" where
  "composed_call k cond cancelled ec n cb =
     (let cb' = cb_consume n cb in
      if ec = None \<and> n = 0 \<or> cb_empty cb' then CallHandler ec (cb_total_consumed cb')
      else (let max_size = cond ec (cb_total_consumed cb') in
        if max_size = 0 then CallHandler ec (cb_total_consumed cb')
        else if cancelled then CallHandler (Some operation_aborted) (cb_total_consumed cb')
        else StartTransfer (cb_prepare k max_size cb') cb'))"

text \<open>The stream performs the started transfer and calls the operation; \<open>cancel i\<close> is whether a
  cancellation was signalled before the completion \<open>i\<close>.\<close>

partial_function (option) composed_run ::
    "(slice list \<Rightarrow> 's \<Rightarrow> nat \<times> net_error option \<times> 's) \<Rightarrow> completion_condition \<Rightarrow> nat \<Rightarrow> (nat \<Rightarrow> bool) \<Rightarrow> nat \<Rightarrow> op_step \<Rightarrow> 's
       \<Rightarrow> (nat \<times> net_error option \<times> 's) option" where
  "composed_run xfer cond k cancel i st s = (case st of
       CallHandler ec n \<Rightarrow> Some (n, ec, s)
     | StartTransfer sl cb \<Rightarrow> (case xfer sl s of
           (n, ec, s') \<Rightarrow> composed_run xfer cond k cancel (Suc i) (composed_call k cond (cancel i) ec n cb) s'))"

definition async_transfer :: "nat \<Rightarrow> completion_condition \<Rightarrow> (slice list \<Rightarrow> 's \<Rightarrow> nat \<times> net_error option \<times> 's) \<Rightarrow> (nat \<Rightarrow> bool)
    \<Rightarrow> nat list \<Rightarrow> 's \<Rightarrow> (nat \<times> net_error option \<times> 's) option" where
  "async_transfer k cond xfer cancel bs = composed_run xfer cond k cancel 0 (composed_start k cond (new_consuming bs))"

section \<open>Streams\<close>

text \<open>What the programs' sockets do with the prepared buffers. Writing: the answer \<open>ans i\<close> to the
  call \<open>i\<close> is how many bytes the network takes, and the error; the state is the number of
  the call and what was sent. Reading: \<open>read_some\<close> from the segments, then the error \<open>e\<close>;
  a read into no space returns at once.\<close>

definition net_write_some :: "string list \<Rightarrow> (nat \<Rightarrow> nat \<times> net_error option) \<Rightarrow> slice list \<Rightarrow> nat \<times> string
    \<Rightarrow> nat \<times> net_error option \<times> nat \<times> string" where
  "net_write_some mem ans sl s = (case s of (i, sent) \<Rightarrow>
     (let n = min (fst (ans i)) (slices_size sl) in (n, snd (ans i), Suc i, sent @ take n (gather mem sl))))"

definition net_read_some :: "net_error \<Rightarrow> slice list \<Rightarrow> string list \<times> string list
    \<Rightarrow> nat \<times> net_error option \<times> string list \<times> string list" where
  "net_read_some e sl s = (case s of (mem, cs) \<Rightarrow>
     if slices_size sl = 0 then (0, None, s)
     else (case read_some (slices_size sl) cs of
         None \<Rightarrow> (0, Some e, mem, cs)
       | Some (d, cs') \<Rightarrow> (length d, None, scatter mem sl d, cs')))"

end
