(* ===== verification/AsioTransferRefine.thy ===== *)
theory AsioTransferRefine
  imports AsioTransfer
begin

text \<open>
  The buffer proxy of \<open>AsioTransfer\<close> is a position in the concatenated buffers; the loop
  transfers a prefix of them, ends on every stream that keeps its contract, and the
  asynchronous operation transfers the same.
\<close>

section \<open>Positions\<close>

definition at_position :: "nat list \<Rightarrow> nat \<Rightarrow> nat \<Rightarrow> nat \<Rightarrow> bool" where
  "at_position bs i off pos \<longleftrightarrow> i \<le> length bs \<and> pos = sum_list (take i bs) + off \<and>
     (i < length bs \<longrightarrow> off \<le> bs ! i) \<and> (i = length bs \<longrightarrow> off = 0)"

definition cb_ok :: "nat list \<Rightarrow> consuming_buffers \<Rightarrow> bool" where
  "cb_ok bs cb \<longleftrightarrow> cb_buffers cb = bs \<and> cb_total_size cb = sum_list bs \<and> cb_total_consumed cb \<le> sum_list bs \<and>
     at_position bs (cb_next_elem cb) (cb_next_offset cb) (cb_total_consumed cb)"

lemma cb_ok_new: "cb_ok bs (new_consuming bs)"
  by (auto simp: cb_ok_def new_consuming_def at_position_def)

lemma at_position_drop:
  assumes "at_position (List.map length mem) i off pos"
  shows "drop pos (concat mem) = drop off (concat (drop i mem))"
proof -
  have "concat mem = concat (take i mem) @ concat (drop i mem)" by (metis append_take_drop_id concat_append)
  moreover have "length (concat (take i mem)) = sum_list (take i (List.map length mem))"
    by (simp add: length_concat take_map)
  ultimately show ?thesis using assms by (simp add: at_position_def)
qed

lemma consume_loop_position:
  assumes "at_position bs i off pos" "pos + n \<le> sum_list bs" "ss = drop i bs"
  shows "case consume_loop n i off ss of (j, off') \<Rightarrow> at_position bs j off' (pos + n)"
  using assms
proof (induction n i off ss arbitrary: pos rule: consume_loop.induct)
  case (1 n i off)
  then have "i = length bs" "off = 0" by (auto simp: at_position_def)
  with 1 show ?case by (simp add: at_position_def)
next
  case (2 n i off s ss)
  have i: "i < length bs" "bs ! i = s" "ss = drop (Suc i) bs"
    using 2(4) by (metis drop_eq_Nil leI list.distinct(1), metis nth_via_drop, metis drop_Suc list.sel(3) tl_drop)
  have off: "off \<le> s" using 2(2) i by (auto simp: at_position_def)
  show ?case
  proof (cases "n > 0 \<and> \<not> n < s - min off s")
    case True
    let ?n = "s - min off s"
    have "sum_list (take (Suc i) bs) = sum_list (take i bs) + s" using i by (simp add: take_Suc_conv_app_nth)
    with 2(2) i off True have "at_position bs (Suc i) 0 (pos + ?n)" by (auto simp: at_position_def)
    from 2(1) [OF _ refl _ this _ i(3)] True 2(3) show ?thesis by auto
  next
    case False
    then have "consume_loop n i off (s # ss) = (i, off + n)" by (cases "n = 0") (auto simp: Let_def)
    with 2(2) i off False show ?thesis by (auto simp: at_position_def)
  qed
qed

lemma cb_ok_consume:
  assumes "cb_ok bs cb" "cb_total_consumed cb + n \<le> sum_list bs"
  shows "cb_ok bs (cb_consume n cb) \<and> cb_total_consumed (cb_consume n cb) = cb_total_consumed cb + n"
  using assms consume_loop_position [of bs "cb_next_elem cb" "cb_next_offset cb" "cb_total_consumed cb" n]
  by (auto simp: cb_ok_def cb_consume_def split: prod.splits)

section \<open>Prepared buffers\<close>

lemma slices_size_simps [simp]: "slices_size [] = 0" "slices_size ((i, off, n) # sl) = n + slices_size sl"
  by (simp_all add: slices_size_def)

lemma gather_simps [simp]: "gather mem [] = []" "gather mem ((i, off, n) # sl) = take n (drop off (mem ! i)) @ gather mem sl"
  by (simp_all add: gather_def)

lemma prepare_bounds: "slices_size (prepare_loop k i off m ss) \<le> m"
proof (induction k i off m ss rule: prepare_loop.induct)
  case (2 k i off m s ss)
  let ?n = "min (s - min off s) m"
  show ?case
  proof (cases "m > 0 \<and> k > 0")
    case True
    note h = True
    show ?thesis
    proof (cases "?n > 0")
      case True
      from 2(1) [OF h refl refl this] have "slices_size (prepare_loop (k - 1) (Suc i) 0 (m - ?n) ss) \<le> m - ?n" .
      with h True show ?thesis by (simp add: Let_def) linarith
    next
      case False
      from 2(2) [OF h refl refl this] False h show ?thesis by (auto simp: Let_def)
    qed
  qed auto
qed simp

lemma prepare_progress: "0 < k \<Longrightarrow> 0 < m \<Longrightarrow> off < sum_list ss \<Longrightarrow> (ss \<noteq> [] \<longrightarrow> off \<le> hd ss) \<Longrightarrow>
   0 < slices_size (prepare_loop k i off m ss)"
  by (induction k i off m ss rule: prepare_loop.induct) (auto simp: Let_def)

text \<open>Gathering the prepared buffers reads on from the position.\<close>

lemma gather_prepare:
  assumes "ms = drop i mem" "ms \<noteq> [] \<longrightarrow> off \<le> length (hd ms)" "ms = [] \<longrightarrow> off = 0"
  shows "gather mem (prepare_loop k i off m (List.map length ms)) =
    take (slices_size (prepare_loop k i off m (List.map length ms))) (drop off (concat ms))"
  using assms
proof (induction ms arbitrary: k i off m)
  case (Cons b ms)
  have i: "mem ! i = b" "ms = drop (Suc i) mem"
    using Cons.prems(1) by (metis nth_via_drop, metis drop_Suc list.sel(3) tl_drop)
  have off: "off \<le> length b" using Cons.prems(2) by simp
  let ?n = "min (length b - off) m"
  have IH: "gather mem (prepare_loop k' (Suc i) 0 m' (List.map length ms)) =
      take (slices_size (prepare_loop k' (Suc i) 0 m' (List.map length ms))) (concat ms)" for k' m'
    using Cons.IH [OF i(2), of 0 k' m'] by simp
  show ?case
  proof (cases "m > 0 \<and> k > 0")
    case True
    show ?thesis
    proof (cases "?n > 0")
      case n: True
      let ?r = "prepare_loop (k - 1) (Suc i) 0 (m - ?n) (List.map length ms)"
      have p: "prepare_loop k i off m (List.map length (b # ms)) = (i, off, ?n) # ?r" using True n off by (simp add: Let_def min_absorb1)
      show ?thesis
      proof (cases "length b - off \<le> m")
        case le: True
        then have "?n = length b - off" by simp
        with i(1) off IH [of "k - 1" "m - ?n"] show ?thesis unfolding p by simp
      next
        case False
        then have "?n = m" by simp
        then have "?r = []" by (cases ms) auto
        with False i off p show ?thesis by simp
      qed
    next
      case False
      then have "prepare_loop k i off m (List.map length (b # ms)) = prepare_loop k (Suc i) 0 m (List.map length ms)" "drop off b = []"
        using True off by (auto simp: Let_def min_absorb1)
      with off show ?thesis by (simp add: IH)
    qed
  qed auto
qed simp

text \<open>Filling them writes on from the position and nothing else.\<close>

lemma scatter_prepare:
  assumes "ms = drop i mem" "ms \<noteq> [] \<longrightarrow> off \<le> length (hd ms)" "ms = [] \<longrightarrow> off = 0" "i \<le> length mem"
    "length d \<le> slices_size (prepare_loop k i off m (List.map length ms))"
  shows "let mem' = scatter mem (prepare_loop k i off m (List.map length ms)) d in
    List.map length mem' = List.map length mem \<and> take i mem' = take i mem \<and>
    concat (drop i mem') = take off (concat ms) @ d @ drop (off + length d) (concat ms)"
  using assms
proof (induction ms arbitrary: mem k i off m d)
  case (Cons b ms)
  have il: "i < length mem" using Cons.prems(1,4) by (metis drop_all leI list.distinct(1))
  have i: "mem ! i = b" "ms = drop (Suc i) mem"
    using Cons.prems(1) by (metis nth_via_drop, metis drop_Suc list.sel(3) tl_drop)
  have off: "off \<le> length b" using Cons.prems(2) by simp
  define n where "n = min (length b - off) m"
  have nb: "n \<le> length b - off" "n = length b - off \<or> n = m" by (auto simp: n_def)
  show ?case
  proof (cases "m > 0 \<and> k > 0 \<and> n > 0")
    case True
    let ?r = "prepare_loop (k - 1) (Suc i) 0 (m - n) (List.map length ms)"
    let ?b = "take off b @ take n d @ drop (off + min n (length d)) b"
    let ?mem = "mem[i := ?b]"
    let ?mem' = "scatter ?mem ?r (drop n d)"
    have p: "prepare_loop k i off m (List.map length (b # ms)) = (i, off, n) # ?r"
    proof -
      have "off < length b" using True nb(1) by linarith
      then show ?thesis using True by (simp add: Let_def min_absorb1 flip: n_def)
    qed
    have dl: "length (drop n d) \<le> slices_size ?r" using Cons.prems(5) unfolding p by (simp add: le_diff_conv add.commute)
    have bl: "length ?b = length b" using off nb(1) by (cases "length d \<le> n") auto
    have pre: "ms = drop (Suc i) ?mem" "ms \<noteq> [] \<longrightarrow> 0 \<le> length (hd ms)" "ms = [] \<longrightarrow> (0::nat) = 0" "Suc i \<le> length ?mem"
      using i(2) il by simp_all
    have "List.map length ?mem' = List.map length ?mem \<and> take (Suc i) ?mem' = take (Suc i) ?mem \<and>
      concat (drop (Suc i) ?mem') = take 0 (concat ms) @ drop n d @ drop (0 + length (drop n d)) (concat ms)"
      using Cons.IH [OF pre dl] unfolding Let_def .
    then have l: "List.map length ?mem' = List.map length ?mem" and t: "take (Suc i) ?mem' = take (Suc i) ?mem" and
      c: "concat (drop (Suc i) ?mem') = drop n d @ drop (length (drop n d)) (concat ms)" by (simp_all only: take_0 append_Nil add_0)
    have l': "List.map length ?mem' = List.map length mem"
    proof -
      have "List.map length ?mem = (List.map length mem)[i := length b]" using bl by (simp only: map_update)
      also have "\<dots> = List.map length mem" using i(1) il by (metis length_map list_update_id nth_map)
      finally show ?thesis using l by simp
    qed
    then have len': "length ?mem' = length mem" by (metis length_map)
    have "?mem' ! i = ?mem ! i" using t il len' by (metis lessI nth_take)
    then have "?mem' ! i = ?b" using il by simp
    then have dr: "drop i ?mem' = ?b # drop (Suc i) ?mem'" using Cons_nth_drop_Suc [of i ?mem'] il len' by simp
    have tk: "take i ?mem' = take i mem"
    proof -
      have "take i ?mem' = take i (take (Suc i) ?mem')" by (simp add: min_def)
      also have "\<dots> = take i ?mem" unfolding t by (simp add: min_def)
      finally show ?thesis by simp
    qed
    have "?b @ drop n d @ drop (length (drop n d)) (concat ms) =
        take off (concat (b # ms)) @ d @ drop (off + length d) (concat (b # ms))"
    proof (cases "length d \<le> n")
      case True
      then have "off + length d - length b = 0" using nb(1) off by linarith
      with True off show ?thesis by (simp add: min_absorb2)
    next
      case False
      have n: "n = length b - off"
      proof (rule ccontr)
        assume "n \<noteq> length b - off"
        then have "m - n = 0" using nb(2) by simp
        then have "?r = []" by (cases ms) auto
        then show False using dl False by simp
      qed
      have le: "length b - off \<le> length d" using False n by simp
      have "take off (concat (b # ms)) = take off b" "drop (off + length d) (concat (b # ms)) = drop (off + length d - length b) (concat ms)"
        using off le by simp_all
      moreover have "?b = take off b @ take n d" using off n le by simp
      moreover have "length (drop n d) = off + length d - length b" using n off le by simp
      ultimately show ?thesis by simp
    qed
    then have e: "concat (drop i ?mem') = take off (concat (b # ms)) @ d @ drop (off + length d) (concat (b # ms))"
      unfolding dr concat.simps c .
    have sc: "scatter mem ((i, off, n) # ?r) d = ?mem'" using i(1) by simp
    show ?thesis unfolding p sc Let_def by (intro conjI l' tk e)
  next
    case False
    show ?thesis
    proof (cases "m > 0 \<and> k > 0")
      case True
      then have n0: "length b = off" using False off by (simp add: n_def)
      have p: "prepare_loop k i off m (List.map length (b # ms)) = prepare_loop k (Suc i) 0 m (List.map length ms)"
        using True n0 by (simp add: Let_def)
      let ?mem' = "scatter mem (prepare_loop k (Suc i) 0 m (List.map length ms)) d"
      have h: "List.map length ?mem' = List.map length mem" "take (Suc i) ?mem' = take (Suc i) mem"
        "concat (drop (Suc i) ?mem') = d @ drop (length d) (concat ms)"
        using Cons.IH [of "Suc i" mem 0 d k m] i(2) il Cons.prems(5) unfolding p by (simp_all add: Let_def)
      have len': "length ?mem' = length mem" using h(1) by (metis length_map)
      have "?mem' ! i = b" using h(2) i(1) il len' by (metis lessI nth_take)
      then have "drop i ?mem' = b # drop (Suc i) ?mem'" using Cons_nth_drop_Suc [of i ?mem'] il len' by simp
      moreover have "take i ?mem' = take i mem" using h(2) by (metis Suc_n_not_le_n nle_le min_def take_take)
      ultimately show ?thesis unfolding p using h n0 by (simp add: Let_def)
    next
      case False
      then have "prepare_loop k i off m (List.map length (b # ms)) = []" by auto
      then show ?thesis using Cons.prems by (auto simp: Let_def)
    qed
  qed
qed simp

lemma cb_ok_first:
  assumes "cb_ok (List.map length mem) cb" "ms = drop (cb_next_elem cb) mem"
  shows "cb_next_elem cb \<le> length mem" "ms \<noteq> [] \<longrightarrow> cb_next_offset cb \<le> length (hd ms)" "ms = [] \<longrightarrow> cb_next_offset cb = 0"
    "drop (cb_next_elem cb) (cb_buffers cb) = List.map length ms"
  using assms by (auto simp: cb_ok_def at_position_def drop_map hd_drop_conv_nth)

text \<open>The three facts a stream needs of the prepared buffers.\<close>

lemma cb_prepare_size: "slices_size (cb_prepare k m cb) \<le> m"
  by (simp add: cb_prepare_def prepare_bounds)

lemma cb_prepare_progress:
  assumes "cb_ok bs cb" "\<not> cb_empty cb" "0 < k" "0 < m"
  shows "0 < slices_size (cb_prepare k m cb)"
proof -
  let ?i = "cb_next_elem cb" let ?off = "cb_next_offset cb"
  have bs: "cb_buffers cb = bs" "at_position bs ?i ?off (cb_total_consumed cb)" using assms(1) by (simp_all add: cb_ok_def)
  have "cb_total_consumed cb < sum_list bs" using assms(1,2) by (simp add: cb_ok_def cb_empty_def)
  moreover have "sum_list bs = sum_list (take ?i bs) + sum_list (drop ?i bs)" by (metis append_take_drop_id sum_list_append)
  ultimately have "?off < sum_list (drop ?i bs)" using bs by (simp add: at_position_def)
  moreover have "drop ?i bs \<noteq> [] \<longrightarrow> ?off \<le> hd (drop ?i bs)" using bs by (auto simp: at_position_def hd_drop_conv_nth)
  ultimately show ?thesis unfolding cb_prepare_def bs(1) by (intro prepare_progress [OF assms(3,4)])
qed

lemma cb_gather:
  assumes "cb_ok (List.map length mem) cb"
  shows "gather mem (cb_prepare k m cb) = take (slices_size (cb_prepare k m cb)) (drop (cb_total_consumed cb) (concat mem))"
proof -
  note f = cb_ok_first [OF assms refl]
  have "at_position (List.map length mem) (cb_next_elem cb) (cb_next_offset cb) (cb_total_consumed cb)"
    using assms by (simp add: cb_ok_def)
  from at_position_drop [OF this] gather_prepare [OF refl f(2,3)] show ?thesis by (simp add: cb_prepare_def f(4))
qed

lemma cb_scatter:
  assumes "cb_ok (List.map length mem) cb" "length d \<le> slices_size (cb_prepare k m cb)"
  shows "List.map length (scatter mem (cb_prepare k m cb) d) = List.map length mem \<and>
    concat (scatter mem (cb_prepare k m cb) d) =
      take (cb_total_consumed cb) (concat mem) @ d @ drop (cb_total_consumed cb + length d) (concat mem)"
proof -
  let ?i = "cb_next_elem cb" let ?off = "cb_next_offset cb" let ?mem' = "scatter mem (cb_prepare k m cb) d"
  note f = cb_ok_first [OF assms(1) refl]
  have pos: "cb_total_consumed cb = sum_list (take ?i (List.map length mem)) + ?off"
    using assms(1) by (simp add: cb_ok_def at_position_def)
  have p: "cb_prepare k m cb = prepare_loop k ?i ?off m (List.map length (drop ?i mem))" by (simp add: cb_prepare_def f(4))
  from scatter_prepare [OF refl f(2,3,1) assms(2) [unfolded p]]
  have h: "List.map length ?mem' = List.map length mem" "take ?i ?mem' = take ?i mem"
    "concat (drop ?i ?mem') = take ?off (concat (drop ?i mem)) @ d @ drop (?off + length d) (concat (drop ?i mem))"
    by (simp_all add: Let_def p)
  have "concat ?mem' = concat (take ?i mem) @ concat (drop ?i ?mem')" using h(2) by (metis append_take_drop_id concat_append)
  moreover have "concat mem = concat (take ?i mem) @ concat (drop ?i mem)" by (metis append_take_drop_id concat_append)
  moreover have "length (concat (take ?i mem)) = sum_list (take ?i (List.map length mem))" by (simp add: length_concat take_map)
  ultimately show ?thesis using h pos by simp
qed

lemma prepare_room: "(ss \<noteq> [] \<longrightarrow> off \<le> hd ss) \<Longrightarrow> slices_size (prepare_loop k i off m ss) \<le> sum_list ss - off"
proof (induction k i off m ss rule: prepare_loop.induct)
  case (2 k i off m s ss)
  define n where "n = min (s - off) m"
  have off: "off \<le> s" "min off s = off" using "2.prems" by auto
  show ?case
  proof (cases "m > 0 \<and> k > 0")
    case True
    show ?thesis
    proof (cases "n > 0")
      case n: True
      have "slices_size (prepare_loop (k - 1) (Suc i) 0 (m - n) ss) \<le> sum_list ss"
        using "2.IH"(1) [OF True refl, of n] n off by (simp add: n_def)
      moreover have "n \<le> s - off" by (simp add: n_def)
      moreover from this n have "off < s" by linarith
      ultimately show ?thesis using True n off by (simp add: Let_def flip: n_def)
    next
      case False
      have "slices_size (prepare_loop k (Suc i) 0 (m - n) ss) \<le> sum_list ss"
        using "2.IH"(2) [OF True refl, of n] False off by (simp add: n_def)
      moreover have "s = off" using True False off(1) by (simp add: n_def)
      ultimately show ?thesis using True False by (simp add: Let_def flip: n_def)
    qed
  qed auto
qed simp

lemma cb_prepare_room:
  assumes "cb_ok bs cb"
  shows "cb_total_consumed cb + slices_size (cb_prepare k m cb) \<le> sum_list bs"
proof -
  let ?i = "cb_next_elem cb" let ?off = "cb_next_offset cb"
  have bs: "cb_buffers cb = bs" "at_position bs ?i ?off (cb_total_consumed cb)" "cb_total_consumed cb \<le> sum_list bs"
    using assms by (simp_all add: cb_ok_def)
  have "drop ?i bs \<noteq> [] \<longrightarrow> ?off \<le> hd (drop ?i bs)" using bs by (auto simp: at_position_def hd_drop_conv_nth)
  then have "slices_size (cb_prepare k m cb) \<le> sum_list (drop ?i bs) - ?off"
    unfolding cb_prepare_def bs(1) by (rule prepare_room)
  moreover have "sum_list bs = sum_list (take ?i bs) + sum_list (drop ?i bs)" by (metis append_take_drop_id sum_list_append)
  ultimately show ?thesis using bs(2,3) by (simp add: at_position_def)
qed

section \<open>The loop over any stream that keeps its contract\<close>

text \<open>A completion condition of the library ends the operation on an error; a stream transfers
  no more than it was given room for, and something when it was given room.\<close>

locale completion_stops =
  fixes cond :: completion_condition
  assumes stops: "cond (Some e) n = 0"

locale transfer_device =
  fixes xfer :: "slice list \<Rightarrow> nat \<Rightarrow> 's \<Rightarrow> nat \<times> net_error option \<times> 's"
  assumes within: "xfer sl t s = (n, ec, s') \<Longrightarrow> n \<le> slices_size sl"
    and progress: "xfer sl t s = (n, None, s') \<Longrightarrow> 0 < slices_size sl \<Longrightarrow> 0 < n"

locale transfer = completion_stops cond + transfer_device xfer
  for cond and xfer :: "slice list \<Rightarrow> nat \<Rightarrow> 's \<Rightarrow> nat \<times> net_error option \<times> 's"
begin

lemma loop_rule:
  assumes "cb_ok bs cb" "0 < k" "I (cb_total_consumed cb) ec s"
    and step: "\<And>cb ec s n ec' s'. cb_ok bs cb \<Longrightarrow> \<not> cb_empty cb \<Longrightarrow> I (cb_total_consumed cb) ec s \<Longrightarrow> 0 < cond ec (cb_total_consumed cb) \<Longrightarrow>
      xfer (cb_prepare k (cond ec (cb_total_consumed cb)) cb) (cb_total_consumed cb) s = (n, ec', s') \<Longrightarrow> I (cb_total_consumed cb + n) ec' s'"
  shows "\<exists>n ec' s'. transfer_loop xfer cond k ec cb s = Some (n, ec', s') \<and> I n ec' s' \<and> n \<le> sum_list bs \<and>
    (n = sum_list bs \<or> cond ec' n = 0)"
  using assms(1,3)
proof (induction "sum_list bs - cb_total_consumed cb + (if ec = None then 1 else 0)" arbitrary: cb ec s rule: less_induct)
  case less
  have le: "cb_total_consumed cb \<le> sum_list bs" "cb_total_size cb = sum_list bs" using less.prems(1) by (simp_all add: cb_ok_def)
  let ?m = "cond ec (cb_total_consumed cb)"
  show ?case
  proof (cases "cb_empty cb \<or> ?m = 0")
    case True
    then have "transfer_loop xfer cond k ec cb s = Some (cb_total_consumed cb, ec, s)"
      by (subst transfer_loop.simps) (auto simp: Let_def)
    with True less.prems(2) le show ?thesis by (auto simp: cb_empty_def)
  next
    case False
    then have ec: "ec = None" using stops by (cases ec) auto
    obtain n ec' s' where x: "xfer (cb_prepare k ?m cb) (cb_total_consumed cb) s = (n, ec', s')" by (metis prod_cases3)
    have n: "n \<le> slices_size (cb_prepare k ?m cb)" by (rule within [OF x])
    have pos: "0 < slices_size (cb_prepare k ?m cb)" using cb_prepare_progress [OF less.prems(1) _ assms(2)] False by simp
    have room: "cb_total_consumed cb + slices_size (cb_prepare k ?m cb) \<le> sum_list bs"
      using cb_prepare_room [OF less.prems(1)] .
    have c: "cb_ok bs (cb_consume n cb)" "cb_total_consumed (cb_consume n cb) = cb_total_consumed cb + n"
      using cb_ok_consume [OF less.prems(1), of n] n room by auto
    have "sum_list bs - cb_total_consumed (cb_consume n cb) + (if ec' = None then 1 else 0) <
        sum_list bs - cb_total_consumed cb + (if ec = None then 1 else 0)"
    proof (cases ec')
      case None
      then have "0 < n" using progress x pos by blast
      with None ec c n room show ?thesis by simp
    qed (use ec c in simp)
    moreover have "I (cb_total_consumed (cb_consume n cb)) ec' s'" using step [OF less.prems(1) _ less.prems(2) _ x] False c(2) by simp
    ultimately obtain n2 ec2 s2 where "transfer_loop xfer cond k ec' (cb_consume n cb) s' = Some (n2, ec2, s2)" "I n2 ec2 s2"
      "n2 \<le> sum_list bs" "n2 = sum_list bs \<or> cond ec2 n2 = 0" using less.hyps [OF _ c(1)] by blast
    moreover have "transfer_loop xfer cond k ec cb s = transfer_loop xfer cond k ec' (cb_consume n cb) s'"
      using False x by (subst transfer_loop.simps) (auto simp: Let_def)
    ultimately show ?thesis by auto
  qed
qed

end

interpretation all: completion_stops transfer_all
  by unfold_locales (simp add: transfer_all_def)

interpretation at_least: completion_stops "transfer_at_least minimum" for minimum
  by unfold_locales (simp add: transfer_at_least_def)

interpretation exactly: completion_stops "transfer_exactly amount" for amount
  by unfold_locales (simp add: transfer_exactly_def)

interpretation net_read: transfer_device "\<lambda>sl t. net_read_some e sl" for e
proof
  fix sl n ec and s s' :: "string list \<times> string list"
  assume r: "net_read_some e sl s = (n, ec, s')"
  obtain mem cs where s: "s = (mem, cs)" by (cases s)
  show "n \<le> slices_size sl"
    using r read_some_bounds [of "slices_size sl" cs] by (auto simp: net_read_some_def s split: if_splits option.splits)
next
  fix sl n and s s' :: "string list \<times> string list"
  assume r: "net_read_some e sl s = (n, None, s')" "0 < slices_size sl"
  obtain mem cs where s: "s = (mem, cs)" by (cases s)
  show "0 < n"
    using r read_some_bounds [of "slices_size sl" cs] by (auto simp: net_read_some_def s split: option.splits)
qed

interpretation net_read_all: transfer transfer_all "\<lambda>sl t. net_read_some e sl" for e
  by unfold_locales

definition takes_some :: "(nat \<Rightarrow> nat \<times> net_error option) \<Rightarrow> bool" where
  "takes_some ans \<longleftrightarrow> (\<forall>i. snd (ans i) = None \<longrightarrow> 0 < fst (ans i))"

lemma net_write_device: "takes_some ans \<Longrightarrow> transfer_device (\<lambda>sl t. net_write_some mem ans sl)"
  by unfold_locales (auto simp: net_write_some_def takes_some_def Let_def split: prod.splits)

lemma net_write_transfer: "completion_stops cond \<Longrightarrow> takes_some ans \<Longrightarrow> transfer cond (\<lambda>sl t. net_write_some mem ans sl)"
  by (simp add: transfer.intro net_write_device)

text \<open>Writing: what was sent is the prefix of the buffers that is reported.\<close>

lemma asio_write_prefix:
  assumes c: "completion_stops cond" and t: "takes_some ans" and k: "0 < k"
  shows "\<exists>n ec i. asio_write k cond (net_write_some mem ans) (List.map length mem) (0, []) = Some (n, ec, i, take n (concat mem)) \<and>
    n \<le> length (concat mem) \<and> (n = length (concat mem) \<or> cond ec n = 0) \<and>
    (\<forall>j < i - 1. snd (ans j) = None) \<and> ec = (if i = 0 then None else snd (ans (i - 1)))"
proof -
  let ?I = "\<lambda>n ec (i, sent). sent = take n (concat mem) \<and> (\<forall>j < i - 1. snd (ans j) = None) \<and> ec = (if i = 0 then None else snd (ans (i - 1)))"
  let ?bs = "List.map length mem"
  have "\<exists>n ec s. transfer_loop (\<lambda>sl t. net_write_some mem ans sl) cond k None (new_consuming ?bs) (0, []) = Some (n, ec, s) \<and>
      ?I n ec s \<and> n \<le> sum_list ?bs \<and> (n = sum_list ?bs \<or> cond ec n = 0)"
  proof (rule transfer.loop_rule [OF net_write_transfer [OF c t] cb_ok_new k])
    show "?I (cb_total_consumed (new_consuming ?bs)) None (0, [])" by (simp add: new_consuming_def)
  next
    fix cb ec s n ec' s'
    assume ok: "cb_ok ?bs cb" and I: "?I (cb_total_consumed cb) ec s" and pos: "0 < cond ec (cb_total_consumed cb)"
      and x: "net_write_some mem ans (cb_prepare k (cond ec (cb_total_consumed cb)) cb) s = (n, ec', s')"
    have ec: "ec = None" using pos completion_stops.stops [OF c] by (cases ec) auto
    obtain i sent where s: "s = (i, sent)" by (cases s)
    from x have n: "n \<le> slices_size (cb_prepare k (cond ec (cb_total_consumed cb)) cb)" "ec' = snd (ans i)"
      "s' = (Suc i, sent @ take n (gather mem (cb_prepare k (cond ec (cb_total_consumed cb)) cb)))"
      by (auto simp: net_write_some_def s Let_def)
    have "snd (ans j) = None" if "j < i" for j
      using I ec that unfolding s by (cases "j = i - 1") (auto split: if_splits)
    with I n show "?I (cb_total_consumed cb + n) ec' s'"
      by (simp add: s cb_gather [OF ok] take_add)
  qed
  then obtain n ec s where r: "transfer_loop (\<lambda>sl t. net_write_some mem ans sl) cond k None (new_consuming ?bs) (0, []) = Some (n, ec, s)"
    "?I n ec s" "n \<le> sum_list ?bs" "n = sum_list ?bs \<or> cond ec n = 0" by blast
  moreover obtain i sent where "s = (i, sent)" by (cases s)
  ultimately show ?thesis by (intro exI [of _ n] exI [of _ ec] exI [of _ i]) (simp add: asio_write_def length_concat)
qed

text \<open>C10: Writing a buffer sequence to a connection: whatever sizes the network accepts, the call
  returns; what was sent is a prefix of the buffers of the reported length, all of them
  unless an error is reported, and the error is the first one of the stream.\<close>
theorem write_sends_everything:
  assumes "takes_some ans" "0 < k"
  shows "\<exists>n ec i. asio_write k transfer_all (net_write_some mem ans) (List.map length mem) (0, []) = Some (n, ec, i, take n (concat mem)) \<and>
    (ec = None \<longrightarrow> n = length (concat mem)) \<and>
    (\<forall>e. ec = Some e \<longrightarrow> 0 < i \<and> snd (ans (i - 1)) = Some e \<and> (\<forall>j < i - 1. snd (ans j) = None))"
proof -
  from asio_write_prefix [OF all.completion_stops_axioms assms, of mem] obtain n ec i where
    "asio_write k transfer_all (net_write_some mem ans) (List.map length mem) (0, []) = Some (n, ec, i, take n (concat mem))"
    "n = length (concat mem) \<or> transfer_all ec n = 0" "\<forall>j < i - 1. snd (ans j) = None"
    "ec = (if i = 0 then None else snd (ans (i - 1)))" by blast
  moreover from this(2) have "ec = None \<longrightarrow> n = length (concat mem)"
    by (auto simp: transfer_all_def default_max_transfer_size_def)
  ultimately show ?thesis by (intro exI [of _ n] exI [of _ ec] exI [of _ i]) (auto split: if_splits)
qed

lemma write_sends_everything_witness:
  "\<exists>n ec i. asio_write 16 transfer_all (net_write_some [''ab'', [], ''cde''] (\<lambda>i. (2, if i = 1 then Some Eof else None)))
     (List.map length [''ab'', [], ''cde'']) (0, []) = Some (n, ec, i, take n (concat [''ab'', [], ''cde''])) \<and>
    (ec = None \<longrightarrow> n = length (concat [''ab'', [], ''cde''])) \<and>
    (\<forall>e. ec = Some e \<longrightarrow> 0 < i \<and> snd ((\<lambda>i. (2::nat, if i = 1 then Some Eof else None)) (i - 1)) = Some e \<and>
      (\<forall>j < i - 1. snd ((\<lambda>i. (2::nat, if i = 1 then Some Eof else None)) j) = None))"
  by (rule write_sends_everything) (simp_all add: takes_some_def)

text \<open>The completion conditions: an operation without an error transfers at least the minimum
  of \<open>transfer_at_least\<close>, exactly the amount of \<open>transfer_exactly\<close> and never more than it, or
  else all of the buffers, for every stream that keeps its contract.\<close>
theorem transfer_conditions_hold:
  assumes "transfer_device (\<lambda>sl t. w sl)" "0 < k"
  shows "(\<exists>n ec s'. asio_write k (transfer_at_least minimum) w bs s = Some (n, ec, s') \<and> n \<le> sum_list bs \<and>
      (ec = None \<longrightarrow> min minimum (sum_list bs) \<le> n)) \<and>
    (\<exists>n ec s'. asio_write k (transfer_exactly amount) w bs s = Some (n, ec, s') \<and> n \<le> min amount (sum_list bs) \<and>
      (ec = None \<longrightarrow> n = min amount (sum_list bs)))"
proof (rule conjI)
  have t: "transfer (transfer_at_least minimum) (\<lambda>sl t. w sl)" "transfer (transfer_exactly amount) (\<lambda>sl t. w sl)"
    using assms(1) by (simp_all add: transfer.intro at_least.completion_stops_axioms exactly.completion_stops_axioms)
  from transfer.loop_rule [OF t(1) cb_ok_new [of bs] assms(2), where I = "\<lambda>_ _ _. True" and s = s and ec = None]
  obtain n ec s' where "transfer_loop (\<lambda>sl t. w sl) (transfer_at_least minimum) k None (new_consuming bs) s = Some (n, ec, s')"
    "n \<le> sum_list bs" "n = sum_list bs \<or> transfer_at_least minimum ec n = 0" by auto
  then show "\<exists>n ec s'. asio_write k (transfer_at_least minimum) w bs s = Some (n, ec, s') \<and> n \<le> sum_list bs \<and>
      (ec = None \<longrightarrow> min minimum (sum_list bs) \<le> n)"
    by (intro exI [of _ n] exI [of _ ec] exI [of _ s'])
      (auto simp: asio_write_def transfer_at_least_def default_max_transfer_size_def split: if_splits)
  have "\<exists>n ec s'. transfer_loop (\<lambda>sl t. w sl) (transfer_exactly amount) k None (new_consuming bs) s = Some (n, ec, s') \<and>
      n \<le> amount \<and> n \<le> sum_list bs \<and> (n = sum_list bs \<or> transfer_exactly amount ec n = 0)"
  proof (rule transfer.loop_rule [OF t(2) cb_ok_new assms(2), where I = "\<lambda>n _ _. n \<le> amount"])
    fix cb ec s n ec' s'
    assume "cb_total_consumed cb \<le> amount" "0 < transfer_exactly amount ec (cb_total_consumed cb)"
      "w (cb_prepare k (transfer_exactly amount ec (cb_total_consumed cb)) cb) s = (n, ec', s')"
    with transfer_device.within [OF assms(1)] cb_prepare_size [of k "transfer_exactly amount ec (cb_total_consumed cb)" cb]
    have "n \<le> transfer_exactly amount ec (cb_total_consumed cb)" by (meson le_trans)
    then show "cb_total_consumed cb + n \<le> amount"
      using \<open>0 < transfer_exactly amount ec (cb_total_consumed cb)\<close> by (auto simp: transfer_exactly_def split: if_splits)
  qed (simp add: new_consuming_def)
  then obtain n ec s' where "transfer_loop (\<lambda>sl t. w sl) (transfer_exactly amount) k None (new_consuming bs) s = Some (n, ec, s')"
    "n \<le> amount" "n \<le> sum_list bs" "n = sum_list bs \<or> transfer_exactly amount ec n = 0" by blast
  then show "\<exists>n ec s'. asio_write k (transfer_exactly amount) w bs s = Some (n, ec, s') \<and> n \<le> min amount (sum_list bs) \<and>
      (ec = None \<longrightarrow> n = min amount (sum_list bs))"
    by (intro exI [of _ n] exI [of _ ec] exI [of _ s'])
      (auto simp: asio_write_def transfer_exactly_def default_max_transfer_size_def split: if_splits)
qed

lemma transfer_conditions_hold_witness:
  "(\<exists>n ec s'. asio_write 2 (transfer_at_least 3) (net_write_some [''ab'', ''cde''] (\<lambda>i. (2, None))) [2, 3] (0, []) = Some (n, ec, s') \<and>
      n \<le> sum_list [2, 3] \<and> (ec = None \<longrightarrow> min 3 (sum_list [2, 3]) \<le> n)) \<and>
    (\<exists>n ec s'. asio_write 2 (transfer_exactly 4) (net_write_some [''ab'', ''cde''] (\<lambda>i. (2, None))) [2, 3] (0, []) = Some (n, ec, s') \<and>
      n \<le> min 4 (sum_list [2, 3]) \<and> (ec = None \<longrightarrow> n = min 4 (sum_list [2, 3])))"
  by (rule transfer_conditions_hold) (simp_all add: net_write_device takes_some_def)

section \<open>Reading\<close>

definition read_inv :: "string list \<Rightarrow> string list \<Rightarrow> net_error \<Rightarrow> nat \<Rightarrow> net_error option \<Rightarrow> string list \<times> string list \<Rightarrow> bool" where
  "read_inv mem cs e n ec s \<longleftrightarrow> (case s of (mem', cs') \<Rightarrow> List.map length mem' = List.map length mem \<and>
     n \<le> length (concat cs) \<and> concat mem' = take n (concat cs) @ drop n (concat mem) \<and> concat cs' = drop n (concat cs) \<and>
     (ec = None \<or> ec = Some e \<and> n = length (concat cs) \<and> n < length (concat mem)))"

lemma scatter_nothing [simp]: "scatter mem sl [] = mem"
  by (induction mem sl "[] :: string" rule: scatter.induct) auto

lemma read_inv_bytes:
  assumes I: "read_inv mem cs e (cb_total_consumed cb) ec (mem1, cs1)" and ok: "cb_ok (List.map length mem) cb" and ne: "\<not> cb_empty cb"
    and d: "length d \<le> slices_size (cb_prepare k m cb)" and rest: "concat cs1 = d @ concat cs2"
    and err: "ec' = None \<or> ec' = Some e \<and> concat cs1 = []"
  shows "read_inv mem cs e (cb_total_consumed cb + length d) ec' (scatter mem1 (cb_prepare k m cb) d, cs2)"
proof -
  let ?sl = "cb_prepare k m cb" let ?c = "cb_total_consumed cb"
  have i: "List.map length mem1 = List.map length mem" "?c \<le> length (concat cs)"
    "concat mem1 = take ?c (concat cs) @ drop ?c (concat mem)" "concat cs1 = drop ?c (concat cs)"
    using I by (simp_all add: read_inv_def)
  have eq: "drop ?c (concat cs) = d @ concat cs2" using rest i(4) by simp
  from cb_scatter [of mem1 cb d k m] ok i(1) d
  have sc: "List.map length (scatter mem1 ?sl d) = List.map length mem1"
    "concat (scatter mem1 ?sl d) = take ?c (concat mem1) @ d @ drop (?c + length d) (concat mem1)" by simp_all
  have "take (?c + length d) (concat cs) = take ?c (concat cs) @ d" using eq by (simp add: take_add)
  moreover have "take ?c (concat mem1) = take ?c (concat cs)" using i(2,3) by simp
  moreover have "drop (?c + length d) (concat mem1) = drop (?c + length d) (concat mem)" using i(2,3) by (simp add: add.commute)
  moreover have "drop (?c + length d) (concat cs) = concat cs2" using eq by (metis add.commute append_eq_conv_conj drop_drop)
  moreover have "?c + length d \<le> length (concat cs)"
    using arg_cong [OF eq, of length] i(2) by (simp del: length_concat)
  moreover have "ec' = None \<or> ec' = Some e \<and> ?c + length d = length (concat cs) \<and> ?c + length d < length (concat mem)"
  proof (cases "ec' = None")
    case False
    then have "ec' = Some e" "d = []" "drop ?c (concat cs) = []" using err rest i(4) by auto
    moreover have "?c < length (concat mem)" using ne ok by (simp add: cb_empty_def cb_ok_def length_concat)
    ultimately show ?thesis using i(2) by (simp del: length_concat)
  qed simp
  ultimately show ?thesis using sc i(1) by (simp add: read_inv_def)
qed

lemma read_inv_step:
  assumes I: "read_inv mem cs e (cb_total_consumed cb) ec s" and ok: "cb_ok (List.map length mem) cb"
    and ne: "\<not> cb_empty cb" and x: "net_read_some e (cb_prepare k m cb) s = (n, ec', s')"
  shows "read_inv mem cs e (cb_total_consumed cb + n) ec' s'"
proof -
  let ?sl = "cb_prepare k m cb"
  obtain mem1 cs1 where s: "s = (mem1, cs1)" by (cases s)
  note step = read_inv_bytes [OF I [unfolded s] ok ne]
  show ?thesis
  proof (cases "slices_size ?sl = 0")
    case True
    then have "n = 0" "ec' = None" "s' = s" using x by (simp_all add: net_read_some_def s)
    then show ?thesis using step [of "[]" k m cs1 None] by (simp add: s)
  next
    case False
    show ?thesis
    proof (cases "read_some (slices_size ?sl) cs1")
      case None
      then have "n = 0" "ec' = Some e" "s' = s" using x False by (auto simp: net_read_some_def s)
      then show ?thesis using step [of "[]" k m cs1 "Some e"] read_some_None [OF None] by (simp add: s)
    next
      case (Some p)
      obtain d cs2 where p: "p = (d, cs2)" by (cases p)
      have "n = length d" "ec' = None" "s' = (scatter mem1 ?sl d, cs2)" using x False Some p by (auto simp: net_read_some_def s)
      then show ?thesis using step [of d k m cs2 None] read_some_bounds [of "slices_size ?sl" cs1 d cs2] read_some_concat [of _ cs1 d cs2] Some p False
        by simp
    qed
  qed
qed

text \<open>The invariant at the end of the loop.\<close>

lemma read_inv_end:
  assumes "read_inv mem cs e n ec (mem', cs')" "n \<le> length (concat mem)" "n = length (concat mem) \<or> transfer_all ec n = 0"
  shows "n = min (length (concat mem)) (length (concat cs)) \<and> ec = (if length (concat mem) \<le> length (concat cs) then None else Some e) \<and>
    List.map length mem' = List.map length mem \<and> concat mem' = take n (concat cs) @ drop n (concat mem) \<and> concat cs' = drop n (concat cs)"
proof -
  have i: "List.map length mem' = List.map length mem" "n \<le> length (concat cs)"
    "concat mem' = take n (concat cs) @ drop n (concat mem)" "concat cs' = drop n (concat cs)"
    "ec = None \<or> ec = Some e \<and> n = length (concat cs) \<and> n < length (concat mem)" using assms(1) by (simp_all add: read_inv_def)
  have "ec = None \<and> n = length (concat mem) \<or> ec = Some e \<and> n = length (concat cs) \<and> n < length (concat mem)"
    using assms(2,3) i(5) by (auto simp: transfer_all_def default_max_transfer_size_def simp del: length_concat)
  then show ?thesis using i by (auto simp del: length_concat)
qed

lemma net_read_fills:
  assumes "0 < k"
  shows "\<exists>n ec mem' cs'. read_buffer_seq k transfer_all (net_read_some e) (List.map length mem) (mem, cs) = Some (n, ec, mem', cs') \<and>
    n = min (length (concat mem)) (length (concat cs)) \<and> List.map length mem' = List.map length mem \<and>
    concat mem' = take n (concat cs) @ drop n (concat mem) \<and> concat cs' = drop n (concat cs) \<and>
    read_exact (length (concat mem)) cs e = (case ec of None \<Rightarrow> Inr (concat mem') | Some err \<Rightarrow> Inl err)"
proof -
  let ?bs = "List.map length mem"
  have "\<exists>n ec s. transfer_loop (\<lambda>sl t. net_read_some e sl) transfer_all k None (new_consuming ?bs) (mem, cs) = Some (n, ec, s) \<and>
      read_inv mem cs e n ec s \<and> n \<le> sum_list ?bs \<and> (n = sum_list ?bs \<or> transfer_all ec n = 0)"
  proof (rule net_read_all.loop_rule [OF cb_ok_new assms])
    show "read_inv mem cs e (cb_total_consumed (new_consuming ?bs)) None (mem, cs)" by (simp add: read_inv_def new_consuming_def)
  qed (blast intro: read_inv_step)
  then obtain n ec s where r: "transfer_loop (\<lambda>sl t. net_read_some e sl) transfer_all k None (new_consuming ?bs) (mem, cs) = Some (n, ec, s)"
    "read_inv mem cs e n ec s" "n \<le> sum_list ?bs" "n = sum_list ?bs \<or> transfer_all ec n = 0" by blast
  obtain mem' cs' where s: "s = (mem', cs')" by (cases s)
  have T: "sum_list ?bs = length (concat mem)" by (simp add: length_concat)
  note i = read_inv_end [OF r(2) [unfolded s] r(3,4) [unfolded T]]
  then have "read_exact (length (concat mem)) cs e = (case ec of None \<Rightarrow> Inr (concat mem') | Some err \<Rightarrow> Inl err)"
    by (auto simp: read_exact_def simp del: length_concat)
  with r(1) i show ?thesis
    by (intro exI [of _ n] exI [of _ ec] exI [of _ mem'] exI [of _ cs']) (simp add: read_buffer_seq_def s del: length_concat)
qed

text \<open>C11: Reading into a buffer sequence: for every segmentation the call fills the buffers with the
  first bytes of the stream and leaves the rest in the connection; with too few bytes it
  reports the error of the connection. It is \<open>read_exact\<close> of the echo programs.\<close>
theorem read_fills_buffers:
  assumes "0 < k"
  shows "\<exists>n ec mem' cs'. read_buffer_seq k transfer_all (net_read_some e) (List.map length mem) (mem, cs) = Some (n, ec, mem', cs') \<and>
    n = min (length (concat mem)) (length (concat cs)) \<and> List.map length mem' = List.map length mem \<and>
    concat mem' = take n (concat cs) @ drop n (concat mem) \<and> concat cs' = drop n (concat cs) \<and>
    read_exact (length (concat mem)) cs e = (case ec of None \<Rightarrow> Inr (concat mem') | Some err \<Rightarrow> Inl err)"
  by (rule net_read_fills [OF assms])

lemma read_fills_buffers_witness:
  "\<exists>n ec mem' cs'. read_buffer_seq 16 transfer_all (net_read_some Eof) (List.map length [''..'', ''...'']) ([''..'', ''...''], [''abc'', ''defg'']) =
      Some (n, ec, mem', cs') \<and>
    n = min (length (concat [''..'', ''...''])) (length (concat [''abc'', ''defg''])) \<and> List.map length mem' = List.map length [''..'', ''...''] \<and>
    concat mem' = take n (concat [''abc'', ''defg'']) @ drop n (concat [''..'', ''...'']) \<and> concat cs' = drop n (concat [''abc'', ''defg'']) \<and>
    read_exact (length (concat [''..'', ''...''])) [''abc'', ''defg''] Eof = (case ec of None \<Rightarrow> Inr (concat mem') | Some err \<Rightarrow> Inl err)"
  by (rule read_fills_buffers) simp

section \<open>The asynchronous operations\<close>

context transfer
begin

lemma composed_run_step:
  assumes "cb_ok bs cb" "\<not> cb_empty cb" "0 < k" "0 < cond None (cb_total_consumed cb)"
    and x: "xfer (cb_prepare k (cond None (cb_total_consumed cb)) cb) (cb_total_consumed cb) s = (n, ec, s')"
  shows "cb_ok bs (cb_consume n cb)" "cb_total_consumed (cb_consume n cb) = cb_total_consumed cb + n"
    "cb_total_consumed cb + n \<le> sum_list bs" "ec = None \<Longrightarrow> 0 < n"
proof -
  have n: "n \<le> slices_size (cb_prepare k (cond None (cb_total_consumed cb)) cb)" by (rule within [OF x])
  then show le: "cb_total_consumed cb + n \<le> sum_list bs"
    using cb_prepare_room [OF assms(1), of k "cond None (cb_total_consumed cb)"] by linarith
  from cb_ok_consume [OF assms(1) le] show "cb_ok bs (cb_consume n cb)" "cb_total_consumed (cb_consume n cb) = cb_total_consumed cb + n"
    by simp_all
  show "0 < n" if "ec = None"
    using progress x that cb_prepare_progress [OF assms(1-4)] by blast
qed

lemma async_rule:
  assumes "cb_ok bs cb" "0 < k" "\<not> cb_empty cb" "0 < cond None (cb_total_consumed cb)" "I (cb_total_consumed cb) None s"
    and same: "\<And>sl t u s. xfer sl t s = xfer sl u s"
    and step: "\<And>cb s n ec' s'. cb_ok bs cb \<Longrightarrow> \<not> cb_empty cb \<Longrightarrow> I (cb_total_consumed cb) None s \<Longrightarrow>
      xfer (cb_prepare k (cond None (cb_total_consumed cb)) cb) (cb_total_consumed cb) s = (n, ec', s') \<Longrightarrow> I (cb_total_consumed cb + n) ec' s'"
  shows "\<exists>n ec s' ec0. composed_run (\<lambda>sl. xfer sl 0) cond k cancel i
      (StartTransfer (cb_prepare k (cond None (cb_total_consumed cb)) cb) cb) s = Some (n, ec, s') \<and> I n ec0 s' \<and> n \<le> sum_list bs \<and>
    (ec = ec0 \<and> (n = sum_list bs \<or> cond ec n = 0) \<or> ec = Some operation_aborted)"
  using assms(1,3,4,5)
proof (induction "sum_list bs - cb_total_consumed cb" arbitrary: cb s i rule: less_induct)
  case less
  let ?m = "cond None (cb_total_consumed cb)"
  obtain n ec' s' where x: "xfer (cb_prepare k ?m cb) (cb_total_consumed cb) s = (n, ec', s')" by (metis prod_cases3)
  note c = composed_run_step [OF less.prems(1,2) assms(2) less.prems(3) x]
  let ?cb = "cb_consume n cb"
  have I: "I (cb_total_consumed ?cb) ec' s'" using step [OF less.prems(1,2,4) x] c(2) by simp
  have x0: "xfer (cb_prepare k ?m cb) 0 s = (n, ec', s')" using x same by metis
  have run: "composed_run (\<lambda>sl. xfer sl 0) cond k cancel i (StartTransfer (cb_prepare k ?m cb) cb) s =
      composed_run (\<lambda>sl. xfer sl 0) cond k cancel (Suc i) (composed_call k cond (cancel i) ec' n cb) s'"
    using x0 by (subst composed_run.simps) simp
  have le: "cb_total_consumed ?cb \<le> sum_list bs" "cb_empty ?cb \<longleftrightarrow> cb_total_consumed ?cb = sum_list bs"
    using c by (auto simp: cb_empty_def cb_ok_def)
  have n0: "\<not> (ec' = None \<and> n = 0)" using c(4) by auto
  show ?case
  proof (cases "cb_empty ?cb \<or> cond ec' (cb_total_consumed ?cb) = 0")
    case True
    then have "composed_call k cond (cancel i) ec' n cb = CallHandler ec' (cb_total_consumed ?cb)"
      using n0 by (auto simp: composed_call_def Let_def)
    with True I le show ?thesis unfolding run by (subst composed_run.simps) auto
  next
    case False
    then have ec: "ec' = None" using stops by (cases ec') auto
    show ?thesis
    proof (cases "cancel i")
      case True
      then have "composed_call k cond (cancel i) ec' n cb = CallHandler (Some operation_aborted) (cb_total_consumed ?cb)"
        using False n0 by (simp add: composed_call_def Let_def)
      with I le show ?thesis unfolding run by (subst composed_run.simps) auto
    next
      case nc: False
      then have call: "composed_call k cond (cancel i) ec' n cb = StartTransfer (cb_prepare k (cond None (cb_total_consumed ?cb)) ?cb) ?cb"
        using False n0 ec by (simp add: composed_call_def Let_def)
      have "sum_list bs - cb_total_consumed ?cb < sum_list bs - cb_total_consumed cb" using c ec by simp
      from less.hyps [OF this c(1)] False I ec show ?thesis unfolding run call by simp
    qed
  qed
qed

text \<open>Without a cancellation it is the synchronous loop.\<close>

lemma async_loop:
  assumes "cb_ok bs cb" "0 < k" "\<not> cb_empty cb" "0 < cond None (cb_total_consumed cb)"
    and same: "\<And>sl t u s. xfer sl t s = xfer sl u s"
  shows "composed_run (\<lambda>sl. xfer sl 0) cond k (\<lambda>_. False) i (StartTransfer (cb_prepare k (cond None (cb_total_consumed cb)) cb) cb) s =
    transfer_loop xfer cond k None cb s"
  using assms(1,3,4)
proof (induction "sum_list bs - cb_total_consumed cb" arbitrary: cb s i rule: less_induct)
  case less
  let ?m = "cond None (cb_total_consumed cb)"
  obtain n ec' s' where x: "xfer (cb_prepare k ?m cb) (cb_total_consumed cb) s = (n, ec', s')" by (metis prod_cases3)
  note c = composed_run_step [OF less.prems(1,2) assms(2) less.prems(3) x]
  let ?cb = "cb_consume n cb"
  have x0: "xfer (cb_prepare k ?m cb) 0 s = (n, ec', s')" using x same by metis
  have run: "composed_run (\<lambda>sl. xfer sl 0) cond k (\<lambda>_. False) i (StartTransfer (cb_prepare k ?m cb) cb) s =
      composed_run (\<lambda>sl. xfer sl 0) cond k (\<lambda>_. False) (Suc i) (composed_call k cond False ec' n cb) s'"
    using x0 by (subst composed_run.simps) simp
  have loop: "transfer_loop xfer cond k None cb s = transfer_loop xfer cond k ec' ?cb s'"
    using less.prems x by (subst transfer_loop.simps) (simp add: Let_def)
  have n0: "\<not> (ec' = None \<and> n = 0)" using c(4) by auto
  show ?case
  proof (cases "cb_empty ?cb \<or> cond ec' (cb_total_consumed ?cb) = 0")
    case True
    then have "composed_call k cond False ec' n cb = CallHandler ec' (cb_total_consumed ?cb)"
      using n0 by (auto simp: composed_call_def Let_def)
    then have "composed_run (\<lambda>sl. xfer sl 0) cond k (\<lambda>_. False) (Suc i) (composed_call k cond False ec' n cb) s' =
        Some (cb_total_consumed ?cb, ec', s')" by (subst composed_run.simps) simp
    moreover have "transfer_loop xfer cond k ec' ?cb s' = Some (cb_total_consumed ?cb, ec', s')"
      using True by (subst transfer_loop.simps) (auto simp: Let_def)
    ultimately show ?thesis unfolding run loop by simp
  next
    case False
    then have ec: "ec' = None" using stops by (cases ec') auto
    have call: "composed_call k cond False ec' n cb = StartTransfer (cb_prepare k (cond None (cb_total_consumed ?cb)) ?cb) ?cb"
      using False n0 ec by (simp add: composed_call_def Let_def)
    have "sum_list bs - cb_total_consumed ?cb < sum_list bs - cb_total_consumed cb" using c ec by simp
    from less.hyps [OF this c(1)] False ec show ?thesis unfolding run loop call by simp
  qed
qed

end

text \<open>C35: An asynchronous write or read of a non-empty buffer sequence that is not cancelled calls its
  handler with exactly the result of the synchronous call, and leaves the stream alike, for
  every stream that keeps its contract and every condition that stops on errors.\<close>
theorem async_transfer_is_sync:
  assumes "transfer cond (\<lambda>sl t. xfer sl)" "0 < k" "0 < sum_list bs" "0 < cond None 0"
  shows "async_transfer k cond xfer (\<lambda>_. False) bs s = asio_write k cond xfer bs s \<and>
    async_transfer k cond xfer (\<lambda>_. False) bs s = read_buffer_seq k cond xfer bs s"
  using transfer.async_loop [OF assms(1) cb_ok_new [of bs] assms(2), where i = 0 and s = s] assms(3,4)
  by (simp add: async_transfer_def composed_start_def asio_write_def read_buffer_seq_def new_consuming_def cb_empty_def
    del: sum_list_eq_0_iff)

lemma async_transfer_is_sync_witness:
  "async_transfer 16 transfer_all (net_read_some Eof) (\<lambda>_. False) [2, 3] ([''..'', ''...''], [''abc'', ''defg'']) =
     asio_write 16 transfer_all (net_read_some Eof) [2, 3] ([''..'', ''...''], [''abc'', ''defg'']) \<and>
   async_transfer 16 transfer_all (net_read_some Eof) (\<lambda>_. False) [2, 3] ([''..'', ''...''], [''abc'', ''defg'']) =
     read_buffer_seq 16 transfer_all (net_read_some Eof) [2, 3] ([''..'', ''...''], [''abc'', ''defg''])"
  by (rule async_transfer_is_sync)
    (simp_all add: net_read_all.transfer_axioms transfer_all_def default_max_transfer_size_def)

text \<open>Whenever a cancellation is signalled, \<open>async_write\<close> still calls its handler; the number of
  bytes it reports is what was sent, and without an error everything was.\<close>
theorem async_write_cancelled:
  assumes "takes_some ans" "0 < k" "0 < length (concat mem)"
  shows "\<exists>n ec i. async_transfer k transfer_all (net_write_some mem ans) cancel (List.map length mem) (0, []) =
      Some (n, ec, i, take n (concat mem)) \<and> (ec = None \<longrightarrow> n = length (concat mem))"
proof -
  let ?bs = "List.map length mem" let ?I = "\<lambda>n (ec::net_error option) s. snd s = take n (concat mem)"
  have T: "sum_list ?bs = length (concat mem)" by (simp add: length_concat)
  have "\<exists>n ec s ec0. composed_run (\<lambda>sl. (\<lambda>sl t. net_write_some mem ans sl) sl 0) transfer_all k cancel 0 (StartTransfer (cb_prepare k
      (transfer_all None (cb_total_consumed (new_consuming ?bs))) (new_consuming ?bs)) (new_consuming ?bs)) (0, []) = Some (n, ec, s) \<and>
      ?I n ec0 s \<and> n \<le> sum_list ?bs \<and> (ec = ec0 \<and> (n = sum_list ?bs \<or> transfer_all ec n = 0) \<or> ec = Some operation_aborted)"
  proof (rule transfer.async_rule [OF net_write_transfer [OF all.completion_stops_axioms assms(1)] cb_ok_new assms(2)])
    fix cb s n ec' s'
    assume "cb_ok ?bs cb" "?I (cb_total_consumed cb) None s"
      "net_write_some mem ans (cb_prepare k (transfer_all None (cb_total_consumed cb)) cb) s = (n, ec', s')"
    then show "?I (cb_total_consumed cb + n) ec' s'"
      by (auto simp: net_write_some_def Let_def cb_gather take_add split: prod.splits)
  qed (use assms(3) T in \<open>simp_all add: new_consuming_def cb_empty_def transfer_all_def default_max_transfer_size_def del: length_concat\<close>)
  then obtain n ec s where r: "composed_run (\<lambda>sl. net_write_some mem ans sl) transfer_all k cancel 0 (StartTransfer (cb_prepare k
      (transfer_all None (cb_total_consumed (new_consuming ?bs))) (new_consuming ?bs)) (new_consuming ?bs)) (0, []) = Some (n, ec, s)"
    "snd s = take n (concat mem)" "n = sum_list ?bs \<or> transfer_all ec n = 0 \<or> ec = Some operation_aborted" by blast
  obtain i sent where "s = (i, sent)" by (cases s)
  with r show ?thesis unfolding T
    by (intro exI [of _ n] exI [of _ ec] exI [of _ i])
      (auto simp: async_transfer_def composed_start_def transfer_all_def default_max_transfer_size_def simp del: length_concat)
qed

lemma async_write_cancelled_witness:
  "\<exists>n ec i. async_transfer 16 transfer_all (net_write_some [''ab'', ''cde''] (\<lambda>i. (1, None))) (\<lambda>i. i = 2) (List.map length [''ab'', ''cde'']) (0, []) =
      Some (n, ec, i, take n (concat [''ab'', ''cde''])) \<and> (ec = None \<longrightarrow> n = length (concat [''ab'', ''cde'']))"
  by (rule async_write_cancelled) (simp_all add: takes_some_def)

lemma async_write_cancelled_run:
  "async_transfer 16 transfer_all (net_write_some [''ab'', ''cde''] (\<lambda>i. (1, None))) (\<lambda>i. i = 2) [2, 3] (0, []) =
     Some (3, Some operation_aborted, 3, ''abc'')"
  by (simp add: async_transfer_def composed_start_def composed_run.simps composed_call_def cb_prepare_def cb_consume_def new_consuming_def
    cb_empty_def transfer_all_def default_max_transfer_size_def net_write_some_def Let_def)

end
