(* ===== verification/AsioReadUntil.thy ===== *)
theory AsioReadUntil
  imports EchoServers
begin

text \<open>
  \<open>impl/read_until.hpp\<close> of the Asio library: reading into a dynamic buffer until a
  delimiter arrives, which the HTTP clients are built on. The search resumes where a match
  may still begin, so that no byte is searched in vain and no match over two reads is lost.
\<close>

section \<open>Searching\<close>

datatype match = FullMatch | PartialMatch | NoMatch

text \<open>The inner loop of \<open>partial_search\<close>; the flag is \<open>test_iter2 != first2\<close>.\<close>

fun match_at :: "bool \<Rightarrow> 'a list \<Rightarrow> 'a list \<Rightarrow> match" where
  "match_at moved xs [] = FullMatch"
| "match_at moved [] (y # ys) = (if moved then PartialMatch else NoMatch)"
| "match_at moved (x # xs) (y # ys) = (if x \<noteq> y then NoMatch else match_at True xs ys)"

text \<open>The position of the match, or of the partial match at the end, and whether it is full.\<close>

fun partial_search :: "'a list \<Rightarrow> 'a list \<Rightarrow> nat \<times> bool" where
  "partial_search [] pat = (0, False)"
| "partial_search (x # xs) pat = (case match_at False (x # xs) pat of
       FullMatch \<Rightarrow> (0, True)
     | PartialMatch \<Rightarrow> (0, False)
     | NoMatch \<Rightarrow> (case partial_search xs pat of (i, full) \<Rightarrow> (Suc i, full)))"

text \<open>\<open>std::find\<close>: the position, the length if there is none.\<close>

fun find_char :: "'a \<Rightarrow> 'a list \<Rightarrow> nat" where
  "find_char c [] = 0"
| "find_char c (x # xs) = (if x = c then 0 else Suc (find_char c xs))"

section \<open>The loops\<close>

datatype until_error = NotFound | ReadError net_error

text \<open>\<open>cap\<close> is the capacity of the dynamic buffer when it has that size, \<open>mx\<close> its maximum size.\<close>

definition bytes_to_read :: "(nat \<Rightarrow> nat) \<Rightarrow> nat \<Rightarrow> string \<Rightarrow> nat" where
  "bytes_to_read cap mx buf = min (max 512 (cap (length buf) - length buf)) (min 65536 (mx - length buf))"

type_synonym until_result = "nat \<times> until_error option \<times> string \<times> string list"

text \<open>The three overloads: a character, a string, a match condition. The stream are the segments
  \<open>cs\<close> and then the error \<open>e\<close>. The result is the length up to the end of the match, the
  error, the buffer and what is left in the stream.\<close>

partial_function (option) read_until_char ::
    "char \<Rightarrow> nat \<Rightarrow> (nat \<Rightarrow> nat) \<Rightarrow> net_error \<Rightarrow> nat \<Rightarrow> string \<Rightarrow> string list \<Rightarrow> until_result option" where
  "read_until_char delim mx cap e pos buf cs =
     (let i = pos + find_char delim (drop pos buf) in
      if i \<noteq> length buf then Some (i + 1, None, buf, cs)
      else if length buf = mx then Some (0, Some NotFound, buf, cs)
      else (case read_some (bytes_to_read cap mx buf) cs of
          None \<Rightarrow> Some (0, Some (ReadError e), buf, cs)
        | Some (d, cs') \<Rightarrow> read_until_char delim mx cap e (length buf) (buf @ d) cs'))"

partial_function (option) read_until_string ::
    "string \<Rightarrow> nat \<Rightarrow> (nat \<Rightarrow> nat) \<Rightarrow> net_error \<Rightarrow> nat \<Rightarrow> string \<Rightarrow> string list \<Rightarrow> until_result option" where
  "read_until_string delim mx cap e pos buf cs =
     (case partial_search (drop pos buf) delim of (i, full) \<Rightarrow>
      if pos + i \<noteq> length buf \<and> full then Some (pos + i + length delim, None, buf, cs)
      else (let pos' = (if pos + i \<noteq> length buf then pos + i else length buf) in
        if length buf = mx then Some (0, Some NotFound, buf, cs)
        else (case read_some (bytes_to_read cap mx buf) cs of
            None \<Rightarrow> Some (0, Some (ReadError e), buf, cs)
          | Some (d, cs') \<Rightarrow> read_until_string delim mx cap e pos' (buf @ d) cs')))"

text \<open>A match condition gets the range from the search position to the end; its position counts from
  there.\<close>

partial_function (option) read_until_match ::
    "(string \<Rightarrow> nat \<times> bool) \<Rightarrow> nat \<Rightarrow> (nat \<Rightarrow> nat) \<Rightarrow> net_error \<Rightarrow> nat \<Rightarrow> string \<Rightarrow> string list \<Rightarrow> until_result option" where
  "read_until_match cond mx cap e pos buf cs =
     (case cond (drop pos buf) of (i, full) \<Rightarrow>
      if full then Some (pos + i, None, buf, cs)
      else (let pos' = (if pos + i \<noteq> length buf then pos + i else length buf) in
        if length buf = mx then Some (0, Some NotFound, buf, cs)
        else (case read_some (bytes_to_read cap mx buf) cs of
            None \<Rightarrow> Some (0, Some (ReadError e), buf, cs)
          | Some (d, cs') \<Rightarrow> read_until_match cond mx cap e pos' (buf @ d) cs')))"

section \<open>The asynchronous operation\<close>

text \<open>\<open>read_until_delim_string_op_v1\<close>: the search that each call begins with gives the next search
  position, \<open>None\<close> for \<open>not_found\<close>, and how much to read, 0 when done.\<close>

definition until_scan :: "string \<Rightarrow> nat \<Rightarrow> (nat \<Rightarrow> nat) \<Rightarrow> nat \<Rightarrow> string \<Rightarrow> nat option \<times> nat" where
  "until_scan delim mx cap pos buf = (case partial_search (drop pos buf) delim of (i, full) \<Rightarrow>
     if pos + i \<noteq> length buf \<and> full then (Some (pos + i + length delim), 0)
     else if length buf = mx then (None, 0)
     else (Some (if pos + i \<noteq> length buf then pos + i else length buf), bytes_to_read cap mx buf))"

text \<open>What the handler gets.\<close>

definition until_finish :: "nat option \<Rightarrow> net_error option \<Rightarrow> nat \<times> until_error option" where
  "until_finish pos ec = (if ec \<noteq> None then 0 else case pos of None \<Rightarrow> 0 | Some n \<Rightarrow> n,
     case pos of None \<Rightarrow> Some NotFound | Some n \<Rightarrow> map_option ReadError ec)"

text \<open>The operation with its stream; \<open>start\<close> is true in the call that starts it, which always
  begins a read, if only of no bytes.\<close>

partial_function (option) async_read_until ::
    "string \<Rightarrow> nat \<Rightarrow> (nat \<Rightarrow> nat) \<Rightarrow> net_error \<Rightarrow> bool \<Rightarrow> nat \<Rightarrow> string \<Rightarrow> string list \<Rightarrow> until_result option" where
  "async_read_until delim mx cap e start pos buf cs =
     (case until_scan delim mx cap pos buf of (pos', n) \<Rightarrow>
      if \<not> start \<and> n = 0 then (case until_finish pos' None of (r, ec) \<Rightarrow> Some (r, ec, buf, cs))
      else (case (if n = 0 then Some ([], cs) else read_some n cs) of
          None \<Rightarrow> (case until_finish pos' (Some e) of (r, ec) \<Rightarrow> Some (r, ec, buf, cs))
        | Some (d, cs') \<Rightarrow>
            if d = [] then (case until_finish pos' None of (r, ec) \<Rightarrow> Some (r, ec, buf @ d, cs'))
            else async_read_until delim mx cap e False (the pos') (buf @ d) cs'))"

section \<open>What the searches find\<close>

text \<open>The specification: the first position where the delimiter occurs.\<close>

fun find_pat :: "'a list \<Rightarrow> 'a list \<Rightarrow> nat option" where
  "find_pat p [] = (if p = [] then Some 0 else None)"
| "find_pat p (x # xs) = (if prefix p (x # xs) then Some 0 else map_option Suc (find_pat p xs))"

definition first_end :: "'a list \<Rightarrow> 'a list \<Rightarrow> nat option" where
  "first_end p xs = map_option (\<lambda>i. i + length p) (find_pat p xs)"

lemma find_pat_None: "find_pat p xs = None \<longleftrightarrow> \<not> sublist p xs"
  by (induction p xs rule: find_pat.induct) (auto simp: sublist_Cons_right)

lemma find_pat_Some:
  "find_pat p xs = Some i \<longleftrightarrow> i \<le> length xs \<and> prefix p (drop i xs) \<and> (\<forall>j < i. \<not> prefix p (drop j xs))"
proof (induction p xs arbitrary: i rule: find_pat.induct)
  case (2 p x xs)
  show ?case
  proof (cases i)
    case (Suc k)
    show ?thesis using 2 [of k] by (auto simp: Suc less_Suc_eq_0_disj)
  qed (use 2 in \<open>auto\<close>)
qed auto

lemma match_at_full: "match_at m xs p = FullMatch \<longleftrightarrow> prefix p xs"
  by (induction m xs p rule: match_at.induct) auto

lemma match_at_partial: "match_at m xs p = PartialMatch \<longleftrightarrow> strict_prefix xs p \<and> (m \<or> xs \<noteq> [])"
  by (induction m xs p rule: match_at.induct) (auto simp: strict_prefix_def)

lemma prefix_append_cases: "prefix p (xs @ ys) \<Longrightarrow> \<not> prefix p xs \<Longrightarrow> strict_prefix xs p"
  by (metis prefix_def prefix_order.less_le_not_le prefix_same_cases)

lemma partial_search_full: "p \<noteq> [] \<Longrightarrow> partial_search xs p = (i, True) \<longleftrightarrow> find_pat p xs = Some i"
proof (induction xs arbitrary: i)
  case (Cons x xs)
  show ?case
  proof (cases "match_at False (x # xs) p")
    case FullMatch
    then show ?thesis using match_at_full [of False "x # xs" p] by auto
  next
    case PartialMatch
    then have "strict_prefix (x # xs) p" using match_at_partial by blast
    then have "length (x # xs) < length p" by (rule prefix_length_less)
    then have "find_pat p (x # xs) = None" unfolding find_pat_None using sublist_length_le by (metis leD)
    then show ?thesis using PartialMatch by auto
  next
    case NoMatch
    then have "\<not> prefix p (x # xs)" using match_at_full by (metis match.distinct(3))
    then show ?thesis using NoMatch Cons.IH [OF Cons.prems] by (cases "partial_search xs p") auto
  qed
qed simp

lemma partial_search_rest:
  assumes "p \<noteq> []" "partial_search xs p = (i, False)"
  shows "find_pat p xs = None \<and> i \<le> length xs \<and> (\<forall>ys. find_pat p (xs @ ys) = map_option ((+) i) (find_pat p (drop i xs @ ys)))"
  using assms(2)
proof (induction xs arbitrary: i)
  case Nil
  with assms(1) show ?case by (simp add: option.map_id [unfolded id_def])
next
  case (Cons x xs)
  have none: "find_pat p (x # xs) = None" using partial_search_full [OF assms(1), of "x # xs"] Cons.prems
    by (cases "find_pat p (x # xs)") auto
  show ?case
  proof (cases "match_at False (x # xs) p")
    case FullMatch
    with Cons.prems show ?thesis by simp
  next
    case PartialMatch
    with Cons.prems none show ?thesis by (simp add: option.map_id [unfolded id_def])
  next
    case NoMatch
    obtain k where k: "partial_search xs p = (k, False)" "i = Suc k" using Cons.prems NoMatch by (auto split: prod.splits)
    have "\<not> prefix p ((x # xs) @ ys)" for ys
    proof
      assume "prefix p ((x # xs) @ ys)"
      moreover have "\<not> prefix p (x # xs)" using NoMatch match_at_full by (metis match.distinct(3))
      ultimately have "strict_prefix (x # xs) p" by (rule prefix_append_cases)
      with NoMatch match_at_partial [of False "x # xs" p] show False by simp
    qed
    then have "find_pat p ((x # xs) @ ys) = map_option Suc (find_pat p (xs @ ys))" for ys by simp
    with Cons.IH [OF k(1)] k(2) none show ?thesis by (simp add: option.map_comp comp_def)
  qed
qed

lemma find_pat_length: "find_pat p xs = Some i \<Longrightarrow> i + length p \<le> length xs"
  by (induction p xs arbitrary: i rule: find_pat.induct) (auto split: if_splits dest: prefix_length_le)

lemma find_pat_append: "find_pat p xs = Some i \<Longrightarrow> find_pat p (xs @ ys) = Some i"
proof (induction p xs arbitrary: i rule: find_pat.induct)
  case (1 p)
  then show ?case by (cases ys) (auto split: if_splits)
next
  case (2 p x xs)
  show ?case
  proof (cases "prefix p (x # xs)")
    case True
    then have "prefix p ((x # xs) @ ys)" by (rule prefix_prefix)
    with True 2(2) show ?thesis by auto
  next
    case False
    then obtain k where k: "find_pat p xs = Some k" "i = Suc k" using 2(2) by auto
    have "\<not> prefix p ((x # xs) @ ys)"
    proof
      assume "prefix p ((x # xs) @ ys)"
      then have "strict_prefix (x # xs) p" using False by (rule prefix_append_cases)
      then have "length (x # xs) < length p" by (rule prefix_length_less)
      with find_pat_length [OF k(1)] show False by simp
    qed
    with 2(1) [OF False k(1)] k(2) show ?thesis by simp
  qed
qed

section \<open>Incremental matching\<close>

text \<open>What the loop relies on: a condition that answers with the end of the first match, or with a
  position before which no match can begin whatever is read next.\<close>

locale incremental_match =
  fixes cond :: "string \<Rightarrow> nat \<times> bool" and first :: "string \<Rightarrow> nat option"
  assumes full: "cond xs = (n, True) \<Longrightarrow> first xs = Some n"
    and rest: "cond xs = (i, False) \<Longrightarrow>
      first xs = None \<and> i \<le> length xs \<and> (\<forall>ys. first (xs @ ys) = map_option ((+) i) (first (drop i xs @ ys)))"
    and stable: "first xs = Some n \<Longrightarrow> n \<le> length xs \<and> first (xs @ ys) = Some n"
begin

definition resumes :: "nat \<Rightarrow> string \<Rightarrow> bool" where
  "resumes pos buf \<longleftrightarrow> pos \<le> length buf \<and> (\<forall>ys. first (buf @ ys) = map_option ((+) pos) (first (drop pos buf @ ys)))"

lemma resumes_0: "resumes 0 buf"
proof -
  have "map_option ((+) (0::nat)) x = x" for x by (cases x) simp_all
  then show ?thesis by (simp add: resumes_def)
qed

lemma resumes_first:
  assumes "resumes pos buf"
  shows "first buf = map_option ((+) pos) (first (drop pos buf))"
proof -
  have "first (buf @ []) = map_option ((+) pos) (first (drop pos buf @ []))" using assms unfolding resumes_def by blast
  then show ?thesis by simp
qed

lemma resumes_full:
  assumes "resumes pos buf" "cond (drop pos buf) = (i, True)"
  shows "first buf = Some (pos + i)"
  using resumes_first [OF assms(1)] full [OF assms(2)] by simp

lemma resumes_rest:
  assumes "resumes pos buf" "cond (drop pos buf) = (i, False)"
  shows "first buf = None" "resumes (pos + i) (buf @ d)" "pos + i \<le> length buf"
proof -
  note r = rest [OF assms(2)]
  show "first buf = None" using resumes_first [OF assms(1)] r by simp
  show le: "pos + i \<le> length buf" using assms(1) r by (auto simp: resumes_def)
  have "first (buf @ d @ ys) = map_option ((+) (pos + i)) (first (drop (pos + i) (buf @ d) @ ys))" for ys
  proof -
    have "first (buf @ d @ ys) = map_option ((+) pos) (first (drop pos buf @ d @ ys))"
      using assms(1) by (simp add: resumes_def)
    also have "first (drop pos buf @ d @ ys) = map_option ((+) i) (first (drop i (drop pos buf) @ d @ ys))" using r by blast
    finally show ?thesis using le by (cases "first (drop i (drop pos buf) @ d @ ys)") (simp_all add: add.assoc add.commute)
  qed
  then show "resumes (pos + i) (buf @ d)" using le by (simp add: resumes_def)
qed

text \<open>What the loop returns: the end of the first match in the whole stream; or that the buffer is
  full, or that the stream ended, and there is no match so far. Nothing is lost.\<close>

definition until_spec :: "nat \<Rightarrow> net_error \<Rightarrow> string \<Rightarrow> string list \<Rightarrow> until_result \<Rightarrow> bool" where
  "until_spec mx e buf cs r \<longleftrightarrow> (case r of (n, ec, buf', cs') \<Rightarrow>
     buf' @ concat cs' = buf @ concat cs \<and> length buf' \<le> mx \<and>
     (case ec of
        None \<Rightarrow> first (buf @ concat cs) = Some n \<and> n \<le> length buf'
      | Some NotFound \<Rightarrow> n = 0 \<and> length buf' = mx \<and> first buf' = None
      | Some (ReadError x) \<Rightarrow> n = 0 \<and> x = e \<and> concat cs' = [] \<and> first (buf @ concat cs) = None))"

lemma bytes_to_read_bounds: "length buf < mx \<Longrightarrow> 0 < bytes_to_read cap mx buf \<and> length buf + bytes_to_read cap mx buf \<le> mx"
  by (cases "cap (length buf) - length buf") (auto simp: bytes_to_read_def max_def min_def)

lemma read_until_match_spec:
  assumes "resumes pos buf" "length buf \<le> mx"
  shows "\<exists>r. read_until_match cond mx cap e pos buf cs = Some r \<and> until_spec mx e buf cs r"
  using assms
proof (induction "length (concat cs)" arbitrary: pos buf cs rule: less_induct)
  case less
  obtain i full where c: "cond (drop pos buf) = (i, full)" by fastforce
  show ?case
  proof (cases full)
    case True
    then have f: "first buf = Some (pos + i)" using resumes_full less.prems(1) c by simp
    have "read_until_match cond mx cap e pos buf cs = Some (pos + i, None, buf, cs)"
      using c True by (subst read_until_match.simps) simp
    with f less.prems(2) stable [OF f] show ?thesis by (simp add: until_spec_def)
  next
    case False
    with c have c: "cond (drop pos buf) = (i, False)" by simp
    have none: "first buf = None" and le: "pos + i \<le> length buf" using resumes_rest [OF less.prems(1) c] by simp_all
    show ?thesis
    proof (cases "length buf = mx")
      case True
      then have "read_until_match cond mx cap e pos buf cs = Some (0, Some NotFound, buf, cs)"
        using c by (subst read_until_match.simps) (simp add: Let_def)
      with True none show ?thesis by (simp add: until_spec_def)
    next
      case False
      then have n: "0 < bytes_to_read cap mx buf" "length buf + bytes_to_read cap mx buf \<le> mx"
        using bytes_to_read_bounds [of buf mx] less.prems(2) by simp_all
      show ?thesis
      proof (cases "read_some (bytes_to_read cap mx buf) cs")
        case None
        then have "read_until_match cond mx cap e pos buf cs = Some (0, Some (ReadError e), buf, cs)"
          using c False by (subst read_until_match.simps) (simp add: Let_def)
        moreover have "concat cs = []" by (rule read_some_None [OF None])
        ultimately show ?thesis using none less.prems(2) by (simp add: until_spec_def del: concat_eq_Nil_conv)
      next
        case (Some p)
        obtain d cs' where p: "p = (d, cs')" by (cases p)
        note r = Some [unfolded p]
        have run: "read_until_match cond mx cap e pos buf cs = read_until_match cond mx cap e (pos + i) (buf @ d) cs'"
          using c False r by (subst read_until_match.simps) (simp add: Let_def)
        have "length (buf @ d) \<le> mx" using read_some_bounds [OF r n(1)] n(2) by simp
        from less.hyps [OF read_some_decreases [OF r n(1)] resumes_rest(2) [OF less.prems(1) c] this]
        obtain res where "read_until_match cond mx cap e (pos + i) (buf @ d) cs' = Some res" "until_spec mx e (buf @ d) cs' res" by blast
        moreover have eq: "(buf @ d) @ concat cs' = buf @ concat cs" using read_some_concat [OF r] by simp
        have "until_spec mx e (buf @ d) cs' res = until_spec mx e buf cs res" unfolding until_spec_def eq ..
        ultimately show ?thesis unfolding run by blast
      qed
    qed
  qed
qed

end

section \<open>The delimiters\<close>

definition string_condition :: "string \<Rightarrow> string \<Rightarrow> nat \<times> bool" where
  "string_condition d xs = (case partial_search xs d of (i, full) \<Rightarrow> (if full then i + length d else i, full))"

definition char_condition :: "char \<Rightarrow> string \<Rightarrow> nat \<times> bool" where
  "char_condition c xs = (let i = find_char c xs in if i \<noteq> length xs then (i + 1, True) else (i, False))"

lemma partial_search_less: "partial_search xs d = (i, True) \<Longrightarrow> i < length xs"
  by (induction xs arbitrary: i) (auto split: match.splits prod.splits)

lemma partial_search_le: "partial_search xs d = (i, full) \<Longrightarrow> i \<le> length xs"
  by (induction xs arbitrary: i) (auto split: match.splits prod.splits)

lemma find_char_pat: "find_pat [c] xs = (if find_char c xs = length xs then None else Some (find_char c xs))"
  by (induction xs) auto

lemma find_char_le: "find_char c xs \<le> length xs"
  by (induction xs) auto

interpretation str: incremental_match "string_condition (d # ds)" "first_end (d # ds)" for d ds
proof
  fix xs n assume "string_condition (d # ds) xs = (n, True)"
  then show "first_end (d # ds) xs = Some n"
    using partial_search_full [of "d # ds" xs] by (auto simp: string_condition_def first_end_def split: prod.splits if_splits)
next
  fix xs i assume "string_condition (d # ds) xs = (i, False)"
  then have "partial_search xs (d # ds) = (i, False)" by (auto simp: string_condition_def split: prod.splits if_splits)
  from partial_search_rest [OF _ this]
  show "first_end (d # ds) xs = None \<and> i \<le> length xs \<and>
      (\<forall>ys. first_end (d # ds) (xs @ ys) = map_option ((+) i) (first_end (d # ds) (drop i xs @ ys)))"
    by (simp add: first_end_def option.map_comp comp_def add.assoc)
next
  fix xs n ys assume "first_end (d # ds) xs = Some n"
  then show "n \<le> length xs \<and> first_end (d # ds) (xs @ ys) = Some n"
    by (auto simp: first_end_def find_pat_append dest: find_pat_length)
qed

interpretation chr: incremental_match "char_condition c" "first_end [c]" for c
proof
  fix xs n assume "char_condition c xs = (n, True)"
  then show "first_end [c] xs = Some n"
    by (auto simp: char_condition_def first_end_def find_char_pat Let_def split: if_splits)
next
  fix xs i assume "char_condition c xs = (i, False)"
  then have i: "find_char c xs = length xs" "i = length xs" by (auto simp: char_condition_def Let_def split: if_splits)
  have "find_pat [c] (xs @ ys) = map_option ((+) (length xs)) (find_pat [c] ys)" for ys
    using i(1)
  proof (induction xs)
    case Nil
    show ?case by (cases "find_pat [c] ys") simp_all
  next
    case (Cons a xs)
    then show ?case by (cases "find_pat [c] ys") (auto split: if_splits)
  qed
  then show "first_end [c] xs = None \<and> i \<le> length xs \<and>
      (\<forall>ys. first_end [c] (xs @ ys) = map_option ((+) i) (first_end [c] (drop i xs @ ys)))"
    using i by (simp add: first_end_def find_char_pat option.map_comp comp_def add.assoc)
next
  fix xs n ys assume "first_end [c] xs = Some n"
  then show "n \<le> length xs \<and> first_end [c] (xs @ ys) = Some n"
    by (auto simp: first_end_def find_pat_append dest: find_pat_length)
qed

text \<open>The loops for characters and strings are the general one with these conditions.\<close>

lemma read_until_string_match:
  "length buf \<le> mx \<Longrightarrow> read_until_string d mx cap e pos buf cs = read_until_match (string_condition d) mx cap e pos buf cs"
proof (induction "length (concat cs)" arbitrary: pos buf cs rule: less_induct)
  case less
  obtain i full where c: "partial_search (drop pos buf) d = (i, full)" by fastforce
  show ?case
  proof (cases "full \<or> length buf = mx")
    case True
    with partial_search_less [of "drop pos buf" d i] c show ?thesis
      by (subst read_until_string.simps, subst read_until_match.simps) (auto simp: string_condition_def Let_def)
  next
    case False
    then have n: "0 < bytes_to_read cap mx buf" "length buf + bytes_to_read cap mx buf \<le> mx"
      using str.bytes_to_read_bounds [of buf mx] less.prems by simp_all
    show ?thesis
    proof (cases "read_some (bytes_to_read cap mx buf) cs")
      case None
      with False c show ?thesis
        by (subst read_until_string.simps, subst read_until_match.simps) (auto simp: string_condition_def Let_def)
    next
      case (Some p)
      obtain x cs' where p: "p = (x, cs')" by (cases p)
      note r = Some [unfolded p]
      have "length (buf @ x) \<le> mx" using read_some_bounds [OF r n(1)] n(2) by simp
      from less.hyps [OF read_some_decreases [OF r n(1)] this] False c r show ?thesis
        by (subst read_until_string.simps, subst read_until_match.simps) (simp add: string_condition_def Let_def)
    qed
  qed
qed

lemma read_until_char_match:
  "length buf \<le> mx \<Longrightarrow> pos \<le> length buf \<Longrightarrow> read_until_char c mx cap e pos buf cs = read_until_match (char_condition c) mx cap e pos buf cs"
proof (induction "length (concat cs)" arbitrary: pos buf cs rule: less_induct)
  case less
  let ?i = "find_char c (drop pos buf)"
  have le: "?i \<le> length (drop pos buf)" by (rule find_char_le)
  show ?case
  proof (cases "?i \<noteq> length (drop pos buf) \<or> length buf = mx")
    case True
    with le less.prems(2) show ?thesis
      by (subst read_until_char.simps, subst read_until_match.simps) (auto simp: char_condition_def Let_def)
  next
    case False
    then have n: "0 < bytes_to_read cap mx buf" "length buf + bytes_to_read cap mx buf \<le> mx"
      using chr.bytes_to_read_bounds [of buf mx] less.prems(1) by simp_all
    show ?thesis
    proof (cases "read_some (bytes_to_read cap mx buf) cs")
      case None
      with False less.prems(2) show ?thesis
        by (subst read_until_char.simps, subst read_until_match.simps) (auto simp: char_condition_def Let_def)
    next
      case (Some p)
      obtain x cs' where p: "p = (x, cs')" by (cases p)
      note r = Some [unfolded p]
      have l: "length (buf @ x) \<le> mx" "length buf \<le> length (buf @ x)" using read_some_bounds [OF r n(1)] n(2) by simp_all
      from less.hyps [OF read_some_decreases [OF r n(1)] l] False less.prems(2) r show ?thesis
        by (subst read_until_char.simps, subst read_until_match.simps) (simp add: char_condition_def Let_def)
    qed
  qed
qed

lemma ex_result:
  "(\<exists>r. f = Some r \<and> (case r of (a, b, c, d) \<Rightarrow> P a b c d)) \<longleftrightarrow> (\<exists>a b c d. f = Some (a, b, c, d) \<and> P a b c d)"
  by auto

text \<open>C20: \<open>read_until\<close> with a string or a character returns for every stream and every growth of the
  buffer; it loses no byte, and its result is the end of the first occurrence of the
  delimiter in everything that arrives, an occurrence over several reads included; it reports
  \<open>not_found\<close> only when the buffer is full and has none, and the stream's error only when the whole
  stream has none.\<close>
theorem read_until_finds_first:
  assumes "d \<noteq> []" "length buf \<le> mx"
  shows "(\<exists>n ec buf' cs'. read_until_string d mx cap e 0 buf cs = Some (n, ec, buf', cs') \<and>
      buf' @ concat cs' = buf @ concat cs \<and> length buf' \<le> mx \<and>
      (case ec of
         None \<Rightarrow> first_end d (buf @ concat cs) = Some n \<and> n \<le> length buf'
       | Some NotFound \<Rightarrow> n = 0 \<and> length buf' = mx \<and> first_end d buf' = None
       | Some (ReadError x) \<Rightarrow> n = 0 \<and> x = e \<and> concat cs' = [] \<and> first_end d (buf @ concat cs) = None)) \<and>
    (\<exists>n ec buf' cs'. read_until_char c mx cap e 0 buf cs = Some (n, ec, buf', cs') \<and>
      buf' @ concat cs' = buf @ concat cs \<and> length buf' \<le> mx \<and>
      (case ec of
         None \<Rightarrow> first_end [c] (buf @ concat cs) = Some n \<and> n \<le> length buf'
       | Some NotFound \<Rightarrow> n = 0 \<and> length buf' = mx \<and> first_end [c] buf' = None
       | Some (ReadError x) \<Rightarrow> n = 0 \<and> x = e \<and> concat cs' = [] \<and> first_end [c] (buf @ concat cs) = None))"
proof -
  obtain a as where d: "d = a # as" using assms(1) by (cases d) auto
  show ?thesis
    using str.read_until_match_spec [OF str.resumes_0 assms(2), of a as cap e cs]
      chr.read_until_match_spec [OF chr.resumes_0 assms(2), of c cap e cs]
    unfolding read_until_string_match [OF assms(2)] read_until_char_match [OF assms(2) le0] d str.until_spec_def chr.until_spec_def
    by (simp only: ex_result)
qed

lemma read_until_finds_first_witness:
  "(\<exists>n ec buf' cs'. read_until_string ''ab'' 9 (\<lambda>n. n) Eof 0 ''xa'' [''b''] = Some (n, ec, buf', cs') \<and>
      buf' @ concat cs' = ''xa'' @ concat [''b''] \<and> length buf' \<le> 9 \<and>
      (case ec of
         None \<Rightarrow> first_end ''ab'' (''xa'' @ concat [''b'']) = Some n \<and> n \<le> length buf'
       | Some NotFound \<Rightarrow> n = 0 \<and> length buf' = 9 \<and> first_end ''ab'' buf' = None
       | Some (ReadError x) \<Rightarrow> n = 0 \<and> x = Eof \<and> concat cs' = [] \<and> first_end ''ab'' (''xa'' @ concat [''b'']) = None)) \<and>
    (\<exists>n ec buf' cs'. read_until_char CHR ''b'' 9 (\<lambda>n. n) Eof 0 ''xa'' [''b''] = Some (n, ec, buf', cs') \<and>
      buf' @ concat cs' = ''xa'' @ concat [''b''] \<and> length buf' \<le> 9 \<and>
      (case ec of
         None \<Rightarrow> first_end [CHR ''b''] (''xa'' @ concat [''b'']) = Some n \<and> n \<le> length buf'
       | Some NotFound \<Rightarrow> n = 0 \<and> length buf' = 9 \<and> first_end [CHR ''b''] buf' = None
       | Some (ReadError x) \<Rightarrow> n = 0 \<and> x = Eof \<and> concat cs' = [] \<and> first_end [CHR ''b''] (''xa'' @ concat [''b'']) = None))"
  by (rule read_until_finds_first) simp_all

lemma read_until_over_reads:
  "read_until_string ''ab'' 9 (\<lambda>n. n) Eof 0 ''xa'' [''b''] = Some (3, None, ''xab'', [])"
  by (subst read_until_string.simps, simp add: Let_def bytes_to_read_def, subst read_until_string.simps) simp

section \<open>What the HTTP clients assume\<close>

text \<open>The \<open>read_until\<close> of the HTTP clients is this loop: whatever the sizes of the reads, there is
  a way to cut the same stream into segments so that reading whole segments until the delimiter
  is in the buffer leaves the same buffer and the same rest, or fails where the loop does.\<close>
theorem read_until_refines_http:
  assumes "d \<noteq> []" "length buf \<le> mx" "read_until_string d mx cap e 0 buf cs = Some (n, ec, buf', cs')" "ec \<noteq> Some NotFound"
  shows "\<exists>segments. concat segments = concat cs \<and>
    HttpClient.read_until d buf segments = (if ec = None then Some (buf', cs') else None)"
proof -
  obtain a as where d: "d = a # as" using assms(1) by (cases d) auto
  have "read_until_match (string_condition d) mx cap e pos buf cs = Some (n, ec, buf', cs') \<Longrightarrow> str.resumes a as pos buf \<Longrightarrow>
      length buf \<le> mx \<Longrightarrow> \<exists>segments. concat segments = concat cs \<and>
      HttpClient.read_until d buf segments = (if ec = None then Some (buf', cs') else None)" for pos
  proof (induction "length (concat cs)" arbitrary: pos buf cs rule: less_induct)
    case less
    obtain i full where c: "string_condition d (drop pos buf) = (i, full)" by fastforce
    have sub: "first_end d buf = None \<longleftrightarrow> \<not> sublist d buf" by (simp add: first_end_def find_pat_None)
    show ?case
    proof (cases full)
      case True
      then have f: "first_end d buf = Some (pos + i)" using str.resumes_full [OF less.prems(2)] c d by simp
      have "read_until_match (string_condition d) mx cap e pos buf cs = Some (pos + i, None, buf, cs)"
        using c True by (subst read_until_match.simps) simp
      then have "ec = None" "buf' = buf" "cs' = cs" using less.prems(1) by simp_all
      moreover have "HttpClient.read_until d buf cs = Some (buf, cs)" using f sub by (cases cs) simp_all
      ultimately show ?thesis by auto
    next
      case False
      with c have c: "string_condition d (drop pos buf) = (i, False)" by simp
      note rs = str.resumes_rest [OF less.prems(2) c [unfolded d]]
      have ns: "\<not> sublist d buf" using rs(1) sub d by simp
      show ?thesis
      proof (cases "length buf = mx")
        case True
        then have "read_until_match (string_condition d) mx cap e pos buf cs = Some (0, Some NotFound, buf, cs)"
          using c by (subst read_until_match.simps) (simp add: Let_def)
        with less.prems(1) assms(4) show ?thesis by simp
      next
        case False
        then have n: "0 < bytes_to_read cap mx buf" "length buf + bytes_to_read cap mx buf \<le> mx"
          using str.bytes_to_read_bounds [of buf mx] less.prems(3) by simp_all
        show ?thesis
        proof (cases "read_some (bytes_to_read cap mx buf) cs")
          case None
          then have "read_until_match (string_condition d) mx cap e pos buf cs = Some (0, Some (ReadError e), buf, cs)"
            using c False by (subst read_until_match.simps) (simp add: Let_def)
          moreover have "concat cs = []" by (rule read_some_None [OF None])
          ultimately show ?thesis using ns less.prems(1) by (intro exI [of _ "[]"]) (auto simp del: concat_eq_Nil_conv)
        next
          case (Some p)
          obtain x cs2 where p: "p = (x, cs2)" by (cases p)
          note r = Some [unfolded p]
          have "read_until_match (string_condition d) mx cap e pos buf cs = read_until_match (string_condition d) mx cap e (pos + i) (buf @ x) cs2"
            using c False r by (subst read_until_match.simps) (simp add: Let_def)
          with less.prems(1) have run: "read_until_match (string_condition d) mx cap e (pos + i) (buf @ x) cs2 = Some (n, ec, buf', cs')" by simp
          have l: "length (buf @ x) \<le> mx" using read_some_bounds [OF r n(1)] n(2) by simp
          from less.hyps [OF read_some_decreases [OF r n(1)] run rs(2) l] obtain segments where
            "concat segments = concat cs2" "HttpClient.read_until d (buf @ x) segments = (if ec = None then Some (buf', cs') else None)" by blast
          then show ?thesis using ns read_some_concat [OF r] by (intro exI [of _ "x # segments"]) simp
        qed
      qed
    qed
  qed
  from this [OF assms(3) [unfolded read_until_string_match [OF assms(2)]] str.resumes_0 assms(2)] show ?thesis .
qed

lemma read_until_refines_http_witness:
  "\<exists>segments. concat segments = concat [''b''] \<and>
    HttpClient.read_until ''ab'' ''xa'' segments = (if None = (None :: until_error option) then Some (''xab'', []) else None)"
  by (rule read_until_refines_http [OF _ _ read_until_over_reads]) simp_all

section \<open>The asynchronous operation\<close>

text \<open>\<open>async_read_until\<close>, which begins a read even when the buffer already has the delimiter,
  calls its handler with the result of the synchronous function.\<close>
theorem async_read_until_is_sync:
  assumes "length buf \<le> mx"
  shows "async_read_until d mx cap e start pos buf cs = read_until_string d mx cap e pos buf cs"
  using assms
proof (induction "length (concat cs)" arbitrary: start pos buf cs rule: less_induct)
  case less
  obtain i full where c: "partial_search (drop pos buf) d = (i, full)" by fastforce
  show ?case
  proof (cases "pos + i \<noteq> length buf \<and> full \<or> length buf = mx")
    case True
    with c show ?thesis
      by (subst async_read_until.simps, subst read_until_string.simps) (auto simp: until_scan_def until_finish_def Let_def)
  next
    case False
    then have n: "0 < bytes_to_read cap mx buf" "length buf + bytes_to_read cap mx buf \<le> mx"
      using str.bytes_to_read_bounds [of buf mx] less.prems by simp_all
    have scan: "until_scan d mx cap pos buf = (Some (if pos + i \<noteq> length buf then pos + i else length buf), bytes_to_read cap mx buf)"
      using False c by (auto simp: until_scan_def)
    show ?thesis
    proof (cases "read_some (bytes_to_read cap mx buf) cs")
      case None
      with n(1) scan have "async_read_until d mx cap e start pos buf cs = Some (0, Some (ReadError e), buf, cs)"
        by (subst async_read_until.simps) (simp add: until_finish_def)
      moreover have "read_until_string d mx cap e pos buf cs = Some (0, Some (ReadError e), buf, cs)"
        using False c None by (subst read_until_string.simps) (auto simp: Let_def)
      ultimately show ?thesis by simp
    next
      case (Some p)
      obtain x cs' where p: "p = (x, cs')" by (cases p)
      note r = Some [unfolded p]
      let ?pos = "if pos + i \<noteq> length buf then pos + i else length buf"
      have l: "length (buf @ x) \<le> mx" "x \<noteq> []" using read_some_bounds [OF r n(1)] n(2) by simp_all
      have "async_read_until d mx cap e start pos buf cs = async_read_until d mx cap e False ?pos (buf @ x) cs'"
        using n(1) scan r l(2) by (subst async_read_until.simps) simp
      moreover have "read_until_string d mx cap e pos buf cs = read_until_string d mx cap e ?pos (buf @ x) cs'"
        using False c r by (subst read_until_string.simps) (auto simp: Let_def)
      ultimately show ?thesis using less.hyps [OF read_some_decreases [OF r n(1)] l(1)] by simp
    qed
  qed
qed

lemma async_read_until_is_sync_witness:
  "async_read_until ''ab'' 9 (\<lambda>n. n) Eof True 0 ''xa'' [''b''] = read_until_string ''ab'' 9 (\<lambda>n. n) Eof 0 ''xa'' [''b'']"
  by (rule async_read_until_is_sync) simp

end
