(* ===== verification/AsioBuffers.thy ===== *)
theory AsioBuffers
  imports Prelude
begin

text \<open>
  The buffers that the read operations of the Asio library grow: \<open>basic_streambuf\<close> with its
  get and put areas, the dynamic buffers over a string and a vector, and \<open>buffer_copy\<close>
  (\<open>basic_streambuf.hpp\<close>, \<open>buffer.hpp\<close>). Pointers into the character array are offsets.
\<close>

section \<open>basic_streambuf\<close>

text \<open>\<open>std::streambuf\<close> has \<open>eback\<close> at the start of the array here; a thrown \<open>length_error\<close> leaves
  the state that it was thrown in.\<close>

datatype buffer_error = LengthError

record streambuf =
  sb_buffer :: string
  sb_gptr :: nat
  sb_egptr :: nat
  sb_pptr :: nat
  sb_epptr :: nat
  sb_max_size :: nat

abbreviation NUL :: char where "NUL \<equiv> CHR 0x00"

definition buffer_delta :: nat where "buffer_delta = 128"

definition resize :: "nat \<Rightarrow> string \<Rightarrow> string" where
  "resize n xs = take n xs @ replicate (n - length xs) NUL"

text \<open>\<open>pbump\<close> and \<open>gbump\<close> take an \<open>int\<close>: the conversion of a \<open>size_t\<close>.\<close>

definition to_cint :: "nat \<Rightarrow> int" where
  "to_cint n = (let m = n mod 2 ^ 32 in if m < 2 ^ 31 then int m else int m - 2 ^ 32)"

definition new_streambuf :: "nat \<Rightarrow> streambuf" where
  "new_streambuf maximum_size = (let pend = min maximum_size buffer_delta in
     \<lparr>sb_buffer = resize (max pend 1) [], sb_gptr = 0, sb_egptr = 0, sb_pptr = 0, sb_epptr = pend, sb_max_size = maximum_size\<rparr>)"

definition sb_size :: "streambuf \<Rightarrow> nat" where
  "sb_size sb = sb_pptr sb - sb_gptr sb"

definition sb_data :: "streambuf \<Rightarrow> string" where
  "sb_data sb = take (sb_pptr sb - sb_gptr sb) (drop (sb_gptr sb) (sb_buffer sb))"

definition sb_reserve :: "nat \<Rightarrow> streambuf \<Rightarrow> buffer_error option \<times> streambuf" where
  "sb_reserve n sb =
     (let gnext = sb_gptr sb; pnext = sb_pptr sb; pend = sb_epptr sb in
      if n \<le> pend - pnext then (None, sb)
      else
        (let pnext1 = (if gnext > 0 then pnext - gnext else pnext);
             buf1 = (if gnext > 0 then take pnext1 (drop gnext (sb_buffer sb)) @ drop pnext1 (sb_buffer sb) else sb_buffer sb)
         in if n > pend - pnext1 then
              (if n \<le> sb_max_size sb \<and> pnext1 \<le> sb_max_size sb - n then
                 (let pend1 = pnext1 + n in
                  (None, sb\<lparr>sb_buffer := resize (max pend1 1) buf1, sb_gptr := 0, sb_egptr := pnext1, sb_pptr := pnext1, sb_epptr := pend1\<rparr>))
               else (Some LengthError, sb\<lparr>sb_buffer := buf1\<rparr>))
            else (None, sb\<lparr>sb_buffer := buf1, sb_gptr := 0, sb_egptr := pnext1, sb_pptr := pnext1, sb_epptr := pend\<rparr>)))"

definition sb_prepare :: "nat \<Rightarrow> streambuf \<Rightarrow> buffer_error option \<times> streambuf" where
  "sb_prepare n sb = sb_reserve n sb"

text \<open>What a stream does to the prepared space.\<close>

definition sb_fill :: "string \<Rightarrow> streambuf \<Rightarrow> streambuf" where
  "sb_fill d sb = sb\<lparr>sb_buffer := take (sb_pptr sb) (sb_buffer sb) @ d @ drop (sb_pptr sb + length d) (sb_buffer sb)\<rparr>"

definition sb_commit :: "nat \<Rightarrow> streambuf \<Rightarrow> streambuf" where
  "sb_commit n sb =
     (let m = min n (sb_epptr sb - sb_pptr sb); p = nat (int (sb_pptr sb) + to_cint m)
      in sb\<lparr>sb_pptr := p, sb_egptr := p\<rparr>)"

definition sb_consume :: "nat \<Rightarrow> streambuf \<Rightarrow> streambuf" where
  "sb_consume n sb =
     (let sb1 = (if sb_egptr sb < sb_pptr sb then sb\<lparr>sb_egptr := sb_pptr sb\<rparr> else sb);
          m = (if sb_gptr sb1 + n > sb_pptr sb1 then sb_pptr sb1 - sb_gptr sb1 else n)
      in sb1\<lparr>sb_gptr := nat (int (sb_gptr sb1) + to_cint m)\<rparr>)"

definition sb_underflow :: "streambuf \<Rightarrow> char option \<times> streambuf" where
  "sb_underflow sb = (if sb_gptr sb < sb_pptr sb
     then (Some (sb_buffer sb ! sb_gptr sb), sb\<lparr>sb_egptr := sb_pptr sb\<rparr>) else (None, sb))"

text \<open>\<open>None\<close> is the end-of-file character.\<close>

definition sb_overflow :: "char option \<Rightarrow> streambuf \<Rightarrow> buffer_error option \<times> streambuf" where
  "sb_overflow c sb = (case c of None \<Rightarrow> (None, sb) | Some ch \<Rightarrow>
     (case (if sb_pptr sb = sb_epptr sb then
              (let buffer_size = sb_pptr sb - sb_gptr sb in
               if buffer_size < sb_max_size sb \<and> sb_max_size sb - buffer_size < buffer_delta
               then sb_reserve (sb_max_size sb - buffer_size) sb else sb_reserve buffer_delta sb)
            else (None, sb)) of
        (Some e, sb1) \<Rightarrow> (Some e, sb1)
      | (None, sb1) \<Rightarrow> (None, sb1\<lparr>sb_buffer := (sb_buffer sb1)[sb_pptr sb1 := ch], sb_pptr := sb_pptr sb1 + 1\<rparr>)))"

section \<open>The dynamic buffers\<close>

text \<open>A string or vector, and \<open>size_\<close>, which is the largest \<open>size_t\<close> until the first \<open>prepare\<close>.\<close>

record dynamic_buf =
  db_string :: string
  db_size :: "nat option"
  db_max_size :: nat

definition dynamic_buffer :: "string \<Rightarrow> nat \<Rightarrow> dynamic_buf" where
  "dynamic_buffer s maximum_size = \<lparr>db_string = s, db_size = None, db_max_size = maximum_size\<rparr>"

definition db_size_of :: "dynamic_buf \<Rightarrow> nat" where
  "db_size_of b = (case db_size b of Some n \<Rightarrow> n | None \<Rightarrow> min (length (db_string b)) (db_max_size b))"

definition db_data :: "dynamic_buf \<Rightarrow> string" where
  "db_data b = (case db_size b of Some n \<Rightarrow> take n (db_string b) | None \<Rightarrow> db_string b)"

definition db_prepare :: "nat \<Rightarrow> dynamic_buf \<Rightarrow> buffer_error option \<times> dynamic_buf" where
  "db_prepare n b =
     (if db_size_of b > db_max_size b \<or> db_max_size b - db_size_of b < n then (Some LengthError, b)
      else (let sz = (case db_size b of None \<Rightarrow> length (db_string b) | Some k \<Rightarrow> k)
            in (None, b\<lparr>db_size := Some sz, db_string := resize (sz + n) (db_string b)\<rparr>)))"

definition db_fill :: "string \<Rightarrow> dynamic_buf \<Rightarrow> dynamic_buf" where
  "db_fill d b = b\<lparr>db_string := take (db_size_of b) (db_string b) @ d @ drop (db_size_of b + length d) (db_string b)\<rparr>"

text \<open>\<open>commit\<close> follows a \<open>prepare\<close>.\<close>

definition db_commit :: "nat \<Rightarrow> dynamic_buf \<Rightarrow> dynamic_buf" where
  "db_commit n b = (let sz = db_size_of b + min n (length (db_string b) - db_size_of b)
     in b\<lparr>db_size := Some sz, db_string := resize sz (db_string b)\<rparr>)"

definition db_grow :: "nat \<Rightarrow> dynamic_buf \<Rightarrow> buffer_error option \<times> dynamic_buf" where
  "db_grow n b =
     (if db_size_of b > db_max_size b \<or> db_max_size b - db_size_of b < n then (Some LengthError, b)
      else (None, b\<lparr>db_string := resize (db_size_of b + n) (db_string b)\<rparr>))"

definition db_shrink :: "nat \<Rightarrow> dynamic_buf \<Rightarrow> dynamic_buf" where
  "db_shrink n b = b\<lparr>db_string := resize (if n > db_size_of b then 0 else db_size_of b - n) (db_string b)\<rparr>"

definition db_consume :: "nat \<Rightarrow> dynamic_buf \<Rightarrow> dynamic_buf" where
  "db_consume n b = (case db_size b of
       Some k \<Rightarrow> (let m = min n k in b\<lparr>db_string := drop m (db_string b), db_size := Some (k - m)\<rparr>)
     | None \<Rightarrow> b\<lparr>db_string := drop n (db_string b)\<rparr>)"

text \<open>The buffer over a vector erases no more than its size.\<close>

definition vb_consume :: "nat \<Rightarrow> dynamic_buf \<Rightarrow> dynamic_buf" where
  "vb_consume n b = (case db_size b of
       Some k \<Rightarrow> (let m = min n k in b\<lparr>db_string := drop m (db_string b), db_size := Some (k - m)\<rparr>)
     | None \<Rightarrow> b\<lparr>db_string := drop (min (db_size_of b) n) (db_string b)\<rparr>)"

section \<open>buffer_copy\<close>

text \<open>Between two sequences: the bytes copied and the target buffers.\<close>

function buffer_copy :: "'a list list \<Rightarrow> nat \<Rightarrow> 'a list list \<Rightarrow> nat \<Rightarrow> nat \<times> 'a list list" where
  "buffer_copy [] toff ss soff = (0, [])"
| "buffer_copy (t # ts) toff [] soff = (0, t # ts)"
| "buffer_copy (t # ts) toff (s # ss) soff =
     (let n = min (length t - toff) (length s - soff);
          t' = take toff t @ take n (drop soff s) @ drop (toff + n) t;
          src = (if n = length s - soff then ss else s # ss); soff' = (if n = length s - soff then 0 else soff + n)
      in if n = length t - toff then
           (case buffer_copy ts 0 src soff' of (m, ts') \<Rightarrow> (n + m, t' # ts'))
         else (case buffer_copy (t' # ts) (toff + n) src soff' of (m, ts') \<Rightarrow> (n + m, ts')))"
  by pat_completeness auto
termination by (relation "measure (\<lambda>(ts, toff, ss, soff). length ts + length ss)") (auto simp: min_def split: if_splits)

section \<open>What a dynamic buffer promises\<close>

locale byte_buffer =
  fixes ok :: "'s \<Rightarrow> bool" and content :: "'s \<Rightarrow> string" and limit :: "'s \<Rightarrow> nat"
    and prepare :: "nat \<Rightarrow> 's \<Rightarrow> buffer_error option \<times> 's" and fill :: "string \<Rightarrow> 's \<Rightarrow> 's"
    and commit :: "nat \<Rightarrow> 's \<Rightarrow> 's" and consume :: "nat \<Rightarrow> 's \<Rightarrow> 's"
  assumes received: "ok s \<Longrightarrow> length (content s) + n \<le> limit s \<Longrightarrow> length d \<le> n \<Longrightarrow> length d < 2 ^ 31 \<Longrightarrow>
      \<exists>s1. prepare n s = (None, s1) \<and>
        (let s2 = commit (length d) (fill d s1) in ok s2 \<and> content s2 = content s @ d \<and> limit s2 = limit s)"
    and too_long: "ok s \<Longrightarrow> limit s < length (content s) + n \<Longrightarrow> fst (prepare n s) = Some LengthError"
    and consumed: "ok s \<Longrightarrow> n < 2 ^ 31 \<Longrightarrow> ok (consume n s) \<and> content (consume n s) = drop n (content s) \<and> limit (consume n s) = limit s"

text \<open>A reader prepares \<open>n\<close> bytes, the stream delivers \<open>d\<close>; a parser takes \<open>n\<close>. The run ends at the first
  \<open>length_error\<close>.\<close>

fun buffer_run :: "(nat \<Rightarrow> 's \<Rightarrow> buffer_error option \<times> 's) \<Rightarrow> (string \<Rightarrow> 's \<Rightarrow> 's) \<Rightarrow> (nat \<Rightarrow> 's \<Rightarrow> 's) \<Rightarrow> (nat \<Rightarrow> 's \<Rightarrow> 's)
    \<Rightarrow> (nat \<times> string + nat) list \<Rightarrow> 's \<Rightarrow> 's option" where
  "buffer_run prep fill commit consume [] s = Some s"
| "buffer_run prep fill commit consume (Inl (n, d) # ops) s = (case prep n s of
       (Some e, s1) \<Rightarrow> None
     | (None, s1) \<Rightarrow> buffer_run prep fill commit consume ops (commit (length d) (fill d s1)))"
| "buffer_run prep fill commit consume (Inr n # ops) s = buffer_run prep fill commit consume ops (consume n s)"

text \<open>The specification: a bounded queue of bytes.\<close>

fun queue_run :: "nat \<Rightarrow> (nat \<times> string + nat) list \<Rightarrow> string \<Rightarrow> string option" where
  "queue_run m [] q = Some q"
| "queue_run m (Inl (n, d) # ops) q = (if length q + n \<le> m then queue_run m ops (q @ d) else None)"
| "queue_run m (Inr n # ops) q = queue_run m ops (drop n q)"

definition transfer_ok :: "(nat \<times> string + nat) \<Rightarrow> bool" where
  "transfer_ok x = (case x of Inl (n, d) \<Rightarrow> length d \<le> n \<and> length d < 2 ^ 31 | Inr n \<Rightarrow> n < 2 ^ 31)"

context byte_buffer
begin

lemma buffer_run_queue:
  "ok s \<Longrightarrow> list_all transfer_ok ops \<Longrightarrow>
    map_option content (buffer_run prepare fill commit consume ops s) = queue_run (limit s) ops (content s) \<and> (\<forall>s'. buffer_run prepare fill commit consume ops s = Some s' \<longrightarrow> ok s')"
proof (induction ops arbitrary: s)
  case (Cons x ops)
  show ?case
  proof (cases x)
    case (Inl p)
    obtain n d where p: "p = (n, d)" by (cases p)
    have d: "length d \<le> n" "length d < 2 ^ 31" using Cons.prems(2) by (simp_all add: Inl p transfer_ok_def)
    show ?thesis
    proof (cases "length (content s) + n \<le> limit s")
      case True
      from received [OF Cons.prems(1) True d] obtain s1 where s1: "prepare n s = (None, s1)"
        "ok (commit (length d) (fill d s1))" "content (commit (length d) (fill d s1)) = content s @ d"
        "limit (commit (length d) (fill d s1)) = limit s" by (auto simp: Let_def)
      from Cons.IH [OF s1(2)] Cons.prems(2) s1 True show ?thesis by (simp add: Inl p)
    next
      case False
      obtain e s1 where "prepare n s = (e, s1)" by (cases "prepare n s")
      moreover have "e = Some LengthError" using too_long [OF Cons.prems(1)] False calculation by (metis fst_conv not_le)
      ultimately show ?thesis using False by (simp add: Inl p)
    qed
  next
    case (Inr n)
    have "n < 2 ^ 31" using Cons.prems(2) by (simp add: Inr transfer_ok_def)
    from consumed [OF Cons.prems(1) this] Cons.IH [of "consume n s"] Cons.prems(2) show ?thesis by (simp add: Inr)
  qed
qed simp

end

section \<open>The streambuf keeps it\<close>

definition sb_ok :: "streambuf \<Rightarrow> bool" where
  "sb_ok sb \<longleftrightarrow> sb_gptr sb \<le> sb_egptr sb \<and> sb_egptr sb \<le> sb_pptr sb \<and> sb_pptr sb \<le> sb_epptr sb \<and>
     sb_epptr sb \<le> length (sb_buffer sb) \<and> sb_epptr sb \<le> sb_max_size sb"

lemma length_resize [simp]: "length (resize n xs) = n"
  by (simp add: resize_def)

lemma take_resize: "k \<le> n \<Longrightarrow> k \<le> length xs \<Longrightarrow> take k (resize n xs) = take k xs"
  by (simp add: resize_def min_def)

lemma to_cint_small: "n < 2 ^ 31 \<Longrightarrow> to_cint n = int n"
  by (simp add: to_cint_def Let_def)

lemma sb_data_length: "sb_ok sb \<Longrightarrow> length (sb_data sb) = sb_pptr sb - sb_gptr sb"
  by (auto simp: sb_ok_def sb_data_def min_def)

lemma new_streambuf_ok: "sb_ok (new_streambuf m) \<and> sb_data (new_streambuf m) = [] \<and> sb_max_size (new_streambuf m) = m"
  by (simp add: sb_ok_def new_streambuf_def sb_data_def Let_def)

lemma take_append_prefix: "k \<le> length xs \<Longrightarrow> take k (xs @ ys) = take k xs"
  by simp

text \<open>\<open>reserve\<close> makes room and keeps the input sequence, or throws exactly when the limit is exceeded.\<close>

lemma sb_reserve_ok:
  assumes "sb_ok sb"
  shows "sb_size sb + n \<le> sb_max_size sb \<Longrightarrow> \<exists>sb'. sb_reserve n sb = (None, sb') \<and> sb_ok sb' \<and> sb_data sb' = sb_data sb \<and>
      sb_max_size sb' = sb_max_size sb \<and> n \<le> sb_epptr sb' - sb_pptr sb'"
    and "sb_max_size sb < sb_size sb + n \<Longrightarrow> fst (sb_reserve n sb) = Some LengthError"
proof -
  let ?g = "sb_gptr sb" let ?p = "sb_pptr sb" let ?e = "sb_epptr sb" let ?m = "sb_max_size sb"
  have o: "?g \<le> ?p" "?p \<le> ?e" "?e \<le> length (sb_buffer sb)" "?e \<le> ?m" using assms by (auto simp: sb_ok_def)
  define p1 where "p1 = ?p - ?g"
  define b1 where "b1 = (if ?g > 0 then take p1 (drop ?g (sb_buffer sb)) @ drop p1 (sb_buffer sb) else sb_buffer sb)"
  have p1: "(if ?g > 0 then ?p - ?g else ?p) = p1" "p1 \<le> ?e" "p1 \<le> ?p" "sb_size sb = p1" using o by (auto simp: p1_def sb_size_def)
  have b1l: "length b1 = length (sb_buffer sb)" using o p1 by (auto simp: b1_def p1_def)
  have b1d: "take p1 b1 = sb_data sb"
  proof (cases "?g > 0")
    case True
    have "p1 \<le> length (drop ?g (sb_buffer sb))" using o by (simp add: p1_def)
    with True show ?thesis by (simp add: b1_def sb_data_def p1_def)
  qed (simp add: b1_def sb_data_def p1_def)
  show "\<exists>sb'. sb_reserve n sb = (None, sb') \<and> sb_ok sb' \<and> sb_data sb' = sb_data sb \<and>
      sb_max_size sb' = sb_max_size sb \<and> n \<le> sb_epptr sb' - sb_pptr sb'" if f: "sb_size sb + n \<le> ?m"
  proof (cases "n \<le> ?e - ?p")
    case True
    with assms show ?thesis by (simp add: sb_reserve_def Let_def)
  next
    case False
    have r: "sb_reserve n sb = (if n > ?e - p1 then
          (if n \<le> ?m \<and> p1 \<le> ?m - n then (None, sb\<lparr>sb_buffer := resize (max (p1 + n) 1) b1, sb_gptr := 0, sb_egptr := p1, sb_pptr := p1, sb_epptr := p1 + n\<rparr>)
           else (Some LengthError, sb\<lparr>sb_buffer := b1\<rparr>))
        else (None, sb\<lparr>sb_buffer := b1, sb_gptr := 0, sb_egptr := p1, sb_pptr := p1, sb_epptr := ?e\<rparr>))"
      using False unfolding sb_reserve_def Let_def p1(1) b1_def [symmetric] by simp
    show ?thesis
    proof (cases "n > ?e - p1")
      case True
      have "take p1 (resize (max (p1 + n) 1) b1) = sb_data sb" using take_resize [of p1 "max (p1 + n) 1" b1] b1d b1l o p1 by simp
      moreover have "n \<le> ?m \<and> p1 \<le> ?m - n" using f p1(4) by linarith
      ultimately show ?thesis using True f p1 by (simp add: r sb_ok_def sb_data_def)
    next
      case False
      then show ?thesis using b1d b1l o p1 by (simp add: r sb_ok_def sb_data_def)
    qed
  qed
  show "fst (sb_reserve n sb) = Some LengthError" if f: "?m < sb_size sb + n"
  proof -
    have "\<not> n \<le> ?e - ?p" "n > ?e - p1" "\<not> (n \<le> ?m \<and> p1 \<le> ?m - n)" using f o p1 by linarith+
    then show ?thesis by (simp add: sb_reserve_def Let_def p1(1))
  qed
qed

lemma sb_received:
  assumes "sb_ok sb" "length d \<le> sb_epptr sb - sb_pptr sb" "length d < 2 ^ 31"
  shows "sb_ok (sb_commit (length d) (sb_fill d sb)) \<and> sb_data (sb_commit (length d) (sb_fill d sb)) = sb_data sb @ d \<and>
    sb_max_size (sb_commit (length d) (sb_fill d sb)) = sb_max_size sb"
proof -
  have o: "sb_gptr sb \<le> sb_egptr sb" "sb_egptr sb \<le> sb_pptr sb" "sb_pptr sb \<le> sb_epptr sb" "sb_epptr sb \<le> length (sb_buffer sb)"
    "sb_epptr sb \<le> sb_max_size sb" using assms(1) by (simp_all add: sb_ok_def)
  have c: "sb_commit (length d) (sb_fill d sb) = (sb_fill d sb)\<lparr>sb_pptr := sb_pptr sb + length d, sb_egptr := sb_pptr sb + length d\<rparr>"
    using assms(2,3) by (simp add: sb_commit_def sb_fill_def Let_def to_cint_small min_absorb1 nat_int_add flip: of_nat_add)
  have "sb_data (sb_commit (length d) (sb_fill d sb)) = sb_data sb @ d"
    unfolding c using o by (simp add: sb_data_def sb_fill_def drop_take)
  then show ?thesis unfolding c using o assms(2) by (auto simp: sb_ok_def sb_fill_def)
qed

lemma sb_consumed:
  assumes "sb_ok sb" "n < 2 ^ 31"
  shows "sb_ok (sb_consume n sb) \<and> sb_data (sb_consume n sb) = drop n (sb_data sb) \<and> sb_max_size (sb_consume n sb) = sb_max_size sb"
proof -
  let ?m = "min n (sb_pptr sb - sb_gptr sb)"
  have o: "sb_gptr sb \<le> sb_egptr sb" "sb_egptr sb \<le> sb_pptr sb" "sb_pptr sb \<le> sb_epptr sb" "sb_epptr sb \<le> length (sb_buffer sb)"
    using assms(1) by (simp_all add: sb_ok_def)
  have "(if sb_gptr sb + n > sb_pptr sb then sb_pptr sb - sb_gptr sb else n) = ?m" using o by auto
  moreover have "?m < 2 ^ 31" using assms(2) by simp
  moreover have "(if sb_egptr sb < sb_pptr sb then sb\<lparr>sb_egptr := sb_pptr sb\<rparr> else sb) = sb\<lparr>sb_egptr := sb_pptr sb\<rparr>" using o by simp
  ultimately have c: "sb_consume n sb = sb\<lparr>sb_egptr := sb_pptr sb, sb_gptr := sb_gptr sb + ?m\<rparr>"
    by (simp add: sb_consume_def Let_def to_cint_small nat_int_add flip: of_nat_add of_nat_min)
  have "drop n (sb_data sb) = drop ?m (sb_data sb)" using sb_data_length [OF assms(1)] by (simp add: min_def)
  then have "sb_data (sb_consume n sb) = drop n (sb_data sb)" using o by (simp add: c sb_data_def drop_take add.commute)
  then show ?thesis using assms(1) o by (auto simp: c sb_ok_def)
qed

interpretation sb: byte_buffer sb_ok sb_data sb_max_size sb_prepare sb_fill sb_commit sb_consume
proof
  fix s n and d :: string
  assume a: "sb_ok s" "length (sb_data s) + n \<le> sb_max_size s" "length d \<le> n" "length d < 2 ^ 31"
  have "sb_size s + n \<le> sb_max_size s" using a(2) sb_data_length [OF a(1)] by (simp add: sb_size_def)
  from sb_reserve_ok(1) [OF a(1) this] obtain s1 where s1: "sb_reserve n s = (None, s1)" "sb_ok s1" "sb_data s1 = sb_data s"
    "sb_max_size s1 = sb_max_size s" "n \<le> sb_epptr s1 - sb_pptr s1" by blast
  have "length d \<le> sb_epptr s1 - sb_pptr s1" using a(3) s1(5) by (rule le_trans)
  from sb_received [OF s1(2) this a(4)] s1
  show "\<exists>s1. sb_prepare n s = (None, s1) \<and> (let s2 = sb_commit (length d) (sb_fill d s1)
      in sb_ok s2 \<and> sb_data s2 = sb_data s @ d \<and> sb_max_size s2 = sb_max_size s)"
    by (simp add: sb_prepare_def Let_def)
next
  fix s n assume a: "sb_ok s" "sb_max_size s < length (sb_data s) + n"
  then have "sb_max_size s < sb_size s + n" using sb_data_length [OF a(1)] by (simp add: sb_size_def)
  then show "fst (sb_prepare n s) = Some LengthError" unfolding sb_prepare_def by (rule sb_reserve_ok(2) [OF a(1)])
qed (rule sb_consumed)

section \<open>And the dynamic buffers\<close>

definition db_ok :: "dynamic_buf \<Rightarrow> bool" where
  "db_ok b \<longleftrightarrow> length (db_string b) \<le> db_max_size b \<and> (case db_size b of None \<Rightarrow> True | Some n \<Rightarrow> n \<le> length (db_string b))"

lemma resize_same: "resize (length xs) xs = xs"
  by (simp add: resize_def)

lemma db_data_length: "db_ok b \<Longrightarrow> length (db_data b) = db_size_of b"
  by (auto simp: db_ok_def db_data_def db_size_of_def split: option.splits)

lemma db_received:
  assumes "db_ok s" "length (db_data s) + n \<le> db_max_size s" "length d \<le> n"
  shows "\<exists>s1. db_prepare n s = (None, s1) \<and> (let s2 = db_commit (length d) (db_fill d s1)
      in db_ok s2 \<and> db_data s2 = db_data s @ d \<and> db_max_size s2 = db_max_size s)"
proof -
  define k where "k = (case db_size s of None \<Rightarrow> length (db_string s) | Some k \<Rightarrow> k)"
  have k: "k \<le> length (db_string s)" "db_data s = take k (db_string s)" "db_size_of s = k"
    using assms(1) by (auto simp: k_def db_ok_def db_data_def db_size_of_def split: option.splits)
  have f: "k + n \<le> db_max_size s" using assms(2) k by simp
  let ?s1 = "s\<lparr>db_size := Some k, db_string := resize (k + n) (db_string s)\<rparr>"
  have p: "db_prepare n s = (None, ?s1)" using f by (simp add: db_prepare_def k(3) Let_def flip: k_def)
  let ?s2 = "db_commit (length d) (db_fill d ?s1)"
  have t: "take k (resize (k + n) (db_string s)) = take k (db_string s)" using k(1) by (simp add: take_resize)
  have "resize (k + length d) (take k (db_string s) @ d @ xs) = take k (db_string s) @ d" for xs
    using k(1) by (simp add: resize_def)
  then have "?s2 = s\<lparr>db_size := Some (k + length d), db_string := take k (db_string s) @ d\<rparr>"
    using assms(3) k(1) by (simp add: db_commit_def db_fill_def db_size_of_def Let_def t min_absorb1)
  with f assms(3) k show ?thesis by (intro exI [of _ ?s1] conjI p) (simp add: Let_def db_ok_def db_data_def)
qed

lemma db_too_long: "db_ok s \<Longrightarrow> db_max_size s < length (db_data s) + n \<Longrightarrow> fst (db_prepare n s) = Some LengthError"
  by (auto simp: db_prepare_def db_data_length)

interpretation db: byte_buffer db_ok db_data db_max_size db_prepare db_fill db_commit db_consume
proof
  fix s n assume "db_ok s"
  then show "db_ok (db_consume n s) \<and> db_data (db_consume n s) = drop n (db_data s) \<and> db_max_size (db_consume n s) = db_max_size s"
    by (auto simp: db_ok_def db_consume_def db_data_def Let_def drop_take min_def split: option.splits)
qed (simp_all add: db_received db_too_long)

interpretation vb: byte_buffer db_ok db_data db_max_size db_prepare db_fill db_commit vb_consume
proof
  fix s n assume "db_ok s"
  then show "db_ok (vb_consume n s) \<and> db_data (vb_consume n s) = drop n (db_data s) \<and> db_max_size (vb_consume n s) = db_max_size s"
    by (auto simp: db_ok_def vb_consume_def db_data_def db_size_of_def Let_def drop_take min_def split: option.splits)
qed (simp_all add: db_received db_too_long)

lemma db_new: "length s \<le> m \<Longrightarrow> db_ok (dynamic_buffer s m) \<and> db_data (dynamic_buffer s m) = s \<and> db_max_size (dynamic_buffer s m) = m"
  by (simp add: db_ok_def dynamic_buffer_def db_data_def)

section \<open>Properties\<close>

text \<open>C21: A \<open>streambuf\<close> and the dynamic buffers over a string and a vector are bounded queues of bytes:
  after any sequence of prepared, filled and committed reads and of consumed prefixes, each of less than 2 GiB, they
  hold what was received and not consumed, in order. The first \<open>prepare\<close> that would exceed the limit throws and ends the
  sequence (\<open>None\<close>). The text that a dynamic buffer starts with is within its limit.\<close>
theorem buffers_are_queues:
  assumes "list_all transfer_ok ops" "length t \<le> m"
  shows "map_option sb_data (buffer_run sb_prepare sb_fill sb_commit sb_consume ops (new_streambuf m)) = queue_run m ops [] \<and>
    map_option db_data (buffer_run db_prepare db_fill db_commit db_consume ops (dynamic_buffer t m)) = queue_run m ops t \<and>
    map_option db_data (buffer_run db_prepare db_fill db_commit vb_consume ops (dynamic_buffer t m)) = queue_run m ops t"
  using sb.buffer_run_queue [of "new_streambuf m" ops] db.buffer_run_queue [of "dynamic_buffer t m" ops]
    vb.buffer_run_queue [of "dynamic_buffer t m" ops] assms(1) new_streambuf_ok [of m] db_new [OF assms(2)] by simp

lemma buffers_are_queues_witness:
  "map_option sb_data (buffer_run sb_prepare sb_fill sb_commit sb_consume [Inl (3, ''ab''), Inr 1, Inl (4, ''cde'')] (new_streambuf 5)) =
     queue_run 5 [Inl (3, ''ab''), Inr 1, Inl (4, ''cde'')] [] \<and>
   map_option db_data (buffer_run db_prepare db_fill db_commit db_consume [Inl (3, ''ab''), Inr 1, Inl (4, ''cde'')] (dynamic_buffer [] 5)) =
     queue_run 5 [Inl (3, ''ab''), Inr 1, Inl (4, ''cde'')] [] \<and>
   map_option db_data (buffer_run db_prepare db_fill db_commit vb_consume [Inl (3, ''ab''), Inr 1, Inl (4, ''cde'')] (dynamic_buffer [] 5)) =
     queue_run 5 [Inl (3, ''ab''), Inr 1, Inl (4, ''cde'')] []"
  by (rule buffers_are_queues) (simp_all add: transfer_ok_def)

text \<open>Writing a character appends it, or throws when the limit is reached; reading one gives the
  first, or the end of file.\<close>
theorem streambuf_characters:
  assumes "sb_ok sb"
  shows "(length (sb_data sb) < sb_max_size sb \<longrightarrow> (\<exists>sb'. sb_overflow (Some c) sb = (None, sb') \<and> sb_ok sb' \<and> sb_data sb' = sb_data sb @ [c])) \<and>
    (length (sb_data sb) = sb_max_size sb \<longrightarrow> fst (sb_overflow (Some c) sb) = Some LengthError) \<and>
    fst (sb_underflow sb) = (if sb_data sb = [] then None else Some (hd (sb_data sb)))"
proof (intro conjI impI)
  have o: "sb_gptr sb \<le> sb_egptr sb" "sb_egptr sb \<le> sb_pptr sb" "sb_pptr sb \<le> sb_epptr sb" "sb_epptr sb \<le> length (sb_buffer sb)"
    "sb_epptr sb \<le> sb_max_size sb" using assms by (simp_all add: sb_ok_def)
  have sz: "length (sb_data sb) = sb_size sb" "sb_size sb = sb_pptr sb - sb_gptr sb"
    using sb_data_length [OF assms] by (simp_all add: sb_size_def)
  let ?r = "if sb_pptr sb = sb_epptr sb then (if sb_size sb < sb_max_size sb \<and> sb_max_size sb - sb_size sb < buffer_delta
       then sb_reserve (sb_max_size sb - sb_size sb) sb else sb_reserve buffer_delta sb) else (None, sb)"
  have ov: "sb_overflow (Some c) sb = (case ?r of (Some e, sb1) \<Rightarrow> (Some e, sb1)
      | (None, sb1) \<Rightarrow> (None, sb1\<lparr>sb_buffer := (sb_buffer sb1)[sb_pptr sb1 := c], sb_pptr := sb_pptr sb1 + 1\<rparr>))"
    by (simp add: sb_overflow_def Let_def sz(2))
  show "\<exists>sb'. sb_overflow (Some c) sb = (None, sb') \<and> sb_ok sb' \<and> sb_data sb' = sb_data sb @ [c]" if l: "length (sb_data sb) < sb_max_size sb"
  proof -
    have "\<exists>sb1. ?r = (None, sb1) \<and> sb_ok sb1 \<and> sb_data sb1 = sb_data sb \<and> 1 \<le> sb_epptr sb1 - sb_pptr sb1"
    proof (cases "sb_pptr sb = sb_epptr sb")
      case True
      define k where "k = (if sb_size sb < sb_max_size sb \<and> sb_max_size sb - sb_size sb < buffer_delta then sb_max_size sb - sb_size sb else buffer_delta)"
      have k: "sb_size sb + k \<le> sb_max_size sb" "1 \<le> k" using l sz by (auto simp: k_def buffer_delta_def)
      have "?r = sb_reserve k sb" using True by (simp add: k_def)
      moreover from sb_reserve_ok(1) [OF assms k(1)] obtain sb1 where "sb_reserve k sb = (None, sb1)" "sb_ok sb1" "sb_data sb1 = sb_data sb"
        "k \<le> sb_epptr sb1 - sb_pptr sb1" by blast
      ultimately show ?thesis using k(2) by auto
    next
      case False
      with assms o show ?thesis by simp
    qed
    then obtain sb1 where s1: "?r = (None, sb1)" "sb_ok sb1" "sb_data sb1 = sb_data sb" "1 \<le> sb_epptr sb1 - sb_pptr sb1" by blast
    let ?s2 = "sb1\<lparr>sb_buffer := (sb_buffer sb1)[sb_pptr sb1 := c], sb_pptr := sb_pptr sb1 + 1\<rparr>"
    have o1: "sb_gptr sb1 \<le> sb_egptr sb1" "sb_egptr sb1 \<le> sb_pptr sb1" "sb_pptr sb1 < sb_epptr sb1" "sb_epptr sb1 \<le> length (sb_buffer sb1)"
      "sb_epptr sb1 \<le> sb_max_size sb1" using s1(2,4) by (auto simp: sb_ok_def)
    have "sb_overflow (Some c) sb = (None, ?s2)" unfolding ov s1(1) by simp
    moreover have "sb_ok ?s2" using o1 by (simp add: sb_ok_def)
    moreover have "sb_data ?s2 = sb_data sb1 @ [c]"
    proof -
      have "take (sb_pptr sb1 + 1) ((sb_buffer sb1)[sb_pptr sb1 := c]) = take (sb_pptr sb1) (sb_buffer sb1) @ [c]"
        using o1 by (simp add: take_Suc_conv_app_nth)
      then have "drop (sb_gptr sb1) (take (sb_pptr sb1 + 1) ((sb_buffer sb1)[sb_pptr sb1 := c])) =
          drop (sb_gptr sb1) (take (sb_pptr sb1) (sb_buffer sb1)) @ [c]" using o1 by simp
      then show ?thesis using o1 by (simp add: sb_data_def drop_take Suc_diff_le)
    qed
    ultimately show ?thesis using s1(3) by auto
  qed
  show "fst (sb_overflow (Some c) sb) = Some LengthError" if l: "length (sb_data sb) = sb_max_size sb"
  proof -
    have full: "sb_pptr sb = sb_epptr sb" using l sz o by linarith
    have big: "sb_max_size sb < sb_size sb + buffer_delta" using l sz by (simp add: buffer_delta_def)
    have "?r = sb_reserve buffer_delta sb" using l sz full by simp
    moreover obtain e sb1 where "sb_reserve buffer_delta sb = (e, sb1)" by fastforce
    moreover have "e = Some LengthError" using sb_reserve_ok(2) [OF assms big] calculation by simp
    ultimately show ?thesis unfolding ov by simp
  qed
  have "sb_data sb \<noteq> [] \<Longrightarrow> hd (sb_data sb) = sb_buffer sb ! sb_gptr sb"
    using o by (simp add: sb_data_def hd_drop_conv_nth)
  moreover have "sb_data sb = [] \<longleftrightarrow> \<not> sb_gptr sb < sb_pptr sb" using sz by (metis length_0_conv diff_is_0_eq not_less)
  ultimately show "fst (sb_underflow sb) = (if sb_data sb = [] then None else Some (hd (sb_data sb)))"
    by (simp add: sb_underflow_def)
qed

lemma streambuf_characters_witness:
  "(\<exists>sb'. sb_overflow (Some CHR ''a'') (new_streambuf 1) = (None, sb') \<and> sb_ok sb' \<and> sb_data sb' = ''a'') \<and>
    fst (sb_underflow (new_streambuf 1)) = None"
proof -
  have d: "sb_data (new_streambuf 1) = []" and m: "sb_max_size (new_streambuf 1) = 1"
    by (simp_all add: new_streambuf_def sb_data_def)
  show ?thesis
    using streambuf_characters [of "new_streambuf 1" "CHR ''a''"] unfolding d m
    by (simp add: new_streambuf_ok)
qed

text \<open>When \<open>prepare\<close> throws, the input sequence may have been changed: the bytes are moved to the start
  of the array before the limit is checked, and the get area still points behind.\<close>
theorem failed_prepare_damages_data:
  "let sb = sb_consume 1 (sb_commit 4 (sb_fill ''abcd'' (snd (sb_prepare 4 (new_streambuf 4)))))
   in sb_ok sb \<and> sb_data sb = ''bcd'' \<and> fst (sb_prepare 2 sb) = Some LengthError \<and> sb_data (snd (sb_prepare 2 sb)) = ''cdd''"
proof -
  let ?s = "\<lparr>sb_buffer = [NUL, NUL, NUL, NUL], sb_gptr = 0, sb_egptr = 0, sb_pptr = 0, sb_epptr = 4, sb_max_size = 4\<rparr>"
  let ?t = "\<lparr>sb_buffer = ''abcd'', sb_gptr = 1, sb_egptr = 4, sb_pptr = 4, sb_epptr = 4, sb_max_size = 4\<rparr>"
  have "replicate 4 NUL = [NUL, NUL, NUL, NUL]" by (simp add: numeral_eq_Suc)
  then have "new_streambuf 4 = ?s" by (simp add: new_streambuf_def resize_def buffer_delta_def)
  moreover have "sb_prepare 4 ?s = (None, ?s)" by (simp add: sb_prepare_def sb_reserve_def)
  moreover have "sb_consume 1 (sb_commit 4 (sb_fill ''abcd'' ?s)) = ?t"
    by (simp add: sb_fill_def sb_commit_def sb_consume_def to_cint_def Let_def)
  moreover have "sb_prepare 2 ?t = (Some LengthError, ?t\<lparr>sb_buffer := ''bcdd''\<rparr>)"
    by (simp add: sb_prepare_def sb_reserve_def Let_def)
  ultimately show ?thesis by (simp add: Let_def sb_ok_def sb_data_def)
qed

lemma two_gib_commit_goes_back: "to_cint (2 ^ 31) = - (2 ^ 31)"
  by (simp add: to_cint_def Let_def)

text \<open>\<open>buffer_copy\<close> between two sequences copies as many bytes as both have, in order over all
  boundaries, and changes nothing behind them.\<close>
theorem buffer_copy_correct:
  assumes "ts = [] \<or> toff \<le> length (hd ts)" "ss = [] \<or> soff \<le> length (hd ss)" "ts = [] \<longrightarrow> toff = 0" "ss = [] \<longrightarrow> soff = 0"
  shows "let (n, ts') = buffer_copy ts toff ss soff in
    n = min (length (concat ts) - toff) (length (concat ss) - soff) \<and> List.map length ts' = List.map length ts \<and>
    concat ts' = take toff (concat ts) @ take n (drop soff (concat ss)) @ drop (toff + n) (concat ts)"
  using assms
proof (induction ts toff ss soff rule: buffer_copy.induct)
  case (3 t ts toff s ss soff)
  define n where "n = min (length t - toff) (length s - soff)"
  define t' where "t' = take toff t @ take n (drop soff s) @ drop (toff + n) t"
  define src where "src = (if n = length s - soff then ss else s # ss)"
  define soff' where "soff' = (if n = length s - soff then 0 else soff + n)"
  have b: "toff \<le> length t" "soff \<le> length s" "n \<le> length t - toff" "n \<le> length s - soff"
    using "3.prems" by (simp_all add: n_def)
  have t': "length t' = length t" "take (toff + n) t' = take toff t @ take n (drop soff s)" "drop (toff + n) t' = drop (toff + n) t"
    using b by (simp_all add: t'_def)
  have src: "drop soff' (concat src) = drop n (drop soff (concat (s # ss)))" "src = [] \<or> soff' \<le> length (hd src)" "src = [] \<longrightarrow> soff' = 0"
    "length (concat src) - soff' = length (concat (s # ss)) - soff - n"
    using b by (auto simp: src_def soff'_def add.commute simp del: length_concat)
  have pre: "take (n + m) (drop soff (concat (s # ss))) = take n (drop soff s) @ take m (drop soff' (concat src))" for m
  proof -
    have "take n (drop soff (concat (s # ss))) = take n (drop soff s)" using b by simp
    then show ?thesis unfolding take_add src(1) by simp
  qed
  have step: "buffer_copy (t # ts) toff (s # ss) soff = (if n = length t - toff then
      (case buffer_copy ts 0 src soff' of (m, ts') \<Rightarrow> (n + m, t' # ts'))
      else (case buffer_copy (t' # ts) (toff + n) src soff' of (m, ts') \<Rightarrow> (n + m, ts')))"
    by (simp only: buffer_copy.simps(3) Let_def n_def t'_def src_def soff'_def)
  show ?case
  proof (cases "n = length t - toff")
    case True
    obtain m ts' where r: "buffer_copy ts 0 src soff' = (m, ts')" by fastforce
    have "m = min (length (concat ts) - 0) (length (concat src) - soff') \<and> List.map length ts' = List.map length ts \<and>
        concat ts' = take 0 (concat ts) @ take m (drop soff' (concat src)) @ drop (0 + m) (concat ts)"
      using "3.IH"(1) [OF n_def t'_def src_def soff'_def True _ src(2) _ src(3)] by (simp add: r)
    then have m: "m = min (length (concat ts)) (length (concat (s # ss)) - soff - n)" "List.map length ts' = List.map length ts"
      "concat ts' = take m (drop soff' (concat src)) @ drop m (concat ts)" by (simp_all add: src(4) del: length_concat)
    have "n \<le> length (concat (s # ss)) - soff" using b by simp
    then have "n + m = min (length (concat (t # ts)) - toff) (length (concat (s # ss)) - soff)"
      using m(1) True b by (auto simp: min_def simp del: length_concat)
    moreover have "t' = take toff t @ take n (drop soff s)" using True b by (simp add: t'_def)
    moreover have "drop (toff + (n + m)) (concat (t # ts)) = drop m (concat ts)" using True b by simp
    moreover have "concat (t' # ts') = t' @ take m (drop soff' (concat src)) @ drop m (concat ts)" using m(3) by simp
    moreover have "take toff (concat (t # ts)) = take toff t" using b(1) by simp
    moreover have "List.map length (t' # ts') = List.map length (t # ts)" using m(2) t'(1) by simp
    moreover have "buffer_copy (t # ts) toff (s # ss) soff = (n + m, t' # ts')" using True unfolding step by (simp add: r)
    ultimately show ?thesis using pre [of m] by (simp only: Let_def prod.case append.assoc simp_thms)
  next
    case False
    then have n: "n = length s - soff" by (simp add: n_def min_def split: if_splits)
    obtain m ts' where r: "buffer_copy (t' # ts) (toff + n) src soff' = (m, ts')" by fastforce
    have "t' # ts = [] \<or> toff + n \<le> length (hd (t' # ts))" using b t'(1) by simp
    from "3.IH"(2) [OF n_def t'_def src_def soff'_def False this src(2) _ src(3)]
    have m: "m = min (length (concat (t' # ts)) - (toff + n)) (length (concat src) - soff')" "List.map length ts' = List.map length (t' # ts)"
      "concat ts' = take (toff + n) (concat (t' # ts)) @ take m (drop soff' (concat src)) @ drop (toff + n + m) (concat (t' # ts))"
      by (simp_all add: r del: length_concat)
    have l: "length (concat (t' # ts)) = length (concat (t # ts))" using t'(1) by simp
    have "n \<le> length (concat (s # ss)) - soff" "n \<le> length (concat (t # ts)) - toff" using b by simp_all
    then have "n + m = min (length (concat (t # ts)) - toff) (length (concat (s # ss)) - soff)"
      using m(1) unfolding l src(4) by (auto simp: min_def simp del: length_concat)
    moreover have "take (toff + n) (concat (t' # ts)) = take toff (concat (t # ts)) @ take n (drop soff s)" using t' b by simp
    moreover have "drop (toff + n + m) (concat (t' # ts)) = drop (toff + (n + m)) (concat (t # ts))"
    proof -
      have "drop (toff + n) (concat (t' # ts)) = drop (toff + n) (concat (t # ts))" using t'(1,3) b by simp
      then show ?thesis by (metis add.assoc add.commute drop_drop)
    qed
    moreover have "List.map length ts' = List.map length (t # ts)" using m(2) t'(1) by simp
    moreover have "buffer_copy (t # ts) toff (s # ss) soff = (n + m, ts')" using False unfolding step by (simp add: r)
    ultimately show ?thesis using m(3) pre [of m] by (simp only: Let_def prod.case append.assoc simp_thms)
  qed
qed auto

lemma buffer_copy_correct_witness:
  "let (n, ts') = buffer_copy [''..'', ''...''] 0 [''a'', ''bcd''] 0 in
    n = min (length (concat [''..'', ''...'']) - 0) (length (concat [''a'', ''bcd'']) - 0) \<and>
    List.map length ts' = List.map length [''..'', ''...''] \<and>
    concat ts' = take 0 (concat [''..'', ''...'']) @ take n (drop 0 (concat [''a'', ''bcd''])) @ drop (0 + n) (concat [''..'', ''...''])"
  by (rule buffer_copy_correct) simp_all

end
