(* ===== verification/AsioStrand.thy ===== *)
theory AsioStrand
  imports Prelude "HOL-Library.Sublist"
begin

text \<open>
  The strand of the Asio library (\<open>detail/strand_executor_service\<close>, and the immediate
  dispatch of \<open>detail/strand_service\<close>) as a system of threads: any number of threads add
  functions to one strand and run what the executor has scheduled, and a function that runs
  may add more. The mutex makes a section that holds it one step; what the code does
  without the mutex are steps of their own.
\<close>

section \<open>State\<close>

text \<open>What a thread does on behalf of a caller that adds the function \<open>h\<close>: about to lock the mutex;
  after it, to push the first function to the ready queue; to have the invoker executed.\<close>

datatype enq_pc = EnqIdle | EnqLock nat | EnqReady nat | EnqSchedule

text \<open>What it does for the executor: an invoker at the head of its loop, with a function, at its exit, to
  be executed again; \<open>RunDirect\<close> is a function dispatched without a queue.\<close>

datatype run_pc = RunIdle | RunFront | RunHandler nat | RunDirect nat | RunExit | RunSchedule

text \<open>\<open>scheduled\<close> counts the invokers that the executor has. \<open>accepted\<close>, \<open>finished\<close>, \<open>dropped\<close>, \<open>unserved\<close> and
  \<open>inlined\<close> record the history; \<open>dropped\<close> has the functions in the order in which the shutdown destroys them, \<open>unserved\<close> the same in the order
  in which they would have run.\<close>

record strand_state =
  locked :: bool
  shut :: bool
  waiting_queue :: "nat list"
  ready_queue :: "nat list"
  scheduled :: nat
  enqs :: "enq_pc list"
  runs :: "run_pc list"
  accepted :: "nat list"
  finished :: "nat list"
  dropped :: "nat list"
  unserved :: "nat list"
  inlined :: "(nat \<times> nat) list"

definition create_implementation :: "nat \<Rightarrow> strand_state" where
  "create_implementation n = \<lparr>locked = False, shut = False, waiting_queue = [], ready_queue = [], scheduled = 0,
     enqs = replicate n EnqIdle, runs = replicate n RunIdle, accepted = [], finished = [], dropped = [], unserved = [], inlined = []\<rparr>"

abbreviation set_enq :: "nat \<Rightarrow> enq_pc \<Rightarrow> strand_state \<Rightarrow> strand_state" where
  "set_enq t p s \<equiv> s\<lparr>enqs := (enqs s)[t := p]\<rparr>"

abbreviation set_run :: "nat \<Rightarrow> run_pc \<Rightarrow> strand_state \<Rightarrow> strand_state" where
  "set_run t p s \<equiv> s\<lparr>runs := (runs s)[t := p]\<rparr>"

section \<open>Adding a function\<close>

text \<open>\<open>enqueue\<close> under the mutex, then what follows it without. A function that a strand that is shut
  down gets is destroyed.\<close>

fun enqueue_step :: "nat \<Rightarrow> enq_pc \<Rightarrow> strand_state \<Rightarrow> strand_state option" where
  "enqueue_step t EnqIdle s = None"
| "enqueue_step t (EnqLock h) s = Some (
     if shut s then set_enq t EnqIdle s
     else if locked s then set_enq t EnqIdle (s\<lparr>waiting_queue := waiting_queue s @ [h], accepted := accepted s @ [h]\<rparr>)
     else set_enq t (EnqReady h) (s\<lparr>locked := True, accepted := accepted s @ [h]\<rparr>))"
| "enqueue_step t (EnqReady h) s = Some (set_enq t EnqSchedule (s\<lparr>ready_queue := ready_queue s @ [h]\<rparr>))"
| "enqueue_step t EnqSchedule s = Some (set_enq t EnqIdle (s\<lparr>scheduled := scheduled s + 1\<rparr>))"

text \<open>Whether the strand executes on the thread.\<close>

definition running_in_this_thread :: "nat \<Rightarrow> strand_state \<Rightarrow> bool" where
  "running_in_this_thread t s = (case runs s ! t of RunHandler g \<Rightarrow> True | RunDirect g \<Rightarrow> True | _ \<Rightarrow> False)"

text \<open>\<open>post\<close> and \<open>defer\<close> enqueue; \<open>dispatch\<close> and \<open>execute\<close> run the function at once in a strand's own
  function. \<open>do_dispatch\<close> of the older service, where the thread is not in the strand, does so too when nothing holds the strand and the
  thread runs the context; else it enqueues.\<close>

definition post :: "nat \<Rightarrow> nat \<Rightarrow> strand_state \<Rightarrow> strand_state option" where
  "post t h s = (if enqs s ! t = EnqIdle \<and> (runs s ! t = RunIdle \<or> running_in_this_thread t s)
     then Some (set_enq t (EnqLock h) s) else None)"

definition dispatch :: "nat \<Rightarrow> nat \<Rightarrow> strand_state \<Rightarrow> strand_state option" where
  "dispatch t h s = (if running_in_this_thread t s
     then (if enqs s ! t = EnqIdle then
             (case runs s ! t of RunHandler g \<Rightarrow> Some (s\<lparr>inlined := inlined s @ [(g, h)]\<rparr>)
              | RunDirect g \<Rightarrow> Some (s\<lparr>inlined := inlined s @ [(g, h)]\<rparr>) | _ \<Rightarrow> None) else None)
     else post t h s)"

definition do_dispatch :: "nat \<Rightarrow> nat \<Rightarrow> bool \<Rightarrow> strand_state \<Rightarrow> strand_state option" where
  "do_dispatch t h can_dispatch s = (if enqs s ! t = EnqIdle \<and> runs s ! t = RunIdle then Some (
       if can_dispatch \<and> \<not> locked s then set_run t (RunDirect h) (s\<lparr>locked := True, accepted := accepted s @ [h]\<rparr>)
       else if locked s then s\<lparr>waiting_queue := waiting_queue s @ [h], accepted := accepted s @ [h]\<rparr>
       else set_enq t (EnqReady h) (s\<lparr>locked := True, accepted := accepted s @ [h]\<rparr>))
     else None)"

section \<open>Running\<close>

text \<open>\<open>push_waiting_to_ready\<close> under the mutex: whether there are more functions.\<close>

definition push_waiting_to_ready :: "strand_state \<Rightarrow> bool \<times> strand_state" where
  "push_waiting_to_ready s =
     (let q = ready_queue s @ waiting_queue s
      in (q \<noteq> [], s\<lparr>ready_queue := q, waiting_queue := [], locked := (q \<noteq> [])\<rparr>))"

text \<open>The invoker: \<open>run_ready_handlers\<close> and the exit; the end of a function is a step of its own, and
  comes when the thread is not adding a function.\<close>

fun invoker_step :: "nat \<Rightarrow> run_pc \<Rightarrow> strand_state \<Rightarrow> strand_state option" where
  "invoker_step t RunIdle s = (if scheduled s > 0 then Some (set_run t RunFront (s\<lparr>scheduled := scheduled s - 1\<rparr>)) else None)"
| "invoker_step t RunFront s = (case ready_queue s of
       [] \<Rightarrow> Some (set_run t RunExit s)
     | h # hs \<Rightarrow> Some (set_run t (RunHandler h) (s\<lparr>ready_queue := hs\<rparr>)))"
| "invoker_step t (RunHandler h) s = Some (set_run t RunFront (s\<lparr>finished := finished s @ [h]\<rparr>))"
| "invoker_step t (RunDirect h) s = Some (set_run t RunExit (s\<lparr>finished := finished s @ [h]\<rparr>))"
| "invoker_step t RunExit s = (case push_waiting_to_ready s of
       (again, s') \<Rightarrow> Some (set_run t (if again then RunSchedule else RunIdle) s'))"
| "invoker_step t RunSchedule s = Some (set_run t RunIdle (s\<lparr>scheduled := scheduled s + 1\<rparr>))"

text \<open>A function that throws leaves the invoker, or the immediate dispatch, through the exit.\<close>

definition function_throws :: "nat \<Rightarrow> strand_state \<Rightarrow> strand_state option" where
  "function_throws t s = (case runs s ! t of
     RunHandler h \<Rightarrow> Some (set_run t RunExit (s\<lparr>finished := finished s @ [h]\<rparr>))
   | RunDirect h \<Rightarrow> Some (set_run t RunExit (s\<lparr>finished := finished s @ [h]\<rparr>))
   | _ \<Rightarrow> None)"

text \<open>\<open>shutdown\<close> runs when the threads have left; it destroys what is queued.\<close>

definition strand_shutdown :: "strand_state \<Rightarrow> strand_state option" where
  "strand_shutdown s = (if list_all (\<lambda>p. p = EnqIdle) (enqs s) \<and> list_all (\<lambda>p. p = RunIdle) (runs s)
     then Some (s\<lparr>shut := True, dropped := dropped s @ waiting_queue s @ ready_queue s, unserved := unserved s @ ready_queue s @ waiting_queue s,
       ready_queue := [], waiting_queue := []\<rparr>)
     else None)"

text \<open>The older service is not used after its context's shutdown.\<close>

datatype strand_action = Post nat nat | Dispatch nat nat | DispatchNow nat nat bool | Enq nat | Invoke nat | Throw nat | Shutdown

fun strand_step :: "strand_state \<Rightarrow> strand_action \<Rightarrow> strand_state option" where
  "strand_step s (Post t h) = (if t < length (runs s) then post t h s else None)"
| "strand_step s (Dispatch t h) = (if t < length (runs s) then dispatch t h s else None)"
| "strand_step s (DispatchNow t h can) = (if t < length (runs s) \<and> \<not> shut s then do_dispatch t h can s else None)"
| "strand_step s (Enq t) = (if t < length (runs s) then enqueue_step t (enqs s ! t) s else None)"
| "strand_step s (Invoke t) = (if t < length (runs s) \<and> enqs s ! t = EnqIdle then invoker_step t (runs s ! t) s else None)"
| "strand_step s (Throw t) = (if t < length (runs s) \<and> enqs s ! t = EnqIdle then function_throws t s else None)"
| "strand_step s Shutdown = strand_shutdown s"

section \<open>The invariant\<close>

text \<open>Who holds the strand: an invoker that waits to be run, a thread that runs it, or the thread that
  adds the first function.\<close>

datatype token = Free | Waiting | Runner nat | Adder nat

fun holds_enq :: "enq_pc \<Rightarrow> bool" where
  "holds_enq (EnqReady h) = True"
| "holds_enq EnqSchedule = True"
| "holds_enq _ = False"

fun enq_function :: "enq_pc \<Rightarrow> nat list" where
  "enq_function (EnqReady h) = [h]"
| "enq_function _ = []"

fun run_function :: "run_pc \<Rightarrow> nat list" where
  "run_function (RunHandler h) = [h]"
| "run_function (RunDirect h) = [h]"
| "run_function _ = []"

definition current :: "strand_state \<Rightarrow> token \<Rightarrow> nat list" where
  "current s tok = (case tok of Runner t \<Rightarrow> run_function (runs s ! t) | Adder t \<Rightarrow> enq_function (enqs s ! t) | _ \<Rightarrow> [])"

definition strand_inv_at :: "strand_state \<Rightarrow> token \<Rightarrow> bool" where
  "strand_inv_at s tok \<longleftrightarrow> length (enqs s) = length (runs s) \<and>
     locked s = (tok \<noteq> Free) \<and> scheduled s = (if tok = Waiting then 1 else 0) \<and>
     (\<forall>t < length (runs s). (runs s ! t \<noteq> RunIdle \<longleftrightarrow> tok = Runner t) \<and> (holds_enq (enqs s ! t) \<longleftrightarrow> tok = Adder t)) \<and>
     (\<forall>t. tok = Runner t \<or> tok = Adder t \<longrightarrow> t < length (runs s)) \<and>
     accepted s = finished s @ current s tok @ ready_queue s @ waiting_queue s @ unserved s \<and>
     (tok = Free \<longrightarrow> ready_queue s = [] \<and> waiting_queue s = []) \<and>
     (\<forall>t. tok = Adder t \<longrightarrow> \<not> shut s \<and> (\<forall>h. enqs s ! t = EnqReady h \<longrightarrow> ready_queue s = [])) \<and>
     (\<forall>t. tok = Runner t \<longrightarrow> (\<forall>h. runs s ! t = RunDirect h \<longrightarrow> ready_queue s = []) \<and>
        (shut s \<longrightarrow> run_function (runs s ! t) = [])) \<and>
     (shut s \<longrightarrow> ready_queue s = [] \<and> waiting_queue s = []) \<and> (\<not> shut s \<longrightarrow> unserved s = [])"

definition strand_inv :: "strand_state \<Rightarrow> bool" where
  "strand_inv s \<longleftrightarrow> (\<exists>tok. strand_inv_at s tok)"

lemma strand_invI: "strand_inv_at s tok \<Longrightarrow> strand_inv s"
  by (auto simp: strand_inv_def)

lemma create_inv: "strand_inv (create_implementation n)"
  by (rule strand_invI [of _ Free]) (simp add: strand_inv_at_def create_implementation_def current_def)

lemma enq_inv:
  assumes inv: "strand_inv_at s tok" and t: "t < length (runs s)" and go: "enqueue_step t (enqs s ! t) s = Some s'"
  shows "strand_inv s'"
proof (cases "enqs s ! t")
  case EnqIdle
  with go show ?thesis by simp
next
  case (EnqLock h)
  have tl: "t < length (enqs s)" using inv t by (simp add: strand_inv_at_def)
  have nt: "tok \<noteq> Adder t" using inv t EnqLock by (auto simp: strand_inv_at_def)
  show ?thesis
  proof (cases "shut s \<or> locked s")
    case True
    have c: "current s' tok = current s tok" using go EnqLock True nt tl
      by (cases tok) (auto simp: current_def nth_list_update split: if_splits)
    have "strand_inv_at s' tok"
    proof (cases "shut s")
      case True
      then show ?thesis using inv go EnqLock nt tl c by (auto simp: strand_inv_at_def nth_list_update split: if_splits)
    next
      case sh: False
      with True have "locked s" by simp
      then show ?thesis using inv go EnqLock nt tl c sh by (auto simp: strand_inv_at_def nth_list_update split: if_splits)
    qed
    then show ?thesis by (rule strand_invI)
  next
    case False
    then have "tok = Free" using inv by (simp add: strand_inv_at_def)
    then have "strand_inv_at s' (Adder t)"
      using inv go EnqLock False t tl by (auto simp: strand_inv_at_def current_def nth_list_update split: if_splits)
    then show ?thesis by (rule strand_invI)
  qed
next
  case (EnqReady h)
  have tl: "t < length (enqs s)" using inv t by (simp add: strand_inv_at_def)
  have "tok = Adder t" using inv t EnqReady by (auto simp: strand_inv_at_def)
  then have "strand_inv_at s' (Adder t)"
    using inv go EnqReady t tl by (auto simp: strand_inv_at_def current_def nth_list_update split: if_splits)
  then show ?thesis by (rule strand_invI)
next
  case EnqSchedule
  have tl: "t < length (enqs s)" using inv t by (simp add: strand_inv_at_def)
  have "tok = Adder t" using inv t EnqSchedule by (auto simp: strand_inv_at_def)
  then have "strand_inv_at s' Waiting"
    using inv go EnqSchedule t tl by (auto simp: strand_inv_at_def current_def nth_list_update split: if_splits)
  then show ?thesis by (rule strand_invI)
qed

lemma invoke_inv:
  assumes inv: "strand_inv_at s tok" and t: "t < length (runs s)" and go: "invoker_step t (runs s ! t) s = Some s'"
  shows "strand_inv s'"
proof (cases "runs s ! t")
  case RunIdle
  then have "tok = Waiting" using inv go by (auto simp: strand_inv_at_def split: if_splits)
  then have "strand_inv_at s' (Runner t)"
    using inv go RunIdle t by (auto simp: strand_inv_at_def current_def nth_list_update split: if_splits)
  then show ?thesis by (rule strand_invI)
next
  case RunFront
  then have "tok = Runner t" using inv t by (auto simp: strand_inv_at_def)
  then have "strand_inv_at s' (Runner t)"
    using inv go RunFront t by (auto simp: strand_inv_at_def current_def nth_list_update split: list.splits if_splits)
  then show ?thesis by (rule strand_invI)
next
  case (RunHandler h)
  then have "tok = Runner t" using inv t by (auto simp: strand_inv_at_def)
  then have "strand_inv_at s' (Runner t)"
    using inv go RunHandler t by (auto simp: strand_inv_at_def current_def nth_list_update split: if_splits)
  then show ?thesis by (rule strand_invI)
next
  case (RunDirect h)
  then have "tok = Runner t" using inv t by (auto simp: strand_inv_at_def)
  then have "strand_inv_at s' (Runner t)"
    using inv go RunDirect t by (auto simp: strand_inv_at_def current_def nth_list_update split: if_splits)
  then show ?thesis by (rule strand_invI)
next
  case RunExit
  then have tok: "tok = Runner t" using inv t by (auto simp: strand_inv_at_def)
  show ?thesis
  proof (cases "ready_queue s @ waiting_queue s = []")
    case True
    then have "strand_inv_at s' Free"
      using inv go RunExit t tok by (auto simp: strand_inv_at_def current_def nth_list_update push_waiting_to_ready_def split: if_splits)
    then show ?thesis by (rule strand_invI)
  next
    case False
    then have "strand_inv_at s' (Runner t)"
      using inv go RunExit t tok by (auto simp: strand_inv_at_def current_def nth_list_update push_waiting_to_ready_def split: if_splits)
    then show ?thesis by (rule strand_invI)
  qed
next
  case RunSchedule
  then have "tok = Runner t" using inv t by (auto simp: strand_inv_at_def)
  then have "strand_inv_at s' Waiting"
    using inv go RunSchedule t by (auto simp: strand_inv_at_def current_def nth_list_update split: if_splits)
  then show ?thesis by (rule strand_invI)
qed

lemma post_inv:
  assumes inv: "strand_inv_at s tok" and t: "t < length (runs s)" and go: "post t h s = Some s'"
  shows "strand_inv s'"
proof -
  have tl: "t < length (enqs s)" using inv t by (simp add: strand_inv_at_def)
  have e: "enqs s ! t = EnqIdle" and s': "s' = set_enq t (EnqLock h) s" using go by (auto simp: post_def split: if_splits)
  have nt: "tok \<noteq> Adder t" using inv t e by (auto simp: strand_inv_at_def)
  have c: "current s' tok = current s tok" using s' nt tl by (cases tok) (auto simp: current_def nth_list_update split: if_splits)
  have "strand_inv_at s' tok"
    using inv s' nt tl c e by (auto simp: strand_inv_at_def nth_list_update split: if_splits)
  then show ?thesis by (rule strand_invI)
qed

lemma dispatch_inv:
  assumes inv: "strand_inv_at s tok" and t: "t < length (runs s)" and go: "dispatch t h s = Some s'"
  shows "strand_inv s'"
proof (cases "running_in_this_thread t s")
  case True
  then obtain xs where s': "s' = s\<lparr>inlined := xs\<rparr>" using go by (auto simp: dispatch_def split: if_splits run_pc.splits)
  have "current s' tok = current s tok" by (cases tok) (simp_all add: current_def s')
  with inv have "strand_inv_at s' tok" by (simp add: strand_inv_at_def s')
  then show ?thesis by (rule strand_invI)
next
  case False
  with go have "post t h s = Some s'" by (simp add: dispatch_def)
  then show ?thesis by (rule post_inv [OF inv t])
qed

lemma throw_inv:
  assumes inv: "strand_inv_at s tok" and t: "t < length (runs s)" and go: "function_throws t s = Some s'"
  shows "strand_inv s'"
proof -
  obtain h where r: "runs s ! t = RunHandler h \<or> runs s ! t = RunDirect h" "s' = set_run t RunExit (s\<lparr>finished := finished s @ [h]\<rparr>)"
    using go by (auto simp: function_throws_def split: run_pc.splits)
  then have "tok = Runner t" using inv t by (auto simp: strand_inv_at_def)
  then have "strand_inv_at s' (Runner t)"
    using inv r t by (auto simp: strand_inv_at_def current_def nth_list_update split: if_splits)
  then show ?thesis by (rule strand_invI)
qed

text \<open>An enqueueing dispatch is a post and its first step.\<close>

lemma do_dispatch_inv:
  assumes inv: "strand_inv_at s tok" and t: "t < length (runs s)" and sh: "\<not> shut s" and go: "do_dispatch t h can s = Some s'"
  shows "strand_inv s'"
proof -
  have g: "enqs s ! t = EnqIdle" "runs s ! t = RunIdle" using go by (auto simp: do_dispatch_def split: if_splits)
  have tl: "t < length (enqs s)" using inv t by (simp add: strand_inv_at_def)
  show ?thesis
  proof (cases "can \<and> \<not> locked s")
    case True
    then have s': "s' = set_run t (RunDirect h) (s\<lparr>locked := True, accepted := accepted s @ [h]\<rparr>)" using go g by (simp add: do_dispatch_def)
    have "tok = Free" using inv True by (simp add: strand_inv_at_def)
    then have "strand_inv_at s' (Runner t)"
      using inv g sh t s' by (auto simp: strand_inv_at_def current_def nth_list_update split: if_splits)
    then show ?thesis by (rule strand_invI)
  next
    case False
    let ?s = "set_enq t (EnqLock h) s"
    have "post t h s = Some ?s" using g by (simp add: post_def)
    then obtain tok1 where i: "strand_inv_at ?s tok1" using post_inv [OF inv t] by (auto simp: strand_inv_def)
    have "enqueue_step t (enqs ?s ! t) ?s = Some s'"
      using go g False sh tl by (auto simp: do_dispatch_def list_update_id [of "enqs s" t, unfolded g(1)] split: if_splits)
    then show ?thesis using enq_inv [OF i] t by simp
  qed
qed

lemma shutdown_inv:
  assumes inv: "strand_inv_at s tok" and go: "strand_shutdown s = Some s'"
  shows "strand_inv s'"
proof -
  have g: "list_all (\<lambda>p. p = EnqIdle) (enqs s)" "list_all (\<lambda>p. p = RunIdle) (runs s)"
    and s': "s' = s\<lparr>shut := True, dropped := dropped s @ waiting_queue s @ ready_queue s, unserved := unserved s @ ready_queue s @ waiting_queue s,
      ready_queue := [], waiting_queue := []\<rparr>"
    using go by (auto simp: strand_shutdown_def split: if_splits)
  have "tok = Free \<or> tok = Waiting"
    using inv g by (cases tok) (auto simp: strand_inv_at_def list_all_length)
  then have "strand_inv_at s' tok" using inv s' by (auto simp: strand_inv_at_def current_def)
  then show ?thesis by (rule strand_invI)
qed

lemma strand_step_inv: "strand_inv s \<Longrightarrow> strand_step s a = Some s' \<Longrightarrow> strand_inv s'"
proof -
  assume "strand_inv s" and st: "strand_step s a = Some s'"
  then obtain tok where inv: "strand_inv_at s tok" by (auto simp: strand_inv_def)
  show ?thesis
    using st by (cases a) (auto split: if_splits intro: enq_inv [OF inv] invoke_inv [OF inv] post_inv [OF inv] dispatch_inv [OF inv]
      do_dispatch_inv [OF inv] throw_inv [OF inv] shutdown_inv [OF inv])
qed

interpretation strand: invariant_system strand_step "create_implementation n" strand_inv for n
  by unfold_locales (rule create_inv, rule strand_step_inv)

section \<open>Mutual exclusion and order\<close>

text \<open>The functions that have been started: those that ended and the one that runs.\<close>

definition running :: "strand_state \<Rightarrow> nat list" where
  "running s = concat (List.map run_function (runs s))"

lemma concat_single:
  "t < length xs \<Longrightarrow> (\<And>u. u < length xs \<Longrightarrow> u \<noteq> t \<Longrightarrow> f (xs ! u) = []) \<Longrightarrow> concat (List.map f xs) = f (xs ! t)"
proof (induction xs arbitrary: t)
  case (Cons x xs)
  show ?case
  proof (cases t)
    case 0
    have "f y = []" if "y \<in> set xs" for y
      using that Cons.prems(2) [of "Suc _"] 0 by (metis in_set_conv_nth length_Cons nth_Cons_Suc Suc_less_eq nat.distinct(1))
    with 0 show ?thesis by simp
  next
    case (Suc k)
    have "f x = []" using Cons.prems(2) [of 0] Suc by simp
    moreover have "concat (List.map f xs) = f (xs ! k)"
    proof (rule Cons.IH)
      show "k < length xs" using Cons.prems(1) Suc by simp
      show "f (xs ! u) = []" if "u < length xs" "u \<noteq> k" for u using Cons.prems(2) [of "Suc u"] that Suc by simp
    qed
    ultimately show ?thesis using Suc by simp
  qed
qed simp

lemma running_current:
  assumes "strand_inv_at s tok"
  shows "running s = (case tok of Runner t \<Rightarrow> current s tok | _ \<Rightarrow> [])"
proof (cases "\<exists>t. tok = Runner t")
  case True
  then obtain t where t: "tok = Runner t" "t < length (runs s)" using assms by (auto simp: strand_inv_at_def)
  have "running s = run_function (runs s ! t)"
    unfolding running_def using assms t by (intro concat_single) (auto simp: strand_inv_at_def)
  with t show ?thesis by (simp add: current_def)
next
  case False
  then have "\<forall>p \<in> set (runs s). p = RunIdle" using assms by (auto simp: strand_inv_at_def in_set_conv_nth)
  then have "running s = []" by (auto simp: running_def)
  with False show ?thesis by (cases tok) auto
qed

text \<open>C5: However the threads interleave, no two functions of a strand run at the same time, and they are
  started in the order in which they were accepted, each once.\<close>
theorem strand_serialises:
  assumes "reachable strand_step (create_implementation n) s"
  shows "(\<forall>t u. t < length (runs s) \<longrightarrow> u < length (runs s) \<longrightarrow> runs s ! t \<noteq> RunIdle \<longrightarrow> runs s ! u \<noteq> RunIdle \<longrightarrow> t = u) \<and>
    length (running s) \<le> 1 \<and> prefix (finished s @ running s) (accepted s)"
proof -
  obtain tok where inv: "strand_inv_at s tok" using strand.reachable_inv [OF assms] by (auto simp: strand_inv_def)
  have "length (run_function p) \<le> 1" for p by (cases p) simp_all
  then have "length (running s) \<le> 1"
    unfolding running_current [OF inv] by (cases tok) (simp_all add: current_def)
  moreover have "prefix (finished s @ running s) (accepted s)"
    unfolding running_current [OF inv] using inv by (cases tok) (auto simp: strand_inv_at_def)
  moreover have "\<forall>t u. t < length (runs s) \<longrightarrow> u < length (runs s) \<longrightarrow> runs s ! t \<noteq> RunIdle \<longrightarrow> runs s ! u \<noteq> RunIdle \<longrightarrow> t = u"
    using inv by (auto simp: strand_inv_at_def)
  ultimately show ?thesis by blast
qed

lemma strand_serialises_witness:
  "let s = the (run strand_step (create_implementation 2) [Post 0 7, Enq 0, Post 1 8, Enq 1, Enq 0, Enq 0, Invoke 1]) in
    (\<forall>t u. t < length (runs s) \<longrightarrow> u < length (runs s) \<longrightarrow> runs s ! t \<noteq> RunIdle \<longrightarrow> runs s ! u \<noteq> RunIdle \<longrightarrow> t = u) \<and>
    length (running s) \<le> 1 \<and> prefix (finished s @ running s) (accepted s)"
  unfolding Let_def
  by (rule strand_serialises [of 2], rule run_reachable [of _ _ "[Post 0 7, Enq 0, Post 1 8, Enq 1, Enq 0, Enq 0, Invoke 1]"])
    (simp add: create_implementation_def post_def running_in_this_thread_def numeral_2_eq_2)

section \<open>No function is stranded\<close>

lemma strand_step_length: "strand_step s a = Some s' \<Longrightarrow> length (runs s') = length (runs s)"
proof (cases a)
  case (Enq t)
  then show "strand_step s a = Some s' \<Longrightarrow> ?thesis" by (cases "enqs s ! t") (auto split: if_splits)
next
  case (Invoke t)
  then show "strand_step s a = Some s' \<Longrightarrow> ?thesis"
    by (cases "runs s ! t") (auto simp: push_waiting_to_ready_def Let_def split: if_splits list.splits)
qed (auto simp: post_def dispatch_def do_dispatch_def function_throws_def strand_shutdown_def split: if_splits run_pc.splits)

interpretation strand_threads: invariant_system strand_step "create_implementation n" "\<lambda>s. length (runs s) = n" for n
  by unfold_locales (simp_all add: create_implementation_def strand_step_length)

text \<open>Thread 0 runs the invokers; \<open>throws\<close> says which functions throw.\<close>

definition next_own :: "(nat \<Rightarrow> bool) \<Rightarrow> strand_state \<Rightarrow> strand_action" where
  "next_own throws s = (case runs s ! 0 of RunHandler h \<Rightarrow> if throws h then Throw 0 else Invoke 0 | _ \<Rightarrow> Invoke 0)"

fun run_strand :: "(nat \<Rightarrow> bool) \<Rightarrow> nat \<Rightarrow> strand_state \<Rightarrow> strand_state" where
  "run_strand throws 0 s = s"
| "run_strand throws (Suc k) s = (case strand_step s (next_own throws s) of None \<Rightarrow> s | Some s1 \<Rightarrow> run_strand throws k s1)"

definition draining :: "strand_state \<Rightarrow> token \<Rightarrow> bool" where
  "draining s tok \<longleftrightarrow> strand_inv_at s tok \<and> (tok = Free \<or> tok = Waiting \<or> tok = Runner 0) \<and> list_all (\<lambda>p. p = EnqIdle) (enqs s) \<and> \<not> shut s \<and> 0 < length (runs s)"

definition drain_measure :: "strand_state \<Rightarrow> nat" where
  "drain_measure s = 5 * length (ready_queue s) + 9 * length (waiting_queue s) +
     (case runs s ! 0 of RunIdle \<Rightarrow> if scheduled s > 0 then 6 else 0 | RunFront \<Rightarrow> 5 | RunHandler h \<Rightarrow> 9 | RunDirect h \<Rightarrow> 9
      | RunExit \<Rightarrow> if ready_queue s = [] then 4 else 8 | RunSchedule \<Rightarrow> 7)"

text \<open>An invoker's step, or the throw of the function that it runs, keeps the holder with the thread or passes the strand on.\<close>

definition drains_to :: "strand_state \<Rightarrow> strand_state \<Rightarrow> bool" where
  "drains_to s s1 \<longleftrightarrow> (\<exists>tok. draining s1 tok) \<and> drain_measure s1 < drain_measure s \<and> accepted s1 = accepted s"

lemma drain_frame:
  assumes d: "draining s tok" and i: "strand_inv s1" and f: "enqs s1 = enqs s" "shut s1 = shut s" "runs s1 = (runs s)[0 := p]"
  shows "\<exists>tok1. draining s1 tok1"
proof -
  obtain tok1 where i1: "strand_inv_at s1 tok1" using i by (auto simp: strand_inv_def)
  have len: "0 < length (runs s1)" "length (enqs s1) = length (runs s1)" using d f i1 by (simp_all add: draining_def strand_inv_at_def)
  have "tok1 \<noteq> Adder u" for u
  proof
    assume a: "tok1 = Adder u"
    then have "u < length (enqs s1)" "holds_enq (enqs s1 ! u)" using i1 len by (auto simp: strand_inv_at_def)
    then show False using d f by (auto simp: draining_def list_all_length)
  qed
  moreover have "u = 0" if a: "tok1 = Runner u" for u
  proof (rule ccontr)
    assume u: "u \<noteq> 0"
    have l: "u < length (runs s1)" "runs s1 ! u \<noteq> RunIdle" using a i1 by (auto simp: strand_inv_at_def)
    then have "runs s ! u \<noteq> RunIdle" "u < length (runs s)" using u f by auto
    then have "tok = Runner u" using d by (auto simp: draining_def strand_inv_at_def)
    then show False using d u by (simp add: draining_def)
  qed
  ultimately have "tok1 = Free \<or> tok1 = Waiting \<or> tok1 = Runner 0" by (cases tok1) auto
  then show ?thesis using d f i1 len by (auto simp: draining_def)
qed

lemma drain_step:
  assumes d: "draining s tok" and tok: "tok \<noteq> Free"
  shows "\<exists>s1. strand_step s (next_own throws s) = Some s1 \<and> drains_to s s1"
proof -
  have l: "0 < length (runs s)" and e: "enqs s ! 0 = EnqIdle" and inv: "strand_inv s"
    using d by (auto simp: draining_def strand_inv_at_def list_all_length strand_inv_def)
  let ?u = "the (strand_step s (next_own throws s))"
  have go: "\<exists>s1. strand_step s (next_own throws s) = Some s1 \<and> drains_to s s1"
    if n: "strand_step s (next_own throws s) \<noteq> None" and f: "enqs ?u = enqs s" "shut ?u = shut s" "runs ?u = (runs s)[0 := p]" "accepted ?u = accepted s"
      "drain_measure ?u < drain_measure s" for p
  proof -
    obtain s1 where s1: "strand_step s (next_own throws s) = Some s1" using n by blast
    then show ?thesis using drain_frame [OF d strand_step_inv [OF inv s1]] f by (auto simp: drains_to_def)
  qed
  show ?thesis
  proof (cases "runs s ! 0")
    case RunIdle
    then have w: "tok = Waiting" using d tok by (auto simp: draining_def strand_inv_at_def)
    then have "scheduled s = 1" using d by (simp add: draining_def strand_inv_at_def)
    then show ?thesis using l e RunIdle by (intro go [where p = RunFront]) (auto simp: next_own_def drain_measure_def)
  next
    case RunFront
    show ?thesis
    proof (cases "ready_queue s")
      case Nil
      then show ?thesis using l e RunFront by (intro go [where p = RunExit]) (auto simp: next_own_def drain_measure_def)
    next
      case (Cons h hs)
      then show ?thesis using l e RunFront by (intro go [where p = "RunHandler h"]) (auto simp: next_own_def drain_measure_def)
    qed
  next
    case (RunHandler h)
    then show ?thesis using l e
      by (intro go [where p = "if throws h then RunExit else RunFront"]) (auto simp: next_own_def drain_measure_def function_throws_def)
  next
    case (RunDirect h)
    then have "ready_queue s = []" using d l tok by (auto simp: draining_def strand_inv_at_def)
    then show ?thesis using l e RunDirect by (intro go [where p = RunExit]) (auto simp: next_own_def drain_measure_def)
  next
    case RunExit
    have sc: "scheduled s = 0" using d l RunExit by (auto simp: draining_def strand_inv_at_def)
    show ?thesis
    proof (cases "ready_queue s @ waiting_queue s = []")
      case True
      then show ?thesis using l e RunExit sc
        by (intro go [where p = RunIdle]) (auto simp: next_own_def drain_measure_def push_waiting_to_ready_def)
    next
      case False
      then have "ready_queue s \<noteq> [] \<or> Suc 0 \<le> length (waiting_queue s)" by (cases "waiting_queue s") auto
      then show ?thesis using l e RunExit False
        by (intro go [where p = RunSchedule]) (auto simp: next_own_def drain_measure_def push_waiting_to_ready_def)
    qed
  next
    case RunSchedule
    then show ?thesis using l e by (intro go [where p = RunIdle]) (auto simp: next_own_def drain_measure_def)
  qed
qed

lemma drain_end: "draining s Free \<Longrightarrow> finished s = accepted s \<and> scheduled s = 0 \<and> \<not> locked s"
  by (simp add: draining_def strand_inv_at_def current_def)

lemma drain_all:
  "draining s tok \<Longrightarrow> \<exists>k. finished (run_strand throws k s) = accepted s \<and> scheduled (run_strand throws k s) = 0 \<and> \<not> locked (run_strand throws k s)"
proof (induction "drain_measure s" arbitrary: s tok rule: less_induct)
  case less
  show ?case
  proof (cases "tok = Free")
    case True
    then show ?thesis using drain_end less.prems by (intro exI [of _ 0]) simp
  next
    case False
    obtain s1 tok1 where s1: "strand_step s (next_own throws s) = Some s1" "draining s1 tok1" "drain_measure s1 < drain_measure s" "accepted s1 = accepted s"
      using drain_step [OF less.prems False, of throws] by (auto simp: drains_to_def)
    obtain k where "finished (run_strand throws k s1) = accepted s1 \<and> scheduled (run_strand throws k s1) = 0 \<and> \<not> locked (run_strand throws k s1)"
      using less.hyps [OF s1(3,2)] by blast
    then show ?thesis using s1 by (intro exI [of _ "Suc k"]) simp
  qed
qed

text \<open>C30: Until a strand is shut down no accepted function is stranded: while one has not ended, either an invoker is scheduled, or a thread runs the strand or is
  about to schedule it. And when no thread is doing anything, running what is scheduled on one thread ends with every accepted function run, whichever of them
  throw.\<close>
theorem strand_drains:
  assumes "reachable strand_step (create_implementation n) s" "0 < n" "\<not> shut s"
  shows "(accepted s \<noteq> finished s \<longrightarrow> scheduled s = 1 \<or> (\<exists>t < n. runs s ! t \<noteq> RunIdle \<or> holds_enq (enqs s ! t))) \<and>
    (list_all (\<lambda>p. p = EnqIdle) (enqs s) \<and> list_all (\<lambda>p. p = RunIdle) (runs s) \<longrightarrow>
       (\<forall>throws. \<exists>k. finished (run_strand throws k s) = accepted s \<and> scheduled (run_strand throws k s) = 0 \<and> \<not> locked (run_strand throws k s)))"
proof -
  obtain tok where inv: "strand_inv_at s tok" using strand.reachable_inv [OF assms(1)] by (auto simp: strand_inv_def)
  have len: "length (runs s) = n" "length (enqs s) = n"
    using strand_threads.reachable_inv [OF assms(1)] inv by (simp_all add: strand_inv_at_def)
  have "scheduled s = 1 \<or> (\<exists>t < n. runs s ! t \<noteq> RunIdle \<or> holds_enq (enqs s ! t))" if "accepted s \<noteq> finished s"
  proof (cases tok)
    case Free
    then have "finished s = accepted s" using inv assms(3) by (simp add: strand_inv_at_def current_def)
    then show ?thesis using that by simp
  qed (use inv len in \<open>auto simp: strand_inv_at_def\<close>)
  moreover have "draining s tok" if "list_all (\<lambda>p. p = EnqIdle) (enqs s)" "list_all (\<lambda>p. p = RunIdle) (runs s)"
    using inv assms(2,3) that len by (cases tok) (auto simp: draining_def strand_inv_at_def list_all_length)
  ultimately show ?thesis using drain_all by blast
qed

definition waiting_strand :: strand_state where
  "waiting_strand = the (run strand_step (create_implementation 2) [Post 0 7, Enq 0, Post 1 8, Enq 1, Enq 0, Enq 0])"

lemma waiting_strand_facts: "reachable strand_step (create_implementation 2) waiting_strand" "\<not> shut waiting_strand" "accepted waiting_strand = [7, 8]" "finished waiting_strand = []"
  "enqs waiting_strand = [EnqIdle, EnqIdle]" "runs waiting_strand = [RunIdle, RunIdle]"
proof -
  have r: "run strand_step (create_implementation 2) [Post 0 7, Enq 0, Post 1 8, Enq 1, Enq 0, Enq 0] = Some waiting_strand"
    by (simp add: waiting_strand_def create_implementation_def post_def running_in_this_thread_def numeral_2_eq_2)
  then show "reachable strand_step (create_implementation 2) waiting_strand" by (rule run_reachable)
qed (simp_all add: waiting_strand_def create_implementation_def post_def running_in_this_thread_def numeral_2_eq_2)

theorem strand_drains_witness:
  "scheduled waiting_strand = 1 \<and> (\<exists>k. finished (run_strand (\<lambda>h. h = 7) k waiting_strand) = [7, 8])"
  using strand_drains [OF waiting_strand_facts(1) _ waiting_strand_facts(2)] waiting_strand_facts by (auto simp: less_2_cases_iff)

end
