(* ===== verification/AsioOpQueue.thy ===== *)
theory AsioOpQueue
  imports Prelude
begin

text \<open>
  \<open>detail/op_queue.hpp\<close> of the Asio library: the singly linked queues of operations that the
  timer queue, the strand and the schedulers keep. The links are in the operations, so all
  queues share one memory and an operation can be in one queue only.
\<close>

section \<open>The queue\<close>

record op_list =
  q_front :: "nat option"
  q_back :: "nat option"

type_synonym links = "nat \<Rightarrow> nat option"

definition new_op_queue :: op_list where
  "new_op_queue = \<lparr>q_front = None, q_back = None\<rparr>"

definition op_pop :: "op_list \<Rightarrow> links \<Rightarrow> op_list \<times> links" where
  "op_pop q m = (case q_front q of
       None \<Rightarrow> (q, m)
     | Some tmp \<Rightarrow> (\<lparr>q_front = m tmp, q_back = (if m tmp = None then None else q_back q)\<rparr>, m(tmp := None)))"

definition op_push :: "nat \<Rightarrow> op_list \<Rightarrow> links \<Rightarrow> op_list \<times> links" where
  "op_push h q m = (let m1 = m(h := None) in
     case q_back q of
       Some b \<Rightarrow> (q\<lparr>q_back := Some h\<rparr>, m1(b := Some h))
     | None \<Rightarrow> (\<lparr>q_front = Some h, q_back = Some h\<rparr>, m1))"

text \<open>All operations of the queue \<open>other\<close>, which is empty after it.\<close>

definition op_push_queue :: "op_list \<Rightarrow> op_list \<Rightarrow> links \<Rightarrow> op_list \<times> op_list \<times> links" where
  "op_push_queue other q m = (case q_front other of
       None \<Rightarrow> (q, other, m)
     | Some f \<Rightarrow> (case q_back q of
           Some b \<Rightarrow> (q\<lparr>q_back := q_back other\<rparr>, new_op_queue, m(b := Some f))
         | None \<Rightarrow> (\<lparr>q_front = Some f, q_back = q_back other\<rparr>, new_op_queue, m)))"

definition op_empty :: "op_list \<Rightarrow> bool" where
  "op_empty q \<longleftrightarrow> q_front q = None"

definition is_enqueued :: "nat \<Rightarrow> op_list \<Rightarrow> links \<Rightarrow> bool" where
  "is_enqueued op q m \<longleftrightarrow> m op \<noteq> None \<or> q_back q = Some op"

text \<open>The destructor: the operations destroyed, in order. It ends when the links have an end.\<close>

partial_function (option) destroy_queue :: "op_list \<Rightarrow> links \<Rightarrow> (nat list \<times> links) option" where
  "destroy_queue q m = (case q_front q of
       None \<Rightarrow> Some ([], m)
     | Some op \<Rightarrow> (case op_pop q m of (q', m') \<Rightarrow>
         Option.bind (destroy_queue q' m') (\<lambda>(ops, m2). Some (op # ops, m2))))"

section \<open>The list it represents\<close>

fun path :: "links \<Rightarrow> nat option \<Rightarrow> nat list \<Rightarrow> bool" where
  "path m p [] \<longleftrightarrow> p = None"
| "path m p (x # xs) \<longleftrightarrow> p = Some x \<and> path m (m x) xs"

definition represents :: "links \<Rightarrow> op_list \<Rightarrow> nat list \<Rightarrow> bool" where
  "represents m q xs \<longleftrightarrow> path m (q_front q) xs \<and> distinct xs \<and> q_back q = (if xs = [] then None else Some (last xs))"

lemma path_update: "u \<notin> set xs \<Longrightarrow> path (m(u := v)) p xs = path m p xs"
  by (induction xs arbitrary: p) auto

lemma path_append: "xs \<noteq> [] \<Longrightarrow> distinct xs \<Longrightarrow> path m p xs \<Longrightarrow> set xs \<inter> set ys = {} \<Longrightarrow> path m f ys \<Longrightarrow>
  path (m(last xs := f)) p (xs @ ys)"
proof (induction xs arbitrary: p)
  case (Cons x xs)
  show ?case
  proof (cases xs)
    case Nil
    with Cons.prems path_update [of x ys m f f] show ?thesis by (simp del: fun_upd_apply) simp
  next
    case ne: (Cons y zs)
    have "path (m(last xs := f)) (m x) (xs @ ys)" using Cons.prems ne by (intro Cons.IH) simp_all
    moreover have "x \<noteq> last xs" using ne Cons.prems(2) by (metis distinct.simps(2) last_in_set list.distinct(1))
    moreover have "last (x # xs) = last xs" using ne by simp
    moreover have "p = Some x" using Cons.prems(3) by simp
    ultimately show ?thesis by (simp add: fun_upd_def)
  qed
qed simp

lemma path_None: "path m None xs \<longleftrightarrow> xs = []"
  by (cases xs) auto

lemma path_last: "path m p xs \<Longrightarrow> xs \<noteq> [] \<Longrightarrow> m (last xs) = None"
  by (induction xs arbitrary: p) (auto simp: path_None split: if_splits)

lemma path_next: "path m p xs \<Longrightarrow> x \<in> set xs \<Longrightarrow> x \<noteq> last xs \<Longrightarrow> m x \<noteq> None"
proof (induction xs arbitrary: p)
  case (Cons y ys)
  show ?case
  proof (cases "x = y")
    case True
    with Cons.prems have "ys \<noteq> []" "path m (m x) ys" by auto
    then show ?thesis using path_None by metis
  qed (use Cons in \<open>auto split: if_splits\<close>)
qed simp

section \<open>Several queues over the operations\<close>

text \<open>The queues \<open>qs\<close> hold the lists \<open>ls\<close>, no operation twice, and an operation in none has no
  link.\<close>

definition queues_ok :: "links \<Rightarrow> op_list list \<Rightarrow> nat list list \<Rightarrow> bool" where
  "queues_ok m qs ls \<longleftrightarrow> length qs = length ls \<and> (\<forall>i < length ls. represents m (qs ! i) (ls ! i)) \<and>
     (\<forall>i < length ls. \<forall>j < length ls. i \<noteq> j \<longrightarrow> set (ls ! i) \<inter> set (ls ! j) = {}) \<and>
     (\<forall>x. (\<forall>i < length ls. x \<notin> set (ls ! i)) \<longrightarrow> m x = None)"

lemma represents_update: "u \<notin> set xs \<Longrightarrow> represents (m(u := v)) q xs = represents m q xs"
  by (simp add: represents_def path_update)

lemma represents_empty: "represents m q xs \<Longrightarrow> (q_front q = None \<longleftrightarrow> xs = []) \<and> (q_back q = None \<longleftrightarrow> xs = [])"
  by (cases xs) (auto simp: represents_def)

lemma pop_ok:
  assumes ok: "queues_ok m qs ls" and i: "i < length ls" and go: "op_pop (qs ! i) m = (q', m')"
  shows "queues_ok m' (qs[i := q']) (ls[i := tl (ls ! i)])"
proof (cases "ls ! i")
  case Nil
  then have "q_front (qs ! i) = None" using ok i represents_empty by (auto simp: queues_ok_def)
  then have "q' = qs ! i" "m' = m" using go by (simp_all add: op_pop_def)
  then show ?thesis using ok i Nil by (metis list_update_id list.sel(2))
next
  case (Cons x xs)
  have r: "represents m (qs ! i) (x # xs)" using ok i Cons by (auto simp: queues_ok_def)
  then have f: "q_front (qs ! i) = Some x" "path m (m x) xs" "x \<notin> set xs" "distinct xs" by (auto simp: represents_def)
  have g: "q' = \<lparr>q_front = m x, q_back = (if m x = None then None else q_back (qs ! i))\<rparr>" "m' = m(x := None)"
    using go f(1) by (simp_all add: op_pop_def)
  have "m x = None \<longleftrightarrow> xs = []" using f(2) path_None by (metis path.simps(1) path.simps(2) list.exhaust option.distinct(1))
  then have "represents m' q' xs" using r f g by (auto simp: represents_def path_update)
  moreover have "represents m' (qs ! j) (ls ! j)" if "j < length ls" "j \<noteq> i" for j
  proof -
    have "x \<notin> set (ls ! j)" using ok i that Cons by (force simp: queues_ok_def)
    then show ?thesis using ok that by (simp add: g represents_update queues_ok_def)
  qed
  moreover have "m' y = None" if "\<forall>j < length ls. y \<notin> set (ls[i := xs] ! j)" for y
  proof (cases "y = x")
    case False
    have "y \<notin> set (ls ! j)" if "j < length ls" for j
      using \<open>\<forall>j < length ls. y \<notin> set (ls[i := xs] ! j)\<close> that i Cons False by (cases "j = i") (auto simp: nth_list_update)
    then show ?thesis using ok False by (simp add: queues_ok_def g)
  qed (simp add: g)
  moreover have "set (ls[i := xs] ! j) \<subseteq> set (ls ! j)" if "j < length ls" for j
    using that i Cons by (auto simp: nth_list_update)
  then have "set (ls[i := xs] ! j) \<inter> set (ls[i := xs] ! k) = {}" if "j < length ls" "k < length ls" "j \<noteq> k" for j k
    using ok that unfolding queues_ok_def by (meson disjoint_iff subsetD)
  moreover have "length qs = length ls" using ok by (simp add: queues_ok_def)
  ultimately show ?thesis using i Cons by (auto simp: queues_ok_def nth_list_update)
qed

lemma push_ok:
  assumes ok: "queues_ok m qs ls" and i: "i < length ls" and new: "\<forall>j < length ls. h \<notin> set (ls ! j)"
    and go: "op_push h (qs ! i) m = (q', m')"
  shows "queues_ok m' (qs[i := q']) (ls[i := ls ! i @ [h]])"
proof -
  have r: "represents m (qs ! i) (ls ! i)" using ok i by (simp add: queues_ok_def)
  have hn: "h \<notin> set (ls ! i)" using new i by simp
  have m0: "m h = None" using ok new by (simp add: queues_ok_def)
  then have same: "m(h := None) = m" by (simp add: fun_upd_idem)
  have q: "represents m' q' (ls ! i @ [h])" and others: "\<And>j. j < length ls \<Longrightarrow> j \<noteq> i \<Longrightarrow> represents m' (qs ! j) (ls ! j)"
    and none: "\<And>x. (\<forall>j < length ls. x \<notin> set (ls ! j)) \<Longrightarrow> m' x = None"
  proof -
    show "represents m' q' (ls ! i @ [h])"
    proof (cases "ls ! i = []")
      case True
      then have "q_back (qs ! i) = None" using represents_empty [OF r] by simp
      then have "q' = \<lparr>q_front = Some h, q_back = Some h\<rparr>" "m' = m" using go by (simp_all add: op_push_def Let_def same)
      with True m0 show ?thesis by (simp add: represents_def)
    next
      case False
      then have b: "q_back (qs ! i) = Some (last (ls ! i))" using r by (simp add: represents_def)
      then have g: "q' = (qs ! i)\<lparr>q_back := Some h\<rparr>" "m' = m(last (ls ! i) := Some h)" using go by (simp_all add: op_push_def Let_def same)
      have "path (m(last (ls ! i) := Some h)) (q_front (qs ! i)) (ls ! i @ [h])"
        using False r hn m0 by (intro path_append) (auto simp: represents_def)
      with False r hn g show ?thesis by (simp add: represents_def)
    qed
    show "represents m' (qs ! j) (ls ! j)" if j: "j < length ls" "j \<noteq> i" for j
    proof (cases "ls ! i = []")
      case True
      then have "q_back (qs ! i) = None" using represents_empty [OF r] by simp
      then have "m' = m" using go by (simp add: op_push_def Let_def same)
      with ok j show ?thesis by (simp add: queues_ok_def)
    next
      case False
      then have "m' = m(last (ls ! i) := Some h)" using go r by (auto simp: op_push_def Let_def same represents_def)
      moreover have "last (ls ! i) \<notin> set (ls ! j)" using ok i j last_in_set [OF False] by (auto simp: queues_ok_def)
      ultimately show ?thesis using ok j by (simp add: represents_update queues_ok_def)
    qed
    show "m' x = None" if x: "\<forall>j < length ls. x \<notin> set (ls ! j)" for x
    proof (cases "ls ! i = []")
      case True
      then have "q_back (qs ! i) = None" using represents_empty [OF r] by simp
      then have "m' = m" using go by (simp add: op_push_def Let_def same)
      with ok x show ?thesis by (simp add: queues_ok_def)
    next
      case False
      then have "m' = m(last (ls ! i) := Some h)" using go r by (auto simp: op_push_def Let_def same represents_def)
      moreover have "x \<noteq> last (ls ! i)" using x i False by auto
      ultimately show ?thesis using ok x by (simp add: queues_ok_def)
    qed
  qed
  have "m' x = None" if "\<forall>j < length ls. x \<notin> set (ls[i := ls ! i @ [h]] ! j)" for x
  proof (rule none)
    show "\<forall>j < length ls. x \<notin> set (ls ! j)" using that i by (auto simp: nth_list_update split: if_splits)
  qed
  with ok i new q others show ?thesis by (auto simp: queues_ok_def nth_list_update split: if_splits)
qed

lemma splice_ok:
  assumes ok: "queues_ok m qs ls" and i: "i < length ls" "j < length ls" "i \<noteq> j"
    and go: "op_push_queue (qs ! j) (qs ! i) m = (q', r', m')"
  shows "queues_ok m' (qs[i := q', j := r']) (ls[i := ls ! i @ ls ! j, j := []])"
proof -
  have ri: "represents m (qs ! i) (ls ! i)" and rj: "represents m (qs ! j) (ls ! j)" and dis: "set (ls ! i) \<inter> set (ls ! j) = {}"
    using ok i by (auto simp: queues_ok_def)
  have len: "length qs = length ls" using ok by (simp add: queues_ok_def)
  have main: "represents m' q' (ls ! i @ ls ! j) \<and> represents m' r' [] \<and>
     (m' = m \<or> ls ! i \<noteq> [] \<and> (\<exists>f. m' = m(last (ls ! i) := f)))"
  proof (cases "ls ! j = []")
    case True
    then have "q_front (qs ! j) = None" using represents_empty [OF rj] by simp
    then have "q' = qs ! i" "r' = qs ! j" "m' = m" using go by (simp_all add: op_push_queue_def)
    with True ri rj show ?thesis by simp
  next
    case False
    then obtain f where f: "q_front (qs ! j) = Some f" using represents_empty [OF rj] by auto
    have new: "represents k new_op_queue []" for k by (simp add: represents_def new_op_queue_def)
    show ?thesis
    proof (cases "ls ! i = []")
      case True
      then have "q_back (qs ! i) = None" using represents_empty [OF ri] by simp
      then have "q' = \<lparr>q_front = Some f, q_back = q_back (qs ! j)\<rparr>" "r' = new_op_queue" "m' = m"
        using go f by (simp_all add: op_push_queue_def)
      with True rj f new show ?thesis by (simp add: represents_def)
    next
      case ne: False
      then have b: "q_back (qs ! i) = Some (last (ls ! i))" using ri by (simp add: represents_def)
      then have g: "q' = (qs ! i)\<lparr>q_back := q_back (qs ! j)\<rparr>" "r' = new_op_queue" "m' = m(last (ls ! i) := Some f)"
        using go f by (simp_all add: op_push_queue_def)
      have "path (m(last (ls ! i) := Some f)) (q_front (qs ! i)) (ls ! i @ ls ! j)"
        using ne ri rj f dis by (intro path_append) (auto simp: represents_def)
      with False ne ri rj dis g new show ?thesis by (auto simp: represents_def)
    qed
  qed
  have others: "represents m' (qs ! k) (ls ! k)" if k: "k < length ls" "k \<noteq> i" for k
  proof -
    have "set (ls ! i) \<inter> set (ls ! k) = {}" using ok i(1) k by (simp add: queues_ok_def)
    then have "ls ! i \<noteq> [] \<Longrightarrow> last (ls ! i) \<notin> set (ls ! k)" using last_in_set [of "ls ! i"] by blast
    then show ?thesis using main ok k by (auto simp: queues_ok_def represents_update simp del: fun_upd_apply)
  qed
  let ?ls = "ls[i := ls ! i @ ls ! j, j := []]"
  have nth: "?ls ! k = (if k = j then [] else if k = i then ls ! i @ ls ! j else ls ! k)" if "k < length ls" for k
    using that i by (simp add: nth_list_update)
  have rep: "represents m' (qs[i := q', j := r'] ! k) (?ls ! k)" if "k < length ls" for k
    using that main others i len by (cases "k = i"; cases "k = j") (simp_all add: nth nth_list_update)
  have disj: "set (?ls ! k) \<inter> set (?ls ! l) = {}" if "k < length ls" "l < length ls" "k \<noteq> l" for k l
  proof -
    have D: "set (ls ! a) \<inter> set (ls ! b) = {}" if "a < length ls" "b < length ls" "a \<noteq> b" for a b
      using ok that by (simp add: queues_ok_def)
    show ?thesis using that D i by (auto simp: nth split: if_splits)
  qed
  have none: "m' x = None" if x: "\<forall>k < length ls. x \<notin> set (?ls ! k)" for x
  proof -
    have "x \<notin> set (ls ! k)" if "k < length ls" for k
      using x [rule_format, OF that] x [rule_format, OF i(1)] i that by (auto simp: nth split: if_splits)
    then have "m x = None" "ls ! i \<noteq> [] \<longrightarrow> x \<noteq> last (ls ! i)" using ok i(1) last_in_set by (auto simp: queues_ok_def)
    then show ?thesis using main by auto
  qed
  show ?thesis using len rep disj none by (simp add: queues_ok_def)
qed

section \<open>Programs over the queues\<close>

datatype queue_op = PushOp nat nat | PopOp nat | Splice nat nat

fun queues_step :: "queue_op \<Rightarrow> op_list list \<times> links \<Rightarrow> op_list list \<times> links" where
  "queues_step (PushOp i h) (qs, m) = (case op_push h (qs ! i) m of (q, m') \<Rightarrow> (qs[i := q], m'))"
| "queues_step (PopOp i) (qs, m) = (case op_pop (qs ! i) m of (q, m') \<Rightarrow> (qs[i := q], m'))"
| "queues_step (Splice i j) (qs, m) = (case op_push_queue (qs ! j) (qs ! i) m of (q, r, m') \<Rightarrow> (qs[i := q, j := r], m'))"

fun lists_step :: "queue_op \<Rightarrow> nat list list \<Rightarrow> nat list list" where
  "lists_step (PushOp i h) ls = ls[i := ls ! i @ [h]]"
| "lists_step (PopOp i) ls = ls[i := tl (ls ! i)]"
| "lists_step (Splice i j) ls = ls[i := ls ! i @ ls ! j, j := []]"

text \<open>An operation is pushed only when it is in no queue.\<close>

fun op_allowed :: "queue_op \<Rightarrow> nat list list \<Rightarrow> bool" where
  "op_allowed (PushOp i h) ls \<longleftrightarrow> i < length ls \<and> list_all (\<lambda>xs. h \<notin> set xs) ls"
| "op_allowed (PopOp i) ls \<longleftrightarrow> i < length ls"
| "op_allowed (Splice i j) ls \<longleftrightarrow> i < length ls \<and> j < length ls \<and> i \<noteq> j"

fun all_allowed :: "queue_op list \<Rightarrow> nat list list \<Rightarrow> bool" where
  "all_allowed [] ls \<longleftrightarrow> True"
| "all_allowed (x # xs) ls \<longleftrightarrow> op_allowed x ls \<and> all_allowed xs (lists_step x ls)"

lemma queues_step_ok:
  "queues_ok m qs ls \<Longrightarrow> op_allowed x ls \<Longrightarrow> case queues_step x (qs, m) of (qs', m') \<Rightarrow> queues_ok m' qs' (lists_step x ls)"
  by (cases x) (auto split: prod.splits simp: list_all_length intro: pop_ok push_ok splice_ok)

lemma queues_run_ok:
  "queues_ok m qs ls \<Longrightarrow> all_allowed xs ls \<Longrightarrow>
     case fold queues_step xs (qs, m) of (qs', m') \<Rightarrow> queues_ok m' qs' (fold lists_step xs ls)"
proof (induction xs arbitrary: qs m ls)
  case (Cons x xs)
  obtain qs1 m1 where s: "queues_step x (qs, m) = (qs1, m1)" by fastforce
  then have "queues_ok m1 qs1 (lists_step x ls)" using queues_step_ok [OF Cons.prems(1), of x] Cons.prems(2) by simp
  with Cons.IH [OF this] Cons.prems(2) s show ?case by simp
qed simp

lemma is_enqueued_iff:
  assumes "queues_ok m qs ls" "i < length ls" "\<forall>j < length ls. j \<noteq> i \<longrightarrow> x \<notin> set (ls ! j)"
  shows "is_enqueued x (qs ! i) m \<longleftrightarrow> x \<in> set (ls ! i)"
proof
  assume e: "is_enqueued x (qs ! i) m"
  show "x \<in> set (ls ! i)"
  proof (rule ccontr)
    assume "x \<notin> set (ls ! i)"
    with assms have "m x = None" unfolding queues_ok_def by metis
    moreover have "represents m (qs ! i) (ls ! i)" using assms by (simp add: queues_ok_def)
    ultimately show False using e \<open>x \<notin> set (ls ! i)\<close> by (auto simp: is_enqueued_def represents_def split: if_splits)
  qed
next
  assume x: "x \<in> set (ls ! i)"
  have r: "represents m (qs ! i) (ls ! i)" using assms by (simp add: queues_ok_def)
  show "is_enqueued x (qs ! i) m"
  proof (cases "x = last (ls ! i)")
    case True
    with r x show ?thesis by (auto simp: is_enqueued_def represents_def)
  next
    case False
    with r x path_next show ?thesis by (auto simp: is_enqueued_def represents_def)
  qed
qed

text \<open>Any program of pushes, pops and moves of whole queues over the shared links behaves as on
  lists: the front, the emptiness and the membership test of every queue are those of its
  list.\<close>
theorem op_queues_are_lists:
  assumes "all_allowed xs (replicate n [])" "i < n"
  shows "let (qs, m) = fold queues_step xs (replicate n new_op_queue, \<lambda>_. None); ls = fold lists_step xs (replicate n []) in
    q_front (qs ! i) = (if ls ! i = [] then None else Some (hd (ls ! i))) \<and> (op_empty (qs ! i) \<longleftrightarrow> ls ! i = []) \<and>
    (\<forall>x. (\<forall>j < n. j \<noteq> i \<longrightarrow> x \<notin> set (ls ! j)) \<longrightarrow> (is_enqueued x (qs ! i) m \<longleftrightarrow> x \<in> set (ls ! i)))"
proof -
  have start: "queues_ok (\<lambda>_. None) (replicate n new_op_queue) (replicate n [])"
    by (simp add: queues_ok_def represents_def new_op_queue_def)
  obtain qs m where r: "fold queues_step xs (replicate n new_op_queue, \<lambda>_. None) = (qs, m)" by fastforce
  let ?ls = "fold lists_step xs (replicate n [])"
  have ok: "queues_ok m qs ?ls" using queues_run_ok [OF start assms(1)] by (simp add: r)
  have step_len: "length (lists_step x ls) = length ls" for x ls by (cases x) simp_all
  have "length (fold lists_step xs ls) = length ls" for ls by (induction xs arbitrary: ls) (simp_all add: step_len)
  then have len: "length ?ls = n" by simp
  have "represents m (qs ! i) (?ls ! i)" using ok len assms(2) by (simp add: queues_ok_def)
  then have "q_front (qs ! i) = (if ?ls ! i = [] then None else Some (hd (?ls ! i)))"
    by (cases "?ls ! i") (simp_all add: represents_def)
  with is_enqueued_iff [OF ok, of i] len assms(2) show ?thesis by (simp add: r Let_def op_empty_def)
qed

lemma op_queues_are_lists_witness:
  "let (qs, m) = fold queues_step [PushOp 0 5, PushOp 1 6, PushOp 0 7, Splice 1 0, PopOp 1] (replicate 2 new_op_queue, \<lambda>_. None);
       ls = fold lists_step [PushOp 0 5, PushOp 1 6, PushOp 0 7, Splice 1 0, PopOp 1] (replicate 2 []) in
    q_front (qs ! 1) = (if ls ! 1 = [] then None else Some (hd (ls ! 1))) \<and> (op_empty (qs ! 1) \<longleftrightarrow> ls ! 1 = []) \<and>
    (\<forall>x. (\<forall>j < 2. j \<noteq> 1 \<longrightarrow> x \<notin> set (ls ! j)) \<longrightarrow> (is_enqueued x (qs ! 1) m \<longleftrightarrow> x \<in> set (ls ! 1)))"
  by (rule op_queues_are_lists) (simp_all add: numeral_2_eq_2)

text \<open>The destructor ends and destroys every operation of the queue once, in order.\<close>
theorem destroy_queue_all:
  assumes "represents m q xs"
  shows "\<exists>m'. destroy_queue q m = Some (xs, m') \<and> (\<forall>x \<in> set xs. m' x = None) \<and> (\<forall>x. x \<notin> set xs \<longrightarrow> m' x = m x)"
  using assms
proof (induction xs arbitrary: q m)
  case Nil
  then have "q_front q = None" by (simp add: represents_def)
  then show ?case by (subst destroy_queue.simps) simp
next
  case (Cons x xs)
  then have f: "q_front q = Some x" "path m (m x) xs" "x \<notin> set xs" "distinct xs"
    "q_back q = Some (last (x # xs))" by (auto simp: represents_def)
  let ?q = "\<lparr>q_front = m x, q_back = (if m x = None then None else q_back q)\<rparr>" let ?m = "m(x := None)"
  have pop: "op_pop q m = (?q, ?m)" using f(1) by (simp add: op_pop_def)
  have "m x = None \<longleftrightarrow> xs = []" using f(2) path_None by (metis path.simps(1) path.simps(2) list.exhaust option.distinct(1))
  then have "represents ?m ?q xs" using f by (auto simp: represents_def path_update simp del: fun_upd_apply)
  from Cons.IH [OF this] obtain m' where "destroy_queue ?q ?m = Some (xs, m')" "\<forall>y \<in> set xs. m' y = None" "\<forall>y. y \<notin> set xs \<longrightarrow> m' y = ?m y" by blast
  then show ?case using f pop by (subst destroy_queue.simps) auto
qed

lemma destroy_queue_all_witness:
  "\<exists>m'. destroy_queue \<lparr>q_front = Some 3, q_back = Some 5\<rparr> ((\<lambda>_. None)(3 := Some 5)) = Some ([3, 5], m') \<and>
    (\<forall>x \<in> set [3, 5]. m' x = None) \<and> (\<forall>x. x \<notin> set [3, 5] \<longrightarrow> m' x = ((\<lambda>_. None)(3 := Some 5)) x)"
  by (rule destroy_queue_all) (simp add: represents_def)

end
