(* ===== verification/AsioScheduler.thy ===== *)
theory AsioScheduler
  imports Prelude "HOL-Library.Multiset"
begin

text \<open>
  The event loop of the Asio library (\<open>detail/scheduler.hpp\<close>, \<open>detail/impl/scheduler.ipp\<close>), which
  \<open>io_context::run\<close> is: any number of threads run handlers from one queue, and handlers and other
  threads post to it. What a thread does while it holds the mutex is one step; the counter
  of outstanding work, the signal after an unlock, the handlers and the task are steps of
  their own. The mutex is enabled, and a handler does not call a run function. The task (the
  reactor) is what \<open>detail/scheduler_task.hpp\<close> documents: it runs until interrupted or
  until events are ready, and not longer when it is told not to wait.
\<close>

section \<open>State\<close>

type_synonym handler = nat

datatype sched_op = TaskOp | HandlerOp handler

datatype run_mode = RunMode | RunOneMode | WaitOneMode | PollMode | PollOneMode

text \<open>How long the task may wait for events.\<close>

datatype task_wait = NoWait | Forever | Timed

text \<open>Where a thread is: not in a run function; at the mutex; in the wait of the event and back from it;
  in the task and after it; in a handler; after a handler, about to stop the scheduler or to
  publish its private queue (\<open>True\<close> when the run function goes on); about to push operations (called from
  a handler or from outside).\<close>

datatype sched_pc =
    Outside
  | WantLock
  | Asleep
  | Woken
  | InTask task_wait
  | TaskRelock
  | InHandler handler
  | CleanStop bool
  | CleanPush bool
  | Posting "handler option" "handler list"

text \<open>\<open>thread_info\<close> and the local variables of the run functions.\<close>

record sched_thread =
  mode :: run_mode
  pc :: sched_pc
  private_op_queue :: "handler list"
  private_outstanding_work :: int
  owes_signal :: bool
  ran :: nat

text \<open>\<open>event_state\<close> is \<open>state_\<close> of the event: the lowest bit and twice the number of
  waiters. \<open>task_signal\<close> is an interrupt that the task has not met yet. \<open>pending\<close> are the operations that the
  task works on. \<open>posted\<close>, \<open>called\<close> and \<open>destroyed\<close> record the history.\<close>

record scheduler =
  one_thread :: bool
  op_queue :: "sched_op list"
  outstanding_work :: int
  stopped :: bool
  has_task :: bool
  task_interrupted :: bool
  event_state :: nat
  task_signal :: bool
  pending :: "handler list"
  threads :: "sched_thread list"
  shut_down :: bool
  posted :: "handler list"
  called :: "handler list"
  destroyed :: "handler list"

definition outside_thread :: sched_thread where
  "outside_thread = \<lparr>mode = RunMode, pc = Outside, private_op_queue = [], private_outstanding_work = 0,
     owes_signal = False, ran = 0\<rparr>"

definition new_scheduler :: "bool \<Rightarrow> nat \<Rightarrow> scheduler" where
  "new_scheduler one n = \<lparr>one_thread = one, op_queue = [], outstanding_work = 0, stopped = False, has_task = False,
     task_interrupted = True, event_state = 0, task_signal = False, pending = [],
     threads = replicate n outside_thread, shut_down = False, posted = [], called = [], destroyed = []\<rparr>"

definition set_thread :: "nat \<Rightarrow> (sched_thread \<Rightarrow> sched_thread) \<Rightarrow> scheduler \<Rightarrow> scheduler" where
  "set_thread t f s = s\<lparr>threads := (threads s)[t := f (threads s ! t)]\<rparr>"

definition goto :: "nat \<Rightarrow> sched_pc \<Rightarrow> scheduler \<Rightarrow> scheduler" where
  "goto t p = set_thread t (\<lambda>th. th\<lparr>pc := p\<rparr>)"

section \<open>The event\<close>

definition signal_bit :: "nat \<Rightarrow> nat" where
  "signal_bit st = or st 1"

definition event_clear :: "nat \<Rightarrow> nat" where
  "event_clear st = 2 * (st div 2)"

definition wake :: "sched_thread \<Rightarrow> sched_thread" where
  "wake th = (if pc th = Asleep then th\<lparr>pc := Woken\<rparr> else th)"

definition signal_all :: "scheduler \<Rightarrow> scheduler" where
  "signal_all s = s\<lparr>event_state := signal_bit (event_state s), threads := List.map wake (threads s)\<rparr>"

text \<open>The signal itself comes after the unlock: the thread owes it.\<close>

definition unlock_and_signal_one :: "nat \<Rightarrow> scheduler \<Rightarrow> scheduler" where
  "unlock_and_signal_one t s = (let st = signal_bit (event_state s); s' = s\<lparr>event_state := st\<rparr>
     in if st > 1 then set_thread t (\<lambda>th. th\<lparr>owes_signal := True\<rparr>) s' else s')"

definition maybe_unlock_and_signal_one :: "nat \<Rightarrow> scheduler \<Rightarrow> bool \<times> scheduler" where
  "maybe_unlock_and_signal_one t s = (let st = signal_bit (event_state s); s' = s\<lparr>event_state := st\<rparr>
     in if st > 1 then (True, set_thread t (\<lambda>th. th\<lparr>owes_signal := True\<rparr>) s') else (False, s'))"

text \<open>\<open>wait\<close> up to the sleep, after \<open>clear\<close> or in its own loop.\<close>

definition event_sleep :: "nat \<Rightarrow> scheduler \<Rightarrow> scheduler" where
  "event_sleep t s = goto t Asleep (s\<lparr>event_state := event_state s + 2\<rparr>)"

section \<open>Waking and stopping\<close>

definition interrupt_task :: "scheduler \<Rightarrow> scheduler" where
  "interrupt_task s = (if \<not> task_interrupted s \<and> has_task s
     then s\<lparr>task_interrupted := True, task_signal := True\<rparr> else s)"

definition wake_one_thread_and_unlock :: "nat \<Rightarrow> scheduler \<Rightarrow> scheduler" where
  "wake_one_thread_and_unlock t s = (case maybe_unlock_and_signal_one t s of
       (True, s') \<Rightarrow> s'
     | (False, s') \<Rightarrow> interrupt_task s')"

definition stop_all_threads :: "scheduler \<Rightarrow> scheduler" where
  "stop_all_threads s = interrupt_task (signal_all (s\<lparr>stopped := True\<rparr>))"

definition init_task :: "nat \<Rightarrow> scheduler \<Rightarrow> scheduler" where
  "init_task t s = (if shut_down s \<or> has_task s then s
     else wake_one_thread_and_unlock t (s\<lparr>has_task := True, op_queue := op_queue s @ [TaskOp]\<rparr>))"

section \<open>Posting\<close>

text \<open>A thread that is in a run function (\<open>thread_call_stack::contains\<close>).\<close>

definition can_dispatch :: "nat \<Rightarrow> scheduler \<Rightarrow> bool" where
  "can_dispatch t s = (pc (threads s ! t) \<noteq> Outside)"

text \<open>The caller is in a handler or outside; \<open>None\<close> when the thread does something else. \<open>caller\<close> is the
  handler it is in.\<close>

definition caller :: "nat \<Rightarrow> scheduler \<Rightarrow> handler option option" where
  "caller t s = (case pc (threads s ! t) of Outside \<Rightarrow> Some None | InHandler g \<Rightarrow> Some (Some g) | _ \<Rightarrow> None)"

definition post_immediate_completions :: "nat \<Rightarrow> handler list \<Rightarrow> bool \<Rightarrow> handler option \<Rightarrow> scheduler \<Rightarrow> scheduler" where
  "post_immediate_completions t hs is_continuation g s =
     (if (one_thread s \<or> is_continuation) \<and> can_dispatch t s
      then set_thread t (\<lambda>th. th\<lparr>private_outstanding_work := private_outstanding_work th + int (length hs),
             private_op_queue := private_op_queue th @ hs\<rparr>) s
      else goto t (Posting g hs) (s\<lparr>outstanding_work := outstanding_work s + int (length hs)\<rparr>))"

text \<open>The work was counted when the operations started.\<close>

definition post_deferred_completions :: "nat \<Rightarrow> handler list \<Rightarrow> handler option \<Rightarrow> scheduler \<Rightarrow> scheduler" where
  "post_deferred_completions t hs g s =
     (if hs = [] then s
      else if one_thread s \<and> can_dispatch t s
      then set_thread t (\<lambda>th. th\<lparr>private_op_queue := private_op_queue th @ hs\<rparr>) s
      else goto t (Posting g hs) s)"

definition do_dispatch :: "nat \<Rightarrow> handler \<Rightarrow> handler option \<Rightarrow> scheduler \<Rightarrow> scheduler" where
  "do_dispatch t h g s = goto t (Posting g [h]) (s\<lparr>outstanding_work := outstanding_work s + 1\<rparr>)"

text \<open>What the three do under the mutex.\<close>

definition post_push :: "nat \<Rightarrow> handler list \<Rightarrow> handler option \<Rightarrow> scheduler \<Rightarrow> scheduler" where
  "post_push t hs g s = wake_one_thread_and_unlock t
     (goto t (case g of None \<Rightarrow> Outside | Some h \<Rightarrow> InHandler h) (s\<lparr>op_queue := op_queue s @ List.map HandlerOp hs\<rparr>))"

section \<open>Running\<close>

text \<open>The first operation is a handler: it is popped and another thread is woken for the others.\<close>

definition call_front :: "nat \<Rightarrow> handler \<Rightarrow> sched_op list \<Rightarrow> scheduler \<Rightarrow> scheduler" where
  "call_front t h q s = (let s1 = s\<lparr>op_queue := q, called := called s @ [h]\<rparr>
     in goto t (InHandler h) (if q \<noteq> [] \<and> \<not> one_thread s then wake_one_thread_and_unlock t s1 else s1))"

text \<open>The first operation is the task.\<close>

definition enter_task :: "nat \<Rightarrow> task_wait \<Rightarrow> sched_op list \<Rightarrow> scheduler \<Rightarrow> scheduler" where
  "enter_task t w q s = (let s1 = s\<lparr>op_queue := q, task_interrupted := (q \<noteq> [])\<rparr>
     in goto t (InTask (if q \<noteq> [] then NoWait else w))
          (if q \<noteq> [] \<and> \<not> one_thread s then unlock_and_signal_one t s1 else s1))"

definition do_run_one :: "nat \<Rightarrow> scheduler \<Rightarrow> scheduler" where
  "do_run_one t s = (if stopped s then goto t Outside s else
     case op_queue s of
       [] \<Rightarrow> event_sleep t (s\<lparr>event_state := event_clear (event_state s)\<rparr>)
     | TaskOp # q \<Rightarrow> enter_task t Forever q s
     | HandlerOp h # q \<Rightarrow> call_front t h q s)"

definition do_poll_one :: "nat \<Rightarrow> scheduler \<Rightarrow> scheduler" where
  "do_poll_one t s = (if stopped s then goto t Outside s else
     case op_queue s of
       [] \<Rightarrow> goto t Outside s
     | TaskOp # q \<Rightarrow> goto t (InTask NoWait) (s\<lparr>op_queue := q\<rparr>)
     | HandlerOp h # q \<Rightarrow> call_front t h q s)"

definition do_wait_one :: "nat \<Rightarrow> scheduler \<Rightarrow> scheduler" where
  "do_wait_one t s = (if stopped s then goto t Outside s else
     case op_queue s of
       [] \<Rightarrow> event_sleep t (s\<lparr>event_state := event_clear (event_state s)\<rparr>)
     | TaskOp # q \<Rightarrow> enter_task t Timed q s
     | HandlerOp h # q \<Rightarrow> call_front t h q s)"

definition run_body :: "nat \<Rightarrow> scheduler \<Rightarrow> scheduler" where
  "run_body t s = (case mode (threads s ! t) of
       RunMode \<Rightarrow> do_run_one t s | RunOneMode \<Rightarrow> do_run_one t s
     | WaitOneMode \<Rightarrow> do_wait_one t s
     | PollMode \<Rightarrow> do_poll_one t s | PollOneMode \<Rightarrow> do_poll_one t s)"

text \<open>Back from the event: \<open>wait\<close> looks at the bit again, \<open>wait_for_usec\<close> does not, and \<open>do_wait_one\<close> takes
  what is there, without a wait in the task.\<close>

definition after_event :: "nat \<Rightarrow> scheduler \<Rightarrow> scheduler" where
  "after_event t s = (let s1 = s\<lparr>event_state := event_state s - 2\<rparr> in
     if mode (threads s ! t) = WaitOneMode then
       (case op_queue s of
          [] \<Rightarrow> goto t Outside s1
        | TaskOp # q \<Rightarrow> enter_task t NoWait q s1
        | HandlerOp h # q \<Rightarrow> call_front t h q s1)
     else if even (event_state s1) then event_sleep t s1
     else run_body t s1)"

text \<open>The end of the task: the completed operations go behind the queue and the task behind them. \<open>run\<close> looks at
  the queue as before; the others run one handler, or leave when the task is first again.\<close>

definition task_cleanup :: "nat \<Rightarrow> scheduler \<Rightarrow> scheduler" where
  "task_cleanup t s = set_thread t (\<lambda>th. th\<lparr>private_op_queue := []\<rparr>)
     (s\<lparr>task_interrupted := True,
        op_queue := op_queue s @ List.map HandlerOp (private_op_queue (threads s ! t)) @ [TaskOp]\<rparr>)"

definition after_task :: "nat \<Rightarrow> scheduler \<Rightarrow> scheduler" where
  "after_task t s = (let s1 = task_cleanup t s in
     if mode (threads s ! t) = RunMode \<or> mode (threads s ! t) = RunOneMode then do_run_one t s1
     else (case op_queue s1 of
          [] \<Rightarrow> goto t Outside s1
        | TaskOp # q \<Rightarrow> goto t Outside
            (if mode (threads s ! t) = WaitOneMode \<and> one_thread s then s1 else snd (maybe_unlock_and_signal_one t s1))
        | HandlerOp h # q \<Rightarrow> call_front t h q s1))"

text \<open>\<open>run\<close> and \<open>poll\<close> go on after a handler, unless it has thrown.\<close>

definition goes_on :: "run_mode \<Rightarrow> bool" where
  "goes_on m = (m = RunMode \<or> m = PollMode)"

definition after_clean :: "nat \<Rightarrow> bool \<Rightarrow> scheduler \<Rightarrow> scheduler" where
  "after_clean t again s = goto t
     (if private_op_queue (threads s ! t) \<noteq> [] then CleanPush again else if again then WantLock else Outside) s"

definition size_max :: nat where "size_max = 2 ^ 64 - 1"

text \<open>\<open>work_cleanup\<close> without the mutex, with \<open>work_finished\<close>.\<close>

definition work_cleanup :: "nat \<Rightarrow> bool \<Rightarrow> scheduler \<Rightarrow> scheduler" where
  "work_cleanup t thrown s = (let th = threads s ! t; p = private_outstanding_work th;
       w = (if p > 1 then outstanding_work s + (p - 1) else if p < 1 then outstanding_work s - 1 else outstanding_work s);
       again = (goes_on (mode th) \<and> \<not> thrown);
       s1 = set_thread t (\<lambda>th. th\<lparr>private_outstanding_work := 0, ran := (if thrown \<or> ran th = size_max then ran th else ran th + 1)\<rparr>)
         (s\<lparr>outstanding_work := w\<rparr>)
     in if p < 1 \<and> w = 0 then goto t (CleanStop again) s1 else after_clean t again s1)"

text \<open>And with it.\<close>

definition clean_push :: "nat \<Rightarrow> bool \<Rightarrow> scheduler \<Rightarrow> scheduler" where
  "clean_push t again s = (let s1 = set_thread t (\<lambda>th. th\<lparr>private_op_queue := []\<rparr>)
       (s\<lparr>op_queue := op_queue s @ List.map HandlerOp (private_op_queue (threads s ! t))\<rparr>)
     in if again then run_body t s1 else goto t Outside s1)"

text \<open>The beginning of the run functions.\<close>

definition enter :: "nat \<Rightarrow> run_mode \<Rightarrow> scheduler \<Rightarrow> scheduler" where
  "enter t m s = set_thread t (\<lambda>th. th\<lparr>mode := m, private_op_queue := [], private_outstanding_work := 0, ran := 0,
     pc := (if outstanding_work s = 0 then CleanStop False else WantLock)\<rparr>) s"

section \<open>Steps\<close>

text \<open>What a thread that wants the mutex does when it gets it.\<close>

definition acquire :: "nat \<Rightarrow> scheduler \<Rightarrow> scheduler option" where
  "acquire t s = (case pc (threads s ! t) of
       WantLock \<Rightarrow> Some (run_body t s)
     | Woken \<Rightarrow> Some (after_event t s)
     | TaskRelock \<Rightarrow> Some (after_task t s)
     | CleanStop again \<Rightarrow> Some (after_clean t again (stop_all_threads s))
     | CleanPush again \<Rightarrow> Some (clean_push t again s)
     | Posting g hs \<Rightarrow> Some (post_push t hs g s)
     | _ \<Rightarrow> None)"

text \<open>The task returns with completed operations, or because it may not wait (longer), or was
  interrupted.\<close>

definition task_returns :: "nat \<Rightarrow> handler list \<Rightarrow> scheduler \<Rightarrow> scheduler option" where
  "task_returns t hs s = (case pc (threads s ! t) of
       InTask w \<Rightarrow> (if mset hs \<subseteq># mset (pending s) \<and> (hs \<noteq> [] \<or> w \<noteq> Forever \<or> task_signal s)
         then Some (set_thread t (\<lambda>th. th\<lparr>private_op_queue := private_op_queue th @ hs, private_outstanding_work := 0, pc := TaskRelock\<rparr>)
           (s\<lparr>task_signal := False, pending := fold remove1 hs (pending s),
              outstanding_work := (if private_outstanding_work (threads s ! t) > 0
                then outstanding_work s + private_outstanding_work (threads s ! t) else outstanding_work s)\<rparr>))
         else None)
     | _ \<Rightarrow> None)"

text \<open>\<open>shutdown\<close> comes when no thread is in a run function; it destroys the handlers in the queue.\<close>

fun handlers_of :: "sched_op list \<Rightarrow> handler list" where
  "handlers_of [] = []"
| "handlers_of (TaskOp # q) = handlers_of q"
| "handlers_of (HandlerOp h # q) = h # handlers_of q"

definition scheduler_shutdown :: "scheduler \<Rightarrow> scheduler option" where
  "scheduler_shutdown s = (if \<forall>th \<in> set (threads s). pc th = Outside \<and> \<not> owes_signal th
     then Some (s\<lparr>shut_down := True, destroyed := destroyed s @ handlers_of (op_queue s), op_queue := [], has_task := False\<rparr>)
     else None)"

datatype sched_action =
    Enter nat run_mode
  | Acquire nat
  | Wake nat
  | Signal nat nat
  | TaskReturn nat "handler list"
  | Post nat "handler list" bool
  | Defer nat "handler list"
  | Dispatch nat handler
  | StartAsync nat handler
  | HandlerReturn nat bool
  | Stop nat
  | Restart nat
  | InitTask nat
  | Shutdown

fun actor :: "sched_action \<Rightarrow> nat" where
  "actor (Enter t m) = t" | "actor (Acquire t) = t" | "actor (Wake t) = t" | "actor (Signal t u) = t"
| "actor (TaskReturn t hs) = t" | "actor (Post t hs c) = t" | "actor (Defer t hs) = t" | "actor (Dispatch t h) = t"
| "actor (StartAsync t h) = t" | "actor (HandlerReturn t e) = t" | "actor (Stop t) = t" | "actor (Restart t) = t"
| "actor (InitTask t) = t" | "actor Shutdown = 0"

text \<open>What a handler, or a thread outside, calls. An asynchronous operation counts its work when it
  starts; \<open>Defer\<close> is the end of some of them that the task does not report (a cancellation).\<close>

fun call_step :: "nat \<Rightarrow> handler option \<Rightarrow> sched_action \<Rightarrow> scheduler \<Rightarrow> scheduler option" where
  "call_step t g (Post _ hs c) s = Some (post_immediate_completions t hs c g (s\<lparr>posted := posted s @ hs\<rparr>))"
| "call_step t g (Dispatch _ h) s = Some (do_dispatch t h g (s\<lparr>posted := posted s @ [h]\<rparr>))"
| "call_step t g (Defer _ hs) s = (if mset hs \<subseteq># mset (pending s)
     then Some (post_deferred_completions t hs g (s\<lparr>pending := fold remove1 hs (pending s)\<rparr>)) else None)"
| "call_step t g (StartAsync _ h) s =
     Some (s\<lparr>posted := posted s @ [h], pending := pending s @ [h], outstanding_work := outstanding_work s + 1\<rparr>)"
| "call_step t g (Stop _) s = Some (stop_all_threads s)"
| "call_step t g (Restart _) s = Some (s\<lparr>stopped := False\<rparr>)"
| "call_step t g (InitTask _) s = Some (init_task t s)"
| "call_step t g _ s = None"

fun thread_step :: "scheduler \<Rightarrow> sched_action \<Rightarrow> scheduler option" where
  "thread_step s (Enter t m) = (if pc (threads s ! t) = Outside then Some (enter t m s) else None)"
| "thread_step s (Acquire t) = acquire t s"
| "thread_step s (TaskReturn t hs) = task_returns t hs s"
| "thread_step s (HandlerReturn t thrown) = (case pc (threads s ! t) of
     InHandler h \<Rightarrow> Some (work_cleanup t thrown s) | _ \<Rightarrow> None)"
| "thread_step s a = (case caller (actor a) s of None \<Rightarrow> None | Some g \<Rightarrow> call_step (actor a) g a s)"

text \<open>A wait may end without a signal; a signal wakes one of the threads that wait. A thread that owes a
  signal does nothing else first.\<close>

fun sched_step :: "scheduler \<Rightarrow> sched_action \<Rightarrow> scheduler option" where
  "sched_step s (Wake t) = (if t < length (threads s) \<and> pc (threads s ! t) = Asleep then Some (set_thread t wake s) else None)"
| "sched_step s (Signal t u) = (if t < length (threads s) \<and> owes_signal (threads s ! t) \<and> u < length (threads s) \<and>
       (pc (threads s ! u) = Asleep \<or> (\<forall>th \<in> set (threads s). pc th \<noteq> Asleep))
     then Some (set_thread u wake (set_thread t (\<lambda>th. th\<lparr>owes_signal := False\<rparr>) s)) else None)"
| "sched_step s Shutdown = scheduler_shutdown s"
| "sched_step s a = (if actor a < length (threads s) \<and> \<not> owes_signal (threads s ! actor a) then thread_step s a else None)"

section \<open>What the auxiliary operations change\<close>

lemma set_thread_fields [simp]:
  "one_thread (set_thread t f s) = one_thread s" "op_queue (set_thread t f s) = op_queue s"
  "outstanding_work (set_thread t f s) = outstanding_work s" "stopped (set_thread t f s) = stopped s"
  "has_task (set_thread t f s) = has_task s" "task_interrupted (set_thread t f s) = task_interrupted s"
  "event_state (set_thread t f s) = event_state s" "task_signal (set_thread t f s) = task_signal s"
  "pending (set_thread t f s) = pending s" "shut_down (set_thread t f s) = shut_down s"
  "posted (set_thread t f s) = posted s" "called (set_thread t f s) = called s" "destroyed (set_thread t f s) = destroyed s"
  "threads (set_thread t f s) = (threads s)[t := f (threads s ! t)]"
  by (simp_all add: set_thread_def)

definition owe :: "nat \<Rightarrow> sched_thread \<Rightarrow> sched_thread" where
  "owe st th = th\<lparr>owes_signal := (owes_signal th \<or> 1 < signal_bit st)\<rparr>"

lemma owe_fields [simp]:
  "mode (owe st th) = mode th" "pc (owe st th) = pc th" "private_op_queue (owe st th) = private_op_queue th"
  "private_outstanding_work (owe st th) = private_outstanding_work th" "ran (owe st th) = ran th"
  by (simp_all add: owe_def)

lemma maybe_signal_eq:
  "maybe_unlock_and_signal_one t s = (1 < signal_bit (event_state s),
     set_thread t (owe (event_state s)) (s\<lparr>event_state := signal_bit (event_state s)\<rparr>))"
proof -
  have "(threads s)[t := threads s ! t] = threads s"
    by (cases "t < length (threads s)") simp_all
  then show ?thesis
    by (simp add: maybe_unlock_and_signal_one_def set_thread_def owe_def Let_def)
qed

lemma unlock_and_signal_eq: "unlock_and_signal_one t s = snd (maybe_unlock_and_signal_one t s)"
  by (simp add: unlock_and_signal_one_def maybe_unlock_and_signal_one_def Let_def)

lemma signal_fields [simp]:
  "one_thread (unlock_and_signal_one t s) = one_thread s" "op_queue (unlock_and_signal_one t s) = op_queue s"
  "outstanding_work (unlock_and_signal_one t s) = outstanding_work s" "stopped (unlock_and_signal_one t s) = stopped s"
  "has_task (unlock_and_signal_one t s) = has_task s" "task_interrupted (unlock_and_signal_one t s) = task_interrupted s"
  "event_state (unlock_and_signal_one t s) = signal_bit (event_state s)" "task_signal (unlock_and_signal_one t s) = task_signal s"
  "pending (unlock_and_signal_one t s) = pending s" "shut_down (unlock_and_signal_one t s) = shut_down s"
  "posted (unlock_and_signal_one t s) = posted s" "called (unlock_and_signal_one t s) = called s"
  "destroyed (unlock_and_signal_one t s) = destroyed s"
  "threads (unlock_and_signal_one t s) = (threads s)[t := owe (event_state s) (threads s ! t)]"
  by (simp_all add: unlock_and_signal_eq maybe_signal_eq)

lemma wake_one_fields [simp]:
  "one_thread (wake_one_thread_and_unlock t s) = one_thread s" "op_queue (wake_one_thread_and_unlock t s) = op_queue s"
  "outstanding_work (wake_one_thread_and_unlock t s) = outstanding_work s" "stopped (wake_one_thread_and_unlock t s) = stopped s"
  "has_task (wake_one_thread_and_unlock t s) = has_task s"
  "event_state (wake_one_thread_and_unlock t s) = signal_bit (event_state s)"
  "task_interrupted (wake_one_thread_and_unlock t s) = (task_interrupted s \<or> has_task s \<and> \<not> 1 < signal_bit (event_state s))"
  "task_signal (wake_one_thread_and_unlock t s) = (task_signal s \<or> \<not> task_interrupted s \<and> has_task s \<and> \<not> 1 < signal_bit (event_state s))"
  "pending (wake_one_thread_and_unlock t s) = pending s" "shut_down (wake_one_thread_and_unlock t s) = shut_down s"
  "posted (wake_one_thread_and_unlock t s) = posted s" "called (wake_one_thread_and_unlock t s) = called s"
  "destroyed (wake_one_thread_and_unlock t s) = destroyed s"
  "threads (wake_one_thread_and_unlock t s) = (threads s)[t := owe (event_state s) (threads s ! t)]"
  by (auto simp: wake_one_thread_and_unlock_def maybe_signal_eq interrupt_task_def split: bool.splits)

lemma stop_fields [simp]:
  "one_thread (stop_all_threads s) = one_thread s" "op_queue (stop_all_threads s) = op_queue s"
  "outstanding_work (stop_all_threads s) = outstanding_work s" "stopped (stop_all_threads s)"
  "has_task (stop_all_threads s) = has_task s"
  "event_state (stop_all_threads s) = signal_bit (event_state s)"
  "task_interrupted (stop_all_threads s) = (task_interrupted s \<or> has_task s)"
  "task_signal (stop_all_threads s) = (task_signal s \<or> \<not> task_interrupted s \<and> has_task s)"
  "pending (stop_all_threads s) = pending s" "shut_down (stop_all_threads s) = shut_down s"
  "posted (stop_all_threads s) = posted s" "called (stop_all_threads s) = called s" "destroyed (stop_all_threads s) = destroyed s"
  "threads (stop_all_threads s) = List.map wake (threads s)"
  by (auto simp: stop_all_threads_def interrupt_task_def signal_all_def)

lemma wake_fields [simp]:
  "mode (wake th) = mode th" "private_op_queue (wake th) = private_op_queue th"
  "private_outstanding_work (wake th) = private_outstanding_work th" "owes_signal (wake th) = owes_signal th"
  "ran (wake th) = ran th" "pc (wake th) = (if pc th = Asleep then Woken else pc th)"
  by (simp_all add: wake_def)

lemma signal_bit_simps [simp]:
  "odd (signal_bit st)" "signal_bit st div 2 = st div 2" "even (event_clear st)" "event_clear st div 2 = st div 2"
  by (simp_all add: signal_bit_def event_clear_def or_Suc_0_eq)

lemma signal_waiters: "1 < signal_bit st \<longleftrightarrow> 0 < st div 2"
proof -
  have "signal_bit st = 2 * (st div 2) + 1"
    by (simp add: signal_bit_def or_Suc_0_eq)
  then show ?thesis by simp
qed

section \<open>Accounts\<close>

text \<open>What a thread contributes to the copies of a handler, to the counted work, to the task and to the
  waiters of the event.\<close>

definition copies :: "handler \<Rightarrow> sched_thread \<Rightarrow> int" where
  "copies h th = int (count_list (private_op_queue th) h) + (case pc th of Posting g hs \<Rightarrow> int (count_list hs h) | _ \<Rightarrow> 0)"

definition jobs :: "sched_thread \<Rightarrow> int" where
  "jobs th = int (length (private_op_queue th)) +
     (case pc th of InHandler g \<Rightarrow> 1 | Posting g hs \<Rightarrow> int (length hs) + (if g = None then 0 else 1) | _ \<Rightarrow> 0)"

definition tasks :: "sched_thread \<Rightarrow> int" where
  "tasks th = (case pc th of InTask w \<Rightarrow> 1 | TaskRelock \<Rightarrow> 1 | _ \<Rightarrow> 0)"

definition waits :: "sched_thread \<Rightarrow> int" where
  "waits th = (case pc th of Asleep \<Rightarrow> 1 | Woken \<Rightarrow> 1 | _ \<Rightarrow> 0)"

definition total :: "(sched_thread \<Rightarrow> int) \<Rightarrow> sched_thread list \<Rightarrow> int" where
  "total f ths = sum_list (List.map f ths)"

lemma total_update [simp]: "t < length ths \<Longrightarrow> total f (ths[t := th]) = total f ths - f (ths ! t) + f th"
proof (induction ths arbitrary: t)
  case (Cons x ths)
  then show ?case by (cases t) (auto simp: total_def)
qed (simp add: total_def)

lemma total_map_wake [simp]: "(\<And>th. f (wake th) = f th) \<Longrightarrow> total f (List.map wake ths) = total f ths"
  by (simp add: total_def comp_def)

lemma account_wake [simp]:
  "copies h (wake th) = copies h th" "jobs (wake th) = jobs th" "tasks (wake th) = tasks th" "waits (wake th) = waits th"
  by (simp_all add: copies_def jobs_def tasks_def waits_def split: sched_pc.split)

lemma account_owe [simp]:
  "copies h (owe st th) = copies h th" "jobs (owe st th) = jobs th" "tasks (owe st th) = tasks th" "waits (owe st th) = waits th"
  by (simp_all add: copies_def jobs_def tasks_def waits_def split: sched_pc.split)

lemma handlers_of_append [simp]: "handlers_of (p @ q) = handlers_of p @ handlers_of q"
  by (induction p rule: handlers_of.induct) simp_all

lemma handlers_of_map [simp]: "handlers_of (List.map HandlerOp hs) = hs"
  by (induction hs) simp_all

lemma count_fold_remove1: "mset hs \<subseteq># mset (xs :: handler list) \<Longrightarrow>
    int (count_list (fold remove1 hs xs) h) = int (count_list xs h) - int (count_list hs h) \<and>
    int (length (fold remove1 hs xs)) = int (length xs) - int (length hs)"
proof -
  assume le: "mset hs \<subseteq># mset xs"
  have m: "mset (fold remove1 hs xs) = mset xs - mset hs" for xs :: "nat list"
    by (induction hs arbitrary: xs) simp_all
  have "count_list (fold remove1 hs xs) h = count_list xs h - count_list hs h"
    by (metis m count_mset count_diff)
  moreover have "count_list hs h \<le> count_list xs h"
    using le by (metis count_mset mset_subset_eq_count)
  moreover have "length (fold remove1 hs xs) = length xs - length hs"
    by (metis m le size_Diff_submset size_mset)
  moreover have "length hs \<le> length xs"
    using le by (metis size_mset size_mset_mono)
  ultimately show ?thesis by simp
qed

definition thread_ok :: "sched_thread \<Rightarrow> bool" where
  "thread_ok th = (0 \<le> private_outstanding_work th \<and> private_outstanding_work th \<le> int (length (private_op_queue th)) \<and>
     (case pc th of
        InHandler h \<Rightarrow> True
      | Posting g hs \<Rightarrow> g = None \<longrightarrow> private_op_queue th = [] \<and> private_outstanding_work th = 0
      | TaskRelock \<Rightarrow> private_outstanding_work th = 0
      | CleanStop again \<Rightarrow> private_outstanding_work th = 0
      | CleanPush again \<Rightarrow> private_outstanding_work th = 0
      | _ \<Rightarrow> private_op_queue th = [] \<and> private_outstanding_work th = 0))"

definition threads_ok :: "scheduler \<Rightarrow> bool" where
  "threads_ok s = (\<forall>th \<in> set (threads s). thread_ok th)"

definition all_jobs :: "scheduler \<Rightarrow> int" where
  "all_jobs s = int (length (handlers_of (op_queue s))) + total jobs (threads s) + int (length (pending s)) + int (length (destroyed s))"

fun tasks_in :: "sched_op list \<Rightarrow> int" where
  "tasks_in [] = 0"
| "tasks_in (TaskOp # q) = tasks_in q + 1"
| "tasks_in (HandlerOp h # q) = tasks_in q"

lemma tasks_in_append [simp]: "tasks_in (p @ q) = tasks_in p + tasks_in q"
  by (induction p rule: tasks_in.induct) simp_all

lemma tasks_in_map [simp]: "tasks_in (List.map HandlerOp hs) = 0"
  by (induction hs) simp_all

lemma tasks_in_nonneg: "0 \<le> tasks_in q"
  by (induction q rule: tasks_in.induct) simp_all

lemmas sched_ops =
  goto_def event_sleep_def call_front_def enter_task_def do_run_one_def do_poll_one_def do_wait_one_def run_body_def
  after_event_def task_cleanup_def after_task_def after_clean_def work_cleanup_def clean_push_def enter_def
  post_push_def post_immediate_completions_def post_deferred_completions_def do_dispatch_def init_task_def
  acquire_def task_returns_def caller_def maybe_signal_eq Let_def

lemmas sched_splits = if_splits sched_pc.splits run_mode.splits list.splits sched_op.splits option.splits

lemma length_threads:
  "sched_step s a = Some s' \<Longrightarrow> length (threads s') = length (threads s)"
proof (induction s a rule: sched_step.induct)
qed (auto simp: sched_ops scheduler_shutdown_def split: sched_splits)

lemma sched_step_cases:
  assumes "sched_step s a = Some s'"
  obtains (wake) t where "a = Wake t" "t < length (threads s)" "pc (threads s ! t) = Asleep" "s' = set_thread t wake s"
  | (signal) t u where "a = Signal t u" "t < length (threads s)" "owes_signal (threads s ! t)" "u < length (threads s)"
      "pc (threads s ! u) = Asleep \<or> (\<forall>th \<in> set (threads s). pc th \<noteq> Asleep)"
      "s' = set_thread u wake (set_thread t (\<lambda>th. th\<lparr>owes_signal := False\<rparr>) s)"
  | (shutdown) "a = Shutdown" "scheduler_shutdown s = Some s'"
  | (thread) "actor a < length (threads s)" "\<not> owes_signal (threads s ! actor a)" "thread_step s a = Some s'"
proof (cases a)
qed (use assms that in \<open>auto split: if_splits\<close>)

text \<open>The four sums, and what is left of them when a thread leaves its place.\<close>

definition ledger :: "handler \<Rightarrow> scheduler \<Rightarrow> int" where
  "ledger h s = int (count_list (called s) h) + int (count_list (handlers_of (op_queue s)) h) +
     total (copies h) (threads s) + int (count_list (pending s) h) + int (count_list (destroyed s) h) - int (count_list (posted s) h)"

definition balance :: "scheduler \<Rightarrow> int" where
  "balance s = all_jobs s - outstanding_work s - total private_outstanding_work (threads s)"

definition task_sum :: "scheduler \<Rightarrow> int" where
  "task_sum s = tasks_in (op_queue s) + total tasks (threads s) - (if has_task s then 1 else 0)"

definition wait_sum :: "scheduler \<Rightarrow> int" where
  "wait_sum s = total waits (threads s) - int (event_state s div 2)"

lemmas sums = ledger_def balance_def task_sum_def wait_sum_def all_jobs_def

definition quiet :: "sched_thread \<Rightarrow> bool" where
  "quiet th = (case pc th of InHandler h \<Rightarrow> False | Posting g hs \<Rightarrow> False | _ \<Rightarrow> True)"

lemma quiet_accounts:
  "quiet th \<Longrightarrow> copies h th = int (count_list (private_op_queue th) h)"
  "quiet th \<Longrightarrow> jobs th = int (length (private_op_queue th))"
  by (simp_all add: quiet_def copies_def jobs_def split: sched_pc.splits)

lemmas account_pc =
  copies_def [of _ "_\<lparr>pc := _\<rparr>"] jobs_def [of "_\<lparr>pc := _\<rparr>"] tasks_def [of "_\<lparr>pc := _\<rparr>"] waits_def [of "_\<lparr>pc := _\<rparr>"]

text \<open>What a thread that has the mutex can end with.\<close>

definition run_result :: "nat \<Rightarrow> scheduler \<Rightarrow> scheduler \<Rightarrow> bool" where
  "run_result t s s' = (
     (s' = event_sleep t s \<or> s' = event_sleep t (s\<lparr>event_state := event_clear (event_state s)\<rparr>)) \<or>
     s' = goto t Outside s \<or> s' = goto t Outside (snd (maybe_unlock_and_signal_one t s)) \<or>
     (\<exists>w q. op_queue s = TaskOp # q \<and> (s' = enter_task t w q s \<or> s' = goto t (InTask w) (s\<lparr>op_queue := q\<rparr>))) \<or>
     (\<exists>h q. op_queue s = HandlerOp h # q \<and> s' = call_front t h q s))"

lemma run_results:
  "run_result t s (do_run_one t s)" "run_result t s (do_poll_one t s)" "run_result t s (do_wait_one t s)"
  "run_result t s (run_body t s)"
  by (auto simp: run_result_def run_body_def do_run_one_def do_poll_one_def do_wait_one_def
      split: list.splits sched_op.splits run_mode.splits)

lemma has_task_if [simp]:
  "has_task (if b then unlock_and_signal_one t s else s) = has_task s"
  "has_task (if b then wake_one_thread_and_unlock t s else s) = has_task s"
  by simp_all

lemma run_sums:
  assumes "t < length (threads s)" "quiet (threads s ! t)" "run_result t s s'"
  shows "ledger h s' = ledger h s" "balance s' = balance s"
    "task_sum s' = task_sum s - tasks (threads s ! t)" "wait_sum s' = wait_sum s - waits (threads s ! t)"
  using assms(1,3) unfolding run_result_def
  by (auto simp: event_sleep_def enter_task_def call_front_def goto_def maybe_signal_eq Let_def sums quiet_accounts [OF assms(2)] account_pc)

lemma total_nonneg: "(\<And>th. 0 \<le> f th) \<Longrightarrow> 0 \<le> total f ths"
  by (auto simp: total_def intro!: sum_list_nonneg)

lemma total_ge:
  assumes "\<And>th. 0 \<le> f th" "t < length ths"
  shows "f (ths ! t) \<le> total f ths"
  using assms(2)
proof (induction ths arbitrary: t)
  case (Cons x ths)
  have "0 \<le> total f ths" "0 \<le> f x" using assms(1) by (simp_all add: total_nonneg)
  with Cons show ?case by (cases t) (force simp: total_def)+
qed simp

lemma accounts_nonneg [simp]: "0 \<le> copies h th" "0 \<le> jobs th" "0 \<le> tasks th" "0 \<le> waits th"
  by (simp_all add: copies_def jobs_def tasks_def waits_def split: sched_pc.split)

definition sums_zero :: "scheduler \<Rightarrow> bool" where
  "sums_zero s = ((\<forall>h. ledger h s = 0) \<and> balance s = 0 \<and> task_sum s = 0 \<and> wait_sum s = 0)"

lemma waiters_counted:
  assumes "sums_zero s" "t < length (threads s)" "waits (threads s ! t) = 1"
  shows "2 \<le> event_state s"
proof -
  have "waits (threads s ! t) \<le> total waits (threads s)"
    using assms(2) by (rule total_ge [rotated]) simp
  with assms show ?thesis by (simp add: sums_zero_def wait_sum_def)
qed

lemma sums_zero_run:
  assumes "t < length (threads s)" "quiet (threads s ! t)" "run_result t s s'"
    and "\<And>h. ledger h s = 0" "balance s = 0" "task_sum s = tasks (threads s ! t)" "wait_sum s = waits (threads s ! t)"
  shows "sums_zero s'"
  using run_sums [OF assms(1-3)] assms(4-7) by (simp add: sums_zero_def)

section \<open>The invariant of all threads\<close>

lemma account_not_owe [simp]:
  "copies h (th\<lparr>owes_signal := b\<rparr>) = copies h th" "jobs (th\<lparr>owes_signal := b\<rparr>) = jobs th"
  "tasks (th\<lparr>owes_signal := b\<rparr>) = tasks th" "waits (th\<lparr>owes_signal := b\<rparr>) = waits th"
  "thread_ok (th\<lparr>owes_signal := b\<rparr>) = thread_ok th"
  by (simp_all add: copies_def jobs_def tasks_def waits_def thread_ok_def split: sched_pc.split)

lemma thread_ok_wake [simp]: "thread_ok (wake th) = thread_ok th" "thread_ok (owe st th) = thread_ok th"
  by (simp_all add: thread_ok_def split: sched_pc.split)

lemma threads_ok_nth: "threads_ok s \<Longrightarrow> t < length (threads s) \<Longrightarrow> thread_ok (threads s ! t)"
  by (simp add: threads_ok_def)

lemma threads_ok_update:
  "threads_ok s \<Longrightarrow> thread_ok th \<Longrightarrow> threads s' = (threads s)[t := th] \<Longrightarrow> threads_ok s'"
  by (auto simp: threads_ok_def dest!: set_update_subset_insert [THEN subsetD])

definition run_pc :: "sched_pc \<Rightarrow> bool" where
  "run_pc p = (case p of Outside \<Rightarrow> True | Asleep \<Rightarrow> True | InTask w \<Rightarrow> True | InHandler h \<Rightarrow> True | _ \<Rightarrow> False)"

lemma run_result_threads:
  assumes "run_result t s s'" "t < length (threads s)"
  shows "\<exists>p b. threads s' = (threads s)[t := (threads s ! t)\<lparr>pc := p, owes_signal := b\<rparr>] \<and> run_pc p"
proof -
  have "threads s' = (threads s)[t := threads s' ! t] \<and> run_pc (pc (threads s' ! t)) \<and>
      threads s' ! t = (threads s ! t)\<lparr>pc := pc (threads s' ! t), owes_signal := owes_signal (threads s' ! t)\<rparr>"
    using assms unfolding run_result_def
    by (auto simp: event_sleep_def enter_task_def call_front_def goto_def maybe_signal_eq Let_def run_pc_def owe_def)
  then show ?thesis by metis
qed

lemma run_result_ok:
  assumes "run_result t s s'" "t < length (threads s)" "threads_ok s"
    and "private_op_queue (threads s ! t) = []" "private_outstanding_work (threads s ! t) = 0"
  shows "threads_ok s'"
proof -
  obtain p b where p: "threads s' = (threads s)[t := (threads s ! t)\<lparr>pc := p, owes_signal := b\<rparr>]" "run_pc p"
    using run_result_threads [OF assms(1,2)] by blast
  have "thread_ok ((threads s ! t)\<lparr>pc := p, owes_signal := b\<rparr>)"
    using p(2) assms(4,5) by (cases p) (simp_all add: thread_ok_def run_pc_def)
  from threads_ok_update [OF assms(3) this p(1)] show ?thesis .
qed

definition sched_ok :: "scheduler \<Rightarrow> bool" where
  "sched_ok s = (sums_zero s \<and> threads_ok s)"

lemma sched_ok_run:
  assumes "t < length (threads s)" "quiet (threads s ! t)" "run_result t s s'" "threads_ok s"
    and "\<And>h. ledger h s = 0" "balance s = 0" "task_sum s = tasks (threads s ! t)" "wait_sum s = waits (threads s ! t)"
    and "private_op_queue (threads s ! t) = []" "private_outstanding_work (threads s ! t) = 0"
  shows "sched_ok s'"
  using sums_zero_run [OF assms(1-3,5-8)] run_result_ok [OF assms(3,1,4,9,10)] by (simp add: sched_ok_def)

lemma after_event_result: "run_result t (s\<lparr>event_state := event_state s - 2\<rparr>) (after_event t s)"
  using run_results(4) [of t "s\<lparr>event_state := event_state s - 2\<rparr>"]
  by (auto simp: after_event_def Let_def run_result_def split: list.splits sched_op.splits)

lemma after_task_result: "run_result t (task_cleanup t s) (after_task t s)"
  using run_results(1) [of t "task_cleanup t s"]
  by (auto simp: after_task_def Let_def run_result_def split: list.splits sched_op.splits)

lemma sched_ok_after_event:
  assumes "t < length (threads s)" "pc (threads s ! t) = Woken" "sched_ok s"
  shows "sched_ok (after_event t s)"
proof (rule sched_ok_run [OF _ _ after_event_result])
  have w: "waits (threads s ! t) = 1" using assms(2) by (simp add: waits_def)
  have e: "2 \<le> event_state s" using assms(3) by (intro waiters_counted [OF _ assms(1) w]) (simp add: sched_ok_def)
  show "wait_sum (s\<lparr>event_state := event_state s - 2\<rparr>) = waits (threads (s\<lparr>event_state := event_state s - 2\<rparr>) ! t)"
    using assms(3) e w by (simp add: sched_ok_def sums_zero_def sums)
qed (use assms threads_ok_nth [of s t] in \<open>auto simp: sched_ok_def sums_zero_def sums threads_ok_def quiet_def tasks_def thread_ok_def\<close>)

lemma sched_ok_after_task:
  assumes "t < length (threads s)" "pc (threads s ! t) = TaskRelock" "sched_ok s"
  shows "sched_ok (after_task t s)"
proof (rule sched_ok_run [OF _ _ after_task_result])
  have "thread_ok (threads s ! t)" using assms by (simp add: sched_ok_def threads_ok_nth)
  then have th: "thread_ok ((threads s ! t)\<lparr>private_op_queue := []\<rparr>)" "private_outstanding_work (threads s ! t) = 0"
    using assms(2) by (simp_all add: thread_ok_def)
  show "threads_ok (task_cleanup t s)"
    by (rule threads_ok_update [OF _ th(1)]) (use assms(3) in \<open>simp_all add: sched_ok_def task_cleanup_def\<close>)
  show "private_outstanding_work (threads (task_cleanup t s) ! t) = 0"
    using th(2) assms(1) by (simp add: task_cleanup_def)
qed (use assms in \<open>auto simp: sched_ok_def sums_zero_def sums task_cleanup_def copies_def jobs_def tasks_def waits_def quiet_def add.assoc\<close>)

lemma sched_ok_clean_push:
  assumes "t < length (threads s)" "pc (threads s ! t) = CleanPush again" "sched_ok s"
  shows "sched_ok (clean_push t again s)"
proof -
  let ?s = "set_thread t (\<lambda>th. th\<lparr>private_op_queue := []\<rparr>) (s\<lparr>op_queue := op_queue s @ List.map HandlerOp (private_op_queue (threads s ! t))\<rparr>)"
  have r: "run_result t ?s (clean_push t again s)"
    using run_results(4) [of t ?s] by (simp add: clean_push_def Let_def run_result_def)
  have "thread_ok (threads s ! t)" using assms by (simp add: sched_ok_def threads_ok_nth)
  then have th: "thread_ok ((threads s ! t)\<lparr>private_op_queue := []\<rparr>)" "private_outstanding_work (threads s ! t) = 0"
    using assms(2) by (simp_all add: thread_ok_def)
  show ?thesis
  proof (rule sched_ok_run [OF _ _ r])
    show "threads_ok ?s"
      by (rule threads_ok_update [OF _ th(1)]) (use assms(3) in \<open>simp_all add: sched_ok_def\<close>)
  qed (use assms th(2) in \<open>auto simp: sched_ok_def sums_zero_def sums copies_def jobs_def tasks_def waits_def quiet_def add.assoc\<close>)
qed

text \<open>The steps that change only their thread, the counter and lists: the sums are computed, and the thread stays
  well-formed.\<close>

lemma sched_okI:
  assumes "threads_ok s" "thread_ok th" "threads s' = (threads s)[t := th]"
    and "\<And>h. ledger h s' = 0" "balance s' = 0" "task_sum s' = 0" "wait_sum s' = 0"
  shows "sched_ok s'"
  using threads_ok_update [OF assms(1-3)] assms(4-7) by (simp add: sched_ok_def sums_zero_def)

lemma sched_ok_sums:
  assumes "sched_ok s"
  shows "threads_ok s" "ledger h s = 0" "balance s = 0" "task_sum s = 0" "wait_sum s = 0"
  using assms by (simp_all add: sched_ok_def sums_zero_def)

lemma sched_ok_thread: "sched_ok s \<Longrightarrow> t < length (threads s) \<Longrightarrow> thread_ok (threads s ! t)"
  by (simp add: sched_ok_def threads_ok_nth)

lemma sched_ok_post_push:
  assumes t: "t < length (threads s)" and p: "pc (threads s ! t) = Posting g hs" and ok: "sched_ok s"
  shows "sched_ok (post_push t hs g s)"
proof (rule sched_okI [OF sched_ok_sums(1) [OF ok]])
  show "threads (post_push t hs g s) = (threads s)[t := threads (post_push t hs g s) ! t]"
    using t by (simp add: post_push_def goto_def)
  show "thread_ok (threads (post_push t hs g s) ! t)"
    using sched_ok_thread [OF ok t] p t by (auto simp: post_push_def goto_def thread_ok_def split: option.split)
qed (use sched_ok_sums [OF ok] t p in \<open>auto simp: post_push_def goto_def sums account_pc copies_def jobs_def tasks_def waits_def add.assoc split: option.splits\<close>)

lemma sched_ok_task_returns:
  assumes t: "t < length (threads s)" and r: "task_returns t hs s = Some s'" and ok: "sched_ok s"
  shows "sched_ok s'"
proof -
  obtain w where w: "pc (threads s ! t) = InTask w" and le: "mset hs \<subseteq># mset (pending s)"
    using r by (auto simp: task_returns_def split: sched_pc.splits if_splits)
  have th: "private_op_queue (threads s ! t) = []" "private_outstanding_work (threads s ! t) = 0"
    using sched_ok_thread [OF ok t] w by (simp_all add: thread_ok_def)
  have s': "s' = set_thread t (\<lambda>th. th\<lparr>private_op_queue := private_op_queue th @ hs, private_outstanding_work := 0, pc := TaskRelock\<rparr>)
      (s\<lparr>task_signal := False, pending := fold remove1 hs (pending s)\<rparr>)"
    using r w th by (auto simp: task_returns_def split: if_splits)
  show ?thesis
  proof (rule sched_okI [OF sched_ok_sums(1) [OF ok]])
    show "threads s' = (threads s)[t := (threads s ! t)\<lparr>private_op_queue := hs, private_outstanding_work := 0, pc := TaskRelock\<rparr>]"
      using th by (simp add: s')
    show "thread_ok ((threads s ! t)\<lparr>private_op_queue := hs, private_outstanding_work := 0, pc := TaskRelock\<rparr>)"
      by (simp add: thread_ok_def)
  qed (use sched_ok_sums [OF ok] t w th count_fold_remove1 [OF le] in
      \<open>auto simp: s' sums add.assoc copies_def jobs_def tasks_def waits_def\<close>)
qed

lemma sched_ok_work_cleanup:
  assumes t: "t < length (threads s)" and p: "pc (threads s ! t) = InHandler h" and ok: "sched_ok s"
  shows "sched_ok (work_cleanup t thrown s)"
proof (rule sched_okI [OF sched_ok_sums(1) [OF ok]])
  let ?s' = "work_cleanup t thrown s"
  show "threads ?s' = (threads s)[t := threads ?s' ! t]"
    using t by (auto simp: work_cleanup_def after_clean_def goto_def Let_def)
  show "thread_ok (threads ?s' ! t)"
    using sched_ok_thread [OF ok t] p t
    by (auto simp: work_cleanup_def after_clean_def goto_def Let_def thread_ok_def split: if_splits)
qed (use sched_ok_sums [OF ok] sched_ok_thread [OF ok t] t p in
    \<open>auto simp: work_cleanup_def after_clean_def goto_def Let_def sums add.assoc copies_def jobs_def tasks_def waits_def thread_ok_def\<close>)

lemma sched_ok_stop: "sched_ok s \<Longrightarrow> sched_ok (stop_all_threads s)"
  by (auto simp: sched_ok_def sums_zero_def sums threads_ok_def)

lemma sched_ok_after_clean:
  assumes t: "t < length (threads s)" and p: "pc (threads s ! t) = CleanStop again" and ok: "sched_ok s"
  shows "sched_ok (after_clean t again s)"
proof (rule sched_okI [OF sched_ok_sums(1) [OF ok]])
  show "threads (after_clean t again s) = (threads s)[t := threads (after_clean t again s) ! t]"
    using t by (auto simp: after_clean_def goto_def)
  show "thread_ok (threads (after_clean t again s) ! t)"
    using sched_ok_thread [OF ok t] p t by (auto simp: after_clean_def goto_def thread_ok_def)
qed (use sched_ok_sums [OF ok] t p in
    \<open>auto simp: after_clean_def goto_def sums add.assoc copies_def jobs_def tasks_def waits_def\<close>)

lemma sched_ok_enter:
  assumes t: "t < length (threads s)" and p: "pc (threads s ! t) = Outside" and ok: "sched_ok s"
  shows "sched_ok (enter t m s)"
proof (rule sched_okI [OF sched_ok_sums(1) [OF ok]])
  show "threads (enter t m s) = (threads s)[t := threads (enter t m s) ! t]"
    using t by (simp add: enter_def)
  show "thread_ok (threads (enter t m s) ! t)" using t by (simp add: enter_def thread_ok_def)
qed (use sched_ok_sums [OF ok] sched_ok_thread [OF ok t] t p in
    \<open>auto simp: enter_def sums add.assoc copies_def jobs_def tasks_def waits_def thread_ok_def\<close>)

lemma sched_ok_acquire:
  assumes t: "t < length (threads s)" and a: "acquire t s = Some s'" and ok: "sched_ok s"
  shows "sched_ok s'"
proof (cases "pc (threads s ! t)")
  case WantLock
  have s': "s' = run_body t s" using a WantLock by (simp add: acquire_def)
  show ?thesis unfolding s'
    by (rule sched_ok_run [OF t _ run_results(4)])
      (use WantLock sched_ok_sums [OF ok] sched_ok_thread [OF ok t] in \<open>simp_all add: quiet_def tasks_def waits_def thread_ok_def\<close>)
next
  case (CleanStop again)
  have "pc (threads (stop_all_threads s) ! t) = CleanStop again" using CleanStop t by simp
  then have "sched_ok (after_clean t again (stop_all_threads s))"
    using t by (intro sched_ok_after_clean sched_ok_stop ok) simp_all
  then show ?thesis using a CleanStop by (simp add: acquire_def)
qed (use a sched_ok_after_event [OF t _ ok] sched_ok_after_task [OF t _ ok] sched_ok_clean_push [OF t _ ok] sched_ok_post_push [OF t _ ok]
   in \<open>auto simp: acquire_def\<close>)

lemma caller_pc: "caller t s = Some g \<Longrightarrow> pc (threads s ! t) = (case g of None \<Rightarrow> Outside | Some h \<Rightarrow> InHandler h)"
  by (auto simp: caller_def split: sched_pc.splits)

lemma sched_ok_call:
  assumes t: "t < length (threads s)" and c: "caller t s = Some g" and a: "call_step t g a s = Some s'" and ok: "sched_ok s"
  shows "sched_ok s'"
proof -
  note p = caller_pc [OF c]
  have s': "threads s' = (threads s)[t := threads s' ! t] \<and> thread_ok (threads s' ! t) \<or> s' = stop_all_threads s"
    using a t p sched_ok_thread [OF ok t]
    by (cases a) (auto simp: post_immediate_completions_def post_deferred_completions_def do_dispatch_def goto_def init_task_def
        thread_ok_def can_dispatch_def split: if_splits option.splits)
  show ?thesis
  proof (cases "s' = stop_all_threads s")
    case True
    then show ?thesis using sched_ok_stop [OF ok] by simp
  next
    case False
    with s' have th: "thread_ok (threads s' ! t)" "threads s' = (threads s)[t := threads s' ! t]" by auto
    show ?thesis
    proof (rule sched_okI [OF sched_ok_sums(1) [OF ok] th])
    qed (use a False sched_ok_sums [OF ok] t p in
        \<open>cases a; auto simp: post_immediate_completions_def post_deferred_completions_def do_dispatch_def goto_def init_task_def
           sums copies_def jobs_def tasks_def waits_def can_dispatch_def add.assoc count_fold_remove1 split: if_splits option.splits\<close>)+
  qed
qed

lemma thread_step_cases:
  assumes "thread_step s a = Some s'"
  obtains (enter) t m where "a = Enter t m" "pc (threads s ! t) = Outside" "s' = enter t m s"
  | (acquire) t where "a = Acquire t" "acquire t s = Some s'"
  | (task) t hs where "a = TaskReturn t hs" "task_returns t hs s = Some s'"
  | (handler) t thrown h where "a = HandlerReturn t thrown" "pc (threads s ! t) = InHandler h" "s' = work_cleanup t thrown s"
  | (call) g where "caller (actor a) s = Some g" "call_step (actor a) g a s = Some s'"
proof (cases a)
  case (HandlerReturn t thrown)
  with assms that(4) show thesis by (cases "pc (threads s ! t)") auto
qed (use assms that in \<open>auto split: if_splits option.splits\<close>)

lemma sched_ok_thread_step:
  assumes "actor a < length (threads s)" "thread_step s a = Some s'" "sched_ok s"
  shows "sched_ok s'"
  using assms(2)
proof (cases rule: thread_step_cases)
  case (call g)
  with assms show ?thesis by (auto intro: sched_ok_call)
qed (use assms in \<open>auto intro: sched_ok_enter sched_ok_acquire sched_ok_task_returns sched_ok_work_cleanup\<close>)

lemma sched_ok_step:
  assumes "sched_ok s" "sched_step s a = Some s'"
  shows "sched_ok s'"
  using assms(2)
proof (cases rule: sched_step_cases)
  case (wake t)
  then show ?thesis
    using assms(1) sched_ok_thread [OF assms(1), of t]
    by (intro sched_okI [where t = t and th = "wake (threads s ! t)"]) (auto simp: sched_ok_def sums_zero_def sums)
next
  case (signal t u)
  let ?s = "set_thread t (\<lambda>th. th\<lparr>owes_signal := False\<rparr>) s"
  have "sched_ok ?s"
    using assms(1) sched_ok_thread [OF assms(1) signal(2)] signal(2)
    by (intro sched_okI [where t = t and th = "(threads s ! t)\<lparr>owes_signal := False\<rparr>"]) (auto simp: sched_ok_def sums_zero_def sums)
  then show ?thesis
    using sched_ok_thread [of ?s u] signal(4,6)
    by (intro sched_okI [where t = u and th = "wake (threads ?s ! u)"]) (auto simp: sched_ok_def sums_zero_def sums)
next
  case shutdown
  then have out: "\<forall>th \<in> set (threads s). pc th = Outside" by (auto simp: scheduler_shutdown_def split: if_splits)
  then have "total tasks (threads s) = 0"
    by (simp add: total_def tasks_def sum_list_0 cong: map_cong)
  with shutdown show ?thesis
    using assms(1) by (auto simp: scheduler_shutdown_def sched_ok_def sums_zero_def sums threads_ok_def ac_simps split: if_splits)
next
  case thread
  then show ?thesis using assms(1) by (blast intro: sched_ok_thread_step)
qed

lemma total_new: "total f (replicate n outside_thread) = int n * f outside_thread"
  by (simp add: total_def sum_list_replicate)

interpretation scheduler: invariant_system sched_step "new_scheduler one n" sched_ok for one n
proof unfold_locales
  show "sched_ok (new_scheduler one n)"
    by (simp add: sched_ok_def sums_zero_def sums new_scheduler_def total_new threads_ok_def)
      (simp add: outside_thread_def copies_def jobs_def tasks_def waits_def thread_ok_def)
qed (rule sched_ok_step)

end
