(* ===== verification/AsioRun.thy ===== *)
theory AsioRun
  imports AsioScheduler
begin

text \<open>
  What the event loop of \<open>AsioScheduler\<close> promises its users: a handler is called once, \<open>run\<close> does not
  return before the work is done, and no handler waits while threads sleep; and where the
  last fails.
\<close>

section \<open>Every handler once\<close>

definition all_once :: "scheduler \<Rightarrow> bool" where
  "all_once s = (\<forall>h. int (count_list (posted s) h) = int (count_list (called s) h) + int (count_list (handlers_of (op_queue s)) h) +
     total (copies h) (threads s) + int (count_list (pending s) h) + int (count_list (destroyed s) h))"

lemma sched_ok_all_once: "sched_ok s \<Longrightarrow> all_once s"
  by (auto simp: sched_ok_def sums_zero_def ledger_def all_once_def)

lemma copies_total_nonneg [simp]: "0 \<le> total (copies h) ths"
  by (simp add: total_nonneg)

lemma called_le_posted: "all_once s \<Longrightarrow> count_list (called s) h \<le> count_list (posted s) h"
proof -
  assume "all_once s"
  then have "int (count_list (called s) h) \<le> int (count_list (posted s) h)"
    using copies_total_nonneg [of h "threads s"] by (simp add: all_once_def)
  then show ?thesis by simp
qed

section \<open>Work\<close>

lemma total_diff: "total (\<lambda>th. f th - g th) ths = total f ths - total g ths"
  by (simp add: total_def sum_list_subtractf)

lemma total_eq_0: "(\<And>th. th \<in> set ths \<Longrightarrow> 0 \<le> f th) \<Longrightarrow> total f ths = 0 \<Longrightarrow> th \<in> set ths \<Longrightarrow> f th = 0"
  using sum_list_nonneg_eq_0_iff [of "List.map f ths"] by (force simp: total_def)

text \<open>While a thread has private work, its handler keeps the shared counter above zero: the counter is
  zero only when there is nothing to do.\<close>

lemma zero_work:
  assumes "sched_ok s" "outstanding_work s = 0"
  shows "all_jobs s = 0"
proof -
  let ?f = "\<lambda>th. jobs th - private_outstanding_work th"
  have ok: "\<forall>th \<in> set (threads s). thread_ok th" using assms(1) by (simp add: sched_ok_def threads_ok_def)
  have ge: "0 \<le> ?f th" if "th \<in> set (threads s)" for th
    using ok that by (auto simp: thread_ok_def jobs_def split: sched_pc.splits)
  have "balance s = 0" using assms(1) by (simp add: sched_ok_def sums_zero_def)
  then have eq: "int (length (handlers_of (op_queue s))) + total ?f (threads s) + int (length (pending s)) + int (length (destroyed s)) = 0"
    using assms(2) by (simp add: balance_def all_jobs_def total_diff)
  have "0 \<le> total ?f (threads s)" using ge by (auto simp: total_def intro!: sum_list_nonneg)
  with eq have z: "total ?f (threads s) = 0" by linarith
  have "private_outstanding_work th = 0" if "th \<in> set (threads s)" for th
  proof -
    have "?f th = 0" by (rule total_eq_0 [OF ge z that])
    moreover have "thread_ok th" using ok that by simp
    ultimately show ?thesis
      by (auto simp: thread_ok_def jobs_def split: sched_pc.splits if_splits)
  qed
  then have "total private_outstanding_work (threads s) = 0"
    by (simp add: total_def sum_list_0 cong: map_cong)
  with \<open>balance s = 0\<close> assms(2) show ?thesis by (simp add: balance_def)
qed

lemma no_jobs:
  assumes "all_jobs s = 0" "sched_ok s"
  shows "handlers_of (op_queue s) = []" "pending s = []" "destroyed s = []"
    "t < length (threads s) \<Longrightarrow> jobs (threads s ! t) = 0"
proof -
  have n: "0 \<le> total jobs (threads s)" by (simp add: total_nonneg)
  with assms(1) have "int (length (handlers_of (op_queue s))) = 0" "int (length (pending s)) = 0" "int (length (destroyed s)) = 0"
    unfolding all_jobs_def by linarith+
  then show "handlers_of (op_queue s) = []" "pending s = []" "destroyed s = []" by simp_all
  show "t < length (threads s) \<Longrightarrow> jobs (threads s ! t) = 0"
    using n assms(1) by (intro total_eq_0 [of "threads s" jobs]) (auto simp: all_jobs_def)
qed

text \<open>The scheduler is left to its threads: nobody stops or restarts it or posts from outside.\<close>

fun closed_action :: "scheduler \<Rightarrow> sched_action \<Rightarrow> bool" where
  "closed_action s (Stop t) = False"
| "closed_action s (Restart t) = False"
| "closed_action s Shutdown = False"
| "closed_action s (Post t hs c) = can_dispatch t s"
| "closed_action s (Defer t hs) = can_dispatch t s"
| "closed_action s (Dispatch t h) = can_dispatch t s"
| "closed_action s (StartAsync t h) = can_dispatch t s"
| "closed_action s (InitTask t) = can_dispatch t s"
| "closed_action s a = True"

definition closed_step :: "scheduler \<Rightarrow> sched_action \<Rightarrow> scheduler option" where
  "closed_step s a = (if closed_action s a then sched_step s a else None)"

definition closed_inv :: "scheduler \<Rightarrow> bool" where
  "closed_inv s = (sched_ok s \<and>
     (stopped s \<or> (\<exists>t < length (threads s). \<exists>c. pc (threads s ! t) = CleanStop c) \<longrightarrow> all_jobs s = 0))"

lemma jobs_from_work:
  assumes "sched_ok s" "sched_ok s'" "outstanding_work s' = outstanding_work s"
    "total private_outstanding_work (threads s') = total private_outstanding_work (threads s)"
  shows "all_jobs s' = all_jobs s"
  using assms by (simp add: sched_ok_def sums_zero_def balance_def)

lemma stopped_if [simp]:
  "stopped (if b then unlock_and_signal_one t s else s) = stopped s"
  "stopped (if b then wake_one_thread_and_unlock t s else s) = stopped s"
  by simp_all

lemma run_result_work:
  assumes "run_result t s s'" "t < length (threads s)"
  shows "outstanding_work s' = outstanding_work s" "stopped s' = stopped s"
    "total private_outstanding_work (threads s') = total private_outstanding_work (threads s)"
    "\<And>u c. u < length (threads s) \<Longrightarrow> pc (threads s' ! u) = CleanStop c \<Longrightarrow> pc (threads s ! u) = CleanStop c"
proof -
  show "outstanding_work s' = outstanding_work s" "stopped s' = stopped s"
    using assms by (auto simp: run_result_def event_sleep_def enter_task_def call_front_def goto_def maybe_signal_eq Let_def)
  obtain p b where p: "threads s' = (threads s)[t := (threads s ! t)\<lparr>pc := p, owes_signal := b\<rparr>]" "run_pc p"
    using run_result_threads [OF assms] by blast
  show "total private_outstanding_work (threads s') = total private_outstanding_work (threads s)"
    using p assms(2) by simp
  show "pc (threads s ! u) = CleanStop c" if "u < length (threads s)" "pc (threads s' ! u) = CleanStop c" for u c
    using p that assms(2) by (cases "u = t") (auto simp: run_pc_def)
qed

text \<open>What getting the mutex does to the work, and who stops.\<close>

lemma acquire_work:
  assumes "acquire t s = Some s'" "t < length (threads s)" "threads_ok s"
  shows "outstanding_work s' = outstanding_work s"
    "total private_outstanding_work (threads s') = total private_outstanding_work (threads s)"
    "stopped s' \<Longrightarrow> stopped s \<or> (\<exists>c. pc (threads s ! t) = CleanStop c)"
    "\<And>u c. u < length (threads s) \<Longrightarrow> pc (threads s' ! u) = CleanStop c \<Longrightarrow> \<exists>d. pc (threads s ! u) = CleanStop d"
proof -
  have r: "run_result t s1 s' \<Longrightarrow> length (threads s1) = length (threads s) \<Longrightarrow>
      outstanding_work s1 = outstanding_work s \<Longrightarrow> stopped s1 = stopped s \<Longrightarrow>
      total private_outstanding_work (threads s1) = total private_outstanding_work (threads s) \<Longrightarrow>
      (\<And>u. u < length (threads s) \<Longrightarrow> pc (threads s1 ! u) = pc (threads s ! u)) \<Longrightarrow>
      outstanding_work s' = outstanding_work s \<and>
      total private_outstanding_work (threads s') = total private_outstanding_work (threads s) \<and>
      stopped s' = stopped s \<and>
      (\<forall>u c. u < length (threads s) \<longrightarrow> pc (threads s' ! u) = CleanStop c \<longrightarrow> (\<exists>d. pc (threads s ! u) = CleanStop d))" for s1
    using run_result_work [of t s1 s'] assms(2) by auto
  have "outstanding_work s' = outstanding_work s \<and>
      total private_outstanding_work (threads s') = total private_outstanding_work (threads s) \<and>
      (stopped s' \<longrightarrow> stopped s \<or> (\<exists>c. pc (threads s ! t) = CleanStop c)) \<and>
      (\<forall>u c. u < length (threads s) \<longrightarrow> pc (threads s' ! u) = CleanStop c \<longrightarrow> (\<exists>d. pc (threads s ! u) = CleanStop d))"
  proof (cases "pc (threads s ! t)")
    case WantLock
    with r [of s] run_results(4) [of t s] assms(1) show ?thesis by (auto simp: acquire_def)
  next
    case Woken
    with r [of "s\<lparr>event_state := event_state s - 2\<rparr>"] after_event_result [of t s] assms(1) show ?thesis by (auto simp: acquire_def)
  next
    case TaskRelock
    with r [of "task_cleanup t s"] after_task_result [of t s] assms(1,2) show ?thesis
      by (force simp: acquire_def task_cleanup_def nth_list_update)
  next
    case (CleanPush again)
    let ?s = "set_thread t (\<lambda>th. th\<lparr>private_op_queue := []\<rparr>) (s\<lparr>op_queue := op_queue s @ List.map HandlerOp (private_op_queue (threads s ! t))\<rparr>)"
    have "run_result t ?s (clean_push t again s)"
      using run_results(4) [of t ?s] by (simp add: clean_push_def Let_def run_result_def)
    with r [of ?s] CleanPush assms(1,2) show ?thesis by (force simp: acquire_def nth_list_update)
  next
    case (CleanStop again)
    with assms(1,2) show ?thesis
      by (auto simp: acquire_def after_clean_def goto_def nth_list_update split: if_splits)
  next
    case (Posting g hs)
    with assms(1,2) show ?thesis
      by (auto simp: acquire_def post_push_def goto_def nth_list_update split: if_splits option.splits)
  qed (use assms(1) in \<open>auto simp: acquire_def\<close>)
  then show "outstanding_work s' = outstanding_work s"
    "total private_outstanding_work (threads s') = total private_outstanding_work (threads s)"
    "stopped s' \<Longrightarrow> stopped s \<or> (\<exists>c. pc (threads s ! t) = CleanStop c)"
    "\<And>u c. u < length (threads s) \<Longrightarrow> pc (threads s' ! u) = CleanStop c \<Longrightarrow> \<exists>d. pc (threads s ! u) = CleanStop d"
    by blast+
qed

lemma closed_thread_step:
  assumes "closed_action s a" "thread_step s a = Some s'" "actor a < length (threads s)" "closed_inv s" "sched_ok s'"
    and len: "length (threads s') = length (threads s)"
  shows "closed_inv s'"
proof -
  have ok: "sched_ok s" and z: "stopped s \<or> (\<exists>t < length (threads s). \<exists>c. pc (threads s ! t) = CleanStop c) \<Longrightarrow> all_jobs s = 0"
    using assms(4) by (auto simp: closed_inv_def)
  have keep: "closed_inv s'"
    if "outstanding_work s' = outstanding_work s"
      "total private_outstanding_work (threads s') = total private_outstanding_work (threads s)"
      "stopped s' \<Longrightarrow> stopped s \<or> (\<exists>t < length (threads s). \<exists>c. pc (threads s ! t) = CleanStop c)"
      "\<And>u c. u < length (threads s) \<Longrightarrow> pc (threads s' ! u) = CleanStop c \<Longrightarrow>
         (\<exists>d. pc (threads s ! u) = CleanStop d) \<or> outstanding_work s = 0"
  proof -
    have "all_jobs s' = all_jobs s" by (rule jobs_from_work [OF ok assms(5) that(1,2)])
    moreover have "all_jobs s = 0" if "outstanding_work s = 0" by (rule zero_work [OF ok that])
    ultimately show ?thesis using that z assms(5) len unfolding closed_inv_def by (metis (no_types, lifting))
  qed
  show ?thesis
    using assms(2)
  proof (cases rule: thread_step_cases)
    case (enter t m)
    have o: "pc (threads s ! t) = Outside" "private_outstanding_work (threads s ! t) = 0"
      using enter sched_ok_thread [OF ok, of t] assms(3) by (auto simp: thread_ok_def)
    show ?thesis
      by (rule keep) (use enter assms(3) o in \<open>auto simp: enter_def nth_list_update split: if_splits\<close>)
  next
    case (acquire t)
    note w = acquire_work [OF acquire(2)]
    have t: "t < length (threads s)" "threads_ok s" using assms(3) acquire(1) ok by (auto simp: sched_ok_def)
    show ?thesis by (rule keep) (use w [OF t] t in blast)+
  next
    case (task t hs)
    have t: "t < length (threads s)" using assms(3) task(1) by simp
    obtain w where w: "pc (threads s ! t) = InTask w"
      using task(2) by (auto simp: task_returns_def split: sched_pc.splits)
    then have p: "private_outstanding_work (threads s ! t) = 0"
      using sched_ok_thread [OF ok t] by (simp add: thread_ok_def)
    show ?thesis
      by (rule keep) (use task(2) w p t in \<open>auto simp: task_returns_def nth_list_update split: if_splits\<close>)
  next
    case (handler t thrown h)
    have t: "t < length (threads s)" using assms(3) handler(1) by simp
    have busy: "\<not> stopped s" "pc (threads s ! u) \<noteq> CleanStop c" if "u < length (threads s)" for u c
      using no_jobs(4) [OF _ ok t] z that handler(2) by (auto simp: jobs_def)
    have "all_jobs s' = 0" if "outstanding_work s' = 0" by (rule zero_work [OF assms(5) that])
    then show ?thesis
      using assms(5) busy busy(1) [OF t] t handler(3) unfolding closed_inv_def
      by (auto simp: work_cleanup_def after_clean_def goto_def Let_def nth_list_update split: if_splits)
  next
    case (call g)
    let ?t = "actor a"
    have busy: "jobs (threads s ! ?t) \<noteq> 0 \<or> \<not> closed_action s a"
      using caller_pc [OF call(1)] call(2) by (cases a) (auto simp: can_dispatch_def jobs_def split: option.splits)
    then have n: "\<not> stopped s" "pc (threads s ! u) \<noteq> CleanStop c" if "u < length (threads s)" for u c
      using no_jobs(4) [OF _ ok assms(3)] z that assms(1) by auto
    have "\<not> stopped s' \<and> (\<forall>u < length (threads s). \<forall>c. pc (threads s' ! u) \<noteq> CleanStop c)"
      using call(2) assms(1,3) n n(1) [OF assms(3)]
      by (cases a) (auto simp: post_immediate_completions_def post_deferred_completions_def do_dispatch_def goto_def init_task_def
          nth_list_update split: if_splits)
    then show ?thesis using assms(5) len by (auto simp: closed_inv_def)
  qed
qed

lemma closed_inv_step:
  assumes "closed_inv s" "closed_step s a = Some s'"
  shows "closed_inv s'"
proof -
  have a: "closed_action s a" "sched_step s a = Some s'"
    using assms(2) by (auto simp: closed_step_def split: if_splits)
  have ok: "sched_ok s" "sched_ok s'"
    using assms(1) sched_ok_step [OF _ a(2)] by (auto simp: closed_inv_def)
  note len = length_threads [OF a(2)]
  show ?thesis
    using a(2)
  proof (cases rule: sched_step_cases)
    case (wake t)
    have "all_jobs s' = all_jobs s" by (rule jobs_from_work [OF ok]) (use wake in simp_all)
    then show ?thesis using assms(1) ok(2) wake unfolding closed_inv_def
      by (auto simp: nth_list_update split: if_splits)
  next
    case (signal t u)
    have "all_jobs s' = all_jobs s"
      by (rule jobs_from_work [OF ok]) (use signal in \<open>auto simp: nth_list_update\<close>)
    moreover have "\<exists>d. pc (threads s ! v) = CleanStop d" if "v < length (threads s)" "pc (threads s' ! v) = CleanStop c" for v c
      using that signal by (auto simp: nth_list_update split: if_splits)
    moreover have "stopped s' = stopped s" using signal by simp
    ultimately show ?thesis using assms(1) ok(2) len unfolding closed_inv_def by metis
  next
    case shutdown
    then show ?thesis using a(1) by simp
  next
    case thread
    show ?thesis by (rule closed_thread_step [OF a(1) thread(3,1) assms(1) ok(2) len])
  qed
qed

interpretation closed: invariant_system closed_step "new_scheduler one n" closed_inv for one n
proof unfold_locales
  show "closed_inv (new_scheduler one n)"
    using scheduler.inv_start [of one n] unfolding closed_inv_def by (auto simp: new_scheduler_def outside_thread_def)
qed (rule closed_inv_step)

section \<open>The promises\<close>

lemma distinct_count_list: "distinct xs \<longleftrightarrow> (\<forall>x. count_list xs x \<le> 1)"
proof (induction xs)
  case (Cons x xs)
  have "x \<notin> set xs \<longleftrightarrow> count_list xs x = 0" by (simp add: count_list_0_iff)
  with Cons show ?case by (auto simp: le_Suc_eq count_list_0_iff)
qed simp

text \<open>C6: Every posted handler is in exactly one place, as often as it was posted: called, in the queue, in a thread's private
  queue or hands, with the task, or destroyed by a shutdown. So distinct handlers are called at most once.\<close>
theorem handlers_called_once:
  assumes "reachable sched_step (new_scheduler one n) s"
  shows "all_once s \<and> (distinct (posted s) \<longrightarrow> distinct (called s))"
proof -
  have o: "all_once s" by (rule sched_ok_all_once [OF scheduler.reachable_inv [OF assms]])
  moreover have "distinct (posted s) \<longrightarrow> distinct (called s)"
    using called_le_posted [OF o] unfolding distinct_count_list by (meson le_trans)
  ultimately show ?thesis by simp
qed

lemma copies_le_jobs: "copies h th \<le> jobs th"
proof -
  have c: "int (count_list hs h) \<le> int (length hs)" for hs by (simp add: count_le_length)
  show ?thesis
  proof (cases "pc th")
    case (Posting g hs)
    then show ?thesis using c [of "private_op_queue th"] c [of hs] by (simp add: copies_def jobs_def)
  qed (use c [of "private_op_queue th"] in \<open>simp_all add: copies_def jobs_def\<close>)
qed

lemma total_mono: "(\<And>th. f th \<le> g th) \<Longrightarrow> total f ths \<le> total g ths"
  by (simp add: total_def sum_list_mono)

text \<open>C7: When threads run a scheduler that nobody else stops or posts to, and one of them stops it, all the work is done: every
  handler posted, by anyone or by a handler, has been called, and no asynchronous operation is under way. \<open>run\<close> does
  not return early.\<close>
theorem stops_when_done:
  assumes "reachable sched_step (new_scheduler one n) s0" "\<not> stopped s0" "\<forall>th \<in> set (threads s0). pc th = Outside"
    and "reachable closed_step s0 s" "stopped s"
  shows "mset (called s) = mset (posted s) \<and> handlers_of (op_queue s) = [] \<and> pending s = [] \<and>
    (\<forall>th \<in> set (threads s). jobs th = 0)"
proof -
  have "closed_inv s0"
    using scheduler.reachable_inv [OF assms(1)] assms(2,3) by (auto simp: closed_inv_def)
  moreover obtain as where "run closed_step s0 as = Some s" using assms(4) by (auto simp: reachable_iff_run)
  ultimately have c: "closed_inv s" by (rule closed.run_inv)
  then have z: "all_jobs s = 0" and ok: "sched_ok s" using assms(5) by (auto simp: closed_inv_def)
  note n = no_jobs [OF z ok]
  have j: "total jobs (threads s) = 0" using z n by (simp add: all_jobs_def)
  have "total (copies h) (threads s) = 0" for h
    using total_mono [of "copies h" jobs "threads s"] copies_le_jobs copies_total_nonneg [of h "threads s"] j
    by (metis order_antisym)
  then have "count_list (posted s) h = count_list (called s) h" for h
    using sched_ok_all_once [OF ok] n by (simp add: all_once_def)
  then have "mset (called s) = mset (posted s)" by (intro multiset_eqI) (metis count_mset)
  then show ?thesis using n by (auto simp: in_set_conv_nth)
qed

section \<open>A run\<close>

text \<open>A thread posts the handler 7 and runs the scheduler; 7 posts 8. The task is met before each of them.\<close>

definition demo_setup :: "sched_action list" where
  "demo_setup = [InitTask 0, Post 0 [7] False, Acquire 0]"

definition demo_acts :: "sched_action list" where
  "demo_acts = [Enter 0 RunMode, Acquire 0, TaskReturn 0 [], Acquire 0, Post 0 [8] True, HandlerReturn 0 False, Acquire 0,
     TaskReturn 0 [], Acquire 0, HandlerReturn 0 False, Acquire 0, Acquire 0]"

definition demo_start :: scheduler where
  "demo_start = the (run sched_step (new_scheduler False (Suc 0)) demo_setup)"

definition demo_end :: scheduler where
  "demo_end = the (run closed_step demo_start demo_acts)"

lemmas sched_eval = sched_ops set_thread_def signal_bit_def event_clear_def or_Suc_0_eq wake_def owe_def
  wake_one_thread_and_unlock_def unlock_and_signal_one_def maybe_unlock_and_signal_one_def interrupt_task_def
  stop_all_threads_def signal_all_def can_dispatch_def goes_on_def size_max_def outside_thread_def

lemma demo_start_eq: "run sched_step (new_scheduler False (Suc 0)) demo_setup = Some
  \<lparr>one_thread = False, op_queue = [TaskOp, HandlerOp 7], outstanding_work = 1, stopped = False, has_task = True,
   task_interrupted = True, event_state = 1, task_signal = False, pending = [],
   threads = [outside_thread], shut_down = False, posted = [7], called = [], destroyed = []\<rparr>"
  by (simp add: demo_setup_def new_scheduler_def sched_eval)

lemma demo_end_eq: "run closed_step demo_start demo_acts = Some
  \<lparr>one_thread = False, op_queue = [TaskOp], outstanding_work = 0, stopped = True, has_task = True,
   task_interrupted = True, event_state = 1, task_signal = False, pending = [],
   threads = [outside_thread\<lparr>ran := 2\<rparr>], shut_down = False, posted = [7, 8], called = [7, 8], destroyed = []\<rparr>"
  unfolding demo_start_def demo_start_eq option.sel
  by (simp add: demo_acts_def closed_step_def sched_eval)

lemma demo_run_eq: "run sched_step (new_scheduler False (Suc 0)) (demo_setup @ demo_acts) = Some demo_end"
  unfolding run_append demo_start_eq option.case demo_end_def demo_start_def option.sel
  by (simp add: demo_acts_def closed_step_def sched_eval)

lemma demo_end_state:
  "called demo_end = [7, 8]" "posted demo_end = [7, 8]" "stopped demo_end" "op_queue demo_end = [TaskOp]"
  unfolding demo_end_def demo_end_eq option.sel by simp_all

lemma handlers_called_once_witness: "all_once demo_end \<and> distinct (called demo_end)"
  using handlers_called_once [OF run_reachable [OF demo_run_eq]] by (simp add: demo_end_state)

lemma stops_when_done_witness:
  "stopped demo_end \<and> mset (called demo_end) = mset (posted demo_end) \<and> handlers_of (op_queue demo_end) = [] \<and> pending demo_end = [] \<and>
     list_all (\<lambda>th. jobs th = 0) (threads demo_end)"
proof -
  have s: "run sched_step (new_scheduler False (Suc 0)) demo_setup = Some demo_start"
    unfolding demo_start_def demo_start_eq by simp
  have "run closed_step demo_start demo_acts = Some demo_end" unfolding demo_end_def demo_end_eq by simp
  then have r: "reachable closed_step demo_start demo_end" by (rule run_reachable)
  have o: "\<not> stopped demo_start" "\<forall>th \<in> set (threads demo_start). pc th = Outside"
    unfolding demo_start_def demo_start_eq by (simp_all add: outside_thread_def)
  show ?thesis
    using stops_when_done [OF run_reachable [OF s] o r demo_end_state(3)] demo_end_state(3) by (simp add: list_all_iff)
qed

end
