(* ===== verification/AsioWakeups.thy ===== *)
theory AsioWakeups
  imports AsioRun
begin

text \<open>
  Whether work waits while threads sleep: in the event loop of \<open>AsioScheduler\<close>, never when
  every thread calls \<open>run\<close> and no handler throws, and possibly when one calls \<open>run_one\<close>.
\<close>

section \<open>Threads that sleep and threads that do not\<close>

definition blocked :: "scheduler \<Rightarrow> nat \<Rightarrow> bool" where
  "blocked s u = (pc (threads s ! u) = Asleep \<or> pc (threads s ! u) = InTask Forever \<and> \<not> task_signal s)"

text \<open>A thread on its way to the queue, which no handler holds up.\<close>

definition awake :: "scheduler \<Rightarrow> nat \<Rightarrow> bool" where
  "awake s u = (case pc (threads s ! u) of
      WantLock \<Rightarrow> True | Woken \<Rightarrow> True | TaskRelock \<Rightarrow> True | CleanStop again \<Rightarrow> True | CleanPush again \<Rightarrow> True
    | InTask w \<Rightarrow> w \<noteq> Forever \<or> task_signal s | _ \<Rightarrow> False)"

definition helped :: "scheduler \<Rightarrow> bool" where
  "helped s = ((\<exists>u < length (threads s). awake s u) \<or>
     (\<exists>u < length (threads s). owes_signal (threads s ! u)) \<and> (\<exists>u < length (threads s). pc (threads s ! u) = Asleep))"

text \<open>All threads use \<open>run\<close>, no handler throws; anybody may post, stop and restart.\<close>

fun run_action :: "sched_action \<Rightarrow> bool" where
  "run_action (Enter t m) = (m = RunMode)"
| "run_action (HandlerReturn t thrown) = (\<not> thrown)"
| "run_action a = True"

definition run_only_step :: "scheduler \<Rightarrow> sched_action \<Rightarrow> scheduler option" where
  "run_only_step s a = (if run_action a then sched_step s a else None)"

section \<open>The invariant\<close>

definition thread_mode_ok :: "sched_thread \<Rightarrow> bool" where
  "thread_mode_ok th = (mode th = RunMode \<and>
     (case pc th of CleanPush again \<Rightarrow> again | CleanStop again \<Rightarrow> again \<or> private_op_queue th = [] | _ \<Rightarrow> True))"

definition modes_ok :: "scheduler \<Rightarrow> bool" where
  "modes_ok s = (\<not> one_thread s \<and> (\<forall>u < length (threads s). thread_mode_ok (threads s ! u)))"

text \<open>The bit is set while there is something in the queue, and after a stop.\<close>

definition bit_ok :: "scheduler \<Rightarrow> bool" where
  "bit_ok s = (op_queue s \<noteq> [] \<or> stopped s \<longrightarrow> odd (event_state s))"

text \<open>A thread waits in the task only while the scheduler knows that it has to interrupt it.\<close>

definition task_known :: "scheduler \<Rightarrow> bool" where
  "task_known s = (\<forall>u < length (threads s). pc (threads s ! u) = InTask Forever \<and> task_interrupted s \<longrightarrow> task_signal s)"

definition none_stopped :: "scheduler \<Rightarrow> bool" where
  "none_stopped s = (stopped s \<longrightarrow> (\<forall>u < length (threads s). \<not> blocked s u))"

definition woken_ok :: "scheduler \<Rightarrow> bool" where
  "woken_ok s = (\<not> stopped s \<and> op_queue s \<noteq> [] \<and> (\<exists>u < length (threads s). blocked s u) \<longrightarrow> helped s)"

definition wake_inv :: "scheduler \<Rightarrow> bool" where
  "wake_inv s = (sched_ok s \<and> modes_ok s \<and> bit_ok s \<and> task_known s \<and> none_stopped s \<and> woken_ok s)"

lemmas wake_defs = modes_ok_def bit_ok_def task_known_def none_stopped_def woken_ok_def

section \<open>One task\<close>

lemma total_ge2:
  assumes "\<And>th. 0 \<le> f th" "t < length ths" "u < length ths" "t \<noteq> u"
  shows "f (ths ! t) + f (ths ! u) \<le> total f ths"
  using assms(2-4)
proof (induction ths arbitrary: t u)
  case (Cons x ths)
  show ?case
  proof (cases t)
    case 0
    with Cons.prems obtain v where "u = Suc v" "v < length ths" by (cases u) auto
    with 0 show ?thesis using total_ge [of f v ths] assms(1) by (simp add: total_def)
  next
    case (Suc k)
    show ?thesis
    proof (cases u)
      case 0
      with Suc Cons.prems show ?thesis using total_ge [of f k ths] assms(1) by (simp add: total_def)
    next
      case (Suc v)
      have "f (ths ! k) + f (ths ! v) \<le> total f ths"
        by (rule Cons.IH) (use \<open>t = Suc k\<close> Suc Cons.prems in simp_all)
      with \<open>t = Suc k\<close> Suc show ?thesis using assms(1) [of x] by (simp add: total_def)
    qed
  qed
qed simp

lemma one_in_task:
  assumes "sched_ok s" "t < length (threads s)" "u < length (threads s)" "pc (threads s ! t) = InTask w \<or> pc (threads s ! t) = TaskRelock"
    "pc (threads s ! u) = InTask v"
  shows "u = t"
proof (rule ccontr)
  assume "u \<noteq> t"
  then have "tasks (threads s ! u) + tasks (threads s ! t) \<le> total tasks (threads s)"
    by (intro total_ge2) (use assms in simp_all)
  moreover have "tasks (threads s ! u) = 1" "tasks (threads s ! t) = 1" using assms(4,5) by (auto simp: tasks_def)
  ultimately show False
    using assms(1) tasks_in_nonneg [of "op_queue s"] by (simp add: sched_ok_def sums_zero_def task_sum_def split: if_splits)
qed

lemma in_task_known:
  assumes "sched_ok s" "t < length (threads s)" "pc (threads s ! t) = InTask w"
  shows "has_task s" "op_queue s \<noteq> TaskOp # q"
proof -
  have "tasks (threads s ! t) \<le> total tasks (threads s)" by (rule total_ge) (use assms in simp_all)
  then have "1 \<le> total tasks (threads s)" using assms(3) by (simp add: tasks_def)
  then show "has_task s" "op_queue s \<noteq> TaskOp # q"
    using assms(1) tasks_in_nonneg [of "op_queue s"] tasks_in_nonneg [of q]
    by (auto simp: sched_ok_def sums_zero_def task_sum_def split: if_splits)
qed

section \<open>Waking one thread is enough\<close>

text \<open>After \<open>wake_one_thread_and_unlock\<close> by the thread \<open>t\<close>, in a state in which the other threads are
  accounted for, somebody is on the way or nobody is blocked.\<close>

lemma waiter_exists:
  assumes "0 < total waits ths"
  obtains u where "u < length ths" "pc (ths ! u) = Asleep \<or> pc (ths ! u) = Woken"
proof -
  have "\<exists>th \<in> set ths. waits th \<noteq> 0"
  proof (rule ccontr)
    assume "\<not> ?thesis"
    then have "total waits ths = 0" by (simp add: total_def sum_list_0 cong: map_cong)
    with assms show False by simp
  qed
  then obtain u where "u < length ths" "waits (ths ! u) \<noteq> 0" by (auto simp: in_set_conv_nth)
  then show thesis by (intro that) (auto simp: waits_def split: sched_pc.splits)
qed

lemma no_waiters:
  assumes "total waits ths = 0" "u < length ths"
  shows "pc (ths ! u) \<noteq> Asleep"
proof -
  have "waits (ths ! u) \<le> total waits ths" by (rule total_ge) (use assms(2) in simp_all)
  with assms(1) show ?thesis by (auto simp: waits_def)
qed

lemma wake_helps:
  assumes t: "t < length (threads s)"
    and w: "int (event_state s div 2) = total waits (threads s) - waits (threads s ! t)"
    and k: "\<And>u. u < length (threads s) \<Longrightarrow> u \<noteq> t \<Longrightarrow> pc (threads s ! u) = InTask Forever \<Longrightarrow>
        has_task s \<and> (task_interrupted s \<longrightarrow> task_signal s)"
    and s': "length (threads s') = length (threads s)" "\<And>u. u \<noteq> t \<Longrightarrow> threads s' ! u = threads s ! u"
      "0 < event_state s div 2 \<Longrightarrow> owes_signal (threads s' ! t)" "\<not> blocked s' t"
      "task_signal s \<or> \<not> task_interrupted s \<and> has_task s \<and> \<not> 0 < event_state s div 2 \<Longrightarrow> task_signal s'"
    and b: "u < length (threads s)" "blocked s' u"
  shows "helped s'"
proof -
  have ut: "u \<noteq> t" using b(2) s'(4) by blast
  let ?ths = "(threads s)[t := (threads s ! t)\<lparr>pc := Outside\<rparr>]"
  have w': "total waits ?ths = int (event_state s div 2)"
    using t w by (simp add: waits_def [of "_\<lparr>pc := _\<rparr>"])
  show ?thesis
  proof (cases "0 < event_state s div 2")
    case True
    then have "0 < total waits ?ths" using w' by simp
    then obtain v where v: "v < length ?ths" "pc (?ths ! v) = Asleep \<or> pc (?ths ! v) = Woken"
      by (rule waiter_exists)
    then have v': "v \<noteq> t" "v < length (threads s)" "pc (threads s' ! v) = Asleep \<or> pc (threads s' ! v) = Woken"
      using t s'(2) [of v] by (auto simp: nth_list_update split: if_splits)
    show ?thesis
    proof (cases "pc (threads s' ! v) = Woken")
      case True
      then show ?thesis using v' s'(1) by (auto simp: helped_def awake_def intro!: exI [of _ v])
    next
      case False
      then show ?thesis using v' s'(1) s'(3) [OF \<open>0 < event_state s div 2\<close>] t by (auto simp: helped_def)
    qed
  next
    case False
    then have "total waits ?ths = 0" using w' by simp
    then have "pc (?ths ! u) \<noteq> Asleep" by (rule no_waiters) (use b(1) in simp)
    then have "pc (threads s ! u) \<noteq> Asleep" using ut by simp
    then have "pc (threads s ! u) = InTask Forever" "\<not> task_signal s'"
      using b(2) s'(2) [OF ut] by (auto simp: blocked_def)
    then show ?thesis using k [OF b(1) ut] False s'(5) by auto
  qed
qed

section \<open>The loop of \<open>run\<close>\<close>

text \<open>The state in which a thread of \<open>run\<close> looks at the queue: the invariant, except that the queue may have
  grown without the bit, and that the thread itself is nowhere.\<close>

definition looks :: "nat \<Rightarrow> scheduler \<Rightarrow> bool" where
  "looks t s = (t < length (threads s) \<and> \<not> one_thread s \<and> (stopped s \<longrightarrow> odd (event_state s)) \<and>
     int (event_state s div 2) = total waits (threads s) - waits (threads s ! t) \<and>
     (\<forall>u < length (threads s). u \<noteq> t \<longrightarrow> thread_mode_ok (threads s ! u) \<and> (pc (threads s ! u) = InTask Forever \<longrightarrow>
        has_task s \<and> (\<forall>q. op_queue s \<noteq> TaskOp # q) \<and> (task_interrupted s \<longrightarrow> task_signal s)) \<and> (stopped s \<longrightarrow> \<not> blocked s u)) \<and>
     mode (threads s ! t) = RunMode)"

lemma do_run_one_wakes:
  assumes "looks t s"
  shows "modes_ok (do_run_one t s)" "bit_ok (do_run_one t s)" "task_known (do_run_one t s)"
    "none_stopped (do_run_one t s)" "woken_ok (do_run_one t s)"
proof -
  let ?s = "do_run_one t s"
  have t: "t < length (threads s)" and one: "\<not> one_thread s" using assms by (simp_all add: looks_def)
  have run: "length (threads ?s) = length (threads s)" "\<And>u. u \<noteq> t \<Longrightarrow> threads ?s ! u = threads s ! u"
    using run_results(1) [of t s, THEN run_result_threads, OF t] by auto
  have m: "thread_mode_ok (threads ?s ! t)"
    using assms run_results(1) [of t s, THEN run_result_threads, OF t] t
    by (auto simp: looks_def thread_mode_ok_def run_pc_def split: sched_pc.splits)
  show "modes_ok ?s"
  proof -
    have "one_thread ?s = one_thread s"
      by (auto simp: do_run_one_def event_sleep_def enter_task_def call_front_def goto_def Let_def split: list.split sched_op.split)
    moreover have "thread_mode_ok (threads ?s ! u)" if "u < length (threads s)" for u
      using assms m run(2) [of u] that by (cases "u = t") (simp_all add: looks_def)
    ultimately show ?thesis using one run(1) by (simp add: modes_ok_def)
  qed
  show "bit_ok ?s"
    using assms one by (auto simp: looks_def bit_ok_def do_run_one_def event_sleep_def enter_task_def call_front_def goto_def Let_def
        split: list.splits sched_op.splits)
  show "task_known ?s"
    using assms t by (auto simp: looks_def task_known_def do_run_one_def event_sleep_def enter_task_def call_front_def goto_def Let_def
        nth_list_update split: list.splits sched_op.splits if_splits)
  show "none_stopped ?s"
    using assms t by (auto simp: looks_def none_stopped_def blocked_def do_run_one_def event_sleep_def enter_task_def call_front_def goto_def Let_def
        nth_list_update split: list.splits sched_op.splits if_splits)
  show "woken_ok ?s"
    unfolding woken_ok_def
  proof (intro impI, elim conjE exE)
    fix u assume "\<not> stopped ?s" "op_queue ?s \<noteq> []" "u < length (threads ?s)" "blocked ?s u"
    show "helped ?s"
    proof (cases "op_queue s")
      case Nil
      then show ?thesis using \<open>op_queue ?s \<noteq> []\<close>
        by (simp add: do_run_one_def event_sleep_def goto_def split: if_splits)
    next
      case (Cons x q)
      show ?thesis
      proof (cases "stopped s")
        case True
        then show ?thesis using \<open>\<not> stopped ?s\<close> by (simp add: do_run_one_def goto_def)
      next
        case False
        show ?thesis
        proof (cases x)
          case TaskOp
          then have "pc (threads ?s ! t) = InTask (if q \<noteq> [] then NoWait else Forever)" "op_queue ?s = q"
            using False Cons t one by (auto simp: do_run_one_def enter_task_def goto_def Let_def)
          then show ?thesis using \<open>op_queue ?s \<noteq> []\<close> t run(1)
            by (auto simp: helped_def awake_def intro!: exI [of _ t])
        next
          case (HandlerOp h)
          then have e: "?s = goto t (InHandler h) (wake_one_thread_and_unlock t (s\<lparr>op_queue := q, called := called s @ [h]\<rparr>))"
            using False Cons one \<open>op_queue ?s \<noteq> []\<close>
            by (auto simp: do_run_one_def call_front_def goto_def Let_def)
          show ?thesis
          proof (rule wake_helps [OF t])
            show "u < length (threads s)" "blocked ?s u" using \<open>u < length (threads ?s)\<close> run(1) \<open>blocked ?s u\<close> by simp_all
          qed (use assms t run in \<open>auto simp: looks_def e goto_def blocked_def owe_def signal_waiters [unfolded One_nat_def]\<close>)
        qed
      qed
    qed
  qed
qed

section \<open>Every step\<close>

lemma wake_inv_looks:
  assumes inv: "wake_inv s" and t: "t < length (threads s)" and pc: "pc (threads s ! t) \<noteq> Asleep"
    and s1: "threads s1 = (threads s)[t := th]" "mode th = RunMode" "waits th = waits (threads s ! t)"
      "one_thread s1 = one_thread s" "stopped s1 = stopped s" "odd (event_state s1) = odd (event_state s)"
      "event_state s1 div 2 = event_state s div 2 - nat (waits (threads s ! t))" "task_signal s1 = task_signal s" "has_task s1 = has_task s"
    and q: "pc (threads s ! t) = TaskRelock \<or> task_interrupted s1 = task_interrupted s \<and>
      op_queue s1 = op_queue s @ List.map HandlerOp hs"
  shows "looks t s1"
proof -
  have ok: "sched_ok s" using inv by (simp add: wake_inv_def)
  have w: "int (event_state s div 2) = total waits (threads s)"
    using ok by (simp add: sched_ok_def sums_zero_def wait_sum_def)
  have ge: "waits (threads s ! t) \<le> total waits (threads s)" by (rule total_ge) (use t in simp_all)
  have "int (event_state s1 div 2) = total waits (threads s) - waits (threads s ! t)"
    unfolding s1(7) using w ge accounts_nonneg(4) [of "threads s ! t"] by linarith
  then have e: "int (event_state s1 div 2) = total waits (threads s1) - waits (threads s1 ! t)"
    using t s1(1,3) by simp
  have "has_task s1 \<and> (\<forall>q. op_queue s1 \<noteq> TaskOp # q) \<and> (task_interrupted s1 \<longrightarrow> task_signal s1)"
    if u: "u < length (threads s)" "u \<noteq> t" "pc (threads s ! u) = InTask Forever" for u
  proof -
    have "pc (threads s ! t) \<noteq> TaskRelock" using one_in_task [OF ok t u(1) _ u(3)] u(2) by blast
    then have q': "task_interrupted s1 = task_interrupted s" "op_queue s1 = op_queue s @ List.map HandlerOp hs" using q by auto
    have "op_queue s @ List.map HandlerOp hs \<noteq> TaskOp # r" for r
      using in_task_known(2) [OF ok u(1,3)] by (cases "op_queue s") (auto simp: map_eq_Cons_conv)
    then show ?thesis
      using in_task_known(1) [OF ok u(1,3)] q' inv u s1(8,9) by (auto simp: wake_inv_def task_known_def)
  qed
  moreover have "thread_mode_ok (threads s ! u)" "stopped s \<Longrightarrow> \<not> blocked s u" if "u < length (threads s)" for u
    using inv that by (auto simp: wake_inv_def modes_ok_def none_stopped_def)
  moreover have "\<not> one_thread s" "stopped s \<Longrightarrow> odd (event_state s)"
    using inv by (auto simp: wake_inv_def modes_ok_def bit_ok_def)
  ultimately show ?thesis
    using t s1 e by (auto simp: looks_def blocked_def)
qed

lemma do_run_one_inv: "looks t s \<Longrightarrow> sched_ok (do_run_one t s) \<Longrightarrow> wake_inv (do_run_one t s)"
  by (simp add: wake_inv_def do_run_one_wakes)

lemma wake_inv_mode: "wake_inv s \<Longrightarrow> t < length (threads s) \<Longrightarrow> mode (threads s ! t) = RunMode"
  by (simp add: wake_inv_def modes_ok_def thread_mode_ok_def)

lemma awake_cong: "threads s' ! v = threads s ! v \<Longrightarrow> task_signal s' = task_signal s \<Longrightarrow> awake s' v = awake s v"
  by (simp add: awake_def split: sched_pc.split)

lemma thread_mode_ok_owe [simp]: "thread_mode_ok (owe st th) = thread_mode_ok th" "thread_mode_ok (wake th) = thread_mode_ok th"
  "thread_mode_ok (th\<lparr>owes_signal := b\<rparr>) = thread_mode_ok th"
  by (auto simp: thread_mode_ok_def split: sched_pc.split)

lemma wake_inv_stop:
  assumes inv: "wake_inv s"
  shows "wake_inv (stop_all_threads s)"
proof -
  have ok0: "sched_ok s" using inv by (simp add: wake_inv_def)
  have h: "has_task s" if "u < length (threads s)" "pc (threads s ! u) = InTask w" for u w
    using in_task_known(1) [OF ok0 that] .
  have "modes_ok (stop_all_threads s)"
    using inv by (auto simp: wake_inv_def modes_ok_def thread_mode_ok_def split: sched_pc.splits)
  moreover have "task_known (stop_all_threads s)" "none_stopped (stop_all_threads s)"
    using inv h by (auto simp: wake_inv_def task_known_def none_stopped_def blocked_def split: if_splits)
  ultimately show ?thesis
    using sched_ok_stop [OF ok0] by (simp add: wake_inv_def bit_ok_def woken_ok_def)
qed

text \<open>A change of the thread's own entry, while the scheduler is stopped or when the thread has not been a help and the queue and
  the event are as before.\<close>

lemma wake_inv_own:
  assumes inv: "wake_inv s" and t: "t < length (threads s)" and ok: "sched_ok s'" and th: "thread_mode_ok th"
    and s': "threads s' = (threads s)[t := th]" "one_thread s' = one_thread s" "stopped s' = stopped s" "op_queue s' = op_queue s"
      "event_state s' = event_state s" "task_interrupted s' = task_interrupted s" "task_signal s' = task_signal s"
    and pc: "pc th \<noteq> Asleep" "pc th \<noteq> InTask Forever" "owes_signal th = owes_signal (threads s ! t)"
    and aw: "awake s t \<Longrightarrow> stopped s \<or> awake s' t" "pc (threads s ! t) \<noteq> Asleep"
  shows "wake_inv s'"
proof -
  have same: "threads s' ! u = threads s ! u" if "u \<noteq> t" for u using that s'(1) by simp
  have own: "threads s' ! t = th" using t s'(1) by simp
  have len: "length (threads s') = length (threads s)" by (simp add: s'(1))
  have b: "u \<noteq> t \<and> blocked s u" if "blocked s' u" for u
    using that own pc same [of u] s'(7) by (cases "u = t") (auto simp: blocked_def)
  have mi: "thread_mode_ok (threads s ! u)" "pc (threads s ! u) = InTask Forever \<and> task_interrupted s \<longrightarrow> task_signal s"
    "stopped s \<longrightarrow> \<not> blocked s u" if "u < length (threads s)" for u
    using inv that by (auto simp: wake_inv_def modes_ok_def task_known_def none_stopped_def)
  have "modes_ok s'" unfolding modes_ok_def len s'(2)
  proof (intro conjI allI impI)
    show "\<not> one_thread s" using inv by (simp add: wake_inv_def modes_ok_def)
    show "thread_mode_ok (threads s' ! u)" if "u < length (threads s)" for u
      using that mi(1) own th same [of u] by (cases "u = t") simp_all
  qed
  moreover have "bit_ok s'" using inv s' by (simp add: wake_inv_def bit_ok_def)
  moreover have "task_known s'" unfolding task_known_def len s'(6,7)
  proof (intro allI impI)
    fix u assume "u < length (threads s)" "pc (threads s' ! u) = InTask Forever \<and> task_interrupted s"
    then show "task_signal s" using mi(2) own pc(2) same [of u] by (cases "u = t") simp_all
  qed
  moreover have "none_stopped s'" using mi(3) b len s'(3) by (auto simp: none_stopped_def)
  moreover have "woken_ok s'" unfolding woken_ok_def
  proof (intro impI, elim conjE exE)
    fix u assume st: "\<not> stopped s'" and q: "op_queue s' \<noteq> []" and u: "u < length (threads s')" "blocked s' u"
    then have "helped s" using inv b len s'(3,4) by (auto simp: wake_inv_def woken_ok_def)
    then show "helped s'"
      unfolding helped_def
    proof (elim disjE exE conjE)
      fix v assume v: "v < length (threads s)" "awake s v"
      have "awake s' v"
        using v aw(1) st s'(3) awake_cong [OF same s'(7), of v] by (cases "v = t") auto
      then show "(\<exists>u<length (threads s'). awake s' u) \<or>
          (\<exists>u<length (threads s'). owes_signal (threads s' ! u)) \<and> (\<exists>u<length (threads s'). pc (threads s' ! u) = Asleep)"
        using v(1) len by auto
    next
      fix v w assume v: "v < length (threads s)" "owes_signal (threads s ! v)" and w: "w < length (threads s)" "pc (threads s ! w) = Asleep"
      have "owes_signal (threads s' ! v)" using v own same [of v] pc(3) by (cases "v = t") simp_all
      moreover have "pc (threads s' ! w) = Asleep" using w aw(2) same [of w] by (cases "w = t") simp_all
      ultimately show "(\<exists>u<length (threads s'). awake s' u) \<or>
          (\<exists>u<length (threads s'). owes_signal (threads s' ! u)) \<and> (\<exists>u<length (threads s'). pc (threads s' ! u) = Asleep)"
        using v(1) w(1) len by auto
    qed
  qed
  ultimately show ?thesis using ok by (simp add: wake_inv_def)
qed

text \<open>Pushing to the queue and waking.\<close>

lemma wake_inv_push:
  assumes inv: "wake_inv s" and t: "t < length (threads s)" and ok: "sched_ok s'" and th: "thread_mode_ok th"
    and s': "threads s' = (threads s)[t := owe (event_state s) th]" "one_thread s' = one_thread s" "stopped s' = stopped s"
      "event_state s' = signal_bit (event_state s)"
      "task_interrupted s' = (task_interrupted s \<or> has_task s' \<and> \<not> 1 < signal_bit (event_state s))"
      "task_signal s' = (task_signal s \<or> \<not> task_interrupted s \<and> has_task s' \<and> \<not> 1 < signal_bit (event_state s))"
      "has_task s \<Longrightarrow> has_task s'"
    and pc: "pc th \<noteq> Asleep" "\<And>w. pc th \<noteq> InTask w" "waits (threads s ! t) = 0"
  shows "wake_inv s'"
proof -
  have ok0: "sched_ok s" using inv by (simp add: wake_inv_def)
  have same: "threads s' ! u = threads s ! u" if "u \<noteq> t" for u using that s'(1) by simp
  have own: "threads s' ! t = owe (event_state s) th" using t s'(1) by simp
  have len: "length (threads s') = length (threads s)" by (simp add: s'(1))
  have h: "has_task s" if "u < length (threads s)" "pc (threads s ! u) = InTask w" for u w
    using in_task_known(1) [OF ok0 that] .
  have mi: "thread_mode_ok (threads s ! u)" "pc (threads s ! u) = InTask Forever \<and> task_interrupted s \<longrightarrow> task_signal s"
    "stopped s \<longrightarrow> \<not> blocked s u" if "u < length (threads s)" for u
    using inv that by (auto simp: wake_inv_def modes_ok_def task_known_def none_stopped_def)
  have ow: "thread_mode_ok (owe (event_state s) th)" using th by simp
  have "modes_ok s'" unfolding modes_ok_def len s'(2)
  proof (intro conjI allI impI)
    show "\<not> one_thread s" using inv by (simp add: wake_inv_def modes_ok_def)
    show "thread_mode_ok (threads s' ! u)" if "u < length (threads s)" for u
      using that mi(1) own ow same [of u] by (cases "u = t") simp_all
  qed
  moreover have "bit_ok s'" using s'(4) by (simp add: bit_ok_def)
  moreover have "task_known s'" unfolding task_known_def len
  proof (intro allI impI)
    fix u assume u: "u < length (threads s)" "pc (threads s' ! u) = InTask Forever \<and> task_interrupted s'"
    then have "u \<noteq> t" using own pc(2) by auto
    then show "task_signal s'" using u mi(2) [OF u(1)] same [of u] s'(5,6) by auto
  qed
  moreover have "none_stopped s'" unfolding none_stopped_def len s'(3)
  proof (intro impI allI)
    fix u assume "stopped s" and u: "u < length (threads s)"
    then show "\<not> blocked s' u"
      using mi(3) [OF u] own pc same [of u] s'(6) by (cases "u = t") (auto simp: blocked_def)
  qed
  moreover have "woken_ok s'" unfolding woken_ok_def
  proof (intro impI, elim conjE exE)
    fix u assume u: "u < length (threads s')" "blocked s' u"
    have w: "int (event_state s div 2) = total waits (threads s)" using ok0 by (simp add: sched_ok_def sums_zero_def wait_sum_def)
    show "helped s'"
    proof (rule wake_helps [OF t])
      show "u < length (threads s)" "blocked s' u" using u len by simp_all
      show "\<And>u. u < length (threads s) \<Longrightarrow> u \<noteq> t \<Longrightarrow> pc (threads s ! u) = InTask Forever \<Longrightarrow>
          has_task s \<and> (task_interrupted s \<longrightarrow> task_signal s)" using mi(2) h by auto
      show "task_signal s'" if "task_signal s \<or> \<not> task_interrupted s \<and> has_task s \<and> \<not> 0 < event_state s div 2"
        using that s'(6,7) by (auto simp: signal_waiters [unfolded One_nat_def])
    qed (use w pc own same len in \<open>auto simp: blocked_def owe_def signal_waiters [unfolded One_nat_def]\<close>)
  qed
  ultimately show ?thesis using ok by (simp add: wake_inv_def)
qed

lemma wake_inv_acquire:
  assumes inv: "wake_inv s" and t: "t < length (threads s)" and a: "acquire t s = Some s'" and ok: "sched_ok s'"
    and owes: "\<not> owes_signal (threads s ! t)"
  shows "wake_inv s'"
proof -
  note m = wake_inv_mode [OF inv t]
  have ok0: "sched_ok s" using inv by (simp add: wake_inv_def)
  show ?thesis
  proof (cases "pc (threads s ! t)")
    case WantLock
    have l: "looks t s"
      by (rule wake_inv_looks [OF inv t, where hs = "[]" and th = "threads s ! t"]) (use WantLock m in \<open>simp_all add: waits_def\<close>)
    have "s' = do_run_one t s" using a WantLock m by (simp add: acquire_def run_body_def)
    with do_run_one_inv [OF l] ok show ?thesis by simp
  next
    case Woken
    let ?s = "s\<lparr>event_state := event_state s - 2\<rparr>"
    have w1: "waits (threads s ! t) = 1" using Woken by (simp add: waits_def)
    have e: "2 \<le> event_state s" using ok0 by (intro waiters_counted [OF _ t w1]) (simp add: sched_ok_def)
    show ?thesis
    proof (cases "even (event_state ?s)")
      case True
      then have "even (event_state s)" using e by simp
      then have q: "op_queue s = []" "\<not> stopped s" using inv by (auto simp: wake_inv_def bit_ok_def)
      have s': "s' = event_sleep t ?s" using a Woken m True by (simp add: acquire_def after_event_def Let_def)
      show ?thesis using inv q t ok s'
        by (auto simp: wake_inv_def wake_defs event_sleep_def goto_def nth_list_update thread_mode_ok_def split: if_splits)
    next
      case False
      have l: "looks t ?s"
        by (rule wake_inv_looks [OF inv t, where hs = "[]" and th = "threads s ! t"]) (use Woken m w1 e in \<open>auto\<close>)
      have "s' = do_run_one t ?s" using a Woken m False by (simp add: acquire_def after_event_def run_body_def Let_def)
      with do_run_one_inv [OF l] ok show ?thesis by simp
    qed
  next
    case TaskRelock
    have l: "looks t (task_cleanup t s)"
      by (rule wake_inv_looks [OF inv t, where th = "(threads s ! t)\<lparr>private_op_queue := []\<rparr>"])
        (use TaskRelock m in \<open>simp_all add: task_cleanup_def waits_def\<close>)
    have "s' = do_run_one t (task_cleanup t s)" using a TaskRelock m by (simp add: acquire_def after_task_def Let_def)
    with do_run_one_inv [OF l] ok show ?thesis by simp
  next
    case (CleanPush again)
    let ?s = "set_thread t (\<lambda>th. th\<lparr>private_op_queue := []\<rparr>) (s\<lparr>op_queue := op_queue s @ List.map HandlerOp (private_op_queue (threads s ! t))\<rparr>)"
    have "thread_mode_ok (threads s ! t)" using inv t by (simp add: wake_inv_def modes_ok_def)
    then have again by (simp add: CleanPush thread_mode_ok_def)
    have l: "looks t ?s"
      by (rule wake_inv_looks [OF inv t, where th = "(threads s ! t)\<lparr>private_op_queue := []\<rparr>"])
        (use CleanPush m in \<open>simp_all add: waits_def\<close>)
    have "s' = do_run_one t ?s" using a CleanPush m t \<open>again\<close> by (simp add: acquire_def clean_push_def run_body_def Let_def)
    with do_run_one_inv [OF l] ok show ?thesis by simp
  next
    case (CleanStop again)
    have s': "s' = after_clean t again (stop_all_threads s)" using a CleanStop by (simp add: acquire_def)
    let ?p = "if private_op_queue (threads s ! t) \<noteq> [] then CleanPush again else if again then WantLock else Outside"
    have "thread_mode_ok (threads s ! t)" using inv t by (simp add: wake_inv_def modes_ok_def)
    then have th: "thread_mode_ok ((threads s ! t)\<lparr>pc := ?p\<rparr>)" using CleanStop by (auto simp: thread_mode_ok_def)
    show ?thesis
      by (rule wake_inv_own [OF wake_inv_stop [OF inv] _ ok th])
        (use t CleanStop in \<open>auto simp: s' after_clean_def goto_def wake_def\<close>)
  next
    case (Posting g hs)
    let ?p = "case g of None \<Rightarrow> Outside | Some h \<Rightarrow> InHandler h"
    have s': "s' = post_push t hs g s" using a Posting by (simp add: acquire_def)
    have "thread_mode_ok (threads s ! t)" using inv t by (simp add: wake_inv_def modes_ok_def)
    then have th: "thread_mode_ok ((threads s ! t)\<lparr>pc := ?p\<rparr>)" by (auto simp: thread_mode_ok_def split: option.split)
    show ?thesis
      by (rule wake_inv_push [OF inv t ok th])
        (use t Posting in \<open>auto simp: s' post_push_def goto_def waits_def split: option.splits\<close>)
  qed (use a in \<open>auto simp: acquire_def\<close>)
qed

text \<open>A step after which the thread is on its way, or after which nobody is blocked who has not been before.\<close>

lemma wake_inv_awake:
  assumes inv: "wake_inv s" and t: "t < length (threads s)" and ok: "sched_ok s'" and th: "thread_mode_ok th"
    and s': "threads s' = (threads s)[t := th]" "one_thread s' = one_thread s" "stopped s' = stopped s" "op_queue s' = op_queue s"
      "event_state s' = event_state s" "task_interrupted s' = task_interrupted s"
    and sig: "task_signal s' = task_signal s \<or> (\<forall>u < length (threads s). \<forall>w. u \<noteq> t \<longrightarrow> pc (threads s ! u) \<noteq> InTask w)"
    and aw: "pc th = WantLock \<or> pc th = Woken \<or> pc th = TaskRelock \<or> pc th = CleanStop again \<or> pc th = CleanPush again"
  shows "wake_inv s'"
proof -
  have same: "threads s' ! u = threads s ! u" if "u \<noteq> t" for u using that s'(1) by simp
  have own: "threads s' ! t = th" using t s'(1) by simp
  have len: "length (threads s') = length (threads s)" by (simp add: s'(1))
  have mi: "thread_mode_ok (threads s ! u)" "pc (threads s ! u) = InTask Forever \<and> task_interrupted s \<longrightarrow> task_signal s"
    "stopped s \<longrightarrow> \<not> blocked s u" if "u < length (threads s)" for u
    using inv that by (auto simp: wake_inv_def modes_ok_def task_known_def none_stopped_def)
  have b: "u \<noteq> t \<and> blocked s u" if "u < length (threads s)" "blocked s' u" for u
    using that own same [of u] aw sig by (cases "u = t") (auto simp: blocked_def)
  have "modes_ok s'" unfolding modes_ok_def len s'(2)
  proof (intro conjI allI impI)
    show "\<not> one_thread s" using inv by (simp add: wake_inv_def modes_ok_def)
    show "thread_mode_ok (threads s' ! u)" if "u < length (threads s)" for u
      using that mi(1) own th same [of u] by (cases "u = t") simp_all
  qed
  moreover have "bit_ok s'" using inv s' by (simp add: wake_inv_def bit_ok_def)
  moreover have "task_known s'" unfolding task_known_def len s'(6)
  proof (intro allI impI)
    fix u assume "u < length (threads s)" "pc (threads s' ! u) = InTask Forever \<and> task_interrupted s"
    then show "task_signal s'" using mi(2) own aw same [of u] sig by (cases "u = t") auto
  qed
  moreover have "none_stopped s'" using mi(3) b len s'(3) by (auto simp: none_stopped_def)
  moreover have "woken_ok s'" unfolding woken_ok_def helped_def
    using aw own t len by (auto simp: awake_def intro!: exI [of _ t])
  ultimately show ?thesis using ok by (simp add: wake_inv_def)
qed

lemma wake_inv_call:
  assumes inv: "wake_inv s" and t: "t < length (threads s)" and c: "caller t s = Some g" and a: "call_step t g a s = Some s'"
    and ok: "sched_ok s'"
  shows "wake_inv s'"
proof -
  have p: "pc (threads s ! t) \<noteq> Asleep" "\<not> awake s t" "\<And>w. pc (threads s ! t) \<noteq> InTask w" "waits (threads s ! t) = 0"
    "\<And>c. pc (threads s ! t) \<noteq> CleanPush c" "\<And>c. pc (threads s ! t) \<noteq> CleanStop c"
    using caller_pc [OF c] by (auto simp: awake_def waits_def split: option.splits)
  have m: "thread_mode_ok (threads s ! t)" using inv t by (simp add: wake_inv_def modes_ok_def)
  then have m': "thread_mode_ok ((threads s ! t)\<lparr>private_outstanding_work := w, private_op_queue := q\<rparr>)"
    "thread_mode_ok ((threads s ! t)\<lparr>private_op_queue := q\<rparr>)" "thread_mode_ok ((threads s ! t)\<lparr>pc := Posting g hs\<rparr>)" for w q hs
    using p by (auto simp: thread_mode_ok_def split: sched_pc.splits)
  note own = wake_inv_own [OF inv t ok]
  show ?thesis
  proof (cases a)
    case (Post x hs cont)
    show ?thesis
    proof (cases "(one_thread s \<or> cont) \<and> can_dispatch t s")
      case True
      then show ?thesis using a Post p m'
        by (intro own [where th = "(threads s ! t)\<lparr>private_outstanding_work := private_outstanding_work (threads s ! t) + int (length hs),
            private_op_queue := private_op_queue (threads s ! t) @ hs\<rparr>"])
          (auto simp: post_immediate_completions_def can_dispatch_def)
    next
      case False
      then show ?thesis using a Post p m'
        by (intro own [where th = "(threads s ! t)\<lparr>pc := Posting g hs\<rparr>"])
          (auto simp: post_immediate_completions_def can_dispatch_def goto_def)
    qed
  next
    case (Defer x hs)
    show ?thesis
    proof (cases "hs = []")
      case True
      then show ?thesis using a Defer p m
        by (intro own [where th = "threads s ! t"]) (auto simp: post_deferred_completions_def split: if_splits)
    next
      case False
      show ?thesis
      proof (cases "one_thread s \<and> can_dispatch t s")
        case True
        then show ?thesis using a Defer False p m'
          by (intro own [where th = "(threads s ! t)\<lparr>private_op_queue := private_op_queue (threads s ! t) @ hs\<rparr>"])
            (auto simp: post_deferred_completions_def can_dispatch_def split: if_splits)
      next
        case nl: False
        then show ?thesis using a Defer False p m'
          by (intro own [where th = "(threads s ! t)\<lparr>pc := Posting g hs\<rparr>"])
            (auto simp: post_deferred_completions_def can_dispatch_def goto_def split: if_splits)
      qed
    qed
  next
    case (Dispatch x h)
    then show ?thesis using a p m'
      by (intro own [where th = "(threads s ! t)\<lparr>pc := Posting g [h]\<rparr>"]) (auto simp: do_dispatch_def goto_def)
  next
    case (StartAsync x h)
    then show ?thesis using a p m by (intro own [where th = "threads s ! t"]) auto
  next
    case (Stop x)
    then show ?thesis using a wake_inv_stop [OF inv] by simp
  next
    case (Restart x)
    then have s': "s' = s\<lparr>stopped := False\<rparr>" using a by simp
    have b: "blocked s' u = blocked s u" for u by (simp add: s' blocked_def)
    show ?thesis
    proof (cases "stopped s")
      case True
      then have "\<not> (\<exists>u < length (threads s). blocked s u)" using inv by (simp add: wake_inv_def none_stopped_def)
      then have "woken_ok s'" using b by (auto simp: woken_ok_def s')
      then show ?thesis using inv ok by (simp add: wake_inv_def modes_ok_def bit_ok_def task_known_def none_stopped_def s')
    next
      case False
      then have "s' = s" by (cases s) (simp add: s')
      then show ?thesis using inv by simp
    qed
  next
    case (InitTask x)
    show ?thesis
    proof (cases "shut_down s \<or> has_task s")
      case True
      then show ?thesis using a InitTask inv by (simp add: init_task_def)
    next
      case False
      then show ?thesis using a InitTask p m
        by (intro wake_inv_push [OF inv t ok, where th = "threads s ! t"]) (auto simp: init_task_def)
    qed
  qed (use a in auto)
qed

lemma wake_inv_thread_step:
  assumes inv: "wake_inv s" and t: "actor a < length (threads s)" and owes: "\<not> owes_signal (threads s ! actor a)"
    and a: "thread_step s a = Some s'" "run_action a" and ok: "sched_ok s'"
  shows "wake_inv s'"
  using a(1)
proof (cases rule: thread_step_cases)
  case (enter t m)
  let ?p = "if outstanding_work s = 0 then CleanStop False else WantLock"
  have "m = RunMode" using a(2) enter(1) by simp
  then show ?thesis using enter t
    by (intro wake_inv_awake [OF inv _ ok, where t = t and again = False and
          th = "(threads s ! t)\<lparr>mode := m, private_op_queue := [], private_outstanding_work := 0, ran := 0, pc := ?p\<rparr>"])
      (auto simp: enter_def thread_mode_ok_def)
next
  case (acquire t)
  then show ?thesis using wake_inv_acquire [OF inv _ _ ok] t owes by simp
next
  case (task t hs)
  obtain w where w: "pc (threads s ! t) = InTask w"
    using task(2) by (auto simp: task_returns_def split: sched_pc.splits)
  have t': "t < length (threads s)" using t task(1) by simp
  have ok0: "sched_ok s" using inv by (simp add: wake_inv_def)
  have one: "\<forall>u < length (threads s). \<forall>v. u \<noteq> t \<longrightarrow> pc (threads s ! u) \<noteq> InTask v"
    using one_in_task [OF ok0 t'] w by blast
  have m: "mode (threads s ! t) = RunMode" by (rule wake_inv_mode [OF inv t'])
  show ?thesis using task w one m
    by (intro wake_inv_awake [OF inv t' ok, where again = False and
          th = "(threads s ! t)\<lparr>private_op_queue := private_op_queue (threads s ! t) @ hs, private_outstanding_work := 0, pc := TaskRelock\<rparr>"])
      (auto simp: task_returns_def thread_mode_ok_def split: if_splits)
next
  case (handler t thrown h)
  have t': "t < length (threads s)" using t handler(1) by simp
  have m: "mode (threads s ! t) = RunMode" by (rule wake_inv_mode [OF inv t'])
  let ?th = "threads s' ! t"
  have n: "\<not> thrown" using a(2) handler(1) by simp
  show ?thesis
    by (rule wake_inv_awake [OF inv t' ok, where again = True and th = ?th])
      (use handler n m t' in \<open>auto simp: work_cleanup_def after_clean_def goto_def Let_def goes_on_def thread_mode_ok_def\<close>)
next
  case (call g)
  then show ?thesis using wake_inv_call [OF inv t _ _ ok] by blast
qed

lemma wake_inv_step:
  assumes inv: "wake_inv s" and step: "run_only_step s a = Some s'"
  shows "wake_inv s'"
proof -
  have a: "run_action a" "sched_step s a = Some s'" using step by (auto simp: run_only_step_def split: if_splits)
  have ok0: "sched_ok s" using inv by (simp add: wake_inv_def)
  have ok: "sched_ok s'" by (rule sched_ok_step [OF ok0 a(2)])
  have m: "thread_mode_ok (threads s ! u)" if "u < length (threads s)" for u
    using inv that by (auto simp: wake_inv_def modes_ok_def)
  show ?thesis
    using a(2)
  proof (cases rule: sched_step_cases)
    case (wake t)
    then show ?thesis using m
      by (intro wake_inv_awake [OF inv _ ok, where t = t and th = "AsioScheduler.wake (threads s ! t)"]) auto
  next
    case (signal t u)
    have pcs: "pc (threads s' ! v) = (if v = u \<and> pc (threads s ! u) = Asleep then Woken else pc (threads s ! v))" for v
      using signal by (cases "v = u"; cases "v = t") (auto simp: nth_list_update)
    have mode: "thread_mode_ok (threads s' ! v)" if "v < length (threads s)" for v
      using signal m [OF that] by (cases "v = u"; cases "v = t") (auto simp: nth_list_update)
    have len: "length (threads s') = length (threads s)" and fields: "task_signal s' = task_signal s" "one_thread s' = one_thread s"
      "op_queue s' = op_queue s" "stopped s' = stopped s" "event_state s' = event_state s" "task_interrupted s' = task_interrupted s"
      using signal(6) by simp_all
    have b: "blocked s v" if "blocked s' v" for v
      using that by (auto simp: blocked_def pcs fields split: if_splits)
    have "helped s'" if "helped s"
    proof (cases "pc (threads s ! u) = Asleep")
      case True
      then have "awake s' u" by (simp add: awake_def pcs)
      then show ?thesis using signal(4) len by (auto simp: helped_def)
    next
      case False
      then have none: "\<forall>th \<in> set (threads s). pc th \<noteq> Asleep" using signal(5) by simp
      then have "\<exists>v < length (threads s). awake s v" using that by (auto simp: helped_def)
      moreover have "awake s' v = awake s v" for v
        using False by (auto simp: awake_def pcs fields split: sched_pc.split)
      ultimately show ?thesis using len by (auto simp: helped_def)
    qed
    then show ?thesis
      using inv ok mode b len unfolding wake_inv_def wake_defs
      by (auto simp: pcs fields split: if_splits)
  next
    case shutdown
    then have o: "\<forall>u < length (threads s). pc (threads s ! u) = Outside"
      by (auto simp: scheduler_shutdown_def split: if_splits)
    show ?thesis using shutdown inv o ok
      by (auto simp: scheduler_shutdown_def wake_inv_def wake_defs blocked_def split: if_splits)
  next
    case thread
    then show ?thesis using wake_inv_thread_step [OF inv] a(1) ok by blast
  qed
qed

interpretation wakeups: invariant_system run_only_step "new_scheduler False n" wake_inv for n
proof unfold_locales
  have "sched_ok (new_scheduler False n)" by (rule scheduler.inv_start)
  then show "wake_inv (new_scheduler False n)"
    by (simp add: wake_inv_def wake_defs) (simp add: new_scheduler_def outside_thread_def thread_mode_ok_def blocked_def)
qed (rule wake_inv_step)

section \<open>No work waits while threads sleep\<close>

text \<open>C12: When every thread that enters the scheduler calls \<open>run\<close> and no handler throws, then, whoever posts, stops and restarts,
  there is never something in the queue while a thread sleeps (in the event or in the task) and nobody is on the way to take it: some
  thread is about to get the mutex, or owes the sleeping ones a signal.\<close>
theorem run_never_stalls:
  assumes "reachable run_only_step (new_scheduler False n) s" "\<not> stopped s" "op_queue s \<noteq> []" "t < length (threads s)" "blocked s t"
  shows "helped s"
  using wakeups.reachable_inv [OF assms(1)] assms(2-5) by (auto simp: wake_inv_def woken_ok_def)

text \<open>The thread 0 waits in the task, 1 in the event, and 2 has posted and owes the signal.\<close>

definition stall_acts :: "sched_action list" where
  "stall_acts = [InitTask 2, StartAsync 2 5, Enter 0 RunMode, Acquire 0, Enter 1 RunMode, Acquire 1, Post 2 [7] False, Acquire 2]"

lemma stall_run: "run run_only_step (new_scheduler False 3) stall_acts = Some
  \<lparr>one_thread = False, op_queue = [HandlerOp 7], outstanding_work = 2, stopped = False, has_task = True,
   task_interrupted = False, event_state = 3, task_signal = False, pending = [5],
   threads = [outside_thread\<lparr>pc := InTask Forever\<rparr>, outside_thread\<lparr>pc := Asleep\<rparr>, outside_thread\<lparr>owes_signal := True\<rparr>],
   shut_down = False, posted = [5, 7], called = [], destroyed = []\<rparr>"
  by (simp add: stall_acts_def new_scheduler_def run_only_step_def sched_eval numeral_3_eq_3 numeral_2_eq_2)

lemma run_never_stalls_witness: "helped (the (run run_only_step (new_scheduler False 3) stall_acts))"
proof (rule run_never_stalls [where t = 1])
  show "reachable run_only_step (new_scheduler False 3) (the (run run_only_step (new_scheduler False 3) stall_acts))"
    by (rule run_reachable [of _ _ stall_acts]) (simp add: stall_run)
qed (simp_all add: stall_run blocked_def)

section \<open>Where it fails\<close>

text \<open>The thread 0 calls \<open>run_one\<close> and 1 calls \<open>run\<close>. The handler 7, on 0, defers 8 while 1 goes to wait in the
  task; when 7 returns, 8 is moved to the queue and nobody is woken.\<close>

definition run_one_acts :: "sched_action list" where
  "run_one_acts = [InitTask 0, Post 0 [7] False, Acquire 0, Enter 1 RunMode, Acquire 1, Enter 0 RunOneMode, Acquire 0,
     TaskReturn 1 [], Acquire 1, Post 0 [8] True, HandlerReturn 0 False, Acquire 0]"

text \<open>A handler that a handler under \<open>run_one\<close> defers can be left in the queue for as long as the
  other threads wait for events: \<open>run_one\<close> has returned, the queue has the handler, the scheduler runs, its other thread waits in the
  task without an interrupt, and nobody is on the way.\<close>
theorem run_one_strands_work:
  "\<exists>s. run sched_step (new_scheduler False 2) run_one_acts = Some s \<and> \<not> stopped s \<and> op_queue s = [HandlerOp 8] \<and>
     pc (threads s ! 0) = Outside \<and> pc (threads s ! 1) = InTask Forever \<and> blocked s 1 \<and> \<not> helped s"
proof -
  have two: "replicate 2 outside_thread = [outside_thread, outside_thread]" by (simp add: numeral_2_eq_2)
  have "run sched_step (new_scheduler False 2) run_one_acts = Some
    \<lparr>one_thread = False, op_queue = [HandlerOp 8], outstanding_work = 1, stopped = False, has_task = True,
     task_interrupted = False, event_state = 1, task_signal = False, pending = [],
     threads = [outside_thread\<lparr>mode := RunOneMode, ran := 1\<rparr>, outside_thread\<lparr>pc := InTask Forever\<rparr>],
     shut_down = False, posted = [7, 8], called = [7], destroyed = []\<rparr>"
    unfolding new_scheduler_def two by (simp add: run_one_acts_def sched_eval)
  then show ?thesis
    by (simp add: blocked_def helped_def awake_def outside_thread_def less_Suc_eq numeral_2_eq_2)
qed

end
