(* ===== verification/AsioAddress.thy ===== *)
theory AsioAddress
  imports CxxText "HOL-Library.Word"
begin

unbundle bit_operations_syntax

text \<open>
  Version 4 addresses, networks, their host ranges and texts in the Asio library (\<open>ip/address_v4\<close>,
  \<open>ip/network_v4\<close>, \<open>ip/address_v4_iterator.hpp\<close>, \<open>ip/address_v4_range.hpp\<close>). An
  address is its number \<open>to_uint()\<close>, a 32 bit word. The conversions between an address and its
  text are parameters here; \<open>AsioIpText\<close> instantiates them.
\<close>

section \<open>Addresses\<close>

type_synonym address_v4 = "32 word"

datatype address_error = OutOfRange | NonContiguous | BadAddressCast | InvalidArgument | AddressFamily | Undefined

definition to_bytes :: "address_v4 \<Rightarrow> 8 word list" where
  "to_bytes a = [ucast (drop_bit 24 a), ucast (drop_bit 16 a), ucast (drop_bit 8 a), ucast a]"

text \<open>From four bytes, in network order.\<close>

definition address_of_bytes :: "8 word list \<Rightarrow> address_v4" where
  "address_of_bytes bs = push_bit 24 (ucast (bs ! 0)) OR push_bit 16 (ucast (bs ! 1)) OR push_bit 8 (ucast (bs ! 2)) OR ucast (bs ! 3)"

definition v4_is_loopback :: "address_v4 \<Rightarrow> bool" where
  "v4_is_loopback a = (a AND 0xFF000000 = 0x7F000000)"

definition v4_is_unspecified :: "address_v4 \<Rightarrow> bool" where
  "v4_is_unspecified a = (a = 0)"

definition is_class_a :: "address_v4 \<Rightarrow> bool" where "is_class_a a = (a AND 0x80000000 = 0)"
definition is_class_b :: "address_v4 \<Rightarrow> bool" where "is_class_b a = (a AND 0xC0000000 = 0x80000000)"
definition is_class_c :: "address_v4 \<Rightarrow> bool" where "is_class_c a = (a AND 0xE0000000 = 0xC0000000)"

definition v4_is_multicast :: "address_v4 \<Rightarrow> bool" where
  "v4_is_multicast a = (a AND 0xF0000000 = 0xE0000000)"

definition address_broadcast :: "address_v4 \<Rightarrow> address_v4 \<Rightarrow> address_v4" where
  "address_broadcast a m = a OR (m XOR 0xFFFFFFFF)"

definition address_netmask :: "address_v4 \<Rightarrow> address_v4" where
  "address_netmask a = (if is_class_a a then 0xFF000000 else if is_class_b a then 0xFFFF0000
     else if is_class_c a then 0xFFFFFF00 else 0xFFFFFFFF)"

section \<open>Networks\<close>

record network_v4 =
  net_address :: address_v4
  prefix_length :: nat

definition new_network_v4 :: "address_v4 \<Rightarrow> nat \<Rightarrow> address_error + network_v4" where
  "new_network_v4 a p = (if p > 32 then Inl OutOfRange else Inr \<lparr>net_address = a, prefix_length = p\<rparr>)"

text \<open>The number of leading one bits that the \<open>switch\<close> adds for a byte of the mask; the cases fall
  through. A byte with a gap throws another exception than a byte after the end.\<close>

definition mask_byte :: "8 word \<Rightarrow> nat option" where
  "mask_byte b = (if b = 254 then Some 7 else if b = 252 then Some 6 else if b = 248 then Some 5 else if b = 240 then Some 4
     else if b = 224 then Some 3 else if b = 192 then Some 2 else if b = 128 then Some 1 else if b = 0 then Some 0 else None)"

fun mask_loop :: "bool \<Rightarrow> nat \<Rightarrow> 8 word list \<Rightarrow> address_error + nat" where
  "mask_loop finished n [] = Inr n"
| "mask_loop finished n (b # bs) =
     (if finished then (if b \<noteq> 0 then Inl NonContiguous else mask_loop True n bs)
      else if b = 255 then mask_loop False (n + 8) bs
      else (case mask_byte b of None \<Rightarrow> Inl OutOfRange | Some k \<Rightarrow> mask_loop True (n + k) bs))"

definition network_from_mask :: "address_v4 \<Rightarrow> address_v4 \<Rightarrow> address_error + network_v4" where
  "network_from_mask a m = bindr (mask_loop False 0 (to_bytes m)) (\<lambda>p. Inr \<lparr>net_address = a, prefix_length = p\<rparr>)"

definition netmask :: "network_v4 \<Rightarrow> address_v4" where
  "netmask n = (if prefix_length n = 0 then 0 else push_bit (32 - prefix_length n) 0xFFFFFFFF)"

definition network :: "network_v4 \<Rightarrow> address_v4" where
  "network n = net_address n AND netmask n"

definition broadcast :: "network_v4 \<Rightarrow> address_v4" where
  "broadcast n = network n OR (netmask n XOR 0xFFFFFFFF)"

definition canonical :: "network_v4 \<Rightarrow> network_v4" where
  "canonical n = \<lparr>net_address = network n, prefix_length = prefix_length n\<rparr>"

definition is_host :: "network_v4 \<Rightarrow> bool" where
  "is_host n = (prefix_length n = 32)"

definition is_subnet_of :: "network_v4 \<Rightarrow> network_v4 \<Rightarrow> bool" where
  "is_subnet_of n other = (if prefix_length n \<le> prefix_length other then False
     else canonical other = canonical \<lparr>net_address = net_address n, prefix_length = prefix_length other\<rparr>)"

section \<open>Ranges of addresses\<close>

definition iterator_inc :: "address_v4 \<Rightarrow> address_v4" where
  "iterator_inc a = (a + 1) AND 0xFFFFFFFF"

definition iterator_dec :: "address_v4 \<Rightarrow> address_v4" where
  "iterator_dec a = (a - 1) AND 0xFFFFFFFF"

type_synonym range_v4 = "address_v4 \<times> address_v4"

definition range_size :: "range_v4 \<Rightarrow> nat" where
  "range_size r = unat (snd r - fst r)"

definition range_empty :: "range_v4 \<Rightarrow> bool" where
  "range_empty r = (range_size r = 0)"

definition range_find :: "range_v4 \<Rightarrow> address_v4 \<Rightarrow> address_v4" where
  "range_find r a = (if fst r \<le> a \<and> a < snd r then a else snd r)"

definition hosts :: "network_v4 \<Rightarrow> range_v4" where
  "hosts n = (if is_host n then (net_address n, net_address n + 1) else (network n + 1, broadcast n))"

section \<open>Texts\<close>

text \<open>\<open>ntop\<close> and \<open>pton\<close> are the conversions of an address; \<open>pton\<close> gives an error for a text that is not
  one.\<close>

definition network_to_string :: "(address_v4 \<Rightarrow> string) \<Rightarrow> network_v4 \<Rightarrow> string" where
  "network_to_string ntop n = ntop (net_address n) @ ''/'' @ show_nat (prefix_length n)"

fun find_first_of :: "char \<Rightarrow> string \<Rightarrow> nat option" where
  "find_first_of c [] = None"
| "find_first_of c (x # xs) = (if x = c then Some 0 else map_option Suc (find_first_of c xs))"

text \<open>\<open>std::atoi\<close> of a number that \<open>int\<close> cannot hold is undefined.\<close>

definition make_network :: "nat \<Rightarrow> (string \<Rightarrow> address_error + 'a) \<Rightarrow> string \<Rightarrow> address_error + 'a \<times> nat" where
  "make_network bits pton str = (case find_first_of CHR ''/'' str of
     None \<Rightarrow> Inl InvalidArgument
   | Some pos \<Rightarrow>
       if int pos = int (length str) - 1 then Inl InvalidArgument
       else if \<not> list_all is_digit (drop (pos + 1) str) then Inl InvalidArgument
       else bindr (pton (take pos str)) (\<lambda>a.
            let prefix_len = atoi (drop (pos + 1) str) in
            if \<not> in_int prefix_len then Inl Undefined
            else if prefix_len < 0 \<or> prefix_len > int bits then Inl InvalidArgument
            else Inr (a, nat prefix_len)))"

definition make_network_v4 :: "(string \<Rightarrow> address_error + address_v4) \<Rightarrow> string \<Rightarrow> address_error + network_v4" where
  "make_network_v4 pton str = bindr (make_network 32 pton str) (\<lambda>(a, p). new_network_v4 a p)"

section \<open>Masks are prefixes\<close>

definition host_bits :: "network_v4 \<Rightarrow> nat" where
  "host_bits n = 32 - prefix_length n"

lemma all_ones: "(0xFFFFFFFF :: address_v4) = - 1"
  by simp

lemma netmask_eq: "prefix_length n \<le> 32 \<Longrightarrow> netmask n = NOT (mask (host_bits n))"
proof (cases "prefix_length n = 0")
  case True
  have "NOT (mask 32 :: address_v4) = 0" by (rule bit_word_eqI) (simp add: bit_simps)
  with True show ?thesis by (simp add: netmask_def host_bits_def)
next
  case False
  then show ?thesis unfolding netmask_def host_bits_def all_ones push_bit_minus_one_eq_not_mask by simp
qed

lemma xor_ones [simp]: "(w :: address_v4) XOR 0xFFFFFFFF = NOT w"
  by (simp add: all_ones)

lemma and_ones [simp]: "(w :: address_v4) AND 0xFFFFFFFF = w"
  unfolding all_ones by simp

lemma unat_32: "unat (a :: address_v4) < 2 ^ 32"
  using unsigned_less [of a] by simp

lemma unat_of_nat_32: "x < 2 ^ 32 \<Longrightarrow> unat (of_nat x :: address_v4) = x"
  by (simp add: unsigned_of_nat take_bit_eq_mod)

lemma and_not_mask: "(a :: address_v4) AND NOT (mask k) = push_bit k (drop_bit k a)"
  by (rule bit_word_eqI) (auto simp: bit_simps)

lemma unat_floor: "unat (push_bit k (drop_bit k (a :: address_v4))) = unat a div 2 ^ k * 2 ^ k"
proof -
  have "unat a div 2 ^ k * 2 ^ k < 2 ^ 32"
    using le_less_trans [OF div_times_less_eq_dividend unat_32] .
  then have m: "unat a div 2 ^ k * 2 ^ k mod 2 ^ 32 = unat a div 2 ^ k * 2 ^ k" by (rule mod_less)
  have "unat (push_bit k (drop_bit k a)) = take_bit 32 (push_bit k (drop_bit k (unat a)))"
    by (simp add: unsigned_push_bit_eq unat_drop_bit_eq)
  then show ?thesis
    unfolding push_bit_eq_mult drop_bit_eq_div take_bit_eq_mod using m by simp
qed

lemma network_eq: "prefix_length n \<le> 32 \<Longrightarrow> network n = push_bit (host_bits n) (drop_bit (host_bits n) (net_address n))"
  by (simp add: network_def netmask_eq and_not_mask)

lemma unat_network:
  "prefix_length n \<le> 32 \<Longrightarrow> unat (network n) = unat (net_address n) div 2 ^ host_bits n * 2 ^ host_bits n"
  by (simp add: network_eq unat_floor)

lemma unat_broadcast:
  assumes "prefix_length n \<le> 32"
  shows "unat (broadcast n) = unat (network n) + (2 ^ host_bits n - 1)"
proof -
  let ?k = "host_bits n"
  have "broadcast n = network n OR mask ?k" using assms by (simp add: broadcast_def netmask_eq)
  also have "\<dots> = network n + mask ?k"
    by (rule disjunctive_add_eq_or [symmetric]) (use assms in \<open>auto simp: network_eq bit_eq_iff bit_simps\<close>)
  finally have b: "broadcast n = network n + mask ?k" .
  have k: "?k \<le> 32" by (simp add: host_bits_def)
  have m: "unat (mask ?k :: address_v4) = 2 ^ ?k - 1"
  proof -
    have "unat (mask ?k :: address_v4) = mask ?k"
      by (rule bit_eqI) (use k in \<open>auto simp: bit_unsigned_iff bit_mask_iff possible_bit_def\<close>)
    then show ?thesis by (simp add: mask_eq_exp_minus_1)
  qed
  let ?q = "unat (net_address n) div 2 ^ ?k"
  have "?q < 2 ^ (32 - ?k)"
    using unat_32 [of "net_address n"] k by (simp add: less_mult_imp_div_less flip: power_add)
  then have "(?q + 1) * 2 ^ ?k \<le> 2 ^ (32 - ?k) * 2 ^ ?k" by (intro mult_right_mono) simp_all
  also have "\<dots> = 2 ^ 32" using k by (simp flip: power_add)
  finally have "?q * 2 ^ ?k + 2 ^ ?k \<le> 2 ^ 32" by (simp add: algebra_simps)
  moreover have "(0::nat) < 2 ^ ?k" by simp
  ultimately have "unat (network n) + (2 ^ ?k - 1) < 2 ^ 32" unfolding unat_network [OF assms] by linarith
  then show ?thesis unfolding b by (simp add: unat_word_ariths m)
qed

text \<open>An address is in a network when the mask takes it to the network's address.\<close>

definition covers :: "network_v4 \<Rightarrow> address_v4 \<Rightarrow> bool" where
  "covers n a = (a AND netmask n = network n)"

lemma covers_div:
  assumes "prefix_length n \<le> 32"
  shows "covers n a = (unat a div 2 ^ host_bits n = unat (net_address n) div 2 ^ host_bits n)"
proof -
  have "covers n a = (unat (push_bit (host_bits n) (drop_bit (host_bits n) a)) = unat (network n))"
    by (simp only: covers_def netmask_eq [OF assms] and_not_mask word_unat_eq_iff)
  then show ?thesis by (simp add: unat_floor unat_network [OF assms])
qed

lemma div_eq_interval: "(0::nat) < d \<Longrightarrow> (x div d = q) = (q * d \<le> x \<and> x \<le> q * d + (d - 1))"
proof
  assume "0 < d" "x div d = q"
  moreover have "x = x div d * d + x mod d" "x mod d < d" using \<open>0 < d\<close> by simp_all
  ultimately have "x = q * d + x mod d" "x mod d < d" by simp_all
  then show "q * d \<le> x \<and> x \<le> q * d + (d - 1)" by linarith
next
  assume "0 < d" "q * d \<le> x \<and> x \<le> q * d + (d - 1)"
  then have "d * q \<le> x" "x < d * Suc q" by (simp_all add: algebra_simps) linarith
  then show "x div d = q" by (rule div_nat_eqI)
qed

text \<open>The addresses of a network are those from its network address to its broadcast address.\<close>

lemma network_interval:
  assumes "prefix_length n \<le> 32"
  shows "covers n a \<longleftrightarrow> network n \<le> a \<and> a \<le> broadcast n"
proof -
  let ?d = "2 ^ host_bits n :: nat"
  have "covers n a \<longleftrightarrow> unat (network n) \<le> unat a \<and> unat a \<le> unat (network n) + (?d - 1)"
    unfolding covers_div [OF assms] unat_network [OF assms] by (rule div_eq_interval) simp
  then show ?thesis by (simp add: word_le_nat_alt unat_broadcast [OF assms])
qed

section \<open>Subnets\<close>

lemma canonical_eq:
  "canonical n = canonical m \<longleftrightarrow> prefix_length n = prefix_length m \<and> network n = network m"
  by (auto simp: canonical_def)

lemma is_subnet_of_div:
  assumes "prefix_length n \<le> 32" "prefix_length m \<le> 32"
  shows "is_subnet_of n m \<longleftrightarrow> prefix_length m < prefix_length n \<and> covers m (net_address n)"
proof -
  let ?n = "\<lparr>net_address = net_address n, prefix_length = prefix_length m\<rparr>"
  have "network ?n = net_address n AND netmask m" by (simp add: network_def netmask_def)
  then show ?thesis by (auto simp: is_subnet_of_def canonical_eq covers_def)
qed

text \<open>\<open>is_subnet_of\<close> is proper inclusion of the address sets of networks: every address of the subnet is in the
  other network, which has addresses that the subnet does not have.\<close>
theorem subnet_is_inclusion:
  assumes "prefix_length n \<le> 32" "prefix_length m \<le> 32"
  shows "is_subnet_of n m \<longleftrightarrow> {a. covers n a} \<subset> {a. covers m a}"
proof -
  have self: "covers n (net_address n)" for n by (simp add: covers_def network_def)
  let ?k = "host_bits n" and ?j = "host_bits m"
  have mono: "covers m a" if "?k \<le> ?j" "covers m (net_address n)" "covers n a" for a
  proof -
    have d: "x div 2 ^ ?j = x div 2 ^ ?k div 2 ^ (?j - ?k)" for x :: nat
      using that(1) by (simp add: div_mult2_eq [symmetric] flip: power_add)
    show ?thesis using that(2,3) unfolding covers_div [OF assms(1)] covers_div [OF assms(2)] d [of "unat a"] d [of "unat (net_address n)"] by simp
  qed
  have card: "2 ^ host_bits n = card {a. covers n a}" if "prefix_length n \<le> 32" for n
  proof -
    have "{a. covers n a} = unat -` {unat (network n) .. unat (broadcast n)}"
      by (rule set_eqI) (simp only: vimage_eq atLeastAtMost_iff mem_Collect_eq network_interval [OF that] word_le_nat_alt)
    moreover have "card ((unat :: address_v4 \<Rightarrow> nat) -` {unat (network n) .. unat (broadcast n)}) = card {unat (network n) .. unat (broadcast n)}"
    proof (rule card_vimage_inj)
      show "inj (unat :: address_v4 \<Rightarrow> nat)" by (rule injI) (simp only: word_unat_eq_iff)
      have "x \<in> range (unat :: address_v4 \<Rightarrow> nat)" if "x \<le> unat (broadcast n)" for x
        using that unat_32 [of "broadcast n"] by (intro range_eqI [of _ _ "of_nat x"]) (simp add: unat_of_nat_32)
      then show "{unat (network n) .. unat (broadcast n)} \<subseteq> range (unat :: address_v4 \<Rightarrow> nat)" by auto
    qed
    ultimately show ?thesis by (simp add: unat_broadcast [OF that])
  qed
  show ?thesis
  proof
    assume "is_subnet_of n m"
    then have p: "prefix_length m < prefix_length n" "covers m (net_address n)"
      by (simp_all add: is_subnet_of_div [OF assms])
    then have k: "?k < ?j" using assms by (simp add: host_bits_def)
    have "{a. covers n a} \<subseteq> {a. covers m a}" using mono k p(2) by auto
    moreover have "card {a. covers n a} < card {a. covers m a}"
      unfolding card [OF assms(1), symmetric] card [OF assms(2), symmetric] using k by simp
    ultimately show "{a. covers n a} \<subset> {a. covers m a}" by auto
  next
    assume s: "{a. covers n a} \<subset> {a. covers m a}"
    then have "card {a. covers n a} < card {a. covers m a}" by (rule psubset_card_mono [OF finite])
    then have "?k < ?j" unfolding card [OF assms(1), symmetric] card [OF assms(2), symmetric] by simp
    then show "is_subnet_of n m" using s self [of n] assms by (auto simp: is_subnet_of_div [OF assms] host_bits_def)
  qed
qed

lemma subnet_is_inclusion_witness:
  "is_subnet_of \<lparr>net_address = 0xC0A80100, prefix_length = 24\<rparr> \<lparr>net_address = 0xC0A80000, prefix_length = 16\<rparr> \<and>
   {a. covers \<lparr>net_address = 0xC0A80100, prefix_length = 24\<rparr> a} \<subset> {a. covers \<lparr>net_address = 0xC0A80000, prefix_length = 16\<rparr> a}"
proof -
  have "is_subnet_of \<lparr>net_address = 0xC0A80100, prefix_length = 24\<rparr> \<lparr>net_address = 0xC0A80000, prefix_length = 16\<rparr>"
    by (simp add: is_subnet_of_def canonical_def network_def netmask_def)
  then show ?thesis
    using subnet_is_inclusion [of "\<lparr>net_address = 0xC0A80100, prefix_length = 24\<rparr>" "\<lparr>net_address = 0xC0A80000, prefix_length = 16\<rparr>"] by simp
qed

section \<open>Hosts\<close>

lemma unat_hosts:
  assumes "prefix_length n < 32"
  shows "unat (network n + 1) = unat (network n) + 1"
proof -
  have p: "prefix_length n \<le> 32" using assms by simp
  have "(1::nat) \<le> 2 ^ host_bits n - 1" using assms by (simp add: host_bits_def) (metis One_nat_def Suc_leI one_less_numeral_iff one_less_power semiring_norm(76) zero_less_diff diff_is_0_eq not_less)
  then have "unat (network n) + 1 \<le> unat (broadcast n)" by (simp add: unat_broadcast [OF p])
  then have "unat (network n) + 1 < 2 ^ 32" using unat_32 [of "broadcast n"] by linarith
  then show ?thesis by (simp add: unat_word_ariths)
qed

lemma inc_iterate: "(iterator_inc ^^ i) a = a + of_nat i"
  by (induction i) (simp_all add: iterator_inc_def algebra_simps)

lemma range_steps: "(iterator_inc ^^ range_size r) (fst r) = snd r"
  by (simp add: inc_iterate range_size_def)

text \<open>The range of a network's hosts has the addresses between its network and its broadcast
  address, or the address alone; the iterator reaches the end after \<open>size()\<close> steps, and
  every address before is a host.\<close>
theorem hosts_of_network:
  assumes "prefix_length n \<le> 32"
  shows "range_size (hosts n) = (if prefix_length n = 32 then 1 else 2 ^ (32 - prefix_length n) - 2) \<and>
    (iterator_inc ^^ range_size (hosts n)) (fst (hosts n)) = snd (hosts n) \<and>
    (\<forall>i < range_size (hosts n). let a = (iterator_inc ^^ i) (fst (hosts n)) in
       covers n a \<and> (prefix_length n < 32 \<longrightarrow> a \<noteq> network n \<and> a \<noteq> broadcast n))"
proof (cases "prefix_length n = 32")
  case True
  have "range_size (hosts n) = 1" by (simp add: range_size_def hosts_def is_host_def True)
  moreover have "covers n (net_address n)" by (simp add: covers_def network_def)
  ultimately show ?thesis using True by (simp add: hosts_def is_host_def iterator_inc_def Let_def)
next
  case False
  then have p: "prefix_length n < 32" using assms by simp
  let ?d = "2 ^ host_bits n :: nat"
  have d: "2 \<le> ?d" using p by (simp add: host_bits_def) (metis One_nat_def Suc_leI numeral_2_eq_2 power_increasing power_one_right one_le_numeral zero_less_diff)
  note b = unat_broadcast [OF assms] and n1 = unat_hosts [OF p]
  have le: "network n + 1 \<le> broadcast n" using d by (simp add: word_le_nat_alt n1 b)
  have size: "range_size (hosts n) = ?d - 2"
    using d le by (simp add: range_size_def hosts_def is_host_def False unat_sub n1 b)
  have inside: "covers n a \<and> a \<noteq> network n \<and> a \<noteq> broadcast n" if "i < ?d - 2" "a = network n + 1 + of_nat i" for i a
  proof -
    have "unat (network n) + 1 + i < 2 ^ 32" using that(1) b unat_32 [of "broadcast n"] d by linarith
    then have u: "unat a = unat (network n) + 1 + i"
      unfolding that(2) by (simp add: unat_word_ariths n1 unat_of_nat_32)
    then have "unat (network n) < unat a" "unat a < unat (broadcast n)" using that(1) b d by simp_all
    then show ?thesis unfolding network_interval [OF assms] by (auto simp: word_le_nat_alt)
  qed
  have "fst (hosts n) = network n + 1" by (simp add: hosts_def is_host_def False)
  then show ?thesis
    using size inside False range_steps [of "hosts n"] by (auto simp: inc_iterate Let_def host_bits_def)
qed

lemma hosts_of_network_witness:
  "range_size (hosts \<lparr>net_address = 0xC0A80117, prefix_length = 24\<rparr>) = 254"
  using hosts_of_network [of "\<lparr>net_address = 0xC0A80117, prefix_length = 24\<rparr>"] by simp

text \<open>The range of the last host wraps: the address is in it, and \<open>find\<close> does not find it.\<close>

lemma last_host_not_found:
  "let r = hosts \<lparr>net_address = 0xFFFFFFFF, prefix_length = 32\<rparr> in
     fst r = 0xFFFFFFFF \<and> range_size r = 1 \<and> range_find r 0xFFFFFFFF = snd r \<and> snd r \<noteq> 0xFFFFFFFF"
  by (simp add: hosts_def is_host_def range_size_def range_find_def)

section \<open>Masks in both directions\<close>

lemma bit_byte: "bit (ucast (drop_bit k (a :: address_v4)) :: 8 word) n \<longleftrightarrow> n < 8 \<and> bit a (k + n)"
  by (auto simp: bit_simps dest: bit_imp_le_length)

lemma bit_placed: "bit (push_bit k (ucast (b :: 8 word)) :: address_v4) n \<longleftrightarrow> n < 32 \<and> k \<le> n \<and> bit b (n - k)"
  by (auto simp: bit_simps dest: bit_imp_le_length)

lemma bytes_of_address: "address_of_bytes (to_bytes a) = a"
proof -
  have e: "to_bytes a = [ucast (drop_bit 24 a), ucast (drop_bit 16 a), ucast (drop_bit 8 a), ucast (drop_bit 0 a)]"
    by (simp add: to_bytes_def)
  have f: "address_of_bytes bs = push_bit 24 (ucast (bs ! 0)) OR push_bit 16 (ucast (bs ! 1)) OR push_bit 8 (ucast (bs ! 2)) OR push_bit 0 (ucast (bs ! 3))" for bs
    by (simp add: address_of_bytes_def)
  have n: "[w, x, y, z] ! 0 = w" "[w, x, y, z] ! 1 = x" "[w, x, y, z] ! 2 = y" "[w, x, y, z] ! 3 = z" for w x y z :: "8 word"
    by (simp_all add: numeral_2_eq_2 numeral_3_eq_3)
  show ?thesis
    unfolding e f n
  proof (rule bit_word_eqI)
    fix i assume "i < LENGTH(32)"
    then have i: "i < 32" by simp
    have g: "i < 32 \<and> k \<le> i \<and> i - k < 8 \<and> bit a (k + (i - k)) \<longleftrightarrow> k \<le> i \<and> i < k + 8 \<and> bit a i" for k
      using i by auto
    show "bit (push_bit 24 (ucast (ucast (drop_bit 24 a) :: 8 word)) OR push_bit 16 (ucast (ucast (drop_bit 16 a) :: 8 word)) OR
        push_bit 8 (ucast (ucast (drop_bit 8 a) :: 8 word)) OR push_bit 0 (ucast (ucast (drop_bit 0 a) :: 8 word)) :: address_v4) i = bit a i"
      unfolding bit_or_iff bit_placed bit_byte g using i by auto
  qed
qed

lemma to_bytes_inject: "to_bytes a = to_bytes b \<Longrightarrow> a = b"
  by (metis bytes_of_address)

lemma le_32_cases:
  "p \<le> 32 \<Longrightarrow> p \<in> {0, 1, 2, 3, 4, 5, 6, 7, 8, 9, 10, 11, 12, 13, 14, 15, 16, 17, 18, 19, 20, 21, 22, 23, 24, 25, 26, 27, 28, 29, 30, 31, 32 :: nat}"
  by (simp add: le_Suc_eq numeral_eq_Suc) 

lemma mask_loop_netmask:
  assumes "p \<le> 32"
  shows "mask_loop False 0 (to_bytes (netmask \<lparr>net_address = a, prefix_length = p\<rparr>)) = Inr p"
  using le_32_cases [OF assms]
  by (simp only: insert_iff empty_iff simp_thms) (elim disjE; simp add: netmask_def to_bytes_def mask_byte_def)

lemma mask_loop_True: "mask_loop True n bs = Inr p \<longleftrightarrow> p = n \<and> list_all (\<lambda>b. b = 0) bs"
  by (induction bs) auto

text \<open>The byte that a number of leading ones has.\<close>

lemma mask_byte_Some:
  "mask_byte b = Some k \<longleftrightarrow> (b, k) \<in> {(254, 7), (252, 6), (248, 5), (240, 4), (224, 3), (192, 2), (128, 1), (0, 0)}"
  by (auto simp: mask_byte_def)

lemma mask_loop_bytes:
  assumes "mask_loop False n bs = Inr p"
  shows "n \<le> p \<and> p \<le> n + 8 * length bs"
  using assms
proof (induction bs arbitrary: n)
  case (Cons b bs)
  show ?case
  proof (cases "b = 255")
    case True
    then show ?thesis using Cons by fastforce
  next
    case False
    then show ?thesis using Cons.prems by (auto simp: mask_loop_True mask_byte_Some split: option.splits)
  qed
qed simp

text \<open>What the bytes have to be for a result determines them.\<close>

lemma mask_loop_inject:
  "mask_loop False n bs = Inr p \<Longrightarrow> mask_loop False n cs = Inr p \<Longrightarrow> length bs = length cs \<Longrightarrow> bs = cs"
proof (induction bs arbitrary: cs n)
  case (Cons b bs)
  obtain c ds where cs: "cs = c # ds" "length bs = length ds" using Cons.prems(3) by (cases cs) auto
  have zero: "xs = ys" if "list_all (\<lambda>b. b = 0) xs" "list_all (\<lambda>b. b = 0) ys" "length xs = length ys" for xs ys :: "8 word list"
    using that by (simp add: list_all_length list_eq_iff_nth_eq)
  show ?case
  proof (cases "b = 255")
    case True
    show ?thesis
    proof (cases "c = 255")
      case c: True
      then show ?thesis using Cons cs True by auto
    next
      case False
      have "n + 8 \<le> p" using mask_loop_bytes [of "n + 8" bs p] Cons.prems(1) True by simp
      then show ?thesis using Cons.prems(2) cs False by (auto simp: mask_loop_True mask_byte_Some split: option.splits)
    qed
  next
    case False
    then obtain k where k: "mask_byte b = Some k" "p = n + k" "list_all (\<lambda>b. b = 0) bs"
      using Cons.prems(1) by (auto simp: mask_loop_True split: option.splits)
    then have "p < n + 8" by (auto simp: mask_byte_Some)
    then have "c \<noteq> 255" using mask_loop_bytes [of "n + 8" ds p] Cons.prems(2) cs(1) by auto
    then obtain j where j: "mask_byte c = Some j" "p = n + j" "list_all (\<lambda>b. b = 0) ds"
      using Cons.prems(2) cs(1) by (auto simp: mask_loop_True split: option.splits)
    have "b = c" using k(1,2) j(1,2) by (auto simp: mask_byte_Some)
    then show ?thesis using zero [OF k(3) j(3) cs(2)] cs(1) by simp
  qed
qed simp

text \<open>The constructor from a mask is the inverse of \<open>netmask()\<close>: the mask of a prefix gives the prefix, and a mask is
  accepted only when it is that of the prefix it gives; everything else throws.\<close>
theorem mask_roundtrip:
  "(p \<le> 32 \<longrightarrow> network_from_mask a (netmask \<lparr>net_address = b, prefix_length = p\<rparr>) = Inr \<lparr>net_address = a, prefix_length = p\<rparr>) \<and>
   (network_from_mask a m = Inr n \<longrightarrow> net_address n = a \<and> prefix_length n \<le> 32 \<and> netmask n = m)"
proof (intro conjI impI)
  show "network_from_mask a (netmask \<lparr>net_address = b, prefix_length = p\<rparr>) = Inr \<lparr>net_address = a, prefix_length = p\<rparr>" if "p \<le> 32"
    using mask_loop_netmask [OF that] by (simp add: network_from_mask_def)
  assume "network_from_mask a m = Inr n"
  then obtain q where q: "mask_loop False 0 (to_bytes m) = Inr q" and n: "n = \<lparr>net_address = a, prefix_length = q\<rparr>"
    by (auto simp: network_from_mask_def bindr_Inr_iff)
  show "net_address n = a" by (simp add: n)
  have le: "q \<le> 32" using mask_loop_bytes [OF q] by (simp add: to_bytes_def)
  then show "prefix_length n \<le> 32" by (simp add: n)
  have "to_bytes (netmask n) = to_bytes m"
    by (rule mask_loop_inject [OF mask_loop_netmask [OF le, of a, folded n] q]) (simp add: to_bytes_def)
  then show "netmask n = m" by (rule to_bytes_inject)
qed

lemma mask_roundtrip_witness:
  "network_from_mask 0x0A010203 0xFFFFF000 = Inr \<lparr>net_address = 0x0A010203, prefix_length = 20\<rparr> \<and>
   netmask \<lparr>net_address = 0x0A010203, prefix_length = 20\<rparr> = 0xFFFFF000"
proof -
  have "network_from_mask 0x0A010203 0xFFFFF000 = Inr \<lparr>net_address = 0x0A010203, prefix_length = 20\<rparr>"
    by (simp add: network_from_mask_def to_bytes_def mask_byte_def)
  then show ?thesis using mask_roundtrip [where p = 20 and a = "0x0A010203" and b = 0 and m = "0xFFFFF000" and n = "\<lparr>net_address = 0x0A010203, prefix_length = 20\<rparr>"]
    by simp
qed

text \<open>Two kinds of exception for a mask with a gap.\<close>

lemma mask_gap_errors:
  "network_from_mask a 0xFF00FF00 = Inl NonContiguous" "network_from_mask a 0xFFFD0000 = Inl OutOfRange"
  by (simp_all add: network_from_mask_def to_bytes_def mask_byte_def)

text \<open>The classes partition the addresses, so \<open>netmask(addr)\<close> is that of the one class.\<close>

lemma classes_disjoint: "\<not> (is_class_a a \<and> is_class_b a)" "\<not> (is_class_a a \<and> is_class_c a)" "\<not> (is_class_b a \<and> is_class_c a)"
proof -
  have e: "(a AND 0xC0000000) AND 0x80000000 = a AND 0x80000000" "(a AND 0xE0000000) AND 0x80000000 = a AND 0x80000000"
    "(a AND 0xE0000000) AND 0xC0000000 = a AND 0xC0000000" by (simp_all add: and.assoc)
  have n: "(0x80000000 :: address_v4) AND 0x80000000 \<noteq> 0" "(0xC0000000 :: address_v4) AND 0x80000000 \<noteq> 0"
    "(0xC0000000 :: address_v4) AND 0xC0000000 \<noteq> 0x80000000" by simp_all
  show "\<not> (is_class_a a \<and> is_class_b a)" 
    unfolding is_class_a_def is_class_b_def by (rule notI, elim conjE) (use e(1) n(1) in \<open>simp only: simp_thms\<close>)
  show "\<not> (is_class_a a \<and> is_class_c a)" 
    unfolding is_class_a_def is_class_c_def by (rule notI, elim conjE) (use e(2) n(2) in \<open>simp only: simp_thms\<close>)
  show "\<not> (is_class_b a \<and> is_class_c a)" 
    unfolding is_class_b_def is_class_c_def by (rule notI, elim conjE) (use e(3) n(3) in \<open>simp only: simp_thms\<close>)
qed

end
