(* ===== verification/AsioAddress6.thy ===== *)
theory AsioAddress6
  imports AsioAddress
begin

text \<open>
  Version 6 addresses and networks (\<open>ip/address_v6\<close>, \<open>ip/network_v6\<close>,
  \<open>ip/address_v6_iterator.hpp\<close>), and the conversions between addresses and texts that the library has for a platform
  without \<open>inet_ntop\<close> and \<open>inet_pton\<close> (\<open>detail/impl/socket_ops.ipp\<close>, the branches of
  \<open>ASIO_WINDOWS_RUNTIME\<close>). An address has 16 bytes and a scope.
\<close>

section \<open>Addresses\<close>

record address_v6 =
  v6_bytes :: "8 word list"
  scope_id :: "32 word"

definition new_address_v6 :: "8 word list \<Rightarrow> address_v6" where
  "new_address_v6 bs = \<lparr>v6_bytes = bs, scope_id = 0\<rparr>"

definition v6_is_loopback :: "address_v6 \<Rightarrow> bool" where
  "v6_is_loopback a = (v6_bytes a = replicate 15 0 @ [1])"

definition v6_is_unspecified :: "address_v6 \<Rightarrow> bool" where
  "v6_is_unspecified a = (v6_bytes a = replicate 16 0)"

definition is_link_local :: "address_v6 \<Rightarrow> bool" where
  "is_link_local a = (v6_bytes a ! 0 = 0xFE \<and> v6_bytes a ! 1 AND 0xC0 = 0x80)"

definition is_site_local :: "address_v6 \<Rightarrow> bool" where
  "is_site_local a = (v6_bytes a ! 0 = 0xFE \<and> v6_bytes a ! 1 AND 0xC0 = 0xC0)"

definition is_v4_mapped :: "address_v6 \<Rightarrow> bool" where
  "is_v4_mapped a = (take 12 (v6_bytes a) = replicate 10 0 @ [0xFF, 0xFF])"

definition is_v4_compatible :: "address_v6 \<Rightarrow> bool" where
  "is_v4_compatible a = (take 12 (v6_bytes a) = replicate 12 0 \<and>
     \<not> (v6_bytes a ! 12 = 0 \<and> v6_bytes a ! 13 = 0 \<and> v6_bytes a ! 14 = 0 \<and> (v6_bytes a ! 15 = 0 \<or> v6_bytes a ! 15 = 1)))"

definition v6_is_multicast :: "address_v6 \<Rightarrow> bool" where
  "v6_is_multicast a = (v6_bytes a ! 0 = 0xFF)"

definition is_multicast_global :: "address_v6 \<Rightarrow> bool" where
  "is_multicast_global a = (v6_bytes a ! 0 = 0xFF \<and> v6_bytes a ! 1 AND 0x0F = 0x0E)"

definition is_multicast_link_local :: "address_v6 \<Rightarrow> bool" where
  "is_multicast_link_local a = (v6_bytes a ! 0 = 0xFF \<and> v6_bytes a ! 1 AND 0x0F = 0x02)"

definition is_multicast_node_local :: "address_v6 \<Rightarrow> bool" where
  "is_multicast_node_local a = (v6_bytes a ! 0 = 0xFF \<and> v6_bytes a ! 1 AND 0x0F = 0x01)"

definition is_multicast_org_local :: "address_v6 \<Rightarrow> bool" where
  "is_multicast_org_local a = (v6_bytes a ! 0 = 0xFF \<and> v6_bytes a ! 1 AND 0x0F = 0x08)"

definition is_multicast_site_local :: "address_v6 \<Rightarrow> bool" where
  "is_multicast_site_local a = (v6_bytes a ! 0 = 0xFF \<and> v6_bytes a ! 1 AND 0x0F = 0x05)"

fun memcmp :: "8 word list \<Rightarrow> 8 word list \<Rightarrow> int" where
  "memcmp (x # xs) (y # ys) = (if x < y then - 1 else if y < x then 1 else memcmp xs ys)"
| "memcmp _ _ = 0"

definition v6_less :: "address_v6 \<Rightarrow> address_v6 \<Rightarrow> bool" where
  "v6_less a b = (let r = memcmp (v6_bytes a) (v6_bytes b) in
     if r < 0 then True else if r > 0 then False else scope_id a < scope_id b)"

definition v6_loopback :: address_v6 where
  "v6_loopback = new_address_v6 (replicate 15 0 @ [1])"

section \<open>Version 4 in version 6\<close>

definition make_v4_mapped :: "address_v4 \<Rightarrow> address_v6" where
  "make_v4_mapped a = new_address_v6 (replicate 10 0 @ [0xFF, 0xFF] @ to_bytes a)"

definition v4_compatible :: "address_v4 \<Rightarrow> address_v6" where
  "v4_compatible a = new_address_v6 (replicate 12 0 @ to_bytes a)"

definition to_v4 :: "address_v6 \<Rightarrow> address_error + address_v4" where
  "to_v4 a = (if \<not> is_v4_mapped a \<and> \<not> is_v4_compatible a then Inl BadAddressCast
     else Inr (address_of_bytes [v6_bytes a ! 12, v6_bytes a ! 13, v6_bytes a ! 14, v6_bytes a ! 15]))"

definition v4_from_mapped :: "address_v6 \<Rightarrow> address_error + address_v4" where
  "v4_from_mapped a = (if \<not> is_v4_mapped a then Inl BadAddressCast
     else Inr (address_of_bytes [v6_bytes a ! 12, v6_bytes a ! 13, v6_bytes a ! 14, v6_bytes a ! 15]))"

section \<open>Iterators\<close>

text \<open>The loops go from the last byte (index \<open>i\<close>, given as \<open>Suc i\<close>) to the first.\<close>

fun inc_loop :: "nat \<Rightarrow> 8 word list \<Rightarrow> 8 word list" where
  "inc_loop 0 bs = bs"
| "inc_loop (Suc i) bs = (if bs ! i < 0xFF then bs[i := bs ! i + 1] else inc_loop i (bs[i := 0]))"

fun dec_loop :: "nat \<Rightarrow> 8 word list \<Rightarrow> 8 word list" where
  "dec_loop 0 bs = bs"
| "dec_loop (Suc i) bs = (if bs ! i > 0 then bs[i := bs ! i - 1] else dec_loop i (bs[i := 0xFF]))"

definition v6_inc :: "address_v6 \<Rightarrow> address_v6" where
  "v6_inc a = a\<lparr>v6_bytes := inc_loop 16 (v6_bytes a)\<rparr>"

definition v6_dec :: "address_v6 \<Rightarrow> address_v6" where
  "v6_dec a = a\<lparr>v6_bytes := dec_loop 16 (v6_bytes a)\<rparr>"

section \<open>Networks\<close>

record network_v6 =
  net6_address :: address_v6
  prefix6 :: nat

definition new_network_v6 :: "address_v6 \<Rightarrow> nat \<Rightarrow> address_error + network_v6" where
  "new_network_v6 a p = (if p > 128 then Inl OutOfRange else Inr \<lparr>net6_address = a, prefix6 = p\<rparr>)"

text \<open>What is assigned to a byte is converted to \<open>unsigned char\<close>.\<close>

definition first_byte :: "nat \<Rightarrow> nat \<Rightarrow> 8 word \<Rightarrow> 8 word" where
  "first_byte p i b = (if p \<le> i * 8 then 0
     else if p < (i + 1) * 8 then b AND ucast (drop_bit (p mod 8) (0xFF00 :: 32 word)) else b)"

definition last_byte :: "nat \<Rightarrow> nat \<Rightarrow> 8 word \<Rightarrow> 8 word" where
  "last_byte p i b = (if p \<le> i * 8 then 0xFF
     else if p < (i + 1) * 8 then b OR ucast (drop_bit (p mod 8) (0xFF :: 32 word)) else b)"

definition network6 :: "network_v6 \<Rightarrow> address_v6" where
  "network6 n = (net6_address n)\<lparr>v6_bytes := List.map (\<lambda>i. first_byte (prefix6 n) i (v6_bytes (net6_address n) ! i)) [0..<16]\<rparr>"

definition last6 :: "network_v6 \<Rightarrow> address_v6" where
  "last6 n = (net6_address n)\<lparr>v6_bytes := List.map (\<lambda>i. last_byte (prefix6 n) i (v6_bytes (net6_address n) ! i)) [0..<16]\<rparr>"

definition hosts6 :: "network_v6 \<Rightarrow> address_v6 \<times> address_v6" where
  "hosts6 n = (network6 n, v6_inc (last6 n))"

definition canonical6 :: "network_v6 \<Rightarrow> network_v6" where
  "canonical6 n = \<lparr>net6_address = network6 n, prefix6 = prefix6 n\<rparr>"

definition is_subnet_of6 :: "network_v6 \<Rightarrow> network_v6 \<Rightarrow> bool" where
  "is_subnet_of6 n other = (if prefix6 other \<ge> prefix6 n then False
     else canonical6 other = canonical6 \<lparr>net6_address = net6_address n, prefix6 = prefix6 other\<rparr>)"

definition is_host6 :: "network_v6 \<Rightarrow> bool" where
  "is_host6 n = (prefix6 n = 128)"

text \<open>A range of version 6 addresses has no size; \<open>>=\<close> is the negation of \<open><\<close>.\<close>

definition range6_empty :: "address_v6 \<times> address_v6 \<Rightarrow> bool" where
  "range6_empty r = (fst r = snd r)"

definition range6_find :: "address_v6 \<times> address_v6 \<Rightarrow> address_v6 \<Rightarrow> address_v6" where
  "range6_find r a = (if \<not> v6_less a (fst r) \<and> v6_less a (snd r) then a else snd r)"

section \<open>Printing\<close>

definition hex_char :: "nat \<Rightarrow> char" where
  "hex_char d = (if d < 10 then digit_char d else char_of (87 + d))"

fun show_hex :: "nat \<Rightarrow> string" where
  "show_hex n = (if n < 16 then [hex_char n] else show_hex (n div 16) @ [hex_char (n mod 16)])"

declare show_hex.simps [simp del]

text \<open>\<open>inet_ntop\<close> in the branch of \<open>ASIO_WINDOWS_RUNTIME\<close>, the only one in which the library converts itself; the other branches call
  the system's function of that name, which is not modelled.\<close>

definition inet_ntop4 :: "8 word list \<Rightarrow> string" where
  "inet_ntop4 bs = show_nat (unat (bs ! 0)) @ ''.'' @ show_nat (unat (bs ! 1)) @ ''.'' @
     show_nat (unat (bs ! 2)) @ ''.'' @ show_nat (unat (bs ! 3))"

fun skip_zeros :: "8 word list \<Rightarrow> 8 word list" where
  "skip_zeros (x # y # bs) = (if x = 0 \<and> y = 0 then skip_zeros bs else x # y # bs)"
| "skip_zeros bs = bs"

lemma length_skip_zeros [termination_simp]: "length (skip_zeros bs) \<le> length bs"
  by (induction bs rule: skip_zeros.induct) auto

text \<open>The loop at the bytes from index \<open>b\<close> on; \<open>z\<close> counts the runs of zeros, \<open>out\<close> is what is printed.\<close>

fun ntop_loop :: "nat \<Rightarrow> nat \<Rightarrow> nat \<Rightarrow> string \<Rightarrow> 8 word list \<Rightarrow> string" where
  "ntop_loop len b z out (x # y # bs) =
     (if length out < len then
        (if x = 0 \<and> y = 0 \<and> z = 0 then
           (let r = skip_zeros bs in ntop_loop len (16 - length r) (z + 1) (out @ '':'' @ (if r \<noteq> [] then '''' else '':'')) r)
         else ntop_loop len (b + 2) z (out @ (if b \<noteq> 0 then '':'' else '''') @ show_hex (unat x * 256 + unat y)) bs)
      else out)"
| "ntop_loop len b z out bs = out"

text \<open>\<open>inet_ntop\<close> for \<open>AF_INET6\<close> in the same branch.\<close>

definition inet_ntop6 :: "8 word list \<Rightarrow> nat \<Rightarrow> string" where
  "inet_ntop6 bs scope = ntop_loop 256 0 0 [] bs @ (if scope \<noteq> 0 then ''%'' @ show_nat scope else '''')"

section \<open>Reading\<close>

datatype parse_state = FWord | FColon | BWord | ScopeId

definition hex_value :: "char \<Rightarrow> nat option" where
  "hex_value c = (let n = of_char c in
     if 48 \<le> n \<and> n \<le> 57 then Some (n - 48)
     else if 97 \<le> n \<and> n \<le> 102 then Some (n - 87)
     else if 65 \<le> n \<and> n \<le> 70 then Some (n - 55) else None)"

definition word_bytes :: "nat \<Rightarrow> 8 word list" where
  "word_bytes w = [of_nat (w div 256), of_nat w]"

text \<open>The end of the string is the terminating 0. The front and back bytes are lists; the result is what is
  written to the address and the scope.\<close>

definition pton_done :: "8 word list \<Rightarrow> 8 word list \<Rightarrow> nat \<Rightarrow> address_error + 8 word list \<times> nat" where
  "pton_done front back scope = Inr (front @ replicate (16 - length front - length back) 0 @ back, scope)"

function pton_loop :: "parse_state \<Rightarrow> nat \<Rightarrow> 8 word list \<Rightarrow> 8 word list \<Rightarrow> string \<Rightarrow> address_error + 8 word list \<times> nat" where
  "pton_loop st w front back p =
     (if w > 0xFFFF then Inl InvalidArgument else
      case st of
        FWord \<Rightarrow> (case p of
            [] \<Rightarrow> if length front = 16 then Inl InvalidArgument else pton_done (front @ word_bytes w) back 0
          | c # cs \<Rightarrow> (case hex_value c of
              Some d \<Rightarrow> pton_loop FWord (w * 16 + d) front back cs
            | None \<Rightarrow>
                if length front = 16 then Inl InvalidArgument
                else if c = CHR '':'' then pton_loop FColon 0 (front @ word_bytes w) back cs
                else if c = CHR ''%'' then pton_loop ScopeId 0 (front @ word_bytes w) back cs
                else Inl InvalidArgument))
      | FColon \<Rightarrow> (case p of
            [] \<Rightarrow> pton_loop FWord w front back p
          | c # cs \<Rightarrow> if c = CHR '':'' then pton_loop BWord w front back cs else pton_loop FWord w front back p)
      | BWord \<Rightarrow> (case p of
            [] \<Rightarrow> if length front + length back = 16 then Inl InvalidArgument else pton_done front (back @ word_bytes w) 0
          | c # cs \<Rightarrow> (case hex_value c of
              Some d \<Rightarrow> pton_loop BWord (w * 16 + d) front back cs
            | None \<Rightarrow>
                if length front + length back = 16 then Inl InvalidArgument
                else if c = CHR '':'' then pton_loop BWord 0 front (back @ word_bytes w) cs
                else if c = CHR ''%'' then pton_loop ScopeId 0 front (back @ word_bytes w) cs
                else Inl InvalidArgument))
      | ScopeId \<Rightarrow> (case p of
            [] \<Rightarrow> pton_done front back w
          | c # cs \<Rightarrow> if is_digit c then pton_loop ScopeId (w * 10 + digit_val c) front back cs else Inl InvalidArgument))"
  by pat_completeness auto
termination
  by (relation "measure (\<lambda>(st, w, front, back, p). 2 * length p + (if st = FColon then 1 else 0))") auto

declare pton_loop.simps [simp del]

text \<open>\<open>inet_pton\<close> for \<open>AF_INET6\<close>, again in the branch of \<open>ASIO_WINDOWS_RUNTIME\<close>.\<close>

definition inet_pton6 :: "string \<Rightarrow> address_error + 8 word list \<times> nat" where
  "inet_pton6 src = pton_loop FWord 0 [] [] src"

text \<open>\<open>sscanf\<close> of \<open>%u\<close>: blanks, an optional sign, at least one digit; a number that does not fit is undefined, a negative one
  wraps. \<open>Inr None\<close> is a conversion that fails.\<close>

definition scan_unsigned :: "string \<Rightarrow> address_error + (nat \<times> string) option" where
  "scan_unsigned s =
     (let s1 = dropWhile is_space s;
          neg = (s1 \<noteq> [] \<and> hd s1 = CHR ''-'');
          s2 = (if s1 \<noteq> [] \<and> (hd s1 = CHR ''-'' \<or> hd s1 = CHR ''+'') then tl s1 else s1);
          (v, r) = read_digits 0 s2
      in if s2 = [] \<or> \<not> is_digit (hd s2) then Inr None
         else if v > 0xFFFFFFFF then Inl Undefined
         else Inr (Some (if neg then (2 ^ 32 - v) mod 2 ^ 32 else v, r)))"

text \<open>The remaining \<open>k\<close> conversions, each after a dot but the first; \<open>None\<close> when fewer succeed.\<close>

fun scan_dotted :: "nat \<Rightarrow> bool \<Rightarrow> string \<Rightarrow> address_error + nat list option" where
  "scan_dotted 0 dot s = Inr (Some [])"
| "scan_dotted (Suc k) dot s =
     (if dot \<and> (s = [] \<or> hd s \<noteq> CHR ''.'') then Inr None
      else bindr (scan_unsigned (if dot then tl s else s)) (\<lambda>r. case r of
          None \<Rightarrow> Inr None
        | Some (v, rest) \<Rightarrow> bindr (scan_dotted k True rest) (\<lambda>vs. Inr (map_option ((#) v) vs))))"

definition inet_pton4 :: "string \<Rightarrow> address_error + 8 word list" where
  "inet_pton4 src = bindr (scan_dotted 4 False src) (\<lambda>r. case r of
       None \<Rightarrow> Inl InvalidArgument
     | Some vs \<Rightarrow> if list_ex (\<lambda>v. v > 255) vs then Inl InvalidArgument else Inr (List.map of_nat vs))"

section \<open>Counting\<close>

text \<open>The number that bytes stand for, the first being the highest.\<close>

definition bytes_val :: "8 word list \<Rightarrow> nat" where
  "bytes_val bs = foldl (\<lambda>v b. v * 256 + unat b) 0 bs"

lemma bytes_val_snoc [simp]: "bytes_val (bs @ [b]) = bytes_val bs * 256 + unat b"
  by (simp add: bytes_val_def)

lemma bytes_val_Nil [simp]: "bytes_val [] = 0"
  by (simp add: bytes_val_def)

lemma unat_8: "unat (b :: 8 word) < 256"
  using unsigned_less [of b] by simp

lemma bytes_val_less: "bytes_val bs < 256 ^ length bs"
proof (induction bs rule: rev_induct)
  case (snoc b bs)
  have "bytes_val bs * 256 + unat b < (bytes_val bs + 1) * 256" using unat_8 [of b] by simp
  also have "\<dots> \<le> 256 ^ length bs * 256" using snoc by (intro mult_right_mono) simp_all
  finally show ?case by simp
qed simp

lemma loop_append:
  "i \<le> length xs \<Longrightarrow> inc_loop i (xs @ ys) = inc_loop i xs @ ys"
  "i \<le> length xs \<Longrightarrow> dec_loop i (xs @ ys) = dec_loop i xs @ ys"
  by (induction i arbitrary: xs) (simp_all add: nth_append list_update_append)

lemma length_loop [simp]: "length (inc_loop i bs) = length bs" "length (dec_loop i bs) = length bs"
  by (induction i arbitrary: bs) simp_all

lemma inc_loop_val: "bytes_val (inc_loop (length bs) bs) = (bytes_val bs + 1) mod 256 ^ length bs"
proof (induction bs rule: rev_induct)
  case (snoc b bs)
  let ?n = "256 ^ length bs :: nat"
  show ?case
  proof (cases "b < 0xFF")
    case True
    then have u: "unat (b + 1) = unat b + 1" by (simp add: word_less_nat_alt unat_word_ariths)
    have "bytes_val bs * 256 + unat b + 1 < 256 ^ length (bs @ [b])"
      using bytes_val_less [of "bs @ [b + 1]"] u by simp
    then show ?thesis using True u by (simp add: nth_append list_update_append)
  next
    case False
    then have b: "unat b = 255" using unat_8 [of b] by (simp add: word_less_nat_alt)
    have "bytes_val (inc_loop (length (bs @ [b])) (bs @ [b])) = (bytes_val bs + 1) mod ?n * 256"
      using False snoc by (simp add: nth_append list_update_append loop_append)
    also have "\<dots> = (bytes_val bs + 1) * 256 mod (?n * 256)" by (simp add: mult_mod_left)
    finally show ?thesis by (simp add: b algebra_simps)
  qed
qed simp

lemma dec_inc_loop: "length bs = n \<Longrightarrow> dec_loop n (inc_loop n bs) = bs"
proof (induction n arbitrary: bs)
  case (Suc n)
  obtain xs b where bs: "bs = xs @ [b]" "length xs = n" using Suc.prems by (cases bs rule: rev_cases) auto
  show ?case
  proof (cases "b < 0xFF")
    case True
    then have "0 < b + 1" by (simp add: word_less_nat_alt unat_word_ariths)
    with True bs show ?thesis by (simp add: nth_append list_update_append)
  next
    case False
    then have "b = 0xFF" using unat_8 [of b] by (simp add: word_less_nat_alt word_unat_eq_iff)
    with bs Suc.IH [of xs] show ?thesis by (simp add: nth_append list_update_append loop_append)
  qed
qed simp

definition well_formed6 :: "address_v6 \<Rightarrow> bool" where
  "well_formed6 a = (length (v6_bytes a) = 16)"

text \<open>An iterator over version 6 addresses counts: \<open>++\<close> adds one to the 128 bit number, with a wrap at the end, keeps the
  scope, and \<open>--\<close> takes it back.\<close>
theorem v6_iterator_counts:
  assumes "well_formed6 a"
  shows "bytes_val (v6_bytes (v6_inc a)) = (bytes_val (v6_bytes a) + 1) mod 2 ^ 128 \<and> scope_id (v6_inc a) = scope_id a \<and>
    well_formed6 (v6_inc a) \<and> v6_dec (v6_inc a) = a"
proof -
  have l: "length (v6_bytes a) = 16" using assms by (simp add: well_formed6_def)
  have "(256 :: nat) ^ 16 = 2 ^ 128" by simp
  then show ?thesis
    using inc_loop_val [of "v6_bytes a"] dec_inc_loop [OF l] l by (simp add: v6_inc_def v6_dec_def well_formed6_def)
qed

lemma v6_iterator_counts_witness:
  "bytes_val (v6_bytes (v6_inc (new_address_v6 (replicate 14 0 @ [1, 0xFF])))) = 512"
proof -
  have w: "well_formed6 (new_address_v6 (replicate 14 0 @ [1, 0xFF]))" by (simp add: well_formed6_def new_address_v6_def)
  have "bytes_val (replicate n 0) = 0" for n by (induction n) (simp_all add: bytes_val_def)
  then have "bytes_val ((replicate 14 0 @ [1]) @ [0xFF]) = 511" unfolding bytes_val_snoc by simp
  then show ?thesis using v6_iterator_counts [OF w] by (simp add: new_address_v6_def)
qed

section \<open>Prefixes\<close>

text \<open>The bits of an address, from the highest.\<close>

definition v6_bit :: "address_v6 \<Rightarrow> nat \<Rightarrow> bool" where
  "v6_bit a j = bit (v6_bytes a ! (j div 8)) (7 - j mod 8)"

lemma byte_masks:
  assumes "k < 8" "m < 8"
  shows "bit (ucast (drop_bit k (0xFF00 :: 32 word)) :: 8 word) m \<longleftrightarrow> 8 - k \<le> m"
    "bit (ucast (drop_bit k (0xFF :: 32 word)) :: 8 word) m \<longleftrightarrow> m < 8 - k"
proof -
  have f: "(0xFF00 :: 32 word) = push_bit 8 (mask 8)" "(0xFF :: 32 word) = mask 8" by (simp_all add: mask_eq_exp_minus_1)
  show "bit (ucast (drop_bit k (0xFF00 :: 32 word)) :: 8 word) m \<longleftrightarrow> 8 - k \<le> m"
    "bit (ucast (drop_bit k (0xFF :: 32 word)) :: 8 word) m \<longleftrightarrow> m < 8 - k"
    using assms unfolding f by (auto simp: bit_simps simp del: push_bit_numeral)
qed

lemma first_byte_bit:
  assumes "j < 128" "i = j div 8"
  shows "bit (first_byte p i b) (7 - j mod 8) \<longleftrightarrow> j < p \<and> bit b (7 - j mod 8)"
    "bit (last_byte p i b) (7 - j mod 8) \<longleftrightarrow> j < p \<longrightarrow> bit b (7 - j mod 8)"
proof -
  have j: "j = 8 * i + j mod 8" "j mod 8 < 8" using assms(2) by simp_all
  consider "p \<le> i * 8" | "i * 8 < p" "p < (i + 1) * 8" | "(i + 1) * 8 \<le> p" by linarith
  then have "(bit (first_byte p i b) (7 - j mod 8) \<longleftrightarrow> j < p \<and> bit b (7 - j mod 8)) \<and>
    (bit (last_byte p i b) (7 - j mod 8) \<longleftrightarrow> (j < p \<longrightarrow> bit b (7 - j mod 8)))"
  proof cases
    case 1
    then have "\<not> j < p" using j by linarith
    moreover have "bit (mask 8 :: 8 word) (7 - j mod 8)" by (simp add: bit_mask_iff)
    then have "bit (0xFF :: 8 word) (7 - j mod 8)" by (simp add: mask_eq_exp_minus_1)
    ultimately show ?thesis using 1 by (simp add: first_byte_def last_byte_def)
  next
    case 2
    then have "p div 8 = i" by (intro div_nat_eqI) (simp_all add: algebra_simps)
    then have p: "p = 8 * i + p mod 8" using mult_div_mod_eq [of 8 p] by simp
    have "j < p \<longleftrightarrow> j mod 8 < p mod 8" using p j by linarith
    moreover have "7 - j mod 8 < 8" "8 - p mod 8 \<le> 7 - j mod 8 \<longleftrightarrow> j mod 8 < p mod 8" "7 - j mod 8 < 8 - p mod 8 \<longleftrightarrow> \<not> j mod 8 < p mod 8"
      using j(2) mod_less_divisor [of 8 p] by linarith+
    ultimately show ?thesis using 2 by (auto simp: first_byte_def last_byte_def bit_and_iff bit_or_iff byte_masks)
  next
    case 3
    then have "8 * i + 8 \<le> p" by simp
    then have "j < p" using j by linarith
    with 3 show ?thesis by (simp add: first_byte_def last_byte_def)
  qed
  then show "bit (first_byte p i b) (7 - j mod 8) \<longleftrightarrow> j < p \<and> bit b (7 - j mod 8)"
    "bit (last_byte p i b) (7 - j mod 8) \<longleftrightarrow> j < p \<longrightarrow> bit b (7 - j mod 8)" by auto
qed

text \<open>\<open>network()\<close> keeps the first bits of the address, as many as the prefix has, and clears the others; the last address
  of \<open>hosts()\<close> has ones there.\<close>
theorem v6_network_bits:
  assumes "j < 128"
  shows "v6_bit (network6 n) j = (j < prefix6 n \<and> v6_bit (net6_address n) j) \<and>
    v6_bit (last6 n) j = (\<not> j < prefix6 n \<or> v6_bit (net6_address n) j)"
proof -
  have "j div 8 < 16" using assms by simp
  then show ?thesis
    using first_byte_bit [OF assms refl, of "prefix6 n" "v6_bytes (net6_address n) ! (j div 8)"]
    by (auto simp: v6_bit_def network6_def last6_def)
qed

lemma v6_network_bits_witness:
  "v6_bit (network6 \<lparr>net6_address = v6_loopback, prefix6 = 64\<rparr>) 127 = False"
  using v6_network_bits [of 127 "\<lparr>net6_address = v6_loopback, prefix6 = 64\<rparr>"] by simp

text \<open>A mapped address gives the version 4 address back.\<close>

lemma mapped_roundtrip:
  "is_v4_mapped (make_v4_mapped a) \<and> v4_from_mapped (make_v4_mapped a) = Inr a \<and> to_v4 (make_v4_mapped a) = Inr a"
proof -
  have l: "length (to_bytes a) = 4" by (simp add: to_bytes_def)
  let ?b = "replicate 10 0 @ [0xFF, 0xFF] @ to_bytes a :: 8 word list"
  have m: "is_v4_mapped (make_v4_mapped a)" by (simp add: is_v4_mapped_def make_v4_mapped_def new_address_v6_def)
  have n: "?b ! 12 = to_bytes a ! 0" "?b ! 13 = to_bytes a ! 1" "?b ! 14 = to_bytes a ! 2" "?b ! 15 = to_bytes a ! 3"
    by (simp_all add: nth_append)
  have "address_of_bytes [to_bytes a ! 0, to_bytes a ! 1, to_bytes a ! 2, to_bytes a ! 3] = address_of_bytes (to_bytes a)"
    by (simp add: to_bytes_def)
  then show ?thesis
    using m n by (simp add: v4_from_mapped_def to_v4_def make_v4_mapped_def new_address_v6_def bytes_of_address)
qed

section \<open>Hexadecimal words\<close>

lemma hex_value_char: "d < 16 \<Longrightarrow> hex_value (hex_char d) = Some d"
  by (auto simp: hex_char_def hex_value_def digit_char_def of_char_of Let_def)

lemma hex_value_colon [simp]: "hex_value CHR '':'' = None" "hex_value CHR ''%'' = None"
  by (simp_all add: hex_value_def Let_def)

definition no_hex :: "string \<Rightarrow> bool" where
  "no_hex r = (r = [] \<or> hex_value (hd r) = None)"

lemma show_hex_nonempty [simp]: "show_hex n \<noteq> []"
  by (subst show_hex.simps) simp

lemma hd_show_hex: "\<exists>d < 16. hd (show_hex n) = hex_char d"
proof (induction n rule: show_hex.induct)
  case (1 n)
  show ?case
  proof (cases "n < 16")
    case True
    then show ?thesis by (subst show_hex.simps) auto
  next
    case False
    then show ?thesis using 1 by (subst show_hex.simps) simp
  qed
qed

text \<open>Reading the digits of a printed word.\<close>

lemma read_hex:
  assumes "st = FWord \<or> st = BWord" "n \<le> 0xFFFF"
  shows "pton_loop st 0 f b (show_hex n @ r) = pton_loop st n f b r"
  using assms(2)
proof (induction n arbitrary: r rule: show_hex.induct)
  case (1 n)
  have step: "pton_loop st w f b (hex_char d # r) = pton_loop st (w * 16 + d) f b r" if "d < 16" "w \<le> 0xFFFF" for w d r
    using assms(1) that by (auto simp: pton_loop.simps [of st w] hex_value_char)
  show ?case
  proof (cases "n < 16")
    case True
    then show ?thesis using step [of n 0] by (subst show_hex.simps) simp
  next
    case False
    then have "pton_loop st 0 f b (show_hex n @ r) = pton_loop st 0 f b (show_hex (n div 16) @ (hex_char (n mod 16) # r))"
      by (subst show_hex.simps) simp
    also have "\<dots> = pton_loop st (n div 16) f b (hex_char (n mod 16) # r)" using False 1 by simp
    also have "\<dots> = pton_loop st n f b r" using step [of "n mod 16" "n div 16"] 1(2) by simp
    finally show ?thesis .
  qed
qed

section \<open>Words and their text\<close>

fun words_of :: "8 word list \<Rightarrow> nat list" where
  "words_of (x # y # bs) = (unat x * 256 + unat y) # words_of bs"
| "words_of bs = []"

definition bytes_of :: "nat list \<Rightarrow> 8 word list" where
  "bytes_of ws = concat (List.map word_bytes ws)"

lemma bytes_of_simps [simp]:
  "bytes_of [] = []" "bytes_of (w # ws) = word_bytes w @ bytes_of ws" "bytes_of (vs @ ws) = bytes_of vs @ bytes_of ws"
  by (simp_all add: bytes_of_def)

lemma length_word_bytes [simp]: "length (word_bytes w) = 2"
  by (simp add: word_bytes_def)

lemma length_bytes_of [simp]: "length (bytes_of ws) = 2 * length ws"
  by (induction ws) simp_all

lemma word_bytes_pair: "word_bytes (unat x * 256 + unat y) = [x, y :: 8 word]"
proof -
  have "of_nat (unat x * 256 + unat y) = (of_nat 256 * x + y :: 8 word)" by (simp add: mult.commute)
  also have "(of_nat 256 :: 8 word) = 0" by simp
  finally show ?thesis using unat_8 [of y] by (simp add: word_bytes_def)
qed

lemma bytes_of_words: "even (length bs) \<Longrightarrow> bytes_of (words_of bs) = bs"
  by (induction bs rule: words_of.induct) (simp_all add: word_bytes_pair)

lemma words_of_less: "list_all (\<lambda>w. w \<le> 0xFFFF) (words_of bs)"
proof (induction bs rule: words_of.induct)
  case (1 x y bs)
  have "unat x * 256 + unat y \<le> 255 * 256 + 255"
    by (intro add_mono mult_right_mono) (use unat_8 [of x] unat_8 [of y] in simp_all)
  with 1 show ?case by simp
qed simp_all

lemma length_words_of: "even (length bs) \<Longrightarrow> 2 * length (words_of bs) = length bs"
  by (induction bs rule: words_of.induct) simp_all

lemma words_skip_zeros: "words_of (skip_zeros bs) = dropWhile (\<lambda>w. w = 0) (words_of bs)"
  by (induction bs rule: skip_zeros.induct) (simp_all add: unat_eq_zero)

lemma even_skip_zeros: "even (length (skip_zeros bs)) = even (length bs)"
  by (induction bs rule: skip_zeros.induct) simp_all

lemma words_of_Nil: "even (length bs) \<Longrightarrow> words_of bs = [] \<longleftrightarrow> bs = []"
  by (induction bs rule: words_of.induct) simp_all

definition tail_text :: "nat list \<Rightarrow> string" where
  "tail_text ws = concat (List.map (\<lambda>w. '':'' @ show_hex w) ws)"

lemma tail_text_simps [simp]:
  "tail_text [] = []" "tail_text (w # ws) = '':'' @ show_hex w @ tail_text ws" "tail_text (vs @ ws) = tail_text vs @ tail_text ws"
  by (simp_all add: tail_text_def)

lemma length_show_hex: "n < 16 ^ Suc k \<Longrightarrow> length (show_hex n) \<le> Suc k"
proof (induction k arbitrary: n)
  case (Suc k)
  then have "n div 16 < 16 ^ Suc k" by auto
  from Suc.IH [OF this] show ?case by (subst show_hex.simps) simp
qed (subst show_hex.simps, simp)

lemma length_word_text: "length (show_hex (unat (x :: 8 word) * 256 + unat (y :: 8 word))) \<le> 4"
proof -
  have "unat x * 256 + unat y \<le> 255 * 256 + 255"
    by (intro add_mono mult_right_mono) (use unat_8 [of x] unat_8 [of y] in simp_all)
  then show ?thesis using length_show_hex [of _ 3] by simp
qed

text \<open>What the loop prints from the byte \<open>b\<close> on: after a run of zeros, every word; before, up to the first
  run, which is left out.\<close>

lemma ntop_after_zeros:
  "even (length bs) \<Longrightarrow> 0 < b \<Longrightarrow> 0 < z \<Longrightarrow> length out + 3 * length bs < len \<Longrightarrow>
     ntop_loop len b z out bs = out @ tail_text (words_of bs)"
proof (induction bs arbitrary: b out rule: words_of.induct)
  case (1 x y bs)
  have l: "length (show_hex (unat x * 256 + unat y)) \<le> 4" by (rule length_word_text)
  show ?case using 1 l by (simp add: Let_def)
qed simp_all

definition zeros_text :: "nat list \<Rightarrow> string" where
  "zeros_text post = '':'' @ (if post = [] then '':'' else tail_text post)"

definition body_text :: "nat list \<Rightarrow> string" where
  "body_text ws = (let pre = takeWhile (\<lambda>w. w \<noteq> 0) ws; rest = dropWhile (\<lambda>w. w \<noteq> 0) ws
     in tail_text pre @ (if rest = [] then [] else zeros_text (dropWhile (\<lambda>w. w = 0) rest)))"

lemma ntop_zeros:
  assumes "even (length bs)" "length out + 3 * (length bs + 2) < len" "length bs < 16"
  shows "ntop_loop len b 0 out (0 # 0 # bs) = out @ zeros_text (dropWhile (\<lambda>w. w = 0) (words_of bs))"
proof -
  let ?r = "skip_zeros bs"
  have e: "even (length ?r)" using assms(1) by (simp add: even_skip_zeros)
  have l: "length ?r \<le> length bs" by (rule length_skip_zeros)
  have n: "?r = [] \<longleftrightarrow> dropWhile (\<lambda>w. w = 0) (words_of bs) = []"
    using words_of_Nil [OF e] by (simp add: words_skip_zeros del: dropWhile_eq_Nil_conv)
  show ?thesis
  proof (cases "?r = []")
    case True
    then show ?thesis using n assms(2) by (simp add: zeros_text_def Let_def)
  next
    case False
    have "ntop_loop len (16 - length ?r) (0 + 1) (out @ '':'') ?r = (out @ '':'') @ tail_text (words_of ?r)"
      by (rule ntop_after_zeros [OF e]) (use l assms in simp_all)
    then show ?thesis using False n assms(2) by (simp add: zeros_text_def words_skip_zeros Let_def del: dropWhile_eq_Nil_conv)
  qed
qed

lemma ntop_body:
  "even (length bs) \<Longrightarrow> 0 < b \<Longrightarrow> length bs < 16 \<Longrightarrow> length out + 3 * length bs < len \<Longrightarrow>
     ntop_loop len b 0 out bs = out @ body_text (words_of bs)"
proof (induction bs arbitrary: b out rule: words_of.induct)
  case (1 x y bs)
  have l: "length (show_hex (unat x * 256 + unat y)) \<le> 4" by (rule length_word_text)
  show ?case
  proof (cases "x = 0 \<and> y = 0")
    case True
    then show ?thesis using ntop_zeros [of bs out len b] 1(2,4,5) by (simp add: body_text_def unat_eq_zero Let_def)
  next
    case False
    have "ntop_loop len (b + 2) 0 (out @ '':'' @ show_hex (unat x * 256 + unat y)) bs =
        (out @ '':'' @ show_hex (unat x * 256 + unat y)) @ body_text (words_of bs)"
      by (rule 1(1)) (use 1(2-5) l in simp_all)
    then show ?thesis using False 1(3,5) by (auto simp: body_text_def unat_eq_zero Let_def simp del: dropWhile_eq_Nil_conv)
  qed
qed (simp_all add: body_text_def)

lemma ntop_text:
  assumes "length bs = 16"
  shows "ntop_loop 256 0 0 [] bs = (if hd (words_of bs) = 0 then body_text (words_of bs)
     else tl (body_text (words_of bs)))"
proof -
  obtain x r' where "bs = x # r'" using assms by (cases bs) simp_all
  moreover obtain y r where "r' = y # r" using assms calculation by (cases r') simp_all
  ultimately have bs: "bs = x # y # r" "length r = 14" using assms by simp_all
  have l: "length (show_hex (unat x * 256 + unat y)) \<le> 4" by (rule length_word_text)
  show ?thesis
  proof (cases "x = 0 \<and> y = 0")
    case True
    then show ?thesis using ntop_zeros [of r "[]" 256 0] bs by (simp add: body_text_def unat_eq_zero Let_def)
  next
    case False
    have "ntop_loop 256 (Suc (Suc 0)) 0 (show_hex (unat x * 256 + unat y)) r = show_hex (unat x * 256 + unat y) @ body_text (words_of r)"
      by (rule ntop_body) (use bs l in simp_all)
    then show ?thesis using False bs by (auto simp: body_text_def unat_eq_zero Let_def simp del: dropWhile_eq_Nil_conv)
  qed
qed

section \<open>Reading a printed address\<close>

definition scope_text :: "nat \<Rightarrow> string" where
  "scope_text s = (if s \<noteq> 0 then ''%'' @ show_nat s else '''')"

lemma scope_digits:
  "n \<le> 0xFFFF \<Longrightarrow> pton_loop ScopeId 0 f b (show_nat n @ r) = pton_loop ScopeId n f b r"
proof (induction n arbitrary: r rule: show_nat.induct)
  case (1 n)
  have step: "pton_loop ScopeId w f b (digit_char d # r) = pton_loop ScopeId (w * 10 + d) f b r" if "d < 10" "w \<le> 0xFFFF" for w d r
    using that by (simp add: pton_loop.simps [of ScopeId w])
  show ?case
  proof (cases "n < 10")
    case True
    then show ?thesis using step [of n 0] by (subst show_nat.simps) simp
  next
    case False
    then have "pton_loop ScopeId 0 f b (show_nat n @ r) = pton_loop ScopeId 0 f b (show_nat (n div 10) @ (digit_char (n mod 10) # r))"
      by (subst show_nat.simps) simp
    also have "\<dots> = pton_loop ScopeId (n div 10) f b (digit_char (n mod 10) # r)" using False 1 by simp
    also have "\<dots> = pton_loop ScopeId n f b r" using step [of "n mod 10" "n div 10"] 1(2) by simp
    finally show ?thesis .
  qed
qed

lemma scope_end: "n \<le> 0xFFFF \<Longrightarrow> pton_loop ScopeId 0 f b (show_nat n) = pton_done f b n"
  using scope_digits [of n f b "[]"] by (simp add: pton_loop.simps [of ScopeId n])

lemma read_end:
  assumes "w \<le> 0xFFFF" "s \<le> 0xFFFF"
  shows "length f \<noteq> 16 \<Longrightarrow> pton_loop FWord w f b (scope_text s) = pton_done (f @ word_bytes w) b s"
    "length f + length b \<noteq> 16 \<Longrightarrow> pton_loop BWord w f b (scope_text s) = pton_done f (b @ word_bytes w) s"
  using assms by (simp_all add: scope_text_def pton_loop.simps [of FWord w] pton_loop.simps [of BWord w] scope_end)

lemma hex_not_colon: "show_hex n @ r = c # cs \<Longrightarrow> c \<noteq> CHR '':''"
proof
  assume a: "show_hex n @ r = c # cs" "c = CHR '':''"
  then have "hd (show_hex n) = CHR '':''" by (cases "show_hex n") simp_all
  moreover obtain d where "d < 16" "hd (show_hex n) = hex_char d" using hd_show_hex by blast
  ultimately show False using hex_value_char [of d] by simp
qed

lemma read_next_front:
  assumes "w \<le> 0xFFFF" "v \<le> 0xFFFF" "length f \<noteq> 16"
  shows "pton_loop FWord w f b (CHR '':'' # show_hex v @ r) = pton_loop FWord v (f @ word_bytes w) b r"
proof -
  have "pton_loop FWord w f b (CHR '':'' # show_hex v @ r) = pton_loop FColon 0 (f @ word_bytes w) b (show_hex v @ r)"
    using assms by (simp add: pton_loop.simps [of FWord w])
  also have "\<dots> = pton_loop FWord 0 (f @ word_bytes w) b (show_hex v @ r)"
    by (subst pton_loop.simps) (auto simp: hex_not_colon split: list.split)
  finally show ?thesis using assms by (simp add: read_hex)
qed

lemma read_next_back:
  assumes "w \<le> 0xFFFF" "v \<le> 0xFFFF" "length f + length b \<noteq> 16"
  shows "pton_loop BWord w f b (CHR '':'' # show_hex v @ r) = pton_loop BWord v f (b @ word_bytes w) r"
  using assms by (simp add: pton_loop.simps [of BWord w] read_hex)

lemma read_front:
  "w \<le> 0xFFFF \<Longrightarrow> list_all (\<lambda>w. w \<le> 0xFFFF) ws \<Longrightarrow> length f + 2 * length ws < 16 + 2 \<Longrightarrow> even (length f) \<Longrightarrow>
     pton_loop FWord w f b (tail_text ws @ r) = pton_loop FWord (last (w # ws)) (f @ bytes_of (butlast (w # ws))) b r"
  by (induction ws arbitrary: w f) (auto simp: read_next_front)

lemma read_back:
  "w \<le> 0xFFFF \<Longrightarrow> list_all (\<lambda>w. w \<le> 0xFFFF) ws \<Longrightarrow> length f + length b + 2 * length ws < 16 + 2 \<Longrightarrow> even (length f + length b) \<Longrightarrow>
     pton_loop BWord w f b (tail_text ws @ r) = pton_loop BWord (last (w # ws)) f (b @ bytes_of (butlast (w # ws))) r"
  by (induction ws arbitrary: w b) (auto simp: read_next_back)

lemma bytes_of_butlast: "bytes_of (butlast (w # ws)) @ word_bytes (last (w # ws)) = word_bytes w @ bytes_of ws"
  by (induction ws arbitrary: w) auto

text \<open>A text with a run of zeros, from its two colons on.\<close>

lemma read_zeros:
  assumes "w \<le> 0xFFFF" "s \<le> 0xFFFF" "list_all (\<lambda>w. w \<le> 0xFFFF) post" "length f + 2 + 2 * max 1 (length post) \<le> 16" "even (length f)"
  shows "pton_loop FWord w f [] (zeros_text post @ scope_text s) =
    pton_done (f @ word_bytes w) (if post = [] then word_bytes 0 else bytes_of post) s"
proof -
  have start: "pton_loop FWord w f [] (CHR '':'' # CHR '':'' # r) = pton_loop BWord 0 (f @ word_bytes w) [] r" for r
    using assms by (simp add: pton_loop.simps [of FWord w] pton_loop.simps [of FColon 0])
  show ?thesis
  proof (cases post)
    case Nil
    then show ?thesis using assms start by (simp add: zeros_text_def read_end)
  next
    case (Cons v vs)
    have le: "last (v # vs) \<le> 0xFFFF" using assms(3) Cons by (metis last_in_set list.distinct(1) list_all_iff)
    have "pton_loop FWord w f [] (zeros_text post @ scope_text s) =
        pton_loop BWord 0 (f @ word_bytes w) [] (show_hex v @ tail_text vs @ scope_text s)"
      using Cons start by (simp add: zeros_text_def)
    also have "\<dots> = pton_loop BWord v (f @ word_bytes w) [] (tail_text vs @ scope_text s)"
      using assms(3) Cons by (simp add: read_hex)
    also have "\<dots> = pton_loop BWord (last (v # vs)) (f @ word_bytes w) (bytes_of (butlast (v # vs))) (scope_text s)"
      using assms Cons read_back [of v vs "f @ word_bytes w" "[]"] by simp
    also have "\<dots> = pton_done (f @ word_bytes w) (bytes_of (butlast (v # vs)) @ word_bytes (last (v # vs))) s"
      using assms Cons by (intro read_end le) simp_all
    finally show ?thesis using Cons by (simp only: bytes_of_butlast) simp
  qed
qed

lemma last_word_le: "list_all (\<lambda>w. w \<le> 0xFFFF) (w # ws) \<Longrightarrow> last (w # ws) \<le> (0xFFFF :: nat)"
  by (metis last_in_set list.distinct(1) list_all_iff)

lemma read_no_zeros:
  assumes "list_all (\<lambda>w. w \<le> 0xFFFF) (w # ws)" "length ws = 7" "s \<le> 0xFFFF"
  shows "pton_loop FWord 0 [] [] (show_hex w @ tail_text ws @ scope_text s) = Inr (bytes_of (w # ws), s)"
proof -
  have "pton_loop FWord 0 [] [] (show_hex w @ tail_text ws @ scope_text s) =
      pton_loop FWord (last (w # ws)) (bytes_of (butlast (w # ws))) [] (scope_text s)"
    using assms read_front [of w ws "[]"] by (simp add: read_hex)
  also have "\<dots> = pton_done (bytes_of (butlast (w # ws)) @ word_bytes (last (w # ws))) [] s"
    using assms by (intro read_end last_word_le) simp_all
  also have "\<dots> = Inr (bytes_of (w # ws), s)"
    using assms by (simp only: bytes_of_butlast) (simp add: pton_done_def)
  finally show ?thesis .
qed

text \<open>With a run of \<open>n\<close> zeros between the words \<open>pre\<close> and \<open>post\<close>.\<close>

lemma read_with_zeros:
  assumes le: "list_all (\<lambda>w. w \<le> 0xFFFF) pre" "list_all (\<lambda>w. w \<le> 0xFFFF) post" "s \<le> 0xFFFF"
    and n: "0 < n" "length pre + n + length post = 8"
  shows "pton_loop FWord 0 [] [] ((if pre = [] then [] else tl (tail_text pre)) @ zeros_text post @ scope_text s) =
    Inr (bytes_of (pre @ replicate n 0 @ post), s)"
proof -
  have z: "bytes_of (replicate k 0) = replicate (2 * k) 0" for k
    by (induction k) (simp_all add: word_bytes_def)
  have fin: "pton_done f (if post = [] then word_bytes 0 else bytes_of post) s =
      Inr (f @ replicate (16 - length f - 2 * length post) 0 @ bytes_of post, s)" if "length f \<le> 14" for f
  proof (cases "post = []")
    case True
    have "replicate (14 - length f) 0 @ [0, 0] = replicate (16 - length f) (0 :: 8 word)"
      using that by (simp add: replicate_app_Cons_same flip: replicate_Suc)
    then show ?thesis using True by (simp add: pton_done_def word_bytes_def)
  qed (simp add: pton_done_def)
  show ?thesis
  proof (cases pre)
    case Nil
    then have "pton_loop FWord 0 [] [] (zeros_text post @ scope_text s) =
        pton_done (word_bytes 0) (if post = [] then word_bytes 0 else bytes_of post) s"
      using assms read_zeros [of 0 s post "[]"] by simp
    then show ?thesis using Nil n fin [of "word_bytes 0"] by (cases n) (simp_all add: z word_bytes_def)
  next
    case (Cons w ws)
    have m: "length ws + max 1 (length post) \<le> 7" using n Cons by (cases post) simp_all
    have l: "last (w # ws) \<le> 0xFFFF" using le(1) Cons by (intro last_word_le) simp
    have "pton_loop FWord 0 [] [] (show_hex w @ tail_text ws @ zeros_text post @ scope_text s) =
        pton_loop FWord (last (w # ws)) (bytes_of (butlast (w # ws))) [] (zeros_text post @ scope_text s)"
      using assms Cons read_front [of w ws "[]"] by (simp add: read_hex)
    also have "\<dots> = pton_done (bytes_of (butlast (w # ws)) @ word_bytes (last (w # ws)))
        (if post = [] then word_bytes 0 else bytes_of post) s"
      using assms Cons l m by (intro read_zeros) simp_all
    also have "\<dots> = Inr (bytes_of pre @ replicate (16 - 2 * length pre - 2 * length post) 0 @ bytes_of post, s)"
      using n Cons fin [of "bytes_of pre"] by (simp only: bytes_of_butlast) simp
    finally have "pton_loop FWord 0 [] [] (show_hex w @ tail_text ws @ zeros_text post @ scope_text s) =
      Inr (bytes_of pre @ replicate (2 * n) 0 @ bytes_of post, s)" using n(2) by (simp add: algebra_simps)
    then show ?thesis using Cons by (simp add: z)
  qed
qed

text \<open>\<open>inet_pton\<close> reads what \<open>inet_ntop\<close> prints: the text of an address, with its first run of zero words left out,
  gives the same 16 bytes and the same scope, for every scope of at most 65535.\<close>

lemma pton_ntop6:
  assumes "length bs = 16" "scope \<le> 0xFFFF"
  shows "inet_pton6 (inet_ntop6 bs scope) = Inr (bs, scope)"
proof -
  let ?ws = "words_of bs" and ?nz = "\<lambda>w. w \<noteq> (0 :: nat)" and ?z = "\<lambda>w. w = (0 :: nat)"
  define pre rest where "pre = takeWhile ?nz ?ws" and "rest = dropWhile ?nz ?ws"
  have ws: "?ws = pre @ rest" by (simp add: pre_def rest_def)
  have len: "length pre + length rest = 8" using length_words_of [of bs] assms ws by simp
  have le: "list_all (\<lambda>w. w \<le> 0xFFFF) pre" "list_all (\<lambda>w. w \<le> 0xFFFF) rest"
    using words_of_less [of bs] ws by simp_all
  have bs: "bytes_of ?ws = bs" using assms by (intro bytes_of_words) simp
  have printed: "inet_ntop6 bs scope = (if hd ?ws = 0 then body_text ?ws else tl (body_text ?ws)) @ scope_text scope"
    using ntop_text [OF assms(1)] by (simp add: inet_ntop6_def scope_text_def)
  show ?thesis
  proof (cases "rest = []")
    case True
    then obtain w vs where p: "pre = w # vs" "length vs = 7" using len by (cases pre) simp_all
    have "w \<noteq> 0" using p by (metis list.set_intros(1) pre_def set_takeWhileD)
    then have "inet_ntop6 bs scope = show_hex w @ tail_text vs @ scope_text scope"
      using printed True p ws unfolding body_text_def Let_def pre_def [symmetric] rest_def [symmetric] by simp
    then show ?thesis using read_no_zeros [of w vs scope] p le True ws bs assms by (simp add: inet_pton6_def)
  next
    case False
    define n post where "n = length (takeWhile ?z rest)" and "post = dropWhile ?z rest"
    have r: "rest = replicate n 0 @ post"
      using takeWhile_dropWhile_id [of ?z rest] replicate_length_same [of "takeWhile ?z rest" 0]
      by (metis n_def post_def set_takeWhileD)
    have "hd rest = 0" using False hd_dropWhile [of ?nz ?ws] by (simp add: rest_def)
    then have n: "0 < n" using False by (cases rest) (simp_all add: n_def)
    have h: "hd ?ws = 0 \<longleftrightarrow> pre = []"
    proof (cases pre)
      case (Cons w vs)
      then have "w \<noteq> 0" by (metis list.set_intros(1) pre_def set_takeWhileD)
      then show ?thesis using Cons ws by simp
    qed (use ws \<open>hd rest = 0\<close> in simp)
    have "inet_ntop6 bs scope = (if pre = [] then [] else tl (tail_text pre)) @ zeros_text post @ scope_text scope"
      using printed False h unfolding body_text_def Let_def pre_def [symmetric] rest_def [symmetric] post_def [symmetric]
      by (cases pre) simp_all
    moreover have "bytes_of (pre @ replicate n 0 @ post) = bs" using bs ws r by simp
    ultimately show ?thesis
      using read_with_zeros [OF le(1) _ assms(2) n] le(2) len r by (simp add: inet_pton6_def)
  qed
qed

text \<open>A text with too few words is read as an address, and the scope that \<open>inet_ntop\<close> prints is not always read back.\<close>

lemma short_text_accepted:
  assumes "list_all (\<lambda>w. w \<le> 0xFFFF) (w # ws)" "length ws < 7"
  shows "inet_pton6 (show_hex w @ tail_text ws) = Inr (bytes_of (w # ws) @ replicate (14 - 2 * length ws) 0, 0)"
proof -
  have "inet_pton6 (show_hex w @ tail_text ws) =
      pton_loop FWord (last (w # ws)) (bytes_of (butlast (w # ws))) [] (scope_text 0)"
    using assms read_front [of w ws "[]" "[]" "[]"] by (simp add: inet_pton6_def read_hex scope_text_def)
  also have "\<dots> = pton_done (bytes_of (butlast (w # ws)) @ word_bytes (last (w # ws))) [] 0"
    using assms by (intro read_end last_word_le) simp_all
  finally show ?thesis using assms by (simp only: bytes_of_butlast) (simp add: pton_done_def)
qed

lemma large_scope: "0xFFFF < n \<Longrightarrow> pton_loop ScopeId 0 f b (show_nat n @ r) = Inl InvalidArgument"
proof (induction n arbitrary: r rule: show_nat.induct)
  case (1 n)
  have split: "show_nat n @ r = show_nat (n div 10) @ digit_char (n mod 10) # r" using 1(2) by (subst show_nat.simps) simp
  show ?case
  proof (cases "0xFFFF < n div 10")
    case True
    then show ?thesis unfolding split using 1 by simp
  next
    case False
    then have "pton_loop ScopeId 0 f b (show_nat n @ r) = pton_loop ScopeId (n div 10) f b (digit_char (n mod 10) # r)"
      unfolding split by (intro scope_digits) simp
    also have "\<dots> = pton_loop ScopeId n f b r" using False by (simp add: pton_loop.simps [of ScopeId "n div 10"])
    finally show ?thesis using 1(2) by (simp add: pton_loop.simps [of ScopeId n])
  qed
qed

lemma large_scope_refused:
  assumes "0xFFFF < scope"
  shows "inet_pton6 (inet_ntop6 (replicate 16 0) scope) = Inl InvalidArgument"
proof -
  have w: "words_of (replicate 16 0) = replicate 8 0" by (simp add: numeral_eq_Suc)
  have "inet_ntop6 (replicate 16 0) scope = ''::'' @ ''%'' @ show_nat scope"
    using ntop_text [of "replicate 16 0"] assms by (simp add: inet_ntop6_def body_text_def w zeros_text_def Let_def)
  then show ?thesis
    using large_scope [OF assms, of _ _ "[]"]
    by (simp add: inet_pton6_def pton_loop.simps [of FWord 0] pton_loop.simps [of FColon 0] pton_loop.simps [of BWord 0])
qed

text \<open>The hosts of the network of all addresses are none: the end of the range wraps to its beginning.\<close>

lemma all_hosts_none: "range6_empty (hosts6 \<lparr>net6_address = a, prefix6 = 0\<rparr>)"
proof -
  have "inc_loop 16 (replicate 16 0xFF) = replicate 16 0" by (simp add: numeral_eq_Suc)
  moreover have "List.map (\<lambda>i. c) [0..<16] = replicate 16 c" for c :: "8 word" by (simp add: map_replicate_const)
  ultimately show ?thesis by (simp add: range6_empty_def hosts6_def network6_def last6_def v6_inc_def first_byte_def last_byte_def)
qed

end
