(* ===== verification/AsioIpText.thy ===== *)
theory AsioIpText
  imports AsioAddress6
begin

text \<open>
  \<open>ip::address\<close>, which is an address of version 4 or 6 (\<open>ip/address\<close>), and the texts of addresses and
  networks. \<open>address_text\<close> is the interface that the networks use of the conversions of an address; it
  is interpreted with those of both versions, as a platform without \<open>inet_ntop\<close> and \<open>inet_pton\<close> has
  them.
\<close>

section \<open>Addresses of both versions\<close>

datatype address_type = Ipv4 | Ipv6

record address =
  addr_type :: address_type
  ipv4_address :: address_v4
  ipv6_address :: address_v6

definition no_address_v6 :: address_v6 where
  "no_address_v6 = new_address_v6 (replicate 16 0)"

definition new_address :: address where
  "new_address = \<lparr>addr_type = Ipv4, ipv4_address = 0, ipv6_address = no_address_v6\<rparr>"

definition address_of_v4 :: "address_v4 \<Rightarrow> address" where
  "address_of_v4 a = \<lparr>addr_type = Ipv4, ipv4_address = a, ipv6_address = no_address_v6\<rparr>"

definition address_of_v6 :: "address_v6 \<Rightarrow> address" where
  "address_of_v6 a = \<lparr>addr_type = Ipv6, ipv4_address = 0, ipv6_address = a\<rparr>"

definition assign_v4 :: "address \<Rightarrow> address_v4 \<Rightarrow> address" where
  "assign_v4 this a = this\<lparr>addr_type := Ipv4, ipv4_address := a, ipv6_address := no_address_v6\<rparr>"

definition assign_v6 :: "address \<Rightarrow> address_v6 \<Rightarrow> address" where
  "assign_v6 this a = this\<lparr>addr_type := Ipv6, ipv4_address := 0, ipv6_address := a\<rparr>"

definition address_to_v4 :: "address \<Rightarrow> address_error + address_v4" where
  "address_to_v4 a = (if addr_type a \<noteq> Ipv4 then Inl BadAddressCast else Inr (ipv4_address a))"

definition address_to_v6 :: "address \<Rightarrow> address_error + address_v6" where
  "address_to_v6 a = (if addr_type a \<noteq> Ipv6 then Inl BadAddressCast else Inr (ipv6_address a))"

definition address_is_loopback :: "address \<Rightarrow> bool" where
  "address_is_loopback a = (if addr_type a = Ipv4 then v4_is_loopback (ipv4_address a) else v6_is_loopback (ipv6_address a))"

definition address_is_unspecified :: "address \<Rightarrow> bool" where
  "address_is_unspecified a = (if addr_type a = Ipv4 then v4_is_unspecified (ipv4_address a) else v6_is_unspecified (ipv6_address a))"

definition address_is_multicast :: "address \<Rightarrow> bool" where
  "address_is_multicast a = (if addr_type a = Ipv4 then v4_is_multicast (ipv4_address a) else v6_is_multicast (ipv6_address a))"

definition v6_equal :: "address_v6 \<Rightarrow> address_v6 \<Rightarrow> bool" where
  "v6_equal a b = (memcmp (v6_bytes a) (v6_bytes b) = 0 \<and> scope_id a = scope_id b)"

definition address_equal :: "address \<Rightarrow> address \<Rightarrow> bool" where
  "address_equal a b = (if addr_type a \<noteq> addr_type b then False
     else if addr_type a = Ipv6 then v6_equal (ipv6_address a) (ipv6_address b)
     else ipv4_address a = ipv4_address b)"

text \<open>The order of the enumeration is \<open>ipv4\<close>, \<open>ipv6\<close>.\<close>

fun type_number :: "address_type \<Rightarrow> nat" where
  "type_number Ipv4 = 0"
| "type_number Ipv6 = 1"

definition address_less :: "address \<Rightarrow> address \<Rightarrow> bool" where
  "address_less a b = (if type_number (addr_type a) < type_number (addr_type b) then True
     else if type_number (addr_type a) > type_number (addr_type b) then False
     else if addr_type a = Ipv6 then v6_less (ipv6_address a) (ipv6_address b)
     else ipv4_address a < ipv4_address b)"

section \<open>Texts of addresses\<close>

definition v4_to_string :: "address_v4 \<Rightarrow> string" where
  "v4_to_string a = inet_ntop4 (to_bytes a)"

definition v6_to_string :: "address_v6 \<Rightarrow> string" where
  "v6_to_string a = inet_ntop6 (v6_bytes a) (unat (scope_id a))"

text \<open>A string is read up to its first 0.\<close>

definition c_str :: "string \<Rightarrow> string" where
  "c_str s = takeWhile (\<lambda>c. c \<noteq> CHR 0x00) s"

definition make_address_v4 :: "string \<Rightarrow> address_error + address_v4" where
  "make_address_v4 s = bindr (inet_pton4 (c_str s)) (\<lambda>bs. Inr (address_of_bytes bs))"

definition make_address_v6 :: "string \<Rightarrow> address_error + address_v6" where
  "make_address_v6 s = bindr (inet_pton6 (c_str s)) (\<lambda>(bs, scope). Inr \<lparr>v6_bytes = bs, scope_id = of_nat scope\<rparr>)"

definition address_to_string :: "address \<Rightarrow> string" where
  "address_to_string a = (if addr_type a = Ipv6 then v6_to_string (ipv6_address a) else v4_to_string (ipv4_address a))"

definition make_address :: "string \<Rightarrow> address_error + address" where
  "make_address s = (case make_address_v6 s of
     Inr a \<Rightarrow> Inr (address_of_v6 a)
   | Inl _ \<Rightarrow> bindr (make_address_v4 s) (\<lambda>a. Inr (address_of_v4 a)))"

definition network6_to_string :: "network_v6 \<Rightarrow> string" where
  "network6_to_string n = v6_to_string (net6_address n) @ ''/'' @ show_nat (prefix6 n)"

definition make_network_v6 :: "string \<Rightarrow> address_error + network_v6" where
  "make_network_v6 str = bindr (make_network 128 make_address_v6 str) (\<lambda>(a, p). new_network_v6 a p)"

section \<open>The order of addresses\<close>

definition well_formed_address :: "address \<Rightarrow> bool" where
  "well_formed_address a = (well_formed6 (ipv6_address a) \<and>
     (case addr_type a of Ipv4 \<Rightarrow> ipv6_address a = no_address_v6 | Ipv6 \<Rightarrow> ipv4_address a = 0))"

text \<open>The number of an address with its version and its scope.\<close>

definition address_key :: "address \<Rightarrow> nat \<times> nat \<times> nat" where
  "address_key a = (case addr_type a of
     Ipv4 \<Rightarrow> (0, unat (ipv4_address a), 0)
   | Ipv6 \<Rightarrow> (1, bytes_val (v6_bytes (ipv6_address a)), unat (scope_id (ipv6_address a))))"

fun key_less :: "nat \<times> nat \<times> nat \<Rightarrow> nat \<times> nat \<times> nat \<Rightarrow> bool" where
  "key_less (a, b, c) (x, y, z) \<longleftrightarrow> a < x \<or> a = x \<and> (b < y \<or> b = y \<and> c < z)"

lemma bytes_val_Cons: "bytes_val (b # bs) = unat b * 256 ^ length bs + bytes_val bs"
proof (induction bs rule: rev_induct)
  case (snoc c cs)
  have "bytes_val (b # cs @ [c]) = bytes_val ((b # cs) @ [c])" by simp
  also have "\<dots> = bytes_val (b # cs) * 256 + unat c" by (rule bytes_val_snoc)
  finally show ?case using snoc by simp
qed (simp add: bytes_val_def)

lemma digits_less:
  fixes x y u v d :: nat
  assumes "u < d" "v < d"
  shows "x * d + u < y * d + v \<longleftrightarrow> x < y \<or> x = y \<and> u < v"
proof -
  have less: "x * d + u < y * d + v" if "x < y" "u < d" for x y u v :: nat
  proof -
    have "x * d + u < Suc x * d" using that(2) by simp
    also have "\<dots> \<le> y * d" using that(1) by (intro mult_right_mono) simp_all
    finally show ?thesis by simp
  qed
  show ?thesis using less [of x y u v] less [of y x v u] assms by (cases x y rule: linorder_cases) auto
qed

lemma memcmp_val:
  "length xs = length ys \<Longrightarrow>
     (memcmp xs ys < 0 \<longleftrightarrow> bytes_val xs < bytes_val ys) \<and> (memcmp xs ys = 0 \<longleftrightarrow> xs = ys) \<and>
     (0 < memcmp xs ys \<longleftrightarrow> bytes_val ys < bytes_val xs)"
proof (induction xs ys rule: memcmp.induct)
  case (1 x xs y ys)
  have l: "bytes_val xs < 256 ^ length xs" "bytes_val ys < 256 ^ length xs"
    using bytes_val_less [of xs] bytes_val_less [of ys] 1 by simp_all
  consider "x < y" | "y < x" | "x = y" by (rule linorder_cases)
  then show ?case
  proof cases
    case 1
    then have "unat x < unat y" by (simp add: word_less_nat_alt)
    then show ?thesis using 1 l \<open>length (x # xs) = length (y # ys)\<close>
        digits_less [OF l, of "unat x" "unat y"] digits_less [OF l(2,1), of "unat y" "unat x"] by (auto simp: bytes_val_Cons)
  next
    case 2
    then have "unat y < unat x" by (simp add: word_less_nat_alt)
    then show ?thesis using 2 l \<open>length (x # xs) = length (y # ys)\<close>
        digits_less [OF l, of "unat x" "unat y"] digits_less [OF l(2,1), of "unat y" "unat x"] by (auto simp: bytes_val_Cons)
  next
    case 3
    then show ?thesis using 1 by (simp add: bytes_val_Cons)
  qed
qed simp_all

lemma v6_less_key:
  assumes "well_formed6 a" "well_formed6 b"
  shows "v6_less a b \<longleftrightarrow> key_less (1, bytes_val (v6_bytes a), unat (scope_id a)) (1, bytes_val (v6_bytes b), unat (scope_id b))"
    "v6_equal a b \<longleftrightarrow> bytes_val (v6_bytes a) = bytes_val (v6_bytes b) \<and> scope_id a = scope_id b"
proof -
  have l: "length (v6_bytes a) = length (v6_bytes b)" using assms by (simp add: well_formed6_def)
  note m = memcmp_val [OF l]
  show "v6_less a b \<longleftrightarrow> key_less (1, bytes_val (v6_bytes a), unat (scope_id a)) (1, bytes_val (v6_bytes b), unat (scope_id b))"
    using m by (simp add: v6_less_def Let_def word_less_nat_alt)
  have "memcmp (v6_bytes a) (v6_bytes b) = 0 \<longleftrightarrow> bytes_val (v6_bytes a) = bytes_val (v6_bytes b)"
    using m by linarith
  then show "v6_equal a b \<longleftrightarrow> bytes_val (v6_bytes a) = bytes_val (v6_bytes b) \<and> scope_id a = scope_id b"
    by (simp add: v6_equal_def)
qed

text \<open>The operators \<open>==\<close> and \<open><\<close> of \<open>address\<close> compare the version, then the number of the address, then the scope:
  \<open><\<close> is the lexicographic order of the three, and equal addresses are the same object.\<close>
theorem addresses_ordered:
  assumes "well_formed_address a" "well_formed_address b"
  shows "(address_less a b \<longleftrightarrow> key_less (address_key a) (address_key b)) \<and>
    (address_equal a b \<longleftrightarrow> a = b) \<and> (address_equal a b \<longleftrightarrow> address_key a = address_key b)"
proof -
  have wf: "well_formed6 (ipv6_address a)" "well_formed6 (ipv6_address b)"
    using assms by (simp_all add: well_formed_address_def)
  note less = v6_less_key [OF wf]
  have "v6_equal (ipv6_address a) (ipv6_address b) \<longleftrightarrow> ipv6_address a = ipv6_address b"
    using wf memcmp_val [of "v6_bytes (ipv6_address a)" "v6_bytes (ipv6_address b)"]
    by (auto simp: v6_equal_def well_formed6_def)
  then have eq: "address_equal a b \<longleftrightarrow> a = b"
    using assms by (auto simp: address_equal_def well_formed_address_def split: address_type.splits)
  have "address_equal a b \<longleftrightarrow> address_key a = address_key b"
    using less(2) by (cases "addr_type a"; cases "addr_type b")
      (simp_all add: address_equal_def address_key_def flip: word_unat_eq_iff)
  moreover have "address_less a b \<longleftrightarrow> key_less (address_key a) (address_key b)"
  proof (cases "addr_type a"; cases "addr_type b")
    assume "addr_type a = Ipv6" "addr_type b = Ipv6"
    then show ?thesis unfolding address_less_def address_key_def by (simp only: less(1)) simp
  qed (simp_all add: address_less_def address_key_def word_less_nat_alt)
  ultimately show ?thesis using eq by blast
qed

lemma addresses_ordered_witness:
  "address_less (address_of_v4 0x7F000001) (address_of_v6 v6_loopback) \<and>
   \<not> address_equal (address_of_v4 0x7F000001) (address_of_v6 v6_loopback)"
proof -
  have "well_formed_address (address_of_v4 0x7F000001)" "well_formed_address (address_of_v6 v6_loopback)"
    by (simp_all add: well_formed_address_def well_formed6_def address_of_v4_def address_of_v6_def no_address_v6_def v6_loopback_def
        new_address_v6_def)
  from addresses_ordered [OF this] show ?thesis
    by (simp add: address_key_def address_of_v4_def address_of_v6_def)
qed

section \<open>Characters of a text\<close>

text \<open>A text of an address has no slash and no 0.\<close>

definition plain :: "char \<Rightarrow> bool" where
  "plain c \<longleftrightarrow> c \<noteq> CHR ''/'' \<and> c \<noteq> CHR 0x00"

lemma plain_digit: "is_digit c \<Longrightarrow> plain c"
  by (auto simp: plain_def is_digit_def)

lemma plain_show_nat: "list_all plain (show_nat n)"
  using show_nat_digits [of n] by (auto simp: list_all_iff intro: plain_digit)

lemma plain_show_hex: "list_all plain (show_hex n)"
proof (induction n rule: show_hex.induct)
  case (1 n)
  have "plain (hex_char d)" if "d < 16" for d
    using hex_value_char [OF that] by (auto simp: plain_def hex_value_def Let_def)
  then show ?case using 1 by (subst show_hex.simps) simp
qed

lemma plain_ntop_loop: "list_all plain out \<Longrightarrow> list_all plain (ntop_loop len b z out bs)"
proof (induction len b z out bs rule: ntop_loop.induct)
  case (1 len b z out x y bs)
  have "plain CHR '':''" by (simp add: plain_def)
  with 1 show ?case by (simp add: plain_show_hex Let_def)
qed simp_all

lemma plain_texts: "list_all plain (v4_to_string a)" "list_all plain (v6_to_string b)"
proof -
  have p: "plain CHR ''.''" "plain CHR ''%''" by (simp_all add: plain_def)
  show "list_all plain (v4_to_string a)" "list_all plain (v6_to_string b)"
    by (simp_all add: v4_to_string_def v6_to_string_def inet_ntop4_def inet_ntop6_def plain_show_nat plain_ntop_loop p)
qed

lemma c_str_plain: "list_all plain s \<Longrightarrow> c_str s = s"
  by (simp add: c_str_def takeWhile_eq_all_conv list_all_iff plain_def)

section \<open>Reading a version 4 address\<close>

lemma scan_show:
  assumes "n \<le> 255" "r = [] \<or> \<not> is_digit (hd r)"
  shows "scan_unsigned (show_nat n @ r) = Inr (Some (n, r))"
proof -
  obtain c cs where s: "show_nat n = c # cs" using show_nat_nonempty by (meson neq_Nil_conv)
  then have c: "is_digit c" using show_nat_digits [of n] by simp
  then have d: "dropWhile is_space (show_nat n @ r) = show_nat n @ r" by (simp add: s digit_not_space)
  show ?thesis
    using c digit_not_space [OF c] hd_digit_sign [OF c] assms read_show_nat_rest [OF assms(2), of n]
    by (simp add: scan_unsigned_def d s Let_def)
qed

text \<open>What follows the fourth number is not looked at.\<close>

lemma pton_ntop4_rest:
  assumes "length bs = 4" "r = [] \<or> \<not> is_digit (hd r)"
  shows "inet_pton4 (inet_ntop4 bs @ r) = Inr bs"
proof -
  note l = assms(1)
  have b: "unat b \<le> 255" for b :: "8 word" using unat_8 [of b] by simp
  have p: "\<not> is_digit CHR ''.''" by (simp add: is_digit_def)
  have e: "bs = [bs ! 0, bs ! 1, bs ! 2, bs ! 3]"
    using l by (simp add: list_eq_iff_nth_eq less_Suc_eq numeral_eq_Suc)
  obtain w x y z where bs: "bs = [w, x, y, z]" using e by blast
  have n: "[w, x, y, z] ! 0 = w" "[w, x, y, z] ! 1 = x" "[w, x, y, z] ! 2 = y" "[w, x, y, z] ! 3 = z"
    by (simp_all add: numeral_eq_Suc)
  have four: "scan_dotted 4 = scan_dotted (Suc (Suc (Suc (Suc 0))))" by (simp add: numeral_eq_Suc)
  have f: "\<not> 255 < unat c" for c :: "8 word" using b [of c] by simp
  show ?thesis
    unfolding bs inet_ntop4_def n inet_pton4_def four
    using assms(2) by (simp add: scan_show b p f)
qed

lemma pton_ntop4: "length bs = 4 \<Longrightarrow> inet_pton4 (inet_ntop4 bs) = Inr bs"
  using pton_ntop4_rest [of bs "[]"] by simp

lemma v4_rest_ignored: "inet_pton4 (v4_to_string a @ '' and more'') = Inr (to_bytes a)"
  unfolding v4_to_string_def by (rule pton_ntop4_rest) (simp_all add: to_bytes_def)

section \<open>Texts of both versions\<close>

lemma v4_text_read: "make_address_v4 (v4_to_string a) = Inr a"
proof -
  have "length (to_bytes a) = 4" by (simp add: to_bytes_def)
  then show ?thesis
    using pton_ntop4 [of "to_bytes a"] plain_texts(1) [of a]
    by (simp add: make_address_v4_def c_str_plain v4_to_string_def bytes_of_address)
qed

lemma v6_text_read:
  assumes "well_formed6 a" "unat (scope_id a) \<le> 0xFFFF"
  shows "make_address_v6 (v6_to_string a) = Inr a"
  using pton_ntop6 [of "v6_bytes a" "unat (scope_id a)"] assms plain_texts(2) [of a]
  by (simp add: make_address_v6_def c_str_plain v6_to_string_def well_formed6_def)

text \<open>The version 6 conversion refuses a version 4 text at its first dot.\<close>

lemma dot_refused:
  "list_all (\<lambda>c. hex_value c \<noteq> None) xs \<Longrightarrow> pton_loop FWord w f b (xs @ CHR ''.'' # r) = Inl InvalidArgument"
proof (induction xs arbitrary: w)
  case Nil
  have "hex_value CHR ''.'' = None" by (simp add: hex_value_def Let_def)
  then show ?case by (simp add: pton_loop.simps [of FWord w])
next
  case (Cons c cs)
  then show ?case by (auto simp: pton_loop.simps [of FWord w])
qed

lemma v4_text_not_v6: "make_address_v6 (v4_to_string a) = Inl InvalidArgument"
proof -
  have "list_all (\<lambda>c. hex_value c \<noteq> None) (show_nat n)" for n
    using show_nat_digits [of n] by (auto simp: list_all_iff is_digit_def hex_value_def Let_def)
  then show ?thesis
    using c_str_plain [OF plain_texts(1), of a]
    by (simp add: make_address_v6_def v4_to_string_def inet_ntop4_def inet_pton6_def dot_refused)
qed

text \<open>C31: With the library's own conversions (the branch of \<open>ASIO_WINDOWS_RUNTIME\<close> of \<open>inet_ntop\<close> and \<open>inet_pton\<close>), \<open>make_address\<close>
  reads what \<open>to_string\<close> prints: for an address of either version, with a scope of at most 65535, the
  result is the address, although the version 6 conversion is tried first.\<close>
theorem address_text_roundtrip:
  assumes "well_formed_address a" "unat (scope_id (ipv6_address a)) \<le> 0xFFFF"
  shows "make_address (address_to_string a) = Inr a"
proof (cases "addr_type a")
  case Ipv4
  then have "address_of_v4 (ipv4_address a) = a" using assms by (simp add: well_formed_address_def address_of_v4_def)
  with Ipv4 show ?thesis by (simp add: make_address_def address_to_string_def v4_text_not_v6 v4_text_read)
next
  case Ipv6
  then have "address_of_v6 (ipv6_address a) = a" "well_formed6 (ipv6_address a)"
    using assms by (simp_all add: well_formed_address_def address_of_v6_def)
  with Ipv6 assms(2) show ?thesis by (simp add: make_address_def address_to_string_def v6_text_read)
qed

lemma address_text_roundtrip_witness:
  "make_address (address_to_string (address_of_v6 v6_loopback)) = Inr (address_of_v6 v6_loopback)"
  by (rule address_text_roundtrip)
    (simp_all add: well_formed_address_def well_formed6_def address_of_v6_def v6_loopback_def new_address_v6_def)

section \<open>Texts of networks\<close>

lemma find_first_of_skip: "c \<notin> set pre \<Longrightarrow> find_first_of c (pre @ c # post) = Some (length pre)"
  by (induction pre) auto

lemma find_first_of_None: "find_first_of c s = None \<longleftrightarrow> c \<notin> set s"
  by (induction s) auto

lemma atoi_digits: "list_all is_digit ds \<Longrightarrow> ds \<noteq> [] \<Longrightarrow> atoi ds = int (fst (read_digits 0 ds))"
  using hd_digit_sign [of "hd ds"] digit_not_space [of "hd ds"] by (cases ds) (simp_all add: atoi_def)

lemma make_network_split:
  assumes "CHR ''/'' \<notin> set pre"
  shows "make_network bits pton (pre @ CHR ''/'' # ds) =
    (if ds = [] \<or> \<not> list_all is_digit ds then Inl InvalidArgument
     else bindr (pton pre) (\<lambda>a. let v = fst (read_digits 0 ds) in
       if \<not> in_int (int v) then Inl Undefined else if v > bits then Inl InvalidArgument else Inr (a, v)))"
  using assms by (cases "pton pre") (simp_all add: make_network_def find_first_of_skip atoi_digits Let_def)

lemma make_network_no_slash: "CHR ''/'' \<notin> set str \<Longrightarrow> make_network bits pton str = Inl InvalidArgument"
  using find_first_of_None [of "CHR ''/''" str] by (simp add: make_network_def)

text \<open>What the networks use of the conversions of an address: a text has no slash, and is read back.\<close>

locale address_text =
  fixes ntop :: "'a \<Rightarrow> string"
    and pton :: "string \<Rightarrow> address_error + 'a"
    and ok :: "'a \<Rightarrow> bool"
  assumes pton_ntop: "ok a \<Longrightarrow> pton (ntop a) = Inr a"
    and no_slash: "ok a \<Longrightarrow> CHR ''/'' \<notin> set (ntop a)"
begin

lemma network_text_read:
  assumes "ok a" "p \<le> bits" "bits < 2 ^ 31"
  shows "make_network bits pton (ntop a @ ''/'' @ show_nat p) = Inr (a, p)"
proof -
  have "in_int (int p)" using assms by (simp add: in_int_def int_min_def int_max_def)
  then show ?thesis
    using make_network_split [OF no_slash [OF assms(1)], of bits pton "show_nat p"] assms(2)
    by (simp add: show_nat_digits read_show_nat pton_ntop [OF assms(1)])
qed

end

lemma plain_no_slash: "list_all plain s \<Longrightarrow> CHR ''/'' \<notin> set s"
  by (auto simp: list_all_iff plain_def)

interpretation v4_text: address_text v4_to_string make_address_v4 "\<lambda>_. True"
  by unfold_locales (simp_all add: v4_text_read plain_no_slash plain_texts)

interpretation v6_text: address_text v6_to_string make_address_v6 "\<lambda>a. well_formed6 a \<and> unat (scope_id a) \<le> 0xFFFF"
  by unfold_locales (simp_all add: v6_text_read plain_no_slash plain_texts)

text \<open>The text of a network is read back: \<open>make_network_v4\<close> and \<open>make_network_v6\<close> of \<open>to_string()\<close> give the network
  with its address (not only the network's first address) and its prefix.\<close>
theorem network_text_roundtrip:
  assumes "prefix_length n \<le> 32" "prefix6 m \<le> 128" "well_formed6 (net6_address m)" "unat (scope_id (net6_address m)) \<le> 0xFFFF"
  shows "make_network_v4 make_address_v4 (network_to_string v4_to_string n) = Inr n \<and>
    make_network_v6 (network6_to_string m) = Inr m"
  using v4_text.network_text_read [where a = "net_address n" and p = "prefix_length n" and bits = 32]
    v6_text.network_text_read [where a = "net6_address m" and p = "prefix6 m" and bits = 128] assms
  by (simp add: make_network_v4_def network_to_string_def new_network_v4_def make_network_v6_def network6_to_string_def new_network_v6_def)

lemma network_text_roundtrip_witness:
  "make_network_v6 (network6_to_string \<lparr>net6_address = v6_loopback, prefix6 = 64\<rparr>) = Inr \<lparr>net6_address = v6_loopback, prefix6 = 64\<rparr>"
  using network_text_roundtrip [of "\<lparr>net_address = 0x0A000001, prefix_length = 8\<rparr>" "\<lparr>net6_address = v6_loopback, prefix6 = 64\<rparr>"]
  by (simp add: well_formed6_def v6_loopback_def new_address_v6_def)

lemma make_network_Inr:
  assumes "bits < 2 ^ 31"
  shows "make_network bits pton str = Inr (a, p) \<longleftrightarrow> (\<exists>pre ds. str = pre @ CHR ''/'' # ds \<and> CHR ''/'' \<notin> set pre \<and>
    ds \<noteq> [] \<and> list_all is_digit ds \<and> pton pre = Inr a \<and> fst (read_digits 0 ds) = p \<and> p \<le> bits)"
proof (cases "CHR ''/'' \<in> set str")
  case False
  then show ?thesis by (auto simp: make_network_no_slash)
next
  case True
  then obtain pre ds where str: "str = pre @ CHR ''/'' # ds" "CHR ''/'' \<notin> set pre" by (meson split_list_first)
  have unique: "pre' = pre \<and> ds' = ds" if "str = pre' @ CHR ''/'' # ds'" "CHR ''/'' \<notin> set pre'" for pre' ds'
    using that str find_first_of_skip [of "CHR ''/''" pre ds] find_first_of_skip [of "CHR ''/''" pre' ds'] by simp
  have "in_int (int v)" if "v \<le> bits" for v using that assms by (simp add: int_range_defs)
  then have "make_network bits pton str = Inr (a, p) \<longleftrightarrow> ds \<noteq> [] \<and> list_all is_digit ds \<and> pton pre = Inr a \<and>
      fst (read_digits 0 ds) = p \<and> p \<le> bits"
    by (cases "pton pre") (auto simp: str(1) make_network_split [OF str(2)] Let_def)
  then show ?thesis using unique str by blast
qed

text \<open>The texts that are networks: an address, the first slash, at least one digit and nothing but digits, with a number of at
  most 32 or 128. For every other text there is an error and no network.\<close>
theorem make_network_accepts:
  "(make_network_v4 make_address_v4 str = Inr n \<longleftrightarrow> (\<exists>pre ds. str = pre @ CHR ''/'' # ds \<and> CHR ''/'' \<notin> set pre \<and> ds \<noteq> [] \<and>
      list_all is_digit ds \<and> make_address_v4 pre = Inr (net_address n) \<and> fst (read_digits 0 ds) = prefix_length n \<and> prefix_length n \<le> 32)) \<and>
   (make_network_v6 str = Inr m \<longleftrightarrow> (\<exists>pre ds. str = pre @ CHR ''/'' # ds \<and> CHR ''/'' \<notin> set pre \<and> ds \<noteq> [] \<and>
      list_all is_digit ds \<and> make_address_v6 pre = Inr (net6_address m) \<and> fst (read_digits 0 ds) = prefix6 m \<and> prefix6 m \<le> 128))"
proof -
  have new4: "new_network_v4 a p = Inr n \<longleftrightarrow> a = net_address n \<and> p = prefix_length n \<and> p \<le> 32" for a p
    by (cases n) (auto simp: new_network_v4_def)
  have new6: "new_network_v6 a p = Inr m \<longleftrightarrow> a = net6_address m \<and> p = prefix6 m \<and> p \<le> 128" for a p
    by (cases m) (auto simp: new_network_v6_def)
  have "make_network_v4 make_address_v4 str = Inr n \<longleftrightarrow>
      make_network 32 make_address_v4 str = Inr (net_address n, prefix_length n) \<and> prefix_length n \<le> 32"
    by (auto simp: make_network_v4_def bindr_Inr_iff new4)
  moreover have "make_network_v6 str = Inr m \<longleftrightarrow>
      make_network 128 make_address_v6 str = Inr (net6_address m, prefix6 m) \<and> prefix6 m \<le> 128"
    by (auto simp: make_network_v6_def bindr_Inr_iff new6)
  ultimately show ?thesis
    by (auto simp: make_network_Inr)
qed

text \<open>A prefix that \<open>int\<close> does not hold is not an error of \<open>make_network_v4\<close>: \<open>atoi\<close> is undefined for it.\<close>

lemma long_prefix_undefined:
  assumes "2 ^ 31 \<le> v"
  shows "make_network_v4 make_address_v4 (v4_to_string a @ ''/'' @ show_nat v) = Inl Undefined"
proof -
  have "\<not> in_int (int v)" using assms by (simp add: int_range_defs)
  then show ?thesis
    using make_network_split [OF plain_no_slash [OF plain_texts(1)], of 32 make_address_v4 a "show_nat v"]
    by (simp add: make_network_v4_def v4_text_read show_nat_digits read_show_nat)
qed

end
