(* ===== verification/AsioChannel.thy ===== *)
theory AsioChannel
  imports Prelude
begin

text \<open>
  Asio's channels (\<open>experimental/detail/channel_service.hpp\<close> and its \<open>impl\<close>): a buffer of messages with the operations
  that wait on it, under one mutex, so a call is one step. The buffer of a channel depends on its signature; there are three,
  each a record of the operations that the service uses, and \<open>buffer_interface\<close> (in \<open>AsioChannelQueue\<close>) is what they
  promise. A use of an operation through the wrong class, or of none, is undefined and gives \<open>None\<close>.
\<close>

section \<open>Buffers\<close>

record ('v, 'b) buffer_impl =
  buffer_new :: 'b
  buffer_size :: "'b \<Rightarrow> nat"
  buffer_push :: "'v \<Rightarrow> 'b \<Rightarrow> 'b"
  buffer_push_n :: "nat \<Rightarrow> nat \<Rightarrow> 'v \<Rightarrow> 'b \<Rightarrow> 'b \<times> nat"
  buffer_front :: "'b \<Rightarrow> 'v"
  buffer_pop :: "'b \<Rightarrow> 'b"
  buffer_clear :: "'b \<Rightarrow> 'b"

text \<open>Any signature: a \<open>deque\<close> of payloads. The first argument of the second push is the channel's
  \<open>max_buffer_size_\<close>.\<close>

fun deque_push_n :: "nat \<Rightarrow> nat \<Rightarrow> 'v \<Rightarrow> 'v list \<Rightarrow> 'v list \<times> nat" where
  "deque_push_n m 0 v b = (b, 0)"
| "deque_push_n m (Suc k) v b = (if length b < m then (let (b', i) = deque_push_n m k v (b @ [v]) in (b', Suc i)) else (b, 0))"

definition deque_buffer :: "('v, 'v list) buffer_impl" where
  "deque_buffer = \<lparr>buffer_new = [], buffer_size = length, buffer_push = (\<lambda>v b. b @ [v]), buffer_push_n = deque_push_n,
     buffer_front = hd, buffer_pop = tl, buffer_clear = (\<lambda>b. [])\<rparr>"

text \<open>No value: a count.\<close>

definition count_push_n :: "nat \<Rightarrow> nat \<Rightarrow> unit \<Rightarrow> nat \<Rightarrow> nat \<times> nat" where
  "count_push_n m count v b = (let available = m - b; c = (if count < available then count else available) in (b + c, c))"

definition count_buffer :: "(unit, nat) buffer_impl" where
  "count_buffer = \<lparr>buffer_new = 0, buffer_size = (\<lambda>b. b), buffer_push = (\<lambda>v b. b + 1), buffer_push_n = count_push_n,
     buffer_front = (\<lambda>b. ()), buffer_pop = (\<lambda>b. b - 1), buffer_clear = (\<lambda>b. 0)\<rparr>"

text \<open>An error code: runs of equal codes, the first run apart from the others. The success code is 0.\<close>

type_synonym error_code = int

record error_values =
  total_size :: nat
  first_run :: "error_code \<times> nat"
  rest_runs :: "(error_code \<times> nat) list"

definition last_value :: "error_values \<Rightarrow> error_code \<times> nat" where
  "last_value b = (if rest_runs b = [] then first_run b else last (rest_runs b))"

definition set_last :: "error_code \<times> nat \<Rightarrow> error_values \<Rightarrow> error_values" where
  "set_last x b = (if rest_runs b = [] then b\<lparr>first_run := x\<rparr> else b\<lparr>rest_runs := butlast (rest_runs b) @ [x]\<rparr>)"

definition error_push :: "error_code \<Rightarrow> error_values \<Rightarrow> error_values" where
  "error_push v b = (let (w, n) = last_value b;
       b1 = (if n = 0 then set_last (v, 1) b
             else if w = v then set_last (w, n + 1) b
             else b\<lparr>rest_runs := rest_runs b @ [(v, 1)]\<rparr>)
     in b1\<lparr>total_size := total_size b1 + 1\<rparr>)"

definition error_push_n :: "nat \<Rightarrow> nat \<Rightarrow> error_code \<Rightarrow> error_values \<Rightarrow> error_values \<times> nat" where
  "error_push_n m count v b = (let available = m - total_size b; c = (if count < available then count else available) in
     if c > 0 then
       (let (w, n) = last_value b;
            b1 = (if n = 0 then set_last (v, c) b
                  else if w = v then set_last (w, n + c) b
                  else b\<lparr>rest_runs := rest_runs b @ [(v, c)]\<rparr>)
        in (b1\<lparr>total_size := total_size b1 + c\<rparr>, c))
     else (b, c))"

definition error_front :: "error_values \<Rightarrow> error_code" where
  "error_front b = fst (first_run b)"

definition error_pop :: "error_values \<Rightarrow> error_values" where
  "error_pop b = (let b1 = b\<lparr>total_size := total_size b - 1, first_run := (fst (first_run b), snd (first_run b) - 1)\<rparr> in
     if snd (first_run b1) = 0 \<and> rest_runs b1 \<noteq> [] then b1\<lparr>first_run := hd (rest_runs b1), rest_runs := tl (rest_runs b1)\<rparr> else b1)"

text \<open>\<open>first_run.count_ == 0\<close> is a comparison: the count of the first run stays.\<close>

definition error_clear :: "error_values \<Rightarrow> error_values" where
  "error_clear b = b\<lparr>total_size := 0, rest_runs := []\<rparr>"

definition error_buffer :: "(error_code, error_values) buffer_impl" where
  "error_buffer = \<lparr>buffer_new = \<lparr>total_size = 0, first_run = (0, 0), rest_runs = []\<rparr>, buffer_size = total_size, buffer_push = error_push,
     buffer_push_n = error_push_n, buffer_front = error_front, buffer_pop = error_pop, buffer_clear = error_clear\<rparr>"

section \<open>Channels\<close>

datatype channel_state = StBuffer | StWaiter | StBlock | StClosed

text \<open>An operation has a name and a cancellation key.\<close>

datatype 'v channel_op = SendOp nat nat 'v | ReceiveOp nat nat

datatype 'v message = Value 'v | ReceiveCancelled | ReceiveClosed

datatype channel_action = ImmediateOp | PostOp | DispatchOp | CancelOp | CloseOp

datatype 'v completion = SendDone nat channel_action | ReceiveDone nat channel_action "'v message"

record ('v, 'b) channel =
  receive_state :: channel_state
  send_state :: channel_state
  max_buffer_size :: nat
  waiters :: "'v channel_op list"
  channel_buffer :: 'b

definition empty_state :: "('v, 'b) channel \<Rightarrow> channel_state" where
  "empty_state ch = (if max_buffer_size ch \<noteq> 0 then StBuffer else StBlock)"

definition construct :: "('v, 'b) buffer_impl \<Rightarrow> nat \<Rightarrow> ('v, 'b) channel" where
  "construct B n = \<lparr>receive_state = StBlock, send_state = (if n \<noteq> 0 then StBuffer else StBlock), max_buffer_size = n,
     waiters = [], channel_buffer = buffer_new B\<rparr>"

definition capacity :: "('v, 'b) channel \<Rightarrow> nat" where
  "capacity ch = max_buffer_size ch"

definition is_open :: "('v, 'b) channel \<Rightarrow> bool" where
  "is_open ch = (send_state ch \<noteq> StClosed)"

definition ready :: "('v, 'b) channel \<Rightarrow> bool" where
  "ready ch = (receive_state ch \<noteq> StBlock)"

text \<open>The casts of a waiting operation.\<close>

fun as_send :: "'v channel_op list \<Rightarrow> (nat \<times> 'v) option" where
  "as_send (SendOp i k v # ws) = Some (i, v)"
| "as_send _ = None"

fun as_receive :: "'v channel_op list \<Rightarrow> nat option" where
  "as_receive (ReceiveOp i k # ws) = Some i"
| "as_receive _ = None"

text \<open>Cancelling one operation, as a send or as a receive by the state.\<close>

fun cancel_one :: "channel_state \<Rightarrow> 'v channel_op \<Rightarrow> 'v completion option" where
  "cancel_one st (SendOp i k v) = (if st = StBlock then Some (SendDone i CancelOp) else None)"
| "cancel_one st (ReceiveOp i k) = (if st = StBlock then None else Some (ReceiveDone i PostOp ReceiveCancelled))"

definition nothing_waits :: "('v, 'b) channel \<Rightarrow> ('v, 'b) channel" where
  "nothing_waits ch = ch\<lparr>receive_state := (if receive_state ch = StWaiter then StBlock else receive_state ch),
     send_state := (if send_state ch = StWaiter then empty_state ch else send_state ch)\<rparr>"

definition cancel :: "('v, 'b) channel \<Rightarrow> (('v, 'b) channel \<times> 'v completion list) option" where
  "cancel ch = map_option (\<lambda>cs. (nothing_waits (ch\<lparr>waiters := []\<rparr>), cs)) (those (List.map (cancel_one (send_state ch)) (waiters ch)))"

fun op_key :: "'v channel_op \<Rightarrow> nat" where
  "op_key (SendOp i k v) = k"
| "op_key (ReceiveOp i k) = k"

definition cancel_by_key :: "nat \<Rightarrow> ('v, 'b) channel \<Rightarrow> (('v, 'b) channel \<times> 'v completion list) option" where
  "cancel_by_key key ch =
     (let others = filter (\<lambda>op. op_key op \<noteq> key) (waiters ch); ch1 = ch\<lparr>waiters := others\<rparr> in
      map_option (\<lambda>cs. (if others = [] then nothing_waits ch1 else ch1, cs))
        (those (List.map (cancel_one (send_state ch)) (filter (\<lambda>op. op_key op = key) (waiters ch)))))"

definition reset :: "('v, 'b) buffer_impl \<Rightarrow> ('v, 'b) channel \<Rightarrow> (('v, 'b) channel \<times> 'v completion list) option" where
  "reset B ch = map_option (\<lambda>(ch1, cs). (ch1\<lparr>receive_state := StBlock, send_state := empty_state ch1,
     channel_buffer := buffer_clear B (channel_buffer ch1)\<rparr>, cs)) (cancel ch)"

fun close_one :: "'v channel_op \<Rightarrow> 'v completion option" where
  "close_one (ReceiveOp i k) = Some (ReceiveDone i PostOp ReceiveClosed)"
| "close_one (SendOp i k v) = None"

definition close :: "('v, 'b) channel \<Rightarrow> (('v, 'b) channel \<times> 'v completion list) option" where
  "close ch =
     map_option (\<lambda>(ch1, cs). (ch1\<lparr>send_state := StClosed,
         receive_state := (if receive_state ch1 \<noteq> StBuffer then StClosed else receive_state ch1)\<rparr>, cs))
       (if receive_state ch = StBlock
        then map_option (\<lambda>cs. (ch\<lparr>waiters := []\<rparr>, cs)) (those (List.map close_one (waiters ch)))
        else Some (ch, []))"

section \<open>Sending\<close>

definition push_value :: "('v, 'b) buffer_impl \<Rightarrow> 'v \<Rightarrow> ('v, 'b) channel \<Rightarrow> ('v, 'b) channel" where
  "push_value B v ch = (let ch1 = ch\<lparr>channel_buffer := buffer_push B v (channel_buffer ch), receive_state := StBuffer\<rparr> in
     if buffer_size B (channel_buffer ch1) = max_buffer_size ch1 then ch1\<lparr>send_state := StBlock\<rparr> else ch1)"

text \<open>The first waiting receiver is taken from the channel.\<close>

definition take_receiver :: "('v, 'b) channel \<Rightarrow> ('v, 'b) channel" where
  "take_receiver ch = (let ch1 = ch\<lparr>waiters := tl (waiters ch)\<rparr> in
     if waiters ch1 = [] then ch1\<lparr>send_state := empty_state ch1\<rparr> else ch1)"

definition try_send :: "('v, 'b) buffer_impl \<Rightarrow> bool \<Rightarrow> 'v \<Rightarrow> ('v, 'b) channel \<Rightarrow> (bool \<times> ('v, 'b) channel \<times> 'v completion list) option" where
  "try_send B via_dispatch v ch = (case send_state ch of
     StBlock \<Rightarrow> Some (False, ch, [])
   | StBuffer \<Rightarrow> Some (True, push_value B v ch, [])
   | StWaiter \<Rightarrow> map_option (\<lambda>r. (True, take_receiver ch, [ReceiveDone r (if via_dispatch then DispatchOp else PostOp) (Value v)]))
       (as_receive (waiters ch))
   | StClosed \<Rightarrow> Some (False, ch, []))"

text \<open>The loop of \<open>try_send_n\<close>, with the number of messages left and the number sent.\<close>

fun send_n_loop :: "('v, 'b) buffer_impl \<Rightarrow> bool \<Rightarrow> 'v \<Rightarrow> nat \<Rightarrow> nat \<Rightarrow> ('v, 'b) channel \<Rightarrow> (nat \<times> ('v, 'b) channel \<times> 'v completion list) option" where
  "send_n_loop B via_dispatch v 0 i ch = Some (i, ch, [])"
| "send_n_loop B via_dispatch v (Suc left) i ch = (case send_state ch of
     StBlock \<Rightarrow> Some (i, ch, [])
   | StBuffer \<Rightarrow>
       (let (b, n) = buffer_push_n B (max_buffer_size ch) (Suc left) v (channel_buffer ch);
            ch1 = ch\<lparr>channel_buffer := b, receive_state := StBuffer\<rparr>
        in Some (i + n, if buffer_size B b = max_buffer_size ch1 then ch1\<lparr>send_state := StBlock\<rparr> else ch1, []))
   | StWaiter \<Rightarrow> (case as_receive (waiters ch) of
         None \<Rightarrow> None
       | Some r \<Rightarrow> map_option (\<lambda>(n, ch1, cs). (n, ch1, ReceiveDone r (if via_dispatch then DispatchOp else PostOp) (Value v) # cs))
           (send_n_loop B via_dispatch v left (i + 1) (take_receiver ch)))
   | StClosed \<Rightarrow> Some (i, ch, []))"

definition try_send_n :: "('v, 'b) buffer_impl \<Rightarrow> nat \<Rightarrow> bool \<Rightarrow> 'v \<Rightarrow> ('v, 'b) channel \<Rightarrow> (nat \<times> ('v, 'b) channel \<times> 'v completion list) option" where
  "try_send_n B count via_dispatch v ch =
     (if count = 0 then Some (0, ch, [])
      else if send_state ch = StBlock \<or> send_state ch = StClosed then Some (0, ch, [])
      else send_n_loop B via_dispatch v count 0 ch)"

definition start_send_op :: "('v, 'b) buffer_impl \<Rightarrow> nat \<Rightarrow> nat \<Rightarrow> 'v \<Rightarrow> ('v, 'b) channel \<Rightarrow> (('v, 'b) channel \<times> 'v completion list) option" where
  "start_send_op B i key v ch = (case send_state ch of
     StBlock \<Rightarrow>
       (let ch1 = ch\<lparr>waiters := waiters ch @ [SendOp i key v]\<rparr> in
        Some (if receive_state ch1 = StBlock then ch1\<lparr>receive_state := StWaiter\<rparr> else ch1, []))
   | StBuffer \<Rightarrow> Some (push_value B v ch, [SendDone i ImmediateOp])
   | StWaiter \<Rightarrow> map_option (\<lambda>r. (take_receiver ch, [ReceiveDone r PostOp (Value v), SendDone i ImmediateOp])) (as_receive (waiters ch))
   | StClosed \<Rightarrow> Some (ch, [SendDone i CloseOp]))"

section \<open>Receiving\<close>

text \<open>A value from the buffer; the first waiting sender's takes the free place. A value from a waiting sender.\<close>

definition take_buffered :: "('v, 'b) buffer_impl \<Rightarrow> ('v, 'b) channel \<Rightarrow> ('v \<times> ('v, 'b) channel \<times> 'v completion list) option" where
  "take_buffered B ch = (let payload = buffer_front B (channel_buffer ch); popped = buffer_pop B (channel_buffer ch) in
     if waiters ch \<noteq> [] then
       map_option (\<lambda>(i, v). (payload, ch\<lparr>channel_buffer := buffer_push B v popped, waiters := tl (waiters ch)\<rparr>, [SendDone i PostOp]))
         (as_send (waiters ch))
     else
       (let ch1 = ch\<lparr>channel_buffer := popped\<rparr>;
            ch2 = (if buffer_size B popped = 0 then ch1\<lparr>receive_state := (if send_state ch1 = StClosed then StClosed else StBlock)\<rparr> else ch1)
        in Some (payload, ch2\<lparr>send_state := (if send_state ch2 = StClosed then StClosed else StBuffer)\<rparr>, [])))"

definition take_waiting :: "('v, 'b) channel \<Rightarrow> ('v \<times> ('v, 'b) channel \<times> 'v completion list) option" where
  "take_waiting ch = map_option (\<lambda>(i, v).
       (v, let ch1 = ch\<lparr>waiters := tl (waiters ch)\<rparr> in
           if waiters ch1 = [] then ch1\<lparr>receive_state := (if send_state ch1 = StClosed then StClosed else StBlock)\<rparr> else ch1,
        [SendDone i PostOp])) (as_send (waiters ch))"

text \<open>\<open>try_receive\<close> passes the value to its handler at once.\<close>

definition try_receive :: "('v, 'b) buffer_impl \<Rightarrow> ('v, 'b) channel \<Rightarrow> ('v option \<times> ('v, 'b) channel \<times> 'v completion list) option" where
  "try_receive B ch = (case receive_state ch of
     StBlock \<Rightarrow> Some (None, ch, [])
   | StBuffer \<Rightarrow> map_option (\<lambda>(v, ch1, cs). (Some v, ch1, cs)) (take_buffered B ch)
   | StWaiter \<Rightarrow> map_option (\<lambda>(v, ch1, cs). (Some v, ch1, cs)) (take_waiting ch)
   | StClosed \<Rightarrow> Some (None, ch, []))"

definition start_receive_op :: "('v, 'b) buffer_impl \<Rightarrow> nat \<Rightarrow> nat \<Rightarrow> ('v, 'b) channel \<Rightarrow> (('v, 'b) channel \<times> 'v completion list) option" where
  "start_receive_op B i key ch = (case receive_state ch of
     StBlock \<Rightarrow>
       (let ch1 = ch\<lparr>waiters := waiters ch @ [ReceiveOp i key]\<rparr> in
        Some (if send_state ch1 \<noteq> StClosed then ch1\<lparr>send_state := StWaiter\<rparr> else ch1, []))
   | StBuffer \<Rightarrow> map_option (\<lambda>(v, ch1, cs). (ch1, cs @ [ReceiveDone i ImmediateOp (Value v)])) (take_buffered B ch)
   | StWaiter \<Rightarrow> map_option (\<lambda>(v, ch1, cs). (ch1, cs @ [ReceiveDone i ImmediateOp (Value v)])) (take_waiting ch)
   | StClosed \<Rightarrow> Some (ch, [ReceiveDone i PostOp ReceiveClosed]))"

section \<open>Moving\<close>

text \<open>The new channel and what is left of the other. The operations that wait are not moved.\<close>

definition buffer_move_from :: "('v, 'b) buffer_impl \<Rightarrow> ('v, 'b) channel \<Rightarrow> ('v, 'b) channel \<Rightarrow> ('v, 'b) channel \<times> ('v, 'b) channel" where
  "buffer_move_from B ch other = (ch\<lparr>channel_buffer := channel_buffer other\<rparr>,
     other\<lparr>channel_buffer := buffer_clear B (channel_buffer other)\<rparr>)"

definition move_fields :: "('v, 'b) buffer_impl \<Rightarrow> ('v, 'b) channel \<Rightarrow> ('v, 'b) channel \<Rightarrow> ('v, 'b) channel \<times> ('v, 'b) channel" where
  "move_fields B ch other = buffer_move_from B
     (ch\<lparr>max_buffer_size := max_buffer_size other, receive_state := receive_state other, send_state := send_state other\<rparr>)
     (other\<lparr>receive_state := StBlock, send_state := empty_state other\<rparr>)"

definition base_channel :: "('v, 'b) buffer_impl \<Rightarrow> ('v, 'b) channel" where
  "base_channel B = \<lparr>receive_state = StBlock, send_state = StBlock, max_buffer_size = 0, waiters = [], channel_buffer = buffer_new B\<rparr>"

definition move_construct :: "('v, 'b) buffer_impl \<Rightarrow> ('v, 'b) channel \<Rightarrow> ('v, 'b) channel \<times> ('v, 'b) channel" where
  "move_construct B other = move_fields B (base_channel B) other"

definition move_assign :: "('v, 'b) buffer_impl \<Rightarrow> ('v, 'b) channel \<Rightarrow> ('v, 'b) channel \<Rightarrow>
    (('v, 'b) channel \<times> ('v, 'b) channel \<times> 'v completion list) option" where
  "move_assign B ch other = map_option (\<lambda>(ch1, cs). (fst (move_fields B ch1 other), snd (move_fields B ch1 other), cs)) (cancel ch)"

section \<open>Runs\<close>

datatype 'v channel_call = TrySend bool 'v | TrySendN nat bool 'v | AsyncSend nat nat 'v | TryReceive | AsyncReceive nat nat
  | Cancel | CancelByKey nat | Close | Reset

datatype 'v call_result = Sent bool | SentN nat | Received "'v option" | Started

definition no_result :: "(('v, 'b) channel \<times> 'v completion list) option \<Rightarrow> ('v call_result \<times> ('v, 'b) channel \<times> 'v completion list) option" where
  "no_result x = map_option (\<lambda>(ch, cs). (Started, ch, cs)) x"

fun channel_step :: "('v, 'b) buffer_impl \<Rightarrow> 'v channel_call \<Rightarrow> ('v, 'b) channel \<Rightarrow> ('v call_result \<times> ('v, 'b) channel \<times> 'v completion list) option" where
  "channel_step B (TrySend d v) ch = map_option (\<lambda>(r, x). (Sent r, x)) (try_send B d v ch)"
| "channel_step B (TrySendN n d v) ch = map_option (\<lambda>(r, x). (SentN r, x)) (try_send_n B n d v ch)"
| "channel_step B (AsyncSend i k v) ch = no_result (start_send_op B i k v ch)"
| "channel_step B TryReceive ch = map_option (\<lambda>(r, x). (Received r, x)) (try_receive B ch)"
| "channel_step B (AsyncReceive i k) ch = no_result (start_receive_op B i k ch)"
| "channel_step B Cancel ch = no_result (cancel ch)"
| "channel_step B (CancelByKey k) ch = no_result (cancel_by_key k ch)"
| "channel_step B Close ch = no_result (close ch)"
| "channel_step B Reset ch = no_result (reset B ch)"

fun channel_run :: "('v, 'b) buffer_impl \<Rightarrow> 'v channel_call list \<Rightarrow> ('v, 'b) channel \<Rightarrow>
    (('v call_result \<times> 'v completion list) list \<times> ('v, 'b) channel) option" where
  "channel_run B [] ch = Some ([], ch)"
| "channel_run B (c # cs) ch = (case channel_step B c ch of
     None \<Rightarrow> None
   | Some (r, ch1, out) \<Rightarrow> map_option (\<lambda>(rs, ch2). ((r, out) # rs, ch2)) (channel_run B cs ch1))"

end
