(* ===== verification/AsioChannelQueue.thy ===== *)
theory AsioChannelQueue
  imports AsioChannel
begin

text \<open>
  What a channel promises: a queue of messages of limited size with senders that wait for room and receivers that wait for
  a message. The three buffers keep the interface \<open>buffer_interface\<close>, two of them with a clear that clears, and the channel's
  calls, which work on the states of its two ends, are the calls of the queue.
\<close>

section \<open>The interface of a buffer\<close>

locale buffer_interface =
  fixes B :: "('v, 'b) buffer_impl"
    and contents :: "'b \<Rightarrow> 'v list"
    and ok :: "'b \<Rightarrow> bool"
  assumes new: "ok (buffer_new B)" "contents (buffer_new B) = []"
    and size: "ok b \<Longrightarrow> buffer_size B b = length (contents b)"
    and push: "ok b \<Longrightarrow> ok (buffer_push B v b)" "ok b \<Longrightarrow> contents (buffer_push B v b) = contents b @ [v]"
    and push_n: "ok b \<Longrightarrow> buffer_push_n B m n v b = (b', k) \<Longrightarrow>
      ok b' \<and> contents b' = contents b @ replicate k v \<and> k = min n (m - length (contents b))"
    and front: "ok b \<Longrightarrow> contents b = v # vs \<Longrightarrow> buffer_front B b = v"
    and pop: "ok b \<Longrightarrow> contents b = v # vs \<Longrightarrow> ok (buffer_pop B b) \<and> contents (buffer_pop B b) = vs"

locale clearable_interface = buffer_interface +
  assumes clear: "ok b \<Longrightarrow> ok (buffer_clear B b) \<and> contents (buffer_clear B b) = []"

section \<open>The three buffers\<close>

lemma deque_push_n_eq: "deque_push_n m n v b = (b @ replicate (min n (m - length b)) v, min n (m - length b))"
proof (induction n arbitrary: b)
  case (Suc n)
  show ?case
  proof (cases "length b < m")
    case True
    then have e: "m - length b = Suc (m - Suc (length b))" by simp
    show ?thesis unfolding e using Suc [of "b @ [v]"] True by (simp add: Let_def min_def)
  qed simp
qed simp

interpretation deque: clearable_interface deque_buffer "\<lambda>b. b" "\<lambda>_. True"
  by unfold_locales (auto simp: deque_buffer_def deque_push_n_eq)

interpretation counted: clearable_interface count_buffer "\<lambda>b. replicate b ()" "\<lambda>_. True"
proof unfold_locales
  show "True \<and> replicate b' () = replicate b () @ replicate k v \<and> k = min n (m - length (replicate b ()))"
    if "buffer_push_n count_buffer m n v b = (b', k)" for b b' k m n v
    using that by (auto simp: count_buffer_def count_push_n_def Let_def replicate_add min_def split: if_splits)
  show "True \<and> replicate (buffer_pop count_buffer b) () = vs" if "replicate b () = v # vs" for b v vs
    using that by (cases b) (simp_all add: count_buffer_def)
qed (simp_all add: count_buffer_def replicate_append_same)

definition error_contents :: "error_values \<Rightarrow> error_code list" where
  "error_contents b = concat (List.map (\<lambda>(v, n). replicate n v) (first_run b # rest_runs b))"

definition error_ok :: "error_values \<Rightarrow> bool" where
  "error_ok b = (total_size b = length (error_contents b) \<and> list_all (\<lambda>(v, n). 0 < n) (rest_runs b) \<and>
     (snd (first_run b) = 0 \<longrightarrow> rest_runs b = []))"

text \<open>Both pushes put a number of equal codes at the end.\<close>

definition error_append :: "nat \<Rightarrow> error_code \<Rightarrow> error_values \<Rightarrow> error_values" where
  "error_append c v b = (let (w, n) = last_value b;
       b1 = (if n = 0 then set_last (v, c) b
             else if w = v then set_last (w, n + c) b
             else b\<lparr>rest_runs := rest_runs b @ [(v, c)]\<rparr>)
     in b1\<lparr>total_size := total_size b1 + c\<rparr>)"

lemma replicate_last: "rs \<noteq> [] \<Longrightarrow> rs = butlast rs @ [last rs]"
  by simp

lemma error_append_ok:
  assumes "error_ok b" "0 < c"
  shows "error_ok (error_append c v b) \<and> error_contents (error_append c v b) = error_contents b @ replicate c v"
proof (cases "rest_runs b" rule: rev_cases)
  case Nil
  then show ?thesis using assms
    by (cases "first_run b") (auto simp: error_ok_def error_append_def error_contents_def last_value_def set_last_def replicate_add Let_def)
next
  case (snoc rs x)
  then show ?thesis using assms
    by (cases x) (auto simp: error_ok_def error_append_def error_contents_def last_value_def set_last_def replicate_add Let_def)
qed

lemma error_pop_ok:
  assumes "error_ok b" "error_contents b = v # vs"
  shows "error_front b = v \<and> error_ok (error_pop b) \<and> error_contents (error_pop b) = vs"
proof -
  obtain w n where f: "first_run b = (w, n)" by (cases "first_run b")
  have "n \<noteq> 0"
  proof
    assume "n = 0"
    then show False using assms f by (simp add: error_ok_def error_contents_def)
  qed
  then obtain k where "n = Suc k" by (cases n) simp_all
  then show ?thesis using assms f
    by (cases "rest_runs b") (auto simp: error_ok_def error_contents_def error_front_def error_pop_def Let_def)
qed

interpretation errors: buffer_interface error_buffer error_contents error_ok
proof unfold_locales
  show "error_ok (buffer_new error_buffer)" "error_contents (buffer_new error_buffer) = []"
    by (simp_all add: error_buffer_def error_ok_def error_contents_def)
  fix b b' :: error_values and v m n k
  assume ok: "error_ok b"
  show "buffer_size error_buffer b = length (error_contents b)" using ok by (simp add: error_buffer_def error_ok_def)
  have e: "buffer_push error_buffer v b = error_append 1 v b"
    unfolding error_append_def by (simp add: error_buffer_def error_push_def)
  show "error_ok (buffer_push error_buffer v b)" "error_contents (buffer_push error_buffer v b) = error_contents b @ [v]"
    unfolding e using error_append_ok [OF ok, of 1 v] by simp_all
  show "error_ok b' \<and> error_contents b' = error_contents b @ replicate k v \<and> k = min n (m - length (error_contents b))"
    if "buffer_push_n error_buffer m n v b = (b', k)"
  proof -
    let ?c = "min n (m - length (error_contents b))"
    have c: "(if n < m - total_size b then n else m - total_size b) = ?c" using ok by (simp add: error_ok_def)
    have "error_push_n m n v b = (if ?c > 0 then (error_append ?c v b, ?c) else (b, ?c))"
      unfolding error_push_n_def error_append_def Let_def c by (simp split: prod.splits)
    then have r: "(b', k) = (if ?c > 0 then (error_append ?c v b, ?c) else (b, ?c))"
      using that by (simp add: error_buffer_def)
    show ?thesis
    proof (cases "?c > 0")
      case True
      then show ?thesis using r error_append_ok [OF ok True, of v] by simp
    next
      case False
      then have "k = 0" "b' = b" "?c = 0" using r by (simp_all only: if_False prod.inject)
      then show ?thesis using ok by simp
    qed
  qed
  show "buffer_front error_buffer b = w" if "error_contents b = w # vs" for w vs
    using error_pop_ok [OF ok that] by (simp add: error_buffer_def)
  show "error_ok (buffer_pop error_buffer b) \<and> error_contents (buffer_pop error_buffer b) = vs" if "error_contents b = w # vs" for w vs
    using error_pop_ok [OF ok that] by (simp add: error_buffer_def)
qed

section \<open>The queue\<close>

record 'v message_queue =
  limit :: nat
  stored :: "'v list"
  senders :: "(nat \<times> nat \<times> 'v) list"
  takers :: "(nat \<times> nat) list"
  q_open :: bool

definition new_message_queue :: "nat \<Rightarrow> 'v message_queue" where
  "new_message_queue n = \<lparr>limit = n, stored = [], senders = [], takers = [], q_open = True\<rparr>"

text \<open>A message goes to the first receiver that waits, or into the queue when there is room.\<close>

definition offer :: "'v \<Rightarrow> 'v message_queue \<Rightarrow> ('v message_queue \<times> nat option) option" where
  "offer v q = (if \<not> q_open q then None
     else case takers q of
       (i, k) # ts \<Rightarrow> Some (q\<lparr>takers := ts\<rparr>, Some i)
     | [] \<Rightarrow> if length (stored q) < limit q then Some (q\<lparr>stored := stored q @ [v]\<rparr>, None) else None)"

definition to_taker :: "bool \<Rightarrow> 'v \<Rightarrow> nat option \<Rightarrow> 'v completion list" where
  "to_taker d v r = (case r of None \<Rightarrow> [] | Some i \<Rightarrow> [ReceiveDone i (if d then DispatchOp else PostOp) (Value v)])"

fun offer_n :: "bool \<Rightarrow> 'v \<Rightarrow> nat \<Rightarrow> 'v message_queue \<Rightarrow> nat \<times> 'v message_queue \<times> 'v completion list" where
  "offer_n d v 0 q = (0, q, [])"
| "offer_n d v (Suc n) q = (case offer v q of
     None \<Rightarrow> (0, q, [])
   | Some (q1, r) \<Rightarrow> (let (k, q2, cs) = offer_n d v n q1 in (Suc k, q2, to_taker d v r @ cs)))"

text \<open>The first message; the first waiting sender's takes the place that is free then.\<close>

definition take_first :: "'v message_queue \<Rightarrow> ('v \<times> 'v message_queue \<times> 'v completion list) option" where
  "take_first q = (case stored q @ List.map (\<lambda>(i, k, v). v) (senders q) of
     [] \<Rightarrow> None
   | v # vs \<Rightarrow> (case senders q of
       [] \<Rightarrow> Some (v, q\<lparr>stored := vs\<rparr>, [])
     | (i, k, w) # ss \<Rightarrow> Some (v, q\<lparr>stored := take (length (stored q)) vs, senders := ss\<rparr>, [SendDone i PostOp])))"

fun queue_step :: "'v channel_call \<Rightarrow> 'v message_queue \<Rightarrow> ('v call_result \<times> 'v message_queue \<times> 'v completion list) option" where
  "queue_step (TrySend d v) q = Some (case offer v q of None \<Rightarrow> (Sent False, q, []) | Some (q1, r) \<Rightarrow> (Sent True, q1, to_taker d v r))"
| "queue_step (TrySendN n d v) q = Some (case offer_n d v n q of (k, x) \<Rightarrow> (SentN k, x))"
| "queue_step (AsyncSend i k v) q = Some (Started, case offer v q of
     Some (q1, r) \<Rightarrow> (q1, to_taker False v r @ [SendDone i ImmediateOp])
   | None \<Rightarrow> if q_open q then (q\<lparr>senders := senders q @ [(i, k, v)]\<rparr>, []) else (q, [SendDone i CloseOp]))"
| "queue_step TryReceive q = Some (case take_first q of None \<Rightarrow> (Received None, q, []) | Some (v, x) \<Rightarrow> (Received (Some v), x))"
| "queue_step (AsyncReceive i k) q = Some (Started, case take_first q of
     Some (v, q1, cs) \<Rightarrow> (q1, cs @ [ReceiveDone i ImmediateOp (Value v)])
   | None \<Rightarrow> if q_open q then (q\<lparr>takers := takers q @ [(i, k)]\<rparr>, []) else (q, [ReceiveDone i PostOp ReceiveClosed]))"
| "queue_step Cancel q = Some (Started, q\<lparr>senders := [], takers := []\<rparr>,
     List.map (\<lambda>(i, k, v). SendDone i CancelOp) (senders q) @ List.map (\<lambda>(i, k). ReceiveDone i PostOp ReceiveCancelled) (takers q))"
| "queue_step (CancelByKey key) q = Some (Started,
     q\<lparr>senders := filter (\<lambda>(i, k, v). k \<noteq> key) (senders q), takers := filter (\<lambda>(i, k). k \<noteq> key) (takers q)\<rparr>,
     List.map (\<lambda>(i, k, v). SendDone i CancelOp) (filter (\<lambda>(i, k, v). k = key) (senders q)) @
     List.map (\<lambda>(i, k). ReceiveDone i PostOp ReceiveCancelled) (filter (\<lambda>(i, k). k = key) (takers q)))"
| "queue_step Close q = (if senders q \<noteq> [] then None
     else Some (Started, q\<lparr>takers := [], q_open := False\<rparr>, List.map (\<lambda>(i, k). ReceiveDone i PostOp ReceiveClosed) (takers q)))"
| "queue_step Reset q = Some (Started, q\<lparr>senders := [], takers := [], stored := [], q_open := True\<rparr>,
     List.map (\<lambda>(i, k, v). SendDone i CancelOp) (senders q) @ List.map (\<lambda>(i, k). ReceiveDone i PostOp ReceiveCancelled) (takers q))"

fun queue_run :: "'v channel_call list \<Rightarrow> 'v message_queue \<Rightarrow>
    (('v call_result \<times> 'v completion list) list \<times> 'v message_queue) option" where
  "queue_run [] q = Some ([], q)"
| "queue_run (c # cs) q = (case queue_step c q of
     None \<Rightarrow> None
   | Some (r, q1, out) \<Rightarrow> map_option (\<lambda>(rs, q2). ((r, out) # rs, q2)) (queue_run cs q1))"

section \<open>Channels as queues\<close>

fun is_send :: "'v channel_op \<Rightarrow> bool" where
  "is_send (SendOp i k v) = True"
| "is_send (ReceiveOp i k) = False"

fun senders_of :: "'v channel_op list \<Rightarrow> (nat \<times> nat \<times> 'v) list" where
  "senders_of [] = []"
| "senders_of (SendOp i k v # ws) = (i, k, v) # senders_of ws"
| "senders_of (ReceiveOp i k # ws) = senders_of ws"

fun takers_of :: "'v channel_op list \<Rightarrow> (nat \<times> nat) list" where
  "takers_of [] = []"
| "takers_of (SendOp i k v # ws) = takers_of ws"
| "takers_of (ReceiveOp i k # ws) = (i, k) # takers_of ws"

definition queue_of :: "('b \<Rightarrow> 'v list) \<Rightarrow> ('v, 'b) channel \<Rightarrow> 'v message_queue" where
  "queue_of contents ch = \<lparr>limit = max_buffer_size ch, stored = contents (channel_buffer ch), senders = senders_of (waiters ch),
     takers = takers_of (waiters ch), q_open = (send_state ch \<noteq> StClosed)\<rparr>"

text \<open>What the two states mean. No sender waits at a closed channel.\<close>

definition channel_ok :: "('b \<Rightarrow> 'v list) \<Rightarrow> ('b \<Rightarrow> bool) \<Rightarrow> ('v, 'b) channel \<Rightarrow> bool" where
  "channel_ok contents ok ch = (ok (channel_buffer ch) \<and> (let vs = contents (channel_buffer ch) in
     case send_state ch of
       StBlock \<Rightarrow> list_all is_send (waiters ch) \<and> length vs = max_buffer_size ch \<and>
         receive_state ch = (if vs \<noteq> [] then StBuffer else if waiters ch = [] then StBlock else StWaiter)
     | StBuffer \<Rightarrow> waiters ch = [] \<and> length vs < max_buffer_size ch \<and> receive_state ch = (if vs \<noteq> [] then StBuffer else StBlock)
     | StWaiter \<Rightarrow> waiters ch \<noteq> [] \<and> list_all (\<lambda>w. \<not> is_send w) (waiters ch) \<and> vs = [] \<and> receive_state ch = StBlock
     | StClosed \<Rightarrow> waiters ch = [] \<and> length vs \<le> max_buffer_size ch \<and> receive_state ch = (if vs \<noteq> [] then StBuffer else StClosed)))"

lemma waiting_sends [simp]: "list_all is_send ws \<Longrightarrow> takers_of ws = []"
  by (induction ws rule: takers_of.induct) simp_all

lemma waiting_receives [simp]: "list_all (\<lambda>w. \<not> is_send w) ws \<Longrightarrow> senders_of ws = []"
  by (induction ws rule: senders_of.induct) simp_all

lemma senders_empty: "list_all is_send ws \<Longrightarrow> senders_of ws = [] \<longleftrightarrow> ws = []"
  by (cases ws rule: senders_of.cases) simp_all

lemma takers_empty: "list_all (\<lambda>w. \<not> is_send w) ws \<Longrightarrow> takers_of ws = [] \<longleftrightarrow> ws = []"
  by (cases ws rule: takers_of.cases) simp_all

lemma waiters_append [simp]:
  "senders_of (xs @ ys) = senders_of xs @ senders_of ys" "takers_of (xs @ ys) = takers_of xs @ takers_of ys"
  by (induction xs rule: senders_of.induct) simp_all

lemma cancel_sends:
  "list_all is_send ws \<Longrightarrow> those (List.map (cancel_one StBlock) ws) = Some (List.map (\<lambda>(i, k, v). SendDone i CancelOp) (senders_of ws))"
  by (induction ws rule: senders_of.induct) simp_all

lemma cancel_receives:
  "list_all (\<lambda>w. \<not> is_send w) ws \<Longrightarrow> st \<noteq> StBlock \<Longrightarrow>
     those (List.map (cancel_one st) ws) = Some (List.map (\<lambda>(i, k). ReceiveDone i PostOp ReceiveCancelled) (takers_of ws))"
  by (induction ws rule: takers_of.induct) simp_all

lemma close_receives:
  "list_all (\<lambda>w. \<not> is_send w) ws \<Longrightarrow>
     those (List.map close_one ws) = Some (List.map (\<lambda>(i, k). ReceiveDone i PostOp ReceiveClosed) (takers_of ws))"
  by (induction ws rule: takers_of.induct) simp_all

lemma waiters_filter [simp]:
  "senders_of (filter (\<lambda>w. P (op_key w)) ws) = filter (\<lambda>(i, k, v). P k) (senders_of ws)"
  "takers_of (filter (\<lambda>w. P (op_key w)) ws) = filter (\<lambda>(i, k). P k) (takers_of ws)"
  by (induction ws rule: senders_of.induct) simp_all

lemma list_all_filter: "list_all Q ws \<Longrightarrow> list_all Q (filter P ws)"
  by (simp add: list_all_iff)

context buffer_interface
begin

abbreviation "as_queue \<equiv> queue_of contents"
abbreviation "good \<equiv> channel_ok contents ok"

lemma construct_ok: "good (construct B n) \<and> as_queue (construct B n) = new_message_queue n"
  by (auto simp: channel_ok_def construct_def queue_of_def new_message_queue_def new)

text \<open>A message that is offered.\<close>

lemma push_value_ok:
  assumes "good ch" "send_state ch = StBuffer"
  shows "good (push_value B v ch) \<and> offer v (as_queue ch) = Some (as_queue (push_value B v ch), None)"
  using assms by (auto simp: channel_ok_def push_value_def offer_def queue_of_def size push Let_def)

lemma take_receiver_ok:
  assumes "good ch" "send_state ch = StWaiter"
  shows "\<exists>r. as_receive (waiters ch) = Some r \<and> good (take_receiver ch) \<and>
    offer v (as_queue ch) = Some (as_queue (take_receiver ch), Some r)"
proof -
  obtain i k ws where w: "waiters ch = ReceiveOp i k # ws"
    using assms by (cases "waiters ch" rule: as_receive.cases) (auto simp: channel_ok_def Let_def)
  then show ?thesis
    using assms by (auto simp: channel_ok_def take_receiver_def offer_def queue_of_def empty_state_def Let_def)
qed

lemma offer_refused:
  assumes "good ch" "send_state ch = StBlock \<or> send_state ch = StClosed"
  shows "offer v (as_queue ch) = None"
  using assms by (auto simp: channel_ok_def offer_def queue_of_def Let_def)

text \<open>A message that is taken.\<close>

lemma take_buffered_ok:
  assumes "good ch" "receive_state ch = StBuffer"
  shows "case take_buffered B ch of None \<Rightarrow> False
    | Some (v, ch1, cs) \<Rightarrow> good ch1 \<and> take_first (as_queue ch) = Some (v, as_queue ch1, cs)"
proof -
  obtain v vs where c: "contents (channel_buffer ch) = v # vs"
    using assms by (cases "contents (channel_buffer ch)") (auto simp: channel_ok_def Let_def split: channel_state.splits if_splits)
  have o: "ok (channel_buffer ch)" using assms by (simp add: channel_ok_def)
  note b = front [OF o c] pop [OF o c]
  show ?thesis
  proof (cases "waiters ch" rule: as_send.cases)
    case (1 i k w ws)
    then show ?thesis using assms b c push [of "buffer_pop B (channel_buffer ch)" w]
      by (auto simp: channel_ok_def take_buffered_def take_first_def queue_of_def Let_def split: channel_state.splits)
  next
    case "2_1"
    then show ?thesis using assms b c size [of "buffer_pop B (channel_buffer ch)"]
      by (auto simp: channel_ok_def take_buffered_def take_first_def queue_of_def Let_def split: channel_state.splits)
  next
    case "2_2"
    then show ?thesis using assms c by (auto simp: channel_ok_def Let_def split: channel_state.splits)
  qed
qed

lemma take_waiting_ok:
  assumes "good ch" "receive_state ch = StWaiter"
  shows "case take_waiting ch of None \<Rightarrow> False
    | Some (v, ch1, cs) \<Rightarrow> good ch1 \<and> take_first (as_queue ch) = Some (v, as_queue ch1, cs)"
proof -
  have s: "send_state ch = StBlock" "waiters ch \<noteq> []" "list_all is_send (waiters ch)" "contents (channel_buffer ch) = []" "max_buffer_size ch = 0"
    using assms by (auto simp: channel_ok_def Let_def split: channel_state.splits if_splits)
  then obtain i k v ws where w: "waiters ch = SendOp i k v # ws" by (cases "waiters ch" rule: as_send.cases) auto
  then show ?thesis using assms s
    by (auto simp: channel_ok_def take_waiting_def take_first_def queue_of_def Let_def)
qed

lemma take_refused:
  assumes "good ch" "receive_state ch = StBlock \<or> receive_state ch = StClosed"
  shows "take_first (as_queue ch) = None"
  using assms by (auto simp: channel_ok_def take_first_def queue_of_def Let_def split: channel_state.splits if_splits)

end

lemma offer_n_room:
  "q_open q \<Longrightarrow> takers q = [] \<Longrightarrow>
     offer_n d v n q = (min n (limit q - length (stored q)), q\<lparr>stored := stored q @ replicate (min n (limit q - length (stored q))) v\<rparr>, [])"
proof (induction n arbitrary: q)
  case (Suc n)
  show ?case
  proof (cases "length (stored q) < limit q")
    case True
    then have e: "limit q - length (stored q) = Suc (limit q - Suc (length (stored q)))" by simp
    have o: "offer v q = Some (q\<lparr>stored := stored q @ [v]\<rparr>, None)" using Suc.prems True by (simp add: offer_def)
    show ?thesis unfolding e using Suc.IH [of "q\<lparr>stored := stored q @ [v]\<rparr>"] Suc.prems
      by (simp add: o to_taker_def min_def Let_def)
  next
    case False
    then have "offer v q = None" using Suc.prems by (simp add: offer_def)
    then show ?thesis using False by simp
  qed
qed simp

context buffer_interface
begin

lemma send_n_loop_ok:
  assumes "good ch" "offer_n d v n (as_queue ch) = (k, q, cs)"
  shows "case send_n_loop B d v n i ch of None \<Rightarrow> False
    | Some (j, ch1, out) \<Rightarrow> good ch1 \<and> as_queue ch1 = q \<and> j = i + k \<and> out = cs"
  using assms
proof (induction n arbitrary: ch k q cs i)
  case (Suc n)
  show ?case
  proof (cases "send_state ch")
    case StBuffer
    let ?vs = "contents (channel_buffer ch)"
    obtain b j where p: "buffer_push_n B (max_buffer_size ch) (Suc n) v (channel_buffer ch) = (b, j)" by fastforce
    have o: "ok (channel_buffer ch)" "waiters ch = []" "length ?vs < max_buffer_size ch"
      using Suc.prems StBuffer by (simp_all add: channel_ok_def Let_def)
    note b = push_n [OF o(1) p]
    have room: "offer_n d v (Suc n) (as_queue ch) = (j, (as_queue ch)\<lparr>stored := ?vs @ replicate j v\<rparr>, [])"
      using b o offer_n_room [of "as_queue ch" d v "Suc n"] StBuffer by (simp add: queue_of_def)
    have "0 < j" using b o by simp
    then show ?thesis using b o room Suc.prems StBuffer p
      by (auto simp: queue_of_def channel_ok_def size Let_def)
  next
    case StWaiter
    obtain r where r: "as_receive (waiters ch) = Some r" "good (take_receiver ch)"
      "offer v (as_queue ch) = Some (as_queue (take_receiver ch), Some r)"
      using take_receiver_ok [OF Suc.prems(1) StWaiter] by blast
    obtain k' cs' where k: "offer_n d v n (as_queue (take_receiver ch)) = (k', q, cs')" "k = Suc k'" "cs = to_taker d v (Some r) @ cs'"
      using Suc.prems(2) r by (auto simp: Let_def split: prod.splits)
    show ?thesis using Suc.IH [OF r(2) k(1), of "i + 1"] StWaiter r k
      by (cases "send_n_loop B d v n (i + 1) (take_receiver ch)") (auto simp: to_taker_def)
  next
    case StBlock
    then show ?thesis using Suc.prems offer_refused [OF Suc.prems(1), of v] by simp
  next
    case StClosed
    then show ?thesis using Suc.prems offer_refused [OF Suc.prems(1), of v] by simp
  qed
qed simp

lemma offer_n_refused:
  "good ch \<Longrightarrow> send_state ch = StBlock \<or> send_state ch = StClosed \<Longrightarrow> offer_n d v n (as_queue ch) = (0, as_queue ch, [])"
  using offer_refused by (cases n) simp_all

lemma try_send_n_ok:
  assumes "good ch" "offer_n d v n (as_queue ch) = (k, q, cs)"
  shows "case try_send_n B n d v ch of None \<Rightarrow> False
    | Some (j, ch1, out) \<Rightarrow> good ch1 \<and> as_queue ch1 = q \<and> j = k \<and> out = cs"
proof (cases "n = 0 \<or> send_state ch = StBlock \<or> send_state ch = StClosed")
  case True
  then show ?thesis using assms offer_n_refused [OF assms(1), of d v n] by (auto simp: try_send_n_def)
next
  case False
  then show ?thesis using send_n_loop_ok [OF assms, of 0] by (auto simp: try_send_n_def split: option.splits)
qed

lemma try_send_ok:
  assumes "good ch"
  shows "case try_send B d v ch of None \<Rightarrow> False
    | Some (r, ch1, out) \<Rightarrow> good ch1 \<and>
        (case offer v (as_queue ch) of None \<Rightarrow> (False, as_queue ch, []) | Some (q1, t) \<Rightarrow> (True, q1, to_taker d v t)) = (r, as_queue ch1, out)"
proof (cases "send_state ch")
  case StWaiter
  then show ?thesis using take_receiver_ok [OF assms StWaiter, of v] by (auto simp: try_send_def to_taker_def)
qed (use assms push_value_ok [OF assms, of v] offer_refused [OF assms, of v] in \<open>simp_all add: try_send_def to_taker_def\<close>)

end

text \<open>A call without \<open>Reset\<close> is that of the queue.\<close>

definition simulates :: "('b \<Rightarrow> 'v list) \<Rightarrow> ('b \<Rightarrow> bool) \<Rightarrow> ('v call_result \<times> ('v, 'b) channel \<times> 'v completion list) option \<Rightarrow>
    ('v call_result \<times> 'v message_queue \<times> 'v completion list) option \<Rightarrow> bool" where
  "simulates contents ok x y = (case y of None \<Rightarrow> True
     | Some (r, q, cs) \<Rightarrow> (case x of None \<Rightarrow> False
         | Some (r', ch, cs') \<Rightarrow> channel_ok contents ok ch \<and> queue_of contents ch = q \<and> r' = r \<and> cs' = cs))"

context buffer_interface
begin

abbreviation "sim \<equiv> simulates contents ok"

lemma start_send_ok:
  assumes "good ch"
  shows "sim (channel_step B (AsyncSend i k v) ch) (queue_step (AsyncSend i k v) (as_queue ch))"
proof (cases "send_state ch")
  case StBuffer
  then show ?thesis using push_value_ok [OF assms, of v]
    by (simp add: simulates_def start_send_op_def no_result_def to_taker_def)
next
  case StWaiter
  then show ?thesis using take_receiver_ok [OF assms, of v]
    by (auto simp: simulates_def start_send_op_def no_result_def to_taker_def)
next
  case StBlock
  then show ?thesis using assms offer_refused [OF assms, of v]
    by (auto simp: simulates_def start_send_op_def no_result_def channel_ok_def queue_of_def Let_def)
next
  case StClosed
  then show ?thesis using assms offer_refused [OF assms, of v]
    by (auto simp: simulates_def start_send_op_def no_result_def queue_of_def)
qed

lemma start_receive_ok:
  assumes "good ch"
  shows "sim (channel_step B (AsyncReceive i k) ch) (queue_step (AsyncReceive i k) (as_queue ch))"
proof (cases "receive_state ch")
  case StBuffer
  then show ?thesis using take_buffered_ok [OF assms]
    by (auto simp: simulates_def start_receive_op_def no_result_def split: option.splits)
next
  case StWaiter
  then show ?thesis using take_waiting_ok [OF assms]
    by (auto simp: simulates_def start_receive_op_def no_result_def split: option.splits)
next
  case StBlock
  then show ?thesis using assms take_refused [OF assms]
    by (auto simp: simulates_def start_receive_op_def no_result_def channel_ok_def queue_of_def Let_def split: channel_state.splits if_splits)
next
  case StClosed
  then show ?thesis using assms take_refused [OF assms]
    by (auto simp: simulates_def start_receive_op_def no_result_def channel_ok_def queue_of_def Let_def split: channel_state.splits if_splits)
qed

lemma try_receive_ok:
  assumes "good ch"
  shows "sim (channel_step B TryReceive ch) (queue_step TryReceive (as_queue ch))"
proof (cases "receive_state ch")
  case StBuffer
  then show ?thesis using take_buffered_ok [OF assms] by (auto simp: simulates_def try_receive_def split: option.splits)
next
  case StWaiter
  then show ?thesis using take_waiting_ok [OF assms] by (auto simp: simulates_def try_receive_def split: option.splits)
qed (use assms take_refused [OF assms] in \<open>simp_all add: simulates_def try_receive_def\<close>)

lemma cancel_ok:
  assumes "good ch"
  shows "case cancel ch of None \<Rightarrow> False | Some (ch1, cs) \<Rightarrow> good ch1 \<and>
    queue_step Cancel (as_queue ch) = Some (Started, as_queue ch1, cs) \<and> contents (channel_buffer ch1) = contents (channel_buffer ch) \<and>
    waiters ch1 = [] \<and> max_buffer_size ch1 = max_buffer_size ch \<and> channel_buffer ch1 = channel_buffer ch"
  using assms
  by (cases "send_state ch")
    (auto simp: channel_ok_def cancel_def nothing_waits_def empty_state_def queue_of_def cancel_sends cancel_receives Let_def)

lemma cancel_by_key_ok:
  assumes "good ch"
  shows "sim (channel_step B (CancelByKey key) ch) (queue_step (CancelByKey key) (as_queue ch))"
proof -
  note f = waiters_filter [of "\<lambda>k. k = key"] waiters_filter [of "\<lambda>k. k \<noteq> key"]
  note l = list_all_filter [of is_send "waiters ch"] list_all_filter [of "\<lambda>w. \<not> is_send w" "waiters ch"]
  show ?thesis
  proof (cases "send_state ch")
    case StBlock
    then show ?thesis using assms l
      by (auto simp: simulates_def no_result_def channel_ok_def cancel_by_key_def nothing_waits_def empty_state_def queue_of_def
          cancel_sends Let_def simp flip: f simp del: waiters_filter)
  next
    case StWaiter
    then show ?thesis using assms l
      by (auto simp: simulates_def no_result_def channel_ok_def cancel_by_key_def nothing_waits_def empty_state_def queue_of_def
          cancel_receives Let_def simp flip: f simp del: waiters_filter)
  qed (use assms in \<open>auto simp: simulates_def no_result_def channel_ok_def cancel_by_key_def nothing_waits_def queue_of_def Let_def\<close>)
qed

lemma close_ok:
  assumes "good ch"
  shows "sim (channel_step B Close ch) (queue_step Close (as_queue ch))"
proof (cases "send_state ch")
  case StWaiter
  then show ?thesis using assms
    by (auto simp: simulates_def no_result_def channel_ok_def close_def queue_of_def close_receives Let_def)
next
  case StBlock
  then show ?thesis using assms senders_empty [of "waiters ch"]
    by (auto simp: simulates_def no_result_def channel_ok_def close_def queue_of_def Let_def)
qed (use assms in \<open>auto simp: simulates_def no_result_def channel_ok_def close_def queue_of_def Let_def\<close>)

lemma step_ok:
  assumes "good ch" "c \<noteq> Reset"
  shows "sim (channel_step B c ch) (queue_step c (as_queue ch))"
proof (cases c)
  case (TrySend d v)
  then show ?thesis using try_send_ok [OF assms(1), of d v] by (auto simp: simulates_def split: option.splits)
next
  case (TrySendN n d v)
  obtain k q cs where o: "offer_n d v n (as_queue ch) = (k, q, cs)" by (metis prod_cases3)
  show ?thesis using try_send_n_ok [OF assms(1) o] TrySendN o by (auto simp: simulates_def split: option.splits)
next
  case Cancel
  then show ?thesis using cancel_ok [OF assms(1)] by (auto simp: simulates_def no_result_def split: option.splits)
qed (use assms start_send_ok start_receive_ok try_receive_ok cancel_by_key_ok close_ok in simp_all)

end

text \<open>A run of calls each of which is the queue's.\<close>

lemma run_simulates:
  assumes step: "\<And>c ch. c \<in> set cs \<Longrightarrow> channel_ok contents ok ch \<Longrightarrow>
      simulates contents ok (channel_step B c ch) (queue_step c (queue_of contents ch))"
    and "channel_ok contents ok ch" "queue_run cs (queue_of contents ch) = Some (rs, q)"
  shows "\<exists>ch1. channel_run B cs ch = Some (rs, ch1) \<and> channel_ok contents ok ch1 \<and> queue_of contents ch1 = q"
  using assms
proof (induction cs arbitrary: ch rs q)
  case (Cons c cs)
  have s: "simulates contents ok (channel_step B c ch) (queue_step c (queue_of contents ch))"
    using Cons.prems(1) [of c ch] Cons.prems(2) by simp
  obtain r q1 out rs1 where q: "queue_step c (queue_of contents ch) = Some (r, q1, out)" "queue_run cs q1 = Some (rs1, q)"
    "rs = (r, out) # rs1"
    using Cons.prems(3) by (auto split: option.splits)
  then obtain ch1 where c: "channel_step B c ch = Some (r, ch1, out)" "channel_ok contents ok ch1" "queue_of contents ch1 = q1"
    using s by (auto simp: simulates_def split: option.splits)
  then show ?case using Cons.IH [of ch1 rs1 q] Cons.prems(1) q by auto
qed auto

context clearable_interface
begin

lemma reset_step_ok:
  assumes "good ch"
  shows "sim (channel_step B Reset ch) (queue_step Reset (as_queue ch))"
proof -
  obtain ch1 cs where c: "cancel ch = Some (ch1, cs)" "good ch1" "queue_step Cancel (as_queue ch) = Some (Started, as_queue ch1, cs)"
    "waiters ch1 = []"
    using cancel_ok [OF assms] by (auto split: option.splits)
  have o: "ok (channel_buffer ch1)" using c(2) by (simp add: channel_ok_def)
  have e: "queue_step Reset (as_queue ch) = Some (Started, (as_queue ch1)\<lparr>stored := [], q_open := True\<rparr>, cs)"
    using c(3) by (auto simp: queue_of_def)
  show ?thesis using c(1,4) clear [OF o] unfolding e
    by (simp add: simulates_def no_result_def reset_def queue_of_def channel_ok_def empty_state_def)
qed

lemma run_ok:
  "good ch \<Longrightarrow> queue_run cs (as_queue ch) = Some (rs, q) \<Longrightarrow>
     \<exists>ch1. channel_run B cs ch = Some (rs, ch1) \<and> good ch1 \<and> as_queue ch1 = q"
  by (rule run_simulates) (use step_ok reset_step_ok in metis)

lemma channel_run_ok:
  "queue_run cs (new_message_queue n) = Some (rs, q) \<Longrightarrow>
     \<exists>ch. channel_run B cs (construct B n) = Some (rs, ch) \<and> good ch \<and> as_queue ch = q"
  using run_ok [of "construct B n" cs rs q] construct_ok [of n] by simp

end

section \<open>Properties\<close>

text \<open>C8: A channel is a queue of messages with a limit: for every sequence of calls in which \<open>close\<close> is not called while a
  sender waits (\<open>queue_run\<close> is \<open>None\<close> for the others), the results and completions are those of the queue, for the buffer of
  messages and the one that counts; and for the buffer of error codes when the sequence has no \<open>reset\<close> either.\<close>
theorem channel_refines_queue:
  assumes "queue_run cs (new_message_queue n) = Some (rs, q)" "queue_run us (new_message_queue n) = Some (ru, p)"
    "queue_run es (new_message_queue n) = Some (re, x)" "Reset \<notin> set es"
  shows "(\<exists>ch. channel_run deque_buffer cs (construct deque_buffer n) = Some (rs, ch) \<and> queue_of (\<lambda>b. b) ch = q) \<and>
    (\<exists>ch. channel_run count_buffer us (construct count_buffer n) = Some (ru, ch) \<and> queue_of (\<lambda>b. replicate b ()) ch = p) \<and>
    (\<exists>ch. channel_run error_buffer es (construct error_buffer n) = Some (re, ch) \<and> queue_of error_contents ch = x)"
proof -
  have "\<exists>ch. channel_run error_buffer es (construct error_buffer n) = Some (re, ch) \<and> channel_ok error_contents error_ok ch \<and>
      queue_of error_contents ch = x"
  proof (rule run_simulates)
    show "queue_run es (queue_of error_contents (construct error_buffer n)) = Some (re, x)"
      using errors.construct_ok [of n] assms(3) by simp
  qed (use errors.step_ok errors.construct_ok [of n] assms(4) in metis)+
  then show ?thesis using deque.channel_run_ok [OF assms(1)] counted.channel_run_ok [OF assms(2)] by blast
qed

lemma channel_refines_queue_witness:
  "(\<exists>ch. channel_run deque_buffer [AsyncReceive 1 0, TrySend True (5 :: nat), AsyncSend 2 0 7, AsyncSend 3 0 8, TryReceive] (construct deque_buffer 1) =
     Some ([(Started, []), (Sent True, [ReceiveDone 1 DispatchOp (Value 5)]), (Started, [SendDone 2 ImmediateOp]), (Started, []),
       (Received (Some 7), [SendDone 3 PostOp])], ch)) \<and>
   (\<exists>ch. channel_run count_buffer [TrySendN 3 False (), TryReceive] (construct count_buffer 1) = Some ([(SentN 1, []), (Received (Some ()), [])], ch))"
proof -
  have q: "queue_run [AsyncReceive 1 0, TrySend True (5 :: nat), AsyncSend 2 0 7, AsyncSend 3 0 8, TryReceive] (new_message_queue 1) =
      Some ([(Started, []), (Sent True, [ReceiveDone 1 DispatchOp (Value 5)]), (Started, [SendDone 2 ImmediateOp]), (Started, []),
       (Received (Some 7), [SendDone 3 PostOp])], \<lparr>limit = 1, stored = [8], senders = [], takers = [], q_open = True\<rparr>)"
    by (simp add: new_message_queue_def take_first_def offer_def to_taker_def)
  have u: "queue_run [TrySendN 3 False (), TryReceive] (new_message_queue 1) =
      Some ([(SentN 1, []), (Received (Some ()), [])], new_message_queue 1)"
    by (simp add: new_message_queue_def take_first_def offer_def to_taker_def numeral_3_eq_3)
  have e: "queue_run [TrySend False 4, TryReceive] (new_message_queue 1) =
      Some ([(Sent True, []), (Received (Some 4), [])], new_message_queue 1)"
    by (simp add: new_message_queue_def take_first_def offer_def to_taker_def)
  show ?thesis using channel_refines_queue [OF q u e] by auto
qed

section \<open>The order of messages\<close>

fun plain_call :: "'v channel_call \<Rightarrow> bool" where
  "plain_call Cancel = False"
| "plain_call (CancelByKey k) = False"
| "plain_call Close = False"
| "plain_call Reset = False"
| "plain_call _ = True"

text \<open>The messages that a call sends, and that it delivers.\<close>

fun sent_by :: "'v channel_call \<Rightarrow> 'v call_result \<times> 'v completion list \<Rightarrow> 'v list" where
  "sent_by (TrySend d v) (Sent b, out) = (if b then [v] else [])"
| "sent_by (TrySendN n d v) (SentN k, out) = replicate k v"
| "sent_by (AsyncSend i k v) (r, out) = [v]"
| "sent_by _ _ = []"

fun received_values :: "'v completion list \<Rightarrow> 'v list" where
  "received_values [] = []"
| "received_values (ReceiveDone i a (Value v) # cs) = v # received_values cs"
| "received_values (c # cs) = received_values cs"

fun delivered :: "'v call_result \<times> 'v completion list \<Rightarrow> 'v list" where
  "delivered (Received (Some v), out) = v # received_values out"
| "delivered (_, out) = received_values out"

lemma received_append [simp]: "received_values (xs @ ys) = received_values xs @ received_values ys"
  by (induction xs rule: received_values.induct) simp_all

definition queued :: "'v message_queue \<Rightarrow> 'v list" where
  "queued q = stored q @ List.map (\<lambda>(i, k, v). v) (senders q)"

text \<open>A receiver waits only when there is no message, a sender only when there is no room.\<close>

definition queue_ok :: "'v message_queue \<Rightarrow> bool" where
  "queue_ok q = (q_open q \<and> length (stored q) \<le> limit q \<and> (takers q \<noteq> [] \<longrightarrow> queued q = []) \<and>
     (senders q \<noteq> [] \<longrightarrow> length (stored q) = limit q))"

lemma offer_order:
  assumes "queue_ok q" "offer v q = Some (q1, r)"
  shows "queue_ok q1 \<and> limit q1 = limit q \<and> queued q @ [v] = received_values (to_taker d v r) @ queued q1"
  using assms by (cases "takers q") (auto simp: offer_def queue_ok_def queued_def to_taker_def split: if_splits)

lemma offer_n_order:
  "queue_ok q \<Longrightarrow> offer_n d v n q = (k, q1, cs) \<Longrightarrow>
     queue_ok q1 \<and> limit q1 = limit q \<and> queued q @ replicate k v = received_values cs @ queued q1"
proof (induction n arbitrary: q k q1 cs)
  case (Suc n)
  show ?case
  proof (cases "offer v q")
    case None
    then show ?thesis using Suc.prems by simp
  next
    case (Some x)
    obtain q2 r where x: "x = (q2, r)" by fastforce
    obtain k2 cs2 where o: "offer_n d v n q2 = (k2, q1, cs2)" "k = Suc k2" "cs = to_taker d v r @ cs2"
      using Suc.prems(2) Some x by (auto simp: Let_def split: prod.splits)
    note a = offer_order [OF Suc.prems(1), of v q2 r d] and b = Suc.IH [of q2 k2 q1 cs2]
    have "queued q @ replicate k v = (queued q @ [v]) @ replicate k2 v" by (simp add: o(2))
    also have "\<dots> = received_values (to_taker d v r) @ queued q2 @ replicate k2 v" using a Some x by simp
    also have "\<dots> = received_values cs @ queued q1" using a b Some x o by simp
    finally show ?thesis using a b Some x o by simp
  qed
qed simp

lemma take_first_order:
  assumes "queue_ok q" "take_first q = Some (v, q1, cs)"
  shows "queue_ok q1 \<and> limit q1 = limit q \<and> queued q = v # queued q1 \<and> received_values cs = []"
proof -
  have t: "takers q = []" using assms by (auto simp: queue_ok_def queued_def take_first_def)
  show ?thesis
  proof (cases "stored q")
    case Nil
    then show ?thesis using assms t by (cases "senders q") (auto simp: queue_ok_def queued_def take_first_def)
  next
    case (Cons u us)
    show ?thesis
    proof (cases "senders q")
      case (Cons x xs)
      obtain i k w where x: "x = (i, k, w)" by (metis prod_cases3)
      have l: "limit q = Suc (length us)" using assms(1) Cons \<open>stored q = u # us\<close> by (simp add: queue_ok_def)
      have "take_first q = Some (u, q\<lparr>stored := us @ [w], senders := xs\<rparr>, [SendDone i PostOp])"
        using Cons x \<open>stored q = u # us\<close> by (simp add: take_first_def)
      then show ?thesis using assms t l Cons x \<open>stored q = u # us\<close> by (auto simp: queue_ok_def queued_def)
    qed (use assms t \<open>stored q = u # us\<close> in \<open>auto simp: queue_ok_def queued_def take_first_def\<close>)
  qed
qed

lemma take_first_None: "take_first q = None \<longleftrightarrow> queued q = []"
  by (auto simp: take_first_def queued_def split: list.splits)

lemma step_order:
  assumes "plain_call c" "queue_ok q"
  shows "\<exists>r q1 out. queue_step c q = Some (r, q1, out) \<and> queue_ok q1 \<and> limit q1 = limit q \<and>
    queued q @ sent_by c (r, out) = delivered (r, out) @ queued q1"
proof (cases c)
  case (TrySend d v)
  then show ?thesis using offer_order [OF assms(2), of v _ _ d] assms by (cases "offer v q") auto
next
  case (TrySendN n d v)
  obtain k q1 cs where "offer_n d v n q = (k, q1, cs)" by (metis prod_cases3)
  then show ?thesis using offer_n_order [OF assms(2)] TrySendN by auto
next
  case (AsyncSend i k v)
  show ?thesis
  proof (cases "offer v q")
    case None
    then have t: "takers q = []" "length (stored q) = limit q" using assms(2)
      by (auto simp: offer_def queue_ok_def split: list.splits if_splits)
    then show ?thesis using AsyncSend None assms(2) by (auto simp: queue_ok_def queued_def)
  next
    case (Some x)
    then show ?thesis using AsyncSend offer_order [OF assms(2), of v _ _ False] by (cases x) auto
  qed
next
  case TryReceive
  then show ?thesis using take_first_order [OF assms(2)] assms by (cases "take_first q") auto
next
  case (AsyncReceive i k)
  show ?thesis
  proof (cases "take_first q")
    case None
    then show ?thesis using AsyncReceive assms(2) take_first_None [of q] by (auto simp: queue_ok_def queued_def)
  next
    case (Some x)
    then show ?thesis using AsyncReceive take_first_order [OF assms(2)] by (cases x) auto
  qed
qed (use assms in simp_all)

lemma run_order:
  "list_all plain_call cs \<Longrightarrow> queue_ok q \<Longrightarrow>
     \<exists>rs q1. queue_run cs q = Some (rs, q1) \<and> queue_ok q1 \<and> limit q1 = limit q \<and> length rs = length cs \<and>
       queued q @ concat (map2 sent_by cs rs) = concat (List.map delivered rs) @ queued q1"
proof (induction cs arbitrary: q)
  case (Cons c cs)
  obtain r q1 out where s: "queue_step c q = Some (r, q1, out)" "queue_ok q1" "limit q1 = limit q"
    "queued q @ sent_by c (r, out) = delivered (r, out) @ queued q1"
    using step_order [of c q] Cons.prems by auto
  obtain rs q2 where t: "queue_run cs q1 = Some (rs, q2)" "queue_ok q2" "limit q2 = limit q1" "length rs = length cs"
    "queued q1 @ concat (map2 sent_by cs rs) = concat (List.map delivered rs) @ queued q2"
    using Cons.IH [of q1] Cons.prems s(2) by auto
  have "queued q @ sent_by c (r, out) @ concat (map2 sent_by cs rs) = delivered (r, out) @ concat (List.map delivered rs) @ queued q2"
    using s(4) t(5) by (metis append_assoc)
  then show ?case using s t by auto
qed simp

text \<open>C22: On a channel with the buffer of messages, every sequence of sends and receives (no call that cancels, closes or resets)
  returns; what has been delivered, then what is in the buffer, then what the waiting senders hold, are the messages sent, in
  their order. The buffer is within its size, a receiver waits only when there is no message and a sender only when the buffer
  is full.\<close>
theorem channel_keeps_order:
  assumes "list_all plain_call cs"
  shows "\<exists>rs ch. channel_run deque_buffer cs (construct deque_buffer n) = Some (rs, ch) \<and>
    concat (map2 sent_by cs rs) = concat (List.map delivered rs) @ channel_buffer ch @ List.map (\<lambda>(i, k, v). v) (senders_of (waiters ch)) \<and>
    length (channel_buffer ch) \<le> n \<and>
    (takers_of (waiters ch) = [] \<or> channel_buffer ch = [] \<and> senders_of (waiters ch) = []) \<and>
    (senders_of (waiters ch) = [] \<or> length (channel_buffer ch) = n)"
proof -
  have "queue_ok (new_message_queue n)" by (simp add: queue_ok_def new_message_queue_def queued_def)
  then obtain rs q where q: "queue_run cs (new_message_queue n) = Some (rs, q)" "queue_ok q" "limit q = n"
    "concat (map2 sent_by cs rs) = concat (List.map delivered rs) @ queued q"
    using run_order [OF assms, of "new_message_queue n"] by (auto simp: new_message_queue_def queued_def)
  obtain ch where "channel_run deque_buffer cs (construct deque_buffer n) = Some (rs, ch)" "queue_of (\<lambda>b. b) ch = q"
    using deque.channel_run_ok [OF q(1)] by blast
  then show ?thesis using q(2,3,4) by (auto simp: queue_ok_def queued_def queue_of_def)
qed

lemma channel_keeps_order_witness:
  "\<exists>rs ch. channel_run deque_buffer [AsyncReceive 1 0, TrySend False (5 :: nat), AsyncSend 2 0 7] (construct deque_buffer 0) = Some (rs, ch) \<and>
     concat (map2 sent_by [AsyncReceive 1 0, TrySend False 5, AsyncSend 2 0 7] rs) =
       concat (List.map delivered rs) @ channel_buffer ch @ List.map (\<lambda>(i, k, v). v) (senders_of (waiters ch))"
  using channel_keeps_order [of "[AsyncReceive 1 0, TrySend False 5, AsyncSend 2 0 7]" 0] by auto

section \<open>Defects\<close>

text \<open>A sender that waits at a channel without a buffer is lost when the channel is closed: \<open>close\<close> completes no operation, no
  call but \<open>cancel\<close>, \<open>reset\<close> or a cancellation by key completes the sender or receives its message, and \<open>cancel\<close> and \<open>reset\<close>
  (and so the destructor) use the sender as a receiver, which is undefined.\<close>
theorem closed_channel_loses_sender:
  "\<exists>ch. channel_run B [AsyncSend i k v, Close] (construct B 0) = Some ([(Started, []), (Started, [])], ch) \<and>
    waiters ch = [SendOp i k v] \<and> cancel ch = None \<and> reset B ch = None \<and> cancel_by_key k ch = None \<and>
    channel_step B TryReceive ch = Some (Received None, ch, []) \<and>
    channel_step B (AsyncReceive j l) ch = Some (Started, ch, [ReceiveDone j PostOp ReceiveClosed]) \<and>
    channel_step B (TrySend d w) ch = Some (Sent False, ch, []) \<and>
    channel_step B (TrySendN m d w) ch = Some (SentN 0, ch, []) \<and>
    channel_step B (AsyncSend j l w) ch = Some (Started, ch, [SendDone j CloseOp]) \<and>
    channel_step B Close ch = Some (Started, ch, [])"
proof -
  let ?ch = "\<lparr>receive_state = StClosed, send_state = StClosed, max_buffer_size = 0, waiters = [SendOp i k v],
    channel_buffer = buffer_new B\<rparr>"
  have "channel_run B [AsyncSend i k v, Close] (construct B 0) = Some ([(Started, []), (Started, [])], ?ch)"
    by (simp add: construct_def start_send_op_def close_def no_result_def)
  moreover have "cancel ?ch = None" "reset B ?ch = None" "cancel_by_key k ?ch = None"
    by (simp_all add: cancel_def reset_def cancel_by_key_def)
  ultimately show ?thesis
    by (intro exI [of _ ?ch] conjI) (simp_all add: no_result_def close_def try_receive_def start_send_op_def start_receive_op_def
        try_send_def try_send_n_def)
qed

text \<open>A reset channel of error codes still has the code that was in its buffer: the next receiver gets it instead of the
  code sent after the reset. With the buffer of another signature the new message is received.\<close>
theorem reset_keeps_error_code:
  assumes "0 < n" "e \<noteq> f"
  shows "map_option (last \<circ> fst) (channel_run error_buffer [TrySend d e, Reset, TrySend d f, TryReceive] (construct error_buffer n)) =
      Some (Received (Some e), []) \<and>
    map_option (last \<circ> fst) (channel_run deque_buffer [TrySend d e, Reset, TrySend d f, TryReceive] (construct deque_buffer n)) =
      Some (Received (Some f), [])"
  using assms
  by (auto simp: construct_def try_send_def push_value_def reset_def cancel_def nothing_waits_def empty_state_def no_result_def
      try_receive_def take_buffered_def error_buffer_def deque_buffer_def error_push_def error_clear_def error_front_def error_pop_def
      last_value_def set_last_def Let_def)

lemma reset_keeps_error_code_witness:
  "map_option (last \<circ> fst) (channel_run error_buffer [TrySend False 7, Reset, TrySend False 9, TryReceive] (construct error_buffer 4)) =
      Some (Received (Some 7), [])"
proof -
  have "(0 :: nat) < 4" "(7 :: error_code) \<noteq> 9" by simp_all
  from reset_keeps_error_code [OF this, of False] show ?thesis by (rule conjunct1)
qed

text \<open>A channel that was moved from keeps its limit, and is not as one that is constructed by default; a waiting receiver stays
  with it, while the new channel is in the state of one whose receiver waits, where sending is undefined.\<close>

lemma moved_from_keeps_limit:
  "clearable_interface B contents ok \<Longrightarrow> max_buffer_size (snd (move_construct B (construct B n))) = n"
  by (simp add: move_construct_def move_fields_def buffer_move_from_def construct_def)

lemma move_loses_receiver:
  "\<exists>ch. channel_run B [AsyncReceive i k] (construct B n) = Some ([(Started, [])], ch) \<and>
     waiters (fst (move_construct B ch)) = [] \<and> waiters (snd (move_construct B ch)) = [ReceiveOp i k] \<and>
     try_send B d v (fst (move_construct B ch)) = None"
  by (simp add: construct_def start_receive_op_def no_result_def move_construct_def move_fields_def buffer_move_from_def base_channel_def
      try_send_def)

text \<open>Without waiting operations the messages go to the new channel and none stays.\<close>

lemma move_takes_messages:
  assumes "channel_ok (\<lambda>b. b) (\<lambda>_. True) ch" "waiters ch = []"
  shows "queue_of (\<lambda>b. b) (fst (move_construct deque_buffer ch)) = queue_of (\<lambda>b. b) ch \<and>
    queue_of (\<lambda>b. b) (snd (move_construct deque_buffer ch)) = new_message_queue (max_buffer_size ch)"
  using assms
  by (auto simp: move_construct_def move_fields_def buffer_move_from_def base_channel_def queue_of_def new_message_queue_def
      deque_buffer_def empty_state_def)

end
