(* ===== verification/AsioHashMap.thy ===== *)
theory AsioHashMap
  imports Prelude "HOL-Library.Word" "HOL-Library.Multiset"
begin

text \<open>
  Asio's hash map (\<open>detail/hash_map.hpp\<close>): one list of all entries, in which the entries of a bucket stand together, and an
  array of buckets with iterators to their first and last entry. Nodes of the list that are erased are kept and used
  again. It is refined to a map. A node has a name; an iterator is a node or the end.
\<close>

section \<open>The map\<close>

definition hash_of_int :: "int \<Rightarrow> nat" where
  "hash_of_int i = nat (i mod 2 ^ 64)"

definition hash_of_pointer :: "64 word \<Rightarrow> nat" where
  "hash_of_pointer p = unat (p + drop_bit 3 p)"

text \<open>How a value is copied and assigned: for a queue of operations the copy constructor makes an empty queue, and the
  assignment does nothing.\<close>

record 'v value_class =
  copy_value :: "'v \<Rightarrow> 'v"
  assign_value :: "'v \<Rightarrow> 'v \<Rightarrow> 'v"
  default_value :: 'v

datatype iterator = Node nat | End

type_synonym ('k, 'v) node = "nat \<times> 'k \<times> 'v"

record ('k, 'v) hash_map =
  map_size :: nat
  map_values :: "('k, 'v) node list"
  spares :: "(nat \<times> 'v) list"
  buckets :: "(iterator \<times> iterator) list"
  next_node :: nat

definition new_hash_map :: "('k, 'v) hash_map" where
  "new_hash_map = \<lparr>map_size = 0, map_values = [], spares = [], buckets = [], next_node = 0\<rparr>"

definition begin_of :: "('k, 'v) node list \<Rightarrow> iterator" where
  "begin_of xs = (case xs of [] \<Rightarrow> End | x # _ \<Rightarrow> Node (fst x))"

text \<open>\<open>++\<close> and \<open>--\<close> of an iterator, insertion before one.\<close>

fun iter_next :: "iterator \<Rightarrow> ('k, 'v) node list \<Rightarrow> iterator" where
  "iter_next it [] = End"
| "iter_next it (x # xs) = (if it = Node (fst x) then begin_of xs else iter_next it xs)"

fun iter_prev :: "iterator \<Rightarrow> iterator \<Rightarrow> ('k, 'v) node list \<Rightarrow> iterator" where
  "iter_prev p it [] = p"
| "iter_prev p it (x # xs) = (if it = Node (fst x) then p else iter_prev (Node (fst x)) it xs)"

fun insert_before :: "iterator \<Rightarrow> ('k, 'v) node \<Rightarrow> ('k, 'v) node list \<Rightarrow> ('k, 'v) node list" where
  "insert_before it y [] = [y]"
| "insert_before it y (x # xs) = (if it = Node (fst x) then y # x # xs else x # insert_before it y xs)"

definition remove_node :: "nat \<Rightarrow> ('k, 'v) node list \<Rightarrow> ('k, 'v) node list" where
  "remove_node i xs = filter (\<lambda>x. fst x \<noteq> i) xs"

definition entry_at :: "iterator \<Rightarrow> ('k, 'v) node list \<Rightarrow> ('k \<times> 'v) option" where
  "entry_at it xs = (case it of End \<Rightarrow> None | Node i \<Rightarrow> map_of xs i)"

definition is_empty :: "('k, 'v) hash_map \<Rightarrow> bool" where
  "is_empty m = (map_values m = [])"

text \<open>The loop from \<open>it\<close> to \<open>end_it\<close>, at the entries from \<open>it\<close> on.\<close>

fun scan :: "'k \<Rightarrow> iterator \<Rightarrow> ('k, 'v) node list \<Rightarrow> iterator" where
  "scan k end_it [] = End"
| "scan k end_it (x # xs) = (if Node (fst x) = end_it then End else if fst (snd x) = k then Node (fst x) else scan k end_it xs)"

definition entries_from :: "iterator \<Rightarrow> ('k, 'v) node list \<Rightarrow> ('k, 'v) node list" where
  "entries_from it xs = dropWhile (\<lambda>x. Node (fst x) \<noteq> it) xs"

definition bucket_of :: "('k \<Rightarrow> nat) \<Rightarrow> 'k \<Rightarrow> ('k, 'v) hash_map \<Rightarrow> nat" where
  "bucket_of h k m = h k mod length (buckets m)"

definition find_entry :: "('k \<Rightarrow> nat) \<Rightarrow> 'k \<Rightarrow> ('k, 'v) hash_map \<Rightarrow> iterator" where
  "find_entry h k m = (if length (buckets m) \<noteq> 0 then
     (let (first, last) = buckets m ! bucket_of h k m in
      if first = End then End else scan k (iter_next last (map_values m)) (entries_from first (map_values m)))
   else End)"

definition hash_sizes :: "nat list" where
  "hash_sizes = [3, 13, 23, 53, 97, 193, 389, 769, 1543, 3079, 6151, 12289, 24593,
     49157, 98317, 196613, 393241, 786433, 1572869, 3145739, 6291469, 12582917, 25165843]"

definition hash_size :: "nat \<Rightarrow> nat" where
  "hash_size n = (case find (\<lambda>s. n < s) (butlast hash_sizes) of Some s \<Rightarrow> s | None \<Rightarrow> last hash_sizes)"

text \<open>The loop of \<open>rehash\<close> at the entries from \<open>iter\<close> on, which a splice does not change: it moves the entry at \<open>iter\<close> to a
  place before.\<close>

fun rehash_loop :: "('k \<Rightarrow> nat) \<Rightarrow> ('k, 'v) node list \<Rightarrow> ('k, 'v) node list \<Rightarrow> (iterator \<times> iterator) list \<Rightarrow>
    ('k, 'v) node list \<times> (iterator \<times> iterator) list" where
  "rehash_loop h [] xs bs = (xs, bs)"
| "rehash_loop h (x # rest) xs bs =
     (let b = h (fst (snd x)) mod length bs; iter = Node (fst x) in
      if snd (bs ! b) = End then rehash_loop h rest xs (bs[b := (iter, iter)])
      else
        (let l = iter_next (snd (bs ! b)) xs in
         if l = iter then rehash_loop h rest xs (bs[b := (fst (bs ! b), l)])
         else
           (let ys = insert_before l x (remove_node (fst x) xs)
            in rehash_loop h rest ys (bs[b := (fst (bs ! b), iter_prev End l ys)]))))"

definition rehash :: "('k \<Rightarrow> nat) \<Rightarrow> nat \<Rightarrow> ('k, 'v) hash_map \<Rightarrow> ('k, 'v) hash_map" where
  "rehash h n m = (if n = length (buckets m) then m
     else (let (xs, bs) = rehash_loop h (map_values m) (map_values m) (replicate n (End, End))
           in m\<lparr>map_values := xs, buckets := bs\<rparr>))"

text \<open>A node from the spares is assigned, a new one is copied; the iterator is that before \<open>it\<close>.\<close>

definition values_insert :: "'v value_class \<Rightarrow> iterator \<Rightarrow> 'k \<times> 'v \<Rightarrow> ('k, 'v) hash_map \<Rightarrow> iterator \<times> ('k, 'v) hash_map" where
  "values_insert C it v m = (case spares m of
     [] \<Rightarrow> (Node (next_node m), m\<lparr>map_values := insert_before it (next_node m, fst v, copy_value C (snd v)) (map_values m),
              next_node := next_node m + 1\<rparr>)
   | (i, s) # ss \<Rightarrow>
       (let ys = insert_before it (i, fst v, assign_value C s (snd v)) (map_values m)
        in (iter_prev End it ys, m\<lparr>map_values := ys, spares := ss\<rparr>)))"

definition values_erase :: "'v value_class \<Rightarrow> iterator \<Rightarrow> ('k, 'v) hash_map \<Rightarrow> ('k, 'v) hash_map" where
  "values_erase C it m = (case it of End \<Rightarrow> m
     | Node i \<Rightarrow> (case map_of (map_values m) i of None \<Rightarrow> m
         | Some (k, w) \<Rightarrow> m\<lparr>map_values := remove_node i (map_values m), spares := (i, assign_value C w (default_value C)) # spares m\<rparr>))"

definition insert_entry :: "('k \<Rightarrow> nat) \<Rightarrow> 'v value_class \<Rightarrow> 'k \<times> 'v \<Rightarrow> ('k, 'v) hash_map \<Rightarrow> (iterator \<times> bool) \<times> ('k, 'v) hash_map" where
  "insert_entry h C v m0 =
     (let m = (if map_size m0 + 1 \<ge> length (buckets m0) then rehash h (hash_size (map_size m0 + 1)) m0 else m0);
          b = bucket_of h (fst v) m; (first, last) = buckets m ! b in
      if first = End then
        (let (it, m1) = values_insert C End v m
         in ((it, True), m1\<lparr>buckets := (buckets m1)[b := (it, it)], map_size := map_size m1 + 1\<rparr>))
      else
        (let end_it = iter_next last (map_values m);
             found = scan (fst v) end_it (entries_from first (map_values m)) in
         if found \<noteq> End then ((found, False), m)
         else (let (it, m1) = values_insert C end_it v m
               in ((it, True), m1\<lparr>buckets := (buckets m1)[b := (first, it)], map_size := map_size m1 + 1\<rparr>))))"

definition erase_entry :: "('k \<Rightarrow> nat) \<Rightarrow> 'v value_class \<Rightarrow> iterator \<Rightarrow> ('k, 'v) hash_map \<Rightarrow> ('k, 'v) hash_map" where
  "erase_entry h C it m = (case entry_at it (map_values m) of None \<Rightarrow> m
     | Some (k, w) \<Rightarrow>
         (let b = bucket_of h k m; (first, last) = buckets m ! b; is_first = (it = first); is_last = (it = last);
              new = (if is_first \<and> is_last then (End, End)
                     else if is_first then (iter_next first (map_values m), last)
                     else if is_last then (first, iter_prev End last (map_values m))
                     else (first, last));
              m1 = values_erase C it (m\<lparr>buckets := (buckets m)[b := new]\<rparr>)
          in m1\<lparr>map_size := map_size m1 - 1\<rparr>))"

definition erase_key :: "('k \<Rightarrow> nat) \<Rightarrow> 'v value_class \<Rightarrow> 'k \<Rightarrow> ('k, 'v) hash_map \<Rightarrow> ('k, 'v) hash_map" where
  "erase_key h C k m = (let it = find_entry h k m in if it \<noteq> End then erase_entry h C it m else m)"

definition clear_map :: "('k, 'v) hash_map \<Rightarrow> ('k, 'v) hash_map" where
  "clear_map m = m\<lparr>map_values := [], map_size := 0, buckets := replicate (length (buckets m)) (End, End)\<rparr>"

text \<open>What the users of the map do to a value through an iterator.\<close>

definition modify_value :: "iterator \<Rightarrow> ('v \<Rightarrow> 'v) \<Rightarrow> ('k, 'v) hash_map \<Rightarrow> ('k, 'v) hash_map" where
  "modify_value it f m = m\<lparr>map_values := List.map (\<lambda>(i, k, w). (i, k, if it = Node i then f w else w)) (map_values m)\<rparr>"

section \<open>Iterators\<close>

lemma begin_of_simps [simp]: "begin_of [] = End" "begin_of (x # xs) = Node (fst x)"
  by (simp_all add: begin_of_def)

lemma begin_of_End [simp]: "begin_of xs = End \<longleftrightarrow> xs = []"
  by (cases xs) simp_all

definition ids :: "('k, 'v) node list \<Rightarrow> nat list" where
  "ids xs = List.map fst xs"

lemma ids_simps [simp]:
  "ids [] = []" "ids (x # xs) = fst x # ids xs" "ids (xs @ ys) = ids xs @ ids ys" "ids (List.map f zs) = List.map (fst \<circ> f) zs"
  by (simp_all add: ids_def)

lemma begin_of_in: "begin_of xs = Node i \<Longrightarrow> i \<in> set (ids xs)"
  by (cases xs) auto

lemma iter_next_mid:
  "distinct (ids (xs @ y # zs)) \<Longrightarrow> iter_next (Node (fst y)) (xs @ y # zs) = begin_of zs"
  by (induction xs) auto

lemma iter_prev_mid:
  "distinct (ids (xs @ y # zs)) \<Longrightarrow> iter_prev p (begin_of zs) (xs @ y # zs) = Node (fst y)"
proof (induction xs arbitrary: p)
  case Nil
  then show ?case by (cases zs) auto
next
  case (Cons x xs)
  then have "begin_of zs \<noteq> Node (fst x)" using begin_of_in [of zs "fst x"] by auto
  then show ?case using Cons by simp
qed

lemma insert_before_mid:
  "distinct (ids (xs @ zs)) \<Longrightarrow> insert_before (begin_of zs) y (xs @ zs) = xs @ y # zs"
proof (induction xs)
  case Nil
  then show ?case by (cases zs) auto
next
  case (Cons x xs)
  then have "begin_of zs \<noteq> Node (fst x)" using begin_of_in [of zs "fst x"] by auto
  then show ?case using Cons by simp
qed

lemma remove_node_mid:
  "distinct (ids (xs @ y # zs)) \<Longrightarrow> remove_node (fst y) (xs @ y # zs) = xs @ zs"
proof -
  assume d: "distinct (ids (xs @ y # zs))"
  have "filter (\<lambda>x. fst x \<noteq> fst y) ws = ws" if "fst y \<notin> set (ids ws)" for ws :: "('a, 'b) node list"
    using that by (force simp: filter_id_conv ids_def image_iff)
  then show ?thesis using d by (simp add: remove_node_def)
qed

lemma entries_from_mid: "distinct (ids (xs @ y # zs)) \<Longrightarrow> entries_from (Node (fst y)) (xs @ y # zs) = y # zs"
  by (induction xs) (auto simp: entries_from_def)

lemma map_of_mid: "distinct (ids (xs @ y # zs)) \<Longrightarrow> map_of (xs @ y # zs) (fst y) = Some (snd y)"
  by (induction xs) auto

text \<open>The loop over the entries \<open>s\<close> of a bucket, in front of the others.\<close>

lemma scan_bucket:
  "distinct (ids (s @ zs)) \<Longrightarrow> scan k (begin_of zs) (s @ zs) =
     (case find (\<lambda>x. fst (snd x) = k) s of None \<Rightarrow> End | Some x \<Rightarrow> Node (fst x))"
proof (induction s)
  case Nil
  then show ?case by (cases zs) auto
next
  case (Cons x s)
  then have "begin_of zs \<noteq> Node (fst x)" using begin_of_in [of zs "fst x"] by auto
  then show ?case using Cons by auto
qed

section \<open>Buckets\<close>

text \<open>The entries as runs, one for each bucket that has entries: a bucket and its entries.\<close>

type_synonym ('k, 'v) runs = "(nat \<times> ('k, 'v) node list) list"

definition flat :: "('k, 'v) runs \<Rightarrow> ('k, 'v) node list" where
  "flat rs = concat (List.map snd rs)"

lemma flat_simps [simp]: "flat [] = []" "flat (r # rs) = snd r @ flat rs" "flat (rs @ qs) = flat rs @ flat qs"
  by (simp_all add: flat_def)

fun ends_of :: "('k, 'v) node list option \<Rightarrow> iterator \<times> iterator" where
  "ends_of None = (End, End)"
| "ends_of (Some s) = (begin_of s, Node (fst (last s)))"

definition bucket_array :: "nat \<Rightarrow> ('k, 'v) runs \<Rightarrow> (iterator \<times> iterator) list" where
  "bucket_array n rs = List.map (\<lambda>b. ends_of (map_of rs b)) [0..<n]"

definition runs_ok :: "('k \<Rightarrow> nat) \<Rightarrow> nat \<Rightarrow> ('k, 'v) runs \<Rightarrow> bool" where
  "runs_ok h n rs = (distinct (List.map fst rs) \<and>
     list_all (\<lambda>(b, s). s \<noteq> [] \<and> list_all (\<lambda>x. h (fst (snd x)) mod n = b) s) rs)"

lemma length_bucket_array [simp]: "length (bucket_array n rs) = n"
  by (simp add: bucket_array_def)

lemma nth_bucket_array [simp]: "b < n \<Longrightarrow> bucket_array n rs ! b = ends_of (map_of rs b)"
  by (simp add: bucket_array_def)

lemma bucket_array_upd:
  assumes "b < n" "map_of qs b = Some s" "\<And>c. c \<noteq> b \<Longrightarrow> map_of qs c = map_of rs c"
  shows "(bucket_array n rs)[b := (begin_of s, Node (fst (last s)))] = bucket_array n qs"
  by (rule nth_equalityI) (use assms in \<open>auto simp: nth_list_update\<close>)

lemma runs_split:
  assumes "map_of rs b = Some s"
  obtains as cs where "rs = as @ (b, s) # cs"
  using assms by (meson map_of_SomeD split_list)

lemma map_of_runs_mid:
  assumes "distinct (List.map fst (as @ (b, s) # cs))"
  shows "map_of (as @ (b, t) # cs) b = Some t" "c \<noteq> b \<Longrightarrow> map_of (as @ (b, t) # cs) c = map_of (as @ (b, s) # cs) c"
proof -
  have "b \<notin> fst ` set as" using assms by auto
  then have "map_of as b = None" by (simp add: map_of_eq_None_iff)
  then show "map_of (as @ (b, t) # cs) b = Some t" by (simp add: map_add_def)
  show "map_of (as @ (b, t) # cs) c = map_of (as @ (b, s) # cs) c" if "c \<noteq> b"
    using that by (cases "map_of as c") (simp_all add: map_add_def)
qed

lemma runs_ok_append [simp]:
  "runs_ok h n (as @ cs) \<longleftrightarrow> runs_ok h n as \<and> runs_ok h n cs \<and> set (List.map fst as) \<inter> set (List.map fst cs) = {}"
  by (auto simp: runs_ok_def)

lemma runs_ok_Cons [simp]:
  "runs_ok h n ((b, s) # cs) \<longleftrightarrow> s \<noteq> [] \<and> list_all (\<lambda>x. h (fst (snd x)) mod n = b) s \<and> b \<notin> fst ` set cs \<and> runs_ok h n cs"
  by (auto simp: runs_ok_def)

lemma flat_Nil: "runs_ok h n rs \<Longrightarrow> flat rs = [] \<longleftrightarrow> rs = []"
  by (cases rs) auto

text \<open>An entry is put at the end of its bucket's run, or becomes a run at the end.\<close>

definition add_run :: "nat \<Rightarrow> ('k, 'v) node \<Rightarrow> ('k, 'v) runs \<Rightarrow> ('k, 'v) runs" where
  "add_run b x rs = (if map_of rs b = None then rs @ [(b, [x])] else List.map (\<lambda>(c, s). if c = b then (c, s @ [x]) else (c, s)) rs)"

lemma add_run_mid:
  assumes "runs_ok h n (as @ (b, s) # cs)"
  shows "add_run b x (as @ (b, s) # cs) = as @ (b, s @ [x]) # cs"
proof -
  have other: "List.map (\<lambda>(c, s). if c = b then (c, s @ [x]) else (c, s)) rs = rs" if "b \<notin> fst ` set rs" for rs :: "('a, 'b) runs"
    using that by (induction rs) auto
  have "b \<notin> fst ` set as" "b \<notin> fst ` set cs" using assms by auto
  moreover have "map_of (as @ (b, s) # cs) b = Some s" using map_of_runs_mid(1) [of as b s cs s] assms by (simp add: runs_ok_def)
  ultimately show ?thesis unfolding add_run_def by (simp add: other)
qed

lemma add_run_new: "map_of rs b = None \<Longrightarrow> add_run b x rs = rs @ [(b, [x])]"
  by (simp add: add_run_def)

lemma add_run_ok:
  assumes "runs_ok h n rs" "h (fst (snd x)) mod n = b"
  shows "runs_ok h n (add_run b x rs) \<and> mset (flat (add_run b x rs)) = mset (flat rs) + {#x#}"
proof (cases "map_of rs b")
  case None
  then show ?thesis using assms by (auto simp: add_run_new map_of_eq_None_iff runs_ok_def)
next
  case (Some s)
  then obtain as cs where rs: "rs = as @ (b, s) # cs" using runs_split by metis
  show ?thesis using assms add_run_mid [OF assms(1) [unfolded rs], of x] unfolding rs by auto
qed

lemma add_run_buckets:
  assumes "runs_ok h n rs" "b < n"
  shows "bucket_array n (add_run b x rs) = (bucket_array n rs)[b := (if map_of rs b = None then Node (fst x) else fst (bucket_array n rs ! b), Node (fst x))]"
proof (cases "map_of rs b")
  case None
  have "map_of (rs @ [(b, [x])]) c = (if c = b then Some [x] else map_of rs c)" for c
    using None by (auto simp: map_add_def split: option.splits)
  then have "(bucket_array n rs)[b := (begin_of [x], Node (fst (last [x])))] = bucket_array n (rs @ [(b, [x])])"
    by (intro bucket_array_upd assms(2)) simp_all
  then show ?thesis using None by (simp add: add_run_new)
next
  case (Some s)
  then obtain as cs where rs: "rs = as @ (b, s) # cs" using runs_split by metis
  have s: "s \<noteq> []" using assms(1) rs by simp
  have d: "distinct (List.map fst (as @ (b, s) # cs))" using assms(1) rs by (simp add: runs_ok_def)
  have "(bucket_array n rs)[b := (begin_of (s @ [x]), Node (fst (last (s @ [x]))))] = bucket_array n (as @ (b, s @ [x]) # cs)"
  proof (rule bucket_array_upd [OF assms(2)])
    show "map_of (as @ (b, s @ [x]) # cs) b = Some (s @ [x])" by (rule map_of_runs_mid(1) [OF d])
    show "map_of (as @ (b, s @ [x]) # cs) c = map_of rs c" if "c \<noteq> b" for c
      unfolding rs by (rule map_of_runs_mid(2) [OF d that])
  qed
  moreover have "begin_of (s @ [x]) = begin_of s" using s by (cases s) simp_all
  moreover have "add_run b x rs = as @ (b, s @ [x]) # cs" using add_run_mid [OF assms(1) [unfolded rs], of x] by (simp only: rs)
  moreover have "fst (bucket_array n rs ! b) = begin_of s" using Some assms(2) by simp
  ultimately show ?thesis using Some by simp
qed

lemma map_of_bucket: "runs_ok h n rs \<Longrightarrow> map_of rs b = Some s \<Longrightarrow> s \<noteq> []"
  by (auto simp: runs_ok_def list_all_iff dest: map_of_SomeD)

text \<open>The place after a bucket's last entry.\<close>

lemma after_last:
  assumes "distinct (ids (flat as @ s @ zs))" "s \<noteq> []"
  shows "iter_next (Node (fst (last s))) (flat as @ s @ zs) = begin_of zs"
proof -
  obtain t y where "s = t @ [y]" using assms(2) by (cases s rule: rev_cases) simp_all
  then show ?thesis using iter_next_mid [of "flat as @ t" y zs] assms by simp
qed

text \<open>One turn of \<open>rehash\<close>.\<close>

lemma rehash_step:
  assumes "runs_ok h n rs" "distinct (ids (flat rs @ x # rest))" "b = h (fst (snd x)) mod n" "0 < n"
  shows "rehash_loop h (x # rest) (flat rs @ x # rest) (bucket_array n rs) =
    rehash_loop h rest (flat (add_run b x rs) @ rest) (bucket_array n (add_run b x rs))"
proof -
  have b: "b < n" using assms(3,4) by simp
  note add = add_run_buckets [OF assms(1) b, of x]
  show ?thesis
  proof (cases "map_of rs b")
    case None
    then show ?thesis using b add assms(3) by (simp add: add_run_new Let_def)
  next
    case (Some s)
    then obtain as cs where rs: "rs = as @ (b, s) # cs" using runs_split by metis
    have s: "s \<noteq> []" using assms(1) rs by simp
    have e: "flat rs @ x # rest = flat as @ s @ flat cs @ x # rest" by (simp add: rs)
    have bucket: "bucket_array n rs ! b = (begin_of s, Node (fst (last s)))" using Some b by simp
    have l: "iter_next (Node (fst (last s))) (flat rs @ x # rest) = begin_of (flat cs @ x # rest)"
      unfolding e by (rule after_last) (use assms(2) s e in simp_all)
    have flat: "flat (add_run b x rs) = flat as @ s @ x # flat cs" using add_run_mid [OF assms(1) [unfolded rs], of x] rs by simp
    show ?thesis
    proof (cases "cs = []")
      case True
      then show ?thesis using bucket l add flat assms(3) Some by (simp add: Let_def rs)
    next
      case False
      have c: "flat cs \<noteq> []" using flat_Nil [of h n cs] assms(1) rs False by simp
      then have l': "begin_of (flat cs @ x # rest) = begin_of (flat cs @ rest)" by (cases "flat cs") simp_all
      have "begin_of (flat cs @ rest) \<noteq> Node (fst x)"
        using begin_of_in [of "flat cs" "fst x"] c assms(2) rs by (cases "flat cs") auto
      moreover have rem: "remove_node (fst x) (flat rs @ x # rest) = (flat as @ s) @ flat cs @ rest"
        using remove_node_mid [OF assms(2)] by (simp add: rs)
      moreover have ins: "insert_before (begin_of (flat cs @ rest)) x ((flat as @ s) @ flat cs @ rest) = (flat as @ s) @ x # flat cs @ rest"
        by (rule insert_before_mid) (use assms(2) rs in auto)
      moreover have "iter_prev End (begin_of (flat cs @ rest)) ((flat as @ s) @ x # flat cs @ rest) = Node (fst x)"
        by (rule iter_prev_mid) (use assms(2) rs in auto)
      ultimately show ?thesis using bucket l l' add flat assms(3) Some by (simp add: Let_def)
    qed
  qed
qed

lemma rehash_loop_ok:
  "runs_ok h n rs \<Longrightarrow> 0 < n \<Longrightarrow> distinct (ids (flat rs @ rest)) \<Longrightarrow>
     \<exists>qs. rehash_loop h rest (flat rs @ rest) (bucket_array n rs) = (flat qs, bucket_array n qs) \<and> runs_ok h n qs \<and>
       mset (flat qs) = mset (flat rs @ rest)"
proof (induction rest arbitrary: rs)
  case (Cons x rest)
  let ?b = "h (fst (snd x)) mod n"
  note a = add_run_ok [OF Cons.prems(1) refl, of x]
  have m: "mset (flat (add_run ?b x rs) @ rest) = mset (flat rs @ x # rest)" using a by simp
  then have "mset (ids (flat (add_run ?b x rs) @ rest)) = mset (ids (flat rs @ x # rest))" unfolding ids_def by (metis mset_map)
  then have "distinct (ids (flat (add_run ?b x rs) @ rest))" using Cons.prems(3) by (metis mset_eq_imp_distinct_iff)
  then show ?case
    using Cons.IH [of "add_run ?b x rs"] a m Cons.prems(2) rehash_step [OF Cons.prems(1,3) refl Cons.prems(2)] by simp
qed auto

section \<open>The invariant\<close>

definition entries :: "('k, 'v) hash_map \<Rightarrow> 'k \<rightharpoonup> 'v" where
  "entries m = map_of (List.map snd (map_values m))"

text \<open>The nodes are different, those in use and the spares, and no new one has their names.\<close>

definition nodes_ok :: "('v \<Rightarrow> bool) \<Rightarrow> ('k, 'v) hash_map \<Rightarrow> bool" where
  "nodes_ok ok m = (distinct (ids (map_values m) @ List.map fst (spares m)) \<and>
     list_all (\<lambda>i. i < next_node m) (ids (map_values m) @ List.map fst (spares m)) \<and> list_all (\<lambda>s. ok (snd s)) (spares m))"

definition in_buckets :: "('k \<Rightarrow> nat) \<Rightarrow> ('k, 'v) hash_map \<Rightarrow> ('k, 'v) runs \<Rightarrow> bool" where
  "in_buckets h m rs = (map_values m = flat rs \<and> runs_ok h (length (buckets m)) rs \<and>
     buckets m = bucket_array (length (buckets m)) rs \<and> (rs \<noteq> [] \<longrightarrow> 0 < length (buckets m)))"

definition keys_ok :: "('k, 'v) hash_map \<Rightarrow> bool" where
  "keys_ok m = (distinct (List.map (\<lambda>x. fst (snd x)) (map_values m)) \<and> map_size m = length (map_values m))"

definition hash_map_ok :: "('k \<Rightarrow> nat) \<Rightarrow> ('v \<Rightarrow> bool) \<Rightarrow> ('k, 'v) hash_map \<Rightarrow> bool" where
  "hash_map_ok h ok m = (nodes_ok ok m \<and> (\<exists>rs. in_buckets h m rs) \<and> keys_ok m)"

lemma new_hash_map_ok: "hash_map_ok h ok new_hash_map \<and> entries new_hash_map = Map.empty"
  by (auto simp: hash_map_ok_def new_hash_map_def nodes_ok_def in_buckets_def keys_ok_def entries_def runs_ok_def bucket_array_def
      intro: exI [of _ "[]"])

lemma find_append: "find P (xs @ ys) = (case find P xs of None \<Rightarrow> find P ys | Some x \<Rightarrow> Some x)"
  by (induction xs) auto

lemma find_other: "list_all (\<lambda>x. h (fst (snd x)) mod n = b) s \<Longrightarrow> h k mod n \<noteq> b \<Longrightarrow> find (\<lambda>x. fst (snd x) = k) s = None"
  by (auto simp: find_None_iff list_all_iff)

lemma runs_find:
  "runs_ok h n rs \<Longrightarrow> find (\<lambda>x. fst (snd x) = k) (flat rs) =
     (case map_of rs (h k mod n) of None \<Rightarrow> None | Some s \<Rightarrow> find (\<lambda>x. fst (snd x) = k) s)"
proof (induction rs)
  case (Cons r rs)
  obtain b s where r: "r = (b, s)" by fastforce
  show ?case
  proof (cases "h k mod n = b")
    case True
    then have "map_of rs (h k mod n) = None" using Cons.prems r by (simp add: map_of_eq_None_iff)
    then have "find (\<lambda>x. fst (snd x) = k) (flat rs) = None" using Cons r by simp
    then show ?thesis using r True by (simp add: find_append split: option.splits)
  next
    case False
    then show ?thesis using Cons r find_other [of h n b s k] by (auto simp: find_append)
  qed
qed simp

lemma map_of_find: "map_of (List.map snd xs) k = map_option (\<lambda>x. snd (snd x)) (find (\<lambda>x. fst (snd x) = k) xs)"
  by (induction xs) auto

lemma entries_find: "entries m k = map_option (\<lambda>x. snd (snd x)) (find (\<lambda>x. fst (snd x) = k) (map_values m))"
  by (simp add: entries_def map_of_find)

text \<open>The loop over a key's bucket.\<close>

lemma bucket_scan:
  assumes "in_buckets h m rs" "distinct (ids (map_values m))" "0 < length (buckets m)"
    "map_of rs (bucket_of h k m) = Some s" "buckets m ! bucket_of h k m = (f, l)"
  obtains as cs where "rs = as @ (bucket_of h k m, s) # cs" "f \<noteq> End" "s \<noteq> []" "f = begin_of s" "l = Node (fst (last s))"
    "iter_next l (map_values m) = begin_of (flat cs)"
    "scan k (iter_next l (map_values m)) (entries_from f (map_values m)) =
       (case find (\<lambda>x. fst (snd x) = k) (map_values m) of None \<Rightarrow> End | Some x \<Rightarrow> Node (fst x))"
proof -
  let ?b = "bucket_of h k m" and ?n = "length (buckets m)"
  have i: "map_values m = flat rs" "runs_ok h ?n rs" "buckets m = bucket_array ?n rs" using assms(1) by (simp_all add: in_buckets_def)
  have b: "?b < ?n" using assms(3) by (simp add: bucket_of_def)
  obtain as cs where rs: "rs = as @ (?b, s) # cs" using runs_split [OF assms(4)] by metis
  have s: "s \<noteq> []" using map_of_bucket [OF i(2) assms(4)] .
  have "buckets m ! ?b = (begin_of s, Node (fst (last s)))" using assms(4) b i(3) by (metis ends_of.simps(2) nth_bucket_array)
  then have fl: "f = begin_of s" "l = Node (fst (last s))" using assms(5) by simp_all
  have v: "map_values m = flat as @ s @ flat cs" using i(1) rs by simp
  have next_it: "iter_next l (map_values m) = begin_of (flat cs)"
    unfolding v fl by (rule after_last) (use assms(2) v s in simp_all)
  obtain y t where y: "s = y # t" using s by (cases s) simp_all
  have "entries_from f (map_values m) = s @ flat cs"
    using entries_from_mid [of "flat as" y "t @ flat cs"] assms(2) v y fl by simp
  moreover have "find (\<lambda>x. fst (snd x) = k) (map_values m) = find (\<lambda>x. fst (snd x) = k) s"
    using runs_find [OF i(2), of k] assms(4) i(1) by (simp add: bucket_of_def)
  moreover have "distinct (ids (s @ flat cs))" using assms(2) v by simp
  ultimately have "scan k (iter_next l (map_values m)) (entries_from f (map_values m)) =
       (case find (\<lambda>x. fst (snd x) = k) (map_values m) of None \<Rightarrow> End | Some x \<Rightarrow> Node (fst x))"
    using next_it by (simp add: scan_bucket)
  then show ?thesis using that rs fl s next_it y by simp
qed

lemma no_bucket:
  assumes "in_buckets h m rs" "0 < length (buckets m)" "map_of rs (bucket_of h k m) = None"
  shows "buckets m ! bucket_of h k m = (End, End)" "find (\<lambda>x. fst (snd x) = k) (map_values m) = None"
proof -
  let ?n = "length (buckets m)"
  have i: "map_values m = flat rs" "runs_ok h ?n rs" "buckets m = bucket_array ?n rs" using assms(1) by (simp_all add: in_buckets_def)
  have b: "bucket_of h k m < ?n" using assms(2) by (simp add: bucket_of_def)
  show "buckets m ! bucket_of h k m = (End, End)" using assms(3) b i(3) by (metis ends_of.simps(1) nth_bucket_array)
  show "find (\<lambda>x. fst (snd x) = k) (map_values m) = None"
    using runs_find [OF i(2), of k] assms(3) i(1) by (simp add: bucket_of_def)
qed

lemma find_entry_ok:
  assumes "hash_map_ok h ok m"
  shows "find_entry h k m = (case find (\<lambda>x. fst (snd x) = k) (map_values m) of None \<Rightarrow> End | Some x \<Rightarrow> Node (fst x))"
proof -
  obtain rs where rs: "in_buckets h m rs" using assms by (auto simp: hash_map_ok_def)
  have d: "distinct (ids (map_values m))" using assms by (simp add: hash_map_ok_def nodes_ok_def)
  show ?thesis
  proof (cases "length (buckets m) = 0")
    case True
    then have "map_values m = []" using rs by (auto simp: in_buckets_def)
    then show ?thesis using True by (simp add: find_entry_def)
  next
    case False
    then have n: "0 < length (buckets m)" by simp
    obtain f l where fl: "buckets m ! bucket_of h k m = (f, l)" by fastforce
    show ?thesis
    proof (cases "map_of rs (bucket_of h k m)")
      case None
      then show ?thesis using no_bucket [OF rs n None] n by (simp add: find_entry_def)
    next
      case (Some s)
      show ?thesis by (rule bucket_scan [OF rs d n Some fl]) (use fl n in \<open>simp add: find_entry_def\<close>)
    qed
  qed
qed

section \<open>Insertion\<close>

lemma runs_ok_Nil: "runs_ok h n []"
  by (simp add: runs_ok_def)

lemma bucket_array_Nil: "bucket_array n [] = replicate n (End, End)"
  by (rule nth_equalityI) simp_all

lemma map_of_mset:
  assumes "distinct (List.map fst xs)" "mset xs = mset ys"
  shows "map_of xs = map_of ys"
proof -
  have "mset (List.map fst xs) = mset (List.map fst ys)" using assms(2) by (metis mset_map)
  then have "distinct (List.map fst ys)" using assms(1) by (metis mset_eq_imp_distinct_iff)
  then show ?thesis using assms map_of_inject_set [of xs ys] by (metis mset_eq_setD)
qed

text \<open>Only the places of the entries change.\<close>

lemma permuted:
  assumes "nodes_ok ok m" "keys_ok m" "mset (map_values m1) = mset (map_values m)" "spares m1 = spares m" "next_node m1 = next_node m"
    "map_size m1 = map_size m"
  shows "nodes_ok ok m1 \<and> keys_ok m1 \<and> entries m1 = entries m"
proof -
  have i: "mset (ids (map_values m1) @ List.map fst (spares m1)) = mset (ids (map_values m) @ List.map fst (spares m))"
  proof -
    have "mset (List.map fst (map_values m1)) = mset (List.map fst (map_values m))" using assms(3) by (metis mset_map)
    then show ?thesis using assms(4) by (simp add: ids_def)
  qed
  have k: "mset (List.map (\<lambda>x. fst (snd x)) (map_values m1)) = mset (List.map (\<lambda>x. fst (snd x)) (map_values m))"
    using assms(3) by (metis mset_map)
  have s: "mset (List.map snd (map_values m1)) = mset (List.map snd (map_values m))" using assms(3) by (metis mset_map)
  have "distinct (List.map fst (List.map snd (map_values m)))" using assms(2) by (simp add: keys_ok_def comp_def)
  then have "entries m1 = entries m" unfolding entries_def using s map_of_mset by metis
  moreover have "keys_ok m1"
    using assms(2,6) k assms(3) unfolding keys_ok_def by (metis mset_eq_imp_distinct_iff mset_eq_length)
  moreover have "nodes_ok ok m1"
    using assms(1,4,5) i unfolding nodes_ok_def list_all_iff by (metis mset_eq_imp_distinct_iff mset_eq_setD)
  ultimately show ?thesis by blast
qed

lemma rehash_ok:
  assumes "hash_map_ok h ok m" "0 < n"
  shows "hash_map_ok h ok (rehash h n m) \<and> entries (rehash h n m) = entries m \<and> length (buckets (rehash h n m)) = n"
proof (cases "n = length (buckets m)")
  case True
  then show ?thesis using assms by (simp add: rehash_def)
next
  case False
  have "distinct (ids (flat [] @ map_values m))" using assms(1) by (simp add: hash_map_ok_def nodes_ok_def)
  then obtain qs where q: "rehash_loop h (map_values m) (map_values m) (replicate n (End, End)) = (flat qs, bucket_array n qs)"
    "runs_ok h n qs" "mset (flat qs) = mset (map_values m)"
    using rehash_loop_ok [of h n "[]" "map_values m"] assms(2) by (auto simp: runs_ok_Nil bucket_array_Nil)
  have r: "rehash h n m = m\<lparr>map_values := flat qs, buckets := bucket_array n qs\<rparr>"
    using False q(1) by (simp add: rehash_def)
  have "in_buckets h (rehash h n m) qs" using q(2) assms(2) by (simp add: in_buckets_def r)
  moreover have "nodes_ok ok (rehash h n m) \<and> keys_ok (rehash h n m) \<and> entries (rehash h n m) = entries m"
    by (rule permuted) (use assms(1) q(3) in \<open>simp_all add: hash_map_ok_def r\<close>)
  ultimately show ?thesis by (auto simp: hash_map_ok_def r)
qed

lemma hash_size_pos: "0 < hash_size n"
proof -
  have "list_all (\<lambda>s. 0 < s) hash_sizes" by (simp add: hash_sizes_def)
  then have "list_all (\<lambda>s. 0 < s) (butlast hash_sizes)" "0 < last hash_sizes"
    by (simp_all add: list_all_iff in_set_butlastD hash_sizes_def)
  then show ?thesis by (auto simp: hash_size_def list_all_iff find_Some_iff split: option.splits)
qed

text \<open>An entry that is added to its bucket.\<close>

lemma inserted:
  assumes "hash_map_ok h ok m" "in_buckets h m rs" "0 < length (buckets m)" "find (\<lambda>x. fst (snd x) = k) (map_values m) = None"
    and "b = bucket_of h k m" "map_values m1 = flat (add_run b (i, k, v) rs)" "nodes_ok ok m1" "map_size m1 = map_size m + 1"
    and "buckets m1 = (buckets m)[b := (if map_of rs b = None then Node i else fst (buckets m ! b), Node i)]"
  shows "hash_map_ok h ok m1 \<and> entries m1 = (entries m)(k \<mapsto> v) \<and> entry_at (Node i) (map_values m1) = Some (k, v)"
proof -
  let ?n = "length (buckets m)" and ?x = "(i, k, v)"
  have r: "map_values m = flat rs" "runs_ok h ?n rs" "buckets m = bucket_array ?n rs" using assms(2) by (simp_all add: in_buckets_def)
  have b: "b < ?n" "h (fst (snd ?x)) mod ?n = b" using assms(3,5) by (simp_all add: bucket_of_def)
  note a = add_run_ok [of h ?n rs ?x b, OF r(2) b(2)]
  have "bucket_array ?n (add_run b ?x rs) = buckets m1" using add_run_buckets [OF r(2) b(1), of ?x] assms(9) r(3) by simp
  then have "in_buckets h m1 (add_run b ?x rs)" using a assms(3,6,9) by (simp add: in_buckets_def)
  moreover have m: "mset (map_values m1) = mset (?x # map_values m)" using a assms(6) r(1) by simp
  have n: "k \<notin> (\<lambda>x. fst (snd x)) ` set (map_values m)" using assms(4) by (auto simp: find_None_iff)
  then have d: "distinct (List.map (\<lambda>x. fst (snd x)) (?x # map_values m))" using assms(1) by (simp add: hash_map_ok_def keys_ok_def)
  have keys: "keys_ok m1"
  proof -
    have "mset (List.map (\<lambda>x. fst (snd x)) (map_values m1)) = mset (List.map (\<lambda>x. fst (snd x)) (?x # map_values m))"
      using m by (metis mset_map)
    then have "distinct (List.map (\<lambda>x. fst (snd x)) (map_values m1))" using d by (metis mset_eq_imp_distinct_iff)
    moreover have "length (map_values m1) = Suc (length (map_values m))" using m by (metis mset_eq_length length_Cons)
    ultimately show ?thesis using assms(1,8) by (simp add: hash_map_ok_def keys_ok_def)
  qed
  have "entries m1 = map_of (List.map snd (?x # map_values m))"
  proof -
    have "mset (List.map snd (?x # map_values m)) = mset (List.map snd (map_values m1))" using m by (metis mset_map)
    moreover have "distinct (List.map fst (List.map snd (?x # map_values m)))" using d by (simp add: comp_def)
    ultimately show ?thesis unfolding entries_def by (metis map_of_mset)
  qed
  then have "entries m1 = (entries m)(k \<mapsto> v)" by (simp add: entries_def)
  moreover have "map_of (map_values m1) i = Some (k, v)"
  proof -
    have "distinct (ids (map_values m1))" using assms(7) by (simp add: nodes_ok_def)
    then have "distinct (List.map fst (map_values m1))" by (simp add: ids_def)
    moreover have "?x \<in> set (map_values m1)" using m by (metis list.set_intros(1) mset_eq_setD)
    ultimately show ?thesis by simp
  qed
  ultimately show ?thesis using keys assms(7) by (auto simp: hash_map_ok_def entry_at_def)
qed

locale value_semantics =
  fixes C :: "'v value_class" and ok :: "'v \<Rightarrow> bool"
  assumes copy: "ok v \<Longrightarrow> copy_value C v = v"
    and assign: "ok s \<Longrightarrow> ok v \<Longrightarrow> assign_value C s v = v"
    and erased: "ok w \<Longrightarrow> ok (assign_value C w (default_value C))"
begin

lemma values_insert_ok:
  assumes "nodes_ok ok m" "map_values m = xs @ zs" "ok v"
  obtains i m1 where "values_insert C (begin_of zs) (k, v) m = (Node i, m1)" "map_values m1 = xs @ (i, k, v) # zs" "nodes_ok ok m1"
    "buckets m1 = buckets m" "map_size m1 = map_size m"
proof (cases "spares m")
  case Nil
  let ?i = "next_node m"
  have d: "distinct (ids (xs @ zs))" using assms(1,2) unfolding nodes_ok_def by (metis distinct_append)
  have "nodes_ok ok (m\<lparr>map_values := xs @ (?i, k, v) # zs, next_node := ?i + 1\<rparr>)"
    using assms(1,2) Nil by (auto simp: nodes_ok_def list_all_iff less_Suc_eq)
  then show ?thesis
    using that [of ?i "m\<lparr>map_values := xs @ (?i, k, v) # zs, next_node := ?i + 1\<rparr>"] Nil insert_before_mid [OF d] copy [OF assms(3)] assms(2)
    by (simp add: values_insert_def)
next
  case (Cons s ss)
  obtain i u where s: "s = (i, u)" by fastforce
  have u: "ok u" using assms(1) Cons s by (simp add: nodes_ok_def)
  have d: "distinct (ids (xs @ zs))" using assms(1,2) unfolding nodes_ok_def by (metis distinct_append)
  have n: "nodes_ok ok (m\<lparr>map_values := xs @ (i, k, v) # zs, spares := ss\<rparr>)"
    using assms(1,2) Cons s by (auto simp: nodes_ok_def list_all_iff)
  then have "distinct (ids (xs @ (i, k, v) # zs))" by (auto simp: nodes_ok_def)
  then have "iter_prev End (begin_of zs) (xs @ (i, k, v) # zs) = Node i" using iter_prev_mid by fastforce
  then show ?thesis
    using that [of i "m\<lparr>map_values := xs @ (i, k, v) # zs, spares := ss\<rparr>"] Cons s n insert_before_mid [OF d] assign [OF u assms(3)] assms(2)
    by (simp add: values_insert_def Let_def)
qed

end

section \<open>Insertion and erasure\<close>

text \<open>The insertion after the rehash, into a table that has buckets.\<close>

definition insert_rehashed :: "('k \<Rightarrow> nat) \<Rightarrow> 'v value_class \<Rightarrow> 'k \<times> 'v \<Rightarrow> ('k, 'v) hash_map \<Rightarrow> (iterator \<times> bool) \<times> ('k, 'v) hash_map" where
  "insert_rehashed h C v m = (let b = bucket_of h (fst v) m; (first, last) = buckets m ! b in
      if first = End then
        (let (it, m1) = values_insert C End v m
         in ((it, True), m1\<lparr>buckets := (buckets m1)[b := (it, it)], map_size := map_size m1 + 1\<rparr>))
      else
        (let end_it = iter_next last (map_values m);
             found = scan (fst v) end_it (entries_from first (map_values m)) in
         if found \<noteq> End then ((found, False), m)
         else (let (it, m1) = values_insert C end_it v m
               in ((it, True), m1\<lparr>buckets := (buckets m1)[b := (first, it)], map_size := map_size m1 + 1\<rparr>))))"

lemma insert_entry_eq:
  "insert_entry h C v m = insert_rehashed h C v (if map_size m + 1 \<ge> length (buckets m) then rehash h (hash_size (map_size m + 1)) m else m)"
  by (simp only: insert_entry_def insert_rehashed_def Let_def)

context value_semantics
begin

lemma insert_rehashed_ok:
  assumes inv: "hash_map_ok h ok m" and n: "0 < length (buckets m)" and v: "ok v"
    and r: "insert_rehashed h C (k, v) m = ((it, fresh), m1)"
  shows "hash_map_ok h ok m1 \<and> fresh = (entries m k = None) \<and> entries m1 = (if fresh then (entries m)(k \<mapsto> v) else entries m) \<and>
    entry_at it (map_values m1) = map_option (Pair k) (entries m1 k)"
proof -
  obtain rs where rs: "in_buckets h m rs" using inv by (auto simp: hash_map_ok_def)
  have nodes: "nodes_ok ok m" using inv by (simp add: hash_map_ok_def)
  have d: "distinct (ids (map_values m))" using nodes by (simp add: nodes_ok_def)
  let ?b = "bucket_of h k m"
  have b: "?b < length (buckets m)" using n by (simp add: bucket_of_def)
  obtain f l where fl: "buckets m ! ?b = (f, l)" by fastforce
  show ?thesis
  proof (cases "map_of rs ?b")
    case None
    note e = no_bucket [OF rs n None]
    obtain i m2 where i: "values_insert C (begin_of []) (k, v) m = (Node i, m2)" "map_values m2 = map_values m @ (i, k, v) # []" "nodes_ok ok m2"
      "buckets m2 = buckets m" "map_size m2 = map_size m"
      using values_insert_ok [OF nodes _ v, of "map_values m" "[]" k] by auto
    have m1: "it = Node i" "fresh" "m1 = m2\<lparr>buckets := (buckets m)[?b := (Node i, Node i)], map_size := map_size m + 1\<rparr>"
      using r e(1) i by (auto simp: insert_rehashed_def Let_def)
    have "hash_map_ok h ok m1 \<and> entries m1 = (entries m)(k \<mapsto> v) \<and> entry_at (Node i) (map_values m1) = Some (k, v)"
      by (rule inserted [OF inv rs n e(2) refl]) (use i m1 None rs in \<open>simp_all add: add_run_new in_buckets_def nodes_ok_def\<close>)
    then show ?thesis using m1 e(2) by (simp add: entries_find)
  next
    case (Some s)
    obtain as cs where s: "rs = as @ (?b, s) # cs" "f \<noteq> End" "s \<noteq> []" "f = begin_of s" "l = Node (fst (last s))"
      "iter_next l (map_values m) = begin_of (flat cs)"
      "scan k (iter_next l (map_values m)) (entries_from f (map_values m)) =
         (case find (\<lambda>x. fst (snd x) = k) (map_values m) of None \<Rightarrow> End | Some x \<Rightarrow> Node (fst x))"
      using bucket_scan [OF rs d n Some fl] by metis
    have runs: "runs_ok h (length (buckets m)) rs" "map_values m = flat rs" using rs by (simp_all add: in_buckets_def)
    show ?thesis
    proof (cases "find (\<lambda>x. fst (snd x) = k) (map_values m)")
      case (Some x)
      then have m1: "it = Node (fst x)" "\<not> fresh" "m1 = m" using r fl s(2,7) by (auto simp: insert_rehashed_def Let_def)
      have x: "x \<in> set (map_values m)" "fst (snd x) = k" using Some by (auto simp: find_Some_iff)
      have "map_of (map_values m) (fst x) = Some (snd x)"
        using x(1) d by (metis eq_key_imp_eq_value ids_def map_of_eq_Some_iff prod.collapse)
      then show ?thesis using m1 inv Some x by (cases x) (auto simp: entries_find entry_at_def)
    next
      case none: None
      have "map_values m = (flat as @ s) @ flat cs" using runs(2) s(1) by simp
      then obtain i m2 where i: "values_insert C (begin_of (flat cs)) (k, v) m = (Node i, m2)"
        "map_values m2 = (flat as @ s) @ (i, k, v) # flat cs" "nodes_ok ok m2" "buckets m2 = buckets m" "map_size m2 = map_size m"
        using values_insert_ok [OF nodes _ v] by metis
      have m1: "it = Node i" "fresh" "m1 = m2\<lparr>buckets := (buckets m)[?b := (f, Node i)], map_size := map_size m + 1\<rparr>"
        using r fl s(2,6,7) none i by (auto simp: insert_rehashed_def Let_def)
      have "hash_map_ok h ok m1 \<and> entries m1 = (entries m)(k \<mapsto> v) \<and> entry_at (Node i) (map_values m1) = Some (k, v)"
      proof (rule inserted [OF inv rs n none refl])
        show "map_values m1 = flat (add_run ?b (i, k, v) rs)"
          using add_run_mid [OF runs(1) [unfolded s(1)], of "(i, k, v)"] i m1 s(1) by simp
      qed (use i m1 Some fl in \<open>simp_all add: nodes_ok_def\<close>)
      then show ?thesis using m1 none by (simp add: entries_find)
    qed
  qed
qed

lemma insert_entry_ok:
  assumes "hash_map_ok h ok m" "ok v" "insert_entry h C (k, v) m = ((it, fresh), m1)"
  shows "hash_map_ok h ok m1 \<and> fresh = (entries m k = None) \<and> entries m1 = (if fresh then (entries m)(k \<mapsto> v) else entries m) \<and>
    entry_at it (map_values m1) = map_option (Pair k) (entries m1 k)"
proof -
  let ?m = "if map_size m + 1 \<ge> length (buckets m) then rehash h (hash_size (map_size m + 1)) m else m"
  have "hash_map_ok h ok ?m \<and> entries ?m = entries m \<and> 0 < length (buckets ?m)"
    using assms(1) rehash_ok [OF assms(1) hash_size_pos] by (simp add: hash_size_pos del: length_greater_0_conv)
  then show ?thesis using insert_rehashed_ok [of h ?m v k it fresh m1] assms(2,3) by (simp add: insert_entry_eq)
qed

end

text \<open>Erasing an entry of a bucket's run.\<close>

definition drop_run :: "nat \<Rightarrow> ('k, 'v) node list \<Rightarrow> ('k, 'v) runs" where
  "drop_run b s = (if s = [] then [] else [(b, s)])"

lemma map_of_drop_run:
  assumes "distinct (List.map fst (as @ (b, s) # cs))"
  shows "map_of (as @ drop_run b t @ cs) c = (if c = b then (if t = [] then None else Some t) else map_of (as @ (b, s) # cs) c)"
proof -
  have "map_of as b = None" "map_of cs b = None" using assms by (auto simp: map_of_eq_None_iff)
  then show ?thesis by (cases "map_of as c") (auto simp: drop_run_def map_add_def)
qed

context value_semantics
begin

lemma erase_entry_ok:
  assumes inv: "hash_map_ok h ok m" and x: "entry_at it (map_values m) = Some (k, w)" and w: "ok w"
  shows "hash_map_ok h ok (erase_entry h C it m) \<and> entries (erase_entry h C it m) = (entries m)(k := None)"
proof -
  obtain rs where rs: "in_buckets h m rs" using inv by (auto simp: hash_map_ok_def)
  let ?n = "length (buckets m)" and ?b = "bucket_of h k m"
  have r: "map_values m = flat rs" "runs_ok h ?n rs" "buckets m = bucket_array ?n rs" using rs by (simp_all add: in_buckets_def)
  have d: "distinct (ids (map_values m))" using inv by (simp add: hash_map_ok_def nodes_ok_def)
  obtain i where i: "it = Node i" "map_of (map_values m) i = Some (k, w)" using x by (cases it) (simp_all add: entry_at_def)
  let ?x = "(i, k, w)"
  have "?x \<in> set (flat rs)" using i(2) r(1) by (metis map_of_SomeD)
  then obtain c s where c: "(c, s) \<in> set rs" "?x \<in> set s" by (auto simp: flat_def)
  then obtain as cs where rs': "rs = as @ (c, s) # cs" by (meson split_list)
  have "h (fst (snd ?x)) mod ?n = c" using r(2) c by (force simp: runs_ok_def list_all_iff)
  then have cb: "c = ?b" by (simp add: bucket_of_def)
  obtain t u where s: "s = t @ ?x # u" using c(2) by (meson split_list)
  have rs2: "rs = as @ (?b, t @ ?x # u) # cs" using rs' cb s by simp
  have b: "?b < ?n" using rs rs2 by (auto simp: in_buckets_def bucket_of_def)
  have v: "map_values m = (flat as @ t) @ ?x # (u @ flat cs)" using r(1) rs2 by simp
  let ?qs = "as @ drop_run ?b (t @ u) @ cs"
  let ?ends = "ends_of (if t @ u = [] then None else Some (t @ u))"
  have dr: "distinct (List.map fst (as @ (?b, t @ ?x # u) # cs))" using r(2) rs2 by (simp add: runs_ok_def)
  have old: "buckets m ! ?b = (begin_of (t @ [?x]), Node (fst (last (?x # u))))"
  proof -
    have "map_of rs ?b = Some (t @ ?x # u)" using map_of_runs_mid(1) [OF dr] rs2 by simp
    then have "buckets m ! ?b = ends_of (Some (t @ ?x # u))" using b r(3) by (metis nth_bucket_array)
    then show ?thesis by (cases t) simp_all
  qed
  have d1: "distinct (ids ((flat as @ t) @ ?x # (u @ flat cs)))" using d v by simp
  have nodes: "i \<notin> set (ids t)" "i \<notin> set (ids u)" using d1 by auto
  have first: "(Node i = begin_of (t @ [?x])) = (t = [])" using nodes by (cases t) auto
  have last: "(Node i = Node (fst (last (?x # u)))) = (u = [])"
  proof (cases "u = []")
    case False
    then have "fst (last u) \<in> set (ids u)" by (simp add: ids_def)
    then show ?thesis using nodes False by auto
  qed simp
  have after: "iter_next (Node i) (map_values m) = begin_of (u @ flat cs)"
    using iter_next_mid [OF d1] v by simp
  have before: "iter_prev End (Node i) (map_values m) = Node (fst (last t))" if ne: "t \<noteq> []"
  proof -
    obtain t' y where t: "t = t' @ [y]" using ne by (cases t rule: rev_cases) simp_all
    have "distinct (ids ((flat as @ t') @ y # (?x # u @ flat cs)))" using d1 t by simp
    from iter_prev_mid [OF this, of End] show ?thesis using v t by simp
  qed
  define m1 where "m1 = m\<lparr>map_values := flat ?qs, spares := (i, assign_value C w (default_value C)) # spares m,
    buckets := (buckets m)[?b := ?ends], map_size := map_size m - 1\<rparr>"
  define f where "f = begin_of (t @ [?x])"
  define l where "l = Node (fst (last (?x # u)))"
  define new where "new = (if it = f \<and> it = l then (End, End) else if it = f then (iter_next f (map_values m), l)
      else if it = l then (f, iter_prev End l (map_values m)) else (f, l))"
  have new: "new = ?ends"
  proof (cases "t = []")
    case True
    then have "it = f" using first i(1) by (simp add: f_def)
    then show ?thesis using True last after i(1) by (cases u) (simp_all add: new_def l_def)
  next
    case False
    then have "it \<noteq> f" using first i(1) by (simp add: f_def)
    moreover have "iter_prev End l (map_values m) = Node (fst (last t))" if "it = l" using before [OF False] that i(1) by simp
    ultimately show ?thesis using False last i(1) by (cases t; cases u) (simp_all add: new_def f_def l_def)
  qed
  have erase: "erase_entry h C it m = m1"
  proof -
    have "erase_entry h C it m = (let m2 = values_erase C it (m\<lparr>buckets := (buckets m)[?b := new]\<rparr>) in m2\<lparr>map_size := map_size m2 - 1\<rparr>)"
      unfolding erase_entry_def x new_def f_def l_def by (simp only: old option.case prod.case Let_def)
    moreover have "remove_node i (map_values m) = flat ?qs" using remove_node_mid [OF d1] v by (simp add: drop_run_def)
    ultimately show ?thesis using i by (simp add: m1_def values_erase_def new)
  qed
  have "bucket_array ?n ?qs ! c = (buckets m)[?b := ?ends] ! c" if c: "c < ?n" for c
  proof (cases "c = ?b")
    case True
    then show ?thesis using b by (simp only: nth_bucket_array map_of_drop_run [OF dr] nth_list_update_eq simp_thms if_True length_bucket_array)
  next
    case False
    have "bucket_array ?n ?qs ! c = ends_of (map_of rs c)"
      using False c by (simp only: nth_bucket_array map_of_drop_run [OF dr] if_False rs2)
    also have "\<dots> = buckets m ! c" using r(3) c by (metis nth_bucket_array)
    finally show ?thesis using False by simp
  qed
  then have "bucket_array ?n ?qs = (buckets m)[?b := ?ends]" by (intro nth_equalityI) simp_all
  moreover have "runs_ok h ?n ?qs" using r(2) rs2 by (auto simp: drop_run_def runs_ok_Nil)
  moreover have "0 < ?n" using b by (rule le_less_trans [OF le0])
  ultimately have buckets: "in_buckets h m1 ?qs" by (simp add: in_buckets_def m1_def)
  have vals: "map_values m1 = (flat as @ t) @ (u @ flat cs)" by (simp add: m1_def drop_run_def)
  have "nodes_ok ok m1"
  proof -
    have "mset (ids (map_values m1) @ List.map fst (spares m1)) = mset (ids (map_values m) @ List.map fst (spares m))"
      unfolding vals v by (simp add: m1_def ids_def)
    then have "distinct (ids (map_values m1) @ List.map fst (spares m1)) = distinct (ids (map_values m) @ List.map fst (spares m))"
      "set (ids (map_values m1) @ List.map fst (spares m1)) = set (ids (map_values m) @ List.map fst (spares m))"
      by (metis mset_eq_imp_distinct_iff, metis mset_eq_setD)
    moreover have "nodes_ok ok m" using inv by (simp add: hash_map_ok_def)
    moreover have "next_node m1 = next_node m" "spares m1 = (i, assign_value C w (default_value C)) # spares m" by (simp_all add: m1_def)
    ultimately show ?thesis using erased [OF w] unfolding nodes_ok_def list_all_iff by simp
  qed
  moreover have "keys_ok m1"
    using inv unfolding hash_map_ok_def keys_ok_def vals v by (auto simp: m1_def v)
  moreover have "entries m1 = (entries m)(k := None)"
  proof
    fix j
    have "k \<notin> (\<lambda>x. fst (snd x)) ` set (flat as @ t @ u @ flat cs)"
      using inv unfolding hash_map_ok_def keys_ok_def v by auto
    then have "find (\<lambda>x. fst (snd x) = k) (flat as @ t @ u @ flat cs) = None" by (force simp: find_None_iff image_iff)
    then show "entries m1 j = ((entries m)(k := None)) j"
      unfolding entries_find vals v by (auto simp: find_append split: option.splits)
  qed
  ultimately show ?thesis using erase buckets by (auto simp: hash_map_ok_def)
qed

lemma erase_key_ok:
  assumes "hash_map_ok h ok m" "\<And>w. entries m k = Some w \<Longrightarrow> ok w"
  shows "hash_map_ok h ok (erase_key h C k m) \<and> entries (erase_key h C k m) = (entries m)(k := None)"
proof (cases "find (\<lambda>x. fst (snd x) = k) (map_values m)")
  case None
  then have "entries m k = None" by (simp add: entries_find)
  then have "(entries m)(k := None) = entries m" by (rule fun_upd_idem)
  then show ?thesis using assms(1) None find_entry_ok [OF assms(1), of k] by (simp add: erase_key_def)
next
  case (Some x)
  have d: "distinct (ids (map_values m))" using assms(1) by (simp add: hash_map_ok_def nodes_ok_def)
  have x: "x \<in> set (map_values m)" "fst (snd x) = k" using Some by (auto simp: find_Some_iff)
  obtain w where w: "x = (fst x, k, w)" using x(2) by (cases x) auto
  then have "(fst x, k, w) \<in> set (map_values m)" using x(1) by metis
  then have "entry_at (Node (fst x)) (map_values m) = Some (k, w)" using d by (simp add: entry_at_def ids_def)
  moreover have "entries m k = Some w" using Some w by (simp add: entries_find) (metis snd_conv)
  ultimately show ?thesis
    using erase_entry_ok [OF assms(1), of "Node (fst x)" k w] assms(2) find_entry_ok [OF assms(1), of k] Some by (simp add: erase_key_def)
qed

end

lemma clear_map_nodes: "hash_map_ok h ok m \<Longrightarrow> hash_map_ok h ok (clear_map m) \<and> entries (clear_map m) = Map.empty"
  by (auto simp: hash_map_ok_def nodes_ok_def in_buckets_def keys_ok_def clear_map_def entries_def bucket_array_Nil
      intro!: exI [of _ "[]"] runs_ok_Nil)

text \<open>A change of values keeps the places.\<close>

lemma map_values_ok:
  assumes "hash_map_ok h ok m" "\<And>x. fst (g x) = fst x" "\<And>x. fst (snd (g x)) = fst (snd x)"
  shows "hash_map_ok h ok (m\<lparr>map_values := List.map g (map_values m)\<rparr>)"
proof -
  obtain rs where rs: "in_buckets h m rs" using assms(1) by (auto simp: hash_map_ok_def)
  let ?m = "m\<lparr>map_values := List.map g (map_values m)\<rparr>" and ?qs = "List.map (\<lambda>(b, s). (b, List.map g s)) rs" and ?n = "length (buckets m)"
  have flat: "flat ?qs = List.map g (flat rs)" by (induction rs) auto
  have ends: "ends_of (map_option (List.map g) o') = ends_of o'" for o'
  proof (cases o')
    case (Some s)
    then show ?thesis using assms(2) by (cases s) (simp_all add: last_map begin_of_def)
  qed simp
  have "map_of ?qs b = map_option (List.map g) (map_of rs b)" for b by (simp add: map_of_map)
  then have buckets: "bucket_array ?n ?qs = bucket_array ?n rs" by (simp add: bucket_array_def ends)
  have runs: "runs_ok h ?n ?qs" using rs assms(3) by (auto simp: in_buckets_def runs_ok_def list_all_iff comp_def split_def)
  have "buckets m = bucket_array ?n ?qs" using rs buckets by (simp add: in_buckets_def)
  then have "in_buckets h ?m ?qs" using rs runs flat by (simp add: in_buckets_def)
  moreover have "ids (List.map g xs) = ids xs" for xs using assms(2) by (simp add: ids_def)
  then have "nodes_ok ok ?m" using assms(1) by (simp add: hash_map_ok_def nodes_ok_def)
  moreover have "keys_ok ?m" using assms(1,3) by (simp add: hash_map_ok_def keys_ok_def comp_def)
  ultimately show ?thesis by (auto simp: hash_map_ok_def)
qed

lemma modify_value_ok:
  assumes "hash_map_ok h ok m" "entry_at it (map_values m) = Some (k, w)"
  shows "hash_map_ok h ok (modify_value it f m) \<and> entries (modify_value it f m) = (entries m)(k \<mapsto> f w)"
proof -
  obtain i where i: "it = Node i" "map_of (map_values m) i = Some (k, w)" using assms(2) by (cases it) (simp_all add: entry_at_def)
  obtain xs ys where v: "map_values m = xs @ (i, k, w) # ys" using i(2) by (meson map_of_SomeD split_list)
  have inv: "nodes_ok ok m" "keys_ok m" using assms(1) by (simp_all add: hash_map_ok_def)
  let ?g = "\<lambda>(j, k, w). (j, k, if it = Node j then f w else w)"
  have other: "List.map ?g zs = zs" if "i \<notin> set (ids zs)" for zs :: "('a, 'b) node list"
    using that i(1) by (induction zs) auto
  have "i \<notin> set (ids xs)" "i \<notin> set (ids ys)" using inv(1) v by (auto simp: nodes_ok_def)
  then have v1: "map_values (modify_value it f m) = xs @ (i, k, f w) # ys" using other i(1) by (simp add: modify_value_def v)
  have "entries (modify_value it f m) = (entries m)(k \<mapsto> f w)"
  proof
    fix j
    have "k \<notin> (\<lambda>x. fst (snd x)) ` set xs" using inv(2) v by (auto simp: keys_ok_def)
    then have "find (\<lambda>x. fst (snd x) = k) xs = None" by (force simp: find_None_iff image_iff)
    then show "entries (modify_value it f m) j = ((entries m)(k \<mapsto> f w)) j"
      unfolding entries_find v1 v by (auto simp: find_append split: option.splits)
  qed
  moreover have "hash_map_ok h ok (modify_value it f m)"
    unfolding modify_value_def by (rule map_values_ok [OF assms(1)]) auto
  ultimately show ?thesis by simp
qed

section \<open>Hash maps are maps\<close>

definition pod_value :: "'v \<Rightarrow> 'v value_class" where
  "pod_value d = \<lparr>copy_value = (\<lambda>v. v), assign_value = (\<lambda>s v. v), default_value = d\<rparr>"

interpretation pod: value_semantics "pod_value d" "\<lambda>_. True" for d
  by unfold_locales (simp_all add: pod_value_def)

datatype ('k, 'v) map_call = InsertCall 'k 'v | EraseCall 'k | FindCall 'k | ClearCall

text \<open>What a call gives: whether an entry was inserted, and the value of the entry.\<close>

fun hash_map_step :: "('k \<Rightarrow> nat) \<Rightarrow> 'v value_class \<Rightarrow> ('k, 'v) map_call \<Rightarrow> ('k, 'v) hash_map \<Rightarrow> (bool \<times> 'v option) \<times> ('k, 'v) hash_map" where
  "hash_map_step h C (InsertCall k v) m = (let ((it, fresh), m1) = insert_entry h C (k, v) m in
     ((fresh, map_option snd (entry_at it (map_values m1))), m1))"
| "hash_map_step h C (EraseCall k) m = ((False, None), erase_key h C k m)"
| "hash_map_step h C (FindCall k) m = ((False, map_option snd (entry_at (find_entry h k m) (map_values m))), m)"
| "hash_map_step h C ClearCall m = ((False, None), clear_map m)"

fun map_step :: "('k, 'v) map_call \<Rightarrow> ('k \<rightharpoonup> 'v) \<Rightarrow> (bool \<times> 'v option) \<times> ('k \<rightharpoonup> 'v)" where
  "map_step (InsertCall k v) M = (if M k = None then ((True, Some v), M(k \<mapsto> v)) else ((False, M k), M))"
| "map_step (EraseCall k) M = ((False, None), M(k := None))"
| "map_step (FindCall k) M = ((False, M k), M)"
| "map_step ClearCall M = ((False, None), Map.empty)"

fun calls_run :: "('c \<Rightarrow> 's \<Rightarrow> 'r \<times> 's) \<Rightarrow> 'c list \<Rightarrow> 's \<Rightarrow> 'r list \<times> 's" where
  "calls_run step [] s = ([], s)"
| "calls_run step (c # cs) s = (let (r, s1) = step c s; (rs, s2) = calls_run step cs s1 in (r # rs, s2))"

lemma found_entry:
  assumes "hash_map_ok h ok m"
  shows "entry_at (find_entry h k m) (map_values m) = map_option (Pair k) (entries m k)"
proof (cases "find (\<lambda>x. fst (snd x) = k) (map_values m)")
  case None
  then show ?thesis using find_entry_ok [OF assms, of k] by (simp add: entries_find entry_at_def)
next
  case (Some x)
  have d: "distinct (ids (map_values m))" using assms by (simp add: hash_map_ok_def nodes_ok_def)
  have "(fst x, snd x) \<in> set (map_values m)" "fst (snd x) = k" using Some by (auto simp: find_Some_iff)
  then have "map_of (map_values m) (fst x) = Some (k, snd (snd x))" using d by (simp add: ids_def) (metis prod.collapse)
  then show ?thesis using find_entry_ok [OF assms, of k] Some by (simp add: entries_find entry_at_def)
qed

lemma hash_map_step_ok:
  assumes "hash_map_ok h (\<lambda>_. True) m" "hash_map_step h (pod_value d) c m = (r, m1)"
  shows "hash_map_ok h (\<lambda>_. True) m1 \<and> map_step c (entries m) = (r, entries m1)"
proof (cases c)
  case (InsertCall k v)
  obtain it fresh where i: "insert_entry h (pod_value d) (k, v) m = ((it, fresh), m1)"
    "r = (fresh, map_option snd (entry_at it (map_values m1)))"
    using assms(2) InsertCall by (auto simp: Let_def split: prod.splits)
  show ?thesis using pod.insert_entry_ok [OF assms(1) _ i(1)] InsertCall i(2) by (auto simp: option.map_comp comp_def option.map_ident)
next
  case (EraseCall k)
  then show ?thesis using pod.erase_key_ok [OF assms(1), of k] assms(2) by auto
next
  case (FindCall k)
  then show ?thesis using found_entry [OF assms(1), of k] assms by (auto simp: option.map_comp comp_def option.map_ident)
next
  case ClearCall
  then show ?thesis using clear_map_nodes [OF assms(1)] assms(2) by auto
qed

text \<open>C32: A hash map is a map: for every hash function and every sequence of insertions, erasures, searches and clears, the
  results are those of a map, through every rehash and every reuse of a node.\<close>
theorem hash_map_is_map:
  "fst (calls_run (hash_map_step h (pod_value d)) cs new_hash_map) = fst (calls_run map_step cs Map.empty)"
proof -
  have "fst (calls_run (hash_map_step h (pod_value d)) cs m) = fst (calls_run map_step cs (entries m))"
    if "hash_map_ok h (\<lambda>_. True) m" for m
    using that
  proof (induction cs arbitrary: m)
    case (Cons c cs)
    obtain r m1 where s: "hash_map_step h (pod_value d) c m = (r, m1)" by fastforce
    have i: "hash_map_ok h (\<lambda>_. True) m1" "map_step c (entries m) = (r, entries m1)"
      using hash_map_step_ok [OF Cons.prems s] by simp_all
    show ?case using Cons.IH [OF i(1)] by (simp add: s i(2) split_def Let_def)
  qed simp
  from this [OF conjunct1 [OF new_hash_map_ok]] show ?thesis unfolding conjunct2 [OF new_hash_map_ok] .
qed

end
