(* ===== verification/AsioReactorQueue.thy ===== *)
theory AsioReactorQueue
  imports AsioHashMap
begin

text \<open>
  The operations that wait for events of descriptors (\<open>detail/reactor_op_queue.hpp\<close>): a hash map from descriptors to
  queues. Its copies and assignments of queues do nothing, so it relies on erasing only entries whose queue is empty. It is
  refined to a function from descriptors to queues.
\<close>

section \<open>The queue\<close>

record reactor_op =
  op_name :: nat
  cancellation_key :: nat
  op_ec :: int
  bytes_transferred_of :: nat

definition queue_value :: "'o list value_class" where
  "queue_value = \<lparr>copy_value = (\<lambda>v. []), assign_value = (\<lambda>s v. s), default_value = []\<rparr>"

type_synonym 'd reactor_queue = "('d, reactor_op list) hash_map"

definition new_reactor_queue :: "'d reactor_queue" where
  "new_reactor_queue = new_hash_map"

definition enqueue_operation :: "('d \<Rightarrow> nat) \<Rightarrow> 'd \<Rightarrow> reactor_op \<Rightarrow> 'd reactor_queue \<Rightarrow> bool \<times> 'd reactor_queue" where
  "enqueue_operation h d op m = (let ((it, fresh), m1) = insert_entry h queue_value (d, []) m
     in (fresh, modify_value it (\<lambda>q. q @ [op]) m1))"

definition with_ec :: "int \<Rightarrow> reactor_op \<Rightarrow> reactor_op" where
  "with_ec ec op = op\<lparr>op_ec := ec\<rparr>"

text \<open>The loops over a queue, with the operations that go to \<open>ops\<close> and those that stay.\<close>

fun cancel_loop :: "int \<Rightarrow> reactor_op list \<Rightarrow> reactor_op list \<Rightarrow> reactor_op list" where
  "cancel_loop ec ops [] = ops"
| "cancel_loop ec ops (op # q) = cancel_loop ec (ops @ [with_ec ec op]) q"

fun cancel_key_loop :: "nat \<Rightarrow> int \<Rightarrow> bool \<Rightarrow> reactor_op list \<Rightarrow> reactor_op list \<Rightarrow> reactor_op list \<Rightarrow> bool \<times> reactor_op list \<times> reactor_op list" where
  "cancel_key_loop key ec result ops other [] = (result, ops, other)"
| "cancel_key_loop key ec result ops other (op # q) =
     (if cancellation_key op = key then cancel_key_loop key ec True (ops @ [with_ec ec op]) other q
      else cancel_key_loop key ec result ops (other @ [op]) q)"

text \<open>An operation is attempted: whether it is finished, and what it has become.\<close>

type_synonym attempt = "reactor_op \<Rightarrow> bool \<times> reactor_op"

fun perform_loop :: "attempt \<Rightarrow> reactor_op list \<Rightarrow> reactor_op list \<Rightarrow> reactor_op list \<times> reactor_op list" where
  "perform_loop perform ops [] = (ops, [])"
| "perform_loop perform ops (op # q) =
     (let (finished, op1) = perform op in if finished then perform_loop perform (ops @ [op1]) q else (ops, op1 # q))"

definition queue_at :: "iterator \<Rightarrow> 'd reactor_queue \<Rightarrow> reactor_op list" where
  "queue_at it m = (case entry_at it (map_values m) of None \<Rightarrow> [] | Some (d, q) \<Rightarrow> q)"

definition set_queue :: "iterator \<Rightarrow> reactor_op list \<Rightarrow> 'd reactor_queue \<Rightarrow> 'd reactor_queue" where
  "set_queue it q m = modify_value it (\<lambda>_. q) m"

definition cancel_at :: "('d \<Rightarrow> nat) \<Rightarrow> iterator \<Rightarrow> int \<Rightarrow> reactor_op list \<Rightarrow> 'd reactor_queue \<Rightarrow> bool \<times> reactor_op list \<times> 'd reactor_queue" where
  "cancel_at h it ec ops m = (if it \<noteq> End
     then (True, cancel_loop ec ops (queue_at it m), erase_entry h queue_value it (set_queue it [] m))
     else (False, ops, m))"

definition cancel_operations :: "('d \<Rightarrow> nat) \<Rightarrow> 'd \<Rightarrow> int \<Rightarrow> reactor_op list \<Rightarrow> 'd reactor_queue \<Rightarrow> bool \<times> reactor_op list \<times> 'd reactor_queue" where
  "cancel_operations h d ec ops m = cancel_at h (find_entry h d m) ec ops m"

definition cancel_key_at :: "('d \<Rightarrow> nat) \<Rightarrow> iterator \<Rightarrow> nat \<Rightarrow> int \<Rightarrow> reactor_op list \<Rightarrow> 'd reactor_queue \<Rightarrow> bool \<times> reactor_op list \<times> 'd reactor_queue" where
  "cancel_key_at h it key ec ops m = (if it \<noteq> End
     then (let (result, ops1, other) = cancel_key_loop key ec False ops [] (queue_at it m); m1 = set_queue it other m
           in (result, ops1, if queue_at it m1 = [] then erase_entry h queue_value it m1 else m1))
     else (False, ops, m))"

definition cancel_operations_by_key :: "('d \<Rightarrow> nat) \<Rightarrow> 'd \<Rightarrow> nat \<Rightarrow> int \<Rightarrow> reactor_op list \<Rightarrow> 'd reactor_queue \<Rightarrow> bool \<times> reactor_op list \<times> 'd reactor_queue" where
  "cancel_operations_by_key h d key ec ops m = cancel_key_at h (find_entry h d m) key ec ops m"

definition no_operations :: "'d reactor_queue \<Rightarrow> bool" where
  "no_operations m = is_empty m"

definition has_operation :: "('d \<Rightarrow> nat) \<Rightarrow> 'd \<Rightarrow> 'd reactor_queue \<Rightarrow> bool" where
  "has_operation h d m = (find_entry h d m \<noteq> End)"

definition perform_at :: "('d \<Rightarrow> nat) \<Rightarrow> attempt \<Rightarrow> iterator \<Rightarrow> reactor_op list \<Rightarrow> 'd reactor_queue \<Rightarrow> bool \<times> reactor_op list \<times> 'd reactor_queue" where
  "perform_at h perform it ops m = (if it \<noteq> End
     then (let (ops1, rest) = perform_loop perform ops (queue_at it m); m1 = set_queue it rest m
           in if rest \<noteq> [] then (True, ops1, m1) else (False, ops1, erase_entry h queue_value it m1))
     else (False, ops, m))"

definition perform_operations :: "('d \<Rightarrow> nat) \<Rightarrow> attempt \<Rightarrow> 'd \<Rightarrow> reactor_op list \<Rightarrow> 'd reactor_queue \<Rightarrow> bool \<times> reactor_op list \<times> 'd reactor_queue" where
  "perform_operations h perform d ops m = perform_at h perform (find_entry h d m) ops m"

text \<open>The loop of \<open>get_all_operations\<close> at the entries from the iterator on; the next entry is reached before one is erased.\<close>

fun get_all_loop :: "('d \<Rightarrow> nat) \<Rightarrow> ('d, reactor_op list) node list \<Rightarrow> reactor_op list \<Rightarrow> 'd reactor_queue \<Rightarrow> reactor_op list \<times> 'd reactor_queue" where
  "get_all_loop h [] ops m = (ops, m)"
| "get_all_loop h (x # xs) ops m =
     get_all_loop h xs (ops @ queue_at (Node (fst x)) m) (erase_entry h queue_value (Node (fst x)) (set_queue (Node (fst x)) [] m))"

definition get_all_operations :: "('d \<Rightarrow> nat) \<Rightarrow> reactor_op list \<Rightarrow> 'd reactor_queue \<Rightarrow> reactor_op list \<times> 'd reactor_queue" where
  "get_all_operations h ops m = get_all_loop h (map_values m) ops m"

section \<open>The loops\<close>

lemma cancel_loop_eq: "cancel_loop ec ops q = ops @ List.map (with_ec ec) q"
  by (induction q arbitrary: ops) simp_all

lemma cancel_key_loop_eq:
  "cancel_key_loop key ec result ops other q = (result \<or> list_ex (\<lambda>op. cancellation_key op = key) q,
     ops @ List.map (with_ec ec) (filter (\<lambda>op. cancellation_key op = key) q), other @ filter (\<lambda>op. cancellation_key op \<noteq> key) q)"
  by (induction q arbitrary: result ops other) simp_all

text \<open>The operations that finish, and those left, the first of them attempted.\<close>

definition performed :: "attempt \<Rightarrow> reactor_op list \<Rightarrow> reactor_op list" where
  "performed p q = List.map (\<lambda>op. snd (p op)) (takeWhile (\<lambda>op. fst (p op)) q)"

definition unfinished :: "attempt \<Rightarrow> reactor_op list \<Rightarrow> reactor_op list" where
  "unfinished p q = (case dropWhile (\<lambda>op. fst (p op)) q of [] \<Rightarrow> [] | op # rest \<Rightarrow> snd (p op) # rest)"

lemma perform_loop_eq: "perform_loop p ops q = (ops @ performed p q, unfinished p q)"
  by (induction q arbitrary: ops) (auto simp: performed_def unfinished_def split: prod.splits)

section \<open>Queues of descriptors\<close>

interpretation op_queues: value_semantics queue_value "\<lambda>q. q = []"
  by unfold_locales (simp_all add: queue_value_def)

definition queues_ok :: "('d \<Rightarrow> nat) \<Rightarrow> 'd reactor_queue \<Rightarrow> bool" where
  "queues_ok h m = (hash_map_ok h (\<lambda>q. q = []) m \<and> [] \<notin> ran (entries m))"

definition queues :: "'d reactor_queue \<Rightarrow> 'd \<Rightarrow> reactor_op list" where
  "queues m d = (case entries m d of None \<Rightarrow> [] | Some q \<Rightarrow> q)"

lemma queues_upd: "entries m1 = (entries m)(d \<mapsto> q) \<Longrightarrow> queues m1 = (queues m)(d := q)"
  by (rule ext) (simp add: queues_def)

lemma queues_erase: "entries m1 = (entries m)(d := None) \<Longrightarrow> queues m1 = (queues m)(d := [])"
  by (rule ext) (simp add: queues_def)

lemma no_queue: "queues_ok h m \<Longrightarrow> queues m d = [] \<longleftrightarrow> entries m d = None"
  by (auto simp: queues_ok_def queues_def ran_def split: option.splits)

lemma ran_upd: "[] \<notin> ran M \<Longrightarrow> q \<noteq> [] \<Longrightarrow> [] \<notin> ran (M(d \<mapsto> q))" "[] \<notin> ran M \<Longrightarrow> [] \<notin> ran (M(d := None))"
  by (auto simp: ran_def split: if_splits)

text \<open>An iterator that \<open>find\<close> gives.\<close>

lemma found:
  assumes "queues_ok h m"
  shows "(find_entry h d m = End) = (queues m d = [])" "queue_at (find_entry h d m) m = queues m d"
    "queues m d \<noteq> [] \<Longrightarrow> entry_at (find_entry h d m) (map_values m) = Some (d, queues m d)"
proof -
  have ok: "hash_map_ok h (\<lambda>q. q = []) m" using assms by (simp add: queues_ok_def)
  note f = found_entry [OF ok, of d]
  show "(find_entry h d m = End) = (queues m d = [])"
    using find_entry_ok [OF ok, of d] no_queue [OF assms, of d] by (auto simp: entries_find split: option.splits)
  show "queue_at (find_entry h d m) m = queues m d" by (simp add: queue_at_def f queues_def split: option.splits)
  show "queues m d \<noteq> [] \<Longrightarrow> entry_at (find_entry h d m) (map_values m) = Some (d, queues m d)"
    by (simp add: f queues_def split: option.splits)
qed

text \<open>The queue at an iterator is replaced, and the entry erased when nothing is left.\<close>

lemma set_queue_ok:
  assumes "queues_ok h m" "entry_at it (map_values m) = Some (d, q0)" "q \<noteq> []"
  shows "queues_ok h (set_queue it q m) \<and> queues (set_queue it q m) = (queues m)(d := q)"
  using modify_value_ok [of h "\<lambda>q. q = []" m it d q0 "\<lambda>_. q"] assms ran_upd(1) [of "entries m" q d]
  by (simp add: queues_ok_def set_queue_def queues_upd)

lemma map_of_update:
  "map_of (List.map (\<lambda>(j, k, w). (j, k, if i = j then f w else w)) xs) i = map_option (\<lambda>(k, w). (k, f w)) (map_of xs i)"
  by (induction xs) auto

lemma entry_at_modify:
  "entry_at it (map_values m) = Some (d, q0) \<Longrightarrow> entry_at it (map_values (modify_value it f m)) = Some (d, f q0)"
  by (cases it) (simp_all add: entry_at_def modify_value_def map_of_update)

lemma erase_queue_ok:
  assumes "queues_ok h m" "entry_at it (map_values m) = Some (d, q0)"
  shows "queues_ok h (erase_entry h queue_value it (set_queue it [] m)) \<and>
    queues (erase_entry h queue_value it (set_queue it [] m)) = (queues m)(d := [])"
proof -
  have a: "hash_map_ok h (\<lambda>q. q = []) (set_queue it [] m)" "entries (set_queue it [] m) = (entries m)(d \<mapsto> [])"
    using modify_value_ok [of h "\<lambda>q. q = []" m it d q0 "\<lambda>_. []"] assms by (simp_all add: queues_ok_def set_queue_def)
  have e: "entry_at it (map_values (set_queue it [] m)) = Some (d, [])"
    using entry_at_modify [OF assms(2), of "\<lambda>_. []"] by (simp add: set_queue_def)
  have "entries (erase_entry h queue_value it (set_queue it [] m)) = (entries m)(d := None)"
    using op_queues.erase_entry_ok [OF a(1) e refl] a(2) by simp
  then show ?thesis
    using op_queues.erase_entry_ok [OF a(1) e refl] assms(1) ran_upd(2) [of "entries m" d] by (simp add: queues_ok_def queues_erase)
qed

text \<open>Each operation of the queue, at the queue of its descriptor.\<close>

lemma enqueue_ok:
  assumes ok: "queues_ok h m" and e: "enqueue_operation h d op m = (fresh, m1)"
  shows "queues_ok h m1 \<and> fresh = (queues m d = []) \<and> queues m1 = (queues m)(d := queues m d @ [op])"
proof -
  obtain it m2 where i: "insert_entry h queue_value (d, []) m = ((it, fresh), m2)" "m1 = modify_value it (\<lambda>q. q @ [op]) m2"
    using e by (auto simp: enqueue_operation_def split: prod.splits)
  have a: "hash_map_ok h (\<lambda>q. q = []) m2" "fresh = (entries m d = None)"
    "entries m2 = (if fresh then (entries m)(d \<mapsto> []) else entries m)"
    "entry_at it (map_values m2) = map_option (Pair d) (entries m2 d)"
    using op_queues.insert_entry_ok [OF _ refl i(1)] ok by (simp_all add: queues_ok_def)
  have e2: "entry_at it (map_values m2) = Some (d, queues m d)" using a(2-4) by (auto simp: queues_def split: option.splits)
  have b: "hash_map_ok h (\<lambda>q. q = []) m1" "entries m1 = (entries m2)(d \<mapsto> queues m d @ [op])"
    using modify_value_ok [OF a(1) e2, of "\<lambda>q. q @ [op]"] i(2) by simp_all
  have c: "entries m1 = (entries m)(d \<mapsto> queues m d @ [op])" using b(2) a(3) by simp
  show ?thesis using b(1) a(2) queues_upd [OF c] ok ran_upd(1) [of "entries m" "queues m d @ [op]" d] no_queue [OF ok, of d]
    by (simp add: queues_ok_def c)
qed

lemma cancelled_ok:
  assumes ok: "queues_ok h m" and c: "cancel_operations h d ec ops m = (result, ops1, m1)"
  shows "queues_ok h m1 \<and> result = (queues m d \<noteq> []) \<and> ops1 = ops @ List.map (with_ec ec) (queues m d) \<and>
    queues m1 = (queues m)(d := [])"
proof (cases "queues m d = []")
  case True
  then show ?thesis using c ok found(1) [OF ok, of d] by (auto simp: cancel_operations_def cancel_at_def)
next
  case False
  show ?thesis using c False found(1,2) [OF ok, of d] erase_queue_ok [OF ok found(3) [OF ok False]]
    by (auto simp: cancel_operations_def cancel_at_def cancel_loop_eq)
qed

lemma queue_at_set: "entry_at it (map_values m) = Some (d, q0) \<Longrightarrow> queue_at it (set_queue it q m) = q"
  by (simp add: queue_at_def set_queue_def entry_at_modify)

lemma cancel_key_ok:
  assumes ok: "queues_ok h m" and c: "cancel_operations_by_key h d key ec ops m = (result, ops1, m1)"
  shows "queues_ok h m1 \<and> result = list_ex (\<lambda>op. cancellation_key op = key) (queues m d) \<and>
    ops1 = ops @ List.map (with_ec ec) (filter (\<lambda>op. cancellation_key op = key) (queues m d)) \<and>
    queues m1 = (queues m)(d := filter (\<lambda>op. cancellation_key op \<noteq> key) (queues m d))"
proof (cases "queues m d = []")
  case True
  then show ?thesis using c ok found(1) [OF ok, of d] by (auto simp: cancel_operations_by_key_def cancel_key_at_def)
next
  case False
  note e = found(3) [OF ok False]
  show ?thesis using c False found(1,2) [OF ok, of d] erase_queue_ok [OF ok e] set_queue_ok [OF ok e]
    by (auto simp: cancel_operations_by_key_def cancel_key_at_def cancel_key_loop_eq queue_at_set [OF e] Let_def split: if_splits)
qed

lemma perform_ok:
  assumes ok: "queues_ok h m" and c: "perform_operations h p d ops m = (result, ops1, m1)"
  shows "queues_ok h m1 \<and> result = (unfinished p (queues m d) \<noteq> []) \<and> ops1 = ops @ performed p (queues m d) \<and>
    queues m1 = (queues m)(d := unfinished p (queues m d))"
proof (cases "queues m d = []")
  case True
  then show ?thesis using c ok found(1) [OF ok, of d]
    by (auto simp: perform_operations_def perform_at_def performed_def unfinished_def)
next
  case False
  note e = found(3) [OF ok False]
  show ?thesis
  proof (cases "unfinished p (queues m d) = []")
    case True
    then show ?thesis using c False found(1,2) [OF ok, of d] erase_queue_ok [OF ok e]
      by (auto simp: perform_operations_def perform_at_def perform_loop_eq Let_def)
  next
    case left: False
    then show ?thesis using c False found(1,2) [OF ok, of d] set_queue_ok [OF ok e left]
      by (auto simp: perform_operations_def perform_at_def perform_loop_eq Let_def)
  qed
qed

lemma has_operation_ok: "queues_ok h m \<Longrightarrow> has_operation h d m = (queues m d \<noteq> [])"
  by (simp add: has_operation_def found(1))

lemma no_entries: "entries m = Map.empty \<longleftrightarrow> map_values m = []"
  by (cases "map_values m") (auto simp: entries_def fun_eq_iff)

lemma no_operations_ok:
  assumes "queues_ok h m"
  shows "no_operations m = (\<forall>d. queues m d = [])"
proof -
  have "(\<forall>d. queues m d = []) = (entries m = Map.empty)" using no_queue [OF assms] by (auto simp: fun_eq_iff)
  then show ?thesis by (simp add: no_operations_def is_empty_def no_entries)
qed

text \<open>Erasing an entry leaves the others at their nodes, so the loop of \<open>get_all_operations\<close> reaches each.\<close>

lemma map_of_remove_node: "j \<noteq> i \<Longrightarrow> map_of (remove_node i xs) j = map_of xs j"
  by (induction xs) (auto simp: remove_node_def)

lemma map_of_update_other:
  "j \<noteq> i \<Longrightarrow> map_of (List.map (\<lambda>(l, k, w). (l, k, if i = l then f w else w)) xs) j = map_of xs j"
  by (induction xs) auto

lemma erase_other:
  "j \<noteq> i \<Longrightarrow> entry_at (Node j) (map_values (erase_entry h C (Node i) m)) = entry_at (Node j) (map_values m)"
  by (auto simp: erase_entry_def values_erase_def entry_at_def Let_def map_of_remove_node split: option.splits prod.splits)

lemma set_queue_other:
  "j \<noteq> i \<Longrightarrow> entry_at (Node j) (map_values (set_queue (Node i) q m)) = entry_at (Node j) (map_values m)"
  by (simp add: set_queue_def modify_value_def entry_at_def map_of_update_other)

lemma get_all_loop_ok:
  assumes "queues_ok h m" "\<And>x. x \<in> set xs \<Longrightarrow> entry_at (Node (fst x)) (map_values m) = Some (snd x)" "distinct (ids xs)"
    "get_all_loop h xs ops m = (ops1, m1)"
  shows "queues_ok h m1 \<and> ops1 = ops @ concat (List.map (\<lambda>x. snd (snd x)) xs) \<and>
    queues m1 = (\<lambda>d. if d \<in> (\<lambda>x. fst (snd x)) ` set xs then [] else queues m d)"
  using assms
proof (induction xs arbitrary: ops m)
  case (Cons x xs)
  let ?it = "Node (fst x)"
  let ?m = "erase_entry h queue_value ?it (set_queue ?it [] m)"
  have x: "entry_at ?it (map_values m) = Some (fst (snd x), snd (snd x))" using Cons.prems(2) by simp
  have e: "queues_ok h ?m" "queues ?m = (queues m)(fst (snd x) := [])" using erase_queue_ok [OF Cons.prems(1) x] by simp_all
  have rest: "entry_at (Node (fst y)) (map_values ?m) = Some (snd y)" if "y \<in> set xs" for y
  proof -
    have "fst y \<noteq> fst x" using Cons.prems(3) that by (simp add: ids_def) (metis imageI)
    then show ?thesis using Cons.prems(2) [of y] that by (simp add: erase_other set_queue_other)
  qed
  have "queue_at ?it m = snd (snd x)" by (simp add: queue_at_def x split_def)
  then have l: "get_all_loop h xs (ops @ snd (snd x)) ?m = (ops1, m1)" using Cons.prems(4) by simp
  show ?case using Cons.IH [OF e(1) rest _ l] Cons.prems(3) e(2) by auto
qed simp

lemma get_all_ok:
  assumes ok: "queues_ok h m" and g: "get_all_operations h ops m = (ops1, m1)"
  obtains ds where "distinct ds" "set ds = {d. queues m d \<noteq> []}" "ops1 = ops @ concat (List.map (queues m) ds)"
    "queues_ok h m1" "queues m1 = (\<lambda>_. [])"
proof
  let ?ds = "List.map (\<lambda>x. fst (snd x)) (map_values m)"
  have inv: "distinct (ids (map_values m))" "distinct ?ds" using ok by (auto simp: queues_ok_def hash_map_ok_def nodes_ok_def keys_ok_def)
  have x: "entry_at (Node (fst x)) (map_values m) = Some (snd x)" if "x \<in> set (map_values m)" for x
    using inv(1) that by (simp add: entry_at_def ids_def)
  have e: "entries m (fst (snd x)) = Some (snd (snd x))" if "x \<in> set (map_values m)" for x
    unfolding entries_def by (rule map_of_is_SomeI) (use inv(2) that in \<open>auto simp: comp_def image_iff intro: bexI [of _ x]\<close>)
  have q: "queues m (fst (snd x)) = snd (snd x)" if "x \<in> set (map_values m)" for x by (simp add: queues_def e [OF that])
  show "distinct ?ds" by (fact inv(2))
  have "dom (entries m) = set ?ds" by (simp add: entries_def dom_map_of_conv_image_fst image_image)
  then show s: "set ?ds = {d. queues m d \<noteq> []}" using no_queue [OF ok] by (auto simp: dom_def)
  note r = get_all_loop_ok [OF ok x inv(1) g [unfolded get_all_operations_def]]
  show "queues_ok h m1" using r by simp
  have "List.map (\<lambda>x. snd (snd x)) (map_values m) = List.map (queues m) ?ds" by (simp add: q)
  then show "ops1 = ops @ concat (List.map (queues m) ?ds)" using r by metis
  show "queues m1 = (\<lambda>_. [])" using r s by (auto simp: fun_eq_iff)
qed

section \<open>The queue is a queue for each descriptor\<close>

datatype 'd reactor_call = Enqueue 'd reactor_op | Cancel 'd int | CancelByKey 'd nat int | Perform 'd attempt | Has 'd | NoOps

text \<open>What a call gives: its result, and the operations it puts into an empty \<open>ops\<close>.\<close>

fun reactor_queue_step :: "('d \<Rightarrow> nat) \<Rightarrow> 'd reactor_call \<Rightarrow> 'd reactor_queue \<Rightarrow> (bool \<times> reactor_op list) \<times> 'd reactor_queue" where
  "reactor_queue_step h (Enqueue d op) m = (let (r, m1) = enqueue_operation h d op m in ((r, []), m1))"
| "reactor_queue_step h (Cancel d ec) m = (let (r, ops, m1) = cancel_operations h d ec [] m in ((r, ops), m1))"
| "reactor_queue_step h (CancelByKey d key ec) m = (let (r, ops, m1) = cancel_operations_by_key h d key ec [] m in ((r, ops), m1))"
| "reactor_queue_step h (Perform d p) m = (let (r, ops, m1) = perform_operations h p d [] m in ((r, ops), m1))"
| "reactor_queue_step h (Has d) m = ((has_operation h d m, []), m)"
| "reactor_queue_step h NoOps m = ((no_operations m, []), m)"

fun queue_step :: "'d reactor_call \<Rightarrow> ('d \<Rightarrow> reactor_op list) \<Rightarrow> (bool \<times> reactor_op list) \<times> ('d \<Rightarrow> reactor_op list)" where
  "queue_step (Enqueue d op) Q = ((Q d = [], []), Q(d := Q d @ [op]))"
| "queue_step (Cancel d ec) Q = ((Q d \<noteq> [], List.map (with_ec ec) (Q d)), Q(d := []))"
| "queue_step (CancelByKey d key ec) Q = ((list_ex (\<lambda>op. cancellation_key op = key) (Q d),
     List.map (with_ec ec) (filter (\<lambda>op. cancellation_key op = key) (Q d))), Q(d := filter (\<lambda>op. cancellation_key op \<noteq> key) (Q d)))"
| "queue_step (Perform d p) Q = ((unfinished p (Q d) \<noteq> [], performed p (Q d)), Q(d := unfinished p (Q d)))"
| "queue_step (Has d) Q = ((Q d \<noteq> [], []), Q)"
| "queue_step NoOps Q = ((\<forall>d. Q d = [], []), Q)"

lemma reactor_queue_step_ok:
  assumes "queues_ok h m" "reactor_queue_step h c m = (r, m1)"
  shows "queues_ok h m1 \<and> queue_step c (queues m) = (r, queues m1)"
  using assms by (cases c)
    (auto split: prod.splits dest: enqueue_ok cancelled_ok cancel_key_ok perform_ok simp: has_operation_ok no_operations_ok)

lemma reactor_run_ok:
  "queues_ok h m \<Longrightarrow> queues_ok h (snd (calls_run (reactor_queue_step h) cs m)) \<and>
    calls_run queue_step cs (queues m) = map_prod id queues (calls_run (reactor_queue_step h) cs m)"
proof (induction cs arbitrary: m)
  case (Cons c cs)
  obtain r m1 where s: "reactor_queue_step h c m = (r, m1)" by fastforce
  have i: "queues_ok h m1" "queue_step c (queues m) = (r, queues m1)" using reactor_queue_step_ok [OF Cons.prems s] by simp_all
  show ?case using Cons.IH [OF i(1)] by (simp add: s i(2) split_def Let_def)
qed simp

lemma new_queues_ok: "queues_ok h new_reactor_queue \<and> queues new_reactor_queue = (\<lambda>_. [])"
  by (simp add: queues_ok_def new_reactor_queue_def queues_def fun_eq_iff ran_def conjunct1 [OF new_hash_map_ok]
      conjunct2 [OF new_hash_map_ok])

text \<open>C23: The queue of a reactor is one queue for each descriptor: for every hash function and every sequence of calls, what
  enqueueing, cancelling, cancelling by key and performing answer and give is what plain queues give. No operation is lost in
  the hash map, whose copies and assignments of a queue drop its operations.\<close>
theorem reactor_queue_refines:
  "fst (calls_run (reactor_queue_step h) cs new_reactor_queue) = fst (calls_run queue_step cs (\<lambda>_. []))"
  using reactor_run_ok [OF conjunct1 [OF new_queues_ok], of h cs] by (simp add: new_queues_ok)

text \<open>At shutdown the reactor gets every operation of its queues once, those of a descriptor in their order, and the queue
  is empty then, whatever calls came before.\<close>
theorem get_all_gives_each_once:
  "\<exists>ds. distinct ds \<and> set ds = {d. snd (calls_run queue_step cs (\<lambda>_. [])) d \<noteq> []} \<and>
     fst (get_all_operations h [] (snd (calls_run (reactor_queue_step h) cs new_reactor_queue))) =
       concat (List.map (snd (calls_run queue_step cs (\<lambda>_. []))) ds) \<and>
     no_operations (snd (get_all_operations h [] (snd (calls_run (reactor_queue_step h) cs new_reactor_queue))))"
proof -
  let ?m = "snd (calls_run (reactor_queue_step h) cs new_reactor_queue)"
  have ok: "queues_ok h ?m" "snd (calls_run queue_step cs (\<lambda>_. [])) = queues ?m"
    using reactor_run_ok [OF conjunct1 [OF new_queues_ok], of h cs] by (simp_all add: new_queues_ok)
  obtain ops1 m1 where g: "get_all_operations h [] ?m = (ops1, m1)" by fastforce
  show ?thesis by (rule get_all_ok [OF ok(1) g]) (auto simp: g ok(2) no_operations_ok)
qed

end
