(* ===== verification/AsioTimeTraits.thy ===== *)
theory AsioTimeTraits
  imports AsioTimerQueue "HOL-Library.Word" "HOL-Library.Signed_Division"
begin

text \<open>
  The time arithmetic of the timers (\<open>detail/chrono_time_traits.hpp\<close>, \<open>wait_traits.hpp\<close> and the conversions of
  \<open>detail/timer_queue.hpp\<close>): points of time and durations are counts of ticks in 64 bits, signed. An operation that
  overflows is undefined in C++, here \<open>None\<close>. The arithmetic is shown to saturate, and the waits computed from it to be
  those of \<open>AsioTimerQueue\<close>, whose times are unbounded.
\<close>

section \<open>Signed arithmetic\<close>

type_synonym ticks = "64 word"

definition min_ticks :: ticks where
  "min_ticks = 0x8000000000000000"

definition max_ticks :: ticks where
  "max_ticks = 0x7FFFFFFFFFFFFFFF"

definition ticks_of :: "int \<Rightarrow> ticks" where
  "ticks_of i = word_of_int i"

definition in_range :: "int \<Rightarrow> bool" where
  "in_range i = (- (2 ^ 63) \<le> i \<and> i < 2 ^ 63)"

definition checked :: "int \<Rightarrow> ticks option" where
  "checked i = (if in_range i then Some (ticks_of i) else None)"

definition s_add :: "ticks \<Rightarrow> ticks \<Rightarrow> ticks option" where
  "s_add a b = checked (sint a + sint b)"

definition s_sub :: "ticks \<Rightarrow> ticks \<Rightarrow> ticks option" where
  "s_sub a b = checked (sint a - sint b)"

definition s_neg :: "ticks \<Rightarrow> ticks option" where
  "s_neg a = checked (- sint a)"

definition s_mul :: "ticks \<Rightarrow> nat \<Rightarrow> ticks option" where
  "s_mul a n = checked (sint a * int n)"

text \<open>Division rounds to zero; the divisors are positive.\<close>

definition s_div :: "ticks \<Rightarrow> nat \<Rightarrow> ticks" where
  "s_div a n = ticks_of (sint a sdiv int n)"

section \<open>Points of time\<close>

text \<open>The epoch is zero.\<close>

definition time_add :: "ticks \<Rightarrow> ticks \<Rightarrow> ticks option" where
  "time_add t d =
     (if 0 \<le> sint t
      then Option.bind (s_sub max_ticks t) (\<lambda>room. if sint room < sint d then Some max_ticks else s_add t d)
      else Option.bind (s_sub t min_ticks) (\<lambda>over. Option.bind (s_neg over) (\<lambda>room.
        if sint room > sint d then Some min_ticks else s_add t d)))"

definition time_subtract :: "ticks \<Rightarrow> ticks \<Rightarrow> ticks option" where
  "time_subtract t1 t2 =
     (if 0 \<le> sint t1
      then if 0 \<le> sint t2 then s_sub t1 t2
        else if t2 = min_ticks then Some max_ticks
        else Option.bind (s_sub max_ticks t1) (\<lambda>room. Option.bind (s_sub 0 t2) (\<lambda>before.
          if sint room < sint before then Some max_ticks else s_sub t1 t2))
      else if sint t2 < 0 then s_sub t1 t2
        else if t1 = min_ticks then Some min_ticks
        else Option.bind (s_sub max_ticks t2) (\<lambda>room. Option.bind (s_sub 0 t1) (\<lambda>before.
          if sint room < sint before then Some min_ticks else Option.bind (s_sub t2 t1) s_neg)))"

definition time_less_than :: "ticks \<Rightarrow> ticks \<Rightarrow> bool" where
  "time_less_than t1 t2 = (sint t1 < sint t2)"

text \<open>\<open>wait_traits::to_wait_duration\<close> of a duration, and of a point of time at the time \<open>now\<close>.\<close>

definition to_wait_duration :: "ticks \<Rightarrow> ticks" where
  "to_wait_duration d = d"

definition to_wait_duration_at :: "ticks \<Rightarrow> ticks \<Rightarrow> ticks option" where
  "to_wait_duration_at now t =
     Option.bind (s_add now max_ticks) (\<lambda>late. if sint late < sint t then Some max_ticks
       else Option.bind (s_add now min_ticks) (\<lambda>early. if sint early > sint t then Some min_ticks else s_sub t now))"

section \<open>Durations in seconds, milliseconds and microseconds\<close>

fun template_gcd :: "nat \<Rightarrow> nat \<Rightarrow> nat" where
  "template_gcd v1 v2 = (if v2 = 0 then v1 else template_gcd v2 (v1 mod v2))"

declare template_gcd.simps [simp del]

text \<open>The clock's period is \<open>pnum / pden\<close> seconds; the constants of the template, and the cast of a duration.\<close>

definition cast_num :: "nat \<Rightarrow> nat \<Rightarrow> nat \<Rightarrow> nat \<Rightarrow> nat" where
  "cast_num pnum pden N D = pnum div template_gcd pnum N * (D div template_gcd pden D)"

definition cast_den :: "nat \<Rightarrow> nat \<Rightarrow> nat \<Rightarrow> nat \<Rightarrow> nat" where
  "cast_den pnum pden N D = N div template_gcd pnum N * (pden div template_gcd pden D)"

definition duration_cast :: "nat \<Rightarrow> nat \<Rightarrow> nat \<Rightarrow> nat \<Rightarrow> ticks \<Rightarrow> ticks option" where
  "duration_cast pnum pden N D d =
     (let num = cast_num pnum pden N D; den = cast_den pnum pden N D in
      if num = 1 \<and> den = 1 then Some d
      else if num \<noteq> 1 \<and> den = 1 then s_mul d num
      else if num = 1 \<and> pden \<noteq> 1 then Some (s_div d den)
      else map_option (\<lambda>r. s_div r den) (s_mul d num))"

definition total_seconds :: "nat \<Rightarrow> nat \<Rightarrow> ticks \<Rightarrow> ticks option" where
  "total_seconds pnum pden d = duration_cast pnum pden 1 1 d"

definition total_milliseconds :: "nat \<Rightarrow> nat \<Rightarrow> ticks \<Rightarrow> ticks option" where
  "total_milliseconds pnum pden d = duration_cast pnum pden 1 1000 d"

definition total_microseconds :: "nat \<Rightarrow> nat \<Rightarrow> ticks \<Rightarrow> ticks option" where
  "total_microseconds pnum pden d = duration_cast pnum pden 1 1000000 d"

text \<open>\<open>to_msec\<close> and \<open>to_usec\<close> of the timer queue, and the waits for its earliest timer; the queue has the counts of
  ticks as integers, whose order is \<open>less_than\<close>.\<close>

definition chrono_to_msec :: "nat \<Rightarrow> nat \<Rightarrow> ticks \<Rightarrow> int \<Rightarrow> int option" where
  "chrono_to_msec pnum pden d max_duration =
     (if sint d \<le> 0 then Some 0
      else map_option (\<lambda>msec. if msec = 0 then 1 else if sint msec > max_duration then max_duration else sint msec)
        (total_milliseconds pnum pden d))"

definition chrono_to_usec :: "nat \<Rightarrow> nat \<Rightarrow> ticks \<Rightarrow> int \<Rightarrow> int option" where
  "chrono_to_usec pnum pden d max_duration =
     (if sint d \<le> 0 then Some 0
      else map_option (\<lambda>usec. if usec = 0 then 1 else if sint usec > max_duration then max_duration else sint usec)
        (total_microseconds pnum pden d))"

definition chrono_wait_msec :: "nat \<Rightarrow> nat \<Rightarrow> ticks \<Rightarrow> int \<Rightarrow> int timer_queue \<Rightarrow> int option" where
  "chrono_wait_msec pnum pden now max_duration q =
     (if timer_heap q = [] then Some max_duration
      else Option.bind (time_subtract (ticks_of (key_at q 0)) now)
        (\<lambda>d. chrono_to_msec pnum pden (to_wait_duration d) max_duration))"

definition chrono_wait_usec :: "nat \<Rightarrow> nat \<Rightarrow> ticks \<Rightarrow> int \<Rightarrow> int timer_queue \<Rightarrow> int option" where
  "chrono_wait_usec pnum pden now max_duration q =
     (if timer_heap q = [] then Some max_duration
      else Option.bind (time_subtract (ticks_of (key_at q 0)) now)
        (\<lambda>d. chrono_to_usec pnum pden (to_wait_duration d) max_duration))"

section \<open>The arithmetic saturates\<close>

lemma sint_range: "in_range (sint (a :: ticks))"
  using sint_greater_eq [of a] sint_less [of a] by (simp add: in_range_def)

lemma sint_ticks_of [simp]: "in_range i \<Longrightarrow> sint (ticks_of i) = i"
  by (simp add: ticks_of_def in_range_def signed_of_int signed_take_bit_int_eq_self_iff)

lemma ticks_of_sint [simp]: "ticks_of (sint a) = a"
  by (simp add: ticks_of_def)

lemma limits: "min_ticks = ticks_of (- (2 ^ 63))" "max_ticks = ticks_of (2 ^ 63 - 1)" "0 = ticks_of 0"
  by (simp_all add: min_ticks_def max_ticks_def ticks_of_def)

lemma sint_limits [simp]: "sint min_ticks = - (2 ^ 63)" "sint max_ticks = 2 ^ 63 - 1" "sint (0 :: ticks) = 0"
  by (simp_all add: min_ticks_def max_ticks_def)

definition saturated :: "int \<Rightarrow> ticks" where
  "saturated i = ticks_of (max (- (2 ^ 63)) (min (2 ^ 63 - 1) i))"

lemma saturated_simps:
  "in_range i \<Longrightarrow> saturated i = ticks_of i" "2 ^ 63 - 1 \<le> i \<Longrightarrow> saturated i = max_ticks" "i \<le> - (2 ^ 63) \<Longrightarrow> saturated i = min_ticks"
  by (simp_all add: saturated_def in_range_def limits)

lemma is_min: "a = min_ticks \<longleftrightarrow> sint a = - (2 ^ 63)"
  by (metis sint_limits(1) ticks_of_sint limits(1))

lemma checked_simps: "in_range i \<Longrightarrow> checked i = Some (ticks_of i)"
  by (simp add: checked_def)

lemma time_add_eq: "time_add t d = Some (saturated (sint t + sint d))"
proof (cases "0 \<le> sint t")
  case True
  then have "in_range (2 ^ 63 - 1 - sint t)" using sint_range [of t] by (simp add: in_range_def)
  moreover have "in_range (sint t + sint d)" if "sint d \<le> 2 ^ 63 - 1 - sint t"
    using that True sint_range [of d] by (simp add: in_range_def)
  ultimately show ?thesis using True by (auto simp: time_add_def s_sub_def s_add_def checked_simps saturated_simps)
next
  case False
  then have r: "in_range (sint t + 2 ^ 63)" "in_range (- (sint t + 2 ^ 63))" using sint_range [of t] by (simp_all add: in_range_def)
  moreover have "in_range (sint t + sint d)" if "- (sint t + 2 ^ 63) \<le> sint d"
    using that False sint_range [of d] by (simp add: in_range_def)
  ultimately show ?thesis using False
    by (auto simp: time_add_def s_sub_def s_neg_def s_add_def checked_simps saturated_simps)
qed

lemma time_subtract_eq: "time_subtract t u = Some (saturated (sint t - sint u))"
proof (cases "0 \<le> sint t")
  case True
  have a: "in_range (sint t - sint u)" if "0 \<le> sint u" using that True sint_range [of t] sint_range [of u] by (simp add: in_range_def)
  have b: "in_range (2 ^ 63 - 1 - sint t)" using True sint_range [of t] by (simp add: in_range_def)
  have c: "in_range (- sint u)" if "sint u \<noteq> - (2 ^ 63)" using that sint_range [of u] by (simp add: in_range_def)
  have d: "in_range (sint t - sint u)" if "- sint u \<le> 2 ^ 63 - 1 - sint t"
    using that True sint_range [of t] sint_range [of u] by (simp add: in_range_def)
  show ?thesis using True a b c d by (auto simp: time_subtract_def is_min s_sub_def checked_simps saturated_simps)
next
  case False
  have a: "in_range (sint t - sint u)" if "sint u < 0" using that False sint_range [of t] sint_range [of u] by (simp add: in_range_def)
  have b: "in_range (2 ^ 63 - 1 - sint u)" if "0 \<le> sint u" using that sint_range [of u] by (simp add: in_range_def)
  have c: "in_range (- sint t)" if "sint t \<noteq> - (2 ^ 63)" using that sint_range [of t] by (simp add: in_range_def)
  have d: "in_range (sint u - sint t)" "in_range (sint t - sint u)" if "0 \<le> sint u" "- sint t \<le> 2 ^ 63 - 1 - sint u"
    using that False sint_range [of t] sint_range [of u] by (simp_all add: in_range_def)
  show ?thesis using False a b c d
    by (auto simp: time_subtract_def is_min s_sub_def s_neg_def checked_simps saturated_simps not_less not_le)
qed

text \<open>Times and durations saturate, whatever their 64 bit values: adding a duration to a time and subtracting a time from
  another never overflow, and give the exact result cut to the range of 64 bits.\<close>
theorem time_arithmetic_saturates:
  "time_add t d = Some (saturated (sint t + sint d)) \<and> time_subtract t u = Some (saturated (sint t - sint u))"
  by (simp add: time_add_eq time_subtract_eq)

section \<open>The casts\<close>

lemma template_gcd_eq: "template_gcd v1 v2 = gcd v1 v2"
proof (induction v1 v2 rule: template_gcd.induct)
  case (1 v1 v2)
  then show ?case by (cases "v2 = 0") (simp_all add: template_gcd.simps [of v1 v2] template_gcd.simps [of v1 0] gcd_red_nat [of v1 v2])
qed

text \<open>The four cases are one: a multiplication that may overflow, and a division.\<close>

lemma duration_cast_eq:
  "duration_cast pnum pden N D d =
     (if in_range (sint d * int (cast_num pnum pden N D))
      then Some (ticks_of (sint d * int (cast_num pnum pden N D) sdiv int (cast_den pnum pden N D))) else None)"
proof -
  have one: "x sdiv 1 = x" for x :: int by (simp add: signed_divide_int_def sgn_mult_abs)
  show ?thesis by (auto simp: duration_cast_def Let_def s_mul_def s_div_def checked_def one sint_range)
qed

lemma sdiv_cancel:
  assumes "0 < g"
  shows "x * int g sdiv int (n * g) = x sdiv int n"
  using assms by (simp add: signed_divide_int_def abs_mult sgn_mult nat_mult_distrib)

text \<open>The constants of the template are the quotient of the periods, reduced.\<close>

lemma cast_quotient:
  assumes "0 < pnum" "0 < pden" "0 < N" "0 < D"
  obtains g where "0 < g" "pnum * D = cast_num pnum pden N D * g" "pden * N = cast_den pnum pden N D * g"
proof
  let ?a = "gcd pnum N" and ?b = "gcd pden D"
  show "0 < ?a * ?b" using assms by simp
  have "pnum * D = (pnum div ?a * ?a) * (D div ?b * ?b)" by simp
  then show "pnum * D = cast_num pnum pden N D * (?a * ?b)" by (simp only: cast_num_def template_gcd_eq mult_ac)
  have "pden * N = (pden div ?b * ?b) * (N div ?a * ?a)" by simp
  then show "pden * N = cast_den pnum pden N D * (?a * ?b)" by (simp only: cast_den_def template_gcd_eq mult_ac)
qed

lemma duration_cast_exact:
  assumes "0 < pnum" "0 < pden" "0 < N" "0 < D"
  shows "duration_cast pnum pden N D d =
     (if in_range (sint d * int (cast_num pnum pden N D)) then Some (ticks_of (sint d * int (pnum * D) sdiv int (pden * N))) else None)"
proof -
  obtain g where g: "0 < g" "pnum * D = cast_num pnum pden N D * g" "pden * N = cast_den pnum pden N D * g"
    using cast_quotient [OF assms] .
  have "sint d * int (pnum * D) sdiv int (pden * N) =
      sint d * int (cast_num pnum pden N D) sdiv int (cast_den pnum pden N D)"
    using sdiv_cancel [OF g(1), of "sint d * int (cast_num pnum pden N D)" "cast_den pnum pden N D"]
    by (simp only: g(2,3) of_nat_mult mult.assoc)
  then show ?thesis by (simp only: duration_cast_eq)
qed

section \<open>The waits\<close>

text \<open>The clocks of the standard library count nanoseconds.\<close>

lemma nanoseconds: "total_milliseconds 1 1000000000 d = Some (ticks_of (sint d sdiv 1000000))"
    "total_microseconds 1 1000000000 d = Some (ticks_of (sint d sdiv 1000))"
  by (simp_all add: total_milliseconds_def total_microseconds_def duration_cast_eq cast_num_def cast_den_def template_gcd.simps sint_range)

lemma sdiv_pos: "0 \<le> x \<Longrightarrow> x sdiv int n = x div int n"
  by (cases "x = 0") (simp_all add: signed_divide_int_def sgn_if zdiv_int)

lemma div_in_range:
  assumes "in_range i" "0 \<le> i"
  shows "in_range (i div int n)"
proof -
  obtain k where k: "i = int k" using assms(2) nonneg_int_cases by blast
  then have "i div int n = int (k div n)" by (simp add: zdiv_int)
  moreover have "k < 2 ^ 63" using assms(1) k by (simp add: in_range_def)
  then have "k div n < 2 ^ 63" by (rule le_less_trans [OF div_le_dividend])
  ultimately show ?thesis by (simp add: in_range_def)
qed

lemma chrono_to_msec_eq: "chrono_to_msec 1 1000000000 d max_duration = Some (to_msec 1000000 (sint d) max_duration)"
proof (cases "sint d \<le> 0")
  case True
  then show ?thesis by (simp add: chrono_to_msec_def to_msec_def)
next
  case False
  let ?msec = "sint d div 1000000"
  have r: "in_range ?msec" using div_in_range [OF sint_range, of d 1000000] False by simp
  have m: "sint d sdiv 1000000 = ?msec" using sdiv_pos [of "sint d" 1000000] False by simp
  have "ticks_of ?msec = 0 \<longleftrightarrow> ?msec = 0" using sint_ticks_of [OF r] by (metis sint_limits(3) limits(3))
  then show ?thesis using False r by (simp add: chrono_to_msec_def nanoseconds m to_msec_def Let_def del: One_nat_def)
qed

lemma to_msec_saturated:
  assumes "max_duration \<le> 9223372036854"
  shows "to_msec 1000000 (sint (saturated x)) max_duration = to_msec 1000000 x max_duration"
proof -
  consider "in_range x" | "2 ^ 63 \<le> x" | "x < - (2 ^ 63)" by (force simp: in_range_def)
  then show ?thesis
  proof cases
    case 2
    then have "9223372036854 \<le> x div 1000000" using zdiv_mono1 [of "2 ^ 63" x 1000000] by simp
    then show ?thesis using 2 assms by (simp add: saturated_simps to_msec_def Let_def)
  qed (simp_all add: saturated_simps to_msec_def)
qed

text \<open>The 64 bit arithmetic does not disturb the waits of the timers: for a clock of nanoseconds the wait that the queue gives
  the reactor is computed without overflow and is the one of unbounded times, also for timers that never expire.\<close>
theorem nanosecond_waits_exact:
  assumes "in_range (key_at q 0)" "max_duration \<le> 9223372036854"
  shows "chrono_wait_msec 1 1000000000 now max_duration q = Some (wait_duration_msec 1000000 (sint now) max_duration q)"
  using assms by (simp add: chrono_wait_msec_def time_subtract_eq to_wait_duration_def chrono_to_msec_eq wait_duration_msec_def
      to_msec_saturated del: One_nat_def)

text \<open>A timer that expires at the end of time.\<close>

definition last_timer :: "int timer_queue" where
  "last_timer = snd (enqueue_timer (2 ^ 63 - 1) 0 \<lparr>op_id = 0, cancellation_key = 0, op_ec = Success\<rparr> new_timer_queue)"

lemma last_timer_simps [simp]: "timer_heap last_timer \<noteq> []" "key_at last_timer 0 = 2 ^ 63 - 1"
  by code_simp+

theorem nanosecond_waits_exact_witness:
  "chrono_wait_msec 1 1000000000 (ticks_of (-5)) 300000 last_timer = Some 300000"
  using nanosecond_waits_exact [of last_timer 300000 "ticks_of (-5)"]
  by (simp add: in_range_def wait_duration_msec_def to_msec_def del: One_nat_def)

text \<open>For a clock whose ticks are seconds the wait for a timer at the end of time is a multiplication that overflows.\<close>
theorem coarse_clock_overflows:
  "chrono_wait_msec 1 1 0 300000 last_timer = None"
  by (simp add: chrono_wait_msec_def time_subtract_eq saturated_simps in_range_def to_wait_duration_def chrono_to_msec_def
      total_milliseconds_def duration_cast_eq cast_num_def template_gcd_eq)

text \<open>At any time after the epoch, \<open>to_wait_duration\<close> of a point of time adds the longest duration to it.\<close>

lemma wait_at_overflows: "0 < sint now \<Longrightarrow> to_wait_duration_at now t = None"
  by (simp add: to_wait_duration_at_def s_add_def checked_def in_range_def)

end
