(* ===== verification/AsioServices.thy ===== *)
theory AsioServices
  imports Prelude
begin

text \<open>
  The registry of an execution context's services (\<open>detail/impl/service_registry.ipp\<close>, \<open>.hpp\<close>, \<open>execution_context\<close>): a list of
  services with a key each, created when first used. The mutex is not held while a service is constructed, so that its
  constructor can use other services and several threads may construct one service. A step is what a thread does under
  the mutex, or one call of a constructor. Which services a class's constructor uses is a parameter.
\<close>

section \<open>Keys\<close>

text \<open>A service class has a \<open>key_type\<close> (or a \<open>service_id\<close>), and is known by its type, or by the address of its \<open>id\<close>.\<close>

datatype service_class = ByType nat | ById nat

record service_key =
  type_info :: "nat option"
  id_of :: "nat option"

fun init_key :: "service_class \<Rightarrow> service_key" where
  "init_key (ByType i) = \<lparr>type_info = Some i, id_of = None\<rparr>"
| "init_key (ById i) = \<lparr>type_info = None, id_of = Some i\<rparr>"

definition keys_match :: "service_key \<Rightarrow> service_key \<Rightarrow> bool" where
  "keys_match k1 k2 =
     (if id_of k1 \<noteq> None \<and> id_of k2 \<noteq> None \<and> id_of k1 = id_of k2 then True
      else if type_info k1 \<noteq> None \<and> type_info k2 \<noteq> None \<and> type_info k1 = type_info k2 then True
      else False)"

section \<open>The registry\<close>

record service =
  object :: nat
  service_key :: service_key

text \<open>The loop that looks for a service.\<close>

fun find_service :: "service_key \<Rightarrow> service list \<Rightarrow> service option" where
  "find_service k [] = None"
| "find_service k (s # ss) = (if keys_match (service_key s) k then Some s else find_service k ss)"

text \<open>What the constructed object is for: \<open>use_service\<close>, or \<open>make_service\<close> and \<open>add_service\<close> with the right owner or not.\<close>

datatype purpose = ForUse | ForAdd bool

text \<open>The calls of a thread: a use that has not looked yet, a constructor with the services it has still to use.\<close>

datatype frame = Using service_class | Building service_class nat "service_class list" purpose

datatype add_result = Added | AlreadyExists | InvalidOwner

record registry =
  services :: "service list"
  stacks :: "nat \<Rightarrow> frame list"
  next_object :: nat
  used :: "(nat \<times> nat) list"
  use_results :: "(nat \<times> service_class \<times> nat) list"
  add_results :: "(nat \<times> service_class \<times> add_result) list"
  rejected :: "nat list"

definition new_registry :: registry where
  "new_registry = \<lparr>services = [], stacks = (\<lambda>t. []), next_object = 0, used = [], use_results = [], add_results = [], rejected = []\<rparr>"

text \<open>A use returns the object \<open>x\<close> to the constructor that made it, or to the program.\<close>

definition return_service :: "nat \<Rightarrow> service_class \<Rightarrow> nat \<Rightarrow> frame list \<Rightarrow> registry \<Rightarrow> registry" where
  "return_service t c x fs r = (let r1 = r\<lparr>stacks := (stacks r)(t := fs)\<rparr> in
     case fs of [] \<Rightarrow> r1\<lparr>use_results := use_results r1 @ [(t, c, x)]\<rparr>
     | Building d y ds p # _ \<Rightarrow> r1\<lparr>used := used r1 @ [(y, x)]\<rparr>
     | Using d # _ \<Rightarrow> r1)"

definition push_service :: "service_class \<Rightarrow> nat \<Rightarrow> registry \<Rightarrow> registry" where
  "push_service c x r = r\<lparr>services := \<lparr>object = x, service_key = init_key c\<rparr> # services r\<rparr>"

text \<open>\<open>do_use_service\<close> up to the call of the factory, and after it.\<close>

definition start_use :: "(service_class \<Rightarrow> service_class list) \<Rightarrow> nat \<Rightarrow> service_class \<Rightarrow> frame list \<Rightarrow> registry \<Rightarrow> registry" where
  "start_use needs t c fs r = (case find_service (init_key c) (services r) of
     Some s \<Rightarrow> return_service t c (object s) fs r
   | None \<Rightarrow> r\<lparr>stacks := (stacks r)(t := Building c (next_object r) (needs c) ForUse # fs), next_object := next_object r + 1\<rparr>)"

definition finish_use :: "nat \<Rightarrow> service_class \<Rightarrow> nat \<Rightarrow> frame list \<Rightarrow> registry \<Rightarrow> registry" where
  "finish_use t c x fs r = (case find_service (init_key c) (services r) of
     Some s \<Rightarrow> return_service t c (object s) fs (r\<lparr>rejected := rejected r @ [x]\<rparr>)
   | None \<Rightarrow> return_service t c x fs (push_service c x r))"

definition finish_add :: "nat \<Rightarrow> service_class \<Rightarrow> nat \<Rightarrow> bool \<Rightarrow> frame list \<Rightarrow> registry \<Rightarrow> registry" where
  "finish_add t c x own fs r = (let r1 = r\<lparr>stacks := (stacks r)(t := fs)\<rparr> in
     if \<not> own then r1\<lparr>add_results := add_results r1 @ [(t, c, InvalidOwner)], rejected := rejected r1 @ [x]\<rparr>
     else if find_service (init_key c) (services r1) \<noteq> None
     then r1\<lparr>add_results := add_results r1 @ [(t, c, AlreadyExists)], rejected := rejected r1 @ [x]\<rparr>
     else push_service c x (r1\<lparr>add_results := add_results r1 @ [(t, c, Added)]\<rparr>))"

definition has_service :: "service_class \<Rightarrow> registry \<Rightarrow> bool" where
  "has_service c r = (find_service (init_key c) (services r) \<noteq> None)"

datatype registry_action = Use nat service_class | Add nat service_class bool | Continue nat

fun registry_step :: "(service_class \<Rightarrow> service_class list) \<Rightarrow> registry \<Rightarrow> registry_action \<Rightarrow> registry option" where
  "registry_step needs r (Use t c) = (if stacks r t = [] then Some (r\<lparr>stacks := (stacks r)(t := [Using c])\<rparr>) else None)"
| "registry_step needs r (Add t c own) = (if stacks r t = []
     then Some (r\<lparr>stacks := (stacks r)(t := [Building c (next_object r) (needs c) (ForAdd own)]), next_object := next_object r + 1\<rparr>)
     else None)"
| "registry_step needs r (Continue t) = (case stacks r t of [] \<Rightarrow> None
     | Using c # fs \<Rightarrow> Some (start_use needs t c fs r)
     | Building c x (d # ds) p # fs \<Rightarrow> Some (r\<lparr>stacks := (stacks r)(t := Using d # Building c x ds p # fs)\<rparr>)
     | Building c x [] p # fs \<Rightarrow> Some (case p of ForUse \<Rightarrow> finish_use t c x fs r | ForAdd own \<Rightarrow> finish_add t c x own fs r))"

text \<open>The loops over all services: their objects in the order of the calls.\<close>

fun shutdown_services :: "service list \<Rightarrow> nat list" where
  "shutdown_services [] = []"
| "shutdown_services (s # ss) = object s # shutdown_services ss"

fun destroy_services :: "service list \<Rightarrow> nat list" where
  "destroy_services [] = []"
| "destroy_services (s # ss) = object s # destroy_services ss"

datatype fork_event = ForkPrepare | ForkParent | ForkChild

definition notify_fork :: "fork_event \<Rightarrow> service list \<Rightarrow> nat list" where
  "notify_fork ev ss = (let n = length ss in
     if ev = ForkPrepare then List.map (\<lambda>i. object (ss ! i)) [0..<n] else List.map (\<lambda>i. object (ss ! (i - 1))) (rev [1..<n + 1]))"

section \<open>What is kept\<close>

lemma keys_match_init [simp]: "keys_match (init_key c) (init_key d) \<longleftrightarrow> c = d"
  by (cases c; cases d) (simp_all add: keys_match_def)

definition objects :: "registry \<Rightarrow> nat set" where
  "objects r = object ` set (services r)"

fun frame_objects :: "frame list \<Rightarrow> nat list" where
  "frame_objects [] = []"
| "frame_objects (Using c # fs) = frame_objects fs"
| "frame_objects (Building c x ds p # fs) = x # frame_objects fs"

definition is_building :: "frame \<Rightarrow> bool" where
  "is_building f = (case f of Using c \<Rightarrow> False | Building c x ds p \<Rightarrow> True)"

text \<open>The services that a service's constructor used come after it in the list.\<close>

fun uses_later :: "(nat \<times> nat) set \<Rightarrow> service list \<Rightarrow> bool" where
  "uses_later U [] = True"
| "uses_later U (s # ss) = ({x. (object s, x) \<in> U} \<subseteq> object ` set ss \<and> uses_later U ss)"

definition list_ok :: "registry \<Rightarrow> bool" where
  "list_ok r = (distinct (List.map object (services r)) \<and> distinct (List.map service_key (services r)) \<and>
     service_key ` set (services r) \<subseteq> range init_key \<and> uses_later (set (used r)) (services r) \<and>
     snd ` set (used r) \<subseteq> objects r)"

definition stack_ok :: "nat \<Rightarrow> registry \<Rightarrow> bool" where
  "stack_ok t r = (list_all is_building (tl (stacks r t)) \<and> distinct (frame_objects (stacks r t)) \<and>
     (\<forall>x \<in> set (frame_objects (stacks r t)). x < next_object r \<and> x \<notin> objects r \<and> x \<notin> set (rejected r)))"

definition stacks_ok :: "registry \<Rightarrow> bool" where
  "stacks_ok r = ((\<forall>t. stack_ok t r) \<and>
     (\<forall>t u x. x \<in> set (frame_objects (stacks r t)) \<longrightarrow> x \<in> set (frame_objects (stacks r u)) \<longrightarrow> t = u))"

definition results_ok :: "registry \<Rightarrow> bool" where
  "results_ok r = (list_all (\<lambda>(t, c, x). \<lparr>object = x, service_key = init_key c\<rparr> \<in> set (services r)) (use_results r) \<and>
     objects r \<inter> set (rejected r) = {} \<and> objects r \<union> set (rejected r) \<subseteq> {..<next_object r} \<and> fst ` set (used r) \<subseteq> {..<next_object r})"

definition registry_ok :: "registry \<Rightarrow> bool" where
  "registry_ok r = (list_ok r \<and> stacks_ok r \<and> results_ok r)"

lemma find_service_Some:
  "service_key ` set ss \<subseteq> range init_key \<Longrightarrow> find_service (init_key c) ss = Some s \<Longrightarrow> s \<in> set ss \<and> service_key s = init_key c"
  by (induction ss) (auto split: if_splits)

lemma find_service_None:
  "service_key ` set ss \<subseteq> range init_key \<Longrightarrow> find_service (init_key c) ss = None \<longleftrightarrow> init_key c \<notin> service_key ` set ss"
  by (induction ss) (auto split: if_splits)

lemma uses_later_add: "y \<notin> object ` set ss \<Longrightarrow> uses_later (insert (y, x) U) ss = uses_later U ss"
  by (induction ss) auto

text \<open>The parts of a step: a frame is popped, a call pushed, an object made, and what becomes of it.\<close>

definition set_stack :: "nat \<Rightarrow> frame list \<Rightarrow> registry \<Rightarrow> registry" where
  "set_stack t fs r = r\<lparr>stacks := (stacks r)(t := fs)\<rparr>"

definition deliver :: "nat \<Rightarrow> service_class \<Rightarrow> nat \<Rightarrow> frame list \<Rightarrow> registry \<Rightarrow> registry" where
  "deliver t c x fs r = (case fs of [] \<Rightarrow> r\<lparr>use_results := use_results r @ [(t, c, x)]\<rparr>
     | Building d y ds p # _ \<Rightarrow> r\<lparr>used := used r @ [(y, x)]\<rparr>
     | Using d # _ \<Rightarrow> r)"

definition reject :: "nat \<Rightarrow> registry \<Rightarrow> registry" where
  "reject x r = r\<lparr>rejected := rejected r @ [x]\<rparr>"

definition loose :: "nat \<Rightarrow> registry \<Rightarrow> bool" where
  "loose x r = (x < next_object r \<and> x \<notin> objects r \<and> x \<notin> set (rejected r) \<and> (\<forall>t. x \<notin> set (frame_objects (stacks r t))))"

lemmas ok_defs = registry_ok_def list_ok_def stack_ok_def stacks_ok_def results_ok_def objects_def

lemma set_stack_simps [simp]:
  "services (set_stack t fs r) = services r" "stacks (set_stack t fs r) = (stacks r)(t := fs)"
  "next_object (set_stack t fs r) = next_object r" "used (set_stack t fs r) = used r" "use_results (set_stack t fs r) = use_results r"
  "rejected (set_stack t fs r) = rejected r" "objects (set_stack t fs r) = objects r" "add_results (set_stack t fs r) = add_results r"
  by (simp_all add: set_stack_def objects_def)

lemma frame_objects_Cons: "set (frame_objects fs) \<subseteq> set (frame_objects (f # fs))" "distinct (frame_objects (f # fs)) \<Longrightarrow> distinct (frame_objects fs)"
  by (cases f; auto)+

lemma stack_okD:
  assumes "registry_ok r" "stacks r t = f # fs"
  shows "list_all is_building fs" "distinct (frame_objects (f # fs))"
    "x \<in> set (frame_objects (f # fs)) \<Longrightarrow> x < next_object r \<and> x \<notin> objects r \<and> x \<notin> set (rejected r)"
    "x \<in> set (frame_objects (f # fs)) \<Longrightarrow> u \<noteq> t \<Longrightarrow> x \<notin> set (frame_objects (stacks r u))"
  using assms unfolding registry_ok_def stacks_ok_def stack_ok_def by (metis list.sel(3))+

lemma set_stack_ok:
  assumes ok: "registry_ok r" and fs: "list_all is_building (tl fs)" "distinct (frame_objects fs)"
    "\<And>x. x \<in> set (frame_objects fs) \<Longrightarrow> x \<in> set (frame_objects (stacks r t)) \<or> loose x r"
  shows "registry_ok (set_stack t fs r)"
proof -
  have a: "stack_ok u (set_stack t fs r)" for u
    using ok fs by (auto simp: registry_ok_def stacks_ok_def stack_ok_def loose_def)
  have b: "u = v" if "x \<in> set (frame_objects (stacks (set_stack t fs r) u))" "x \<in> set (frame_objects (stacks (set_stack t fs r) v))" for u v x
    using that ok fs(3) [of x] by (auto simp: registry_ok_def stacks_ok_def loose_def split: if_splits)
  have "stacks_ok (set_stack t fs r)" unfolding stacks_ok_def using a b by blast
  then show ?thesis using ok by (simp add: registry_ok_def list_ok_def results_ok_def)
qed

lemma popped_ok:
  assumes ok: "registry_ok r" and s: "stacks r t = f # fs"
  shows "registry_ok (set_stack t fs r)"
proof (rule set_stack_ok [OF ok])
  show "list_all is_building (tl fs)" using stack_okD(1) [OF ok s] by (cases fs) auto
  show "distinct (frame_objects fs)" using stack_okD(2) [OF ok s] by (rule frame_objects_Cons)
qed (use frame_objects_Cons(1) [of fs f] s in auto)

lemma popped_loose:
  assumes ok: "registry_ok r" and s: "stacks r t = Building c x ds p # fs"
  shows "loose x (set_stack t fs r)"
  using stack_okD [OF ok s] by (auto simp: loose_def)

lemma call_ok:
  assumes "registry_ok r" "stacks r t = fs" "list_all is_building fs"
  shows "registry_ok (set_stack t (Using d # fs) r)"
  by (rule set_stack_ok [OF assms(1)]) (use assms in \<open>auto simp: registry_ok_def stacks_ok_def stack_ok_def\<close>)

lemma bump_ok:
  assumes "registry_ok r"
  shows "registry_ok (r\<lparr>next_object := next_object r + 1\<rparr>) \<and> loose (next_object r) (r\<lparr>next_object := next_object r + 1\<rparr>)"
  using assms by (fastforce simp: ok_defs loose_def)

lemma make_ok:
  assumes ok: "registry_ok r" and "stacks r t = fs" "list_all is_building fs"
  shows "registry_ok (set_stack t (Building c (next_object r) ds p # fs) (r\<lparr>next_object := next_object r + 1\<rparr>))"
proof (rule set_stack_ok [OF conjunct1 [OF bump_ok [OF ok]]])
  show "distinct (frame_objects (Building c (next_object r) ds p # fs))"
    using ok assms(2) by (auto simp: registry_ok_def stacks_ok_def stack_ok_def)
qed (use assms conjunct2 [OF bump_ok [OF ok]] in auto)

lemma deliver_ok:
  assumes ok: "registry_ok r" and s: "stacks r t = fs" and x: "\<lparr>object = x, service_key = init_key c\<rparr> \<in> set (services r)"
  shows "registry_ok (deliver t c x fs r)"
proof (cases fs)
  case Nil
  then show ?thesis using ok x by (auto simp: ok_defs deliver_def)
next
  case (Cons f gs)
  have o: "x \<in> objects r" using x by (force simp: objects_def)
  show ?thesis
  proof (cases f)
    case (Building d y ds p)
    have y: "y < next_object r" "y \<notin> object ` set (services r)"
      using stack_okD(3) [OF ok s [unfolded Cons], of y] Building by (simp_all add: objects_def)
    then show ?thesis using ok o Cons Building by (auto simp: ok_defs deliver_def uses_later_add)
  qed (use ok Cons in \<open>simp add: deliver_def\<close>)
qed

lemma reject_ok: "registry_ok r \<Longrightarrow> loose x r \<Longrightarrow> registry_ok (reject x r)"
  by (auto simp: ok_defs loose_def reject_def)

lemma push_service_ok:
  assumes "registry_ok r" "loose x r" "init_key c \<notin> service_key ` set (services r)"
  shows "registry_ok (push_service c x r) \<and> \<lparr>object = x, service_key = init_key c\<rparr> \<in> set (services (push_service c x r))"
  using assms by (auto simp: ok_defs loose_def push_service_def list_all_iff)

text \<open>The steps as their parts.\<close>

lemma return_service_eq: "return_service t c x fs r = deliver t c x fs (set_stack t fs r)"
  by (cases r) (simp add: return_service_def deliver_def set_stack_def Let_def)

lemma finish_use_eq:
  "finish_use t c x fs r = (let r1 = set_stack t fs r in case find_service (init_key c) (services r1) of
     Some s \<Rightarrow> deliver t c (object s) fs (reject x r1)
   | None \<Rightarrow> deliver t c x fs (push_service c x r1))"
  by (cases r) (simp add: finish_use_def return_service_eq reject_def push_service_def set_stack_def split: option.split)

lemma found_service:
  assumes "registry_ok r" "find_service (init_key c) (services r) = Some s"
  shows "\<lparr>object = object s, service_key = init_key c\<rparr> \<in> set (services r)"
proof -
  have "s \<in> set (services r)" "service_key s = init_key c"
    using find_service_Some [OF _ assms(2)] assms(1) by (simp_all add: registry_ok_def list_ok_def)
  then show ?thesis by (metis service.surjective old.unit.exhaust)
qed

lemma missing_service:
  "registry_ok r \<Longrightarrow> find_service (init_key c) (services r) = None \<Longrightarrow> init_key c \<notin> service_key ` set (services r)"
  using find_service_None by (simp add: registry_ok_def list_ok_def)

lemma start_use_ok:
  assumes ok: "registry_ok r" and s: "stacks r t = Using c # fs"
  shows "registry_ok (start_use needs t c fs r)"
proof -
  note p = popped_ok [OF ok s]
  have b: "list_all is_building fs" using stack_okD(1) [OF ok s] .
  show ?thesis
  proof (cases "find_service (init_key c) (services r)")
    case None
    have "registry_ok (set_stack t (Building c (next_object r) (needs c) ForUse # fs) (set_stack t fs r\<lparr>next_object := next_object r + 1\<rparr>))"
      using make_ok [OF p _ b, of t c "needs c" ForUse] by simp
    then show ?thesis using None by (cases r) (simp add: start_use_def set_stack_def)
  next
    case (Some v)
    then show ?thesis using deliver_ok [OF p _ found_service [OF p]] by (simp add: start_use_def return_service_eq)
  qed
qed

lemma finish_use_ok:
  assumes ok: "registry_ok r" and s: "stacks r t = Building c x ds p # fs"
  shows "registry_ok (finish_use t c x fs r)"
proof -
  note p = popped_ok [OF ok s] and l = popped_loose [OF ok s]
  show ?thesis
  proof (cases "find_service (init_key c) (services r)")
    case None
    show ?thesis
      using None deliver_ok [of "push_service c x (set_stack t fs r)" t fs x c] push_service_ok [OF p l missing_service [OF p]]
      by (simp add: finish_use_eq push_service_def)
  next
    case (Some v)
    then show ?thesis using deliver_ok [of "reject x (set_stack t fs r)" t fs "object v" c] reject_ok [OF p l] found_service [OF p, of c v]
      by (simp add: finish_use_eq reject_def)
  qed
qed

lemma add_results_ok: "registry_ok (r\<lparr>add_results := a\<rparr>) = registry_ok r"
  by (simp add: ok_defs)

lemma finish_add_ok:
  assumes ok: "registry_ok r" and s: "stacks r t = Building c x ds p # fs"
  shows "registry_ok (finish_add t c x own fs r)"
proof -
  note p = popped_ok [OF ok s] and l = popped_loose [OF ok s]
  have "registry_ok ((reject x (set_stack t fs r))\<lparr>add_results := a\<rparr>)" for a
    unfolding add_results_ok using reject_ok [OF p l] .
  moreover have "registry_ok ((push_service c x (set_stack t fs r))\<lparr>add_results := a\<rparr>)"
    if "find_service (init_key c) (services r) = None" for a
    unfolding add_results_ok using push_service_ok [OF p l missing_service [OF p]] that by simp
  ultimately show ?thesis by (cases r) (simp add: finish_add_def Let_def reject_def push_service_def set_stack_def)
qed

lemma registry_step_ok:
  assumes ok: "registry_ok r" and s: "registry_step needs r a = Some r1"
  shows "registry_ok r1"
proof (cases a)
  case (Use t c)
  then show ?thesis using s call_ok [OF ok, of t "[]" c] by (auto simp: set_stack_def split: if_splits)
next
  case (Add t c own)
  then show ?thesis using s make_ok [OF ok, of t "[]" c "needs c" "ForAdd own"] by (cases r) (auto simp: set_stack_def split: if_splits)
next
  case (Continue t)
  show ?thesis
  proof (cases "stacks r t")
    case (Cons f fs)
    show ?thesis
    proof (cases f)
      case (Using c)
      then show ?thesis using s Continue Cons start_use_ok [OF ok] by auto
    next
      case (Building c x ds p)
      show ?thesis
      proof (cases ds)
        case Nil
        then show ?thesis using s Continue Cons Building finish_use_ok [OF ok] finish_add_ok [OF ok] by (auto split: purpose.splits)
      next
        case (Cons d es)
        note st = \<open>stacks r t = f # fs\<close> [unfolded Building Cons]
        have b: "list_all is_building (Building c x es p # fs)" using stack_okD(1) [OF ok st] by (simp add: is_building_def)
        have "registry_ok (set_stack t (Using d # Building c x es p # fs) r)"
          by (rule set_stack_ok [OF ok]) (use b st stack_okD(2) [OF ok st] in auto)
        then show ?thesis using s Continue st by (simp add: set_stack_def)
      qed
    qed
  qed (use s Continue in simp)
qed

lemma new_registry_ok: "registry_ok new_registry"
  by (auto simp: ok_defs new_registry_def)

interpretation services: invariant_system "registry_step needs" new_registry registry_ok for needs
  by unfold_locales (rule new_registry_ok, rule registry_step_ok)

section \<open>One service of a class\<close>

lemma registered_once:
  assumes "registry_ok r" "\<lparr>object = x, service_key = init_key c\<rparr> \<in> set (services r)" "\<lparr>object = y, service_key = init_key d\<rparr> \<in> set (services r)"
  shows "x = y \<longleftrightarrow> c = d"
proof
  have d: "inj_on object (set (services r))" "inj_on service_key (set (services r))" using assms(1)
    by (simp_all add: registry_ok_def list_ok_def distinct_map)
  show "c = d" if "x = y"
  proof -
    have "init_key c = init_key d" using inj_onD [OF d(1) _ assms(2,3)] that by simp
    then show "c = d" by (metis keys_match_init)
  qed
  show "x = y" if "c = d" using inj_onD [OF d(2) _ assms(2,3)] that by simp
qed

text \<open>C13: There is one service of a class: whatever threads use and add services at the same time, and whatever services their
  constructors use, two uses give the same object if and only if they are for the same class, and what a use gives is
  registered and has not been destroyed as the loser of a race.\<close>
theorem one_service_per_class:
  assumes "reachable (registry_step needs) new_registry r" "(t, c, x) \<in> set (use_results r)" "(u, d, y) \<in> set (use_results r)"
  shows "(x = y \<longleftrightarrow> c = d) \<and> has_service c r \<and> x \<in> objects r \<and> x \<notin> set (rejected r)"
proof -
  have ok: "registry_ok r" using assms(1) by (rule services.reachable_inv)
  have m: "\<lparr>object = x, service_key = init_key c\<rparr> \<in> set (services r)" "\<lparr>object = y, service_key = init_key d\<rparr> \<in> set (services r)"
    using ok assms(2,3) by (auto simp: registry_ok_def results_ok_def list_all_iff)
  have "has_service c r" using missing_service [OF ok, of c] m(1) by (force simp: has_service_def)
  moreover have "x \<in> objects r" using m(1) by (force simp: objects_def)
  ultimately show ?thesis using registered_once [OF ok m] ok by (auto simp: registry_ok_def results_ok_def)
qed

text \<open>Two threads construct one service at the same time; its constructor uses another.\<close>

definition race_needs :: "service_class \<Rightarrow> service_class list" where
  "race_needs c = (if c = ByType 0 then [ById 0] else [])"

definition race :: "registry_action list" where
  "race = [Use 0 (ByType 0), Use 1 (ByType 0), Continue 0, Continue 1,
     Continue 0, Continue 0, Continue 0, Continue 0, Continue 1, Continue 1, Continue 1]"

definition raced :: registry where
  "raced = the (run (registry_step race_needs) new_registry race)"

lemma raced_eq:
  "run (registry_step race_needs) new_registry race = Some raced" "use_results raced = [(0, ByType 0, 0), (1, ByType 0, 0)]"
  "rejected raced = [1]" "used raced = [(0, 2), (1, 2)]"
  "services raced = [\<lparr>object = 0, service_key = init_key (ByType 0)\<rparr>, \<lparr>object = 2, service_key = init_key (ById 0)\<rparr>]"
  by (simp_all add: raced_def race_def new_registry_def start_use_def finish_use_def return_service_def push_service_def
      race_needs_def keys_match_def)

lemma raced_reachable: "reachable (registry_step race_needs) new_registry raced"
  using raced_eq(1) by (rule run_reachable)

theorem one_service_per_class_witness: "has_service (ByType 0) raced \<and> 0 \<in> objects raced \<and> 0 \<notin> set (rejected raced)"
  using one_service_per_class [OF raced_reachable, of 0 "ByType 0" 0 1 "ByType 0" 0] by (simp add: raced_eq)

section \<open>The order of destruction\<close>

lemma destroy_services_eq: "destroy_services ss = List.map object ss" "shutdown_services ss = List.map object ss"
  by (induction ss) simp_all

lemma uses_later_split: "uses_later U (as @ s # bs) \<Longrightarrow> {x. (object s, x) \<in> U} \<subseteq> object ` set bs"
  by (induction as) auto

text \<open>Services are shut down and destroyed before the services they use: what a service's constructor used comes after it in
  both orders, so its destructor may still refer to it, whatever threads registered them and whichever won the races.\<close>
theorem destroyed_before_used:
  assumes "reachable (registry_step needs) new_registry r" "destroy_services (services r) = as @ x # bs"
  shows "shutdown_services (services r) = as @ x # bs \<and> {y. (x, y) \<in> set (used r)} \<subseteq> set bs"
proof -
  have ok: "registry_ok r" using assms(1) by (rule services.reachable_inv)
  have m: "List.map object (services r) = as @ x # bs" using assms(2) by (simp add: destroy_services_eq)
  then obtain as1 s bs1 where s: "services r = as1 @ s # bs1" "x = object s" "bs = List.map object bs1"
    by (auto simp: map_eq_append_conv Cons_eq_map_conv)
  have "uses_later (set (used r)) (services r)" using ok by (simp add: registry_ok_def list_ok_def)
  then show ?thesis using uses_later_split [of "set (used r)" as1 s bs1] m s by (simp add: destroy_services_eq)
qed

theorem destroyed_before_used_witness: "{y. (0, y) \<in> set (used raced)} \<subseteq> set [2]"
  using destroyed_before_used [OF raced_reachable, of "[]" 0 "[2]"] by (simp add: raced_eq)

text \<open>A fork is announced to the services in this order, and its end in the reverse.\<close>

lemma notify_fork_order:
  "notify_fork ForkPrepare ss = shutdown_services ss" "ev \<noteq> ForkPrepare \<Longrightarrow> notify_fork ev ss = rev (notify_fork ForkPrepare ss)"
proof -
  show "notify_fork ForkPrepare ss = shutdown_services ss"
    by (rule nth_equalityI) (simp_all add: notify_fork_def destroy_services_eq)
  have up: "[1..<length ss + 1] = List.map Suc [0..<length ss]" by (simp add: map_Suc_upt del: upt_Suc)
  have "List.map (\<lambda>i. object (ss ! (i - 1))) [1..<length ss + 1] = List.map (\<lambda>i. object (ss ! i)) [0..<length ss]"
    unfolding up by (simp add: comp_def)
  then show "ev \<noteq> ForkPrepare \<Longrightarrow> notify_fork ev ss = rev (notify_fork ForkPrepare ss)"
    by (simp add: notify_fork_def rev_map [symmetric] del: upt_Suc)
qed

section \<open>Every use returns\<close>

definition finishes :: "(service_class \<Rightarrow> service_class list) \<Rightarrow> nat \<Rightarrow> frame list \<Rightarrow> registry \<Rightarrow> bool" where
  "finishes needs t fs r = (\<exists>n r1. run (registry_step needs) r (replicate n (Continue t)) = Some r1 \<and> stacks r1 t = fs)"

lemma finishes_now: "stacks r t = fs \<Longrightarrow> finishes needs t fs r"
  unfolding finishes_def by (rule exI [of _ 0]) simp

lemma finishes_step: "registry_step needs r (Continue t) = Some r1 \<Longrightarrow> finishes needs t fs r1 \<Longrightarrow> finishes needs t fs r"
  unfolding finishes_def by (elim exE) (rule_tac x = "Suc n" in exI, simp)

lemma finishes_trans:
  assumes "finishes needs t gs r" "\<And>r1. stacks r1 t = gs \<Longrightarrow> finishes needs t fs r1"
  shows "finishes needs t fs r"
proof -
  obtain n r1 where 1: "run (registry_step needs) r (replicate n (Continue t)) = Some r1" "stacks r1 t = gs"
    using assms(1) by (auto simp: finishes_def)
  obtain m r2 where 2: "run (registry_step needs) r1 (replicate m (Continue t)) = Some r2" "stacks r2 t = fs"
    using assms(2) [OF 1(2)] by (auto simp: finishes_def)
  have "run (registry_step needs) r (replicate (n + m) (Continue t)) = Some r2"
    by (simp add: replicate_add run_append 1(1) 2(1))
  then show ?thesis using 2(2) unfolding finishes_def by blast
qed

lemma return_stack [simp]: "stacks (return_service t c x fs r) t = fs"
  by (cases fs) (auto simp: return_service_def Let_def split: frame.split)

text \<open>A constructor returns when the uses it still makes do.\<close>

lemma constructor_returns:
  assumes "\<And>d r gs. d \<in> set ds \<Longrightarrow> stacks r t = Using d # gs \<Longrightarrow> finishes needs t gs r" "stacks r t = Building c x ds p # fs"
  shows "finishes needs t fs r"
  using assms
proof (induction ds arbitrary: r)
  case Nil
  let ?r = "case p of ForUse \<Rightarrow> finish_use t c x fs r | ForAdd own \<Rightarrow> finish_add t c x own fs r"
  have "stacks ?r t = fs" by (simp add: finish_use_def finish_add_def push_service_def Let_def split: purpose.split option.split)
  then show ?case using Nil by (intro finishes_step [OF _ finishes_now, of needs r t ?r]) simp_all
next
  case (Cons d ds)
  let ?r = "r\<lparr>stacks := (stacks r)(t := Using d # Building c x ds p # fs)\<rparr>"
  have u: "finishes needs t (Building c x ds p # fs) ?r" by (rule Cons.prems(1)) simp_all
  have "finishes needs t fs r1" if "stacks r1 t = Building c x ds p # fs" for r1
    by (rule Cons.IH [OF _ that]) (rule Cons.prems(1), simp_all)
  then have "finishes needs t fs ?r" by (rule finishes_trans [OF u])
  then show ?case by (rule finishes_step [rotated]) (simp add: Cons.prems(2))
qed

lemma use_returns:
  assumes rank: "\<And>c d. d \<in> set (needs c) \<Longrightarrow> rank d < (rank c :: nat)"
  shows "stacks r t = Using c # fs \<Longrightarrow> finishes needs t fs r"
proof (induction "rank c" arbitrary: c r fs rule: less_induct)
  case less
  show ?case
  proof (cases "find_service (init_key c) (services r)")
    case None
    let ?r = "start_use needs t c fs r"
    have s: "stacks ?r t = Building c (next_object r) (needs c) ForUse # fs" using None by (simp add: start_use_def)
    have "finishes needs t fs ?r" by (rule constructor_returns [OF _ s]) (rule less.hyps [OF rank])
    then show ?thesis using less.prems by (intro finishes_step [of needs r t ?r]) simp_all
  next
    case (Some v)
    then show ?thesis using less.prems
      by (intro finishes_step [OF _ finishes_now, of needs r t "start_use needs t c fs r"]) (simp_all add: start_use_def)
  qed
qed

text \<open>Every use and every addition of a service returns, when no constructor uses its own class through others: a thread
  that goes on by itself, from any state that the other threads have left, comes to the end of all its calls.\<close>
theorem service_calls_return:
  assumes "\<And>c d. d \<in> set (needs c) \<Longrightarrow> rank d < (rank c :: nat)"
  shows "finishes needs t [] r"
proof -
  have "finishes needs t [] r" if "stacks r t = fs" for fs
    using that
  proof (induction fs arbitrary: r)
    case Nil
    then show ?case by (rule finishes_now)
  next
    case (Cons f fs)
    have "finishes needs t fs r"
    proof (cases f)
      case (Using c)
      then show ?thesis using use_returns [OF assms] Cons.prems by simp
    next
      case (Building c x ds p)
      then show ?thesis using constructor_returns [OF use_returns [OF assms]] Cons.prems by simp
    qed
    then show ?case by (rule finishes_trans) (rule Cons.IH)
  qed
  then show ?thesis by simp
qed

theorem service_calls_return_witness:
  "finishes race_needs 0 [] (the (run (registry_step race_needs) new_registry [Use 0 (ByType 0)]))"
  by (rule service_calls_return [of race_needs "\<lambda>c. if c = ByType 0 then 1 else 0"]) (auto simp: race_needs_def split: if_splits)

end
