(* ===== verification/AsioReactor.thy ===== *)
theory AsioReactor
  imports AsioReactorQueue
begin

text \<open>
  The reactor of Linux (\<open>detail/impl/epoll_reactor.ipp\<close>) at one descriptor: its queues of operations, the attempts to perform one
  at once, the edge-triggered events of the system and their way through the scheduler to \<open>perform_io\<close>. A step is what a
  thread does under the descriptor's mutex between two system calls, so that the descriptor may become ready
  between them. How an operation attempts its system call is a parameter, and so is the descriptor.
\<close>

section \<open>The descriptor\<close>

definition read_op :: nat where "read_op = 0"
definition write_op :: nat where "write_op = 1"
definition except_op :: nat where "except_op = 2"
definition max_ops :: nat where "max_ops = 3"

lemmas op_types = read_op_def write_op_def except_op_def max_ops_def

datatype event = EpollIn | EpollOut | EpollPri | EpollErr | EpollHup

text \<open>\<open>EPOLLET\<close> is always set. The numbers of the errors are those of Linux.\<close>

definition base_events :: "event set" where
  "base_events = {EpollIn, EpollErr, EpollHup, EpollPri}"

definition event_of :: "nat \<Rightarrow> event" where
  "event_of j = (if j = read_op then EpollIn else if j = write_op then EpollOut else EpollPri)"

definition hits :: "nat \<Rightarrow> event set \<Rightarrow> bool" where
  "hits j evs = (event_of j \<in> evs \<or> EpollErr \<in> evs \<or> EpollHup \<in> evs)"

definition operation_aborted :: int where "operation_aborted = 125"
definition operation_not_supported :: int where "operation_not_supported = 95"
definition bad_descriptor :: int where "bad_descriptor = 9"

datatype status = NotDone | Done | DoneAndExhausted

text \<open>An attempt of an operation of a type, at a state of the descriptor; when the descriptor is ready for a type.\<close>

record 'd descriptor_ops =
  attempt_op :: "nat \<Rightarrow> reactor_op \<Rightarrow> 'd \<Rightarrow> status \<times> reactor_op \<times> 'd"
  is_ready :: "nat \<Rightarrow> 'd \<Rightarrow> bool"

text \<open>The thread that has the mutex: in \<open>start_op\<close> before \<open>epoll_ctl\<close> after a failed attempt or without one, or before the
  operation is pushed; in \<open>perform_io\<close> with the types below a number still to look at, or in the loop of a type.\<close>

datatype section_pc = Idle | Modding nat reactor_op | Rearming nat reactor_op | Pushing nat reactor_op
  | Performing nat "event set" "reactor_op list" | Looping nat "event set" "reactor_op list"

record 'd descriptor =
  descriptor_data :: bool
  refused :: bool
  shutdown_flag :: bool
  registered_events :: "event set"
  op_queues :: "nat \<Rightarrow> reactor_op list"
  try_speculative :: "nat \<Rightarrow> bool"
  in_section :: section_pc
  epoll_set :: "event set option"
  pending :: "event set"
  task_result :: "event set option"
  performers :: "event set list"
  device :: 'd
  started_ops :: "nat list"
  work_count :: int
  posted :: "reactor_op list"
  completed :: "reactor_op list"

definition new_descriptor :: "'d \<Rightarrow> 'd descriptor" where
  "new_descriptor d = \<lparr>descriptor_data = False, refused = False, shutdown_flag = False, registered_events = {}, op_queues = (\<lambda>j. []),
     try_speculative = (\<lambda>j. True), in_section = Idle, epoll_set = None, pending = {}, task_result = None, performers = [],
     device = d, started_ops = [], work_count = 0, posted = [], completed = []\<rparr>"

text \<open>What the system promises of \<open>epoll_ctl\<close>: it reports the events that the descriptor is ready for.\<close>

text \<open>\<open>epoll_set\<close> has the events that the system watches, \<open>registered_events\<close> those that the reactor believes it does.\<close>

definition ready_events :: "'d descriptor_ops \<Rightarrow> event set \<Rightarrow> 'd \<Rightarrow> event set" where
  "ready_events A evs d = {event_of j | j. j < max_ops \<and> is_ready A j d} \<inter> evs"

definition rearm :: "'d descriptor_ops \<Rightarrow> 'd descriptor \<Rightarrow> 'd descriptor" where
  "rearm A s = s\<lparr>epoll_set := Some (registered_events s), pending := pending s \<union> ready_events A (registered_events s) (device s)\<rparr>"

text \<open>\<open>register_descriptor\<close>: the system accepts the descriptor, does not support it (\<open>EPERM\<close>), or refuses it. Then the state that was
  allocated stays behind; the caller does not open its socket (\<open>do_open\<close>), so that no operation is started on it, and
  the next registration allocates another one. \<open>refused\<close> records this.\<close>

datatype ctl_result = CtlOk | CtlUnsupported | CtlFailed

definition register_descriptor :: "'d descriptor_ops \<Rightarrow> ctl_result \<Rightarrow> 'd descriptor \<Rightarrow> 'd descriptor" where
  "register_descriptor A res s0 =
     (let s = s0\<lparr>descriptor_data := True, shutdown_flag := False, try_speculative := (\<lambda>j. True), registered_events := base_events, refused := (res = CtlFailed)\<rparr> in
      case res of CtlOk \<Rightarrow> rearm A s
      | CtlUnsupported \<Rightarrow> s\<lparr>registered_events := {}\<rparr>
      | CtlFailed \<Rightarrow> s)"

text \<open>\<open>on_immediate\<close>: the operation's completion is posted, which counts as work.\<close>

definition immediate :: "reactor_op \<Rightarrow> 'd descriptor \<Rightarrow> 'd descriptor" where
  "immediate op s = s\<lparr>posted := posted s @ [op], work_count := work_count s + 1, in_section := Idle\<rparr>"

text \<open>\<open>start_op\<close> from the place where an attempt has failed or was not made, and from its beginning.\<close>

definition wait_for_event :: "nat \<Rightarrow> reactor_op \<Rightarrow> 'd descriptor \<Rightarrow> 'd descriptor" where
  "wait_for_event j op s =
     (if registered_events s = {} then immediate (op\<lparr>op_ec := operation_not_supported\<rparr>) s
      else if j = write_op \<and> EpollOut \<notin> registered_events s then s\<lparr>in_section := Modding j op\<rparr>
      else s\<lparr>in_section := Pushing j op\<rparr>)"

definition start_op :: "'d descriptor_ops \<Rightarrow> nat \<Rightarrow> reactor_op \<Rightarrow> bool \<Rightarrow> 'd descriptor \<Rightarrow> 'd descriptor" where
  "start_op A j op allow_speculative s0 =
     (let s = s0\<lparr>started_ops := started_ops s0 @ [op_name op]\<rparr> in
      if \<not> descriptor_data s then immediate (op\<lparr>op_ec := bad_descriptor\<rparr>) s
      else if shutdown_flag s then immediate op s
      else if op_queues s j = [] then
        if allow_speculative \<and> (j \<noteq> read_op \<or> op_queues s except_op = []) then
          if try_speculative s j then
            (let (st, op1, d) = attempt_op A j op (device s); s1 = s\<lparr>device := d\<rparr> in
             if st \<noteq> NotDone then
               immediate op1 (if st = DoneAndExhausted \<and> registered_events s1 \<noteq> {}
                 then s1\<lparr>try_speculative := (try_speculative s1)(j := False)\<rparr> else s1)
             else wait_for_event j op1 s1)
          else wait_for_event j op s
        else if registered_events s = {} then immediate (op\<lparr>op_ec := operation_not_supported\<rparr>) s
        else s\<lparr>registered_events := (if j = write_op then insert EpollOut (registered_events s) else registered_events s),
               in_section := Rearming j op\<rparr>
      else s\<lparr>in_section := Pushing j op\<rparr>)"

definition mod_for_write :: "'d descriptor_ops \<Rightarrow> int option \<Rightarrow> nat \<Rightarrow> reactor_op \<Rightarrow> 'd descriptor \<Rightarrow> 'd descriptor" where
  "mod_for_write A err j op s = (case err of
     None \<Rightarrow> rearm A (s\<lparr>registered_events := insert EpollOut (registered_events s)\<rparr>)\<lparr>in_section := Pushing j op\<rparr>
   | Some e \<Rightarrow> immediate (op\<lparr>op_ec := e\<rparr>) s)"

definition push_op :: "nat \<Rightarrow> reactor_op \<Rightarrow> 'd descriptor \<Rightarrow> 'd descriptor" where
  "push_op j op s = s\<lparr>op_queues := (op_queues s)(j := op_queues s j @ [op]), work_count := work_count s + 1, in_section := Idle\<rparr>"

text \<open>\<open>perform_io\<close>: from the highest type down; the loop of a type.\<close>

definition next_type :: "nat \<Rightarrow> event set \<Rightarrow> reactor_op list \<Rightarrow> 'd descriptor \<Rightarrow> 'd descriptor" where
  "next_type j evs ops s =
     (if hits j evs then s\<lparr>try_speculative := (try_speculative s)(j := True), in_section := Looping j evs ops\<rparr>
      else s\<lparr>in_section := Performing j evs ops\<rparr>)"

definition perform_next :: "'d descriptor_ops \<Rightarrow> nat \<Rightarrow> event set \<Rightarrow> reactor_op list \<Rightarrow> 'd descriptor \<Rightarrow> 'd descriptor" where
  "perform_next A j evs ops s = (case op_queues s j of
     [] \<Rightarrow> s\<lparr>in_section := Performing j evs ops\<rparr>
   | op # q \<Rightarrow>
       (let (st, op1, d) = attempt_op A j op (device s); s1 = s\<lparr>device := d\<rparr> in
        case st of
          NotDone \<Rightarrow> s1\<lparr>op_queues := (op_queues s1)(j := op1 # q), in_section := Performing j evs ops\<rparr>
        | Done \<Rightarrow> s1\<lparr>op_queues := (op_queues s1)(j := q), in_section := Looping j evs (ops @ [op1])\<rparr>
        | DoneAndExhausted \<Rightarrow> s1\<lparr>op_queues := (op_queues s1)(j := q), try_speculative := (try_speculative s1)(j := False),
            in_section := Performing j evs (ops @ [op1])\<rparr>))"

text \<open>The first operation is completed by this thread, and the scheduler counts the work done after that; the others are
  posted. Without one the scheduler's count is compensated.\<close>

definition finish_perform :: "reactor_op list \<Rightarrow> 'd descriptor \<Rightarrow> 'd descriptor" where
  "finish_perform ops s0 = (let s = s0\<lparr>in_section := Idle\<rparr> in case ops of
     [] \<Rightarrow> s\<lparr>work_count := work_count s + 1 - 1\<rparr>
   | op # rest \<Rightarrow> s\<lparr>posted := posted s @ rest, completed := completed s @ [op], work_count := work_count s - 1\<rparr>)"

fun section_step :: "'d descriptor_ops \<Rightarrow> int option \<Rightarrow> 'd descriptor \<Rightarrow> 'd descriptor option" where
  "section_step A err s = (case in_section s of
     Idle \<Rightarrow> None
   | Modding j op \<Rightarrow> Some (mod_for_write A err j op s)
   | Rearming j op \<Rightarrow> Some (rearm A s\<lparr>in_section := Pushing j op\<rparr>)
   | Pushing j op \<Rightarrow> Some (push_op j op s)
   | Performing n evs ops \<Rightarrow> Some (case n of 0 \<Rightarrow> finish_perform ops s | Suc j \<Rightarrow> next_type j evs ops s)
   | Looping j evs ops \<Rightarrow> Some (perform_next A j evs ops s))"

text \<open>Cancellation and deregistration.\<close>

fun abort_all :: "reactor_op list \<Rightarrow> reactor_op list \<Rightarrow> reactor_op list" where
  "abort_all ops [] = ops"
| "abort_all ops (op # q) = abort_all (ops @ [with_ec operation_aborted op]) q"

definition abort_queues :: "'d descriptor \<Rightarrow> 'd descriptor" where
  "abort_queues s = s\<lparr>op_queues := (\<lambda>j. if j < max_ops then [] else op_queues s j),
     posted := posted s @ abort_all (abort_all (abort_all [] (op_queues s 0)) (op_queues s 1)) (op_queues s 2)\<rparr>"

definition cancel_ops :: "'d descriptor \<Rightarrow> 'd descriptor" where
  "cancel_ops s = (if \<not> descriptor_data s then s else abort_queues s)"

definition cancel_ops_by_key :: "nat \<Rightarrow> nat \<Rightarrow> 'd descriptor \<Rightarrow> 'd descriptor" where
  "cancel_ops_by_key j key s = (if \<not> descriptor_data s then s
     else (let (result, ops, other) = cancel_key_loop key operation_aborted False [] [] (op_queues s j)
           in s\<lparr>op_queues := (op_queues s)(j := other), posted := posted s @ ops\<rparr>))"

text \<open>A descriptor that is closed leaves the system's set with that.\<close>

definition deregister_descriptor :: "'d descriptor \<Rightarrow> 'd descriptor" where
  "deregister_descriptor s = (if \<not> descriptor_data s then s
     else if \<not> shutdown_flag s then (abort_queues s)\<lparr>shutdown_flag := True, epoll_set := None, pending := {}\<rparr>
     else s\<lparr>descriptor_data := False\<rparr>)"

definition cleanup_descriptor_data :: "'d descriptor \<Rightarrow> 'd descriptor" where
  "cleanup_descriptor_data s = s\<lparr>descriptor_data := False\<rparr>"

text \<open>\<open>run\<close> with an event of the descriptor: its operation is queued with the events, or has them added.\<close>

definition reactor_run :: "'d descriptor \<Rightarrow> 'd descriptor" where
  "reactor_run s = s\<lparr>pending := {}, task_result := (case task_result s of None \<Rightarrow> Some (pending s) | Some evs \<Rightarrow> Some (evs \<union> pending s))\<rparr>"

text \<open>The steps. \<open>Changes\<close> is what happens to the descriptor from outside: whenever it becomes ready for a type, the system
  reports an event for it. \<open>Dequeue\<close>: a thread of the scheduler takes the descriptor's operation with its events.\<close>

datatype 'd reactor_action = Register ctl_result | StartOp nat reactor_op bool | Section "int option"
  | CancelOps | CancelByKey nat nat | Deregister | Cleanup | RunReactor | Dequeue | PerformIo nat
  | Changes 'd "event set" | CompletePosted

fun reactor_step :: "'d descriptor_ops \<Rightarrow> 'd descriptor \<Rightarrow> 'd reactor_action \<Rightarrow> 'd descriptor option" where
  "reactor_step A s (Register res) = (if (\<not> descriptor_data s \<or> refused s) \<and> epoll_set s = None \<and> in_section s = Idle
     then Some (register_descriptor A res s) else None)"
| "reactor_step A s (StartOp j op allow) = (if in_section s = Idle \<and> \<not> refused s \<and> j < max_ops then Some (start_op A j op allow s) else None)"
| "reactor_step A s (Section err) = section_step A err s"
| "reactor_step A s CancelOps = (if in_section s = Idle \<and> \<not> refused s then Some (cancel_ops s) else None)"
| "reactor_step A s (CancelByKey j key) = (if in_section s = Idle \<and> \<not> refused s \<and> j < max_ops then Some (cancel_ops_by_key j key s) else None)"
| "reactor_step A s Deregister = (if in_section s = Idle \<and> \<not> refused s then Some (deregister_descriptor s) else None)"
| "reactor_step A s Cleanup = (if descriptor_data s \<and> shutdown_flag s then Some (cleanup_descriptor_data s) else None)"
| "reactor_step A s RunReactor = (if pending s \<noteq> {} then Some (reactor_run s) else None)"
| "reactor_step A s Dequeue = (case task_result s of None \<Rightarrow> None
     | Some evs \<Rightarrow> Some (s\<lparr>task_result := None, performers := performers s @ [evs]\<rparr>))"
| "reactor_step A s (PerformIo i) = (if in_section s = Idle \<and> i < length (performers s)
     then Some (s\<lparr>performers := take i (performers s) @ drop (Suc i) (performers s), in_section := Performing max_ops (performers s ! i) []\<rparr>)
     else None)"
| "reactor_step A s (Changes d evs) = (if list_all (\<lambda>j. is_ready A j d \<longrightarrow> is_ready A j (device s) \<or> hits j evs) [read_op, write_op, except_op]
     then Some (s\<lparr>device := d, pending := pending s \<union> (case epoll_set s of None \<Rightarrow> {} | Some m \<Rightarrow> evs \<inter> (m \<union> {EpollErr, EpollHup}))\<rparr>)
     else None)"
| "reactor_step A s CompletePosted = (case posted s of [] \<Rightarrow> None
     | op # ops \<Rightarrow> Some (s\<lparr>posted := ops, completed := completed s @ [op], work_count := work_count s - 1\<rparr>))"

section \<open>Timeouts\<close>

text \<open>The timeout of \<open>run\<close> in milliseconds, and that of the timers' descriptor: seconds, nanoseconds, and whether it is in the past.
  The waits of the timer queues are a parameter.\<close>

definition run_timeout :: "int \<Rightarrow> int" where
  "run_timeout usec = (if usec = 0 then 0 else if usec < 0 then -1 else (usec - 1) div 1000 + 1)"

definition get_timeout :: "(int \<Rightarrow> int) \<Rightarrow> int \<Rightarrow> int" where
  "get_timeout wait_duration_msec msec = (let max_msec = 5 * 60 * 1000 in
     wait_duration_msec (if msec < 0 \<or> max_msec < msec then max_msec else msec))"

definition get_timerspec :: "(int \<Rightarrow> int) \<Rightarrow> (int \<times> int) \<times> bool" where
  "get_timerspec wait_duration_usec = (let usec = wait_duration_usec (5 * 60 * 1000 * 1000) in
     ((usec div 1000000, if usec \<noteq> 0 then (usec mod 1000000) * 1000 else 1), usec = 0))"

lemma run_timeout_rounds_up: "0 < usec \<Longrightarrow> usec \<le> run_timeout usec * 1000 \<and> run_timeout usec * 1000 < usec + 1000"
  by (simp add: run_timeout_def) linarith

lemma timerspec_exact:
  assumes "0 < wait 300000000" "get_timerspec wait = ((sec, nsec), past)"
  shows "sec * 1000000000 + nsec = wait 300000000 * 1000 \<and> 0 \<le> nsec \<and> nsec < 1000000000 \<and> \<not> past"
proof -
  have "sec = wait 300000000 div 1000000" "nsec = (wait 300000000 mod 1000000) * 1000" "\<not> past"
    using assms by (auto simp: get_timerspec_def Let_def)
  moreover have "wait 300000000 div 1000000 * 1000000 + wait 300000000 mod 1000000 = wait 300000000" by (rule div_mult_mod_eq)
  moreover have "0 \<le> wait 300000000 mod 1000000" "wait 300000000 mod 1000000 < 1000000" by simp_all
  ultimately show ?thesis by linarith
qed

section \<open>Receiving and sending on a socket\<close>

text \<open>The answers of the system to \<open>recv\<close> and \<open>send\<close> are a parameter; a call that a signal interrupts is repeated.\<close>

datatype sys_result = Bytes nat | WouldBlock | SysFailed int

record 'd socket_os =
  os_recv :: "nat \<Rightarrow> 'd \<Rightarrow> sys_result \<times> 'd"
  os_send :: "nat \<Rightarrow> 'd \<Rightarrow> sys_result \<times> 'd"
  os_readable :: "'d \<Rightarrow> bool"
  os_writable :: "'d \<Rightarrow> bool"

definition error_eof :: int where "error_eof = 2"

definition non_blocking_recv1 :: "'d socket_os \<Rightarrow> nat \<Rightarrow> bool \<Rightarrow> reactor_op \<Rightarrow> 'd \<Rightarrow> bool \<times> reactor_op \<times> 'd" where
  "non_blocking_recv1 os len is_stream op d = (case os_recv os len d of
     (Bytes n, d1) \<Rightarrow> if is_stream \<and> n = 0 then (True, op\<lparr>op_ec := error_eof\<rparr>, d1)
       else (True, op\<lparr>op_ec := 0, bytes_transferred_of := n\<rparr>, d1)
   | (WouldBlock, d1) \<Rightarrow> (False, op, d1)
   | (SysFailed e, d1) \<Rightarrow> (True, op\<lparr>op_ec := e, bytes_transferred_of := 0\<rparr>, d1))"

definition non_blocking_send1 :: "'d socket_os \<Rightarrow> nat \<Rightarrow> reactor_op \<Rightarrow> 'd \<Rightarrow> bool \<times> reactor_op \<times> 'd" where
  "non_blocking_send1 os len op d = (case os_send os len d of
     (Bytes n, d1) \<Rightarrow> (True, op\<lparr>op_ec := 0, bytes_transferred_of := n\<rparr>, d1)
   | (WouldBlock, d1) \<Rightarrow> (False, op, d1)
   | (SysFailed e, d1) \<Rightarrow> (True, op\<lparr>op_ec := e, bytes_transferred_of := 0\<rparr>, d1))"

definition recv_do_perform :: "'d socket_os \<Rightarrow> nat \<Rightarrow> bool \<Rightarrow> reactor_op \<Rightarrow> 'd \<Rightarrow> status \<times> reactor_op \<times> 'd" where
  "recv_do_perform os len is_stream op d = (let (fin, op1, d1) = non_blocking_recv1 os len is_stream op d in
     (if fin then if is_stream \<and> bytes_transferred_of op1 = 0 then DoneAndExhausted else Done else NotDone, op1, d1))"

definition send_do_perform :: "'d socket_os \<Rightarrow> nat \<Rightarrow> bool \<Rightarrow> reactor_op \<Rightarrow> 'd \<Rightarrow> status \<times> reactor_op \<times> 'd" where
  "send_do_perform os len is_stream op d = (let (fin, op1, d1) = non_blocking_send1 os len op d in
     (if fin then if is_stream \<and> bytes_transferred_of op1 < len then DoneAndExhausted else Done else NotDone, op1, d1))"

text \<open>A stream socket: its reads receive, its writes send, what waits for an exception is done when there is an event. The sizes
  of the buffers are found by the names of the operations.\<close>

definition stream_ops :: "'d socket_os \<Rightarrow> (nat \<Rightarrow> nat) \<Rightarrow> 'd descriptor_ops" where
  "stream_ops os sizes = \<lparr>attempt_op = (\<lambda>j op d. if j = read_op then recv_do_perform os (sizes (op_name op)) True op d
       else if j = write_op then send_do_perform os (sizes (op_name op)) True op d else (Done, op, d)),
     is_ready = (\<lambda>j d. if j = read_op then os_readable os d else if j = write_op then os_writable os d else False)\<rparr>"

text \<open>A connection that does not end: bytes to read, and room for bytes to send. One that may end.\<close>

definition endless_os :: "(nat \<times> nat) socket_os" where
  "endless_os = \<lparr>os_recv = (\<lambda>len (unread, room). if unread = 0 then (WouldBlock, unread, room)
       else (Bytes (min len unread), unread - min len unread, room)),
     os_send = (\<lambda>len (unread, room). if room = 0 then (WouldBlock, unread, room) else (Bytes (min len room), unread, room - min len room)),
     os_readable = (\<lambda>(unread, room). unread \<noteq> 0), os_writable = (\<lambda>(unread, room). room \<noteq> 0)\<rparr>"

definition ending_os :: "(nat \<times> bool) socket_os" where
  "ending_os = \<lparr>os_recv = (\<lambda>len (unread, ended). if unread = 0 then (if ended then Bytes 0 else WouldBlock, unread, ended)
       else (Bytes (min len unread), unread - min len unread, ended)),
     os_send = (\<lambda>len d. (Bytes len, d)),
     os_readable = (\<lambda>(unread, ended). unread \<noteq> 0 \<or> ended), os_writable = (\<lambda>d. True)\<rparr>"

end
