(* ===== verification/AsioReactorEvents.thy ===== *)
theory AsioReactorEvents
  imports AsioReactor
begin

text \<open>
  What the reactor of \<open>AsioReactor\<close> keeps: no operation waits at a descriptor that is ready for it unless an event is on its way
  to it, which edge-triggered events make delicate; and every operation is completed once, with the scheduler's work counted.
  The locale \<open>named_attempts\<close> has what the second needs of the attempts, \<open>polled_device\<close> what the first does: an attempt that is not made
  leaves the descriptor not ready, and one that exhausts it does so too or ends in a failure. The operations of a socket keep both on any
  system that keeps the locale \<open>socket_contract\<close>.
\<close>

section \<open>Events on their way\<close>

text \<open>The end of a stream or an error of the system, as against what the reactor itself reports.\<close>

definition is_failure :: "int \<Rightarrow> bool" where
  "is_failure ec = (ec \<noteq> 0 \<and> ec \<noteq> operation_aborted \<and> ec \<noteq> operation_not_supported \<and> ec \<noteq> bad_descriptor)"

locale named_attempts =
  fixes A :: "'d descriptor_ops"
  assumes keeps_name: "attempt_op A j op d = (st, op1, d1) \<Longrightarrow> op_name op1 = op_name op"

locale polled_device = named_attempts A for A :: "'d descriptor_ops" +
  assumes not_done: "attempt_op A j op d = (NotDone, op1, d1) \<Longrightarrow> \<not> is_ready A j d1"
    and exhausted: "attempt_op A j op d = (DoneAndExhausted, op1, d1) \<Longrightarrow> \<not> is_ready A j d1 \<or> is_failure (op_ec op1)"
    and drains: "attempt_op A j op d = (st, op1, d1) \<Longrightarrow> is_ready A k d1 \<Longrightarrow> is_ready A k d"

text \<open>Operations that have been finished, whether or not their handlers have run; one of them has failed.\<close>

definition finished_ops :: "'d descriptor \<Rightarrow> reactor_op list" where
  "finished_ops s = (case in_section s of Performing n evs ops \<Rightarrow> ops | Looping i evs ops \<Rightarrow> ops | _ \<Rightarrow> []) @ posted s @ completed s"

definition has_failed :: "'d descriptor \<Rightarrow> bool" where
  "has_failed s = list_ex (\<lambda>op. is_failure (op_ec op)) (finished_ops s)"

definition coming :: "'d descriptor \<Rightarrow> event set" where
  "coming s = pending s \<union> (case task_result s of None \<Rightarrow> {} | Some evs \<Rightarrow> evs) \<union> \<Union> (set (performers s))"

text \<open>An event that hits the operations of type \<open>j\<close> is with the system, the scheduler, or a thread.\<close>

definition event_coming :: "nat \<Rightarrow> 'd descriptor \<Rightarrow> bool" where
  "event_coming j s = (hits j (coming s) \<or>
     (case in_section s of Performing n evs ops \<Rightarrow> j < n \<and> hits j evs | Looping i evs ops \<Rightarrow> j < i \<and> hits j evs | _ \<Rightarrow> False))"

definition looping :: "nat \<Rightarrow> section_pc \<Rightarrow> bool" where
  "looping j pc = (case pc of Looping i evs ops \<Rightarrow> i = j | _ \<Rightarrow> False)"

definition about_to_push :: "nat \<Rightarrow> section_pc \<Rightarrow> bool" where
  "about_to_push j pc = (case pc of Pushing i op \<Rightarrow> i = j | _ \<Rightarrow> False)"

definition starting :: "section_pc \<Rightarrow> bool" where
  "starting pc = (case pc of Modding i op \<Rightarrow> True | Rearming i op \<Rightarrow> True | Pushing i op \<Rightarrow> True | _ \<Rightarrow> False)"

definition rearming :: "section_pc \<Rightarrow> bool" where
  "rearming pc = (case pc of Rearming i op \<Rightarrow> True | _ \<Rightarrow> False)"

definition rearm_ok :: "section_pc \<Rightarrow> event set \<Rightarrow> bool" where
  "rearm_ok pc evs = (case pc of Rearming i op \<Rightarrow> event_of i \<in> evs | _ \<Rightarrow> True)"

definition section_type_ok :: "section_pc \<Rightarrow> bool" where
  "section_type_ok pc = (case pc of Idle \<Rightarrow> True | Modding i op \<Rightarrow> i = write_op | Rearming i op \<Rightarrow> i < max_ops | Pushing i op \<Rightarrow> i < max_ops
     | Performing n evs ops \<Rightarrow> n \<le> max_ops | Looping i evs ops \<Rightarrow> i < max_ops)"

definition no_queues :: "'d descriptor \<Rightarrow> bool" where
  "no_queues s = (\<forall>j. op_queues s j = [])"

text \<open>The type \<open>j\<close> at a descriptor whose events \<open>m\<close> the system watches.\<close>

definition type_ok :: "'d descriptor_ops \<Rightarrow> event set \<Rightarrow> nat \<Rightarrow> 'd descriptor \<Rightarrow> bool" where
  "type_ok A m j s = ((op_queues s j \<noteq> [] \<or> about_to_push j (in_section s) \<longrightarrow> event_of j \<in> m) \<and>
     (looping j (in_section s) \<longrightarrow> try_speculative s j) \<and>
     (event_of j \<in> m \<and> (op_queues s j \<noteq> [] \<or> \<not> try_speculative s j \<or> about_to_push j (in_section s)) \<and>
       \<not> looping j (in_section s) \<and> is_ready A j (device s) \<longrightarrow> event_coming j s))"

definition events_ok :: "'d descriptor_ops \<Rightarrow> 'd descriptor \<Rightarrow> bool" where
  "events_ok A s = (section_type_ok (in_section s) \<and> (\<forall>j \<ge> max_ops. op_queues s j = []) \<and>
     (case epoll_set s of
        None \<Rightarrow> no_queues s \<and> \<not> starting (in_section s) \<and> (registered_events s = {} \<or> shutdown_flag s \<or> \<not> descriptor_data s \<or> refused s)
      | Some m \<Rightarrow> base_events \<subseteq> m \<and> descriptor_data s \<and> \<not> shutdown_flag s \<and> \<not> refused s \<and> base_events \<subseteq> registered_events s \<and>
          (\<not> rearming (in_section s) \<longrightarrow> registered_events s = m) \<and> m \<subseteq> registered_events s \<and>
          rearm_ok (in_section s) (registered_events s) \<and> (\<forall>j < max_ops. type_ok A m j s)))"

lemma hits_Un [simp]: "hits j (a \<union> b) \<longleftrightarrow> hits j a \<or> hits j b"
  by (auto simp: hits_def)

lemma hits_empty [simp]: "\<not> hits j {}"
  by (simp add: hits_def)

lemma hits_Union [simp]: "hits j (\<Union> E) \<longleftrightarrow> (\<exists>e \<in> E. hits j e)"
  by (auto simp: hits_def)

lemma hits_watched: "hits j evs \<Longrightarrow> event_of j \<in> m \<Longrightarrow> hits j (evs \<inter> (m \<union> {EpollErr, EpollHup}))"
  by (auto simp: hits_def)

lemma hits_ready: "j < max_ops \<Longrightarrow> is_ready A j d \<Longrightarrow> event_of j \<in> m \<Longrightarrow> hits j (ready_events A m d)"
  by (auto simp: hits_def ready_events_def)

lemma event_of_base: "j < max_ops \<Longrightarrow> j \<noteq> write_op \<Longrightarrow> event_of j \<in> base_events" "event_of write_op = EpollOut"
  by (auto simp: event_of_def base_events_def op_types)

lemma write_type [simp]: "write_op < max_ops"
  by (simp add: op_types)

lemma less_max_ops: "j < max_ops \<longleftrightarrow> j = 0 \<or> j = 1 \<or> j = 2"
  by (auto simp: op_types)

lemma type_cases: "j < max_ops \<Longrightarrow> j = read_op \<or> j = write_op \<or> j = except_op"
  by (auto simp: op_types)

lemmas events_defs = events_ok_def type_ok_def event_coming_def coming_def looping_def about_to_push_def starting_def
  rearming_def rearm_ok_def section_type_ok_def no_queues_def

lemma register_events: "events_ok A s \<Longrightarrow> epoll_set s = None \<Longrightarrow> in_section s = Idle \<Longrightarrow> events_ok A (register_descriptor A res s)"
  by (cases res) (auto simp: events_defs register_descriptor_def rearm_def)

lemma immediate_events:
  assumes "events_ok A s" "in_section s = Idle"
  shows "events_ok A (immediate op s)"
  using assms by (auto simp: events_defs immediate_def split: option.splits)

lemma cancel_events: "events_ok A s \<Longrightarrow> in_section s = Idle \<Longrightarrow> events_ok A (cancel_ops s)"
  by (auto simp: events_defs cancel_ops_def abort_queues_def split: option.splits)

lemma cancel_by_key_events: "events_ok A s \<Longrightarrow> in_section s = Idle \<Longrightarrow> j < max_ops \<Longrightarrow> events_ok A (cancel_ops_by_key j key s)"
  by (auto simp: events_defs cancel_ops_by_key_def cancel_key_loop_eq split: option.splits)

lemma deregister_events: "events_ok A s \<Longrightarrow> in_section s = Idle \<Longrightarrow> events_ok A (deregister_descriptor s)"
  by (auto simp: events_defs deregister_descriptor_def abort_queues_def not_less split: option.splits)

lemma cleanup_events: "events_ok A s \<Longrightarrow> shutdown_flag s \<Longrightarrow> events_ok A (cleanup_descriptor_data s)"
  by (auto simp: events_defs cleanup_descriptor_data_def split: option.splits)

lemma run_events: "events_ok A s \<Longrightarrow> events_ok A (reactor_run s)"
  by (auto simp: events_defs reactor_run_def split: option.splits section_pc.splits)

lemma dequeue_events:
  "events_ok A s \<Longrightarrow> task_result s = Some evs \<Longrightarrow> events_ok A (s\<lparr>task_result := None, performers := performers s @ [evs]\<rparr>)"
  by (auto simp: events_defs split: option.splits section_pc.splits)

lemma perform_events:
  assumes ok: "events_ok A s" and i: "in_section s = Idle" "i < length (performers s)"
  shows "events_ok A (s\<lparr>performers := take i (performers s) @ drop (Suc i) (performers s),
    in_section := Performing max_ops (performers s ! i) []\<rparr>)"
proof -
  have "set (performers s) = insert (performers s ! i) (set (take i (performers s)) \<union> set (drop (Suc i) (performers s)))"
    using id_take_nth_drop [OF i(2)] by (metis Un_insert_right list.set(2) set_append)
  then have "event_coming j (s\<lparr>performers := take i (performers s) @ drop (Suc i) (performers s),
      in_section := Performing max_ops (performers s ! i) []\<rparr>)" if "j < max_ops" "event_coming j s" for j
    using that i(1) by (auto simp: event_coming_def coming_def)
  then show ?thesis using ok i(1) by (auto simp: events_ok_def type_ok_def looping_def about_to_push_def starting_def rearming_def rearm_ok_def
    section_type_ok_def no_queues_def split: option.splits)
qed

lemma posted_events: "events_ok A s \<Longrightarrow> events_ok A (s\<lparr>posted := ps, completed := cs, work_count := w\<rparr>)"
  by (auto simp: events_defs split: option.splits)

lemma change_events:
  assumes ok: "events_ok A s" and r: "list_all (\<lambda>j. is_ready A j d \<longrightarrow> is_ready A j (device s) \<or> hits j evs) [read_op, write_op, except_op]"
  shows "events_ok A (s\<lparr>device := d, pending := pending s \<union> (case epoll_set s of None \<Rightarrow> {} | Some m \<Rightarrow> evs \<inter> (m \<union> {EpollErr, EpollHup}))\<rparr>)"
proof (cases "epoll_set s")
  case None
  then show ?thesis using ok by (simp add: events_defs)
next
  case (Some m)
  let ?s = "s\<lparr>device := d, pending := pending s \<union> evs \<inter> (m \<union> {EpollErr, EpollHup})\<rparr>"
  have "type_ok A m j ?s" if j: "j < max_ops" and t: "type_ok A m j s" for j
  proof -
    have "event_coming j ?s" if "event_coming j s" using that by (auto simp: event_coming_def coming_def)
    moreover have "event_coming j ?s" if "hits j evs" "event_of j \<in> m"
      using hits_watched [OF that] by (simp add: event_coming_def coming_def)
    moreover have "is_ready A j (device s) \<or> hits j evs" if "is_ready A j d" using r that type_cases [OF j] by auto
    ultimately show ?thesis using t by (auto simp: type_ok_def)
  qed
  then show ?thesis using ok Some by (auto simp: events_ok_def no_queues_def rearm_ok_def)
qed

lemma mod_events:
  assumes ok: "events_ok A s" and pc: "in_section s = Modding j op"
  shows "events_ok A (mod_for_write A err j op s)"
proof (cases err)
  case None
  show ?thesis using ok pc
    by (auto simp: events_ok_def type_ok_def looping_def about_to_push_def starting_def rearming_def rearm_ok_def section_type_ok_def no_queues_def
        mod_for_write_def None rearm_def event_coming_def coming_def hits_ready event_of_base write_type split: option.splits)
next
  case (Some e)
  then show ?thesis using ok pc by (auto simp: events_defs mod_for_write_def immediate_def split: option.splits)
qed

lemma rearm_events:
  assumes ok: "events_ok A s" and pc: "in_section s = Rearming j op"
  shows "events_ok A (rearm A s\<lparr>in_section := Pushing j op\<rparr>)"
  using ok pc
    by (auto simp: events_ok_def type_ok_def looping_def about_to_push_def starting_def rearming_def rearm_ok_def section_type_ok_def no_queues_def
        rearm_def event_coming_def coming_def hits_ready event_of_base write_type split: option.splits)

lemma push_events:
  assumes ok: "events_ok A s" and pc: "in_section s = Pushing j op"
  shows "events_ok A (push_op j op s)"
  using ok pc by (auto simp: events_defs push_op_def split: option.splits)

lemma finish_events:
  assumes ok: "events_ok A s" and pc: "in_section s = Performing 0 evs ops"
  shows "events_ok A (finish_perform ops s)"
  using ok pc by (cases ops) (auto simp: events_defs finish_perform_def Let_def split: option.splits)

lemma next_type_events:
  assumes ok: "events_ok A s" and pc: "in_section s = Performing (Suc j) evs ops"
  shows "events_ok A (next_type j evs ops s)"
  using ok pc by (auto simp: events_defs next_type_def less_Suc_eq split: option.splits)

context polled_device
begin

lemma perform_next_events:
  assumes ok: "events_ok A s" and pc: "in_section s = Looping j evs ops"
  shows "events_ok A (perform_next A j evs ops s) \<or> has_failed (perform_next A j evs ops s)"
proof (cases "op_queues s j")
  case Nil
  then show ?thesis using ok pc by (auto simp: events_defs perform_next_def split: option.splits)
next
  case (Cons op q)
  obtain st op1 d where a: "attempt_op A j op (device s) = (st, op1, d)" by (cases "attempt_op A j op (device s)")
  note r = drains [OF a]
  show ?thesis
  proof (cases st)
    case NotDone
    then show ?thesis using ok pc Cons a r not_done [of j op "device s" op1 d] by (auto simp: events_defs perform_next_def Let_def split: option.splits)
  next
    case Done
    then show ?thesis using ok pc Cons a r by (auto simp: events_defs perform_next_def Let_def split: option.splits)
  next
    case DoneAndExhausted
    show ?thesis
    proof (cases "is_failure (op_ec op1)")
      case True
      then show ?thesis using pc Cons a DoneAndExhausted by (simp add: has_failed_def finished_ops_def perform_next_def)
    next
      case False
      then show ?thesis using ok pc Cons a r exhausted [of j op "device s" op1 d] DoneAndExhausted
        by (auto simp: events_defs perform_next_def Let_def split: option.splits)
    qed
  qed
qed

lemma wait_for_event_events:
  assumes ok: "events_ok A s" and pc: "in_section s = Idle" and j: "j < max_ops" and d: "descriptor_data s" "\<not> shutdown_flag s" "\<not> refused s"
    and w: "try_speculative s j \<Longrightarrow> \<not> is_ready A j (device s)"
  shows "events_ok A (wait_for_event j op s)"
proof (cases "registered_events s = {}")
  case True
  then show ?thesis using ok pc by (auto simp: events_defs wait_for_event_def immediate_def split: option.splits)
next
  case False
  then obtain m where m: "epoll_set s = Some m" using ok d by (auto simp: events_ok_def split: option.splits)
  have "event_of j \<in> m" if "j \<noteq> write_op \<or> EpollOut \<in> m"
    using that ok m event_of_base(1) [OF j] event_of_base(2) by (cases "j = write_op") (auto simp: events_ok_def)
  then show ?thesis using False m ok pc j w
    by (auto simp: events_defs wait_for_event_def)
qed

lemma start_op_events:
  assumes ok: "events_ok A s" and pc: "in_section s = Idle" and j: "j < max_ops" and nr: "\<not> refused s"
  shows "events_ok A (start_op A j op allow s) \<or> has_failed (start_op A j op allow s)"
proof -
  let ?s = "s\<lparr>started_ops := started_ops s @ [op_name op]\<rparr>"
  have ok1: "events_ok A ?s" "in_section ?s = Idle" using ok pc by (auto simp: events_defs split: option.splits)
  show ?thesis
  proof (cases "descriptor_data ?s \<and> \<not> shutdown_flag ?s")
    case False
    then show ?thesis using immediate_events [OF ok1] by (auto simp: start_op_def Let_def)
  next
    case True
    consider (queued) "op_queues ?s j \<noteq> []"
      | (attempt) "op_queues ?s j = []" "allow \<and> (j \<noteq> read_op \<or> op_queues ?s except_op = [])" "try_speculative ?s j"
      | (spent) "op_queues ?s j = []" "allow \<and> (j \<noteq> read_op \<or> op_queues ?s except_op = [])" "\<not> try_speculative ?s j"
      | (later) "op_queues ?s j = []" "\<not> (allow \<and> (j \<noteq> read_op \<or> op_queues ?s except_op = []))" by blast
    then show ?thesis
    proof cases
      case queued
      then show ?thesis using ok1 True j by (auto simp: start_op_def Let_def events_defs split: option.splits)
    next
      case attempt
      obtain st op1 d where a: "attempt_op A j op (device ?s) = (st, op1, d)" by (cases "attempt_op A j op (device ?s)")
      let ?d = "?s\<lparr>device := d\<rparr>"
      have d: "events_ok A ?d" "in_section ?d = Idle" using ok1 drains [OF a] by (auto simp: events_defs split: option.splits)
      have e: "events_ok A (?d\<lparr>try_speculative := (try_speculative ?d)(j := False)\<rparr>)" if "st = DoneAndExhausted" "\<not> is_failure (op_ec op1)"
        using d exhausted [of j op "device ?s" op1 d] a that by (auto simp: events_defs split: option.splits)
      have f: "has_failed (immediate op1 t)" if "is_failure (op_ec op1)" for t :: "'a descriptor"
        using that by (simp add: has_failed_def finished_ops_def immediate_def)
      show ?thesis
      proof (cases "st = NotDone")
        case True
        then show ?thesis using wait_for_event_events [OF d j, of op1] not_done [of j op "device ?s" op1 d] attempt a nr \<open>descriptor_data ?s \<and> \<not> shutdown_flag ?s\<close>
          by (auto simp: start_op_def Let_def)
      next
        case False
        then show ?thesis using immediate_events [OF d] immediate_events [OF e] f d(2) attempt a \<open>descriptor_data ?s \<and> \<not> shutdown_flag ?s\<close>
          by (auto simp: start_op_def Let_def)
      qed
    next
      case spent
      then show ?thesis using wait_for_event_events [OF ok1 j, of op] True nr by (auto simp: start_op_def Let_def)
    next
      case later
      show ?thesis
      proof (cases "registered_events ?s = {}")
        case True
        then show ?thesis using immediate_events [OF ok1] later \<open>descriptor_data ?s \<and> \<not> shutdown_flag ?s\<close> by (auto simp: start_op_def Let_def)
      next
        case False
        then obtain m where m: "epoll_set s = Some m" using ok True nr by (auto simp: events_ok_def split: option.splits)
        then show ?thesis using ok pc later False True event_of_base(1) [OF j] event_of_base(2) j
          by (auto simp: start_op_def Let_def events_defs)
      qed
    qed
  qed
qed

lemma reactor_step_events:
  assumes ok: "events_ok A s" and st: "reactor_step A s a = Some s1"
  shows "events_ok A s1 \<or> has_failed s1"
proof (cases a)
  case (Section err)
  then show ?thesis using st mod_events [OF ok] rearm_events [OF ok] push_events [OF ok] finish_events [OF ok] next_type_events [OF ok]
      perform_next_events [OF ok] by (auto split: section_pc.splits nat.splits)
next
  case CompletePosted
  then show ?thesis using st posted_events [OF ok] by (auto split: list.splits)
next
  case (StartOp j op allow)
  then show ?thesis using st start_op_events [OF ok, of j op allow] by (auto split: if_splits)
qed (use st register_events [OF ok] cancel_events [OF ok] cancel_by_key_events [OF ok] deregister_events [OF ok]
    cleanup_events [OF ok] run_events [OF ok] dequeue_events [OF ok] perform_events [OF ok] change_events [OF ok]
  in \<open>auto split: if_splits option.splits\<close>)

end

text \<open>A failure stays.\<close>

lemma start_op_finished:
  assumes "in_section s = Idle"
  shows "set (finished_ops s) \<subseteq> set (finished_ops (start_op A j op allow s))"
proof -
  have w: "\<exists>new. finished_ops (wait_for_event j op1 t) = new" "x \<in> set (posted t) \<union> set (completed t) \<Longrightarrow> x \<in> set (finished_ops (wait_for_event j op1 t))"
    "x \<in> set (posted t) \<union> set (completed t) \<Longrightarrow> x \<in> set (finished_ops (immediate op1 t))" for op1 t and x
    by (auto simp: finished_ops_def wait_for_event_def immediate_def)
  obtain st op1 d where a: "attempt_op A j op (device s) = (st, op1, d)" by (cases "attempt_op A j op (device s)")
  show ?thesis
  proof
    fix x assume "x \<in> set (finished_ops s)"
    then have x: "x \<in> set (posted s) \<union> set (completed s)" using assms by (simp add: finished_ops_def)
    have q: "x \<in> set (finished_ops (s\<lparr>started_ops := n, in_section := Pushing j op\<rparr>))"
      "x \<in> set (finished_ops (s\<lparr>started_ops := n, registered_events := e, in_section := Rearming j op\<rparr>))" for n e
      using x by (auto simp: finished_ops_def)
    show "x \<in> set (finished_ops (start_op A j op allow s))"
      using x q a unfolding start_op_def Let_def by (auto simp del: Un_iff intro!: w(2,3))
  qed
qed

lemma section_finished: "section_step A err s = Some s1 \<Longrightarrow> set (finished_ops s) \<subseteq> set (finished_ops s1)"
proof (cases "in_section s")
  case (Performing n evs ops)
  assume "section_step A err s = Some s1"
  then show ?thesis using Performing
    by (cases n; cases ops) (auto simp: finished_ops_def finish_perform_def next_type_def Let_def split: if_splits)
next
  case (Looping j evs ops)
  assume "section_step A err s = Some s1"
  then show ?thesis using Looping
    by (auto simp: finished_ops_def perform_next_def Let_def split: list.splits prod.splits status.splits)
qed (auto simp: finished_ops_def mod_for_write_def immediate_def rearm_def push_op_def split: option.splits)

lemma step_finished: "reactor_step A s a = Some s1 \<Longrightarrow> set (finished_ops s) \<subseteq> set (finished_ops s1)"
proof (cases a)
  case (StartOp j op allow)
  assume "reactor_step A s a = Some s1"
  then show ?thesis using StartOp start_op_finished [of s A j op allow] by (simp split: if_splits)
next
  case (Section err)
  assume "reactor_step A s a = Some s1"
  then show ?thesis using Section section_finished [of A err s] by simp
next
  case (Register res)
  assume "reactor_step A s a = Some s1"
  then show ?thesis using Register by (cases res) (auto simp: finished_ops_def register_descriptor_def rearm_def split: if_splits)
next
  case (Changes d evs)
  assume "reactor_step A s a = Some s1"
  then show ?thesis using Changes by (auto simp: finished_ops_def simp del: list.pred_inject split: if_splits)
qed (auto simp: finished_ops_def cancel_ops_def abort_queues_def cancel_ops_by_key_def deregister_descriptor_def cleanup_descriptor_data_def
  reactor_run_def Let_def split: if_splits option.splits list.splits prod.splits)

lemma step_has_failed: "has_failed s \<Longrightarrow> reactor_step A s a = Some s1 \<Longrightarrow> has_failed s1"
  using step_finished [of A s a s1] by (auto simp: has_failed_def list_ex_iff)

section \<open>Every operation once\<close>

definition section_ops :: "section_pc \<Rightarrow> reactor_op list" where
  "section_ops pc = (case pc of Idle \<Rightarrow> [] | Modding i op \<Rightarrow> [op] | Rearming i op \<Rightarrow> [op] | Pushing i op \<Rightarrow> [op]
     | Performing n evs ops \<Rightarrow> ops | Looping i evs ops \<Rightarrow> ops)"

definition queued :: "'d descriptor \<Rightarrow> reactor_op list" where
  "queued s = op_queues s 0 @ op_queues s 1 @ op_queues s 2"

definition outstanding :: "'d descriptor \<Rightarrow> reactor_op list" where
  "outstanding s = queued s @ section_ops (in_section s) @ posted s"

definition work_of :: "'d descriptor \<Rightarrow> int" where
  "work_of s = int (length (queued s)) + (if starting (in_section s) then 0 else int (length (section_ops (in_section s)))) + int (length (posted s))"

definition ops_ok :: "'d descriptor \<Rightarrow> bool" where
  "ops_ok s = (mset (started_ops s) = mset (List.map op_name (outstanding s @ completed s)) \<and> work_count s = work_of s)"

lemmas ops_defs = ops_ok_def outstanding_def queued_def work_of_def section_ops_def starting_def

lemma abort_all_eq: "abort_all ops q = ops @ List.map (with_ec operation_aborted) q"
  by (induction q arbitrary: ops) simp_all

lemma name_with_ec [simp]: "op_name (with_ec ec op) = op_name op" "op_name \<circ> with_ec ec = op_name"
  by (auto simp: with_ec_def)

lemma names_with_ec [simp]: "image_mset op_name (image_mset (with_ec ec) M) = image_mset op_name M"
  by (simp add: image_mset.compositionality)

lemma immediate_ops:
  assumes "mset (started_ops s) = mset (op_name op # List.map op_name (outstanding s @ completed s))" "work_count s = work_of s" "in_section s = Idle"
  shows "ops_ok (immediate op s)"
  using assms by (auto simp: ops_defs immediate_def)

lemma abort_queues_ops: "ops_ok s \<Longrightarrow> ops_ok (abort_queues s)"
  by (auto simp: ops_defs abort_queues_def abort_all_eq less_max_ops split: section_pc.splits)

lemma cancel_key_ops:
  assumes "ops_ok s" "j < max_ops"
  shows "ops_ok (cancel_ops_by_key j key s)"
proof -
  let ?P = "\<lambda>op. cancellation_key op = key"
  have m: "mset (List.map op_name (filter ?P q)) + mset (List.map op_name (filter (\<lambda>op. \<not> ?P op) q)) = mset (List.map op_name q)" for q
    by (induction q) auto
  have l: "length (filter ?P q) + length (filter (\<lambda>op. \<not> ?P op) q) = length q" for q
    by (rule sum_length_filter_compl)
  show ?thesis using assms m [of "op_queues s j"] l [of "op_queues s j"]
    by (auto simp: ops_defs cancel_ops_by_key_def cancel_key_loop_eq less_max_ops ac_simps split: section_pc.splits)
qed

context named_attempts
begin

lemma wait_for_event_ops:
  assumes "mset (started_ops s) = mset (op_name op # List.map op_name (outstanding s @ completed s))" "work_count s = work_of s" "in_section s = Idle"
  shows "ops_ok (wait_for_event j op s)"
  using assms immediate_ops [of s "op\<lparr>op_ec := operation_not_supported\<rparr>"] by (auto simp: ops_defs wait_for_event_def)

lemma start_op_ops:
  assumes ok: "ops_ok s" "in_section s = Idle"
  shows "ops_ok (start_op A j op allow s)"
proof -
  let ?s = "s\<lparr>started_ops := started_ops s @ [op_name op]\<rparr>"
  have started: "mset (started_ops ?s) = mset (op_name op # List.map op_name (outstanding ?s @ completed ?s))" "work_count ?s = work_of ?s"
    "in_section ?s = Idle" using ok by (auto simp: ops_defs)
  note i = immediate_ops [of ?s op] immediate_ops [of ?s "op\<lparr>op_ec := bad_descriptor\<rparr>"]
    immediate_ops [of ?s "op\<lparr>op_ec := operation_not_supported\<rparr>"] wait_for_event_ops [of ?s op j]
  obtain st op1 d where a: "attempt_op A j op (device ?s) = (st, op1, d)" by (cases "attempt_op A j op (device ?s)")
  have n: "op_name op1 = op_name op" using keeps_name [OF a] .
  have k: "ops_ok (immediate op1 (if b then ?s\<lparr>device := d, try_speculative := t\<rparr> else ?s\<lparr>device := d\<rparr>))"
    "ops_ok (wait_for_event j op1 (?s\<lparr>device := d\<rparr>))" for b t
    using started n immediate_ops [of "?s\<lparr>device := d, try_speculative := t\<rparr>" op1] immediate_ops [of "?s\<lparr>device := d\<rparr>" op1]
      wait_for_event_ops [of "?s\<lparr>device := d\<rparr>" op1 j] by (auto simp: ops_defs)
  have p: "ops_ok (?s\<lparr>in_section := Pushing j op\<rparr>)" "ops_ok (?s\<lparr>registered_events := e, in_section := Rearming j op\<rparr>)" for e
    using started by (auto simp: ops_defs)
  show ?thesis using i k p started a by (auto simp: start_op_def Let_def)
qed

lemma perform_next_ops:
  assumes ok: "ops_ok s" "in_section s = Looping j evs ops" and j: "j < max_ops"
  shows "ops_ok (perform_next A j evs ops s)"
proof (cases "op_queues s j")
  case Nil
  then show ?thesis using ok by (auto simp: ops_defs perform_next_def)
next
  case (Cons op q)
  obtain st op1 d where a: "attempt_op A j op (device s) = (st, op1, d)" by (cases "attempt_op A j op (device s)")
  have n: "op_name op1 = op_name op" using keeps_name [OF a] .
  show ?thesis using ok Cons a n j by (cases st) (auto simp: ops_defs perform_next_def Let_def less_max_ops)
qed

lemma section_step_ops:
  assumes ok: "ops_ok s" and t: "section_type_ok (in_section s)" and st: "section_step A err s = Some s1"
  shows "ops_ok s1"
proof (cases "in_section s")
  case (Modding j op)
  then show ?thesis using ok st by (cases err) (auto simp: ops_defs mod_for_write_def rearm_def immediate_def)
next
  case (Rearming j op)
  then show ?thesis using ok st by (auto simp: ops_defs rearm_def)
next
  case (Pushing j op)
  then show ?thesis using ok t st by (auto simp: ops_defs push_op_def section_type_ok_def less_max_ops)
next
  case (Performing n evs ops)
  then show ?thesis using ok st
    by (cases n; cases ops) (auto simp: ops_defs finish_perform_def next_type_def Let_def split: if_splits)
next
  case (Looping j evs ops)
  then show ?thesis using perform_next_ops [OF ok Looping] t st by (simp add: section_type_ok_def)
qed (use st in simp)

lemma reactor_step_ops:
  assumes ok: "ops_ok s" "section_type_ok (in_section s)" and st: "reactor_step A s a = Some s1"
  shows "ops_ok s1"
proof (cases a)
  case (Register res)
  then show ?thesis using ok st by (cases res) (auto simp: ops_defs register_descriptor_def rearm_def split: if_splits)
next
  case (StartOp j op allow)
  then show ?thesis using start_op_ops ok st by (auto split: if_splits)
next
  case (Section err)
  then show ?thesis using section_step_ops [OF ok(1)] ok(2) st by simp
next
  case (CancelByKey j key)
  then show ?thesis using cancel_key_ops [OF ok(1)] st by (auto split: if_splits)
next
  case CancelOps
  then show ?thesis using abort_queues_ops [OF ok(1)] ok(1) st by (auto simp: cancel_ops_def split: if_splits)
next
  case Deregister
  have "ops_ok (t\<lparr>shutdown_flag := b, epoll_set := e, pending := p\<rparr>) = ops_ok t" "ops_ok (t\<lparr>descriptor_data := b\<rparr>) = ops_ok t"
    for t :: "'d descriptor" and b e p by (simp_all add: ops_defs)
  then show ?thesis using abort_queues_ops [OF ok(1)] ok(1) st Deregister by (auto simp: deregister_descriptor_def split: if_splits)
next
  case (PerformIo i)
  then show ?thesis using ok st by (auto simp: ops_defs split: if_splits)
next
  case (Changes d evs)
  then have "s1 = s\<lparr>device := d, pending := pending s \<union> (case epoll_set s of None \<Rightarrow> {} | Some m \<Rightarrow> evs \<inter> (m \<union> {EpollErr, EpollHup}))\<rparr>"
    using st by (simp del: list.pred_inject split: if_splits)
  then show ?thesis using ok(1) by (simp add: ops_defs)
next
  case RunReactor
  then show ?thesis using ok st by (auto simp: ops_defs reactor_run_def split: if_splits)
next
  case Dequeue
  then show ?thesis using ok st by (auto simp: ops_defs split: option.splits)
next
  case Cleanup
  then show ?thesis using ok st by (auto simp: ops_defs cleanup_descriptor_data_def split: if_splits)
next
  case CompletePosted
  then show ?thesis using ok st by (auto simp: ops_defs split: list.splits section_pc.splits)
qed

end

text \<open>The section that a thread is in names a type.\<close>

lemma section_type_start: "j < max_ops \<Longrightarrow> section_type_ok (in_section (start_op A j op allow s)) \<or> in_section (start_op A j op allow s) = in_section s"
  by (auto simp: start_op_def wait_for_event_def immediate_def section_type_ok_def Let_def split: prod.splits)

lemma section_type_step:
  "section_type_ok (in_section s) \<Longrightarrow> reactor_step A s a = Some s1 \<Longrightarrow> section_type_ok (in_section s1)"
proof (cases a)
  case (StartOp j op allow)
  assume "section_type_ok (in_section s)" "reactor_step A s a = Some s1"
  then show ?thesis using StartOp section_type_start [of j A op allow s] by (auto split: if_splits)
next
  case (Section err)
  assume "section_type_ok (in_section s)" "reactor_step A s a = Some s1"
  then show ?thesis using Section
    by (cases "in_section s"; cases err)
      (auto simp: section_type_ok_def mod_for_write_def immediate_def rearm_def push_op_def finish_perform_def next_type_def perform_next_def Let_def
        split: nat.splits list.splits prod.splits status.splits)
next
  case (Register res)
  assume "section_type_ok (in_section s)" "reactor_step A s a = Some s1"
  then show ?thesis using Register by (cases res) (auto simp: register_descriptor_def rearm_def split: if_splits)
next
  case (Changes d evs)
  assume "section_type_ok (in_section s)" "reactor_step A s a = Some s1"
  then show ?thesis using Changes by (auto simp del: list.pred_inject split: if_splits)
qed (auto simp: section_type_ok_def cancel_ops_def abort_queues_def cancel_ops_by_key_def deregister_descriptor_def cleanup_descriptor_data_def
  reactor_run_def Let_def split: if_splits option.splits list.splits prod.splits)

lemma new_descriptor_ok: "events_ok A (new_descriptor d)" "ops_ok (new_descriptor d) \<and> section_type_ok (in_section (new_descriptor d))"
  by (simp_all add: events_defs ops_defs new_descriptor_def)

sublocale named_attempts \<subseteq> accounts: invariant_system "reactor_step A" "new_descriptor d" "\<lambda>s. ops_ok s \<and> section_type_ok (in_section s)" for d
proof unfold_locales
  show "ops_ok t \<and> section_type_ok (in_section t)" if "ops_ok s \<and> section_type_ok (in_section s)" "reactor_step A s a = Some t" for s a t
    using that reactor_step_ops [of s a t] section_type_step [of s A a t] by blast
qed (rule new_descriptor_ok(2))

sublocale polled_device \<subseteq> events: invariant_system "reactor_step A" "new_descriptor d" "\<lambda>s. events_ok A s \<or> has_failed s" for d
proof unfold_locales
  show "events_ok A t \<or> has_failed t" if "events_ok A s \<or> has_failed s" "reactor_step A s a = Some t" for s a t
    using that reactor_step_events [of s a t] step_has_failed [of s A a t] by blast
qed (simp add: new_descriptor_ok(1))

context named_attempts
begin

lemma reachable_accounts: "reachable (reactor_step A) (new_descriptor d) s \<Longrightarrow> ops_ok s"
  using accounts.reachable_inv by blast

end

context polled_device
begin

lemma reachable_events: "reachable (reactor_step A) (new_descriptor d) s \<Longrightarrow> \<not> has_failed s \<Longrightarrow> events_ok A s"
  using events.reachable_inv by blast

end

section \<open>Sockets\<close>

text \<open>What the system promises of a socket's calls: a call that would block leaves the socket not ready, so does a send that is shorter than the buffer, a call makes
  nothing ready, and its errors are none of those that the reactor gives itself. A stream that has ended stays readable.\<close>

locale socket_contract =
  fixes os :: "'d socket_os"
  assumes recv_blocks: "os_recv os len d = (WouldBlock, d1) \<Longrightarrow> \<not> os_readable os d1"
    and send_blocks: "os_send os len d = (WouldBlock, d1) \<Longrightarrow> \<not> os_writable os d1"
    and send_short: "os_send os len d = (Bytes n, d1) \<Longrightarrow> n < len \<Longrightarrow> \<not> os_writable os d1"
    and recv_makes: "os_recv os len d = (r, d1) \<Longrightarrow> (os_readable os d1 \<longrightarrow> os_readable os d) \<and> (os_writable os d1 \<longrightarrow> os_writable os d)"
    and send_makes: "os_send os len d = (r, d1) \<Longrightarrow> (os_readable os d1 \<longrightarrow> os_readable os d) \<and> (os_writable os d1 \<longrightarrow> os_writable os d)"
    and recv_errors: "os_recv os len d = (SysFailed e, d1) \<Longrightarrow> is_failure e"
    and send_errors: "os_send os len d = (SysFailed e, d1) \<Longrightarrow> is_failure e"

lemma stream_names: "named_attempts (stream_ops os sizes)"
  by unfold_locales (auto simp: stream_ops_def recv_do_perform_def send_do_perform_def non_blocking_recv1_def non_blocking_send1_def Let_def
    split: if_splits prod.splits sys_result.splits)

interpretation stream: named_attempts "stream_ops os sizes" for os sizes
  by (rule stream_names)

text \<open>The operations of a socket: a receive that exhausts the socket reports the end of the stream or an error, one that does not report bytes has
  none from before.\<close>

lemma eof_fails: "is_failure error_eof"
  by (simp add: is_failure_def error_eof_def operation_aborted_def operation_not_supported_def bad_descriptor_def)

context socket_contract
begin

lemma recv_not_done: "recv_do_perform os len True op d = (NotDone, op1, d1) \<Longrightarrow> \<not> os_readable os d1"
  using recv_blocks by (auto simp: recv_do_perform_def non_blocking_recv1_def Let_def split: prod.splits sys_result.splits if_splits)

lemma send_not_done: "send_do_perform os len True op d = (NotDone, op1, d1) \<Longrightarrow> \<not> os_writable os d1"
  using send_blocks by (auto simp: send_do_perform_def non_blocking_send1_def Let_def split: prod.splits sys_result.splits if_splits)

lemma recv_exhausted: "recv_do_perform os len True op d = (DoneAndExhausted, op1, d1) \<Longrightarrow> is_failure (op_ec op1)"
  using recv_errors eof_fails by (auto simp: recv_do_perform_def non_blocking_recv1_def Let_def split: prod.splits sys_result.splits if_splits)

lemma send_exhausted: "send_do_perform os len True op d = (DoneAndExhausted, op1, d1) \<Longrightarrow> \<not> os_writable os d1 \<or> is_failure (op_ec op1)"
  using send_errors send_short by (auto simp: send_do_perform_def non_blocking_send1_def Let_def split: prod.splits sys_result.splits if_splits)

lemma recv_drains: "recv_do_perform os len True op d = (st, op1, d1) \<Longrightarrow> (os_readable os d1 \<longrightarrow> os_readable os d) \<and> (os_writable os d1 \<longrightarrow> os_writable os d)"
  using recv_makes by (auto simp: recv_do_perform_def non_blocking_recv1_def Let_def split: prod.splits sys_result.splits if_splits)

lemma send_drains: "send_do_perform os len True op d = (st, op1, d1) \<Longrightarrow> (os_readable os d1 \<longrightarrow> os_readable os d) \<and> (os_writable os d1 \<longrightarrow> os_writable os d)"
  using send_makes by (auto simp: send_do_perform_def non_blocking_send1_def Let_def split: prod.splits sys_result.splits if_splits)

lemma stream_polled: "polled_device (stream_ops os sizes)"
proof (rule polled_device.intro [OF stream_names polled_device_axioms.intro])
qed (auto simp: stream_ops_def op_types dest: recv_not_done send_not_done recv_exhausted send_exhausted recv_drains send_drains split: if_splits)

end



text \<open>C24: Every operation that was started on a socket is in exactly one place: waiting, in the hands of a thread, posted, or completed; and the
  scheduler's count of work has those that are outstanding, so it does not stop while one waits. This is so on any system, whatever its calls
  return, at the end of a stream and after errors too.\<close>
theorem operations_complete_once:
  assumes "reachable (reactor_step (stream_ops os sizes)) (new_descriptor d) s"
  shows "mset (started_ops s) = mset (List.map op_name (outstanding s @ completed s)) \<and> work_count s = work_of s"
  using stream.reachable_accounts [OF assms] by (simp add: ops_ok_def)

section \<open>A stream\<close>

text \<open>Both kinds of connection keep the contract.\<close>

lemma endless_contract: "socket_contract endless_os"
  by unfold_locales (auto simp: endless_os_def split: if_splits)

lemma ending_contract: "socket_contract ending_os"
  by unfold_locales (auto simp: ending_os_def split: if_splits)

interpretation endless: socket_contract endless_os
  by (rule endless_contract)

interpretation ending: socket_contract ending_os
  by (rule ending_contract)

definition an_op :: "nat \<Rightarrow> reactor_op" where
  "an_op i = \<lparr>op_name = i, cancellation_key = 0, op_ec = 0, bytes_transferred_of = 0\<rparr>"

text \<open>A read waits, and bytes arrive between its attempt and its place in the queue.\<close>

definition late_bytes :: "(nat \<times> nat) reactor_action list" where
  "late_bytes = [Register CtlOk, StartOp read_op (an_op 7) True, Changes (3, 0) {EpollIn}, Section None]"

definition after_late_bytes :: "(nat \<times> nat) descriptor" where
  "after_late_bytes = the (run (reactor_step (stream_ops endless_os (\<lambda>i. Suc 99))) (new_descriptor (0, 0)) late_bytes)"

lemmas reactor_eval = register_descriptor_def rearm_def ready_events_def new_descriptor_def start_op_def wait_for_event_def immediate_def
  push_op_def base_events_def stream_ops_def recv_do_perform_def non_blocking_recv1_def an_op_def op_types event_of_def
  next_type_def perform_next_def finish_perform_def reactor_run_def hits_def Let_def

lemma late_bytes_run:
  "run (reactor_step (stream_ops endless_os (\<lambda>i. Suc 99))) (new_descriptor (0, 0)) late_bytes = Some after_late_bytes"
  "op_queues after_late_bytes read_op = [an_op 7]" "device after_late_bytes = (3, 0)"
  by (simp_all add: after_late_bytes_def late_bytes_def reactor_eval endless_os_def)

lemma late_bytes_reachable: "reachable (reactor_step (stream_ops endless_os (\<lambda>i. Suc 99))) (new_descriptor (0, 0)) after_late_bytes"
  using late_bytes_run(1) by (rule run_reachable)



theorem operations_complete_once_witness: "mset (started_ops after_late_bytes) = {#7#} \<and> work_count after_late_bytes = 1"
  using operations_complete_once [OF late_bytes_reachable]
  by (simp add: after_late_bytes_def late_bytes_def reactor_eval endless_os_def ops_defs)



end
