(* ===== verification/AsioBufferedStreams.thy ===== *)
theory AsioBufferedStreams
  imports AsioTransferRefine
begin

text \<open>
  The buffered streams (\<open>buffered_read_stream\<close>, \<open>buffered_write_stream\<close>): a stream behind a buffer of fixed size
  (\<open>detail/buffered_stream_storage.hpp\<close>), with its synchronous and asynchronous operations. The next layer is a parameter:
  \<open>read_some\<close> of at most some bytes, and the composed \<open>write\<close>. The bytes that come out are those that went in, in order.
\<close>

section \<open>The storage\<close>

record storage =
  begin_offset :: nat
  end_offset :: nat
  store :: string

definition new_storage :: "nat \<Rightarrow> storage" where
  "new_storage cap = \<lparr>begin_offset = 0, end_offset = 0, store = replicate cap (CHR 0x00)\<rparr>"

definition st_clear :: "storage \<Rightarrow> storage" where
  "st_clear s = s\<lparr>begin_offset := 0, end_offset := 0\<rparr>"

definition st_data :: "storage \<Rightarrow> string" where
  "st_data s = drop (begin_offset s) (store s)"

definition st_empty :: "storage \<Rightarrow> bool" where
  "st_empty s = (begin_offset s = end_offset s)"

definition st_size :: "storage \<Rightarrow> nat" where
  "st_size s = end_offset s - begin_offset s"

definition st_capacity :: "storage \<Rightarrow> nat" where
  "st_capacity s = length (store s)"

definition st_resize :: "nat \<Rightarrow> storage \<Rightarrow> storage" where
  "st_resize len s = (if begin_offset s + len \<le> st_capacity s then s\<lparr>end_offset := begin_offset s + len\<rparr>
     else s\<lparr>store := take (st_size s) (st_data s) @ drop (st_size s) (store s), end_offset := len, begin_offset := 0\<rparr>)"

definition st_consume :: "nat \<Rightarrow> storage \<Rightarrow> storage" where
  "st_consume n s = (let s1 = s\<lparr>begin_offset := begin_offset s + n\<rparr> in if st_empty s1 then st_clear s1 else s1)"

text \<open>Bytes written to the memory that \<open>data\<close> is.\<close>

definition st_write :: "nat \<Rightarrow> string \<Rightarrow> storage \<Rightarrow> storage" where
  "st_write off d s = s\<lparr>store := take (begin_offset s + off) (store s) @ d @ drop (begin_offset s + off + length d) (store s)\<rparr>"

section \<open>Reading\<close>

text \<open>A read of the next layer gives the bytes it has put into the buffer.\<close>

type_synonym 'd layer_read = "nat \<Rightarrow> 'd \<Rightarrow> string \<times> net_error option \<times> 'd"

definition fill_from :: "'d layer_read \<Rightarrow> storage \<Rightarrow> 'd \<Rightarrow> nat \<times> net_error option \<times> storage \<times> 'd" where
  "fill_from layer s d =
     (let previous_size = st_size s; s1 = st_resize (st_capacity s) s;
          (bytes, ec, d1) = layer (st_size s1 - previous_size) d;
          s2 = st_resize (previous_size + length bytes) (st_write previous_size bytes s1)
      in (st_size s2 - previous_size, ec, s2, d1))"

text \<open>The overload that throws; the guard restores the size.\<close>

definition fill_throwing :: "'d layer_read \<Rightarrow> storage \<Rightarrow> 'd \<Rightarrow> (net_error + nat) \<times> storage \<times> 'd" where
  "fill_throwing layer s d =
     (let previous_size = st_size s; s1 = st_resize (st_capacity s) s;
          (bytes, ec, d1) = layer (st_size s1 - previous_size) d
      in case ec of
           Some e \<Rightarrow> (Inl e, st_resize previous_size s1, d1)
         | None \<Rightarrow> (let s2 = st_resize (previous_size + length bytes) (st_write previous_size bytes s1)
                    in (Inr (st_size s2 - previous_size), s2, d1)))"

definition peek_copy :: "nat \<Rightarrow> storage \<Rightarrow> string" where
  "peek_copy n s = take n (take (st_size s) (st_data s))"

definition copy_out :: "nat \<Rightarrow> storage \<Rightarrow> string \<times> storage" where
  "copy_out n s = (let bytes = peek_copy n s in (bytes, st_consume (length bytes) s))"

definition buffered_read_some :: "'d layer_read \<Rightarrow> nat \<Rightarrow> storage \<Rightarrow> 'd \<Rightarrow> string \<times> net_error option \<times> storage \<times> 'd" where
  "buffered_read_some layer n s d =
     (if n = 0 then ([], None, s, d)
      else if st_empty s then
        (let (filled, ec, s1, d1) = fill_from layer s d in
         if filled = 0 then ([], ec, s1, d1) else (let (bytes, s2) = copy_out n s1 in (bytes, ec, s2, d1)))
      else (let (bytes, s1) = copy_out n s in (bytes, None, s1, d)))"

definition buffered_read_throwing :: "'d layer_read \<Rightarrow> nat \<Rightarrow> storage \<Rightarrow> 'd \<Rightarrow> (net_error + string) \<times> storage \<times> 'd" where
  "buffered_read_throwing layer n s d =
     (if n = 0 then (Inr [], s, d)
      else if st_empty s then
        (case fill_throwing layer s d of
           (Inl e, s1, d1) \<Rightarrow> (Inl e, s1, d1)
         | (Inr filled, s1, d1) \<Rightarrow> (let (bytes, s2) = copy_out n s1 in (Inr bytes, s2, d1)))
      else (let (bytes, s1) = copy_out n s in (Inr bytes, s1, d)))"

definition buffered_peek :: "'d layer_read \<Rightarrow> nat \<Rightarrow> storage \<Rightarrow> 'd \<Rightarrow> string \<times> net_error option \<times> storage \<times> 'd" where
  "buffered_peek layer n s d =
     (if st_empty s then
        (let (filled, ec, s1, d1) = fill_from layer s d in if filled = 0 then ([], ec, s1, d1) else (peek_copy n s1, ec, s1, d1))
      else (peek_copy n s, None, s, d))"

definition in_avail :: "storage \<Rightarrow> nat" where
  "in_avail s = st_size s"

text \<open>The asynchronous read: a read of no bytes when the buffer has some, a fill otherwise, and the handlers of both.\<close>

definition buffered_read_some_handler :: "nat \<Rightarrow> net_error option \<Rightarrow> storage \<Rightarrow> string \<times> storage" where
  "buffered_read_some_handler n ec s = (if ec \<noteq> None \<or> st_empty s then ([], s) else copy_out n s)"

definition async_buffered_fill :: "'d layer_read \<Rightarrow> storage \<Rightarrow> 'd \<Rightarrow> nat \<times> net_error option \<times> storage \<times> 'd" where
  "async_buffered_fill layer s d =
     (let previous_size = st_size s; s1 = st_resize (st_capacity s) s;
          (bytes, ec, d1) = layer (st_size s1 - previous_size) d
      in (length bytes, ec, st_resize (previous_size + length bytes) (st_write previous_size bytes s1), d1))"

definition async_buffered_read :: "'d layer_read \<Rightarrow> nat \<Rightarrow> storage \<Rightarrow> 'd \<Rightarrow> string \<times> net_error option \<times> storage \<times> 'd" where
  "async_buffered_read layer n s d =
     (let (ec, s1, d1) = (if n = 0 \<or> \<not> st_empty s then (let (bytes, ec, d1) = layer 0 d in (ec, s, d1))
            else (let (filled, ec, s1, d1) = async_buffered_fill layer s d in (ec, s1, d1)));
          (bytes, s2) = buffered_read_some_handler n ec s1
      in (bytes, ec, s2, d1))"

text \<open>The calls of a client, with the bytes each delivers.\<close>

definition buffered_peek_throwing :: "'d layer_read \<Rightarrow> nat \<Rightarrow> storage \<Rightarrow> 'd \<Rightarrow> (net_error + string) \<times> storage \<times> 'd" where
  "buffered_peek_throwing layer n s d =
     (if st_empty s then
        (case fill_throwing layer s d of
           (Inl e, s1, d1) \<Rightarrow> (Inl e, s1, d1)
         | (Inr filled, s1, d1) \<Rightarrow> (Inr (peek_copy n s1), s1, d1))
      else (Inr (peek_copy n s), s, d))"

datatype read_call = ReadSome nat | ReadThrowing nat | AsyncRead nat | Peek nat | PeekThrowing nat | Fill | FillThrowing | AsyncFill

fun do_read_call :: "'d layer_read \<Rightarrow> read_call \<Rightarrow> storage \<Rightarrow> 'd \<Rightarrow> string \<times> storage \<times> 'd" where
  "do_read_call layer (ReadSome n) s d = (case buffered_read_some layer n s d of (bytes, ec, s1, d1) \<Rightarrow> (bytes, s1, d1))"
| "do_read_call layer (ReadThrowing n) s d = (case buffered_read_throwing layer n s d of (r, s1, d1) \<Rightarrow>
     (case r of Inl e \<Rightarrow> [] | Inr bytes \<Rightarrow> bytes, s1, d1))"
| "do_read_call layer (AsyncRead n) s d = (case async_buffered_read layer n s d of (bytes, ec, s1, d1) \<Rightarrow> (bytes, s1, d1))"
| "do_read_call layer (Peek n) s d = (case buffered_peek layer n s d of (bytes, ec, s1, d1) \<Rightarrow> ([], s1, d1))"
| "do_read_call layer (PeekThrowing n) s d = (case buffered_peek_throwing layer n s d of (r, s1, d1) \<Rightarrow> ([], s1, d1))"
| "do_read_call layer Fill s d = (case fill_from layer s d of (n, ec, s1, d1) \<Rightarrow> ([], s1, d1))"
| "do_read_call layer FillThrowing s d = (case fill_throwing layer s d of (r, s1, d1) \<Rightarrow> ([], s1, d1))"
| "do_read_call layer AsyncFill s d = (case async_buffered_fill layer s d of (n, ec, s1, d1) \<Rightarrow> ([], s1, d1))"

fun read_calls :: "'d layer_read \<Rightarrow> read_call list \<Rightarrow> storage \<Rightarrow> 'd \<Rightarrow> string \<times> storage \<times> 'd" where
  "read_calls layer [] s d = ([], s, d)"
| "read_calls layer (c # cs) s d = (case do_read_call layer c s d of (bytes, s1, d1) \<Rightarrow>
     (case read_calls layer cs s1 d1 of (out, s2, d2) \<Rightarrow> (bytes @ out, s2, d2)))"

section \<open>Writing\<close>

text \<open>The composed write of the next layer gives how many bytes it has written.\<close>

type_synonym 'd layer_write = "string \<Rightarrow> 'd \<Rightarrow> nat \<times> net_error option \<times> 'd"

definition flush_to :: "'d layer_write \<Rightarrow> storage \<Rightarrow> 'd \<Rightarrow> nat \<times> net_error option \<times> storage \<times> 'd" where
  "flush_to layer s d = (let (n, ec, d1) = layer (take (st_size s) (st_data s)) d in (n, ec, st_consume n s, d1))"

text \<open>The overload that throws leaves the storage as it is then, although bytes may have been written.\<close>

definition flush_throwing :: "'d layer_write \<Rightarrow> storage \<Rightarrow> 'd \<Rightarrow> (net_error + nat) \<times> storage \<times> 'd" where
  "flush_throwing layer s d = (let (n, ec, d1) = layer (take (st_size s) (st_data s)) d in
     case ec of Some e \<Rightarrow> (Inl e, s, d1) | None \<Rightarrow> (Inr n, st_consume n s, d1))"

definition copy_in :: "string \<Rightarrow> storage \<Rightarrow> nat \<times> storage" where
  "copy_in bytes s =
     (let orig_size = st_size s; space_avail = st_capacity s - orig_size; bytes_avail = length bytes;
          len = (if bytes_avail < space_avail then bytes_avail else space_avail)
      in (len, st_write orig_size (take len bytes) (st_resize (orig_size + len) s)))"

definition buffered_write_some :: "'d layer_write \<Rightarrow> string \<Rightarrow> storage \<Rightarrow> 'd \<Rightarrow> nat \<times> net_error option \<times> storage \<times> 'd" where
  "buffered_write_some layer bytes s d =
     (if bytes = [] then (0, None, s, d)
      else if st_size s = st_capacity s then
        (let (flushed, ec, s1, d1) = flush_to layer s d in
         if flushed = 0 then (0, ec, s1, d1) else (let (n, s2) = copy_in bytes s1 in (n, ec, s2, d1)))
      else (let (n, s1) = copy_in bytes s in (n, None, s1, d)))"

definition buffered_write_throwing :: "'d layer_write \<Rightarrow> string \<Rightarrow> storage \<Rightarrow> 'd \<Rightarrow> (net_error + nat) \<times> storage \<times> 'd" where
  "buffered_write_throwing layer bytes s d =
     (if bytes = [] then (Inr 0, s, d)
      else if st_size s = st_capacity s then
        (case flush_throwing layer s d of
           (Inl e, s1, d1) \<Rightarrow> (Inl e, s1, d1)
         | (Inr flushed, s1, d1) \<Rightarrow> (let (n, s2) = copy_in bytes s1 in (Inr n, s2, d1)))
      else (let (n, s1) = copy_in bytes s in (Inr n, s1, d)))"

text \<open>The asynchronous write, with the write of no bytes where there is room.\<close>

definition async_buffered_write :: "'d layer_write \<Rightarrow> string \<Rightarrow> storage \<Rightarrow> 'd \<Rightarrow> nat \<times> net_error option \<times> storage \<times> 'd" where
  "async_buffered_write layer bytes s d =
     (let (ec, s1, d1) = (if bytes = [] \<or> st_size s < st_capacity s then (let (n, ec, d1) = layer [] d in (ec, s, d1))
            else (let (flushed, ec, s1, d1) = flush_to layer s d in (ec, s1, d1)))
      in if ec \<noteq> None then (0, ec, s1, d1) else (let (n, s2) = copy_in bytes s1 in (n, ec, s2, d1)))"

text \<open>The calls of a client, with the bytes each has accepted.\<close>

datatype write_call = WriteSome string | WriteThrowing string | AsyncWrite string | Flush | FlushThrowing | AsyncFlush

fun do_write_call :: "'d layer_write \<Rightarrow> write_call \<Rightarrow> storage \<Rightarrow> 'd \<Rightarrow> string \<times> storage \<times> 'd" where
  "do_write_call layer (WriteSome b) s d = (case buffered_write_some layer b s d of (n, ec, s1, d1) \<Rightarrow> (take n b, s1, d1))"
| "do_write_call layer (WriteThrowing b) s d = (case buffered_write_throwing layer b s d of (r, s1, d1) \<Rightarrow>
     (case r of Inl e \<Rightarrow> [] | Inr n \<Rightarrow> take n b, s1, d1))"
| "do_write_call layer (AsyncWrite b) s d = (case async_buffered_write layer b s d of (n, ec, s1, d1) \<Rightarrow> (take n b, s1, d1))"
| "do_write_call layer Flush s d = (case flush_to layer s d of (n, ec, s1, d1) \<Rightarrow> ([], s1, d1))"
| "do_write_call layer FlushThrowing s d = (case flush_throwing layer s d of (r, s1, d1) \<Rightarrow> ([], s1, d1))"
| "do_write_call layer AsyncFlush s d = (case flush_to layer s d of (n, ec, s1, d1) \<Rightarrow> ([], s1, d1))"

fun write_calls :: "'d layer_write \<Rightarrow> write_call list \<Rightarrow> storage \<Rightarrow> 'd \<Rightarrow> string \<times> storage \<times> 'd" where
  "write_calls layer [] s d = ([], s, d)"
| "write_calls layer (c # cs) s d = (case do_write_call layer c s d of (bytes, s1, d1) \<Rightarrow>
     (case write_calls layer cs s1 d1 of (accepted, s2, d2) \<Rightarrow> (bytes @ accepted, s2, d2)))"

definition throws :: "write_call \<Rightarrow> bool" where
  "throws c = (case c of WriteThrowing b \<Rightarrow> True | FlushThrowing \<Rightarrow> True | _ \<Rightarrow> False)"

section \<open>What is in the storage\<close>

definition st_ok :: "storage \<Rightarrow> bool" where
  "st_ok s = (begin_offset s \<le> end_offset s \<and> end_offset s \<le> length (store s))"

definition buffered :: "storage \<Rightarrow> string" where
  "buffered s = take (st_size s) (st_data s)"

lemmas st_defs = st_ok_def buffered_def st_size_def st_data_def st_capacity_def st_empty_def

lemma new_storage_ok: "st_ok (new_storage cap)" "buffered (new_storage cap) = []" "st_capacity (new_storage cap) = cap"
  by (simp_all add: st_defs new_storage_def)

lemma length_buffered: "st_ok s \<Longrightarrow> length (buffered s) = st_size s" "st_ok s \<Longrightarrow> st_empty s \<longleftrightarrow> buffered s = []"
  "st_ok s \<Longrightarrow> st_size s \<le> st_capacity s"
  by (auto simp: st_defs)

lemma grow_ok:
  assumes "st_ok s" "st_size s \<le> n" "n \<le> st_capacity s"
  shows "st_ok (st_resize n s)" "st_size (st_resize n s) = n" "st_capacity (st_resize n s) = st_capacity s"
    "take (st_size s) (buffered (st_resize n s)) = buffered s"
  using assms by (auto simp: st_defs st_resize_def min_def)

lemma shrink_ok:
  assumes "st_ok s" "n \<le> st_size s"
  shows "st_ok (st_resize n s)" "st_size (st_resize n s) = n" "st_capacity (st_resize n s) = st_capacity s"
    "buffered (st_resize n s) = take n (buffered s)"
  using assms by (auto simp: st_defs st_resize_def min_def)

lemma write_ok:
  assumes "st_ok s" "off + length d \<le> st_size s"
  shows "st_ok (st_write off d s)" "st_size (st_write off d s) = st_size s" "st_capacity (st_write off d s) = st_capacity s"
    "take (off + length d) (buffered (st_write off d s)) = take off (buffered s) @ d"
proof -
  have le: "begin_offset s + off + length d \<le> length (store s)" using assms by (simp add: st_ok_def st_size_def) linarith
  have len: "length (store (st_write off d s)) = length (store s)" using le by (simp add: st_write_def)
  have same: "begin_offset (st_write off d s) = begin_offset s" "end_offset (st_write off d s) = end_offset s" by (simp_all add: st_write_def)
  show "st_ok (st_write off d s)" "st_size (st_write off d s) = st_size s" "st_capacity (st_write off d s) = st_capacity s"
    using assms(1) by (simp_all add: st_ok_def st_size_def st_capacity_def len same)
  have "drop (begin_offset s) (store (st_write off d s)) = take off (st_data s) @ d @ drop (off + length d) (st_data s)"
    using le by (simp add: st_write_def st_data_def min_def drop_take ac_simps)
  then have b: "buffered (st_write off d s) = take (st_size s) (take off (st_data s) @ d @ drop (off + length d) (st_data s))"
    by (simp only: buffered_def st_data_def st_size_def same)
  have o: "length (take off (st_data s)) = off" using le by (simp add: st_data_def)
  have "take (off + length d) (buffered (st_write off d s)) = take (off + length d) (take off (st_data s) @ d @ drop (off + length d) (st_data s))"
    unfolding b take_take min_absorb1 [OF assms(2)] ..
  also have "\<dots> = take off (st_data s) @ d" using o by simp
  also have "take off (st_data s) = take off (buffered s)" using assms(2) by (simp add: buffered_def min_def)
  finally show "take (off + length d) (buffered (st_write off d s)) = take off (buffered s) @ d" .
qed

lemma consume_ok:
  assumes "st_ok s" "n \<le> st_size s"
  shows "st_ok (st_consume n s)" "buffered (st_consume n s) = drop n (buffered s)" "st_capacity (st_consume n s) = st_capacity s"
  using assms by (auto simp: st_defs st_consume_def st_clear_def Let_def drop_take ac_simps)

lemma fill_resize:
  assumes "st_ok s" "length bytes \<le> st_capacity s - st_size s"
  shows "st_ok (st_resize (st_size s + length bytes) (st_write (st_size s) bytes (st_resize (st_capacity s) s)))"
    "buffered (st_resize (st_size s + length bytes) (st_write (st_size s) bytes (st_resize (st_capacity s) s))) = buffered s @ bytes"
    "st_capacity (st_resize (st_size s + length bytes) (st_write (st_size s) bytes (st_resize (st_capacity s) s))) = st_capacity s"
    "st_size (st_resize (st_size s + length bytes) (st_write (st_size s) bytes (st_resize (st_capacity s) s))) = st_size s + length bytes"
proof -
  have c: "st_size s \<le> st_capacity s" using length_buffered(3) [OF assms(1)] .
  note g = grow_ok [OF assms(1) c order.refl]
  have w: "st_size s + length bytes \<le> st_size (st_resize (st_capacity s) s)" using assms(2) c g(2) by simp
  note v = write_ok [OF g(1) w]
  have u: "st_size s + length bytes \<le> st_size (st_write (st_size s) bytes (st_resize (st_capacity s) s))" unfolding v(2) by (rule w)
  note r = shrink_ok [OF v(1) u]
  show "st_ok (st_resize (st_size s + length bytes) (st_write (st_size s) bytes (st_resize (st_capacity s) s)))" by (rule r(1))
  show "buffered (st_resize (st_size s + length bytes) (st_write (st_size s) bytes (st_resize (st_capacity s) s))) = buffered s @ bytes"
    by (simp add: r(4) v(4) g(4))
  show "st_capacity (st_resize (st_size s + length bytes) (st_write (st_size s) bytes (st_resize (st_capacity s) s))) = st_capacity s"
    by (simp add: r(3) v(3) g(3))
  show "st_size (st_resize (st_size s + length bytes) (st_write (st_size s) bytes (st_resize (st_capacity s) s))) = st_size s + length bytes"
    by (rule r(2))
qed

lemma guard_ok:
  assumes "st_ok s"
  shows "st_ok (st_resize (st_size s) (st_resize (st_capacity s) s))" "buffered (st_resize (st_size s) (st_resize (st_capacity s) s)) = buffered s"
    "st_capacity (st_resize (st_size s) (st_resize (st_capacity s) s)) = st_capacity s"
proof -
  have c: "st_size s \<le> st_capacity s" using length_buffered(3) [OF assms] .
  note g = grow_ok [OF assms c order.refl]
  have u: "st_size s \<le> st_size (st_resize (st_capacity s) s)" unfolding g(2) by (rule c)
  note r = shrink_ok [OF g(1) u]
  show "st_ok (st_resize (st_size s) (st_resize (st_capacity s) s))" "buffered (st_resize (st_size s) (st_resize (st_capacity s) s)) = buffered s"
    "st_capacity (st_resize (st_size s) (st_resize (st_capacity s) s)) = st_capacity s"
    by (simp_all add: r g)
qed

lemma copy_out_ok:
  assumes "st_ok s"
  shows "fst (copy_out n s) = take n (buffered s)" "st_ok (snd (copy_out n s))" "buffered (snd (copy_out n s)) = drop n (buffered s)"
    "st_capacity (snd (copy_out n s)) = st_capacity s"
proof -
  have p: "peek_copy n s = take n (buffered s)" by (simp add: peek_copy_def buffered_def)
  have l: "length (take n (buffered s)) \<le> st_size s" using length_buffered(1) [OF assms] by simp
  note c = consume_ok [OF assms l]
  show "fst (copy_out n s) = take n (buffered s)" by (simp add: copy_out_def p Let_def)
  show "st_ok (snd (copy_out n s))" "st_capacity (snd (copy_out n s)) = st_capacity s" using c by (simp_all add: copy_out_def p Let_def)
  show "buffered (snd (copy_out n s)) = drop n (buffered s)" using c(2) by (simp add: copy_out_def p Let_def min_def)
qed

lemma copy_in_ok:
  assumes "st_ok s"
  shows "fst (copy_in d s) = min (length d) (st_capacity s - st_size s)" "st_ok (snd (copy_in d s))"
    "buffered (snd (copy_in d s)) = buffered s @ take (fst (copy_in d s)) d" "st_capacity (snd (copy_in d s)) = st_capacity s"
proof -
  let ?n = "min (length d) (st_capacity s - st_size s)"
  have n: "(if length d < st_capacity s - st_size s then length d else st_capacity s - st_size s) = ?n" by auto
  have i: "copy_in d s = (?n, st_write (st_size s) (take ?n d) (st_resize (st_size s + ?n) s))" unfolding copy_in_def Let_def n ..
  have "?n \<le> st_capacity s - st_size s" by (rule min.cobounded2)
  then have c: "st_size s \<le> st_size s + ?n" "st_size s + ?n \<le> st_capacity s" using length_buffered(3) [OF assms] by linarith+
  note g = grow_ok [OF assms c]
  have w: "st_size s + length (take ?n d) \<le> st_size (st_resize (st_size s + ?n) s)" by (simp add: g(2))
  note v = write_ok [OF g(1) w]
  have l: "length (buffered (st_write (st_size s) (take ?n d) (st_resize (st_size s + ?n) s))) = st_size s + length (take ?n d)"
    using length_buffered(1) [OF v(1)] v(2) g(2) by simp
  let ?s = "st_write (st_size s) (take ?n d) (st_resize (st_size s + ?n) s)"
  have f: "fst (copy_in d s) = ?n" "snd (copy_in d s) = ?s" unfolding i by (rule fst_conv, rule snd_conv)
  show "fst (copy_in d s) = ?n" by (rule f(1))
  show "st_ok (snd (copy_in d s))" unfolding f(2) by (rule v(1))
  show "st_capacity (snd (copy_in d s)) = st_capacity s" unfolding f(2) v(3) by (rule g(3))
  have "buffered ?s = take (st_size s + length (take ?n d)) (buffered ?s)" by (rule sym, rule take_all) (rule eq_refl [OF l])
  then show "buffered (snd (copy_in d s)) = buffered s @ take (fst (copy_in d s)) d" unfolding f v(4) g(4) .
qed

section \<open>Reading in order\<close>

text \<open>A layer with \<open>rest\<close> still to be read: it gives the first bytes of it, some unless it fails, none when it fails.\<close>

locale read_layer =
  fixes layer :: "'d layer_read" and rest :: "'d \<Rightarrow> string"
  assumes in_order: "layer n d = (bytes, ec, d1) \<Longrightarrow> rest d = bytes @ rest d1"
    and fits: "layer n d = (bytes, ec, d1) \<Longrightarrow> length bytes \<le> n"
    and fails: "layer n d = (bytes, Some e, d1) \<Longrightarrow> bytes = []"
    and gives: "layer n d = (bytes, None, d1) \<Longrightarrow> 0 < n \<Longrightarrow> bytes \<noteq> []"
begin

lemma fill_from_ok:
  assumes "st_ok s" "fill_from layer s d = (n, ec, s1, d1)"
  shows "st_ok s1 \<and> st_capacity s1 = st_capacity s \<and> buffered s @ rest d = buffered s1 @ rest d1 \<and> n = length (buffered s1) - length (buffered s) \<and>
    (ec = None \<and> st_size s < st_capacity s \<longrightarrow> 0 < n) \<and> (n = 0 \<longrightarrow> buffered s1 = buffered s)"
proof -
  let ?n = "st_size (st_resize (st_capacity s) s) - st_size s"
  obtain bytes ec' d' where l: "layer ?n d = (bytes, ec', d')" by (cases "layer ?n d")
  have n: "?n = st_capacity s - st_size s" using grow_ok(2) [OF assms(1) length_buffered(3) [OF assms(1)] order.refl] by simp
  note f = fill_resize [OF assms(1) fits [OF l, unfolded n]]
  have r: "n = length bytes" "ec = ec'" "d1 = d'" "s1 = st_resize (st_size s + length bytes) (st_write (st_size s) bytes (st_resize (st_capacity s) s))"
    using assms(2) l f(4) by (auto simp: fill_from_def Let_def)
  show ?thesis unfolding r(2-4) using f in_order [OF l] gives [of ?n d bytes d'] l r(1) n by auto
qed

lemma fill_throwing_ok:
  assumes "st_ok s" "fill_throwing layer s d = (r, s1, d1)"
  shows "st_ok s1 \<and> st_capacity s1 = st_capacity s \<and> buffered s @ rest d = buffered s1 @ rest d1"
proof -
  let ?n = "st_size (st_resize (st_capacity s) s) - st_size s"
  obtain bytes ec d' where l: "layer ?n d = (bytes, ec, d')" by (cases "layer ?n d")
  have n: "?n = st_capacity s - st_size s" using grow_ok(2) [OF assms(1) length_buffered(3) [OF assms(1)] order.refl] by simp
  note f = fill_resize [OF assms(1) fits [OF l, unfolded n]] and g = guard_ok [OF assms(1)]
  show ?thesis
  proof (cases ec)
    case None
    then have "d1 = d'" "s1 = st_resize (st_size s + length bytes) (st_write (st_size s) bytes (st_resize (st_capacity s) s))"
      using assms(2) l by (auto simp: fill_throwing_def Let_def)
    then show ?thesis using f in_order [OF l] by simp
  next
    case (Some e)
    then have "d1 = d'" "s1 = st_resize (st_size s) (st_resize (st_capacity s) s)" using assms(2) l by (auto simp: fill_throwing_def Let_def)
    then show ?thesis using g in_order [OF l] fails [of ?n d bytes e d'] l Some by simp
  qed
qed

lemma copy_out_order: "st_ok s \<Longrightarrow> copy_out n s = (bytes, s1) \<Longrightarrow> st_ok s1 \<and> st_capacity s1 = st_capacity s \<and> buffered s = bytes @ buffered s1"
  using copy_out_ok [of s n] by (metis append_take_drop_id fst_conv snd_conv)

lemma read_some_ok:
  assumes "st_ok s" "buffered_read_some layer n s d = (bytes, ec, s1, d1)"
  shows "st_ok s1 \<and> st_capacity s1 = st_capacity s \<and> buffered s @ rest d = bytes @ buffered s1 @ rest d1"
proof (cases "n = 0 \<or> \<not> st_empty s")
  case True
  then show ?thesis using assms by (auto simp: buffered_read_some_def split: if_splits prod.splits dest: copy_out_order)
next
  case False
  obtain filled e s2 d2 where f: "fill_from layer s d = (filled, e, s2, d2)" by (cases "fill_from layer s d")
  obtain bs s3 where c: "copy_out n s2 = (bs, s3)" by (cases "copy_out n s2")
  note o = fill_from_ok [OF assms(1) f]
  have "buffered_read_some layer n s d = (if filled = 0 then ([], e, s2, d2) else (bs, e, s3, d2))"
    unfolding buffered_read_some_def using False by (simp only: f c Let_def prod.case if_False if_True) simp
  then have r: "(bytes, ec, s1, d1) = (if filled = 0 then ([], e, s2, d2) else (bs, e, s3, d2))" by (rule trans [OF assms(2) [symmetric]])
  show ?thesis
  proof (cases "filled = 0")
    case True
    then have q: "bytes = []" "s1 = s2" "d1 = d2" using r by simp_all
    show ?thesis unfolding q append_Nil using o by (elim conjE) (intro conjI)
  next
    case False
    then have q: "bytes = bs" "s1 = s3" "d1 = d2" using r by simp_all
    have k: "st_ok s3 \<and> st_capacity s3 = st_capacity s2 \<and> buffered s2 = bs @ buffered s3" using o copy_out_order [OF _ c] by blast
    have "buffered s @ rest d = (bs @ buffered s3) @ rest d2" using o k by metis
    then show ?thesis unfolding q append_assoc using o k by metis
  qed
qed

lemma read_throwing_ok:
  assumes "st_ok s" "buffered_read_throwing layer n s d = (r, s1, d1)"
  shows "st_ok s1 \<and> st_capacity s1 = st_capacity s \<and> buffered s @ rest d = (case r of Inl e \<Rightarrow> [] | Inr bytes \<Rightarrow> bytes) @ buffered s1 @ rest d1"
proof (cases "n = 0 \<or> \<not> st_empty s")
  case True
  then show ?thesis using assms by (auto simp: buffered_read_throwing_def split: if_splits prod.splits dest: copy_out_order)
next
  case False
  obtain r2 s2 d2 where f: "fill_throwing layer s d = (r2, s2, d2)" by (cases "fill_throwing layer s d")
  obtain bs s3 where c: "copy_out n s2 = (bs, s3)" by (cases "copy_out n s2")
  note o = fill_throwing_ok [OF assms(1) f] copy_out_order [OF _ c]
  have "buffered_read_throwing layer n s d = (case r2 of Inl e \<Rightarrow> (Inl e, s2, d2) | Inr filled \<Rightarrow> (Inr bs, s3, d2))"
    unfolding buffered_read_throwing_def using False by (cases r2) (simp_all add: f c)
  then have r: "(r, s1, d1) = (case r2 of Inl e \<Rightarrow> (Inl e, s2, d2) | Inr filled \<Rightarrow> (Inr bs, s3, d2))" by (rule trans [OF assms(2) [symmetric]])
  show ?thesis using o r by (cases r2) simp_all
qed

lemma peek_ok:
  assumes "st_ok s" "buffered_peek layer n s d = (bytes, ec, s1, d1)"
  shows "st_ok s1 \<and> st_capacity s1 = st_capacity s \<and> buffered s @ rest d = buffered s1 @ rest d1 \<and> bytes = take n (buffered s1)"
proof (cases "st_empty s")
  case True
  obtain filled e s2 d2 where f: "fill_from layer s d = (filled, e, s2, d2)" by (cases "fill_from layer s d")
  note o = fill_from_ok [OF assms(1) f] and m = length_buffered(2) [OF assms(1)]
  have "buffered_peek layer n s d = (if filled = 0 then ([], e, s2, d2) else (peek_copy n s2, e, s2, d2))"
    unfolding buffered_peek_def using True by (simp only: f Let_def prod.case if_True)
  then have "(bytes, ec, s1, d1) = (if filled = 0 then ([], e, s2, d2) else (peek_copy n s2, e, s2, d2))" by (rule trans [OF assms(2) [symmetric]])
  then have r: "s1 = s2" "d1 = d2" "bytes = (if filled = 0 then [] else take n (buffered s2))"
    by (simp_all add: peek_copy_def buffered_def split: if_splits)
  have "(if filled = 0 then [] else take n (buffered s2)) = take n (buffered s2)" using o m True by (metis take_Nil)
  then show ?thesis unfolding r using o by metis
next
  case False
  then show ?thesis using assms by (auto simp: buffered_peek_def peek_copy_def buffered_def)
qed

lemma async_read_ok:
  assumes "st_ok s" "async_buffered_read layer n s d = (bytes, ec, s1, d1)"
  shows "st_ok s1 \<and> st_capacity s1 = st_capacity s \<and> buffered s @ rest d = bytes @ buffered s1 @ rest d1"
proof -
  have h: "st_ok s2 \<and> st_capacity s2 = st_capacity s3 \<and> buffered s3 = bs @ buffered s2"
    if "buffered_read_some_handler n e s3 = (bs, s2)" "st_ok s3" for e bs s2 s3
    using that copy_out_order [of s3 n bs s2] by (auto simp: buffered_read_some_handler_def split: if_splits)
  show ?thesis
  proof (cases "n = 0 \<or> \<not> st_empty s")
    case True
    obtain bs e d2 where l: "layer 0 d = (bs, e, d2)" by (cases "layer 0 d")
    obtain cs s2 where c: "buffered_read_some_handler n e s = (cs, s2)" by (cases "buffered_read_some_handler n e s")
    have "async_buffered_read layer n s d = (cs, e, s2, d2)"
      unfolding async_buffered_read_def using True by (simp only: if_True Let_def l c prod.case)
    from trans [OF assms(2) [symmetric] this] have r: "bytes = cs" "s1 = s2" "d1 = d2" by simp_all
    have "bs = []" using fits [OF l] by simp
    then show ?thesis unfolding r using h [OF c assms(1)] in_order [OF l] by simp
  next
    case False
    let ?n = "st_size (st_resize (st_capacity s) s) - st_size s"
    obtain bs e d2 where l: "layer ?n d = (bs, e, d2)" by (cases "layer ?n d")
    have k: "?n = st_capacity s - st_size s" using grow_ok(2) [OF assms(1) length_buffered(3) [OF assms(1)] order.refl] by simp
    note f = fill_resize [OF assms(1) fits [OF l, unfolded k]]
    let ?s = "st_resize (st_size s + length bs) (st_write (st_size s) bs (st_resize (st_capacity s) s))"
    obtain cs s2 where c: "buffered_read_some_handler n e ?s = (cs, s2)" by (cases "buffered_read_some_handler n e ?s")
    have "async_buffered_read layer n s d = (cs, e, s2, d2)"
      unfolding async_buffered_read_def async_buffered_fill_def using False by (simp only: if_False Let_def l c prod.case)
    from trans [OF assms(2) [symmetric] this] have r: "bytes = cs" "s1 = s2" "d1 = d2" by simp_all
    note k = h [OF c f(1)]
    have "buffered s @ rest d = (buffered s @ bs) @ rest d2" unfolding in_order [OF l] by (rule append_assoc [symmetric])
    also have "buffered s @ bs = cs @ buffered s2" by (rule trans [OF f(2) [symmetric] conjunct2 [OF conjunct2 [OF k]]])
    finally have b: "buffered s @ rest d = cs @ buffered s2 @ rest d2" unfolding append_assoc .
    have "st_capacity s2 = st_capacity s" by (rule trans [OF conjunct1 [OF conjunct2 [OF k]] f(3)])
    then show ?thesis unfolding r using k b by (intro conjI) (rule conjunct1)
  qed
qed

lemma async_fill_ok:
  assumes "st_ok s" "async_buffered_fill layer s d = (n, ec, s1, d1)"
  shows "st_ok s1 \<and> st_capacity s1 = st_capacity s \<and> buffered s @ rest d = buffered s1 @ rest d1"
proof -
  let ?n = "st_size (st_resize (st_capacity s) s) - st_size s"
  obtain bytes ec' d' where l: "layer ?n d = (bytes, ec', d')" by (cases "layer ?n d")
  have k: "?n = st_capacity s - st_size s" using grow_ok(2) [OF assms(1) length_buffered(3) [OF assms(1)] order.refl] by simp
  note f = fill_resize [OF assms(1) fits [OF l, unfolded k]]
  have r: "d1 = d'" "s1 = st_resize (st_size s + length bytes) (st_write (st_size s) bytes (st_resize (st_capacity s) s))"
    using assms(2) l by (auto simp: async_buffered_fill_def Let_def)
  have "buffered s @ rest d = (buffered s @ bytes) @ rest d'" unfolding in_order [OF l] by (rule append_assoc [symmetric])
  then show ?thesis unfolding r f(2) using f(1,3) by blast
qed

lemma peek_throwing_ok:
  assumes "st_ok s" "buffered_peek_throwing layer n s d = (r, s1, d1)"
  shows "st_ok s1 \<and> st_capacity s1 = st_capacity s \<and> buffered s @ rest d = buffered s1 @ rest d1"
  using assms fill_throwing_ok [OF assms(1)] by (auto simp: buffered_peek_throwing_def split: if_splits sum.splits prod.splits)

lemma read_call_ok:
  assumes "st_ok s" "do_read_call layer c s d = (out, s1, d1)"
  shows "st_ok s1 \<and> st_capacity s1 = st_capacity s \<and> buffered s @ rest d = out @ buffered s1 @ rest d1"
proof (cases c)
  case (ReadSome n)
  then show ?thesis using assms read_some_ok [OF assms(1), of n d] by (auto split: prod.splits)
next
  case (ReadThrowing n)
  then show ?thesis using assms read_throwing_ok [OF assms(1), of n d] by (auto split: prod.splits)
next
  case (AsyncRead n)
  then show ?thesis using assms async_read_ok [OF assms(1), of n d] by (auto split: prod.splits)
next
  case (Peek n)
  then show ?thesis using assms peek_ok [OF assms(1), of n d] by (auto split: prod.splits)
next
  case (PeekThrowing n)
  then show ?thesis using assms peek_throwing_ok [OF assms(1), of n d] by (auto split: prod.splits)
next
  case Fill
  obtain m ec s2 d2 where f: "fill_from layer s d = (m, ec, s2, d2)" by (cases "fill_from layer s d")
  have q: "out = []" "s1 = s2" "d1 = d2" using assms(2) by (simp_all add: Fill f)
  show ?thesis unfolding q append_Nil using fill_from_ok [OF assms(1) f] by (elim conjE) (intro conjI)
next
  case FillThrowing
  then show ?thesis using assms fill_throwing_ok [OF assms(1), of d] by (auto split: prod.splits)
next
  case AsyncFill
  then show ?thesis using assms async_fill_ok [OF assms(1), of d] by (auto split: prod.splits)
qed

lemma read_calls_ok:
  assumes "st_ok s" "read_calls layer cs s d = (out, s1, d1)"
  shows "st_ok s1 \<and> st_capacity s1 = st_capacity s \<and> buffered s @ rest d = out @ buffered s1 @ rest d1"
  using assms
proof (induction cs arbitrary: s d out)
  case (Cons c cs)
  obtain o1 s2 d2 where c: "do_read_call layer c s d = (o1, s2, d2)" by (cases "do_read_call layer c s d")
  obtain o2 s3 d3 where r: "read_calls layer cs s2 d2 = (o2, s3, d3)" by (cases "read_calls layer cs s2 d2")
  have q: "out = o1 @ o2" "s1 = s3" "d1 = d3" using Cons.prems(2) c r by simp_all
  have a: "st_ok s2 \<and> st_capacity s2 = st_capacity s \<and> buffered s @ rest d = o1 @ buffered s2 @ rest d2" by (rule read_call_ok [OF Cons.prems(1) c])
  then have b: "st_ok s1 \<and> st_capacity s1 = st_capacity s2 \<and> buffered s2 @ rest d2 = o2 @ buffered s1 @ rest d1"
    using Cons.IH [of s2 d2 o2] r q by blast
  have "buffered s @ rest d = (o1 @ o2) @ buffered s1 @ rest d1" using a b by (metis append_assoc)
  then show ?case unfolding q(1) using a b by metis
qed simp

lemma read_some_bounded:
  assumes "st_ok s" "buffered_read_some layer n s d = (bytes, ec, s1, d1)"
  shows "length bytes \<le> n"
proof -
  have c: "length bs \<le> n" if "copy_out n s2 = (bs, s3)" for bs s2 s3
    using that by (auto simp: copy_out_def peek_copy_def Let_def)
  show ?thesis using assms(2) by (auto simp: buffered_read_some_def dest: c split: if_splits prod.splits)
qed

lemma read_some_gives:
  assumes "st_ok s" "0 < st_capacity s" "0 < n" "buffered_read_some layer n s d = (bytes, None, s1, d1)"
  shows "bytes \<noteq> []"
proof -
  have c: "bs \<noteq> []" if "copy_out n s2 = (bs, s3)" "st_ok s2" "buffered s2 \<noteq> []" for bs s2 s3
    using that copy_out_ok(1) [of s2 n] assms(3) by auto
  show ?thesis
  proof (cases "st_empty s")
    case False
    obtain bs s3 where o: "copy_out n s = (bs, s3)" by (cases "copy_out n s")
    have "bytes = bs" using assms(3,4) False o by (simp add: buffered_read_some_def)
    then show ?thesis using c [OF o assms(1)] False length_buffered(2) [OF assms(1)] by simp
  next
    case True
    obtain filled e s2 d2 where f: "fill_from layer s d = (filled, e, s2, d2)" by (cases "fill_from layer s d")
    obtain bs s3 where o: "copy_out n s2 = (bs, s3)" by (cases "copy_out n s2")
    have "buffered_read_some layer n s d = (if filled = 0 then ([], e, s2, d2) else (bs, e, s3, d2))"
      unfolding buffered_read_some_def using True assms(3) by (simp only: f o Let_def prod.case if_False if_True) simp
    from trans [OF assms(4) [symmetric] this] have r: "bytes = (if filled = 0 then [] else bs)" "e = None" by (simp_all split: if_splits)
    have "st_size s = 0" using True by (simp add: st_empty_def st_size_def)
    then have "0 < filled" "st_ok s2" "filled = length (buffered s2) - length (buffered s)"
      using fill_from_ok [OF assms(1) f] assms(2) r(2) by (metis, metis, metis)
    then have "buffered s2 \<noteq> []" by auto
    then show ?thesis using c [OF o \<open>st_ok s2\<close>] r(1) \<open>0 < filled\<close> by simp
  qed
qed

end

text \<open>An error that a read reports comes from the next layer, and the buffer was empty.\<close>

lemma fill_from_error: "fill_from layer s d = (n, ec, s1, d1) \<Longrightarrow> \<exists>bytes. layer (st_size (st_resize (st_capacity s) s) - st_size s) d = (bytes, ec, d1)"
  by (auto simp: fill_from_def Let_def split: prod.splits)

lemma read_some_error:
  assumes "buffered_read_some layer n s d = (bytes, Some e, s1, d1)"
  shows "st_empty s \<and> (\<exists>m bytes d1. layer m d = (bytes, Some e, d1))"
proof -
  have "n \<noteq> 0" "st_empty s" using assms by (auto simp: buffered_read_some_def split: if_splits prod.splits)
  moreover obtain filled ec s2 d2 where f: "fill_from layer s d = (filled, ec, s2, d2)" by (cases "fill_from layer s d")
  ultimately have "ec = Some e" using assms by (auto simp: buffered_read_some_def f split: if_splits prod.splits)
  then show ?thesis using fill_from_error [OF f] \<open>st_empty s\<close> by blast
qed

section \<open>Writing in order\<close>

text \<open>A layer that sends the first bytes of what it is given, and says how many. What the flushes that throw need: one that fails has sent
  none.\<close>

definition all_or_nothing :: "'d layer_write \<Rightarrow> bool" where
  "all_or_nothing layer \<longleftrightarrow> (\<forall>bytes d n e d1. layer bytes d = (n, Some e, d1) \<longrightarrow> n = 0)"

locale write_layer =
  fixes layer :: "'d layer_write" and sent :: "'d \<Rightarrow> string"
  assumes sends: "layer bytes d = (n, ec, d1) \<Longrightarrow> sent d1 = sent d @ take n bytes"
    and sent_part: "layer bytes d = (n, ec, d1) \<Longrightarrow> n \<le> length bytes"
begin

lemma flush_ok:
  assumes "st_ok s" "flush_to layer s d = (n, ec, s1, d1)"
  shows "st_ok s1 \<and> st_capacity s1 = st_capacity s \<and> sent d1 @ buffered s1 = sent d @ buffered s"
proof -
  obtain n' ec' d' where l: "layer (buffered s) d = (n', ec', d')" by (cases "layer (buffered s) d")
  have q: "n = n'" "s1 = st_consume n' s" "d1 = d'" using assms(2) l by (auto simp: flush_to_def buffered_def)
  have "n' \<le> st_size s" using sent_part [OF l] length_buffered(1) [OF assms(1)] by simp
  note c = consume_ok [OF assms(1) this]
  have "sent d' @ drop n' (buffered s) = sent d @ buffered s" unfolding sends [OF l] append_assoc append_take_drop_id ..
  then show ?thesis unfolding q c(2) using c(1,3) by blast
qed

lemma flush_throwing_ok:
  assumes "st_ok s" "flush_throwing layer s d = (r, s1, d1)" "all_or_nothing layer"
  shows "st_ok s1 \<and> st_capacity s1 = st_capacity s \<and> sent d1 @ buffered s1 = sent d @ buffered s"
proof -
  obtain n ec d' where l: "layer (buffered s) d = (n, ec, d')" by (cases "layer (buffered s) d")
  show ?thesis
  proof (cases ec)
    case None
    then have "flush_to layer s d = (n, None, s1, d1)" using assms(2) l by (auto simp: flush_to_def flush_throwing_def buffered_def)
    then show ?thesis by (rule flush_ok [OF assms(1)])
  next
    case (Some e)
    have q: "s1 = s" "d1 = d'" using assms(2) l Some by (simp_all add: flush_throwing_def buffered_def)
    have "sent d' = sent d" using sends [OF l] assms(3) [unfolded all_or_nothing_def, rule_format, OF l [unfolded Some]] by simp
    then show ?thesis unfolding q using assms(1) by simp
  qed
qed

lemma copy_in_order: "st_ok s \<Longrightarrow> copy_in b s = (n, s1) \<Longrightarrow> st_ok s1 \<and> st_capacity s1 = st_capacity s \<and> buffered s1 = buffered s @ take n b"
  using copy_in_ok [of s b] by (metis fst_conv snd_conv)

lemma nothing_sent: "layer [] d = (n, ec, d1) \<Longrightarrow> sent d1 = sent d"
  using sends [of "[]" d n ec d1] by simp

lemma write_some_ok:
  assumes "st_ok s" "buffered_write_some layer b s d = (n, ec, s1, d1)"
  shows "st_ok s1 \<and> st_capacity s1 = st_capacity s \<and> sent d1 @ buffered s1 = sent d @ buffered s @ take n b"
proof (cases "b \<noteq> [] \<and> st_size s = st_capacity s")
  case False
  obtain m s2 where c: "copy_in b s = (m, s2)" by (cases "copy_in b s")
  have "n = 0 \<and> s1 = s \<and> d1 = d \<or> n = m \<and> s1 = s2 \<and> d1 = d" using assms(2) False c by (auto simp: buffered_write_some_def split: if_splits)
  then show ?thesis using assms(1) copy_in_order [OF assms(1) c] by auto
next
  case True
  obtain flushed e s2 d2 where f: "flush_to layer s d = (flushed, e, s2, d2)" by (cases "flush_to layer s d")
  obtain m s3 where c: "copy_in b s2 = (m, s3)" by (cases "copy_in b s2")
  have q: "d1 = d2 \<and> (n = 0 \<and> s1 = s2 \<or> n = m \<and> s1 = s3)" using assms(2) True f c by (auto simp: buffered_write_some_def split: if_splits)
  note o = flush_ok [OF assms(1) f]
  have a: "sent d @ buffered s @ x = sent d2 @ buffered s2 @ x" for x using o by (metis append_assoc)
  show ?thesis unfolding a using q o copy_in_order [OF _ c] by auto
qed

lemma async_write_ok:
  assumes "st_ok s" "async_buffered_write layer b s d = (n, ec, s1, d1)"
  shows "st_ok s1 \<and> st_capacity s1 = st_capacity s \<and> sent d1 @ buffered s1 = sent d @ buffered s @ take n b"
proof -
  have "\<exists>s2 d2. (st_ok s2 \<and> st_capacity s2 = st_capacity s \<and> sent d2 @ buffered s2 = sent d @ buffered s) \<and> d1 = d2 \<and>
      (n = 0 \<and> s1 = s2 \<or> copy_in b s2 = (n, s1))"
  proof (cases "b = [] \<or> st_size s < st_capacity s")
    case True
    obtain m e d2 where l: "layer [] d = (m, e, d2)" by (cases "layer [] d")
    have "d1 = d2 \<and> (n = 0 \<and> s1 = s \<or> copy_in b s = (n, s1))"
      using assms(2) True l by (auto simp: async_buffered_write_def split: if_splits prod.splits)
    then show ?thesis using assms(1) nothing_sent [OF l] by auto
  next
    case False
    obtain flushed e s2 d2 where f: "flush_to layer s d = (flushed, e, s2, d2)" by (cases "flush_to layer s d")
    have "d1 = d2 \<and> (n = 0 \<and> s1 = s2 \<or> copy_in b s2 = (n, s1))"
      using assms(2) False f by (auto simp: async_buffered_write_def split: if_splits prod.splits)
    then show ?thesis using flush_ok [OF assms(1) f] by blast
  qed
  then obtain s2 d2 where q: "st_ok s2" "st_capacity s2 = st_capacity s" "sent d2 @ buffered s2 = sent d @ buffered s" "d1 = d2"
    "n = 0 \<and> s1 = s2 \<or> copy_in b s2 = (n, s1)" by blast
  have a: "sent d @ buffered s @ x = sent d2 @ buffered s2 @ x" for x using q(3) by (metis append_assoc)
  show ?thesis unfolding a using q(1,2,4,5) copy_in_order [of s2 b n s1] by auto
qed

lemma write_throwing_ok:
  assumes "st_ok s" "buffered_write_throwing layer b s d = (r, s1, d1)" "all_or_nothing layer"
  shows "st_ok s1 \<and> st_capacity s1 = st_capacity s \<and> sent d1 @ buffered s1 = sent d @ buffered s @ (case r of Inl e \<Rightarrow> [] | Inr n \<Rightarrow> take n b)"
proof (cases "b \<noteq> [] \<and> st_size s = st_capacity s")
  case False
  obtain m s2 where c: "copy_in b s = (m, s2)" by (cases "copy_in b s")
  have "r = Inr 0 \<and> s1 = s \<and> d1 = d \<or> r = Inr m \<and> s1 = s2 \<and> d1 = d" using assms(2) False c by (auto simp: buffered_write_throwing_def split: if_splits)
  then show ?thesis using assms(1) copy_in_order [OF assms(1) c] by auto
next
  case True
  obtain r2 s2 d2 where f: "flush_throwing layer s d = (r2, s2, d2)" by (cases "flush_throwing layer s d")
  obtain m s3 where c: "copy_in b s2 = (m, s3)" by (cases "copy_in b s2")
  have q: "d1 = d2 \<and> ((\<exists>e. r = Inl e) \<and> s1 = s2 \<or> r = Inr m \<and> s1 = s3)"
    using assms(2) True f c by (cases r2) (auto simp: buffered_write_throwing_def split: if_splits)
  note o = flush_throwing_ok [OF assms(1) f assms(3)]
  have a: "sent d @ buffered s @ x = sent d2 @ buffered s2 @ x" for x using o by (metis append_assoc)
  show ?thesis unfolding a using q o copy_in_order [OF _ c] by auto
qed

lemma write_call_ok:
  assumes "st_ok s" "do_write_call layer c s d = (a, s1, d1)" "throws c \<longrightarrow> all_or_nothing layer"
  shows "st_ok s1 \<and> st_capacity s1 = st_capacity s \<and> sent d1 @ buffered s1 = sent d @ buffered s @ a"
proof (cases c)
  case (WriteSome b)
  then show ?thesis using assms(2) write_some_ok [OF assms(1), of b d] by (auto split: prod.splits)
next
  case (WriteThrowing b)
  obtain r s2 d2 where w: "buffered_write_throwing layer b s d = (r, s2, d2)" by (cases "buffered_write_throwing layer b s d")
  show ?thesis using assms(2,3) write_throwing_ok [OF assms(1) w] WriteThrowing w by (auto simp: throws_def)
next
  case (AsyncWrite b)
  then show ?thesis using assms(2) async_write_ok [OF assms(1), of b d] by (auto split: prod.splits)
next
  case FlushThrowing
  obtain r s2 d2 where w: "flush_throwing layer s d = (r, s2, d2)" by (cases "flush_throwing layer s d")
  show ?thesis using assms(2,3) flush_throwing_ok [OF assms(1) w] FlushThrowing w by (auto simp: throws_def)
qed (use assms(2) flush_ok [OF assms(1), of d] in \<open>auto split: prod.splits\<close>)

lemma write_calls_ok:
  assumes "st_ok s" "write_calls layer cs s d = (a, s1, d1)"
    "(\<exists>c \<in> set cs. throws c) \<longrightarrow> all_or_nothing layer"
  shows "st_ok s1 \<and> st_capacity s1 = st_capacity s \<and> sent d1 @ buffered s1 = sent d @ buffered s @ a"
  using assms
proof (induction cs arbitrary: s d a)
  case (Cons c cs)
  obtain a1 s2 d2 where c: "do_write_call layer c s d = (a1, s2, d2)" by (cases "do_write_call layer c s d")
  obtain a2 s3 d3 where r: "write_calls layer cs s2 d2 = (a2, s3, d3)" by (cases "write_calls layer cs s2 d2")
  have q: "a = a1 @ a2" "s1 = s3" "d1 = d3" using Cons.prems(2) c r by simp_all
  have "throws c \<longrightarrow> all_or_nothing layer" using Cons.prems(3) by auto
  note h = write_call_ok [OF Cons.prems(1) c this]
  have "(\<exists>c \<in> set cs. throws c) \<longrightarrow> all_or_nothing layer" using Cons.prems(3) by auto
  note t = Cons.IH [OF conjunct1 [OF h] r [folded q(2,3)] this]
  have "sent d1 @ buffered s1 = (sent d2 @ buffered s2) @ a2" unfolding append_assoc using t by blast
  also have "sent d2 @ buffered s2 = sent d @ buffered s @ a1" using h by blast
  finally show ?case unfolding q(1) append_assoc using h t by metis
qed simp

end

end
