(* ===== verification/AsioBufferedTransfer.thy ===== *)
theory AsioBufferedTransfer
  imports AsioBufferedStreams
begin

text \<open>
  The buffered streams over a connection. A buffered read stream delivers the bytes of the connection in order, and \<open>read\<close>
  gives the same through it as without it, with whatever segments and sizes. A buffered write stream
  sends what it has accepted, in order; a flush that throws after it has sent a part sends the part again.
\<close>

section \<open>A connection as a layer\<close>

definition net_layer :: "net_error \<Rightarrow> string list layer_read" where
  "net_layer e n cs = (if n = 0 then ([], None, cs) else case read_some n cs of None \<Rightarrow> ([], Some e, cs) | Some (d, cs1) \<Rightarrow> (d, None, cs1))"

lemma net_layer_end: "net_layer e n cs = (d, Some e1, cs1) \<Longrightarrow> e1 = e \<and> concat cs = [] \<and> cs1 = cs"
  by (auto simp: net_layer_def dest: read_some_None split: if_splits option.splits)

interpretation net_layer: read_layer "net_layer e" concat for e
proof
  fix n cs bytes ec cs1 assume l: "net_layer e n cs = (bytes, ec, cs1)"
  show "concat cs = bytes @ concat cs1" using l by (auto simp: net_layer_def dest: read_some_concat split: if_splits option.splits)
  show "length bytes \<le> n" using l read_some_bounds [of n cs bytes cs1] by (auto simp: net_layer_def split: if_splits option.splits)
next
  fix n cs bytes e1 cs1 assume "net_layer e n cs = (bytes, Some e1, cs1)"
  then show "bytes = []" by (auto simp: net_layer_def split: if_splits option.splits)
next
  fix n cs bytes cs1 assume "net_layer e n cs = (bytes, None, cs1)" "0 < n"
  then show "bytes \<noteq> []" using read_some_bounds [of n cs bytes cs1] by (auto simp: net_layer_def split: if_splits option.splits)
qed

text \<open>C25: A buffered read stream delivers the bytes of its next layer in order, none lost and none twice: after any sequence of reads,
  fills and peeks, synchronous or not, that throw or not, what was delivered, what the buffer has and what the layer still
  has are the layer's bytes; the buffer keeps within its capacity, and a peek shows what would be read next.\<close>
theorem buffered_reads_in_order:
  assumes "read_layer layer rest" "read_calls layer calls (new_storage cap) d = (out, s1, d1)"
  shows "out @ buffered s1 @ rest d1 = rest d \<and> in_avail s1 = length (buffered s1) \<and> in_avail s1 \<le> cap \<and>
    (\<forall>n. case buffered_peek layer n s1 d1 of (bytes, ec, s2, d2) \<Rightarrow> bytes = take n (buffered s2) \<and> buffered s2 @ rest d2 = buffered s1 @ rest d1)"
proof -
  note r = read_layer.read_calls_ok [OF assms(1) new_storage_ok(1) assms(2), unfolded new_storage_ok append_Nil]
  have a: "in_avail s1 = length (buffered s1)" using length_buffered(1) r by (simp add: in_avail_def)
  have c: "in_avail s1 \<le> cap" unfolding in_avail_def using length_buffered(3) r by metis
  have p: "case buffered_peek layer n s1 d1 of (bytes, ec, s2, d2) \<Rightarrow> bytes = take n (buffered s2) \<and> buffered s2 @ rest d2 = buffered s1 @ rest d1" for n
  proof -
    obtain bytes ec s2 d2 where q: "buffered_peek layer n s1 d1 = (bytes, ec, s2, d2)" by (cases "buffered_peek layer n s1 d1")
    have "st_ok s1" using r by blast
    from read_layer.peek_ok [OF assms(1) this q] show ?thesis unfolding q prod.case by metis
  qed
  have "out @ buffered s1 @ rest d1 = rest d" using r by metis
  then show ?thesis using a c p by blast
qed

theorem buffered_reads_in_order_witness:
  "\<exists>out s1 cs. read_calls (net_layer Eof) [ReadSome 2, Peek 5, AsyncRead 10, ReadThrowing 3, Fill] (new_storage 4) [''abc'', ''defghi''] = (out, s1, cs) \<and>
     out @ buffered s1 @ concat cs = ''abcdefghi'' \<and> in_avail s1 \<le> 4"
proof -
  obtain out s1 cs where r: "read_calls (net_layer Eof) [ReadSome 2, Peek 5, AsyncRead 10, ReadThrowing 3, Fill] (new_storage 4) [''abc'', ''defghi''] = (out, s1, cs)"
    by (rule prod_cases3)
  from buffered_reads_in_order [OF net_layer.read_layer_axioms r] show ?thesis using r by simp
qed

section \<open>Reading through the buffer\<close>

lemma concat_eq_by_length: "concat xs = concat ys \<Longrightarrow> List.map length xs = List.map length ys \<Longrightarrow> xs = ys"
proof (induction xs arbitrary: ys)
  case (Cons x xs)
  then obtain y zs where "ys = y # zs" by (cases ys) auto
  then show ?case using Cons by auto
qed simp

text \<open>A device that keeps its contract in the states that it reaches; the loop is the loop of the device that fails in the others.\<close>

definition failing_outside :: "('s \<Rightarrow> bool) \<Rightarrow> 's transfer \<Rightarrow> 's transfer" where
  "failing_outside good xfer sl t s = (if good s then xfer sl t s else (0, Some Eof, s))"

locale transfer_states =
  fixes good :: "'s \<Rightarrow> bool" and xfer :: "'s transfer"
  assumes keeps: "good s \<Longrightarrow> xfer sl t s = (n, ec, s') \<Longrightarrow> good s'"
    and within_room: "good s \<Longrightarrow> xfer sl t s = (n, ec, s') \<Longrightarrow> n \<le> slices_size sl"
    and moves: "good s \<Longrightarrow> xfer sl t s = (n, None, s') \<Longrightarrow> 0 < slices_size sl \<Longrightarrow> 0 < n"

sublocale transfer_states \<subseteq> transfer_device "failing_outside good xfer"
  by unfold_locales (auto simp: failing_outside_def dest: within_room moves split: if_splits)

context transfer_states
begin

lemma failing_outside_loop:
  assumes "transfer_loop x cond k ec cb s = Some r"
  shows "x = failing_outside good xfer \<longrightarrow> good s \<longrightarrow> transfer_loop xfer cond k ec cb s = Some r"
  using assms
proof (rule transfer_loop.raw_induct [rotated 1], goal_cases)
  case (1 loop x cond k ec cb s r)
  show ?case
  proof (intro impI)
    assume x: "x = failing_outside good xfer" and g: "good s"
    show "transfer_loop xfer cond k ec cb s = Some r"
    proof (cases "cb_empty cb \<or> cond ec (cb_total_consumed cb) = 0")
      case True
      then show ?thesis using 1(2) by (subst transfer_loop.simps) (auto simp: Let_def split: if_splits)
    next
      case False
      obtain n ec' s' where c: "xfer (cb_prepare k (cond ec (cb_total_consumed cb)) cb) (cb_total_consumed cb) s = (n, ec', s')"
        by (rule prod_cases3)
      then have "loop x cond k ec' (cb_consume n cb) s' = Some r" using 1(2) False g by (simp add: x failing_outside_def Let_def)
      from 1(1) [OF this] have "transfer_loop xfer cond k ec' (cb_consume n cb) s' = Some r" using x keeps [OF g c] by blast
      then show ?thesis using False c by (subst transfer_loop.simps) (simp add: Let_def)
    qed
  qed
qed

text \<open>The rule of the loop for the states that are reached.\<close>

lemma loop_reached:
  assumes "completion_stops cond" "cb_ok bs cb" "0 < k" "good s" "I (cb_total_consumed cb) ec s"
    and step: "\<And>cb ec s n ec' s'. cb_ok bs cb \<Longrightarrow> \<not> cb_empty cb \<Longrightarrow> good s \<Longrightarrow> I (cb_total_consumed cb) ec s \<Longrightarrow>
      0 < cond ec (cb_total_consumed cb) \<Longrightarrow> xfer (cb_prepare k (cond ec (cb_total_consumed cb)) cb) (cb_total_consumed cb) s = (n, ec', s') \<Longrightarrow>
      I (cb_total_consumed cb + n) ec' s'"
  shows "\<exists>n ec' s'. transfer_loop xfer cond k ec cb s = Some (n, ec', s') \<and> good s' \<and> I n ec' s' \<and> n \<le> sum_list bs \<and>
    (n = sum_list bs \<or> cond ec' n = 0)"
proof -
  have "transfer cond (failing_outside good xfer)" by (rule transfer.intro [OF assms(1) transfer_device_axioms])
  then have "\<exists>n ec' s'. transfer_loop (failing_outside good xfer) cond k ec cb s = Some (n, ec', s') \<and> (good s' \<and> I n ec' s') \<and> n \<le> sum_list bs \<and>
    (n = sum_list bs \<or> cond ec' n = 0)"
  proof (rule transfer.loop_rule [OF _ assms(2,3)])
    show "good s \<and> I (cb_total_consumed cb) ec s" using assms(4,5) by blast
  next
    fix cb ec s n ec' s'
    assume "cb_ok bs cb" "\<not> cb_empty cb" and g: "good s \<and> I (cb_total_consumed cb) ec s" and "0 < cond ec (cb_total_consumed cb)"
      and "failing_outside good xfer (cb_prepare k (cond ec (cb_total_consumed cb)) cb) (cb_total_consumed cb) s = (n, ec', s')"
    moreover from this have "xfer (cb_prepare k (cond ec (cb_total_consumed cb)) cb) (cb_total_consumed cb) s = (n, ec', s')"
      by (simp add: failing_outside_def)
    ultimately show "good s' \<and> I (cb_total_consumed cb + n) ec' s'" using step keeps by blast
  qed
  then show ?thesis using failing_outside_loop assms(4) by blast
qed

end

text \<open>The buffered stream as the stream of \<open>read\<close>: the state has the memory of the buffers, the storage and the connection.\<close>

definition buffered_device :: "net_error \<Rightarrow> slice list \<Rightarrow> string list \<times> storage \<times> string list
    \<Rightarrow> nat \<times> net_error option \<times> string list \<times> storage \<times> string list" where
  "buffered_device e sl st = (case st of (mem, s, cs) \<Rightarrow>
     (case buffered_read_some (net_layer e) (slices_size sl) s cs of (bytes, ec, s1, cs1) \<Rightarrow> (length bytes, ec, scatter mem sl bytes, s1, cs1)))"

definition has_buffer :: "string list \<times> storage \<times> string list \<Rightarrow> bool" where
  "has_buffer st = (case st of (mem, s, cs) \<Rightarrow> st_ok s \<and> 0 < st_capacity s)"

lemma buffered_device_step:
  assumes "has_buffer (mem, s, cs)" "buffered_device e sl (mem, s, cs) = (n, ec, st')"
  shows "\<exists>bytes s1 cs1. n = length bytes \<and> st' = (scatter mem sl bytes, s1, cs1) \<and> has_buffer st' \<and> n \<le> slices_size sl \<and>
    buffered s @ concat cs = bytes @ buffered s1 @ concat cs1 \<and> (ec = None \<longrightarrow> 0 < slices_size sl \<longrightarrow> 0 < n) \<and>
    (ec = None \<or> ec = Some e \<and> buffered s @ concat cs = [])"
proof -
  obtain bytes ec1 s1 cs1 where r: "buffered_read_some (net_layer e) (slices_size sl) s cs = (bytes, ec1, s1, cs1)"
    by (cases "buffered_read_some (net_layer e) (slices_size sl) s cs")
  have q: "n = length bytes" "ec = ec1" "st' = (scatter mem sl bytes, s1, cs1)" using assms(2) by (auto simp: buffered_device_def r)
  have ok: "st_ok s" "0 < st_capacity s" using assms(1) by (simp_all add: has_buffer_def)
  note o = net_layer.read_some_ok [OF ok(1) r]
  have err: "ec = None \<or> ec = Some e \<and> buffered s @ concat cs = []"
  proof (cases ec)
    case (Some e1)
    have "buffered_read_some (net_layer e) (slices_size sl) s cs = (bytes, Some e1, s1, cs1)" using r q(2) Some by simp
    from read_some_error [OF this] obtain m bs d1 where l: "st_empty s" "net_layer e m cs = (bs, Some e1, d1)" by blast
    then show ?thesis using net_layer_end [OF l(2)] length_buffered(2) [OF ok(1)] Some by simp
  qed simp
  have g: "has_buffer st'" unfolding q(3) has_buffer_def prod.case using o ok(2) by metis
  have l: "length bytes \<le> slices_size sl" by (rule net_layer.read_some_bounded [OF ok(1) r])
  have m: "ec = None \<longrightarrow> 0 < slices_size sl \<longrightarrow> bytes \<noteq> []" using net_layer.read_some_gives [OF ok] r q(2) by metis
  have c: "buffered s @ concat cs = bytes @ buffered s1 @ concat cs1" using o by blast
  show ?thesis unfolding q(1) length_greater_0_conv
    by (intro exI [of _ bytes] exI [of _ s1] exI [of _ cs1] conjI refl q(3) g l c m err)
qed

interpretation buffered_net: transfer_states has_buffer "\<lambda>sl t. buffered_device e sl" for e
proof
  fix st st' :: "string list \<times> storage \<times> string list" and sl :: "slice list" and n ec
  obtain mem s cs where s: "st = (mem, s, cs)" by (rule prod_cases3)
  assume "has_buffer st" "buffered_device e sl st = (n, ec, st')"
  from buffered_device_step [OF this [unfolded s]] show "has_buffer st'" "n \<le> slices_size sl" by auto
next
  fix st st' :: "string list \<times> storage \<times> string list" and sl :: "slice list" and n
  obtain mem s cs where s: "st = (mem, s, cs)" by (rule prod_cases3)
  assume "has_buffer st" "buffered_device e sl st = (n, None, st')" "0 < slices_size sl"
  with buffered_device_step [OF this(1,2) [unfolded s]] show "0 < n" by auto
qed

lemma buffered_read_fills:
  assumes "0 < k" "st_ok s" "0 < st_capacity s"
  shows "\<exists>n ec mem' s' cs'. read_buffer_seq k transfer_all (buffered_device e) (List.map length mem) (mem, s, cs) = Some (n, ec, mem', s', cs') \<and>
    st_ok s' \<and> read_inv mem (buffered s # cs) e n ec (mem', buffered s' # cs') \<and> n \<le> length (concat mem) \<and> (n = length (concat mem) \<or> transfer_all ec n = 0)"
proof -
  let ?bs = "List.map length mem"
  let ?I = "\<lambda>n ec (mem', s', cs'). read_inv mem (buffered s # cs) e n ec (mem', buffered s' # cs')"
  have T: "sum_list ?bs = length (concat mem)" by (simp add: length_concat)
  have "\<exists>n ec st. transfer_loop (\<lambda>sl t. buffered_device e sl) transfer_all k None (new_consuming ?bs) (mem, s, cs) = Some (n, ec, st) \<and>
      has_buffer st \<and> ?I n ec st \<and> n \<le> sum_list ?bs \<and> (n = sum_list ?bs \<or> transfer_all ec n = 0)"
  proof (rule buffered_net.loop_reached [OF all.completion_stops_axioms cb_ok_new assms(1)])
    show "has_buffer (mem, s, cs)" using assms(2,3) by (simp add: has_buffer_def)
    show "?I (cb_total_consumed (new_consuming ?bs)) None (mem, s, cs)" by (simp add: read_inv_def new_consuming_def)
  next
    fix cb ec st n ec' st'
    let ?sl = "cb_prepare k (transfer_all ec (cb_total_consumed cb)) cb"
    assume ok: "cb_ok ?bs cb" and ne: "\<not> cb_empty cb" and g: "has_buffer st" and I: "?I (cb_total_consumed cb) ec st"
      and x: "buffered_device e ?sl st = (n, ec', st')"
    obtain mem1 s1 cs1 where s: "st = (mem1, s1, cs1)" by (rule prod_cases3)
    from buffered_device_step [OF g [unfolded s] x [unfolded s]] obtain bytes s2 cs2 where q: "n = length bytes" "st' = (scatter mem1 ?sl bytes, s2, cs2)"
      "n \<le> slices_size ?sl" "buffered s1 @ concat cs1 = bytes @ buffered s2 @ concat cs2" "ec' = None \<or> ec' = Some e \<and> buffered s1 @ concat cs1 = []"
      by blast
    have c: "concat (buffered s1 # cs1) = bytes @ concat (buffered s2 # cs2)" using q(4) by simp
    have err: "ec' = None \<or> ec' = Some e \<and> concat (buffered s1 # cs1) = []" using q(5) by (simp only: concat.simps)
    have "read_inv mem (buffered s # cs) e (cb_total_consumed cb) ec (mem1, buffered s1 # cs1)" using I by (simp add: s)
    from read_inv_bytes [OF this ok ne q(3) [unfolded q(1)] c err] show "?I (cb_total_consumed cb + n) ec' st'" unfolding q(1,2) prod.case .
  qed
  then show ?thesis unfolding T by (auto simp: read_buffer_seq_def has_buffer_def)
qed

text \<open>C15: Reading through a buffered read stream gives what reading the connection itself gives: the same number of bytes, the same error
  and the same contents of the buffers, for every capacity that is not zero and every segmentation; what the plain
  read leaves in the connection is then in the storage and the connection.\<close>
theorem buffered_read_is_read:
  assumes "0 < k" "st_ok s" "0 < st_capacity s"
  shows "\<exists>n ec mem' s' cs' cs2. read_buffer_seq k transfer_all (buffered_device e) (List.map length mem) (mem, s, cs) = Some (n, ec, mem', s', cs') \<and>
    read_buffer_seq k transfer_all (net_read_some e) (List.map length mem) (mem, buffered s # cs) = Some (n, ec, mem', cs2) \<and>
    st_ok s' \<and> buffered s' @ concat cs' = concat cs2"
proof -
  obtain n ec mem1 s1 cs1 where b: "read_buffer_seq k transfer_all (buffered_device e) (List.map length mem) (mem, s, cs) = Some (n, ec, mem1, s1, cs1)"
    "st_ok s1" "read_inv mem (buffered s # cs) e n ec (mem1, buffered s1 # cs1)" "n \<le> length (concat mem)" "n = length (concat mem) \<or> transfer_all ec n = 0"
    using buffered_read_fills [OF assms] by blast
  note i = read_inv_end [OF b(3-5)]
  obtain n2 ec2 mem2 cs2 where p: "read_buffer_seq k transfer_all (net_read_some e) (List.map length mem) (mem, buffered s # cs) = Some (n2, ec2, mem2, cs2)"
    "n2 = min (length (concat mem)) (length (concat (buffered s # cs)))" "List.map length mem2 = List.map length mem"
    "concat mem2 = take n2 (concat (buffered s # cs)) @ drop n2 (concat mem)" "concat cs2 = drop n2 (concat (buffered s # cs))"
    "read_exact (length (concat mem)) (buffered s # cs) e = (case ec2 of None \<Rightarrow> Inr (concat mem2) | Some err \<Rightarrow> Inl err)"
    using net_read_fills [OF assms(1)] by blast
  have "n2 = n" using p(2) i by simp
  moreover have "ec2 = ec" using p(6) i by (auto simp: read_exact_def split: option.splits if_splits simp del: length_concat)
  moreover have "mem2 = mem1"
  proof (rule concat_eq_by_length)
    show "concat mem2 = concat mem1" "List.map length mem2 = List.map length mem1" using p(3,4) i \<open>n2 = n\<close> by metis+
  qed
  moreover have "buffered s1 @ concat cs1 = concat cs2" using i p(5) \<open>n2 = n\<close> by (metis concat.simps(2))
  ultimately show ?thesis using b(1,2) p(1) by blast
qed

theorem buffered_read_is_read_witness:
  "\<exists>n ec mem' s' cs' cs2. read_buffer_seq 16 transfer_all (buffered_device Eof) (List.map length [''...'', ''..'']) ([''...'', ''..''], new_storage 4, [''abc'', ''defghi'']) =
      Some (n, ec, mem', s', cs') \<and>
    read_buffer_seq 16 transfer_all (net_read_some Eof) (List.map length [''...'', ''..'']) ([''...'', ''..''], [[], ''abc'', ''defghi'']) = Some (n, ec, mem', cs2) \<and>
    st_ok s' \<and> buffered s' @ concat cs' = concat cs2"
  using buffered_read_is_read [of 16 "new_storage 4" Eof "[''...'', ''..'']" "[''abc'', ''defghi'']"] by (simp only: new_storage_ok)

text \<open>A buffer of no bytes reads none without an error, and \<open>read\<close> does not end.\<close>

lemma zero_capacity_device:
  assumes "0 < slices_size sl"
  shows "buffered_device e sl (mem, new_storage 0, cs) = (0, None, mem, new_storage 0, cs)"
  using assms by (simp add: buffered_device_def buffered_read_some_def fill_from_def net_layer_def new_storage_def st_empty_def st_size_def
      st_resize_def st_capacity_def st_write_def st_data_def Let_def)

lemma zero_capacity_loop:
  assumes "transfer_loop x cond k ec cb st = Some r"
  shows "x = (\<lambda>sl t. buffered_device e sl) \<longrightarrow> cond = transfer_all \<longrightarrow> 0 < k \<longrightarrow> ec = None \<longrightarrow> st = (mem, new_storage 0, cs) \<longrightarrow> cb_ok bs cb \<longrightarrow> cb_empty cb"
  using assms
proof (rule transfer_loop.raw_induct [rotated 1], goal_cases)
  case (1 loop x cond k ec cb st r)
  show ?case
  proof (intro impI, rule ccontr)
    assume x: "x = (\<lambda>sl t. buffered_device e sl)" and c: "cond = transfer_all" and k: "0 < k" and e: "ec = None"
      and s: "st = (mem, new_storage 0, cs)" and ok: "cb_ok bs cb" and ne: "\<not> cb_empty cb"
    have "0 < slices_size (cb_prepare k default_max_transfer_size cb)"
      using cb_prepare_progress [OF ok ne k] by (simp add: default_max_transfer_size_def)
    then have "buffered_device e (cb_prepare k default_max_transfer_size cb) st = (0, None, st)" unfolding s by (rule zero_capacity_device)
    then have "loop x cond k None (cb_consume 0 cb) st = Some r"
      using 1(2) ne by (simp add: x c e transfer_all_def default_max_transfer_size_def Let_def)
    have "cb_total_consumed cb + 0 \<le> sum_list bs" using ok by (simp add: cb_ok_def)
    note z = cb_ok_consume [OF ok this]
    then have "cb_empty (cb_consume 0 cb)" using 1(1) [OF \<open>loop x cond k None (cb_consume 0 cb) st = Some r\<close>] x c k s by blast
    then show False using ne ok z by (simp add: cb_empty_def cb_ok_def)
  qed
qed

lemma zero_capacity_never_ends:
  assumes "0 < k" "0 < sum_list bs"
  shows "read_buffer_seq k transfer_all (buffered_device e) bs (mem, new_storage 0, cs) = None"
proof (rule ccontr)
  assume "read_buffer_seq k transfer_all (buffered_device e) bs (mem, new_storage 0, cs) \<noteq> None"
  then obtain r where "transfer_loop (\<lambda>sl t. buffered_device e sl) transfer_all k None (new_consuming bs) (mem, new_storage 0, cs) = Some r"
    by (auto simp: read_buffer_seq_def)
  from zero_capacity_loop [OF this] have "cb_empty (new_consuming bs)" using assms(1) cb_ok_new by blast
  then show False using assms(2) by (simp add: cb_empty_def new_consuming_def del: sum_list_eq_0_iff)
qed

section \<open>Writing through the buffer\<close>

text \<open>A buffered write stream sends what it has accepted, in order, nothing lost and nothing twice: after any sequence of writes and
  flushes, synchronous or not, what was sent and what the buffer has is what was sent before and what the calls have
  accepted, however much of a flush the next layer takes before it fails. The calls that throw need a layer that
  has sent nothing when it fails.\<close>
theorem buffered_writes_in_order:
  assumes "write_layer layer sent" "write_calls layer calls (new_storage cap) d = (accepted, s1, d1)"
    "(\<exists>c \<in> set calls. throws c) \<longrightarrow> all_or_nothing layer"
  shows "sent d1 @ buffered s1 = sent d @ accepted \<and> length (buffered s1) \<le> cap"
proof -
  note r = write_layer.write_calls_ok [OF assms(1) new_storage_ok(1) assms(2,3), unfolded new_storage_ok append_Nil]
  then have "length (buffered s1) \<le> cap" using length_buffered(1,3) by metis
  then show ?thesis using r by blast
qed

text \<open>The connection: \<open>write\<close> from its next call on, whose answers are \<open>ans\<close>.\<close>

definition net_write_layer :: "nat \<Rightarrow> (nat \<Rightarrow> nat \<times> net_error option) \<Rightarrow> (nat \<times> string) layer_write" where
  "net_write_layer k ans bytes d = (case d of (i, out) \<Rightarrow>
     (case asio_write k transfer_all (net_write_some [bytes] (\<lambda>j. ans (i + j))) [length bytes] (0, []) of
        Some (n, ec, j, b) \<Rightarrow> (n, ec, i + j, out @ b)
      | None \<Rightarrow> (0, None, i, out)))"

lemma net_write_layer_ok:
  assumes "takes_some ans" "0 < k"
  shows "write_layer (net_write_layer k ans) snd"
proof
  fix bytes d n ec d1
  assume l: "net_write_layer k ans bytes d = (n, ec, d1)"
  obtain i out where d: "d = (i, out)" by (cases d)
  have "takes_some (\<lambda>j. ans (i + j))" using assms(1) by (simp add: takes_some_def)
  from asio_write_prefix [OF all.completion_stops_axioms this assms(2), of "[bytes]"]
  obtain m e j where "asio_write k transfer_all (net_write_some [bytes] (\<lambda>j. ans (i + j))) [length bytes] (0, []) = Some (m, e, j, take m bytes)"
    "m \<le> length bytes" by auto
  then show "snd d1 = snd d @ take n bytes" "n \<le> length bytes" using l by (auto simp: net_write_layer_def d)
qed

interpretation net_write_layer: write_layer "net_write_layer (Suc k) (\<lambda>i. (Suc (sizes i), errors i))" snd for k sizes errors
  by (rule net_write_layer_ok) (simp_all add: takes_some_def)

theorem buffered_writes_in_order_witness:
  "\<exists>accepted s1 d1. write_calls (net_write_layer (Suc 15) (\<lambda>i. (Suc 1, if i = 1 then Some (NetError 11) else None)))
       [WriteSome ''abc'', AsyncWrite ''de'', WriteSome ''fgh'', Flush] (new_storage 4) (0, []) = (accepted, s1, d1) \<and>
     snd d1 @ buffered s1 = accepted \<and> length (buffered s1) \<le> 4"
proof -
  obtain accepted s1 d1 where r: "write_calls (net_write_layer (Suc 15) (\<lambda>i. (Suc 1, if i = 1 then Some (NetError 11) else None)))
       [WriteSome ''abc'', AsyncWrite ''de'', WriteSome ''fgh'', Flush] (new_storage 4) (0, []) = (accepted, s1, d1)" by (rule prod_cases3)
  from buffered_writes_in_order [OF net_write_layer.write_layer_axioms r] show ?thesis using r by (simp add: throws_def)
qed

text \<open>The connection takes two bytes and is then out of room, which \<open>write\<close> reports as an error.\<close>

definition blocks_once :: "nat \<Rightarrow> nat \<times> net_error option" where
  "blocks_once i = (Suc (Suc (if i = 0 then 0 else 98)), if i = 0 then Some (NetError 11) else None)"

lemmas write_eval = buffered_write_some_def copy_in_def flush_throwing_def flush_to_def net_write_layer_def new_storage_def
  st_size_def st_capacity_def st_data_def st_resize_def st_write_def st_consume_def st_clear_def st_empty_def Let_def

lemmas net_write_eval = asio_write_def transfer_loop.simps new_consuming_def cb_empty_def cb_prepare_def cb_consume_def net_write_some_def
  slices_size_def gather_def transfer_all_def default_max_transfer_size_def blocks_once_def Let_def

lemma flushed_part: "asio_write 16 transfer_all (net_write_some [''abc''] blocks_once) [Suc (Suc (Suc 0))] (0, []) = Some (2, Some (NetError 11), 1, ''ab'')"
  by (simp add: net_write_eval)

lemma flushed_again: "asio_write 16 transfer_all (net_write_some [''abc''] (\<lambda>j. blocks_once (Suc j))) [Suc (Suc (Suc 0))] (0, []) = Some (3, None, 1, ''abc'')"
  by (simp add: net_write_eval)

lemma flushed_rest: "asio_write 16 transfer_all (net_write_some [''c''] (\<lambda>j. blocks_once (Suc j))) [Suc 0] (0, []) = Some (1, None, 1, ''c'')"
  by (simp add: net_write_eval)

text \<open>The overload of \<open>flush\<close> that throws sends bytes twice: when the next layer has taken two bytes and then fails, as a socket that
  does not block does when it is full, the storage keeps all of its bytes, and the flush that is tried again sends all of them; the
  overload with an error code sends each once.\<close>
theorem flush_throwing_sends_twice:
  "\<exists>s1 s2 i j. write_calls (net_write_layer 16 blocks_once) [WriteSome ''abc'', FlushThrowing, FlushThrowing] (new_storage 4) (0, []) =
      (''abc'', s1, i, ''ababc'') \<and>
    write_calls (net_write_layer 16 blocks_once) [WriteSome ''abc'', Flush, Flush] (new_storage 4) (0, []) = (''abc'', s2, j, ''abc'')"
  by (simp add: write_eval flushed_part flushed_again flushed_rest)

text \<open>A write that flushes a part reports the error, and the bytes it has accepted after that.\<close>

lemma write_some_accepts_with_error:
  "\<exists>s1 d1. buffered_write_some (net_write_layer 16 blocks_once) ''de'' (snd (copy_in ''abc'' (new_storage 3))) (0, []) = (2, Some (NetError 11), s1, d1)"
  by (simp add: write_eval flushed_part)

end
