(* ===== verification/AsioSignals.thy ===== *)
theory AsioSignals
  imports Prelude
begin

text \<open>
  The signal sets (\<open>detail/impl/signal_set_service.ipp\<close>): the registrations of every set for signals, in the set, in the table of its
  service and in the process-wide counts, the handler that is installed with the system while a count is not zero, the
  pipe through which the handler reports a signal to the reactors of the services, and the waits. The
  intrusive lists are lists: a registration of a set is named by the set and the signal.
\<close>

section \<open>The state\<close>

definition max_signal_number :: int where "max_signal_number = 65"
definition dont_care :: int where "dont_care = -1"
definition no_flags :: int where "no_flags = 0"
definition signal_aborted :: int where "signal_aborted = 125"
definition invalid_argument :: int where "invalid_argument = 22"

record signal_op =
  sop_name :: nat
  sop_key :: nat
  sop_ec :: int
  sop_signal :: int

record registration =
  signal_number :: int
  undelivered :: nat

record signal_set =
  set_queue :: "signal_op list"
  set_signals :: "registration list"

text \<open>The process: \<open>created\<close> names the services that were ever constructed, \<open>owner\<close> is the service of a set that is constructed, \<open>reading\<close> the services whose reactor reads the pipe, \<open>handlers\<close> what the system
  does on a signal, \<open>None\<close> for the default, or the flags of the installed handler.\<close>

record signal_world =
  created :: "nat list"
  service_list :: "nat list"
  tables :: "nat \<Rightarrow> int \<Rightarrow> nat list"
  reading :: "nat list"
  fork_prepared :: bool
  registration_count :: "int \<Rightarrow> nat"
  signal_flags :: "int \<Rightarrow> int"
  handlers :: "int \<Rightarrow> int option"
  signal_pipe :: "int list"
  owner :: "nat \<Rightarrow> nat option"
  sets :: "nat \<Rightarrow> signal_set"
  swork :: int
  sposted :: "signal_op list"
  scompleted :: "signal_op list"
  sabandoned :: "signal_op list"
  sstarted :: "nat list"

definition new_world :: signal_world where
  "new_world = \<lparr>created = [], service_list = [], tables = (\<lambda>s n. []), reading = [], fork_prepared = False, registration_count = (\<lambda>n. 0),
     signal_flags = (\<lambda>n. no_flags), handlers = (\<lambda>n. None), signal_pipe = [], owner = (\<lambda>i. None),
     sets = (\<lambda>i. \<lparr>set_queue = [], set_signals = []\<rparr>), swork = 0, sposted = [], scompleted = [], sabandoned = [], sstarted = []\<rparr>"

definition update_set :: "nat \<Rightarrow> (signal_set \<Rightarrow> signal_set) \<Rightarrow> signal_world \<Rightarrow> signal_world" where
  "update_set i f w = w\<lparr>sets := (sets w)(i := f (sets w i))\<rparr>"

section \<open>Adding and removing signals\<close>

text \<open>The result of \<open>sigaction\<close> for a signal is a parameter: an error, or none.\<close>

type_synonym sigaction = "int \<Rightarrow> int option"

definition install :: "sigaction \<Rightarrow> int \<Rightarrow> int \<Rightarrow> signal_world \<Rightarrow> int + signal_world" where
  "install sa n f w =
     (if registration_count w n = 0 then
        (case sa n of Some e \<Rightarrow> Inl e
         | None \<Rightarrow> Inr (w\<lparr>handlers := (handlers w)(n := Some (if f \<noteq> dont_care then f else 0)), signal_flags := (signal_flags w)(n := f)\<rparr>))
      else if f \<noteq> dont_care then
        if f \<noteq> signal_flags w n then
          if signal_flags w n \<noteq> dont_care then Inl invalid_argument
          else (case sa n of Some e \<Rightarrow> Inl e
                | None \<Rightarrow> Inr (w\<lparr>handlers := (handlers w)(n := Some f), signal_flags := (signal_flags w)(n := f)\<rparr>))
        else Inr w
      else Inr w)"

definition record_registration :: "nat \<Rightarrow> nat \<Rightarrow> int \<Rightarrow> signal_world \<Rightarrow> signal_world" where
  "record_registration s i n w = (let regs = set_signals (sets w i) in
     w\<lparr>sets := (sets w)(i := (sets w i)\<lparr>set_signals := takeWhile (\<lambda>r. signal_number r < n) regs @
          \<lparr>signal_number = n, undelivered = 0\<rparr> # dropWhile (\<lambda>r. signal_number r < n) regs\<rparr>),
       tables := (tables w)(s := (tables w s)(n := i # tables w s n)),
       registration_count := (registration_count w)(n := registration_count w n + 1)\<rparr>)"

definition found :: "int \<Rightarrow> registration list \<Rightarrow> bool" where
  "found n regs = (case dropWhile (\<lambda>r. signal_number r < n) regs of [] \<Rightarrow> False | r # rs \<Rightarrow> signal_number r = n)"

definition add_signal :: "sigaction \<Rightarrow> nat \<Rightarrow> nat \<Rightarrow> int \<Rightarrow> int \<Rightarrow> signal_world \<Rightarrow> int option \<times> signal_world" where
  "add_signal sa s i n f w =
     (if n < 0 \<or> max_signal_number \<le> n then (Some invalid_argument, w)
      else if found n (set_signals (sets w i)) then (None, w)
      else (case install sa n f w of Inl e \<Rightarrow> (Some e, w) | Inr w1 \<Rightarrow> (None, record_registration s i n w1)))"

text \<open>The last registration for a signal restores the default.\<close>

definition restore_default :: "sigaction \<Rightarrow> int \<Rightarrow> signal_world \<Rightarrow> int + signal_world" where
  "restore_default sa n w =
     (if registration_count w n = 1 then
        (case sa n of Some e \<Rightarrow> Inl e
         | None \<Rightarrow> Inr (w\<lparr>handlers := (handlers w)(n := None), signal_flags := (signal_flags w)(n := no_flags)\<rparr>))
      else Inr w)"

definition leave_table :: "nat \<Rightarrow> nat \<Rightarrow> int \<Rightarrow> signal_world \<Rightarrow> signal_world" where
  "leave_table s i n w = w\<lparr>tables := (tables w)(s := (tables w s)(n := remove1 i (tables w s n))),
     registration_count := (registration_count w)(n := registration_count w n - 1)\<rparr>"

definition remove_signal :: "sigaction \<Rightarrow> nat \<Rightarrow> nat \<Rightarrow> int \<Rightarrow> signal_world \<Rightarrow> int option \<times> signal_world" where
  "remove_signal sa s i n w =
     (if n < 0 \<or> max_signal_number \<le> n then (Some invalid_argument, w)
      else (let regs = set_signals (sets w i) in
        if found n regs then
          (case restore_default sa n w of Inl e \<Rightarrow> (Some e, w)
           | Inr w1 \<Rightarrow> (None, leave_table s i n (update_set i (\<lambda>t. t\<lparr>set_signals := takeWhile (\<lambda>r. signal_number r < n) regs @
                tl (dropWhile (\<lambda>r. signal_number r < n) regs)\<rparr>) w1)))
        else (None, w)))"

fun clear_loop :: "sigaction \<Rightarrow> nat \<Rightarrow> nat \<Rightarrow> registration list \<Rightarrow> signal_world \<Rightarrow> int option \<times> signal_world" where
  "clear_loop sa s i [] w = (None, w)"
| "clear_loop sa s i (r # rs) w = (case restore_default sa (signal_number r) w of
     Inl e \<Rightarrow> (Some e, w)
   | Inr w1 \<Rightarrow> clear_loop sa s i rs (update_set i (\<lambda>t. t\<lparr>set_signals := rs\<rparr>) (leave_table s i (signal_number r) w1)))"

definition clear_signals :: "sigaction \<Rightarrow> nat \<Rightarrow> nat \<Rightarrow> signal_world \<Rightarrow> int option \<times> signal_world" where
  "clear_signals sa s i w = clear_loop sa s i (set_signals (sets w i)) w"

section \<open>Waiting\<close>

fun take_undelivered :: "registration list \<Rightarrow> (int \<times> registration list) option" where
  "take_undelivered [] = None"
| "take_undelivered (r # rs) = (if undelivered r > 0 then Some (signal_number r, r\<lparr>undelivered := undelivered r - 1\<rparr> # rs)
     else (case take_undelivered rs of None \<Rightarrow> None | Some (n, rs1) \<Rightarrow> Some (n, r # rs1)))"

definition start_wait_op :: "nat \<Rightarrow> signal_op \<Rightarrow> signal_world \<Rightarrow> signal_world" where
  "start_wait_op i op w0 = (let w = w0\<lparr>swork := swork w0 + 1, sstarted := sstarted w0 @ [sop_name op]\<rparr> in
     case take_undelivered (set_signals (sets w i)) of
       Some (n, regs) \<Rightarrow> (update_set i (\<lambda>t. t\<lparr>set_signals := regs\<rparr>) w)\<lparr>sposted := sposted w @ [op\<lparr>sop_signal := n\<rparr>]\<rparr>
     | None \<Rightarrow> update_set i (\<lambda>t. t\<lparr>set_queue := set_queue t @ [op]\<rparr>) w)"

fun abort_waits :: "signal_op list \<Rightarrow> signal_op list \<Rightarrow> signal_op list" where
  "abort_waits ops [] = ops"
| "abort_waits ops (op # q) = abort_waits (ops @ [op\<lparr>sop_ec := signal_aborted\<rparr>]) q"

definition cancel_waits :: "nat \<Rightarrow> signal_world \<Rightarrow> signal_world" where
  "cancel_waits i w = (update_set i (\<lambda>t. t\<lparr>set_queue := []\<rparr>) w)\<lparr>sposted := sposted w @ abort_waits [] (set_queue (sets w i))\<rparr>"

fun cancel_wait_loop :: "nat \<Rightarrow> signal_op list \<Rightarrow> signal_op list \<Rightarrow> signal_op list \<Rightarrow> signal_op list \<times> signal_op list" where
  "cancel_wait_loop key ops other [] = (ops, other)"
| "cancel_wait_loop key ops other (op # q) = (if sop_key op = key then cancel_wait_loop key (ops @ [op\<lparr>sop_ec := signal_aborted\<rparr>]) other q
     else cancel_wait_loop key ops (other @ [op]) q)"

definition cancel_waits_by_key :: "nat \<Rightarrow> nat \<Rightarrow> signal_world \<Rightarrow> signal_world" where
  "cancel_waits_by_key i key w = (case cancel_wait_loop key [] [] (set_queue (sets w i)) of
     (ops, other) \<Rightarrow> (update_set i (\<lambda>t. t\<lparr>set_queue := other\<rparr>) w)\<lparr>sposted := sposted w @ ops\<rparr>)"

section \<open>Delivering\<close>

definition count_undelivered :: "int \<Rightarrow> registration list \<Rightarrow> registration list" where
  "count_undelivered n regs = List.map (\<lambda>r. if signal_number r = n then r\<lparr>undelivered := undelivered r + 1\<rparr> else r) regs"

fun signal_waits :: "int \<Rightarrow> signal_op list \<Rightarrow> signal_op list \<Rightarrow> signal_op list" where
  "signal_waits n ops [] = ops"
| "signal_waits n ops (op # q) = signal_waits n (ops @ [op\<lparr>sop_signal := n\<rparr>]) q"

fun deliver_table :: "int \<Rightarrow> nat list \<Rightarrow> signal_op list \<Rightarrow> signal_world \<Rightarrow> signal_op list \<times> signal_world" where
  "deliver_table n [] ops w = (ops, w)"
| "deliver_table n (i # is) ops w = (if set_queue (sets w i) = []
     then deliver_table n is ops (update_set i (\<lambda>t. t\<lparr>set_signals := count_undelivered n (set_signals t)\<rparr>) w)
     else deliver_table n is (signal_waits n ops (set_queue (sets w i))) (update_set i (\<lambda>t. t\<lparr>set_queue := []\<rparr>) w))"

fun deliver_services :: "int \<Rightarrow> nat list \<Rightarrow> signal_world \<Rightarrow> signal_world" where
  "deliver_services n [] w = w"
| "deliver_services n (s # ss) w = (case deliver_table n (tables w s n) [] w of
     (ops, w1) \<Rightarrow> deliver_services n ss (w1\<lparr>sposted := sposted w1 @ ops\<rparr>))"

definition deliver_signal :: "int \<Rightarrow> signal_world \<Rightarrow> signal_world" where
  "deliver_signal n w = deliver_services n (service_list w) w"

text \<open>The handler writes to the pipe, which may be full; the operation of a reactor reads until the pipe is empty.\<close>

definition asio_signal_handler :: "bool \<Rightarrow> int \<Rightarrow> signal_world \<Rightarrow> signal_world" where
  "asio_signal_handler full n w = (if full then w else w\<lparr>signal_pipe := signal_pipe w @ [n]\<rparr>)"

fun pipe_read :: "int list \<Rightarrow> signal_world \<Rightarrow> signal_world" where
  "pipe_read [] w = w"
| "pipe_read (n # ns) w = pipe_read ns (if 0 \<le> n \<and> n < max_signal_number then deliver_signal n w else w)"

definition pipe_do_perform :: "signal_world \<Rightarrow> signal_world" where
  "pipe_do_perform w = (pipe_read (signal_pipe w) w)\<lparr>signal_pipe := []\<rparr>"

section \<open>Services\<close>

text \<open>The constructor: an empty table, the list of services, a new pipe for the first; closing the last one loses what is in it.\<close>

definition add_service :: "nat \<Rightarrow> signal_world \<Rightarrow> signal_world" where
  "add_service s w = w\<lparr>created := s # created w, tables := (tables w)(s := \<lambda>n. []), service_list := s # service_list w, reading := s # reading w,
     signal_pipe := (if service_list w = [] then [] else signal_pipe w)\<rparr>"

definition remove_service :: "nat \<Rightarrow> signal_world \<Rightarrow> signal_world" where
  "remove_service s w = (if s \<in> set (service_list w)
     then w\<lparr>service_list := remove1 s (service_list w), reading := removeAll s (reading w),
       signal_pipe := (if remove1 s (service_list w) = [] then [] else signal_pipe w)\<rparr>
     else w)"

fun abandon_queues :: "nat list \<Rightarrow> signal_op list \<Rightarrow> signal_world \<Rightarrow> signal_op list \<times> signal_world" where
  "abandon_queues [] ops w = (ops, w)"
| "abandon_queues (i # is) ops w = abandon_queues is (ops @ set_queue (sets w i)) (update_set i (\<lambda>t. t\<lparr>set_queue := []\<rparr>) w)"

definition shutdown_service :: "nat \<Rightarrow> signal_world \<Rightarrow> signal_world" where
  "shutdown_service s w0 = (let w = remove_service s w0 in
     case abandon_queues (concat (List.map (\<lambda>n. tables w s (int n)) [0..<nat max_signal_number])) [] w of
       (ops, w1) \<Rightarrow> w1\<lparr>sabandoned := sabandoned w1 @ ops\<rparr>)"

datatype fork_event = ForkPrepare | ForkParent | ForkChild

fun notify_fork :: "nat \<Rightarrow> fork_event \<Rightarrow> signal_world \<Rightarrow> signal_world" where
  "notify_fork s ForkPrepare w = w\<lparr>fork_prepared := True, reading := removeAll s (reading w)\<rparr>"
| "notify_fork s ForkParent w = (if fork_prepared w then w\<lparr>fork_prepared := False, reading := s # reading w\<rparr> else w)"
| "notify_fork s ForkChild w = (if fork_prepared w then w\<lparr>signal_pipe := [], fork_prepared := False, reading := s # reading w\<rparr> else w)"

section \<open>Sets\<close>

definition construct_set :: "nat \<Rightarrow> nat \<Rightarrow> signal_world \<Rightarrow> signal_world" where
  "construct_set s i w = (update_set i (\<lambda>t. t\<lparr>set_signals := []\<rparr>) w)\<lparr>owner := (owner w)(i := Some s)\<rparr>"

text \<open>The destructor ignores an error of \<open>clear\<close>; restoring the default of a valid signal has none.\<close>

definition destroy_set :: "nat \<Rightarrow> nat \<Rightarrow> signal_world \<Rightarrow> signal_world" where
  "destroy_set s i w = (cancel_waits i (snd (clear_signals (\<lambda>n. None) s i w)))\<lparr>owner := (owner w)(i := None)\<rparr>"

section \<open>Steps\<close>

datatype signal_action = AddService nat | ShutdownService nat | Fork nat fork_event | ConstructSet nat nat | DestroySet nat
  | AddSignal nat int int "int option" | RemoveSignal nat int "int option" | ClearSignals nat "(int \<times> int) list"
  | StartWait nat signal_op | CancelWaits nat | CancelWaitsByKey nat nat | RaiseSignal int bool | ReadPipe nat | CompleteWait

fun signal_step :: "signal_world \<Rightarrow> signal_action \<Rightarrow> signal_world option" where
  "signal_step w (AddService s) = (if s \<in> set (created w) then None else Some (add_service s w))"
| "signal_step w (ShutdownService s) = Some (shutdown_service s w)"
| "signal_step w (Fork s ev) = (if s \<in> set (service_list w) then Some (notify_fork s ev w) else None)"
| "signal_step w (ConstructSet s i) = (if s \<in> set (service_list w) \<and> owner w i = None then Some (construct_set s i w) else None)"
| "signal_step w (DestroySet i) = (case owner w i of None \<Rightarrow> None | Some s \<Rightarrow> Some (destroy_set s i w))"
| "signal_step w (AddSignal i n f r) = (case owner w i of None \<Rightarrow> None | Some s \<Rightarrow> Some (snd (add_signal (\<lambda>m. r) s i n f w)))"
| "signal_step w (RemoveSignal i n r) = (case owner w i of None \<Rightarrow> None | Some s \<Rightarrow> Some (snd (remove_signal (\<lambda>m. r) s i n w)))"
| "signal_step w (ClearSignals i rs) = (case owner w i of None \<Rightarrow> None | Some s \<Rightarrow> Some (snd (clear_signals (map_of rs) s i w)))"
| "signal_step w (StartWait i op) = (case owner w i of None \<Rightarrow> None | Some s \<Rightarrow> Some (start_wait_op i op w))"
| "signal_step w (CancelWaits i) = (case owner w i of None \<Rightarrow> None | Some s \<Rightarrow> Some (cancel_waits i w))"
| "signal_step w (CancelWaitsByKey i k) = (case owner w i of None \<Rightarrow> None | Some s \<Rightarrow> Some (cancel_waits_by_key i k w))"
| "signal_step w (RaiseSignal n full) = (case handlers w n of None \<Rightarrow> None | Some f \<Rightarrow> Some (asio_signal_handler full n w))"
| "signal_step w (ReadPipe s) = (if s \<in> set (reading w) \<and> signal_pipe w \<noteq> [] then Some (pipe_do_perform w) else None)"
| "signal_step w CompleteWait = (case sposted w of [] \<Rightarrow> None
     | op # ops \<Rightarrow> Some (w\<lparr>sposted := ops, scompleted := scompleted w @ [op], swork := swork w - 1\<rparr>))"

end
