(* ===== verification/AsioSignalSets.thy ===== *)
theory AsioSignalSets
  imports AsioSignals
begin

text \<open>
  The invariants of the signal sets: the counts, the tables and the sets agree, the system's handler is installed while a set is registered
  for the signal, and a wait never waits while its set has a signal that was not delivered.
\<close>

section \<open>The registrations\<close>

definition registered :: "signal_world \<Rightarrow> int \<Rightarrow> nat set" where
  "registered w n = {i. n \<in> signal_number ` set (set_signals (sets w i))}"

definition set_ok :: "signal_set \<Rightarrow> bool" where
  "set_ok t \<longleftrightarrow> sorted_wrt (<) (List.map signal_number (set_signals t)) \<and> (\<forall>r \<in> set (set_signals t). 0 \<le> signal_number r \<and> signal_number r < max_signal_number) \<and>
     (set_queue t \<noteq> [] \<longrightarrow> (\<forall>r \<in> set (set_signals t). undelivered r = 0))"

definition sets_ok :: "signal_world \<Rightarrow> bool" where
  "sets_ok w \<longleftrightarrow> (\<forall>i. set_ok (sets w i) \<and> (owner w i = None \<longrightarrow> set_signals (sets w i) = [] \<and> set_queue (sets w i) = []))"

definition tables_ok :: "signal_world \<Rightarrow> bool" where
  "tables_ok w \<longleftrightarrow> distinct (service_list w) \<and> set (service_list w) \<subseteq> set (created w) \<and> (\<forall>i s. owner w i = Some s \<longrightarrow> s \<in> set (created w)) \<and>
     (\<forall>s n. distinct (tables w s n) \<and> set (tables w s n) = {i \<in> registered w n. owner w i = Some s})"

definition counts_ok :: "signal_world \<Rightarrow> bool" where
  "counts_ok w \<longleftrightarrow> (\<forall>n. finite (registered w n) \<and> registration_count w n = card (registered w n) \<and>
     handlers w n = (if registered w n = {} then None else Some (if signal_flags w n = dont_care then 0 else signal_flags w n)))"

definition signals_ok :: "signal_world \<Rightarrow> bool" where
  "signals_ok w \<longleftrightarrow> sets_ok w \<and> tables_ok w \<and> counts_ok w"

lemmas signal_defs = signals_ok_def sets_ok_def tables_ok_def counts_ok_def

text \<open>What the invariants say of the parts that a step leaves as they are.\<close>

lemma registered_eqI: "(\<And>i. List.map signal_number (set_signals (sets w1 i)) = List.map signal_number (set_signals (sets w i))) \<Longrightarrow> registered w1 n = registered w n"
  unfolding registered_def by (metis list.set_map)

lemma same_registrations:
  assumes "signals_ok w" "\<And>i. set_ok (sets w1 i) \<and> (set_signals (sets w i) = [] \<and> set_queue (sets w i) = [] \<and> owner w i = None \<longrightarrow> set_queue (sets w1 i) = [])"
    "\<And>i. List.map signal_number (set_signals (sets w1 i)) = List.map signal_number (set_signals (sets w i))"
    "created w1 = created w" "service_list w1 = service_list w" "tables w1 = tables w" "owner w1 = owner w"
    "registration_count w1 = registration_count w" "handlers w1 = handlers w" "signal_flags w1 = signal_flags w"
  shows "signals_ok w1"
proof -
  have r: "registered w1 n = registered w n" for n by (rule registered_eqI [OF assms(3)])
  have "set_signals (sets w1 i) = []" if "set_signals (sets w i) = []" for i using assms(3) [of i] that by simp
  then show ?thesis using assms(1,2) unfolding signal_defs r assms(4-) by metis
qed

lemma set_ok_numbers:
  assumes "List.map signal_number regs = List.map signal_number (set_signals t)" "set_ok t" "q \<noteq> [] \<longrightarrow> (\<forall>r \<in> set regs. undelivered r = 0)"
  shows "set_ok \<lparr>set_queue = q, set_signals = regs\<rparr>"
proof -
  have "signal_number ` set regs = signal_number ` set (set_signals t)" using assms(1) by (metis list.set_map)
  then have "0 \<le> signal_number r \<and> signal_number r < max_signal_number" if "r \<in> set regs" for r
    using assms(2) that unfolding set_ok_def by (metis image_iff)
  then show ?thesis using assms by (simp add: set_ok_def)
qed

section \<open>The list of a set\<close>

lemma found_iff: "sorted_wrt (<) (List.map signal_number regs) \<Longrightarrow> found n regs \<longleftrightarrow> n \<in> signal_number ` set regs"
  by (induction regs) (auto simp: found_def split: if_splits)

lemma inserted_list:
  assumes "sorted_wrt (<) (List.map signal_number regs)" "\<not> found n regs"
  shows "sorted_wrt (<) (List.map signal_number (takeWhile (\<lambda>r. signal_number r < n) regs @ \<lparr>signal_number = n, undelivered = 0\<rparr> # dropWhile (\<lambda>r. signal_number r < n) regs))"
  using assms
proof (induction regs)
  case (Cons r rs)
  then show ?case by (auto simp: found_def dest: set_takeWhileD set_dropWhileD split: if_splits)
qed (simp add: found_def)

lemma removed_list:
  assumes "sorted_wrt (<) (List.map signal_number regs)" "found n regs"
  shows "sorted_wrt (<) (List.map signal_number (takeWhile (\<lambda>r. signal_number r < n) regs @ tl (dropWhile (\<lambda>r. signal_number r < n) regs))) \<and>
    signal_number ` set (takeWhile (\<lambda>r. signal_number r < n) regs @ tl (dropWhile (\<lambda>r. signal_number r < n) regs)) = signal_number ` set regs - {n} \<and>
    set (takeWhile (\<lambda>r. signal_number r < n) regs @ tl (dropWhile (\<lambda>r. signal_number r < n) regs)) \<subseteq> set regs"
  using assms
proof (induction regs)
  case (Cons r rs)
  show ?case
  proof (cases "signal_number r < n")
    case True
    then have "found n rs" using Cons.prems(2) by (simp add: found_def)
    note ih = Cons.IH [OF _ this]
    have s: "sorted_wrt (<) (List.map signal_number rs)" "\<And>x. x \<in> set rs \<Longrightarrow> signal_number r < signal_number x" using Cons.prems(1) by auto
    show ?thesis using ih [OF s(1)] s(2) True by auto
  next
    case False
    then have "signal_number r = n" using Cons.prems(2) by (simp add: found_def)
    then show ?thesis using Cons.prems(1) by force
  qed
qed (simp add: found_def)

section \<open>Preservation\<close>

lemma sets_update_set [simp]: "sets (update_set i f w) = (sets w)(i := f (sets w i))"
  "created (update_set i f w) = created w" "service_list (update_set i f w) = service_list w" "tables (update_set i f w) = tables w"
  "owner (update_set i f w) = owner w" "registration_count (update_set i f w) = registration_count w" "handlers (update_set i f w) = handlers w"
  "signal_flags (update_set i f w) = signal_flags w" "sposted (update_set i f w) = sposted w" "swork (update_set i f w) = swork w"
  "reading (update_set i f w) = reading w" "signal_pipe (update_set i f w) = signal_pipe w"
  by (simp_all add: update_set_def)

lemma install_ok:
  assumes "counts_ok w" "install sa n f w = Inr w1"
  shows "\<exists>g. w1 = w\<lparr>handlers := (handlers w)(n := Some (if g = dont_care then 0 else g)), signal_flags := (signal_flags w)(n := g)\<rparr>"
proof (cases "registration_count w n = 0")
  case True
  then show ?thesis using assms(2) by (auto simp: install_def split: if_splits option.splits)
next
  case False
  then have "registered w n \<noteq> {}" using assms(1) unfolding counts_ok_def by (metis card.empty)
  then have "handlers w n = Some (if signal_flags w n = dont_care then 0 else signal_flags w n)" using assms(1) by (simp add: counts_ok_def)
  then have "w = w\<lparr>handlers := (handlers w)(n := Some (if signal_flags w n = dont_care then 0 else signal_flags w n)),
      signal_flags := (signal_flags w)(n := signal_flags w n)\<rparr>" by (simp add: fun_upd_idem)
  moreover have "w1 = w \<or> w1 = w\<lparr>handlers := (handlers w)(n := Some f), signal_flags := (signal_flags w)(n := f)\<rparr> \<and> f \<noteq> dont_care"
    using False assms(2) by (auto simp: install_def split: if_splits option.splits)
  ultimately consider "w1 = w\<lparr>handlers := (handlers w)(n := Some (if signal_flags w n = dont_care then 0 else signal_flags w n)),
      signal_flags := (signal_flags w)(n := signal_flags w n)\<rparr>"
    | "w1 = w\<lparr>handlers := (handlers w)(n := Some (if f = dont_care then 0 else f)), signal_flags := (signal_flags w)(n := f)\<rparr>" by force
  then show ?thesis by cases (rule exI, assumption)+
qed

lemma record_registration_ok:
  assumes ok: "signals_ok w" and own: "owner w i = Some s" and n: "0 \<le> n" "n < max_signal_number" "\<not> found n (set_signals (sets w i))"
    and w1: "w1 = w\<lparr>handlers := (handlers w)(n := Some (if g = dont_care then 0 else g)), signal_flags := (signal_flags w)(n := g)\<rparr>"
  shows "signals_ok (record_registration s i n w1)"
proof -
  let ?w = "record_registration s i n w1" and ?regs = "set_signals (sets w i)"
  have so: "sorted_wrt (<) (List.map signal_number ?regs)" using ok by (simp add: signal_defs set_ok_def)
  have i: "i \<notin> registered w n" using n(3) found_iff [OF so] by (simp add: registered_def)
  have sets: "sets ?w = (sets w)(i := (sets w i)\<lparr>set_signals := takeWhile (\<lambda>r. signal_number r < n) ?regs @
      \<lparr>signal_number = n, undelivered = 0\<rparr> # dropWhile (\<lambda>r. signal_number r < n) ?regs\<rparr>)"
    by (simp add: record_registration_def w1 Let_def)
  have un: "set (takeWhile (\<lambda>r. signal_number r < n) ?regs) \<union> set (dropWhile (\<lambda>r. signal_number r < n) ?regs) = set ?regs"
    unfolding set_append [symmetric] takeWhile_dropWhile_id ..
  then have im: "signal_number ` set (takeWhile (\<lambda>r. signal_number r < n) ?regs) \<union> signal_number ` set (dropWhile (\<lambda>r. signal_number r < n) ?regs) = signal_number ` set ?regs"
    unfolding image_Un [symmetric] by simp
  have reg: "registered ?w m = (if m = n then insert i (registered w n) else registered w m)" for m
    using im by (auto simp: registered_def sets)
  have fields: "tables ?w = (tables w)(s := (tables w s)(n := i # tables w s n))" "registration_count ?w = (registration_count w)(n := registration_count w n + 1)"
    "owner ?w = owner w" "created ?w = created w" "service_list ?w = service_list w"
    "handlers ?w = (handlers w)(n := Some (if g = dont_care then 0 else g))" "signal_flags ?w = (signal_flags w)(n := g)"
    by (simp_all add: record_registration_def w1 Let_def)
  have so1: "set_ok (sets ?w i)"
    using ok inserted_list [OF so n(3)] n(1,2) un unfolding sets set_ok_def signal_defs by (auto simp: set_ok_def)
  have "sets_ok ?w" using ok so1 own unfolding sets_ok_def signals_ok_def fields by (auto simp: sets)
  moreover have "tables_ok ?w" using ok i own unfolding tables_ok_def signals_ok_def fields reg by auto
  moreover have "counts_ok ?w" using ok i unfolding counts_ok_def signals_ok_def fields reg by auto
  ultimately show ?thesis by (simp add: signals_ok_def)
qed

lemma add_signal_ok: "signals_ok w \<Longrightarrow> owner w i = Some s \<Longrightarrow> signals_ok (snd (add_signal sa s i n f w))"
  using install_ok [of w sa n f] record_registration_ok [of w i s n]
  by (auto simp: add_signal_def signals_ok_def split: sum.splits)

lemma restore_default_ok:
  assumes "counts_ok w" "restore_default sa n w = Inr w1"
  shows "\<exists>h g. w1 = w\<lparr>handlers := (handlers w)(n := h), signal_flags := (signal_flags w)(n := g)\<rparr> \<and>
    (registered w n \<noteq> {} \<longrightarrow> h = (if card (registered w n) = 1 then None else Some (if g = dont_care then 0 else g)))"
proof (cases "registration_count w n = 1")
  case True
  then have "w1 = w\<lparr>handlers := (handlers w)(n := None), signal_flags := (signal_flags w)(n := no_flags)\<rparr>"
    using assms(2) by (auto simp: restore_default_def split: option.splits)
  moreover have "card (registered w n) = 1" using assms(1) True by (simp add: counts_ok_def)
  ultimately show ?thesis by auto
next
  case False
  then have "w1 = w\<lparr>handlers := (handlers w)(n := handlers w n), signal_flags := (signal_flags w)(n := signal_flags w n)\<rparr>"
    using assms(2) by (simp add: restore_default_def)
  moreover have "card (registered w n) \<noteq> 1" using assms(1) False by (simp add: counts_ok_def)
  moreover have "registered w n \<noteq> {} \<longrightarrow> handlers w n = Some (if signal_flags w n = dont_care then 0 else signal_flags w n)"
    using assms(1) by (simp add: counts_ok_def)
  ultimately show ?thesis by (intro exI [of _ "handlers w n"] exI [of _ "signal_flags w n"]) auto
qed

lemma unregister_ok:
  assumes ok: "signals_ok w" and own: "owner w i = Some s" and n: "n \<in> signal_number ` set (set_signals (sets w i))"
    and regs: "sorted_wrt (<) (List.map signal_number regs)" "signal_number ` set regs = signal_number ` set (set_signals (sets w i)) - {n}"
      "set regs \<subseteq> set (set_signals (sets w i))"
    and r: "restore_default sa n w = Inr w1"
  shows "signals_ok (leave_table s i n (update_set i (\<lambda>t. t\<lparr>set_signals := regs\<rparr>) w1))"
proof -
  let ?w = "leave_table s i n (update_set i (\<lambda>t. t\<lparr>set_signals := regs\<rparr>) w1)"
  have i: "i \<in> registered w n" using n by (simp add: registered_def)
  obtain h g where w1: "w1 = w\<lparr>handlers := (handlers w)(n := h), signal_flags := (signal_flags w)(n := g)\<rparr>"
    "h = (if card (registered w n) = 1 then None else Some (if g = dont_care then 0 else g))"
    using restore_default_ok [OF _ r] ok i unfolding signals_ok_def by blast
  have sets: "sets ?w = (sets w)(i := (sets w i)\<lparr>set_signals := regs\<rparr>)" by (simp add: leave_table_def w1(1))
  have reg: "registered ?w m = (if m = n then registered w n - {i} else registered w m)" for m
    using regs(2) n by (auto simp: registered_def sets)
  have fields: "tables ?w = (tables w)(s := (tables w s)(n := remove1 i (tables w s n)))" "registration_count ?w = (registration_count w)(n := registration_count w n - 1)"
    "owner ?w = owner w" "created ?w = created w" "service_list ?w = service_list w" "handlers ?w = (handlers w)(n := h)" "signal_flags ?w = (signal_flags w)(n := g)"
    by (simp_all add: leave_table_def w1(1))
  have so: "set_ok (sets ?w i)" using ok regs(1,3) unfolding sets set_ok_def signal_defs by auto
  have "sets_ok ?w" using ok so own unfolding sets_ok_def signals_ok_def fields by (auto simp: sets)
  moreover have "tables_ok ?w" using ok i own unfolding tables_ok_def signals_ok_def fields reg by auto
  moreover have "counts_ok ?w" unfolding counts_ok_def
  proof (intro allI)
    fix m
    have c: "finite (registered w m)" "registration_count w m = card (registered w m)"
      "handlers w m = (if registered w m = {} then None else Some (if signal_flags w m = dont_care then 0 else signal_flags w m))"
      using ok by (simp_all add: signal_defs)
    show "finite (registered ?w m) \<and> registration_count ?w m = card (registered ?w m) \<and>
        handlers ?w m = (if registered ?w m = {} then None else Some (if signal_flags ?w m = dont_care then 0 else signal_flags ?w m))"
    proof (cases "m = n")
      case True
      have d: "card (registered w n - {i}) = card (registered w n) - 1" using i by simp
      have "registered w n - {i} = {} \<longleftrightarrow> card (registered w n) = 1"
        using i c(1) True d card_0_eq [of "registered w n - {i}"] by (auto simp: card_1_singleton_iff)
      then show ?thesis using c d True unfolding fields reg w1(2) by simp
    qed (use c in \<open>simp add: fields reg\<close>)
  qed
  ultimately show ?thesis by (simp add: signals_ok_def)
qed

lemma remove_signal_ok: "signals_ok w \<Longrightarrow> owner w i = Some s \<Longrightarrow> signals_ok (snd (remove_signal sa s i n w))"
proof -
  assume ok: "signals_ok w" and own: "owner w i = Some s"
  have so: "sorted_wrt (<) (List.map signal_number (set_signals (sets w i)))" using ok by (simp add: signal_defs set_ok_def)
  show ?thesis
  proof (cases "found n (set_signals (sets w i)) \<and> \<not> (n < 0 \<or> max_signal_number \<le> n)")
    case True
    then have f: "found n (set_signals (sets w i))" by blast
    note r = removed_list [OF so f]
    have m: "n \<in> signal_number ` set (set_signals (sets w i))" using found_iff [OF so] f by blast
    show ?thesis
      using unregister_ok [OF ok own m conjunct1 [OF r] conjunct1 [OF conjunct2 [OF r]] conjunct2 [OF conjunct2 [OF r]], of sa] ok True
      by (auto simp: remove_signal_def Let_def split: sum.splits)
  qed (use ok in \<open>auto simp: remove_signal_def Let_def\<close>)
qed

lemma clear_loop_ok: "signals_ok w \<Longrightarrow> owner w i = Some s \<Longrightarrow> set_signals (sets w i) = regs \<Longrightarrow>
    signals_ok (snd (clear_loop sa s i regs w)) \<and> owner (snd (clear_loop sa s i regs w)) = owner w \<and>
    set_queue (sets (snd (clear_loop sa s i regs w)) i) = set_queue (sets w i) \<and>
    (fst (clear_loop sa s i regs w) = None \<longrightarrow> set_signals (sets (snd (clear_loop sa s i regs w)) i) = [])"
proof (induction regs arbitrary: w)
  case (Cons r rs)
  show ?case
  proof (cases "restore_default sa (signal_number r) w")
    case (Inr w1)
    let ?w = "update_set i (\<lambda>t. t\<lparr>set_signals := rs\<rparr>) (leave_table s i (signal_number r) w1)"
    have "sorted_wrt (<) (List.map signal_number (set_signals (sets w i)))" using Cons.prems(1) by (simp add: signal_defs set_ok_def)
    then have so: "sorted_wrt (<) (List.map signal_number (r # rs))" unfolding Cons.prems(3) .
    have e: "?w = leave_table s i (signal_number r) (update_set i (\<lambda>t. t\<lparr>set_signals := rs\<rparr>) w1)" by (simp add: update_set_def leave_table_def)
    have "signals_ok ?w" unfolding e
      by (rule unregister_ok [OF Cons.prems(1,2) _ _ _ _ Inr]) (use so Cons.prems(3) in auto)
    moreover obtain h g where "w1 = w\<lparr>handlers := h, signal_flags := g\<rparr>"
      using restore_default_ok [OF _ Inr] Cons.prems(1) unfolding signals_ok_def by blast
    then have "owner ?w = owner w" "set_queue (sets ?w i) = set_queue (sets w i)" "set_signals (sets ?w i) = rs" by (simp_all add: leave_table_def)
    ultimately show ?thesis using Cons.IH [of ?w] Cons.prems(2) Inr by simp
  qed (use Cons.prems in simp)
qed simp

section \<open>Waits and deliveries\<close>

lemma take_undelivered_Some:
  "take_undelivered regs = Some (n, regs1) \<Longrightarrow> List.map signal_number regs1 = List.map signal_number regs \<and>
     (\<exists>r \<in> set regs. signal_number r = n \<and> 0 < undelivered r)"
  by (induction regs arbitrary: regs1) (auto split: if_splits option.splits)

lemma take_undelivered_None: "take_undelivered regs = None \<longleftrightarrow> (\<forall>r \<in> set regs. undelivered r = 0)"
  by (induction regs) (auto split: option.splits)

lemma start_wait_ok:
  assumes "signals_ok w" "owner w i = Some s"
  shows "signals_ok (start_wait_op i op w)"
proof -
  have t: "set_ok (sets w j)" for j using assms(1) by (simp add: signal_defs)
  show ?thesis
  proof (cases "take_undelivered (set_signals (sets w i))")
    case None
    have "set_ok ((sets w i)\<lparr>set_queue := set_queue (sets w i) @ [op]\<rparr>)" using t [of i] None by (simp add: set_ok_def take_undelivered_None)
    then show ?thesis using t assms(2) by (intro same_registrations [OF assms(1)]) (auto simp: start_wait_op_def None Let_def)
  next
    case (Some p)
    obtain n regs where p: "p = (n, regs)" by (cases p)
    note u = take_undelivered_Some [OF Some [unfolded p]]
    then have "set_queue (sets w i) = []" using t [of i] by (auto simp: set_ok_def)
    then have "set_ok ((sets w i)\<lparr>set_signals := regs\<rparr>)" using set_ok_numbers [OF conjunct1 [OF u] t, of "[]"] by (cases "sets w i") simp
    then show ?thesis using t u by (intro same_registrations [OF assms(1)]) (auto simp: start_wait_op_def Some p Let_def)
  qed
qed

lemma shorter_queues:
  assumes "signals_ok w" "\<And>i. sets w1 i = sets w i \<or> (\<exists>q. sets w1 i = (sets w i)\<lparr>set_queue := q\<rparr> \<and> (q \<noteq> [] \<longrightarrow> set_queue (sets w i) \<noteq> []))"
    "created w1 = created w" "service_list w1 = service_list w" "tables w1 = tables w" "owner w1 = owner w"
    "registration_count w1 = registration_count w" "handlers w1 = handlers w" "signal_flags w1 = signal_flags w"
  shows "signals_ok w1"
proof (rule same_registrations [OF assms(1)])
  fix i
  have "set_ok (sets w i)" using assms(1) by (simp add: signal_defs)
  then show "set_ok (sets w1 i) \<and> (set_signals (sets w i) = [] \<and> set_queue (sets w i) = [] \<and> owner w i = None \<longrightarrow> set_queue (sets w1 i) = [])"
    using assms(2) [of i] by (auto simp: set_ok_def)
  show "List.map signal_number (set_signals (sets w1 i)) = List.map signal_number (set_signals (sets w i))" using assms(2) [of i] by auto
qed (use assms(3-) in auto)

lemma cancel_waits_ok: "signals_ok w \<Longrightarrow> signals_ok (cancel_waits i w)"
  by (erule shorter_queues) (auto simp: cancel_waits_def)

lemma cancel_wait_loop_kept: "cancel_wait_loop key ops other q = (ops1, other1) \<Longrightarrow> other1 \<noteq> [] \<Longrightarrow> other \<noteq> [] \<or> q \<noteq> []"
  by (induction key ops other q rule: cancel_wait_loop.induct) (auto split: if_splits)

lemma cancel_waits_by_key_ok: "signals_ok w \<Longrightarrow> signals_ok (cancel_waits_by_key i key w)"
  by (erule shorter_queues) (auto simp: cancel_waits_by_key_def dest: cancel_wait_loop_kept split: prod.splits)

definition deliver_set :: "int \<Rightarrow> signal_set \<Rightarrow> signal_set" where
  "deliver_set n t = (if set_queue t = [] then t\<lparr>set_signals := count_undelivered n (set_signals t)\<rparr> else t\<lparr>set_queue := []\<rparr>)"

definition waits_at :: "signal_world \<Rightarrow> int \<Rightarrow> nat list \<Rightarrow> signal_op list" where
  "waits_at w n is = concat (List.map (\<lambda>i. List.map (\<lambda>op. op\<lparr>sop_signal := n\<rparr>) (set_queue (sets w i))) is)"

lemma signal_waits_eq: "signal_waits n ops q = ops @ List.map (\<lambda>op. op\<lparr>sop_signal := n\<rparr>) q"
  by (induction n ops q rule: signal_waits.induct) auto

lemma deliver_set_numbers [simp]: "List.map signal_number (set_signals (deliver_set n t)) = List.map signal_number (set_signals t)"
  by (simp add: deliver_set_def count_undelivered_def)

lemma deliver_set_queue [simp]: "set_queue (deliver_set n t) = []"
  by (simp add: deliver_set_def)

lemma deliver_set_ok: "set_ok t \<Longrightarrow> set_ok (deliver_set n t)"
proof -
  assume t: "set_ok t"
  have e: "deliver_set n t = \<lparr>set_queue = [], set_signals = set_signals (deliver_set n t)\<rparr>" by (cases t) (simp add: deliver_set_def)
  show "set_ok (deliver_set n t)" by (subst e) (rule set_ok_numbers [OF _ t], simp_all)
qed

lemma deliver_table_eq:
  "distinct is \<Longrightarrow> deliver_table n is ops w = (ops @ waits_at w n is, w\<lparr>sets := \<lambda>i. if i \<in> set is then deliver_set n (sets w i) else sets w i\<rparr>)"
proof (induction "is" arbitrary: ops w)
  case (Cons i "is")
  let ?w = "update_set i (deliver_set n) w"
  have "waits_at ?w n is = waits_at w n is" using Cons.prems unfolding waits_at_def by (intro arg_cong [of _ _ concat] map_cong) auto
  moreover have g: "(\<lambda>j. if j \<in> set is then deliver_set n (sets ?w j) else sets ?w j) = (\<lambda>j. if j \<in> set (i # is) then deliver_set n (sets w j) else sets w j)"
    using Cons.prems by (intro ext) auto
  have "?w\<lparr>sets := \<lambda>j. if j \<in> set is then deliver_set n (sets ?w j) else sets ?w j\<rparr> =
      w\<lparr>sets := \<lambda>j. if j \<in> set (i # is) then deliver_set n (sets w j) else sets w j\<rparr>"
    unfolding g by (simp add: update_set_def)
  moreover have "update_set i (\<lambda>t. t\<lparr>set_signals := count_undelivered n (set_signals t)\<rparr>) w = ?w" if "set_queue (sets w i) = []"
    using that by (simp add: update_set_def deliver_set_def)
  moreover have "update_set i (\<lambda>t. t\<lparr>set_queue := []\<rparr>) w = ?w" if "set_queue (sets w i) \<noteq> []"
    using that by (simp add: update_set_def deliver_set_def)
  ultimately show ?case using Cons.IH [of _ ?w] Cons.prems by (simp add: waits_at_def signal_waits_eq)
qed (simp add: waits_at_def)

lemma deliver_services_eq:
  assumes "\<And>s. distinct (tables w s n)" "\<And>s s'. s \<noteq> s' \<Longrightarrow> set (tables w s n) \<inter> set (tables w s' n) = {}" "distinct ss"
  shows "deliver_services n ss w = w\<lparr>sets := \<lambda>i. if \<exists>s \<in> set ss. i \<in> set (tables w s n) then deliver_set n (sets w i) else sets w i,
    sposted := sposted w @ concat (List.map (\<lambda>s. waits_at w n (tables w s n)) ss)\<rparr>"
  using assms
proof (induction ss arbitrary: w)
  case (Cons s ss)
  let ?is = "tables w s n"
  let ?w = "w\<lparr>sets := \<lambda>i. if i \<in> set ?is then deliver_set n (sets w i) else sets w i, sposted := sposted w @ waits_at w n ?is\<rparr>"
  have d: "deliver_services n (s # ss) w = deliver_services n ss ?w" using deliver_table_eq [OF Cons.prems(1), of n s "[]" w] by simp
  have ih: "deliver_services n ss ?w = ?w\<lparr>sets := \<lambda>i. if \<exists>s \<in> set ss. i \<in> set (tables ?w s n) then deliver_set n (sets ?w i) else sets ?w i,
      sposted := sposted ?w @ concat (List.map (\<lambda>s. waits_at ?w n (tables ?w s n)) ss)\<rparr>"
    by (rule Cons.IH) (use Cons.prems in auto)
  have q: "waits_at ?w n (tables w s' n) = waits_at w n (tables w s' n)" if "s' \<in> set ss" for s'
  proof -
    have "s' \<noteq> s" using that Cons.prems(3) by auto
    then have "set (tables w s' n) \<inter> set ?is = {}" by (rule Cons.prems(2))
    then show ?thesis unfolding waits_at_def by (intro arg_cong [of _ _ concat] map_cong) auto
  qed
  have "i \<notin> set ?is" if "s' \<in> set ss" "i \<in> set (tables w s' n)" for s' i
    using that Cons.prems(2) [of s' s] Cons.prems(3) by auto
  then have g: "(\<lambda>i. if \<exists>s \<in> set ss. i \<in> set (tables ?w s n) then deliver_set n (sets ?w i) else sets ?w i) =
      (\<lambda>i. if \<exists>s' \<in> set (s # ss). i \<in> set (tables w s' n) then deliver_set n (sets w i) else sets w i)" by (intro ext) auto
  have m: "List.map (\<lambda>s. waits_at ?w n (tables ?w s n)) ss = List.map (\<lambda>s. waits_at w n (tables w s n)) ss" using q by simp
  show ?case unfolding d ih g m by simp
qed simp

lemma deliver_signal_eq:
  assumes "signals_ok w"
  shows "deliver_signal n w = w\<lparr>sets := \<lambda>i. if \<exists>s \<in> set (service_list w). owner w i = Some s \<and> i \<in> registered w n then deliver_set n (sets w i) else sets w i,
    sposted := sposted w @ concat (List.map (\<lambda>s. waits_at w n (tables w s n)) (service_list w))\<rparr>"
proof -
  have t: "distinct (tables w s n)" "set (tables w s n) = {i \<in> registered w n. owner w i = Some s}" "distinct (service_list w)" for s
    using assms by (simp_all add: signal_defs)
  have "deliver_services n (service_list w) w = w\<lparr>sets := \<lambda>i. if \<exists>s \<in> set (service_list w). i \<in> set (tables w s n) then deliver_set n (sets w i) else sets w i,
      sposted := sposted w @ concat (List.map (\<lambda>s. waits_at w n (tables w s n)) (service_list w))\<rparr>"
    by (rule deliver_services_eq) (use t in auto)
  moreover have "(\<exists>s \<in> set (service_list w). i \<in> set (tables w s n)) \<longleftrightarrow> (\<exists>s \<in> set (service_list w). owner w i = Some s \<and> i \<in> registered w n)" for i
    using t(2) by auto
  ultimately show ?thesis by (simp add: deliver_signal_def)
qed

lemma deliver_signal_ok: "signals_ok w \<Longrightarrow> signals_ok (deliver_signal n w)"
proof -
  assume ok: "signals_ok w"
  have "set_ok (sets w i)" for i using ok by (simp add: signal_defs)
  then show ?thesis unfolding deliver_signal_eq [OF ok] by (intro same_registrations [OF ok]) (auto simp: deliver_set_ok)
qed

lemma pipe_read_ok: "signals_ok w \<Longrightarrow> signals_ok (pipe_read ns w)"
  by (induction ns arbitrary: w) (simp_all add: deliver_signal_ok)

lemma fields_ok:
  assumes "signals_ok w" "sets w1 = sets w" "created w1 = created w" "service_list w1 = service_list w" "tables w1 = tables w" "owner w1 = owner w"
    "registration_count w1 = registration_count w" "handlers w1 = handlers w" "signal_flags w1 = signal_flags w"
  shows "signals_ok w1"
  by (rule shorter_queues [OF assms(1)]) (use assms(2-) in auto)

lemma abandon_queues_ok:
  "signals_ok w \<Longrightarrow> signals_ok (snd (abandon_queues is ops w))"
proof (induction "is" ops w rule: abandon_queues.induct)
  case (2 i "is" ops w)
  have "signals_ok (update_set i (\<lambda>t. t\<lparr>set_queue := []\<rparr>) w)" by (rule shorter_queues [OF 2(2)]) auto
  then show ?case using 2(1) by simp
qed simp

section \<open>The system\<close>

lemma add_service_ok: "signals_ok w \<Longrightarrow> s \<notin> set (created w) \<Longrightarrow> signals_ok (add_service s w)"
proof -
  assume ok: "signals_ok w" and s: "s \<notin> set (created w)"
  have r: "registered (add_service s w) n = registered w n" for n by (simp add: registered_def add_service_def)
  have "owner w i \<noteq> Some s" for i using ok s by (auto simp: signal_defs)
  then show ?thesis using ok s unfolding signal_defs r by (auto simp: add_service_def)
qed

lemma remove_service_ok: "signals_ok w \<Longrightarrow> signals_ok (remove_service s w)"
proof -
  assume ok: "signals_ok w"
  have r: "registered (remove_service s w) n = registered w n" for n by (simp add: registered_def remove_service_def)
  show ?thesis using ok unfolding signal_defs r by (auto simp: remove_service_def)
qed

lemma shutdown_ok: "signals_ok w \<Longrightarrow> signals_ok (shutdown_service s w)"
proof -
  assume "signals_ok w"
  note r = remove_service_ok [OF this, of s]
  let ?is = "concat (List.map (\<lambda>n. tables (remove_service s w) s (int n)) [0..<nat max_signal_number])"
  obtain ops w1 where a: "abandon_queues ?is [] (remove_service s w) = (ops, w1)" by (cases "abandon_queues ?is [] (remove_service s w)")
  have "signals_ok w1" using abandon_queues_ok [OF r, of ?is "[]"] unfolding a by simp
  then have "signals_ok (w1\<lparr>sabandoned := sabandoned w1 @ ops\<rparr>)" by (rule fields_ok) simp_all
  then show ?thesis unfolding shutdown_service_def Let_def a by simp
qed

lemma fork_ok: "signals_ok w \<Longrightarrow> signals_ok (notify_fork s ev w)"
  by (cases ev) (auto intro: fields_ok)

lemma construct_set_ok: "signals_ok w \<Longrightarrow> s \<in> set (service_list w) \<Longrightarrow> owner w i = None \<Longrightarrow> signals_ok (construct_set s i w)"
proof -
  assume ok: "signals_ok w" and s: "s \<in> set (service_list w)" and own: "owner w i = None"
  have e: "set_signals (sets w i) = []" using ok own by (simp add: signal_defs)
  then have w: "sets (construct_set s i w) = sets w" by (auto simp: construct_set_def)
  have r: "registered (construct_set s i w) n = registered w n" for n by (simp add: registered_def w)
  have "i \<notin> registered w n" for n using e by (simp add: registered_def)
  then show ?thesis using ok s own unfolding signal_defs r w by (auto simp: construct_set_def)
qed

lemma clear_default: "fst (clear_loop (\<lambda>n. None) s i regs w) = None"
  by (induction regs arbitrary: w) (auto simp: restore_default_def split: sum.splits if_splits)

lemma destroy_ok: "signals_ok w \<Longrightarrow> owner w i = Some s \<Longrightarrow> signals_ok (destroy_set s i w)"
proof -
  assume ok: "signals_ok w" and own: "owner w i = Some s"
  let ?w = "snd (clear_signals (\<lambda>n. None) s i w)"
  have c: "signals_ok ?w" "owner ?w = owner w" "set_signals (sets ?w i) = []"
    using clear_loop_ok [OF ok own refl, of "\<lambda>n. None"] clear_default by (simp_all add: clear_signals_def)
  let ?d = "destroy_set s i w"
  have f: "sets ?d = (sets ?w)(i := (sets ?w i)\<lparr>set_queue := []\<rparr>)" "owner ?d = (owner w)(i := None)" "created ?d = created ?w" "service_list ?d = service_list ?w"
    "tables ?d = tables ?w" "registration_count ?d = registration_count ?w" "handlers ?d = handlers ?w" "signal_flags ?d = signal_flags ?w"
    using c(3) by (simp_all add: destroy_set_def cancel_waits_def)
  have r: "registered ?d n = registered ?w n" for n using c(3) by (auto simp: registered_def f split: if_splits)
  have i: "i \<notin> registered ?w n" for n using c(3) by (simp add: registered_def)
  have "sets_ok ?d" using c unfolding signals_ok_def sets_ok_def f by (auto simp: set_ok_def)
  moreover have "tables_ok ?d" using c i unfolding signals_ok_def tables_ok_def f r by auto
  moreover have "counts_ok ?d" using c unfolding signals_ok_def counts_ok_def f r by auto
  ultimately show ?thesis by (simp add: signals_ok_def)
qed

lemma new_world_ok: "signals_ok new_world"
  by (simp add: signal_defs set_ok_def new_world_def registered_def)

lemma signal_step_ok: "signals_ok w \<Longrightarrow> signal_step w a = Some w1 \<Longrightarrow> signals_ok w1"
proof (cases a)
  case (ClearSignals i rs)
  assume "signals_ok w" "signal_step w a = Some w1"
  then show ?thesis using clear_loop_ok [of w i _ _ "map_of rs"] by (auto simp: ClearSignals clear_signals_def split: option.splits)
next
  case (RaiseSignal n full)
  assume "signals_ok w" "signal_step w a = Some w1"
  then show ?thesis by (auto simp: RaiseSignal asio_signal_handler_def intro: fields_ok split: option.splits if_splits)
next
  case (ReadPipe s)
  assume ok: "signals_ok w" and st: "signal_step w a = Some w1"
  have "signals_ok (pipe_do_perform w)" unfolding pipe_do_perform_def by (rule fields_ok [OF pipe_read_ok [OF ok]]) simp_all
  then show ?thesis using st by (auto simp: ReadPipe split: if_splits)
next
  case CompleteWait
  assume "signals_ok w" "signal_step w a = Some w1"
  then show ?thesis by (auto simp: CompleteWait intro: fields_ok split: list.splits)
qed (auto intro: add_service_ok shutdown_ok fork_ok construct_set_ok destroy_ok add_signal_ok remove_signal_ok start_wait_ok cancel_waits_ok
    cancel_waits_by_key_ok split: if_splits option.splits)

interpretation signals: invariant_system signal_step new_world signals_ok
  by unfold_locales (rule new_world_ok, rule signal_step_ok)

section \<open>What the sets promise\<close>

text \<open>C26: In every state that a process with signal sets reaches, whatever adding, removing and clearing have failed in the system: a signal's count
  is the number of sets that are registered for it, the library's handler is installed exactly when there is one, with the
  flags that were asked for, each service's table names its sets that are registered, once, and a set has its signals in order.\<close>
theorem handler_while_registered:
  assumes "reachable signal_step new_world w"
  shows "registration_count w n = card (registered w n) \<and> (handlers w n \<noteq> None \<longleftrightarrow> registered w n \<noteq> {}) \<and>
    distinct (tables w s n) \<and> set (tables w s n) = {i \<in> registered w n. owner w i = Some s} \<and>
    sorted_wrt (<) (List.map signal_number (set_signals (sets w i)))"
  using signals.reachable_inv [OF assms] by (simp add: signal_defs set_ok_def)

text \<open>C16: No wait waits while its set has a signal that was not delivered, and a delivered signal is never lost: the delivery to a
  registered set of a service completes all of its waits with the signal, or, when there are none, counts it, and the
  next wait of the set then completes with a signal at once.\<close>
theorem delivered_signal_completes_or_counts:
  assumes "reachable signal_step new_world w" "owner w i = Some s" "s \<in> set (service_list w)" "i \<in> registered w n"
  shows "if set_queue (sets w i) = []
    then set_signals (sets (deliver_signal n w) i) = count_undelivered n (set_signals (sets w i)) \<and>
      (\<exists>m. sposted (start_wait_op i op (deliver_signal n w)) = sposted (deliver_signal n w) @ [op\<lparr>sop_signal := m\<rparr>] \<and> i \<in> registered w m)
    else list_all (\<lambda>r. undelivered r = 0) (set_signals (sets w i)) \<and> set_queue (sets (deliver_signal n w) i) = [] \<and>
      list_all (\<lambda>op. op\<lparr>sop_signal := n\<rparr> \<in> set (sposted (deliver_signal n w))) (set_queue (sets w i))"
proof -
  have ok: "signals_ok w" by (rule signals.reachable_inv [OF assms(1)])
  have t: "set_ok (sets w i)" using ok by (simp add: signal_defs)
  note d = deliver_signal_eq [OF ok, of n]
  have sets: "sets (deliver_signal n w) i = deliver_set n (sets w i)" unfolding d using assms(2-4) by auto
  show ?thesis
  proof (cases "set_queue (sets w i) = []")
    case True
    let ?regs = "count_undelivered n (set_signals (sets w i))"
    have regs: "set_signals (sets (deliver_signal n w) i) = ?regs" unfolding sets using True by (simp add: deliver_set_def)
    obtain r where r: "r \<in> set (set_signals (sets w i))" "signal_number r = n" using assms(4) by (auto simp: registered_def)
    then have "r\<lparr>undelivered := undelivered r + 1\<rparr> \<in> set ?regs" by (auto simp: count_undelivered_def image_iff)
    then have "take_undelivered ?regs \<noteq> None" unfolding take_undelivered_None by force
    then obtain m regs1 where u: "take_undelivered ?regs = Some (m, regs1)" by auto
    then have "m \<in> signal_number ` set ?regs" using take_undelivered_Some by blast
    then have "i \<in> registered w m" by (auto simp: registered_def count_undelivered_def split: if_splits)
    then show ?thesis using True regs u by (auto simp: start_wait_op_def Let_def)
  next
    case False
    have "i \<in> set (tables w s n)" using ok assms(2,4) by (simp add: signal_defs)
    then have "op\<lparr>sop_signal := n\<rparr> \<in> set (sposted (deliver_signal n w))" if "op \<in> set (set_queue (sets w i))" for op
      unfolding d waits_at_def using that assms(3) by auto
    then show ?thesis using False t sets by (simp add: set_ok_def list_all_iff)
  qed
qed

text \<open>A run: two sets of one service for the same signal, one of them waits; the signal is raised and the pipe is read.\<close>

definition wait_op :: "nat \<Rightarrow> signal_op" where
  "wait_op k = \<lparr>sop_name = k, sop_key = 0, sop_ec = 0, sop_signal = 0\<rparr>"

definition two_sets :: "signal_action list" where
  "two_sets = [AddService 0, ConstructSet 0 7, ConstructSet 0 8, AddSignal 7 2 dont_care None, AddSignal 8 2 dont_care None, AddSignal 8 15 dont_care None,
     StartWait 8 (wait_op 1)]"

definition two_waiting :: signal_world where
  "two_waiting = the (run signal_step new_world two_sets)"

lemmas signal_eval = add_service_def construct_set_def update_set_def add_signal_def install_def record_registration_def found_def start_wait_op_def
  max_signal_number_def dont_care_def wait_op_def new_world_def Let_def

lemma two_waiting_reached: "reachable signal_step new_world two_waiting"
  by (rule run_reachable [of _ _ two_sets]) (simp add: two_waiting_def two_sets_def signal_eval)

lemma two_waiting_facts: "owner two_waiting 7 = Some 0" "owner two_waiting 8 = Some 0" "service_list two_waiting = [0]"
  "set_queue (sets two_waiting 7) = []" "set_queue (sets two_waiting 8) = [wait_op 1]" "registered two_waiting 2 = {7, 8}" "handlers two_waiting 2 = Some 0"
  by (auto simp: two_waiting_def two_sets_def signal_eval registered_def split: if_splits)

theorem handler_while_registered_witness: "registration_count two_waiting 2 = 2 \<and> set (tables two_waiting 0 2) \<subseteq> {7, 8}"
  using handler_while_registered [OF two_waiting_reached, of 2 0] by (auto simp: two_waiting_facts)

theorem delivered_signal_completes_or_counts_witness:
  "set_queue (sets (deliver_signal 2 two_waiting) 8) = [] \<and> (wait_op 1)\<lparr>sop_signal := 2\<rparr> \<in> set (sposted (deliver_signal 2 two_waiting))"
  using delivered_signal_completes_or_counts [OF two_waiting_reached two_waiting_facts(2), of 2] by (simp add: two_waiting_facts)

text \<open>Two contexts, both told of a fork before and after it in the parent; then the first is destroyed and the signal is raised.\<close>

definition forked :: "signal_action list" where
  "forked = [AddService 0, AddService 1, ConstructSet 1 7, AddSignal 7 2 dont_care None, StartWait 7 (wait_op 1),
     Fork 0 ForkPrepare, Fork 1 ForkPrepare, Fork 0 ForkParent, Fork 1 ForkParent, ShutdownService 0, RaiseSignal 2 False]"

lemma concat_nothing: "concat (List.map (\<lambda>n. []) xs) = []"
  by (induction xs) simp_all

text \<open>After a fork only one service is registered with its reactor again: the mark that a fork was prepared is one for the process, and the first
  service that is told of the parent or the child resets it. The second service's reactor does not read the pipe any
  more, and when the first is destroyed nobody does: a raised signal stays in the pipe and the wait for it waits for ever.\<close>
theorem fork_leaves_second_service_deaf:
  "\<exists>w. run signal_step new_world forked = Some w \<and> service_list w = [1] \<and> set_queue (sets w 7) = [wait_op 1] \<and> signal_pipe w = [2] \<and>
     reading w = [] \<and> (\<forall>s. signal_step w (ReadPipe s) = None)"
  by (simp add: forked_def signal_eval shutdown_service_def remove_service_def asio_signal_handler_def concat_nothing)

end
