(* ===== verification/AsioParallelGroup.thy ===== *)
theory AsioParallelGroup
  imports Prelude
begin

text \<open>
  Parallel groups (\<open>experimental/impl/parallel_group.hpp\<close>): operations that are launched together, whose handlers run in any threads and
  share atomic counters: the order of completion, the requests for cancellation, the outstanding operations. A step is one atomic
  operation or one store. The group of a fixed number and the ranged group have the same code here. The condition under which
  an operation's outcome cancels the group is a parameter; the library's own are below. A signal is recorded when it is emitted; for an operation
  with an executor of its own the proxy then forwards it there.
\<close>

section \<open>Conditions\<close>

text \<open>A cancellation type is a number, \<open>none\<close> is 0. An outcome is the error code or exception that is the first argument of the handler, if there is one; 0 is success.\<close>

definition no_cancellation :: nat where "no_cancellation = 0"

definition wait_for_all :: "int option \<Rightarrow> nat" where
  "wait_for_all r = no_cancellation"

definition wait_for_one :: "nat \<Rightarrow> int option \<Rightarrow> nat" where
  "wait_for_one t r = t"

definition wait_for_one_success :: "nat \<Rightarrow> int option \<Rightarrow> nat" where
  "wait_for_one_success t r = (case r of None \<Rightarrow> t | Some e \<Rightarrow> if e \<noteq> 0 then no_cancellation else t)"

definition wait_for_one_error :: "nat \<Rightarrow> int option \<Rightarrow> nat" where
  "wait_for_one_error t r = (case r of None \<Rightarrow> no_cancellation | Some e \<Rightarrow> if e \<noteq> 0 then t else no_cancellation)"

section \<open>The group\<close>

text \<open>Where an operation is: not launched, running, and in its handler: with its number, with the number stored, with the result stored,
  about to ask for the cancellation of the group, sending signals from an index on, about to end, ended.\<close>

datatype 'r group_op = Unlaunched | InFlight | Numbered nat 'r | Ordered 'r | Emplaced nat | Asking nat | Emitting nat nat | Ending | Ended

datatype launcher = Launching nat | LaunchEmitting nat | Launched

datatype group_cancel = NoCancel | CancelEmitting nat nat

datatype agent = Launcher | Operation nat | Canceller

text \<open>\<open>numbering\<close>, \<open>outcomes\<close>, \<open>askers\<close> and \<open>emitter\<close> record what has happened: the operations in the order of their numbers, the outcomes, who asked
  for a cancellation, and who sends the signals.\<close>

record 'r group =
  group_ops :: "'r group_op list"
  launcher :: launcher
  group_cancel :: group_cancel
  completed :: nat
  cancel_type :: nat
  cancellations_requested :: nat
  outstanding :: nat
  completion_order :: "nat list"
  results :: "'r option list"
  signals :: "(nat \<times> nat) list"
  dispatched :: "(nat list \<times> 'r option list) list"
  numbering :: "nat list"
  outcomes :: "'r option list"
  askers :: "agent list"
  emitter :: "agent option"

definition new_group :: "nat \<Rightarrow> 'r group" where
  "new_group n = \<lparr>group_ops = replicate n Unlaunched, launcher = Launching 0, group_cancel = NoCancel, completed = 0, cancel_type = no_cancellation,
     cancellations_requested = n, outstanding = n, completion_order = replicate n 0, results = replicate n None, signals = [], dispatched = [],
     numbering = [], outcomes = replicate n None, askers = [], emitter = None\<rparr>"

definition set_op :: "nat \<Rightarrow> 'r group_op \<Rightarrow> 'r group \<Rightarrow> 'r group" where
  "set_op i p g = g\<lparr>group_ops := (group_ops g)[i := p]\<rparr>"

text \<open>The launch: each operation's initiating function, then the number of operations is subtracted from the requests, and
  signals are sent if there were some.\<close>

definition launch_step :: "'r group \<Rightarrow> 'r group option" where
  "launch_step g = (case launcher g of
     Launching l \<Rightarrow>
       if l < length (group_ops g) then Some (set_op l InFlight g\<lparr>launcher := Launching (Suc l)\<rparr>)
       else (let requested = cancellations_requested g - length (group_ops g); g1 = g\<lparr>cancellations_requested := requested\<rparr>
             in Some (if 0 < requested then g1\<lparr>launcher := LaunchEmitting 0, emitter := Some Launcher\<rparr> else g1\<lparr>launcher := Launched\<rparr>))
   | LaunchEmitting j \<Rightarrow>
       Some (if j < length (group_ops g) then g\<lparr>signals := signals g @ [(j, cancel_type g)], launcher := LaunchEmitting (Suc j)\<rparr>
             else g\<lparr>launcher := Launched\<rparr>)
   | Launched \<Rightarrow> None)"

text \<open>An operation completes: it takes its number.\<close>

definition complete_op :: "nat \<Rightarrow> 'r \<Rightarrow> 'r group \<Rightarrow> 'r group" where
  "complete_op i r g = set_op i (Numbered (completed g) r) g\<lparr>completed := completed g + 1, numbering := numbering g @ [i], outcomes := (outcomes g)[i := Some r]\<rparr>"

text \<open>The rest of its handler.\<close>

definition handler_step :: "('r \<Rightarrow> nat) \<Rightarrow> nat \<Rightarrow> 'r group \<Rightarrow> 'r group option" where
  "handler_step cond i g = (case group_ops g ! i of
     Unlaunched \<Rightarrow> None
   | InFlight \<Rightarrow> None
   | Numbered k r \<Rightarrow> Some (set_op i (Ordered r) g\<lparr>completion_order := (completion_order g)[k := i]\<rparr>)
   | Ordered r \<Rightarrow> Some (set_op i (if cond r \<noteq> no_cancellation then Emplaced (cond r) else Ending) g\<lparr>results := (results g)[i := Some r]\<rparr>)
   | Emplaced t \<Rightarrow> Some (set_op i (Asking t) g\<lparr>cancel_type := t\<rparr>)
   | Asking t \<Rightarrow> (let g1 = g\<lparr>cancellations_requested := cancellations_requested g + 1, askers := askers g @ [Operation i]\<rparr>
       in Some (if cancellations_requested g = 0 then set_op i (Emitting t 0) g1\<lparr>emitter := Some (Operation i)\<rparr> else set_op i Ending g1))
   | Emitting t j \<Rightarrow> Some (if j < length (group_ops g)
       then set_op i (Emitting t (Suc j)) (if j \<noteq> i then g\<lparr>signals := signals g @ [(j, t)]\<rparr> else g) else set_op i Ending g)
   | Ending \<Rightarrow> (let g1 = set_op i Ended g\<lparr>outstanding := outstanding g - 1\<rparr>
       in Some (if outstanding g - 1 = 0 then g1\<lparr>dispatched := dispatched g @ [(completion_order g, results g)]\<rparr> else g1))
   | Ended \<Rightarrow> None)"

text \<open>The cancellation of the whole group, by the slot of the user's handler; the slot is connected after the launch. The state is alive
  while an operation's handler is, and may be for a little longer.\<close>

definition cancel_group :: "nat \<Rightarrow> bool \<Rightarrow> 'r group \<Rightarrow> 'r group option" where
  "cancel_group t alive g = (if launcher g = Launched \<and> group_cancel g = NoCancel \<and> (alive \<or> list_all (\<lambda>p. p = Ended) (group_ops g)) then
     Some (if t \<noteq> no_cancellation \<and> alive then
       (let g1 = g\<lparr>cancellations_requested := cancellations_requested g + 1, askers := askers g @ [Canceller]\<rparr>
        in if cancellations_requested g = 0 then g1\<lparr>group_cancel := CancelEmitting t 0, emitter := Some Canceller\<rparr> else g1)
       else g)
     else None)"

definition cancel_step :: "'r group \<Rightarrow> 'r group option" where
  "cancel_step g = (case group_cancel g of
     NoCancel \<Rightarrow> None
   | CancelEmitting t j \<Rightarrow> Some (if j < length (group_ops g) then g\<lparr>signals := signals g @ [(j, t)], group_cancel := CancelEmitting t (Suc j)\<rparr>
       else g\<lparr>group_cancel := NoCancel\<rparr>))"

datatype 'r group_action = Launch | CompleteOp nat 'r | HandlerStep nat | CancelGroup nat bool | CancelStep

fun group_step :: "('r \<Rightarrow> nat) \<Rightarrow> 'r group \<Rightarrow> 'r group_action \<Rightarrow> 'r group option" where
  "group_step cond g Launch = launch_step g"
| "group_step cond g (CompleteOp i r) = (if i < length (group_ops g) \<and> group_ops g ! i = InFlight then Some (complete_op i r g) else None)"
| "group_step cond g (HandlerStep i) = (if i < length (group_ops g) then handler_step cond i g else None)"
| "group_step cond g (CancelGroup t alive) = cancel_group t alive g"
| "group_step cond g CancelStep = cancel_step g"

end
