(* ===== verification/AsioGroupOrder.thy ===== *)
theory AsioGroupOrder
  imports AsioParallelGroup
begin

text \<open>
  What a parallel group promises: the user's handler is called once, when all operations have ended, with the order in which they took
  their numbers and each one's outcome; and when an outcome asks for it, every other operation is sent one signal, by
  exactly one of the operation, the launch and the canceller. A group of no operations never completes.
\<close>

section \<open>The order and the results\<close>

definition numbered :: "'r group_op \<Rightarrow> bool" where
  "numbered p \<longleftrightarrow> p \<noteq> Unlaunched \<and> p \<noteq> InFlight"

definition launch_ok :: "'r group \<Rightarrow> bool" where
  "launch_ok g \<longleftrightarrow> (case launcher g of
     Launching l \<Rightarrow> l \<le> length (group_ops g) \<and> (\<forall>i < length (group_ops g). group_ops g ! i = Unlaunched \<longleftrightarrow> l \<le> i)
   | _ \<Rightarrow> (\<forall>i < length (group_ops g). group_ops g ! i \<noteq> Unlaunched))"

definition order_ok :: "'r group \<Rightarrow> bool" where
  "order_ok g \<longleftrightarrow> completed g = length (numbering g) \<and> distinct (numbering g) \<and>
     set (numbering g) = {i. i < length (group_ops g) \<and> numbered (group_ops g ! i)} \<and> length (completion_order g) = length (group_ops g) \<and>
     (\<forall>k < length (numbering g). completion_order g ! k = numbering g ! k \<or> (\<exists>r. group_ops g ! (numbering g ! k) = Numbered k r)) \<and>
     (\<forall>i < length (group_ops g). \<forall>k r. group_ops g ! i = Numbered k r \<longrightarrow> k < length (numbering g) \<and> numbering g ! k = i)"

definition outcome_ok :: "'r option \<Rightarrow> 'r option \<Rightarrow> 'r group_op \<Rightarrow> bool" where
  "outcome_ok res out p = (case p of Unlaunched \<Rightarrow> True | InFlight \<Rightarrow> True | Numbered k r \<Rightarrow> out = Some r | Ordered r \<Rightarrow> out = Some r
     | _ \<Rightarrow> res = out \<and> out \<noteq> None)"

definition results_ok :: "'r group \<Rightarrow> bool" where
  "results_ok g \<longleftrightarrow> length (results g) = length (group_ops g) \<and> length (outcomes g) = length (group_ops g) \<and>
     (\<forall>i < length (group_ops g). outcome_ok (results g ! i) (outcomes g ! i) (group_ops g ! i))"

definition dispatch_ok :: "'r group \<Rightarrow> bool" where
  "dispatch_ok g \<longleftrightarrow> outstanding g = length (filter (\<lambda>p. p \<noteq> Ended) (group_ops g)) \<and>
     dispatched g = (if group_ops g \<noteq> [] \<and> list_all (\<lambda>p. p = Ended) (group_ops g) then [(completion_order g, results g)] else [])"

lemma set_op_simps [simp]: "group_ops (set_op i p g) = (group_ops g)[i := p]" "launcher (set_op i p g) = launcher g" "completed (set_op i p g) = completed g"
  "completion_order (set_op i p g) = completion_order g" "results (set_op i p g) = results g" "outstanding (set_op i p g) = outstanding g"
  "dispatched (set_op i p g) = dispatched g" "numbering (set_op i p g) = numbering g" "outcomes (set_op i p g) = outcomes g"
  "signals (set_op i p g) = signals g" "askers (set_op i p g) = askers g" "emitter (set_op i p g) = emitter g" "group_cancel (set_op i p g) = group_cancel g"
  "cancel_type (set_op i p g) = cancel_type g" "cancellations_requested (set_op i p g) = cancellations_requested g"
  by (simp_all add: set_op_def)

lemma numbered_simps [simp]: "\<not> numbered Unlaunched" "\<not> numbered InFlight" "numbered (Numbered k r)" "numbered (Ordered r)" "numbered (Emplaced t)"
  "numbered (Asking t)" "numbered (Emitting t j)" "numbered Ending" "numbered Ended"
  by (simp_all add: numbered_def)

text \<open>A step that leaves an operation where it is for the order, or moves it on after its number.\<close>

lemma order_moves:
  assumes "order_ok g" "i < length (group_ops g)" "numbered (group_ops g ! i)" "numbered p" "\<And>k r. group_ops g ! i \<noteq> Numbered k r" "\<And>k r. p \<noteq> Numbered k r"
    "group_ops g1 = (group_ops g)[i := p]" "completed g1 = completed g" "numbering g1 = numbering g" "completion_order g1 = completion_order g"
  shows "order_ok g1"
proof -
  have "(group_ops g1 ! j = Numbered k r) = (group_ops g ! j = Numbered k r)" "numbered (group_ops g1 ! j) = numbered (group_ops g ! j)" for j k r
    unfolding assms(7) using assms(2-6) by (cases "j = i"; simp)+
  then show ?thesis using assms(1) unfolding order_ok_def assms(8-10) by (simp add: assms(7))
qed

lemma launch_moves:
  assumes "launch_ok g" "i < length (group_ops g)" "group_ops g ! i \<noteq> Unlaunched" "p \<noteq> Unlaunched" "group_ops g1 = (group_ops g)[i := p]" "launcher g1 = launcher g"
  shows "launch_ok g1"
  using assms unfolding launch_ok_def by (auto simp: nth_list_update split: launcher.splits)

lemma dispatch_moves:
  assumes "dispatch_ok g" "i < length (group_ops g)" "group_ops g ! i \<noteq> Ended" "p \<noteq> Ended" "group_ops g1 = (group_ops g)[i := p]"
    "outstanding g1 = outstanding g" "dispatched g1 = dispatched g"
  shows "dispatch_ok g1"
proof -
  have "length (filter (\<lambda>q. q \<noteq> Ended) (group_ops g1)) = length (filter (\<lambda>q. q \<noteq> Ended) (group_ops g))"
    using count_update [OF assms(2), of "\<lambda>q. q \<noteq> Ended" p] assms(3-5) by simp
  moreover have "\<not> list_all (\<lambda>q. q = Ended) (group_ops g)" "\<not> list_all (\<lambda>q. q = Ended) (group_ops g1)"
    using assms(2-5) by (auto simp: list_all_length)
  ultimately show ?thesis using assms(1,6,7) by (simp add: dispatch_ok_def)
qed

definition group_ok :: "nat \<Rightarrow> 'r group \<Rightarrow> bool" where
  "group_ok n g \<longleftrightarrow> length (group_ops g) = n \<and> launch_ok g \<and> order_ok g \<and> results_ok g \<and> dispatch_ok g"

lemma new_group_ok: "group_ok n (new_group n)"
  by (auto simp: group_ok_def new_group_def launch_ok_def order_ok_def results_ok_def outcome_ok_def dispatch_ok_def list_all_length)

text \<open>Steps that touch none of this.\<close>

lemma group_same:
  assumes "group_ok n g" "group_ops g1 = group_ops g" "launcher g1 = launcher g \<or> (\<forall>l. launcher g1 \<noteq> Launching l) \<and> (\<forall>i < n. group_ops g ! i \<noteq> Unlaunched)"
    "completed g1 = completed g" "numbering g1 = numbering g" "completion_order g1 = completion_order g" "results g1 = results g" "outcomes g1 = outcomes g"
    "outstanding g1 = outstanding g" "dispatched g1 = dispatched g"
  shows "group_ok n g1"
  using assms by (auto simp: group_ok_def launch_ok_def order_ok_def results_ok_def dispatch_ok_def split: launcher.splits)

lemma launch_step_ok: "group_ok n g \<Longrightarrow> launch_step g = Some g1 \<Longrightarrow> group_ok n g1"
proof -
  assume ok: "group_ok n g" and st: "launch_step g = Some g1"
  have n: "length (group_ops g) = n" and la: "launch_ok g" using ok by (simp_all add: group_ok_def)
  show ?thesis
  proof (cases "launcher g")
    case (Launching l)
    show ?thesis
    proof (cases "l < n")
      case True
      have g1: "g1 = set_op l InFlight g\<lparr>launcher := Launching (Suc l)\<rparr>" using st True n Launching by (simp add: launch_step_def)
      have u: "group_ops g ! l = Unlaunched" using la True n Launching by (simp add: launch_ok_def)
      have "launch_ok g1" using la True n Launching by (auto simp: launch_ok_def g1 nth_list_update)
      moreover have "(group_ops g1 ! j = Numbered k r) = (group_ops g ! j = Numbered k r)" "numbered (group_ops g1 ! j) = numbered (group_ops g ! j)" for j k r
        using True u n by (cases "j = l"; simp add: g1)+
      then have "order_ok g1" using ok unfolding group_ok_def order_ok_def by (simp add: g1)
      moreover have "results_ok g1" using ok True unfolding group_ok_def results_ok_def g1 by (auto simp: nth_list_update outcome_ok_def)
      moreover have "dispatch_ok g1" by (rule dispatch_moves [of g l InFlight]) (use ok True u n in \<open>auto simp: g1 group_ok_def\<close>)
      ultimately show ?thesis using n by (simp add: group_ok_def g1)
    next
      case False
      then have "\<forall>i < n. group_ops g ! i \<noteq> Unlaunched" using la n Launching by (simp add: launch_ok_def)
      then show ?thesis using st False n Launching by (intro group_same [OF ok]) (auto simp: launch_step_def Let_def split: if_splits)
    qed
  next
    case (LaunchEmitting j)
    then have "\<forall>i < n. group_ops g ! i \<noteq> Unlaunched" using la n by (simp add: launch_ok_def)
    then show ?thesis using st LaunchEmitting by (intro group_same [OF ok]) (auto simp: launch_step_def split: if_splits)
  qed (use st in \<open>simp add: launch_step_def\<close>)
qed

lemma complete_op_ok:
  assumes ok: "group_ok n g" and i: "i < n" "group_ops g ! i = InFlight"
  shows "group_ok n (complete_op i r g)"
proof -
  let ?g = "complete_op i r g"
  have n: "length (group_ops g) = n" using ok by (simp add: group_ok_def)
  have f: "group_ops ?g = (group_ops g)[i := Numbered (completed g) r]" "launcher ?g = launcher g" "numbering ?g = numbering g @ [i]"
    "completed ?g = completed g + 1" "completion_order ?g = completion_order g" "outstanding ?g = outstanding g" "dispatched ?g = dispatched g"
    "results ?g = results g" "outcomes ?g = (outcomes g)[i := Some r]"
    by (simp_all add: complete_op_def)
  have o: "completed g = length (numbering g)" "distinct (numbering g)" "set (numbering g) = {j. j < n \<and> numbered (group_ops g ! j)}"
    "length (completion_order g) = n" "\<And>k. k < length (numbering g) \<Longrightarrow> completion_order g ! k = numbering g ! k \<or> (\<exists>r. group_ops g ! (numbering g ! k) = Numbered k r)"
    "\<And>j k r. j < n \<Longrightarrow> group_ops g ! j = Numbered k r \<Longrightarrow> k < length (numbering g) \<and> numbering g ! k = j"
    using ok n by (simp_all add: group_ok_def order_ok_def)
  have fresh: "i \<notin> set (numbering g)" using o(3) i by simp
  have "order_ok ?g" unfolding order_ok_def f
  proof (intro conjI allI impI)
    show "set (numbering g @ [i]) = {j. j < length ((group_ops g)[i := Numbered (completed g) r]) \<and> numbered ((group_ops g)[i := Numbered (completed g) r] ! j)}"
      using o(3) i n by (auto simp: nth_list_update)
    show "completion_order g ! k = (numbering g @ [i]) ! k \<or> (\<exists>ra. (group_ops g)[i := Numbered (completed g) r] ! ((numbering g @ [i]) ! k) = Numbered k ra)"
      if "k < length (numbering g @ [i])" for k
    proof (cases "k = length (numbering g)")
      case True
      then show ?thesis using i n o(1) by simp
    next
      case False
      then have k: "k < length (numbering g)" using that by simp
      then have "numbering g ! k \<noteq> i" using fresh nth_mem by metis
      then show ?thesis using o(5) [OF k] k by (simp add: nth_append)
    qed
    fix j k ra assume j: "j < length ((group_ops g)[i := Numbered (completed g) r])" "(group_ops g)[i := Numbered (completed g) r] ! j = Numbered k ra"
    show "k < length (numbering g @ [i])" "(numbering g @ [i]) ! k = j"
      using j o(1) o(6) [of j k ra] n i by (cases "j = i"; simp add: nth_append)+
  qed (use o fresh n in simp_all)
  moreover have "launch_ok ?g" by (rule launch_moves [of g i "Numbered (completed g) r"]) (use ok i n f in \<open>simp_all add: group_ok_def\<close>)
  moreover have "dispatch_ok ?g" by (rule dispatch_moves [of g i "Numbered (completed g) r"]) (use ok i n f in \<open>simp_all add: group_ok_def\<close>)
  moreover have "results_ok ?g" using ok i n unfolding group_ok_def results_ok_def f by (auto simp: nth_list_update outcome_ok_def)
  ultimately show ?thesis using n f by (simp add: group_ok_def)
qed

text \<open>A step of the handler that only moves it on, after its number was stored.\<close>

lemma handler_moves:
  assumes ok: "group_ok n g" and i: "i < n" "numbered (group_ops g ! i)" "\<And>k r. group_ops g ! i \<noteq> Numbered k r" "group_ops g ! i \<noteq> Ended"
    and p: "numbered p" "\<And>k r. p \<noteq> Numbered k r" "p \<noteq> Ended" "outcome_ok (results g1 ! i) (outcomes g ! i) p"
    and f: "group_ops g1 = (group_ops g)[i := p]" "launcher g1 = launcher g" "completed g1 = completed g" "numbering g1 = numbering g" "completion_order g1 = completion_order g"
      "outcomes g1 = outcomes g" "outstanding g1 = outstanding g" "dispatched g1 = dispatched g" "results g1 = results g \<or> (\<exists>r. results g1 = (results g)[i := r])"
  shows "group_ok n g1"
proof -
  have n: "length (group_ops g) = n" using ok by (simp add: group_ok_def)
  have "launch_ok g1" by (rule launch_moves [of g i p]) (use ok i p f n in \<open>auto simp: group_ok_def\<close>)
  moreover have "order_ok g1" by (rule order_moves [of g i p]) (use ok i p f n in \<open>auto simp: group_ok_def\<close>)
  moreover have "dispatch_ok g1" by (rule dispatch_moves [of g i p]) (use ok i p f n in \<open>auto simp: group_ok_def\<close>)
  moreover have "results_ok g1"
  proof -
    have l: "length (results g1) = n" "length (outcomes g1) = n" using ok f(6,9) n by (auto simp: group_ok_def results_ok_def)
    have "outcome_ok (results g1 ! j) (outcomes g1 ! j) (group_ops g1 ! j)" if "j < n" for j
    proof (cases "j = i")
      case True
      then show ?thesis using p(4) f(1,6) i(1) n by simp
    next
      case False
      then have "results g1 ! j = results g ! j" using f(9) by auto
      then show ?thesis using ok that False f(1,6) n by (simp add: group_ok_def results_ok_def)
    qed
    then show ?thesis using l n f(1) by (simp add: results_ok_def)
  qed
  ultimately show ?thesis using n f(1) by (simp add: group_ok_def)
qed

lemma store_number_ok:
  assumes ok: "group_ok n g" and i: "i < n" "group_ops g ! i = Numbered k r"
  shows "group_ok n (set_op i (Ordered r) g\<lparr>completion_order := (completion_order g)[k := i]\<rparr>)"
proof -
  let ?g = "set_op i (Ordered r) g\<lparr>completion_order := (completion_order g)[k := i]\<rparr>"
  have n: "length (group_ops g) = n" using ok by (simp add: group_ok_def)
  have o: "completed g = length (numbering g)" "distinct (numbering g)" "set (numbering g) = {j. j < n \<and> numbered (group_ops g ! j)}"
    "length (completion_order g) = n" "\<And>m. m < length (numbering g) \<Longrightarrow> completion_order g ! m = numbering g ! m \<or> (\<exists>r. group_ops g ! (numbering g ! m) = Numbered m r)"
    "\<And>j m r. j < n \<Longrightarrow> group_ops g ! j = Numbered m r \<Longrightarrow> m < length (numbering g) \<and> numbering g ! m = j"
    using ok n by (simp_all add: group_ok_def order_ok_def)
  have k: "k < length (numbering g)" "numbering g ! k = i" using o(6) [OF i] by simp_all
  have len: "length (numbering g) \<le> n"
  proof -
    have "length (numbering g) = card (set (numbering g))" using o(2) by (simp add: distinct_card)
    also have "\<dots> \<le> card {..<n}" unfolding o(3) by (rule card_mono) auto
    finally show ?thesis by simp
  qed
  have "order_ok ?g" unfolding order_ok_def
  proof (intro conjI allI impI)
    have "numbered (group_ops ?g ! j) = numbered (group_ops g ! j)" for j using i n by (cases "j = i") simp_all
    then show "set (numbering ?g) = {j. j < length (group_ops ?g) \<and> numbered (group_ops ?g ! j)}" using o(3) n by simp
    show "completion_order ?g ! m = numbering ?g ! m \<or> (\<exists>ra. group_ops ?g ! (numbering ?g ! m) = Numbered m ra)" if "m < length (numbering ?g)" for m
    proof (cases "m = k")
      case True
      then show ?thesis using k len o(4) by simp
    next
      case False
      have m: "m < length (numbering g)" using that by simp
      then have "numbering g ! m \<noteq> i" using k o(2) False nth_eq_iff_index_eq by metis
      then show ?thesis using o(5) [OF m] False by simp
    qed
    fix j m ra assume "j < length (group_ops ?g)" "group_ops ?g ! j = Numbered m ra"
    then show "m < length (numbering ?g)" "numbering ?g ! m = j" using o(6) [of j m ra] n i by (cases "j = i"; simp)+
  qed (use o n in simp_all)
  moreover have "launch_ok ?g" by (rule launch_moves [of g i "Ordered r"]) (use ok i n in \<open>simp_all add: group_ok_def\<close>)
  moreover have "dispatch_ok ?g" by (rule dispatch_moves [of g i "Ordered r"]) (use ok i n in \<open>simp_all add: group_ok_def\<close>)
  moreover have "results_ok ?g" using ok i n unfolding group_ok_def results_ok_def by (auto simp: nth_list_update outcome_ok_def split: group_op.splits)
  ultimately show ?thesis using n by (simp add: group_ok_def)
qed

lemma end_op_ok:
  assumes ok: "group_ok n g" and i: "i < n" "group_ops g ! i = Ending"
    and g1: "group_ops g1 = (group_ops g)[i := Ended]" "launcher g1 = launcher g" "completed g1 = completed g" "numbering g1 = numbering g"
      "completion_order g1 = completion_order g" "outcomes g1 = outcomes g" "results g1 = results g" "outstanding g1 = outstanding g - 1"
      "dispatched g1 = (if outstanding g - 1 = 0 then dispatched g @ [(completion_order g, results g)] else dispatched g)"
  shows "group_ok n g1"
proof -
  have n: "length (group_ops g) = n" using ok by (simp add: group_ok_def)
  have "launch_ok g1" by (rule launch_moves [of g i Ended]) (use ok i g1 n in \<open>simp_all add: group_ok_def\<close>)
  moreover have "order_ok g1" by (rule order_moves [of g i Ended]) (use ok i g1 n in \<open>simp_all add: group_ok_def\<close>)
  moreover have "results_ok g1" using ok i g1 n unfolding group_ok_def results_ok_def by (auto simp: nth_list_update outcome_ok_def split: group_op.splits)
  moreover have "dispatch_ok g1"
  proof -
    have d: "outstanding g = length (filter (\<lambda>p. p \<noteq> Ended) (group_ops g))" "dispatched g = []"
      using ok i n by (auto simp: group_ok_def dispatch_ok_def list_all_length)
    have c: "length (filter (\<lambda>p. p \<noteq> Ended) (group_ops g1)) = outstanding g - 1"
      using count_update [of i "group_ops g" "\<lambda>p. p \<noteq> Ended" Ended] i n g1(1) d(1) by simp
    have "group_ops g1 \<noteq> []" using i n g1(1) by auto
    moreover have "list_all (\<lambda>p. p = Ended) (group_ops g1) \<longleftrightarrow> outstanding g - 1 = 0"
      unfolding c [symmetric] by (auto simp: list_all_iff filter_empty_conv)
    ultimately show ?thesis using c d(2) g1 by (simp add: dispatch_ok_def)
  qed
  ultimately show ?thesis using n g1(1) by (simp add: group_ok_def)
qed

lemma handler_step_ok:
  assumes ok: "group_ok n g" and i: "i < n" and st: "handler_step cond i g = Some g1"
  shows "group_ok n g1"
proof -
  have n: "length (group_ops g) = n" using ok by (simp add: group_ok_def)
  have out: "outcome_ok (results g ! i) (outcomes g ! i) (group_ops g ! i)" "length (results g) = n" using ok i n by (simp_all add: group_ok_def results_ok_def)
  show ?thesis
  proof (cases "group_ops g ! i")
    case (Numbered k r)
    then show ?thesis using st store_number_ok [OF ok i Numbered] by (simp add: handler_step_def)
  next
    case (Ordered r)
    then show ?thesis using st i out by (intro handler_moves [OF ok i, of "if cond r \<noteq> no_cancellation then Emplaced (cond r) else Ending"])
      (auto simp: handler_step_def outcome_ok_def)
  next
    case (Emplaced t)
    then show ?thesis using st i out by (intro handler_moves [OF ok i, of "Asking t"]) (auto simp: handler_step_def outcome_ok_def)
  next
    case (Asking t)
    then show ?thesis using st i out
      by (intro handler_moves [OF ok i, of "if cancellations_requested g = 0 then Emitting t 0 else Ending"]) (auto simp: handler_step_def outcome_ok_def Let_def)
  next
    case (Emitting t j)
    then show ?thesis using st i out n
      by (intro handler_moves [OF ok i, of "if j < n then Emitting t (Suc j) else Ending"]) (auto simp: handler_step_def outcome_ok_def)
  next
    case Ending
    then show ?thesis using st by (intro end_op_ok [OF ok i]) (auto simp: handler_step_def Let_def)
  qed (use st in \<open>simp_all add: handler_step_def\<close>)
qed

lemma group_step_ok: "group_ok n g \<Longrightarrow> group_step cond g a = Some g1 \<Longrightarrow> group_ok n g1"
proof (cases a)
  case (CancelGroup t alive)
  assume ok: "group_ok n g" and st: "group_step cond g a = Some g1"
  show ?thesis by (rule group_same [OF ok]) (use st CancelGroup in \<open>auto simp: cancel_group_def Let_def split: if_splits\<close>)
next
  case CancelStep
  assume ok: "group_ok n g" and st: "group_step cond g a = Some g1"
  show ?thesis by (rule group_same [OF ok]) (use st CancelStep in \<open>auto simp: cancel_step_def split: group_cancel.splits if_splits\<close>)
next
  case Launch
  assume "group_ok n g" "group_step cond g a = Some g1"
  then show ?thesis using launch_step_ok Launch by simp
next
  case (CompleteOp i r)
  assume ok: "group_ok n g" and st: "group_step cond g a = Some g1"
  then have "i < n" "group_ops g ! i = InFlight" "g1 = complete_op i r g" using CompleteOp by (auto simp: group_ok_def split: if_splits)
  then show ?thesis using complete_op_ok [OF ok] by simp
next
  case (HandlerStep i)
  assume ok: "group_ok n g" and st: "group_step cond g a = Some g1"
  then have "i < n" "handler_step cond i g = Some g1" using HandlerStep by (auto simp: group_ok_def split: if_splits)
  then show ?thesis by (rule handler_step_ok [OF ok])
qed

interpretation group: invariant_system "group_step cond" "new_group n" "group_ok n" for cond n
  by unfold_locales (rule new_group_ok, rule group_step_ok)

end
