(* ===== verification/AsioGroupCancel.thy ===== *)
theory AsioGroupCancel
  imports AsioGroupOrder
begin

text \<open>
  The cancellation of a parallel group: the counter of requests starts at the number of operations, so that nobody sends signals before
  all are launched, and exactly one agent then sends them.
\<close>

section \<open>The cancellation\<close>

definition sent_to :: "'r group \<Rightarrow> nat list" where
  "sent_to g = List.map fst (signals g)"

definition targets :: "agent \<Rightarrow> nat \<Rightarrow> nat list" where
  "targets a m = filter (\<lambda>j. a \<noteq> Operation j) [0..<m]"

text \<open>The progress of the agent that sends the signals.\<close>

definition sending :: "agent \<Rightarrow> 'r group \<Rightarrow> nat option" where
  "sending a g = (case a of
     Launcher \<Rightarrow> (case launcher g of LaunchEmitting j \<Rightarrow> Some j | _ \<Rightarrow> None)
   | Operation i \<Rightarrow> (if i < length (group_ops g) then (case group_ops g ! i of Emitting t j \<Rightarrow> Some j | _ \<Rightarrow> None) else None)
   | Canceller \<Rightarrow> (case group_cancel g of CancelEmitting t j \<Rightarrow> Some j | NoCancel \<Rightarrow> None))"

definition emission_ok :: "'r group \<Rightarrow> bool" where
  "emission_ok g \<longleftrightarrow> (\<forall>a. emitter g \<noteq> Some a \<longrightarrow> sending a g = None) \<and>
     (case emitter g of None \<Rightarrow> signals g = []
      | Some a \<Rightarrow> sent_to g = targets a (case sending a g of Some j \<Rightarrow> j | None \<Rightarrow> length (group_ops g)) \<and>
          (case sending a g of Some j \<Rightarrow> j \<le> length (group_ops g) | None \<Rightarrow> True))"

definition is_launching :: "'r group \<Rightarrow> bool" where
  "is_launching g = (case launcher g of Launching l \<Rightarrow> True | _ \<Rightarrow> False)"

definition requests_ok :: "'r group \<Rightarrow> bool" where
  "requests_ok g \<longleftrightarrow> cancellations_requested g = (if is_launching g then length (group_ops g) else 0) + length (askers g) \<and>
     (emitter g = None \<longleftrightarrow> is_launching g \<or> askers g = []) \<and> (launcher g \<noteq> Launched \<longrightarrow> Canceller \<notin> set (askers g) \<and> group_cancel g = NoCancel) \<and> Launcher \<notin> set (askers g)"

definition type_of_op :: "'r group_op \<Rightarrow> nat option" where
  "type_of_op p = (case p of Emplaced t \<Rightarrow> Some t | Asking t \<Rightarrow> Some t | Emitting t j \<Rightarrow> Some t | _ \<Rightarrow> None)"

definition types_ok :: "'r group \<Rightarrow> bool" where
  "types_ok g \<longleftrightarrow> (\<forall>i < length (group_ops g). type_of_op (group_ops g ! i) \<noteq> Some no_cancellation) \<and>
     ((\<exists>i. Operation i \<in> set (askers g)) \<or> (\<exists>i < length (group_ops g). \<exists>t. group_ops g ! i = Asking t) \<longrightarrow> cancel_type g \<noteq> no_cancellation) \<and>
     (\<forall>t j. group_cancel g = CancelEmitting t j \<longrightarrow> t \<noteq> no_cancellation) \<and> (\<forall>j. launcher g = LaunchEmitting j \<longrightarrow> cancel_type g \<noteq> no_cancellation) \<and>
     list_all (\<lambda>(j, t). t \<noteq> no_cancellation) (signals g)"

text \<open>An operation past its question has asked, if its outcome asks.\<close>

definition asked_ok :: "('r \<Rightarrow> nat) \<Rightarrow> 'r group \<Rightarrow> bool" where
  "asked_ok cond g \<longleftrightarrow> (\<forall>i < length (group_ops g). \<forall>r. outcomes g ! i = Some r \<longrightarrow> cond r \<noteq> no_cancellation \<longrightarrow>
     (case group_ops g ! i of Ending \<Rightarrow> Operation i \<in> set (askers g) | Ended \<Rightarrow> Operation i \<in> set (askers g) | Emitting t j \<Rightarrow> Operation i \<in> set (askers g) | _ \<Rightarrow> True))"

section \<open>Sending\<close>

lemma targets_Suc: "targets a (Suc j) = targets a j @ (if a \<noteq> Operation j then [j] else [])"
  by (simp add: targets_def)

lemma targets_0 [simp]: "targets a 0 = []"
  by (simp add: targets_def)

lemma emission_frame:
  "emission_ok g \<Longrightarrow> length (group_ops g1) = length (group_ops g) \<Longrightarrow> (\<And>a. sending a g1 = sending a g) \<Longrightarrow> signals g1 = signals g \<Longrightarrow>
     emitter g1 = emitter g \<Longrightarrow> emission_ok g1"
  unfolding emission_ok_def sent_to_def by (auto split: option.splits)

lemma emission_progress:
  assumes "emission_ok g" "sending a g = Some j" "j < length (group_ops g)" "length (group_ops g1) = length (group_ops g)"
    "\<And>b. sending b g1 = (if b = a then Some (Suc j) else sending b g)" "signals g1 = signals g @ (if a \<noteq> Operation j then [(j, t)] else [])" "emitter g1 = emitter g"
  shows "emission_ok g1"
proof -
  have e: "emitter g = Some a" using assms(1,2) by (auto simp: emission_ok_def)
  then show ?thesis using assms unfolding emission_ok_def sent_to_def by (auto simp: targets_Suc)
qed

lemma emission_end:
  assumes "emission_ok g" "sending a g = Some j" "\<not> j < length (group_ops g)" "length (group_ops g1) = length (group_ops g)"
    "\<And>b. sending b g1 = (if b = a then None else sending b g)" "signals g1 = signals g" "emitter g1 = emitter g"
  shows "emission_ok g1"
proof -
  have e: "emitter g = Some a" using assms(1,2) by (auto simp: emission_ok_def)
  then show ?thesis using assms unfolding emission_ok_def sent_to_def by (auto simp: le_antisym)
qed

lemma emission_start:
  assumes "emission_ok g" "emitter g = None" "\<And>b. sending b g1 = (if b = a then Some 0 else sending b g)" "signals g1 = signals g" "emitter g1 = Some a"
  shows "emission_ok g1"
  using assms by (auto simp: emission_ok_def sent_to_def)

text \<open>Where the operations send.\<close>

lemma sending_move:
  assumes "i < length (group_ops g)" "group_ops g1 = (group_ops g)[i := p]" "launcher g1 = launcher g" "group_cancel g1 = group_cancel g"
  shows "sending b g1 = (if b = Operation i then (case p of Emitting t j \<Rightarrow> Some j | _ \<Rightarrow> None) else sending b g)"
  using assms by (auto simp: sending_def split: agent.splits)

lemma sending_at: "i < length (group_ops g) \<Longrightarrow> sending (Operation i) g = (case group_ops g ! i of Emitting t j \<Rightarrow> Some j | _ \<Rightarrow> None)"
  by (simp add: sending_def)

lemma emission_moves:
  assumes "emission_ok g" "i < length (group_ops g)" "sending (Operation i) g = None" "\<And>t j. p \<noteq> Emitting t j"
    "group_ops g1 = (group_ops g)[i := p]" "launcher g1 = launcher g" "group_cancel g1 = group_cancel g" "signals g1 = signals g" "emitter g1 = emitter g"
  shows "emission_ok g1"
proof (rule emission_frame [OF assms(1)])
  show "sending a g1 = sending a g" for a
    unfolding sending_move [OF assms(2,5-7)] using assms(3,4) by (cases p) auto
qed (use assms in simp_all)

section \<open>The counters and the types\<close>

lemma requests_frame:
  "requests_ok g \<Longrightarrow> length (group_ops g1) = length (group_ops g) \<Longrightarrow> is_launching g1 = is_launching g \<Longrightarrow> (launcher g1 = Launched \<longleftrightarrow> launcher g = Launched) \<Longrightarrow>
     askers g1 = askers g \<Longrightarrow> emitter g1 = emitter g \<Longrightarrow> (group_cancel g1 = group_cancel g \<or> group_cancel g1 = NoCancel) \<Longrightarrow>
     cancellations_requested g1 = cancellations_requested g \<Longrightarrow> requests_ok g1"
  by (auto simp: requests_ok_def)

lemma types_moves:
  assumes "types_ok g" "i < length (group_ops g)" "type_of_op p \<noteq> Some no_cancellation" "\<And>t. p = Asking t \<Longrightarrow> cancel_type g1 \<noteq> no_cancellation"
    "group_ops g1 = (group_ops g)[i := p]" "launcher g1 = launcher g \<or> (\<forall>j. launcher g1 \<noteq> LaunchEmitting j)" "group_cancel g1 = group_cancel g"
    "cancel_type g1 = cancel_type g \<or> cancel_type g1 \<noteq> no_cancellation" "askers g1 = askers g \<or> askers g1 = askers g @ [Operation i] \<and> (\<exists>t. group_ops g ! i = Asking t)"
    "signals g1 = signals g \<or> (\<exists>j t. signals g1 = signals g @ [(j, t)] \<and> t \<noteq> no_cancellation)"
  shows "types_ok g1"
proof -
  have old: "type_of_op (group_ops g ! j) \<noteq> Some no_cancellation" if "j < length (group_ops g)" for j using assms(1) that by (simp add: types_ok_def)
  have "type_of_op (group_ops g1 ! j) \<noteq> Some no_cancellation" if "j < length (group_ops g1)" for j
    using assms(2,3,5) old [of j] that by (cases "j = i") auto
  moreover have "cancel_type g1 \<noteq> no_cancellation"
    if a: "(\<exists>j. Operation j \<in> set (askers g1)) \<or> (\<exists>j < length (group_ops g1). \<exists>t. group_ops g1 ! j = Asking t)"
  proof (cases "\<exists>t. p = Asking t")
    case False
    have "(\<exists>j. Operation j \<in> set (askers g)) \<or> (\<exists>j < length (group_ops g). \<exists>t. group_ops g ! j = Asking t)"
      using a assms(2,5,9) False by (auto simp: nth_list_update split: if_splits)
    then have "cancel_type g \<noteq> no_cancellation" using assms(1) unfolding types_ok_def by blast
    then show ?thesis using assms(8) by auto
  qed (use assms(4) in blast)
  moreover have "list_all (\<lambda>(j, t). t \<noteq> no_cancellation) (signals g1)" using assms(1,10) by (auto simp: types_ok_def)
  moreover have "cancel_type g1 \<noteq> no_cancellation" if "launcher g1 = LaunchEmitting j" for j
  proof -
    have "launcher g = LaunchEmitting j" using assms(6) that by auto
    then have "cancel_type g \<noteq> no_cancellation" using assms(1) unfolding types_ok_def by blast
    then show ?thesis using assms(8) by auto
  qed
  ultimately show ?thesis using assms(1,7) unfolding types_ok_def by (metis (no_types, lifting))
qed

lemma asked_moves:
  assumes "asked_ok cond g" "i < length (group_ops g)" "length (outcomes g) = length (group_ops g)" "group_ops g1 = (group_ops g)[i := p]"
    "outcomes g1 = outcomes g \<or> (\<exists>r. outcomes g1 = (outcomes g)[i := r])" "set (askers g) \<subseteq> set (askers g1)"
    "\<And>r. outcomes g1 ! i = Some r \<Longrightarrow> cond r \<noteq> no_cancellation \<Longrightarrow> p = Ending \<or> p = Ended \<or> (\<exists>t j. p = Emitting t j) \<Longrightarrow> Operation i \<in> set (askers g1)"
  shows "asked_ok cond g1"
  unfolding asked_ok_def
proof (intro allI impI)
  fix j r assume j: "j < length (group_ops g1)" "outcomes g1 ! j = Some r" "cond r \<noteq> no_cancellation"
  show "case group_ops g1 ! j of Ending \<Rightarrow> Operation j \<in> set (askers g1) | Ended \<Rightarrow> Operation j \<in> set (askers g1)
    | Emitting t k \<Rightarrow> Operation j \<in> set (askers g1) | _ \<Rightarrow> True"
  proof (cases "j = i")
    case True
    then show ?thesis using assms(2,4,7) j by (auto split: group_op.splits)
  next
    case False
    have "outcomes g ! j = Some r" using assms(5) j(2) False by auto
    then show ?thesis using assms(1,4,6) j False unfolding asked_ok_def by (fastforce split: group_op.splits)
  qed
qed

section \<open>The steps\<close>

definition cancel_ok :: "('r \<Rightarrow> nat) \<Rightarrow> 'r group \<Rightarrow> bool" where
  "cancel_ok cond g \<longleftrightarrow> emission_ok g \<and> requests_ok g \<and> types_ok g \<and> asked_ok cond g"

lemma new_cancel_ok: "cancel_ok cond (new_group n)"
  by (auto simp: cancel_ok_def new_group_def emission_ok_def sent_to_def sending_def requests_ok_def is_launching_def types_ok_def type_of_op_def asked_ok_def
    split: agent.splits)

lemma is_launching_simps [simp]: "is_launching g \<longleftrightarrow> (\<exists>l. launcher g = Launching l)"
  by (auto simp: is_launching_def split: launcher.splits)

text \<open>An operation moves without asking, sending, or storing a type.\<close>

lemma cancel_moves:
  assumes ok: "cancel_ok cond g" and i: "i < length (group_ops g)" "length (outcomes g) = length (group_ops g)" "sending (Operation i) g = None"
    and p: "type_of_op p = None \<or> type_of_op p \<noteq> Some no_cancellation \<and> (\<exists>t. p = Emplaced t)"
      "\<And>r. outcomes g1 ! i = Some r \<Longrightarrow> cond r \<noteq> no_cancellation \<Longrightarrow> p = Ending \<or> p = Ended \<Longrightarrow> Operation i \<in> set (askers g)"
    and f: "group_ops g1 = (group_ops g)[i := p]" "launcher g1 = launcher g \<or> (\<exists>l m. launcher g1 = Launching l \<and> launcher g = Launching m)"
      "group_cancel g1 = group_cancel g" "signals g1 = signals g"
      "emitter g1 = emitter g" "askers g1 = askers g" "cancellations_requested g1 = cancellations_requested g" "cancel_type g1 = cancel_type g"
      "outcomes g1 = outcomes g \<or> (\<exists>r. outcomes g1 = (outcomes g)[i := r])"
  shows "cancel_ok cond g1"
proof -
  have p0: "\<And>t j. p \<noteq> Emitting t j" "\<And>t. p \<noteq> Asking t" "type_of_op p \<noteq> Some no_cancellation" using p(1) by (auto simp: type_of_op_def)
  have l: "is_launching g1 = is_launching g" "launcher g1 = Launched \<longleftrightarrow> launcher g = Launched"
    using f(2) by (metis is_launching_simps, metis launcher.distinct(3))
  have "sending b g1 = sending b g" for b
    using i(1,3) p0(1) f(1-3) by (cases b; cases p) (auto simp: sending_def nth_list_update split: launcher.splits)
  then have "emission_ok g1" using ok f(1,4,5) by (intro emission_frame [of g g1]) (simp_all add: cancel_ok_def)
  moreover have "requests_ok g1" by (rule requests_frame [of g]) (use ok f l in \<open>simp_all add: cancel_ok_def del: is_launching_simps\<close>)
  moreover have "types_ok g1" by (rule types_moves [of g i p]) (use ok i p0 f in \<open>auto simp: cancel_ok_def\<close>)
  moreover have "asked_ok cond g1" by (rule asked_moves [of cond g i g1 p]) (use ok i p(2) p0 f in \<open>auto simp: cancel_ok_def\<close>)
  ultimately show ?thesis by (simp add: cancel_ok_def)
qed

lemma store_type_ok:
  assumes ok: "cancel_ok cond g" and i: "i < length (group_ops g)" "length (outcomes g) = length (group_ops g)" "group_ops g ! i = Emplaced t"
  shows "cancel_ok cond (set_op i (Asking t) g\<lparr>cancel_type := t\<rparr>)"
proof -
  let ?g = "set_op i (Asking t) g\<lparr>cancel_type := t\<rparr>"
  have "type_of_op (group_ops g ! i) \<noteq> Some no_cancellation" using ok i(1) by (simp add: cancel_ok_def types_ok_def)
  then have t: "t \<noteq> no_cancellation" using i(3) by (simp add: type_of_op_def)
  have "emission_ok ?g" by (rule emission_moves [of g i "Asking t"]) (use ok i in \<open>auto simp: cancel_ok_def sending_at\<close>)
  moreover have "requests_ok ?g" by (rule requests_frame [of g]) (use ok in \<open>auto simp: cancel_ok_def\<close>)
  moreover have "types_ok ?g" by (rule types_moves [of g i "Asking t"]) (use ok i t in \<open>auto simp: cancel_ok_def type_of_op_def\<close>)
  moreover have "asked_ok cond ?g" by (rule asked_moves [of cond g i ?g "Asking t"]) (use ok i in \<open>auto simp: cancel_ok_def\<close>)
  ultimately show ?thesis by (simp add: cancel_ok_def)
qed

text \<open>The question: the first to ask, after the launch, sends.\<close>

lemma requests_zero: "requests_ok g \<Longrightarrow> 0 < length (group_ops g) \<Longrightarrow> cancellations_requested g = 0 \<longleftrightarrow> \<not> is_launching g \<and> emitter g = None"
  by (auto simp: requests_ok_def)

lemma requests_ask:
  assumes "requests_ok g" "0 < length (group_ops g)" "length (group_ops g1) = length (group_ops g)" "launcher g1 = launcher g"
    "askers g1 = askers g @ [a]" "cancellations_requested g1 = cancellations_requested g + 1" "a \<noteq> Launcher" "launcher g \<noteq> Launched \<longrightarrow> a \<noteq> Canceller \<and> group_cancel g1 = NoCancel"
    "emitter g1 = (if cancellations_requested g = 0 then Some a else emitter g)"
  shows "requests_ok g1"
  using assms requests_zero [OF assms(1,2)] unfolding requests_ok_def by (auto split: if_splits)

lemma ask_ok:
  fixes g g1 :: "'r group"
  assumes ok: "cancel_ok cond g" and i: "i < length (group_ops g)" "length (outcomes g) = length (group_ops g)" "group_ops g ! i = Asking t"
    and f: "group_ops g1 = (group_ops g)[i := if cancellations_requested g = 0 then Emitting t 0 else Ending]" "launcher g1 = launcher g" "group_cancel g1 = group_cancel g"
      "signals g1 = signals g" "askers g1 = askers g @ [Operation i]" "cancellations_requested g1 = cancellations_requested g + 1" "cancel_type g1 = cancel_type g"
      "outcomes g1 = outcomes g" "emitter g1 = (if cancellations_requested g = 0 then Some (Operation i) else emitter g)"
  shows "cancel_ok cond g1"
proof -
  let ?p = "if cancellations_requested g = 0 then Emitting t 0 else Ending :: 'r group_op"
  have t: "t \<noteq> no_cancellation" using ok i unfolding cancel_ok_def types_ok_def by (metis group_op.simps type_of_op_def)
  have pos: "0 < length (group_ops g)" using i(1) by linarith
  have rq: "requests_ok g" using ok by (simp add: cancel_ok_def)
  have s: "sending b g1 = (if b = Operation i then (case ?p of Emitting t j \<Rightarrow> Some j | _ \<Rightarrow> None) else sending b g)" for b
    by (rule sending_move [OF i(1) f(1-3)])
  have "emission_ok g1"
  proof (cases "cancellations_requested g = 0")
    case True
    then have "emitter g = None" using requests_zero [OF rq pos] by simp
    then show ?thesis by (intro emission_start [of g g1 "Operation i"]) (use ok s True f in \<open>simp_all add: cancel_ok_def\<close>)
  next
    case False
    have e: "emission_ok g" "sending (Operation i) g = None" using ok i by (simp_all add: cancel_ok_def sending_at)
    show ?thesis by (rule emission_moves [OF e(1) i(1) e(2) _ f(1-4)]) (use False f(9) in simp_all)
  qed
  moreover have "requests_ok g1" by (rule requests_ask [OF rq pos, of g1 "Operation i"]) (use f rq in \<open>auto simp: requests_ok_def\<close>)
  moreover have "types_ok g1" by (rule types_moves [of g i ?p]) (use ok i f t in \<open>auto simp: cancel_ok_def type_of_op_def split: if_splits\<close>)
  moreover have "asked_ok cond g1" by (rule asked_moves [of cond g i g1 ?p]) (use ok i f in \<open>auto simp: cancel_ok_def\<close>)
  ultimately show ?thesis by (simp add: cancel_ok_def)
qed

text \<open>Sending: the steps of an operation.\<close>

lemma cancel_type_set: "types_ok g \<Longrightarrow> i < length (group_ops g) \<Longrightarrow> type_of_op (group_ops g ! i) = Some t \<Longrightarrow> t \<noteq> no_cancellation"
  by (auto simp: types_ok_def)

lemma emit_ok:
  fixes g g1 :: "'r group"
  assumes ok: "cancel_ok cond g" and i: "i < length (group_ops g)" "length (outcomes g) = length (group_ops g)" "group_ops g ! i = Emitting t j"
    and f: "group_ops g1 = (group_ops g)[i := if j < length (group_ops g) then Emitting t (Suc j) else Ending]" "launcher g1 = launcher g" "group_cancel g1 = group_cancel g"
      "askers g1 = askers g" "cancellations_requested g1 = cancellations_requested g" "cancel_type g1 = cancel_type g" "outcomes g1 = outcomes g" "emitter g1 = emitter g"
      "signals g1 = signals g @ (if j < length (group_ops g) \<and> j \<noteq> i then [(j, t)] else [])"
  shows "cancel_ok cond g1"
proof -
  let ?p = "if j < length (group_ops g) then Emitting t (Suc j) else Ending :: 'r group_op"
  have t: "t \<noteq> no_cancellation" using ok i by (intro cancel_type_set [of g i]) (simp_all add: cancel_ok_def type_of_op_def)
  have s: "sending b g1 = (if b = Operation i then (case ?p of Emitting t j \<Rightarrow> Some j | _ \<Rightarrow> None) else sending b g)" for b
    by (rule sending_move [OF i(1) f(1-3)])
  have e: "emission_ok g" "sending (Operation i) g = Some j" using ok i by (simp_all add: cancel_ok_def sending_at)
  have "emission_ok g1"
  proof (cases "j < length (group_ops g)")
    case True
    show ?thesis by (rule emission_progress [OF e True, of g1 t]) (use True s f in auto)
  next
    case False
    show ?thesis by (rule emission_end [OF e False]) (use False s f in auto)
  qed
  moreover have "requests_ok g1" by (rule requests_frame [of g]) (use ok f in \<open>simp_all add: cancel_ok_def\<close>)
  moreover have "types_ok g1" by (rule types_moves [of g i ?p]) (use ok i f t in \<open>auto simp: cancel_ok_def type_of_op_def split: if_splits\<close>)
  moreover have "asked_ok cond g1"
  proof (rule asked_moves [of cond g i g1 ?p])
    fix r assume "outcomes g1 ! i = Some r" "cond r \<noteq> no_cancellation"
    then show "Operation i \<in> set (askers g1)" using ok i f(4,7) by (auto simp: cancel_ok_def asked_ok_def)
  qed (use ok i f in \<open>simp_all add: cancel_ok_def\<close>)
  ultimately show ?thesis by (simp add: cancel_ok_def)
qed

text \<open>The steps of the launch and of the canceller leave the operations where they are.\<close>

lemma types_same:
  assumes "types_ok g" "group_ops g1 = group_ops g" "cancel_type g1 = cancel_type g" "\<And>i. Operation i \<in> set (askers g1) \<longleftrightarrow> Operation i \<in> set (askers g)"
    "\<And>t j. group_cancel g1 = CancelEmitting t j \<Longrightarrow> t \<noteq> no_cancellation" "\<And>j. launcher g1 = LaunchEmitting j \<Longrightarrow> cancel_type g \<noteq> no_cancellation"
    "\<And>j t. (j, t) \<in> set (signals g1) \<Longrightarrow> (j, t) \<notin> set (signals g) \<Longrightarrow> t \<noteq> no_cancellation"
  shows "types_ok g1"
proof -
  have "list_all (\<lambda>(j, t). t \<noteq> no_cancellation) (signals g1)" using assms(1,7) by (fastforce simp: types_ok_def list_all_iff)
  then show ?thesis using assms(1,5,6) unfolding types_ok_def assms(2-4) by blast
qed

lemma asked_same: "asked_ok cond g \<Longrightarrow> group_ops g1 = group_ops g \<Longrightarrow> outcomes g1 = outcomes g \<Longrightarrow> set (askers g) \<subseteq> set (askers g1) \<Longrightarrow> asked_ok cond g1"
  unfolding asked_ok_def by (fastforce split: group_op.splits)

lemma operations_asked:
  assumes "requests_ok g" "types_ok g" "launcher g \<noteq> Launched" "askers g \<noteq> []"
  shows "cancel_type g \<noteq> no_cancellation"
proof -
  obtain a where a: "a \<in> set (askers g)" using assms(4) by (meson last_in_set)
  have "a \<noteq> Canceller" "a \<noteq> Launcher" using a assms(1,3) by (auto simp: requests_ok_def)
  then obtain i where "a = Operation i" by (cases a) auto
  then show ?thesis using a assms(2) unfolding types_ok_def by blast
qed

lemma cancel_launch_step:
  fixes g g1 :: "'r group"
  assumes gok: "group_ok n g" and ok: "cancel_ok cond g" and st: "launch_step g = Some g1"
  shows "cancel_ok cond g1"
proof -
  have n: "length (outcomes g) = length (group_ops g)" "launch_ok g" using gok by (simp_all add: group_ok_def results_ok_def)
  have em: "emission_ok g" "requests_ok g" "types_ok g" "asked_ok cond g" using ok by (simp_all add: cancel_ok_def)
  show ?thesis
  proof (cases "launcher g")
    case (Launching l)
    show ?thesis
    proof (cases "l < length (group_ops g)")
      case True
      have g1: "g1 = set_op l InFlight g\<lparr>launcher := Launching (Suc l)\<rparr>" using st True Launching by (simp add: launch_step_def)
      have u: "group_ops g ! l = Unlaunched" using n(2) True Launching by (simp add: launch_ok_def)
      show ?thesis by (rule cancel_moves [OF ok True n(1), of InFlight]) (use u True Launching g1 in \<open>simp_all add: sending_at type_of_op_def\<close>)
    next
      case False
      define m where "m = cancellations_requested g - length (group_ops g)"
      have m: "m = length (askers g)" "emitter g = None" "Canceller \<notin> set (askers g)" "Launcher \<notin> set (askers g)" "group_cancel g = NoCancel"
        using em(2) Launching by (simp_all add: requests_ok_def m_def)
      have g1: "g1 = (if 0 < m then g\<lparr>cancellations_requested := m, launcher := LaunchEmitting 0, emitter := Some Launcher\<rparr>
        else g\<lparr>cancellations_requested := m, launcher := Launched\<rparr>)"
        using st False Launching by (auto simp: launch_step_def Let_def m_def)
      have "emission_ok g1"
      proof (cases "0 < m")
        case True
        have s: "sending b g1 = (if b = Launcher then Some 0 else sending b g)" for b using True by (auto simp: sending_def g1 split: agent.splits)
        show ?thesis by (rule emission_start [OF em(1) m(2) s]) (use True g1 in simp_all)
      next
        case False
        have s: "sending b g1 = sending b g" for b using False Launching by (auto simp: sending_def g1 split: agent.splits)
        show ?thesis by (rule emission_frame [OF em(1) _ s]) (use False g1 in simp_all)
      qed
      moreover have "requests_ok g1" using m em(2) Launching by (auto simp: requests_ok_def g1)
      moreover have "types_ok g1"
      proof (rule types_same [OF em(3)])
        fix j assume "launcher g1 = LaunchEmitting j"
        then have "askers g \<noteq> []" using m(1) g1 by (auto split: if_splits)
        then show "cancel_type g \<noteq> no_cancellation" using operations_asked [OF em(2,3)] Launching by simp
      qed (use m(5) g1 in \<open>auto split: if_splits\<close>)
      moreover have "asked_ok cond g1" by (rule asked_same [OF em(4)]) (use g1 in auto)
      ultimately show ?thesis by (simp add: cancel_ok_def)
    qed
  next
    case (LaunchEmitting j)
    have g1: "g1 = (if j < length (group_ops g) then g\<lparr>signals := signals g @ [(j, cancel_type g)], launcher := LaunchEmitting (Suc j)\<rparr> else g\<lparr>launcher := Launched\<rparr>)"
      using st LaunchEmitting by (simp add: launch_step_def)
    have t: "cancel_type g \<noteq> no_cancellation" using em(3) LaunchEmitting by (simp add: types_ok_def)
    have c: "sending Launcher g = Some j" using LaunchEmitting by (simp add: sending_def)
    have "emission_ok g1"
    proof (cases "j < length (group_ops g)")
      case True
      have "sending b g1 = (if b = Launcher then Some (Suc j) else sending b g)" for b using True by (auto simp: sending_def g1 split: agent.splits)
      then show ?thesis by (intro emission_progress [OF em(1) c True, of g1 "cancel_type g"]) (use True g1 in simp_all)
    next
      case False
      have "sending b g1 = (if b = Launcher then None else sending b g)" for b using False by (auto simp: sending_def g1 split: agent.splits)
      then show ?thesis by (intro emission_end [OF em(1) c False]) (use False g1 in simp_all)
    qed
    moreover have "requests_ok g1" using em(2) LaunchEmitting by (auto simp: requests_ok_def g1)
    moreover have "types_ok g1" by (rule types_same [OF em(3)]) (use t em(3) g1 in \<open>auto simp: types_ok_def split: if_splits\<close>)
    moreover have "asked_ok cond g1" by (rule asked_same [OF em(4)]) (use g1 in auto)
    ultimately show ?thesis by (simp add: cancel_ok_def)
  qed (use st in \<open>simp add: launch_step_def\<close>)
qed

text \<open>The canceller.\<close>

lemma cancel_group_ok:
  fixes g g1 :: "'r group"
  assumes gok: "group_ok n g" "0 < n" and ok: "cancel_ok cond g" and st: "cancel_group t alive g = Some g1"
  shows "cancel_ok cond g1"
proof (cases "t \<noteq> no_cancellation \<and> alive")
  case False
  then show ?thesis using st ok by (auto simp: cancel_group_def split: if_splits)
next
  case True
  have em: "emission_ok g" "requests_ok g" "types_ok g" "asked_ok cond g" using ok by (simp_all add: cancel_ok_def)
  have la: "launcher g = Launched" "group_cancel g = NoCancel" using st by (auto simp: cancel_group_def split: if_splits)
  have pos: "0 < length (group_ops g)" using gok by (simp add: group_ok_def)
  have f: "group_ops g1 = group_ops g" "launcher g1 = launcher g" "signals g1 = signals g" "askers g1 = askers g @ [Canceller]"
    "cancellations_requested g1 = cancellations_requested g + 1" "outcomes g1 = outcomes g" "cancel_type g1 = cancel_type g"
    "group_cancel g1 = (if cancellations_requested g = 0 then CancelEmitting t 0 else NoCancel)"
    "emitter g1 = (if cancellations_requested g = 0 then Some Canceller else emitter g)"
    using st True la by (auto simp: cancel_group_def Let_def split: if_splits)
  have "emission_ok g1"
  proof (cases "cancellations_requested g = 0")
    case z: True
    have "sending b g1 = (if b = Canceller then Some 0 else sending b g)" for b using z f by (auto simp: sending_def split: agent.splits)
    then show ?thesis using requests_zero [OF em(2) pos] z f by (intro emission_start [OF em(1), of g1 Canceller]) simp_all
  next
    case z: False
    have s: "sending b g1 = sending b g" for b using z f la by (auto simp: sending_def split: agent.splits)
    show ?thesis by (rule emission_frame [OF em(1) _ s]) (use z f in simp_all)
  qed
  moreover have "requests_ok g1" by (rule requests_ask [OF em(2) pos, of g1 Canceller]) (use f la in simp_all)
  moreover have "types_ok g1" by (rule types_same [OF em(3)]) (use f la True in \<open>auto split: if_splits\<close>)
  moreover have "asked_ok cond g1" by (rule asked_same [OF em(4)]) (use f in auto)
  ultimately show ?thesis by (simp add: cancel_ok_def)
qed

lemma cancel_step_ok:
  fixes g g1 :: "'r group"
  assumes ok: "cancel_ok cond g" and st: "cancel_step g = Some g1"
  shows "cancel_ok cond g1"
proof -
  have em: "emission_ok g" "requests_ok g" "types_ok g" "asked_ok cond g" using ok by (simp_all add: cancel_ok_def)
  obtain t j where c: "group_cancel g = CancelEmitting t j" using st by (auto simp: cancel_step_def split: group_cancel.splits)
  have t: "t \<noteq> no_cancellation" using em(3) c by (auto simp: types_ok_def)
  have s: "sending Canceller g = Some j" using c by (simp add: sending_def)
  have g1: "g1 = (if j < length (group_ops g) then g\<lparr>signals := signals g @ [(j, t)], group_cancel := CancelEmitting t (Suc j)\<rparr> else g\<lparr>group_cancel := NoCancel\<rparr>)"
    using st c by (simp add: cancel_step_def)
  have la: "launcher g = Launched" using em(2) c by (auto simp: requests_ok_def)
  have "emission_ok g1"
  proof (cases "j < length (group_ops g)")
    case True
    have "sending b g1 = (if b = Canceller then Some (Suc j) else sending b g)" for b using True by (auto simp: sending_def g1 split: agent.splits)
    then show ?thesis by (intro emission_progress [OF em(1) s True, of g1 t]) (use True g1 in simp_all)
  next
    case False
    have "sending b g1 = (if b = Canceller then None else sending b g)" for b using False by (auto simp: sending_def g1 split: agent.splits)
    then show ?thesis by (intro emission_end [OF em(1) s False]) (use False g1 in simp_all)
  qed
  moreover have "requests_ok g1" using em(2) la by (auto simp: requests_ok_def g1)
  moreover have "types_ok g1" by (rule types_same [OF em(3)]) (use t em(3) la g1 in \<open>auto split: if_splits\<close>)
  moreover have "asked_ok cond g1" by (rule asked_same [OF em(4)]) (use g1 in auto)
  ultimately show ?thesis by (simp add: cancel_ok_def)
qed

text \<open>The handler of an operation.\<close>

lemma cancel_handler_step:
  fixes g g1 :: "'r group"
  assumes gok: "group_ok n g" and ok: "cancel_ok cond g" and i: "i < length (group_ops g)" and st: "handler_step cond i g = Some g1"
  shows "cancel_ok cond g1"
proof -
  have n: "length (outcomes g) = length (group_ops g)" and out: "outcome_ok (results g ! i) (outcomes g ! i) (group_ops g ! i)"
    using gok i by (simp_all add: group_ok_def results_ok_def)
  have as: "outcomes g ! i = Some r \<Longrightarrow> cond r \<noteq> no_cancellation \<Longrightarrow> group_ops g ! i = Ending \<Longrightarrow> Operation i \<in> set (askers g)" for r
    using ok i by (auto simp: cancel_ok_def asked_ok_def)
  show ?thesis
  proof (cases "group_ops g ! i")
    case (Numbered k r)
    show ?thesis by (rule cancel_moves [OF ok i n, of "Ordered r"]) (use st Numbered i in \<open>auto simp: handler_step_def sending_at type_of_op_def\<close>)
  next
    case (Ordered r)
    have o: "outcomes g ! i = Some r" using out Ordered by (simp add: outcome_ok_def)
    show ?thesis by (rule cancel_moves [OF ok i n, of "if cond r \<noteq> no_cancellation then Emplaced (cond r) else Ending"])
      (use st Ordered i o in \<open>auto simp: handler_step_def sending_at type_of_op_def split: if_splits\<close>)
  next
    case (Emplaced t)
    show ?thesis using store_type_ok [OF ok i n Emplaced] st Emplaced by (simp add: handler_step_def)
  next
    case (Asking t)
    show ?thesis by (rule ask_ok [OF ok i n Asking]) (use st Asking in \<open>auto simp: handler_step_def Let_def\<close>)
  next
    case (Emitting t j)
    show ?thesis by (rule emit_ok [OF ok i n Emitting]) (use st Emitting in \<open>auto simp: handler_step_def\<close>)
  next
    case Ending
    show ?thesis by (rule cancel_moves [OF ok i n, of Ended]) (use st Ending i as in \<open>auto simp: handler_step_def sending_at type_of_op_def Let_def split: if_splits\<close>)
  qed (use st in \<open>simp_all add: handler_step_def\<close>)
qed

lemma cancel_complete_op:
  fixes g :: "'r group"
  assumes gok: "group_ok n g" and ok: "cancel_ok cond g" and i: "i < length (group_ops g)" "group_ops g ! i = InFlight"
  shows "cancel_ok cond (complete_op i r g)"
  by (rule cancel_moves [OF ok i(1), of "Numbered (completed g) r"])
    (use gok i in \<open>auto simp: complete_op_def sending_at type_of_op_def group_ok_def results_ok_def\<close>)

definition cancelling_ok :: "('r \<Rightarrow> nat) \<Rightarrow> nat \<Rightarrow> 'r group \<Rightarrow> bool" where
  "cancelling_ok cond n g \<longleftrightarrow> group_ok n g \<and> cancel_ok cond g"

lemma new_cancelling_ok: "cancelling_ok cond n (new_group n)"
  by (simp add: cancelling_ok_def new_group_ok new_cancel_ok)

lemma cancelling_step_ok:
  assumes ok: "cancelling_ok cond n g" and n: "0 < n" and st: "group_step cond g a = Some g1"
  shows "cancelling_ok cond n g1"
proof -
  have gok: "group_ok n g" and cok: "cancel_ok cond g" using ok by (simp_all add: cancelling_ok_def)
  have "cancel_ok cond g1"
  proof (cases a)
    case Launch
    then show ?thesis using cancel_launch_step [OF gok cok] st by simp
  next
    case (CompleteOp i r)
    then show ?thesis using cancel_complete_op [OF gok cok] st by (auto split: if_splits)
  next
    case (HandlerStep i)
    then show ?thesis using cancel_handler_step [OF gok cok] st by (auto split: if_splits)
  next
    case (CancelGroup t alive)
    then show ?thesis using cancel_group_ok [OF gok n cok] st by simp
  next
    case CancelStep
    then show ?thesis using cancel_step_ok [OF cok] st by simp
  qed
  then show ?thesis using group_step_ok [OF gok st] by (simp add: cancelling_ok_def)
qed

interpretation cancelling: invariant_system "group_step cond" "new_group (Suc m)" "cancelling_ok cond (Suc m)" for cond m
  by unfold_locales (rule new_cancelling_ok, rule cancelling_step_ok [OF _ zero_less_Suc])

end
