(* ===== verification/AsioGroups.thy ===== *)
theory AsioGroups
  imports AsioGroupCancel
begin

text \<open>
  The promises of parallel groups, over every interleaving of the launch, the handlers and the canceller: the user's handler is called once,
  with the order and the outcomes; the signals go to every operation but the sender, once each; every run ends. An empty group is
  the exception, it never calls the handler.
\<close>

section \<open>The sender has completed\<close>

definition sender_ok :: "'r group \<Rightarrow> bool" where
  "sender_ok g \<longleftrightarrow> (\<forall>k. emitter g = Some (Operation k) \<longrightarrow> k < length (group_ops g) \<and>
     (case group_ops g ! k of Emitting t j \<Rightarrow> True | Ending \<Rightarrow> True | Ended \<Rightarrow> True | _ \<Rightarrow> False))"

lemma sender_moves:
  assumes "sender_ok g" "group_ops g1 = (group_ops g)[i := p]" "emitter g1 = emitter g"
    "case p of Emitting t j \<Rightarrow> True | Ending \<Rightarrow> True | Ended \<Rightarrow> True | _ \<Rightarrow> \<not> (case group_ops g ! i of Emitting t j \<Rightarrow> True | Ending \<Rightarrow> True | Ended \<Rightarrow> True | _ \<Rightarrow> False)"
  shows "sender_ok g1"
  unfolding sender_ok_def
proof (intro allI impI)
  fix k assume "emitter g1 = Some (Operation k)"
  then have k: "k < length (group_ops g)" "case group_ops g ! k of Emitting t j \<Rightarrow> True | Ending \<Rightarrow> True | Ended \<Rightarrow> True | _ \<Rightarrow> False"
    using assms(1,3) by (simp_all add: sender_ok_def)
  have "case group_ops g1 ! k of Emitting t j \<Rightarrow> True | Ending \<Rightarrow> True | Ended \<Rightarrow> True | _ \<Rightarrow> False"
  proof (cases "k = i")
    case True
    then show ?thesis using k assms(2,4) by (simp split: group_op.splits)
  qed (use k assms(2) in simp)
  then show "k < length (group_ops g1) \<and> (case group_ops g1 ! k of Emitting t j \<Rightarrow> True | Ending \<Rightarrow> True | Ended \<Rightarrow> True | _ \<Rightarrow> False)"
    using k(1) assms(2) by simp
qed

lemma sender_same: "sender_ok g \<Longrightarrow> group_ops g1 = group_ops g \<Longrightarrow> emitter g1 = emitter g \<or> (\<forall>k. emitter g1 \<noteq> Some (Operation k)) \<Longrightarrow> sender_ok g1"
  by (auto simp: sender_ok_def)

lemma sender_handler_step:
  assumes ok: "sender_ok g" and i: "i < length (group_ops g)" and st: "handler_step cond i g = Some g1"
  shows "sender_ok g1"
proof (cases "group_ops g ! i")
  case (Numbered k r)
  then show ?thesis using st by (intro sender_moves [OF ok, of g1 i "Ordered r"]) (auto simp: handler_step_def)
next
  case (Ordered r)
  then show ?thesis using st by (intro sender_moves [OF ok, of g1 i "if cond r \<noteq> no_cancellation then Emplaced (cond r) else Ending"]) (auto simp: handler_step_def)
next
  case (Emplaced t)
  then show ?thesis using st by (intro sender_moves [OF ok, of g1 i "Asking t"]) (auto simp: handler_step_def)
next
  case (Asking t)
  show ?thesis
  proof (cases "cancellations_requested g = 0")
    case True
    then have "emitter g1 = Some (Operation i)" "group_ops g1 = (group_ops g)[i := Emitting t 0]" using st Asking by (auto simp: handler_step_def Let_def)
    then show ?thesis using i by (simp add: sender_ok_def)
  next
    case False
    then show ?thesis using st Asking by (intro sender_moves [OF ok, of g1 i Ending]) (auto simp: handler_step_def Let_def)
  qed
next
  case (Emitting t j)
  then show ?thesis using st
    by (intro sender_moves [OF ok, of g1 i "if j < length (group_ops g) then Emitting t (Suc j) else Ending"]) (auto simp: handler_step_def)
next
  case Ending
  then show ?thesis using st by (intro sender_moves [OF ok, of g1 i Ended]) (auto simp: handler_step_def Let_def split: if_splits)
qed (use st in \<open>simp_all add: handler_step_def\<close>)

lemma sender_step:
  assumes gok: "group_ok n g" and ok: "sender_ok g" and st: "group_step cond g a = Some g1"
  shows "sender_ok g1"
proof (cases a)
  case Launch
  show ?thesis
  proof (cases "\<exists>l. launcher g = Launching l \<and> l < length (group_ops g)")
    case True
    then obtain l where l: "launcher g = Launching l" "l < length (group_ops g)" by blast
    then have "group_ops g ! l = Unlaunched" using gok by (simp add: group_ok_def launch_ok_def)
    then show ?thesis using st l Launch by (intro sender_moves [OF ok, of g1 l InFlight]) (auto simp: launch_step_def)
  next
    case False
    then show ?thesis using st Launch by (intro sender_same [OF ok]) (auto simp: launch_step_def Let_def split: launcher.splits if_splits)
  qed
next
  case (CompleteOp i r)
  then show ?thesis using st by (intro sender_moves [OF ok, of g1 i "Numbered (completed g) r"]) (auto simp: complete_op_def split: if_splits)
next
  case (HandlerStep i)
  then show ?thesis using st sender_handler_step [OF ok] by (auto split: if_splits)
next
  case (CancelGroup t alive)
  then show ?thesis using st by (intro sender_same [OF ok]) (auto simp: cancel_group_def Let_def split: if_splits)
next
  case CancelStep
  then show ?thesis using st by (intro sender_same [OF ok]) (auto simp: cancel_step_def split: group_cancel.splits if_splits)
qed

interpretation sending: invariant_system "group_step cond" "new_group n" "\<lambda>g. group_ok n g \<and> sender_ok g" for cond n
proof unfold_locales
  show "group_ok n (new_group n) \<and> sender_ok (new_group n)" using new_group_ok by (auto simp: sender_ok_def new_group_def)
qed (auto intro: group_step_ok sender_step)

section \<open>Every run ends\<close>

definition op_weight :: "nat \<Rightarrow> 'r group_op \<Rightarrow> nat" where
  "op_weight n p = (case p of Unlaunched \<Rightarrow> n + 8 | InFlight \<Rightarrow> n + 7 | Numbered k r \<Rightarrow> n + 6 | Ordered r \<Rightarrow> n + 5 | Emplaced t \<Rightarrow> n + 4 | Asking t \<Rightarrow> n + 3
     | Emitting t j \<Rightarrow> 2 + (n - j) | Ending \<Rightarrow> 1 | Ended \<Rightarrow> 0)"

definition launcher_weight :: "nat \<Rightarrow> launcher \<Rightarrow> nat" where
  "launcher_weight n p = (case p of Launching l \<Rightarrow> n + 2 + (n - l) | LaunchEmitting j \<Rightarrow> 1 + (n - j) | Launched \<Rightarrow> 0)"

definition group_weight :: "nat \<Rightarrow> 'r group \<Rightarrow> nat" where
  "group_weight n g = sum_list (List.map (op_weight n) (group_ops g)) + launcher_weight n (launcher g)"

definition own_step :: "'r group_action \<Rightarrow> bool" where
  "own_step a = (case a of Launch \<Rightarrow> True | CompleteOp i r \<Rightarrow> True | HandlerStep i \<Rightarrow> True | CancelGroup t alive \<Rightarrow> False | CancelStep \<Rightarrow> False)"

lemma weight_moves:
  assumes "i < length (group_ops g)" "op_weight n p < op_weight n (group_ops g ! i)" "group_ops g1 = (group_ops g)[i := p]"
    "launcher_weight n (launcher g1) \<le> launcher_weight n (launcher g)"
  shows "group_weight n g1 < group_weight n g"
proof -
  have "op_weight n (group_ops g ! i) \<le> sum_list (List.map (op_weight n) (group_ops g))"
    using assms(1) by (intro member_le_sum_list) simp_all
  then have "sum_list (List.map (op_weight n) (group_ops g1)) < sum_list (List.map (op_weight n) (group_ops g))"
    using assms(1-3) by (simp add: map_update sum_list_update)
  then show ?thesis using assms(4) by (simp add: group_weight_def)
qed

lemma own_step_decreases:
  assumes gok: "group_ok n g" and own: "own_step a" and st: "group_step cond g a = Some g1"
  shows "group_weight n g1 < group_weight n g"
proof (cases a)
  case Launch
  have n: "length (group_ops g) = n" using gok by (simp add: group_ok_def)
  show ?thesis
  proof (cases "\<exists>l. launcher g = Launching l \<and> l < n")
    case True
    then obtain l where l: "launcher g = Launching l" "l < n" by blast
    then have "group_ops g ! l = Unlaunched" using gok by (simp add: group_ok_def launch_ok_def)
    then show ?thesis using st l Launch n by (intro weight_moves [of l g n InFlight]) (auto simp: launch_step_def op_weight_def launcher_weight_def)
  next
    case False
    then have "group_ops g1 = group_ops g" "launcher_weight n (launcher g1) < launcher_weight n (launcher g)"
      using st Launch n by (auto simp: launch_step_def launcher_weight_def Let_def split: launcher.splits if_splits)
    then show ?thesis by (simp add: group_weight_def)
  qed
next
  case (CompleteOp i r)
  then show ?thesis using st by (intro weight_moves [of i g n "Numbered (completed g) r"]) (auto simp: complete_op_def op_weight_def split: if_splits)
next
  case (HandlerStep i)
  have i: "i < length (group_ops g)" and hs: "handler_step cond i g = Some g1" using st HandlerStep by (auto split: if_splits)
  have n: "length (group_ops g) = n" using gok by (simp add: group_ok_def)
  have "\<exists>p. group_ops g1 = (group_ops g)[i := p] \<and> op_weight n p < op_weight n (group_ops g ! i) \<and> launcher g1 = launcher g"
    using hs n by (auto simp: handler_step_def op_weight_def Let_def split: group_op.splits if_splits)
  then show ?thesis using weight_moves [OF i] by auto
qed (use own in \<open>simp_all add: own_step_def\<close>)

lemma other_step_keeps: "\<not> own_step a \<Longrightarrow> group_step cond g a = Some g1 \<Longrightarrow> group_weight n g1 = group_weight n g"
  by (cases a) (auto simp: own_step_def group_weight_def cancel_group_def cancel_step_def Let_def split: group_cancel.splits if_splits)

lemma run_weight:
  "group_ok n g \<Longrightarrow> run (group_step cond) g as = Some g1 \<Longrightarrow> length (filter own_step as) + group_weight n g1 \<le> group_weight n g"
proof (induction as arbitrary: g)
  case (Cons a as)
  from Cons.prems obtain h where h: "group_step cond g a = Some h" "run (group_step cond) h as = Some g1" by (auto split: option.splits)
  have "length (filter own_step as) + group_weight n g1 \<le> group_weight n h" using Cons.IH [OF group_step_ok [OF Cons.prems(1) h(1)] h(2)] .
  then show ?case using own_step_decreases [OF Cons.prems(1) _ h(1)] other_step_keeps [OF _ h(1), of n] by (cases "own_step a") auto
qed simp

lemma own_step_possible:
  assumes ok: "group_ok n g" and n: "0 < n" and d: "dispatched g = []"
  shows "\<exists>a. own_step a \<and> group_step cond g a \<noteq> None"
proof (cases "launcher g = Launched")
  case False
  then have "launch_step g \<noteq> None" by (auto simp: launch_step_def Let_def split: launcher.splits)
  then show ?thesis by (intro exI [of _ Launch]) (simp add: own_step_def)
next
  case True
  have len: "length (group_ops g) = n" using ok by (simp add: group_ok_def)
  have "\<not> list_all (\<lambda>p. p = Ended) (group_ops g)" using ok n d len by (auto simp: group_ok_def dispatch_ok_def)
  then obtain i where i: "i < n" "group_ops g ! i \<noteq> Ended" using len by (auto simp: list_all_length)
  have u: "group_ops g ! i \<noteq> Unlaunched" using ok True i by (simp add: group_ok_def launch_ok_def)
  show ?thesis
  proof (cases "group_ops g ! i = InFlight")
    case True
    then show ?thesis using i len by (intro exI [of _ "CompleteOp i undefined"]) (simp add: own_step_def)
  next
    case False
    then have "handler_step cond i g \<noteq> None" using i u by (auto simp: handler_step_def Let_def split: group_op.splits)
    then show ?thesis using i len by (intro exI [of _ "HandlerStep i"]) (simp add: own_step_def)
  qed
qed

lemma new_group_weight: "group_weight n (new_group n) = n * (n + 8) + 2 * n + 2"
  by (simp add: group_weight_def new_group_def launcher_weight_def op_weight_def map_replicate sum_list_replicate)

section \<open>The promises\<close>

lemma group_completion:
  assumes "reachable (group_step cond) (new_group n) g"
  shows "dispatched g = (if 0 < n \<and> list_all (\<lambda>p. p = Ended) (group_ops g) then [(numbering g, outcomes g)] else [])" (is ?once)
    and "distinct (numbering g)"
    and "dispatched g \<noteq> [] \<longrightarrow> set (numbering g) = {..<n} \<and> length (outcomes g) = n \<and> None \<notin> set (outcomes g)" (is ?all)
proof -
  have ok: "group_ok n g" by (rule group.reachable_inv [OF assms])
  have n: "length (group_ops g) = n" "length (results g) = n" "length (outcomes g) = n" "length (completion_order g) = n"
    using ok by (simp_all add: group_ok_def results_ok_def order_ok_def)
  show dist: "distinct (numbering g)" using ok by (simp add: group_ok_def order_ok_def)
  have e: "results g = outcomes g \<and> None \<notin> set (outcomes g) \<and> set (numbering g) = {..<n} \<and> completion_order g = numbering g" if a: "list_all (\<lambda>p. p = Ended) (group_ops g)"
  proof (intro conjI)
    have p: "group_ops g ! i = Ended" if "i < n" for i using a that n by (simp add: list_all_length)
    have o: "results g ! i = outcomes g ! i" "outcomes g ! i \<noteq> None" if "i < n" for i
      using ok that p n by (auto simp: group_ok_def results_ok_def outcome_ok_def)
    show "results g = outcomes g" by (rule nth_equalityI) (use n o in simp_all)
    show "None \<notin> set (outcomes g)" using n o by (metis in_set_conv_nth)
    show s: "set (numbering g) = {..<n}" using ok n p by (auto simp: group_ok_def order_ok_def)
    then have "length (numbering g) = n" using dist by (metis card_lessThan distinct_card)
    moreover have "completion_order g ! k = numbering g ! k" if k: "k < n" for k
    proof -
      have "numbering g ! k < n" using s k calculation by (metis lessThan_iff nth_mem)
      then have "group_ops g ! (numbering g ! k) = Ended" by (rule p)
      moreover have "completion_order g ! k = numbering g ! k \<or> (\<exists>r. group_ops g ! (numbering g ! k) = Numbered k r)"
        using ok k \<open>length (numbering g) = n\<close> by (simp add: group_ok_def order_ok_def)
      ultimately show ?thesis by simp
    qed
    ultimately show "completion_order g = numbering g" using n by (intro nth_equalityI) simp_all
  qed
  show ?once using ok e n by (auto simp: group_ok_def dispatch_ok_def)
  then show ?all using e n by (auto split: if_splits)
qed

text \<open>C17: A parallel group of at least one operation has called the user's handler exactly when all operations have ended, and then once: with the
  operations in the order in which they took their numbers, each of them once, and with the outcome of each of them at its index. The handler of an
  empty group is not called.\<close>
theorem group_completes_once:
  assumes "reachable (group_step cond) (new_group n) g"
  shows "dispatched g = (if 0 < n \<and> list_all (\<lambda>p. p = Ended) (group_ops g) then [(numbering g, outcomes g)] else []) \<and> distinct (numbering g) \<and>
    (dispatched g \<noteq> [] \<longrightarrow> set (numbering g) = {..<n} \<and> length (outcomes g) = n \<and> None \<notin> set (outcomes g))"
  using group_completion [OF assms] by simp

text \<open>C18: When an operation has ended with an outcome for which the condition asks for a cancellation, the launch is over and nobody is sending any more, then
  exactly one agent has sent signals: one to every operation, in the order of the group, but not to the operation whose handler has sent them; and all the signals have
  a type. This is so in every interleaving of the handlers, the launch and the cancellation of the whole group.\<close>
theorem group_cancels_others_once:
  assumes "reachable (group_step cond) (new_group n) g" "i < n" "group_ops g ! i = Ended" "outcomes g ! i = Some r" "cond r \<noteq> no_cancellation"
    "launcher g = Launched" "\<forall>a. sending a g = None"
  shows "\<exists>a. List.map fst (signals g) = filter (\<lambda>j. a \<noteq> Operation j) [0..<n] \<and> list_all (\<lambda>(j, t). t \<noteq> no_cancellation) (signals g) \<and>
    (\<forall>k. a = Operation k \<longrightarrow> k < n \<and> (group_ops g ! k = Ending \<or> group_ops g ! k = Ended))"
proof -
  obtain m where m: "n = Suc m" using assms(2) by (cases n) auto
  have ok: "emission_ok g" "requests_ok g" "types_ok g" "asked_ok cond g" "group_ok n g"
    using cancelling.reachable_inv [of cond m g] assms(1) m by (simp_all add: cancelling_ok_def cancel_ok_def)
  have sok: "sender_ok g" using sending.reachable_inv [OF assms(1)] by simp
  have n: "length (group_ops g) = n" using ok(5) by (simp add: group_ok_def)
  have "Operation i \<in> set (askers g)" using ok(4) assms(2-5) n by (auto simp: asked_ok_def)
  then obtain a where a: "emitter g = Some a" using ok(2) assms(6) by (auto simp: requests_ok_def)
  have "List.map fst (signals g) = filter (\<lambda>j. a \<noteq> Operation j) [0..<n]"
    using ok(1) a assms(7) n by (simp add: emission_ok_def sent_to_def targets_def)
  moreover have "k < n \<and> (group_ops g ! k = Ending \<or> group_ops g ! k = Ended)" if "a = Operation k" for k
    using sok a assms(7) that n sending_at [of k g] by (auto simp: sender_ok_def split: group_op.splits)
  ultimately show ?thesis using ok(3) by (auto simp: types_ok_def)
qed

text \<open>C27: Every run of a parallel group of at least one operation ends, whatever the interleaving: it has no more steps of the launch and the operations than the
  bound, and while the user's handler has not been called another such step is possible.\<close>
theorem group_runs_end:
  assumes "run (group_step cond) (new_group n) as = Some g" "0 < n"
  shows "length (filter own_step as) \<le> n * (n + 8) + 2 * n + 2 \<and> (dispatched g = [] \<longrightarrow> (\<exists>a. own_step a \<and> group_step cond g a \<noteq> None))"
proof
  show "length (filter own_step as) \<le> n * (n + 8) + 2 * n + 2" using run_weight [OF new_group_ok assms(1)] by (simp add: new_group_weight)
  show "dispatched g = [] \<longrightarrow> (\<exists>a. own_step a \<and> group_step cond g a \<noteq> None)"
    using own_step_possible [OF group.run_inv [OF new_group_ok assms(1)] assms(2)] by blast
qed

text \<open>An empty range of operations.\<close>

lemma empty_group_dispatches_nothing: "reachable (group_step cond) (new_group 0) g \<Longrightarrow> dispatched g = []"
  using group.reachable_inv [of cond 0 g] by (auto simp: group_ok_def dispatch_ok_def)

text \<open>A run: two operations of which the first to end cancels the other. The second operation ends while the launch is not over, so that it is the launch that sends
  the signals.\<close>

definition first_wins :: "int option group_action list" where
  "first_wins = [Launch, Launch, CompleteOp 1 (Some 0), HandlerStep 1, HandlerStep 1, HandlerStep 1, HandlerStep 1, HandlerStep 1, Launch, Launch, Launch, Launch,
     CompleteOp 0 (Some 89), HandlerStep 0, HandlerStep 0, HandlerStep 0, HandlerStep 0, HandlerStep 0]"

definition first_won :: "int option group" where
  "first_won = the (run (group_step (wait_for_one 1)) (new_group 2) first_wins)"

lemma first_wins_run: "run (group_step (wait_for_one 1)) (new_group 2) first_wins = Some first_won"
  by (simp add: first_won_def first_wins_def new_group_def launch_step_def handler_step_def complete_op_def set_op_def wait_for_one_def no_cancellation_def
    Let_def eval_nat_numeral)

lemma first_won_facts: "group_ops first_won = [Ended, Ended]" "launcher first_won = Launched" "group_cancel first_won = NoCancel" "outcomes first_won = [Some (Some 89), Some (Some 0)]"
  "numbering first_won = [1, 0]" "signals first_won = [(0, 1), (1, 1)]"
  by (simp_all add: first_won_def first_wins_def new_group_def launch_step_def handler_step_def complete_op_def set_op_def wait_for_one_def no_cancellation_def
    Let_def eval_nat_numeral)

lemma first_won_reached: "reachable (group_step (wait_for_one 1)) (new_group 2) first_won"
  by (rule run_reachable [OF first_wins_run])

theorem group_completes_once_witness: "dispatched first_won = [([1, 0], [Some (Some 89), Some (Some 0)])]"
  using group_completes_once [OF first_won_reached] by (simp add: first_won_facts)

theorem group_cancels_others_once_witness:
  "\<exists>a. List.map fst (signals first_won) = filter (\<lambda>j. a \<noteq> Operation j) [0..<2] \<and> list_all (\<lambda>(j, t). t \<noteq> no_cancellation) (signals first_won)"
proof -
  have "sending a first_won = None" for a by (auto simp: sending_def first_won_facts nth_Cons split: agent.splits nat.splits)
  then show ?thesis using group_cancels_others_once [OF first_won_reached, of 1 "Some 0"]
    by (fastforce simp: first_won_facts wait_for_one_def no_cancellation_def)
qed

theorem group_runs_end_witness: "length (filter own_step first_wins) \<le> 26"
  using group_runs_end [OF first_wins_run] by simp

end
