(* ===== verification/AsioConnect.thy ===== *)
theory AsioConnect
  imports Prelude
begin

text \<open>
  Connecting to a sequence of endpoints (\<open>impl/connect.hpp\<close>), as the clients do with what a resolver returns: the loop of \<open>connect\<close> and the
  operation of \<open>async_connect\<close>, over a socket (\<open>basic_socket.hpp\<close>). The operating system's calls are parameters. An iterator is an index,
  the end is the length. The condition that the caller may give says for an endpoint, and the error of the last attempt, whether to try it.
\<close>

section \<open>The socket\<close>

datatype connect_ec = Success | NotFound | AlreadyOpen | SystemError int

definition operation_aborted :: connect_ec where "operation_aborted = SystemError 125"

definition system_ec :: "int \<Rightarrow> connect_ec" where "system_ec n = (if n = 0 then Success else SystemError n)"

text \<open>The calls of the operating system: they change it and return an error number. Opening is for the endpoint's
  protocol, and includes the registration with the reactor.\<close>

record ('e, 'w) socket_calls =
  open_call :: "'e \<Rightarrow> 'w \<Rightarrow> int \<times> 'w"
  connect_call :: "'e \<Rightarrow> 'w \<Rightarrow> int \<times> 'w"
  close_call :: "'w \<Rightarrow> int \<times> 'w"

record 'w connect_socket =
  is_open :: bool
  os_state :: 'w

definition do_open :: "('e, 'w) socket_calls \<Rightarrow> 'e \<Rightarrow> 'w connect_socket \<Rightarrow> connect_ec \<times> 'w connect_socket" where
  "do_open os e s = (if is_open s then (AlreadyOpen, s)
     else (let (n, w) = open_call os e (os_state s) in (system_ec n, \<lparr>is_open = (n = 0), os_state = w\<rparr>)))"

definition socket_close :: "('e, 'w) socket_calls \<Rightarrow> 'w connect_socket \<Rightarrow> connect_ec \<times> 'w connect_socket" where
  "socket_close os s = (if is_open s then (let (n, w) = close_call os (os_state s) in (system_ec n, \<lparr>is_open = False, os_state = w\<rparr>))
     else (Success, s))"

definition socket_connect :: "('e, 'w) socket_calls \<Rightarrow> 'e \<Rightarrow> 'w connect_socket \<Rightarrow> connect_ec \<times> 'w connect_socket" where
  "socket_connect os e s = (let (open_ec, s1) = (if is_open s then (Success, s) else do_open os e s)
     in if open_ec \<noteq> Success then (open_ec, s1)
        else (let (n, w) = connect_call os e (os_state s1) in (system_ec n, s1\<lparr>os_state := w\<rparr>)))"

section \<open>connect\<close>

definition default_connect_condition :: "connect_ec \<Rightarrow> 'e \<Rightarrow> bool" where
  "default_connect_condition ec e = True"

function call_connect_condition :: "(connect_ec \<Rightarrow> 'e \<Rightarrow> bool) \<Rightarrow> connect_ec \<Rightarrow> 'e list \<Rightarrow> nat \<Rightarrow> nat" where
  "call_connect_condition cond ec es i = (if i < length es then if cond ec (es ! i) then i else call_connect_condition cond ec es (Suc i) else length es)"
  by pat_completeness auto
termination by (relation "measure (\<lambda>(cond, ec, es, i). length es - i)") auto

declare call_connect_condition.simps [simp del]

lemma condition_after: "i \<le> length es \<Longrightarrow> i \<le> call_connect_condition cond ec es i \<and> call_connect_condition cond ec es i \<le> length es"
proof (induction cond ec es i rule: call_connect_condition.induct)
  case (1 cond ec es i)
  then show ?case by (subst (1 2) call_connect_condition.simps) auto
qed

text \<open>The end of the loop, at the end of the sequence or when the condition accepts no more endpoint.\<close>

definition connect_failed :: "'e list \<Rightarrow> connect_ec \<Rightarrow> 's \<Rightarrow> nat \<times> connect_ec \<times> 's" where
  "connect_failed es ec s = (length es, if ec = Success then NotFound else ec, s)"

function connect_loop :: "('e, 'w) socket_calls \<Rightarrow> (connect_ec \<Rightarrow> 'e \<Rightarrow> bool) \<Rightarrow> 'e list \<Rightarrow> nat \<Rightarrow> connect_ec \<Rightarrow> 'w connect_socket \<Rightarrow>
    nat \<times> connect_ec \<times> 'w connect_socket" where
  "connect_loop os cond es i ec s = (if i < length es then
     (let j = call_connect_condition cond ec es i
      in if j < length es then
           (let (close_ec, s1) = socket_close os s; (ec2, s2) = socket_connect os (es ! j) s1
            in if ec2 = Success then (j, ec2, s2) else connect_loop os cond es (Suc j) ec2 s2)
         else connect_failed es ec s)
     else connect_failed es ec s)"
  by pat_completeness auto
termination
proof (relation "measure (\<lambda>(os, cond, es, i, ec, s). length es - i)", goal_cases)
  case (2 os cond es i ec s j x s1 ec1 y ec2 s2)
  then have "i \<le> j" using condition_after [of i es cond ec] by simp
  then show ?case using 2(1) by simp
qed simp

declare connect_loop.simps [simp del]

definition connect_iterator :: "('e, 'w) socket_calls \<Rightarrow> (connect_ec \<Rightarrow> 'e \<Rightarrow> bool) \<Rightarrow> 'e list \<Rightarrow> 'w connect_socket \<Rightarrow> nat \<times> connect_ec \<times> 'w connect_socket" where
  "connect_iterator os cond es s = connect_loop os cond es 0 Success s"

text \<open>The endpoint of the result; \<open>None\<close> is an endpoint that was default constructed.\<close>

definition deref_connect_result :: "'e list \<Rightarrow> nat \<Rightarrow> connect_ec \<Rightarrow> 'e option" where
  "deref_connect_result es i ec = (if ec \<noteq> Success then None else Some (es ! i))"

definition connect_range :: "('e, 'w) socket_calls \<Rightarrow> (connect_ec \<Rightarrow> 'e \<Rightarrow> bool) \<Rightarrow> 'e list \<Rightarrow> 'w connect_socket \<Rightarrow> 'e option \<times> connect_ec \<times> 'w connect_socket" where
  "connect_range os cond es s = (let (i, ec, s1) = connect_iterator os cond es s in (deref_connect_result es i ec, ec, s1))"

definition connect_default :: "('e, 'w) socket_calls \<Rightarrow> 'e list \<Rightarrow> 'w connect_socket \<Rightarrow> 'e option \<times> connect_ec \<times> 'w connect_socket" where
  "connect_default os es s = connect_range os default_connect_condition es s"

definition connect_throwing :: "('e, 'w) socket_calls \<Rightarrow> 'e list \<Rightarrow> 'w connect_socket \<Rightarrow> (connect_ec + 'e option) \<times> 'w connect_socket" where
  "connect_throwing os es s = (let (e, ec, s1) = connect_default os es s in (if ec \<noteq> Success then Inl ec else Inr e, s1))"

section \<open>async_connect\<close>

text \<open>The operation waits for its handler to run with an error code: of an attempt that the reactor has (\<open>True\<close>), or posted. Then it has finished, with what
  the user's handler gets.\<close>

datatype 'e connect_phase = Waiting bool connect_ec | Finished connect_ec "'e option"

record ('e, 'w) connect_op =
  op_index :: nat
  op_socket :: "'w connect_socket"
  op_phase :: "'e connect_phase"
  op_cancelled :: bool

text \<open>\<open>basic_socket::async_connect\<close>: the attempt that the operating system completes later.\<close>

definition initiate_connect :: "('e, 'w) socket_calls \<Rightarrow> 'e \<Rightarrow> ('e, 'w) connect_op \<Rightarrow> ('e, 'w) connect_op" where
  "initiate_connect os e t = (let (open_ec, s1) = (if is_open (op_socket t) then (Success, op_socket t) else do_open os e (op_socket t))
     in if open_ec \<noteq> Success then t\<lparr>op_socket := s1, op_phase := Waiting False open_ec\<rparr>
        else (let (n, w) = connect_call os e (os_state s1) in t\<lparr>op_socket := s1\<lparr>os_state := w\<rparr>, op_phase := Waiting True (system_ec n)\<rparr>))"

text \<open>The head of the loop in \<open>process\<close>.\<close>

definition try_next :: "('e, 'w) socket_calls \<Rightarrow> (connect_ec \<Rightarrow> 'e \<Rightarrow> bool) \<Rightarrow> 'e list \<Rightarrow> bool \<Rightarrow> connect_ec \<Rightarrow> ('e, 'w) connect_op \<Rightarrow> ('e, 'w) connect_op" where
  "try_next os cond es start ec t = (let j = call_connect_condition cond ec es (op_index t); t1 = t\<lparr>op_index := j\<rparr>
     in if j < length es then initiate_connect os (es ! j) (t1\<lparr>op_socket := snd (socket_close os (op_socket t1))\<rparr>)
        else if start then t1\<lparr>op_phase := Waiting False NotFound\<rparr>
        else t1\<lparr>op_phase := Finished ec None\<rparr>)"

text \<open>The default label, where the handler of an attempt resumes.\<close>

definition resume_connect :: "('e, 'w) socket_calls \<Rightarrow> (connect_ec \<Rightarrow> 'e \<Rightarrow> bool) \<Rightarrow> 'e list \<Rightarrow> connect_ec \<Rightarrow> ('e, 'w) connect_op \<Rightarrow> ('e, 'w) connect_op" where
  "resume_connect os cond es ec t =
     (if op_index t = length es then t\<lparr>op_phase := Finished ec None\<rparr>
      else if \<not> is_open (op_socket t) then t\<lparr>op_phase := Finished operation_aborted None\<rparr>
      else if ec = Success then t\<lparr>op_phase := Finished ec (Some (es ! op_index t))\<rparr>
      else if op_cancelled t then t\<lparr>op_phase := Finished operation_aborted None\<rparr>
      else try_next os cond es False ec (t\<lparr>op_index := Suc (op_index t)\<rparr>))"

definition start_connect :: "('e, 'w) socket_calls \<Rightarrow> (connect_ec \<Rightarrow> 'e \<Rightarrow> bool) \<Rightarrow> 'e list \<Rightarrow> 'w connect_socket \<Rightarrow> ('e, 'w) connect_op" where
  "start_connect os cond es s = try_next os cond es True Success \<lparr>op_index = 0, op_socket = s, op_phase = Waiting False Success, op_cancelled = False\<rparr>"

text \<open>While the operation waits, the program can close the socket or emit a cancellation signal. Either aborts the attempt, unless its result is
  there already.\<close>

datatype connect_action = Resume | CloseSocket bool | CancelConnect bool

definition abort_attempt :: "bool \<Rightarrow> 'e connect_phase \<Rightarrow> 'e connect_phase" where
  "abort_attempt hit p = (case p of Waiting True ec \<Rightarrow> Waiting True (if hit then operation_aborted else ec) | _ \<Rightarrow> p)"

fun connect_step :: "('e, 'w) socket_calls \<Rightarrow> (connect_ec \<Rightarrow> 'e \<Rightarrow> bool) \<Rightarrow> 'e list \<Rightarrow> ('e, 'w) connect_op \<Rightarrow> connect_action \<Rightarrow> ('e, 'w) connect_op option" where
  "connect_step os cond es t Resume = (case op_phase t of Waiting r ec \<Rightarrow> Some (resume_connect os cond es ec t) | Finished ec e \<Rightarrow> None)"
| "connect_step os cond es t (CloseSocket hit) = (case op_phase t of
     Waiting r ec \<Rightarrow> Some (t\<lparr>op_socket := snd (socket_close os (op_socket t)), op_phase := abort_attempt hit (op_phase t)\<rparr>) | Finished ec e \<Rightarrow> None)"
| "connect_step os cond es t (CancelConnect hit) = (case op_phase t of
     Waiting r ec \<Rightarrow> Some (t\<lparr>op_cancelled := True, op_phase := abort_attempt hit (op_phase t)\<rparr>) | Finished ec e \<Rightarrow> None)"

section \<open>The specification\<close>

text \<open>Each endpoint in turn that the condition accepts, until one connects; else the error of the last attempt.\<close>

fun connect_each :: "('e, 'w) socket_calls \<Rightarrow> (connect_ec \<Rightarrow> 'e \<Rightarrow> bool) \<Rightarrow> 'e list \<Rightarrow> connect_ec \<Rightarrow> 'w connect_socket \<Rightarrow> 'e option \<times> connect_ec \<times> 'w connect_socket" where
  "connect_each os cond [] ec s = (None, if ec = Success then NotFound else ec, s)"
| "connect_each os cond (e # es) ec s = (if \<not> cond ec e then connect_each os cond es ec s
     else (let (ec2, s2) = socket_connect os e (snd (socket_close os s)) in if ec2 = Success then (Some e, ec2, s2) else connect_each os cond es ec2 s2))"

lemma condition_at_end: "length es \<le> i \<Longrightarrow> call_connect_condition cond ec es i = length es"
  by (subst call_connect_condition.simps) simp

lemma each_skips:
  "i \<le> length es \<Longrightarrow> connect_each os cond (drop i es) ec s = connect_each os cond (drop (call_connect_condition cond ec es i) es) ec s"
proof (induction cond ec es i rule: call_connect_condition.induct)
  case (1 cond ec es i)
  show ?case
  proof (cases "i < length es \<and> \<not> cond ec (es ! i)")
    case True
    then have "call_connect_condition cond ec es i = call_connect_condition cond ec es (Suc i)" by (subst call_connect_condition.simps) simp
    then show ?thesis using 1 True by (simp add: Cons_nth_drop_Suc [symmetric])
  next
    case False
    then have "i < length es \<Longrightarrow> call_connect_condition cond ec es i = i" by (subst call_connect_condition.simps) auto
    then show ?thesis using False \<open>i \<le> length es\<close> condition_at_end [of es i cond ec] by (cases "i < length es") auto
  qed
qed

lemma condition_holds: "call_connect_condition cond ec es i < length es \<Longrightarrow> cond ec (es ! call_connect_condition cond ec es i)"
proof (induction cond ec es i rule: call_connect_condition.induct)
  case (1 cond ec es i)
  show ?case
  proof (cases "i < length es \<and> \<not> cond ec (es ! i)")
    case True
    then have "call_connect_condition cond ec es i = call_connect_condition cond ec es (Suc i)" by (subst call_connect_condition.simps) simp
    then show ?thesis using 1 True by simp
  next
    case False
    then have "i < length es \<Longrightarrow> call_connect_condition cond ec es i = i" by (subst call_connect_condition.simps) auto
    then show ?thesis using False 1(2) condition_at_end [of es i cond ec] by (cases "i < length es") auto
  qed
qed

text \<open>One round of the specification from an index.\<close>

lemma each_at:
  assumes "i \<le> length es" "j = call_connect_condition cond ec es i"
  shows "connect_each os cond (drop i es) ec s =
    (if j < length es then (let (ec2, s2) = socket_connect os (es ! j) (snd (socket_close os s))
       in if ec2 = Success then (Some (es ! j), ec2, s2) else connect_each os cond (drop (Suc j) es) ec2 s2)
     else (None, if ec = Success then NotFound else ec, s))"
proof (cases "j < length es")
  case True
  then have "cond ec (es ! j)" using condition_holds assms(2) by simp
  then show ?thesis using True each_skips [OF assms(1), of os cond ec s] assms(2) by (auto simp: Cons_nth_drop_Suc [symmetric] split: prod.splits)
next
  case False
  then show ?thesis using each_skips [OF assms(1), of os cond ec s] assms(2) by simp
qed

lemma connect_loop_at:
  assumes "socket_connect os (es ! call_connect_condition cond ec es i) (snd (socket_close os s)) = (ec2, s2)"
  shows "connect_loop os cond es i ec s = (if i < length es \<and> call_connect_condition cond ec es i < length es
    then if ec2 = Success then (call_connect_condition cond ec es i, ec2, s2) else connect_loop os cond es (Suc (call_connect_condition cond ec es i)) ec2 s2
    else connect_failed es ec s)"
  using assms by (cases "socket_close os s"; subst connect_loop.simps) (simp add: Let_def)

lemma connect_loop_each:
  "i \<le> length es \<Longrightarrow> connect_loop os cond es i ec s = (j, ec1, s1) \<Longrightarrow> connect_each os cond (drop i es) ec s = (deref_connect_result es j ec1, ec1, s1)"
proof (induction "length es - i" arbitrary: i ec s rule: less_induct)
  case less
  define k where "k = call_connect_condition cond ec es i"
  have k: "i \<le> k" "k \<le> length es" using condition_after [OF less(2), of cond ec] by (simp_all add: k_def)
  obtain ec2 s2 where c: "socket_connect os (es ! k) (snd (socket_close os s)) = (ec2, s2)" by fastforce
  note at = connect_loop_at [OF c [unfolded k_def], folded k_def] and spec = each_at [OF less(2) k_def, of os s]
  show ?case
  proof (cases "i < length es \<and> k < length es \<and> ec2 \<noteq> Success")
    case True
    then have "connect_each os cond (drop (Suc k) es) ec2 s2 = (deref_connect_result es j ec1, ec1, s1)"
      using less(3) at k by (intro less(1)) auto
    then show ?thesis using spec True c by simp
  next
    case False
    then show ?thesis using less(2,3) at spec k c by (auto simp: connect_failed_def deref_connect_result_def split: if_splits)
  qed
qed

lemma connect_range_each: "connect_range os cond es s = connect_each os cond es Success s"
  using connect_loop_each [of 0 es os cond Success s] by (auto simp: connect_range_def connect_iterator_def split: prod.splits)

section \<open>The asynchronous operation\<close>

text \<open>Its handler runs until it has finished, without the program doing anything to the socket.\<close>

fun run_connect :: "nat \<Rightarrow> ('e, 'w) socket_calls \<Rightarrow> (connect_ec \<Rightarrow> 'e \<Rightarrow> bool) \<Rightarrow> 'e list \<Rightarrow> ('e, 'w) connect_op \<Rightarrow> ('e, 'w) connect_op" where
  "run_connect 0 os cond es t = t"
| "run_connect (Suc n) os cond es t = (case op_phase t of Waiting r ec \<Rightarrow> run_connect n os cond es (resume_connect os cond es ec t) | Finished ec e \<Rightarrow> t)"

lemma run_finished [simp]: "op_phase t = Finished ec e \<Longrightarrow> run_connect n os cond es t = t"
  by (cases n) simp_all

definition opens_succeed :: "('e, 'w) socket_calls \<Rightarrow> bool" where
  "opens_succeed os \<longleftrightarrow> (\<forall>e w. fst (open_call os e w) = 0)"

lemma closed_after [simp]: "\<not> is_open (snd (socket_close os s))"
  by (simp add: socket_close_def split: prod.splits)

text \<open>An attempt on a socket that was closed: both make the same calls.\<close>

lemma attempt_same:
  assumes "opens_succeed os" "\<not> is_open (op_socket t)" "socket_connect os e (op_socket t) = (ec, s)"
  shows "initiate_connect os e t = t\<lparr>op_socket := s, op_phase := Waiting True ec\<rparr> \<and> is_open s"
proof -
  have "fst (open_call os e (os_state (op_socket t))) = 0" using assms(1) by (simp add: opens_succeed_def)
  then show ?thesis using assms(2,3) by (auto simp: initiate_connect_def socket_connect_def do_open_def system_ec_def Let_def split: prod.splits)
qed

definition finished_as :: "('e, 'w) connect_op \<Rightarrow> 'e option \<times> connect_ec \<times> 'w connect_socket \<Rightarrow> bool" where
  "finished_as t r \<longleftrightarrow> (case r of (e, ec, s) \<Rightarrow> op_phase t = Finished ec e \<and> op_socket t = s)"

lemma run_longer: "finished_as (run_connect n os cond es t) r \<Longrightarrow> n \<le> m \<Longrightarrow> finished_as (run_connect m os cond es t) r"
proof (induction n arbitrary: t m)
  case 0
  then show ?case by (cases r) (simp add: finished_as_def)
next
  case (Suc n)
  then show ?case by (cases m) (auto split: connect_phase.splits)
qed

lemma try_next_each:
  assumes "opens_succeed os" "\<not> op_cancelled t" "op_index t \<le> length es" "ec \<noteq> Success \<or> start"
    "start \<longrightarrow> ec = Success"
  shows "finished_as (run_connect (Suc (length es - op_index t)) os cond es (try_next os cond es start ec t)) (connect_each os cond (drop (op_index t) es) ec (op_socket t))"
  using assms(2-5)
proof (induction "length es - op_index t" arbitrary: t ec start rule: less_induct)
  case less
  define k where "k = call_connect_condition cond ec es (op_index t)"
  have k: "op_index t \<le> k" "k \<le> length es" using condition_after [OF less(3), of cond ec] by (simp_all add: k_def)
  obtain ec2 s2 where c: "socket_connect os (es ! k) (snd (socket_close os (op_socket t))) = (ec2, s2)" by fastforce
  note spec = each_at [OF less(3) k_def, of os "op_socket t"]
  show ?case
  proof (cases "k < length es")
    case True
    let ?t = "t\<lparr>op_index := k, op_socket := s2, op_phase := Waiting True ec2\<rparr>"
    have t: "try_next os cond es start ec t = ?t" "is_open s2"
      using attempt_same [OF assms(1), of "t\<lparr>op_index := k, op_socket := snd (socket_close os (op_socket t))\<rparr>" "es ! k" ec2 s2] c True
      by (simp_all add: try_next_def k_def [symmetric] Let_def)
    show ?thesis
    proof (cases "ec2 = Success")
      case s: True
      then show ?thesis using spec True c t by (simp add: resume_connect_def finished_as_def)
    next
      case s: False
      let ?u = "?t\<lparr>op_index := Suc k\<rparr>"
      have ih: "finished_as (run_connect (Suc (length es - Suc k)) os cond es (try_next os cond es False ec2 ?u)) (connect_each os cond (drop (Suc k) es) ec2 s2)"
        using less(1) [of ?u ec2 False] k True less(2) s by simp
      have r: "resume_connect os cond es ec2 ?t = try_next os cond es False ec2 ?u" using True t(2) s less(2) by (simp add: resume_connect_def)
      have m: "Suc (length es - Suc k) \<le> length es - op_index t" using k True by linarith
      have "finished_as (run_connect (length es - op_index t) os cond es (resume_connect os cond es ec2 ?t)) (connect_each os cond (drop (Suc k) es) ec2 s2)"
        unfolding r by (rule run_longer [OF ih m])
      moreover have "run_connect (Suc (length es - op_index t)) os cond es ?t = run_connect (length es - op_index t) os cond es (resume_connect os cond es ec2 ?t)" by simp
      ultimately show ?thesis unfolding spec t(1) using True c s by (simp only: if_True if_False prod.case Let_def)
    qed
  next
    case False
    then show ?thesis using spec less(4,5) k by (auto simp: try_next_def k_def [symmetric] Let_def resume_connect_def finished_as_def)
  qed
qed

text \<open>In any interleaving with what the program does to the socket.\<close>

definition resumes_left :: "'e list \<Rightarrow> ('e, 'w) connect_op \<Rightarrow> nat" where
  "resumes_left es t = (case op_phase t of Waiting r ec \<Rightarrow> Suc (length es - op_index t) | Finished ec e \<Rightarrow> 0)"

definition connect_ok :: "(connect_ec \<Rightarrow> 'e \<Rightarrow> bool) \<Rightarrow> 'e list \<Rightarrow> ('e, 'w) connect_op \<Rightarrow> bool" where
  "connect_ok cond es t \<longleftrightarrow> op_index t \<le> length es \<and> (\<forall>ec. op_phase t = Waiting True ec \<longrightarrow> op_index t < length es) \<and> op_phase t \<noteq> Waiting False Success \<and>
     (op_index t < length es \<longrightarrow> (\<exists>ec. cond ec (es ! op_index t))) \<and>
     (\<forall>e. op_phase t = Finished Success e \<longrightarrow> op_index t < length es \<and> e = Some (es ! op_index t) \<and> is_open (op_socket t)) \<and>
     (\<forall>ec e. op_phase t = Finished ec e \<longrightarrow> ec \<noteq> Success \<longrightarrow> e = None)"

lemma initiate_frame: "op_index (initiate_connect os e t) = op_index t" "\<exists>r ec. op_phase (initiate_connect os e t) = Waiting r ec \<and> (r \<or> ec \<noteq> Success)"
  "op_cancelled (initiate_connect os e t) = op_cancelled t"
  by (auto simp: initiate_connect_def Let_def split: prod.splits)

lemma try_next_ok:
  assumes "op_index t \<le> length es" "ec \<noteq> Success \<or> start"
  shows "connect_ok cond es (try_next os cond es start ec t) \<and> resumes_left es (try_next os cond es start ec t) \<le> Suc (length es - op_index t)"
proof -
  define k where "k = call_connect_condition cond ec es (op_index t)"
  have k: "op_index t \<le> k" "k \<le> length es" using condition_after [OF assms(1), of cond ec] by (simp_all add: k_def)
  have h: "k < length es \<Longrightarrow> cond ec (es ! k)" using condition_holds [of cond ec es "op_index t"] by (simp add: k_def)
  show ?thesis
  proof (cases "k < length es")
    case True
    let ?v = "t\<lparr>op_index := k, op_socket := snd (socket_close os (op_socket t))\<rparr>"
    have "try_next os cond es start ec t = initiate_connect os (es ! k) ?v" using True by (simp add: try_next_def k_def [symmetric] Let_def)
    then show ?thesis using initiate_frame [of os "es ! k" ?v] True k h by (auto simp: connect_ok_def resumes_left_def)
  next
    case False
    then show ?thesis using assms k by (auto simp: try_next_def k_def [symmetric] Let_def connect_ok_def resumes_left_def)
  qed
qed

lemma resume_ok:
  assumes "connect_ok cond es t" "op_phase t = Waiting r ec"
  shows "connect_ok cond es (resume_connect os cond es ec t) \<and> resumes_left es (resume_connect os cond es ec t) < resumes_left es t"
proof (cases "op_index t = length es \<or> \<not> is_open (op_socket t) \<or> ec = Success \<or> op_cancelled t")
  case True
  then show ?thesis using assms by (auto simp: resume_connect_def connect_ok_def resumes_left_def operation_aborted_def)
next
  case False
  have i: "op_index t < length es" using False assms(1) by (auto simp: connect_ok_def)
  then show ?thesis using False assms(2) try_next_ok [of "t\<lparr>op_index := Suc (op_index t)\<rparr>" es ec False cond os]
    by (auto simp: resume_connect_def resumes_left_def)
qed

lemma connect_step_ok:
  assumes "connect_ok cond es t" "connect_step os cond es t a = Some u"
  shows "connect_ok cond es u \<and> (if a = Resume then resumes_left es u < resumes_left es t else resumes_left es u = resumes_left es t)"
proof (cases a)
  case Resume
  then obtain r ec where "op_phase t = Waiting r ec" "u = resume_connect os cond es ec t" using assms(2) by (auto split: connect_phase.splits)
  then show ?thesis using resume_ok [OF assms(1)] Resume by simp
next
  case (CloseSocket hit)
  then show ?thesis using assms
    by (cases "op_phase t") (auto simp: connect_ok_def resumes_left_def abort_attempt_def operation_aborted_def split: bool.splits if_splits)
next
  case (CancelConnect hit)
  then show ?thesis using assms
    by (cases "op_phase t") (auto simp: connect_ok_def resumes_left_def abort_attempt_def operation_aborted_def split: bool.splits if_splits)
qed

lemma connect_run_ok:
  "connect_ok cond es t \<Longrightarrow> run (connect_step os cond es) t as = Some u \<Longrightarrow>
     connect_ok cond es u \<and> length (filter (\<lambda>a. a = Resume) as) + resumes_left es u \<le> resumes_left es t"
proof (induction as arbitrary: t)
  case (Cons a as)
  from Cons.prems obtain v where v: "connect_step os cond es t a = Some v" "run (connect_step os cond es) v as = Some u" by (auto split: option.splits)
  show ?case using Cons.IH [OF _ v(2)] connect_step_ok [OF Cons.prems(1) v(1)] by (auto split: if_splits)
qed simp

lemma start_connect_ok: "connect_ok cond es (start_connect os cond es s) \<and> resumes_left es (start_connect os cond es s) \<le> Suc (length es)"
  unfolding start_connect_def
  using try_next_ok [of "\<lparr>op_index = 0, op_socket = s, op_phase = Waiting False Success, op_cancelled = False\<rparr>" es Success True cond os] by simp

lemma resume_stops: "op_cancelled t \<or> \<not> is_open (op_socket t) \<Longrightarrow> \<exists>ec1 e. op_phase (resume_connect os cond es ec t) = Finished ec1 e"
  by (auto simp: resume_connect_def)

section \<open>What connecting promises\<close>

text \<open>C19: \<open>async_connect\<close>, left alone, gives the endpoint, the error code and the socket of \<open>connect\<close>, and both are the specification: the endpoints that
  the condition accepts, one by one until one connects, with the last error, or \<open>not_found\<close> when none was tried. It takes one run of its handler for
  each endpoint and one more. This needs that opening a socket never fails.\<close>
theorem async_connect_is_sync:
  assumes "opens_succeed os"
  shows "\<exists>e ec s1. connect_each os cond es Success s = (e, ec, s1) \<and> connect_range os cond es s = (e, ec, s1) \<and>
    op_phase (run_connect (Suc (length es)) os cond es (start_connect os cond es s)) = Finished ec e \<and>
    op_socket (run_connect (Suc (length es)) os cond es (start_connect os cond es s)) = s1"
proof -
  obtain e ec s1 where r: "connect_each os cond es Success s = (e, ec, s1)" by (metis prod_cases3)
  have "finished_as (run_connect (Suc (length es)) os cond es (start_connect os cond es s)) (e, ec, s1)"
    using try_next_each [OF assms, of "\<lparr>op_index = 0, op_socket = s, op_phase = Waiting False Success, op_cancelled = False\<rparr>" es Success True cond]
    by (simp add: start_connect_def r)
  then show ?thesis using r connect_range_each [of os cond es s] by (simp add: finished_as_def)
qed

text \<open>C28: Whatever the program does to the socket while \<open>async_connect\<close> runs, closing it or emitting a cancellation, the operation's handler runs at most once for
  each endpoint and once more; when it has been cancelled or its socket is closed, the next run ends it; and when it ends with success it gives an endpoint of the sequence that the
  condition accepted, and the socket is open.\<close>
theorem async_connect_ends:
  assumes "run (connect_step os cond es) (start_connect os cond es s) as = Some t"
  shows "length (filter (\<lambda>a. a = Resume) as) \<le> Suc (length es) \<and>
    (op_cancelled t \<or> \<not> is_open (op_socket t) \<longrightarrow> (\<forall>u. connect_step os cond es t Resume = Some u \<longrightarrow> (\<exists>ec e. op_phase u = Finished ec e))) \<and>
    (\<forall>e. op_phase t = Finished Success e \<longrightarrow> (\<exists>i < length es. e = Some (es ! i) \<and> (\<exists>ec. cond ec (es ! i))) \<and> is_open (op_socket t))"
proof -
  have ok: "connect_ok cond es t" "length (filter (\<lambda>a. a = Resume) as) \<le> Suc (length es)"
    using connect_run_ok [OF _ assms] start_connect_ok [of cond es os s] by (auto intro: le_trans)
  have "\<exists>ec e. op_phase u = Finished ec e" if "op_cancelled t \<or> \<not> is_open (op_socket t)" "connect_step os cond es t Resume = Some u" for u
    using resume_stops [OF that(1)] that(2) by (auto split: connect_phase.splits)
  then show ?thesis using ok by (auto simp: connect_ok_def)
qed

text \<open>Three endpoints, given by their ports: the first refuses the connection, a socket for the third cannot be opened. The system's state is the log of its calls.\<close>

definition some_ports :: "(int, (string \<times> int) list) socket_calls" where
  "some_ports = \<lparr>open_call = (\<lambda>e w. (0, w @ [(''open'', e)])), connect_call = (\<lambda>e w. (if e = 81 then 111 else 0, w @ [(''connect'', e)])), close_call = (\<lambda>w. (0, w @ [(''close'', 0)]))\<rparr>"

definition no_v6 :: "(int, (string \<times> int) list) socket_calls" where
  "no_v6 = some_ports\<lparr>open_call := \<lambda>e w. (if e = 6 then 97 else 0, w @ [(''open'', e)])\<rparr>"

definition unopened :: "(string \<times> int) list connect_socket" where
  "unopened = \<lparr>is_open = False, os_state = []\<rparr>"

lemmas connect_eval = some_ports_def no_v6_def unopened_def start_connect_def try_next_def call_connect_condition.simps initiate_connect_def resume_connect_def socket_close_def do_open_def
  socket_connect_def system_ec_def default_connect_condition_def operation_aborted_def abort_attempt_def

theorem async_connect_is_sync_witness:
  "opens_succeed some_ports \<and> op_phase (run_connect 3 some_ports default_connect_condition [81, 80] (start_connect some_ports default_connect_condition [81, 80] unopened)) =
     Finished Success (Some 80)"
proof -
  have "opens_succeed some_ports" by (simp add: opens_succeed_def some_ports_def)
  then show ?thesis using async_connect_is_sync [of some_ports default_connect_condition "[81, 80]" unopened]
    by (auto simp: connect_eval eval_nat_numeral)
qed

theorem async_connect_ends_witness:
  "\<exists>t. run (connect_step some_ports default_connect_condition [81, 80]) (start_connect some_ports default_connect_condition [81, 80] unopened) [Resume, CancelConnect True, Resume] = Some t \<and>
     length (filter (\<lambda>a. a = Resume) [Resume, CancelConnect True, Resume]) \<le> Suc (length [81 :: int, 80]) \<and> op_phase t = Finished operation_aborted None"
proof -
  obtain t where t: "run (connect_step some_ports default_connect_condition [81, 80]) (start_connect some_ports default_connect_condition [81, 80] unopened)
      [Resume, CancelConnect True, Resume] = Some t" "op_phase t = Finished operation_aborted None"
    by (simp add: connect_eval)
  then show ?thesis using async_connect_ends [OF t(1)] by blast
qed

text \<open>When the socket for an endpoint cannot be opened, the two differ: \<open>connect\<close> goes on to the next endpoint, \<open>async_connect\<close> finds its socket closed, takes that for the
  program's doing, and reports an aborted operation without having tried the next.\<close>
theorem async_connect_stops_at_failed_open:
  "connect_default no_v6 [6, 4] unopened = (Some 4, Success, \<lparr>is_open = True, os_state = [(''open'', 6), (''open'', 4), (''connect'', 4)]\<rparr>) \<and>
   (let t = run_connect 3 no_v6 default_connect_condition [6, 4] (start_connect no_v6 default_connect_condition [6, 4] unopened)
    in op_phase t = Finished operation_aborted None \<and> os_state (op_socket t) = [(''open'', 6)])"
  by (simp add: connect_default_def connect_range_each connect_eval eval_nat_numeral)

end
