(* ===== verification/Spec2Isabelle.thy ===== *)
theory Spec2Isabelle
  imports MyOptional MyArray Generators CoroRet TaskCoro
    SafeStack CSPChannel Alternation SafeQueue LockFreeStack SpinLock Singleton Semaphore Interruptible
    Traversal Futures Litmus ChatMessage ChatServer ChatClient HttpClient EchoServers Timers Daytime
    Constructors Folds HasFoo AsioTimerRefine AsioTransferRefine AsioReadUntil AsioBuffers AsioStrand AsioOpQueue AsioWakeups AsioIpText AsioChannelQueue
    AsioReactorQueue AsioTimeTraits AsioServices AsioReactorEvents AsioBufferedTransfer AsioSignalSets AsioGroups AsioConnect
begin

text \<open>
  A verification development for the LearningModernCpp repository, and for the parts of the
  Asio library beside it (\<open>include/asio\<close>) that the repository's network programs run on.

  \<^bold>\<open>The program.\<close> The repository is a collection of components and small programs
  around modern C++: two containers, four coroutine types, some twenty exercises with threads,
  a chat and other network programs on Asio, and language experiments. They are independent of
  each other, except that the network programs call Asio. A theory models one component, with
  its state as a record, its operations as functions and, where threads or
  handlers interleave, a step of one thread or one handler as a function of state and
  thread, whose runs are the reachable states.

  \<^bold>\<open>Foundations.\<close> \<open>Prelude\<close> has the reachable states of a step relation and the
  locale \<open>invariant_system\<close> (a start state and a preserved invariant give a property of every
  reachable state), which every invariant of the development is an interpretation of.
  \<open>Threads\<close> has mutexes, condition variables and thread states, \<open>Monitor\<close> a machine of threads
  that run operations under one mutex with condition variables; its locales \<open>monitor_contract\<close>
  (the data's sequential specification) and \<open>wakeup_contract\<close> (who waits on which variable
  and who notifies it) give linearisability and absence of lost wake-ups. \<open>CxxText\<close> has number and
  text formatting, \<open>ArrayHeap\<close> the heap order of an array, its swaps and the facts of up and down moves.

  \<^bold>\<open>Containers and coroutines.\<close>
  \<open>MyOptional\<close>: \<open>container/myoptional.h\<close>, storage and flag over a heap of live values, refines
  the option type. \<open>MyArray\<close>: \<open>container/myarray.h\<close> with its iterators and bounds
  checks. \<open>Generators\<close>: \<open>coroutine/tsequencegenerator\<close> and \<open>coroutine/sequencegenerator\<close>,
  with \<open>value_source\<close>, the locale of what a loop over \<open>hasNext\<close> and \<open>next\<close> collects.
  \<open>CoroRet\<close>: \<open>coroutine/7in7out\<close>. \<open>TaskCoro\<close>: \<open>coroutine/task/task.h\<close>.

  \<^bold>\<open>Threads\<close> (\<open>multithread/\<close>).
  \<open>SafeStack\<close>, \<open>CSPChannel\<close> and \<open>Alternation\<close> (\<open>thread_safe_stack.h\<close>, \<open>csp_customer_productor.h\<close>,
  \<open>test_condition_variable.h\<close>) are instances of the monitor: linearisability, bounds and wake-ups.
  \<open>SafeQueue\<close>: the two-lock linked queue of \<open>thread_safe_queue.h\<close>, refined to a
  list (the queue delivers every value one place late), with its lost wake-up. \<open>LockFreeStack\<close>:
  the compare-and-swap stack of \<open>lock_free_stack.h\<close> on a heap of nodes, safe with one popping
  thread; its list of delayed nodes is never filled, and a second popping thread faults at its null head. \<open>SpinLock\<close>, \<open>Singleton\<close>, \<open>Semaphore\<close>, \<open>Interruptible\<close>, \<open>Futures\<close>
  (\<open>3way_async.h\<close>, \<open>shared_future.h\<close>, \<open>join_threads.h\<close>) and \<open>Traversal\<close> (the parallel traversals, equal to
  the sequential ones). \<open>Litmus\<close>: the memory order experiments, on a machine of the
  orderings they use.

  \<^bold>\<open>Network programs\<close> (\<open>asio_test/\<close>). \<open>ChatMessage\<close>, \<open>ChatServer\<close>, \<open>ChatClient\<close>: the
  frame format and its round trip, the server's sessions and room as a step relation over
  completed handlers, the client with its two threads. \<open>HttpClient\<close>: both HTTP clients, equal in what
  they print. \<open>EchoServers\<close>, \<open>Timers\<close>, \<open>Daytime\<close>: the echo programs, timers
  and daytime servers. The net is the sequence of segments a peer sends and the errors the system reports.

  \<^bold>\<open>Asio\<close> (\<open>include/asio/\<close>).
  \<open>AsioTimerQueue\<close> and \<open>AsioTimerRefine\<close>: the heap of pending timers
  (\<open>detail/timer_queue.hpp\<close>), with the back pointers of the timers into the heap and the list of
  timers, refined to a sorted multiset of deadlines: enqueue, expiry in order, cancellation, and the
  bounded wait. \<open>AsioTransfer\<close> and \<open>AsioTransferRefine\<close>: \<open>read\<close>, \<open>write\<close>, \<open>read_at\<close>, \<open>write_at\<close>
  and their asynchronous forms, over \<open>consuming_buffers\<close> and the completion conditions; the
  locales \<open>completion_stops\<close> (a condition that lets a complete transfer go on is none),
  \<open>transfer_device\<close> (a device transfers no more than it is given and progresses or fails) and \<open>transfer\<close>
  have the termination of the loop. \<open>AsioReadUntil\<close>: \<open>read_until\<close> and \<open>async_read_until\<close>; the locale
  \<open>incremental_match\<close> is what a search that resumes has to promise. \<open>AsioBuffers\<close>:
  \<open>basic_streambuf\<close>, the dynamic string and vector buffers, interpretations of the locale \<open>byte_buffer\<close>,
  which is refined to a queue of bytes, and \<open>buffer_copy\<close>. \<open>AsioStrand\<close>: the strand executor's and the
  strand's queues with threads that run them, functions that throw and the shutdown: no two handlers at once, each in
  order and, until the shutdown, every one run. \<open>AsioOpQueue\<close>: the intrusive queue, whose links are in the operations, as a list.
  \<open>AsioScheduler\<close>: the scheduler (\<open>detail/impl/scheduler.ipp\<close>) with its queue, the threads that run it, their
  private queues, the wake-up event and the counter of outstanding work; its invariant counts the work. \<open>AsioRun\<close>: in a
  program that is closed every posted handler is called once and the scheduler stops when the work is done. \<open>AsioWakeups\<close>:
  with \<open>run\<close> no handler waits while a thread sleeps that nobody will wake; with \<open>run_one\<close> one can.
  \<open>AsioAddress\<close>, \<open>AsioAddress6\<close>, \<open>AsioIpText\<close>: addresses, networks, masks, host ranges and iterators
  (\<open>ip/\<close>) and their texts, by the conversions that the library has for a platform without its own
  (\<open>socket_ops.ipp\<close>, \<open>inet_ntop\<close> and \<open>inet_pton\<close> in the branch of \<open>ASIO_WINDOWS_RUNTIME\<close>; the system's conversions are not modelled); the locale \<open>address_text\<close> is what the texts of networks use
  of those of addresses. \<open>AsioChannel\<close>: channels (\<open>experimental/detail/channel_service.hpp\<close>), parameterised by the
  record of a buffer's operations as the template is by the signature; \<open>AsioChannelQueue\<close>: the locale
  \<open>buffer_interface\<close>, its three interpretations, and the refinement of the channel, with the states of its two ends, to a
  bounded queue. \<open>AsioHashMap\<close>: the hash map (\<open>detail/hash_map.hpp\<close>), one list of entries with a run for each bucket, as a
  map; its locale \<open>value_semantics\<close> says what the copies and assignments of values must keep, and the interpretations are plain
  values and the queues of \<open>AsioReactorQueue\<close> (\<open>detail/reactor_op_queue.hpp\<close>), whose copies are empty: the operations that
  wait for a descriptor, refined to a function from descriptors to queues. \<open>AsioTimeTraits\<close>: the times and durations of the
  clocks in 64 bits (\<open>detail/chrono_time_traits.hpp\<close>, \<open>wait_traits.hpp\<close>), saturating, and the timer queue's waits computed from them.
  \<open>AsioServices\<close>: the registry of services with threads that construct services at the same time and constructors that
  use others: one service of a class, destroyed before those it uses.
  \<open>AsioReactor\<close>: the epoll reactor (\<open>detail/impl/epoll_reactor.ipp\<close>) at one descriptor, with the attempts to receive and to send on a socket whose
  system calls are a parameter. \<open>AsioReactorEvents\<close>: the locale \<open>polled_device\<close> is what the operations must promise the reactor, unless one has failed,
  for no operation to be forgotten; \<open>socket_contract\<close> is what the system must promise for the operations of a socket to do so, and a stream that ends and
  one that does not are its interpretations. Each operation is in one place on any system.
  \<open>AsioBufferedStreams\<close>: the buffered streams (\<open>buffered_read_stream.hpp\<close>, \<open>buffered_write_stream.hpp\<close>) over their storage, with the locales
  \<open>read_layer\<close> and \<open>write_layer\<close> of what the next layer promises: the bytes keep their order through any sequence of calls.
  \<open>AsioBufferedTransfer\<close> interprets them on a connection, and \<open>read\<close> over a buffered stream is \<open>read\<close> over the connection; its locale
  \<open>transfer_states\<close> gives the rule of the transfer loop for a device that keeps its contract only in the states it reaches.
  \<open>AsioSignals\<close>: the signal sets (\<open>detail/impl/signal_set_service.ipp\<close>): registrations, the process-wide handler, the pipe, waits and forks;
  \<open>AsioSignalSets\<close>: no signal is lost and no wait waits beside one, as long as a reactor reads the pipe, which a fork can end.
  \<open>AsioParallelGroup\<close>: the groups of operations launched together (\<open>experimental/impl/parallel_group.hpp\<close>), whose handlers run in any threads; a step is one
  access to the shared state. \<open>AsioGroupOrder\<close>, \<open>AsioGroupCancel\<close> and \<open>AsioGroups\<close>: the handler is called once, with the order and all outcomes, a
  cancellation is signalled once to each of the others, and every run ends.
  \<open>AsioConnect\<close>: \<open>connect\<close> and \<open>async_connect\<close> over a sequence of endpoints (\<open>impl/connect.hpp\<close>), equal as long as sockets can be opened.
  The programs' models meet these: \<open>read_fills_buffers\<close> gives the \<open>read_exact\<close> of the echo
  programs, \<open>read_until_refines_http\<close> the reads of the HTTP clients.

  \<^bold>\<open>Language experiments.\<close> \<open>Constructors\<close> (\<open>cpp_syntax/about_constructor.cpp\<close>: copies, moves and
  aliasing on a heap), \<open>Folds\<close> (\<open>modern_cpp/functional_programming.h\<close>, \<open>std_bind.h\<close>) and \<open>HasFoo\<close>
  (\<open>if_have_func_foo.h\<close>: which detector accepts which types).

  \<^bold>\<open>Loops, bounds and fuel.\<close> A loop that may not end is a \<open>partial_function\<close> into the option
  type, and that it returns is a theorem (\<open>get_ready_timers_correct\<close>, \<open>write_sends_everything\<close>,
  \<open>read_fills_buffers\<close>, \<open>read_until_finds_first\<close> and the locale \<open>transfer\<close>). A loop over handlers
  of a client has fuel (\<open>async_run\<close>), enough when it is the number of segments and
  six. \<open>explore\<close> visits every run of a memory order experiment to a depth; that no thread
  can step there is part of what it checks, so the depths 9 and 5 are enough. The up and down
  moves of the heap recurse over the index and the rest of the array. Machine integers
  are words where they wrap: sizes of 64 bits in the timer and buffer arithmetic, ticks of 64 bits whose overflow is \<open>None\<close>, \<open>int\<close> of 32 bits in the C++ exercises.

  \<^bold>\<open>What the findings show.\<close> The defects that modelling met are theorems where they can
  be: the lost wake-up and the shift of \<open>thread_safe_queue\<close>, the use after free of two popping threads,
  the interruptible thread whose constructor does not return, a failed \<open>prepare\<close> that moves the data of
  a stream buffer, the handlers that \<open>run_one\<close> leaves, the sender that a closed channel forgets, the error code that
  survives a reset, the read after the end of a stream,
  the flush that sends bytes twice, the service that a fork leaves deaf, the empty group that never completes,
  the asynchronous connect that gives up at a socket that cannot be opened. The manifest lists them with their lines.

  \<^bold>\<open>Not modelled.\<close> The rest of Asio: the set-up of the epoll reactor, its interrupter and the reactors of other systems (the
  scheduler's model takes what a reactor reports as a choice), the wrappers of socket, file and
  descriptor calls (the operating system is a parameter), executors, completion tokens, awaitables and traits (templates
  that adapt one call to another), the SSL bindings. Three headers of the repository are empty, the
  build files have no logic. The C++ library's allocation failures and the operating system's refusal to
  start a thread are left out, except where the code handles them.
  Resolvers and descriptors are thin over the operating system, and modelling them would be to model it.
\<close>

end
